(* ===== verification/Wire_Prelude.thy ===== *)
theory Wire_Prelude
  imports Main "HOL-Library.Word" "HOL-Library.Sublist"
begin

unbundle bit_operations_syntax

text \<open>
  Shared vocabulary of the development: machine integers and byte strings, the error
  types of \<^verbatim>\<open>moq-transport/src/coding/{decode,encode}.rs\<close>, the \<^verbatim>\<open>bytes::Buf\<close> and
  \<^verbatim>\<open>bytes::BufMut\<close> cursors the codecs read from and write to, the \<^verbatim>\<open>?\<close>-operator as
  a bind on sums, and the three contracts every codec of the program is measured
  against:
    \<^item> \<open>streams d p x\<close>: the decoder \<open>d\<close> reads exactly the bytes \<open>p\<close> as the value \<open>x\<close>,
      whatever follows, and asks for more (never for too much) on every proper prefix;
    \<^item> \<open>decoder d\<close>: \<open>d\<close> never panics, and each of its successes is such a read;
    \<^item> \<open>codec e d x\<close>: when the encoder \<open>e\<close> of \<open>x\<close> succeeds, the bytes it appends are
      read back as \<open>x\<close> by \<open>d\<close>.
  All three are closed under the \<^verbatim>\<open>?\<close>-sequencing the source uses, which is what makes
  the component proofs short.
\<close>

section \<open>Machine integers and buffers\<close>

type_synonym u8 = "8 word"
type_synonym u16 = "16 word"
type_synonym u32 = "32 word"
type_synonym u64 = "64 word"
type_synonym bytes = "u8 list"

text \<open>
  \<^verbatim>\<open>usize\<close> is 64 bits wide on the targets modelled; lengths are \<open>nat\<close>s and the two
  directions of the cast are written out where the source has them.

  The error enums keep the source's variants. \<open>DecPanic\<close> and \<open>EncPanic\<close> are not variants
  of the source: they are the outcome of a Rust panic (a \<^verbatim>\<open>get_\<close> or \<^verbatim>\<open>put_\<close> past the end
  of a buffer), kept as a value so that freedom from panics can be stated. The
  \<^verbatim>\<open>FromUtf8Error\<close> and \<^verbatim>\<open>io::Error\<close> payloads and the formatted tails of messages are
  diagnostics and are dropped.
\<close>

datatype decode_error =
    More nat
  | InvalidLength nat nat
  | InvalidString
  | InvalidMessage u64
  | InvalidSubscribeLocation
  | InvalidFilterType
  | InvalidFetchType
  | InvalidGroupOrder
  | InvalidObjectStatus
  | InvalidHeaderType
  | InvalidValue
  | BoundsExceeded
  | DuplicateParameter u64
  | MissingParameter
  | InvalidParameter
  | IoErr
  | KeyValuePairLengthExceeded
  | KvpTypeOverflow
  | FieldBoundsExceeded string
  | EmptyNamespaceField
  | TrackNameTooLong
  | InvalidDatagramType
  | InvalidSubscribeOptions u64
  | DecPanic

datatype encode_error =
    EncMore nat
  | EncBoundsExceeded
  | EncInvalidValue
  | EncMissingField string
  | EncIo
  | EncMsgBoundsExceeded
  | EncFieldBoundsExceeded string
  | EncKvpKeyOrder
  | EncKeyValuePairLengthExceeded
  | EncEmptyNamespaceField
  | EncPanic

text \<open>
  A \<^verbatim>\<open>BufMut\<close> is the bytes written so far and the room left (\<^verbatim>\<open>remaining_mut\<close>). A fresh
  \<^verbatim>\<open>Vec<u8>\<close> or \<^verbatim>\<open>BytesMut\<close> has room for \<open>isize::MAX\<close> bytes.
\<close>

record wbuf =
  wr_bytes :: bytes
  wr_room :: nat

type_synonym 'a dec = "bytes \<Rightarrow> decode_error + ('a \<times> bytes)"
type_synonym enc = "wbuf \<Rightarrow> encode_error + wbuf"

definition fresh_vec :: wbuf where
  "fresh_vec = \<lparr>wr_bytes = [], wr_room = 2 ^ 63 - 1\<rparr>"

section \<open>The question-mark operator\<close>

fun bindE :: "'e + 'a \<Rightarrow> ('a \<Rightarrow> 'e + 'b) \<Rightarrow> 'e + 'b" where
  "bindE (Inl e) f = Inl e"
| "bindE (Inr x) f = f x"

lemma bindE_cong [fundef_cong]:
  assumes "m = m'" and "\<And>x. m' = Inr x \<Longrightarrow> f x = f' x"
  shows "bindE m f = bindE m' f'"
  using assms by (cases m') auto

lemma bindE_eq_Inr [simp]: "bindE m f = Inr y \<longleftrightarrow> (\<exists>x. m = Inr x \<and> f x = Inr y)"
  by (cases m) auto

lemma bindE_eq_Inl: "bindE m f = Inl e \<longleftrightarrow> m = Inl e \<or> (\<exists>x. m = Inr x \<and> f x = Inl e)"
  by (cases m) auto

lemma bindE_assoc: "bindE (bindE m f) g = bindE m (\<lambda>x. bindE (f x) g)"
  by (cases m) auto

text \<open>\<^verbatim>\<open>Option::ok_or\<close> and the checked arithmetic of \<^verbatim>\<open>u64\<close>.\<close>

definition ok_or :: "'a option \<Rightarrow> 'e \<Rightarrow> 'e + 'a" where
  "ok_or x e = (case x of None \<Rightarrow> Inl e | Some a \<Rightarrow> Inr a)"

definition u64_checked_add :: "u64 \<Rightarrow> u64 \<Rightarrow> u64 option" where
  "u64_checked_add a b = (if unat a + unat b < 2 ^ 64 then Some (a + b) else None)"

definition u64_checked_sub :: "u64 \<Rightarrow> u64 \<Rightarrow> u64 option" where
  "u64_checked_sub a b = (if b \<le> a then Some (a - b) else None)"

lemma ok_or_simps [simp]: "ok_or None e = Inl e" "ok_or (Some a) e = Inr a"
  by (simp_all add: ok_or_def)

lemma ok_or_eq [simp]:
  "ok_or x e = Inr a \<longleftrightarrow> x = Some a" "ok_or x e = Inl e' \<longleftrightarrow> x = None \<and> e = e'"
  by (auto simp: ok_or_def split: option.splits)

lemma u64_add_sub: "b \<le> a \<Longrightarrow> u64_checked_add b (a - b) = Some a"
proof -
  assume le: "b \<le> a"
  then have "unat (a - b) = unat a - unat b" by (simp add: unat_sub)
  moreover have "unat b \<le> unat a" using le by (simp add: word_le_nat_alt)
  moreover have "unat a < 2 ^ LENGTH(64)" by (rule unsigned_less)
  ultimately show ?thesis by (simp add: u64_checked_add_def)
qed

lemma unat_checked_add: "u64_checked_add a b = Some c \<Longrightarrow> unat c = unat a + unat b"
  by (auto simp: u64_checked_add_def unat_word_ariths split: if_splits)

section \<open>Buffer primitives\<close>

definition decode_remaining :: "nat \<Rightarrow> unit dec" where
  "decode_remaining required r =
     (let needed = required - length r
      in if 0 < needed then Inl (More needed) else Inr ((), r))"

fun get_u8 :: "u8 dec" where
  "get_u8 [] = Inl DecPanic"
| "get_u8 (b # r) = Inr (b, r)"

definition copy_to_bytes :: "nat \<Rightarrow> bytes dec" where
  "copy_to_bytes n r = (if n \<le> length r then Inr (take n r, drop n r) else Inl DecPanic)"

definition encode_remaining :: "nat \<Rightarrow> enc" where
  "encode_remaining required w =
     (let needed = required - wr_room w
      in if 0 < needed then Inl (EncMore needed) else Inr w)"

definition put_slice :: "bytes \<Rightarrow> enc" where
  "put_slice bs w =
     (if length bs \<le> wr_room w
      then Inr (w\<lparr>wr_bytes := wr_bytes w @ bs, wr_room := wr_room w - length bs\<rparr>)
      else Inl EncPanic)"

abbreviation put_u8 :: "u8 \<Rightarrow> enc" where
  "put_u8 b \<equiv> put_slice [b]"

text \<open>
  The two call pairs every field codec makes: check the length, then copy
  (\<^verbatim>\<open>Self::decode_remaining(r, n)?; r.copy_to_slice(..)\<close>), and check the room, then write
  (\<^verbatim>\<open>Self::encode_remaining(w, n)?; w.put_slice(..)\<close>).
\<close>

definition read_exact :: "nat \<Rightarrow> bytes dec" where
  "read_exact n r = bindE (decode_remaining n r) (\<lambda>(_, r). copy_to_bytes n r)"

definition read_u8 :: "u8 dec" where
  "read_u8 r = bindE (decode_remaining 1 r) (\<lambda>(_, r). get_u8 r)"

definition checked_put :: "bytes \<Rightarrow> enc" where
  "checked_put bs w = bindE (encode_remaining (length bs) w) (put_slice bs)"

text \<open>The \<^verbatim>\<open>for _ in 0..count\<close> and \<^verbatim>\<open>for x in xs\<close> loops of the list codecs.\<close>

primrec decode_many :: "'a dec \<Rightarrow> nat \<Rightarrow> 'a list dec" where
  "decode_many d 0 = (\<lambda>r. Inr ([], r))"
| "decode_many d (Suc n) =
     (\<lambda>r. bindE (d r) (\<lambda>(x, r). bindE (decode_many d n r) (\<lambda>(xs, r). Inr (x # xs, r))))"

primrec encode_many :: "('a \<Rightarrow> enc) \<Rightarrow> 'a list \<Rightarrow> enc" where
  "encode_many e [] = Inr"
| "encode_many e (x # xs) = (\<lambda>w. bindE (e x w) (encode_many e xs))"

section \<open>Big-endian integers\<close>

text \<open>
  \<open>be_bytes n v\<close> is \<^verbatim>\<open>to_be_bytes\<close> (and what \<^verbatim>\<open>put_u16\<close>, \<^verbatim>\<open>put_u32\<close>, \<^verbatim>\<open>put_u64\<close> write) at
  \<open>n\<close> bytes; \<open>from_be\<close> is \<^verbatim>\<open>from_be_bytes\<close> at any width: each byte shifts the value by eight.
\<close>

primrec be_bytes :: "nat \<Rightarrow> 'w::len word \<Rightarrow> bytes" where
  "be_bytes 0 v = []"
| "be_bytes (Suc n) v = be_bytes n (drop_bit 8 v) @ [ucast v]"

definition from_be :: "bytes \<Rightarrow> 'w::len word" where
  "from_be bs = foldl (\<lambda>v b. push_bit 8 v OR ucast b) 0 bs"

lemma be_bytes_numeral [simp]:
  "be_bytes (numeral k) v = be_bytes (pred_numeral k) (drop_bit 8 v) @ [ucast v]"
  by (simp add: numeral_eq_Suc)

lemma length_be_bytes [simp]: "length (be_bytes n v) = n"
  by (induction n arbitrary: v) auto

lemma lt_take_bit:
  assumes "x < 2 ^ n"
  shows "take_bit n (x :: 'a::len word) = x"
proof (cases "n < LENGTH('a)")
  case True
  then have "unat (of_nat (2 ^ n) :: 'a word) = 2 ^ n"
    by (subst unsigned_of_nat) (simp add: take_bit_nat_eq_self)
  then have "unat x < 2 ^ n" using assms by (simp add: word_less_nat_alt)
  then have "unat (take_bit n x) = unat x"
    by (simp add: unsigned_take_bit_eq take_bit_nat_eq_self)
  then show ?thesis by (simp only: word_unat_eq_iff)
next
  case False
  then show ?thesis by (simp add: take_bit_word_eq_self)
qed

lemma unat_of_nat_lt: "n < 2 ^ LENGTH('a) \<Longrightarrow> unat (of_nat n :: 'a::len word) = n"
  by (subst unsigned_of_nat) (simp add: take_bit_nat_eq_self)

lemma lt_bit: "x < 2 ^ n \<Longrightarrow> bit (x :: 'a::len word) k \<Longrightarrow> k < n"
  using lt_take_bit [of x n] by (metis bit_take_bit_iff)

lemma lt_drop_bit: "x < 2 ^ n \<Longrightarrow> drop_bit n (x :: 'a::len word) = 0"
  by (simp add: lt_take_bit flip: take_bit_eq_self_iff_drop_bit_eq_0)

lemma from_be_Nil [simp]: "from_be [] = 0"
  by (simp add: from_be_def)

lemma from_be_snoc: "from_be (bs @ [b]) = push_bit 8 (from_be bs) OR ucast b"
  by (simp add: from_be_def)

lemma from_be_Cons:
  "from_be (b # bs) = (push_bit (8 * length bs) (ucast b) OR from_be bs :: 'w::len word)"
proof (induction bs rule: rev_induct)
  case Nil
  then show ?case by (simp add: from_be_def)
next
  case (snoc c bs)
  have "from_be (b # bs @ [c]) = (push_bit 8 (from_be (b # bs)) OR ucast c :: 'w word)"
    using from_be_snoc [of "b # bs" c] by simp
  then show ?case by (simp add: snoc from_be_snoc ac_simps)
qed

lemma from_be_take: "take_bit (8 * length bs) (from_be bs) = (from_be bs :: 'w::len word)"
proof (induction bs)
  case Nil
  then show ?case by simp
next
  case (Cons b bs)
  have "take_bit (8 * length (b # bs)) (from_be bs) = (from_be bs :: 'w word)"
    by (subst Cons.IH [symmetric], subst take_bit_take_bit) (simp add: Cons.IH)
  moreover have "take_bit (8 * length (b # bs)) (push_bit (8 * length bs) (ucast b)) =
      (push_bit (8 * length bs) (ucast b) :: 'w word)"
    by (rule bit_word_eqI) (auto simp: bit_simps dest: bit_imp_le_length)
  ultimately show ?case by (simp only: from_be_Cons take_bit_or)
qed

text \<open>Masking the leading byte truncates the value: how both varint formats drop their tag.\<close>

lemma from_be_mask:
  assumes "k \<le> 8"
  shows "from_be ((b AND mask k) # bs) =
    take_bit (8 * length bs + k) (from_be (b # bs) :: 'w::len word)"
proof -
  have 1: "take_bit (8 * length bs + k) (from_be bs) = (from_be bs :: 'w word)"
    by (subst from_be_take [symmetric], subst take_bit_take_bit) (simp add: from_be_take)
  have 2: "take_bit (8 * length bs + k) (push_bit (8 * length bs) (ucast b)) =
      (push_bit (8 * length bs) (ucast (b AND mask k)) :: 'w word)"
    using assms by (intro bit_word_eqI) (auto simp: bit_simps)
  show ?thesis by (simp only: from_be_Cons take_bit_or 1 2)
qed

lemma from_be_bytes: "from_be (be_bytes n v) = take_bit (8 * n) v"
proof (induction n arbitrary: v)
  case 0
  then show ?case by simp
next
  case (Suc n)
  have "push_bit 8 (take_bit (8 * n) (drop_bit 8 v)) OR ucast (ucast v :: u8) =
      take_bit (8 * Suc n) v"
    by (rule bit_word_eqI) (auto simp: bit_simps)
  then show ?case by (simp add: from_be_snoc Suc)
qed

section \<open>Contracts\<close>

definition streams :: "'a dec \<Rightarrow> bytes \<Rightarrow> 'a \<Rightarrow> bool" where
  "streams d p x \<longleftrightarrow>
     (\<forall>r. d (p @ r) = Inr (x, r)) \<and>
     (\<forall>q. strict_prefix q p \<longrightarrow>
        (\<exists>n. d q = Inl (More n) \<and> 0 < n \<and> length q + n \<le> length p))"

definition decoder :: "'a dec \<Rightarrow> bool" where
  "decoder d \<longleftrightarrow>
     (\<forall>r. d r \<noteq> Inl DecPanic) \<and>
     (\<forall>r x r'. d r = Inr (x, r') \<longrightarrow> (\<exists>p. r = p @ r' \<and> streams d p x))"

definition wput :: "bytes \<Rightarrow> wbuf \<Rightarrow> wbuf" where
  "wput bs w = w\<lparr>wr_bytes := wr_bytes w @ bs, wr_room := wr_room w - length bs\<rparr>"

definition writes :: "enc \<Rightarrow> bytes \<Rightarrow> bool" where
  "writes e bs \<longleftrightarrow>
     (\<forall>w. (length bs \<le> wr_room w \<longrightarrow> e w = Inr (wput bs w)) \<and>
          (wr_room w < length bs \<longrightarrow> (\<exists>err. e w = Inl err)))"

definition round_trips :: "enc \<Rightarrow> 'a dec \<Rightarrow> 'a \<Rightarrow> bool" where
  "round_trips e d x \<longleftrightarrow> (\<exists>bs. writes e bs \<and> streams d bs x)"

definition codec :: "enc \<Rightarrow> 'a dec \<Rightarrow> 'a \<Rightarrow> bool" where
  "codec e d x \<longleftrightarrow> (\<forall>w w'. e w = Inr w' \<longrightarrow> round_trips e d x)"

text \<open>
  Messages that end in a run of pairs read to the end of their payload are not
  self-delimiting; for them the contract is about the whole payload.
\<close>

definition payload_codec :: "enc \<Rightarrow> 'a dec \<Rightarrow> 'a \<Rightarrow> bool" where
  "payload_codec e d x \<longleftrightarrow>
     (\<forall>w w'. e w = Inr w' \<longrightarrow> (\<exists>bs. writes e bs \<and> d bs = Inr (x, [])))"

named_theorems codec_rules \<open>introduction rules for the codec contracts\<close>
named_theorems decoder_rules \<open>introduction rules for the decoder contract\<close>

subsection \<open>Sequencing reads\<close>

lemma streamsD: "streams d p x \<Longrightarrow> d (p @ r) = Inr (x, r)"
  by (simp add: streams_def)

lemma streams_all: "streams d p x \<Longrightarrow> d p = Inr (x, [])"
  using streamsD [of d p x "[]"] by simp

lemma streams_short:
  assumes "streams d p x" and "strict_prefix q p"
  obtains n where "d q = Inl (More n)" "0 < n" "length q + n \<le> length p"
  using assms by (auto simp: streams_def)

lemma streams_return: "streams (\<lambda>r. Inr (x, r)) [] x"
  by (simp add: streams_def)

lemma strict_prefix_append_cases:
  assumes "strict_prefix q (xs @ ys)"
  obtains (left) "strict_prefix q xs" | (right) ys' where "q = xs @ ys'" "strict_prefix ys' ys"
proof -
  from assms have pre: "prefix q (xs @ ys)" and neq: "q \<noteq> xs @ ys" by auto
  from pre consider "prefix q xs" | ys' where "q = xs @ ys'" "prefix ys' ys"
    by (auto simp: prefix_append)
  then show thesis
  proof cases
    case 1
    show thesis
    proof (cases "q = xs")
      case True
      with neq show thesis by (intro right [of "[]"]) (auto simp: strict_prefix_def)
    next
      case False
      with 1 show thesis by (intro left) (simp add: strict_prefix_def)
    qed
  next
    case (2 ys')
    with neq show thesis by (intro right [of ys']) (auto simp: strict_prefix_def)
  qed
qed

lemma streams_bind:
  assumes d1: "streams d1 p1 x" and d2: "streams (d2 x) p2 y"
  shows "streams (\<lambda>r. bindE (d1 r) (\<lambda>(a, r). d2 a r)) (p1 @ p2) y"
  unfolding streams_def
proof (intro conjI allI impI)
  fix r
  show "bindE (d1 ((p1 @ p2) @ r)) (\<lambda>(a, r). d2 a r) = Inr (y, r)"
    using streamsD [OF d1, of "p2 @ r"] streamsD [OF d2, of r] by simp
next
  fix q
  assume "strict_prefix q (p1 @ p2)"
  then show "\<exists>n. bindE (d1 q) (\<lambda>(a, r). d2 a r) = Inl (More n) \<and> 0 < n \<and>
      length q + n \<le> length (p1 @ p2)"
  proof (cases rule: strict_prefix_append_cases)
    case left
    then show ?thesis using streams_short [OF d1] by fastforce
  next
    case (right p2')
    obtain n where "d2 x p2' = Inl (More n)" "0 < n" "length p2' + n \<le> length p2"
      using streams_short [OF d2 right(2)] .
    then show ?thesis using right(1) streamsD [OF d1, of p2'] by simp
  qed
qed

lemma streams_map:
  assumes "streams d p x"
  shows "streams (\<lambda>r. bindE (d r) (\<lambda>(a, r). Inr (f a, r))) p (f x)"
  using streams_bind [OF assms, of "\<lambda>a r. Inr (f a, r)" "[]" "f x", OF streams_return] by simp

lemma decoder_no_panic: "decoder d \<Longrightarrow> d r \<noteq> Inl DecPanic"
  by (simp add: decoder_def)

lemma decoder_reads:
  assumes "decoder d" and "d r = Inr (x, r')"
  obtains p where "r = p @ r'" "streams d p x"
  using assms unfolding decoder_def by blast

lemma decoder_return [decoder_rules]: "decoder (\<lambda>r. Inr (x, r))"
  by (auto simp: decoder_def intro: streams_return)

lemma decoder_fail [decoder_rules]: "e \<noteq> DecPanic \<Longrightarrow> decoder (\<lambda>r. Inl e)"
  by (simp add: decoder_def)

lemma decoder_bind [decoder_rules]:
  assumes d1: "decoder d1" and d2: "\<And>a. decoder (d2 a)"
  shows "decoder (\<lambda>r. bindE (d1 r) (\<lambda>(a, r). d2 a r))"
  unfolding decoder_def
proof (intro conjI allI impI)
  fix r
  show "bindE (d1 r) (\<lambda>(a, r). d2 a r) \<noteq> Inl DecPanic"
    using decoder_no_panic [OF d1, of r] decoder_no_panic [OF d2]
    by (cases "d1 r") auto
next
  fix r y r'
  assume "bindE (d1 r) (\<lambda>(a, r). d2 a r) = Inr (y, r')"
  then obtain x r1 where 1: "d1 r = Inr (x, r1)" and 2: "d2 x r1 = Inr (y, r')"
    by auto
  obtain p1 where "r = p1 @ r1" "streams d1 p1 x" using decoder_reads [OF d1 1] .
  moreover obtain p2 where "r1 = p2 @ r'" "streams (d2 x) p2 y" using decoder_reads [OF d2 2] .
  ultimately show "\<exists>p. r = p @ r' \<and> streams (\<lambda>r. bindE (d1 r) (\<lambda>(a, r). d2 a r)) p y"
    using streams_bind [of d1 p1 x d2 p2 y] by (intro exI [of _ "p1 @ p2"]) simp
qed

lemma decoder_if [decoder_rules]:
  "(b \<Longrightarrow> decoder d1) \<Longrightarrow> (\<not> b \<Longrightarrow> decoder d2) \<Longrightarrow> decoder (\<lambda>r. if b then d1 r else d2 r)"
  by (cases b) (simp_all add: decoder_def)

text \<open>A check that depends on values already read, not on the buffer.\<close>

lemma decoder_check [decoder_rules]:
  "m \<noteq> Inl DecPanic \<Longrightarrow> (\<And>a. m = Inr a \<Longrightarrow> decoder (d a)) \<Longrightarrow>
   decoder (\<lambda>r. bindE m (\<lambda>a. d a r))"
  by (cases m) (auto simp: decoder_def)

subsection \<open>Sequencing writes\<close>

lemma wput_simps [simp]:
  "wr_bytes (wput bs w) = wr_bytes w @ bs" "wr_room (wput bs w) = wr_room w - length bs"
  by (simp_all add: wput_def)

lemma wput_append: "wput (as @ bs) w = wput bs (wput as w)"
  by (simp add: wput_def)

lemma wput_Nil [simp]: "wput [] w = w"
  by (simp add: wput_def)

lemma writes_ok: "writes e bs \<Longrightarrow> length bs \<le> wr_room w \<Longrightarrow> e w = Inr (wput bs w)"
  by (simp add: writes_def)

lemma writes_result:
  assumes "writes e bs" and "e w = Inr w'"
  shows "w' = wput bs w \<and> length bs \<le> wr_room w"
proof (cases "length bs \<le> wr_room w")
  case True
  then show ?thesis using writes_ok [OF assms(1) True] assms(2) by simp
next
  case False
  then have "wr_room w < length bs" by simp
  then have "\<exists>err. e w = Inl err" using assms(1) unfolding writes_def by blast
  with assms(2) show ?thesis by simp
qed

lemma writes_unique:
  assumes "writes e as" and "writes e bs"
  shows "as = bs"
proof -
  define w :: wbuf where "w = \<lparr>wr_bytes = [], wr_room = length as + length bs\<rparr>"
  have "e w = Inr (wput as w)" by (rule writes_ok [OF assms(1)]) (simp add: w_def)
  moreover have "e w = Inr (wput bs w)" by (rule writes_ok [OF assms(2)]) (simp add: w_def)
  ultimately have "wr_bytes (wput as w) = wr_bytes (wput bs w)" by simp
  then show ?thesis by (simp add: w_def)
qed

lemma writes_return: "writes Inr []"
  by (simp add: writes_def)

lemma writes_bind:
  assumes a: "writes e1 as" and b: "writes e2 bs"
  shows "writes (\<lambda>w. bindE (e1 w) e2) (as @ bs)"
  unfolding writes_def
proof (intro allI conjI impI)
  fix w :: wbuf
  assume "length (as @ bs) \<le> wr_room w"
  then show "bindE (e1 w) e2 = Inr (wput (as @ bs) w)"
    using writes_ok [OF a, of w] writes_ok [OF b, of "wput as w"] by (simp add: wput_append)
next
  fix w :: wbuf
  assume short: "wr_room w < length (as @ bs)"
  show "\<exists>err. bindE (e1 w) e2 = Inl err"
  proof (cases "length as \<le> wr_room w")
    case True
    then have "e1 w = Inr (wput as w)" by (rule writes_ok [OF a])
    moreover have "wr_room (wput as w) < length bs" using True short by auto
    ultimately show ?thesis using b by (auto simp: writes_def)
  next
    case False
    then have "\<exists>err. e1 w = Inl err" using a by (simp add: writes_def)
    then show ?thesis by auto
  qed
qed

lemma writes_put_slice: "writes (put_slice bs) bs"
  by (simp add: writes_def put_slice_def wput_def)

lemma round_trips_return: "round_trips Inr (\<lambda>r. Inr (x, r)) x"
  unfolding round_trips_def by (intro exI [of _ "[]"] conjI writes_return streams_return)

lemma round_trips_bind:
  assumes "round_trips e1 d1 x" and "round_trips e2 (d2 x) y"
  shows "round_trips (\<lambda>w. bindE (e1 w) e2) (\<lambda>r. bindE (d1 r) (\<lambda>(a, r). d2 a r)) y"
proof -
  from assms obtain as bs where "writes e1 as" "streams d1 as x" "writes e2 bs" "streams (d2 x) bs y"
    by (auto simp: round_trips_def)
  then show ?thesis
    unfolding round_trips_def by (intro exI [of _ "as @ bs"] conjI writes_bind streams_bind)
qed

lemma codecI: "round_trips e d x \<Longrightarrow> codec e d x"
  by (simp add: codec_def)

lemma codec_return: "codec Inr (\<lambda>r. Inr (x, r)) x"
  by (intro codecI round_trips_return)

lemma codec_done [codec_rules]: "y = x \<Longrightarrow> codec Inr (\<lambda>r. Inr (x, r)) y"
  by (simp add: codec_return)

lemma codec_bind [codec_rules]:
  assumes "codec e1 d1 x" and "codec e2 (d2 x) y"
  shows "codec (\<lambda>w. bindE (e1 w) e2) (\<lambda>r. bindE (d1 r) (\<lambda>(a, r). d2 a r)) y"
  unfolding codec_def
proof (intro allI impI)
  fix w w'
  assume "bindE (e1 w) e2 = Inr w'"
  then obtain w1 where "e1 w = Inr w1" "e2 w1 = Inr w'" by auto
  with assms show "round_trips (\<lambda>w. bindE (e1 w) e2) (\<lambda>r. bindE (d1 r) (\<lambda>(a, r). d2 a r)) y"
    by (auto simp: codec_def intro: round_trips_bind)
qed

lemma codec_map:
  assumes "codec e d x" and "y = f x"
  shows "codec e (\<lambda>r. bindE (d r) (\<lambda>(a, r). Inr (f a, r))) y"
  unfolding codec_def
proof (intro allI impI)
  fix w w'
  assume "e w = Inr w'"
  with assms(1) obtain bs where "writes e bs" "streams d bs x"
    by (auto simp: codec_def round_trips_def)
  with streams_map [of d bs x f] assms(2)
  show "round_trips e (\<lambda>r. bindE (d r) (\<lambda>(a, r). Inr (f a, r))) y"
    unfolding round_trips_def by (intro exI [of _ bs]) simp
qed

lemma codec_encoder_check:
  "(\<not> b \<Longrightarrow> codec e d x) \<Longrightarrow> codec (\<lambda>w. if b then Inl err else e w) d x"
  by (cases b) (simp_all add: codec_def)

lemma codec_decoder_check:
  "\<not> b \<Longrightarrow> codec e d x \<Longrightarrow> codec e (\<lambda>r. if b then Inl err else d r) x"
  by simp

lemma codec_validate:
  "m = Inr a \<Longrightarrow> codec e (d a) x \<Longrightarrow> codec e (\<lambda>r. bindE m (\<lambda>a. d a r)) x"
  by simp

lemma codecE:
  assumes "codec e d x" and "e w = Inr w'"
  obtains bs where "w' = wput bs w" "length bs \<le> wr_room w" "writes e bs" "streams d bs x"
proof -
  from assms obtain bs where "writes e bs" "streams d bs x"
    by (auto simp: codec_def round_trips_def)
  with writes_result [OF this(1) assms(2)] that show thesis by blast
qed

lemma payload_codec_of_codec: "codec e d x \<Longrightarrow> payload_codec e d x"
  by (auto simp: codec_def payload_codec_def round_trips_def dest: streams_all)

lemma payload_codec_bind:
  assumes "codec e1 d1 x" and "payload_codec e2 (d2 x) y"
  shows "payload_codec (\<lambda>w. bindE (e1 w) e2) (\<lambda>r. bindE (d1 r) (\<lambda>(a, r). d2 a r)) y"
  unfolding payload_codec_def
proof (intro allI impI)
  fix w w'
  assume "bindE (e1 w) e2 = Inr w'"
  then obtain w1 where w1: "e1 w = Inr w1" "e2 w1 = Inr w'" by auto
  from assms(1) w1(1) obtain as where "writes e1 as" "streams d1 as x"
    by (auto simp: codec_def round_trips_def)
  moreover from assms(2) w1(2) obtain bs where "writes e2 bs" "d2 x bs = Inr (y, [])"
    by (auto simp: payload_codec_def)
  ultimately show "\<exists>bs. writes (\<lambda>w. bindE (e1 w) e2) bs \<and>
      bindE (d1 bs) (\<lambda>(a, r). d2 a r) = Inr (y, [])"
    by (intro exI [of _ "as @ bs"]) (simp add: writes_bind streamsD)
qed

lemma payload_codec_validate:
  "m = Inr a \<Longrightarrow> payload_codec e (d a) x \<Longrightarrow> payload_codec e (\<lambda>r. bindE m (\<lambda>a. d a r)) x"
  by simp

lemma writes_fresh_vec:
  "writes e bs \<Longrightarrow> length bs < 2 ^ 63 \<Longrightarrow>
   e fresh_vec = Inr \<lparr>wr_bytes = bs, wr_room = 2 ^ 63 - 1 - length bs\<rparr>"
  using writes_ok [of e bs fresh_vec] by (simp add: fresh_vec_def wput_def)

subsection \<open>The primitives and the loops\<close>

lemma length_take_short [simp]: "copy_to_bytes n (p @ r) = Inr (p, r)" if "length p = n"
  using that by (simp add: copy_to_bytes_def)

lemma streams_read_exact:
  assumes "length p = n"
  shows "streams (read_exact n) p p"
  unfolding streams_def
proof (intro conjI allI impI)
  fix r
  show "read_exact n (p @ r) = Inr (p, r)"
    using assms by (simp add: read_exact_def decode_remaining_def Let_def)
next
  fix q
  assume "strict_prefix q p"
  then have "length q < n" using assms prefix_length_less by blast
  then show "\<exists>m. read_exact n q = Inl (More m) \<and> 0 < m \<and> length q + m \<le> length p"
    using assms by (simp add: read_exact_def decode_remaining_def)
qed

lemma decoder_read_exact [decoder_rules]: "decoder (read_exact n)"
  unfolding decoder_def
proof (intro conjI allI impI)
  fix r
  show "read_exact n r \<noteq> Inl DecPanic"
    by (simp add: read_exact_def decode_remaining_def copy_to_bytes_def Let_def)
next
  fix r x r'
  assume "read_exact n r = Inr (x, r')"
  then have "r = x @ r' \<and> length x = n"
    by (auto simp: read_exact_def decode_remaining_def copy_to_bytes_def Let_def split: if_splits)
  then show "\<exists>p. r = p @ r' \<and> streams (read_exact n) p x"
    using streams_read_exact by blast
qed

lemma read_u8_exact: "read_u8 r = bindE (read_exact 1 r) (\<lambda>(bs, r). Inr (hd bs, r))"
  by (cases r) (simp_all add: read_u8_def read_exact_def decode_remaining_def copy_to_bytes_def)

lemma streams_read_u8: "streams read_u8 [b] b"
proof -
  have "streams (\<lambda>r. bindE (read_exact 1 r) (\<lambda>(bs, r). Inr (hd bs, r))) ([b] @ []) (hd [b])"
    by (rule streams_bind, rule streams_read_exact, simp, rule streams_return)
  then show ?thesis by (simp add: read_u8_exact [abs_def])
qed

lemma decoder_read_u8 [decoder_rules]: "decoder read_u8"
  unfolding read_u8_exact [abs_def] by (intro decoder_rules)

lemma writes_checked_put: "writes (checked_put bs) bs"
  by (auto simp: writes_def checked_put_def encode_remaining_def put_slice_def wput_def Let_def)

lemma codec_bytes [codec_rules]: "length bs = n \<Longrightarrow> codec (checked_put bs) (read_exact n) bs"
  unfolding round_trips_def codec_def
  by (intro allI impI exI [of _ bs] conjI writes_checked_put streams_read_exact)

lemma decoder_many [decoder_rules]: "decoder d \<Longrightarrow> decoder (decode_many d n)"
  by (induction n) (auto intro!: decoder_rules simp del: bindE_eq_Inr)

lemma codec_many [codec_rules]:
  "(\<And>x. x \<in> set xs \<Longrightarrow> codec (e x) d x) \<Longrightarrow> n = length xs \<Longrightarrow>
   codec (encode_many e xs) (decode_many d n) xs"
proof (induction xs arbitrary: n)
  case Nil
  then show ?case by (simp add: codec_return)
next
  case (Cons x xs)
  have tail: "codec (\<lambda>w. bindE (encode_many e xs w) Inr)
      (\<lambda>r. bindE (decode_many d (length xs) r) (\<lambda>(ys, r). Inr (x # ys, r))) (x # xs)"
    by (rule codec_bind [OF Cons.IH]) (auto simp: Cons.prems intro: codec_return)
  moreover have "(\<lambda>w. bindE (encode_many e xs w) Inr) = encode_many e xs"
    by (rule ext) (metis bindE.elims)
  ultimately have "codec (encode_many e xs)
      (\<lambda>r. bindE (decode_many d (length xs) r) (\<lambda>(ys, r). Inr (x # ys, r))) (x # xs)"
    by simp
  then show ?case
    using Cons.prems codec_bind [of "e x" d x] by simp
qed

end
