(* ===== verification/Coding.thy ===== *)
theory Coding
  imports Wire_Prelude
begin

unbundle bit_operations_syntax

text \<open>
  Field codecs of \<^verbatim>\<open>moq-transport/src/coding\<close>: the QUIC variable-length integer
  (\<^verbatim>\<open>varint.rs\<close>) and the \<^verbatim>\<open>u64\<close>/\<^verbatim>\<open>usize\<close> codecs built on it, the fixed-width \<^verbatim>\<open>u8\<close>,
  \<^verbatim>\<open>u16\<close> and \<^verbatim>\<open>bool\<close> (\<^verbatim>\<open>integer.rs\<close>), the draft-19 \<^verbatim>\<open>Vi64\<close> (\<^verbatim>\<open>vi64.rs\<close>), bounded UTF-8
  strings (\<^verbatim>\<open>bounded_string.rs\<close>, \<^verbatim>\<open>string.rs\<close>), tuple fields and tuples (\<^verbatim>\<open>tuple.rs\<close>), and
  locations (\<^verbatim>\<open>location.rs\<close>). For each: it never panics, it reads incrementally, and what
  it writes it reads back.
\<close>

section \<open>varint.rs\<close>

datatype varint = VarInt (into_inner: u64)

definition varint_MAX :: u64 where
  "varint_MAX = push_bit 62 1 - 1"

definition varint_try_from_u64 :: "u64 \<Rightarrow> varint option" where
  "varint_try_from_u64 x = (if x \<le> varint_MAX then Some (VarInt x) else None)"

definition varint_from_u32 :: "u32 \<Rightarrow> varint" where
  "varint_from_u32 x = VarInt (ucast x)"

definition u32_try_from_varint :: "varint \<Rightarrow> u32 option" where
  "u32_try_from_varint x =
     (if into_inner x \<le> 0xFFFFFFFF then Some (ucast (into_inner x)) else None)"

definition varint_decode :: "varint dec" where
  "varint_decode r =
     bindE (read_u8 r) (\<lambda>(b, r).
       let tag = drop_bit 6 b; b0 = b AND 0x3F in
       if tag = 0 then Inr (VarInt (ucast b0), r)
       else if tag = 1 then
         bindE (read_exact 1 r) (\<lambda>(bs, r). Inr (VarInt (ucast (from_be (b0 # bs) :: u16)), r))
       else if tag = 2 then
         bindE (read_exact 3 r) (\<lambda>(bs, r). Inr (VarInt (ucast (from_be (b0 # bs) :: u32)), r))
       else if tag = 3 then
         bindE (read_exact 7 r) (\<lambda>(bs, r). Inr (VarInt (from_be (b0 # bs)), r))
       else Inl DecPanic)"

definition varint_encode :: "varint \<Rightarrow> enc" where
  "varint_encode v w =
     (let x = into_inner v in
      if x < 2 ^ 6 then checked_put [ucast x] w
      else if x < 2 ^ 14 then checked_put (be_bytes 2 (push_bit 14 0b01 OR ucast x :: u16)) w
      else if x < 2 ^ 30 then checked_put (be_bytes 4 (push_bit 30 0b10 OR ucast x :: u32)) w
      else if x < 2 ^ 62 then checked_put (be_bytes 8 (push_bit 62 0b11 OR x)) w
      else Inl EncBoundsExceeded)"

text \<open>\<^verbatim>\<open>impl Encode/Decode for u64\<close> and \<^verbatim>\<open>for usize\<close> (64-bit).\<close>

definition u64_encode :: "u64 \<Rightarrow> enc" where
  "u64_encode x w =
     (case varint_try_from_u64 x of None \<Rightarrow> Inl EncBoundsExceeded | Some v \<Rightarrow> varint_encode v w)"

definition u64_decode :: "u64 dec" where
  "u64_decode r = bindE (varint_decode r) (\<lambda>(v, r). Inr (into_inner v, r))"

text \<open>
  A \<^verbatim>\<open>usize\<close> is a \<open>nat\<close> below \<open>2 ^ 64\<close>; encoding it casts to \<^verbatim>\<open>u64\<close> and bounds it by
  \<open>varint_MAX\<close>, so every larger \<open>nat\<close> is refused as well.
\<close>

definition usize_encode :: "nat \<Rightarrow> enc" where
  "usize_encode n w =
     (if n \<le> unat varint_MAX then u64_encode (of_nat n) w else Inl EncBoundsExceeded)"

definition usize_decode :: "nat dec" where
  "usize_decode r = bindE (varint_decode r) (\<lambda>(v, r). Inr (unat (into_inner v), r))"

section \<open>integer.rs\<close>

text \<open>\<^verbatim>\<open>u8::encode\<close> writes without checking the room first; the others check.\<close>

definition u8_encode :: "u8 \<Rightarrow> enc" where
  "u8_encode x = put_u8 x"

definition u8_decode :: "u8 dec" where
  "u8_decode = read_u8"

definition u16_encode :: "u16 \<Rightarrow> enc" where
  "u16_encode x = checked_put (be_bytes 2 x)"

definition u16_decode :: "u16 dec" where
  "u16_decode r = bindE (read_exact 2 r) (\<lambda>(bs, r). Inr (from_be bs, r))"

definition bool_encode :: "bool \<Rightarrow> enc" where
  "bool_encode x = checked_put [if x then 1 else 0]"

definition bool_decode :: "bool dec" where
  "bool_decode r =
     bindE (u8_decode r) (\<lambda>(b, r).
       if b = 0 then Inr (False, r) else if b = 1 then Inr (True, r) else Inl InvalidValue)"

section \<open>location.rs\<close>

record location =
  group_id :: u64
  object_id :: u64

definition Location_new :: "u64 \<Rightarrow> u64 \<Rightarrow> location" where
  "Location_new g obj = \<lparr>group_id = g, object_id = obj\<rparr>"

definition location_decode :: "location dec" where
  "location_decode r =
     bindE (u64_decode r) (\<lambda>(g, r).
     bindE (u64_decode r) (\<lambda>(obj, r). Inr (Location_new g obj, r)))"

definition location_encode :: "location \<Rightarrow> enc" where
  "location_encode l w =
     bindE (u64_encode (group_id l) w) (\<lambda>w.
     bindE (u64_encode (object_id l) w) (\<lambda>w. Inr w))"

text \<open>\<^verbatim>\<open>derive(Ord)\<close>: lexicographic, group first.\<close>

definition location_le :: "location \<Rightarrow> location \<Rightarrow> bool" where
  "location_le a b \<longleftrightarrow>
     group_id a < group_id b \<or> group_id a = group_id b \<and> object_id a \<le> object_id b"

definition location_less :: "location \<Rightarrow> location \<Rightarrow> bool" where
  "location_less a b \<longleftrightarrow>
     group_id a < group_id b \<or> group_id a = group_id b \<and> object_id a < object_id b"

section \<open>Varint proofs\<close>

lemma varint_MAX_le: "x \<le> varint_MAX \<longleftrightarrow> x < 2 ^ 62"
  by (auto simp: varint_MAX_def word_le_nat_alt word_less_nat_alt)

lemma unat_varint_MAX: "unat varint_MAX = 2 ^ 62 - 1"
  by (simp add: varint_MAX_def)

lemma u8_top_bits: "drop_bit 6 (b :: u8) \<in> {0, 1, 2, 3}"
proof -
  have "unat b < 2 ^ LENGTH(8)" by (rule unsigned_less)
  then have "unat (drop_bit 6 b) < 4"
    by (simp add: unat_drop_bit_eq) (simp add: drop_bit_eq_div)
  then have "unat (drop_bit 6 b) \<in> {0, 1, 2, 3}" by auto
  then show ?thesis by (auto simp: word_unat_eq_iff)
qed

lemma decoder_varint [decoder_rules]: "decoder varint_decode"
  unfolding varint_decode_def [abs_def] Let_def
  using u8_top_bits by (intro decoder_rules) auto

text \<open>The generic step of every multi-byte form: a tag in the top two bits, the value below.\<close>

lemma tagged_head: "be_bytes (Suc n) v = ucast (drop_bit (8 * n) v) # be_bytes n v"
proof (induction n arbitrary: v)
  case 0
  then show ?case by simp
next
  case (Suc n)
  have "be_bytes (Suc (Suc n)) v = be_bytes (Suc n) (drop_bit 8 v) @ [ucast v]" by simp
  also have "\<dots> = (ucast (drop_bit (8 * n) (drop_bit 8 v)) # be_bytes n (drop_bit 8 v)) @ [ucast v]"
    by (simp only: Suc.IH)
  finally show ?case by (simp add: add.commute)
qed

lemma tagged_value:
  fixes v :: "'w::len word"
  assumes "8 * n + 8 = LENGTH('w)"
  shows "from_be ((ucast (drop_bit (8 * n) v) AND 0x3F) # be_bytes n v) = take_bit (8 * n + 6) v"
proof -
  have "from_be (ucast (drop_bit (8 * n) v) # be_bytes n v) = take_bit (8 * Suc n) v"
    by (simp only: tagged_head [symmetric] from_be_bytes)
  then have "from_be (ucast (drop_bit (8 * n) v) # be_bytes n v) = v"
    using assms by (simp add: take_bit_word_eq_self add.commute)
  moreover have "(0x3F :: u8) = mask 6" by (simp add: mask_eq_exp_minus_1)
  ultimately show ?thesis
    using from_be_mask [of 6 "ucast (drop_bit (8 * n) v)" "be_bytes n v", where ?'w = 'w] by simp
qed

lemma tagged_tag:
  fixes v :: "'w::len word"
  assumes "8 * n + 8 = LENGTH('w)"
  shows "drop_bit 6 (ucast (drop_bit (8 * n) v) :: u8) = ucast (drop_bit (8 * n + 6) v)"
  using assms by (intro bit_word_eqI) (auto simp: bit_simps ac_simps dest: bit_imp_le_length)

lemma streams_tagged:
  assumes k: "\<And>r. k b r = bindE (read_exact n r) (\<lambda>(bs, r). Inr (f bs, r))"
    and len: "length bs = n" and y: "f bs = y"
  shows "streams (\<lambda>r. bindE (read_u8 r) (\<lambda>(b, r). k b r)) (b # bs) y"
proof -
  have "streams (k b) (bs @ []) (f bs)"
    unfolding k by (rule streams_bind, rule streams_read_exact [OF len], rule streams_return)
  then show ?thesis using streams_bind [OF streams_read_u8, of k b "bs @ []"] y by simp
qed

lemma streams_varint_1:
  assumes "x < 2 ^ 6"
  shows "streams varint_decode [ucast x] (VarInt x)"
proof -
  note bits = lt_bit [OF assms]
  have tag: "drop_bit 6 (ucast x :: u8) = 0"
    by (rule bit_word_eqI) (auto simp: bit_simps dest: bits)
  have "ucast (ucast x AND mask 6 :: u8) = x"
    by (rule bit_word_eqI) (auto simp: bit_simps dest: bits)
  then have val: "ucast (ucast x AND 0x3F :: u8) = x"
    by (simp add: mask_eq_exp_minus_1)
  have "streams varint_decode ([ucast x] @ []) (VarInt x)"
    unfolding varint_decode_def [abs_def] Let_def
    by (rule streams_bind [OF streams_read_u8]) (simp add: tag val streams_return)
  then show ?thesis by simp
qed

lemma streams_varint_2:
  assumes "x < 2 ^ 14"
  shows "streams varint_decode (be_bytes 2 (push_bit 14 0b01 OR ucast x :: u16)) (VarInt x)"
proof -
  note bits = lt_bit [OF assms]
  define v :: u16 where "v = push_bit 14 1 OR ucast x"
  have x: "take_bit 14 v = ucast x" "ucast (ucast x :: u16) = x" "drop_bit 14 v = 1"
    unfolding v_def by (rule bit_word_eqI, auto simp: bit_simps dest: bits)+
  have "streams varint_decode (ucast (drop_bit (8 * 1) v) # be_bytes 1 v) (VarInt x)"
    unfolding varint_decode_def [abs_def] Let_def
    using tagged_tag [of 1 v] tagged_value [of 1 v] x
    by (intro streams_tagged
        [where n = 1 and f = "\<lambda>bs. VarInt (ucast (from_be ((ucast (drop_bit 8 v) AND 0x3F) # bs) :: u16))"]) simp_all
  then show ?thesis using tagged_head [of 1 v] by (simp add: v_def numeral_2_eq_2)
qed

lemma streams_varint_4:
  assumes "x < 2 ^ 30"
  shows "streams varint_decode (be_bytes 4 (push_bit 30 0b10 OR ucast x :: u32)) (VarInt x)"
proof -
  note bits = lt_bit [OF assms]
  define v :: u32 where "v = push_bit 30 2 OR ucast x"
  have x: "take_bit 30 v = ucast x" "ucast (ucast x :: u32) = x"
    unfolding v_def by (rule bit_word_eqI, auto simp: bit_simps dest: bits)+
  have "drop_bit 30 (ucast x :: u32) = 0"
    by (rule bit_word_eqI) (auto simp: bit_simps dest: bits)
  then have tag: "drop_bit 30 v = 2" unfolding v_def by simp
  have "streams varint_decode (ucast (drop_bit (8 * 3) v) # be_bytes 3 v) (VarInt x)"
    unfolding varint_decode_def [abs_def] Let_def
    using tagged_tag [of 3 v] tagged_value [of 3 v] x tag
    by (intro streams_tagged
        [where n = 3 and f = "\<lambda>bs. VarInt (ucast (from_be ((ucast (drop_bit 24 v) AND 0x3F) # bs) :: u32))"]) simp_all
  then show ?thesis using tagged_head [of 3 v] by (simp add: v_def eval_nat_numeral)
qed

lemma streams_varint_8:
  assumes "x < 2 ^ 62"
  shows "streams varint_decode (be_bytes 8 (push_bit 62 0b11 OR x)) (VarInt x)"
proof -
  note bits = lt_bit [OF assms]
  define v :: u64 where "v = push_bit 62 3 OR x"
  have x: "take_bit 62 v = x"
    unfolding v_def by (rule bit_word_eqI, auto simp: bit_simps dest: bits)+
  have tag: "drop_bit 62 v = 3"
    unfolding v_def using lt_drop_bit [OF assms] by simp
  have "streams varint_decode (ucast (drop_bit (8 * 7) v) # be_bytes 7 v) (VarInt x)"
    unfolding varint_decode_def [abs_def] Let_def
    using tagged_tag [of 7 v] tagged_value [of 7 v] x tag
    by (intro streams_tagged
        [where n = 7 and f = "\<lambda>bs. VarInt (from_be ((ucast (drop_bit 56 v) AND 0x3F) # bs))"]) simp_all
  then show ?thesis using tagged_head [of 7 v] by (simp add: v_def eval_nat_numeral)
qed

text \<open>The bytes of the shortest form, and the two halves of the varint contract.\<close>

definition varint_bytes :: "u64 \<Rightarrow> bytes" where
  "varint_bytes x =
     (if x < 2 ^ 6 then [ucast x]
      else if x < 2 ^ 14 then be_bytes 2 (push_bit 14 0b01 OR ucast x :: u16)
      else if x < 2 ^ 30 then be_bytes 4 (push_bit 30 0b10 OR ucast x :: u32)
      else be_bytes 8 (push_bit 62 0b11 OR x))"

lemma length_varint_bytes: "length (varint_bytes x) \<in> {1, 2, 4, 8}"
  by (simp add: varint_bytes_def)

lemma u64_encode_eq:
  "u64_encode x w = (if x < 2 ^ 62 then checked_put (varint_bytes x) w else Inl EncBoundsExceeded)"
  by (simp add: u64_encode_def varint_try_from_u64_def varint_encode_def varint_MAX_le
      varint_bytes_def Let_def)

lemma streams_varint: "x < 2 ^ 62 \<Longrightarrow> streams varint_decode (varint_bytes x) (VarInt x)"
  using streams_varint_1 [of x] streams_varint_2 [of x] streams_varint_4 [of x]
    streams_varint_8 [of x] by (simp add: varint_bytes_def)

lemma decoder_u64 [decoder_rules]: "decoder u64_decode"
  unfolding u64_decode_def [abs_def] by (intro decoder_rules)

lemma decoder_usize [decoder_rules]: "decoder usize_decode"
  unfolding usize_decode_def [abs_def] by (intro decoder_rules)

lemma streams_u64: "x < 2 ^ 62 \<Longrightarrow> streams u64_decode (varint_bytes x) x"
  unfolding u64_decode_def [abs_def]
  using streams_map [OF streams_varint, of x into_inner] by simp

lemma streams_usize: "n < 2 ^ 62 \<Longrightarrow> streams usize_decode (varint_bytes (of_nat n)) n"
proof -
  assume n: "n < 2 ^ 62"
  then have u: "unat (of_nat n :: u64) = n" by (simp add: unat_of_nat_lt)
  with n have "(of_nat n :: u64) < 2 ^ 62" by (simp add: word_less_nat_alt)
  then show ?thesis
    unfolding usize_decode_def [abs_def]
    using streams_map [OF streams_varint, of "of_nat n" "\<lambda>v. unat (into_inner v)"] u by simp
qed

lemma codec_u64 [codec_rules]: "codec (u64_encode x) u64_decode x"
  unfolding u64_encode_eq [abs_def] codec_def round_trips_def
  using writes_checked_put [of "varint_bytes x"] streams_u64 [of x]
  by (auto split: if_splits)

lemma usize_encode_eq:
  "usize_encode n w =
     (if n < 2 ^ 62 then checked_put (varint_bytes (of_nat n)) w else Inl EncBoundsExceeded)"
proof (cases "n < 2 ^ 62")
  case True
  then have "(of_nat n :: u64) < 2 ^ 62" by (simp add: word_less_nat_alt unat_of_nat_lt)
  then show ?thesis using True by (auto simp: usize_encode_def unat_varint_MAX u64_encode_eq)
next
  case False
  then show ?thesis by (simp add: usize_encode_def unat_varint_MAX)
qed

lemma codec_usize [codec_rules]: "codec (usize_encode n) usize_decode n"
  unfolding usize_encode_eq [abs_def] codec_def round_trips_def
  using writes_checked_put [of "varint_bytes (of_nat n)"] streams_usize [of n]
  by (auto split: if_splits)

section \<open>Fixed-width proofs\<close>

lemma decoder_u8 [decoder_rules]: "decoder u8_decode"
  unfolding u8_decode_def by (rule decoder_read_u8)

lemma codec_u8 [codec_rules]: "codec (u8_encode x) u8_decode x"
  unfolding codec_def round_trips_def u8_encode_def u8_decode_def
  using writes_put_slice streams_read_u8 by blast

lemma decoder_u16 [decoder_rules]: "decoder u16_decode"
  unfolding u16_decode_def [abs_def] by (intro decoder_rules)

lemma codec_u16 [codec_rules]: "codec (u16_encode x) u16_decode x"
  unfolding u16_encode_def u16_decode_def [abs_def]
  by (rule codec_map [OF codec_bytes]) (simp_all only: length_be_bytes, simp only: from_be_bytes, simp add: take_bit_word_eq_self)

lemma decoder_bool [decoder_rules]: "decoder bool_decode"
  unfolding bool_decode_def [abs_def] by (intro decoder_rules) auto

lemma codec_bool [codec_rules]: "codec (bool_encode x) bool_decode x"
proof -
  have "streams bool_decode ([if x then 1 else 0] @ []) x"
    unfolding bool_decode_def [abs_def] u8_decode_def
    by (rule streams_bind [OF streams_read_u8]) (simp add: streams_return)
  then show ?thesis
    unfolding codec_def round_trips_def bool_encode_def
    by (intro allI impI exI [of _ "[if x then 1 else 0]"] conjI writes_checked_put) simp
qed

section \<open>Locations\<close>

lemma decoder_location [decoder_rules]: "decoder location_decode"
  unfolding location_decode_def [abs_def] by (intro decoder_rules)

lemma codec_location [codec_rules]: "codec (location_encode l) location_decode l"
  unfolding location_encode_def [abs_def] location_decode_def [abs_def]
  by (rule codec_rules)+ (simp add: Location_new_def)

section \<open>Strings\<close>

text \<open>
  A Rust \<^verbatim>\<open>String\<close> is a byte string that is valid UTF-8. \<open>utf8_valid\<close> is the check
  \<^verbatim>\<open>String::from_utf8\<close> makes: the well-formed byte sequences of the Unicode standard, which
  exclude overlong forms, surrogates and code points past U+10FFFF.
\<close>

type_synonym rust_string = bytes

definition utf8_cont :: "u8 \<Rightarrow> bool" where
  "utf8_cont b \<longleftrightarrow> 0x80 \<le> b \<and> b \<le> 0xBF"

fun utf8_valid :: "bytes \<Rightarrow> bool" where
  "utf8_valid [] = True"
| "utf8_valid (b # r) =
     (if b \<le> 0x7F then utf8_valid r
      else if 0xC2 \<le> b \<and> b \<le> 0xDF then
        (case r of c # r' \<Rightarrow> utf8_cont c \<and> utf8_valid r' | _ \<Rightarrow> False)
      else if 0xE0 \<le> b \<and> b \<le> 0xEF then
        (case r of c # d # r' \<Rightarrow>
            (if b = 0xE0 then 0xA0 \<le> c \<and> c \<le> 0xBF
             else if b = 0xED then 0x80 \<le> c \<and> c \<le> 0x9F
             else utf8_cont c) \<and> utf8_cont d \<and> utf8_valid r'
         | _ \<Rightarrow> False)
      else if 0xF0 \<le> b \<and> b \<le> 0xF4 then
        (case r of c # d # f # r' \<Rightarrow>
            (if b = 0xF0 then 0x90 \<le> c \<and> c \<le> 0xBF
             else if b = 0xF4 then 0x80 \<le> c \<and> c \<le> 0x8F
             else utf8_cont c) \<and> utf8_cont d \<and> utf8_cont f \<and> utf8_valid r'
         | _ \<Rightarrow> False)
      else False)"

definition from_utf8 :: "bytes \<Rightarrow> decode_error + rust_string" where
  "from_utf8 bs = (if utf8_valid bs then Inr bs else Inl InvalidString)"

definition string_encode :: "rust_string \<Rightarrow> enc" where
  "string_encode s w =
     bindE (usize_encode (length s) w) (\<lambda>w.
     bindE (checked_put s w) (\<lambda>w. Inr w))"

definition string_decode :: "rust_string dec" where
  "string_decode r =
     bindE (usize_decode r) (\<lambda>(size, r).
     bindE (read_exact size r) (\<lambda>(buf, r).
     bindE (from_utf8 buf) (\<lambda>str. Inr (str, r))))"

text \<open>The \<^verbatim>\<open>bounded_string!\<close> macro, over the type's name and its \<^verbatim>\<open>MAX_LEN\<close>.\<close>

definition bounded_string_encode :: "string \<Rightarrow> nat \<Rightarrow> rust_string \<Rightarrow> enc" where
  "bounded_string_encode name max_len s w =
     (if length s > max_len then Inl (EncFieldBoundsExceeded name)
      else
        bindE (usize_encode (length s) w) (\<lambda>w.
        bindE (checked_put s w) (\<lambda>w. Inr w)))"

definition bounded_string_decode :: "string \<Rightarrow> nat \<Rightarrow> rust_string dec" where
  "bounded_string_decode name max_len r =
     bindE (usize_decode r) (\<lambda>(size, r).
       if size > max_len then Inl (FieldBoundsExceeded name)
       else
         bindE (read_exact size r) (\<lambda>(buf, r).
         bindE (from_utf8 buf) (\<lambda>str. Inr (str, r))))"

definition reason_phrase_encode :: "rust_string \<Rightarrow> enc" where
  "reason_phrase_encode = bounded_string_encode ''ReasonPhrase'' 1024"

definition reason_phrase_decode :: "rust_string dec" where
  "reason_phrase_decode = bounded_string_decode ''ReasonPhrase'' 1024"

definition session_uri_encode :: "rust_string \<Rightarrow> enc" where
  "session_uri_encode = bounded_string_encode ''SessionUri'' 8192"

definition session_uri_decode :: "rust_string dec" where
  "session_uri_decode = bounded_string_decode ''SessionUri'' 8192"

lemma from_utf8_no_panic [simp]: "from_utf8 bs \<noteq> Inl DecPanic"
  by (simp add: from_utf8_def)

lemma codec_string_body:
  assumes "utf8_valid s"
  shows "codec (\<lambda>w. bindE (checked_put s w) (\<lambda>w. Inr w))
    (\<lambda>r. bindE (read_exact (length s) r) (\<lambda>(buf, r). bindE (from_utf8 buf) (\<lambda>str. Inr (str, r)))) s"
  by (rule codec_bind [OF codec_bytes]) (use assms in \<open>simp_all add: from_utf8_def codec_return\<close>)

lemma decoder_string [decoder_rules]: "decoder string_decode"
  unfolding string_decode_def [abs_def] by (intro decoder_rules) simp

lemma codec_string [codec_rules]: "utf8_valid s \<Longrightarrow> codec (string_encode s) string_decode s"
  unfolding string_encode_def [abs_def] string_decode_def [abs_def]
  by (rule codec_bind [OF codec_usize], rule codec_string_body)

lemma decoder_bounded_string [decoder_rules]: "decoder (bounded_string_decode name m)"
  unfolding bounded_string_decode_def [abs_def] by (intro decoder_rules) auto

lemma codec_bounded_string:
  assumes "utf8_valid s"
  shows "codec (bounded_string_encode name m s) (bounded_string_decode name m) s"
  unfolding bounded_string_encode_def [abs_def] bounded_string_decode_def [abs_def]
  by (rule codec_encoder_check, rule codec_bind [OF codec_usize])
    (use codec_string_body [OF assms] in simp)

lemma codec_reason_phrase [codec_rules]:
  "utf8_valid s \<Longrightarrow> codec (reason_phrase_encode s) reason_phrase_decode s"
  unfolding reason_phrase_encode_def reason_phrase_decode_def by (rule codec_bounded_string)

lemma codec_session_uri [codec_rules]:
  "utf8_valid s \<Longrightarrow> codec (session_uri_encode s) session_uri_decode s"
  unfolding session_uri_encode_def session_uri_decode_def by (rule codec_bounded_string)

lemma decoder_reason_phrase [decoder_rules]: "decoder reason_phrase_decode"
  unfolding reason_phrase_decode_def by (rule decoder_bounded_string)

lemma decoder_session_uri [decoder_rules]: "decoder session_uri_decode"
  unfolding session_uri_decode_def by (rule decoder_bounded_string)

lemma bounded_string_decode_bound:
  "bounded_string_decode name m r = Inr (s, r') \<Longrightarrow> length s \<le> m \<and> utf8_valid s"
  by (auto simp: bounded_string_decode_def read_exact_def decode_remaining_def copy_to_bytes_def
      from_utf8_def Let_def split: if_splits)

section \<open>tuple.rs\<close>

text \<open>\<^verbatim>\<open>TupleField\<close> is its \<^verbatim>\<open>value\<close>; \<^verbatim>\<open>Tuple\<close> is its \<^verbatim>\<open>fields\<close>.\<close>

type_synonym tuple_field = bytes
type_synonym tuple = "tuple_field list"

definition MAX_VALUE_SIZE :: nat where
  "MAX_VALUE_SIZE = 4096"

definition tuple_field_decode :: "tuple_field dec" where
  "tuple_field_decode r =
     bindE (usize_decode r) (\<lambda>(size, r).
       if size > MAX_VALUE_SIZE then Inl (FieldBoundsExceeded ''TupleField'')
       else read_exact size r)"

definition tuple_field_encode :: "tuple_field \<Rightarrow> enc" where
  "tuple_field_encode v w =
     (if length v > MAX_VALUE_SIZE then Inl (EncFieldBoundsExceeded ''TupleField'')
      else
        bindE (usize_encode (length v) w) (\<lambda>w.
        bindE (checked_put v w) (\<lambda>w. Inr w)))"

definition tuple_decode :: "tuple dec" where
  "tuple_decode r = bindE (usize_decode r) (\<lambda>(count, r). decode_many tuple_field_decode count r)"

definition tuple_encode :: "tuple \<Rightarrow> enc" where
  "tuple_encode fs w =
     bindE (usize_encode (length fs) w) (encode_many tuple_field_encode fs)"

text \<open>\<^verbatim>\<open>str::split('/')\<close> on the bytes (\<open>0x2F\<close> never occurs inside a multi-byte character).\<close>

fun split_slash :: "rust_string \<Rightarrow> rust_string list" where
  "split_slash [] = [[]]"
| "split_slash (b # r) =
     (if b = 0x2F then [] # split_slash r
      else case split_slash r of [] \<Rightarrow> [[b]] | p # ps \<Rightarrow> (b # p) # ps)"

definition tuple_from_utf8_path :: "rust_string \<Rightarrow> tuple" where
  "tuple_from_utf8_path path = split_slash path"

lemma bindE_Inr_right [simp]: "bindE m (\<lambda>x. Inr x) = m"
  by (cases m) simp_all

lemma decoder_tuple_field [decoder_rules]: "decoder tuple_field_decode"
  unfolding tuple_field_decode_def [abs_def] by (intro decoder_rules) simp

lemma codec_tuple_field [codec_rules]: "codec (tuple_field_encode v) tuple_field_decode v"
  unfolding tuple_field_encode_def [abs_def] tuple_field_decode_def [abs_def]
  by (rule codec_encoder_check, rule codec_bind [OF codec_usize]) (simp add: codec_bytes)

lemma tuple_field_decode_bound:
  "tuple_field_decode r = Inr (v, r') \<Longrightarrow> length v \<le> MAX_VALUE_SIZE"
  by (auto simp: tuple_field_decode_def read_exact_def decode_remaining_def copy_to_bytes_def
      Let_def split: if_splits)

lemma decoder_tuple [decoder_rules]: "decoder tuple_decode"
  unfolding tuple_decode_def [abs_def] by (intro decoder_rules)

lemma codec_tuple [codec_rules]: "codec (tuple_encode t) tuple_decode t"
  unfolding tuple_encode_def [abs_def] tuple_decode_def [abs_def]
  by (rule codec_bind [OF codec_usize codec_many [OF codec_tuple_field]]) simp

lemma split_slash_nonempty [simp]: "split_slash s \<noteq> []"
  by (induction s) (auto split: list.splits)

section \<open>vi64.rs\<close>

text \<open>
  The draft-19 integer: a unary length in the leading ones of the first byte, then the
  value. \<open>leading_zeros\<close> and \<open>leading_ones\<close> are the Rust intrinsics.
\<close>

definition leading_zeros :: "'w::len word \<Rightarrow> nat" where
  "leading_zeros x = length (takeWhile (\<lambda>i. \<not> bit x i) (rev [0..<LENGTH('w)]))"

definition leading_ones :: "'w::len word \<Rightarrow> nat" where
  "leading_ones x = length (takeWhile (\<lambda>i. bit x i) (rev [0..<LENGTH('w)]))"

definition vi64_encoded_len :: "u64 \<Rightarrow> nat" where
  "vi64_encoded_len x =
     (let bits = 64 - leading_zeros x in
      if bits = 0 then 1
      else if bits \<le> 56 then (bits + 6) div 7
      else 9)"

definition vi64_decode :: "u64 dec" where
  "vi64_decode r =
     bindE (read_u8 r) (\<lambda>(first, r).
       let leading = leading_ones first;
           len = (if leading = 8 then 9 else leading + 1)
       in bindE (read_exact (len - 1) r) (\<lambda>(bs, r).
            let value = (if len \<ge> 8 then 0 else ucast (first AND drop_bit len 0xFF))
            in Inr (foldl (\<lambda>v b. push_bit 8 v OR ucast b) value bs, r)))"

definition vi64_encode :: "u64 \<Rightarrow> enc" where
  "vi64_encode x w =
     (let len = vi64_encoded_len x in
      bindE (encode_remaining len w) (\<lambda>w.
        if len = 9 then
          bindE (put_u8 0xFF w) (put_slice (be_bytes 8 x))
        else
          let prefix = (if len = 1 then 0 else push_bit (9 - len) 0xFF :: u8);
              shift = 8 * (len - 1);
              value_mask = (if len = 8 then 0 else drop_bit len 0xFF :: u8);
              first = prefix OR (ucast (drop_bit shift x) AND value_mask)
          in bindE (put_u8 first w) (\<lambda>w.
               if len > 1 then put_slice (drop (9 - len) (be_bytes 8 x)) w else Inr w)))"

lemma takeWhile_rev_upt_less:
  "i < n \<Longrightarrow> n - length (takeWhile P (rev [0..<n])) \<le> i \<Longrightarrow> P i"
proof (induction n)
  case 0
  then show ?case by simp
next
  case (Suc n)
  show ?case
  proof (cases "P n")
    case True
    with Suc show ?thesis by (cases "i = n") (auto simp: less_Suc_eq)
  next
    case False
    with Suc.prems show ?thesis by simp
  qed
qed

lemma bit_leading_zeros: "bit x i \<Longrightarrow> i < LENGTH('w) - leading_zeros (x :: 'w::len word)"
  using takeWhile_rev_upt_less [of i "LENGTH('w)" "\<lambda>i. \<not> bit x i"] bit_imp_le_length [of x i]
  unfolding leading_zeros_def by (meson not_le)

lemma vi64_len_bounds: "1 \<le> vi64_encoded_len x \<and> vi64_encoded_len x \<le> 9"
  by (auto simp: vi64_encoded_len_def Let_def)

lemma vi64_len_bits:
  assumes "bit x i" and "vi64_encoded_len x \<noteq> 9"
  shows "i < 7 * vi64_encoded_len x"
proof -
  have "i < 64 - leading_zeros x" using bit_leading_zeros [OF assms(1)] by simp
  then show ?thesis using assms(2) by (auto simp: vi64_encoded_len_def Let_def split: if_splits)
qed

lemma vi64_len_8: "vi64_encoded_len x \<le> 8 \<Longrightarrow> vi64_encoded_len x \<in> {1, 2, 3, 4, 5, 6, 7, 8}"
  using vi64_len_bounds [of x] by auto

definition vi64_first :: "nat \<Rightarrow> u64 \<Rightarrow> u8" where
  "vi64_first len x =
     (if len = 1 then 0 else push_bit (9 - len) 0xFF) OR
     (ucast (drop_bit (8 * (len - 1)) x) AND (if len = 8 then 0 else drop_bit len 0xFF))"

definition vi64_bytes :: "u64 \<Rightarrow> bytes" where
  "vi64_bytes x =
     (let len = vi64_encoded_len x in
      if len = 9 then 0xFF # be_bytes 8 x else vi64_first len x # be_bytes (len - 1) x)"

lemma u8_0xFF: "(0xFF :: u8) = mask 8"
  by (simp add: mask_eq_exp_minus_1)

lemma bit_0xFF [simp]: "bit (0xFF :: u8) n \<longleftrightarrow> n < 8"
  by (simp only: u8_0xFF bit_mask_iff) simp

lemma vi64_mask: "drop_bit len (0xFF :: u8) = mask (8 - len)"
  unfolding u8_0xFF by (rule bit_word_eqI) (auto simp: bit_simps)

lemma leading_ones_8: "leading_ones (b :: u8) = length (takeWhile (bit b) [7, 6, 5, 4, 3, 2, 1, 0])"
proof -
  have "rev [0..<8] = [7, 6, 5, 4, 3, 2, 1, 0 :: nat]" by code_simp
  then show ?thesis by (simp add: leading_ones_def)
qed

lemma vi64_first_leading:
  "len \<in> {1, 2, 3, 4, 5, 6, 7, 8} \<Longrightarrow> leading_ones (vi64_first len x) = len - 1"
  unfolding leading_ones_8 by (elim insertE) (simp_all add: vi64_first_def bit_simps)

lemma vi64_first_value:
  assumes "len \<in> {1, 2, 3, 4, 5, 6, 7}"
  shows "vi64_first len x AND drop_bit len 0xFF = ucast (drop_bit (8 * (len - 1)) x) AND mask (8 - len)"
proof (rule bit_word_eqI)
  fix n :: nat
  assume "n < LENGTH(8)"
  then show "bit (vi64_first len x AND drop_bit len 0xFF) n \<longleftrightarrow>
      bit (ucast (drop_bit (8 * (len - 1)) x) AND mask (8 - len) :: u8) n"
    using assms unfolding vi64_first_def vi64_mask u8_0xFF by (auto simp: bit_simps)
qed

lemma vi64_fold: "foldl (\<lambda>v b. push_bit 8 v OR ucast b) (ucast c) bs = (from_be (c # bs) :: u64)"
  by (simp add: from_be_def)

lemma streams_vi64:
  "streams vi64_decode (vi64_bytes x) x"
proof (cases "vi64_encoded_len x = 9")
  case True
  have all: "leading_ones (0xFF :: u8) = 8" by (simp add: leading_ones_8)
  have "foldl (\<lambda>v b. push_bit 8 v OR ucast b) 0 (be_bytes 8 x) = x"
    using from_be_bytes [of 8 x] by (simp only: from_be_def) (simp add: take_bit_word_eq_self)
  then show ?thesis
    unfolding vi64_decode_def [abs_def] vi64_bytes_def Let_def True if_P [OF refl]
    by (intro streams_tagged [where n = 8
          and f = "\<lambda>bs. foldl (\<lambda>v b. push_bit 8 v OR ucast b) 0 bs"]) (simp_all only: all length_be_bytes, simp)
next
  case False
  define len where "len = vi64_encoded_len x"
  have len: "len \<in> {1, 2, 3, 4, 5, 6, 7, 8}"
    using vi64_len_8 [of x] vi64_len_bounds [of x] False by (auto simp: len_def)
  have small: "take_bit (7 * len) x = x"
    using False by (intro bit_word_eqI) (auto simp: bit_simps len_def dest: vi64_len_bits)
  have lead: "leading_ones (vi64_first len x) = len - 1" by (rule vi64_first_leading [OF len])
  define f where "f = (\<lambda>bs :: bytes. foldl (\<lambda>v b. push_bit 8 v OR ucast b)
    (if len \<ge> 8 then 0 else ucast (vi64_first len x AND drop_bit len 0xFF) :: u64) bs)"
  have "f (be_bytes (len - 1) x) = x"
  proof (cases "len = 8")
    case True
    then show ?thesis using small from_be_bytes [of 7 x] by (simp add: f_def from_be_def)
  next
    case False
    then have l7: "len \<in> {1, 2, 3, 4, 5, 6, 7}" and not8: "(8 \<le> len) = False" using len by auto
    have "f (be_bytes (len - 1) x) =
        from_be ((ucast (drop_bit (8 * (len - 1)) x) AND mask (8 - len)) # be_bytes (len - 1) x)"
      using not8 by (simp only: f_def if_False vi64_first_value [OF l7] vi64_fold)
    also have "\<dots> = take_bit (8 * (len - 1) + (8 - len))
        (from_be (ucast (drop_bit (8 * (len - 1)) x) # be_bytes (len - 1) x))"
      by (subst from_be_mask) simp_all
    also have "ucast (drop_bit (8 * (len - 1)) x) # be_bytes (len - 1) x = be_bytes len x"
    proof -
      have "Suc (len - 1) = len" using l7 by auto
      then show ?thesis using tagged_head [of "len - 1" x] by metis
    qed
    also have "take_bit (8 * (len - 1) + (8 - len)) (from_be (be_bytes len x)) = take_bit (7 * len) x"
      using l7 by (auto simp: from_be_bytes simp del: be_bytes_numeral)
    finally show ?thesis by (simp add: small)
  qed
  moreover have "vi64_bytes x = vi64_first len x # be_bytes (len - 1) x"
    using False by (simp add: vi64_bytes_def len_def Let_def)
  ultimately show ?thesis
    unfolding vi64_decode_def [abs_def] Let_def
    using lead len by (simp only:) (rule streams_tagged [where n = "len - 1" and f = f], auto simp: f_def)
qed

lemma drop_be_bytes: "drop k (be_bytes (k + n) v) = be_bytes n v"
proof (induction k)
  case 0
  then show ?case by simp
next
  case (Suc k)
  then show ?case by (simp add: tagged_head del: be_bytes.simps)
qed

lemma vi64_encode_eq: "vi64_encode x = checked_put (vi64_bytes x)"
proof (rule ext)
  fix w :: wbuf
  define len where "len = vi64_encoded_len x"
  have len: "1 \<le> len" "len \<le> 9" using vi64_len_bounds [of x] by (simp_all add: len_def)
  have size: "length (vi64_bytes x) = len"
    using len by (simp add: vi64_bytes_def len_def Let_def del: be_bytes_numeral)
  show "vi64_encode x w = checked_put (vi64_bytes x) w"
  proof (cases "len = 9")
    case True
    then show ?thesis
      using size unfolding vi64_encode_def checked_put_def vi64_bytes_def len_def [symmetric] Let_def
      by (auto simp: encode_remaining_def put_slice_def Let_def simp del: be_bytes_numeral)
  next
    case False
    have "drop (9 - len) (be_bytes 8 x) = be_bytes (len - 1) x"
      using drop_be_bytes [of "9 - len" "len - 1" x] len False by simp
    then show ?thesis
      using size len False
      unfolding vi64_encode_def checked_put_def vi64_bytes_def len_def [symmetric] Let_def
        vi64_first_def
      by (auto simp: encode_remaining_def put_slice_def Let_def simp del: be_bytes_numeral)
  qed
qed

lemma codec_vi64 [codec_rules]: "codec (vi64_encode x) vi64_decode x"
  unfolding vi64_encode_eq codec_def round_trips_def
  by (intro allI impI exI [of _ "vi64_bytes x"] conjI writes_checked_put streams_vi64)

lemma decoder_vi64 [decoder_rules]: "decoder vi64_decode"
  unfolding vi64_decode_def [abs_def] Let_def by (intro decoder_rules)

end
