(* ===== verification/Names.thy ===== *)
theory Names
  imports Coding
begin

text \<open>
  Track namespaces, namespace prefixes and track names
  (\<^verbatim>\<open>moq-transport/src/coding/track_namespace.rs\<close>): the field-count, field-size and total-size
  rules, the codecs that enforce them, and the prefix operations the relay routes with.
  A \<^verbatim>\<open>TrackNamespace\<close>, \<^verbatim>\<open>TrackNamespacePrefix\<close> and \<^verbatim>\<open>TrackName\<close> is its list of fields or its
  bytes.
\<close>

type_synonym track_namespace = "tuple_field list"
type_synonym track_namespace_prefix = "tuple_field list"
type_synonym track_name = bytes

definition MAX_FULL_TRACK_NAME_LEN :: nat where
  "MAX_FULL_TRACK_NAME_LEN = 4096"

definition MAX_FIELDS :: nat where
  "MAX_FIELDS = 32"

definition namespace_fields_byte_len :: "tuple_field list \<Rightarrow> nat" where
  "namespace_fields_byte_len fs = sum_list (map length fs)"

section \<open>Field lists\<close>

text \<open>The body of the decoding loop: a field, which must not be empty.\<close>

definition namespace_field_decode :: "tuple_field dec" where
  "namespace_field_decode r =
     bindE (tuple_field_decode r) (\<lambda>(field, r).
       if field = [] then Inl EmptyNamespaceField else Inr (field, r))"

definition decode_namespace_fields :: "nat \<Rightarrow> nat \<Rightarrow> string \<Rightarrow> tuple_field list dec" where
  "decode_namespace_fields min_fields max_fields kind r =
     bindE (usize_decode r) (\<lambda>(count, r).
       if count < min_fields \<or> count > max_fields then Inl (FieldBoundsExceeded kind)
       else decode_many namespace_field_decode count r)"

definition namespace_field_encode :: "tuple_field \<Rightarrow> enc" where
  "namespace_field_encode field w =
     (if field = [] then Inl EncEmptyNamespaceField else tuple_field_encode field w)"

definition encode_namespace_fields :: "tuple_field list \<Rightarrow> nat \<Rightarrow> nat \<Rightarrow> string \<Rightarrow> enc" where
  "encode_namespace_fields fs min_fields max_fields kind w =
     (if length fs < min_fields \<or> length fs > max_fields then Inl (EncFieldBoundsExceeded kind)
      else bindE (usize_encode (length fs) w) (encode_many namespace_field_encode fs))"

datatype track_namespace_error =
    TooManyFields nat nat
  | TooFewFields
  | NamespaceTooLarge nat nat
  | FieldTooLarge nat nat
  | EmptyField

text \<open>The loop of \<^verbatim>\<open>validate_track_namespace_fields\<close>, stopping at the first bad field.\<close>

fun validate_each_field :: "tuple_field list \<Rightarrow> track_namespace_error + unit" where
  "validate_each_field [] = Inr ()"
| "validate_each_field (f # fs) =
     (if f = [] then Inl EmptyField
      else if length f > MAX_VALUE_SIZE then Inl (FieldTooLarge (length f) MAX_VALUE_SIZE)
      else validate_each_field fs)"

definition validate_track_namespace_fields ::
    "tuple_field list \<Rightarrow> nat \<Rightarrow> nat \<Rightarrow> track_namespace_error + unit" where
  "validate_track_namespace_fields fs min_fields max_fields =
     (if length fs < min_fields then Inl TooFewFields
      else if length fs > max_fields then Inl (TooManyFields (length fs) max_fields)
      else validate_each_field fs)"

section \<open>TrackName\<close>

definition track_name_decode :: "track_name dec" where
  "track_name_decode r =
     bindE (usize_decode r) (\<lambda>(size, r).
       if size > MAX_FULL_TRACK_NAME_LEN then Inl TrackNameTooLong else read_exact size r)"

definition track_name_encode :: "track_name \<Rightarrow> enc" where
  "track_name_encode v w =
     (if length v > MAX_FULL_TRACK_NAME_LEN then Inl (EncFieldBoundsExceeded ''TrackName'')
      else
        bindE (usize_encode (length v) w) (\<lambda>w.
        bindE (checked_put v w) (\<lambda>w. Inr w)))"

section \<open>TrackNamespace\<close>

definition namespace_byte_len :: "track_namespace \<Rightarrow> nat" where
  "namespace_byte_len ns = namespace_fields_byte_len ns"

definition validate_namespace_byte_len :: "track_namespace \<Rightarrow> decode_error + unit" where
  "validate_namespace_byte_len ns =
     (if namespace_byte_len ns > MAX_FULL_TRACK_NAME_LEN then Inl TrackNameTooLong else Inr ())"

definition track_namespace_decode :: "track_namespace dec" where
  "track_namespace_decode r =
     bindE (decode_namespace_fields 1 MAX_FIELDS ''TrackNamespace'' r) (\<lambda>(fs, r).
     bindE (validate_namespace_byte_len fs) (\<lambda>_. Inr (fs, r)))"

definition track_namespace_encode :: "track_namespace \<Rightarrow> enc" where
  "track_namespace_encode ns w =
     (if namespace_byte_len ns > MAX_FULL_TRACK_NAME_LEN
      then Inl (EncFieldBoundsExceeded ''TrackNamespace'')
      else encode_namespace_fields ns 1 MAX_FIELDS ''TrackNamespace'' w)"

definition track_namespace_try_from :: "tuple_field list \<Rightarrow> track_namespace_error + track_namespace" where
  "track_namespace_try_from fs =
     bindE (validate_track_namespace_fields fs 1 MAX_FIELDS) (\<lambda>_.
       let namespace_len = namespace_fields_byte_len fs in
       if namespace_len > MAX_FULL_TRACK_NAME_LEN
       then Inl (NamespaceTooLarge namespace_len MAX_FULL_TRACK_NAME_LEN)
       else Inr fs)"

definition track_namespace_from_utf8_path :: "rust_string \<Rightarrow> track_namespace" where
  "track_namespace_from_utf8_path path = split_slash path"

definition track_namespace_try_from_str :: "rust_string \<Rightarrow> track_namespace_error + track_namespace" where
  "track_namespace_try_from_str path =
     track_namespace_try_from (filter (\<lambda>s. s \<noteq> []) (split_slash path))"

section \<open>TrackNamespacePrefix\<close>

definition prefix_from_utf8_path :: "rust_string \<Rightarrow> track_namespace_prefix" where
  "prefix_from_utf8_path path = filter (\<lambda>s. s \<noteq> []) (split_slash path)"

definition is_prefix_of :: "track_namespace_prefix \<Rightarrow> track_namespace \<Rightarrow> bool" where
  "is_prefix_of pre ns \<longleftrightarrow>
     length pre \<le> length ns \<and> list_all (\<lambda>(p, f). p = f) (zip pre ns)"

definition overlaps :: "track_namespace_prefix \<Rightarrow> track_namespace_prefix \<Rightarrow> bool" where
  "overlaps a b \<longleftrightarrow> list_all (\<lambda>(l, r). l = r) (zip a b)"

definition strip_prefix :: "track_namespace \<Rightarrow> track_namespace_prefix \<Rightarrow> track_namespace_prefix option" where
  "strip_prefix ns pre =
     (if \<not> is_prefix_of pre ns then None else Some (drop (length pre) ns))"

definition join_suffix ::
    "track_namespace_prefix \<Rightarrow> track_namespace_prefix \<Rightarrow> track_namespace_error + track_namespace" where
  "join_suffix pre suf = track_namespace_try_from (pre @ suf)"

definition track_namespace_prefix_decode :: "track_namespace_prefix dec" where
  "track_namespace_prefix_decode r =
     decode_namespace_fields 0 MAX_FIELDS ''TrackNamespacePrefix'' r"

definition track_namespace_prefix_encode :: "track_namespace_prefix \<Rightarrow> enc" where
  "track_namespace_prefix_encode pre w =
     encode_namespace_fields pre 0 MAX_FIELDS ''TrackNamespacePrefix'' w"

section \<open>Full track names\<close>

definition full_track_name_len :: "track_namespace \<Rightarrow> track_name \<Rightarrow> nat" where
  "full_track_name_len ns name = namespace_byte_len ns + length name"

definition validate_full_track_name :: "track_namespace \<Rightarrow> track_name \<Rightarrow> decode_error + unit" where
  "validate_full_track_name ns name =
     (if full_track_name_len ns name > MAX_FULL_TRACK_NAME_LEN then Inl TrackNameTooLong
      else Inr ())"

section \<open>Well-formedness\<close>

text \<open>
  What draft-16 section 2.4.1 asks of a namespace, as one predicate; the codec, the
  validating constructor and the decoder are all measured against it.
\<close>

definition namespace_fields_ok :: "nat \<Rightarrow> nat \<Rightarrow> tuple_field list \<Rightarrow> bool" where
  "namespace_fields_ok lo hi fs \<longleftrightarrow>
     lo \<le> length fs \<and> length fs \<le> hi \<and> (\<forall>f \<in> set fs. f \<noteq> [] \<and> length f \<le> MAX_VALUE_SIZE)"

definition track_namespace_ok :: "track_namespace \<Rightarrow> bool" where
  "track_namespace_ok ns \<longleftrightarrow>
     namespace_fields_ok 1 MAX_FIELDS ns \<and> namespace_byte_len ns \<le> MAX_FULL_TRACK_NAME_LEN"

lemma decode_many_result:
  "decode_many d n r = Inr (xs, r') \<Longrightarrow> (\<And>r x r'. d r = Inr (x, r') \<Longrightarrow> P x) \<Longrightarrow>
   length xs = n \<and> (\<forall>x \<in> set xs. P x)"
proof (induction n arbitrary: r xs)
  case 0
  then show ?case by simp
next
  case (Suc n)
  from Suc.prems(1) obtain x r1 ys where "d r = Inr (x, r1)" "decode_many d n r1 = Inr (ys, r')"
      and xs: "xs = x # ys"
    by auto
  with Suc.IH [of r1 ys] Suc.prems(2) [of r x r1] Suc.prems(2) show ?case by simp
qed

lemma decoder_namespace_field [decoder_rules]: "decoder namespace_field_decode"
  unfolding namespace_field_decode_def [abs_def] by (intro decoder_rules) simp

lemma codec_namespace_field [codec_rules]:
  "codec (namespace_field_encode f) namespace_field_decode f"
  unfolding namespace_field_encode_def [abs_def]
proof (rule codec_encoder_check)
  assume "f \<noteq> []"
  then have "codec (\<lambda>w. bindE (tuple_field_encode f w) Inr) namespace_field_decode f"
    unfolding namespace_field_decode_def [abs_def]
    by (intro codec_bind [OF codec_tuple_field]) (simp add: codec_return)
  then show "codec (tuple_field_encode f) namespace_field_decode f" by simp
qed

lemma namespace_field_decode_ok:
  "namespace_field_decode r = Inr (f, r') \<Longrightarrow> f \<noteq> [] \<and> length f \<le> MAX_VALUE_SIZE"
  by (auto simp: namespace_field_decode_def dest: tuple_field_decode_bound split: if_splits)

lemma decoder_namespace_fields [decoder_rules]: "decoder (decode_namespace_fields lo hi kind)"
  unfolding decode_namespace_fields_def [abs_def] by (intro decoder_rules) simp

lemma codec_namespace_fields:
  "codec (encode_namespace_fields fs lo hi kind) (decode_namespace_fields lo hi kind) fs"
  unfolding encode_namespace_fields_def [abs_def] decode_namespace_fields_def [abs_def]
  by (rule codec_encoder_check, rule codec_bind [OF codec_usize])
    (simp add: codec_many codec_namespace_field)

lemma decode_namespace_fields_ok:
  assumes "decode_namespace_fields lo hi kind r = Inr (fs, r')"
  shows "namespace_fields_ok lo hi fs"
proof -
  from assms obtain n r1 where n: "lo \<le> n" "n \<le> hi"
      and "decode_many namespace_field_decode n r1 = Inr (fs, r')"
    by (auto simp: decode_namespace_fields_def not_less split: if_splits)
  then have "length fs = n \<and> (\<forall>f \<in> set fs. f \<noteq> [] \<and> length f \<le> MAX_VALUE_SIZE)"
    by (intro decode_many_result) (auto dest: namespace_field_decode_ok)
  then show ?thesis using n by (simp add: namespace_fields_ok_def)
qed

lemma decoder_track_name [decoder_rules]: "decoder track_name_decode"
  unfolding track_name_decode_def [abs_def] by (intro decoder_rules) simp

lemma codec_track_name [codec_rules]: "codec (track_name_encode v) track_name_decode v"
  unfolding track_name_encode_def [abs_def] track_name_decode_def [abs_def]
  by (rule codec_encoder_check, rule codec_bind [OF codec_usize]) (simp add: codec_bytes)

lemma validate_namespace_byte_len_no_panic [simp]:
  "validate_namespace_byte_len ns \<noteq> Inl DecPanic"
  by (simp add: validate_namespace_byte_len_def)

lemma validate_full_track_name_no_panic [simp]: "validate_full_track_name ns n \<noteq> Inl DecPanic"
  by (simp add: validate_full_track_name_def)

lemma decoder_track_namespace [decoder_rules]: "decoder track_namespace_decode"
  unfolding track_namespace_decode_def [abs_def] by (intro decoder_rules) simp

lemma codec_track_namespace [codec_rules]:
  "codec (track_namespace_encode ns) track_namespace_decode ns"
  unfolding track_namespace_encode_def [abs_def]
proof (rule codec_encoder_check)
  assume "\<not> namespace_byte_len ns > MAX_FULL_TRACK_NAME_LEN"
  then have "codec (\<lambda>w. bindE (encode_namespace_fields ns 1 MAX_FIELDS ''TrackNamespace'' w) Inr)
      track_namespace_decode ns"
    unfolding track_namespace_decode_def [abs_def]
    by (intro codec_bind [OF codec_namespace_fields])
      (simp add: validate_namespace_byte_len_def codec_return)
  then show "codec (encode_namespace_fields ns 1 MAX_FIELDS ''TrackNamespace'')
      track_namespace_decode ns" by simp
qed

lemma track_namespace_decode_ok:
  "track_namespace_decode r = Inr (ns, r') \<Longrightarrow> track_namespace_ok ns"
  by (auto simp: track_namespace_decode_def validate_namespace_byte_len_def track_namespace_ok_def
      dest: decode_namespace_fields_ok split: if_splits)

lemma decoder_track_namespace_prefix [decoder_rules]: "decoder track_namespace_prefix_decode"
  unfolding track_namespace_prefix_decode_def [abs_def] by (rule decoder_namespace_fields)

lemma codec_track_namespace_prefix [codec_rules]:
  "codec (track_namespace_prefix_encode p) track_namespace_prefix_decode p"
  unfolding track_namespace_prefix_encode_def [abs_def] track_namespace_prefix_decode_def [abs_def]
  by (rule codec_namespace_fields)

section \<open>Prefix algebra\<close>

lemma list_all_zip_prefix:
  "length a \<le> length b \<Longrightarrow> list_all (\<lambda>(x, y). x = y) (zip a b) \<longleftrightarrow> prefix a b"
  by (induction a arbitrary: b) (auto simp: neq_Nil_conv Suc_le_length_iff)

lemma is_prefix_of_iff: "is_prefix_of a b \<longleftrightarrow> prefix a b"
  using list_all_zip_prefix prefix_length_le by (auto simp: is_prefix_of_def)

lemma list_all_zip_sym: "list_all (\<lambda>(x, y). x = y) (zip a b) \<longleftrightarrow> list_all (\<lambda>(x, y). x = y) (zip b a)"
  by (induction a b rule: list_induct2') auto

lemma overlaps_iff: "overlaps a b \<longleftrightarrow> prefix a b \<or> prefix b a"
proof (cases "length a \<le> length b")
  case True
  then show ?thesis
    using list_all_zip_prefix [OF True] prefix_length_le [of b a] prefix_order.eq_iff
    by (metis overlaps_def prefix_length_prefix le_antisym prefix_order.refl prefixE append_eq_append_conv)
next
  case False
  then show ?thesis
    using list_all_zip_prefix [of b a] list_all_zip_sym [of a b] prefix_length_le [of a b]
    by (auto simp: overlaps_def)
qed

lemma validate_each_field_iff:
  "validate_each_field fs = Inr () \<longleftrightarrow> (\<forall>f \<in> set fs. f \<noteq> [] \<and> length f \<le> MAX_VALUE_SIZE)"
  by (induction fs) (auto simp: not_less)

lemma track_namespace_try_from_iff:
  "track_namespace_try_from fs = Inr ns \<longleftrightarrow> ns = fs \<and> track_namespace_ok fs"
  by (auto simp: track_namespace_try_from_def validate_track_namespace_fields_def
      validate_each_field_iff track_namespace_ok_def namespace_fields_ok_def namespace_byte_len_def
      Let_def not_less Suc_le_eq split: if_splits)

end
