(* ===== verification/Kvp.thy ===== *)
theory Kvp
  imports Coding
begin

text \<open>
  Key-value pairs (\<^verbatim>\<open>moq-transport/src/coding/kvp.rs\<close>): pairs with absolute keys, delta-coded
  on the wire, with an integer value under an even key and a byte string under an odd one.
  The count-prefixed sequence \<^verbatim>\<open>KeyValuePairs\<close> is here; the runs without a count of
  \<^verbatim>\<open>TrackExtensions\<close> and \<^verbatim>\<open>ExtensionHeaders\<close> share its pair codec. Also here: the locale
  \<open>kv_store\<close>, the contract the three containers of pairs offer their typed accessors.
\<close>

section \<open>Pairs\<close>

definition MAX_BYTES_VALUE_LEN :: nat where
  "MAX_BYTES_VALUE_LEN = 65535"

definition SUBGROUP_HISTORY_GROUPS_PARAM :: u64 where
  "SUBGROUP_HISTORY_GROUPS_PARAM = 0x40"

datatype kvp_value = IntValue u64 | BytesValue bytes

record kvp =
  kvp_key :: u64
  kvp_val :: kvp_value

definition new_int :: "u64 \<Rightarrow> u64 \<Rightarrow> kvp" where
  "new_int k v = \<lparr>kvp_key = k, kvp_val = IntValue v\<rparr>"

definition new_bytes :: "u64 \<Rightarrow> bytes \<Rightarrow> kvp" where
  "new_bytes k v = \<lparr>kvp_key = k, kvp_val = BytesValue v\<rparr>"

text \<open>\<^verbatim>\<open>u64::is_multiple_of\<close>.\<close>

definition is_multiple_of :: "u64 \<Rightarrow> u64 \<Rightarrow> bool" where
  "is_multiple_of a b = (if b = 0 then a = 0 else a mod b = 0)"

definition decode_with_prev :: "u64 \<Rightarrow> (kvp \<times> u64) dec" where
  "decode_with_prev prev r =
     bindE (u64_decode r) (\<lambda>(delta, r).
     bindE (ok_or (u64_checked_add prev delta) KvpTypeOverflow) (\<lambda>abs_type.
       if is_multiple_of abs_type 2 then
         bindE (u64_decode r) (\<lambda>(v, r). Inr ((new_int abs_type v, abs_type), r))
       else
         bindE (usize_decode r) (\<lambda>(len, r).
           if len > MAX_BYTES_VALUE_LEN then Inl KeyValuePairLengthExceeded
           else bindE (read_exact len r) (\<lambda>(buf, r). Inr ((new_bytes abs_type buf, abs_type), r)))))"

text \<open>\<^verbatim>\<open>encode_with_prev\<close> returns the new previous type beside the buffer.\<close>

definition kvp_parity_ok :: "kvp \<Rightarrow> bool" where
  "kvp_parity_ok k \<longleftrightarrow> (case kvp_val k of IntValue _ \<Rightarrow> is_multiple_of (kvp_key k) 2 | BytesValue _ \<Rightarrow> \<not> is_multiple_of (kvp_key k) 2)"

definition encode_with_prev :: "kvp \<Rightarrow> u64 \<Rightarrow> wbuf \<Rightarrow> encode_error + (u64 \<times> wbuf)" where
  "encode_with_prev k prev w =
     (if \<not> kvp_parity_ok k then Inl EncInvalidValue
      else
        bindE (ok_or (u64_checked_sub (kvp_key k) prev) EncKvpKeyOrder) (\<lambda>delta.
        bindE (u64_encode delta w) (\<lambda>w.
        bindE (case kvp_val k of
            IntValue v \<Rightarrow> u64_encode v w
          | BytesValue v \<Rightarrow>
              if length v > MAX_BYTES_VALUE_LEN then Inl EncKeyValuePairLengthExceeded
              else bindE (usize_encode (length v) w) (checked_put v)) (\<lambda>w.
          Inr (kvp_key k, w)))))"

section \<open>KeyValuePairs\<close>

type_synonym kvps = "kvp list"

text \<open>
  The idiom all three containers of pairs use: replace the first pair with the key in
  place, or push at the end.
\<close>

fun replace_or_push :: "kvp \<Rightarrow> kvp list \<Rightarrow> kvp list" where
  "replace_or_push p [] = [p]"
| "replace_or_push p (k # ks) = (if kvp_key k = kvp_key p then p # ks else k # replace_or_push p ks)"

definition find_key :: "kvp list \<Rightarrow> u64 \<Rightarrow> kvp option" where
  "find_key ks k = List.find (\<lambda>p. kvp_key p = k) ks"

definition kvps_set :: "kvp \<Rightarrow> kvps \<Rightarrow> kvps" where
  "kvps_set p ks = replace_or_push p ks"

definition set_intvalue :: "u64 \<Rightarrow> u64 \<Rightarrow> kvps \<Rightarrow> kvps" where
  "set_intvalue k v ks = kvps_set (new_int k v) ks"

definition set_bytesvalue :: "u64 \<Rightarrow> bytes \<Rightarrow> kvps \<Rightarrow> kvps" where
  "set_bytesvalue k v ks = kvps_set (new_bytes k v) ks"

definition kvps_has :: "kvps \<Rightarrow> u64 \<Rightarrow> bool" where
  "kvps_has ks k = list_ex (\<lambda>p. kvp_key p = k) ks"

definition kvps_get :: "kvps \<Rightarrow> u64 \<Rightarrow> kvp option" where
  "kvps_get ks k = find_key ks k"

text \<open>\<^verbatim>\<open>any(|k| !seen.insert(k.key))\<close> with its running set of keys.\<close>

fun dup_scan :: "u64 set \<Rightarrow> kvps \<Rightarrow> bool" where
  "dup_scan seen [] = False"
| "dup_scan seen (k # ks) = (kvp_key k \<in> seen \<or> dup_scan (insert (kvp_key k) seen) ks)"

definition has_duplicate_keys :: "kvps \<Rightarrow> bool" where
  "has_duplicate_keys ks = dup_scan {} ks"

primrec decode_kvps :: "nat \<Rightarrow> u64 \<Rightarrow> kvps dec" where
  "decode_kvps 0 prev = (\<lambda>r. Inr ([], r))"
| "decode_kvps (Suc n) prev =
     (\<lambda>r. bindE (decode_with_prev prev r) (\<lambda>(pair_prev, r).
          bindE (decode_kvps n (snd pair_prev) r) (\<lambda>(ks, r). Inr (fst pair_prev # ks, r))))"

primrec encode_kvps :: "u64 \<Rightarrow> kvps \<Rightarrow> enc" where
  "encode_kvps prev [] = Inr"
| "encode_kvps prev (k # ks) =
     (\<lambda>w. bindE (encode_with_prev k prev w) (\<lambda>(prev, w). encode_kvps prev ks w))"

definition kvps_decode :: "kvps dec" where
  "kvps_decode r = bindE (u64_decode r) (\<lambda>(count, r). decode_kvps (unat count) 0 r)"

definition kvps_encode :: "kvps \<Rightarrow> enc" where
  "kvps_encode ks w =
     (let sorted_kvps = sort_key kvp_key ks in
      bindE (usize_encode (length sorted_kvps) w) (encode_kvps 0 sorted_kvps))"

section \<open>The pair codec\<close>

definition kvp_enc :: "kvp \<Rightarrow> u64 \<Rightarrow> enc" where
  "kvp_enc k prev w = bindE (encode_with_prev k prev w) (\<lambda>(_, w). Inr w)"

lemma encode_with_prev_eq: "encode_with_prev k prev w = bindE (kvp_enc k prev w) (\<lambda>w. Inr (kvp_key k, w))"
  by (auto simp: kvp_enc_def encode_with_prev_def bindE_assoc intro!: bindE_cong)

lemma encode_kvps_Cons: "encode_kvps prev (k # ks) = (\<lambda>w. bindE (kvp_enc k prev w) (encode_kvps (kvp_key k) ks))"
  by (simp add: encode_with_prev_eq bindE_assoc)

lemma decoder_with_prev [decoder_rules]: "decoder (decode_with_prev prev)"
  unfolding decode_with_prev_def [abs_def] by (intro decoder_rules) simp_all

lemma codec_kvp [codec_rules]: "codec (kvp_enc k prev) (decode_with_prev prev) (k, kvp_key k)"
proof (cases "kvp_parity_ok k \<and> prev \<le> kvp_key k")
  case False
  then have "kvp_enc k prev w = Inl e \<or> (\<exists>e. kvp_enc k prev w = Inl e)" for w e
    by (cases "kvp_parity_ok k") (auto simp: kvp_enc_def encode_with_prev_def u64_checked_sub_def)
  then show ?thesis unfolding codec_def by (metis sum.distinct(1))
next
  case True
  define delta where "delta = kvp_key k - prev"
  have add: "u64_checked_add prev delta = Some (kvp_key k)"
    using True by (simp add: delta_def u64_add_sub)
  show ?thesis
  proof (cases "kvp_val k")
    case (IntValue v)
    then have k: "k = new_int (kvp_key k) v" and ev: "is_multiple_of (kvp_key k) 2"
      using True by (simp_all add: new_int_def kvp_parity_ok_def)
    have enc: "kvp_enc k prev = (\<lambda>w. bindE (u64_encode delta w) (\<lambda>w. bindE (u64_encode v w) Inr))"
      using True IntValue by (simp add: kvp_enc_def encode_with_prev_def u64_checked_sub_def delta_def
          bindE_assoc fun_eq_iff)
    show ?thesis unfolding enc decode_with_prev_def [abs_def]
      using add ev k by (intro codec_bind [OF codec_u64])
        (simp, rule codec_map [OF codec_u64], simp)
  next
    case (BytesValue v)
    then have k: "k = new_bytes (kvp_key k) v" and od: "\<not> is_multiple_of (kvp_key k) 2"
      using True by (simp_all add: new_bytes_def kvp_parity_ok_def)
    have enc: "kvp_enc k prev = (\<lambda>w. bindE (u64_encode delta w) (\<lambda>w.
        if length v > MAX_BYTES_VALUE_LEN then Inl EncKeyValuePairLengthExceeded
        else bindE (usize_encode (length v) w) (checked_put v)))"
      using True BytesValue by (simp add: kvp_enc_def encode_with_prev_def u64_checked_sub_def delta_def
          bindE_assoc fun_eq_iff)
    show ?thesis unfolding enc decode_with_prev_def [abs_def]
    proof (rule codec_bind [OF codec_u64], simp only: add ok_or_simps bindE.simps od if_False,
        rule codec_encoder_check, rule codec_bind [OF codec_usize])
      assume "\<not> length v > MAX_BYTES_VALUE_LEN"
      then show "codec (checked_put v)
          (\<lambda>r. if length v > MAX_BYTES_VALUE_LEN then Inl KeyValuePairLengthExceeded
             else bindE (read_exact (length v) r) (\<lambda>(buf, r). Inr ((new_bytes (kvp_key k) buf, kvp_key k), r)))
          (k, kvp_key k)"
        using k by (simp, intro codec_map [OF codec_bytes]) simp_all
    qed
  qed
qed

lemma decode_with_prev_key:
  assumes "decode_with_prev prev r = Inr ((k, t), r')"
  shows "t = kvp_key k \<and> prev \<le> t \<and> kvp_parity_ok k"
proof -
  from assms obtain delta where t: "u64_checked_add prev delta = Some t"
    and "t = kvp_key k \<and> kvp_parity_ok k"
    by (auto simp: decode_with_prev_def new_int_def new_bytes_def kvp_parity_ok_def split: if_splits)
  moreover have "prev \<le> t" using unat_checked_add [OF t] by (simp add: word_le_nat_alt)
  ultimately show ?thesis by simp
qed

section \<open>Counted runs\<close>

lemma decoder_kvps_run [decoder_rules]: "decoder (decode_kvps n prev)"
  by (induction n arbitrary: prev) (auto intro!: decoder_rules simp del: bindE_eq_Inr)

lemma codec_kvps_run: "codec (encode_kvps prev ks) (decode_kvps (length ks) prev) ks"
proof (induction ks arbitrary: prev)
  case Nil
  then show ?case by (simp add: codec_return)
next
  case (Cons k ks)
  have "codec (encode_kvps (kvp_key k) ks)
      (\<lambda>r. bindE (decode_kvps (length ks) (kvp_key k) r) (\<lambda>(ks, r). Inr (k # ks, r))) (k # ks)"
    by (rule codec_map [OF Cons.IH]) simp
  then show ?case
    unfolding encode_kvps_Cons list.size(4) add_Suc_right add_0_right decode_kvps.simps
    by (intro codec_bind [OF codec_kvp]) simp
qed

lemma decoder_kvps [decoder_rules]: "decoder kvps_decode"
  unfolding kvps_decode_def [abs_def] by (intro decoder_rules)

lemma codec_usize_u64: "codec (usize_encode n) u64_decode (of_nat n)"
proof (cases "n < 2 ^ 62")
  case True
  then show ?thesis
    using codec_u64 [of "of_nat n"] by (simp add: usize_encode_def [abs_def] unat_varint_MAX)
next
  case False
  then show ?thesis by (simp add: codec_def usize_encode_eq)
qed

text \<open>A sequence of pairs is read back in key order.\<close>

lemma codec_kvps [codec_rules]: "codec (kvps_encode ks) kvps_decode (sort_key kvp_key ks)"
proof (cases "length ks < 2 ^ 62")
  case True
  then have "unat (of_nat (length ks) :: u64) = length (sort_key kvp_key ks)"
    by (simp add: unat_of_nat_lt)
  then show ?thesis
    unfolding kvps_encode_def [abs_def] kvps_decode_def [abs_def] Let_def
    using codec_kvps_run [of 0 "sort_key kvp_key ks"]
    by (intro codec_bind [OF codec_usize_u64]) simp
next
  case False
  then show ?thesis by (simp add: codec_def kvps_encode_def usize_encode_eq)
qed

lemma decode_kvps_result:
  "decode_kvps n prev r = Inr (ks, r') \<Longrightarrow>
   sorted (map kvp_key ks) \<and> (\<forall>k \<in> set ks. prev \<le> kvp_key k \<and> kvp_parity_ok k)"
proof (induction n arbitrary: prev r ks)
  case 0
  then show ?case by simp
next
  case (Suc n)
  then obtain k t r1 ks' where k: "decode_with_prev prev r = Inr ((k, t), r1)"
      and ks': "decode_kvps n t r1 = Inr (ks', r')" and "ks = k # ks'"
    by auto
  moreover from decode_with_prev_key [OF k] have "t = kvp_key k" "prev \<le> t" "kvp_parity_ok k" by auto
  ultimately show ?case using Suc.IH [OF ks'] by (auto intro: order_trans)
qed

section \<open>Runs to the end of the buffer\<close>

text \<open>
  \<^verbatim>\<open>while r.has_remaining()\<close>: the loop of \<^verbatim>\<open>TrackExtensions::decode\<close> and
  \<^verbatim>\<open>ExtensionHeaders::decode\<close>. It ends because every pair takes at least one byte.
\<close>

lemma streams_nonempty:
  assumes "streams d p x" and "d [] = Inl e"
  shows "p \<noteq> []"
  using streams_all [OF assms(1)] assms(2) by auto

lemma decode_with_prev_Nil [simp]: "decode_with_prev prev [] = Inl (More 1)"
  by (simp add: decode_with_prev_def u64_decode_def varint_decode_def read_u8_def decode_remaining_def)

lemma decode_with_prev_consumes:
  assumes "decode_with_prev prev r = Inr (x, r')"
  shows "length r' < length r"
proof -
  obtain p where "r = p @ r'" "streams (decode_with_prev prev) p x"
    using decoder_reads [OF decoder_with_prev assms] .
  moreover have "p \<noteq> []"
    using streams_nonempty [OF \<open>streams (decode_with_prev prev) p x\<close>, of "More 1"] by simp
  ultimately show ?thesis by simp
qed

function decode_to_end :: "u64 \<Rightarrow> bytes \<Rightarrow> decode_error + kvp list" where
  "decode_to_end prev r =
     (if r = [] then Inr []
      else bindE (decode_with_prev prev r) (\<lambda>pair_r.
           bindE (decode_to_end (snd (fst pair_r)) (snd pair_r)) (\<lambda>ks. Inr (fst (fst pair_r) # ks))))"
  by auto
termination
  by (relation "measure (\<lambda>(_, r). length r)") (auto dest: decode_with_prev_consumes)

declare decode_to_end.simps [simp del]

lemma decode_to_end_Nil [simp]: "decode_to_end prev [] = Inr []"
  by (simp add: decode_to_end.simps)

lemma decode_to_end_step:
  assumes "streams (decode_with_prev prev) p (k, kvp_key k)"
  shows "decode_to_end prev (p @ r) = bindE (decode_to_end (kvp_key k) r) (\<lambda>ks. Inr (k # ks))"
proof -
  have "p \<noteq> []" using streams_nonempty [OF assms, of "More 1"] by simp
  then show ?thesis
    by (simp add: decode_to_end.simps [of prev "p @ r"] streamsD [OF assms])
qed

lemma decode_to_end_no_panic: "decode_to_end prev r \<noteq> Inl DecPanic"
proof (induction prev r rule: decode_to_end.induct)
  case (1 prev r)
  show ?case
  proof (cases "decode_with_prev prev r")
    case (Inl e)
    then show ?thesis
      using decoder_no_panic [OF decoder_with_prev, of prev r] by (simp add: decode_to_end.simps [of prev r])
  next
    case (Inr x)
    then show ?thesis
      using 1 by (auto simp: decode_to_end.simps [of prev r] bindE_eq_Inl)
  qed
qed

lemma decode_to_end_result:
  "decode_to_end prev r = Inr ks \<Longrightarrow>
   sorted (map kvp_key ks) \<and> (\<forall>k \<in> set ks. prev \<le> kvp_key k \<and> kvp_parity_ok k)"
proof (induction prev r arbitrary: ks rule: decode_to_end.induct)
  case (1 prev r)
  show ?case
  proof (cases "r = []")
    case True
    with 1 show ?thesis by simp
  next
    case False
    with 1(2) obtain k t r1 ks' where k: "decode_with_prev prev r = Inr ((k, t), r1)"
        and ks': "decode_to_end t r1 = Inr ks'" and "ks = k # ks'"
      by (auto simp: decode_to_end.simps [of prev r])
    moreover from decode_with_prev_key [OF k] have "t = kvp_key k" "prev \<le> t" "kvp_parity_ok k" by auto
    ultimately show ?thesis using 1(1) [OF False k] by (auto intro: order_trans)
  qed
qed

lemma encode_kvps_to_end:
  "encode_kvps prev ks w = Inr w' \<Longrightarrow>
   \<exists>bs. writes (encode_kvps prev ks) bs \<and> decode_to_end prev bs = Inr ks"
proof (induction ks arbitrary: prev w)
  case Nil
  then show ?case using writes_return by (intro exI [of _ "[]"]) simp
next
  case (Cons k ks)
  from Cons.prems obtain w1 where w1: "kvp_enc k prev w = Inr w1" "encode_kvps (kvp_key k) ks w1 = Inr w'"
    by (auto simp: encode_kvps_Cons simp del: encode_kvps.simps)
  obtain p where p: "writes (kvp_enc k prev) p" "streams (decode_with_prev prev) p (k, kvp_key k)"
    using codecE [OF codec_kvp w1(1)] .
  obtain bs where bs: "writes (encode_kvps (kvp_key k) ks) bs" "decode_to_end (kvp_key k) bs = Inr ks"
    using Cons.IH [OF w1(2)] by auto
  show ?case
    unfolding encode_kvps_Cons
    by (intro exI [of _ "p @ bs"] conjI writes_bind p bs) (simp add: decode_to_end_step [OF p(2)] bs)
qed

section \<open>The store of pairs\<close>

text \<open>
  What \<^verbatim>\<open>KeyValuePairs\<close>, \<^verbatim>\<open>TrackExtensions\<close> and \<^verbatim>\<open>ExtensionHeaders\<close> promise their typed
  accessors: \<open>find\<close> after \<open>put\<close> behaves as a map from keys to pairs.
\<close>

locale kv_store =
  fixes emp :: 's
    and find :: "'s \<Rightarrow> u64 \<Rightarrow> kvp option"
    and put :: "kvp \<Rightarrow> 's \<Rightarrow> 's"
  assumes find_emp: "find emp k = None"
    and find_put: "find (put p s) k = (if k = kvp_key p then Some p else find s k)"
begin

lemma find_put_same: "find (put p s) (kvp_key p) = Some p"
  by (simp add: find_put)

lemma find_put_other: "k \<noteq> kvp_key p \<Longrightarrow> find (put p s) k = find s k"
  by (simp add: find_put)

lemma put_overwrites: "kvp_key p = kvp_key q \<Longrightarrow> find (put p (put q s)) = find (put p s)"
  by (simp add: find_put fun_eq_iff)

lemma put_commutes:
  "kvp_key p \<noteq> kvp_key q \<Longrightarrow> find (put p (put q s)) = find (put q (put p s))"
  by (auto simp: find_put fun_eq_iff)

lemma find_fold: "find (fold put ps s) k =
    (case List.find (\<lambda>p. kvp_key p = k) (rev ps) of None \<Rightarrow> find s k | Some p \<Rightarrow> Some p)"
proof (induction ps rule: rev_induct)
  case Nil
  then show ?case by simp
next
  case (snoc p ps)
  then show ?case by (auto simp: find_put)
qed

end

lemma find_key_replace_or_push:
  "find_key (replace_or_push p ks) k = (if k = kvp_key p then Some p else find_key ks k)"
  by (induction ks) (auto simp: find_key_def)

lemma find_key_Nil: "find_key [] k = None"
  by (simp add: find_key_def)

interpretation kvps: kv_store "[] :: kvps" kvps_get kvps_set
  by unfold_locales (simp_all add: kvps_get_def kvps_set_def find_key_replace_or_push find_key_Nil)

lemma keys_replace_or_push:
  "map kvp_key (replace_or_push p ks) =
    (if kvp_key p \<in> kvp_key ` set ks then map kvp_key ks else map kvp_key ks @ [kvp_key p])"
  by (induction ks) auto

lemma dup_scan_iff: "dup_scan seen ks \<longleftrightarrow> \<not> distinct (map kvp_key ks) \<or> kvp_key ` set ks \<inter> seen \<noteq> {}"
  by (induction ks arbitrary: seen) auto

lemma has_duplicate_keys_iff: "has_duplicate_keys ks \<longleftrightarrow> \<not> distinct (map kvp_key ks)"
  by (simp add: has_duplicate_keys_def dup_scan_iff)

lemma kvps_set_distinct: "distinct (map kvp_key ks) \<Longrightarrow> distinct (map kvp_key (kvps_set p ks))"
  by (simp add: kvps_set_def keys_replace_or_push)

text \<open>Sorting keeps what a key resolves to: the sort is stable.\<close>

lemma find_filter: "List.find P xs = List.find (\<lambda>_. True) (filter P xs)"
  by (induction xs) auto

lemma find_key_sort: "find_key (sort_key kvp_key ks) k = find_key ks k"
proof -
  have "filter (\<lambda>p. kvp_key p = k) (sort_key kvp_key ks) = filter (\<lambda>p. kvp_key p = k) ks"
    using sort_key_stable [of kvp_key k ks] by (simp add: eq_commute)
  then show ?thesis unfolding find_key_def by (subst (1 2) find_filter) simp
qed

lemma kvps_get_sort: "kvps_get (sort_key kvp_key ks) k = kvps_get ks k"
  by (simp add: kvps_get_def find_key_sort)

end
