(* ===== verification/Params.thy ===== *)
theory Params
  imports Kvp
begin

text \<open>
  Message parameters and track extensions (\<^verbatim>\<open>moq-transport/src/message/params.rs\<close>, with
  \<^verbatim>\<open>filter_type.rs\<close> and \<^verbatim>\<open>group_order.rs\<close>): the registry of parameter types, the typed
  getters and setters over the pair containers, the subscription filter, and the track
  extensions that run to the end of a payload.
\<close>

section \<open>Group order and filter types\<close>

datatype group_order = Publisher | Ascending | Descending

fun group_order_value :: "group_order \<Rightarrow> u8" where
  "group_order_value Publisher = 0"
| "group_order_value Ascending = 1"
| "group_order_value Descending = 2"

definition group_order_encode :: "group_order \<Rightarrow> enc" where
  "group_order_encode g w = bindE (u8_encode (group_order_value g) w) Inr"

definition group_order_decode :: "group_order dec" where
  "group_order_decode r =
     bindE (u8_decode r) (\<lambda>(v, r).
       if v = 0 then Inr (Publisher, r)
       else if v = 1 then Inr (Ascending, r)
       else if v = 2 then Inr (Descending, r)
       else Inl InvalidGroupOrder)"

datatype filter_type = NextGroupStart | LargestObject | AbsoluteStart | AbsoluteRange

fun filter_type_value :: "filter_type \<Rightarrow> u64" where
  "filter_type_value NextGroupStart = 1"
| "filter_type_value LargestObject = 2"
| "filter_type_value AbsoluteStart = 3"
| "filter_type_value AbsoluteRange = 4"

definition filter_type_encode :: "filter_type \<Rightarrow> enc" where
  "filter_type_encode f w = bindE (u64_encode (filter_type_value f) w) Inr"

definition filter_type_decode :: "filter_type dec" where
  "filter_type_decode r =
     bindE (u64_decode r) (\<lambda>(v, r).
       if v = 1 then Inr (NextGroupStart, r)
       else if v = 2 then Inr (LargestObject, r)
       else if v = 3 then Inr (AbsoluteStart, r)
       else if v = 4 then Inr (AbsoluteRange, r)
       else Inl InvalidFilterType)"

section \<open>Registries\<close>

definition DELIVERY_TIMEOUT :: u64 where "DELIVERY_TIMEOUT = 0x02"
definition AUTHORIZATION_TOKEN :: u64 where "AUTHORIZATION_TOKEN = 0x03"
definition EXPIRES :: u64 where "EXPIRES = 0x08"
definition LARGEST_OBJECT :: u64 where "LARGEST_OBJECT = 0x09"
definition FORWARD :: u64 where "FORWARD = 0x10"
definition SUBSCRIBER_PRIORITY :: u64 where "SUBSCRIBER_PRIORITY = 0x20"
definition SUBSCRIPTION_FILTER :: u64 where "SUBSCRIPTION_FILTER = 0x21"
definition GROUP_ORDER :: u64 where "GROUP_ORDER = 0x22"
definition NEW_GROUP_REQUEST :: u64 where "NEW_GROUP_REQUEST = 0x32"

lemmas parameter_types = DELIVERY_TIMEOUT_def AUTHORIZATION_TOKEN_def EXPIRES_def
  LARGEST_OBJECT_def FORWARD_def SUBSCRIBER_PRIORITY_def SUBSCRIPTION_FILTER_def
  GROUP_ORDER_def NEW_GROUP_REQUEST_def

definition known_parameter_types :: "u64 list" where
  "known_parameter_types =
     [DELIVERY_TIMEOUT, AUTHORIZATION_TOKEN, EXPIRES, LARGEST_OBJECT, FORWARD,
      SUBSCRIBER_PRIORITY, SUBSCRIPTION_FILTER, GROUP_ORDER, NEW_GROUP_REQUEST]"

definition validate_message_parameter_types :: "kvps \<Rightarrow> decode_error + unit" where
  "validate_message_parameter_types params =
     (if list_all (\<lambda>p. kvp_key p \<in> set known_parameter_types) params then Inr ()
      else Inl InvalidParameter)"

definition ext_DELIVERY_TIMEOUT :: u64 where "ext_DELIVERY_TIMEOUT = 0x02"
definition MAX_CACHE_DURATION :: u64 where "MAX_CACHE_DURATION = 0x04"
definition IMMUTABLE_EXTENSIONS :: u64 where "IMMUTABLE_EXTENSIONS = 0x0B"
definition DEFAULT_PUBLISHER_PRIORITY :: u64 where "DEFAULT_PUBLISHER_PRIORITY = 0x0E"
definition DEFAULT_PUBLISHER_GROUP_ORDER :: u64 where "DEFAULT_PUBLISHER_GROUP_ORDER = 0x22"
definition DYNAMIC_GROUPS :: u64 where "DYNAMIC_GROUPS = 0x30"
definition PRIOR_GROUP_ID_GAP :: u64 where "PRIOR_GROUP_ID_GAP = 0x3C"
definition PRIOR_OBJECT_ID_GAP :: u64 where "PRIOR_OBJECT_ID_GAP = 0x3E"

section \<open>Reading typed values\<close>

definition get_kvp_int :: "kvp list \<Rightarrow> u64 \<Rightarrow> decode_error + u64 option" where
  "get_kvp_int pairs key =
     (case map_option kvp_val (find_key pairs key) of
        Some (IntValue v) \<Rightarrow> Inr (Some v)
      | Some (BytesValue _) \<Rightarrow> Inl InvalidParameter
      | None \<Rightarrow> Inr None)"

definition get_kvp_u8 :: "kvp list \<Rightarrow> u64 \<Rightarrow> decode_error + u8 option" where
  "get_kvp_u8 pairs key =
     bindE (get_kvp_int pairs key) (\<lambda>v. case v of
         Some v \<Rightarrow> if v \<le> 0xFF then Inr (Some (ucast v)) else Inl InvalidParameter
       | None \<Rightarrow> Inr None)"

definition encode_bytes_value :: "enc \<Rightarrow> encode_error + bytes" where
  "encode_bytes_value e = bindE (e fresh_vec) (\<lambda>w. Inr (wr_bytes w))"

definition decode_bytes_value :: "'a dec \<Rightarrow> bytes \<Rightarrow> decode_error + 'a" where
  "decode_bytes_value d value =
     bindE (d value) (\<lambda>(x, payload). if payload \<noteq> [] then Inl InvalidParameter else Inr x)"

section \<open>TrackExtensions\<close>

type_synonym track_extensions = "kvp list"

definition set_extension :: "kvp \<Rightarrow> track_extensions \<Rightarrow> track_extensions" where
  "set_extension p ks = replace_or_push p ks"

definition set_int_extension :: "u64 \<Rightarrow> u64 \<Rightarrow> track_extensions \<Rightarrow> track_extensions" where
  "set_int_extension k v ks = set_extension (new_int k v) ks"

definition set_bytes_extension :: "u64 \<Rightarrow> bytes \<Rightarrow> track_extensions \<Rightarrow> track_extensions" where
  "set_bytes_extension k v ks = set_extension (new_bytes k v) ks"

definition te_delivery_timeout :: "track_extensions \<Rightarrow> decode_error + u64 option" where
  "te_delivery_timeout ks = get_kvp_int ks ext_DELIVERY_TIMEOUT"

definition te_set_delivery_timeout :: "u64 \<Rightarrow> track_extensions \<Rightarrow> track_extensions" where
  "te_set_delivery_timeout v ks = set_int_extension ext_DELIVERY_TIMEOUT v ks"

definition max_cache_duration :: "track_extensions \<Rightarrow> decode_error + u64 option" where
  "max_cache_duration ks = get_kvp_int ks MAX_CACHE_DURATION"

definition set_max_cache_duration :: "u64 \<Rightarrow> track_extensions \<Rightarrow> track_extensions" where
  "set_max_cache_duration v ks = set_int_extension MAX_CACHE_DURATION v ks"

definition default_publisher_priority :: "track_extensions \<Rightarrow> decode_error + u8 option" where
  "default_publisher_priority ks = get_kvp_u8 ks DEFAULT_PUBLISHER_PRIORITY"

definition set_default_publisher_priority :: "u8 \<Rightarrow> track_extensions \<Rightarrow> track_extensions" where
  "set_default_publisher_priority v ks = set_int_extension DEFAULT_PUBLISHER_PRIORITY (ucast v) ks"

definition default_publisher_group_order :: "track_extensions \<Rightarrow> decode_error + group_order option" where
  "default_publisher_group_order ks =
     bindE (get_kvp_int ks DEFAULT_PUBLISHER_GROUP_ORDER) (\<lambda>v. case v of
         Some v \<Rightarrow>
           if v = 1 then Inr (Some Ascending)
           else if v = 2 then Inr (Some Descending)
           else Inl InvalidGroupOrder
       | None \<Rightarrow> Inr None)"

definition set_default_publisher_group_order ::
    "group_order \<Rightarrow> track_extensions \<Rightarrow> encode_error + track_extensions" where
  "set_default_publisher_group_order g ks =
     (case g of
        Publisher \<Rightarrow> Inl EncInvalidValue
      | _ \<Rightarrow> Inr (set_int_extension DEFAULT_PUBLISHER_GROUP_ORDER (ucast (group_order_value g)) ks))"

definition dynamic_groups :: "track_extensions \<Rightarrow> decode_error + bool option" where
  "dynamic_groups ks =
     bindE (get_kvp_int ks DYNAMIC_GROUPS) (\<lambda>v. case v of
         Some v \<Rightarrow>
           if v = 0 then Inr (Some False)
           else if v = 1 then Inr (Some True)
           else Inl InvalidParameter
       | None \<Rightarrow> Inr None)"

definition set_dynamic_groups :: "bool \<Rightarrow> track_extensions \<Rightarrow> track_extensions" where
  "set_dynamic_groups enabled ks = set_int_extension DYNAMIC_GROUPS (if enabled then 1 else 0) ks"

definition track_extensions_decode :: "track_extensions dec" where
  "track_extensions_decode r = bindE (decode_to_end 0 r) (\<lambda>ks. Inr (ks, []))"

definition track_extensions_encode :: "track_extensions \<Rightarrow> enc" where
  "track_extensions_encode ks = encode_kvps 0 (sort_key kvp_key ks)"

section \<open>SubscriptionFilter\<close>

record subscription_filter =
  sf_filter_type :: filter_type
  sf_start_location :: "location option"
  sf_end_group_id :: "u64 option"

definition sf_largest_object :: subscription_filter where
  "sf_largest_object =
     \<lparr>sf_filter_type = LargestObject, sf_start_location = None, sf_end_group_id = None\<rparr>"

definition mk_filter :: "filter_type \<Rightarrow> location option \<Rightarrow> u64 option \<Rightarrow> subscription_filter" where
  "mk_filter f l e = \<lparr>sf_filter_type = f, sf_start_location = l, sf_end_group_id = e\<rparr>"

fun filter_body_decode :: "filter_type \<Rightarrow> subscription_filter dec" where
  "filter_body_decode AbsoluteStart = (\<lambda>r.
     bindE (location_decode r) (\<lambda>(l, r). Inr (mk_filter AbsoluteStart (Some l) None, r)))"
| "filter_body_decode AbsoluteRange = (\<lambda>r.
     bindE (location_decode r) (\<lambda>(l, r).
     bindE (u64_decode r) (\<lambda>(e, r). Inr (mk_filter AbsoluteRange (Some l) (Some e), r))))"
| "filter_body_decode f = (\<lambda>r. Inr (mk_filter f None None, r))"

definition subscription_filter_decode :: "subscription_filter dec" where
  "subscription_filter_decode r =
     bindE (filter_type_decode r) (\<lambda>(f, r). filter_body_decode f r)"

definition filter_body_encode :: "subscription_filter \<Rightarrow> enc" where
  "filter_body_encode s w =
     (case sf_filter_type s of
        AbsoluteStart \<Rightarrow>
          bindE (ok_or (sf_start_location s) (EncMissingField ''StartLocation'')) (\<lambda>l.
            location_encode l w)
      | AbsoluteRange \<Rightarrow>
          bindE (ok_or (sf_start_location s) (EncMissingField ''StartLocation'')) (\<lambda>l.
          bindE (location_encode l w) (\<lambda>w.
          bindE (ok_or (sf_end_group_id s) (EncMissingField ''EndGroupId'')) (\<lambda>e. u64_encode e w)))
      | _ \<Rightarrow> Inr w)"

definition subscription_filter_encode :: "subscription_filter \<Rightarrow> enc" where
  "subscription_filter_encode s w =
     bindE (filter_type_encode (sf_filter_type s) w) (filter_body_encode s)"

section \<open>Typed message parameters\<close>

definition int_parameter :: "kvps \<Rightarrow> u64 \<Rightarrow> decode_error + u64 option" where
  "int_parameter ks key = get_kvp_int ks key"

definition set_forward :: "bool \<Rightarrow> kvps \<Rightarrow> kvps" where
  "set_forward fwd ks = set_intvalue FORWARD (if fwd then 1 else 0) ks"

definition forward :: "kvps \<Rightarrow> decode_error + bool option" where
  "forward ks =
     bindE (int_parameter ks FORWARD) (\<lambda>v. case v of
         Some v \<Rightarrow>
           if v = 0 then Inr (Some False)
           else if v = 1 then Inr (Some True)
           else Inl InvalidParameter
       | None \<Rightarrow> Inr None)"

definition set_subscriber_priority :: "u8 \<Rightarrow> kvps \<Rightarrow> kvps" where
  "set_subscriber_priority p ks = set_intvalue SUBSCRIBER_PRIORITY (ucast p) ks"

definition subscriber_priority :: "kvps \<Rightarrow> decode_error + u8 option" where
  "subscriber_priority ks = get_kvp_u8 ks SUBSCRIBER_PRIORITY"

definition set_group_order :: "group_order \<Rightarrow> kvps \<Rightarrow> kvps" where
  "set_group_order g ks =
     (if g \<noteq> Publisher then set_intvalue GROUP_ORDER (ucast (group_order_value g)) ks else ks)"

definition get_group_order :: "kvps \<Rightarrow> decode_error + group_order option" where
  "get_group_order ks =
     bindE (int_parameter ks GROUP_ORDER) (\<lambda>v. case v of
         Some v \<Rightarrow>
           if v = 0 then Inl InvalidGroupOrder
           else if v = 1 then Inr (Some Ascending)
           else if v = 2 then Inr (Some Descending)
           else Inl InvalidGroupOrder
       | None \<Rightarrow> Inr None)"

definition set_subscription_filter :: "subscription_filter \<Rightarrow> kvps \<Rightarrow> encode_error + kvps" where
  "set_subscription_filter f ks =
     bindE (encode_bytes_value (subscription_filter_encode f)) (\<lambda>v.
       Inr (set_bytesvalue SUBSCRIPTION_FILTER v ks))"

definition get_subscription_filter :: "kvps \<Rightarrow> decode_error + subscription_filter option" where
  "get_subscription_filter ks =
     (case map_option kvp_val (kvps_get ks SUBSCRIPTION_FILTER) of
        Some (BytesValue v) \<Rightarrow> bindE (decode_bytes_value subscription_filter_decode v) (\<lambda>f. Inr (Some f))
      | Some (IntValue _) \<Rightarrow> Inl InvalidParameter
      | None \<Rightarrow> Inr None)"

definition set_largest_object :: "location \<Rightarrow> kvps \<Rightarrow> encode_error + kvps" where
  "set_largest_object l ks =
     bindE (encode_bytes_value (location_encode l)) (\<lambda>v. Inr (set_bytesvalue LARGEST_OBJECT v ks))"

definition largest_object :: "kvps \<Rightarrow> decode_error + location option" where
  "largest_object ks =
     (case map_option kvp_val (kvps_get ks LARGEST_OBJECT) of
        Some (BytesValue v) \<Rightarrow> bindE (decode_bytes_value location_decode v) (\<lambda>l. Inr (Some l))
      | Some (IntValue _) \<Rightarrow> Inl InvalidParameter
      | None \<Rightarrow> Inr None)"

definition set_expires :: "u64 \<Rightarrow> kvps \<Rightarrow> kvps" where
  "set_expires v ks = set_intvalue EXPIRES v ks"

definition expires :: "kvps \<Rightarrow> decode_error + u64 option" where
  "expires ks = int_parameter ks EXPIRES"

definition set_delivery_timeout :: "u64 \<Rightarrow> kvps \<Rightarrow> kvps" where
  "set_delivery_timeout v ks = set_intvalue DELIVERY_TIMEOUT v ks"

definition delivery_timeout :: "kvps \<Rightarrow> decode_error + u64 option" where
  "delivery_timeout ks = int_parameter ks DELIVERY_TIMEOUT"

definition set_new_group_request :: "u64 \<Rightarrow> kvps \<Rightarrow> kvps" where
  "set_new_group_request g ks = set_intvalue NEW_GROUP_REQUEST g ks"

definition new_group_request :: "kvps \<Rightarrow> decode_error + u64 option" where
  "new_group_request ks = int_parameter ks NEW_GROUP_REQUEST"

section \<open>Codec facts\<close>

lemma bindE_Inr_eta [simp]: "(\<lambda>w. bindE (e w) Inr) = e"
  by (rule ext) simp

lemma decoder_group_order [decoder_rules]: "decoder group_order_decode"
  unfolding group_order_decode_def [abs_def] by (intro decoder_rules) simp

lemma codec_group_order [codec_rules]: "codec (group_order_encode g) group_order_decode g"
  unfolding group_order_encode_def [abs_def] group_order_decode_def [abs_def]
  by (rule codec_bind [OF codec_u8]) (cases g; simp add: codec_return)

lemma decoder_filter_type [decoder_rules]: "decoder filter_type_decode"
  unfolding filter_type_decode_def [abs_def] by (intro decoder_rules) simp

lemma codec_filter_type [codec_rules]: "codec (filter_type_encode f) filter_type_decode f"
  unfolding filter_type_encode_def [abs_def] filter_type_decode_def [abs_def]
  by (rule codec_bind [OF codec_u64]) (cases f; simp add: codec_return)

lemma decoder_filter_body [decoder_rules]: "decoder (filter_body_decode f)"
  by (cases f) (auto intro!: decoder_rules simp del: bindE_eq_Inr)

lemma decoder_subscription_filter [decoder_rules]: "decoder subscription_filter_decode"
  unfolding subscription_filter_decode_def [abs_def] by (intro decoder_rules)

text \<open>
  A filter that carries a location or an end group its type has no use for does not encode
  them, so what comes back is the filter with the unused fields dropped.
\<close>

definition filter_normal :: "subscription_filter \<Rightarrow> subscription_filter" where
  "filter_normal s =
     (case sf_filter_type s of
        AbsoluteStart \<Rightarrow> s\<lparr>sf_end_group_id := None\<rparr>
      | AbsoluteRange \<Rightarrow> s
      | _ \<Rightarrow> s\<lparr>sf_start_location := None, sf_end_group_id := None\<rparr>)"

lemma codec_filter_body:
  "codec (filter_body_encode s) (filter_body_decode (sf_filter_type s)) (filter_normal s)"
proof (cases "sf_filter_type s")
  case NextGroupStart
  then show ?thesis by (simp add: filter_body_encode_def [abs_def] filter_normal_def mk_filter_def codec_done)
next
  case LargestObject
  then show ?thesis by (simp add: filter_body_encode_def [abs_def] filter_normal_def mk_filter_def codec_done)
next
  case AbsoluteStart
  show ?thesis
  proof (cases "sf_start_location s")
    case None
    then show ?thesis using AbsoluteStart by (simp add: filter_body_encode_def [abs_def] codec_def)
  next
    case (Some l)
    then show ?thesis using AbsoluteStart
      by (simp add: filter_body_encode_def [abs_def] filter_normal_def mk_filter_def
          codec_map [OF codec_location])
  qed
next
  case AbsoluteRange
  show ?thesis
  proof (cases "sf_start_location s = None \<or> sf_end_group_id s = None")
    case True
    then show ?thesis using AbsoluteRange by (auto simp: filter_body_encode_def [abs_def] codec_def)
  next
    case False
    then obtain l e where "sf_start_location s = Some l" "sf_end_group_id s = Some e" by auto
    moreover from this AbsoluteRange have "filter_normal s = mk_filter AbsoluteRange (Some l) (Some e)"
      by (simp add: filter_normal_def mk_filter_def)
    ultimately show ?thesis using AbsoluteRange
      by (simp add: filter_body_encode_def [abs_def])
        (rule codec_bind [OF codec_location], rule codec_map [OF codec_u64], simp)
  qed
qed

lemma codec_subscription_filter [codec_rules]:
  "codec (subscription_filter_encode s) subscription_filter_decode (filter_normal s)"
  unfolding subscription_filter_encode_def [abs_def] subscription_filter_decode_def [abs_def]
  by (rule codec_bind [OF codec_filter_type], rule codec_filter_body)

lemma bytes_value_roundtrip:
  assumes "codec e d x" and "encode_bytes_value e = Inr v"
  shows "decode_bytes_value d v = Inr x"
proof -
  from assms(2) obtain w where w: "e fresh_vec = Inr w" and v: "v = wr_bytes w"
    by (auto simp: encode_bytes_value_def)
  obtain bs where bs: "w = wput bs fresh_vec" "streams d bs x"
    using codecE [OF assms(1) w] .
  then show ?thesis
    using v by (simp add: decode_bytes_value_def fresh_vec_def streams_all)
qed

text \<open>Extensions are read to the end of the payload: a whole-payload codec, in key order.\<close>

lemma payload_codec_track_extensions:
  "payload_codec (track_extensions_encode ks) track_extensions_decode (sort_key kvp_key ks)"
  unfolding payload_codec_def track_extensions_encode_def
proof (intro allI impI)
  fix w w'
  assume "encode_kvps 0 (sort_key kvp_key ks) w = Inr w'"
  from encode_kvps_to_end [OF this]
  show "\<exists>bs. writes (encode_kvps 0 (sort_key kvp_key ks)) bs \<and>
      track_extensions_decode bs = Inr (sort_key kvp_key ks, [])"
    by (auto simp: track_extensions_decode_def)
qed

lemma track_extensions_no_panic: "track_extensions_decode r \<noteq> Inl DecPanic"
  using decode_to_end_no_panic [of 0 r] by (auto simp: track_extensions_decode_def bindE_eq_Inl)

interpretation te: kv_store "[] :: track_extensions" find_key set_extension
  by unfold_locales (simp_all add: set_extension_def find_key_replace_or_push find_key_Nil)

section \<open>Accessor facts\<close>

lemma new_simps [simp]:
  "kvp_key (new_int k v) = k" "kvp_val (new_int k v) = IntValue v"
  "kvp_key (new_bytes k b) = k" "kvp_val (new_bytes k b) = BytesValue b"
  by (simp_all add: new_int_def new_bytes_def)

lemma get_kvp_int_put [simp]:
  "get_kvp_int (replace_or_push (new_int k v) ks) key =
    (if key = k then Inr (Some v) else get_kvp_int ks key)"
  by (simp add: get_kvp_int_def find_key_replace_or_push)

lemma get_kvp_int_put_bytes [simp]:
  "get_kvp_int (replace_or_push (new_bytes k v) ks) key =
    (if key = k then Inl InvalidParameter else get_kvp_int ks key)"
  by (simp add: get_kvp_int_def find_key_replace_or_push)

lemma u8_fits: "(ucast (v :: u8) :: u64) \<le> 0xFF"
proof -
  have "unat v < 2 ^ LENGTH(8)" by (rule unsigned_less)
  then show ?thesis by (simp add: word_le_nat_alt unsigned_ucast_eq take_bit_nat_eq_self)
qed

lemma ucast_u8_u64 [simp]: "ucast (ucast (v :: u8) :: u64) = v"
  by (rule bit_word_eqI) (auto simp: bit_simps)

lemma get_kvp_u8_put [simp]:
  "get_kvp_u8 (replace_or_push (new_int k (ucast v)) ks) key =
    (if key = k then Inr (Some v) else get_kvp_u8 ks key)"
  by (simp add: get_kvp_u8_def u8_fits)

lemmas setter_defs = set_intvalue_def set_bytesvalue_def kvps_set_def set_int_extension_def
  set_bytes_extension_def set_extension_def int_parameter_def

lemma forward_set: "forward (set_forward b ks) = Inr (Some b)"
  by (simp add: forward_def set_forward_def setter_defs)

lemma subscriber_priority_set: "subscriber_priority (set_subscriber_priority p ks) = Inr (Some p)"
  by (simp add: subscriber_priority_def set_subscriber_priority_def setter_defs)

lemma group_order_set:
  "g \<noteq> Publisher \<Longrightarrow> get_group_order (set_group_order g ks) = Inr (Some g)"
  by (cases g) (simp_all add: get_group_order_def set_group_order_def setter_defs)

lemma subscription_filter_set:
  "set_subscription_filter f ks = Inr ks' \<Longrightarrow> get_subscription_filter ks' = Inr (Some (filter_normal f))"
  by (auto simp: set_subscription_filter_def get_subscription_filter_def setter_defs kvps_get_def
      find_key_replace_or_push dest: bytes_value_roundtrip [OF codec_subscription_filter])

lemma largest_object_set:
  "set_largest_object l ks = Inr ks' \<Longrightarrow> largest_object ks' = Inr (Some l)"
  by (auto simp: set_largest_object_def largest_object_def setter_defs kvps_get_def
      find_key_replace_or_push dest: bytes_value_roundtrip [OF codec_location])

end
