(* ===== verification/Messages.thy ===== *)
theory Messages
  imports Names Params
begin

text \<open>
  The draft-16 control messages (\<^verbatim>\<open>moq-transport/src/message/*.rs\<close>): one record per message
  struct, its \<^verbatim>\<open>Decode\<close> and \<^verbatim>\<open>Encode\<close>, and for each that a payload written by the encoder is
  read back, with parameters in key order. Messages whose decoder rejects a full track name
  above 4096 bytes need that bound, because their encoders do not check it. The three
  messages that end in track extensions read to the end of their payload.
\<close>

section \<open>Enumerations\<close>

datatype fetch_type = Standalone | RelativeJoining | AbsoluteJoining

fun fetch_type_value :: "fetch_type \<Rightarrow> u64" where
  "fetch_type_value Standalone = 1"
| "fetch_type_value RelativeJoining = 2"
| "fetch_type_value AbsoluteJoining = 3"

definition fetch_type_encode :: "fetch_type \<Rightarrow> enc" where
  "fetch_type_encode f w = bindE (u64_encode (fetch_type_value f) w) Inr"

definition fetch_type_decode :: "fetch_type dec" where
  "fetch_type_decode r =
     bindE (u64_decode r) (\<lambda>(v, r).
       if v = 1 then Inr (Standalone, r)
       else if v = 2 then Inr (RelativeJoining, r)
       else if v = 3 then Inr (AbsoluteJoining, r)
       else Inl InvalidFetchType)"

datatype subscribe_options = OptPublish | OptNamespace | OptBoth

definition subscribe_options_decode :: "subscribe_options dec" where
  "subscribe_options_decode r =
     bindE (u64_decode r) (\<lambda>(v, r).
       if v = 0 then Inr (OptPublish, r)
       else if v = 1 then Inr (OptNamespace, r)
       else if v = 2 then Inr (OptBoth, r)
       else Inl (InvalidSubscribeOptions v))"

fun subscribe_options_encode :: "subscribe_options \<Rightarrow> enc" where
  "subscribe_options_encode OptPublish w = u64_encode 0 w"
| "subscribe_options_encode OptNamespace w = u64_encode 1 w"
| "subscribe_options_encode OptBoth w = u64_encode 2 w"

datatype request_error_code =
    ReqInternalError | ReqUnauthorized | ReqTimeout | ReqNotSupported | ReqMalformedAuthToken
  | ReqExpiredAuthToken | ReqDoesNotExist | ReqInvalidRange | ReqMalformedTrack
  | ReqDuplicateSubscription | ReqUninterested | ReqPrefixOverlap | ReqInvalidJoiningRequestId

fun request_error_code_value :: "request_error_code \<Rightarrow> u64" where
  "request_error_code_value ReqInternalError = 0x0"
| "request_error_code_value ReqUnauthorized = 0x1"
| "request_error_code_value ReqTimeout = 0x2"
| "request_error_code_value ReqNotSupported = 0x3"
| "request_error_code_value ReqMalformedAuthToken = 0x4"
| "request_error_code_value ReqExpiredAuthToken = 0x5"
| "request_error_code_value ReqDoesNotExist = 0x10"
| "request_error_code_value ReqInvalidRange = 0x11"
| "request_error_code_value ReqMalformedTrack = 0x12"
| "request_error_code_value ReqDuplicateSubscription = 0x19"
| "request_error_code_value ReqUninterested = 0x20"
| "request_error_code_value ReqPrefixOverlap = 0x30"
| "request_error_code_value ReqInvalidJoiningRequestId = 0x32"

datatype publish_done_code =
    DoneInternalError | DoneUnauthorized | DoneTrackEnded | DoneSubscriptionEnded | DoneGoingAway
  | DoneExpired | DoneTooFarBehind | DoneUpdateFailed | DoneMalformedTrack

fun publish_done_code_value :: "publish_done_code \<Rightarrow> u64" where
  "publish_done_code_value DoneInternalError = 0x0"
| "publish_done_code_value DoneUnauthorized = 0x1"
| "publish_done_code_value DoneTrackEnded = 0x2"
| "publish_done_code_value DoneSubscriptionEnded = 0x3"
| "publish_done_code_value DoneGoingAway = 0x4"
| "publish_done_code_value DoneExpired = 0x5"
| "publish_done_code_value DoneTooFarBehind = 0x6"
| "publish_done_code_value DoneUpdateFailed = 0x8"
| "publish_done_code_value DoneMalformedTrack = 0x12"

section \<open>Message structs and their codecs\<close>

record request_update =
  ru_id :: u64
  ru_existing_request_id :: u64
  ru_params :: kvps

definition request_update_decode :: "request_update dec" where
  "request_update_decode r =
     bindE (u64_decode r) (\<lambda>(i, r).
     bindE (u64_decode r) (\<lambda>(existing_request_id, r).
     bindE (kvps_decode r) (\<lambda>(params, r).
       Inr (\<lparr>ru_id = i, ru_existing_request_id = existing_request_id, ru_params = params\<rparr>, r))))"

definition request_update_encode :: "request_update \<Rightarrow> enc" where
  "request_update_encode m w =
     bindE (u64_encode (ru_id m) w) (\<lambda>w.
     bindE (u64_encode (ru_existing_request_id m) w) (\<lambda>w.
     bindE (kvps_encode (ru_params m) w) (\<lambda>w. Inr w)))"

record request_error =
  rerr_id :: u64
  rerr_error_code :: u64
  rerr_retry_interval :: u64
  rerr_reason :: rust_string

definition request_error_decode :: "request_error dec" where
  "request_error_decode r =
     bindE (u64_decode r) (\<lambda>(i, r).
     bindE (u64_decode r) (\<lambda>(error_code, r).
     bindE (u64_decode r) (\<lambda>(retry_interval, r).
     bindE (reason_phrase_decode r) (\<lambda>(reason, r).
       Inr (\<lparr>rerr_id = i, rerr_error_code = error_code, rerr_retry_interval = retry_interval, rerr_reason = reason\<rparr>, r)))))"

definition request_error_encode :: "request_error \<Rightarrow> enc" where
  "request_error_encode m w =
     bindE (u64_encode (rerr_id m) w) (\<lambda>w.
     bindE (u64_encode (rerr_error_code m) w) (\<lambda>w.
     bindE (u64_encode (rerr_retry_interval m) w) (\<lambda>w.
     bindE (reason_phrase_encode (rerr_reason m) w) (\<lambda>w. Inr w))))"

record request_ok =
  rok_id :: u64
  rok_params :: kvps

definition request_ok_decode :: "request_ok dec" where
  "request_ok_decode r =
     bindE (u64_decode r) (\<lambda>(i, r).
     bindE (kvps_decode r) (\<lambda>(params, r).
       Inr (\<lparr>rok_id = i, rok_params = params\<rparr>, r)))"

definition request_ok_encode :: "request_ok \<Rightarrow> enc" where
  "request_ok_encode m w =
     bindE (u64_encode (rok_id m) w) (\<lambda>w.
     bindE (kvps_encode (rok_params m) w) (\<lambda>w. Inr w))"

record subscribe =
  sub_id :: u64
  sub_track_namespace :: track_namespace
  sub_track_name :: track_name
  sub_params :: kvps

definition subscribe_decode :: "subscribe dec" where
  "subscribe_decode r =
     bindE (u64_decode r) (\<lambda>(i, r).
     bindE (track_namespace_decode r) (\<lambda>(track_namespace, r).
     bindE (track_name_decode r) (\<lambda>(track_name, r).
     bindE (validate_full_track_name track_namespace track_name) (\<lambda>_.
     bindE (kvps_decode r) (\<lambda>(params, r).
       Inr (\<lparr>sub_id = i, sub_track_namespace = track_namespace, sub_track_name = track_name, sub_params = params\<rparr>, r))))))"

definition subscribe_encode :: "subscribe \<Rightarrow> enc" where
  "subscribe_encode m w =
     bindE (u64_encode (sub_id m) w) (\<lambda>w.
     bindE (track_namespace_encode (sub_track_namespace m) w) (\<lambda>w.
     bindE (track_name_encode (sub_track_name m) w) (\<lambda>w.
     bindE (kvps_encode (sub_params m) w) (\<lambda>w. Inr w))))"

record subscribe_ok =
  sok_id :: u64
  sok_track_alias :: u64
  sok_params :: kvps
  sok_track_extensions :: track_extensions

definition subscribe_ok_decode :: "subscribe_ok dec" where
  "subscribe_ok_decode r =
     bindE (u64_decode r) (\<lambda>(i, r).
     bindE (u64_decode r) (\<lambda>(track_alias, r).
     bindE (kvps_decode r) (\<lambda>(params, r).
     bindE (track_extensions_decode r) (\<lambda>(track_extensions, r).
       Inr (\<lparr>sok_id = i, sok_track_alias = track_alias, sok_params = params, sok_track_extensions = track_extensions\<rparr>, r)))))"

definition subscribe_ok_encode :: "subscribe_ok \<Rightarrow> enc" where
  "subscribe_ok_encode m w =
     bindE (u64_encode (sok_id m) w) (\<lambda>w.
     bindE (u64_encode (sok_track_alias m) w) (\<lambda>w.
     bindE (kvps_encode (sok_params m) w) (\<lambda>w.
     bindE (track_extensions_encode (sok_track_extensions m) w) (\<lambda>w. Inr w))))"

record unsubscribe =
  unsub_id :: u64

definition unsubscribe_decode :: "unsubscribe dec" where
  "unsubscribe_decode r =
     bindE (u64_decode r) (\<lambda>(i, r).
       Inr (\<lparr>unsub_id = i\<rparr>, r))"

definition unsubscribe_encode :: "unsubscribe \<Rightarrow> enc" where
  "unsubscribe_encode m w =
     bindE (u64_encode (unsub_id m) w) (\<lambda>w. Inr w)"

record publish_namespace =
  pns_id :: u64
  pns_track_namespace :: track_namespace
  pns_params :: kvps

definition publish_namespace_decode :: "publish_namespace dec" where
  "publish_namespace_decode r =
     bindE (u64_decode r) (\<lambda>(i, r).
     bindE (track_namespace_decode r) (\<lambda>(track_namespace, r).
     bindE (kvps_decode r) (\<lambda>(params, r).
       Inr (\<lparr>pns_id = i, pns_track_namespace = track_namespace, pns_params = params\<rparr>, r))))"

definition publish_namespace_encode :: "publish_namespace \<Rightarrow> enc" where
  "publish_namespace_encode m w =
     bindE (u64_encode (pns_id m) w) (\<lambda>w.
     bindE (track_namespace_encode (pns_track_namespace m) w) (\<lambda>w.
     bindE (kvps_encode (pns_params m) w) (\<lambda>w. Inr w)))"

record namespace_msg =
  nsm_track_namespace_suffix :: track_namespace_prefix

definition namespace_msg_decode :: "namespace_msg dec" where
  "namespace_msg_decode r =
     bindE (track_namespace_prefix_decode r) (\<lambda>(track_namespace_suffix, r).
       Inr (\<lparr>nsm_track_namespace_suffix = track_namespace_suffix\<rparr>, r))"

definition namespace_msg_encode :: "namespace_msg \<Rightarrow> enc" where
  "namespace_msg_encode m w =
     track_namespace_prefix_encode (nsm_track_namespace_suffix m) w"

record publish_namespace_done =
  pnd_id :: u64

definition publish_namespace_done_decode :: "publish_namespace_done dec" where
  "publish_namespace_done_decode r =
     bindE (u64_decode r) (\<lambda>(i, r).
       Inr (\<lparr>pnd_id = i\<rparr>, r))"

definition publish_namespace_done_encode :: "publish_namespace_done \<Rightarrow> enc" where
  "publish_namespace_done_encode m w =
     u64_encode (pnd_id m) w"

record namespace_done =
  nsd_track_namespace_suffix :: track_namespace_prefix

definition namespace_done_decode :: "namespace_done dec" where
  "namespace_done_decode r =
     bindE (track_namespace_prefix_decode r) (\<lambda>(track_namespace_suffix, r).
       Inr (\<lparr>nsd_track_namespace_suffix = track_namespace_suffix\<rparr>, r))"

definition namespace_done_encode :: "namespace_done \<Rightarrow> enc" where
  "namespace_done_encode m w =
     track_namespace_prefix_encode (nsd_track_namespace_suffix m) w"

record publish_namespace_cancel =
  pnc_id :: u64
  pnc_error_code :: u64
  pnc_reason_phrase :: rust_string

definition publish_namespace_cancel_decode :: "publish_namespace_cancel dec" where
  "publish_namespace_cancel_decode r =
     bindE (u64_decode r) (\<lambda>(i, r).
     bindE (u64_decode r) (\<lambda>(error_code, r).
     bindE (reason_phrase_decode r) (\<lambda>(reason_phrase, r).
       Inr (\<lparr>pnc_id = i, pnc_error_code = error_code, pnc_reason_phrase = reason_phrase\<rparr>, r))))"

definition publish_namespace_cancel_encode :: "publish_namespace_cancel \<Rightarrow> enc" where
  "publish_namespace_cancel_encode m w =
     bindE (u64_encode (pnc_id m) w) (\<lambda>w.
     bindE (u64_encode (pnc_error_code m) w) (\<lambda>w.
     reason_phrase_encode (pnc_reason_phrase m) w))"

record track_status =
  ts_id :: u64
  ts_track_namespace :: track_namespace
  ts_track_name :: track_name
  ts_params :: kvps

definition track_status_decode :: "track_status dec" where
  "track_status_decode r =
     bindE (u64_decode r) (\<lambda>(i, r).
     bindE (track_namespace_decode r) (\<lambda>(track_namespace, r).
     bindE (track_name_decode r) (\<lambda>(track_name, r).
     bindE (validate_full_track_name track_namespace track_name) (\<lambda>_.
     bindE (kvps_decode r) (\<lambda>(params, r).
       Inr (\<lparr>ts_id = i, ts_track_namespace = track_namespace, ts_track_name = track_name, ts_params = params\<rparr>, r))))))"

definition track_status_encode :: "track_status \<Rightarrow> enc" where
  "track_status_encode m w =
     bindE (u64_encode (ts_id m) w) (\<lambda>w.
     bindE (track_namespace_encode (ts_track_namespace m) w) (\<lambda>w.
     bindE (track_name_encode (ts_track_name m) w) (\<lambda>w.
     bindE (kvps_encode (ts_params m) w) (\<lambda>w. Inr w))))"

record publish =
  pub_id :: u64
  pub_track_namespace :: track_namespace
  pub_track_name :: track_name
  pub_track_alias :: u64
  pub_params :: kvps
  pub_track_extensions :: track_extensions

definition publish_decode :: "publish dec" where
  "publish_decode r =
     bindE (u64_decode r) (\<lambda>(i, r).
     bindE (track_namespace_decode r) (\<lambda>(track_namespace, r).
     bindE (track_name_decode r) (\<lambda>(track_name, r).
     bindE (validate_full_track_name track_namespace track_name) (\<lambda>_.
     bindE (u64_decode r) (\<lambda>(track_alias, r).
     bindE (kvps_decode r) (\<lambda>(params, r).
     bindE (track_extensions_decode r) (\<lambda>(track_extensions, r).
       Inr (\<lparr>pub_id = i, pub_track_namespace = track_namespace, pub_track_name = track_name, pub_track_alias = track_alias, pub_params = params, pub_track_extensions = track_extensions\<rparr>, r))))))))"

definition publish_encode :: "publish \<Rightarrow> enc" where
  "publish_encode m w =
     bindE (u64_encode (pub_id m) w) (\<lambda>w.
     bindE (track_namespace_encode (pub_track_namespace m) w) (\<lambda>w.
     bindE (track_name_encode (pub_track_name m) w) (\<lambda>w.
     bindE (u64_encode (pub_track_alias m) w) (\<lambda>w.
     bindE (kvps_encode (pub_params m) w) (\<lambda>w.
     bindE (track_extensions_encode (pub_track_extensions m) w) (\<lambda>w. Inr w))))))"

record publish_done =
  pdone_id :: u64
  pdone_status_code :: u64
  pdone_stream_count :: u64
  pdone_reason :: rust_string

definition publish_done_decode :: "publish_done dec" where
  "publish_done_decode r =
     bindE (u64_decode r) (\<lambda>(i, r).
     bindE (u64_decode r) (\<lambda>(status_code, r).
     bindE (u64_decode r) (\<lambda>(stream_count, r).
     bindE (reason_phrase_decode r) (\<lambda>(reason, r).
       Inr (\<lparr>pdone_id = i, pdone_status_code = status_code, pdone_stream_count = stream_count, pdone_reason = reason\<rparr>, r)))))"

definition publish_done_encode :: "publish_done \<Rightarrow> enc" where
  "publish_done_encode m w =
     bindE (u64_encode (pdone_id m) w) (\<lambda>w.
     bindE (u64_encode (pdone_status_code m) w) (\<lambda>w.
     bindE (u64_encode (pdone_stream_count m) w) (\<lambda>w.
     bindE (reason_phrase_encode (pdone_reason m) w) (\<lambda>w. Inr w))))"

record publish_ok =
  pok_id :: u64
  pok_params :: kvps

definition publish_ok_decode :: "publish_ok dec" where
  "publish_ok_decode r =
     bindE (u64_decode r) (\<lambda>(i, r).
     bindE (kvps_decode r) (\<lambda>(params, r).
       Inr (\<lparr>pok_id = i, pok_params = params\<rparr>, r)))"

definition publish_ok_encode :: "publish_ok \<Rightarrow> enc" where
  "publish_ok_encode m w =
     bindE (u64_encode (pok_id m) w) (\<lambda>w.
     bindE (kvps_encode (pok_params m) w) (\<lambda>w. Inr w))"

record standalone_fetch =
  sfe_track_namespace :: track_namespace
  sfe_track_name :: track_name
  sfe_start_location :: location
  sfe_end_location :: location

definition standalone_fetch_decode :: "standalone_fetch dec" where
  "standalone_fetch_decode r =
     bindE (track_namespace_decode r) (\<lambda>(track_namespace, r).
     bindE (track_name_decode r) (\<lambda>(track_name, r).
     bindE (validate_full_track_name track_namespace track_name) (\<lambda>_.
     bindE (location_decode r) (\<lambda>(start_location, r).
     bindE (location_decode r) (\<lambda>(end_location, r).
       Inr (\<lparr>sfe_track_namespace = track_namespace, sfe_track_name = track_name, sfe_start_location = start_location, sfe_end_location = end_location\<rparr>, r))))))"

definition standalone_fetch_encode :: "standalone_fetch \<Rightarrow> enc" where
  "standalone_fetch_encode m w =
     bindE (track_namespace_encode (sfe_track_namespace m) w) (\<lambda>w.
     bindE (track_name_encode (sfe_track_name m) w) (\<lambda>w.
     bindE (location_encode (sfe_start_location m) w) (\<lambda>w.
     bindE (location_encode (sfe_end_location m) w) (\<lambda>w. Inr w))))"

record joining_fetch =
  jf_joining_request_id :: u64
  jf_joining_start :: u64

definition joining_fetch_decode :: "joining_fetch dec" where
  "joining_fetch_decode r =
     bindE (u64_decode r) (\<lambda>(joining_request_id, r).
     bindE (u64_decode r) (\<lambda>(joining_start, r).
       Inr (\<lparr>jf_joining_request_id = joining_request_id, jf_joining_start = joining_start\<rparr>, r)))"

definition joining_fetch_encode :: "joining_fetch \<Rightarrow> enc" where
  "joining_fetch_encode m w =
     bindE (u64_encode (jf_joining_request_id m) w) (\<lambda>w.
     bindE (u64_encode (jf_joining_start m) w) (\<lambda>w. Inr w))"

record fetch =
  ft_id :: u64
  ft_fetch_type :: fetch_type
  ft_standalone_fetch :: "standalone_fetch option"
  ft_joining_fetch :: "joining_fetch option"
  ft_params :: kvps

text \<open>The \<^verbatim>\<open>match fetch_type\<close> of \<^verbatim>\<open>Fetch::decode\<close> and \<^verbatim>\<open>Fetch::encode\<close>.\<close>

fun fetch_body_decode :: "fetch_type \<Rightarrow> (standalone_fetch option \<times> joining_fetch option) dec" where
  "fetch_body_decode Standalone = (\<lambda>r.
     bindE (standalone_fetch_decode r) (\<lambda>(s, r). Inr ((Some s, None), r)))"
| "fetch_body_decode _ = (\<lambda>r.
     bindE (joining_fetch_decode r) (\<lambda>(j, r). Inr ((None, Some j), r)))"

definition fetch_body_encode :: "fetch \<Rightarrow> enc" where
  "fetch_body_encode m w =
     (case ft_fetch_type m of
        Standalone \<Rightarrow>
          (case ft_standalone_fetch m of
             Some s \<Rightarrow> standalone_fetch_encode s w
           | None \<Rightarrow> Inl (EncMissingField ''StandaloneFetch info''))
      | _ \<Rightarrow>
          (case ft_joining_fetch m of
             Some j \<Rightarrow> joining_fetch_encode j w
           | None \<Rightarrow> Inl (EncMissingField ''JoiningFetch info'')))"

definition fetch_decode :: "fetch dec" where
  "fetch_decode r =
     bindE (u64_decode r) (\<lambda>(i, r).
     bindE (fetch_type_decode r) (\<lambda>(fetch_type, r).
     bindE (fetch_body_decode fetch_type r) (\<lambda>(body, r).
     bindE (kvps_decode r) (\<lambda>(params, r).
       Inr (\<lparr>ft_id = i, ft_fetch_type = fetch_type, ft_standalone_fetch = fst body,
             ft_joining_fetch = snd body, ft_params = params\<rparr>, r)))))"

definition fetch_encode :: "fetch \<Rightarrow> enc" where
  "fetch_encode m w =
     bindE (u64_encode (ft_id m) w) (\<lambda>w.
     bindE (fetch_type_encode (ft_fetch_type m) w) (\<lambda>w.
     bindE (fetch_body_encode m w) (\<lambda>w.
     bindE (kvps_encode (ft_params m) w) (\<lambda>w. Inr w))))"

text \<open>\<^verbatim>\<open>RequestError::new\<close> and \<^verbatim>\<open>RequestError::is_fatal\<close>.\<close>

definition request_error_new :: "u64 \<Rightarrow> request_error_code \<Rightarrow> u64 \<Rightarrow> rust_string \<Rightarrow> request_error" where
  "request_error_new i code retry_interval reason =
     \<lparr>rerr_id = i, rerr_error_code = request_error_code_value code,
      rerr_retry_interval = retry_interval, rerr_reason = reason\<rparr>"

definition is_fatal :: "request_error \<Rightarrow> bool" where
  "is_fatal m \<longleftrightarrow> rerr_retry_interval m = 0"

record fetch_cancel =
  fc_id :: u64

definition fetch_cancel_decode :: "fetch_cancel dec" where
  "fetch_cancel_decode r =
     bindE (u64_decode r) (\<lambda>(i, r).
       Inr (\<lparr>fc_id = i\<rparr>, r))"

definition fetch_cancel_encode :: "fetch_cancel \<Rightarrow> enc" where
  "fetch_cancel_encode m w =
     bindE (u64_encode (fc_id m) w) (\<lambda>w. Inr w)"

record fetch_ok =
  fok_id :: u64
  fok_end_of_track :: bool
  fok_end_location :: location
  fok_params :: kvps
  fok_track_extensions :: track_extensions

definition fetch_ok_decode :: "fetch_ok dec" where
  "fetch_ok_decode r =
     bindE (u64_decode r) (\<lambda>(i, r).
     bindE (bool_decode r) (\<lambda>(end_of_track, r).
     bindE (location_decode r) (\<lambda>(end_location, r).
     bindE (kvps_decode r) (\<lambda>(params, r).
     bindE (track_extensions_decode r) (\<lambda>(track_extensions, r).
       Inr (\<lparr>fok_id = i, fok_end_of_track = end_of_track, fok_end_location = end_location, fok_params = params, fok_track_extensions = track_extensions\<rparr>, r))))))"

definition fetch_ok_encode :: "fetch_ok \<Rightarrow> enc" where
  "fetch_ok_encode m w =
     bindE (u64_encode (fok_id m) w) (\<lambda>w.
     bindE (bool_encode (fok_end_of_track m) w) (\<lambda>w.
     bindE (location_encode (fok_end_location m) w) (\<lambda>w.
     bindE (kvps_encode (fok_params m) w) (\<lambda>w.
     bindE (track_extensions_encode (fok_track_extensions m) w) (\<lambda>w. Inr w)))))"

record subscribe_namespace =
  sns_id :: u64
  sns_track_namespace_prefix :: track_namespace_prefix
  sns_subscribe_options :: subscribe_options
  sns_params :: kvps

definition subscribe_namespace_decode :: "subscribe_namespace dec" where
  "subscribe_namespace_decode r =
     bindE (u64_decode r) (\<lambda>(i, r).
     bindE (track_namespace_prefix_decode r) (\<lambda>(track_namespace_prefix, r).
     bindE (subscribe_options_decode r) (\<lambda>(subscribe_options, r).
     bindE (kvps_decode r) (\<lambda>(params, r).
       Inr (\<lparr>sns_id = i, sns_track_namespace_prefix = track_namespace_prefix, sns_subscribe_options = subscribe_options, sns_params = params\<rparr>, r)))))"

definition subscribe_namespace_encode :: "subscribe_namespace \<Rightarrow> enc" where
  "subscribe_namespace_encode m w =
     bindE (u64_encode (sns_id m) w) (\<lambda>w.
     bindE (track_namespace_prefix_encode (sns_track_namespace_prefix m) w) (\<lambda>w.
     bindE (subscribe_options_encode (sns_subscribe_options m) w) (\<lambda>w.
     bindE (kvps_encode (sns_params m) w) (\<lambda>w. Inr w))))"

record go_away =
  ga_uri :: rust_string

definition go_away_decode :: "go_away dec" where
  "go_away_decode r =
     bindE (session_uri_decode r) (\<lambda>(uri, r).
       Inr (\<lparr>ga_uri = uri\<rparr>, r))"

definition go_away_encode :: "go_away \<Rightarrow> enc" where
  "go_away_encode m w =
     session_uri_encode (ga_uri m) w"

record max_request_id =
  mri_request_id :: u64

definition max_request_id_decode :: "max_request_id dec" where
  "max_request_id_decode r =
     bindE (u64_decode r) (\<lambda>(request_id, r).
       Inr (\<lparr>mri_request_id = request_id\<rparr>, r))"

definition max_request_id_encode :: "max_request_id \<Rightarrow> enc" where
  "max_request_id_encode m w =
     bindE (u64_encode (mri_request_id m) w) (\<lambda>w. Inr w)"

record requests_blocked =
  rb_max_request_id :: u64

definition requests_blocked_decode :: "requests_blocked dec" where
  "requests_blocked_decode r =
     bindE (u64_decode r) (\<lambda>(max_request_id, r).
       Inr (\<lparr>rb_max_request_id = max_request_id\<rparr>, r))"

definition requests_blocked_encode :: "requests_blocked \<Rightarrow> enc" where
  "requests_blocked_encode m w =
     bindE (u64_encode (rb_max_request_id m) w) (\<lambda>w. Inr w)"

section \<open>Payloads that run to the end\<close>

definition no_panic :: "'a dec \<Rightarrow> bool" where
  "no_panic d \<longleftrightarrow> (\<forall>r. d r \<noteq> Inl DecPanic)"

named_theorems no_panic_rules \<open>decoders that never panic\<close>

lemma no_panic_decoder: "decoder d \<Longrightarrow> no_panic d"
  by (simp add: no_panic_def decoder_no_panic)

lemma no_panic_return [no_panic_rules]: "no_panic (\<lambda>r. Inr (x, r))"
  by (simp add: no_panic_def)

lemma no_panic_bind [no_panic_rules]:
  "no_panic d1 \<Longrightarrow> (\<And>a. no_panic (d2 a)) \<Longrightarrow> no_panic (\<lambda>r. bindE (d1 r) (\<lambda>(a, r). d2 a r))"
  by (auto simp: no_panic_def bindE_eq_Inl)

lemma no_panic_check [no_panic_rules]:
  "m \<noteq> Inl DecPanic \<Longrightarrow> (\<And>a. no_panic (d a)) \<Longrightarrow> no_panic (\<lambda>r. bindE m (\<lambda>a. d a r))"
  by (auto simp: no_panic_def bindE_eq_Inl)

lemma no_panic_track_extensions [no_panic_rules]: "no_panic track_extensions_decode"
  by (simp add: no_panic_def track_extensions_no_panic)

lemmas no_panic_fields [no_panic_rules] =
  decoder_u64 [THEN no_panic_decoder] decoder_bool [THEN no_panic_decoder]
  decoder_location [THEN no_panic_decoder] decoder_kvps [THEN no_panic_decoder]
  decoder_track_namespace [THEN no_panic_decoder] decoder_track_name [THEN no_panic_decoder]

lemma payload_codec_done:
  assumes "payload_codec e d x" and "y = f x"
  shows "payload_codec (\<lambda>w. bindE (e w) (\<lambda>w. Inr w))
    (\<lambda>r. bindE (d r) (\<lambda>(a, r). Inr (f a, r))) y"
proof -
  have "(\<lambda>w. bindE (e w) (\<lambda>w. Inr w)) = e" by (rule bindE_Inr_eta)
  then show ?thesis using assms unfolding payload_codec_def by fastforce
qed

lemmas payload_rules = payload_codec_done [OF payload_codec_track_extensions] payload_codec_bind
  payload_codec_validate codec_u64 codec_bool codec_location codec_kvps codec_track_namespace
  codec_track_name

section \<open>Codec facts\<close>

lemma decoder_fetch_type [decoder_rules]: "decoder fetch_type_decode"
  unfolding fetch_type_decode_def [abs_def] by (intro decoder_rules) simp

lemma codec_fetch_type [codec_rules]: "codec (fetch_type_encode f) fetch_type_decode f"
  unfolding fetch_type_encode_def [abs_def] fetch_type_decode_def [abs_def]
  by (rule codec_bind [OF codec_u64]) (cases f; simp add: codec_return)

lemma decoder_subscribe_options [decoder_rules]: "decoder subscribe_options_decode"
  unfolding subscribe_options_decode_def [abs_def] by (intro decoder_rules) simp

lemma codec_subscribe_options [codec_rules]:
  "codec (subscribe_options_encode f) subscribe_options_decode f"
proof -
  have "codec (\<lambda>w. bindE (subscribe_options_encode f w) Inr) subscribe_options_decode f"
    unfolding subscribe_options_decode_def [abs_def]
    by (cases f; simp only: subscribe_options_encode.simps)
      (rule codec_bind [OF codec_u64], simp add: codec_return)+
  then show ?thesis by simp
qed

lemma request_error_code_inj:
  "request_error_code_value a = request_error_code_value b \<Longrightarrow> a = b"
  by (cases a; cases b) simp_all

lemma publish_done_code_inj:
  "publish_done_code_value a = publish_done_code_value b \<Longrightarrow> a = b"
  by (cases a; cases b) simp_all

lemmas full_name_ok = validate_full_track_name_def not_less

lemma decoder_request_update [decoder_rules]: "decoder request_update_decode"
  unfolding request_update_decode_def [abs_def] by (intro decoder_rules)

lemma codec_request_update:
  "codec (request_update_encode m) request_update_decode (m\<lparr>ru_params := sort_key kvp_key (ru_params m)\<rparr>)"
  unfolding request_update_encode_def [abs_def] request_update_decode_def [abs_def]
  by (rule codec_rules | simp)+

lemma decoder_request_error [decoder_rules]: "decoder request_error_decode"
  unfolding request_error_decode_def [abs_def] by (intro decoder_rules)

lemma codec_request_error:
  "utf8_valid (rerr_reason m) \<Longrightarrow>
   codec (request_error_encode m) request_error_decode (m)"
  unfolding request_error_encode_def [abs_def] request_error_decode_def [abs_def]
  by (rule codec_rules | simp)+

lemma decoder_request_ok [decoder_rules]: "decoder request_ok_decode"
  unfolding request_ok_decode_def [abs_def] by (intro decoder_rules)

lemma codec_request_ok:
  "codec (request_ok_encode m) request_ok_decode (m\<lparr>rok_params := sort_key kvp_key (rok_params m)\<rparr>)"
  unfolding request_ok_encode_def [abs_def] request_ok_decode_def [abs_def]
  by (rule codec_rules | simp)+

lemma decoder_subscribe [decoder_rules]: "decoder subscribe_decode"
  unfolding subscribe_decode_def [abs_def] by (intro decoder_rules) simp

lemma codec_subscribe:
  "full_track_name_len (sub_track_namespace m) (sub_track_name m) \<le> MAX_FULL_TRACK_NAME_LEN \<Longrightarrow>
   codec (subscribe_encode m) subscribe_decode (m\<lparr>sub_params := sort_key kvp_key (sub_params m)\<rparr>)"
  unfolding subscribe_encode_def [abs_def] subscribe_decode_def [abs_def]
  by (rule codec_rules codec_validate | simp add: full_name_ok)+

lemma no_panic_subscribe_ok: "no_panic subscribe_ok_decode"
  unfolding subscribe_ok_decode_def [abs_def] by (intro no_panic_rules)

lemma payload_codec_subscribe_ok:
  "payload_codec (subscribe_ok_encode m) subscribe_ok_decode (m\<lparr>sok_params := sort_key kvp_key (sok_params m), sok_track_extensions := sort_key kvp_key (sok_track_extensions m)\<rparr>)"
  unfolding subscribe_ok_encode_def [abs_def] subscribe_ok_decode_def [abs_def]
  by (rule payload_rules | simp)+

lemma decoder_unsubscribe [decoder_rules]: "decoder unsubscribe_decode"
  unfolding unsubscribe_decode_def [abs_def] by (intro decoder_rules)

lemma codec_unsubscribe:
  "codec (unsubscribe_encode m) unsubscribe_decode (m)"
  unfolding unsubscribe_encode_def [abs_def] unsubscribe_decode_def [abs_def]
  by (rule codec_rules | simp)+

lemma decoder_publish_namespace [decoder_rules]: "decoder publish_namespace_decode"
  unfolding publish_namespace_decode_def [abs_def] by (intro decoder_rules)

lemma codec_publish_namespace:
  "codec (publish_namespace_encode m) publish_namespace_decode (m\<lparr>pns_params := sort_key kvp_key (pns_params m)\<rparr>)"
  unfolding publish_namespace_encode_def [abs_def] publish_namespace_decode_def [abs_def]
  by (rule codec_rules | simp)+

lemma decoder_namespace_msg [decoder_rules]: "decoder namespace_msg_decode"
  unfolding namespace_msg_decode_def [abs_def] by (intro decoder_rules)

lemma codec_namespace_msg:
  "codec (namespace_msg_encode m) namespace_msg_decode (m)"
  unfolding namespace_msg_encode_def [abs_def] namespace_msg_decode_def [abs_def]
  by (rule codec_map, (rule codec_rules | simp)+)

lemma decoder_publish_namespace_done [decoder_rules]: "decoder publish_namespace_done_decode"
  unfolding publish_namespace_done_decode_def [abs_def] by (intro decoder_rules)

lemma codec_publish_namespace_done:
  "codec (publish_namespace_done_encode m) publish_namespace_done_decode (m)"
  unfolding publish_namespace_done_encode_def [abs_def] publish_namespace_done_decode_def [abs_def]
  by (rule codec_map, (rule codec_rules | simp)+)

lemma decoder_namespace_done [decoder_rules]: "decoder namespace_done_decode"
  unfolding namespace_done_decode_def [abs_def] by (intro decoder_rules)

lemma codec_namespace_done:
  "codec (namespace_done_encode m) namespace_done_decode (m)"
  unfolding namespace_done_encode_def [abs_def] namespace_done_decode_def [abs_def]
  by (rule codec_map, (rule codec_rules | simp)+)

lemma decoder_publish_namespace_cancel [decoder_rules]: "decoder publish_namespace_cancel_decode"
  unfolding publish_namespace_cancel_decode_def [abs_def] by (intro decoder_rules)

lemma codec_publish_namespace_cancel:
  "utf8_valid (pnc_reason_phrase m) \<Longrightarrow>
   codec (publish_namespace_cancel_encode m) publish_namespace_cancel_decode (m)"
  unfolding publish_namespace_cancel_encode_def [abs_def] publish_namespace_cancel_decode_def [abs_def]
  by (rule codec_bind codec_u64 codec_map codec_reason_phrase | simp)+

lemma decoder_track_status [decoder_rules]: "decoder track_status_decode"
  unfolding track_status_decode_def [abs_def] by (intro decoder_rules) simp

lemma codec_track_status:
  "full_track_name_len (ts_track_namespace m) (ts_track_name m) \<le> MAX_FULL_TRACK_NAME_LEN \<Longrightarrow>
   codec (track_status_encode m) track_status_decode (m\<lparr>ts_params := sort_key kvp_key (ts_params m)\<rparr>)"
  unfolding track_status_encode_def [abs_def] track_status_decode_def [abs_def]
  by (rule codec_rules codec_validate | simp add: full_name_ok)+

lemma no_panic_publish: "no_panic publish_decode"
  unfolding publish_decode_def [abs_def] by (intro no_panic_rules) simp

lemma payload_codec_publish:
  "full_track_name_len (pub_track_namespace m) (pub_track_name m) \<le> MAX_FULL_TRACK_NAME_LEN \<Longrightarrow>
   payload_codec (publish_encode m) publish_decode (m\<lparr>pub_params := sort_key kvp_key (pub_params m), pub_track_extensions := sort_key kvp_key (pub_track_extensions m)\<rparr>)"
  unfolding publish_encode_def [abs_def] publish_decode_def [abs_def]
  by (rule payload_rules | simp add: full_name_ok)+

lemma decoder_publish_done [decoder_rules]: "decoder publish_done_decode"
  unfolding publish_done_decode_def [abs_def] by (intro decoder_rules)

lemma codec_publish_done:
  "utf8_valid (pdone_reason m) \<Longrightarrow>
   codec (publish_done_encode m) publish_done_decode (m)"
  unfolding publish_done_encode_def [abs_def] publish_done_decode_def [abs_def]
  by (rule codec_rules | simp)+

lemma decoder_publish_ok [decoder_rules]: "decoder publish_ok_decode"
  unfolding publish_ok_decode_def [abs_def] by (intro decoder_rules)

lemma codec_publish_ok:
  "codec (publish_ok_encode m) publish_ok_decode (m\<lparr>pok_params := sort_key kvp_key (pok_params m)\<rparr>)"
  unfolding publish_ok_encode_def [abs_def] publish_ok_decode_def [abs_def]
  by (rule codec_rules | simp)+

lemma decoder_standalone_fetch [decoder_rules]: "decoder standalone_fetch_decode"
  unfolding standalone_fetch_decode_def [abs_def] by (intro decoder_rules) simp

lemma codec_standalone_fetch:
  "full_track_name_len (sfe_track_namespace m) (sfe_track_name m) \<le> MAX_FULL_TRACK_NAME_LEN \<Longrightarrow>
   codec (standalone_fetch_encode m) standalone_fetch_decode (m)"
  unfolding standalone_fetch_encode_def [abs_def] standalone_fetch_decode_def [abs_def]
  by (rule codec_rules codec_validate | simp add: full_name_ok)+

lemma decoder_joining_fetch [decoder_rules]: "decoder joining_fetch_decode"
  unfolding joining_fetch_decode_def [abs_def] by (intro decoder_rules)

lemma codec_joining_fetch:
  "codec (joining_fetch_encode m) joining_fetch_decode (m)"
  unfolding joining_fetch_encode_def [abs_def] joining_fetch_decode_def [abs_def]
  by (rule codec_rules | simp)+

lemma decoder_fetch_body [decoder_rules]: "decoder (fetch_body_decode t)"
  by (cases t) (auto intro!: decoder_rules simp del: bindE_eq_Inr)

lemma decoder_fetch [decoder_rules]: "decoder fetch_decode"
  unfolding fetch_decode_def [abs_def] by (intro decoder_rules)

text \<open>A fetch carries the body its type needs; a body of the other kind is not written.\<close>

definition fetch_normal :: "fetch \<Rightarrow> fetch" where
  "fetch_normal m =
     (let m = m\<lparr>ft_params := sort_key kvp_key (ft_params m)\<rparr> in
      case ft_fetch_type m of
        Standalone \<Rightarrow> m\<lparr>ft_joining_fetch := None\<rparr>
      | _ \<Rightarrow> m\<lparr>ft_standalone_fetch := None\<rparr>)"

definition fetch_name_ok :: "fetch \<Rightarrow> bool" where
  "fetch_name_ok m \<longleftrightarrow>
     (case (ft_fetch_type m, ft_standalone_fetch m) of
        (Standalone, Some s) \<Rightarrow>
          full_track_name_len (sfe_track_namespace s) (sfe_track_name s) \<le> MAX_FULL_TRACK_NAME_LEN
      | _ \<Rightarrow> True)"

lemma codec_fetch_body:
  assumes "fetch_name_ok m"
  shows "codec (fetch_body_encode m) (fetch_body_decode (ft_fetch_type m))
    (ft_standalone_fetch (fetch_normal m), ft_joining_fetch (fetch_normal m))"
proof (cases "ft_fetch_type m")
  case Standalone
  show ?thesis
  proof (cases "ft_standalone_fetch m")
    case None
    then show ?thesis using Standalone by (simp add: fetch_body_encode_def [abs_def] codec_def)
  next
    case (Some s)
    then show ?thesis using Standalone assms
      by (simp add: fetch_body_encode_def [abs_def] fetch_normal_def fetch_name_ok_def
          codec_map [OF codec_standalone_fetch])
  qed
next
  case RelativeJoining
  then show ?thesis
    by (cases "ft_joining_fetch m")
      (simp_all add: fetch_body_encode_def [abs_def] fetch_normal_def codec_def
          codec_map [OF codec_joining_fetch, unfolded codec_def])
next
  case AbsoluteJoining
  then show ?thesis
    by (cases "ft_joining_fetch m")
      (simp_all add: fetch_body_encode_def [abs_def] fetch_normal_def codec_def
          codec_map [OF codec_joining_fetch, unfolded codec_def])
qed

lemma codec_fetch:
  assumes "fetch_name_ok m"
  shows "codec (fetch_encode m) fetch_decode (fetch_normal m)"
  unfolding fetch_encode_def [abs_def] fetch_decode_def [abs_def]
  by (rule codec_bind [OF codec_u64], rule codec_bind [OF codec_fetch_type],
      rule codec_bind [OF codec_fetch_body [OF assms]], rule codec_bind [OF codec_kvps],
      rule codec_done)
    (simp add: fetch_normal_def Let_def split: fetch_type.split)

lemma decoder_fetch_cancel [decoder_rules]: "decoder fetch_cancel_decode"
  unfolding fetch_cancel_decode_def [abs_def] by (intro decoder_rules)

lemma codec_fetch_cancel:
  "codec (fetch_cancel_encode m) fetch_cancel_decode (m)"
  unfolding fetch_cancel_encode_def [abs_def] fetch_cancel_decode_def [abs_def]
  by (rule codec_rules | simp)+

lemma no_panic_fetch_ok: "no_panic fetch_ok_decode"
  unfolding fetch_ok_decode_def [abs_def] by (intro no_panic_rules)

lemma payload_codec_fetch_ok:
  "payload_codec (fetch_ok_encode m) fetch_ok_decode (m\<lparr>fok_params := sort_key kvp_key (fok_params m), fok_track_extensions := sort_key kvp_key (fok_track_extensions m)\<rparr>)"
  unfolding fetch_ok_encode_def [abs_def] fetch_ok_decode_def [abs_def]
  by (rule payload_rules | simp)+

lemma decoder_subscribe_namespace [decoder_rules]: "decoder subscribe_namespace_decode"
  unfolding subscribe_namespace_decode_def [abs_def] by (intro decoder_rules)

lemma codec_subscribe_namespace:
  "codec (subscribe_namespace_encode m) subscribe_namespace_decode (m\<lparr>sns_params := sort_key kvp_key (sns_params m)\<rparr>)"
  unfolding subscribe_namespace_encode_def [abs_def] subscribe_namespace_decode_def [abs_def]
  by (rule codec_rules | simp)+

lemma decoder_go_away [decoder_rules]: "decoder go_away_decode"
  unfolding go_away_decode_def [abs_def] by (intro decoder_rules)

lemma codec_go_away:
  "utf8_valid (ga_uri m) \<Longrightarrow>
   codec (go_away_encode m) go_away_decode (m)"
  unfolding go_away_encode_def [abs_def] go_away_decode_def [abs_def]
  by (rule codec_map, (rule codec_rules | simp)+)

lemma decoder_max_request_id [decoder_rules]: "decoder max_request_id_decode"
  unfolding max_request_id_decode_def [abs_def] by (intro decoder_rules)

lemma codec_max_request_id:
  "codec (max_request_id_encode m) max_request_id_decode (m)"
  unfolding max_request_id_encode_def [abs_def] max_request_id_decode_def [abs_def]
  by (rule codec_rules | simp)+

lemma decoder_requests_blocked [decoder_rules]: "decoder requests_blocked_decode"
  unfolding requests_blocked_decode_def [abs_def] by (intro decoder_rules)

lemma codec_requests_blocked:
  "codec (requests_blocked_encode m) requests_blocked_decode (m)"
  unfolding requests_blocked_encode_def [abs_def] requests_blocked_decode_def [abs_def]
  by (rule codec_rules | simp)+

end
