(* ===== verification/Control.thy ===== *)
theory Control
  imports Messages
begin

text \<open>
  The control-message envelope (\<^verbatim>\<open>moq-transport/src/message/mod.rs\<close>, \<^verbatim>\<open>publisher.rs\<close>,
  \<^verbatim>\<open>subscriber.rs\<close>) and the setup messages (\<^verbatim>\<open>moq-transport/src/setup\<close>): type, 16-bit length
  and payload, the dispatch on the type, the retained unknown messages, and the two
  directional subsets of the message enum. Shown here: every frame written is read back
  from any byte stream it starts, and no frame makes the decoder panic.
\<close>

section \<open>The message enum\<close>

datatype message =
    RequestUpdate request_update
  | RequestError request_error
  | RequestOk request_ok
  | Subscribe subscribe
  | SubscribeOk subscribe_ok
  | Unsubscribe unsubscribe
  | PublishNamespace publish_namespace
  | Namespace namespace_msg
  | PublishNamespaceDone publish_namespace_done
  | NamespaceDone namespace_done
  | PublishNamespaceCancel publish_namespace_cancel
  | TrackStatus track_status
  | Publish publish
  | PublishDone publish_done
  | PublishOk publish_ok
  | Fetch fetch
  | FetchCancel fetch_cancel
  | FetchOk fetch_ok
  | SubscribeNamespace subscribe_namespace
  | GoAway go_away
  | MaxRequestId max_request_id
  | RequestsBlocked requests_blocked
  | Unknown u64 bytes

fun message_id :: "message \<Rightarrow> u64" where
  "message_id (RequestUpdate _) = 0x2"
| "message_id (RequestError _) = 0x5"
| "message_id (RequestOk _) = 0x7"
| "message_id (Subscribe _) = 0x3"
| "message_id (SubscribeOk _) = 0x4"
| "message_id (Unsubscribe _) = 0xa"
| "message_id (PublishNamespace _) = 0x6"
| "message_id (Namespace _) = 0x8"
| "message_id (PublishNamespaceDone _) = 0x9"
| "message_id (NamespaceDone _) = 0xe"
| "message_id (PublishNamespaceCancel _) = 0xc"
| "message_id (TrackStatus _) = 0xd"
| "message_id (Publish _) = 0x1d"
| "message_id (PublishDone _) = 0xb"
| "message_id (PublishOk _) = 0x1e"
| "message_id (Fetch _) = 0x16"
| "message_id (FetchCancel _) = 0x17"
| "message_id (FetchOk _) = 0x18"
| "message_id (SubscribeNamespace _) = 0x11"
| "message_id (GoAway _) = 0x10"
| "message_id (MaxRequestId _) = 0x15"
| "message_id (RequestsBlocked _) = 0x1a"
| "message_id (Unknown t _) = t"

fun message_name :: "message \<Rightarrow> string" where
  "message_name (RequestUpdate _) = ''RequestUpdate''"
| "message_name (RequestError _) = ''RequestError''"
| "message_name (RequestOk _) = ''RequestOk''"
| "message_name (Subscribe _) = ''Subscribe''"
| "message_name (SubscribeOk _) = ''SubscribeOk''"
| "message_name (Unsubscribe _) = ''Unsubscribe''"
| "message_name (PublishNamespace _) = ''PublishNamespace''"
| "message_name (Namespace _) = ''Namespace''"
| "message_name (PublishNamespaceDone _) = ''PublishNamespaceDone''"
| "message_name (NamespaceDone _) = ''NamespaceDone''"
| "message_name (PublishNamespaceCancel _) = ''PublishNamespaceCancel''"
| "message_name (TrackStatus _) = ''TrackStatus''"
| "message_name (Publish _) = ''Publish''"
| "message_name (PublishDone _) = ''PublishDone''"
| "message_name (PublishOk _) = ''PublishOk''"
| "message_name (Fetch _) = ''Fetch''"
| "message_name (FetchCancel _) = ''FetchCancel''"
| "message_name (FetchOk _) = ''FetchOk''"
| "message_name (SubscribeNamespace _) = ''SubscribeNamespace''"
| "message_name (GoAway _) = ''GoAway''"
| "message_name (MaxRequestId _) = ''MaxRequestId''"
| "message_name (RequestsBlocked _) = ''RequestsBlocked''"
| "message_name (Unknown _ _) = ''Unknown''"

definition sequenced_request_id :: "message \<Rightarrow> u64 option" where
  "sequenced_request_id m =
     (case m of
        Subscribe m \<Rightarrow> Some (sub_id m)
      | RequestUpdate m \<Rightarrow> Some (ru_id m)
      | Fetch m \<Rightarrow> Some (ft_id m)
      | TrackStatus m \<Rightarrow> Some (ts_id m)
      | SubscribeNamespace m \<Rightarrow> Some (sns_id m)
      | Publish m \<Rightarrow> Some (pub_id m)
      | PublishNamespace m \<Rightarrow> Some (pns_id m)
      | _ \<Rightarrow> None)"

section \<open>Envelope\<close>

text \<open>
  An arm of the dispatch: decode the payload as the variant's struct, then reject bytes
  left over.
\<close>

definition decode_variant :: "u64 \<Rightarrow> ('a \<Rightarrow> 'm) \<Rightarrow> 'a dec \<Rightarrow> bytes \<Rightarrow> decode_error + 'm" where
  "decode_variant t C d payload =
     bindE (d payload) (\<lambda>(m, payload). if payload \<noteq> [] then Inl (InvalidMessage t) else Inr (C m))"

definition decode_payload :: "u64 \<Rightarrow> bytes \<Rightarrow> decode_error + message" where
  "decode_payload t payload =
     (if t = 0x2 then decode_variant t RequestUpdate request_update_decode payload
      else if t = 0x5 then decode_variant t RequestError request_error_decode payload
      else if t = 0x7 then decode_variant t RequestOk request_ok_decode payload
      else if t = 0x3 then decode_variant t Subscribe subscribe_decode payload
      else if t = 0x4 then decode_variant t SubscribeOk subscribe_ok_decode payload
      else if t = 0xa then decode_variant t Unsubscribe unsubscribe_decode payload
      else if t = 0x6 then decode_variant t PublishNamespace publish_namespace_decode payload
      else if t = 0x8 then decode_variant t Namespace namespace_msg_decode payload
      else if t = 0x9 then decode_variant t PublishNamespaceDone publish_namespace_done_decode payload
      else if t = 0xe then decode_variant t NamespaceDone namespace_done_decode payload
      else if t = 0xc then decode_variant t PublishNamespaceCancel publish_namespace_cancel_decode payload
      else if t = 0xd then decode_variant t TrackStatus track_status_decode payload
      else if t = 0x1d then decode_variant t Publish publish_decode payload
      else if t = 0xb then decode_variant t PublishDone publish_done_decode payload
      else if t = 0x1e then decode_variant t PublishOk publish_ok_decode payload
      else if t = 0x16 then decode_variant t Fetch fetch_decode payload
      else if t = 0x17 then decode_variant t FetchCancel fetch_cancel_decode payload
      else if t = 0x18 then decode_variant t FetchOk fetch_ok_decode payload
      else if t = 0x11 then decode_variant t SubscribeNamespace subscribe_namespace_decode payload
      else if t = 0x10 then decode_variant t GoAway go_away_decode payload
      else if t = 0x15 then decode_variant t MaxRequestId max_request_id_decode payload
      else if t = 0x1a then decode_variant t RequestsBlocked requests_blocked_decode payload
      else Inr (Unknown t payload))"

definition message_decode :: "message dec" where
  "message_decode r =
     bindE (u64_decode r) (\<lambda>(t, r).
     bindE (u16_decode r) (\<lambda>(len, r).
     bindE (read_exact (unat len) r) (\<lambda>(payload, r).
     bindE (decode_payload t payload) (\<lambda>msg. Inr (msg, r)))))"

text \<open>The common tail of every encoder arm: bound the payload, then length and bytes.\<close>

definition put_framed :: "bytes \<Rightarrow> enc" where
  "put_framed buf w =
     (if length buf > 0xFFFF then Inl EncMsgBoundsExceeded
      else bindE (u16_encode (of_nat (length buf)) w) (checked_put buf))"

fun message_body :: "message \<Rightarrow> enc" where
  "message_body (RequestUpdate m) = request_update_encode m"
| "message_body (RequestError m) = request_error_encode m"
| "message_body (RequestOk m) = request_ok_encode m"
| "message_body (Subscribe m) = subscribe_encode m"
| "message_body (SubscribeOk m) = subscribe_ok_encode m"
| "message_body (Unsubscribe m) = unsubscribe_encode m"
| "message_body (PublishNamespace m) = publish_namespace_encode m"
| "message_body (Namespace m) = namespace_msg_encode m"
| "message_body (PublishNamespaceDone m) = publish_namespace_done_encode m"
| "message_body (NamespaceDone m) = namespace_done_encode m"
| "message_body (PublishNamespaceCancel m) = publish_namespace_cancel_encode m"
| "message_body (TrackStatus m) = track_status_encode m"
| "message_body (Publish m) = publish_encode m"
| "message_body (PublishDone m) = publish_done_encode m"
| "message_body (PublishOk m) = publish_ok_encode m"
| "message_body (Fetch m) = fetch_encode m"
| "message_body (FetchCancel m) = fetch_cancel_encode m"
| "message_body (FetchOk m) = fetch_ok_encode m"
| "message_body (SubscribeNamespace m) = subscribe_namespace_encode m"
| "message_body (GoAway m) = go_away_encode m"
| "message_body (MaxRequestId m) = max_request_id_encode m"
| "message_body (RequestsBlocked m) = requests_blocked_encode m"
| "message_body (Unknown _ payload) = put_slice payload"

definition message_encode :: "message \<Rightarrow> enc" where
  "message_encode m w =
     (case m of
        Unknown t payload \<Rightarrow> bindE (u64_encode t w) (put_framed payload)
      | _ \<Rightarrow>
          bindE (u64_encode (message_id m) w) (\<lambda>w.
          bindE (message_body m fresh_vec) (\<lambda>buf. put_framed (wr_bytes buf) w)))"

section \<open>Setup\<close>

datatype parameter_type =
    PathParam | MaxRequestIdParam | AuthorizationTokenParam | MaxAuthTokenCacheSizeParam
  | AuthorityParam | MOQTImplementationParam

fun parameter_type_value :: "parameter_type \<Rightarrow> u64" where
  "parameter_type_value PathParam = 0x1"
| "parameter_type_value MaxRequestIdParam = 0x2"
| "parameter_type_value AuthorizationTokenParam = 0x3"
| "parameter_type_value MaxAuthTokenCacheSizeParam = 0x4"
| "parameter_type_value AuthorityParam = 0x5"
| "parameter_type_value MOQTImplementationParam = 0x7"

record client_setup =
  cl_params :: kvps

record server_setup =
  srv_params :: kvps

text \<open>
  \<^verbatim>\<open>Client\<close> and \<^verbatim>\<open>Server\<close> differ in the message type only: 0x20 and 0x21.
\<close>

definition client_decode :: "client_setup dec" where
  "client_decode r =
     bindE (u64_decode r) (\<lambda>(typ, r).
       if typ \<noteq> 0x20 then Inl (InvalidMessage typ)
       else
         bindE (u16_decode r) (\<lambda>(len, r).
         bindE (read_exact (unat len) r) (\<lambda>(payload, r).
         bindE (decode_variant typ (\<lambda>p. \<lparr>cl_params = p\<rparr>) kvps_decode payload) (\<lambda>m. Inr (m, r)))))"

definition client_encode :: "client_setup \<Rightarrow> enc" where
  "client_encode m w =
     bindE (u64_encode 0x20 w) (\<lambda>w.
     bindE (kvps_encode (cl_params m) fresh_vec) (\<lambda>buf. put_framed (wr_bytes buf) w))"

definition server_decode :: "server_setup dec" where
  "server_decode r =
     bindE (u64_decode r) (\<lambda>(typ, r).
       if typ \<noteq> 0x21 then Inl (InvalidMessage typ)
       else
         bindE (u16_decode r) (\<lambda>(len, r).
         bindE (read_exact (unat len) r) (\<lambda>(payload, r).
         bindE (decode_variant typ (\<lambda>p. \<lparr>srv_params = p\<rparr>) kvps_decode payload) (\<lambda>m. Inr (m, r)))))"

definition server_encode :: "server_setup \<Rightarrow> enc" where
  "server_encode m w =
     bindE (u64_encode 0x21 w) (\<lambda>w.
     bindE (kvps_encode (srv_params m) fresh_vec) (\<lambda>buf. put_framed (wr_bytes buf) w))"

datatype version = Version (version_number: u32)

definition DRAFT_16 :: version where
  "DRAFT_16 = Version 0xff000010"

definition version_decode :: "version dec" where
  "version_decode r =
     bindE (varint_decode r) (\<lambda>(v, r).
     bindE (ok_or (u32_try_from_varint v) BoundsExceeded) (\<lambda>x. Inr (Version x, r)))"

definition version_encode :: "version \<Rightarrow> enc" where
  "version_encode v w = bindE (varint_encode (varint_from_u32 (version_number v)) w) (\<lambda>w. Inr w)"

definition versions_decode :: "version list dec" where
  "versions_decode r = bindE (usize_decode r) (\<lambda>(count, r). decode_many version_decode count r)"

definition versions_encode :: "version list \<Rightarrow> enc" where
  "versions_encode vs w = bindE (usize_encode (length vs) w) (encode_many version_encode vs)"

section \<open>Directional subsets\<close>

datatype publisher_msg =
    PPublishNamespace publish_namespace
  | PPublishNamespaceDone publish_namespace_done
  | PPublish publish
  | PPublishDone publish_done
  | PSubscribeOk subscribe_ok
  | PRequestOk request_ok
  | PRequestError request_error
  | PFetchOk fetch_ok

fun message_from_publisher_msg :: "publisher_msg \<Rightarrow> message" where
  "message_from_publisher_msg (PPublishNamespace m) = PublishNamespace m"
| "message_from_publisher_msg (PPublishNamespaceDone m) = PublishNamespaceDone m"
| "message_from_publisher_msg (PPublish m) = Publish m"
| "message_from_publisher_msg (PPublishDone m) = PublishDone m"
| "message_from_publisher_msg (PSubscribeOk m) = SubscribeOk m"
| "message_from_publisher_msg (PRequestOk m) = RequestOk m"
| "message_from_publisher_msg (PRequestError m) = RequestError m"
| "message_from_publisher_msg (PFetchOk m) = FetchOk m"

definition publisher_msg_try_from :: "message \<Rightarrow> message + publisher_msg" where
  "publisher_msg_try_from msg =
     (case msg of
        PublishNamespace m \<Rightarrow> Inr (PPublishNamespace m)
      | PublishNamespaceDone m \<Rightarrow> Inr (PPublishNamespaceDone m)
      | Publish m \<Rightarrow> Inr (PPublish m)
      | PublishDone m \<Rightarrow> Inr (PPublishDone m)
      | SubscribeOk m \<Rightarrow> Inr (PSubscribeOk m)
      | RequestOk m \<Rightarrow> Inr (PRequestOk m)
      | RequestError m \<Rightarrow> Inr (PRequestError m)
      | FetchOk m \<Rightarrow> Inr (PFetchOk m)
      | _ \<Rightarrow> Inl msg)"

datatype subscriber_msg =
    SSubscribe subscribe
  | SRequestUpdate request_update
  | SRequestOk request_ok
  | SRequestError request_error
  | SUnsubscribe unsubscribe
  | SFetch fetch
  | SFetchCancel fetch_cancel
  | STrackStatus track_status
  | SSubscribeNamespace subscribe_namespace
  | SPublishNamespaceCancel publish_namespace_cancel
  | SPublishOk publish_ok

fun message_from_subscriber_msg :: "subscriber_msg \<Rightarrow> message" where
  "message_from_subscriber_msg (SSubscribe m) = Subscribe m"
| "message_from_subscriber_msg (SRequestUpdate m) = RequestUpdate m"
| "message_from_subscriber_msg (SRequestOk m) = RequestOk m"
| "message_from_subscriber_msg (SRequestError m) = RequestError m"
| "message_from_subscriber_msg (SUnsubscribe m) = Unsubscribe m"
| "message_from_subscriber_msg (SFetch m) = Fetch m"
| "message_from_subscriber_msg (SFetchCancel m) = FetchCancel m"
| "message_from_subscriber_msg (STrackStatus m) = TrackStatus m"
| "message_from_subscriber_msg (SSubscribeNamespace m) = SubscribeNamespace m"
| "message_from_subscriber_msg (SPublishNamespaceCancel m) = PublishNamespaceCancel m"
| "message_from_subscriber_msg (SPublishOk m) = PublishOk m"

definition subscriber_msg_try_from :: "message \<Rightarrow> message + subscriber_msg" where
  "subscriber_msg_try_from msg =
     (case msg of
        Subscribe m \<Rightarrow> Inr (SSubscribe m)
      | RequestUpdate m \<Rightarrow> Inr (SRequestUpdate m)
      | RequestOk m \<Rightarrow> Inr (SRequestOk m)
      | RequestError m \<Rightarrow> Inr (SRequestError m)
      | Unsubscribe m \<Rightarrow> Inr (SUnsubscribe m)
      | Fetch m \<Rightarrow> Inr (SFetch m)
      | FetchCancel m \<Rightarrow> Inr (SFetchCancel m)
      | TrackStatus m \<Rightarrow> Inr (STrackStatus m)
      | SubscribeNamespace m \<Rightarrow> Inr (SSubscribeNamespace m)
      | PublishNamespaceCancel m \<Rightarrow> Inr (SPublishNamespaceCancel m)
      | PublishOk m \<Rightarrow> Inr (SPublishOk m)
      | _ \<Rightarrow> Inl msg)"

lemma publisher_msg_try_from_iff: "publisher_msg_try_from msg = Inr p \<longleftrightarrow> msg = message_from_publisher_msg p"
  by (cases msg; cases p) (auto simp: publisher_msg_try_from_def)

lemma subscriber_msg_try_from_iff: "subscriber_msg_try_from msg = Inr p \<longleftrightarrow> msg = message_from_subscriber_msg p"
  by (cases msg; cases p) (auto simp: subscriber_msg_try_from_def)

section \<open>Well-formed messages\<close>

text \<open>
  What the round trip needs of a message: its strings are UTF-8 (every Rust \<^verbatim>\<open>String\<close> is), a
  full track name is within the bound its decoder checks, and an \<^verbatim>\<open>Unknown\<close> does not carry a
  type that is known. What comes back is \<open>message_normal\<close>: parameters and extensions in key
  order, and no fetch body of the kind the fetch type does not use.
\<close>

definition known_types :: "u64 list" where
  "known_types =
     [0x2, 0x5, 0x7, 0x3, 0x4, 0xa, 0x6, 0x8, 0x9, 0xe, 0xc, 0xd, 0x1d, 0xb, 0x1e, 0x16, 0x17, 0x18, 0x11, 0x10, 0x15, 0x1a]"

fun message_wf :: "message \<Rightarrow> bool" where
  "message_wf (RequestUpdate _) = True"
| "message_wf (RequestError m) \<longleftrightarrow> utf8_valid (rerr_reason m)"
| "message_wf (RequestOk _) = True"
| "message_wf (Subscribe m) \<longleftrightarrow>
     full_track_name_len (sub_track_namespace m) (sub_track_name m) \<le> MAX_FULL_TRACK_NAME_LEN"
| "message_wf (SubscribeOk _) = True"
| "message_wf (Unsubscribe _) = True"
| "message_wf (PublishNamespace _) = True"
| "message_wf (Namespace _) = True"
| "message_wf (PublishNamespaceDone _) = True"
| "message_wf (NamespaceDone _) = True"
| "message_wf (PublishNamespaceCancel m) \<longleftrightarrow> utf8_valid (pnc_reason_phrase m)"
| "message_wf (TrackStatus m) \<longleftrightarrow>
     full_track_name_len (ts_track_namespace m) (ts_track_name m) \<le> MAX_FULL_TRACK_NAME_LEN"
| "message_wf (Publish m) \<longleftrightarrow>
     full_track_name_len (pub_track_namespace m) (pub_track_name m) \<le> MAX_FULL_TRACK_NAME_LEN"
| "message_wf (PublishDone m) \<longleftrightarrow> utf8_valid (pdone_reason m)"
| "message_wf (PublishOk _) = True"
| "message_wf (Fetch m) \<longleftrightarrow> fetch_name_ok m"
| "message_wf (FetchCancel _) = True"
| "message_wf (FetchOk _) = True"
| "message_wf (SubscribeNamespace _) = True"
| "message_wf (GoAway m) \<longleftrightarrow> utf8_valid (ga_uri m)"
| "message_wf (MaxRequestId _) = True"
| "message_wf (RequestsBlocked _) = True"
| "message_wf (Unknown t _) \<longleftrightarrow> t \<notin> set known_types"

fun message_normal :: "message \<Rightarrow> message" where
  "message_normal (RequestUpdate m) = RequestUpdate (m\<lparr>ru_params := sort_key kvp_key (ru_params m)\<rparr>)"
| "message_normal (RequestOk m) = RequestOk (m\<lparr>rok_params := sort_key kvp_key (rok_params m)\<rparr>)"
| "message_normal (Subscribe m) = Subscribe (m\<lparr>sub_params := sort_key kvp_key (sub_params m)\<rparr>)"
| "message_normal (SubscribeOk m) = SubscribeOk (m\<lparr>sok_params := sort_key kvp_key (sok_params m), sok_track_extensions := sort_key kvp_key (sok_track_extensions m)\<rparr>)"
| "message_normal (PublishNamespace m) = PublishNamespace (m\<lparr>pns_params := sort_key kvp_key (pns_params m)\<rparr>)"
| "message_normal (TrackStatus m) = TrackStatus (m\<lparr>ts_params := sort_key kvp_key (ts_params m)\<rparr>)"
| "message_normal (Publish m) = Publish (m\<lparr>pub_params := sort_key kvp_key (pub_params m), pub_track_extensions := sort_key kvp_key (pub_track_extensions m)\<rparr>)"
| "message_normal (PublishOk m) = PublishOk (m\<lparr>pok_params := sort_key kvp_key (pok_params m)\<rparr>)"
| "message_normal (Fetch m) = Fetch (fetch_normal m)"
| "message_normal (FetchOk m) = FetchOk (m\<lparr>fok_params := sort_key kvp_key (fok_params m), fok_track_extensions := sort_key kvp_key (fok_track_extensions m)\<rparr>)"
| "message_normal (SubscribeNamespace m) = SubscribeNamespace (m\<lparr>sns_params := sort_key kvp_key (sns_params m)\<rparr>)"
| "message_normal m = m"

section \<open>Framing proofs\<close>

lemma codec_framed_tail:
  assumes body: "\<And>w w'. body w = Inr w' \<Longrightarrow> \<exists>bs. writes body bs \<and> parse bs = Inr y"
  shows "codec (\<lambda>w. bindE (body fresh_vec) (\<lambda>buf. put_framed (wr_bytes buf) w))
    (\<lambda>r. bindE (u16_decode r) (\<lambda>(len, r).
       bindE (read_exact (unat len) r) (\<lambda>(p, r). bindE (parse p) (\<lambda>m. Inr (m, r))))) y"
proof (cases "body fresh_vec")
  case (Inl e)
  then show ?thesis by (simp add: codec_def)
next
  case (Inr buf)
  then obtain bs where bs: "writes body bs" "parse bs = Inr y" using body by blast
  then have buf: "wr_bytes buf = bs"
    using writes_result [OF bs(1) Inr] by (simp add: fresh_vec_def)
  show ?thesis
    unfolding Inr bindE.simps buf put_framed_def [abs_def]
  proof (rule codec_encoder_check, rule codec_bind [OF codec_u16])
    assume "\<not> length bs > 0xFFFF"
    then have len: "unat (of_nat (length bs) :: u16) = length bs" by (simp add: unat_of_nat_lt)
    have "codec (\<lambda>w. bindE (checked_put bs w) Inr) (\<lambda>r. bindE (read_exact (length bs) r)
        (\<lambda>(p, r). bindE (parse p) (\<lambda>m. Inr (m, r)))) y"
      by (rule codec_bind [OF codec_bytes [OF refl]]) (simp add: bs codec_return)
    then show "codec (checked_put bs) (\<lambda>r. bindE (read_exact (unat (of_nat (length bs) :: u16)) r)
        (\<lambda>(p, r). bindE (parse p) (\<lambda>m. Inr (m, r)))) y"
      unfolding len by simp
  qed
qed

lemma decode_variant_ok: "d bs = Inr (x, []) \<Longrightarrow> decode_variant t C d bs = Inr (C x)"
  by (simp add: decode_variant_def)

lemma decode_variant_no_panic: "no_panic d \<Longrightarrow> decode_variant t C d bs \<noteq> Inl DecPanic"
  by (auto simp: decode_variant_def no_panic_def bindE_eq_Inl split: if_splits)

lemma variant_payload:
  assumes "payload_codec body d x" and "body w = Inr w'" and "\<And>bs. parse bs = decode_variant t C d bs"
  shows "\<exists>bs. writes body bs \<and> parse bs = Inr (C x)"
  using assms decode_variant_ok by (fastforce simp: payload_codec_def)

lemmas message_no_panic =
  decoder_request_update [THEN no_panic_decoder]
  decoder_request_error [THEN no_panic_decoder]
  decoder_request_ok [THEN no_panic_decoder]
  decoder_subscribe [THEN no_panic_decoder]
  no_panic_subscribe_ok
  decoder_unsubscribe [THEN no_panic_decoder]
  decoder_publish_namespace [THEN no_panic_decoder]
  decoder_namespace_msg [THEN no_panic_decoder]
  decoder_publish_namespace_done [THEN no_panic_decoder]
  decoder_namespace_done [THEN no_panic_decoder]
  decoder_publish_namespace_cancel [THEN no_panic_decoder]
  decoder_track_status [THEN no_panic_decoder]
  no_panic_publish
  decoder_publish_done [THEN no_panic_decoder]
  decoder_publish_ok [THEN no_panic_decoder]
  decoder_fetch [THEN no_panic_decoder]
  decoder_fetch_cancel [THEN no_panic_decoder]
  no_panic_fetch_ok
  decoder_subscribe_namespace [THEN no_panic_decoder]
  decoder_go_away [THEN no_panic_decoder]
  decoder_max_request_id [THEN no_panic_decoder]
  decoder_requests_blocked [THEN no_panic_decoder]

lemma decode_payload_no_panic [simp]: "decode_payload t payload \<noteq> Inl DecPanic"
  by (simp add: decode_payload_def decode_variant_no_panic message_no_panic)

lemma decoder_message [decoder_rules]: "decoder message_decode"
  unfolding message_decode_def [abs_def] by (intro decoder_rules) simp

lemmas message_payload_codecs =
  codec_request_update [THEN payload_codec_of_codec]
  codec_request_error [THEN payload_codec_of_codec]
  codec_request_ok [THEN payload_codec_of_codec]
  codec_subscribe [THEN payload_codec_of_codec]
  payload_codec_subscribe_ok
  codec_unsubscribe [THEN payload_codec_of_codec]
  codec_publish_namespace [THEN payload_codec_of_codec]
  codec_namespace_msg [THEN payload_codec_of_codec]
  codec_publish_namespace_done [THEN payload_codec_of_codec]
  codec_namespace_done [THEN payload_codec_of_codec]
  codec_publish_namespace_cancel [THEN payload_codec_of_codec]
  codec_track_status [THEN payload_codec_of_codec]
  payload_codec_publish
  codec_publish_done [THEN payload_codec_of_codec]
  codec_publish_ok [THEN payload_codec_of_codec]
  codec_fetch [THEN payload_codec_of_codec]
  codec_fetch_cancel [THEN payload_codec_of_codec]
  payload_codec_fetch_ok
  codec_subscribe_namespace [THEN payload_codec_of_codec]
  codec_go_away [THEN payload_codec_of_codec]
  codec_max_request_id [THEN payload_codec_of_codec]
  codec_requests_blocked [THEN payload_codec_of_codec]

lemma message_body_parses:
  assumes "message_wf m" and "\<And>t p. m \<noteq> Unknown t p" and "message_body m w = Inr w'"
  shows "\<exists>bs. writes (message_body m) bs \<and> decode_payload (message_id m) bs = Inr (message_normal m)"
proof (cases m)
  case (RequestUpdate x)
  with assms show ?thesis
    by simp (rule variant_payload [where C = RequestUpdate and t = "0x2", OF payload_codec_of_codec [OF codec_request_update]],
        simp_all add: decode_payload_def)
next
  case (RequestError x)
  with assms show ?thesis
    by simp (rule variant_payload [where C = RequestError and t = "0x5", OF payload_codec_of_codec [OF codec_request_error]],
        simp_all add: decode_payload_def)
next
  case (RequestOk x)
  with assms show ?thesis
    by simp (rule variant_payload [where C = RequestOk and t = "0x7", OF payload_codec_of_codec [OF codec_request_ok]],
        simp_all add: decode_payload_def)
next
  case (Subscribe x)
  with assms show ?thesis
    by simp (rule variant_payload [where C = Subscribe and t = "0x3", OF payload_codec_of_codec [OF codec_subscribe]],
        simp_all add: decode_payload_def)
next
  case (SubscribeOk x)
  with assms show ?thesis
    by simp (rule variant_payload [where C = SubscribeOk and t = "0x4", OF payload_codec_subscribe_ok],
        simp_all add: decode_payload_def)
next
  case (Unsubscribe x)
  with assms show ?thesis
    by simp (rule variant_payload [where C = Unsubscribe and t = "0xa", OF payload_codec_of_codec [OF codec_unsubscribe]],
        simp_all add: decode_payload_def)
next
  case (PublishNamespace x)
  with assms show ?thesis
    by simp (rule variant_payload [where C = PublishNamespace and t = "0x6", OF payload_codec_of_codec [OF codec_publish_namespace]],
        simp_all add: decode_payload_def)
next
  case (Namespace x)
  with assms show ?thesis
    by simp (rule variant_payload [where C = Namespace and t = "0x8", OF payload_codec_of_codec [OF codec_namespace_msg]],
        simp_all add: decode_payload_def)
next
  case (PublishNamespaceDone x)
  with assms show ?thesis
    by simp (rule variant_payload [where C = PublishNamespaceDone and t = "0x9", OF payload_codec_of_codec [OF codec_publish_namespace_done]],
        simp_all add: decode_payload_def)
next
  case (NamespaceDone x)
  with assms show ?thesis
    by simp (rule variant_payload [where C = NamespaceDone and t = "0xe", OF payload_codec_of_codec [OF codec_namespace_done]],
        simp_all add: decode_payload_def)
next
  case (PublishNamespaceCancel x)
  with assms show ?thesis
    by simp (rule variant_payload [where C = PublishNamespaceCancel and t = "0xc", OF payload_codec_of_codec [OF codec_publish_namespace_cancel]],
        simp_all add: decode_payload_def)
next
  case (TrackStatus x)
  with assms show ?thesis
    by simp (rule variant_payload [where C = TrackStatus and t = "0xd", OF payload_codec_of_codec [OF codec_track_status]],
        simp_all add: decode_payload_def)
next
  case (Publish x)
  with assms show ?thesis
    by simp (rule variant_payload [where C = Publish and t = "0x1d", OF payload_codec_publish],
        simp_all add: decode_payload_def)
next
  case (PublishDone x)
  with assms show ?thesis
    by simp (rule variant_payload [where C = PublishDone and t = "0xb", OF payload_codec_of_codec [OF codec_publish_done]],
        simp_all add: decode_payload_def)
next
  case (PublishOk x)
  with assms show ?thesis
    by simp (rule variant_payload [where C = PublishOk and t = "0x1e", OF payload_codec_of_codec [OF codec_publish_ok]],
        simp_all add: decode_payload_def)
next
  case (Fetch x)
  with assms show ?thesis
    by simp (rule variant_payload [where C = Fetch and t = "0x16", OF payload_codec_of_codec [OF codec_fetch]],
        simp_all add: decode_payload_def)
next
  case (FetchCancel x)
  with assms show ?thesis
    by simp (rule variant_payload [where C = FetchCancel and t = "0x17", OF payload_codec_of_codec [OF codec_fetch_cancel]],
        simp_all add: decode_payload_def)
next
  case (FetchOk x)
  with assms show ?thesis
    by simp (rule variant_payload [where C = FetchOk and t = "0x18", OF payload_codec_fetch_ok],
        simp_all add: decode_payload_def)
next
  case (SubscribeNamespace x)
  with assms show ?thesis
    by simp (rule variant_payload [where C = SubscribeNamespace and t = "0x11", OF payload_codec_of_codec [OF codec_subscribe_namespace]],
        simp_all add: decode_payload_def)
next
  case (GoAway x)
  with assms show ?thesis
    by simp (rule variant_payload [where C = GoAway and t = "0x10", OF payload_codec_of_codec [OF codec_go_away]],
        simp_all add: decode_payload_def)
next
  case (MaxRequestId x)
  with assms show ?thesis
    by simp (rule variant_payload [where C = MaxRequestId and t = "0x15", OF payload_codec_of_codec [OF codec_max_request_id]],
        simp_all add: decode_payload_def)
next
  case (RequestsBlocked x)
  with assms show ?thesis
    by simp (rule variant_payload [where C = RequestsBlocked and t = "0x1a", OF payload_codec_of_codec [OF codec_requests_blocked]],
        simp_all add: decode_payload_def)
next
  case (Unknown t p)
  then show ?thesis using assms by simp
qed

lemma message_encode_known:
  "\<nexists>t p. m = Unknown t p \<Longrightarrow> message_encode m =
    (\<lambda>w. bindE (u64_encode (message_id m) w) (\<lambda>w.
       bindE (message_body m fresh_vec) (\<lambda>buf. put_framed (wr_bytes buf) w)))"
  by (cases m) (simp_all add: message_encode_def [abs_def])

lemma decode_payload_unknown: "t \<notin> set known_types \<Longrightarrow> decode_payload t p = Inr (Unknown t p)"
  by (simp add: decode_payload_def known_types_def)

lemma message_encode_unknown:
  assumes "length p < 2 ^ 63"
  shows "message_encode (Unknown t p) =
    (\<lambda>w. bindE (u64_encode t w) (\<lambda>w. bindE (put_slice p fresh_vec) (\<lambda>buf. put_framed (wr_bytes buf) w)))"
  using assms by (simp add: message_encode_def [abs_def] put_slice_def fresh_vec_def)

lemma codec_message [codec_rules]:
  assumes "message_wf m"
  shows "codec (message_encode m) message_decode (message_normal m)"
proof (cases "\<exists>t p. m = Unknown t p")
  case False
  then have "\<And>w w'. message_body m w = Inr w' \<Longrightarrow>
      \<exists>bs. writes (message_body m) bs \<and> decode_payload (message_id m) bs = Inr (message_normal m)"
    using message_body_parses [OF assms] by blast
  then show ?thesis
    unfolding message_decode_def [abs_def] message_encode_known [OF False]
    by (intro codec_bind [OF codec_u64] codec_framed_tail)
next
  case True
  then obtain t p where m: "m = Unknown t p" by auto
  show ?thesis
  proof (cases "length p < 2 ^ 63")
    case small: True
    have "\<exists>bs. writes (put_slice p) bs \<and> decode_payload t bs = Inr (Unknown t p)"
      using assms m writes_put_slice decode_payload_unknown [of t] by auto
    then show ?thesis
      unfolding m message_encode_unknown [OF small] message_decode_def [abs_def]
      by (simp only: message_normal.simps) (rule codec_bind [OF codec_u64], rule codec_framed_tail, blast)
  next
    case False
    then have "length p > 0xFFFF" by simp
    then show ?thesis by (simp add: m message_encode_def codec_def put_framed_def)
  qed
qed

section \<open>Setup proofs\<close>

lemma kvps_payload:
  "kvps_encode ks w = Inr w' \<Longrightarrow>
   \<exists>bs. writes (kvps_encode ks) bs \<and> decode_variant t C kvps_decode bs = Inr (C (sort_key kvp_key ks))"
  by (rule variant_payload [OF payload_codec_of_codec [OF codec_kvps]]) auto

lemma decoder_client [decoder_rules]: "decoder client_decode"
  unfolding client_decode_def [abs_def]
  by (intro decoder_rules) (simp_all add: decode_variant_no_panic no_panic_decoder decoder_kvps)

lemma codec_client [codec_rules]:
  "codec (client_encode m) client_decode (m\<lparr>cl_params := sort_key kvp_key (cl_params m)\<rparr>)"
  unfolding client_encode_def [abs_def] client_decode_def [abs_def]
  by (rule codec_bind [OF codec_u64], simp, rule codec_framed_tail,
      drule kvps_payload [where t = "0x20" and C = "\<lambda>p. \<lparr>cl_params = p\<rparr>"]) (cases m, simp)

lemma decoder_server [decoder_rules]: "decoder server_decode"
  unfolding server_decode_def [abs_def]
  by (intro decoder_rules) (simp_all add: decode_variant_no_panic no_panic_decoder decoder_kvps)

lemma codec_server [codec_rules]:
  "codec (server_encode m) server_decode (m\<lparr>srv_params := sort_key kvp_key (srv_params m)\<rparr>)"
  unfolding server_encode_def [abs_def] server_decode_def [abs_def]
  by (rule codec_bind [OF codec_u64], simp, rule codec_framed_tail,
      drule kvps_payload [where t = "0x21" and C = "\<lambda>p. \<lparr>srv_params = p\<rparr>"]) (cases m, simp)

lemma decoder_version [decoder_rules]: "decoder version_decode"
  unfolding version_decode_def [abs_def] by (intro decoder_rules) simp

lemma u32_varint: "(ucast (x :: u32) :: u64) \<le> 0xFFFFFFFF" "ucast (ucast x :: u64) = x"
proof -
  have "unat x < 2 ^ LENGTH(32)" by (rule unsigned_less)
  then show "(ucast x :: u64) \<le> 0xFFFFFFFF"
    by (simp add: word_le_nat_alt unsigned_ucast_eq take_bit_nat_eq_self)
  show "ucast (ucast x :: u64) = x" by (rule bit_word_eqI) (auto simp: bit_simps)
qed

lemma codec_version [codec_rules]: "codec (version_encode v) version_decode v"
proof -
  have "codec (u64_encode (ucast (version_number v))) varint_decode (VarInt (ucast (version_number v)))"
    unfolding u64_encode_eq [abs_def] codec_def round_trips_def
    using writes_checked_put [of "varint_bytes (ucast (version_number v))"]
      streams_varint [of "ucast (version_number v)"] by (auto split: if_splits)
  moreover have "(ucast (version_number v) :: u64) < 2 ^ 62"
    using u32_varint(1) [of "version_number v"] by (rule le_less_trans) simp
  ultimately have "codec (varint_encode (varint_from_u32 (version_number v))) varint_decode
      (VarInt (ucast (version_number v)))"
    by (simp add: u64_encode_def [abs_def] varint_try_from_u64_def varint_MAX_le varint_from_u32_def)
  then show ?thesis
    unfolding version_encode_def [abs_def] version_decode_def [abs_def]
    by (rule codec_bind) (simp add: u32_try_from_varint_def u32_varint codec_return)
qed

lemma decoder_versions [decoder_rules]: "decoder versions_decode"
  unfolding versions_decode_def [abs_def] by (intro decoder_rules)

lemma codec_versions [codec_rules]: "codec (versions_encode vs) versions_decode vs"
  unfolding versions_encode_def [abs_def] versions_decode_def [abs_def]
  by (rule codec_bind [OF codec_usize], rule codec_many) (simp_all add: codec_version)

end
