(* ===== verification/Transport.thy ===== *)
theory Transport
  imports Control
begin

text \<open>
  Errors with their wire codes (\<^verbatim>\<open>moq-transport/src/session/error.rs\<close>,
  \<^verbatim>\<open>serve/error.rs\<close>) and the two ends of a stream: \<^verbatim>\<open>session/reader.rs\<close> decodes values from
  bytes that arrive in arbitrary pieces, \<^verbatim>\<open>session/writer.rs\<close> encodes values into a transport
  that accepts them in arbitrary pieces. The transport itself (\<^verbatim>\<open>web_transport\<close>) is outside
  the repository: it is the list of what its reads and writes return. The locale
  \<open>wire_type\<close> states what a type sent over a stream must promise, and proves once for all of
  them that what a writer sends a reader receives, however the bytes are cut.
\<close>

section \<open>Errors\<close>

text \<open>The correlation ids and message strings of the diagnostic variants are dropped.\<close>

datatype serve_error =
    SDone | SCancel | SClosed u64 | SNotFound | SNotFoundWithId | SDuplicate | SMode | SSize
  | SInternal | SInternalWithId | SNotImplemented | SNotImplementedWithId

fun serve_error_code :: "serve_error \<Rightarrow> u64" where
  "serve_error_code SDone = 0"
| "serve_error_code SCancel = 1"
| "serve_error_code (SClosed code) = code"
| "serve_error_code SNotFound = 0x4"
| "serve_error_code SNotFoundWithId = 0x4"
| "serve_error_code SDuplicate = 0x5"
| "serve_error_code SMode = 0x3"
| "serve_error_code SSize = 0x3"
| "serve_error_code SNotImplemented = 0x3"
| "serve_error_code SNotImplementedWithId = 0x3"
| "serve_error_code SInternal = 0x0"
| "serve_error_code SInternalWithId = 0x0"

datatype 'e session_error =
    SeWebTransport 'e
  | SeEncode encode_error
  | SeDecode decode_error
  | SeRoleViolation
  | SeBoundsExceeded
  | SeDuplicate
  | SeInternal
  | SeServe serve_error
  | SeWrongSize
  | SeInvalidPath
  | SeInvalidRequestId
  | SeTooManyRequests
  | SeProtocolViolation
  | SeProfileFramingMismatch

fun session_error_code :: "'e session_error \<Rightarrow> u64" where
  "session_error_code SeRoleViolation = 0x3"
| "session_error_code (SeWebTransport _) = 0x1"
| "session_error_code (SeEncode _) = 0x1"
| "session_error_code SeBoundsExceeded = 0x1"
| "session_error_code SeInternal = 0x1"
| "session_error_code (SeDecode _) = 0x3"
| "session_error_code SeWrongSize = 0x3"
| "session_error_code SeInvalidPath = 0x3"
| "session_error_code SeDuplicate = 0x5"
| "session_error_code SeInvalidRequestId = 0x4"
| "session_error_code SeTooManyRequests = 0x7"
| "session_error_code SeProtocolViolation = 0x3"
| "session_error_code SeProfileFramingMismatch = 0x3"
| "session_error_code (SeServe err) = serve_error_code err"

definition serve_error_from_session :: "'e session_error \<Rightarrow> serve_error" where
  "serve_error_from_session err = (case err of SeServe e \<Rightarrow> e | _ \<Rightarrow> SInternalWithId)"

section \<open>Reader\<close>

text \<open>
  A reader is its buffer and the results its stream's next reads give: a piece of bytes,
  or a transport error. When the list is empty the stream has ended and reads return
  \<^verbatim>\<open>None\<close>. A result comes with the reader as the call leaves it.
\<close>

record 'e reader =
  rd_buffer :: bytes
  rd_stream :: "('e + bytes) list"

text \<open>The inner loop: read until the buffer holds \<^verbatim>\<open>required\<close> bytes.\<close>

fun reader_fill :: "nat \<Rightarrow> bytes \<Rightarrow> ('e + bytes) list \<Rightarrow> 'e session_error option \<times> bytes \<times> ('e + bytes) list" where
  "reader_fill required buf [] = (Some (SeDecode (More (required - length buf))), buf, [])"
| "reader_fill required buf (Inl e # s) = (Some (SeWebTransport e), buf, s)"
| "reader_fill required buf (Inr bs # s) =
     (let buf = buf @ bs in
      if length buf \<ge> required then (None, buf, s) else reader_fill required buf s)"

lemma reader_fill_consumes: "reader_fill n buf s = (None, buf', s') \<Longrightarrow> length s' < length s"
  by (induction n buf s rule: reader_fill.induct) (auto simp: Let_def split: if_splits)

function reader_loop :: "'a dec \<Rightarrow> bytes \<Rightarrow> ('e + bytes) list \<Rightarrow> ('e session_error + 'a) \<times> bytes \<times> ('e + bytes) list" where
  "reader_loop d buf s =
     (case d buf of
        Inr (msg, rest) \<Rightarrow> (Inr msg, rest, s)
      | Inl err \<Rightarrow>
          (case err of
             More required \<Rightarrow>
               (case reader_fill (length buf + required) buf s of
                  (Some e, buf, s) \<Rightarrow> (Inl e, buf, s)
                | (None, buf, s) \<Rightarrow> reader_loop d buf s)
           | _ \<Rightarrow> (Inl (SeDecode err), buf, s)))"
  by pat_completeness auto
termination
  by (relation "measure (\<lambda>(_, _, s). length s)") (auto dest: reader_fill_consumes [OF sym])

declare reader_loop.simps [simp del]

definition reader_decode :: "'a dec \<Rightarrow> 'e reader \<Rightarrow> ('e session_error + 'a) \<times> 'e reader" where
  "reader_decode d rd =
     (let (res, buf, s) = reader_loop d (rd_buffer rd) (rd_stream rd)
      in (res, \<lparr>rd_buffer = buf, rd_stream = s\<rparr>))"

text \<open>
  \<^verbatim>\<open>read_chunk\<close> serves the buffer first. A transport read of at most \<^verbatim>\<open>max\<close> bytes takes the head
  of the next piece and leaves the rest for the read after it.
\<close>

definition read_chunk :: "nat \<Rightarrow> 'e reader \<Rightarrow> ('e session_error + bytes option) \<times> 'e reader" where
  "read_chunk max_len rd =
     (if rd_buffer rd \<noteq> [] then
        let size = min max_len (length (rd_buffer rd))
        in (Inr (Some (take size (rd_buffer rd))), rd\<lparr>rd_buffer := drop size (rd_buffer rd)\<rparr>)
      else
        case rd_stream rd of
          [] \<Rightarrow> (Inr None, rd)
        | Inl e # s \<Rightarrow> (Inl (SeWebTransport e), rd\<lparr>rd_stream := s\<rparr>)
        | Inr bs # s \<Rightarrow>
            if length bs \<le> max_len then (Inr (Some bs), rd\<lparr>rd_stream := s\<rparr>)
            else (Inr (Some (take max_len bs)), rd\<lparr>rd_stream := Inr (drop max_len bs) # s\<rparr>))"

definition reader_done :: "'e reader \<Rightarrow> ('e session_error + bool) \<times> 'e reader" where
  "reader_done rd =
     (if rd_buffer rd \<noteq> [] then (Inr False, rd)
      else
        case rd_stream rd of
          [] \<Rightarrow> (Inr True, rd)
        | Inl e # s \<Rightarrow> (Inl (SeWebTransport e), rd\<lparr>rd_stream := s\<rparr>)
        | Inr bs # s \<Rightarrow> (Inr False, \<lparr>rd_buffer = bs, rd_stream = s\<rparr>))"

fun isr :: "'e + 'a \<Rightarrow> bool" where
  "isr (Inl _) = False"
| "isr (Inr _) = True"

text \<open>The bytes a reader has still to deliver when no read fails.\<close>

definition pending :: "'e reader \<Rightarrow> bytes" where
  "pending rd = rd_buffer rd @ concat (map projr (rd_stream rd))"

definition clean :: "'e reader \<Rightarrow> bool" where
  "clean rd \<longleftrightarrow> list_all isr (rd_stream rd)"

section \<open>Writer\<close>

text \<open>
  A writer's stream is what each \<^verbatim>\<open>write_buf\<close> does: fail, or accept up to so many bytes of
  the buffer. When the list runs out the call is still waiting on flow control.
\<close>

datatype 'a progress = Done 'a | Waiting

fun write_all :: "bytes \<Rightarrow> ('e + nat) list \<Rightarrow> bytes \<Rightarrow> ('e session_error + unit) progress \<times> bytes" where
  "write_all [] accepts wire = (Done (Inr ()), wire)"
| "write_all (b # bs) [] wire = (Waiting, wire)"
| "write_all (b # bs) (Inl e # s) wire = (Done (Inl (SeWebTransport e)), wire)"
| "write_all (b # bs) (Inr n # s) wire = write_all (drop n (b # bs)) s (wire @ take n (b # bs))"

definition writer_encode :: "enc \<Rightarrow> ('e + nat) list \<Rightarrow> bytes \<Rightarrow> ('e session_error + unit) progress \<times> bytes" where
  "writer_encode e accepts wire =
     (case e fresh_vec of
        Inl err \<Rightarrow> (Done (Inl (SeEncode err)), wire)
      | Inr buf \<Rightarrow> write_all (wr_bytes buf) accepts wire)"

text \<open>\<^verbatim>\<open>Writer::write\<close> differs from the loop of \<^verbatim>\<open>Writer::encode\<close> in refusing an empty write.\<close>

fun writer_write :: "bytes \<Rightarrow> ('e + nat) list \<Rightarrow> bytes \<Rightarrow> ('e session_error + unit) progress \<times> bytes" where
  "writer_write [] accepts wire = (Done (Inr ()), wire)"
| "writer_write (b # bs) [] wire = (Waiting, wire)"
| "writer_write (b # bs) (Inl e # s) wire = (Done (Inl (SeWebTransport e)), wire)"
| "writer_write (b # bs) (Inr n # s) wire =
     (if n = 0 then (Done (Inl (SeEncode (EncMore (length (b # bs))))), wire)
      else writer_write (drop n (b # bs)) s (wire @ take n (b # bs)))"

section \<open>Reading is independent of the pieces\<close>

lemma reader_fill_ok:
  assumes "list_all isr s" and "length buf < n" and "n \<le> length (buf @ concat (map projr s))"
  obtains buf' s' where "reader_fill n buf s = (None, buf', s')" "list_all isr s'"
    "buf' @ concat (map projr s') = buf @ concat (map projr s)" "prefix buf buf'" "n \<le> length buf'"
  using assms
proof (induction n buf s arbitrary: thesis rule: reader_fill.induct)
  case (3 n buf bs s)
  show ?case
  proof (cases "length (buf @ bs) \<ge> n")
    case True
    with 3 show ?thesis by (intro "3.prems"(1) [of "buf @ bs" s]) auto
  next
    case False
    obtain buf' s' where r: "reader_fill n (buf @ bs) s = (None, buf', s')" "list_all isr s'"
        "buf' @ concat (map projr s') = (buf @ bs) @ concat (map projr s)"
        "prefix (buf @ bs) buf'" "n \<le> length buf'"
      using "3.IH" [of "buf @ bs"] False "3.prems" by (auto simp: not_le)
    from r(4) have "prefix buf buf'" by (rule append_prefixD)
    with r False show ?thesis by (intro "3.prems"(1) [of buf' s']) auto
  qed
qed auto

lemma reader_loop_reads:
  "streams d p x \<Longrightarrow> list_all isr s \<Longrightarrow> buf @ concat (map projr s) = p @ rest \<Longrightarrow>
   \<exists>buf' s'. reader_loop d buf s = (Inr x, buf', s') \<and> list_all isr s' \<and>
     buf' @ concat (map projr s') = rest"
proof (induction d buf s rule: reader_loop.induct)
  case (1 d buf s)
  show ?case
  proof (cases "prefix p buf")
    case True
    then obtain rest' where buf: "buf = p @ rest'" by (auto simp: prefix_def)
    then have "d buf = Inr (x, rest')" using streamsD [OF "1.prems"(1)] by simp
    then have "reader_loop d buf s = (Inr x, rest', s)" by (simp add: reader_loop.simps [of d buf])
    then show ?thesis using "1.prems"(2,3) buf by simp
  next
    case False
    with "1.prems"(3) have "strict_prefix buf p"
      by (metis prefixI prefix_same_cases prefix_order.less_le prefix_order.refl)
    with "1.prems"(1) obtain n where n: "d buf = Inl (More n)" "0 < n" "length buf + n \<le> length p"
      by (rule streams_short)
    have "length (buf @ concat (map projr s)) = length (p @ rest)" using "1.prems"(3) by simp
    with n(3) have le: "length buf + n \<le> length (buf @ concat (map projr s))" by simp
    obtain buf' s' where f: "reader_fill (length buf + n) buf s = (None, buf', s')" "list_all isr s'"
        "buf' @ concat (map projr s') = buf @ concat (map projr s)"
      by (rule reader_fill_ok [OF "1.prems"(2) _ le]) (use n(2) in auto)
    from n(1) f(1) have "reader_loop d buf s = reader_loop d buf' s'"
      by (simp add: reader_loop.simps [of d buf])
    then show ?thesis
      using "1.IH" [OF n(1) refl f(1) [symmetric] refl refl] f "1.prems" by simp
  qed
qed

lemma reader_decode_reads:
  assumes "streams d p x" and "clean rd" and "pending rd = p @ rest"
  obtains rd' where "reader_decode d rd = (Inr x, rd')" "clean rd'" "pending rd' = rest"
proof -
  obtain buf s where "reader_loop d (rd_buffer rd) (rd_stream rd) = (Inr x, buf, s)" "list_all isr s"
      "buf @ concat (map projr s) = rest"
    using reader_loop_reads [OF assms(1), of "rd_stream rd" "rd_buffer rd" rest] assms(2,3)
    unfolding clean_def pending_def by blast
  then show thesis
    by (intro that [of "\<lparr>rd_buffer = buf, rd_stream = s\<rparr>"])
      (simp_all add: reader_decode_def clean_def pending_def)
qed

text \<open>
  A decoder that asks for more on everything the stream will ever hold makes the reader
  drain the stream and fail only at its end.
\<close>

lemma reader_fill_drains:
  "list_all isr s \<Longrightarrow> reader_fill n buf s = (res, buf', s') \<Longrightarrow>
   list_all isr s' \<and> buf' @ concat (map projr s') = buf @ concat (map projr s) \<and>
   (res = None \<or> (\<exists>k. res = Some (SeDecode (More k))) \<and> s' = [])"
  by (induction n buf s rule: reader_fill.induct) (auto simp: Let_def split: if_splits)

lemma reader_loop_starves:
  "(\<And>q. prefix q (buf @ concat (map projr s)) \<Longrightarrow> \<exists>n. d q = Inl (More n)) \<Longrightarrow> list_all isr s \<Longrightarrow>
   \<exists>n. reader_loop d buf s = (Inl (SeDecode (More n)), buf @ concat (map projr s), [])"
proof (induction d buf s rule: reader_loop.induct)
  case (1 d buf s)
  obtain n where n: "d buf = Inl (More n)" using "1.prems"(1) [of buf] by auto
  obtain res buf' s' where f: "reader_fill (length buf + n) buf s = (res, buf', s')"
    by (cases "reader_fill (length buf + n) buf s")
  note d = reader_fill_drains [OF "1.prems"(2) f]
  show ?case
  proof (cases res)
    case None
    with n f have "reader_loop d buf s = reader_loop d buf' s'" by (simp add: reader_loop.simps [of d buf])
    then show ?thesis
      using "1.IH" [OF n refl f [symmetric, unfolded None] refl refl] "1.prems"(1) d by simp
  next
    case (Some e)
    then obtain k where "e = SeDecode (More k)" "s' = []" using d by auto
    with n f d Some show ?thesis by (auto simp: reader_loop.simps [of d buf])
  qed
qed

section \<open>Writing\<close>

lemma write_all_wire:
  "write_all bs accepts wire = (res, wire') \<Longrightarrow>
   \<exists>sent. wire' = wire @ sent \<and> prefix sent bs \<and> (res = Done (Inr ()) \<longrightarrow> sent = bs)"
proof (induction bs accepts wire rule: write_all.induct)
  case (4 b bs n s wire)
  then obtain sent where sent: "wire' = (wire @ take n (b # bs)) @ sent"
      "prefix sent (drop n (b # bs))" "res = Done (Inr ()) \<longrightarrow> sent = drop n (b # bs)"
    by auto
  then have "prefix (take n (b # bs) @ sent) (b # bs)"
    by (metis append_take_drop_id same_prefix_prefix)
  with sent show ?case
    by (intro exI [of _ "take n (b # bs) @ sent"]) (metis append.assoc append_take_drop_id)
qed auto

text \<open>A transport that keeps accepting bytes takes the whole message.\<close>

lemma write_all_completes:
  "list_all (\<lambda>a. case a of Inr n \<Rightarrow> 0 < n | Inl _ \<Rightarrow> False) accepts \<Longrightarrow> length bs \<le> length accepts \<Longrightarrow>
   write_all bs accepts wire = (Done (Inr ()), wire @ bs)"
proof (induction bs accepts wire rule: write_all.induct)
  case (4 b bs n s wire)
  then have n: "0 < n" by simp
  then have "length (drop n (b # bs)) \<le> length s" using "4.prems"(2) by simp
  moreover have "list_all (\<lambda>a. case a of Inr n \<Rightarrow> 0 < n | Inl _ \<Rightarrow> False) s"
    using "4.prems"(1) by simp
  ultimately have "write_all (drop n (b # bs)) s (wire @ take n (b # bs)) =
      (Done (Inr ()), (wire @ take n (b # bs)) @ drop n (b # bs))"
    by (rule "4.IH" [rotated])
  then show ?case by (simp del: drop_Cons take_Cons)
qed auto

section \<open>Types sent over a stream\<close>

text \<open>
  \<^verbatim>\<open>Writer::encode\<close> of one value after another, on a transport that takes every byte, and
  \<^verbatim>\<open>Reader::decode\<close> of one value after another.
\<close>

fun encode_all :: "('m \<Rightarrow> enc) \<Rightarrow> 'm list \<Rightarrow> encode_error + bytes" where
  "encode_all e [] = Inr []"
| "encode_all e (m # ms) =
     bindE (e m fresh_vec) (\<lambda>w. bindE (encode_all e ms) (\<lambda>bs. Inr (wr_bytes w @ bs)))"

fun decode_all :: "'m dec \<Rightarrow> nat \<Rightarrow> 'e reader \<Rightarrow> ('e session_error + 'm list) \<times> 'e reader" where
  "decode_all d 0 rd = (Inr [], rd)"
| "decode_all d (Suc n) rd =
     (case reader_decode d rd of
        (Inl e, rd) \<Rightarrow> (Inl e, rd)
      | (Inr m, rd) \<Rightarrow>
          (case decode_all d n rd of
             (Inl e, rd) \<Rightarrow> (Inl e, rd)
           | (Inr ms, rd) \<Rightarrow> (Inr (m # ms), rd)))"

locale wire_type =
  fixes e :: "'m \<Rightarrow> enc"
    and d :: "'m dec"
    and wf :: "'m \<Rightarrow> bool"
    and norm :: "'m \<Rightarrow> 'm"
  assumes dec: "decoder d"
    and cod: "wf m \<Longrightarrow> codec (e m) d (norm m)"
begin

lemma sent_is_received:
  assumes "list_all wf ms" and "encode_all e ms = Inr bs" and "clean rd" and "pending rd = bs @ rest"
  shows "\<exists>rd'. decode_all d (length ms) rd = (Inr (map norm ms), rd') \<and> clean rd' \<and> pending rd' = rest"
  using assms
proof (induction ms arbitrary: bs rd)
  case Nil
  then show ?case by auto
next
  case (Cons m ms)
  then obtain w bs' where w: "e m fresh_vec = Inr w" and bs': "encode_all e ms = Inr bs'"
      and bs: "bs = wr_bytes w @ bs'"
    by auto
  obtain p where "w = wput p fresh_vec" and p: "streams d p (norm m)"
    using codecE [OF cod w] Cons.prems(1) by auto
  then have "pending rd = p @ (bs' @ rest)"
    using Cons.prems(4) bs by (simp add: fresh_vec_def)
  with p Cons.prems(3) obtain rd1 where rd1: "reader_decode d rd = (Inr (norm m), rd1)" "clean rd1"
      "pending rd1 = bs' @ rest"
    by (rule reader_decode_reads)
  with Cons.IH [OF _ bs' rd1(2,3)] Cons.prems(1)
  show ?case by auto
qed

lemma never_panics: "d r \<noteq> Inl DecPanic"
  by (rule decoder_no_panic [OF dec])

lemma prefix_asks_for_more:
  assumes "wf m" and "e m w = Inr w'"
  shows "\<exists>bs. w' = wput bs w \<and> (\<forall>r. d (bs @ r) = Inr (norm m, r)) \<and>
    (\<forall>q. strict_prefix q bs \<longrightarrow> (\<exists>n. d q = Inl (More n) \<and> 0 < n \<and> length q + n \<le> length bs))"
proof -
  obtain bs where "w' = wput bs w" "streams d bs (norm m)"
    using codecE [OF cod [OF assms(1)] assms(2)] .
  then show ?thesis unfolding streams_def by blast
qed

end

interpretation msg: wire_type message_encode message_decode message_wf message_normal
  by unfold_locales (rule decoder_message, rule codec_message)

interpretation client: wire_type client_encode client_decode "\<lambda>_. True"
  "\<lambda>m. m\<lparr>cl_params := sort_key kvp_key (cl_params m)\<rparr>"
  by unfold_locales (rule decoder_client, rule codec_client)

interpretation server: wire_type server_encode server_decode "\<lambda>_. True"
  "\<lambda>m. m\<lparr>srv_params := sort_key kvp_key (srv_params m)\<rparr>"
  by unfold_locales (rule decoder_server, rule codec_server)

end
