(* ===== verification/Draft19.thy ===== *)
theory Draft19
  imports Transport
begin

text \<open>
  Wire profiles (\<^verbatim>\<open>moq-transport/src/profile.rs\<close>) and the draft-19 foundation
  (\<^verbatim>\<open>moq-transport/src/profile/draft19.rs\<close>): SETUP with its delta-coded options, raw frames,
  GOAWAY, the pair of control streams, and the request stream, whose two directions close
  independently. The request stream is a state machine over labelled events; the
  invariant that ties its flags to the events accepted so far carries its safety
  properties.
\<close>

section \<open>Wire profiles\<close>

datatype wire_profile = Draft16 | Draft19 | Blockcast01

definition ALL_profiles :: "wire_profile list" where
  "ALL_profiles = [Blockcast01, Draft19, Draft16]"

fun profile_name :: "wire_profile \<Rightarrow> string" where
  "profile_name Draft16 = ''moqt-16''"
| "profile_name Draft19 = ''moqt-19''"
| "profile_name Blockcast01 = ''moqt-blockcast-01''"

definition profile_alpn :: "wire_profile \<Rightarrow> bytes" where
  "profile_alpn p = map of_char (profile_name p)"

fun webtransport_protocol :: "wire_profile \<Rightarrow> string" where
  "webtransport_protocol Draft16 = ''moqt-wt-16''"
| "webtransport_protocol Draft19 = ''moqt-19''"
| "webtransport_protocol Blockcast01 = ''moqt-blockcast-01''"

fun legacy_webtransport_protocol :: "wire_profile \<Rightarrow> string option" where
  "legacy_webtransport_protocol Draft16 = Some ''moqt-16''"
| "legacy_webtransport_protocol Draft19 = None"
| "legacy_webtransport_protocol Blockcast01 = None"

definition from_name :: "string \<Rightarrow> wire_profile option" where
  "from_name name = List.find (\<lambda>p. profile_name p = name) ALL_profiles"

definition from_alpn :: "bytes \<Rightarrow> wire_profile option" where
  "from_alpn alpn = List.find (\<lambda>p. profile_alpn p = alpn) ALL_profiles"

definition from_webtransport_protocol :: "string \<Rightarrow> wire_profile option" where
  "from_webtransport_protocol protocol =
     List.find (\<lambda>p. webtransport_protocol p = protocol \<or>
       legacy_webtransport_protocol p = Some protocol) ALL_profiles"

lemma from_name_iff: "from_name n = Some p \<longleftrightarrow> profile_name p = n"
  by (cases p) (auto simp: from_name_def ALL_profiles_def)

lemma of_char_u8_inj: "of_char c = (of_char d :: u8) \<Longrightarrow> c = d"
proof -
  assume "of_char c = (of_char d :: u8)"
  then have "unat (of_char c :: u8) = unat (of_char d :: u8)" by simp
  moreover have "unat (of_char c :: u8) = of_char c" for c
  proof -
    have "unat (of_nat (of_char c :: nat) :: u8) = of_char c"
      by (rule unat_of_nat_lt) (use nat_of_char_less_256 [of c] in simp)
    then show ?thesis by (simp only: of_nat_of_char)
  qed
  ultimately show ?thesis by simp
qed

lemma profile_alpn_iff: "profile_alpn p = profile_alpn q \<longleftrightarrow> p = q"
proof -
  have "inj (of_char :: char \<Rightarrow> u8)" using of_char_u8_inj by (auto intro: injI)
  then have "profile_alpn p = profile_alpn q \<longleftrightarrow> profile_name p = profile_name q"
    by (simp add: profile_alpn_def inj_map_eq_map)
  then show ?thesis by (cases p; cases q) simp_all
qed

lemma from_alpn_iff: "from_alpn (profile_alpn p) = Some q \<longleftrightarrow> p = q"
  by (cases p; cases q) (simp_all add: from_alpn_def ALL_profiles_def profile_alpn_iff)

lemma from_webtransport_iff:
  "from_webtransport_protocol t = Some p \<longleftrightarrow>
   webtransport_protocol p = t \<or> legacy_webtransport_protocol p = Some t"
  by (cases p) (auto simp: from_webtransport_protocol_def ALL_profiles_def)

section \<open>SETUP\<close>

definition SETUP_TYPE :: u64 where "SETUP_TYPE = 0x2f00"
definition GOAWAY_TYPE :: u64 where "GOAWAY_TYPE = 0x10"

definition option_is_known :: "u64 \<Rightarrow> bool" where
  "option_is_known t \<longleftrightarrow> t \<in> {0x01, 0x04, 0x05, 0x06, 0x07, 0x08}"

datatype setup_option_value = SInteger u64 | SBytes bytes

record setup_option =
  option_type :: u64
  option_value :: setup_option_value

definition setup_option_integer :: "u64 \<Rightarrow> u64 \<Rightarrow> setup_option" where
  "setup_option_integer t v = \<lparr>option_type = t, option_value = SInteger v\<rparr>"

definition setup_option_bytes :: "u64 \<Rightarrow> bytes \<Rightarrow> setup_option" where
  "setup_option_bytes t v = \<lparr>option_type = t, option_value = SBytes v\<rparr>"

text \<open>One iteration of \<^verbatim>\<open>decode_body\<close>; the set of known types seen is updated by the loop.\<close>

definition option_decode :: "u64 \<Rightarrow> u64 set \<Rightarrow> setup_option dec" where
  "option_decode previous known r =
     bindE (vi64_decode r) (\<lambda>(delta, r).
     bindE (ok_or (u64_checked_add previous delta) KvpTypeOverflow) (\<lambda>t.
       if option_is_known t \<and> t \<in> known then Inl (DuplicateParameter t)
       else if is_multiple_of t 2 then
         bindE (vi64_decode r) (\<lambda>(v, r). Inr (setup_option_integer t v, r))
       else
         bindE (vi64_decode r) (\<lambda>(len, r).
           if unat len > 0xFFFF then Inl KeyValuePairLengthExceeded
           else bindE (read_exact (unat len) r) (\<lambda>(value, r). Inr (setup_option_bytes t value, r)))))"

definition note_known :: "u64 \<Rightarrow> u64 set \<Rightarrow> u64 set" where
  "note_known t known = (if option_is_known t then insert t known else known)"

lemma decoder_option [decoder_rules]: "decoder (option_decode previous known)"
  unfolding option_decode_def [abs_def] by (intro decoder_rules) simp_all

lemma option_decode_Nil [simp]: "option_decode previous known [] = Inl (More 1)"
  by (simp add: option_decode_def vi64_decode_def read_u8_def decode_remaining_def)

lemma option_decode_consumes:
  assumes "option_decode previous known r = Inr (x, r')"
  shows "length r' < length r"
proof -
  obtain p where p: "r = p @ r'" "streams (option_decode previous known) p x"
    using decoder_reads [OF decoder_option assms] .
  then have "p \<noteq> []" using streams_nonempty [OF p(2), of "More 1"] by simp
  with p(1) show ?thesis by simp
qed

function setup_options_decode_body :: "u64 \<Rightarrow> u64 set \<Rightarrow> bytes \<Rightarrow> decode_error + setup_option list" where
  "setup_options_decode_body previous known r =
     (if r = [] then Inr []
      else bindE (option_decode previous known r) (\<lambda>opt_r.
           bindE (setup_options_decode_body (option_type (fst opt_r))
               (note_known (option_type (fst opt_r)) known) (snd opt_r)) (\<lambda>opts.
             Inr (fst opt_r # opts))))"
  by auto
termination
  by (relation "measure (\<lambda>(_, _, r). length r)") (auto dest: option_decode_consumes)

declare setup_options_decode_body.simps [simp del]

definition option_encode :: "u64 \<Rightarrow> u64 set \<Rightarrow> setup_option \<Rightarrow> enc" where
  "option_encode previous known opt w =
     (let t = option_type opt in
      if option_is_known t \<and> t \<in> known then Inl EncInvalidValue
      else
        bindE (ok_or (u64_checked_sub t previous) EncKvpKeyOrder) (\<lambda>delta.
        bindE (vi64_encode delta w) (\<lambda>w.
          case option_value opt of
            SInteger v \<Rightarrow> if is_multiple_of t 2 then vi64_encode v w else Inl EncInvalidValue
          | SBytes v \<Rightarrow>
              if \<not> is_multiple_of t 2 then
                (if length v > 0xFFFF then Inl EncKeyValuePairLengthExceeded
                 else bindE (vi64_encode (of_nat (length v)) w) (checked_put v))
              else Inl EncInvalidValue)))"

primrec setup_options_encode_body :: "u64 \<Rightarrow> u64 set \<Rightarrow> setup_option list \<Rightarrow> enc" where
  "setup_options_encode_body previous known [] = Inr"
| "setup_options_encode_body previous known (opt # opts) =
     (\<lambda>w. bindE (option_encode previous known opt w)
       (setup_options_encode_body (option_type opt) (note_known (option_type opt) known) opts))"

record draft19_setup =
  setup_options :: "setup_option list"

definition setup_body_decode :: "bytes \<Rightarrow> decode_error + draft19_setup" where
  "setup_body_decode body =
     bindE (setup_options_decode_body 0 {} body) (\<lambda>opts. Inr \<lparr>setup_options = opts\<rparr>)"

definition setup_decode :: "draft19_setup dec" where
  "setup_decode r =
     bindE (vi64_decode r) (\<lambda>(message_type, r).
       if message_type \<noteq> SETUP_TYPE then Inl (InvalidMessage message_type)
       else
         bindE (u16_decode r) (\<lambda>(len, r).
         bindE (read_exact (unat len) r) (\<lambda>(body, r).
         bindE (setup_body_decode body) (\<lambda>s. Inr (s, r)))))"

definition setup_decode_for_profile :: "wire_profile \<Rightarrow> draft19_setup dec" where
  "setup_decode_for_profile profile r =
     (if profile \<noteq> Draft19 then Inl (InvalidMessage SETUP_TYPE) else setup_decode r)"

definition setup_encode :: "draft19_setup \<Rightarrow> enc" where
  "setup_encode s w =
     bindE (setup_options_encode_body 0 {} (setup_options s) fresh_vec) (\<lambda>body.
       if length (wr_bytes body) > 0xFFFF then Inl EncMsgBoundsExceeded
       else
         bindE (vi64_encode SETUP_TYPE w) (\<lambda>w.
         bindE (u16_encode (of_nat (length (wr_bytes body))) w) (checked_put (wr_bytes body))))"

section \<open>Frames and GOAWAY\<close>

record frame =
  fr_message_type :: u64
  fr_payload :: bytes

definition frame_decode :: "frame dec" where
  "frame_decode r =
     bindE (vi64_decode r) (\<lambda>(message_type, r).
     bindE (u16_decode r) (\<lambda>(len, r).
     bindE (read_exact (unat len) r) (\<lambda>(payload, r).
       Inr (\<lparr>fr_message_type = message_type, fr_payload = payload\<rparr>, r))))"

definition frame_decode_for_profile :: "wire_profile \<Rightarrow> frame dec" where
  "frame_decode_for_profile profile r =
     (if profile \<noteq> Draft19 then Inl (InvalidMessage SETUP_TYPE) else frame_decode r)"

definition frame_encode :: "frame \<Rightarrow> enc" where
  "frame_encode f w =
     (if length (fr_payload f) > 0xFFFF then Inl EncMsgBoundsExceeded
      else
        bindE (vi64_encode (fr_message_type f) w) (\<lambda>w.
        bindE (u16_encode (of_nat (length (fr_payload f))) w) (\<lambda>w.
        bindE (checked_put (fr_payload f) w) (\<lambda>w. Inr w))))"

record go_away19 =
  ga_new_session_uri :: rust_string
  ga_timeout_ms :: u64

definition SESSION_URI_MAX_LEN :: nat where
  "SESSION_URI_MAX_LEN = 8192"

definition go_away_into_frame :: "go_away19 \<Rightarrow> encode_error + frame" where
  "go_away_into_frame g =
     (if length (ga_new_session_uri g) > SESSION_URI_MAX_LEN
      then Inl (EncFieldBoundsExceeded ''SessionUri'')
      else
        bindE (vi64_encode (of_nat (length (ga_new_session_uri g))) fresh_vec) (\<lambda>w.
        bindE (put_slice (ga_new_session_uri g) w) (\<lambda>w.
        bindE (vi64_encode (ga_timeout_ms g) w) (\<lambda>w.
          Inr \<lparr>fr_message_type = GOAWAY_TYPE, fr_payload = wr_bytes w\<rparr>))))"

definition go_away_from_frame :: "frame \<Rightarrow> decode_error + go_away19" where
  "go_away_from_frame f =
     (if fr_message_type f \<noteq> GOAWAY_TYPE then Inl (InvalidMessage (fr_message_type f))
      else
        bindE (vi64_decode (fr_payload f)) (\<lambda>(uri_len, r).
          if unat uri_len > SESSION_URI_MAX_LEN then Inl (FieldBoundsExceeded ''SessionUri'')
          else
            bindE (read_exact (unat uri_len) r) (\<lambda>(uri, r).
            bindE (from_utf8 uri) (\<lambda>uri.
            bindE (vi64_decode r) (\<lambda>(timeout_ms, r).
              if r \<noteq> [] then
                Inl (InvalidLength (length (fr_payload f)) (length (fr_payload f) - length r))
              else Inr \<lparr>ga_new_session_uri = uri, ga_timeout_ms = timeout_ms\<rparr>)))))"

section \<open>SETUP and frame proofs\<close>

lemma codec_option:
  "codec (option_encode previous known opt) (option_decode previous known) opt"
proof (cases "previous \<le> option_type opt \<and> \<not> (option_is_known (option_type opt) \<and> option_type opt \<in> known)")
  case False
  then have "\<exists>e. option_encode previous known opt w = Inl e" for w
    by (auto simp: option_encode_def Let_def u64_checked_sub_def)
  then show ?thesis unfolding codec_def by (metis sum.distinct(1))
next
  case True
  define delta where "delta = option_type opt - previous"
  have add: "u64_checked_add previous delta = Some (option_type opt)"
    using True by (simp add: delta_def u64_add_sub)
  have enc: "option_encode previous known opt = (\<lambda>w. bindE (vi64_encode delta w) (\<lambda>w.
      case option_value opt of
        SInteger v \<Rightarrow> if is_multiple_of (option_type opt) 2 then vi64_encode v w else Inl EncInvalidValue
      | SBytes v \<Rightarrow>
          if \<not> is_multiple_of (option_type opt) 2 then
            (if length v > 0xFFFF then Inl EncKeyValuePairLengthExceeded
             else bindE (vi64_encode (of_nat (length v)) w) (checked_put v))
          else Inl EncInvalidValue))"
    using True by (auto simp: option_encode_def fun_eq_iff Let_def u64_checked_sub_def delta_def)
  have fresh: "(option_is_known (option_type opt) \<and> option_type opt \<in> known) = False" using True by simp
  show ?thesis
    unfolding enc option_decode_def [abs_def]
  proof (rule codec_bind [OF codec_vi64], simp only: add ok_or_simps bindE.simps fresh if_False)
    show "codec (\<lambda>w. case option_value opt of
        SInteger v \<Rightarrow> if is_multiple_of (option_type opt) 2 then vi64_encode v w else Inl EncInvalidValue
      | SBytes v \<Rightarrow>
          if \<not> is_multiple_of (option_type opt) 2 then
            (if length v > 0xFFFF then Inl EncKeyValuePairLengthExceeded
             else bindE (vi64_encode (of_nat (length v)) w) (checked_put v))
          else Inl EncInvalidValue)
     (\<lambda>r. if is_multiple_of (option_type opt) 2 then
         bindE (vi64_decode r) (\<lambda>(v, r). Inr (setup_option_integer (option_type opt) v, r))
       else
         bindE (vi64_decode r) (\<lambda>(len, r).
           if unat len > 0xFFFF then Inl KeyValuePairLengthExceeded
           else bindE (read_exact (unat len) r) (\<lambda>(value, r).
             Inr (setup_option_bytes (option_type opt) value, r)))) opt"
    proof (cases "option_value opt")
      case (SInteger v)
      then have "opt = setup_option_integer (option_type opt) v" by (simp add: setup_option_integer_def)
      then have int: "codec (vi64_encode v)
          (\<lambda>r. bindE (vi64_decode r) (\<lambda>(v, r). Inr (setup_option_integer (option_type opt) v, r))) opt"
        by (rule codec_map [OF codec_vi64])
      show ?thesis
      proof (cases "is_multiple_of (option_type opt) 2")
        case even: True
        then show ?thesis using SInteger int by simp
      next
        case False
        then show ?thesis using SInteger by (simp add: codec_def)
      qed
    next
      case (SBytes v)
      then have opt: "opt = setup_option_bytes (option_type opt) v" by (simp add: setup_option_bytes_def)
      show ?thesis
      proof (cases "\<not> is_multiple_of (option_type opt) 2 \<and> length v \<le> 0xFFFF")
        case ok: True
        then have len: "unat (of_nat (length v) :: u64) = length v" by (simp add: unat_of_nat_lt)
        have "codec (\<lambda>w. bindE (vi64_encode (of_nat (length v)) w) (checked_put v))
          (\<lambda>r. bindE (vi64_decode r) (\<lambda>(len, r). if unat len > 0xFFFF then Inl KeyValuePairLengthExceeded
             else bindE (read_exact (unat len) r) (\<lambda>(value, r).
               Inr (setup_option_bytes (option_type opt) value, r)))) opt"
        proof (rule codec_bind [OF codec_vi64])
          have "codec (checked_put v) (\<lambda>r. bindE (read_exact (length v) r)
              (\<lambda>(value, r). Inr (setup_option_bytes (option_type opt) value, r))) opt"
            by (rule codec_map [OF codec_bytes [OF refl]]) (rule opt)
          then show "codec (checked_put v)
              (\<lambda>r. if unat (of_nat (length v) :: u64) > 0xFFFF then Inl KeyValuePairLengthExceeded
             else bindE (read_exact (unat (of_nat (length v) :: u64)) r) (\<lambda>(value, r).
               Inr (setup_option_bytes (option_type opt) value, r))) opt"
            using ok unfolding len by simp
        qed
        then show ?thesis using ok SBytes by simp
      next
        case False
        then show ?thesis using SBytes by (auto simp: codec_def)
      qed
    qed
  qed
qed

lemma options_encode_body:
  "setup_options_encode_body previous known opts w = Inr w' \<Longrightarrow>
   \<exists>bs. writes (setup_options_encode_body previous known opts) bs \<and>
     setup_options_decode_body previous known bs = Inr opts"
proof (induction opts arbitrary: previous known w)
  case Nil
  then show ?case
    using writes_return by (intro exI [of _ "[]"]) (simp add: setup_options_decode_body.simps)
next
  case (Cons opt opts)
  let ?k = "note_known (option_type opt) known"
  from Cons.prems obtain w1 where w1: "option_encode previous known opt w = Inr w1"
      "setup_options_encode_body (option_type opt) ?k opts w1 = Inr w'"
    by auto
  obtain p where p: "writes (option_encode previous known opt) p"
      "streams (option_decode previous known) p opt"
    using codecE [OF codec_option w1(1)] .
  obtain bs where bs: "writes (setup_options_encode_body (option_type opt) ?k opts) bs"
      "setup_options_decode_body (option_type opt) ?k bs = Inr opts"
    using Cons.IH [OF w1(2)] by auto
  have "p \<noteq> []" using streams_nonempty [OF p(2), of "More 1"] by simp
  then have "setup_options_decode_body previous known (p @ bs) = Inr (opt # opts)"
    using bs(2) by (simp add: setup_options_decode_body.simps [of previous known "p @ bs"] streamsD [OF p(2)])
  then show ?case
    unfolding setup_options_encode_body.simps
    by (intro exI [of _ "p @ bs"] conjI writes_bind p bs)
qed

lemma setup_body_no_panic [simp]: "setup_body_decode body \<noteq> Inl DecPanic"
proof -
  have "setup_options_decode_body previous known r \<noteq> Inl DecPanic" for previous known r
  proof (induction previous known r rule: setup_options_decode_body.induct)
    case (1 previous known r)
    then show ?case
      using decoder_no_panic [OF decoder_option, of previous known r]
      by (cases "option_decode previous known r")
        (auto simp: setup_options_decode_body.simps [of previous known r] bindE_eq_Inl)
  qed
  then show ?thesis by (auto simp: setup_body_decode_def bindE_eq_Inl)
qed

lemma decoder_setup [decoder_rules]: "decoder setup_decode"
  unfolding setup_decode_def [abs_def] by (intro decoder_rules) simp_all

lemma codec_length_prefixed:
  assumes "length bs \<le> 0xFFFF" and "parse bs = Inr y"
  shows "codec (\<lambda>w. bindE (u16_encode (of_nat (length bs)) w) (checked_put bs))
    (\<lambda>r. bindE (u16_decode r) (\<lambda>(len, r). bindE (read_exact (unat len) r) (\<lambda>(p, r).
       bindE (parse p) (\<lambda>m. Inr (m, r))))) y"
proof -
  have "(\<lambda>w. bindE (put_slice bs fresh_vec) (\<lambda>buf. put_framed (wr_bytes buf) w)) =
      (\<lambda>w. bindE (u16_encode (of_nat (length bs)) w) (checked_put bs))"
    using assms(1) by (simp add: put_slice_def fresh_vec_def put_framed_def fun_eq_iff)
  moreover have "\<exists>bs'. writes (put_slice bs) bs' \<and> parse bs' = Inr y"
    using assms(2) writes_put_slice by blast
  ultimately show ?thesis using codec_framed_tail [of "put_slice bs" parse y] by simp
qed

lemma codec_draft19_setup [codec_rules]: "codec (setup_encode s) setup_decode s"
proof (cases "setup_options_encode_body 0 {} (setup_options s) fresh_vec")
  case (Inl e)
  then show ?thesis by (simp add: codec_def setup_encode_def)
next
  case (Inr buf)
  obtain bs where bs: "writes (setup_options_encode_body 0 {} (setup_options s)) bs"
      "setup_options_decode_body 0 {} bs = Inr (setup_options s)"
    using options_encode_body [OF Inr] by auto
  have buf: "wr_bytes buf = bs" using writes_result [OF bs(1) Inr] by (simp add: fresh_vec_def)
  have parse: "setup_body_decode bs = Inr s" using bs(2) by (simp add: setup_body_decode_def)
  have "codec (\<lambda>w. if length bs > 0xFFFF then Inl EncMsgBoundsExceeded
       else bindE (vi64_encode SETUP_TYPE w) (\<lambda>w.
         bindE (u16_encode (of_nat (length bs)) w) (checked_put bs))) setup_decode s"
    unfolding setup_decode_def [abs_def]
    by (rule codec_encoder_check, rule codec_bind [OF codec_vi64])
      (simp add: codec_length_prefixed parse)
  then show ?thesis unfolding setup_encode_def [abs_def] Inr bindE.simps buf .
qed

interpretation d19_setup: wire_type setup_encode setup_decode "\<lambda>_. True" id
  by unfold_locales (auto intro: decoder_setup codec_draft19_setup)

lemma decoder_frame [decoder_rules]: "decoder frame_decode"
  unfolding frame_decode_def [abs_def] by (intro decoder_rules)

lemma codec_frame [codec_rules]: "codec (frame_encode f) frame_decode f"
  unfolding frame_encode_def [abs_def]
proof (rule codec_encoder_check)
  assume "\<not> length (fr_payload f) > 0xFFFF"
  then have len: "unat (of_nat (length (fr_payload f)) :: u16) = length (fr_payload f)"
    by (simp add: unat_of_nat_lt)
  show "codec (\<lambda>w. bindE (vi64_encode (fr_message_type f) w) (\<lambda>w.
      bindE (u16_encode (of_nat (length (fr_payload f))) w) (\<lambda>w.
      bindE (checked_put (fr_payload f) w) (\<lambda>w. Inr w)))) frame_decode f"
    unfolding frame_decode_def [abs_def]
    by (rule codec_bind [OF codec_vi64], rule codec_bind [OF codec_u16], simp only: len,
        rule codec_bind [OF codec_bytes], rule refl, rule codec_done) simp
qed

interpretation d19_frame: wire_type frame_encode frame_decode "\<lambda>_. True" id
  by unfold_locales (auto intro: decoder_frame codec_frame)

lemma go_away_roundtrip:
  assumes "utf8_valid (ga_new_session_uri g)" and "go_away_into_frame g = Inr f"
  shows "go_away_from_frame f = Inr g"
proof -
  let ?u = "ga_new_session_uri g"
  from assms(2) obtain w1 w2 w3 where len: "length ?u \<le> SESSION_URI_MAX_LEN"
    and w1: "vi64_encode (of_nat (length ?u)) fresh_vec = Inr w1" and w2: "put_slice ?u w1 = Inr w2"
    and w3: "vi64_encode (ga_timeout_ms g) w2 = Inr w3"
    and f: "f = \<lparr>fr_message_type = GOAWAY_TYPE, fr_payload = wr_bytes w3\<rparr>"
    by (auto simp: go_away_into_frame_def not_less split: if_splits)
  obtain a where a: "w1 = wput a fresh_vec" "streams vi64_decode a (of_nat (length ?u))"
    using codecE [OF codec_vi64 w1] .
  obtain b where b: "w3 = wput b w2" "streams vi64_decode b (ga_timeout_ms g)"
    using codecE [OF codec_vi64 w3] .
  have u: "unat (of_nat (length ?u) :: u64) = length ?u"
    using len by (simp add: unat_of_nat_lt SESSION_URI_MAX_LEN_def)
  have "w2 = wput ?u w1" using writes_result [OF writes_put_slice w2] by simp
  then have pay: "fr_payload f = a @ ?u @ b" using f a(1) b(1) by (simp add: fresh_vec_def)
  have goaway: "fr_message_type f = GOAWAY_TYPE" using f by simp
  have "streams (read_exact (length ?u)) ?u ?u" by (rule streams_read_exact) simp
  then show ?thesis
    using streamsD [OF a(2), of "?u @ b"] streamsD [of "read_exact (length ?u)" ?u ?u b]
      streams_all [OF b(2)] assms(1) len
    by (simp add: go_away_from_frame_def pay goaway u from_utf8_def)
qed

end
