(* ===== verification/Wire_Properties.thy ===== *)
theory Wire_Properties
  imports Draft19
begin

text \<open>
  What the control-plane wire format guarantees: messages round-trip and are delimited,
  arrive whole over any cutting of the byte stream, decoders never panic, names and
  parameters keep their meaning, and the two places where a message the sender accepts
  does not come through.
\<close>

lemmas wire_eval = u64_encode_eq usize_encode_eq varint_bytes_def checked_put_def encode_remaining_def
  put_slice_def fresh_vec_def put_framed_def u16_encode_def

section \<open>Messages\<close>

text \<open>
  C1. Control messages round-trip: whenever \<^verbatim>\<open>Message::encode\<close> succeeds on a well-formed
  message, the bytes it appends are decoded by \<^verbatim>\<open>Message::decode\<close> to that message (with its
  parameters in key order) in front of any further bytes, and on every proper prefix of
  them the decoder asks for more bytes, never for more than the frame has.
\<close>

theorem message_round_trip:
  assumes "message_wf m" and "message_encode m w = Inr w'"
  shows "\<exists>bs. w' = wput bs w \<and> (\<forall>r. message_decode (bs @ r) = Inr (message_normal m, r)) \<and>
    (\<forall>q. strict_prefix q bs \<longrightarrow>
      (\<exists>n. message_decode q = Inl (More n) \<and> 0 < n \<and> length q + n \<le> length bs))"
  using assms by (rule msg.prefix_asks_for_more)

definition sample_unsubscribe :: message where
  "sample_unsubscribe = Unsubscribe \<lparr>unsub_id = 7\<rparr>"

theorem message_round_trip_witness:
  "\<exists>bs. \<lparr>wr_bytes = [0xa, 0, 1, 7], wr_room = 6\<rparr> = wput bs \<lparr>wr_bytes = [], wr_room = 10\<rparr> \<and>
    (\<forall>r. message_decode (bs @ r) = Inr (sample_unsubscribe, r)) \<and>
    (\<forall>q. strict_prefix q bs \<longrightarrow>
      (\<exists>n. message_decode q = Inl (More n) \<and> 0 < n \<and> length q + n \<le> length bs))"
proof -
  have "message_encode sample_unsubscribe \<lparr>wr_bytes = [], wr_room = 10\<rparr> =
      Inr \<lparr>wr_bytes = [0xa, 0, 1, 7], wr_room = 6\<rparr>"
    by (simp add: sample_unsubscribe_def message_encode_def unsubscribe_encode_def wire_eval)
  from message_round_trip [OF _ this] show ?thesis by (simp add: sample_unsubscribe_def)
qed

text \<open>
  C2. A sequence of well-formed messages written one after another is received as that
  sequence by \<^verbatim>\<open>Reader::decode\<close>, however the transport cuts the bytes into pieces, and the
  reader is left exactly after the last of them.
\<close>

theorem messages_over_any_chunking:
  assumes "list_all message_wf ms" and "encode_all message_encode ms = Inr bs"
    and "clean rd" and "pending rd = bs @ rest"
  shows "\<exists>rd'. decode_all message_decode (length ms) rd = (Inr (map message_normal ms), rd') \<and>
    clean rd' \<and> pending rd' = rest"
  using assms by (rule msg.sent_is_received)

definition chopped_reader :: "unit reader" where
  "chopped_reader = \<lparr>rd_buffer = [0xa, 0], rd_stream = [Inr [1], Inr [], Inr [7, 0xa, 0, 1], Inr [7, 9]]\<rparr>"

theorem messages_over_any_chunking_witness:
  "\<exists>rd'. decode_all message_decode 2 chopped_reader = (Inr [sample_unsubscribe, sample_unsubscribe], rd') \<and>
    clean rd' \<and> pending rd' = [9]"
proof -
  have "encode_all message_encode [sample_unsubscribe, sample_unsubscribe] = Inr [0xa, 0, 1, 7, 0xa, 0, 1, 7]"
    by (simp add: sample_unsubscribe_def message_encode_def unsubscribe_encode_def wire_eval)
  moreover have "pending chopped_reader = [0xa, 0, 1, 7, 0xa, 0, 1, 7] @ [9]" "clean chopped_reader"
    by (simp_all add: chopped_reader_def pending_def clean_def)
  ultimately show ?thesis
    using messages_over_any_chunking [of "[sample_unsubscribe, sample_unsubscribe]" _ chopped_reader "[9]"]
    by (simp add: sample_unsubscribe_def numeral_2_eq_2)
qed

lemma go_away_from_frame_no_panic: "go_away_from_frame f \<noteq> Inl DecPanic"
  using decoder_no_panic [OF decoder_vi64] decoder_no_panic [OF decoder_read_exact]
  by (auto simp: go_away_from_frame_def bindE_eq_Inl from_utf8_def split: if_splits)

text \<open>
  C5. No control-plane decoder panics, whatever bytes arrive: \<^verbatim>\<open>copy_to_bytes\<close> and the other
  reads that would panic on a short buffer are always guarded. This holds of the draft-16
  messages and set-up (\<^verbatim>\<open>Message\<close>, \<^verbatim>\<open>Client\<close>, \<^verbatim>\<open>Server\<close>, \<^verbatim>\<open>Versions\<close>) and of the draft-19
  ones (\<^verbatim>\<open>Setup\<close>, \<^verbatim>\<open>Frame\<close>, under any wire profile, and \<^verbatim>\<open>GoAway\<close> from any frame).
\<close>

theorem control_decoders_never_panic:
  "message_decode r \<noteq> Inl DecPanic \<and> client_decode r \<noteq> Inl DecPanic \<and>
   server_decode r \<noteq> Inl DecPanic \<and> versions_decode r \<noteq> Inl DecPanic \<and>
   setup_decode r \<noteq> Inl DecPanic \<and> setup_decode_for_profile profile r \<noteq> Inl DecPanic \<and>
   frame_decode r \<noteq> Inl DecPanic \<and> frame_decode_for_profile profile r \<noteq> Inl DecPanic \<and>
   go_away_from_frame f \<noteq> Inl DecPanic"
  by (simp add: msg.never_panics client.never_panics server.never_panics decoder_no_panic [OF decoder_versions]
      d19_setup.never_panics d19_frame.never_panics setup_decode_for_profile_def frame_decode_for_profile_def
      go_away_from_frame_no_panic)

text \<open>
  What \<^verbatim>\<open>Message::decode\<close> accepts it has read from a prefix of its input alone: the same
  prefix gives the same message in front of any other bytes, and every shorter prefix
  only asks for more.
\<close>

theorem message_decode_is_incremental:
  assumes "message_decode r = Inr (m, r')"
  shows "\<exists>p. r = p @ r' \<and> (\<forall>r''. message_decode (p @ r'') = Inr (m, r'')) \<and>
    (\<forall>q. strict_prefix q p \<longrightarrow> (\<exists>n. message_decode q = Inl (More n) \<and> 0 < n \<and> length q + n \<le> length p))"
proof -
  from decoder_message assms obtain p where "r = p @ r'" "streams message_decode p m"
    unfolding decoder_def by blast
  then show ?thesis unfolding streams_def by blast
qed

theorem message_decode_is_incremental_witness:
  "\<exists>p. [0xa, 0, 1, 7, 9] = p @ [9] \<and> (\<forall>r''. message_decode (p @ r'') = Inr (sample_unsubscribe, r'')) \<and>
    (\<forall>q. strict_prefix q p \<longrightarrow> (\<exists>n. message_decode q = Inl (More n) \<and> 0 < n \<and> length q + n \<le> length p))"
proof (rule message_decode_is_incremental)
  show "message_decode [0xa, 0, 1, 7, 9] = Inr (sample_unsubscribe, [9])" by code_simp
qed

text \<open>
  The messages whose struct ends by itself; the others end in track extensions that take
  whatever the payload has left.
\<close>

fun self_delimited :: "message \<Rightarrow> bool" where
  "self_delimited (SubscribeOk _) = False"
| "self_delimited (Publish _) = False"
| "self_delimited (FetchOk _) = False"
| "self_delimited (Unknown _ _) = False"
| "self_delimited _ = True"

lemma truncated_variant:
  assumes "codec body d x" and "body fresh_vec = Inr w" and "strict_prefix p (wr_bytes w)"
  shows "\<exists>n. decode_variant t C d p = Inl (More n)"
proof -
  obtain bs where "w = wput bs fresh_vec" "streams d bs x" by (rule codecE [OF assms(1,2)])
  with assms(3) show ?thesis by (fastforce simp: streams_def decode_variant_def wput_def fresh_vec_def)
qed

lemmas truncated_variants =
  codec_request_update [THEN truncated_variant]
  codec_request_error [THEN truncated_variant]
  codec_request_ok [THEN truncated_variant]
  codec_subscribe [THEN truncated_variant]
  codec_unsubscribe [THEN truncated_variant]
  codec_publish_namespace [THEN truncated_variant]
  codec_namespace_msg [THEN truncated_variant]
  codec_publish_namespace_done [THEN truncated_variant]
  codec_namespace_done [THEN truncated_variant]
  codec_publish_namespace_cancel [THEN truncated_variant]
  codec_track_status [THEN truncated_variant]
  codec_publish_done [THEN truncated_variant]
  codec_publish_ok [THEN truncated_variant]
  codec_fetch [THEN truncated_variant]
  codec_fetch_cancel [THEN truncated_variant]
  codec_subscribe_namespace [THEN truncated_variant]
  codec_go_away [THEN truncated_variant]
  codec_max_request_id [THEN truncated_variant]
  codec_requests_blocked [THEN truncated_variant]

lemma truncated_payload:
  assumes "message_wf m" and "self_delimited m" and "message_body m fresh_vec = Inr w" and "strict_prefix p (wr_bytes w)"
  shows "\<exists>n. decode_payload (message_id m) p = Inl (More n)"
  using assms
  by (cases m) (auto simp: decode_payload_def intro: truncated_variants)

text \<open>The envelope alone: type, length and as many bytes.\<close>

definition envelope_decode :: "(u64 \<times> bytes) dec" where
  "envelope_decode r =
     bindE (u64_decode r) (\<lambda>(t, r).
     bindE (u16_decode r) (\<lambda>(len, r).
     bindE (read_exact (unat len) r) (\<lambda>(payload, r). Inr ((t, payload), r))))"

lemma message_decode_envelope:
  "message_decode r = bindE (envelope_decode r) (\<lambda>((t, payload), r). bindE (decode_payload t payload) (\<lambda>msg. Inr (msg, r)))"
  by (simp add: message_decode_def envelope_decode_def bindE_assoc case_prod_beta')

lemma codec_envelope: "codec (message_encode (Unknown t p)) envelope_decode (t, p)"
proof -
  have "codec (\<lambda>w. bindE (u64_encode t w) (put_framed p)) envelope_decode (t, p)"
    unfolding envelope_decode_def [abs_def] put_framed_def [abs_def]
  proof (rule codec_bind [OF codec_u64], rule codec_encoder_check)
    assume "\<not> length p > 0xFFFF"
    then have len: "unat (of_nat (length p) :: u16) = length p" by (simp add: unat_of_nat_lt)
    have "codec (\<lambda>w. bindE (u16_encode (of_nat (length p)) w) (\<lambda>w. bindE (checked_put p w) Inr))
        (\<lambda>r. bindE (u16_decode r) (\<lambda>(len, r). bindE (read_exact (unat len) r) (\<lambda>(payload, r). Inr ((t, payload), r)))) (t, p)"
      by (rule codec_bind [OF codec_u16], simp only: len, rule codec_bind [OF codec_bytes], rule refl, rule codec_return)
    then show "codec (\<lambda>w. bindE (u16_encode (of_nat (length p)) w) (checked_put p))
        (\<lambda>r. bindE (u16_decode r) (\<lambda>(len, r). bindE (read_exact (unat len) r) (\<lambda>(payload, r). Inr ((t, payload), r)))) (t, p)"
      by simp
  qed
  then show ?thesis by (simp add: message_encode_def [abs_def])
qed

lemma short_payload_starves:
  assumes "message_encode (Unknown t p) fresh_vec = Inr w" and "decode_payload t p = Inl (More k)"
    and "prefix q (wr_bytes w @ rest)"
  shows "\<exists>n. message_decode q = Inl (More n)"
proof -
  obtain bs where bs: "w = wput bs fresh_vec" "streams envelope_decode bs (t, p)" by (rule codecE [OF codec_envelope assms(1)])
  then have w: "wr_bytes w = bs" by (simp add: wput_def fresh_vec_def)
  consider r where "q = bs @ r" | "strict_prefix q bs"
    using assms(3) by (auto simp: w prefix_append strict_prefix_def)
  then show ?thesis
  proof cases
    case 1
    then show ?thesis using streamsD [OF bs(2)] assms(2) by (simp add: message_decode_envelope)
  next
    case 2
    with bs(2) obtain n where "envelope_decode q = Inl (More n)" unfolding streams_def by blast
    then show ?thesis by (simp add: message_decode_envelope)
  qed
qed

text \<open>
  C34. A frame whose payload is too short for its message never comes through: whenever the
  payload's decoder runs out of bytes, \<^verbatim>\<open>Message::decode\<close> asks for more although the frame
  is complete, so \<^verbatim>\<open>Reader::decode\<close> keeps reading, whatever follows and however it is cut,
  and ends with an error only when the stream does, with everything read. For every message
  that does not end in track extensions each proper prefix of its payload is such a payload.
\<close>

theorem truncated_frame_never_decodes:
  assumes "message_encode (Unknown t p) fresh_vec = Inr w" and "decode_payload t p = Inl (More k)"
    and "clean rd" and "pending rd = wr_bytes w @ rest"
  shows "(\<exists>n. reader_decode message_decode rd =
      (Inl (SeDecode (More n)), \<lparr>rd_buffer = wr_bytes w @ rest, rd_stream = []\<rparr>)) \<and>
    (\<forall>m u q. message_wf m \<and> self_delimited m \<and> message_body m fresh_vec = Inr u \<and> strict_prefix q (wr_bytes u) \<longrightarrow>
      (\<exists>n. decode_payload (message_id m) q = Inl (More n)))"
proof -
  have "\<exists>n. reader_loop message_decode (rd_buffer rd) (rd_stream rd) =
      (Inl (SeDecode (More n)), rd_buffer rd @ concat (map projr (rd_stream rd)), [])"
    using assms short_payload_starves [OF assms(1,2)] by (intro reader_loop_starves) (auto simp: pending_def clean_def)
  with assms have "\<exists>n. reader_decode message_decode rd =
      (Inl (SeDecode (More n)), \<lparr>rd_buffer = wr_bytes w @ rest, rd_stream = []\<rparr>)"
    by (auto simp: reader_decode_def pending_def clean_def)
  then show ?thesis using truncated_payload by blast
qed

text \<open>An UNSUBSCRIBE frame with an empty payload, in front of a good one.\<close>

theorem truncated_frame_never_decodes_witness:
  "\<exists>n. reader_decode message_decode \<lparr>rd_buffer = [], rd_stream = [Inr [0xa, 0] :: unit + bytes, Inr [0, 0xa, 0, 1, 7]]\<rparr> =
    (Inl (SeDecode (More n)), \<lparr>rd_buffer = [0xa, 0, 0, 0xa, 0, 1, 7], rd_stream = []\<rparr>)"
proof -
  have f: "message_encode (Unknown 0xa []) fresh_vec = Inr \<lparr>wr_bytes = [0xa, 0, 0], wr_room = 2 ^ 63 - 4\<rparr>"
    by (simp add: message_encode_def wire_eval)
  have p: "decode_payload 0xa [] = Inl (More 1)" by code_simp
  show ?thesis
    using truncated_frame_never_decodes [OF f p,
      of "\<lparr>rd_buffer = [], rd_stream = [Inr [0xa, 0] :: unit + bytes, Inr [0, 0xa, 0, 1, 7]]\<rparr>" "[0xa, 0, 1, 7]"]
    by (simp add: clean_def pending_def)
qed

text \<open>
  C35. \<^verbatim>\<open>Subscribe::encode\<close> bounds the namespace and the track name separately but not their sum,
  which \<^verbatim>\<open>Subscribe::decode\<close> bounds by 4096: a subscription whose full track name is too long
  is encoded without an error into bytes that every receiver rejects.
\<close>

theorem overlong_name_is_encoded_but_rejected:
  assumes "MAX_FULL_TRACK_NAME_LEN < full_track_name_len (sub_track_namespace m) (sub_track_name m)"
    and "subscribe_encode m w = Inr w'"
  shows "\<exists>bs. w' = wput bs w \<and> (\<forall>r. subscribe_decode (bs @ r) = Inl TrackNameTooLong)"
proof -
  from assms(2) obtain w1 w2 w3 where e: "u64_encode (sub_id m) w = Inr w1"
      "track_namespace_encode (sub_track_namespace m) w1 = Inr w2"
      "track_name_encode (sub_track_name m) w2 = Inr w3" "kvps_encode (sub_params m) w3 = Inr w'"
    by (auto simp: subscribe_encode_def)
  obtain b1 where b1: "w1 = wput b1 w" "streams u64_decode b1 (sub_id m)" by (rule codecE [OF codec_u64 e(1)])
  obtain b2 where b2: "w2 = wput b2 w1" "streams track_namespace_decode b2 (sub_track_namespace m)"
    by (rule codecE [OF codec_track_namespace e(2)])
  obtain b3 where b3: "w3 = wput b3 w2" "streams track_name_decode b3 (sub_track_name m)"
    by (rule codecE [OF codec_track_name e(3)])
  obtain b4 where b4: "w' = wput b4 w3" by (rule codecE [OF codec_kvps e(4)])
  have "subscribe_decode ((b1 @ b2 @ b3 @ b4) @ r) = Inl TrackNameTooLong" for r
    using assms(1) streamsD [OF b1(2)] streamsD [OF b2(2)] streamsD [OF b3(2)]
    by (simp add: subscribe_decode_def validate_full_track_name_def)
  moreover have "w' = wput (b1 @ b2 @ b3 @ b4) w" by (simp add: b1 b2 b3 b4 wput_append)
  ultimately show ?thesis by blast
qed

definition long_name :: track_name where
  "long_name = replicate 4096 0x61"

definition overlong_subscribe :: subscribe where
  "overlong_subscribe = \<lparr>sub_id = 0, sub_track_namespace = [[0x61]], sub_track_name = long_name, sub_params = []\<rparr>"

lemma length_long_name [simp]: "length long_name = 4096"
  unfolding long_name_def by (rule length_replicate)

theorem overlong_name_is_encoded_but_rejected_witness:
  "\<exists>w' bs. subscribe_encode overlong_subscribe \<lparr>wr_bytes = [], wr_room = 5000\<rparr> = Inr w' \<and>
     w' = wput bs \<lparr>wr_bytes = [], wr_room = 5000\<rparr> \<and> (\<forall>r. subscribe_decode (bs @ r) = Inl TrackNameTooLong)"
proof -
  have "\<exists>w'. subscribe_encode overlong_subscribe \<lparr>wr_bytes = [], wr_room = 5000\<rparr> = Inr w'"
    by (simp add: subscribe_encode_def overlong_subscribe_def track_namespace_encode_def namespace_byte_len_def
        namespace_fields_byte_len_def MAX_FULL_TRACK_NAME_LEN_def MAX_FIELDS_def encode_namespace_fields_def
        namespace_field_encode_def tuple_field_encode_def MAX_VALUE_SIZE_def track_name_encode_def kvps_encode_def wire_eval)
  then show ?thesis
    using overlong_name_is_encoded_but_rejected [of overlong_subscribe]
    by (fastforce simp: overlong_subscribe_def full_track_name_len_def namespace_byte_len_def
        namespace_fields_byte_len_def MAX_FULL_TRACK_NAME_LEN_def)
qed

section \<open>Parameters\<close>

text \<open>
  \<^verbatim>\<open>KeyValuePairs\<close> round-trip: what \<^verbatim>\<open>encode\<close> writes is decoded to the same pairs in key
  order, pairs of one key in the order they were given, and every lookup is unchanged.
\<close>

theorem parameters_round_trip:
  assumes "kvps_encode ks w = Inr w'"
  shows "\<exists>bs ks'. w' = wput bs w \<and> (\<forall>r. kvps_decode (bs @ r) = Inr (ks', r)) \<and>
    sorted (map kvp_key ks') \<and> (\<forall>k. filter (\<lambda>p. kvp_key p = k) ks' = filter (\<lambda>p. kvp_key p = k) ks) \<and>
    (\<forall>k. kvps_get ks' k = kvps_get ks k)"
proof -
  obtain bs where "w' = wput bs w" "streams kvps_decode bs (sort_key kvp_key ks)"
    by (rule codecE [OF codec_kvps assms])
  then show ?thesis
    by (intro exI [of _ bs] exI [of _ "sort_key kvp_key ks"])
      (simp add: streamsD kvps_get_sort sort_key_stable)
qed

theorem parameters_round_trip_witness:
  "\<exists>bs ks'. \<lparr>wr_bytes = [2, 2, 5, 2, 6], wr_room = 4\<rparr> = wput bs \<lparr>wr_bytes = [], wr_room = 9\<rparr> \<and>
    (\<forall>r. kvps_decode (bs @ r) = Inr (ks', r)) \<and>
    sorted (map kvp_key ks') \<and>
    (\<forall>k. filter (\<lambda>p. kvp_key p = k) ks' = filter (\<lambda>p. kvp_key p = k) [new_int 4 6, new_int 2 5]) \<and>
    (\<forall>k. kvps_get ks' k = kvps_get [new_int 4 6, new_int 2 5] k)"
proof (rule parameters_round_trip)
  have even_keys: "kvp_parity_ok \<lparr>kvp_key = 4, kvp_val = IntValue 6\<rparr>" "kvp_parity_ok \<lparr>kvp_key = 2, kvp_val = IntValue 5\<rparr>"
    by code_simp+
  show "kvps_encode [new_int 4 6, new_int 2 5] \<lparr>wr_bytes = [], wr_room = 9\<rparr> = Inr \<lparr>wr_bytes = [2, 2, 5, 2, 6], wr_room = 4\<rparr>"
    by (simp add: kvps_encode_def encode_with_prev_def new_int_def u64_checked_sub_def even_keys wire_eval)
qed

text \<open>
  The typed parameter accessors read back what their setters stored, and a setter
  changes no parameter but its own.
\<close>

theorem parameter_accessors:
  "forward (set_forward b ks) = Inr (Some b) \<and>
   subscriber_priority (set_subscriber_priority p ks) = Inr (Some p) \<and>
   (g \<noteq> Publisher \<longrightarrow> get_group_order (set_group_order g ks) = Inr (Some g)) \<and>
   (set_subscription_filter f ks = Inr ks1 \<longrightarrow> get_subscription_filter ks1 = Inr (Some (filter_normal f))) \<and>
   (set_largest_object l ks = Inr ks2 \<longrightarrow> largest_object ks2 = Inr (Some l)) \<and>
   (k \<noteq> FORWARD \<longrightarrow> kvps_get (set_forward b ks) k = kvps_get ks k)"
proof -
  have "k \<noteq> FORWARD \<Longrightarrow> kvps_get (set_forward b ks) k = kvps_get ks k"
    unfolding set_forward_def set_intvalue_def by (rule kvps.find_put_other) (simp add: new_int_def)
  then show ?thesis
    by (simp add: forward_set subscriber_priority_set group_order_set subscription_filter_set largest_object_set)
qed

theorem parameter_accessors_witness:
  "get_group_order (set_group_order Descending []) = Inr (Some Descending)"
  using parameter_accessors [where g = Descending and ks = "[]"] by simp

section \<open>Names\<close>

text \<open>
  A namespace prefix and a suffix split a namespace uniquely: on a valid namespace
  \<^verbatim>\<open>strip_prefix\<close> gives a suffix exactly when \<^verbatim>\<open>join_suffix\<close> of the prefix and that suffix gives the
  namespace back, and what \<^verbatim>\<open>TrackNamespace\<close>'s decoder and its validating constructor
  accept is valid.
\<close>

theorem namespace_prefix_algebra:
  assumes "track_namespace_ok ns"
  shows "(strip_prefix ns p = Some s \<longleftrightarrow> join_suffix p s = Inr ns) \<and>
    (join_suffix p s = Inr ns' \<longrightarrow> track_namespace_ok ns' \<and> is_prefix_of p ns') \<and>
    (track_namespace_decode r = Inr (ns'', r') \<longrightarrow> track_namespace_ok ns'')"
  using assms track_namespace_decode_ok [of r ns'' r']
  by (auto simp: strip_prefix_def join_suffix_def is_prefix_of_iff track_namespace_try_from_iff prefix_def)

theorem namespace_prefix_algebra_witness:
  "strip_prefix [[1], [2], [3]] [[1]] = Some [[2], [3]]"
proof -
  have "track_namespace_ok [[1], [2], [3]]" by code_simp
  moreover have "join_suffix [[1]] [[2], [3]] = Inr [[1], [2], [3]]" by code_simp
  ultimately show ?thesis using namespace_prefix_algebra by blast
qed

section \<open>Integers and set-up\<close>

text \<open>
  C32. The QUIC varint codec takes exactly the integers below \<open>2 ^ 62\<close>, in one, two, four or
  eight bytes, and refuses the others with \<^verbatim>\<open>BoundsExceeded\<close>; the draft-19 \<^verbatim>\<open>Vi64\<close> codec
  takes every \<^verbatim>\<open>u64\<close> in at most nine bytes. Both read back what they wrote.
\<close>

theorem integer_codecs:
  "(u64_encode x w = Inl EncBoundsExceeded \<longleftrightarrow> 2 ^ 62 \<le> x) \<and>
   (x < 2 ^ 62 \<longrightarrow> (\<exists>bs. length bs \<in> {1, 2, 4, 8} \<and> (\<forall>r. u64_decode (bs @ r) = Inr (x, r)) \<and>
     u64_encode x w = (if length bs \<le> wr_room w then Inr (wput bs w) else Inl (EncMore (length bs - wr_room w))))) \<and>
   (\<exists>bs. length bs \<le> 9 \<and> (\<forall>r. vi64_decode (bs @ r) = Inr (x, r)) \<and>
     vi64_encode x w = (if length bs \<le> wr_room w then Inr (wput bs w) else Inl (EncMore (length bs - wr_room w))))"
proof -
  have put: "checked_put bs w = (if length bs \<le> wr_room w then Inr (wput bs w) else Inl (EncMore (length bs - wr_room w)))" for bs
    by (simp add: checked_put_def encode_remaining_def put_slice_def wput_def)
  have "u64_encode x w = Inl EncBoundsExceeded \<longleftrightarrow> 2 ^ 62 \<le> x"
    by (auto simp: u64_encode_eq put not_less split: if_splits)
  moreover have "\<exists>bs. length bs \<in> {1, 2, 4, 8} \<and> (\<forall>r. u64_decode (bs @ r) = Inr (x, r)) \<and>
      u64_encode x w = (if length bs \<le> wr_room w then Inr (wput bs w) else Inl (EncMore (length bs - wr_room w)))" if "x < 2 ^ 62"
    using that streamsD [OF streams_u64 [OF that]] length_varint_bytes [of x]
    by (intro exI [of _ "varint_bytes x"]) (simp add: u64_encode_eq put)
  moreover have "\<exists>bs. length bs \<le> 9 \<and> (\<forall>r. vi64_decode (bs @ r) = Inr (x, r)) \<and>
      vi64_encode x w = (if length bs \<le> wr_room w then Inr (wput bs w) else Inl (EncMore (length bs - wr_room w)))"
    using streamsD [OF streams_vi64] vi64_len_bounds [of x]
    by (intro exI [of _ "vi64_bytes x"]) (auto simp: vi64_encode_eq put vi64_bytes_def Let_def)
  ultimately show ?thesis by blast
qed

theorem integer_codecs_witness:
  "\<exists>bs. length bs \<in> {1, 2, 4, 8} \<and> (\<forall>r. u64_decode (bs @ r) = Inr (300, r)) \<and>
     u64_encode 300 fresh_vec = (if length bs \<le> wr_room fresh_vec then Inr (wput bs fresh_vec) else Inl (EncMore (length bs - wr_room fresh_vec)))"
  using integer_codecs [of 300 fresh_vec] by simp

text \<open>
  C31. A writer delivers a message whole or reports it: what \<^verbatim>\<open>Writer::encode\<close> has put on the
  wire is always a prefix of the encoded message, all of it when it returns without an
  error, and on a transport that keeps accepting bytes it does return.
\<close>

theorem writer_delivers_prefix:
  assumes "message_encode m fresh_vec = Inr w"
  shows "(writer_encode (message_encode m) accepts wire = (res, wire') \<longrightarrow>
      (\<exists>sent. wire' = wire @ sent \<and> prefix sent (wr_bytes w) \<and> (res = Done (Inr ()) \<longrightarrow> sent = wr_bytes w))) \<and>
    (list_all (\<lambda>a. case a of Inr n \<Rightarrow> 0 < n | Inl _ \<Rightarrow> False) accepts \<longrightarrow> length (wr_bytes w) \<le> length accepts \<longrightarrow>
      writer_encode (message_encode m) accepts wire = (Done (Inr ()), wire @ wr_bytes w))"
  using assms write_all_wire [of "wr_bytes w" accepts wire res wire'] write_all_completes [of accepts "wr_bytes w" wire]
  by (auto simp: writer_encode_def)

theorem writer_delivers_prefix_witness:
  "writer_encode (message_encode sample_unsubscribe) [Inr 1, Inr 1, Inr 5, Inr 1 :: unit + nat] [] = (Done (Inr ()), [0xa, 0, 1, 7])"
proof -
  have "message_encode sample_unsubscribe fresh_vec = Inr \<lparr>wr_bytes = [0xa, 0, 1, 7], wr_room = 2 ^ 63 - 5\<rparr>"
    by (simp add: sample_unsubscribe_def message_encode_def unsubscribe_encode_def wire_eval)
  from writer_delivers_prefix [OF this, of "[Inr 1, Inr 1, Inr 5, Inr 1]" "[]" Waiting "[]"] show ?thesis by simp
qed

end
