(* ===== verification/Data_Plane.thy ===== *)
theory Data_Plane
  imports Transport
begin

text \<open>
  The data plane (\<^verbatim>\<open>moq-transport/src/data\<close>): object status, reset codes, extension headers,
  stream headers, subgroup objects and datagrams. Headers and objects are self-delimiting
  and join the types that travel over a stream; a datagram is a whole packet. Both sides
  enforce that extension headers come only with normal objects.
\<close>

section \<open>Object status and reset codes\<close>

datatype object_status =
    NormalObject
  | EndOfGroup
  | EndOfTrack

fun object_status_value :: "object_status \<Rightarrow> u64" where
  "object_status_value NormalObject = 0x0"
| "object_status_value EndOfGroup = 0x3"
| "object_status_value EndOfTrack = 0x4"

definition object_status_encode :: "object_status \<Rightarrow> enc" where
  "object_status_encode t w = bindE (u64_encode (object_status_value t) w) (\<lambda>w. Inr w)"

definition object_status_decode :: "object_status dec" where
  "object_status_decode r =
     bindE (u64_decode r) (\<lambda>(v, r).
       if v = 0x0 then Inr (NormalObject, r)
       else if v = 0x3 then Inr (EndOfGroup, r)
       else if v = 0x4 then Inr (EndOfTrack, r)
       else Inl InvalidObjectStatus)"

datatype data_stream_reset_code =
    RstInternalError | RstCancelled | RstDeliveryTimeout | RstSessionClosed
  | RstUnknownObjectStatus | RstMalformedTrack

fun data_stream_reset_code_value :: "data_stream_reset_code \<Rightarrow> u32" where
  "data_stream_reset_code_value RstInternalError = 0x0"
| "data_stream_reset_code_value RstCancelled = 0x1"
| "data_stream_reset_code_value RstDeliveryTimeout = 0x2"
| "data_stream_reset_code_value RstSessionClosed = 0x3"
| "data_stream_reset_code_value RstUnknownObjectStatus = 0x4"
| "data_stream_reset_code_value RstMalformedTrack = 0x12"

section \<open>Extension headers\<close>

type_synonym extension_headers = "kvp list"

definition eh_set :: "kvp \<Rightarrow> extension_headers \<Rightarrow> extension_headers" where
  "eh_set p ks = replace_or_push p ks"

definition eh_set_intvalue :: "u64 \<Rightarrow> u64 \<Rightarrow> extension_headers \<Rightarrow> extension_headers" where
  "eh_set_intvalue k v ks = eh_set (new_int k v) ks"

definition eh_set_bytesvalue :: "u64 \<Rightarrow> bytes \<Rightarrow> extension_headers \<Rightarrow> extension_headers" where
  "eh_set_bytesvalue k v ks = eh_set (new_bytes k v) ks"

definition eh_has :: "extension_headers \<Rightarrow> u64 \<Rightarrow> bool" where
  "eh_has ks k = list_ex (\<lambda>p. kvp_key p = k) ks"

definition eh_get :: "extension_headers \<Rightarrow> u64 \<Rightarrow> kvp option" where
  "eh_get ks k = find_key ks k"

definition extension_headers_decode :: "extension_headers dec" where
  "extension_headers_decode r =
     bindE (usize_decode r) (\<lambda>(len, r).
     bindE (read_exact len r) (\<lambda>(kvps_bytes, r).
       if len = 0 then Inr ([], r)
       else bindE (decode_to_end 0 kvps_bytes) (\<lambda>ks. Inr (ks, r))))"

text \<open>The temporary buffer; a single pair is written without the sort.\<close>

definition extension_headers_tmp :: "extension_headers \<Rightarrow> encode_error + bytes" where
  "extension_headers_tmp ks =
     bindE (case ks of
         [k] \<Rightarrow> bindE (encode_with_prev k 0 fresh_vec) (\<lambda>(_, tmp). Inr tmp)
       | _ \<Rightarrow> encode_kvps 0 (sort_key kvp_key ks) fresh_vec) (\<lambda>tmp. Inr (wr_bytes tmp))"

definition extension_headers_encode :: "extension_headers \<Rightarrow> enc" where
  "extension_headers_encode ks w =
     (if ks = [] then bindE (usize_encode 0 w) (\<lambda>w. Inr w)
      else
        bindE (extension_headers_tmp ks) (\<lambda>tmp.
        bindE (usize_encode (length tmp) w) (\<lambda>w. put_slice tmp w)))"

section \<open>Optional fields\<close>

text \<open>
  Fields present for some header types only: read when the type has them, and on the
  writing side required to be set.
\<close>

definition opt_decode :: "bool \<Rightarrow> 'a dec \<Rightarrow> 'a option dec" where
  "opt_decode present d r =
     (if present then bindE (d r) (\<lambda>(x, r). Inr (Some x, r)) else Inr (None, r))"

definition opt_encode :: "bool \<Rightarrow> string \<Rightarrow> 'a option \<Rightarrow> ('a \<Rightarrow> enc) \<Rightarrow> enc" where
  "opt_encode present name field e w =
     (if present then
        case field of Some x \<Rightarrow> e x w | None \<Rightarrow> Inl (EncMissingField name)
      else Inr w)"

section \<open>Stream headers\<close>

datatype stream_header_type =
    SubgroupZeroId
  | SubgroupZeroIdExt
  | SubgroupFirstObjectId
  | SubgroupFirstObjectIdExt
  | SubgroupId
  | SubgroupIdExt
  | SubgroupZeroIdEndOfGroup
  | SubgroupZeroIdExtEndOfGroup
  | SubgroupFirstObjectIdEndOfGroup
  | SubgroupFirstObjectIdExtEndOfGroup
  | SubgroupIdEndOfGroup
  | SubgroupIdExtEndOfGroup
  | FetchHeaderType

fun stream_header_type_value :: "stream_header_type \<Rightarrow> u64" where
  "stream_header_type_value SubgroupZeroId = 0x10"
| "stream_header_type_value SubgroupZeroIdExt = 0x11"
| "stream_header_type_value SubgroupFirstObjectId = 0x12"
| "stream_header_type_value SubgroupFirstObjectIdExt = 0x13"
| "stream_header_type_value SubgroupId = 0x14"
| "stream_header_type_value SubgroupIdExt = 0x15"
| "stream_header_type_value SubgroupZeroIdEndOfGroup = 0x18"
| "stream_header_type_value SubgroupZeroIdExtEndOfGroup = 0x19"
| "stream_header_type_value SubgroupFirstObjectIdEndOfGroup = 0x1a"
| "stream_header_type_value SubgroupFirstObjectIdExtEndOfGroup = 0x1b"
| "stream_header_type_value SubgroupIdEndOfGroup = 0x1c"
| "stream_header_type_value SubgroupIdExtEndOfGroup = 0x1d"
| "stream_header_type_value FetchHeaderType = 0x5"

definition stream_header_type_encode :: "stream_header_type \<Rightarrow> enc" where
  "stream_header_type_encode t w = bindE (u64_encode (stream_header_type_value t) w) (\<lambda>w. Inr w)"

definition stream_header_type_decode :: "stream_header_type dec" where
  "stream_header_type_decode r =
     bindE (u64_decode r) (\<lambda>(v, r).
       if v = 0x10 then Inr (SubgroupZeroId, r)
       else if v = 0x11 then Inr (SubgroupZeroIdExt, r)
       else if v = 0x12 then Inr (SubgroupFirstObjectId, r)
       else if v = 0x13 then Inr (SubgroupFirstObjectIdExt, r)
       else if v = 0x14 then Inr (SubgroupId, r)
       else if v = 0x15 then Inr (SubgroupIdExt, r)
       else if v = 0x18 then Inr (SubgroupZeroIdEndOfGroup, r)
       else if v = 0x19 then Inr (SubgroupZeroIdExtEndOfGroup, r)
       else if v = 0x1a then Inr (SubgroupFirstObjectIdEndOfGroup, r)
       else if v = 0x1b then Inr (SubgroupFirstObjectIdExtEndOfGroup, r)
       else if v = 0x1c then Inr (SubgroupIdEndOfGroup, r)
       else if v = 0x1d then Inr (SubgroupIdExtEndOfGroup, r)
       else if v = 0x5 then Inr (FetchHeaderType, r)
       else Inl InvalidHeaderType)"

definition is_subgroup :: "stream_header_type \<Rightarrow> bool" where
  "is_subgroup t \<longleftrightarrow> 0x10 \<le> stream_header_type_value t \<and> stream_header_type_value t \<le> 0x1d"

definition is_fetch :: "stream_header_type \<Rightarrow> bool" where
  "is_fetch t \<longleftrightarrow> t = FetchHeaderType"

definition has_extension_headers :: "stream_header_type \<Rightarrow> bool" where
  "has_extension_headers t \<longleftrightarrow>
     t \<in> {SubgroupZeroIdExt, SubgroupFirstObjectIdExt, SubgroupIdExt, SubgroupZeroIdExtEndOfGroup,
          SubgroupFirstObjectIdExtEndOfGroup, SubgroupIdExtEndOfGroup, FetchHeaderType}"

definition has_subgroup_id :: "stream_header_type \<Rightarrow> bool" where
  "has_subgroup_id t \<longleftrightarrow>
     t \<in> {SubgroupId, SubgroupIdExt, SubgroupIdEndOfGroup, SubgroupIdExtEndOfGroup}"

definition uses_first_object_id_as_subgroup_id :: "stream_header_type \<Rightarrow> bool" where
  "uses_first_object_id_as_subgroup_id t \<longleftrightarrow>
     t \<in> {SubgroupFirstObjectId, SubgroupFirstObjectIdExt, SubgroupFirstObjectIdEndOfGroup,
          SubgroupFirstObjectIdExtEndOfGroup}"

record subgroup_header =
  sg_header_type :: stream_header_type
  sg_track_alias :: u64
  sg_group_id :: u64
  sg_subgroup_id :: "u64 option"
  sg_publisher_priority :: u8

definition subgroup_header_decode :: "stream_header_type \<Rightarrow> subgroup_header dec" where
  "subgroup_header_decode header_type r =
     bindE (u64_decode r) (\<lambda>(track_alias, r).
     bindE (u64_decode r) (\<lambda>(group_id, r).
     bindE (opt_decode (has_subgroup_id header_type) u64_decode r) (\<lambda>(subgroup_id, r).
     bindE (u8_decode r) (\<lambda>(publisher_priority, r).
       Inr (\<lparr>sg_header_type = header_type, sg_track_alias = track_alias, sg_group_id = group_id,
             sg_subgroup_id = subgroup_id, sg_publisher_priority = publisher_priority\<rparr>, r)))))"

definition subgroup_header_encode :: "subgroup_header \<Rightarrow> enc" where
  "subgroup_header_encode h w =
     bindE (stream_header_type_encode (sg_header_type h) w) (\<lambda>w.
     bindE (u64_encode (sg_track_alias h) w) (\<lambda>w.
     bindE (u64_encode (sg_group_id h) w) (\<lambda>w.
     bindE (opt_encode (has_subgroup_id (sg_header_type h)) ''SubgroupId'' (sg_subgroup_id h) u64_encode w) (\<lambda>w.
     bindE (u8_encode (sg_publisher_priority h) w) (\<lambda>w. Inr w)))))"

record fetch_header =
  fh_header_type :: stream_header_type
  fh_request_id :: u64

definition fetch_header_decode :: "stream_header_type \<Rightarrow> fetch_header dec" where
  "fetch_header_decode header_type r =
     bindE (u64_decode r) (\<lambda>(request_id, r).
       Inr (\<lparr>fh_header_type = header_type, fh_request_id = request_id\<rparr>, r))"

definition fetch_header_encode :: "fetch_header \<Rightarrow> enc" where
  "fetch_header_encode h w =
     bindE (stream_header_type_encode (fh_header_type h) w) (\<lambda>w.
     bindE (u64_encode (fh_request_id h) w) (\<lambda>w. Inr w))"

record stream_header =
  sh_header_type :: stream_header_type
  sh_subgroup_header :: "subgroup_header option"
  sh_fetch_header :: "fetch_header option"

definition stream_header_decode :: "stream_header dec" where
  "stream_header_decode r =
     bindE (stream_header_type_decode r) (\<lambda>(header_type, r).
     bindE (opt_decode (is_subgroup header_type) (subgroup_header_decode header_type) r) (\<lambda>(subgroup_header, r).
     bindE (opt_decode (is_fetch header_type) (fetch_header_decode header_type) r) (\<lambda>(fetch_header, r).
       Inr (\<lparr>sh_header_type = header_type, sh_subgroup_header = subgroup_header,
             sh_fetch_header = fetch_header\<rparr>, r))))"

text \<open>The header type is written by the inner header, not by the envelope.\<close>

definition stream_header_encode :: "stream_header \<Rightarrow> enc" where
  "stream_header_encode h w =
     (if is_subgroup (sh_header_type h) then
        case sh_subgroup_header h of
          Some sg \<Rightarrow> subgroup_header_encode sg w
        | None \<Rightarrow> Inl (EncMissingField ''SubgroupHeader'')
      else
        case sh_fetch_header h of
          Some f \<Rightarrow> fetch_header_encode f w
        | None \<Rightarrow> Inl (EncMissingField ''FetchHeader''))"

section \<open>Subgroup objects\<close>

record subgroup_object =
  so_object_id_delta :: u64
  so_payload_length :: nat
  so_status :: "object_status option"

definition subgroup_object_decode :: "subgroup_object dec" where
  "subgroup_object_decode r =
     bindE (u64_decode r) (\<lambda>(object_id_delta, r).
     bindE (usize_decode r) (\<lambda>(payload_length, r).
     bindE (opt_decode (payload_length = 0) object_status_decode r) (\<lambda>(status, r).
       Inr (\<lparr>so_object_id_delta = object_id_delta, so_payload_length = payload_length,
             so_status = status\<rparr>, r))))"

definition subgroup_object_encode :: "subgroup_object \<Rightarrow> enc" where
  "subgroup_object_encode obj w =
     bindE (u64_encode (so_object_id_delta obj) w) (\<lambda>w.
     bindE (usize_encode (so_payload_length obj) w) (\<lambda>w.
     bindE (opt_encode (so_payload_length obj = 0) ''Status'' (so_status obj) object_status_encode w) (\<lambda>w. Inr w)))"

record subgroup_object_ext =
  soe_object_id_delta :: u64
  soe_extension_headers :: extension_headers
  soe_payload_length :: nat
  soe_status :: "object_status option"

text \<open>The status rule both sides enforce: only a normal object may carry extensions.\<close>

definition status_conflict :: "object_status option \<Rightarrow> bool \<Rightarrow> bool" where
  "status_conflict status has_ext \<longleftrightarrow>
     (case status of Some s \<Rightarrow> s \<noteq> NormalObject | None \<Rightarrow> False) \<and> has_ext"

definition subgroup_object_ext_decode :: "subgroup_object_ext dec" where
  "subgroup_object_ext_decode r =
     bindE (u64_decode r) (\<lambda>(object_id_delta, r).
     bindE (extension_headers_decode r) (\<lambda>(extension_headers, r).
     bindE (usize_decode r) (\<lambda>(payload_length, r).
     bindE (opt_decode (payload_length = 0) object_status_decode r) (\<lambda>(status, r).
       if status_conflict status (extension_headers \<noteq> []) then Inl InvalidValue
       else
         Inr (\<lparr>soe_object_id_delta = object_id_delta, soe_extension_headers = extension_headers,
               soe_payload_length = payload_length, soe_status = status\<rparr>, r)))))"

definition subgroup_object_ext_encode :: "subgroup_object_ext \<Rightarrow> enc" where
  "subgroup_object_ext_encode obj w =
     bindE (u64_encode (soe_object_id_delta obj) w) (\<lambda>w.
     bindE (extension_headers_encode (soe_extension_headers obj) w) (\<lambda>w.
     bindE (usize_encode (soe_payload_length obj) w) (\<lambda>w.
     bindE (opt_encode (soe_payload_length obj = 0) ''Status'' (soe_status obj) (\<lambda>s w.
         if s \<noteq> NormalObject \<and> soe_extension_headers obj \<noteq> [] then Inl EncInvalidValue
         else object_status_encode s w) w) (\<lambda>w. Inr w))))"

section \<open>Datagrams\<close>

datatype datagram_type =
    ObjectIdPayload
  | ObjectIdPayloadExt
  | ObjectIdPayloadEndOfGroup
  | ObjectIdPayloadExtEndOfGroup
  | Payload
  | PayloadExt
  | PayloadEndOfGroup
  | PayloadExtEndOfGroup
  | ObjectIdStatus
  | ObjectIdStatusExt

fun datagram_type_value :: "datagram_type \<Rightarrow> u64" where
  "datagram_type_value ObjectIdPayload = 0x0"
| "datagram_type_value ObjectIdPayloadExt = 0x1"
| "datagram_type_value ObjectIdPayloadEndOfGroup = 0x2"
| "datagram_type_value ObjectIdPayloadExtEndOfGroup = 0x3"
| "datagram_type_value Payload = 0x4"
| "datagram_type_value PayloadExt = 0x5"
| "datagram_type_value PayloadEndOfGroup = 0x6"
| "datagram_type_value PayloadExtEndOfGroup = 0x7"
| "datagram_type_value ObjectIdStatus = 0x20"
| "datagram_type_value ObjectIdStatusExt = 0x21"

definition datagram_type_encode :: "datagram_type \<Rightarrow> enc" where
  "datagram_type_encode t w = bindE (u64_encode (datagram_type_value t) w) (\<lambda>w. Inr w)"

definition datagram_type_decode :: "datagram_type dec" where
  "datagram_type_decode r =
     bindE (u64_decode r) (\<lambda>(v, r).
       if v = 0x0 then Inr (ObjectIdPayload, r)
       else if v = 0x1 then Inr (ObjectIdPayloadExt, r)
       else if v = 0x2 then Inr (ObjectIdPayloadEndOfGroup, r)
       else if v = 0x3 then Inr (ObjectIdPayloadExtEndOfGroup, r)
       else if v = 0x4 then Inr (Payload, r)
       else if v = 0x5 then Inr (PayloadExt, r)
       else if v = 0x6 then Inr (PayloadEndOfGroup, r)
       else if v = 0x7 then Inr (PayloadExtEndOfGroup, r)
       else if v = 0x20 then Inr (ObjectIdStatus, r)
       else if v = 0x21 then Inr (ObjectIdStatusExt, r)
       else Inl InvalidDatagramType)"

definition dg_has_extension_headers :: "datagram_type \<Rightarrow> bool" where
  "dg_has_extension_headers t \<longleftrightarrow>
     t \<in> {ObjectIdPayloadExt, ObjectIdPayloadExtEndOfGroup, PayloadExt, PayloadExtEndOfGroup,
          ObjectIdStatusExt}"

definition dg_has_status :: "datagram_type \<Rightarrow> bool" where
  "dg_has_status t \<longleftrightarrow> t \<in> {ObjectIdStatus, ObjectIdStatusExt}"

text \<open>The inline matches that decide whether an object id and a payload are present.\<close>

definition dg_has_object_id :: "datagram_type \<Rightarrow> bool" where
  "dg_has_object_id t \<longleftrightarrow>
     t \<in> {ObjectIdPayload, ObjectIdPayloadExt, ObjectIdPayloadEndOfGroup,
          ObjectIdPayloadExtEndOfGroup, ObjectIdStatus, ObjectIdStatusExt}"

definition dg_has_payload :: "datagram_type \<Rightarrow> bool" where
  "dg_has_payload t \<longleftrightarrow>
     t \<in> {ObjectIdPayload, ObjectIdPayloadExt, ObjectIdPayloadEndOfGroup,
          ObjectIdPayloadExtEndOfGroup, Payload, PayloadExt, PayloadEndOfGroup, PayloadExtEndOfGroup}"

record datagram =
  dg_datagram_type :: datagram_type
  dg_track_alias :: u64
  dg_group_id :: u64
  dg_object_id :: "u64 option"
  dg_publisher_priority :: u8
  dg_extension_headers :: "extension_headers option"
  dg_status :: "object_status option"
  dg_payload :: "bytes option"

definition nonempty_extensions_decode :: "extension_headers dec" where
  "nonempty_extensions_decode r =
     bindE (extension_headers_decode r) (\<lambda>(headers, r).
       if headers = [] then Inl InvalidValue else Inr (headers, r))"

definition nonempty_extensions_encode :: "extension_headers \<Rightarrow> enc" where
  "nonempty_extensions_encode headers w =
     (if headers = [] then Inl EncInvalidValue else extension_headers_encode headers w)"

definition datagram_decode :: "datagram dec" where
  "datagram_decode r =
     bindE (datagram_type_decode r) (\<lambda>(datagram_type, r).
     bindE (u64_decode r) (\<lambda>(track_alias, r).
     bindE (u64_decode r) (\<lambda>(group_id, r).
     bindE (opt_decode (dg_has_object_id datagram_type) u64_decode r) (\<lambda>(object_id, r).
     bindE (u8_decode r) (\<lambda>(publisher_priority, r).
     bindE (opt_decode (dg_has_extension_headers datagram_type) nonempty_extensions_decode r) (\<lambda>(extension_headers, r).
     bindE (opt_decode (dg_has_status datagram_type) object_status_decode r) (\<lambda>(status, r).
       if status_conflict status (extension_headers \<noteq> None) then Inl InvalidValue
       else
         let (payload, r) = (if dg_has_payload datagram_type then (Some r, []) else (None, r))
         in Inr (\<lparr>dg_datagram_type = datagram_type, dg_track_alias = track_alias,
                  dg_group_id = group_id, dg_object_id = object_id,
                  dg_publisher_priority = publisher_priority,
                  dg_extension_headers = extension_headers, dg_status = status,
                  dg_payload = payload\<rparr>, r))))))))"

definition datagram_encode :: "datagram \<Rightarrow> enc" where
  "datagram_encode d w =
     (let t = dg_datagram_type d in
      bindE (datagram_type_encode t w) (\<lambda>w.
      bindE (u64_encode (dg_track_alias d) w) (\<lambda>w.
      bindE (u64_encode (dg_group_id d) w) (\<lambda>w.
      bindE (opt_encode (dg_has_object_id t) ''ObjectId'' (dg_object_id d) u64_encode w) (\<lambda>w.
      bindE (u8_encode (dg_publisher_priority d) w) (\<lambda>w.
      bindE (opt_encode (dg_has_extension_headers t) ''ExtensionHeaders'' (dg_extension_headers d)
          nonempty_extensions_encode w) (\<lambda>w.
      bindE (opt_encode (dg_has_status t) ''Status'' (dg_status d) (\<lambda>s w.
          if dg_extension_headers d \<noteq> None \<and> s \<noteq> NormalObject then Inl EncInvalidValue
          else object_status_encode s w) w) (\<lambda>w.
      bindE (opt_encode (dg_has_payload t) ''Payload'' (dg_payload d) checked_put w) (\<lambda>w. Inr w)))))))))"

section \<open>Proofs\<close>

lemma decoder_object_status [decoder_rules]: "decoder object_status_decode"
  unfolding object_status_decode_def [abs_def] by (intro decoder_rules) simp

lemma codec_object_status [codec_rules]: "codec (object_status_encode t) object_status_decode t"
  unfolding object_status_encode_def [abs_def] object_status_decode_def [abs_def]
  by (rule codec_bind [OF codec_u64]) (cases t; simp add: codec_return)

lemma decoder_stream_header_type [decoder_rules]: "decoder stream_header_type_decode"
  unfolding stream_header_type_decode_def [abs_def] by (intro decoder_rules) simp

lemma codec_stream_header_type [codec_rules]: "codec (stream_header_type_encode t) stream_header_type_decode t"
  unfolding stream_header_type_encode_def [abs_def] stream_header_type_decode_def [abs_def]
  by (rule codec_bind [OF codec_u64]) (cases t; simp add: codec_return)

lemma decoder_datagram_type [decoder_rules]: "decoder datagram_type_decode"
  unfolding datagram_type_decode_def [abs_def] by (intro decoder_rules) simp

lemma codec_datagram_type [codec_rules]: "codec (datagram_type_encode t) datagram_type_decode t"
  unfolding datagram_type_encode_def [abs_def] datagram_type_decode_def [abs_def]
  by (rule codec_bind [OF codec_u64]) (cases t; simp add: codec_return)

interpretation eh: kv_store "[] :: extension_headers" eh_get eh_set
  by unfold_locales (simp_all add: eh_get_def eh_set_def find_key_replace_or_push find_key_Nil)

lemma decoder_extension_headers [decoder_rules]: "decoder extension_headers_decode"
  unfolding extension_headers_decode_def [abs_def]
  by (intro decoder_rules) (simp add: decode_to_end_no_panic)

lemma extension_headers_tmp_eq:
  "extension_headers_tmp ks = bindE (encode_kvps 0 (sort_key kvp_key ks) fresh_vec) (\<lambda>tmp. Inr (wr_bytes tmp))"
  by (auto simp: extension_headers_tmp_def bindE_assoc intro!: bindE_cong split: list.split)

lemma codec_extension_headers [codec_rules]:
  "codec (extension_headers_encode ks) extension_headers_decode (sort_key kvp_key ks)"
proof (cases "ks = []")
  case True
  have "codec (\<lambda>w. bindE (usize_encode 0 w) (\<lambda>w. Inr w)) extension_headers_decode []"
    unfolding extension_headers_decode_def [abs_def]
    by (rule codec_bind [OF codec_usize])
      (simp add: read_exact_def decode_remaining_def copy_to_bytes_def codec_return)
  then show ?thesis by (simp add: True extension_headers_encode_def [abs_def])
next
  case False
  show ?thesis
  proof (cases "encode_kvps 0 (sort_key kvp_key ks) fresh_vec")
    case (Inl e)
    then show ?thesis
      using False by (simp add: codec_def extension_headers_encode_def extension_headers_tmp_eq)
  next
    case (Inr tmp)
    obtain bs where bs: "writes (encode_kvps 0 (sort_key kvp_key ks)) bs"
        "decode_to_end 0 bs = Inr (sort_key kvp_key ks)"
      using encode_kvps_to_end [OF Inr] by auto
    have tmp: "wr_bytes tmp = bs" using writes_result [OF bs(1) Inr] by (simp add: fresh_vec_def)
    have "sort_key kvp_key ks \<noteq> []" using False by (metis length_0_conv length_sort)
    with bs(2) have "bs \<noteq> []" by auto
    have put: "codec (put_slice bs) (read_exact (length bs)) bs"
      unfolding codec_def round_trips_def
      by (intro allI impI exI [of _ bs] conjI writes_put_slice streams_read_exact refl)
    have "codec (\<lambda>w. bindE (usize_encode (length bs) w) (\<lambda>w. bindE (put_slice bs w) Inr))
        extension_headers_decode (sort_key kvp_key ks)"
      unfolding extension_headers_decode_def [abs_def]
      by (rule codec_bind [OF codec_usize], rule codec_bind [OF put])
        (use \<open>bs \<noteq> []\<close> bs in \<open>simp add: codec_return\<close>)
    then show ?thesis
      using False Inr by (simp add: extension_headers_encode_def [abs_def] extension_headers_tmp_eq tmp)
  qed
qed

lemma extension_headers_decode_sorted:
  "extension_headers_decode r = Inr (ks, r') \<Longrightarrow>
   sorted (map kvp_key ks) \<and> (\<forall>k \<in> set ks. kvp_parity_ok k)"
  by (auto simp: extension_headers_decode_def split: if_splits dest!: decode_to_end_result)

lemma decoder_opt [decoder_rules]: "decoder d \<Longrightarrow> decoder (opt_decode b d)"
  unfolding opt_decode_def [abs_def] by (intro decoder_rules)

lemma codec_opt:
  assumes "\<And>x. b \<Longrightarrow> f = Some x \<Longrightarrow> codec (e x) d (g x)"
  shows "codec (opt_encode b name f e) (opt_decode b d) (if b then map_option g f else None)"
proof (cases b)
  case False
  then show ?thesis by (simp add: opt_encode_def [abs_def] opt_decode_def [abs_def] codec_return)
next
  case True
  then show ?thesis
  proof (cases f)
    case None
    then show ?thesis using True by (simp add: codec_def opt_encode_def)
  next
    case (Some x)
    then show ?thesis
      using True codec_map [OF assms [OF True Some], of "Some (g x)" Some]
      by (simp add: opt_encode_def [abs_def] opt_decode_def [abs_def])
  qed
qed

lemmas codec_opt_id = codec_opt [where g = id, simplified id_apply option.map_id0 id_apply]

subsection \<open>Stream headers\<close>

lemma decoder_subgroup_header [decoder_rules]: "decoder (subgroup_header_decode t)"
  unfolding subgroup_header_decode_def [abs_def] by (intro decoder_rules)

lemma decoder_fetch_header [decoder_rules]: "decoder (fetch_header_decode t)"
  unfolding fetch_header_decode_def [abs_def] by (intro decoder_rules)

lemma decoder_stream_header [decoder_rules]: "decoder stream_header_decode"
  unfolding stream_header_decode_def [abs_def] by (intro decoder_rules)

text \<open>
  A header is consistent when it carries the one inner header its type asks for, with the
  same type, and a subgroup id only where the type has one.
\<close>

definition stream_header_wf :: "stream_header \<Rightarrow> bool" where
  "stream_header_wf h \<longleftrightarrow>
     (case (sh_subgroup_header h, sh_fetch_header h) of
        (Some sg, None) \<Rightarrow> is_subgroup (sh_header_type h) \<and> sg_header_type sg = sh_header_type h \<and>
          (has_subgroup_id (sh_header_type h) \<or> sg_subgroup_id sg = None)
      | (None, Some f) \<Rightarrow> is_fetch (sh_header_type h) \<and> fh_header_type f = sh_header_type h
      | _ \<Rightarrow> False)"

lemma fetch_not_subgroup: "is_fetch t \<Longrightarrow> \<not> is_subgroup t"
  by (simp add: is_fetch_def is_subgroup_def)

lemma codec_subgroup_fields:
  assumes "has_subgroup_id (sg_header_type sg) \<or> sg_subgroup_id sg = None"
  shows "codec (\<lambda>w. bindE (u64_encode (sg_track_alias sg) w) (\<lambda>w.
     bindE (u64_encode (sg_group_id sg) w) (\<lambda>w.
     bindE (opt_encode (has_subgroup_id (sg_header_type sg)) ''SubgroupId'' (sg_subgroup_id sg) u64_encode w) (\<lambda>w.
     bindE (u8_encode (sg_publisher_priority sg) w) (\<lambda>w. Inr w)))))
   (subgroup_header_decode (sg_header_type sg)) sg"
  unfolding subgroup_header_decode_def [abs_def]
  by (rule codec_bind [OF codec_u64], rule codec_bind [OF codec_u64],
      rule codec_bind [OF codec_opt_id], rule codec_u64, rule codec_bind [OF codec_u8], rule codec_done)
    (use assms in auto)

lemma codec_subgroup_stream:
  assumes "is_subgroup (sg_header_type sg)"
    and "has_subgroup_id (sg_header_type sg) \<or> sg_subgroup_id sg = None"
  shows "codec (subgroup_header_encode sg) stream_header_decode
    \<lparr>sh_header_type = sg_header_type sg, sh_subgroup_header = Some sg, sh_fetch_header = None\<rparr>"
  unfolding subgroup_header_encode_def [abs_def] stream_header_decode_def [abs_def]
proof (rule codec_bind [OF codec_stream_header_type])
  let ?t = "sg_header_type sg"
  have "(\<lambda>r. bindE (opt_decode (is_subgroup ?t) (subgroup_header_decode ?t) r) (\<lambda>(s, r).
      bindE (opt_decode (is_fetch ?t) (fetch_header_decode ?t) r) (\<lambda>(f, r).
      Inr (\<lparr>sh_header_type = ?t, sh_subgroup_header = s, sh_fetch_header = f\<rparr>, r)))) =
    (\<lambda>r. bindE (subgroup_header_decode ?t r) (\<lambda>(s, r).
      Inr (\<lparr>sh_header_type = ?t, sh_subgroup_header = Some s, sh_fetch_header = None\<rparr>, r)))"
    using assms(1) fetch_not_subgroup [of ?t]
    by (auto simp: fun_eq_iff opt_decode_def bindE_assoc intro!: bindE_cong)
  then show "codec (\<lambda>w. bindE (u64_encode (sg_track_alias sg) w) (\<lambda>w.
     bindE (u64_encode (sg_group_id sg) w) (\<lambda>w.
     bindE (opt_encode (has_subgroup_id ?t) ''SubgroupId'' (sg_subgroup_id sg) u64_encode w) (\<lambda>w.
     bindE (u8_encode (sg_publisher_priority sg) w) (\<lambda>w. Inr w)))))
    (\<lambda>r. bindE (opt_decode (is_subgroup ?t) (subgroup_header_decode ?t) r) (\<lambda>(s, r).
      bindE (opt_decode (is_fetch ?t) (fetch_header_decode ?t) r) (\<lambda>(f, r).
      Inr (\<lparr>sh_header_type = ?t, sh_subgroup_header = s, sh_fetch_header = f\<rparr>, r))))
    \<lparr>sh_header_type = ?t, sh_subgroup_header = Some sg, sh_fetch_header = None\<rparr>"
    using codec_map [OF codec_subgroup_fields [OF assms(2)] refl] by simp
qed

lemma codec_fetch_stream:
  assumes "is_fetch (fh_header_type f)"
  shows "codec (fetch_header_encode f) stream_header_decode
    \<lparr>sh_header_type = fh_header_type f, sh_subgroup_header = None, sh_fetch_header = Some f\<rparr>"
  unfolding fetch_header_encode_def [abs_def] stream_header_decode_def [abs_def]
proof (rule codec_bind [OF codec_stream_header_type])
  let ?t = "fh_header_type f"
  have "(\<lambda>r. bindE (opt_decode (is_subgroup ?t) (subgroup_header_decode ?t) r) (\<lambda>(s, r).
      bindE (opt_decode (is_fetch ?t) (fetch_header_decode ?t) r) (\<lambda>(f, r).
      Inr (\<lparr>sh_header_type = ?t, sh_subgroup_header = s, sh_fetch_header = f\<rparr>, r)))) =
    (\<lambda>r. bindE (u64_decode r) (\<lambda>(i, r). Inr (\<lparr>sh_header_type = ?t, sh_subgroup_header = None,
      sh_fetch_header = Some \<lparr>fh_header_type = ?t, fh_request_id = i\<rparr>\<rparr>, r)))"
    using assms fetch_not_subgroup [of ?t]
    by (auto simp: fun_eq_iff opt_decode_def fetch_header_decode_def bindE_assoc intro!: bindE_cong)
  then show "codec (\<lambda>w. bindE (u64_encode (fh_request_id f) w) (\<lambda>w. Inr w))
    (\<lambda>r. bindE (opt_decode (is_subgroup ?t) (subgroup_header_decode ?t) r) (\<lambda>(s, r).
      bindE (opt_decode (is_fetch ?t) (fetch_header_decode ?t) r) (\<lambda>(f, r).
      Inr (\<lparr>sh_header_type = ?t, sh_subgroup_header = s, sh_fetch_header = f\<rparr>, r))))
    \<lparr>sh_header_type = ?t, sh_subgroup_header = None, sh_fetch_header = Some f\<rparr>"
    by (simp only:) (rule codec_bind [OF codec_u64], rule codec_done, simp)
qed

lemma codec_stream_header [codec_rules]:
  assumes "stream_header_wf h"
  shows "codec (stream_header_encode h) stream_header_decode h"
proof (cases "sh_subgroup_header h")
  case None
  with assms obtain f where f: "sh_fetch_header h = Some f" "is_fetch (sh_header_type h)"
      "fh_header_type f = sh_header_type h"
    by (auto simp: stream_header_wf_def split: option.splits)
  then have h: "\<lparr>sh_header_type = fh_header_type f, sh_subgroup_header = None, sh_fetch_header = Some f\<rparr> = h"
    using None by simp
  show ?thesis
    using f codec_fetch_stream [of f] fetch_not_subgroup [OF f(2)]
    unfolding h by (simp add: stream_header_encode_def [abs_def])
next
  case (Some sg)
  with assms have sg: "sh_fetch_header h = None" "is_subgroup (sh_header_type h)"
      "sg_header_type sg = sh_header_type h"
      "has_subgroup_id (sh_header_type h) \<or> sg_subgroup_id sg = None"
    by (auto simp: stream_header_wf_def split: option.splits)
  then have h: "\<lparr>sh_header_type = sg_header_type sg, sh_subgroup_header = Some sg, sh_fetch_header = None\<rparr> = h"
    using Some by simp
  show ?thesis
    using sg Some codec_subgroup_stream [of sg]
    unfolding h by (simp add: stream_header_encode_def [abs_def])
qed

interpretation stream_hdr: wire_type stream_header_encode stream_header_decode stream_header_wf id
  by unfold_locales (auto intro: decoder_stream_header codec_stream_header)

subsection \<open>Subgroup objects\<close>

lemma decoder_subgroup_object [decoder_rules]: "decoder subgroup_object_decode"
  unfolding subgroup_object_decode_def [abs_def] by (intro decoder_rules)

definition subgroup_object_wf :: "subgroup_object \<Rightarrow> bool" where
  "subgroup_object_wf obj \<longleftrightarrow> so_payload_length obj = 0 \<or> so_status obj = None"

lemma codec_subgroup_object [codec_rules]:
  assumes "subgroup_object_wf obj"
  shows "codec (subgroup_object_encode obj) subgroup_object_decode obj"
  unfolding subgroup_object_encode_def [abs_def] subgroup_object_decode_def [abs_def]
  by (rule codec_bind [OF codec_u64], rule codec_bind [OF codec_usize],
      rule codec_bind [OF codec_opt_id], rule codec_object_status, rule codec_done)
    (use assms in \<open>auto simp: subgroup_object_wf_def\<close>)

interpretation sg_object: wire_type subgroup_object_encode subgroup_object_decode subgroup_object_wf id
  by unfold_locales (auto intro: decoder_subgroup_object codec_subgroup_object)

lemma decoder_subgroup_object_ext [decoder_rules]: "decoder subgroup_object_ext_decode"
  unfolding subgroup_object_ext_decode_def [abs_def] by (intro decoder_rules) simp

definition subgroup_object_ext_wf :: "subgroup_object_ext \<Rightarrow> bool" where
  "subgroup_object_ext_wf obj \<longleftrightarrow> soe_payload_length obj = 0 \<or> soe_status obj = None"

definition subgroup_object_ext_normal :: "subgroup_object_ext \<Rightarrow> subgroup_object_ext" where
  "subgroup_object_ext_normal obj =
     obj\<lparr>soe_extension_headers := sort_key kvp_key (soe_extension_headers obj)\<rparr>"

lemma sort_key_Nil_iff [simp]: "sort_key f xs = [] \<longleftrightarrow> xs = []"
  by (metis length_0_conv length_sort)

lemma codec_status_checked:
  "codec (opt_encode b ''Status'' f (\<lambda>s w. if s \<noteq> NormalObject \<and> c then Inl err else object_status_encode s w))
     (opt_decode b object_status_decode) (if b then f else None)"
  by (rule codec_opt_id, rule codec_encoder_check) (rule codec_object_status)

text \<open>Past the encoder's status check the decoder's check passes as well.\<close>

lemma status_checked_writes:
  assumes "opt_encode b ''Status'' f (\<lambda>s w. if s \<noteq> NormalObject \<and> c then Inl err else object_status_encode s w) w = Inr w'"
  shows "\<not> status_conflict (if b then f else None) c"
  using assms by (auto simp: opt_encode_def status_conflict_def split: if_splits option.splits)

lemma codec_status_then:
  assumes "\<not> status_conflict (if b then f else None) c \<Longrightarrow> codec e (d (if b then f else None)) y"
  shows "codec (\<lambda>w. bindE (opt_encode b ''Status'' f (\<lambda>s w.
      if s \<noteq> NormalObject \<and> c then Inl err else object_status_encode s w) w) e)
    (\<lambda>r. bindE (opt_decode b object_status_decode r) (\<lambda>(s, r). d s r)) y"
proof (cases "status_conflict (if b then f else None) c")
  case True
  then show ?thesis using status_checked_writes by (fastforce simp: codec_def)
next
  case False
  show ?thesis by (rule codec_bind [OF codec_status_checked]) (rule assms [OF False])
qed

lemma codec_subgroup_object_ext [codec_rules]:
  assumes "subgroup_object_ext_wf obj"
  shows "codec (subgroup_object_ext_encode obj) subgroup_object_ext_decode (subgroup_object_ext_normal obj)"
  unfolding subgroup_object_ext_encode_def [abs_def] subgroup_object_ext_decode_def [abs_def]
  by (rule codec_bind [OF codec_u64], rule codec_bind [OF codec_extension_headers],
      rule codec_bind [OF codec_usize], rule codec_status_then)
    (use assms in \<open>auto simp: subgroup_object_ext_wf_def subgroup_object_ext_normal_def intro!: codec_done\<close>)

interpretation sg_object_ext: wire_type subgroup_object_ext_encode subgroup_object_ext_decode
  subgroup_object_ext_wf subgroup_object_ext_normal
  by unfold_locales (auto intro: decoder_subgroup_object_ext codec_subgroup_object_ext)

subsection \<open>Datagrams\<close>

lemma decoder_nonempty_extensions [decoder_rules]: "decoder nonempty_extensions_decode"
  unfolding nonempty_extensions_decode_def [abs_def] by (intro decoder_rules) simp

lemma codec_nonempty_extensions:
  "codec (nonempty_extensions_encode ks) nonempty_extensions_decode (sort_key kvp_key ks)"
  unfolding nonempty_extensions_encode_def [abs_def]
proof (rule codec_encoder_check)
  assume "ks \<noteq> []"
  then have "codec (\<lambda>w. bindE (extension_headers_encode ks w) Inr) nonempty_extensions_decode (sort_key kvp_key ks)"
    unfolding nonempty_extensions_decode_def [abs_def]
    by (intro codec_bind [OF codec_extension_headers]) (simp add: codec_return)
  then show "codec (extension_headers_encode ks) nonempty_extensions_decode (sort_key kvp_key ks)" by simp
qed

text \<open>What a datagram keeps on the wire: the fields its type has.\<close>

definition datagram_normal :: "datagram \<Rightarrow> datagram" where
  "datagram_normal d =
     (let t = dg_datagram_type d in
      d\<lparr>dg_object_id := (if dg_has_object_id t then dg_object_id d else None),
        dg_extension_headers := (if dg_has_extension_headers t
          then map_option (sort_key kvp_key) (dg_extension_headers d) else None),
        dg_status := (if dg_has_status t then dg_status d else None),
        dg_payload := (if dg_has_payload t then dg_payload d else None)\<rparr>)"

lemma payload_codec_rest:
  assumes "\<And>p. f = Some p \<Longrightarrow> b \<Longrightarrow> d p = Inr (y, [])" and "\<not> b \<Longrightarrow> d [] = Inr (y, [])"
  shows "payload_codec (\<lambda>w. bindE (opt_encode b name f checked_put w) (\<lambda>w. Inr w)) d y"
proof (cases "b \<and> f \<noteq> None")
  case True
  then obtain p where "f = Some p" b by auto
  then show ?thesis
    using assms(1) writes_checked_put [of p] by (auto simp: payload_codec_def opt_encode_def [abs_def])
next
  case False
  then show ?thesis
    using assms(2) writes_return by (cases b) (auto simp: payload_codec_def opt_encode_def [abs_def])
qed

lemma payload_codec_status_then:
  assumes "\<not> status_conflict (if b then f else None) c \<Longrightarrow> payload_codec e (d (if b then f else None)) y"
  shows "payload_codec (\<lambda>w. bindE (opt_encode b ''Status'' f (\<lambda>s w.
      if s \<noteq> NormalObject \<and> c then Inl err else object_status_encode s w) w) e)
    (\<lambda>r. bindE (opt_decode b object_status_decode r) (\<lambda>(s, r). d s r)) y"
proof (cases "status_conflict (if b then f else None) c")
  case True
  then show ?thesis using status_checked_writes by (fastforce simp: payload_codec_def)
next
  case False
  show ?thesis by (rule payload_codec_bind [OF codec_status_checked]) (rule assms [OF False])
qed

lemma status_conflict_mono: "\<not> status_conflict s c \<Longrightarrow> (c' \<Longrightarrow> c) \<Longrightarrow> \<not> status_conflict s c'"
  by (auto simp: status_conflict_def)

lemma payload_codec_datagram:
  "payload_codec (datagram_encode d) datagram_decode (datagram_normal d)"
  unfolding datagram_encode_def [abs_def] datagram_decode_def [abs_def] Let_def
    conj_commute [of "dg_extension_headers d \<noteq> None"]
  by (rule payload_codec_bind [OF codec_datagram_type], rule payload_codec_bind [OF codec_u64],
      rule payload_codec_bind [OF codec_u64], rule payload_codec_bind [OF codec_opt_id], rule codec_u64,
      rule payload_codec_bind [OF codec_u8],
      rule payload_codec_bind [OF codec_opt], rule codec_nonempty_extensions,
      rule payload_codec_status_then, rule payload_codec_rest)
    (auto simp: datagram_normal_def Let_def status_conflict_def split: if_splits)

lemma no_panic_datagram: "no_panic datagram_decode"
  unfolding datagram_decode_def [abs_def]
  by (intro no_panic_bind no_panic_decoder [OF decoder_datagram_type] no_panic_decoder [OF decoder_u64]
      no_panic_decoder [OF decoder_u8] no_panic_decoder [OF decoder_opt [OF decoder_u64]]
      no_panic_decoder [OF decoder_opt [OF decoder_nonempty_extensions]]
      no_panic_decoder [OF decoder_opt [OF decoder_object_status]])
    (simp add: no_panic_def)

text \<open>Every datagram that decodes obeys the field rules.\<close>

lemma opt_decode_result:
  "opt_decode b d r = Inr (x, r') \<Longrightarrow> (x \<noteq> None \<longleftrightarrow> b) \<and> (\<forall>y. x = Some y \<longrightarrow> (\<exists>r1. d r = Inr (y, r1)))"
  by (auto simp: opt_decode_def split: if_splits)

definition datagram_fields_ok :: "datagram \<Rightarrow> bool" where
  "datagram_fields_ok d \<longleftrightarrow>
     (dg_object_id d \<noteq> None \<longleftrightarrow> dg_has_object_id (dg_datagram_type d)) \<and>
     (dg_extension_headers d \<noteq> None \<longleftrightarrow> dg_has_extension_headers (dg_datagram_type d)) \<and>
     (dg_status d \<noteq> None \<longleftrightarrow> dg_has_status (dg_datagram_type d)) \<and>
     (dg_payload d \<noteq> None \<longleftrightarrow> dg_has_payload (dg_datagram_type d)) \<and>
     dg_extension_headers d \<noteq> Some [] \<and>
     \<not> status_conflict (dg_status d) (dg_extension_headers d \<noteq> None)"

lemma datagram_decode_ok:
  assumes "datagram_decode r = Inr (d, r')"
  shows "datagram_fields_ok d"
proof -
  from assms obtain r3 r4 r5 r6 r7 rest where
      1: "opt_decode (dg_has_object_id (dg_datagram_type d)) u64_decode r3 = Inr (dg_object_id d, r4)"
    and 2: "opt_decode (dg_has_extension_headers (dg_datagram_type d)) nonempty_extensions_decode r5 =
        Inr (dg_extension_headers d, r6)"
    and 3: "opt_decode (dg_has_status (dg_datagram_type d)) object_status_decode r6 = Inr (dg_status d, r7)"
    and 4: "\<not> status_conflict (dg_status d) (dg_extension_headers d \<noteq> None)"
    and 5: "dg_payload d = (if dg_has_payload (dg_datagram_type d) then Some r7 else None)"
    unfolding datagram_decode_def by (fastforce split: if_splits)
  have "dg_extension_headers d \<noteq> Some []"
    using opt_decode_result [OF 2] by (auto simp: nonempty_extensions_decode_def split: if_splits)
  with opt_decode_result [OF 1] opt_decode_result [OF 2] opt_decode_result [OF 3] 4 5
  show ?thesis by (simp add: datagram_fields_ok_def)
qed

end
