(* ===== verification/Fetch_Stream.thy ===== *)
theory Fetch_Stream
  imports Data_Plane
begin

unbundle bit_operations_syntax

text \<open>
  The framing of FETCH data streams (\<^verbatim>\<open>moq-transport/src/data/fetch.rs\<close>): objects whose
  fields may be inherited from the prior object, and end-of-range markers. Encoder and
  decoder each keep the prior object as state. They do not keep the same state: after a
  marker the encoder forgets its prior, while the decoder moves its prior to the marker's
  location. The simulation below shows that this difference is harmless.
\<close>

section \<open>Serialization flags\<close>

definition SUBGROUP_MASK :: u64 where "SUBGROUP_MASK = 0x03"
definition SUBGROUP_ZERO :: u64 where "SUBGROUP_ZERO = 0x00"
definition SUBGROUP_PRIOR :: u64 where "SUBGROUP_PRIOR = 0x01"
definition SUBGROUP_PRIOR_PLUS_ONE :: u64 where "SUBGROUP_PRIOR_PLUS_ONE = 0x02"
definition SUBGROUP_PRESENT :: u64 where "SUBGROUP_PRESENT = 0x03"
definition OBJECT_ID :: u64 where "OBJECT_ID = 0x04"
definition GROUP_ID :: u64 where "GROUP_ID = 0x08"
definition PRIORITY :: u64 where "PRIORITY = 0x10"
definition EXTENSIONS :: u64 where "EXTENSIONS = 0x20"
definition DATAGRAM :: u64 where "DATAGRAM = 0x40"
definition FIRST_NON_FLAG_VALUE :: u64 where "FIRST_NON_FLAG_VALUE = 0x80"
definition END_OF_NON_EXISTENT_RANGE :: u64 where "END_OF_NON_EXISTENT_RANGE = 0x8c"
definition END_OF_UNKNOWN_RANGE :: u64 where "END_OF_UNKNOWN_RANGE = 0x10c"

lemmas flag_defs = SUBGROUP_MASK_def SUBGROUP_ZERO_def SUBGROUP_PRIOR_def SUBGROUP_PRIOR_PLUS_ONE_def
  SUBGROUP_PRESENT_def OBJECT_ID_def GROUP_ID_def PRIORITY_def EXTENSIONS_def DATAGRAM_def
  FIRST_NON_FLAG_VALUE_def END_OF_NON_EXISTENT_RANGE_def END_OF_UNKNOWN_RANGE_def

section \<open>Entries\<close>

record fetch_object =
  fo_group_id :: u64
  fo_subgroup_id :: "u64 option"
  fo_object_id :: u64
  fo_publisher_priority :: u8
  fo_extension_headers :: extension_headers
  fo_payload_length :: nat

definition fetch_object_location :: "fetch_object \<Rightarrow> location" where
  "fetch_object_location obj = Location_new (fo_group_id obj) (fo_object_id obj)"

datatype fetch_end_of_range = NonExistent | UnknownRange

datatype fetch_entry =
    FetchEntryObject fetch_object
  | EndOfRange fetch_end_of_range location

record prior_object =
  po_group_id :: u64
  po_subgroup_id :: "u64 option"
  po_object_id :: u64
  po_publisher_priority :: u8

definition prior_of :: "fetch_object \<Rightarrow> prior_object" where
  "prior_of obj =
     \<lparr>po_group_id = fo_group_id obj, po_subgroup_id = fo_subgroup_id obj,
      po_object_id = fo_object_id obj, po_publisher_priority = fo_publisher_priority obj\<rparr>"

section \<open>Encoder\<close>

text \<open>\<^verbatim>\<open>Option::is_none_or\<close>.\<close>

definition is_none_or :: "'a option \<Rightarrow> ('a \<Rightarrow> bool) \<Rightarrow> bool" where
  "is_none_or x P = (case x of None \<Rightarrow> True | Some a \<Rightarrow> P a)"

definition enc_when :: "bool \<Rightarrow> enc \<Rightarrow> enc" where
  "enc_when b e w = (if b then e w else Inr w)"

definition subgroup_flags :: "u64 option \<Rightarrow> prior_object option \<Rightarrow> u64" where
  "subgroup_flags subgroup_id prior =
     (case subgroup_id of
        None \<Rightarrow> DATAGRAM
      | Some s \<Rightarrow>
          if s = 0 then SUBGROUP_ZERO
          else
            case prior of
              None \<Rightarrow> SUBGROUP_PRESENT
            | Some p \<Rightarrow>
                (case po_subgroup_id p of
                   None \<Rightarrow> SUBGROUP_PRESENT
                 | Some ps \<Rightarrow>
                     if s = ps then SUBGROUP_PRIOR
                     else if Some s = u64_checked_add ps 1 then SUBGROUP_PRIOR_PLUS_ONE
                     else SUBGROUP_PRESENT))"

definition flag_if :: "bool \<Rightarrow> u64 \<Rightarrow> u64 \<Rightarrow> u64" where
  "flag_if b f flags = (if b then flags OR f else flags)"

text \<open>\<open>encode_object\<close> returns the encoder's next prior beside the buffer.\<close>

definition encode_object ::
    "prior_object option \<Rightarrow> fetch_object \<Rightarrow> wbuf \<Rightarrow> encode_error + (prior_object option \<times> wbuf)" where
  "encode_object prior obj w =
     (let group_present = is_none_or prior (\<lambda>p. po_group_id p \<noteq> fo_group_id obj);
          object_present = group_present \<or>
            is_none_or prior (\<lambda>p. u64_checked_add (po_object_id p) 1 \<noteq> Some (fo_object_id obj));
          priority_present = is_none_or prior (\<lambda>p. po_publisher_priority p \<noteq> fo_publisher_priority obj);
          extensions_present = (fo_extension_headers obj \<noteq> []);
          flags = flag_if extensions_present EXTENSIONS
            (flag_if priority_present PRIORITY
            (flag_if object_present OBJECT_ID
            (flag_if group_present GROUP_ID
              (subgroup_flags (fo_subgroup_id obj) prior))))
      in
        bindE (u64_encode flags w) (\<lambda>w.
        bindE (enc_when group_present (u64_encode (fo_group_id obj)) w) (\<lambda>w.
        bindE (enc_when (flags AND DATAGRAM = 0 \<and> flags AND SUBGROUP_MASK = SUBGROUP_PRESENT)
            (\<lambda>w. bindE (ok_or (fo_subgroup_id obj) (EncMissingField ''SubgroupId'')) (\<lambda>s. u64_encode s w)) w) (\<lambda>w.
        bindE (enc_when object_present (u64_encode (fo_object_id obj)) w) (\<lambda>w.
        bindE (enc_when priority_present (u8_encode (fo_publisher_priority obj)) w) (\<lambda>w.
        bindE (enc_when extensions_present (extension_headers_encode (fo_extension_headers obj)) w) (\<lambda>w.
        bindE (usize_encode (fo_payload_length obj) w) (\<lambda>w.
          Inr (Some (prior_of obj), w)))))))))"

definition encode_end_of_range ::
    "fetch_end_of_range \<Rightarrow> location \<Rightarrow> wbuf \<Rightarrow> encode_error + (prior_object option \<times> wbuf)" where
  "encode_end_of_range kind loc w =
     (let flags = (case kind of NonExistent \<Rightarrow> END_OF_NON_EXISTENT_RANGE
                              | UnknownRange \<Rightarrow> END_OF_UNKNOWN_RANGE) in
      bindE (u64_encode flags w) (\<lambda>w.
      bindE (u64_encode (group_id loc) w) (\<lambda>w.
      bindE (u64_encode (object_id loc) w) (\<lambda>w. Inr (None, w)))))"

section \<open>Decoder\<close>

text \<open>A field that is read when its flag is set and inherited otherwise.\<close>

definition present_or :: "bool \<Rightarrow> 'a dec \<Rightarrow> (decode_error + 'a) \<Rightarrow> 'a dec" where
  "present_or present d inherited r =
     (if present then d r else bindE inherited (\<lambda>x. Inr (x, r)))"

definition prior_subgroup :: "prior_object option \<Rightarrow> decode_error + u64" where
  "prior_subgroup prior =
     bindE (ok_or prior InvalidValue) (\<lambda>p. ok_or (po_subgroup_id p) InvalidValue)"

definition subgroup_decode :: "u64 \<Rightarrow> prior_object option \<Rightarrow> u64 option dec" where
  "subgroup_decode flags prior r =
     (if flags AND DATAGRAM \<noteq> 0 then Inr (None, r)
      else if flags AND SUBGROUP_MASK = SUBGROUP_ZERO then Inr (Some 0, r)
      else if flags AND SUBGROUP_MASK = SUBGROUP_PRIOR then
        bindE (prior_subgroup prior) (\<lambda>s. Inr (Some s, r))
      else if flags AND SUBGROUP_MASK = SUBGROUP_PRIOR_PLUS_ONE then
        bindE (bindE (prior_subgroup prior) (\<lambda>s. ok_or (u64_checked_add s 1) InvalidValue)) (\<lambda>s.
          Inr (Some s, r))
      else bindE (u64_decode r) (\<lambda>(s, r). Inr (Some s, r)))"

definition end_of_range_kind :: "u64 \<Rightarrow> decode_error + fetch_end_of_range" where
  "end_of_range_kind flags =
     (if flags = END_OF_NON_EXISTENT_RANGE then Inr NonExistent
      else if flags = END_OF_UNKNOWN_RANGE then Inr UnknownRange
      else Inl InvalidValue)"

text \<open>
  \<^verbatim>\<open>decode_contiguous\<close> from prior \<open>prior\<close>: the entry and the decoder's next prior.
\<close>

definition decode_contiguous :: "prior_object option \<Rightarrow> (fetch_entry \<times> prior_object option) dec" where
  "decode_contiguous prior r =
     bindE (u64_decode r) (\<lambda>(flags, r).
       if flags \<ge> FIRST_NON_FLAG_VALUE then
         bindE (end_of_range_kind flags) (\<lambda>kind.
         bindE (u64_decode r) (\<lambda>(g, r).
         bindE (u64_decode r) (\<lambda>(obj, r).
           Inr ((EndOfRange kind (Location_new g obj),
                 map_option (\<lambda>p. p\<lparr>po_group_id := g, po_object_id := obj\<rparr>) prior), r))))
       else
         bindE (present_or (flags AND GROUP_ID \<noteq> 0) u64_decode
             (bindE (ok_or prior InvalidValue) (\<lambda>p. Inr (po_group_id p))) r) (\<lambda>(g, r).
         bindE (subgroup_decode flags prior r) (\<lambda>(sg, r).
         bindE (present_or (flags AND OBJECT_ID \<noteq> 0) u64_decode
             (bindE (ok_or prior InvalidValue) (\<lambda>p. ok_or (u64_checked_add (po_object_id p) 1) InvalidValue)) r) (\<lambda>(obj, r).
         bindE (present_or (flags AND PRIORITY \<noteq> 0) u8_decode
             (bindE (ok_or prior InvalidValue) (\<lambda>p. Inr (po_publisher_priority p))) r) (\<lambda>(prio, r).
         bindE (present_or (flags AND EXTENSIONS \<noteq> 0) extension_headers_decode (Inr []) r) (\<lambda>(ext, r).
         bindE (usize_decode r) (\<lambda>(len, r).
           let fo = \<lparr>fo_group_id = g, fo_subgroup_id = sg, fo_object_id = obj,
                     fo_publisher_priority = prio, fo_extension_headers = ext, fo_payload_length = len\<rparr>
           in Inr ((FetchEntryObject fo, Some (prior_of fo)), r))))))))"

text \<open>\<^verbatim>\<open>FetchObjectDecoder::decode\<close>: the entry, the bytes it took, and the decoder's state.\<close>

definition fetch_decoder_decode ::
    "prior_object option \<Rightarrow> bytes \<Rightarrow> (decode_error + (fetch_entry \<times> nat)) \<times> prior_object option" where
  "fetch_decoder_decode prior buf =
     (case decode_contiguous prior buf of
        Inl e \<Rightarrow> (Inl e, prior)
      | Inr ((entry, prior'), rest) \<Rightarrow> (Inr (entry, length buf - length rest), prior'))"

section \<open>One entry\<close>

lemma prior_subgroup_no_panic [simp]: "prior_subgroup prior \<noteq> Inl DecPanic"
  by (auto simp: prior_subgroup_def bindE_eq_Inl)

lemma decoder_present_or [decoder_rules]:
  "decoder d \<Longrightarrow> m \<noteq> Inl DecPanic \<Longrightarrow> decoder (present_or b d m)"
  unfolding present_or_def [abs_def] by (intro decoder_rules)

lemma decoder_subgroup [decoder_rules]: "decoder (subgroup_decode flags prior)"
  unfolding subgroup_decode_def [abs_def] by (intro decoder_rules) (auto simp: bindE_eq_Inl)

lemma end_of_range_kind_no_panic [simp]: "end_of_range_kind flags \<noteq> Inl DecPanic"
  by (simp add: end_of_range_kind_def)

lemma decoder_contiguous [decoder_rules]: "decoder (decode_contiguous prior)"
  unfolding decode_contiguous_def [abs_def] Let_def
  by (intro decoder_rules) (auto simp: bindE_eq_Inl)

lemma codec_present:
  assumes "b \<Longrightarrow> codec e d x" and "\<not> b \<Longrightarrow> m = Inr x"
  shows "codec (enc_when b e) (present_or b d m) x"
  using assms by (cases b) (simp_all add: enc_when_def [abs_def] present_or_def [abs_def] codec_return)

text \<open>The flag word carries the five decisions independently.\<close>

lemma flags_read:
  assumes "s \<in> {0x40, 0, 1, 2, 3}"
    and "flags = flag_if e EXTENSIONS (flag_if p PRIORITY (flag_if ob OBJECT_ID (flag_if g GROUP_ID s)))"
  shows "flags AND GROUP_ID \<noteq> 0 \<longleftrightarrow> g" "flags AND OBJECT_ID \<noteq> 0 \<longleftrightarrow> ob"
    "flags AND PRIORITY \<noteq> 0 \<longleftrightarrow> p" "flags AND EXTENSIONS \<noteq> 0 \<longleftrightarrow> e"
    "flags AND DATAGRAM = s AND DATAGRAM" "flags AND SUBGROUP_MASK = s AND SUBGROUP_MASK"
    "\<not> flags \<ge> FIRST_NON_FLAG_VALUE"
  using assms
  by (auto simp: flag_if_def flag_defs word_le_nat_alt split: if_splits)

lemma subgroup_flags_range: "subgroup_flags sg prior \<in> {0x40, 0, 1, 2, 3}"
  by (auto simp: subgroup_flags_def flag_defs split: option.splits)

lemma codec_subgroup:
  assumes s: "s = subgroup_flags sg prior" and same: "prior = None \<or> prior = prior'"
    and f: "flags AND DATAGRAM = s AND DATAGRAM" "flags AND SUBGROUP_MASK = s AND SUBGROUP_MASK"
  shows "codec (enc_when (flags AND DATAGRAM = 0 \<and> flags AND SUBGROUP_MASK = SUBGROUP_PRESENT)
      (\<lambda>w. bindE (ok_or sg (EncMissingField ''SubgroupId'')) (\<lambda>s. u64_encode s w)))
    (subgroup_decode flags prior') sg"
proof -
  have present: "codec (u64_encode x) (\<lambda>r. bindE (u64_decode r) (\<lambda>(s, r). Inr (Some s, r))) (Some x)" for x
    by (rule codec_map [OF codec_u64]) simp
  show ?thesis
    using same unfolding enc_when_def [abs_def] subgroup_decode_def [abs_def] f s
    by (auto simp: subgroup_flags_def flag_defs prior_subgroup_def codec_return present
        split: option.splits)
qed

definition object_normal :: "fetch_object \<Rightarrow> fetch_object" where
  "object_normal obj = obj\<lparr>fo_extension_headers := sort_key kvp_key (fo_extension_headers obj)\<rparr>"

lemma prior_of_normal [simp]: "prior_of (object_normal obj) = prior_of obj"
  by (simp add: prior_of_def object_normal_def)

text \<open>The bytes of an object, apart from the state they are computed from.\<close>

definition object_enc :: "prior_object option \<Rightarrow> fetch_object \<Rightarrow> enc" where
  "object_enc prior obj w = bindE (encode_object prior obj w) (\<lambda>(_, w). Inr w)"

definition end_of_range_enc :: "fetch_end_of_range \<Rightarrow> location \<Rightarrow> enc" where
  "end_of_range_enc kind loc w = bindE (encode_end_of_range kind loc w) (\<lambda>(_, w). Inr w)"

lemma encode_object_eq:
  "encode_object prior obj w = bindE (object_enc prior obj w) (\<lambda>w. Inr (Some (prior_of obj), w))"
  by (auto simp: object_enc_def encode_object_def Let_def bindE_assoc intro!: bindE_cong)

lemma encode_end_of_range_eq:
  "encode_end_of_range kind loc w = bindE (end_of_range_enc kind loc w) (\<lambda>w. Inr (None, w))"
  by (auto simp: end_of_range_enc_def encode_end_of_range_def Let_def bindE_assoc intro!: bindE_cong)

lemma codec_object:
  assumes same: "prior = None \<or> prior = prior'"
  shows "codec (object_enc prior obj) (decode_contiguous prior')
    (FetchEntryObject (object_normal obj), Some (prior_of obj))"
proof -
  define g where "g \<longleftrightarrow> is_none_or prior (\<lambda>p. po_group_id p \<noteq> fo_group_id obj)"
  define ob where "ob \<longleftrightarrow> g \<or>
    is_none_or prior (\<lambda>p. u64_checked_add (po_object_id p) 1 \<noteq> Some (fo_object_id obj))"
  define p where "p \<longleftrightarrow> is_none_or prior (\<lambda>p. po_publisher_priority p \<noteq> fo_publisher_priority obj)"
  define e where "e \<longleftrightarrow> fo_extension_headers obj \<noteq> []"
  define s where "s = subgroup_flags (fo_subgroup_id obj) prior"
  define flags where
    "flags = flag_if e EXTENSIONS (flag_if p PRIORITY (flag_if ob OBJECT_ID (flag_if g GROUP_ID s)))"
  note bits = flags_read [OF subgroup_flags_range [of "fo_subgroup_id obj" prior, folded s_def] flags_def]
  have enc: "object_enc prior obj = (\<lambda>w.
      bindE (u64_encode flags w) (\<lambda>w.
      bindE (enc_when g (u64_encode (fo_group_id obj)) w) (\<lambda>w.
      bindE (enc_when (flags AND DATAGRAM = 0 \<and> flags AND SUBGROUP_MASK = SUBGROUP_PRESENT)
          (\<lambda>w. bindE (ok_or (fo_subgroup_id obj) (EncMissingField ''SubgroupId'')) (\<lambda>s. u64_encode s w)) w) (\<lambda>w.
      bindE (enc_when ob (u64_encode (fo_object_id obj)) w) (\<lambda>w.
      bindE (enc_when p (u8_encode (fo_publisher_priority obj)) w) (\<lambda>w.
      bindE (enc_when e (extension_headers_encode (fo_extension_headers obj)) w) (\<lambda>w.
      bindE (usize_encode (fo_payload_length obj) w) (\<lambda>w. Inr w))))))))"
    by (simp add: object_enc_def [abs_def] encode_object_def Let_def bindE_assoc g_def ob_def p_def e_def
        s_def flags_def)
  have inherit:
    "\<not> g \<Longrightarrow> bindE (ok_or prior' InvalidValue) (\<lambda>p. Inr (po_group_id p)) = Inr (fo_group_id obj)"
    "\<not> ob \<Longrightarrow> bindE (ok_or prior' InvalidValue) (\<lambda>p. ok_or (u64_checked_add (po_object_id p) 1) InvalidValue)
      = Inr (fo_object_id obj)"
    "\<not> p \<Longrightarrow> bindE (ok_or prior' InvalidValue) (\<lambda>p. Inr (po_publisher_priority p)) = Inr (fo_publisher_priority obj)"
    "\<not> e \<Longrightarrow> Inr [] = Inr (sort_key kvp_key (fo_extension_headers obj))"
    using same by (auto simp: g_def ob_def p_def e_def is_none_or_def split: option.splits)
  show ?thesis
    unfolding enc decode_contiguous_def [abs_def]
    by (rule codec_bind [OF codec_u64], simp only: bits(1-4,7) if_False,
        rule codec_bind [OF codec_present [OF codec_u64 inherit(1)]], assumption,
        rule codec_bind [OF codec_subgroup [OF s_def same bits(5,6)]],
        rule codec_bind [OF codec_present [OF codec_u64 inherit(2)]], assumption,
        rule codec_bind [OF codec_present [OF codec_u8 inherit(3)]], assumption,
        rule codec_bind [OF codec_present [OF codec_extension_headers inherit(4)]], assumption,
        rule codec_bind [OF codec_usize], simp only: Let_def, rule codec_done)
      (simp add: object_normal_def prior_of_def)
qed

lemma codec_end_of_range:
  "codec (end_of_range_enc kind loc) (decode_contiguous prior)
    (EndOfRange kind loc,
     map_option (\<lambda>p. p\<lparr>po_group_id := group_id loc, po_object_id := object_id loc\<rparr>) prior)"
proof -
  define flags where "flags = (case kind of NonExistent \<Rightarrow> END_OF_NON_EXISTENT_RANGE
                                          | UnknownRange \<Rightarrow> END_OF_UNKNOWN_RANGE)"
  have flags: "flags \<ge> FIRST_NON_FLAG_VALUE" "end_of_range_kind flags = Inr kind"
    by (cases kind; simp add: flags_def flag_defs end_of_range_kind_def)+
  have enc: "end_of_range_enc kind loc = (\<lambda>w. bindE (u64_encode flags w) (\<lambda>w.
      bindE (u64_encode (group_id loc) w) (\<lambda>w. bindE (u64_encode (object_id loc) w) (\<lambda>w. Inr w))))"
    by (simp add: end_of_range_enc_def [abs_def] encode_end_of_range_def bindE_assoc flags_def)
  show ?thesis
    unfolding enc decode_contiguous_def [abs_def]
    by (rule codec_bind [OF codec_u64], simp only: flags if_True bindE.simps,
        rule codec_bind [OF codec_u64], rule codec_bind [OF codec_u64], rule codec_done)
      (simp add: Location_new_def)
qed

section \<open>The stream\<close>

text \<open>
  A stream as its owner drives it: after each object's fields the owner writes the payload,
  \<^verbatim>\<open>payload_length\<close> bytes of it; the reader takes that many bytes before the next entry.
\<close>

type_synonym fetch_item = "fetch_entry \<times> bytes"

definition item_ok :: "fetch_item \<Rightarrow> bool" where
  "item_ok i \<longleftrightarrow>
     (case fst i of
        FetchEntryObject obj \<Rightarrow> length (snd i) = fo_payload_length obj
      | EndOfRange _ _ \<Rightarrow> snd i = [])"

definition item_normal :: "fetch_item \<Rightarrow> fetch_item" where
  "item_normal i =
     (case fst i of
        FetchEntryObject obj \<Rightarrow> (FetchEntryObject (object_normal obj), snd i)
      | EndOfRange _ _ \<Rightarrow> i)"

definition encode_entry :: "prior_object option \<Rightarrow> fetch_entry \<Rightarrow> wbuf \<Rightarrow> encode_error + (prior_object option \<times> wbuf)" where
  "encode_entry prior entry w =
     (case entry of
        FetchEntryObject obj \<Rightarrow> encode_object prior obj w
      | EndOfRange kind loc \<Rightarrow> encode_end_of_range kind loc w)"

fun send_items :: "prior_object option \<Rightarrow> fetch_item list \<Rightarrow> enc" where
  "send_items prior [] w = Inr w"
| "send_items prior (i # is) w =
     bindE (encode_entry prior (fst i) w) (\<lambda>(prior, w).
     bindE (checked_put (snd i) w) (send_items prior is))"

definition entry_payload_length :: "fetch_entry \<Rightarrow> nat" where
  "entry_payload_length entry =
     (case entry of FetchEntryObject obj \<Rightarrow> fo_payload_length obj | EndOfRange _ _ \<Rightarrow> 0)"

primrec receive_items :: "nat \<Rightarrow> prior_object option \<Rightarrow> fetch_item list dec" where
  "receive_items 0 prior = (\<lambda>r. Inr ([], r))"
| "receive_items (Suc n) prior =
     (\<lambda>r. bindE (decode_contiguous prior r) (\<lambda>(entry_prior, r).
          bindE (read_exact (entry_payload_length (fst entry_prior)) r) (\<lambda>(payload, r).
          bindE (receive_items n (snd entry_prior) r) (\<lambda>(is, r).
            Inr ((fst entry_prior, payload) # is, r)))))"

text \<open>
  The simulation relation: the encoder's prior is either forgotten or the decoder's.
\<close>

definition priors_agree :: "prior_object option \<Rightarrow> prior_object option \<Rightarrow> bool" where
  "priors_agree enc_prior dec_prior \<longleftrightarrow> enc_prior = None \<or> enc_prior = dec_prior"

lemma entry_simulation:
  assumes "priors_agree prior prior'"
  obtains e q q' where
    "\<And>w. encode_entry prior entry w = bindE (e w) (\<lambda>w. Inr (q, w))"
    "codec e (decode_contiguous prior') (fst (item_normal (entry, [])), q')"
    "priors_agree q q'"
proof (cases entry)
  case (FetchEntryObject obj)
  then show thesis
    using assms encode_object_eq codec_object [of prior prior' obj]
    by (intro that [of "object_enc prior obj" "Some (prior_of obj)" "Some (prior_of obj)"])
      (auto simp: encode_entry_def item_normal_def priors_agree_def)
next
  case (EndOfRange kind loc)
  then show thesis
    using encode_end_of_range_eq codec_end_of_range [of kind loc prior']
    by (intro that [of "end_of_range_enc kind loc" None
          "map_option (\<lambda>p. p\<lparr>po_group_id := group_id loc, po_object_id := object_id loc\<rparr>) prior'"])
      (auto simp: encode_entry_def item_normal_def priors_agree_def)
qed

lemma item_normal_simps [simp]:
  "snd (item_normal i) = snd i" "fst (item_normal (fst i, [])) = fst (item_normal i)"
  "entry_payload_length (fst (item_normal i)) = entry_payload_length (fst i)"
  by (cases i; cases "fst i"; simp add: item_normal_def entry_payload_length_def object_normal_def)+

lemma item_ok_length: "item_ok i \<Longrightarrow> length (snd i) = entry_payload_length (fst i)"
  by (auto simp: item_ok_def entry_payload_length_def split: fetch_entry.splits)

lemma codec_items:
  "list_all item_ok is \<Longrightarrow> priors_agree prior prior' \<Longrightarrow>
   codec (send_items prior is) (receive_items (length is) prior') (map item_normal is)"
proof (induction "is" arbitrary: prior prior')
  case Nil
  then show ?case by (simp add: codec_return)
next
  case (Cons i "is")
  obtain e n n' where e: "\<And>w. encode_entry prior (fst i) w = bindE (e w) (\<lambda>w. Inr (n, w))"
      and cod: "codec e (decode_contiguous prior') (fst (item_normal (fst i, [])), n')" and agree: "priors_agree n n'"
    using entry_simulation [OF Cons.prems(2), of "fst i"] by metis
  have send: "send_items prior (i # is) = (\<lambda>w. bindE (e w) (\<lambda>w. bindE (checked_put (snd i) w) (send_items n is)))"
    by (simp add: fun_eq_iff e bindE_assoc)
  have len: "length (snd i) = entry_payload_length (fst (item_normal i))"
    using Cons.prems(1) by (simp add: item_ok_length)
  have tail: "codec (send_items n is)
      (\<lambda>r. bindE (receive_items (length is) n' r) (\<lambda>(is, r). Inr ((fst (item_normal i), snd i) # is, r)))
      (map item_normal (i # is))"
    by (rule codec_map [OF Cons.IH]) (use Cons.prems agree in \<open>auto simp: prod_eq_iff\<close>)
  show ?case
    unfolding send list.size(4) add_Suc_right add_0_right receive_items.simps
    by (rule codec_bind [OF cod], simp only: fst_conv snd_conv item_normal_simps(2),
        rule codec_bind [OF codec_bytes [OF len]], rule tail)
qed

end
