(* ===== verification/Stream_Properties.thy ===== *)
theory Stream_Properties
  imports Fetch_Stream
begin

text \<open>
  What the data plane guarantees: stream headers, subgroup objects, datagrams and FETCH
  entries round-trip, what a datagram decoder accepts obeys the field rules of its type,
  and no data-plane decoder panics.
\<close>

lemmas data_eval = u64_encode_eq usize_encode_eq varint_bytes_def checked_put_def encode_remaining_def
  put_slice_def fresh_vec_def u8_encode_def

text \<open>
  The objects of a subgroup stream arrive as they were sent, however the transport
  cuts the bytes: each object header with its extensions in key order.
\<close>

theorem subgroup_objects_over_any_chunking:
  assumes "list_all subgroup_object_ext_wf obs" and "encode_all subgroup_object_ext_encode obs = Inr bs"
    and "clean rd" and "pending rd = bs @ rest"
  shows "\<exists>rd'. decode_all subgroup_object_ext_decode (length obs) rd =
      (Inr (map subgroup_object_ext_normal obs), rd') \<and> clean rd' \<and> pending rd' = rest"
  using assms by (rule sg_object_ext.sent_is_received)

definition end_of_group_object :: subgroup_object_ext where
  "end_of_group_object = \<lparr>soe_object_id_delta = 1, soe_extension_headers = [], soe_payload_length = 0,
     soe_status = Some EndOfGroup\<rparr>"

theorem subgroup_objects_over_any_chunking_witness:
  "\<exists>rd'. decode_all subgroup_object_ext_decode 1 \<lparr>rd_buffer = [1], rd_stream = [Inr [0, 0] :: unit + bytes, Inr [3]]\<rparr> =
      (Inr [end_of_group_object], rd') \<and> clean rd' \<and> pending rd' = []"
proof -
  have "encode_all subgroup_object_ext_encode [end_of_group_object] = Inr [1, 0, 0, 3]"
    by (simp add: subgroup_object_ext_encode_def end_of_group_object_def extension_headers_encode_def
        extension_headers_tmp_def object_status_encode_def opt_encode_def data_eval)
  from subgroup_objects_over_any_chunking [OF _ this, of "\<lparr>rd_buffer = [1], rd_stream = [Inr [0, 0], Inr [3]]\<rparr>" "[]"]
  show ?thesis
    by (simp add: end_of_group_object_def subgroup_object_ext_wf_def subgroup_object_ext_normal_def clean_def pending_def)
qed

text \<open>
  A data stream starts with its header: what \<^verbatim>\<open>StreamHeader::encode\<close> writes for a
  consistent header is decoded to it in front of the stream's objects, and asked for again
  on every proper prefix.
\<close>

theorem stream_header_round_trip:
  assumes "stream_header_wf h" and "stream_header_encode h w = Inr w'"
  shows "\<exists>bs. w' = wput bs w \<and> (\<forall>r. stream_header_decode (bs @ r) = Inr (h, r)) \<and>
    (\<forall>q. strict_prefix q bs \<longrightarrow>
      (\<exists>n. stream_header_decode q = Inl (More n) \<and> 0 < n \<and> length q + n \<le> length bs))"
  using stream_hdr.prefix_asks_for_more [OF assms] by simp

definition fetch_stream_header :: stream_header where
  "fetch_stream_header = \<lparr>sh_header_type = FetchHeaderType, sh_subgroup_header = None,
     sh_fetch_header = Some \<lparr>fh_header_type = FetchHeaderType, fh_request_id = 6\<rparr>\<rparr>"

theorem stream_header_round_trip_witness:
  "\<exists>bs. \<lparr>wr_bytes = [5, 6], wr_room = 7\<rparr> = wput bs \<lparr>wr_bytes = [], wr_room = 9\<rparr> \<and>
    (\<forall>r. stream_header_decode (bs @ r) = Inr (fetch_stream_header, r)) \<and>
    (\<forall>q. strict_prefix q bs \<longrightarrow>
      (\<exists>n. stream_header_decode q = Inl (More n) \<and> 0 < n \<and> length q + n \<le> length bs))"
proof (rule stream_header_round_trip)
  show "stream_header_wf fetch_stream_header" by code_simp
  show "stream_header_encode fetch_stream_header \<lparr>wr_bytes = [], wr_room = 9\<rparr> = Inr \<lparr>wr_bytes = [5, 6], wr_room = 7\<rparr>"
    by (simp add: stream_header_encode_def fetch_stream_header_def fetch_header_encode_def is_subgroup_def is_fetch_def
        stream_header_type_encode_def data_eval)
qed

text \<open>
  Datagrams round-trip: a datagram that \<^verbatim>\<open>Datagram::encode\<close> accepts is decoded from the
  bytes written to the fields its type carries, and whatever \<^verbatim>\<open>Datagram::decode\<close> accepts has
  exactly those fields, no empty extension block and no status other than Normal beside
  extensions.
\<close>

theorem datagram_round_trip:
  "(datagram_encode d w = Inr w' \<longrightarrow>
      (\<exists>bs. w' = wput bs w \<and> datagram_decode bs = Inr (datagram_normal d, []))) \<and>
   (datagram_decode r = Inr (d', r') \<longrightarrow> datagram_fields_ok d')"
proof -
  have "\<exists>bs. w' = wput bs w \<and> datagram_decode bs = Inr (datagram_normal d, [])" if e: "datagram_encode d w = Inr w'"
  proof -
    from payload_codec_datagram e obtain bs where bs: "writes (datagram_encode d) bs" "datagram_decode bs = Inr (datagram_normal d, [])"
      unfolding payload_codec_def by blast
    then show ?thesis using writes_result [OF bs(1) e] by auto
  qed
  then show ?thesis by (auto dest: datagram_decode_ok)
qed

definition sample_datagram :: datagram where
  "sample_datagram = \<lparr>dg_datagram_type = Payload, dg_track_alias = 1, dg_group_id = 2, dg_object_id = None,
     dg_publisher_priority = 8, dg_extension_headers = None, dg_status = None, dg_payload = Some [7, 7]\<rparr>"

theorem datagram_round_trip_witness:
  "\<exists>bs. \<lparr>wr_bytes = [4, 1, 2, 8, 7, 7], wr_room = 3\<rparr> = wput bs \<lparr>wr_bytes = [], wr_room = 9\<rparr> \<and>
     datagram_decode bs = Inr (sample_datagram, [])"
proof -
  have "datagram_encode sample_datagram \<lparr>wr_bytes = [], wr_room = 9\<rparr> = Inr \<lparr>wr_bytes = [4, 1, 2, 8, 7, 7], wr_room = 3\<rparr>"
    by (simp add: datagram_encode_def sample_datagram_def datagram_type_encode_def opt_encode_def data_eval
        dg_has_object_id_def dg_has_extension_headers_def dg_has_status_def dg_has_payload_def Let_def)
  moreover have "datagram_normal sample_datagram = sample_datagram" by code_simp
  ultimately show ?thesis
    using datagram_round_trip [of sample_datagram "\<lparr>wr_bytes = [], wr_room = 9\<rparr>"] by metis
qed

text \<open>
  The stateful FETCH codec is a simulation: a response in which each object is
  followed by its payload, written with the prior-object compression from the start, is
  read back entry by entry, ranges of missing objects included, although the encoder
  forgets its prior at an end-of-range marker and the decoder does not.
\<close>

theorem fetch_stream_round_trip:
  assumes "list_all item_ok is" and "send_items None is w = Inr w'"
  shows "\<exists>bs. w' = wput bs w \<and> (\<forall>r. receive_items (length is) None (bs @ r) = Inr (map item_normal is, r))"
proof -
  have "codec (send_items None is) (receive_items (length is) None) (map item_normal is)"
    by (rule codec_items [OF assms(1)]) (simp add: priors_agree_def)
  from codecE [OF this assms(2)] obtain bs where "w' = wput bs w" "streams (receive_items (length is) None) bs (map item_normal is)" .
  then show ?thesis by (auto simp: streamsD)
qed

definition fetch_object_a :: fetch_object where
  "fetch_object_a = \<lparr>fo_group_id = 3, fo_subgroup_id = Some 0, fo_object_id = 1, fo_publisher_priority = 9,
     fo_extension_headers = [], fo_payload_length = 1\<rparr>"

definition sample_fetch_items :: "fetch_item list" where
  "sample_fetch_items =
     [(FetchEntryObject fetch_object_a, [7]), (EndOfRange UnknownRange (Location_new 3 1), [])]"

lemma fetch_object_a_flags:
  "flag_if False EXTENSIONS (flag_if True PRIORITY (flag_if True OBJECT_ID (flag_if True GROUP_ID (subgroup_flags (Some 0) None)))) = 0x1c"
  by code_simp

lemma encode_fetch_object_a:
  "encode_object None fetch_object_a \<lparr>wr_bytes = [], wr_room = 50\<rparr> =
     Inr (Some (prior_of fetch_object_a), \<lparr>wr_bytes = [0x1c, 3, 1, 9, 1], wr_room = 45\<rparr>)"
  unfolding encode_object_def
  by (simp add: fetch_object_a_def is_none_or_def fetch_object_a_flags enc_when_def SUBGROUP_MASK_def
      SUBGROUP_PRESENT_def DATAGRAM_def data_eval)

theorem fetch_stream_round_trip_witness:
  "\<exists>w' bs. send_items None sample_fetch_items \<lparr>wr_bytes = [], wr_room = 50\<rparr> = Inr w' \<and>
     w' = wput bs \<lparr>wr_bytes = [], wr_room = 50\<rparr> \<and>
     (\<forall>r. receive_items 2 None (bs @ r) = Inr (sample_fetch_items, r))"
proof -
  have "\<exists>w'. send_items None sample_fetch_items \<lparr>wr_bytes = [], wr_room = 50\<rparr> = Inr w'"
    by (simp add: sample_fetch_items_def encode_entry_def encode_fetch_object_a encode_end_of_range_def
        END_OF_UNKNOWN_RANGE_def Location_new_def data_eval)
  moreover have "list_all item_ok sample_fetch_items" by code_simp
  moreover have "map item_normal sample_fetch_items = sample_fetch_items" "length sample_fetch_items = 2" by code_simp+
  ultimately show ?thesis using fetch_stream_round_trip [of sample_fetch_items] by metis
qed

text \<open>
  No data-plane decoder panics, and a FETCH decoder that fails (asking for more bytes
  included) keeps its state, so that the same entry can be decoded again.
\<close>

theorem data_decoders_never_panic:
  "stream_header_decode r \<noteq> Inl DecPanic \<and> subgroup_object_decode r \<noteq> Inl DecPanic \<and>
   subgroup_object_ext_decode r \<noteq> Inl DecPanic \<and> datagram_decode r \<noteq> Inl DecPanic \<and>
   fst (fetch_decoder_decode prior r) \<noteq> Inl DecPanic \<and>
   (fst (fetch_decoder_decode prior r) = Inl e \<longrightarrow> snd (fetch_decoder_decode prior r) = prior)"
  using no_panic_datagram decoder_no_panic [OF decoder_contiguous [of prior], of r]
  by (auto simp: stream_hdr.never_panics sg_object.never_panics sg_object_ext.never_panics no_panic_def
      fetch_decoder_decode_def split: sum.splits)

theorem data_decoders_never_panic_witness:
  "snd (fetch_decoder_decode None [0x43]) = None"
proof -
  have "fst (fetch_decoder_decode None [0x43]) = Inl (More 1)" by code_simp
  then show ?thesis using data_decoders_never_panic [where prior = None and r = "[0x43]" and e = "More 1"] by simp
qed

end
