(* ===== verification/Request_Stream.thy ===== *)
theory Request_Stream
  imports Draft19
begin

text \<open>
  The draft-19 stream lifecycles of \<^verbatim>\<open>moq-transport/src/profile/draft19.rs\<close>: GOAWAY tracking,
  the control stream pair, and the request stream. Every method of \<^verbatim>\<open>RequestStream\<close> is an
  event; \<open>rs_trace\<close> records the events a stream has accepted since it was opened, and the
  invariant relates the stream's flags to that record.
\<close>

section \<open>GOAWAY state\<close>

datatype stream_protocol_error =
    ProfileMismatch wire_profile
  | InvalidFirstMessage u64
  | InvalidFirstResponse u64
  | PrematureFin
  | InvalidTransition
  | ControlStreamClosed
  | DuplicateGoAway
  | ServerGoAwayWithNewSessionUri

datatype session_error_code19 =
    NoError | InternalError19 | Unauthorized19 | ProtocolViolation19 | KeyValueFormattingError
  | GoAwayTimeout

datatype stream_error_code =
    StInternalError | StCancelled | StDeliveryTimeout | StSessionClosed | StGoingAway
  | StTooFarBehind | StUnknownObjectStatus | StExpiredAuthToken | StExcessiveLoad | StMalformedTrack

fun session_code :: "stream_protocol_error \<Rightarrow> session_error_code19 option" where
  "session_code (ProfileMismatch _) = Some ProtocolViolation19"
| "session_code (InvalidFirstMessage _) = Some ProtocolViolation19"
| "session_code (InvalidFirstResponse _) = Some ProtocolViolation19"
| "session_code ControlStreamClosed = Some ProtocolViolation19"
| "session_code DuplicateGoAway = Some ProtocolViolation19"
| "session_code ServerGoAwayWithNewSessionUri = Some ProtocolViolation19"
| "session_code PrematureFin = None"
| "session_code InvalidTransition = None"

definition stream_code :: "stream_protocol_error \<Rightarrow> stream_error_code option" where
  "stream_code e =
     (case e of
        PrematureFin \<Rightarrow> Some StCancelled
      | InvalidTransition \<Rightarrow> Some StInternalError
      | _ \<Rightarrow> None)"

text \<open>
  Instants count milliseconds; \<open>lim\<close> is the first instant the platform's clock cannot
  represent, where \<^verbatim>\<open>Instant::checked_add\<close> gives \<^verbatim>\<open>None\<close>.
\<close>

definition instant_checked_add :: "nat \<Rightarrow> nat \<Rightarrow> nat \<Rightarrow> nat option" where
  "instant_checked_add lim now d = (if now + d < lim then Some (now + d) else None)"

record go_away_state =
  gs_sent :: bool
  gs_received :: bool
  gs_deadline :: "nat option"

definition go_away_state_default :: go_away_state where
  "go_away_state_default = \<lparr>gs_sent = False, gs_received = False, gs_deadline = None\<rparr>"

definition gs_active :: "go_away_state \<Rightarrow> bool" where
  "gs_active g \<longleftrightarrow> gs_sent g \<or> gs_received g"

definition record_sent :: "nat \<Rightarrow> go_away19 \<Rightarrow> nat \<Rightarrow> go_away_state \<Rightarrow> stream_protocol_error + go_away_state" where
  "record_sent lim goaway now g =
     (if gs_sent g then Inl DuplicateGoAway
      else Inr (g\<lparr>gs_sent := True,
        gs_deadline := (if ga_timeout_ms goaway \<noteq> 0
          then instant_checked_add lim now (unat (ga_timeout_ms goaway)) else None)\<rparr>))"

definition record_received :: "go_away_state \<Rightarrow> stream_protocol_error + go_away_state" where
  "record_received g = (if gs_received g then Inl DuplicateGoAway else Inr (g\<lparr>gs_received := True\<rparr>))"

definition timeout_expired :: "go_away_state \<Rightarrow> nat \<Rightarrow> bool" where
  "timeout_expired g now \<longleftrightarrow> (case gs_deadline g of Some deadline \<Rightarrow> deadline \<le> now | None \<Rightarrow> False)"

lemma goaway_once:
  "record_sent lim m now g = Inr g' \<Longrightarrow> record_sent lim' m' now' g' = Inl DuplicateGoAway"
  "record_received g = Inr g' \<Longrightarrow> record_received g' = Inl DuplicateGoAway"
  by (auto simp: record_sent_def record_received_def split: if_splits)

lemma goaway_deadline:
  "record_sent lim m now g = Inr g' \<Longrightarrow> now + unat (ga_timeout_ms m) < lim \<Longrightarrow>
   timeout_expired g' t \<longleftrightarrow> ga_timeout_ms m \<noteq> 0 \<and> now + unat (ga_timeout_ms m) \<le> t"
  by (auto simp: record_sent_def timeout_expired_def instant_checked_add_def split: if_splits)

section \<open>Control stream pair\<close>

record control_stream_pair =
  local_setup_sent :: bool
  remote_setup_received :: bool

definition control_stream_pair_new :: "wire_profile \<Rightarrow> stream_protocol_error + control_stream_pair" where
  "control_stream_pair_new profile =
     (if profile \<noteq> Draft19 then Inl (ProfileMismatch profile)
      else Inr \<lparr>local_setup_sent = False, remote_setup_received = False\<rparr>)"

definition sent_setup :: "control_stream_pair \<Rightarrow> stream_protocol_error + control_stream_pair" where
  "sent_setup c =
     (if local_setup_sent c then Inl InvalidTransition else Inr (c\<lparr>local_setup_sent := True\<rparr>))"

definition received_setup :: "control_stream_pair \<Rightarrow> stream_protocol_error + control_stream_pair" where
  "received_setup c =
     (if remote_setup_received c then Inl InvalidTransition
      else Inr (c\<lparr>remote_setup_received := True\<rparr>))"

definition is_ready :: "control_stream_pair \<Rightarrow> bool" where
  "is_ready c \<longleftrightarrow> local_setup_sent c \<and> remote_setup_received c"

definition on_fin_or_reset :: "control_stream_pair \<Rightarrow> stream_protocol_error + unit" where
  "on_fin_or_reset c = Inl ControlStreamClosed"

lemma ready_after_both:
  assumes "control_stream_pair_new p = Inr c0"
  shows "\<exists>c1 c2. sent_setup c0 = Inr c1 \<and> \<not> is_ready c1 \<and> received_setup c1 = Inr c2 \<and> is_ready c2"
    "\<exists>c1 c2. received_setup c0 = Inr c1 \<and> \<not> is_ready c1 \<and> sent_setup c1 = Inr c2 \<and> is_ready c2"
  using assms
  by (auto simp: control_stream_pair_new_def sent_setup_def received_setup_def is_ready_def split: if_splits)

section \<open>Request streams\<close>

datatype request_kind =
    KSubscribe | KPublish | KFetch | KTrackStatus | KPublishNamespace | KSubscribeNamespace
  | KSubscribeTracks

datatype request_stream_role = Requester | Responder

definition from_first_message :: "u64 \<Rightarrow> stream_protocol_error + request_kind" where
  "from_first_message t =
     (if t = 0x03 then Inr KSubscribe
      else if t = 0x1d then Inr KPublish
      else if t = 0x16 then Inr KFetch
      else if t = 0x0d then Inr KTrackStatus
      else if t = 0x06 then Inr KPublishNamespace
      else if t = 0x50 then Inr KSubscribeNamespace
      else if t = 0x51 then Inr KSubscribeTracks
      else Inl (InvalidFirstMessage t))"

definition success_response :: "request_kind \<Rightarrow> u64" where
  "success_response k = (case k of KSubscribe \<Rightarrow> 0x04 | KFetch \<Rightarrow> 0x18 | _ \<Rightarrow> 0x07)"

datatype send_state = SendOpen | SendFinished | SendReset stream_error_code

datatype receive_state =
    ReceiveOpen | ReceiveFinished | StopSent stream_error_code | ReceiveReset stream_error_code

datatype stream_action =
    NoAction
  | ActReset stream_error_code
  | ActStopSending stream_error_code
  | ActResetAndStop stream_error_code

record request_stream =
  rs_kind :: request_kind
  rs_role :: request_stream_role
  rs_send :: send_state
  rs_receive :: receive_state
  rs_first_response_complete :: bool
  rs_send_required :: bool
  rs_receive_required :: bool

definition new_for_role ::
    "wire_profile \<Rightarrow> u64 \<Rightarrow> request_stream_role \<Rightarrow> stream_protocol_error + request_stream" where
  "new_for_role profile first_message_type role =
     (if profile \<noteq> Draft19 then Inl (ProfileMismatch profile)
      else
        bindE (from_first_message first_message_type) (\<lambda>kind.
          Inr \<lparr>rs_kind = kind, rs_role = role, rs_send = SendOpen, rs_receive = ReceiveOpen,
               rs_first_response_complete = False,
               rs_send_required = (case role of Requester \<Rightarrow> kind = KPublish | Responder \<Rightarrow> True),
               rs_receive_required = (case role of Requester \<Rightarrow> True | Responder \<Rightarrow> kind = KPublish)\<rparr>))"

definition request_stream_new :: "wire_profile \<Rightarrow> u64 \<Rightarrow> stream_protocol_error + request_stream" where
  "request_stream_new profile first_message_type = new_for_role profile first_message_type Requester"

definition can_send_followup :: "request_stream \<Rightarrow> bool" where
  "can_send_followup s \<longleftrightarrow> rs_role s = Requester \<or> rs_first_response_complete s"

definition can_receive_followup :: "request_stream \<Rightarrow> bool" where
  "can_receive_followup s \<longleftrightarrow> rs_role s = Responder \<or> rs_first_response_complete s"

definition receive_first_response :: "u64 \<Rightarrow> request_stream \<Rightarrow> stream_protocol_error + request_stream" where
  "receive_first_response t s =
     (if rs_role s \<noteq> Requester \<or> rs_first_response_complete s then Inl InvalidTransition
      else
        let successful = (t = success_response (rs_kind s)) in
        if t \<noteq> 0x05 \<and> \<not> successful then Inl (InvalidFirstResponse t)
        else Inr (s\<lparr>rs_first_response_complete := True,
                    rs_receive_required := (successful \<and> rs_kind s = KSubscribe)\<rparr>))"

definition send_first_response :: "u64 \<Rightarrow> request_stream \<Rightarrow> stream_protocol_error + request_stream" where
  "send_first_response t s =
     (if rs_role s \<noteq> Responder \<or> rs_first_response_complete s then Inl InvalidTransition
      else
        let successful = (t = success_response (rs_kind s)) in
        if t \<noteq> 0x05 \<and> \<not> successful then Inl (InvalidFirstResponse t)
        else Inr (s\<lparr>rs_first_response_complete := True,
                    rs_send_required := (successful \<and> rs_kind s = KSubscribe)\<rparr>))"

definition local_is_publisher :: "request_stream \<Rightarrow> bool" where
  "local_is_publisher s \<longleftrightarrow>
     (rs_role s, rs_kind s) \<in> {(Requester, KPublish), (Responder, KSubscribe)}"

definition remote_is_publisher :: "request_stream \<Rightarrow> bool" where
  "remote_is_publisher s \<longleftrightarrow>
     (rs_role s, rs_kind s) \<in> {(Requester, KSubscribe), (Responder, KPublish)}"

definition send_publish_done :: "request_stream \<Rightarrow> stream_protocol_error + request_stream" where
  "send_publish_done s =
     (if \<not> rs_first_response_complete s \<or> \<not> local_is_publisher s \<or> \<not> rs_send_required s
      then Inl InvalidTransition
      else Inr (s\<lparr>rs_send_required := False\<rparr>))"

definition receive_publish_done :: "request_stream \<Rightarrow> stream_protocol_error + request_stream" where
  "receive_publish_done s =
     (if \<not> rs_first_response_complete s \<or> \<not> remote_is_publisher s \<or> \<not> rs_receive_required s
      then Inl InvalidTransition
      else Inr (s\<lparr>rs_receive_required := False\<rparr>))"

definition receive_fin :: "request_stream \<Rightarrow> stream_protocol_error + request_stream" where
  "receive_fin s =
     (if rs_receive s \<noteq> ReceiveOpen then Inl InvalidTransition
      else if rs_receive_required s then Inl PrematureFin
      else Inr (s\<lparr>rs_receive := ReceiveFinished\<rparr>))"

definition finish_sending :: "request_stream \<Rightarrow> stream_protocol_error + request_stream" where
  "finish_sending s =
     (if rs_send s \<noteq> SendOpen then Inl InvalidTransition
      else if rs_send_required s then Inl PrematureFin
      else Inr (s\<lparr>rs_send := SendFinished\<rparr>))"

definition finish_sending_for_goaway :: "request_stream \<Rightarrow> stream_protocol_error + request_stream" where
  "finish_sending_for_goaway s =
     (if rs_send s \<noteq> SendOpen then Inl InvalidTransition
      else Inr (s\<lparr>rs_send_required := False, rs_send := SendFinished\<rparr>))"

definition reset_sending ::
    "stream_error_code \<Rightarrow> request_stream \<Rightarrow> stream_protocol_error + (request_stream \<times> stream_action)" where
  "reset_sending code s =
     (if rs_send s \<noteq> SendOpen then Inl InvalidTransition
      else Inr (s\<lparr>rs_send := SendReset code\<rparr>, ActReset code))"

definition receive_stop_sending ::
    "stream_error_code \<Rightarrow> request_stream \<Rightarrow> stream_protocol_error + (request_stream \<times> stream_action)" where
  "receive_stop_sending code s =
     (case rs_send s of
        SendOpen \<Rightarrow> Inr (s\<lparr>rs_send := SendReset code\<rparr>, ActReset code)
      | SendFinished \<Rightarrow> Inr (s, NoAction)
      | SendReset _ \<Rightarrow> Inl InvalidTransition)"

definition receive_reset ::
    "stream_error_code \<Rightarrow> request_stream \<Rightarrow> stream_protocol_error + (request_stream \<times> stream_action)" where
  "receive_reset code s =
     (case rs_receive s of
        ReceiveOpen \<Rightarrow> Inr (s\<lparr>rs_receive := ReceiveReset code\<rparr>, NoAction)
      | StopSent _ \<Rightarrow> Inr (s\<lparr>rs_receive := ReceiveReset code\<rparr>, NoAction)
      | ReceiveFinished \<Rightarrow> Inr (s, NoAction)
      | ReceiveReset _ \<Rightarrow> Inl InvalidTransition)"

definition cancel ::
    "stream_error_code \<Rightarrow> request_stream \<Rightarrow> stream_protocol_error + (request_stream \<times> stream_action)" where
  "cancel code s =
     (case (rs_send s, rs_receive s) of
        (SendOpen, ReceiveOpen) \<Rightarrow>
          Inr (s\<lparr>rs_send := SendReset code, rs_receive := StopSent code\<rparr>, ActResetAndStop code)
      | (SendFinished, ReceiveOpen) \<Rightarrow>
          Inr (s\<lparr>rs_receive := StopSent code\<rparr>, ActStopSending code)
      | (SendOpen, ReceiveFinished) \<Rightarrow>
          Inr (s\<lparr>rs_send := SendReset code\<rparr>, ActReset code)
      | _ \<Rightarrow> Inl InvalidTransition)"

section \<open>Events and traces\<close>

datatype rs_event =
    ReceiveFirstResponse u64
  | SendFirstResponse u64
  | SendPublishDone
  | ReceivePublishDone
  | ReceiveFin
  | FinishSending
  | FinishSendingForGoaway
  | ResetSending stream_error_code
  | ReceiveStopSending stream_error_code
  | ReceiveResetEv stream_error_code
  | Cancel stream_error_code

definition quiet :: "stream_protocol_error + request_stream \<Rightarrow> stream_protocol_error + (request_stream \<times> stream_action)" where
  "quiet m = bindE m (\<lambda>s. Inr (s, NoAction))"

fun rs_step :: "rs_event \<Rightarrow> request_stream \<Rightarrow> stream_protocol_error + (request_stream \<times> stream_action)" where
  "rs_step (ReceiveFirstResponse t) s = quiet (receive_first_response t s)"
| "rs_step (SendFirstResponse t) s = quiet (send_first_response t s)"
| "rs_step SendPublishDone s = quiet (send_publish_done s)"
| "rs_step ReceivePublishDone s = quiet (receive_publish_done s)"
| "rs_step ReceiveFin s = quiet (receive_fin s)"
| "rs_step FinishSending s = quiet (finish_sending s)"
| "rs_step FinishSendingForGoaway s = quiet (finish_sending_for_goaway s)"
| "rs_step (ResetSending c) s = reset_sending c s"
| "rs_step (ReceiveStopSending c) s = receive_stop_sending c s"
| "rs_step (ReceiveResetEv c) s = receive_reset c s"
| "rs_step (Cancel c) s = cancel c s"

inductive rs_trace :: "wire_profile \<Rightarrow> u64 \<Rightarrow> request_stream_role \<Rightarrow> rs_event list \<Rightarrow> request_stream \<Rightarrow> bool" where
  opened: "new_for_role profile t role = Inr s \<Longrightarrow> rs_trace profile t role [] s"
| accepted: "rs_trace profile t role es s \<Longrightarrow> rs_step ev s = Inr (s', act) \<Longrightarrow>
    rs_trace profile t role (es @ [ev]) s'"

inductive_cases rs_trace_NilE: "rs_trace profile t role [] s"

lemmas rs_ops = quiet_def receive_first_response_def send_first_response_def send_publish_done_def
  receive_publish_done_def receive_fin_def finish_sending_def finish_sending_for_goaway_def
  reset_sending_def receive_stop_sending_def receive_reset_def cancel_def Let_def

section \<open>Invariants\<close>

text \<open>A direction that has closed stays closed, and no step changes who the parties are.\<close>

lemma send_closed_stays:
  "rs_step ev s = Inr (s', act) \<Longrightarrow> rs_send s \<noteq> SendOpen \<Longrightarrow> rs_send s' = rs_send s"
  by (cases ev) (auto simp: rs_ops split: if_splits send_state.splits receive_state.splits)

lemma receive_closed_stays:
  "rs_step ev s = Inr (s', act) \<Longrightarrow> rs_receive s = ReceiveFinished \<Longrightarrow> rs_receive s' = ReceiveFinished"
  "rs_step ev s = Inr (s', act) \<Longrightarrow> rs_receive s = ReceiveReset c \<Longrightarrow> rs_receive s' = ReceiveReset c"
  by (cases ev; auto simp: rs_ops split: if_splits send_state.splits receive_state.splits)+

lemma step_parties:
  "rs_step ev s = Inr (s', act) \<Longrightarrow> rs_kind s' = rs_kind s \<and> rs_role s' = rs_role s"
  by (cases ev) (auto simp: rs_ops split: if_splits send_state.splits receive_state.splits)

definition answered :: "request_stream_role \<Rightarrow> u64 \<Rightarrow> rs_event list \<Rightarrow> bool" where
  "answered role t es \<longleftrightarrow>
     (case role of Requester \<Rightarrow> ReceiveFirstResponse t \<in> set es | Responder \<Rightarrow> SendFirstResponse t \<in> set es)"

text \<open>
  The record and the flags: the first response is complete exactly when one was accepted;
  before a requester may see a FIN, or a responder send one, a response is due, and after
  an accepted subscription a PUBLISH_DONE is due as well; only going away excuses the
  sender.
\<close>

definition inv_answer :: "rs_event list \<Rightarrow> request_stream \<Rightarrow> bool" where
  "inv_answer es s \<longleftrightarrow>
     (rs_first_response_complete s \<longleftrightarrow> (\<exists>t. answered (rs_role s) t es)) \<and>
     (\<forall>t. answered (rs_role s) t es \<longrightarrow> t = 0x05 \<or> t = success_response (rs_kind s)) \<and>
     (SendPublishDone \<in> set es \<or> ReceivePublishDone \<in> set es \<longrightarrow> rs_first_response_complete s)"

definition inv_receive :: "rs_event list \<Rightarrow> request_stream \<Rightarrow> bool" where
  "inv_receive es s \<longleftrightarrow>
     (rs_receive_required s \<longleftrightarrow>
        (if rs_role s = Requester
         then \<not> rs_first_response_complete s \<or>
           rs_kind s = KSubscribe \<and> answered Requester 0x04 es \<and> ReceivePublishDone \<notin> set es
         else rs_kind s = KPublish \<and> ReceivePublishDone \<notin> set es)) \<and>
     (rs_receive s = ReceiveFinished \<longrightarrow> \<not> rs_receive_required s)"

definition inv_send :: "rs_event list \<Rightarrow> request_stream \<Rightarrow> bool" where
  "inv_send es s \<longleftrightarrow>
     FinishSendingForGoaway \<in> set es \<or>
     (rs_send_required s \<longleftrightarrow>
        (if rs_role s = Responder
         then \<not> rs_first_response_complete s \<or>
           rs_kind s = KSubscribe \<and> answered Responder 0x04 es \<and> SendPublishDone \<notin> set es
         else rs_kind s = KPublish \<and> SendPublishDone \<notin> set es)) \<and>
     (rs_send s = SendFinished \<longrightarrow> \<not> rs_send_required s)"

definition rs_inv :: "rs_event list \<Rightarrow> request_stream \<Rightarrow> bool" where
  "rs_inv es s \<longleftrightarrow> inv_answer es s \<and> inv_receive es s \<and> inv_send es s"

lemma answered_snoc:
  "answered role t (es @ [ev]) \<longleftrightarrow> answered role t es \<or>
    ev = (case role of Requester \<Rightarrow> ReceiveFirstResponse t | Responder \<Rightarrow> SendFirstResponse t)"
  by (auto simp: answered_def split: request_stream_role.splits)

lemma answered_Nil [simp]: "\<not> answered role t []"
  by (simp add: answered_def split: request_stream_role.split)

lemma success_response_simps [simp]:
  "success_response KSubscribe = 0x04" "success_response k \<noteq> 0x05" "0x05 \<noteq> success_response k"
  by (simp_all add: success_response_def split: request_kind.split)

lemma rs_inv_new: "new_for_role profile t role = Inr s \<Longrightarrow> rs_inv [] s"
  by (cases role)
    (auto simp: new_for_role_def rs_inv_def inv_answer_def inv_receive_def inv_send_def split: if_splits)

lemma answer_frame:
  assumes "rs_step ev s = Inr (s', act)"
    and "\<And>t. ev \<noteq> ReceiveFirstResponse t" "\<And>t. ev \<noteq> SendFirstResponse t"
  shows "rs_first_response_complete s' = rs_first_response_complete s \<and>
    (ev = SendPublishDone \<or> ev = ReceivePublishDone \<longrightarrow> rs_first_response_complete s)"
  using assms
  by (cases ev) (auto simp: rs_ops split: if_splits send_state.splits receive_state.splits)

lemma inv_answer_step:
  assumes step: "rs_step ev s = Inr (s', act)" and inv: "inv_answer es s"
  shows "inv_answer (es @ [ev]) s'"
proof -
  consider t where "ev = ReceiveFirstResponse t" | t where "ev = SendFirstResponse t"
    | "\<And>t. ev \<noteq> ReceiveFirstResponse t" "\<And>t. ev \<noteq> SendFirstResponse t"
    by blast
  then show ?thesis
  proof cases
    case 1
    then have "rs_role s = Requester" using step by (auto simp: rs_ops split: if_splits)
    with 1 step inv show ?thesis by (auto simp: rs_ops inv_answer_def answered_snoc split: if_splits)
  next
    case 2
    then have "rs_role s = Responder" using step by (auto simp: rs_ops split: if_splits)
    with 2 step inv show ?thesis by (auto simp: rs_ops inv_answer_def answered_snoc split: if_splits)
  next
    case 3
    then show ?thesis
      using answer_frame [OF step] step_parties [OF step] inv
      by (cases "rs_role s") (auto simp: inv_answer_def answered_snoc)
  qed
qed

lemma unanswered:
  "inv_answer es s \<Longrightarrow> \<not> rs_first_response_complete s \<Longrightarrow>
   \<not> answered (rs_role s) t es \<and> SendPublishDone \<notin> set es \<and> ReceivePublishDone \<notin> set es"
  by (auto simp: inv_answer_def)

text \<open>Steps that leave the flags alone, and the record they are compared with.\<close>

lemma receive_frame:
  assumes "rs_step ev s = Inr (s', act)"
    and "\<And>t. ev \<noteq> ReceiveFirstResponse t" "\<And>t. ev \<noteq> SendFirstResponse t" "ev \<noteq> ReceivePublishDone"
  shows "rs_receive_required s' = rs_receive_required s \<and>
    rs_first_response_complete s' = rs_first_response_complete s \<and>
    (rs_receive s' = ReceiveFinished \<longrightarrow> rs_receive s = ReceiveFinished \<or> \<not> rs_receive_required s)"
  using assms
  by (cases ev) (auto simp: rs_ops split: if_splits send_state.splits receive_state.splits)

lemma send_frame:
  assumes "rs_step ev s = Inr (s', act)" and "\<And>t. ev \<noteq> ReceiveFirstResponse t"
    "\<And>t. ev \<noteq> SendFirstResponse t" "ev \<noteq> SendPublishDone" "ev \<noteq> FinishSendingForGoaway"
  shows "rs_send_required s' = rs_send_required s \<and>
    rs_first_response_complete s' = rs_first_response_complete s \<and>
    (rs_send s' = SendFinished \<longrightarrow> rs_send s = SendFinished \<or> \<not> rs_send_required s)"
  using assms
  by (cases ev) (auto simp: rs_ops split: if_splits send_state.splits receive_state.splits)

lemma inv_receive_step:
  assumes step: "rs_step ev s = Inr (s', act)" and ans: "inv_answer es s" and inv: "inv_receive es s"
  shows "inv_receive (es @ [ev]) s'"
proof -
  note un = unanswered [OF ans]
  consider t where "ev = ReceiveFirstResponse t" | t where "ev = SendFirstResponse t"
    | "ev = ReceivePublishDone" | "\<And>t. ev \<noteq> ReceiveFirstResponse t" "\<And>t. ev \<noteq> SendFirstResponse t" "ev \<noteq> ReceivePublishDone"
    by blast
  then show ?thesis
  proof cases
    case 1
    then have "rs_role s = Requester" "\<not> rs_first_response_complete s" using step by (auto simp: rs_ops split: if_splits)
    with 1 step inv un [of "0x04"] show ?thesis
      by (auto simp: rs_ops inv_receive_def answered_snoc split: if_splits)
  next
    case 2
    then have "rs_role s = Responder" using step by (auto simp: rs_ops split: if_splits)
    with 2 step inv show ?thesis by (auto simp: rs_ops inv_receive_def split: if_splits)
  next
    case 3
    with step inv show ?thesis
      by (auto simp: rs_ops inv_receive_def answered_snoc remote_is_publisher_def split: if_splits)
  next
    case 4
    then show ?thesis
      using receive_frame [OF step] step_parties [OF step] inv
      by (auto simp: inv_receive_def answered_snoc)
  qed
qed

lemma inv_send_step:
  assumes step: "rs_step ev s = Inr (s', act)" and ans: "inv_answer es s" and inv: "inv_send es s"
  shows "inv_send (es @ [ev]) s'"
proof (cases "FinishSendingForGoaway \<in> set (es @ [ev])")
  case True
  then show ?thesis by (simp add: inv_send_def)
next
  case False
  note un = unanswered [OF ans]
  consider t where "ev = ReceiveFirstResponse t" | t where "ev = SendFirstResponse t"
    | "ev = SendPublishDone" | "\<And>t. ev \<noteq> ReceiveFirstResponse t" "\<And>t. ev \<noteq> SendFirstResponse t" "ev \<noteq> SendPublishDone"
    by blast
  then show ?thesis
  proof cases
    case 1
    then have "rs_role s = Requester" using step by (auto simp: rs_ops split: if_splits)
    with 1 step inv False show ?thesis by (auto simp: rs_ops inv_send_def split: if_splits)
  next
    case 2
    then have "rs_role s = Responder" "\<not> rs_first_response_complete s" using step by (auto simp: rs_ops split: if_splits)
    with 2 step inv un [of "0x04"] False show ?thesis
      by (auto simp: rs_ops inv_send_def answered_snoc split: if_splits)
  next
    case 3
    with step inv False show ?thesis
      by (auto simp: rs_ops inv_send_def answered_snoc local_is_publisher_def split: if_splits)
  next
    case 4
    then show ?thesis
      using send_frame [OF step] step_parties [OF step] inv False
      by (auto simp: inv_send_def answered_snoc)
  qed
qed

lemma rs_inv_trace: "rs_trace profile t role es s \<Longrightarrow> rs_inv es s"
  by (induction rule: rs_trace.induct)
    (auto simp: rs_inv_new rs_inv_def inv_answer_step inv_receive_step inv_send_step
      dest: rs_inv_new [unfolded rs_inv_def])

lemma rs_trace_parties:
  "rs_trace profile t role es s \<Longrightarrow> rs_role s = role \<and> from_first_message t = Inr (rs_kind s)"
  by (induction rule: rs_trace.induct)
    (auto simp: new_for_role_def dest: step_parties split: if_splits)

end
