(* ===== verification/Session_State.thy ===== *)
theory Session_State
  imports Transport
begin

unbundle bit_operations_syntax

text \<open>
  Session-level state of \<^verbatim>\<open>moq-transport/src/session\<close>: request-id flow control
  (\<^verbatim>\<open>request_id.rs\<close>), the table of requests awaiting a response (\<^verbatim>\<open>pending_requests.rs\<close>) and
  the mapping of priorities to a send order (\<^verbatim>\<open>priority.rs\<close>). Each method runs under its
  mutex and is one atomic step; nothing under the locks panics, so the poisoned case does
  not arise. The inbound side keeps a low-water mark and a window of ids above it; it
  refines the plain set of ids accepted so far.
\<close>

section \<open>Outbound request ids\<close>

record send_ids =
  si_next :: u64
  si_peer_max :: u64
  si_blocked_sent_for :: "u64 option"

datatype request_id_allocation =
    Allocated u64
  | Blocked u64 bool

definition requests_blocked_msg :: "request_id_allocation \<Rightarrow> requests_blocked option" where
  "requests_blocked_msg a =
     (case a of
        Blocked max_id True \<Rightarrow> Some \<lparr>rb_max_request_id = max_id\<rparr>
      | _ \<Rightarrow> None)"

definition send_ids_new :: "u64 \<Rightarrow> u64 \<Rightarrow> send_ids" where
  "send_ids_new local_first_id peer_max =
     \<lparr>si_next = local_first_id, si_peer_max = peer_max, si_blocked_sent_for = None\<rparr>"

definition allocate :: "send_ids \<Rightarrow> ('e session_error + request_id_allocation) \<times> send_ids" where
  "allocate s =
     (if si_next s \<ge> si_peer_max s then
        (if si_blocked_sent_for s = Some (si_peer_max s)
         then (Inr (Blocked (si_peer_max s) False), s)
         else (Inr (Blocked (si_peer_max s) True), s\<lparr>si_blocked_sent_for := Some (si_peer_max s)\<rparr>))
      else
        case u64_checked_add (si_next s) 2 of
          None \<Rightarrow> (Inl SeTooManyRequests, s)
        | Some n \<Rightarrow> (Inr (Allocated (si_next s)), s\<lparr>si_next := n, si_blocked_sent_for := None\<rparr>))"

definition apply_max_request_id :: "max_request_id \<Rightarrow> send_ids \<Rightarrow> ('e session_error + unit) \<times> send_ids" where
  "apply_max_request_id msg s =
     (if mri_request_id msg \<le> si_peer_max s then (Inl SeProtocolViolation, s)
      else (Inr (), s\<lparr>si_peer_max := mri_request_id msg, si_blocked_sent_for := None\<rparr>))"

section \<open>Inbound request ids\<close>

record recv_ids =
  ri_first :: u64
  ri_low_water :: u64
  ri_received_above_low_water :: "u64 set"
  ri_our_max :: u64

definition recv_ids_new :: "u64 \<Rightarrow> u64 \<Rightarrow> recv_ids" where
  "recv_ids_new our_max peer_first_id =
     \<lparr>ri_first = peer_first_id, ri_low_water = peer_first_id, ri_received_above_low_water = {},
      ri_our_max = our_max\<rparr>"

text \<open>The \<^verbatim>\<open>while\<close> loop: slide the mark over ids already received. \<open>True\<close> flags the overflow exit.\<close>

function slide :: "u64 \<Rightarrow> u64 set \<Rightarrow> bool \<times> u64 \<times> u64 set" where
  "slide low S =
     (if low \<in> S then
        case u64_checked_add low 2 of
          None \<Rightarrow> (True, low, S - {low})
        | Some low' \<Rightarrow> slide low' (S - {low})
      else (False, low, S))"
  by auto
termination
proof (relation "measure (\<lambda>(_, S). card S)")
  fix low low' :: u64 and S :: "u64 set"
  assume "low \<in> S"
  then have "card (S - {low}) < card S" by (rule card_Diff1_less [OF finite])
  then show "((low', S - {low}), low, S) \<in> measure (\<lambda>(_, S). card S)" by simp
qed simp

declare slide.simps [simp del]

definition validate_incoming :: "u64 \<Rightarrow> recv_ids \<Rightarrow> ('e session_error + unit) \<times> recv_ids" where
  "validate_incoming i s =
     (if i \<ge> ri_our_max s then (Inl SeTooManyRequests, s)
      else if i < ri_first s \<or> i mod 2 \<noteq> ri_first s mod 2 \<or> i < ri_low_water s
      then (Inl SeInvalidRequestId, s)
      else if i \<in> ri_received_above_low_water s then (Inl SeInvalidRequestId, s)
      else
        case slide (ri_low_water s) (insert i (ri_received_above_low_water s)) of
          (overflow, low, S) \<Rightarrow>
            (if overflow then Inl SeInvalidRequestId else Inr (),
             s\<lparr>ri_low_water := low, ri_received_above_low_water := S\<rparr>))"

definition handle_requests_blocked :: "requests_blocked \<Rightarrow> recv_ids \<Rightarrow> ('e session_error + unit) \<times> recv_ids" where
  "handle_requests_blocked msg s = (Inr (), s)"

definition max_request_id_from_params :: "kvps \<Rightarrow> u64" where
  "max_request_id_from_params params =
     (case kvps_get params (parameter_type_value MaxRequestIdParam) of
        Some k \<Rightarrow> (case kvp_val k of IntValue v \<Rightarrow> v | _ \<Rightarrow> 0)
      | None \<Rightarrow> 0)"

section \<open>Pending requests\<close>

datatype pending_request = PendPublishNamespace | PendPublish | PendSubscribe | PendFetch

datatype pending_response =
    RespRequestOk | RespRequestError | RespPublishOk | RespSubscribeOk | RespFetchOk

definition accepts :: "pending_request \<Rightarrow> pending_response \<Rightarrow> bool" where
  "accepts request response \<longleftrightarrow>
     (request, response) \<in>
       {(PendPublishNamespace, RespRequestOk), (PendPublishNamespace, RespRequestError),
        (PendPublish, RespPublishOk), (PendPublish, RespRequestError),
        (PendSubscribe, RespSubscribeOk), (PendSubscribe, RespRequestError),
        (PendFetch, RespFetchOk), (PendFetch, RespRequestError)}"

record pending_request_state =
  pr_request :: pending_request
  pr_deadline :: nat

text \<open>
  The hash map as an association list with distinct keys, in some iteration order; instants
  are milliseconds.
\<close>

type_synonym pending_requests = "(u64 \<times> pending_request_state) list"

definition RESPONSE_TIMEOUT :: nat where
  "RESPONSE_TIMEOUT = 30000"

definition pr_insert :: "nat \<Rightarrow> u64 \<Rightarrow> pending_request \<Rightarrow> pending_requests \<Rightarrow> ('e session_error + unit) \<times> pending_requests" where
  "pr_insert now i request t =
     (if map_of t i \<noteq> None then (Inl SeDuplicate, t)
      else (Inr (), (i, \<lparr>pr_request = request, pr_deadline = now + RESPONSE_TIMEOUT\<rparr>) # t))"

definition pr_remove :: "u64 \<Rightarrow> pending_requests \<Rightarrow> pending_request option \<times> pending_requests" where
  "pr_remove i t = (map_option pr_request (map_of t i), filter (\<lambda>(k, _). k \<noteq> i) t)"

definition pr_complete ::
    "u64 \<Rightarrow> pending_response \<Rightarrow> pending_requests \<Rightarrow> ('e session_error + pending_request option) \<times> pending_requests" where
  "pr_complete i response t =
     (case map_of t i of
        None \<Rightarrow> (Inr None, t)
      | Some st \<Rightarrow>
          if \<not> accepts (pr_request st) response then (Inl SeProtocolViolation, t)
          else (Inr (Some (pr_request st)), filter (\<lambda>(k, _). k \<noteq> i) t))"

definition pr_next_deadline :: "pending_requests \<Rightarrow> nat option" where
  "pr_next_deadline t =
     (case map (\<lambda>(_, st). pr_deadline st) t of
        [] \<Rightarrow> None
      | d # ds \<Rightarrow> Some (fold min ds d))"

definition pr_expire :: "nat \<Rightarrow> pending_requests \<Rightarrow> (u64 \<times> pending_request) list \<times> pending_requests" where
  "pr_expire now t =
     (let expired = map (\<lambda>(i, st). (i, pr_request st)) (filter (\<lambda>(_, st). pr_deadline st \<le> now) t)
      in (expired, fold (\<lambda>(i, _) t. filter (\<lambda>(k, _). k \<noteq> i) t) expired t))"

section \<open>Priorities\<close>

definition DEFAULT_SUBSCRIBER_PRIORITY :: u8 where
  "DEFAULT_SUBSCRIBER_PRIORITY = 128"

text \<open>The result fits in an \<^verbatim>\<open>i32\<close>, so it is given as an \<open>int\<close>.\<close>

definition send_order :: "u8 \<Rightarrow> u8 \<Rightarrow> int" where
  "send_order sub_priority pub_priority = - (push_bit 8 (uint sub_priority) OR uint pub_priority)"

section \<open>Outbound proofs\<close>

text \<open>
  The allocator over a session: any interleaving of allocations and peer updates, with the
  ids handed out so far and the refusals so far, each with the limit it names and whether it
  asks for REQUESTS_BLOCKED.
\<close>

inductive send_run :: "u64 \<Rightarrow> u64 \<Rightarrow> u64 list \<Rightarrow> (u64 \<times> bool) list \<Rightarrow> send_ids \<Rightarrow> bool" for first and peer_max where
  start: "send_run first peer_max [] [] (send_ids_new first peer_max)"
| handed: "send_run first peer_max ids bl s \<Longrightarrow> (allocate s :: (unit session_error + _) \<times> _) = (Inr (Allocated i), s') \<Longrightarrow>
    send_run first peer_max (ids @ [i]) bl s'"
| refused: "send_run first peer_max ids bl s \<Longrightarrow> (allocate s :: (unit session_error + _) \<times> _) = (Inr (Blocked m b), s') \<Longrightarrow>
    send_run first peer_max ids (bl @ [(m, b)]) s'"
| failed: "send_run first peer_max ids bl s \<Longrightarrow> (allocate s :: (unit session_error + _) \<times> _) = (Inl e, s') \<Longrightarrow>
    send_run first peer_max ids bl s'"
| raised: "send_run first peer_max ids bl s \<Longrightarrow> (apply_max_request_id msg s :: (unit session_error + _) \<times> _) = (r', s') \<Longrightarrow>
    send_run first peer_max ids bl s'"

lemma allocate_handed:
  assumes "allocate s = (Inr (Allocated i), s')"
  shows "i = si_next s \<and> i < si_peer_max s \<and> unat (si_next s') = unat i + 2 \<and> si_peer_max s' = si_peer_max s"
proof -
  from assms obtain n where "u64_checked_add (si_next s) 2 = Some n" "\<not> si_next s \<ge> si_peer_max s"
      "i = si_next s" "s' = s\<lparr>si_next := n, si_blocked_sent_for := None\<rparr>"
    by (auto simp: allocate_def split: if_splits option.splits)
  then show ?thesis using unat_checked_add [of "si_next s" 2 n] by simp
qed

lemma allocate_refused:
  "allocate s = (r, s') \<Longrightarrow> \<nexists>i. r = Inr (Allocated i) \<Longrightarrow> si_next s' = si_next s \<and> si_peer_max s' = si_peer_max s"
  by (auto simp: allocate_def split: if_splits option.splits)

lemma send_run_ids:
  "send_run first peer_max ids bl s \<Longrightarrow>
   map unat ids = map (\<lambda>k. unat first + 2 * k) [0..<length ids] \<and>
   unat (si_next s) = unat first + 2 * length ids \<and> peer_max \<le> si_peer_max s \<and>
   (\<forall>i \<in> set ids. i < si_peer_max s)"
proof (induction rule: send_run.induct)
  case start
  then show ?case by (simp add: send_ids_new_def)
next
  case (handed ids bl s i s')
  then show ?case using allocate_handed [OF handed(2)] by auto
next
  case (refused ids bl s m b s')
  then show ?case using allocate_refused [OF refused(2)] by simp
next
  case (failed ids bl s e s')
  then show ?case using allocate_refused [OF failed(2)] by simp
next
  case (raised ids bl s msg r' s')
  then show ?case
    by (auto simp: apply_max_request_id_def split: if_splits dest: order_less_le_trans)
qed

text \<open>
  REQUESTS_BLOCKED goes out once per advertised maximum: a refusal asks for it exactly when
  no earlier one was under the same limit.
\<close>

definition reports_first :: "(u64 \<times> bool) list \<Rightarrow> bool" where
  "reports_first bl \<longleftrightarrow> (\<forall>k < length bl. snd (bl ! k) \<longleftrightarrow> fst (bl ! k) \<notin> fst ` set (take k bl))"

lemma reports_first_snoc: "reports_first bl \<Longrightarrow> (b \<longleftrightarrow> m \<notin> fst ` set bl) \<Longrightarrow> reports_first (bl @ [(m, b)])"
  by (auto simp: reports_first_def nth_append less_Suc_eq)

lemma send_run_blocked:
  "send_run first peer_max ids bl s \<Longrightarrow> reports_first bl \<and> (\<forall>m \<in> fst ` set bl. m \<le> si_peer_max s) \<and>
   (si_peer_max s \<in> fst ` set bl \<longleftrightarrow> si_blocked_sent_for s = Some (si_peer_max s)) \<and>
   (si_peer_max s \<in> fst ` set bl \<longrightarrow> si_peer_max s \<le> si_next s)"
proof (induction rule: send_run.induct)
  case start
  show ?case by (simp add: send_ids_new_def reports_first_def)
next
  case (handed ids bl s i s')
  from handed(2) have "\<not> si_peer_max s \<le> si_next s" "si_peer_max s' = si_peer_max s" "si_blocked_sent_for s' = None"
    by (auto simp: allocate_def split: if_splits option.splits)
  with handed.IH show ?case by auto
next
  case (refused ids bl s m b s')
  from refused(2) have r: "si_peer_max s \<le> si_next s" "m = si_peer_max s" "b \<longleftrightarrow> si_blocked_sent_for s \<noteq> Some (si_peer_max s)"
    "s' = s\<lparr>si_blocked_sent_for := Some (si_peer_max s)\<rparr>"
    by (auto simp: allocate_def split: if_splits option.splits)
  with refused.IH show ?case using reports_first_snoc [of bl b m] by auto
next
  case (failed ids bl s e s')
  then have "s' = s" by (auto simp: allocate_def split: if_splits option.splits)
  with failed.IH show ?case by simp
next
  case (raised ids bl s msg r' s')
  then show ?case by (auto simp: apply_max_request_id_def not_le split: if_splits)
qed

section \<open>Inbound proofs\<close>

definition id_range :: "u64 \<Rightarrow> u64 \<Rightarrow> u64 set" where
  "id_range first low = {x. first \<le> x \<and> x < low \<and> x mod 2 = first mod 2}"

definition accepted_ids :: "recv_ids \<Rightarrow> u64 set" where
  "accepted_ids s = id_range (ri_first s) (ri_low_water s) \<union> ri_received_above_low_water s"

definition recv_inv :: "recv_ids \<Rightarrow> bool" where
  "recv_inv s \<longleftrightarrow>
     ri_first s \<le> ri_low_water s \<and> ri_low_water s mod 2 = ri_first s mod 2 \<and>
     ri_low_water s \<notin> ri_received_above_low_water s \<and>
     (\<forall>x \<in> ri_received_above_low_water s.
        ri_low_water s \<le> x \<and> x < ri_our_max s \<and> x mod 2 = ri_first s mod 2)"

lemma word_mod_2_iff: "(x :: u64) mod 2 = y mod 2 \<longleftrightarrow> unat x mod 2 = unat y mod 2"
  by (simp add: word_unat_eq_iff unat_mod)

lemma id_range_nat:
  "x \<in> id_range f l \<longleftrightarrow> unat f \<le> unat x \<and> unat x < unat l \<and> unat x mod 2 = unat f mod 2"
  by (simp add: id_range_def word_le_nat_alt word_less_nat_alt word_mod_2_iff)

lemma parity_step:
  fixes x low first :: nat
  assumes "low mod 2 = first mod 2"
  shows "x < low + 2 \<and> x mod 2 = first mod 2 \<longleftrightarrow> x = low \<or> x < low \<and> x mod 2 = first mod 2"
proof -
  have "Suc low mod 2 \<noteq> first mod 2" unfolding assms [symmetric] by presburger
  moreover have "x < low + 2 \<longleftrightarrow> x < low \<or> x = low \<or> x = Suc low" by auto
  ultimately show ?thesis using assms by auto
qed

lemma parity_gap: "(low :: nat) \<le> x \<Longrightarrow> x \<noteq> low \<Longrightarrow> x mod 2 = low mod 2 \<Longrightarrow> low + 2 \<le> x"
  by presburger

lemma id_range_step:
  assumes add: "u64_checked_add low 2 = Some low'" and le: "first \<le> low" and par: "low mod 2 = first mod 2"
  shows "id_range first low' = insert low (id_range first low) \<and> first \<le> low' \<and> low' mod 2 = first mod 2"
proof -
  have n: "unat low' = unat low + 2" using unat_checked_add [OF add] by simp
  have par': "unat low mod 2 = unat first mod 2" using par by (simp add: word_mod_2_iff)
  have le': "unat first \<le> unat low" using le by (simp add: word_le_nat_alt)
  have "x \<in> id_range first low' \<longleftrightarrow> x \<in> insert low (id_range first low)" for x
  proof -
    have "unat x < unat low + 2 \<and> unat x mod 2 = unat first mod 2 \<longleftrightarrow>
        unat x = unat low \<or> unat x < unat low \<and> unat x mod 2 = unat first mod 2"
      by (rule parity_step [OF par'])
    moreover have "x = low \<longleftrightarrow> unat x = unat low" by (rule word_unat_eq_iff)
    ultimately show ?thesis
      unfolding insert_iff id_range_nat n using le' by argo
  qed
  moreover have "first \<le> low'" using n le' by (simp add: word_le_nat_alt)
  moreover have "low' mod 2 = first mod 2" using n par' by (simp add: word_mod_2_iff)
  ultimately show ?thesis by blast
qed

lemma slide_ok:
  assumes "slide low S = (ov, low', S')" and "first \<le> low" and "low mod 2 = first mod 2"
    and "\<forall>x \<in> S. low \<le> x \<and> x < m \<and> x mod 2 = first mod 2" and "unat m < 2 ^ 64 - 1"
  shows "\<not> ov \<and> first \<le> low' \<and> low' mod 2 = first mod 2 \<and> low' \<notin> S' \<and>
    (\<forall>x \<in> S'. low' \<le> x \<and> x < m \<and> x mod 2 = first mod 2) \<and>
    id_range first low' \<union> S' = id_range first low \<union> S"
  using assms
proof (induction low S rule: slide.induct)
  case (1 low S)
  show ?case
  proof (cases "low \<in> S")
    case False
    with 1 show ?thesis by (auto simp: slide.simps [of low S])
  next
    case True
    then have "unat low < unat m" using "1.prems"(4) by (auto simp: word_less_nat_alt)
    then obtain low1 where low1: "u64_checked_add low 2 = Some low1"
      using "1.prems"(5) by (auto simp: u64_checked_add_def)
    have n: "unat low1 = unat low + 2" using unat_checked_add [OF low1] by simp
    have r: "id_range first low1 = insert low (id_range first low) \<and> first \<le> low1 \<and> low1 mod 2 = first mod 2"
      by (rule id_range_step [OF low1 "1.prems"(2,3)])
    have ge: "\<forall>x \<in> S - {low}. low1 \<le> x \<and> x < m \<and> x mod 2 = first mod 2"
    proof
      fix x
      assume x: "x \<in> S - {low}"
      then have "low \<le> x" "x \<noteq> low" "x mod 2 = low mod 2" using "1.prems"(3,4) by auto
      then have "unat low \<le> unat x" "unat x \<noteq> unat low" "unat x mod 2 = unat low mod 2"
        by (simp add: word_le_nat_alt, simp add: word_unat_eq_iff, simp add: word_mod_2_iff)
      then have "unat low + 2 \<le> unat x" by (rule parity_gap)
      then show "low1 \<le> x \<and> x < m \<and> x mod 2 = first mod 2"
        using x n "1.prems"(4) by (auto simp: word_le_nat_alt)
    qed
    have "slide low1 (S - {low}) = (ov, low', S')"
      using "1.prems"(1) True low1 by (simp add: slide.simps [of low S])
    from "1.IH" [OF True low1 this _ _ ge "1.prems"(5)] r True show ?thesis by auto
  qed
qed

text \<open>The mark and the window refine the set of accepted ids.\<close>

definition id_admissible :: "recv_ids \<Rightarrow> u64 \<Rightarrow> bool" where
  "id_admissible s i \<longleftrightarrow>
     i < ri_our_max s \<and> ri_first s \<le> i \<and> i mod 2 = ri_first s mod 2 \<and> i \<notin> accepted_ids s"

lemma validate_incoming_refines:
  assumes inv: "recv_inv s" and m: "unat (ri_our_max s) < 2 ^ 64 - 1"
    and v: "validate_incoming i s = (res, s')"
  shows "recv_inv s' \<and> ri_first s' = ri_first s \<and> ri_our_max s' = ri_our_max s \<and>
    (if id_admissible s i then res = Inr () \<and> accepted_ids s' = insert i (accepted_ids s)
     else s' = s \<and> res = Inl (if i \<ge> ri_our_max s then SeTooManyRequests else SeInvalidRequestId))"
proof (cases "id_admissible s i")
  case False
  with v inv show ?thesis
    by (auto simp: validate_incoming_def id_admissible_def accepted_ids_def id_range_def not_le not_less
        split: if_splits prod.splits)
next
  case True
  let ?S = "insert i (ri_received_above_low_water s)"
  obtain ov low S where sl: "slide (ri_low_water s) ?S = (ov, low, S)" by (cases "slide (ri_low_water s) ?S") auto
  have low: "ri_low_water s \<le> i"
    using True by (auto simp: id_admissible_def accepted_ids_def id_range_def not_less)
  have "\<forall>x \<in> ?S. ri_low_water s \<le> x \<and> x < ri_our_max s \<and> x mod 2 = ri_first s mod 2"
    using True inv low by (auto simp: id_admissible_def recv_inv_def)
  from slide_ok [OF sl _ _ this m] inv
  have ok: "\<not> ov \<and> ri_first s \<le> low \<and> low mod 2 = ri_first s mod 2 \<and> low \<notin> S \<and>
      (\<forall>x \<in> S. low \<le> x \<and> x < ri_our_max s \<and> x mod 2 = ri_first s mod 2)"
    and acc: "id_range (ri_first s) low \<union> S = id_range (ri_first s) (ri_low_water s) \<union> ?S"
    by (simp_all add: recv_inv_def)
  have "(res, s') = (if ov then Inl SeInvalidRequestId else Inr (),
      s\<lparr>ri_low_water := low, ri_received_above_low_water := S\<rparr>)"
    using True low sl unfolding v [symmetric] by (auto simp: validate_incoming_def id_admissible_def accepted_ids_def id_range_def not_less)
  with ok have res: "res = Inr ()"
    and s': "s' = s\<lparr>ri_low_water := low, ri_received_above_low_water := S\<rparr>"
    by simp_all
  have "recv_inv s'" using ok by (simp add: recv_inv_def s')
  moreover have "accepted_ids s' = insert i (accepted_ids s)" using acc by (simp add: accepted_ids_def s')
  ultimately show ?thesis using True res s' by simp
qed

lemma recv_inv_new: "recv_inv (recv_ids_new m f)" "accepted_ids (recv_ids_new m f) = {}"
  by (auto simp: recv_inv_def recv_ids_new_def accepted_ids_def id_range_def)

section \<open>Pending-table proofs\<close>

definition pr_wf :: "pending_requests \<Rightarrow> bool" where
  "pr_wf t \<longleftrightarrow> distinct (map fst t)"

lemma map_of_filter_key: "map_of (filter (\<lambda>(k, _). k \<noteq> i) t) = (map_of t)(i := None)"
  by (induction t) (auto simp: fun_eq_iff)

lemma distinct_filter_fst: "distinct (map fst t) \<Longrightarrow> distinct (map fst (filter P t))"
  by (induction t) auto

lemma pr_wf_ops:
  "pr_wf t \<Longrightarrow> pr_insert now i r t = (res, t') \<Longrightarrow> pr_wf t'"
  "pr_wf t \<Longrightarrow> pr_remove i t = (res', t') \<Longrightarrow> pr_wf t'"
  "pr_wf t \<Longrightarrow> pr_complete i resp t = (res'', t') \<Longrightarrow> pr_wf t'"
  by (auto simp: pr_wf_def pr_insert_def pr_remove_def pr_complete_def distinct_filter_fst map_of_eq_None_iff
      split: if_splits option.splits)

lemma fold_filter_keys:
  "fold (\<lambda>(i, _) t. filter (\<lambda>(k, _). k \<noteq> i) t) es t = filter (\<lambda>(k, _). k \<notin> fst ` set es) t"
  by (induction es arbitrary: t) (auto intro: filter_cong)

lemma pr_expire_result:
  assumes "pr_wf t" and "pr_expire now t = (expired, t')"
  shows "t' = filter (\<lambda>(_, st). now < pr_deadline st) t"
    and "(i, r) \<in> set expired \<longleftrightarrow> (\<exists>st. map_of t i = Some st \<and> pr_request st = r \<and> pr_deadline st \<le> now)"
proof -
  have ex: "expired = map (\<lambda>(i, st). (i, pr_request st)) (filter (\<lambda>(_, st). pr_deadline st \<le> now) t)"
    and t': "t' = filter (\<lambda>(k, _). k \<notin> fst ` set expired) t"
    using assms(2) by (auto simp: pr_expire_def Let_def fold_filter_keys)
  have uniq: "(k, a) \<in> set t \<Longrightarrow> (k, b) \<in> set t \<Longrightarrow> a = b" for k a b
    using assms(1) unfolding pr_wf_def by (metis eq_key_imp_eq_value)
  show "t' = filter (\<lambda>(_, st). now < pr_deadline st) t"
    unfolding t' by (rule filter_cong [OF refl]) (force simp: ex not_le dest: uniq)
  show "(i, r) \<in> set expired \<longleftrightarrow> (\<exists>st. map_of t i = Some st \<and> pr_request st = r \<and> pr_deadline st \<le> now)"
    using assms(1) by (force simp: ex pr_wf_def)
qed

lemma pr_next_deadline_Min:
  "pr_next_deadline t = (if t = [] then None else Some (Min ((\<lambda>(_, st). pr_deadline st) ` set t)))"
proof -
  have "fold min ds d = Min (set (d # ds))" for d :: nat and ds
    by (simp only: Min.set_eq_fold)
  then show ?thesis by (cases t) (simp_all add: pr_next_deadline_def)
qed

section \<open>Priority proofs\<close>

lemma send_order_eq: "send_order s p = - (256 * uint s + uint p)"
proof -
  have "(push_bit 8 (uint s) :: int) AND uint p = 0"
  proof (rule bit_eqI)
    fix n
    show "bit ((push_bit 8 (uint s) :: int) AND uint p) n = bit 0 n"
      using bit_imp_le_length [of p n] by (auto simp: bit_simps)
  qed
  then have "push_bit 8 (uint s) OR uint p = push_bit 8 (uint s) + uint p"
    by (simp add: disjunctive_add_eq_or)
  then show ?thesis by (simp add: send_order_def push_bit_eq_mult)
qed

lemma send_order_less_iff:
  "send_order s p > send_order s' p' \<longleftrightarrow> s < s' \<or> s = s' \<and> p < p'"
proof -
  have b: "uint p < 256" "uint p' < 256" "0 \<le> uint p" "0 \<le> uint p'"
    using uint_bounded [of p] uint_bounded [of p'] by simp_all
  show ?thesis
  proof (cases "uint s" "uint s'" rule: linorder_cases)
    case less
    with b have "256 * uint s + uint p < 256 * uint s' + uint p'" by linarith
    with less show ?thesis by (simp add: send_order_eq word_less_def)
  next
    case equal
    then show ?thesis using b by (simp add: send_order_eq word_less_def word_uint_eq_iff)
  next
    case greater
    with b have "256 * uint s' + uint p' < 256 * uint s + uint p" by linarith
    with greater show ?thesis by (auto simp: send_order_eq word_less_def)
  qed
qed

end
