(* ===== verification/Session_Properties.thy ===== *)
theory Session_Properties
  imports Request_Stream Session_State
begin

text \<open>
  What the session layer guarantees: request ids and their flow control, the table of
  pending requests, send priorities, the wire profiles, the draft-19 control frames and
  the draft-19 request-stream state machine.
\<close>

section \<open>Request ids\<close>

text \<open>
  C14. The ids a session hands out are \<open>first, first + 2, first + 4, \<dots>\<close> with none skipped or
  repeated, and each is below the limit the peer had granted, whatever sequence of
  allocations and MAX_REQUEST_ID messages led there. REQUESTS_BLOCKED is asked for exactly
  once per limit: of the refusals under one limit the first reports it and no later one does,
  also for the next allocation, which names the limit in force.
\<close>

theorem request_ids_are_consecutive:
  assumes "send_run first peer_max ids refusals s"
  shows "map unat ids = map (\<lambda>k. unat first + 2 * k) [0..<length ids] \<and> distinct ids \<and>
    peer_max \<le> si_peer_max s \<and> (\<forall>i \<in> set ids. i < si_peer_max s) \<and>
    (\<forall>k < length refusals. snd (refusals ! k) \<longleftrightarrow> fst (refusals ! k) \<notin> fst ` set (take k refusals)) \<and>
    (\<forall>m b s'. (allocate s :: (unit session_error + _) \<times> _) = (Inr (Blocked m b), s') \<longrightarrow>
      m = si_peer_max s \<and> (b \<longleftrightarrow> m \<notin> fst ` set refusals))"
proof -
  note ids = send_run_ids [OF assms] and blocked = send_run_blocked [OF assms]
  have "distinct (map unat ids)" unfolding conjunct1 [OF ids] by (auto simp: distinct_map inj_on_def)
  then have "distinct ids" by (simp add: distinct_map)
  moreover have "m = si_peer_max s \<and> (b \<longleftrightarrow> m \<notin> fst ` set refusals)"
    if "(allocate s :: (unit session_error + _) \<times> _) = (Inr (Blocked m b), s')" for m b s'
    using that blocked by (auto simp: allocate_def split: if_splits option.splits)
  ultimately show ?thesis using ids blocked unfolding reports_first_def by blast
qed

text \<open>One id under the limit 4, two refusals, the limit raised to 6, an id and a refusal.\<close>

theorem request_ids_are_consecutive_witness:
  "\<exists>s. send_run 3 4 [3, 5] [(4, True), (4, False), (6, True)] s \<and>
     map unat [3 :: u64, 5] = map (\<lambda>k. unat (3 :: u64) + 2 * k) [0..<2] \<and>
     (\<forall>k < 3. snd ([(4 :: u64, True), (4, False), (6, True)] ! k) \<longleftrightarrow>
        fst ([(4 :: u64, True), (4, False), (6, True)] ! k) \<notin> fst ` set (take k [(4, True), (4, False), (6, True)]))"
proof -
  let ?s = "\<lambda>n m b. \<lparr>si_next = n, si_peer_max = m, si_blocked_sent_for = b\<rparr>"
  note eval = allocate_def send_ids_new_def u64_checked_add_def apply_max_request_id_def
  have "send_run 3 4 ([] @ [3]) [] (?s 5 4 None)" by (rule handed, rule start) (simp add: eval)
  then have "send_run 3 4 ([] @ [3]) ([] @ [(4, True)]) (?s 5 4 (Some 4))" by (rule refused) (simp add: eval)
  then have "send_run 3 4 ([] @ [3]) (([] @ [(4, True)]) @ [(4, False)]) (?s 5 4 (Some 4))" by (rule refused) (simp add: eval)
  then have "send_run 3 4 ([] @ [3]) (([] @ [(4, True)]) @ [(4, False)]) (?s 5 6 None)"
    by (rule raised [where msg = "\<lparr>mri_request_id = 6\<rparr>" and r' = "Inr ()"]) (simp add: eval)
  then have "send_run 3 4 (([] @ [3]) @ [5]) (([] @ [(4, True)]) @ [(4, False)]) (?s 7 6 None)" by (rule handed) (simp add: eval)
  then have "send_run 3 4 (([] @ [3]) @ [5]) ((([] @ [(4, True)]) @ [(4, False)]) @ [(6, True)]) (?s 7 6 (Some 6))"
    by (rule refused) (simp add: eval)
  then have run: "send_run 3 4 [3, 5] [(4, True), (4, False), (6, True)] (?s 7 6 (Some 6))" by simp
  have "length [3 :: u64, 5] = 2" "length [(4 :: u64, True), (4, False), (6, True)] = 3" by simp_all
  with run request_ids_are_consecutive [OF run] show ?thesis by metis
qed

text \<open>
  C13. The receiving side refines a set of accepted ids: \<^verbatim>\<open>validate_incoming\<close> accepts an id
  exactly when it is below our limit, not below the peer's first id, of its parity and not
  accepted before, adds exactly that id to the set, and otherwise leaves the state alone and
  says which rule was broken. Its low-water mark and the set above it are only a compact
  representation.
\<close>

theorem validate_incoming_refines_id_set:
  assumes "recv_inv s" and "unat (ri_our_max s) < 2 ^ 64 - 1" and "validate_incoming i s = (res, s')"
  shows "recv_inv s' \<and>
    (if id_admissible s i then res = Inr () \<and> accepted_ids s' = insert i (accepted_ids s)
     else s' = s \<and> res = Inl (if ri_our_max s \<le> i then SeTooManyRequests else SeInvalidRequestId))"
  using validate_incoming_refines [OF assms] by simp

theorem validate_incoming_refines_id_set_witness:
  "accepted_ids \<lparr>ri_first = 0, ri_low_water = 0, ri_received_above_low_water = {2}, ri_our_max = 10\<rparr> =
     insert 2 (accepted_ids (recv_ids_new 10 0))"
proof -
  have "slide 0 {2} = (False, 0, {2})" by (simp add: slide.simps)
  then have "(validate_incoming 2 (recv_ids_new 10 0) :: (unit session_error + _) \<times> _) =
      (Inr (), \<lparr>ri_first = 0, ri_low_water = 0, ri_received_above_low_water = {2}, ri_our_max = 10\<rparr>)"
    by (simp add: validate_incoming_def recv_ids_new_def)
  from validate_incoming_refines_id_set [OF recv_inv_new(1) _ this] show ?thesis
    by (simp add: recv_ids_new_def id_admissible_def accepted_ids_def id_range_def split: if_splits)
qed

section \<open>Pending requests\<close>

text \<open>
  The pending-request table answers each request at most once: a response of the right
  kind removes its request, so a second response finds none; a response of the wrong kind is
  a protocol violation and changes nothing; expiry removes exactly the requests whose
  deadline has passed and reports each.
\<close>

theorem pending_requests_answered_once:
  assumes "pr_wf t"
  shows "(pr_complete i resp t = (Inr (Some r), t') \<longrightarrow>
      accepts r resp \<and> pr_wf t' \<and> map_of t' = (map_of t)(i := None) \<and>
      pr_complete i resp' t' = (Inr None :: unit session_error + _, t')) \<and>
    (pr_complete i resp t = (Inl (e :: unit session_error), t') \<longrightarrow> e = SeProtocolViolation \<and> t' = t) \<and>
    (pr_expire now t = (expired, t'') \<longrightarrow>
      t'' = filter (\<lambda>(_, st). now < pr_deadline st) t \<and>
      ((j, q) \<in> set expired \<longleftrightarrow> (\<exists>st. map_of t j = Some st \<and> pr_request st = q \<and> pr_deadline st \<le> now)))"
proof -
  have "accepts r resp \<and> pr_wf t' \<and> map_of t' = (map_of t)(i := None) \<and>
      pr_complete i resp' t' = (Inr None :: unit session_error + _, t')" if c: "pr_complete i resp t = (Inr (Some r), t')"
  proof -
    from c have t': "t' = filter (\<lambda>(k, _). k \<noteq> i) t" "accepts r resp"
      by (auto simp: pr_complete_def split: option.splits if_splits)
    then have "map_of t' = (map_of t)(i := None)" by (simp add: map_of_filter_key)
    with t' show ?thesis using pr_wf_ops(3) [OF assms c] by (simp add: pr_complete_def)
  qed
  moreover have "e = SeProtocolViolation \<and> t' = t" if "pr_complete i resp t = (Inl (e :: unit session_error), t')"
    using that by (auto simp: pr_complete_def split: option.splits if_splits)
  ultimately show ?thesis using pr_expire_result [OF assms] by blast
qed

theorem pending_requests_answered_once_witness:
  "(pr_complete 4 RespFetchOk [] :: (unit session_error + _) \<times> _) = (Inr None, [])"
proof -
  have "pr_wf [(4, \<lparr>pr_request = PendFetch, pr_deadline = 9\<rparr>)]" by code_simp
  moreover have "(pr_complete 4 RespFetchOk [(4, \<lparr>pr_request = PendFetch, pr_deadline = 9\<rparr>)] :: (unit session_error + _) \<times> _) =
      (Inr (Some PendFetch), [])" by (simp add: pr_complete_def accepts_def)
  ultimately show ?thesis using pending_requests_answered_once by blast
qed

text \<open>
  Send priority is lexicographic: a stream goes before another exactly when its
  subscriber priority is smaller, or equal with a smaller publisher priority.
\<close>

theorem send_order_lexicographic:
  "send_order s p > send_order s' p' \<longleftrightarrow> s < s' \<or> s = s' \<and> p < p'"
  by (rule send_order_less_iff)

section \<open>Draft-19 control plane\<close>

text \<open>
  A GOAWAY with a valid UTF-8 URI reaches the peer: framed, encoded, decoded in front
  of any further bytes and parsed, it is the same GOAWAY.
\<close>

theorem goaway_over_the_wire:
  assumes "utf8_valid (ga_new_session_uri g)" and "go_away_into_frame g = Inr f" and "frame_encode f w = Inr w'"
  shows "\<exists>bs. w' = wput bs w \<and> (\<forall>r. frame_decode (bs @ r) = Inr (f, r)) \<and> go_away_from_frame f = Inr g"
  using go_away_roundtrip [OF assms(1,2)] d19_frame.prefix_asks_for_more [OF _ assms(3)] by auto

theorem goaway_over_the_wire_witness:
  "\<exists>bs. \<lparr>wr_bytes = [0x10, 0, 2, 0, 5], wr_room = 5\<rparr> = wput bs \<lparr>wr_bytes = [], wr_room = 10\<rparr> \<and>
    (\<forall>r. frame_decode (bs @ r) = Inr (\<lparr>fr_message_type = 0x10, fr_payload = [0, 5]\<rparr>, r)) \<and>
    go_away_from_frame \<lparr>fr_message_type = 0x10, fr_payload = [0, 5]\<rparr> = Inr \<lparr>ga_new_session_uri = [], ga_timeout_ms = 5\<rparr>"
proof (rule goaway_over_the_wire)
  have b: "vi64_bytes 0 = [0]" "vi64_bytes 5 = [5]" "vi64_bytes 0x10 = [0x10]" by code_simp+
  show "utf8_valid (ga_new_session_uri \<lparr>ga_new_session_uri = [], ga_timeout_ms = 5\<rparr>)" by code_simp
  show "go_away_into_frame \<lparr>ga_new_session_uri = [], ga_timeout_ms = 5\<rparr> = Inr \<lparr>fr_message_type = 0x10, fr_payload = [0, 5]\<rparr>"
    by (simp add: go_away_into_frame_def SESSION_URI_MAX_LEN_def GOAWAY_TYPE_def vi64_encode_eq b checked_put_def
        encode_remaining_def put_slice_def fresh_vec_def)
  show "frame_encode \<lparr>fr_message_type = 0x10, fr_payload = [0, 5]\<rparr> \<lparr>wr_bytes = [], wr_room = 10\<rparr> =
      Inr \<lparr>wr_bytes = [0x10, 0, 2, 0, 5], wr_room = 5\<rparr>"
    by (simp add: frame_encode_def vi64_encode_eq b checked_put_def encode_remaining_def put_slice_def u16_encode_def)
qed

text \<open>
  The draft-19 SETUP round-trips with its options in order, and a profile is found by
  its name or by its ALPN exactly when it is that profile's, so that no two profiles are
  confused.
\<close>

theorem draft19_setup_and_profiles:
  "(setup_encode s w = Inr w' \<longrightarrow> (\<exists>bs. w' = wput bs w \<and> (\<forall>r. setup_decode (bs @ r) = Inr (s, r)))) \<and>
   (from_name n = Some p \<longleftrightarrow> profile_name p = n) \<and> (from_alpn (profile_alpn p) = Some q \<longleftrightarrow> p = q) \<and>
   (from_webtransport_protocol t = Some p \<longleftrightarrow> webtransport_protocol p = t \<or> legacy_webtransport_protocol p = Some t)"
proof -
  have "\<exists>bs. w' = wput bs w \<and> (\<forall>r. setup_decode (bs @ r) = Inr (s, r))" if "setup_encode s w = Inr w'"
    using d19_setup.prefix_asks_for_more [OF _ that] by auto
  then show ?thesis by (simp add: from_name_iff from_alpn_iff from_webtransport_iff)
qed

theorem draft19_setup_and_profiles_witness:
  "\<exists>bs. \<lparr>wr_bytes = [0xAF, 0, 0, 0], wr_room = 6\<rparr> = wput bs \<lparr>wr_bytes = [], wr_room = 10\<rparr> \<and>
     (\<forall>r. setup_decode (bs @ r) = Inr (\<lparr>setup_options = []\<rparr>, r))"
proof -
  have b: "vi64_bytes SETUP_TYPE = [0xAF, 0]" by code_simp
  have "setup_encode \<lparr>setup_options = []\<rparr> \<lparr>wr_bytes = [], wr_room = 10\<rparr> = Inr \<lparr>wr_bytes = [0xAF, 0, 0, 0], wr_room = 6\<rparr>"
    by (simp add: setup_encode_def vi64_encode_eq b checked_put_def encode_remaining_def put_slice_def u16_encode_def fresh_vec_def)
  then show ?thesis using draft19_setup_and_profiles by blast
qed

section \<open>Draft-19 request streams\<close>

text \<open>
  C26. A request stream is finished only after what the protocol requires. Over every
  sequence of accepted events: the requester has taken the FIN of its peer only after a
  first response, and of an accepted SUBSCRIBE only after PUBLISH_DONE; the responder has
  finished sending (a GOAWAY apart) only after its first response, and for a SUBSCRIBE it
  accepted only after PUBLISH_DONE; a publisher's FIN is taken only after PUBLISH_DONE.
\<close>

theorem fin_only_when_complete:
  assumes "rs_trace profile t role es s"
  shows "(role = Requester \<and> rs_receive s = ReceiveFinished \<longrightarrow>
      (\<exists>a. ReceiveFirstResponse a \<in> set es) \<and>
      (t = 0x03 \<and> ReceiveFirstResponse 0x04 \<in> set es \<longrightarrow> ReceivePublishDone \<in> set es)) \<and>
    (role = Responder \<and> rs_send s = SendFinished \<and> FinishSendingForGoaway \<notin> set es \<longrightarrow>
      (\<exists>a. SendFirstResponse a \<in> set es) \<and>
      (t = 0x03 \<and> SendFirstResponse 0x04 \<in> set es \<longrightarrow> SendPublishDone \<in> set es)) \<and>
    (role = Responder \<and> t = 0x1d \<and> rs_receive s = ReceiveFinished \<longrightarrow> ReceivePublishDone \<in> set es)"
proof -
  have inv: "inv_answer es s" "inv_receive es s" "inv_send es s"
    using rs_inv_trace [OF assms] by (simp_all add: rs_inv_def)
  have role: "rs_role s = role" and kind: "from_first_message t = Inr (rs_kind s)"
    using rs_trace_parties [OF assms] by simp_all
  have sub: "t = 0x03 \<Longrightarrow> rs_kind s = KSubscribe" and pub: "t = 0x1d \<Longrightarrow> rs_kind s = KPublish"
    using kind by (auto simp: from_first_message_def)
  have 1: "(\<exists>a. ReceiveFirstResponse a \<in> set es) \<and>
      (t = 0x03 \<and> ReceiveFirstResponse 0x04 \<in> set es \<longrightarrow> ReceivePublishDone \<in> set es)"
    if "role = Requester" "rs_receive s = ReceiveFinished"
    using that inv(1,2) sub role by (auto simp: inv_receive_def inv_answer_def answered_def)
  have 2: "(\<exists>a. SendFirstResponse a \<in> set es) \<and>
      (t = 0x03 \<and> SendFirstResponse 0x04 \<in> set es \<longrightarrow> SendPublishDone \<in> set es)"
    if "role = Responder" "rs_send s = SendFinished" "FinishSendingForGoaway \<notin> set es"
    using that inv(1,3) sub role by (auto simp: inv_send_def inv_answer_def answered_def)
  have 3: "ReceivePublishDone \<in> set es" if "role = Responder" "t = 0x1d" "rs_receive s = ReceiveFinished"
    using that inv(2) pub role by (auto simp: inv_receive_def)
  from 1 2 3 show ?thesis by blast
qed

definition subscribe_stream :: request_stream where
  "subscribe_stream = \<lparr>rs_kind = KSubscribe, rs_role = Requester, rs_send = SendOpen, rs_receive = ReceiveOpen,
     rs_first_response_complete = False, rs_send_required = False, rs_receive_required = True\<rparr>"

lemma subscribe_trace: "rs_trace Draft19 0x03 Requester [] subscribe_stream"
  by (rule opened) (simp add: new_for_role_def from_first_message_def subscribe_stream_def)

theorem fin_only_when_complete_witness:
  "\<exists>a. ReceiveFirstResponse a \<in> set [ReceiveFirstResponse 0x05, ReceiveFin]"
proof -
  let ?rejected = "subscribe_stream\<lparr>rs_first_response_complete := True, rs_receive_required := False\<rparr>"
  have "rs_step (ReceiveFirstResponse 0x05) subscribe_stream = Inr (?rejected, NoAction)"
    and "rs_step ReceiveFin ?rejected = Inr (?rejected\<lparr>rs_receive := ReceiveFinished\<rparr>, NoAction)"
    by (simp_all add: rs_ops subscribe_stream_def)
  from fin_only_when_complete [OF accepted [OF accepted [OF subscribe_trace this(1)] this(2)]]
  show ?thesis by (simp add: subscribe_stream_def)
qed

text \<open>
  A closed direction stays closed: once the send side has finished or been reset, or
  the receive side has finished or been reset, no accepted event changes it.
\<close>

theorem closed_sides_stay_closed:
  assumes "rs_step ev s = Inr (s', act)"
  shows "(rs_send s \<noteq> SendOpen \<longrightarrow> rs_send s' = rs_send s) \<and>
    (rs_receive s = ReceiveFinished \<longrightarrow> rs_receive s' = ReceiveFinished) \<and>
    (rs_receive s = ReceiveReset c \<longrightarrow> rs_receive s' = ReceiveReset c) \<and>
    rs_kind s' = rs_kind s \<and> rs_role s' = rs_role s"
  using send_closed_stays [OF assms] receive_closed_stays(1) [OF assms] receive_closed_stays(2) [OF assms]
    step_parties [OF assms] by blast

theorem closed_sides_stay_closed_witness:
  "rs_send (subscribe_stream\<lparr>rs_send := SendFinished, rs_receive := StopSent StCancelled\<rparr>) = SendFinished"
proof -
  have "rs_step (Cancel StCancelled) (subscribe_stream\<lparr>rs_send := SendFinished\<rparr>) =
      Inr (subscribe_stream\<lparr>rs_send := SendFinished, rs_receive := StopSent StCancelled\<rparr>, ActStopSending StCancelled)"
    by (simp add: rs_ops subscribe_stream_def)
  from closed_sides_stay_closed [OF this] show ?thesis by simp
qed

text \<open>
  After its PUBLISH was rejected a publisher cannot finish its side of the stream with
  a plain FIN: until it reports PUBLISH_DONE for the publication the peer refused, or GOAWAY
  handling intervenes, \<^verbatim>\<open>finish_sending\<close> answers \<^verbatim>\<open>PrematureFin\<close> on an open stream. (A
  rejected SUBSCRIBE, on the other side, clears the requirement.)
\<close>

theorem rejected_publish_must_still_be_done:
  assumes "rs_trace profile 0x1d Requester es s" and "ReceiveFirstResponse 0x05 \<in> set es"
    and "SendPublishDone \<notin> set es" and "FinishSendingForGoaway \<notin> set es" and "rs_send s = SendOpen"
  shows "finish_sending s = Inl PrematureFin \<and> (\<exists>s'. send_publish_done s = Inr s')"
proof -
  have inv: "inv_answer es s" "inv_send es s" using rs_inv_trace [OF assms(1)] by (simp_all add: rs_inv_def)
  have "rs_role s = Requester" "rs_kind s = KPublish"
    using rs_trace_parties [OF assms(1)] by (simp_all add: from_first_message_def)
  with inv assms(2-5) show ?thesis
    by (auto simp: inv_send_def inv_answer_def answered_def finish_sending_def send_publish_done_def local_is_publisher_def)
qed

definition publish_stream :: request_stream where
  "publish_stream = \<lparr>rs_kind = KPublish, rs_role = Requester, rs_send = SendOpen, rs_receive = ReceiveOpen,
     rs_first_response_complete = False, rs_send_required = True, rs_receive_required = True\<rparr>"

theorem rejected_publish_must_still_be_done_witness:
  "finish_sending (publish_stream\<lparr>rs_first_response_complete := True, rs_receive_required := False\<rparr>) = Inl PrematureFin"
proof -
  have "rs_trace Draft19 0x1d Requester [] publish_stream"
    by (rule opened) (simp add: new_for_role_def from_first_message_def publish_stream_def)
  moreover have "rs_step (ReceiveFirstResponse 0x05) publish_stream =
      Inr (publish_stream\<lparr>rs_first_response_complete := True, rs_receive_required := False\<rparr>, NoAction)"
    by (simp add: rs_ops publish_stream_def)
  ultimately have "rs_trace Draft19 0x1d Requester ([] @ [ReceiveFirstResponse 0x05])
      (publish_stream\<lparr>rs_first_response_complete := True, rs_receive_required := False\<rparr>)"
    by (rule accepted)
  from rejected_publish_must_still_be_done [OF this] show ?thesis by (simp add: publish_stream_def)
qed

end
