(* ===== verification/Covering.thy ===== *)
theory Covering
  imports Names
begin

text \<open>
  The relay's set of namespace prefixes and its covering roots
  (\<^verbatim>\<open>moq-relay-ietf/src/covering_prefix_set.rs\<close>): the roots are the prefixes the relay really
  subscribes to upstream, and each change reports which roots to add and which to drop.
  The locale \<open>prefix_cover\<close> states what the upstream manager relies on: the reported
  differences keep its view equal to the minimal prefixes of what is active.
\<close>

section \<open>Operations\<close>

record root_delta =
  rd_added :: "track_namespace_prefix set"
  rd_removed :: "track_namespace_prefix set"

record covering_prefix_set =
  cps_active :: "track_namespace_prefix set"
  cps_roots :: "track_namespace_prefix set"

definition cps_default :: covering_prefix_set where
  "cps_default = \<lparr>cps_active = {}, cps_roots = {}\<rparr>"

definition no_delta :: root_delta where
  "no_delta = \<lparr>rd_added = {}, rd_removed = {}\<rparr>"

definition covers :: "track_namespace_prefix \<Rightarrow> track_namespace_prefix \<Rightarrow> bool" where
  "covers broader narrower \<longleftrightarrow> length broader \<le> length narrower \<and> overlaps broader narrower"

definition strictly_covers :: "track_namespace_prefix \<Rightarrow> track_namespace_prefix \<Rightarrow> bool" where
  "strictly_covers broader narrower \<longleftrightarrow> length broader < length narrower \<and> overlaps broader narrower"

definition cps_add :: "track_namespace_prefix \<Rightarrow> covering_prefix_set \<Rightarrow> root_delta \<times> covering_prefix_set" where
  "cps_add p c =
     (if p \<in> cps_active c then (no_delta, c)
      else
        let c = c\<lparr>cps_active := insert p (cps_active c)\<rparr> in
        if \<exists>root \<in> cps_roots c. covers root p then (no_delta, c)
        else
          let removed = Set.filter (\<lambda>root. covers p root) (cps_roots c) in
          (\<lparr>rd_added = {p}, rd_removed = removed\<rparr>,
           c\<lparr>cps_roots := insert p (Set.filter (\<lambda>root. root \<notin> removed) (cps_roots c))\<rparr>))"

definition cps_remove :: "track_namespace_prefix \<Rightarrow> covering_prefix_set \<Rightarrow> root_delta \<times> covering_prefix_set" where
  "cps_remove p c =
     (if p \<notin> cps_active c then (no_delta, c)
      else
        let c = c\<lparr>cps_active := cps_active c - {p}\<rparr> in
        if p \<notin> cps_roots c then (no_delta, c)
        else
          let c = c\<lparr>cps_roots := cps_roots c - {p}\<rparr>;
              added = Set.filter (\<lambda>x. \<not> (\<exists>y \<in> cps_active c. strictly_covers y x))
                (Set.filter (\<lambda>x. covers p x) (cps_active c)) in
          (\<lparr>rd_added = added, rd_removed = {p}\<rparr>, c\<lparr>cps_roots := cps_roots c \<union> added\<rparr>))"

section \<open>Minimal prefixes\<close>

lemma prefix_longer_eq: "prefix b a \<Longrightarrow> length a \<le> length b \<Longrightarrow> a = b"
  by (auto simp: prefix_def)

lemma covers_iff: "covers a b \<longleftrightarrow> prefix a b"
  by (auto simp: covers_def overlaps_iff dest: prefix_length_le prefix_longer_eq)

lemma strictly_covers_iff: "strictly_covers a b \<longleftrightarrow> strict_prefix a b"
  by (auto simp: strictly_covers_def overlaps_iff strict_prefix_def dest: prefix_length_le
      intro: prefix_length_less [unfolded strict_prefix_def])

definition minimal_prefixes :: "track_namespace_prefix set \<Rightarrow> track_namespace_prefix set" where
  "minimal_prefixes A = {r \<in> A. \<not> (\<exists>y \<in> A. strict_prefix y r)}"

definition cps_inv :: "covering_prefix_set \<Rightarrow> bool" where
  "cps_inv c \<longleftrightarrow> cps_roots c = minimal_prefixes (cps_active c)"

lemma minimal_below:
  assumes "x \<in> A"
  shows "\<exists>r \<in> minimal_prefixes A. prefix r x"
  using assms
proof (induction "length x" arbitrary: x rule: less_induct)
  case less
  show ?case
  proof (cases "\<exists>y \<in> A. strict_prefix y x")
    case True
    then obtain y where y: "y \<in> A" "strict_prefix y x" by auto
    with less(1) [of y] prefix_length_less [of y x] obtain r where "r \<in> minimal_prefixes A" "prefix r y" by auto
    moreover from this(2) y(2) have "prefix r x"
      by (blast intro: prefix_order.trans prefix_order.less_imp_le)
    ultimately show ?thesis by blast
  next
    case False
    with less(2) show ?thesis by (auto simp: minimal_prefixes_def)
  qed
qed

lemma minimal_unique:
  "r \<in> minimal_prefixes A \<Longrightarrow> s \<in> minimal_prefixes A \<Longrightarrow> prefix r x \<Longrightarrow> prefix s x \<Longrightarrow> r = s"
  using prefix_same_cases [of r x s] by (auto simp: minimal_prefixes_def strict_prefix_def)

lemma minimal_insert:
  "minimal_prefixes (insert p A) =
    (if \<exists>r \<in> A. strict_prefix r p then minimal_prefixes A
     else insert p {r \<in> minimal_prefixes A. \<not> strict_prefix p r})"
  by (auto simp: minimal_prefixes_def dest: prefix_order.less_trans)

lemma minimal_remove:
  assumes "p \<in> minimal_prefixes A"
  shows "minimal_prefixes (A - {p}) =
    (minimal_prefixes A - {p}) \<union> {x \<in> A - {p}. prefix p x \<and> \<not> (\<exists>y \<in> A - {p}. strict_prefix y x)}"
  using assms by (auto simp: minimal_prefixes_def)

lemma minimal_remove_other:
  assumes "p \<in> A" "p \<notin> minimal_prefixes A"
  shows "minimal_prefixes (A - {p}) = minimal_prefixes A"
proof -
  from assms obtain q where q: "q \<in> A" "strict_prefix q p" by (auto simp: minimal_prefixes_def)
  then have "q \<noteq> p" by auto
  show ?thesis
  proof (intro set_eqI iffI)
    fix r
    assume r: "r \<in> minimal_prefixes (A - {p})"
    then have "\<not> strict_prefix p r"
      using q \<open>q \<noteq> p\<close> prefix_order.less_trans [OF q(2)] by (auto simp: minimal_prefixes_def)
    with r show "r \<in> minimal_prefixes A" by (auto simp: minimal_prefixes_def)
  next
    fix r
    assume "r \<in> minimal_prefixes A"
    with assms(2) show "r \<in> minimal_prefixes (A - {p})" by (auto simp: minimal_prefixes_def)
  qed
qed

section \<open>Correctness of the operations\<close>

lemma root_covers_iff:
  "cps_roots c = minimal_prefixes A \<Longrightarrow> p \<notin> A \<Longrightarrow>
   (\<exists>root \<in> cps_roots c. prefix root p) \<longleftrightarrow> (\<exists>y \<in> A. strict_prefix y p)"
  by (metis (no_types, lifting) minimal_below minimal_prefixes_def mem_Collect_eq prefix_order.trans strict_prefix_def prefix_order.less_imp_le)

lemma cps_add_ok:
  assumes "cps_inv c" and "cps_add p c = (d, c')"
  shows "cps_inv c' \<and> cps_active c' = insert p (cps_active c) \<and>
    cps_roots c' = (cps_roots c - rd_removed d) \<union> rd_added d \<and>
    rd_removed d \<subseteq> cps_roots c \<and> rd_added d \<inter> cps_roots c = {}"
proof -
  let ?A = "cps_active c"
  have roots: "cps_roots c = minimal_prefixes ?A" using assms(1) by (simp add: cps_inv_def)
  consider "p \<in> ?A" | "p \<notin> ?A" "\<exists>root \<in> cps_roots c. prefix root p"
    | "p \<notin> ?A" "\<not> (\<exists>root \<in> cps_roots c. prefix root p)" by blast
  then show ?thesis
  proof cases
    case 1
    then have "d = no_delta" "c' = c" using assms(2) by (simp_all add: cps_add_def)
    then show ?thesis using assms(1) 1 by (simp add: no_delta_def insert_absorb)
  next
    case 2
    then have dc: "d = no_delta" "c' = c\<lparr>cps_active := insert p ?A\<rparr>"
      using assms(2) by (simp_all add: cps_add_def covers_iff Let_def)
    have "minimal_prefixes (insert p ?A) = minimal_prefixes ?A"
      using 2(2) root_covers_iff [OF roots 2(1)] by (simp add: minimal_insert)
    then show ?thesis using roots by (simp add: dc no_delta_def cps_inv_def)
  next
    case 3
    let ?R = "{root \<in> cps_roots c. prefix p root}"
    have uncovered: "{r \<in> cps_roots c. r \<in> cps_roots c \<longrightarrow> \<not> prefix p r} = cps_roots c - ?R" by auto
    have dc: "d = \<lparr>rd_added = {p}, rd_removed = ?R\<rparr>"
        "c' = c\<lparr>cps_active := insert p ?A, cps_roots := insert p (cps_roots c - ?R)\<rparr>"
      using assms(2) 3 by (simp_all add: cps_add_def covers_iff Let_def uncovered)
    have notin: "p \<notin> cps_roots c" using 3(1) roots by (simp add: minimal_prefixes_def)
    then have "{r \<in> minimal_prefixes ?A. \<not> strict_prefix p r} = cps_roots c - ?R"
      using roots by (auto simp: strict_prefix_def)
    then have "minimal_prefixes (insert p ?A) = insert p (cps_roots c - ?R)"
      using 3(2) root_covers_iff [OF roots 3(1)] by (simp add: minimal_insert)
    then show ?thesis using notin by (auto simp: dc cps_inv_def)
  qed
qed

lemma cps_remove_ok:
  assumes "cps_inv c" and "cps_remove p c = (d, c')"
  shows "cps_inv c' \<and> cps_active c' = cps_active c - {p} \<and>
    cps_roots c' = (cps_roots c - rd_removed d) \<union> rd_added d \<and>
    rd_removed d \<subseteq> cps_roots c \<and> rd_added d \<inter> cps_roots c = {}"
proof -
  let ?A = "cps_active c"
  have roots: "cps_roots c = minimal_prefixes ?A" using assms(1) by (simp add: cps_inv_def)
  consider "p \<notin> ?A" | "p \<in> ?A" "p \<notin> cps_roots c" | "p \<in> ?A" "p \<in> cps_roots c" by blast
  then show ?thesis
  proof cases
    case 1
    then have "d = no_delta" "c' = c" using assms(2) by (simp_all add: cps_remove_def)
    then show ?thesis using assms(1) 1 by (simp add: no_delta_def)
  next
    case 2
    then have dc: "d = no_delta" "c' = c\<lparr>cps_active := ?A - {p}\<rparr>"
      using assms(2) by (simp_all add: cps_remove_def)
    have "minimal_prefixes (?A - {p}) = minimal_prefixes ?A"
      using 2 roots by (intro minimal_remove_other) simp_all
    then show ?thesis using roots by (simp add: dc no_delta_def cps_inv_def)
  next
    case 3
    let ?N = "{x \<in> ?A - {p}. prefix p x \<and> \<not> (\<exists>y \<in> ?A - {p}. strict_prefix y x)}"
    have dc: "d = \<lparr>rd_added = ?N, rd_removed = {p}\<rparr>"
        "c' = c\<lparr>cps_active := ?A - {p}, cps_roots := (cps_roots c - {p}) \<union> ?N\<rparr>"
      using assms(2) 3 by (auto simp: cps_remove_def covers_iff strictly_covers_iff Let_def)
    have "minimal_prefixes (?A - {p}) = (cps_roots c - {p}) \<union> ?N"
      using 3(2) minimal_remove [of p ?A] unfolding roots by simp
    moreover have "?N \<inter> cps_roots c = {}"
      using 3(1) by (auto simp: roots minimal_prefixes_def strict_prefix_def)
    ultimately show ?thesis using 3(2) by (simp add: dc cps_inv_def)
  qed
qed

section \<open>The upstream manager's contract\<close>

text \<open>
  A cover keeps a set of active prefixes and reports differences; a client that applies
  them to its own set of upstream subscriptions holds, at any time, prefixes that cover
  every active one, none of which covers another.
\<close>

locale prefix_cover =
  fixes emp :: 's
    and ins del :: "track_namespace_prefix \<Rightarrow> 's \<Rightarrow> root_delta \<times> 's"
    and act roots :: "'s \<Rightarrow> track_namespace_prefix set"
    and inv :: "'s \<Rightarrow> bool"
  assumes inv_emp: "inv emp" and act_emp: "act emp = {}"
    and inv_roots: "inv s \<Longrightarrow> roots s = minimal_prefixes (act s)"
    and ins_ok: "inv s \<Longrightarrow> ins p s = (d, s') \<Longrightarrow>
      inv s' \<and> act s' = insert p (act s) \<and> roots s' = (roots s - rd_removed d) \<union> rd_added d"
    and del_ok: "inv s \<Longrightarrow> del p s = (d, s') \<Longrightarrow>
      inv s' \<and> act s' = act s - {p} \<and> roots s' = (roots s - rd_removed d) \<union> rd_added d"
begin

definition apply_op :: "bool \<times> track_namespace_prefix \<Rightarrow> 's \<times> track_namespace_prefix set \<Rightarrow> 's \<times> track_namespace_prefix set" where
  "apply_op op_p st =
     (case (if fst op_p then ins (snd op_p) (fst st) else del (snd op_p) (fst st)) of
        (d, s') \<Rightarrow> (s', (snd st - rd_removed d) \<union> rd_added d))"

lemma mirror_step:
  assumes "inv (fst st)" and "snd st = roots (fst st)"
  shows "inv (fst (apply_op op_p st)) \<and> snd (apply_op op_p st) = roots (fst (apply_op op_p st)) \<and>
    act (fst (apply_op op_p st)) =
      (if fst op_p then insert (snd op_p) (act (fst st)) else act (fst st) - {snd op_p})"
proof -
  obtain d s' where r: "(if fst op_p then ins (snd op_p) (fst st) else del (snd op_p) (fst st)) = (d, s')"
    by fastforce
  then show ?thesis
    using ins_ok [OF assms(1)] del_ok [OF assms(1)] assms(2)
    by (auto simp: apply_op_def split: if_splits)
qed

lemma mirror_run:
  "let st = fold apply_op ops (emp, {}) in
   inv (fst st) \<and> snd st = minimal_prefixes (act (fst st))"
proof -
  have "inv (fst (fold apply_op ops (emp, {}))) \<and>
      snd (fold apply_op ops (emp, {})) = roots (fst (fold apply_op ops (emp, {})))"
  proof (induction ops rule: rev_induct)
    case Nil
    then show ?case using inv_emp inv_roots [OF inv_emp] by (simp add: act_emp minimal_prefixes_def)
  next
    case (snoc x ops)
    then show ?case using mirror_step by simp
  qed
  then show ?thesis by (simp add: Let_def inv_roots)
qed

lemma covered_once:
  assumes "inv s" and "x \<in> act s"
  shows "\<exists>!r. r \<in> roots s \<and> prefix r x"
  using minimal_below [OF assms(2)] minimal_unique inv_roots [OF assms(1)] by blast

end

interpretation cps: prefix_cover cps_default cps_add cps_remove cps_active cps_roots cps_inv
proof
  show "cps_inv cps_default" by (simp add: cps_inv_def cps_default_def minimal_prefixes_def)
  show "cps_active cps_default = {}" by (simp add: cps_default_def)
  show "cps_inv c \<Longrightarrow> cps_roots c = minimal_prefixes (cps_active c)" for c by (simp add: cps_inv_def)
qed (use cps_add_ok cps_remove_ok in blast)+

end
