(* ===== verification/Retention.thy ===== *)
theory Retention
  imports Fetch_Stream "HOL-Library.While_Combinator"
begin

text \<open>
  The relay's bounded retention of recent groups (\<^verbatim>\<open>moq-relay-ietf/src/retention.rs\<close>), from
  which it answers a standalone FETCH: the byte accounting of one track, insertion with
  eviction as a small-step machine whose steps make at most one access to the budget that
  all tracks share, the registry with several tracks interleaving, and the matching of a
  FETCH range against what is retained.
\<close>

section \<open>Data\<close>

text \<open>
  A \<^verbatim>\<open>BTreeMap<u64, _>\<close> is an association list with distinct keys; the code looks a key up,
  inserts, removes, counts and asks for the entry with the greatest key.
\<close>

type_synonym 'v btree = "(u64 \<times> 'v) list"

definition bt_insert :: "u64 \<Rightarrow> 'v \<Rightarrow> 'v btree \<Rightarrow> 'v btree" where
  "bt_insert k v m = (k, v) # filter (\<lambda>e. fst e \<noteq> k) m"

definition bt_remove :: "u64 \<Rightarrow> 'v btree \<Rightarrow> 'v btree" where
  "bt_remove k m = filter (\<lambda>e. fst e \<noteq> k) m"

fun bt_last :: "'v btree \<Rightarrow> (u64 \<times> 'v) option" where
  "bt_last [] = None"
| "bt_last (e # m) =
     (case bt_last m of None \<Rightarrow> Some e | Some e' \<Rightarrow> Some (if fst e' \<le> fst e then e else e'))"

record fetch_response_object =
  fro_object :: fetch_object
  fro_payload :: "bytes list"

definition fro_location :: "fetch_response_object \<Rightarrow> location" where
  "fro_location ob = fetch_object_location (fro_object ob)"

abbreviation fro_group :: "fetch_response_object \<Rightarrow> u64" where
  "fro_group ob \<equiv> fo_group_id (fro_object ob)"

abbreviation fro_id :: "fetch_response_object \<Rightarrow> u64" where
  "fro_id ob \<equiv> fo_object_id (fro_object ob)"

record retained_group =
  gr_objects :: "fetch_response_object btree"
  gr_bytes :: nat

record retained_groups =
  rg_groups :: "retained_group btree"
  rg_arrival :: "u64 list"
  rg_bytes :: nat

definition retained_groups_default :: retained_groups where
  "retained_groups_default = \<lparr>rg_groups = [], rg_arrival = [], rg_bytes = 0\<rparr>"

definition retained_group_default :: retained_group where
  "retained_group_default = \<lparr>gr_objects = [], gr_bytes = 0\<rparr>"

text \<open>
  What \<^verbatim>\<open>size_of\<close> gives for a response object, a payload chunk handle and a header is the
  compiler's choice: a parameter of the model.
\<close>

record layout =
  lay_object :: nat
  lay_chunk :: nat
  lay_header :: nat

definition retained_bytes :: "layout \<Rightarrow> fetch_response_object \<Rightarrow> nat" where
  "retained_bytes lay ob =
     (let headers = fo_extension_headers (fro_object ob);
          header_values = sum_list (map (\<lambda>h. case kvp_val h of
            BytesValue bs \<Rightarrow> length bs | IntValue _ \<Rightarrow> 0) headers) in
      lay_object lay + lay_chunk lay * length (fro_payload ob) +
      fo_payload_length (fro_object ob) + lay_header lay * length headers + header_values)"

section \<open>The shared budget\<close>

text \<open>\<^verbatim>\<open>Limits\<close>, less the shared counter \<^verbatim>\<open>used_bytes\<close>, which is passed and returned.\<close>

record limits =
  lim_groups :: u64
  lim_track_bytes :: nat
  lim_total_bytes :: nat

definition usize_checked_add :: "nat \<Rightarrow> nat \<Rightarrow> nat option" where
  "usize_checked_add a b = (if a + b < 2 ^ 64 then Some (a + b) else None)"

definition fits :: "nat \<Rightarrow> nat \<Rightarrow> nat \<Rightarrow> bool" where
  "fits a b bound = (case usize_checked_add a b of None \<Rightarrow> False | Some c \<Rightarrow> c \<le> bound)"

definition reserve :: "limits \<Rightarrow> nat \<Rightarrow> nat \<Rightarrow> bool \<times> nat" where
  "reserve lim n used =
     (case usize_checked_add used n of
        None \<Rightarrow> (False, used)
      | Some u \<Rightarrow> if u \<le> lim_total_bytes lim then (True, u) else (False, used))"

text \<open>\<^verbatim>\<open>fetch_sub\<close> wraps around.\<close>

definition release :: "nat \<Rightarrow> nat \<Rightarrow> nat" where
  "release n used = (used + 2 ^ 64 - n) mod 2 ^ 64"

section \<open>Insertion\<close>

definition evict_oldest :: "nat \<times> retained_groups \<Rightarrow> nat \<times> retained_groups" where
  "evict_oldest ug =
     (case ug of (used, g) \<Rightarrow>
        case rg_arrival g of
          [] \<Rightarrow> (used, g)
        | gid # arrival \<Rightarrow>
            let g = g\<lparr>rg_arrival := arrival\<rparr> in
            case map_of (rg_groups g) gid of
              None \<Rightarrow> (used, g)
            | Some grp \<Rightarrow>
                (release (gr_bytes grp) used,
                 g\<lparr>rg_groups := bt_remove gid (rg_groups g),
                   rg_bytes := rg_bytes g - gr_bytes grp\<rparr>))"

text \<open>
  Where an insertion stands between two accesses to the shared counter. The track's own
  lock is held throughout, so other tracks only see and change the counter.
\<close>

datatype insert_phase =
  Idle
| Reserving fetch_response_object nat nat   \<comment> \<open>the object, its cost, older groups left\<close>
| Evicting fetch_response_object nat nat
| Windowing u64 u64   \<comment> \<open>the stored object's group and object id\<close>

definition holds :: "retained_groups \<Rightarrow> u64 \<Rightarrow> u64 \<Rightarrow> bool" where
  "holds g gid oid =
     (case map_of (rg_groups g) gid of
        None \<Rightarrow> False | Some grp \<Rightarrow> map_of (gr_objects grp) oid \<noteq> None)"

fun position :: "u64 \<Rightarrow> u64 list \<Rightarrow> nat option" where
  "position x [] = None"
| "position x (y # ys) = (if y = x then Some 0 else map_option Suc (position x ys))"

definition older_groups :: "retained_groups \<Rightarrow> u64 \<Rightarrow> nat" where
  "older_groups g gid =
     (case position gid (rg_arrival g) of None \<Rightarrow> length (rg_arrival g) | Some n \<Rightarrow> n)"

definition older_bytes :: "retained_groups \<Rightarrow> nat \<Rightarrow> nat" where
  "older_bytes g n =
     sum_list (map gr_bytes (List.map_filter (map_of (rg_groups g)) (take n (rg_arrival g))))"

definition insert_begin ::
    "layout \<Rightarrow> limits \<Rightarrow> fetch_response_object \<Rightarrow> nat \<Rightarrow> retained_groups \<Rightarrow> insert_phase" where
  "insert_begin lay lim ob used g =
     (if holds g (fro_group ob) (fro_id ob) then Idle
      else
        let cost = retained_bytes lay ob;
            n = older_groups g (fro_group ob);
            older = older_bytes g n in
        if fits (rg_bytes g - older) cost (lim_track_bytes lim) \<and>
           fits (used - older) cost (lim_total_bytes lim)
        then Reserving ob cost n
        else Idle)"

definition insert_store ::
    "fetch_response_object \<Rightarrow> nat \<Rightarrow> retained_groups \<Rightarrow> retained_groups" where
  "insert_store ob cost g =
     (let gid = fro_group ob;
          arrival = (if map_of (rg_groups g) gid = None
            then rg_arrival g @ [gid] else rg_arrival g);
          grp = (case map_of (rg_groups g) gid of
            None \<Rightarrow> retained_group_default | Some grp \<Rightarrow> grp);
          grp = \<lparr>gr_objects = bt_insert (fro_id ob) ob (gr_objects grp),
            gr_bytes = gr_bytes grp + cost\<rparr> in
      \<lparr>rg_groups = bt_insert gid grp (rg_groups g), rg_arrival = arrival,
       rg_bytes = rg_bytes g + cost\<rparr>)"

type_synonym insert_state = "nat \<times> retained_groups \<times> insert_phase"

fun insert_step :: "limits \<Rightarrow> insert_state \<Rightarrow> insert_state" where
  "insert_step lim (used, g, Idle) = (used, g, Idle)"
| "insert_step lim (used, g, Reserving ob cost n) =
     (if fits (rg_bytes g) cost (lim_track_bytes lim) \<and> fst (reserve lim cost used)
      then (snd (reserve lim cost used), insert_store ob cost g, Windowing (fro_group ob) (fro_id ob))
      else if n = 0 then (used, g, Idle)
      else (used, g, Evicting ob cost n))"
| "insert_step lim (used, g, Evicting ob cost n) =
     (case evict_oldest (used, g) of (used, g) \<Rightarrow> (used, g, Reserving ob cost (n - 1)))"
| "insert_step lim (used, g, Windowing gid oid) =
     (if unat (lim_groups lim) < length (rg_groups g)
      then case evict_oldest (used, g) of (used, g) \<Rightarrow> (used, g, Windowing gid oid)
      else (used, g, Idle))"

text \<open>\<^verbatim>\<open>RetainedTrack::insert\<close> with no other track using the budget meanwhile.\<close>

definition insert_run :: "limits \<Rightarrow> insert_state \<Rightarrow> insert_state option" where
  "insert_run lim = while_option (\<lambda>(used, g, ph). ph \<noteq> Idle) (insert_step lim)"

definition rt_insert ::
    "layout \<Rightarrow> limits \<Rightarrow> fetch_response_object \<Rightarrow> nat \<Rightarrow> retained_groups \<Rightarrow> insert_state option" where
  "rt_insert lay lim ob used g = insert_run lim (used, g, insert_begin lay lim ob used g)"

section \<open>Answering a FETCH\<close>

definition END_OF_GROUP :: u64 where
  "END_OF_GROUP = varint_MAX"

definition inclusive_end :: "location \<Rightarrow> location" where
  "inclusive_end e =
     (case u64_checked_sub (object_id e) 1 of
        Some ob \<Rightarrow> Location_new (group_id e) ob
      | None \<Rightarrow> Location_new (group_id e) END_OF_GROUP)"

definition location_max :: "location \<Rightarrow> location \<Rightarrow> location" where
  "location_max a b = (if location_le a b then b else a)"

definition location_min :: "location \<Rightarrow> location \<Rightarrow> location" where
  "location_min a b = (if location_le a b then a else b)"

text \<open>The first argument is the live track's \<^verbatim>\<open>TrackReader::largest_location\<close>.\<close>

definition largest_location :: "location option \<Rightarrow> retained_groups \<Rightarrow> location option" where
  "largest_location live g =
     (let retained = Option.bind (bt_last (rg_groups g)) (\<lambda>(gid, grp).
          map_option (\<lambda>(oid, _). Location_new gid oid) (bt_last (gr_objects grp))) in
      case (live, retained) of
        (Some a, Some b) \<Rightarrow> Some (location_max a b)
      | (Some a, None) \<Rightarrow> Some a
      | (None, r) \<Rightarrow> r)"

datatype fetch_plan =
  Complete "fetch_response_object list" location
| Partial "fetch_response_object list" location location location
    \<comment> \<open>the objects, the first unknown, the last and the end location\<close>
| BeyondLargest
| NothingPublished

text \<open>The inner loop: \<open>Some\<close> the first object id that is not retained, or \<open>None\<close>.\<close>

function scan_group ::
    "retained_group option \<Rightarrow> u64 \<Rightarrow> u64 \<Rightarrow> fetch_response_object list \<Rightarrow>
     u64 option \<times> fetch_response_object list" where
  "scan_group retained final_object oid objects =
     (case Option.bind retained (\<lambda>grp. map_of (gr_objects grp) oid) of
        None \<Rightarrow> (Some oid, objects)
      | Some ob \<Rightarrow>
          if final_object \<le> oid then (None, objects @ [ob])
          else scan_group retained final_object (oid + 1) (objects @ [ob]))"
  by pat_completeness auto
termination
proof (relation "measure (\<lambda>(_, final_object, oid, _). unat final_object - unat oid)", simp, clarsimp simp: not_le)
  fix final_object oid :: u64
  assume less: "oid < final_object"
  then have "unat (oid + 1) = unat oid + 1"
    using unsigned_less [where 'a = nat, of final_object] by (simp add: unat_word_ariths(1) word_less_nat_alt)
  with less show "unat final_object - unat (oid + 1) < unat final_object - unat oid"
    by (simp add: word_less_nat_alt)
qed

declare scan_group.simps [simp del]

definition group_ids :: "group_order \<Rightarrow> u64 \<Rightarrow> u64 \<Rightarrow> u64 list" where
  "group_ids order a b =
     (let ids = map word_of_nat [unat a ..< Suc (unat b)] in
      if order = Descending then rev ids else ids)"

definition first_object :: "location \<Rightarrow> u64 \<Rightarrow> u64" where
  "first_object start gid = (if gid = group_id start then object_id start else 0)"

definition final_object :: "location \<Rightarrow> u64 \<Rightarrow> u64" where
  "final_object lst gid = (if gid = group_id lst then object_id lst else END_OF_GROUP)"

fun scan_groups ::
    "retained_groups \<Rightarrow> location \<Rightarrow> location \<Rightarrow> u64 list \<Rightarrow> fetch_response_object list \<Rightarrow>
     location option \<times> fetch_response_object list" where
  "scan_groups g start lst [] objects = (None, objects)"
| "scan_groups g start lst (gid # gids) objects =
     (case scan_group (map_of (rg_groups g) gid) (final_object lst gid) (first_object start gid) objects of
        (Some oid, objects) \<Rightarrow> (Some (Location_new gid oid), objects)
      | (None, objects) \<Rightarrow> scan_groups g start lst gids objects)"

definition u64_saturating_add :: "u64 \<Rightarrow> u64 \<Rightarrow> u64" where
  "u64_saturating_add a b = (case u64_checked_add a b of None \<Rightarrow> -1 | Some c \<Rightarrow> c)"

definition plan ::
    "location option \<Rightarrow> retained_groups \<Rightarrow> location \<Rightarrow> location \<Rightarrow> group_order \<Rightarrow> fetch_plan" where
  "plan live g start e order =
     (case largest_location live g of
        None \<Rightarrow> NothingPublished
      | Some largest \<Rightarrow>
          if location_less largest start then BeyondLargest
          else
            let requested_last = inclusive_end e;
                end_location = (if location_less largest requested_last
                  then Location_new (group_id largest) (u64_saturating_add (object_id largest) 1) else e);
                lst = location_min requested_last largest in
            if location_less lst start then Complete [] end_location
            else
              let last_location = (if order = Descending \<and> group_id start \<noteq> group_id lst
                    then Location_new (group_id start) END_OF_GROUP else lst) in
              case scan_groups g start lst (group_ids order (group_id start) (group_id lst)) [] of
                (Some unknown, objects) \<Rightarrow> Partial objects unknown last_location end_location
              | (None, objects) \<Rightarrow> Complete objects end_location)"

section \<open>Association lists as maps\<close>

lemma map_of_bt_remove [simp]: "map_of (bt_remove k m) j = (if j = k then None else map_of m j)"
  by (induction m) (auto simp: bt_remove_def)

lemma map_of_bt_insert [simp]: "map_of (bt_insert k v m) j = (if j = k then Some v else map_of m j)"
  using map_of_bt_remove [of k m j] by (simp add: bt_insert_def bt_remove_def)

lemma keys_bt_remove [simp]: "fst ` set (bt_remove k m) = fst ` set m - {k}"
  by (auto simp: bt_remove_def image_iff)

lemma keys_bt_insert [simp]: "fst ` set (bt_insert k v m) = insert k (fst ` set m)"
  by (auto simp: bt_insert_def image_iff)

lemma distinct_bt_remove [simp]: "distinct (map fst m) \<Longrightarrow> distinct (map fst (bt_remove k m))"
  by (simp add: bt_remove_def distinct_map_filter)

lemma distinct_bt_insert [simp]: "distinct (map fst m) \<Longrightarrow> distinct (map fst (bt_insert k v m))"
  by (auto simp: bt_insert_def distinct_map_filter)

lemma sum_keys:
  assumes "distinct (map fst m)"
  shows "sum_list (map (\<lambda>e. f (snd e)) m) = (\<Sum>k \<in> fst ` set m. case map_of m k of None \<Rightarrow> 0 | Some v \<Rightarrow> f v)"
proof -
  have "map (\<lambda>e. f (snd e)) m = map (\<lambda>k. case map_of m k of None \<Rightarrow> 0 | Some v \<Rightarrow> f v) (map fst m)"
    using assms by auto
  then show ?thesis using assms by (metis (no_types, lifting) list.set_map sum_list_distinct_conv_sum_set)
qed

lemma sum_remove_key:
  fixes f :: "'v \<Rightarrow> nat"
  assumes "distinct (map fst m)"
  shows "sum_list (map (\<lambda>e. f (snd e)) m) =
    (case map_of m k of None \<Rightarrow> 0 | Some v \<Rightarrow> f v) + sum_list (map (\<lambda>e. f (snd e)) (bt_remove k m))"
  using assms
proof (induction m)
  case (Cons e m)
  show ?case
  proof (cases "fst e = k")
    case True
    with Cons.prems have "\<forall>x \<in> set m. fst x \<noteq> k" by (auto simp: image_iff)
    then have "bt_remove k m = m" by (simp add: bt_remove_def filter_id_conv)
    with True show ?thesis by (cases e) (simp add: bt_remove_def)
  next
    case False
    with Cons show ?thesis by (cases e) (simp add: bt_remove_def split: option.split)
  qed
qed (simp add: bt_remove_def)

lemma bt_last_greatest:
  "bt_last m = Some (k, v) \<Longrightarrow> (k, v) \<in> set m \<and> (\<forall>j \<in> fst ` set m. j \<le> k)"
proof (induction m arbitrary: k v)
  case (Cons e m)
  show ?case
  proof (cases "bt_last m")
    case None
    then have "m = []" by (cases m) (auto split: option.splits)
    with Cons.prems show ?thesis by simp
  next
    case (Some e')
    with Cons.IH [of "fst e'" "snd e'"] have "e' \<in> set m" "\<forall>j \<in> fst ` set m. j \<le> fst e'" by simp_all
    with Some Cons.prems show ?thesis by (cases e; cases e') (auto split: if_splits)
  qed
qed simp

lemma bt_last_None [simp]: "bt_last m = None \<longleftrightarrow> m = []"
  by (cases m) (auto split: option.splits)

section \<open>Byte accounting of one track\<close>

definition group_ok :: "layout \<Rightarrow> u64 \<Rightarrow> retained_group \<Rightarrow> bool" where
  "group_ok lay gid grp \<longleftrightarrow>
     distinct (map fst (gr_objects grp)) \<and> gr_objects grp \<noteq> [] \<and>
     (\<forall>(oid, ob) \<in> set (gr_objects grp). fro_group ob = gid \<and> fro_id ob = oid) \<and>
     gr_bytes grp = sum_list (map (\<lambda>e. retained_bytes lay (snd e)) (gr_objects grp))"

definition groups_ok :: "layout \<Rightarrow> retained_groups \<Rightarrow> bool" where
  "groups_ok lay g \<longleftrightarrow>
     distinct (rg_arrival g) \<and> distinct (map fst (rg_groups g)) \<and>
     set (rg_arrival g) = fst ` set (rg_groups g) \<and>
     (\<forall>(gid, grp) \<in> set (rg_groups g). group_ok lay gid grp) \<and>
     rg_bytes g = sum_list (map (\<lambda>e. gr_bytes (snd e)) (rg_groups g))"

definition group_bytes :: "retained_groups \<Rightarrow> u64 \<Rightarrow> nat" where
  "group_bytes g gid = (case map_of (rg_groups g) gid of None \<Rightarrow> 0 | Some grp \<Rightarrow> gr_bytes grp)"

lemma older_bytes_eq: "older_bytes g n = sum_list (map (group_bytes g) (take n (rg_arrival g)))"
proof -
  have "sum_list (map gr_bytes (List.map_filter (map_of (rg_groups g)) ks)) = sum_list (map (group_bytes g) ks)" for ks
    by (induction ks) (auto simp: List.map_filter_simps group_bytes_def split: option.split)
  then show ?thesis by (simp add: older_bytes_def)
qed

lemma groups_ok_bytes: "groups_ok lay g \<Longrightarrow> rg_bytes g = sum_list (map (group_bytes g) (rg_arrival g))"
  unfolding groups_ok_def group_bytes_def [abs_def]
  by (simp add: sum_keys [where f = gr_bytes] sum_list_distinct_conv_sum_set del: set_map)

lemma groups_ok_length: "groups_ok lay g \<Longrightarrow> length (rg_groups g) = length (rg_arrival g)"
  unfolding groups_ok_def by (metis distinct_card length_map list.set_map)

lemma older_bytes_le: "groups_ok lay g \<Longrightarrow> older_bytes g n \<le> rg_bytes g"
  by (simp add: older_bytes_eq groups_ok_bytes)
     (metis append_take_drop_id le_add1 map_append sum_list_append)

lemma evict_oldest_ok:
  assumes "groups_ok lay g" and "rg_arrival g = k # ks"
  obtains g' where "evict_oldest (used, g) = (release (group_bytes g k) used, g')"
    and "groups_ok lay g'" and "rg_arrival g' = ks" and "rg_bytes g = group_bytes g k + rg_bytes g'"
    and "\<And>j. map_of (rg_groups g') j = (if j = k then None else map_of (rg_groups g) j)"
proof -
  note ok = assms(1) [unfolded groups_ok_def]
  have "k \<in> fst ` set (rg_groups g)" using ok assms(2) by (metis list.set_intros(1))
  then obtain grp where grp: "map_of (rg_groups g) k = Some grp" by (force simp: map_of_eq_None_iff dest: not_None_eq [THEN iffD1])
  let ?g' = "g\<lparr>rg_arrival := ks, rg_groups := bt_remove k (rg_groups g), rg_bytes := rg_bytes g - gr_bytes grp\<rparr>"
  have kb: "group_bytes g k = gr_bytes grp" by (simp add: group_bytes_def grp)
  have other: "group_bytes ?g' j = group_bytes g j" if "j \<in> set ks" for j
    using that ok assms(2) by (auto simp: group_bytes_def)
  have bytes: "rg_bytes g = group_bytes g k + sum_list (map (group_bytes ?g') ks)"
    using groups_ok_bytes [OF assms(1)] assms(2) other by (simp cong: map_cong)
  have keys: "set ks = fst ` set (bt_remove k (rg_groups g))" using ok assms(2) by auto
  have "sum_list (map (group_bytes ?g') ks) = sum_list (map (\<lambda>e. gr_bytes (snd e)) (rg_groups ?g'))"
    using ok assms(2) keys
    by (simp add: sum_keys [where f = gr_bytes] sum_list_distinct_conv_sum_set group_bytes_def [abs_def] del: keys_bt_remove)
  then have ok': "groups_ok lay ?g'"
    using ok assms(2) keys bytes kb by (auto simp: groups_ok_def bt_remove_def distinct_map_filter)
  have ev: "evict_oldest (used, g) = (release (group_bytes g k) used, ?g')"
    by (simp add: evict_oldest_def assms(2) grp kb Let_def)
  have "rg_bytes g = group_bytes g k + rg_bytes ?g'" using bytes kb by simp
  then show thesis by (intro that [OF ev ok']) simp_all
qed

lemma holds_iff: "holds g gid oid \<longleftrightarrow> (\<exists>grp ob. map_of (rg_groups g) gid = Some grp \<and> map_of (gr_objects grp) oid = Some ob)"
  by (auto simp: holds_def split: option.split)

definition stored :: "retained_groups \<Rightarrow> fetch_response_object \<Rightarrow> bool" where
  "stored g ob \<longleftrightarrow> (\<exists>grp. map_of (rg_groups g) (fro_group ob) = Some grp \<and> map_of (gr_objects grp) (fro_id ob) = Some ob)"

lemma group_ok_insert:
  assumes "group_ok lay (fro_group ob) grp \<or> grp = retained_group_default"
    and "map_of (gr_objects grp) (fro_id ob) = None"
  shows "group_ok lay (fro_group ob) \<lparr>gr_objects = bt_insert (fro_id ob) ob (gr_objects grp),
    gr_bytes = gr_bytes grp + retained_bytes lay ob\<rparr>"
proof -
  have "filter (\<lambda>e. fst e \<noteq> fro_id ob) (gr_objects grp) = gr_objects grp"
    using assms(2) by (force simp: filter_id_conv map_of_eq_None_iff)
  then have "bt_insert (fro_id ob) ob (gr_objects grp) = (fro_id ob, ob) # gr_objects grp"
    by (simp add: bt_insert_def)
  then show ?thesis
    using assms by (auto simp: group_ok_def retained_group_default_def map_of_eq_None_iff)
qed

lemma insert_store_ok:
  assumes "groups_ok lay g" and "\<not> holds g (fro_group ob) (fro_id ob)"
  defines "g' \<equiv> insert_store ob (retained_bytes lay ob) g"
  shows "groups_ok lay g'" and "stored g' ob" and "rg_bytes g' = rg_bytes g + retained_bytes lay ob"
    and "rg_arrival g' = (if fro_group ob \<in> set (rg_arrival g) then rg_arrival g else rg_arrival g @ [fro_group ob])"
proof -
  note ok = assms(1) [unfolded groups_ok_def]
  let ?gid = "fro_group ob"
  define grp where "grp = (case map_of (rg_groups g) ?gid of None \<Rightarrow> retained_group_default | Some grp \<Rightarrow> grp)"
  define new where "new = \<lparr>gr_objects = bt_insert (fro_id ob) ob (gr_objects grp), gr_bytes = gr_bytes grp + retained_bytes lay ob\<rparr>"
  have mem: "map_of (rg_groups g) ?gid = None \<longleftrightarrow> ?gid \<notin> set (rg_arrival g)"
    using ok by (simp add: map_of_eq_None_iff)
  have g': "g' = \<lparr>rg_groups = bt_insert ?gid new (rg_groups g),
      rg_arrival = (if ?gid \<in> set (rg_arrival g) then rg_arrival g else rg_arrival g @ [?gid]),
      rg_bytes = rg_bytes g + retained_bytes lay ob\<rparr>"
    by (simp add: g'_def insert_store_def new_def grp_def Let_def mem)
  have "map_of (gr_objects grp) (fro_id ob) = None"
    using assms(2) by (auto simp: grp_def holds_def retained_group_default_def split: option.split)
  moreover have "group_ok lay ?gid grp \<or> grp = retained_group_default"
    using ok by (auto simp: grp_def dest: map_of_SomeD split: option.split)
  ultimately have new_ok: "group_ok lay ?gid new" by (simp add: new_def group_ok_insert)
  have "sum_list (map (\<lambda>e. gr_bytes (snd e)) (rg_groups g)) =
      gr_bytes grp + sum_list (map (\<lambda>e. gr_bytes (snd e)) (filter (\<lambda>e. fst e \<noteq> ?gid) (rg_groups g)))"
    using sum_remove_key [of "rg_groups g" gr_bytes ?gid] ok
    by (simp add: grp_def bt_remove_def retained_group_default_def split: option.split)
  then have sum: "rg_bytes g + retained_bytes lay ob = sum_list (map (\<lambda>e. gr_bytes (snd e)) (bt_insert ?gid new (rg_groups g)))"
    using ok by (simp add: bt_insert_def new_def)
  have all: "\<forall>(gid, grp) \<in> set (bt_insert ?gid new (rg_groups g)). group_ok lay gid grp"
    using ok new_ok by (auto simp: bt_insert_def)
  have keys: "set (rg_arrival g') = insert ?gid (fst ` set (rg_groups g))" "distinct (rg_arrival g')"
    using ok by (auto simp: g')
  show "groups_ok lay g'" using ok sum all keys by (simp add: groups_ok_def g' del: set_simps)
  show "stored g' ob" by (simp add: stored_def g' new_def)
qed (simp_all add: g'_def insert_store_def Let_def map_of_eq_None_iff assms(1) [unfolded groups_ok_def])

section \<open>The invariant of an insertion in progress\<close>

definition limits_ok :: "limits \<Rightarrow> bool" where
  "limits_ok lim \<longleftrightarrow> 0 < lim_groups lim \<and> lim_track_bytes lim < 2 ^ 64 \<and> lim_total_bytes lim < 2 ^ 64"

fun phase_ok :: "layout \<Rightarrow> limits \<Rightarrow> retained_groups \<Rightarrow> insert_phase \<Rightarrow> bool" where
  "phase_ok lay lim g Idle \<longleftrightarrow> length (rg_arrival g) \<le> unat (lim_groups lim)"
| "phase_ok lay lim g (Reserving ob cost n) \<longleftrightarrow>
     length (rg_arrival g) \<le> unat (lim_groups lim) \<and> cost = retained_bytes lay ob \<and>
     \<not> holds g (fro_group ob) (fro_id ob) \<and> n \<le> length (rg_arrival g) \<and>
     fro_group ob \<notin> set (take n (rg_arrival g))"
| "phase_ok lay lim g (Evicting ob cost n) \<longleftrightarrow>
     length (rg_arrival g) \<le> unat (lim_groups lim) \<and> cost = retained_bytes lay ob \<and>
     \<not> holds g (fro_group ob) (fro_id ob) \<and> n \<le> length (rg_arrival g) \<and>
     fro_group ob \<notin> set (take n (rg_arrival g)) \<and> 0 < n"
| "phase_ok lay lim g (Windowing gid oid) \<longleftrightarrow>
     holds g gid oid \<and> length (rg_arrival g) \<le> Suc (unat (lim_groups lim)) \<and>
     (unat (lim_groups lim) < length (rg_arrival g) \<longrightarrow> last (rg_arrival g) = gid)"

definition track_ok :: "layout \<Rightarrow> limits \<Rightarrow> retained_groups \<Rightarrow> insert_phase \<Rightarrow> bool" where
  "track_ok lay lim g ph \<longleftrightarrow> groups_ok lay g \<and> rg_bytes g \<le> lim_track_bytes lim \<and> phase_ok lay lim g ph"

lemma release_eq: "n \<le> used \<Longrightarrow> used < 2 ^ 64 \<Longrightarrow> release n used = used - n"
  unfolding release_def by (metis Nat.add_diff_assoc2 less_imp_diff_less mod_add_self2 mod_less)

lemma fits_iff: "bound < 2 ^ 64 \<Longrightarrow> fits a b bound \<longleftrightarrow> a + b \<le> bound"
  by (auto simp: fits_def usize_checked_add_def)

lemma reserve_eq:
  "lim_total_bytes lim < 2 ^ 64 \<Longrightarrow>
   reserve lim n used = (if used + n \<le> lim_total_bytes lim then (True, used + n) else (False, used))"
  by (auto simp: reserve_def usize_checked_add_def)

lemma position_take: "position x xs = Some n \<Longrightarrow> n \<le> length xs \<and> x \<notin> set (take n xs)"
  by (induction xs arbitrary: n) (auto split: if_splits)

lemma position_None: "position x xs = None \<longleftrightarrow> x \<notin> set xs"
  by (induction xs) auto

lemma older_groups_take:
  "older_groups g gid \<le> length (rg_arrival g) \<and> gid \<notin> set (take (older_groups g gid) (rg_arrival g))"
  by (auto simp: older_groups_def position_None dest: position_take split: option.split)

lemma insert_begin_phase:
  assumes "track_ok lay lim g Idle"
  shows "track_ok lay lim g (insert_begin lay lim ob used g)"
  using assms older_groups_take [of g "fro_group ob"]
  by (auto simp: track_ok_def insert_begin_def Let_def)

text \<open>One step keeps the invariant and changes the shared counter by what the track gained or lost.\<close>

lemma evict_step:
  assumes "groups_ok lay g" and "rg_arrival g = k # ks" and "rg_bytes g \<le> used" and "used < 2 ^ 64"
  obtains used' g' where "evict_oldest (used, g) = (used', g')" and "groups_ok lay g'"
    and "rg_arrival g' = ks" and "rg_bytes g' \<le> rg_bytes g" and "used' + rg_bytes g = used + rg_bytes g'"
    and "used' \<le> used" and "\<And>gid oid. holds g' gid oid \<longleftrightarrow> gid \<noteq> k \<and> holds g gid oid"
    and "\<And>ob. stored g' ob \<longleftrightarrow> fro_group ob \<noteq> k \<and> stored g ob"
proof (rule evict_oldest_ok [OF assms(1,2), where used = used])
  fix g'
  assume ev: "evict_oldest (used, g) = (release (group_bytes g k) used, g')"
    and g': "groups_ok lay g'" "rg_arrival g' = ks" "rg_bytes g = group_bytes g k + rg_bytes g'"
    and get: "\<And>j. map_of (rg_groups g') j = (if j = k then None else map_of (rg_groups g) j)"
  have "release (group_bytes g k) used = used - group_bytes g k" using assms(3,4) g'(3) by (simp add: release_eq)
  moreover have "holds g' gid oid \<longleftrightarrow> gid \<noteq> k \<and> holds g gid oid" for gid oid by (simp add: holds_def get)
  moreover have "stored g' ob \<longleftrightarrow> fro_group ob \<noteq> k \<and> stored g ob" for ob by (simp add: stored_def get)
  ultimately show thesis using ev g' assms(3) by (intro that [of "used - group_bytes g k" g']) simp_all
qed

lemma evict_older_bytes:
  assumes "groups_ok lay g" and "rg_arrival g = k # ks" and "evict_oldest (used, g) = (used', g')"
  shows "older_bytes g (Suc n) + rg_bytes g' = older_bytes g' n + rg_bytes g"
proof (rule evict_oldest_ok [OF assms(1,2), where used = used])
  fix h
  assume ev: "evict_oldest (used, g) = (release (group_bytes g k) used, h)" "rg_arrival h = ks"
    "rg_bytes g = group_bytes g k + rg_bytes h" "\<And>j. map_of (rg_groups h) j = (if j = k then None else map_of (rg_groups g) j)"
  have "k \<notin> set ks" using assms(1,2) by (simp add: groups_ok_def)
  then have "map (group_bytes h) (take n ks) = map (group_bytes g) (take n ks)"
    using ev(4) by (auto simp: group_bytes_def dest: in_set_takeD)
  then have "sum_list (map (group_bytes h) (take n ks)) = sum_list (map (group_bytes g) (take n ks))"
    by (rule arg_cong)
  with ev assms(2,3) show ?thesis by (simp add: older_bytes_eq)
qed

lemma insert_step_ok:
  assumes "limits_ok lim" and "track_ok lay lim g ph" and "rg_bytes g \<le> used" and "used \<le> lim_total_bytes lim"
    and "insert_step lim (used, g, ph) = (used', g', ph')"
  shows "track_ok lay lim g' ph' \<and> used' + rg_bytes g = used + rg_bytes g' \<and> used' \<le> lim_total_bytes lim"
proof (cases ph)
  case Idle
  with assms show ?thesis by simp
next
  case (Reserving ob cost n)
  note ok = assms(2) [unfolded Reserving track_ok_def phase_ok.simps]
  from ok have gok: "groups_ok lay g" and fresh: "\<not> holds g (fro_group ob) (fro_id ob)" and c: "cost = retained_bytes lay ob"
    by simp_all
  note st = insert_store_ok [OF gok fresh, folded c]
  have h: "holds (insert_store ob cost g) (fro_group ob) (fro_id ob)"
    using st(2) by (auto simp: holds_iff stored_def)
  show ?thesis
  proof (cases "rg_bytes g + cost \<le> lim_track_bytes lim \<and> used + cost \<le> lim_total_bytes lim")
    case True
    with assms(1,5) Reserving have new: "used' = used + cost" "g' = insert_store ob cost g" "ph' = Windowing (fro_group ob) (fro_id ob)"
      by (simp_all add: fits_iff reserve_eq limits_ok_def)
    show ?thesis unfolding new using True st h ok by (auto simp: track_ok_def)
  next
    case False
    with assms(1,5) Reserving have "used' = used" "g' = g" "ph' = (if n = 0 then Idle else Evicting ob cost n)"
      by (auto simp: fits_iff reserve_eq limits_ok_def split: if_splits)
    with ok assms(4) show ?thesis by (simp add: track_ok_def)
  qed
next
  case (Evicting ob cost n)
  note ok = assms(2) [unfolded Evicting track_ok_def phase_ok.simps]
  then obtain k ks where arr: "rg_arrival g = k # ks" by (cases "rg_arrival g") auto
  from assms(1,4) have bound: "used < 2 ^ 64" by (simp add: limits_ok_def)
  show ?thesis
  proof (rule evict_step [OF conjunct1 [OF ok] arr assms(3) bound])
    fix u h
    assume ev: "evict_oldest (used, g) = (u, h)" "groups_ok lay h" "rg_arrival h = ks" "rg_bytes h \<le> rg_bytes g"
      "u + rg_bytes g = used + rg_bytes h" "u \<le> used" "\<And>gid oid. holds h gid oid \<longleftrightarrow> gid \<noteq> k \<and> holds g gid oid"
    from ok arr have "fro_group ob \<notin> set (take (n - 1) ks)" "n - 1 \<le> length ks" by (cases n; simp)+
    with ev ok arr assms(4,5) Evicting show ?thesis by (auto simp: track_ok_def)
  qed
next
  case (Windowing gid oid)
  note ok = assms(2) [unfolded Windowing track_ok_def phase_ok.simps]
  from assms(1) have pos: "0 < unat (lim_groups lim)" by (simp add: limits_ok_def word_less_nat_alt)
  have len: "length (rg_groups g) = length (rg_arrival g)" by (rule groups_ok_length [OF conjunct1 [OF ok]])
  show ?thesis
  proof (cases "unat (lim_groups lim) < length (rg_arrival g)")
    case False
    with assms(4,5) len ok Windowing show ?thesis by (simp add: track_ok_def)
  next
    case True
    then obtain k ks where arr: "rg_arrival g = k # ks" by (cases "rg_arrival g") auto
    from assms(1,4) have bound: "used < 2 ^ 64" by (simp add: limits_ok_def)
    show ?thesis
    proof (rule evict_step [OF conjunct1 [OF ok] arr assms(3) bound])
      fix u h
      assume ev: "evict_oldest (used, g) = (u, h)" "groups_ok lay h" "rg_arrival h = ks" "rg_bytes h \<le> rg_bytes g"
        "u + rg_bytes g = used + rg_bytes h" "u \<le> used" "\<And>gid oid. holds h gid oid \<longleftrightarrow> gid \<noteq> k \<and> holds g gid oid"
      have ne: "ks \<noteq> []" using True arr pos by auto
      then have "gid \<in> set ks" using ok True arr by (metis last_ConsR last_in_set)
      moreover have "k \<notin> set ks" using ok arr by (simp add: groups_ok_def)
      ultimately have "gid \<noteq> k" by auto
      have step: "insert_step lim (used, g, Windowing gid oid) = (u, h, Windowing gid oid)"
        using True len ev(1) by simp
      have "phase_ok lay lim h (Windowing gid oid)"
        using ok ev(3,7) arr ne \<open>gid \<noteq> k\<close> True by auto
      with step ev ok assms(4,5) Windowing show ?thesis by (simp add: track_ok_def)
    qed
  qed
qed

section \<open>An insertion without interference\<close>

definition budget_ok :: "layout \<Rightarrow> limits \<Rightarrow> insert_state \<Rightarrow> bool" where
  "budget_ok lay lim s =
     (case s of (used, g, ph) \<Rightarrow> track_ok lay lim g ph \<and> rg_bytes g \<le> used \<and> used \<le> lim_total_bytes lim)"

lemma insert_step_budget:
  "limits_ok lim \<Longrightarrow> budget_ok lay lim s \<Longrightarrow> budget_ok lay lim (insert_step lim s)"
proof -
  assume a: "limits_ok lim" "budget_ok lay lim s"
  obtain u h p where s: "s = (u, h, p)" by (cases s)
  obtain u' h' p' where n: "insert_step lim (u, h, p) = (u', h', p')" by (cases "insert_step lim (u, h, p)")
  from a(2) s have b: "track_ok lay lim h p" "rg_bytes h \<le> u" "u \<le> lim_total_bytes lim" by (simp_all add: budget_ok_def)
  from insert_step_ok [OF a(1) b n] b show ?thesis by (simp add: s n budget_ok_def)
qed

lemma insert_run_Idle [simp]: "insert_run lim (used, g, Idle) = Some (used, g, Idle)"
  unfolding insert_run_def by (subst while_option_unfold) simp

lemma insert_run_step: "ph \<noteq> Idle \<Longrightarrow> insert_run lim (used, g, ph) = insert_run lim (insert_step lim (used, g, ph))"
  unfolding insert_run_def by (subst while_option_unfold) simp

lemma insert_run_via:
  "ph \<noteq> Idle \<Longrightarrow> insert_step lim (used, g, ph) = s \<Longrightarrow> insert_run lim (used, g, ph) = insert_run lim s"
  using insert_run_step by metis

lemma insert_run_inv:
  assumes "limits_ok lim" and "budget_ok lay lim (used, g, ph)" and "insert_run lim (used, g, ph) = Some (used', g', ph')"
  shows "ph' = Idle \<and> track_ok lay lim g' Idle \<and> used' + rg_bytes g = used + rg_bytes g' \<and> used' \<le> lim_total_bytes lim"
proof -
  let ?P = "\<lambda>(u, h, p). budget_ok lay lim (u, h, p) \<and> u + rg_bytes g = used + rg_bytes h"
  have step: "?P (insert_step lim s)" if "?P s" for s
  proof -
    obtain u h p where s: "s = (u, h, p)" by (cases s)
    obtain u' h' p' where n: "insert_step lim (u, h, p) = (u', h', p')" by (cases "insert_step lim (u, h, p)")
    from that s have b: "track_ok lay lim h p" "rg_bytes h \<le> u" "u \<le> lim_total_bytes lim" "u + rg_bytes g = used + rg_bytes h"
      by (simp_all add: budget_ok_def)
    from insert_step_ok [OF assms(1) b(1-3) n] b show ?thesis by (simp add: s n budget_ok_def)
  qed
  have "?P (used', g', ph')"
    by (rule while_option_rule [OF _ assms(3) [unfolded insert_run_def]]) (use step assms(2) in simp_all)
  moreover have "ph' = Idle" using while_option_stop [OF assms(3) [unfolded insert_run_def]] by simp
  ultimately show ?thesis by (simp add: budget_ok_def)
qed

text \<open>What is left of a track after dropping its least recently arrived groups.\<close>

definition dropped_oldest :: "retained_groups \<Rightarrow> retained_groups \<Rightarrow> bool" where
  "dropped_oldest g g' \<longleftrightarrow> (\<exists>n. rg_arrival g' = drop n (rg_arrival g)) \<and>
     (\<forall>ob. stored g' ob \<longleftrightarrow> stored g ob \<and> fro_group ob \<in> set (rg_arrival g'))"

lemma stored_arrival: "groups_ok lay g \<Longrightarrow> stored g ob \<Longrightarrow> fro_group ob \<in> set (rg_arrival g)"
  by (force simp: stored_def groups_ok_def dest: map_of_SomeD)

lemma dropped_oldest_refl: "groups_ok lay g \<Longrightarrow> dropped_oldest g g"
  by (auto simp: dropped_oldest_def dest: stored_arrival intro: exI [of _ 0])

lemma dropped_oldest_trans: "dropped_oldest a b \<Longrightarrow> dropped_oldest b c \<Longrightarrow> dropped_oldest a c"
proof -
  assume a: "dropped_oldest a b" "dropped_oldest b c"
  then obtain m n where arr: "rg_arrival b = drop m (rg_arrival a)" "rg_arrival c = drop n (rg_arrival b)"
    by (auto simp: dropped_oldest_def)
  then have "rg_arrival c = drop (n + m) (rg_arrival a)" "set (rg_arrival c) \<subseteq> set (rg_arrival b)"
    by (simp, metis set_drop_subset)
  with a show ?thesis unfolding dropped_oldest_def by blast
qed

lemma window_runs:
  assumes "limits_ok lim" and "budget_ok lay lim (used, g, Windowing gid oid)"
  shows "\<exists>used' g'. insert_run lim (used, g, Windowing gid oid) = Some (used', g', Idle) \<and>
    dropped_oldest g g' \<and> holds g' gid oid"
  using assms(2)
proof (induction "length (rg_arrival g)" arbitrary: used g)
  case 0
  then have ok: "groups_ok lay g" by (simp add: budget_ok_def track_ok_def)
  with 0 have step: "insert_step lim (used, g, Windowing gid oid) = (used, g, Idle)" by (simp add: groups_ok_length)
  from 0 ok show ?case by (simp add: insert_run_via [OF _ step] dropped_oldest_refl budget_ok_def track_ok_def)
next
  case (Suc m)
  then have ok: "groups_ok lay g" and b: "rg_bytes g \<le> used" "used \<le> lim_total_bytes lim" "holds g gid oid"
    by (simp_all add: budget_ok_def track_ok_def)
  note len = groups_ok_length [OF ok]
  show ?case
  proof (cases "unat (lim_groups lim) < length (rg_arrival g)")
    case False
    with len have step: "insert_step lim (used, g, Windowing gid oid) = (used, g, Idle)" by simp
    from ok b show ?thesis by (simp add: insert_run_via [OF _ step] dropped_oldest_refl)
  next
    case True
    obtain k ks where arr: "rg_arrival g = k # ks" using Suc.hyps(2) by (cases "rg_arrival g") auto
    have bound: "used < 2 ^ 64" using b assms(1) by (simp add: limits_ok_def)
    show ?thesis
    proof (rule evict_step [OF ok arr b(1) bound])
      fix u h
      assume ev: "evict_oldest (used, g) = (u, h)" "groups_ok lay h" "rg_arrival h = ks"
        "\<And>ob. stored h ob \<longleftrightarrow> fro_group ob \<noteq> k \<and> stored g ob"
      have step: "insert_step lim (used, g, Windowing gid oid) = (u, h, Windowing gid oid)" using True len ev(1) by simp
      have "k \<notin> set ks" using ok arr by (simp add: groups_ok_def)
      then have drop: "dropped_oldest g h"
        using ev arr stored_arrival [OF ok] by (auto simp: dropped_oldest_def intro!: exI [of _ 1])
      have "budget_ok lay lim (u, h, Windowing gid oid)"
        using insert_step_budget [OF assms(1) Suc.prems] by (simp only: step)
      from Suc.hyps(1) [OF _ this] ev(3) arr Suc.hyps(2)
      show ?thesis using drop by (auto simp: insert_run_via [OF _ step] intro: dropped_oldest_trans)
    qed
  qed
qed

lemma reserve_runs:
  assumes "limits_ok lim" and "budget_ok lay lim (used, g, Reserving ob cost n)"
    and "rg_bytes g - older_bytes g n + cost \<le> lim_track_bytes lim"
    and "used - older_bytes g n + cost \<le> lim_total_bytes lim"
  shows "\<exists>used' g1. insert_run lim (used, g, Reserving ob cost n) =
      insert_run lim (used', insert_store ob cost g1, Windowing (fro_group ob) (fro_id ob)) \<and>
    budget_ok lay lim (used', insert_store ob cost g1, Windowing (fro_group ob) (fro_id ob)) \<and>
    dropped_oldest g g1 \<and> groups_ok lay g1 \<and>
    cost = retained_bytes lay ob \<and> \<not> holds g1 (fro_group ob) (fro_id ob) \<and>
    (fro_group ob \<in> set (rg_arrival g1) \<longleftrightarrow> fro_group ob \<in> set (rg_arrival g))"
  using assms(2-4)
proof (induction n arbitrary: used g)
  case 0
  then have ok: "groups_ok lay g" "cost = retained_bytes lay ob" "\<not> holds g (fro_group ob) (fro_id ob)"
    by (simp_all add: budget_ok_def track_ok_def)
  from 0 assms(1) have step: "insert_step lim (used, g, Reserving ob cost 0) =
      (used + cost, insert_store ob cost g, Windowing (fro_group ob) (fro_id ob))"
    by (simp add: older_bytes_eq limits_ok_def fits_iff reserve_eq)
  from insert_run_via [OF _ step] insert_step_budget [OF assms(1) "0.prems"(1), unfolded step] ok
    dropped_oldest_refl [OF ok(1)] show ?case by blast
next
  case (Suc n)
  then have ok: "groups_ok lay g" "cost = retained_bytes lay ob" "\<not> holds g (fro_group ob) (fro_id ob)"
    and b: "rg_bytes g \<le> used" "used \<le> lim_total_bytes lim" and n: "Suc n \<le> length (rg_arrival g)" "fro_group ob \<notin> set (take (Suc n) (rg_arrival g))"
    by (simp_all add: budget_ok_def track_ok_def)
  show ?case
  proof (cases "rg_bytes g + cost \<le> lim_track_bytes lim \<and> used + cost \<le> lim_total_bytes lim")
    case True
    with assms(1) have step: "insert_step lim (used, g, Reserving ob cost (Suc n)) =
        (used + cost, insert_store ob cost g, Windowing (fro_group ob) (fro_id ob))"
      by (simp add: limits_ok_def fits_iff reserve_eq)
    from insert_run_via [OF _ step] insert_step_budget [OF assms(1) Suc.prems(1), unfolded step] ok
      dropped_oldest_refl [OF ok(1)] show ?thesis by blast
  next
    case False
    with assms(1) have step: "insert_step lim (used, g, Reserving ob cost (Suc n)) = (used, g, Evicting ob cost (Suc n))"
      by (auto simp: limits_ok_def fits_iff reserve_eq)
    obtain k ks where arr: "rg_arrival g = k # ks" using n by (cases "rg_arrival g") auto
    have bound: "used < 2 ^ 64" using b assms(1) by (simp add: limits_ok_def)
    show ?thesis
    proof (rule evict_step [OF ok(1) arr b(1) bound])
      fix u h
      assume ev: "evict_oldest (used, g) = (u, h)" "groups_ok lay h" "rg_arrival h = ks"
        "u + rg_bytes g = used + rg_bytes h" "\<And>ob. stored h ob \<longleftrightarrow> fro_group ob \<noteq> k \<and> stored g ob"
      have step2: "insert_step lim (used, g, Evicting ob cost (Suc n)) = (u, h, Reserving ob cost n)" using ev(1) by simp
      have "k \<notin> set ks" using ok arr by (simp add: groups_ok_def)
      then have drop: "dropped_oldest g h"
        using ev arr stored_arrival [OF ok(1)] by (auto simp: dropped_oldest_def intro!: exI [of _ 1])
      have bud: "budget_ok lay lim (u, h, Reserving ob cost n)"
        using insert_step_budget [OF assms(1) insert_step_budget [OF assms(1) Suc.prems(1)]] by (simp only: step step2)
      have older: "older_bytes g (Suc n) + rg_bytes h = older_bytes h n + rg_bytes g"
        using evict_older_bytes [OF ok(1) arr ev(1)] by simp
      have le: "older_bytes h n \<le> rg_bytes h" by (rule older_bytes_le [OF ev(2)])
      have le': "older_bytes g (Suc n) \<le> rg_bytes g" by (rule older_bytes_le [OF ok(1)])
      have "rg_bytes h - older_bytes h n + cost \<le> lim_track_bytes lim"
        and "u - older_bytes h n + cost \<le> lim_total_bytes lim"
        using Suc.prems(2,3) older le le' ev(4) b(1) by linarith+
      from Suc.IH [OF bud this] obtain used' g1 where
        "insert_run lim (u, h, Reserving ob cost n) = insert_run lim (used', insert_store ob cost g1, Windowing (fro_group ob) (fro_id ob))"
        "budget_ok lay lim (used', insert_store ob cost g1, Windowing (fro_group ob) (fro_id ob))"
        "dropped_oldest h g1" "groups_ok lay g1" "cost = retained_bytes lay ob" "\<not> holds g1 (fro_group ob) (fro_id ob)"
        "fro_group ob \<in> set (rg_arrival g1) \<longleftrightarrow> fro_group ob \<in> set (rg_arrival h)"
        by blast
      moreover have "fro_group ob \<noteq> k" using n arr by auto
      moreover have "insert_run lim (used, g, Reserving ob cost (Suc n)) = insert_run lim (u, h, Reserving ob cost n)"
        using insert_run_via [OF _ step] insert_run_via [OF _ step2] by simp
      moreover have "fro_group ob \<in> set (rg_arrival h) \<longleftrightarrow> fro_group ob \<in> set (rg_arrival g)"
        using ev(3) arr \<open>fro_group ob \<noteq> k\<close> by simp
      ultimately show ?thesis using dropped_oldest_trans [OF drop] by metis
    qed
  qed
qed

lemma stored_insert_store:
  "\<not> holds g (fro_group ob) (fro_id ob) \<Longrightarrow> stored (insert_store ob cost g) x \<longleftrightarrow> x = ob \<or> stored g x"
  by (auto simp: stored_def insert_store_def holds_def Let_def retained_group_default_def split: option.splits if_splits)

definition fits_beside :: "layout \<Rightarrow> limits \<Rightarrow> fetch_response_object \<Rightarrow> nat \<Rightarrow> retained_groups \<Rightarrow> bool" where
  "fits_beside lay lim ob used g \<longleftrightarrow>
     (let older = older_bytes g (older_groups g (fro_group ob)) in
      rg_bytes g - older + retained_bytes lay ob \<le> lim_track_bytes lim \<and>
      used - older + retained_bytes lay ob \<le> lim_total_bytes lim)"

lemma insert_begin_eq:
  "limits_ok lim \<Longrightarrow> insert_begin lay lim ob used g =
     (if \<not> holds g (fro_group ob) (fro_id ob) \<and> fits_beside lay lim ob used g
      then Reserving ob (retained_bytes lay ob) (older_groups g (fro_group ob)) else Idle)"
  by (simp add: insert_begin_def fits_beside_def Let_def fits_iff limits_ok_def)

lemma drop_snoc_min: "drop n xs @ ys = drop (min n (length xs)) (xs @ ys)"
  by (simp add: min_def)

lemma rt_insert_retains:
  assumes "limits_ok lim" and "budget_ok lay lim (used, g, Idle)"
    and "\<not> holds g (fro_group ob) (fro_id ob)" and "fits_beside lay lim ob used g"
  shows "\<exists>used' g'. rt_insert lay lim ob used g = Some (used', g', Idle) \<and> stored g' ob \<and>
    (\<forall>x. stored g' x \<longleftrightarrow> x = ob \<or> stored g x \<and> fro_group x \<in> set (rg_arrival g')) \<and>
    (\<exists>n. rg_arrival g' = drop n (rg_arrival g @ (if fro_group ob \<in> set (rg_arrival g) then [] else [fro_group ob])))"
proof -
  let ?gid = "fro_group ob" and ?oid = "fro_id ob" and ?cost = "retained_bytes lay ob"
  let ?start = "Reserving ob ?cost (older_groups g ?gid)"
  have start: "insert_begin lay lim ob used g = ?start" using assms by (simp add: insert_begin_eq)
  have bud: "budget_ok lay lim (used, g, ?start)"
    using insert_begin_phase [of lay lim g ob used] assms(2) by (simp add: budget_ok_def start)
  obtain used1 g1 where run1: "insert_run lim (used, g, ?start) = insert_run lim (used1, insert_store ob ?cost g1, Windowing ?gid ?oid)"
    and bud1: "budget_ok lay lim (used1, insert_store ob ?cost g1, Windowing ?gid ?oid)"
    and drop1: "dropped_oldest g g1" "groups_ok lay g1" "\<not> holds g1 ?gid ?oid"
      "?gid \<in> set (rg_arrival g1) \<longleftrightarrow> ?gid \<in> set (rg_arrival g)"
    using reserve_runs [OF assms(1) bud] assms(4) by (auto simp: fits_beside_def Let_def)
  obtain used' g' where run2: "insert_run lim (used1, insert_store ob ?cost g1, Windowing ?gid ?oid) = Some (used', g', Idle)"
    and drop2: "dropped_oldest (insert_store ob ?cost g1) g'" "holds g' ?gid ?oid"
    using window_runs [OF assms(1) bud1] by blast
  have ok': "groups_ok lay g'"
    using insert_run_inv [OF assms(1) bud1 run2] by (simp add: track_ok_def)
  have mem: "?gid \<in> set (rg_arrival g')"
    using drop2(2) ok' by (force simp: holds_iff groups_ok_def dest: map_of_SomeD)
  have stored1: "stored (insert_store ob ?cost g1) x \<longleftrightarrow> x = ob \<or> stored g1 x" for x
    by (rule stored_insert_store [OF drop1(3)])
  let ?new = "if ?gid \<in> set (rg_arrival g) then [] else [?gid]"
  obtain n m where n: "rg_arrival g1 = drop n (rg_arrival g)"
    and m: "rg_arrival g' = drop m (rg_arrival (insert_store ob ?cost g1))"
    using drop1(1) drop2(1) by (auto simp: dropped_oldest_def)
  have arr1: "rg_arrival (insert_store ob ?cost g1) = rg_arrival g1 @ ?new"
    using insert_store_ok(4) [OF drop1(2,3)] drop1(4) by simp
  have arr: "rg_arrival g' = drop (m + min n (length (rg_arrival g))) (rg_arrival g @ ?new)"
    unfolding m arr1 n drop_snoc_min drop_drop by (simp only: add.commute)
  have sub: "set (rg_arrival g') \<subseteq> set (rg_arrival g1) \<union> {?gid}"
    using set_drop_subset [of m "rg_arrival g1 @ ?new"] by (auto simp: m arr1 split: if_splits)
  have st: "stored g' x \<longleftrightarrow> x = ob \<or> stored g x \<and> fro_group x \<in> set (rg_arrival g')" for x
  proof (cases "x = ob")
    case False
    have "fro_group x \<in> set (rg_arrival g1)" if "stored g x" "fro_group x \<in> set (rg_arrival g')"
      using that sub drop1(4) stored_arrival [of lay g x] assms(2) by (auto simp: budget_ok_def track_ok_def)
    with False drop2(1) drop1(1) stored1 show ?thesis by (auto simp: dropped_oldest_def)
  next
    case True
    with drop2(1) mem stored1 show ?thesis by (auto simp: dropped_oldest_def)
  qed
  have "rt_insert lay lim ob used g = Some (used', g', Idle)" by (simp add: rt_insert_def start run1 run2)
  with st arr show ?thesis by blast
qed

section \<open>An insertion among other tracks\<close>

text \<open>
  The same insertion while other tracks use the budget: between two of its own accesses to
  the shared counter the others may have changed it to anything that still covers this
  track's bytes and keeps to the total, which is all their \<^verbatim>\<open>reserve\<close> and \<^verbatim>\<open>release\<close> can do
  (they only touch the counter). The number counts the insertion's own steps.
\<close>

inductive insert_among :: "limits \<Rightarrow> insert_state \<Rightarrow> nat \<Rightarrow> insert_state \<Rightarrow> bool" for lim s where
  among_start: "insert_among lim s 0 s"
| among_own: "insert_among lim s n (used, g, ph) \<Longrightarrow> ph \<noteq> Idle \<Longrightarrow>
    insert_among lim s (Suc n) (insert_step lim (used, g, ph))"
| among_other: "insert_among lim s n (used, g, ph) \<Longrightarrow> rg_bytes g \<le> used' \<Longrightarrow> used' \<le> lim_total_bytes lim \<Longrightarrow>
    insert_among lim s n (used', g, ph)"

text \<open>The two outcomes: the object is in, or only groups older than its own are gone.\<close>

definition retained_in :: "fetch_response_object \<Rightarrow> retained_groups \<Rightarrow> retained_groups \<Rightarrow> bool" where
  "retained_in ob g g' \<longleftrightarrow> stored g' ob \<and>
     (\<forall>x. stored g' x \<longleftrightarrow> x = ob \<or> stored g x \<and> fro_group x \<in> set (rg_arrival g')) \<and>
     (\<exists>n. rg_arrival g' = drop n (rg_arrival g @ (if fro_group ob \<in> set (rg_arrival g) then [] else [fro_group ob])))"

definition dropped_first :: "nat \<Rightarrow> retained_groups \<Rightarrow> retained_groups \<Rightarrow> bool" where
  "dropped_first n g g' \<longleftrightarrow> rg_arrival g' = drop n (rg_arrival g) \<and>
     (\<forall>x. stored g' x \<longleftrightarrow> stored g x \<and> fro_group x \<in> set (rg_arrival g'))"

lemma dropped_first_refl: "groups_ok lay g \<Longrightarrow> dropped_first 0 g g"
  by (auto simp: dropped_first_def dest: stored_arrival)

lemma dropped_first_evict:
  assumes "dropped_first n g0 g" and "groups_ok lay g" and "rg_arrival g = k # ks"
    and "rg_arrival h = ks" and "\<And>ob. stored h ob \<longleftrightarrow> fro_group ob \<noteq> k \<and> stored g ob"
  shows "dropped_first (Suc n) g0 h"
proof -
  have new: "k \<notin> set ks" using assms(2,3) by (simp add: groups_ok_def)
  have arr: "rg_arrival h = drop (Suc n) (rg_arrival g0)"
    using assms(1,3,4) by (metis dropped_first_def drop_Suc list.sel(3) tl_drop)
  have "stored g x \<longleftrightarrow> stored g0 x \<and> fro_group x \<in> set (k # ks)" for x
    using assms(1) unfolding dropped_first_def assms(3) by blast
  then have "stored h x \<longleftrightarrow> stored g0 x \<and> fro_group x \<in> set (rg_arrival h)" for x
    unfolding assms(4,5) using new by auto
  with arr show ?thesis unfolding dropped_first_def by blast
qed

lemma retained_in_evict:
  assumes "retained_in ob g0 g" and "groups_ok lay g" and "rg_arrival g = k # ks" and "fro_group ob \<noteq> k"
    and "rg_arrival h = ks" and "\<And>ob. stored h ob \<longleftrightarrow> fro_group ob \<noteq> k \<and> stored g ob"
  shows "retained_in ob g0 h"
proof -
  have new: "k \<notin> set ks" using assms(2,3) by (simp add: groups_ok_def)
  obtain n where "rg_arrival g = drop n (rg_arrival g0 @ (if fro_group ob \<in> set (rg_arrival g0) then [] else [fro_group ob]))"
    using assms(1) by (auto simp: retained_in_def)
  then have arr: "rg_arrival h = drop (Suc n) (rg_arrival g0 @ (if fro_group ob \<in> set (rg_arrival g0) then [] else [fro_group ob]))"
    using assms(3,5) by (metis drop_Suc list.sel(3) tl_drop)
  have "stored g x \<longleftrightarrow> x = ob \<or> stored g0 x \<and> fro_group x \<in> set (k # ks)" for x
    using assms(1) unfolding retained_in_def assms(3) by blast
  then have st: "stored h x \<longleftrightarrow> x = ob \<or> stored g0 x \<and> fro_group x \<in> set (rg_arrival h)" for x
    unfolding assms(5,6) using new assms(4) by auto
  then have "stored h ob" by blast
  with st arr show ?thesis unfolding retained_in_def by blast
qed

lemma retained_in_store:
  assumes "dropped_first n g0 g" and "groups_ok lay g" and "\<not> holds g (fro_group ob) (fro_id ob)"
    and "n \<le> length (rg_arrival g0)" and "fro_group ob \<notin> set (take n (rg_arrival g0))" and "groups_ok lay g0"
  shows "retained_in ob g0 (insert_store ob (retained_bytes lay ob) g)"
proof -
  let ?h = "insert_store ob (retained_bytes lay ob) g" and ?gid = "fro_group ob"
  let ?new = "if ?gid \<in> set (rg_arrival g0) then [] else [?gid]"
  note ok = insert_store_ok [OF assms(2,3)]
  have arr: "rg_arrival g = drop n (rg_arrival g0)" using assms(1) by (simp add: dropped_first_def)
  have mem: "?gid \<in> set (rg_arrival g) \<longleftrightarrow> ?gid \<in> set (rg_arrival g0)"
    using assms(5) unfolding arr by (metis Un_iff append_take_drop_id set_append)
  have h: "rg_arrival ?h = drop n (rg_arrival g0 @ ?new)" using assms(4) by (simp add: ok(4) arr mem [unfolded arr])
  have "stored ?h x \<longleftrightarrow> x = ob \<or> stored g0 x \<and> fro_group x \<in> set (rg_arrival ?h)" for x
  proof (cases "x = ob")
    case True
    then show ?thesis using ok(2) by simp
  next
    case False
    have "fro_group x \<in> set (rg_arrival g)" if "stored g0 x" "fro_group x \<in> set (rg_arrival ?h)"
      using that stored_arrival [OF assms(6) that(1)] mem by (auto simp: ok(4) split: if_splits)
    moreover have "set (rg_arrival g) \<subseteq> set (rg_arrival ?h)" by (auto simp: ok(4))
    ultimately show ?thesis
      using False stored_insert_store [OF assms(3)] assms(1) by (auto simp: dropped_first_def)
  qed
  with ok(2) h show ?thesis unfolding retained_in_def by blast
qed

text \<open>What holds at each point of the insertion, whatever the others did; \<open>n\<close> counts its own steps.\<close>

fun among_ok :: "layout \<Rightarrow> fetch_response_object \<Rightarrow> retained_groups \<Rightarrow> nat \<Rightarrow> retained_groups \<Rightarrow> insert_phase \<Rightarrow> bool" where
  "among_ok lay ob g0 n g Idle \<longleftrightarrow> n \<le> 3 * length (rg_arrival g0) + 3 \<and>
     (retained_in ob g0 g \<or> (\<exists>m \<le> older_groups g0 (fro_group ob). dropped_first m g0 g))"
| "among_ok lay ob g0 n g (Reserving ob' cost m) \<longleftrightarrow> ob' = ob \<and> m \<le> older_groups g0 (fro_group ob) \<and>
     n + 2 * m = 2 * older_groups g0 (fro_group ob) \<and> dropped_first (older_groups g0 (fro_group ob) - m) g0 g"
| "among_ok lay ob g0 n g (Evicting ob' cost m) \<longleftrightarrow> ob' = ob \<and> m \<le> older_groups g0 (fro_group ob) \<and>
     n + 2 * m = 2 * older_groups g0 (fro_group ob) + 1 \<and> dropped_first (older_groups g0 (fro_group ob) - m) g0 g"
| "among_ok lay ob g0 n g (Windowing gid oid) \<longleftrightarrow> gid = fro_group ob \<and> oid = fro_id ob \<and> retained_in ob g0 g \<and>
     n + length (rg_arrival g) \<le> 3 * length (rg_arrival g0) + 2"

lemma older_groups_bound:
  "older_groups g gid \<le> length (rg_arrival g)" "gid \<notin> set (take (older_groups g gid) (rg_arrival g))"
  using older_groups_take [of g gid] by simp_all

lemma among_ok_reserving:
  assumes "limits_ok lim" and "groups_ok lay g0" and "budget_ok lay lim (used, g, Reserving ob' cost m)"
    and "among_ok lay ob g0 n g (Reserving ob' cost m)" and "insert_step lim (used, g, Reserving ob' cost m) = (used', g', ph')"
  shows "among_ok lay ob g0 (Suc n) g' ph'"
proof -
  let ?o = "older_groups g0 (fro_group ob)"
  have ok: "groups_ok lay g" "cost = retained_bytes lay ob" "\<not> holds g (fro_group ob) (fro_id ob)" "ob' = ob"
    and d: "dropped_first (?o - m) g0 g" "m \<le> ?o" "n + 2 * m = 2 * ?o"
    using assms(3,4) by (auto simp: budget_ok_def track_ok_def)
  note o = older_groups_bound [where g = g0 and gid = "fro_group ob"]
  consider "g' = insert_store ob cost g" "ph' = Windowing (fro_group ob) (fro_id ob)"
    | "m = 0" "g' = g" "ph' = Idle" | "m \<noteq> 0" "g' = g" "ph' = Evicting ob cost m"
    using assms(5) ok(4) by (auto split: if_splits)
  then show ?thesis
  proof cases
    case 1
    have "fro_group ob \<notin> set (take (?o - m) (rg_arrival g0))"
      using o(2) set_take_subset_set_take [of "?o - m" ?o "rg_arrival g0"] by auto
    then have r: "retained_in ob g0 g'"
      using retained_in_store [OF d(1) ok(1,3) _ _ assms(2)] o(1) ok(2) 1 by simp
    have "length (rg_arrival g) = length (rg_arrival g0) - (?o - m)" using d(1) by (simp add: dropped_first_def)
    then have "length (rg_arrival g') \<le> length (rg_arrival g0) - (?o - m) + 1"
      using insert_store_ok(4) [OF ok(1,3)] by (simp add: 1 ok(2))
    with r 1 d o(1) show ?thesis by simp
  next
    case 2
    then show ?thesis using d o(1) by auto
  next
    case 3
    then show ?thesis using d ok by simp
  qed
qed

lemma among_ok_evicting:
  assumes "limits_ok lim" and "budget_ok lay lim (used, g, Evicting ob' cost m)"
    and "among_ok lay ob g0 n g (Evicting ob' cost m)" and "insert_step lim (used, g, Evicting ob' cost m) = (used', g', ph')"
  shows "among_ok lay ob g0 (Suc n) g' ph'"
proof -
  let ?o = "older_groups g0 (fro_group ob)"
  have ok: "groups_ok lay g" "0 < m" "m \<le> length (rg_arrival g)" "rg_bytes g \<le> used" "used \<le> lim_total_bytes lim" "ob' = ob"
    and d: "dropped_first (?o - m) g0 g" "m \<le> ?o" "n + 2 * m = 2 * ?o + 1"
    using assms(2,3) by (auto simp: budget_ok_def track_ok_def)
  obtain k ks where arr: "rg_arrival g = k # ks" using ok(2,3) by (cases "rg_arrival g") auto
  have bound: "used < 2 ^ 64" using ok(5) assms(1) by (simp add: limits_ok_def)
  show ?thesis
  proof (rule evict_step [OF ok(1) arr ok(4) bound])
    fix u h
    assume ev: "evict_oldest (used, g) = (u, h)" "rg_arrival h = ks" "\<And>ob. stored h ob \<longleftrightarrow> fro_group ob \<noteq> k \<and> stored g ob"
    have "dropped_first (Suc (?o - m)) g0 h" by (rule dropped_first_evict [OF d(1) ok(1) arr ev(2,3)])
    moreover have "Suc (?o - m) = ?o - (m - 1)" using ok(2) d(2) by simp
    ultimately show ?thesis using assms(4) ev(1) d ok(2,6) by auto
  qed
qed

lemma among_ok_windowing:
  assumes "limits_ok lim" and "budget_ok lay lim (used, g, Windowing gid oid)"
    and "among_ok lay ob g0 n g (Windowing gid oid)" and "insert_step lim (used, g, Windowing gid oid) = (used', g', ph')"
  shows "among_ok lay ob g0 (Suc n) g' ph'"
proof (cases "unat (lim_groups lim) < length (rg_groups g)")
  case False
  with assms(3,4) show ?thesis by auto
next
  case True
  have ok: "groups_ok lay g" "rg_bytes g \<le> used" "used \<le> lim_total_bytes lim" "phase_ok lay lim g (Windowing gid oid)"
    and d: "retained_in ob g0 g" "gid = fro_group ob" "oid = fro_id ob" "n + length (rg_arrival g) \<le> 3 * length (rg_arrival g0) + 2"
    using assms(2,3) by (auto simp: budget_ok_def track_ok_def)
  have long: "unat (lim_groups lim) < length (rg_arrival g)" using True groups_ok_length [OF ok(1)] by simp
  then obtain k ks where arr: "rg_arrival g = k # ks" by (cases "rg_arrival g") auto
  have bound: "used < 2 ^ 64" using ok(3) assms(1) by (simp add: limits_ok_def)
  have "0 < unat (lim_groups lim)" using assms(1) by (simp add: limits_ok_def word_less_nat_alt)
  then have "ks \<noteq> []" "last ks = gid" using long ok(4) arr by auto
  moreover have "k \<notin> set ks" using ok(1) arr by (simp add: groups_ok_def)
  ultimately have other: "fro_group ob \<noteq> k" using d(2) by (metis last_in_set)
  show ?thesis
  proof (rule evict_step [OF ok(1) arr ok(2) bound])
    fix u h
    assume ev: "evict_oldest (used, g) = (u, h)" "rg_arrival h = ks" "\<And>ob. stored h ob \<longleftrightarrow> fro_group ob \<noteq> k \<and> stored g ob"
    have "retained_in ob g0 h" by (rule retained_in_evict [OF d(1) ok(1) arr other ev(2,3)])
    with assms(4) ev(1,2) d arr True show ?thesis by auto
  qed
qed

lemma insert_begin_among:
  assumes "limits_ok lim" and "groups_ok lay g"
  shows "among_ok lay ob g 0 g (insert_begin lay lim ob used g)"
  using dropped_first_refl [OF assms(2)] by (auto simp: insert_begin_eq [OF assms(1)])

lemma insert_among_inv:
  assumes "limits_ok lim" and "budget_ok lay lim (used, g, Idle)"
    and "insert_among lim (used, g, insert_begin lay lim ob used g) n (used', g', ph')"
  shows "budget_ok lay lim (used', g', ph') \<and> among_ok lay ob g n g' ph'"
  using assms(3)
proof (induction n "(used', g', ph')" arbitrary: used' g' ph' rule: insert_among.induct)
  case among_start
  have "budget_ok lay lim (used, g, insert_begin lay lim ob used g)"
    using assms(2) insert_begin_phase by (simp add: budget_ok_def)
  then show ?case
    using insert_begin_among [OF assms(1), of lay g] assms(2) among_start by (auto simp: budget_ok_def track_ok_def)
next
  case (among_own n u h p)
  then have ih: "budget_ok lay lim (u, h, p)" "among_ok lay ob g n h p" and step: "insert_step lim (u, h, p) = (used', g', ph')" by auto
  have g: "groups_ok lay g" using assms(2) by (simp add: budget_ok_def track_ok_def)
  have "budget_ok lay lim (used', g', ph')" using insert_step_budget [OF assms(1) ih(1)] by (simp only: step)
  moreover have "among_ok lay ob g (Suc n) g' ph'"
  proof (cases p)
    case Idle
    with among_own(3) show ?thesis by simp
  next
    case (Reserving ob' cost m)
    with among_ok_reserving [OF assms(1) g] ih step show ?thesis by simp
  next
    case (Evicting ob' cost m)
    with among_ok_evicting [OF assms(1)] ih step show ?thesis by blast
  next
    case (Windowing gid oid)
    with among_ok_windowing [OF assms(1)] ih step show ?thesis by blast
  qed
  ultimately show ?case by blast
next
  case (among_other n u h p u')
  then show ?case by (auto simp: budget_ok_def)
qed

lemma among_ok_bound: "among_ok lay ob g0 n g ph \<Longrightarrow> n \<le> 3 * length (rg_arrival g0) + 3"
  using older_groups_bound(1) [where g = g0 and gid = "fro_group ob"] by (cases ph) auto

lemma insert_among_Idle: "insert_among lim (used, g, Idle) n (used', g', ph) \<Longrightarrow> n = 0 \<and> g' = g \<and> ph = Idle"
  by (induction n "(used', g', ph)" arbitrary: used' g' ph rule: insert_among.induct) auto

section \<open>The registry and its tracks\<close>

type_synonym retention_key = "string \<times> track_namespace \<times> track_name"

text \<open>
  Tracks are numbered in the order they were registered; \<open>None\<close> is a track whose last
  reference is gone. A weak reference is a number, upgraded by looking the track up.
\<close>

record registry =
  reg_used :: nat
  reg_tracks :: "(retained_groups \<times> insert_phase) option list"
  reg_names :: "retention_key \<Rightarrow> nat option"

definition registry_new :: registry where
  "registry_new = \<lparr>reg_used = 0, reg_tracks = [], reg_names = (\<lambda>_. None)\<rparr>"

definition track_alive :: "registry \<Rightarrow> nat \<Rightarrow> bool" where
  "track_alive s i \<longleftrightarrow> i < length (reg_tracks s) \<and> reg_tracks s ! i \<noteq> None"

definition retain :: "retention_key \<Rightarrow> registry \<Rightarrow> nat \<times> registry" where
  "retain key s =
     (let i = length (reg_tracks s) in
      (i, s\<lparr>reg_tracks := reg_tracks s @ [Some (retained_groups_default, Idle)],
            reg_names := (reg_names s)(key \<mapsto> i)\<rparr>))"

definition retention_lookup :: "retention_key \<Rightarrow> registry \<Rightarrow> nat option \<times> registry" where
  "retention_lookup key s =
     (case reg_names s key of
        None \<Rightarrow> (None, s)
      | Some i \<Rightarrow>
          if track_alive s i then (Some i, s)
          else (None, s\<lparr>reg_names := (reg_names s)(key := None)\<rparr>))"

definition guard_drop :: "retention_key \<Rightarrow> nat \<Rightarrow> registry \<Rightarrow> registry" where
  "guard_drop key i s =
     (if reg_names s key = Some i then s\<lparr>reg_names := (reg_names s)(key := None)\<rparr> else s)"

definition retained_track_drop :: "nat \<Rightarrow> registry \<Rightarrow> registry" where
  "retained_track_drop i s =
     (case reg_tracks s ! i of
        None \<Rightarrow> s
      | Some (g, _) \<Rightarrow> s\<lparr>reg_used := release (rg_bytes g) (reg_used s), reg_tracks := (reg_tracks s)[i := None]\<rparr>)"

text \<open>
  One access of one track to the shared counter. A new insertion needs the track's lock,
  so it starts only when the track is idle; a track is dropped only when nothing uses it.
\<close>

inductive registry_step :: "layout \<Rightarrow> limits \<Rightarrow> registry \<Rightarrow> registry \<Rightarrow> bool" for lay lim where
  step_retain: "registry_step lay lim s (snd (retain key s))"
| step_lookup: "registry_step lay lim s (snd (retention_lookup key s))"
| step_guard_drop: "registry_step lay lim s (guard_drop key i s)"
| step_track_drop: "i < length (reg_tracks s) \<Longrightarrow> reg_tracks s ! i = Some (g, Idle) \<Longrightarrow>
    registry_step lay lim s (retained_track_drop i s)"
| step_insert: "i < length (reg_tracks s) \<Longrightarrow> reg_tracks s ! i = Some (g, Idle) \<Longrightarrow>
    registry_step lay lim s
      (s\<lparr>reg_tracks := (reg_tracks s)[i := Some (g, insert_begin lay lim ob (reg_used s) g)]\<rparr>)"
| step_progress: "i < length (reg_tracks s) \<Longrightarrow> reg_tracks s ! i = Some (g, ph) \<Longrightarrow>
    insert_step lim (reg_used s, g, ph) = (used', g', ph') \<Longrightarrow>
    registry_step lay lim s
      (s\<lparr>reg_used := used', reg_tracks := (reg_tracks s)[i := Some (g', ph')]\<rparr>)"

inductive registry_reachable :: "layout \<Rightarrow> limits \<Rightarrow> registry \<Rightarrow> bool" for lay lim where
  reachable_new: "registry_reachable lay lim registry_new"
| reachable_step: "registry_reachable lay lim s \<Longrightarrow> registry_step lay lim s s' \<Longrightarrow> registry_reachable lay lim s'"

fun track_bytes :: "(retained_groups \<times> insert_phase) option \<Rightarrow> nat" where
  "track_bytes None = 0"
| "track_bytes (Some (g, _)) = rg_bytes g"

definition registry_inv :: "layout \<Rightarrow> limits \<Rightarrow> registry \<Rightarrow> bool" where
  "registry_inv lay lim s \<longleftrightarrow>
     (\<forall>g ph. Some (g, ph) \<in> set (reg_tracks s) \<longrightarrow> track_ok lay lim g ph) \<and>
     reg_used s = sum_list (map track_bytes (reg_tracks s)) \<and> reg_used s \<le> lim_total_bytes lim"

lemma track_bytes_le: "i < length ts \<Longrightarrow> track_bytes (ts ! i) \<le> sum_list (map track_bytes ts)"
  by (metis elem_le_sum_list length_map nth_map)

lemma sum_track_update:
  "i < length ts \<Longrightarrow> sum_list (map track_bytes (ts[i := t])) + track_bytes (ts ! i) = sum_list (map track_bytes ts) + track_bytes t"
  by (simp add: map_update sum_list_update track_bytes_le add_increasing2)

lemma registry_inv_update:
  assumes "registry_inv lay lim s" and "i < length (reg_tracks s)"
    and "\<And>g ph. t = Some (g, ph) \<Longrightarrow> track_ok lay lim g ph"
    and "used' + track_bytes (reg_tracks s ! i) = reg_used s + track_bytes t" and "used' \<le> lim_total_bytes lim"
  shows "registry_inv lay lim (s\<lparr>reg_used := used', reg_tracks := (reg_tracks s)[i := t]\<rparr>)"
  using assms sum_track_update [OF assms(2), of t] set_update_subset_insert [of "reg_tracks s" i t]
  by (auto simp: registry_inv_def)

lemma registry_step_inv:
  assumes "limits_ok lim" and "registry_inv lay lim s" and "registry_step lay lim s s'"
  shows "registry_inv lay lim s'"
  using assms(3,2)
proof cases
  case (step_retain key)
  have "track_ok lay lim retained_groups_default Idle"
    by (simp add: retained_groups_default_def track_ok_def groups_ok_def)
  with step_retain assms(2) show ?thesis
    by (auto simp: retain_def Let_def registry_inv_def) (simp_all add: retained_groups_default_def)
next
  case (step_lookup key)
  with assms(2) show ?thesis by (auto simp: retention_lookup_def registry_inv_def split: option.split)
next
  case (step_guard_drop key i)
  with assms(2) show ?thesis by (simp add: guard_drop_def registry_inv_def)
next
  case (step_track_drop i g)
  have "rg_bytes g \<le> reg_used s" "reg_used s \<le> lim_total_bytes lim"
    using assms(2) track_bytes_le [OF step_track_drop(2)] step_track_drop(3) by (simp_all add: registry_inv_def)
  with assms(1) have "release (rg_bytes g) (reg_used s) + rg_bytes g = reg_used s" "release (rg_bytes g) (reg_used s) \<le> lim_total_bytes lim"
    by (simp_all add: release_eq limits_ok_def)
  with registry_inv_update [OF assms(2) step_track_drop(2), of None "release (rg_bytes g) (reg_used s)"] step_track_drop
  show ?thesis by (simp add: retained_track_drop_def)
next
  case (step_insert i g ob)
  have "track_ok lay lim g Idle" using assms(2) step_insert(2,3) by (metis nth_mem registry_inv_def)
  from insert_begin_phase [OF this] registry_inv_update [OF assms(2) step_insert(2), of "Some (g, insert_begin lay lim ob (reg_used s) g)" "reg_used s"]
  show ?thesis using assms(2) step_insert by (simp add: registry_inv_def)
next
  case (step_progress i g ph used' g' ph')
  have ok: "track_ok lay lim g ph" using assms(2) step_progress(2,3) by (metis nth_mem registry_inv_def)
  have b: "rg_bytes g \<le> reg_used s" "reg_used s \<le> lim_total_bytes lim"
    using assms(2) track_bytes_le [OF step_progress(2)] step_progress(3) by (simp_all add: registry_inv_def)
  from insert_step_ok [OF assms(1) ok b step_progress(4)] step_progress
    registry_inv_update [OF assms(2) step_progress(2), of "Some (g', ph')" used']
  show ?thesis by simp
qed

text \<open>Such a run is what one track does in a run of the registry, where the others are the environment.\<close>

lemma registry_step_among:
  assumes "limits_ok lim" and "registry_inv lay lim s" and "registry_step lay lim s s'"
    and "i < length (reg_tracks s)" and "reg_tracks s ! i = Some (g, ph)" and "ph \<noteq> Idle"
    and "insert_among lim s0 n (reg_used s, g, ph)"
  shows "\<exists>n' g' ph'. i < length (reg_tracks s') \<and> reg_tracks s' ! i = Some (g', ph') \<and> insert_among lim s0 n' (reg_used s', g', ph')"
proof -
  have inv: "registry_inv lay lim s'" by (rule registry_step_inv [OF assms(1-3)])
  show ?thesis
  proof (cases "i < length (reg_tracks s') \<and> reg_tracks s' ! i = Some (g, ph)")
    case True
    then have "rg_bytes g \<le> reg_used s'" "reg_used s' \<le> lim_total_bytes lim"
      using inv track_bytes_le [of i "reg_tracks s'"] by (simp_all add: registry_inv_def)
    from among_other [OF assms(7) this] True show ?thesis by blast
  next
    case False
    from assms(3) obtain u h p where step: "insert_step lim (reg_used s, g, ph) = (u, h, p)"
      and s': "s' = s\<lparr>reg_used := u, reg_tracks := (reg_tracks s)[i := Some (h, p)]\<rparr>"
    proof cases
      case (step_progress j g' ph' used' h' p')
      with False assms(4,5) that show thesis by (cases "j = i") auto
    qed (use False assms(4-6) in \<open>auto simp: retain_def retention_lookup_def guard_drop_def retained_track_drop_def Let_def nth_append nth_list_update
          split: option.splits if_splits\<close>)
    from among_own [OF assms(7,6)] step s' assms(4) show ?thesis by (intro exI [of _ "Suc n"]) simp
  qed
qed

lemma registry_reachable_inv:
  assumes "limits_ok lim" and "registry_reachable lay lim s"
  shows "registry_inv lay lim s"
  using assms(2)
proof induction
  case reachable_new
  show ?case by (simp add: registry_inv_def registry_new_def)
qed (rule registry_step_inv [OF assms(1)])

section \<open>What a FETCH plan answers\<close>

definition retained_at :: "retained_groups \<Rightarrow> location \<Rightarrow> fetch_response_object option" where
  "retained_at g l = Option.bind (map_of (rg_groups g) (group_id l)) (\<lambda>grp. map_of (gr_objects grp) (object_id l))"

definition u64_range :: "u64 \<Rightarrow> u64 \<Rightarrow> u64 list" where
  "u64_range a b = map word_of_nat [unat a ..< Suc (unat b)]"

definition requested :: "group_order \<Rightarrow> location \<Rightarrow> location \<Rightarrow> location list" where
  "requested order start lst =
     concat (map (\<lambda>gid. map (Location_new gid) (u64_range (first_object start gid) (final_object lst gid)))
       (group_ids order (group_id start) (group_id lst)))"

fun scan_locations ::
    "retained_groups \<Rightarrow> location list \<Rightarrow> fetch_response_object list \<Rightarrow> location option \<times> fetch_response_object list" where
  "scan_locations g [] objects = (None, objects)"
| "scan_locations g (l # ls) objects =
     (case retained_at g l of None \<Rightarrow> (Some l, objects) | Some ob \<Rightarrow> scan_locations g ls (objects @ [ob]))"

lemma u64_range_Cons: "a \<le> b \<Longrightarrow> u64_range a b = a # (if a < b then u64_range (a + 1) b else [])"
proof -
  assume le: "a \<le> b"
  have "unat (a + 1) = Suc (unat a)" if "a < b"
    using that unsigned_less [where 'a = nat, of b] by (simp add: unat_word_ariths(1) word_less_nat_alt)
  with le show ?thesis
    by (auto simp: u64_range_def word_le_nat_alt word_less_nat_alt upt_conv_Cons) (simp_all add: word_unat_eq_iff)
qed

lemma set_u64_range: "set (u64_range a b) = {x. a \<le> x \<and> x \<le> b}"
proof -
  have "x \<in> word_of_nat ` {unat a..<Suc (unat b)}" if "a \<le> x" "x \<le> b" for x
    using that by (intro image_eqI [of _ _ "unat x"]) (simp_all add: word_le_nat_alt)
  moreover have "a \<le> word_of_nat n \<and> word_of_nat n \<le> b" if "unat a \<le> n" "n \<le> unat b" for n
  proof -
    have "n < 2 ^ 64" using that(2) unsigned_less [where 'a = nat, of b] by simp
    then have "unat (word_of_nat n :: u64) = n" by (simp add: unat_of_nat)
    with that show ?thesis by (simp add: word_le_nat_alt)
  qed
  ultimately show ?thesis by (auto simp: u64_range_def simp del: upt_Suc)
qed

lemma set_group_ids: "set (group_ids order a b) = {x. a \<le> x \<and> x \<le> b}"
  using set_u64_range [of a b] by (auto simp: group_ids_def Let_def u64_range_def)

lemma retained_at_new: "retained_at g (Location_new gid oid) = Option.bind (map_of (rg_groups g) gid) (\<lambda>grp. map_of (gr_objects grp) oid)"
  by (simp add: retained_at_def Location_new_def)

lemma scan_group_eq:
  "oid \<le> final \<Longrightarrow>
   (case scan_group (map_of (rg_groups g) gid) final oid objects of (u, obs) \<Rightarrow> (map_option (Location_new gid) u, obs)) =
   scan_locations g (map (Location_new gid) (u64_range oid final)) objects"
proof (induction "map_of (rg_groups g) gid" final oid objects rule: scan_group.induct)
  case (1 final oid objects)
  show ?case
  proof (cases "retained_at g (Location_new gid oid)")
    case None
    with 1 show ?thesis by (simp add: scan_group.simps u64_range_Cons retained_at_new)
  next
    case (Some ob)
    note at = Some [unfolded retained_at_new]
    show ?thesis
    proof (cases "oid < final")
      case True
      then have "oid + 1 \<le> final" by (rule inc_le)
      with 1(1) [OF at] True have ih:
        "(case scan_group (map_of (rg_groups g) gid) final (oid + 1) (objects @ [ob]) of (u, obs) \<Rightarrow> (map_option (Location_new gid) u, obs)) =
          scan_locations g (map (Location_new gid) (u64_range (oid + 1) final)) (objects @ [ob])" by simp
      have ids: "u64_range oid final = oid # u64_range (oid + 1) final" using True 1(2) by (simp add: u64_range_Cons)
      have "\<not> final \<le> oid" using True by simp
      then show ?thesis by (subst scan_group.simps) (simp add: ids at Some ih)
    next
      case False
      with 1(2) Some at show ?thesis by (subst scan_group.simps) (simp add: u64_range_Cons)
    qed
  qed
qed

lemma scan_locations_append:
  "scan_locations g (ls @ ls') objects =
     (case scan_locations g ls objects of (Some u, obs) \<Rightarrow> (Some u, obs) | (None, obs) \<Rightarrow> scan_locations g ls' obs)"
  by (induction ls arbitrary: objects) (auto split: option.split)

lemma scan_groups_eq:
  assumes "\<forall>gid \<in> set gids. first_object start gid \<le> final_object lst gid"
  shows "scan_groups g start lst gids objects =
    scan_locations g (concat (map (\<lambda>gid. map (Location_new gid) (u64_range (first_object start gid) (final_object lst gid))) gids)) objects"
  using assms
proof (induction gids arbitrary: objects)
  case (Cons gid gids)
  then have "first_object start gid \<le> final_object lst gid" by simp
  from scan_group_eq [OF this, where g = g and gid = gid and objects = objects, symmetric] Cons show ?case
    by (auto simp: scan_locations_append split: prod.split option.split)
qed simp

lemma scan_locations_None:
  "scan_locations g ls objects = (None, obs) \<longleftrightarrow>
     (\<forall>l \<in> set ls. retained_at g l \<noteq> None) \<and> obs = objects @ map (\<lambda>l. the (retained_at g l)) ls"
  by (induction ls arbitrary: objects) (auto split: option.split)

lemma scan_locations_Some:
  "scan_locations g ls objects = (Some u, obs) \<Longrightarrow>
     \<exists>known rest. ls = known @ u # rest \<and> retained_at g u = None \<and>
       (\<forall>l \<in> set known. retained_at g l \<noteq> None) \<and> obs = objects @ map (\<lambda>l. the (retained_at g l)) known"
proof (induction ls arbitrary: objects)
  case (Cons l ls)
  show ?case
  proof (cases "retained_at g l")
    case None
    with Cons.prems show ?thesis by (intro exI [of _ "[]"] exI [of _ ls]) simp
  next
    case (Some ob)
    with Cons.prems have "scan_locations g ls (objects @ [ob]) = (Some u, obs)" by simp
    from Cons.IH [OF this] Some show ?thesis by (force intro: exI [of _ "l # known" for known])
  qed
qed simp

lemma first_le_final:
  assumes "\<not> location_less lst start" and "object_id start \<le> END_OF_GROUP" and "object_id lst \<le> END_OF_GROUP"
  shows "first_object start gid \<le> final_object lst gid"
  using assms by (auto simp: first_object_def final_object_def location_less_def)

text \<open>The requested locations, as a set: those between the first and the last one.\<close>

lemma set_requested:
  assumes "\<not> location_less lst start" and "object_id lst \<le> END_OF_GROUP"
  shows "set (requested order start lst) =
    {l. location_le start l \<and> location_le l lst \<and> object_id l \<le> END_OF_GROUP}"
proof -
  have mem: "l \<in> set (requested order start lst) \<longleftrightarrow> group_id start \<le> group_id l \<and> group_id l \<le> group_id lst \<and>
      first_object start (group_id l) \<le> object_id l \<and> object_id l \<le> final_object lst (group_id l)" for l
    by (cases l) (force simp: requested_def set_group_ids set_u64_range Location_new_def)
  have "l \<in> set (requested order start lst) \<longleftrightarrow>
      location_le start l \<and> location_le l lst \<and> object_id l \<le> END_OF_GROUP" for l
    using assms unfolding mem first_object_def final_object_def location_le_def location_less_def
    by (auto simp: order_le_less word_gt_0)
  then show ?thesis by blast
qed

lemma retained_at_stored:
  assumes "groups_ok lay g" and "retained_at g l = Some ob"
  shows "fro_location ob = l \<and> stored g ob"
proof -
  from assms(2) obtain grp where grp: "map_of (rg_groups g) (group_id l) = Some grp" "map_of (gr_objects grp) (object_id l) = Some ob"
    by (auto simp: retained_at_def bind_eq_Some_conv)
  from grp(1) assms(1) have "group_ok lay (group_id l) grp" by (auto simp: groups_ok_def dest: map_of_SomeD)
  with grp(2) have "fro_group ob = group_id l" "fro_id ob = object_id l" by (auto simp: group_ok_def dest: map_of_SomeD)
  with grp show ?thesis by (simp add: fro_location_def fetch_object_location_def Location_new_def stored_def)
qed

lemma stored_retained_at: "stored g ob \<longleftrightarrow> retained_at g (fro_location ob) = Some ob"
  by (auto simp: stored_def retained_at_def fro_location_def fetch_object_location_def Location_new_def bind_eq_Some_conv)

lemma plan_scan:
  assumes "largest_location live g = Some largest" and "\<not> location_less largest start"
    and "lst = location_min (inclusive_end e) largest" and "\<not> location_less lst start"
    and "object_id start \<le> END_OF_GROUP" and "object_id lst \<le> END_OF_GROUP"
  shows "\<exists>end_location last_location. plan live g start e order =
    (case scan_locations g (requested order start lst) [] of
       (Some unknown, objects) \<Rightarrow> Partial objects unknown last_location end_location
     | (None, objects) \<Rightarrow> Complete objects end_location)"
proof -
  have "scan_groups g start lst (group_ids order (group_id start) (group_id lst)) [] = scan_locations g (requested order start lst) []"
    unfolding requested_def by (rule scan_groups_eq) (use first_le_final [OF assms(4-6)] in blast)
  then show ?thesis using assms(2,4) by (simp add: plan_def assms(1) Let_def flip: assms(3)) blast
qed

end
