(* ===== verification/Relay_Properties.thy ===== *)
theory Relay_Properties
  imports Covering Retention
begin

text \<open>
  What the relay guarantees: its upstream subscriptions are the minimal cover of the
  namespace prefixes its downstream clients asked for, retention stays within its byte and
  group budgets under any interleaving of tracks, and a FETCH plan tells the truth about
  what is retained.
\<close>

section \<open>Covering prefixes\<close>

text \<open>A follower that applies the reported differences to a view of its own.\<close>

definition follow :: "bool \<times> track_namespace_prefix \<Rightarrow>
    covering_prefix_set \<times> track_namespace_prefix set \<Rightarrow> covering_prefix_set \<times> track_namespace_prefix set" where
  "follow op_p st =
     (case (if fst op_p then cps_add (snd op_p) (fst st) else cps_remove (snd op_p) (fst st)) of
        (d, c) \<Rightarrow> (c, (snd st - rd_removed d) \<union> rd_added d))"

text \<open>
  C17. Over any sequence of additions and removals, a follower that only applies the
  differences \<^verbatim>\<open>CoveringPrefixSet\<close> reports holds exactly the minimal prefixes of the active
  ones, and every active prefix is covered by exactly one of them: no namespace is
  subscribed to twice upstream and none is missed.
\<close>

theorem deltas_keep_the_minimal_cover:
  "fold follow ops (cps_default, {}) = (c, view) \<Longrightarrow>
   view = cps_roots c \<and> view = minimal_prefixes (cps_active c) \<and>
   (\<forall>x \<in> cps_active c. \<exists>!r. r \<in> view \<and> prefix r x)"
proof -
  assume run: "fold follow ops (cps_default, {}) = (c, view)"
  have "follow = cps.apply_op" by (simp add: fun_eq_iff follow_def cps.apply_op_def)
  with run cps.mirror_run [of ops] have "cps_inv c" "view = minimal_prefixes (cps_active c)" by (simp_all add: Let_def)
  then show ?thesis using cps.covered_once [of c] by (simp add: cps_inv_def)
qed

theorem deltas_keep_the_minimal_cover_witness:
  "cps_roots \<lparr>cps_active = {[[1], [2]], [[1]]}, cps_roots = {[[1]]}\<rparr> = minimal_prefixes {[[1], [2]], [[1]]}"
proof -
  have "fold follow [(True, [[1], [2]]), (True, [[1]])] (cps_default, {}) =
      (\<lparr>cps_active = {[[1], [2]], [[1]]}, cps_roots = {[[1]]}\<rparr>, {[[1]]})"
    by (auto simp: follow_def cps_default_def cps_add_def covers_def overlaps_def no_delta_def)
  from deltas_keep_the_minimal_cover [OF this] show ?thesis by simp
qed

section \<open>Retention\<close>

text \<open>
  C10. In every reachable state of the retention registry, with any number of tracks
  inserting, evicting and being dropped in any interleaving of their accesses to the shared
  budget: each track's byte count is the sum of its retained objects' costs and within the
  track's limit, an idle track holds at most the configured number of groups, and the shared
  counter is exactly the sum over all tracks and within the total limit.
\<close>

theorem retention_stays_within_budget:
  assumes "limits_ok lim" and "registry_reachable lay lim s"
  shows "reg_used s = sum_list (map track_bytes (reg_tracks s)) \<and> reg_used s \<le> lim_total_bytes lim \<and>
    (\<forall>g ph. Some (g, ph) \<in> set (reg_tracks s) \<longrightarrow> groups_ok lay g \<and> rg_bytes g \<le> lim_track_bytes lim \<and>
      (ph = Idle \<longrightarrow> length (rg_groups g) \<le> unat (lim_groups lim)))"
proof -
  have inv: "registry_inv lay lim s" by (rule registry_reachable_inv [OF assms])
  have "groups_ok lay g \<and> rg_bytes g \<le> lim_track_bytes lim \<and> (ph = Idle \<longrightarrow> length (rg_groups g) \<le> unat (lim_groups lim))"
    if "Some (g, ph) \<in> set (reg_tracks s)" for g ph
  proof -
    from that inv have "track_ok lay lim g ph" by (simp add: registry_inv_def)
    then show ?thesis using groups_ok_length [of lay g] by (auto simp: track_ok_def)
  qed
  with inv show ?thesis by (simp add: registry_inv_def)
qed

definition small_limits :: limits where
  "small_limits = \<lparr>lim_groups = 2, lim_track_bytes = 100, lim_total_bytes = 150\<rparr>"

definition unit_layout :: layout where
  "unit_layout = \<lparr>lay_object = 1, lay_chunk = 1, lay_header = 1\<rparr>"

definition retained_sample :: "u64 \<Rightarrow> u64 \<Rightarrow> fetch_response_object" where
  "retained_sample gid oid = \<lparr>fro_object = \<lparr>fo_group_id = gid, fo_subgroup_id = Some 0, fo_object_id = oid,
     fo_publisher_priority = 8, fo_extension_headers = [], fo_payload_length = 10\<rparr>, fro_payload = [[]]\<rparr>"

definition one_object :: retained_groups where
  "one_object = insert_store (retained_sample 4 0) 12 retained_groups_default"

lemma one_object_ok: "groups_ok unit_layout one_object"
  unfolding one_object_def
  using insert_store_ok(1) [of unit_layout retained_groups_default "retained_sample 4 0"]
  by (simp add: groups_ok_def retained_groups_default_def holds_def retained_bytes_def unit_layout_def retained_sample_def)

lemma one_object_eq:
  "one_object = \<lparr>rg_groups = [(4, \<lparr>gr_objects = [(0, retained_sample 4 0)], gr_bytes = 12\<rparr>)], rg_arrival = [4], rg_bytes = 12\<rparr>"
  by code_simp

text \<open>One track, after an object was inserted into it.\<close>

definition one_track_registry :: registry where
  "one_track_registry = \<lparr>reg_used = 12, reg_tracks = [Some (one_object, Idle)],
     reg_names = [([], [[1]], [2]) \<mapsto> 0]\<rparr>"

lemma one_track_registry_reachable: "registry_reachable unit_layout small_limits one_track_registry"
proof -
  let ?r = "registry_reachable unit_layout small_limits" and ?ob = "retained_sample 4 0"
  let ?at = "\<lambda>used t. \<lparr>reg_used = used, reg_tracks = [Some t], reg_names = [([], [[1]], [2]) \<mapsto> 0]\<rparr>"
  have facts: "\<not> holds retained_groups_default (fro_group ?ob) (fro_id ?ob)"
    "fits_beside unit_layout small_limits ?ob 0 retained_groups_default"
    "older_groups retained_groups_default (fro_group ?ob) = 0" "retained_bytes unit_layout ?ob = 12" by code_simp+
  have "limits_ok small_limits" by (simp add: limits_ok_def small_limits_def)
  then have start: "insert_begin unit_layout small_limits ?ob 0 retained_groups_default = Reserving ?ob 12 0"
    by (simp add: insert_begin_eq facts)
  have "?r (?at 0 (retained_groups_default, Idle))"
    using reachable_step [OF reachable_new step_retain, of unit_layout small_limits "([], [[1]], [2])"]
    by (simp add: retain_def registry_new_def)
  from reachable_step [OF this step_insert [of 0 _ retained_groups_default _ _ ?ob]]
  have "?r (?at 0 (retained_groups_default, Reserving ?ob 12 0))" by (simp add: start)
  from reachable_step [OF this step_progress [of 0 _ retained_groups_default "Reserving ?ob 12 0" _ 12 one_object "Windowing 4 0"]]
  have "?r (?at 12 (one_object, Windowing 4 0))"
    by (simp add: one_object_def fits_def reserve_def usize_checked_add_def retained_groups_default_def small_limits_def)
      (simp add: retained_sample_def)
  from reachable_step [OF this step_progress [of 0 _ one_object "Windowing 4 0" _ 12 one_object Idle]]
  show ?thesis by (simp add: one_object_eq small_limits_def one_track_registry_def)
qed

theorem retention_stays_within_budget_witness:
  "reg_used one_track_registry = sum_list (map track_bytes (reg_tracks one_track_registry)) \<and>
   reg_used one_track_registry \<le> 150 \<and> groups_ok unit_layout one_object \<and> rg_bytes one_object \<le> 100"
proof -
  have "limits_ok small_limits" by (simp add: limits_ok_def small_limits_def)
  note ok = retention_stays_within_budget [OF this one_track_registry_reachable]
  have "Some (one_object, Idle) \<in> set (reg_tracks one_track_registry)" by (simp add: one_track_registry_def)
  then have "groups_ok unit_layout one_object" "rg_bytes one_object \<le> lim_track_bytes small_limits" using ok by blast+
  with ok show ?thesis by (simp add: small_limits_def)
qed

text \<open>
  C20. Inserting an object always returns, whatever the other tracks do to the shared budget
  meanwhile: a track with \<open>k\<close> groups takes at most \<open>3 * k + 3\<close> accesses of its own. At the
  end the object is retained, only groups at the front of the arrival order were dropped to
  make room, never its own, and every object of the groups kept stays; or, when others took
  the budget, it is not retained and only groups that arrived before its own were dropped. An
  object that is held already or does not fit beside its own group and the later ones changes
  nothing, and one that fits is retained for certain when no other track interferes.
\<close>

theorem insert_retains_or_drops_only_older_groups:
  assumes "limits_ok lim" and "track_ok lay lim g Idle" and "rg_bytes g \<le> used" and "used \<le> lim_total_bytes lim"
  shows "(\<forall>n used' g' ph. insert_among lim (used, g, insert_begin lay lim ob used g) n (used', g', ph) \<longrightarrow>
      n \<le> 3 * length (rg_arrival g) + 3 \<and>
      track_ok lay lim g' ph \<and> rg_bytes g' \<le> used' \<and> used' \<le> lim_total_bytes lim \<and>
      (ph = Idle \<longrightarrow> retained_in ob g g' \<or> (\<exists>m \<le> older_groups g (fro_group ob). dropped_first m g g')) \<and>
      (holds g (fro_group ob) (fro_id ob) \<or> \<not> fits_beside lay lim ob used g \<longrightarrow> ph = Idle \<and> g' = g)) \<and>
    (\<exists>used' g'. rt_insert lay lim ob used g = Some (used', g', Idle) \<and>
      track_ok lay lim g' Idle \<and> used' + rg_bytes g = used + rg_bytes g' \<and> used' \<le> lim_total_bytes lim \<and>
      (if \<not> holds g (fro_group ob) (fro_id ob) \<and> fits_beside lay lim ob used g
       then retained_in ob g g' else g' = g \<and> used' = used))"
proof -
  let ?new = "\<not> holds g (fro_group ob) (fro_id ob) \<and> fits_beside lay lim ob used g"
  have bud: "budget_ok lay lim (used, g, Idle)" using assms by (simp add: budget_ok_def)
  have bud': "budget_ok lay lim (used, g, insert_begin lay lim ob used g)"
    using assms insert_begin_phase [OF assms(2)] by (simp add: budget_ok_def)
  have idle: "insert_begin lay lim ob used g = Idle" if "\<not> ?new"
    using that assms(1) by (auto simp: insert_begin_eq)
  have among: "n \<le> 3 * length (rg_arrival g) + 3 \<and>
      track_ok lay lim g' ph \<and> rg_bytes g' \<le> used' \<and> used' \<le> lim_total_bytes lim \<and>
      (ph = Idle \<longrightarrow> retained_in ob g g' \<or> (\<exists>m \<le> older_groups g (fro_group ob). dropped_first m g g')) \<and>
      (\<not> ?new \<longrightarrow> ph = Idle \<and> g' = g)"
    if run: "insert_among lim (used, g, insert_begin lay lim ob used g) n (used', g', ph)" for n used' g' ph
  proof -
    note inv = insert_among_inv [OF assms(1) bud run]
    have "ph = Idle \<and> g' = g" if "\<not> ?new" using insert_among_Idle [OF run [unfolded idle [OF that]]] by blast
    then show ?thesis using inv among_ok_bound [OF conjunct2 [OF inv]] by (auto simp: budget_ok_def)
  qed
  have "\<exists>used' g'. rt_insert lay lim ob used g = Some (used', g', Idle) \<and>
      track_ok lay lim g' Idle \<and> used' + rg_bytes g = used + rg_bytes g' \<and> used' \<le> lim_total_bytes lim \<and>
      (if ?new then retained_in ob g g' else g' = g \<and> used' = used)"
  proof (cases ?new)
    case True
    with rt_insert_retains [OF assms(1) bud] obtain used' g' where
      r: "rt_insert lay lim ob used g = Some (used', g', Idle)" "retained_in ob g g'" unfolding retained_in_def by blast
    from insert_run_inv [OF assms(1) bud' r(1) [unfolded rt_insert_def]] r show ?thesis
      unfolding if_P [OF True] by blast
  next
    case False
    then have "rt_insert lay lim ob used g = Some (used, g, Idle)" by (simp add: rt_insert_def idle)
    with assms show ?thesis unfolding if_not_P [OF False] by (intro exI [of _ used] exI [of _ g]) simp
  qed
  with among show ?thesis by blast
qed

definition tight_limits :: limits where
  "tight_limits = \<lparr>lim_groups = 2, lim_track_bytes = 20, lim_total_bytes = 30\<rparr>"

text \<open>
  An insertion that evicts and then loses the budget: the track drops its older group 4 to make
  room for group 5, another track reserves what became free, and group 5 is not retained either.
\<close>

lemma budget_taken_meanwhile:
  "insert_among tight_limits (18, one_object, insert_begin unit_layout tight_limits (retained_sample 5 0) 18 one_object) 3
     (20, retained_groups_default, Idle)"
proof -
  let ?ob = "retained_sample 5 0"
  have facts: "\<not> holds one_object (fro_group ?ob) (fro_id ?ob)" "fits_beside unit_layout tight_limits ?ob 18 one_object"
    "older_groups one_object (fro_group ?ob) = 1" "retained_bytes unit_layout ?ob = 12" by code_simp+
  note eval = one_object_eq tight_limits_def fits_def reserve_def usize_checked_add_def evict_oldest_def release_def
    bt_remove_def retained_groups_default_def
  have "limits_ok tight_limits" by (simp add: limits_ok_def tight_limits_def)
  then have b: "insert_begin unit_layout tight_limits ?ob 18 one_object = Reserving ?ob 12 1" by (simp add: insert_begin_eq facts)
  have 1: "insert_step tight_limits (18, one_object, Reserving ?ob 12 1) = (18, one_object, Evicting ?ob 12 1)"
    by (simp add: eval)
  have 2: "insert_step tight_limits (18, one_object, Evicting ?ob 12 1) = (6, retained_groups_default, Reserving ?ob 12 0)"
    by (simp add: eval)
  have 3: "insert_step tight_limits (20, retained_groups_default, Reserving ?ob 12 0) = (20, retained_groups_default, Idle)"
    by (simp add: eval)
  let ?s = "(18, one_object, Reserving ?ob 12 1)"
  from among_own [OF among_start [of tight_limits ?s]] 1
  have "insert_among tight_limits ?s 1 (18, one_object, Evicting ?ob 12 1)" by simp
  from among_own [OF this] 2 have "insert_among tight_limits ?s 2 (6, retained_groups_default, Reserving ?ob 12 0)"
    by (simp add: numeral_2_eq_2)
  from among_other [OF this, of 20] have "insert_among tight_limits ?s 2 (20, retained_groups_default, Reserving ?ob 12 0)"
    by (simp add: retained_groups_default_def tight_limits_def)
  from among_own [OF this] 3 show ?thesis by (simp add: b numeral_3_eq_3 numeral_2_eq_2)
qed

theorem insert_retains_or_drops_only_older_groups_witness:
  "(\<exists>m \<le> older_groups one_object (fro_group (retained_sample 5 0)). dropped_first m one_object retained_groups_default) \<and>
   (\<exists>used' g'. rt_insert unit_layout tight_limits (retained_sample 5 0) 18 one_object = Some (used', g', Idle) \<and>
     retained_in (retained_sample 5 0) one_object g')"
proof -
  have "limits_ok tight_limits" by (simp add: limits_ok_def tight_limits_def)
  moreover have "track_ok unit_layout tight_limits one_object Idle"
    by (simp add: track_ok_def one_object_ok) (simp add: one_object_eq tight_limits_def)
  moreover have "rg_bytes one_object \<le> 18" "18 \<le> lim_total_bytes tight_limits" by (simp_all add: one_object_eq tight_limits_def)
  moreover note insert_retains_or_drops_only_older_groups [of tight_limits unit_layout one_object 18 "retained_sample 5 0"]
  ultimately have run: "Idle = Idle \<longrightarrow> retained_in (retained_sample 5 0) one_object retained_groups_default \<or>
      (\<exists>m \<le> older_groups one_object (fro_group (retained_sample 5 0)). dropped_first m one_object retained_groups_default)"
    and alone: "\<exists>used' g'. rt_insert unit_layout tight_limits (retained_sample 5 0) 18 one_object = Some (used', g', Idle) \<and>
      (if \<not> holds one_object (fro_group (retained_sample 5 0)) (fro_id (retained_sample 5 0)) \<and>
         fits_beside unit_layout tight_limits (retained_sample 5 0) 18 one_object
       then retained_in (retained_sample 5 0) one_object g' else g' = one_object \<and> used' = 18)"
    using budget_taken_meanwhile by blast+
  have "\<not> stored retained_groups_default (retained_sample 5 0)" by (simp add: stored_def retained_groups_default_def)
  with run have "\<exists>m \<le> older_groups one_object (fro_group (retained_sample 5 0)). dropped_first m one_object retained_groups_default"
    unfolding retained_in_def by blast
  moreover have "\<not> holds one_object (fro_group (retained_sample 5 0)) (fro_id (retained_sample 5 0)) \<and>
      fits_beside unit_layout tight_limits (retained_sample 5 0) 18 one_object" by code_simp
  ultimately show ?thesis using alone by (simp only: if_True simp_thms)
qed

lemma complete_plan_objects:
  assumes "groups_ok lay g" and "largest_location live g = Some largest" and "\<not> location_less largest start"
    and "lst = location_min (inclusive_end e) largest" and "\<not> location_less lst start"
    and "object_id start \<le> END_OF_GROUP" and "object_id lst \<le> END_OF_GROUP"
    and "plan live g start e order = Complete obs end_location"
  shows "map fro_location obs = requested order start lst \<and> (\<forall>ob \<in> set obs. stored g ob) \<and>
    fro_location ` set obs = {l. location_le start l \<and> location_le l lst \<and> object_id l \<le> END_OF_GROUP}"
proof -
  obtain u found where scan: "scan_locations g (requested order start lst) [] = (u, found)" by fastforce
  from plan_scan [OF assms(2-7), of order] assms(8) have "scan_locations g (requested order start lst) [] = (None, obs)"
    by (cases u) (auto simp: scan)
  then have all: "\<forall>l \<in> set (requested order start lst). retained_at g l \<noteq> None"
    and obs: "obs = map (\<lambda>l. the (retained_at g l)) (requested order start lst)" by (simp_all add: scan_locations_None)
  have ob: "fro_location (the (retained_at g l)) = l \<and> stored g (the (retained_at g l))" if "l \<in> set (requested order start lst)" for l
    using all that retained_at_stored [OF assms(1)] by fastforce
  have locs: "map fro_location obs = requested order start lst" unfolding obs map_map
    by (rule map_idI) (simp add: ob)
  then have "fro_location ` set obs = set (requested order start lst)" by (metis list.set_map)
  with locs ob show ?thesis using set_requested [OF assms(5,7)] by (auto simp: obs)
qed

text \<open>
  C21. A FETCH answered from retention alone is answered completely: when \<^verbatim>\<open>plan\<close> says
  \<^verbatim>\<open>Complete\<close> for a range up to \<open>lst\<close>, the objects are exactly those of every location from
  the start to \<open>lst\<close>, in response order, and all of them are retained.
\<close>

theorem complete_plan_has_every_object:
  assumes "groups_ok lay g" and "largest_location live g = Some largest" and "\<not> location_less largest start"
    and "lst = location_min (inclusive_end e) largest" and "\<not> location_less lst start"
    and "object_id start \<le> END_OF_GROUP" and "object_id lst \<le> END_OF_GROUP"
    and "plan live g start e order = Complete obs end_location"
  shows "map fro_location obs = requested order start lst \<and> (\<forall>ob \<in> set obs. stored g ob) \<and>
    fro_location ` set obs = {l. location_le start l \<and> location_le l lst \<and> object_id l \<le> END_OF_GROUP}"
  using assms by (rule complete_plan_objects)

theorem complete_plan_has_every_object_witness:
  "map fro_location [retained_sample 4 0] = requested Ascending (Location_new 4 0) (Location_new 4 0)"
proof -
  have l: "largest_location None one_object = Some (Location_new 4 0)" by code_simp
  have m: "Location_new 4 0 = location_min (inclusive_end (Location_new 4 1)) (Location_new 4 0)" by code_simp
  have p: "plan None one_object (Location_new 4 0) (Location_new 4 1) Ascending = Complete [retained_sample 4 0] (Location_new 4 1)"
    by code_simp
  have n: "\<not> location_less (Location_new 4 0) (Location_new 4 0)" "object_id (Location_new 4 0) \<le> END_OF_GROUP" by code_simp+
  from complete_plan_has_every_object [OF one_object_ok l n(1) m n(1) n(2) n(2) p] show ?thesis by blast
qed

lemma partial_plan_gap:
  assumes "groups_ok lay g" and "largest_location live g = Some largest" and "\<not> location_less largest start"
    and "lst = location_min (inclusive_end e) largest" and "\<not> location_less lst start"
    and "object_id start \<le> END_OF_GROUP" and "object_id lst \<le> END_OF_GROUP"
    and "plan live g start e order = Partial obs unknown last_location end_location"
  shows "\<exists>rest. requested order start lst = map fro_location obs @ unknown # rest \<and>
    (\<forall>ob \<in> set obs. stored g ob) \<and> (\<forall>ob. stored g ob \<longrightarrow> fro_location ob \<noteq> unknown)"
proof -
  obtain u found where scan: "scan_locations g (requested order start lst) [] = (u, found)" by fastforce
  from plan_scan [OF assms(2-7), of order] assms(8) have "scan_locations g (requested order start lst) [] = (Some unknown, obs)"
    by (cases u) (auto simp: scan)
  from scan_locations_Some [OF this] obtain known rest where k: "requested order start lst = known @ unknown # rest"
    "retained_at g unknown = None" "\<forall>l \<in> set known. retained_at g l \<noteq> None" and obs: "obs = map (\<lambda>l. the (retained_at g l)) known"
    by auto
  have ob: "fro_location (the (retained_at g l)) = l \<and> stored g (the (retained_at g l))" if "l \<in> set known" for l
    using k(3) that retained_at_stored [OF assms(1)] by fastforce
  have "map fro_location obs = known" unfolding obs map_map by (rule map_idI) (simp add: ob)
  with k ob show ?thesis by (auto simp: obs stored_retained_at)
qed

text \<open>
  C22. A partial plan names the first location the relay cannot answer for: everything before
  it in response order is retained and is what the plan returns, and it itself is not
  retained, so nothing is claimed about an object the relay never received.
\<close>

theorem partial_plan_stops_at_the_first_gap:
  assumes "groups_ok lay g" and "largest_location live g = Some largest" and "\<not> location_less largest start"
    and "lst = location_min (inclusive_end e) largest" and "\<not> location_less lst start"
    and "object_id start \<le> END_OF_GROUP" and "object_id lst \<le> END_OF_GROUP"
    and "plan live g start e order = Partial obs unknown last_location end_location"
  shows "\<exists>rest. requested order start lst = map fro_location obs @ unknown # rest \<and>
    (\<forall>ob \<in> set obs. stored g ob) \<and> (\<forall>ob. stored g ob \<longrightarrow> fro_location ob \<noteq> unknown)"
  using assms by (rule partial_plan_gap)

theorem partial_plan_stops_at_the_first_gap_witness:
  "\<exists>rest. requested Ascending (Location_new 4 0) (Location_new 4 1) =
     map fro_location [retained_sample 4 0] @ Location_new 4 1 # rest"
proof -
  have l: "largest_location (Some (Location_new 4 3)) one_object = Some (Location_new 4 3)" by code_simp
  have m: "Location_new 4 1 = location_min (inclusive_end (Location_new 4 2)) (Location_new 4 3)" by code_simp
  have p: "plan (Some (Location_new 4 3)) one_object (Location_new 4 0) (Location_new 4 2) Ascending =
      Partial [retained_sample 4 0] (Location_new 4 1) (Location_new 4 1) (Location_new 4 2)" by code_simp
  have n: "\<not> location_less (Location_new 4 3) (Location_new 4 0)" "\<not> location_less (Location_new 4 1) (Location_new 4 0)"
    "object_id (Location_new 4 0) \<le> END_OF_GROUP" "object_id (Location_new 4 1) \<le> END_OF_GROUP" by code_simp+
  from partial_plan_stops_at_the_first_gap [OF one_object_ok l n(1) m n(2) n(3) n(4) p] show ?thesis by blast
qed

text \<open>
  The registry serves the newest registration of a track: a lookup right after
  \<^verbatim>\<open>retain\<close> gives the track just registered, dropping the guard of an older registration
  does not take it away, and once the track is gone the lookup finds nothing and forgets the
  name.
\<close>

theorem newest_registration_is_served:
  assumes "retain key s = (i, s1)" and "j \<noteq> i"
  shows "fst (retention_lookup key s1) = Some i \<and>
    fst (retention_lookup key (guard_drop key j s1)) = Some i \<and>
    fst (retention_lookup key (guard_drop key i s1)) = None \<and>
    fst (retention_lookup key (retained_track_drop i s1)) = None \<and>
    (k \<noteq> key \<longrightarrow> reg_names s1 k = reg_names s k)"
  using assms
  by (auto simp: retain_def Let_def retention_lookup_def guard_drop_def track_alive_def retained_track_drop_def nth_append)

theorem newest_registration_is_served_witness:
  "fst (retention_lookup ([], [[1]], [2]) (guard_drop ([], [[1]], [2]) 7 (snd (retain ([], [[1]], [2]) registry_new)))) = Some 0"
proof -
  have "retain ([], [[1]], [2]) registry_new = (0, snd (retain ([], [[1]], [2]) registry_new))"
    by (simp add: retain_def Let_def registry_new_def)
  from newest_registration_is_served [OF this, of 7] show ?thesis by simp
qed

end
