(* ===== verification/Watch.thy ===== *)
theory Watch
  imports Main
begin

text \<open>
  Shared state with change notification (\<^verbatim>\<open>moq-transport/src/watch/state.rs\<close>) and the queue
  built on it (\<^verbatim>\<open>watch/queue.rs\<close>). A state is split into two halves; dropping the last handle of
  either half closes it. Each critical section is one atomic step, a waker is the number
  of the task it wakes, and a poisoned lock is not modelled.
\<close>

section \<open>State\<close>

text \<open>\<^verbatim>\<open>StateInner\<close>: \<open>w_open\<close> is \<^verbatim>\<open>dropped.is_some()\<close>; the epoch counts notifications.\<close>

record 'v watched =
  w_value :: 'v
  w_wakers :: "nat list"
  w_epoch :: nat
  w_open :: bool

definition watched_new :: "'v \<Rightarrow> 'v watched" where
  "watched_new v = \<lparr>w_value = v, w_wakers = [], w_epoch = 0, w_open = True\<rparr>"

definition register :: "nat \<Rightarrow> 'v watched \<Rightarrow> 'v watched" where
  "register waker s = (if waker \<in> set (w_wakers s) then s else s\<lparr>w_wakers := w_wakers s @ [waker]\<rparr>)"

text \<open>\<^verbatim>\<open>notify\<close> returns the wakers it woke.\<close>

definition notify :: "'v watched \<Rightarrow> nat list \<times> 'v watched" where
  "notify s = (w_wakers s, s\<lparr>w_epoch := w_epoch s + 1, w_wakers := []\<rparr>)"

text \<open>
  A critical section through \<^verbatim>\<open>lock_mut\<close> or \<^verbatim>\<open>into_mut\<close>: \<open>None\<close> when the state is closed; the
  guard notifies when it is dropped.
\<close>

definition with_mut :: "('v \<Rightarrow> 'v) \<Rightarrow> 'v watched \<Rightarrow> (nat list \<times> 'v watched) option" where
  "with_mut f s = (if w_open s then Some (notify (s\<lparr>w_value := f (w_value s)\<rparr>)) else None)"

text \<open>\<^verbatim>\<open>StateRef::modified\<close>: what a reader waits on, or \<open>None\<close> when no change can come.\<close>

definition modified :: "'v watched \<Rightarrow> nat option" where
  "modified s = (if w_open s then Some (w_epoch s) else None)"

text \<open>\<^verbatim>\<open>StateChanged::poll\<close>: whether the future is ready, and the state with the waker kept.\<close>

definition poll_changed :: "nat \<Rightarrow> nat \<Rightarrow> 'v watched \<Rightarrow> bool \<times> 'v watched" where
  "poll_changed epoch waker s =
     (if w_epoch s > epoch then (True, s) else (False, register waker s))"

text \<open>\<^verbatim>\<open>StateDrop::drop\<close>: the last handle of a half is gone.\<close>

definition drop_half :: "'v watched \<Rightarrow> nat list \<times> 'v watched" where
  "drop_half s = notify (s\<lparr>w_open := False\<rparr>)"

section \<open>No lost wake-ups on one state\<close>

datatype 'v watch_op = Mutate "'v \<Rightarrow> 'v" | DropHalf | Poll nat nat

fun watch_step :: "'v watch_op \<Rightarrow> 'v watched \<Rightarrow> nat list \<times> 'v watched" where
  "watch_step (Mutate f) s = (case with_mut f s of None \<Rightarrow> ([], s) | Some r \<Rightarrow> r)"
| "watch_step DropHalf s = drop_half s"
| "watch_step (Poll epoch waker) s = ([], snd (poll_changed epoch waker s))"

fun watch_run :: "'v watch_op list \<Rightarrow> 'v watched \<Rightarrow> nat list \<times> 'v watched" where
  "watch_run [] s = ([], s)"
| "watch_run (p # ps) s =
     (case watch_step p s of (woken, s) \<Rightarrow> (case watch_run ps s of (woken', s) \<Rightarrow> (woken @ woken', s)))"

lemma watch_step_epoch:
  assumes "watch_step p s = (woken, s')"
  shows "w_epoch s' = w_epoch s \<and> woken = [] \<and> set (w_wakers s) \<subseteq> set (w_wakers s') \<or>
    w_epoch s < w_epoch s' \<and> set (w_wakers s) \<subseteq> set woken"
  using assms
  by (cases p) (auto simp: with_mut_def drop_half_def notify_def poll_changed_def register_def split: if_splits)

lemma watch_run_wakes:
  assumes "watch_run ps s = (woken, s')" and "waker \<in> set (w_wakers s)"
  shows "w_epoch s \<le> w_epoch s' \<and>
    (if w_epoch s < w_epoch s' then waker \<in> set woken else waker \<in> set (w_wakers s'))"
  using assms
proof (induction ps arbitrary: s woken)
  case (Cons p ps)
  obtain w1 s1 where step: "watch_step p s = (w1, s1)" by (cases "watch_step p s")
  obtain w2 where run: "watch_run ps s1 = (w2, s')" and w: "woken = w1 @ w2"
    using Cons.prems(1) step by (auto split: prod.splits)
  have mono: "w_epoch s1 \<le> w_epoch s'" using run
  proof (induction ps arbitrary: s1 w2)
    case (Cons p ps)
    then show ?case using watch_step_epoch [of p s1] by (fastforce split: prod.splits)
  qed simp
  from watch_step_epoch [OF step] consider
      "w_epoch s1 = w_epoch s" "waker \<in> set (w_wakers s1)" | "w_epoch s < w_epoch s1" "waker \<in> set w1"
    using Cons.prems(2) by blast
  then show ?case
  proof cases
    case 1
    then show ?thesis using Cons.IH [OF run] w by (auto split: if_splits)
  next
    case 2
    then show ?thesis using mono w by auto
  qed
qed simp

section \<open>Queue\<close>

text \<open>An item carries the notifier of a \<^verbatim>\<open>push_and_wait_until_popped\<close>, if any.\<close>

type_synonym 'a queue = "('a \<times> nat option) list watched"

definition queue_new :: "'a queue" where
  "queue_new = watched_new []"

text \<open>Operations return what woke up beside their result.\<close>

definition queue_push :: "'a \<Rightarrow> 'a queue \<Rightarrow> ('a + unit) \<times> nat list \<times> 'a queue" where
  "queue_push item q =
     (case with_mut (\<lambda>is. is @ [(item, None)]) q of
        None \<Rightarrow> (Inl item, [], q)
      | Some (woken, q) \<Rightarrow> (Inr (), woken, q))"

text \<open>The first half of \<^verbatim>\<open>push_and_wait_until_popped\<close>: \<open>False\<close> is \<^verbatim>\<open>Err(QueueClosed)\<close> at once.\<close>

definition queue_push_notified :: "'a \<Rightarrow> nat \<Rightarrow> 'a queue \<Rightarrow> bool \<times> nat list \<times> 'a queue" where
  "queue_push_notified item tx q =
     (case with_mut (\<lambda>is. is @ [(item, Some tx)]) q of
        None \<Rightarrow> (False, [], q)
      | Some (woken, q) \<Rightarrow> (True, woken, q))"

datatype 'a pop_result =
    Popped 'a "nat option"   \<comment> \<open>the item and the notifier that is sent\<close>
  | PopEnded
  | PopEmpty

text \<open>\<^verbatim>\<open>pop\<close> locks twice per round: once to take an item, once to find what to wait for.\<close>

definition queue_pop_try :: "'a queue \<Rightarrow> 'a pop_result \<times> nat list \<times> 'a queue" where
  "queue_pop_try q =
     (case w_value q of
        [] \<Rightarrow> (PopEmpty, [], q)
      | (item, notifier) # _ \<Rightarrow>
          (case with_mut tl q of
             None \<Rightarrow> (PopEnded, [], q)
           | Some (woken, q) \<Rightarrow> (Popped item notifier, woken, q)))"

definition queue_pop_wait :: "'a queue \<Rightarrow> nat option" where
  "queue_pop_wait q = modified q"

text \<open>\<^verbatim>\<open>close\<close> on the last handle of its half.\<close>

definition queue_close :: "'a queue \<Rightarrow> 'a list \<times> nat list \<times> 'a queue" where
  "queue_close q =
     (case with_mut (\<lambda>_. []) q of
        None \<Rightarrow> (case drop_half q of (woken, q) \<Rightarrow> ([], woken, q))
      | Some (woken, q') \<Rightarrow> (case drop_half q' of (woken', q') \<Rightarrow> (map fst (w_value q), woken @ woken', q')))"

datatype 'a queue_op = QPush 'a | QPop | QClose | QDrop

text \<open>A run collects the items accepted, the items popped and the items handed back by a close.\<close>

record 'a queue_log =
  ql_accepted :: "'a list"
  ql_popped :: "'a list"
  ql_returned :: "'a list"

fun queue_step :: "'a queue_op \<Rightarrow> 'a queue \<times> 'a queue_log \<Rightarrow> 'a queue \<times> 'a queue_log" where
  "queue_step (QPush a) (q, l) =
     (case queue_push a q of
        (Inl _, _, q) \<Rightarrow> (q, l)
      | (Inr _, _, q) \<Rightarrow> (q, l\<lparr>ql_accepted := ql_accepted l @ [a]\<rparr>))"
| "queue_step QPop (q, l) =
     (case queue_pop_try q of
        (Popped a _, _, q) \<Rightarrow> (q, l\<lparr>ql_popped := ql_popped l @ [a]\<rparr>)
      | (_, _, q) \<Rightarrow> (q, l))"
| "queue_step QClose (q, l) =
     (case queue_close q of (as, _, q) \<Rightarrow> (q, l\<lparr>ql_returned := ql_returned l @ as\<rparr>))"
| "queue_step QDrop (q, l) = (snd (drop_half q), l)"

definition queue_inv :: "'a queue \<times> 'a queue_log \<Rightarrow> bool" where
  "queue_inv s =
     (case s of (q, l) \<Rightarrow> ql_accepted l = ql_popped l @ ql_returned l @ map fst (w_value q) \<and>
        (w_open q \<longrightarrow> ql_returned l = []))"

lemma queue_step_inv: "queue_inv s \<Longrightarrow> queue_inv (queue_step op s)"
  by (cases s; cases op)
    (auto simp: queue_inv_def queue_push_def queue_pop_try_def queue_close_def with_mut_def notify_def drop_half_def
      split: list.splits)

lemma queue_run_inv: "queue_inv s \<Longrightarrow> queue_inv (fold queue_step ops s)"
proof (induction ops arbitrary: s)
  case (Cons op ops)
  from Cons.IH [OF queue_step_inv [OF Cons.prems]] show ?case by simp
qed simp

end
