(* ===== verification/Serve.thy ===== *)
theory Serve
  imports Watch Fetch_Stream
begin

text \<open>
  The model of a track's data inside the process (\<^verbatim>\<open>moq-transport/src/serve\<close>): the ring of
  datagrams (\<^verbatim>\<open>datagram.rs\<close>), the subgroups of a track, the objects of a subgroup and the chunks
  of an object (\<^verbatim>\<open>subgroup.rs\<close>), and the taps that see everything written (\<^verbatim>\<open>tap.rs\<close>). Writers and
  readers share a watched state; a reader's method is one round of its loop, which returns
  or names the epoch it waits on. Counters that grow by one per write are natural numbers
  unless the code saturates them.
\<close>

section \<open>Rounds of a reader\<close>

datatype 'a round = Ready 'a | Wait nat

text \<open>What a reader does when it has nothing to hand out: the closing error, the end, or a wait.\<close>

definition nothing_left :: "serve_error option \<Rightarrow> 'v watched \<Rightarrow> (serve_error + 'a option) round" where
  "nothing_left closed s =
     (case closed of
        Some e \<Rightarrow> Ready (Inl e)
      | None \<Rightarrow> (case modified s of None \<Rightarrow> Ready (Inr None) | Some epoch \<Rightarrow> Wait epoch))"

text \<open>The body of \<^verbatim>\<open>close\<close>, the same in every writer of this group: the first close wins.\<close>

definition close_with ::
    "('v \<Rightarrow> serve_error option) \<Rightarrow> (serve_error \<Rightarrow> 'v \<Rightarrow> 'v) \<Rightarrow> serve_error \<Rightarrow> 'v watched \<Rightarrow>
     (serve_error + unit) \<times> 'v watched" where
  "close_with get_closed put_closed err s =
     (case get_closed (w_value s) of
        Some e \<Rightarrow> (Inl e, s)
      | None \<Rightarrow>
          (case with_mut (put_closed err) s of
             None \<Rightarrow> (Inl SCancel, s)
           | Some (_, s) \<Rightarrow> (Inr (), s)))"

text \<open>\<^verbatim>\<open>close\<close> consumes its writer, so the writer's half of the state goes on every path.\<close>

definition close_and_drop ::
    "('v \<Rightarrow> serve_error option) \<Rightarrow> (serve_error \<Rightarrow> 'v \<Rightarrow> 'v) \<Rightarrow> serve_error \<Rightarrow> 'v watched \<Rightarrow>
     (serve_error + unit) \<times> 'v watched" where
  "close_and_drop get_closed put_closed err s =
     (case close_with get_closed put_closed err s of (res, s) \<Rightarrow> (res, snd (drop_half s)))"

section \<open>Taps\<close>

text \<open>A tap is open until its receiver is dropped; the receiver takes events in order.\<close>

record 'e tap =
  tap_open :: bool
  tap_events :: "'e list"

definition tap_emit :: "'e \<Rightarrow> 'e tap list \<Rightarrow> 'e tap list" where
  "tap_emit ev taps = map (\<lambda>t. t\<lparr>tap_events := tap_events t @ [ev]\<rparr>) (filter tap_open taps)"

text \<open>\<^verbatim>\<open>TapRegistrar::tap\<close> while the writer is alive; later it gives a tap that ends at once.\<close>

definition tap_register :: "'e tap list \<Rightarrow> 'e tap list" where
  "tap_register taps = taps @ [\<lparr>tap_open = True, tap_events = []\<rparr>]"

section \<open>Datagrams\<close>

record serve_datagram =
  sd_group_id :: u64
  sd_object_id :: u64
  sd_priority :: u8
  sd_payload :: bytes
  sd_extension_headers :: extension_headers

record datagrams_state =
  ds_ring :: "serve_datagram list"
  ds_depth :: nat
  ds_epoch :: nat
  ds_closed :: "serve_error option"

definition datagrams_with_depth :: "nat \<Rightarrow> datagrams_state" where
  "datagrams_with_depth depth = \<lparr>ds_ring = [], ds_depth = max depth 1, ds_epoch = 0, ds_closed = None\<rparr>"

definition ring_push :: "serve_datagram \<Rightarrow> datagrams_state \<Rightarrow> datagrams_state" where
  "ring_push d st =
     (let ring = (if length (ds_ring st) \<ge> ds_depth st then tl (ds_ring st) else ds_ring st) in
      st\<lparr>ds_ring := ring @ [d], ds_epoch := ds_epoch st + 1\<rparr>)"

definition datagrams_write ::
    "serve_datagram \<Rightarrow> datagrams_state watched \<times> serve_datagram tap list \<Rightarrow>
     (serve_error + unit) \<times> datagrams_state watched \<times> serve_datagram tap list" where
  "datagrams_write d st =
     (case st of (s, taps) \<Rightarrow>
        case with_mut (ring_push d) s of
          None \<Rightarrow> (Inl SCancel, s, taps)
        | Some (_, s) \<Rightarrow> (Inr (), s, tap_emit d taps))"

definition datagrams_close :: "serve_error \<Rightarrow> datagrams_state watched \<Rightarrow> (serve_error + unit) \<times> datagrams_state watched" where
  "datagrams_close = close_and_drop ds_closed (\<lambda>e st. st\<lparr>ds_closed := Some e\<rparr>)"

record datagrams_reader =
  dr_next :: nat
  dr_dropped :: nat

definition datagrams_reader_new :: datagrams_reader where
  "datagrams_reader_new = \<lparr>dr_next = 0, dr_dropped = 0\<rparr>"

definition datagrams_read ::
    "datagrams_state watched \<Rightarrow> datagrams_reader \<Rightarrow> (serve_error + serve_datagram option) round \<times> datagrams_reader" where
  "datagrams_read s r =
     (let st = w_value s;
          oldest = ds_epoch st - length (ds_ring st);
          r = (if dr_next r < oldest
               then \<lparr>dr_next = oldest, dr_dropped = min (2 ^ 64 - 1) (dr_dropped r + (oldest - dr_next r))\<rparr> else r) in
      if dr_next r < ds_epoch st
      then (Ready (Inr (Some (ds_ring st ! (dr_next r - oldest)))), r\<lparr>dr_next := dr_next r + 1\<rparr>)
      else (nothing_left (ds_closed st) s, r))"

definition datagrams_latest :: "datagrams_state \<Rightarrow> (u64 \<times> u64) option" where
  "datagrams_latest st =
     (if ds_ring st = [] then None
      else let d = last (ds_ring st) in Some (sd_group_id d, sd_object_id d))"

definition datagrams_is_closed :: "datagrams_state watched \<Rightarrow> bool" where
  "datagrams_is_closed s \<longleftrightarrow> ds_closed (w_value s) \<noteq> None \<or> modified s = None"

section \<open>Subgroups of a track\<close>

record subgroup_info =
  sgi_group_id :: u64
  sgi_subgroup_id :: u64
  sgi_priority :: u8

text \<open>A \<^verbatim>\<open>SubgroupReader\<close> is its info and the number of the subgroup it reads.\<close>

record subgroup_handle =
  sgh_info :: subgroup_info
  sgh_cell :: nat

record subgroups_state =
  ss_subgroups :: "(nat \<times> subgroup_handle) list"
  ss_next_index :: nat
  ss_closed :: "serve_error option"

definition subgroups_state_default :: subgroups_state where
  "subgroups_state_default = \<lparr>ss_subgroups = [], ss_next_index = 0, ss_closed = None\<rparr>"

record subgroups_writer =
  sw_next_subgroup_id :: u64
  sw_next_group_id :: u64
  sw_last_group_id :: u64
  sw_newest_group_id :: "u64 option"
  sw_history_window :: "u64 option"

definition subgroups_writer_new :: subgroups_writer where
  "subgroups_writer_new = \<lparr>sw_next_subgroup_id = 0, sw_next_group_id = 0, sw_last_group_id = 0,
     sw_newest_group_id = None, sw_history_window = None\<rparr>"

definition set_history_window :: "u64 \<Rightarrow> subgroups_writer \<Rightarrow> (serve_error + unit) \<times> subgroups_writer" where
  "set_history_window groups w =
     (if groups = 0 then (Inl SInternal, w) else (Inr (), w\<lparr>sw_history_window := Some groups\<rparr>))"

definition u64_saturating_inc :: "u64 \<Rightarrow> u64" where
  "u64_saturating_inc x = (case u64_checked_add x 1 of None \<Rightarrow> -1 | Some y \<Rightarrow> y)"

definition u64_saturating_sub :: "u64 \<Rightarrow> u64 \<Rightarrow> u64" where
  "u64_saturating_sub a b = (case u64_checked_sub a b of None \<Rightarrow> 0 | Some c \<Rightarrow> c)"

definition is_duplicate :: "subgroup_info \<Rightarrow> subgroups_state \<Rightarrow> bool" where
  "is_duplicate info st =
     list_ex (\<lambda>(_, h). sgi_group_id (sgh_info h) = sgi_group_id info \<and>
       sgi_subgroup_id (sgh_info h) = sgi_subgroup_id info) (ss_subgroups st)"

definition prune :: "u64 option \<Rightarrow> u64 option \<Rightarrow> subgroups_state \<Rightarrow> subgroups_state" where
  "prune window newest st =
     (case (window, newest) of
        (Some win, Some new) \<Rightarrow>
          st\<lparr>ss_subgroups := filter (\<lambda>(_, h). u64_saturating_sub new (sgi_group_id (sgh_info h)) < win) (ss_subgroups st)\<rparr>
      | _ \<Rightarrow> st)"

definition subgroups_push :: "subgroup_handle \<Rightarrow> subgroups_state \<Rightarrow> subgroups_state" where
  "subgroups_push h st =
     st\<lparr>ss_subgroups := ss_subgroups st @ [(ss_next_index st, h)],
        ss_next_index := min (2 ^ 64 - 1) (ss_next_index st + 1)\<rparr>"

text \<open>The cell number stands for the shared state \<^verbatim>\<open>produce\<close> makes for the new subgroup.\<close>

type_synonym subgroups = "subgroups_writer \<times> subgroups_state watched \<times> subgroup_handle tap list"

definition subgroups_create :: "subgroup_info \<Rightarrow> nat \<Rightarrow> subgroups \<Rightarrow> (serve_error + subgroup_handle) \<times> subgroups" where
  "subgroups_create info cell g =
     (case g of (w, s, taps) \<Rightarrow>
        if \<not> w_open s then (Inl SCancel, w, s, taps)
        else if is_duplicate info (w_value s) then (Inl SDuplicate, w, snd (notify s), taps)
        else
          let h = \<lparr>sgh_info = info, sgh_cell = cell\<rparr>;
              newest = (case sw_newest_group_id w of
                None \<Rightarrow> sgi_group_id info | Some n \<Rightarrow> max n (sgi_group_id info));
              w = w\<lparr>sw_next_subgroup_id := u64_saturating_inc (sgi_subgroup_id info),
                    sw_next_group_id := u64_saturating_inc (sgi_group_id info),
                    sw_last_group_id := sgi_group_id info, sw_newest_group_id := Some newest\<rparr>;
              st = prune (sw_history_window w) (Some newest) (subgroups_push h (w_value s)) in
          (Inr h, w, snd (notify (s\<lparr>w_value := st\<rparr>)), tap_emit h taps))"

definition subgroups_append :: "u8 \<Rightarrow> nat \<Rightarrow> subgroups \<Rightarrow> (serve_error + subgroup_handle) \<times> subgroups" where
  "subgroups_append priority cell g =
     subgroups_create \<lparr>sgi_group_id = sw_next_group_id (fst g), sgi_subgroup_id = 0, sgi_priority = priority\<rparr> cell g"

definition subgroups_close :: "serve_error \<Rightarrow> subgroups_state watched \<Rightarrow> (serve_error + unit) \<times> subgroups_state watched" where
  "subgroups_close = close_and_drop ss_closed (\<lambda>e st. st\<lparr>ss_closed := Some e\<rparr>)"

text \<open>
  A reader is its cursor. On a queue sorted by index \<^verbatim>\<open>partition_point\<close> is the length of the
  leading part below the cursor.
\<close>

definition subgroups_next :: "subgroups_state watched \<Rightarrow> nat \<Rightarrow> (serve_error + subgroup_handle option) round \<times> nat" where
  "subgroups_next s read_index =
     (let subs = ss_subgroups (w_value s);
          pos = length (takeWhile (\<lambda>(index, _). index < read_index) subs) in
      if pos < length subs
      then (Ready (Inr (Some (snd (subs ! pos)))), min (2 ^ 64 - 1) (fst (subs ! pos) + 1))
      else (nothing_left (ss_closed (w_value s)) s, read_index))"

definition pair_le :: "u64 \<times> u64 \<Rightarrow> u64 \<times> u64 \<Rightarrow> bool" where
  "pair_le a b \<longleftrightarrow> fst a < fst b \<or> fst a = fst b \<and> snd a \<le> snd b"

fun max_pair :: "(u64 \<times> u64) list \<Rightarrow> (u64 \<times> u64) option" where
  "max_pair [] = None"
| "max_pair (p # ps) =
     (case max_pair ps of None \<Rightarrow> Some p | Some q \<Rightarrow> Some (if pair_le p q then q else p))"

text \<open>\<^verbatim>\<open>latest\<close> asks each retained subgroup for its last object, given by cell number.\<close>

definition subgroups_latest :: "(nat \<Rightarrow> u64 option) \<Rightarrow> subgroups_state \<Rightarrow> (u64 \<times> u64) option" where
  "subgroups_latest last_object st =
     max_pair (List.map_filter (\<lambda>(_, h). map_option (\<lambda>ob. (sgi_group_id (sgh_info h), ob)) (last_object (sgh_cell h)))
       (ss_subgroups st))"

definition subgroups_is_closed :: "subgroups_state watched \<Rightarrow> bool" where
  "subgroups_is_closed s \<longleftrightarrow> ss_closed (w_value s) \<noteq> None \<or> modified s = None"

section \<open>Objects of a subgroup\<close>

record serve_object =
  so_object_id :: u64
  so_size :: nat
  so_status :: object_status
  so_extension_headers :: extension_headers

text \<open>An object reader is the object's static part and the number of its chunk state.\<close>

record object_handle =
  oh_info :: serve_object
  oh_cell :: nat

record subgroup_state =
  gs_objects :: "object_handle list"
  gs_closed :: "serve_error option"

definition subgroup_state_default :: subgroup_state where
  "subgroup_state_default = \<lparr>gs_objects = [], gs_closed = None\<rparr>"

text \<open>The writer's \<^verbatim>\<open>next_object_id\<close>, \<open>None\<close> once the largest id is used.\<close>

definition create_with_id ::
    "u64 \<Rightarrow> nat \<Rightarrow> extension_headers option \<Rightarrow> nat \<Rightarrow> u64 option \<times> subgroup_state watched \<Rightarrow>
     (serve_error + object_handle) \<times> u64 option \<times> subgroup_state watched" where
  "create_with_id oid sz exts cell g =
     (case g of (next_id, s) \<Rightarrow>
        if (case next_id of None \<Rightarrow> True | Some n \<Rightarrow> oid < n) then (Inl SDuplicate, next_id, s)
        else
          let h = \<lparr>oh_info = \<lparr>so_object_id = oid, so_size = sz, so_status = NormalObject,
                so_extension_headers = (case exts of None \<Rightarrow> [] | Some e \<Rightarrow> e)\<rparr>, oh_cell = cell\<rparr>;
              next_id = u64_checked_add oid 1 in
          case with_mut (\<lambda>st. st\<lparr>gs_objects := gs_objects st @ [h]\<rparr>) s of
            None \<Rightarrow> (Inl SCancel, next_id, s)
          | Some (_, s) \<Rightarrow> (Inr h, next_id, s))"

definition subgroup_create ::
    "nat \<Rightarrow> extension_headers option \<Rightarrow> nat \<Rightarrow> u64 option \<times> subgroup_state watched \<Rightarrow>
     (serve_error + object_handle) \<times> u64 option \<times> subgroup_state watched" where
  "subgroup_create sz exts cell g =
     (case fst g of None \<Rightarrow> (Inl SDuplicate, g) | Some oid \<Rightarrow> create_with_id oid sz exts cell g)"

definition subgroup_close :: "serve_error \<Rightarrow> subgroup_state watched \<Rightarrow> (serve_error + unit) \<times> subgroup_state watched" where
  "subgroup_close = close_and_drop gs_closed (\<lambda>e st. st\<lparr>gs_closed := Some e\<rparr>)"

definition subgroup_next :: "subgroup_state watched \<Rightarrow> nat \<Rightarrow> (serve_error + object_handle option) round \<times> nat" where
  "subgroup_next s read_index =
     (if read_index < length (gs_objects (w_value s))
      then (Ready (Inr (Some (gs_objects (w_value s) ! read_index))), read_index + 1)
      else (nothing_left (gs_closed (w_value s)) s, read_index))"

definition subgroup_latest :: "subgroup_state \<Rightarrow> u64 option" where
  "subgroup_latest st =
     (if gs_objects st = [] then None else Some (so_object_id (oh_info (last (gs_objects st)))))"

section \<open>Chunks of an object\<close>

record object_state =
  os_chunks :: "bytes list"
  os_closed :: "serve_error option"

definition object_state_default :: object_state where
  "object_state_default = \<lparr>os_chunks = [], os_closed = None\<rparr>"

text \<open>The writer is what remains of the promised size.\<close>

definition object_write :: "bytes \<Rightarrow> nat \<times> object_state watched \<Rightarrow> (serve_error + unit) \<times> nat \<times> object_state watched" where
  "object_write chunk g =
     (case g of (remain, s) \<Rightarrow>
        if length chunk > remain then (Inl SSize, remain, s)
        else
          let remain = remain - length chunk in
          case with_mut (\<lambda>st. st\<lparr>os_chunks := os_chunks st @ [chunk]\<rparr>) s of
            None \<Rightarrow> (Inl SCancel, remain, s)
          | Some (_, s) \<Rightarrow> (Inr (), remain, s))"

text \<open>Dropping the writer marks a short object and then closes its half of the state.\<close>

definition object_writer_drop :: "nat \<times> object_state watched \<Rightarrow> object_state watched" where
  "object_writer_drop g =
     (case g of (remain, s) \<Rightarrow>
        snd (drop_half
          (if remain = 0 then s
           else case with_mut (\<lambda>st. st\<lparr>os_closed := Some SSize\<rparr>) s of None \<Rightarrow> s | Some (_, s) \<Rightarrow> s)))"

text \<open>\<^verbatim>\<open>close\<close> consumes the writer, so it is dropped on every path.\<close>

definition object_close :: "serve_error \<Rightarrow> nat \<times> object_state watched \<Rightarrow> (serve_error + unit) \<times> object_state watched" where
  "object_close err g =
     (case g of (remain, s) \<Rightarrow>
        if remain \<noteq> 0 then (Inl SSize, object_writer_drop g)
        else
          case close_with os_closed (\<lambda>e st. st\<lparr>os_closed := Some e\<rparr>) err s of
            (res, s) \<Rightarrow> (res, object_writer_drop (remain, s)))"

definition object_read :: "object_state watched \<Rightarrow> nat \<Rightarrow> (serve_error + bytes option) round \<times> nat" where
  "object_read s index =
     (if index < length (os_chunks (w_value s))
      then (Ready (Inr (Some (os_chunks (w_value s) ! index))), index + 1)
      else (nothing_left (os_closed (w_value s)) s, index))"

text \<open>\<^verbatim>\<open>read_all\<close> on a state that does not change meanwhile; \<open>Wait\<close> when it is not finished.\<close>

function object_read_all :: "object_state watched \<Rightarrow> nat \<Rightarrow> bytes list \<Rightarrow> (serve_error + bytes) round" where
  "object_read_all s index chunks =
     (case object_read s index of
        (Ready (Inl e), _) \<Rightarrow> Ready (Inl e)
      | (Ready (Inr None), _) \<Rightarrow> Ready (Inr (concat chunks))
      | (Ready (Inr (Some chunk)), index) \<Rightarrow> object_read_all s index (chunks @ [chunk])
      | (Wait epoch, _) \<Rightarrow> Wait epoch)"
  by pat_completeness auto
termination
  by (relation "measure (\<lambda>(s, index, _). length (os_chunks (w_value s)) - index)")
    (auto simp: object_read_def nothing_left_def split: if_splits option.splits)

declare object_read_all.simps [simp del]

text \<open>\<^verbatim>\<open>SubgroupWriter::write\<close>: the next object with its whole payload; the chunk state it leaves behind.\<close>

definition subgroup_write ::
    "bytes \<Rightarrow> nat \<Rightarrow> u64 option \<times> subgroup_state watched \<Rightarrow>
     (serve_error + object_state watched) \<times> u64 option \<times> subgroup_state watched" where
  "subgroup_write payload cell g =
     (case subgroup_create (length payload) None cell g of
        (Inl e, g) \<Rightarrow> (Inl e, g)
      | (Inr h, g) \<Rightarrow>
          (case object_write payload (so_size (oh_info h), watched_new object_state_default) of
             (Inl e, _) \<Rightarrow> (Inl e, g)
           | (Inr _, ow) \<Rightarrow> (Inr (object_writer_drop ow), g)))"

section \<open>Readers with a cursor into a growing list\<close>

text \<open>
  Objects of a subgroup and chunks of an object are read the same way: a reader holds an
  index and takes the item there once it exists. Whatever is appended between its rounds,
  it is handed every item once and in order.
\<close>

locale cursor_reader =
  fixes items :: "'v \<Rightarrow> 'a list"
    and read_round :: "'v watched \<Rightarrow> nat \<Rightarrow> (serve_error + 'a option) round \<times> nat"
  assumes read_there: "i < length (items (w_value s)) \<Longrightarrow> read_round s i = (Ready (Inr (Some (items (w_value s) ! i))), i + 1)"
    and read_at_end: "length (items (w_value s)) \<le> i \<Longrightarrow> \<exists>c. read_round s i = (nothing_left c s, i)"
begin

primrec rounds :: "'v watched list \<Rightarrow> nat \<Rightarrow> 'a list" where
  "rounds [] i = []"
| "rounds (s # ss) i =
     (case read_round s i of
        (Ready (Inr (Some a)), j) \<Rightarrow> a # rounds ss j
      | (_, j) \<Rightarrow> rounds ss j)"

lemma rounds_there: "i < length (items (w_value s)) \<Longrightarrow> rounds (s # ss) i = items (w_value s) ! i # rounds ss (i + 1)"
  by (simp add: read_there)

lemma rounds_at_end: "length (items (w_value s)) \<le> i \<Longrightarrow> rounds (s # ss) i = rounds ss i"
  using read_at_end [of s i] by (auto simp: nothing_left_def split: option.split)

lemma rounds_in_order:
  "sorted_wrt (\<lambda>s t. prefix (items (w_value s)) (items (w_value t))) (ss @ [t]) \<Longrightarrow> i \<le> length (items (w_value t)) \<Longrightarrow>
   prefix (rounds ss i) (drop i (items (w_value t)))"
proof (induction ss arbitrary: i)
  case (Cons s ss)
  show ?case
  proof (cases "i < length (items (w_value s))")
    case True
    from Cons.prems have pre: "prefix (items (w_value s)) (items (w_value t))" by simp
    then obtain zs where t: "items (w_value t) = items (w_value s) @ zs" by (auto simp: prefix_def)
    have le: "i < length (items (w_value t))" using True t by simp
    have "prefix (rounds ss (i + 1)) (drop (i + 1) (items (w_value t)))" using Cons le by simp
    moreover have "drop i (items (w_value t)) = items (w_value s) ! i # drop (i + 1) (items (w_value t))"
      using True le by (simp add: t nth_append Cons_nth_drop_Suc [symmetric])
    ultimately show ?thesis unfolding rounds_there [OF True] by simp
  next
    case False
    then show ?thesis using rounds_at_end [of s i ss] Cons by simp
  qed
qed simp

text \<open>Enough rounds on the final state deliver everything.\<close>

lemma rounds_complete:
  "length (items (w_value t)) \<le> i + n \<Longrightarrow> i \<le> length (items (w_value t)) \<Longrightarrow> rounds (replicate n t) i = drop i (items (w_value t))"
proof (induction n arbitrary: i)
  case (Suc n)
  show ?case
  proof (cases "i < length (items (w_value t))")
    case True
    then show ?thesis using Suc by (simp add: rounds_there Cons_nth_drop_Suc del: rounds.simps)
  next
    case False
    then show ?thesis using Suc rounds_at_end [of t i "replicate n t"] by simp
  qed
qed simp

end

interpretation objects_in_order: cursor_reader gs_objects subgroup_next
  by unfold_locales (auto simp: subgroup_next_def)

interpretation chunks_in_order: cursor_reader os_chunks object_read
  by unfold_locales (auto simp: object_read_def)

section \<open>The datagram ring refines the whole history\<close>

definition ring_ok :: "serve_datagram list \<Rightarrow> datagrams_state \<Rightarrow> bool" where
  "ring_ok hist st \<longleftrightarrow> ds_epoch st = length hist \<and> 1 \<le> ds_depth st \<and>
     ds_ring st = drop (length hist - ds_depth st) hist"

lemma ring_ok_new: "ring_ok [] (datagrams_with_depth depth)"
  by (simp add: ring_ok_def datagrams_with_depth_def)

lemma ring_push_ok: "ring_ok hist st \<Longrightarrow> ring_ok (hist @ [d]) (ring_push d st)"
  by (cases "length hist < ds_depth st") (auto simp: ring_ok_def ring_push_def Let_def drop_Suc tl_drop Suc_diff_le not_less)

text \<open>
  A reader against the history: what it has read is at increasing positions below its
  cursor, and it counts the positions it skipped.
\<close>

definition reader_ok :: "serve_datagram list \<Rightarrow> serve_datagram list \<Rightarrow> datagrams_reader \<Rightarrow> bool" where
  "reader_ok hist reads r \<longleftrightarrow> dr_next r \<le> length hist \<and>
     (\<exists>ps. reads = map (\<lambda>i. hist ! i) ps \<and> sorted_wrt (<) ps \<and> (\<forall>i \<in> set ps. i < dr_next r) \<and>
       (length hist < 2 ^ 64 \<longrightarrow> length ps + dr_dropped r = dr_next r))"

lemma reader_ok_write: "reader_ok hist reads r \<Longrightarrow> length hist + 1 < 2 ^ 64 \<Longrightarrow> reader_ok (hist @ [d]) reads r"
proof -
  assume a: "reader_ok hist reads r" "length hist + 1 < 2 ^ 64"
  then obtain ps where ps: "reads = map (\<lambda>i. hist ! i) ps" "sorted_wrt (<) ps" "\<forall>i \<in> set ps. i < dr_next r"
      "length ps + dr_dropped r = dr_next r" "dr_next r \<le> length hist"
    by (auto simp: reader_ok_def)
  have "reads = map (\<lambda>i. (hist @ [d]) ! i) ps"
    unfolding ps(1) by (rule map_cong) (use ps(3,5) in \<open>auto simp: nth_append\<close>)
  with ps show ?thesis unfolding reader_ok_def by auto
qed

lemma ring_nth:
  assumes "ring_ok hist st" and "length hist - length (ds_ring st) \<le> i" and "i < length hist"
  shows "ds_ring st ! (i - (length hist - length (ds_ring st))) = hist ! i"
  using assms by (auto simp: ring_ok_def min_def split: if_splits)

lemma reader_ok_skip:
  assumes "reader_ok hist reads r" and "dr_next r \<le> n" and "n \<le> length hist" and "length hist < 2 ^ 64"
  shows "reader_ok hist reads \<lparr>dr_next = n, dr_dropped = min (2 ^ 64 - 1) (dr_dropped r + (n - dr_next r))\<rparr>"
proof -
  obtain ps where ps: "reads = map (\<lambda>i. hist ! i) ps" "sorted_wrt (<) ps" "\<forall>i \<in> set ps. i < dr_next r"
      "length ps + dr_dropped r = dr_next r"
    using assms(1,4) by (auto simp: reader_ok_def)
  then have "dr_dropped r + (n - dr_next r) \<le> 2 ^ 64 - 1" "length ps + (dr_dropped r + (n - dr_next r)) = n"
    using assms(2-4) by linarith+
  then show ?thesis using ps assms(2,3) unfolding reader_ok_def
    by (auto simp: min_def intro!: exI [of _ ps])
qed

lemma reader_ok_take:
  assumes "reader_ok hist reads r" and "dr_next r < length hist"
  shows "reader_ok hist (reads @ [hist ! dr_next r]) (r\<lparr>dr_next := dr_next r + 1\<rparr>)"
proof -
  obtain ps where ps: "reads = map (\<lambda>i. hist ! i) ps" "sorted_wrt (<) ps" "\<forall>i \<in> set ps. i < dr_next r"
      "length hist < 2 ^ 64 \<longrightarrow> length ps + dr_dropped r = dr_next r"
    using assms(1) by (auto simp: reader_ok_def)
  then show ?thesis using assms(2) unfolding reader_ok_def
    by (auto simp: sorted_wrt_append less_Suc_eq intro!: exI [of _ "ps @ [dr_next r]"])
qed

lemma datagrams_read_ok:
  assumes "ring_ok hist (w_value s)" and "reader_ok hist reads r" and "length hist < 2 ^ 64"
    and "datagrams_read s r = (res, r')"
  shows "reader_ok hist (case res of Ready (Inr (Some d)) \<Rightarrow> reads @ [d] | _ \<Rightarrow> reads) r'"
proof -
  define oldest where "oldest = length hist - length (ds_ring (w_value s))"
  define r1 where "r1 = (if dr_next r < oldest
    then \<lparr>dr_next = oldest, dr_dropped = min (2 ^ 64 - 1) (dr_dropped r + (oldest - dr_next r))\<rparr> else r)"
  have ok1: "reader_ok hist reads r1"
    using assms(2) reader_ok_skip [OF assms(2) _ _ assms(3), of oldest] by (auto simp: r1_def oldest_def)
  have ep: "ds_epoch (w_value s) = length hist" using assms(1) by (simp add: ring_ok_def)
  have le: "oldest \<le> dr_next r1" by (simp add: r1_def)
  have rd: "datagrams_read s r = (if dr_next r1 < length hist
      then (Ready (Inr (Some (ds_ring (w_value s) ! (dr_next r1 - oldest)))), r1\<lparr>dr_next := dr_next r1 + 1\<rparr>)
      else (nothing_left (ds_closed (w_value s)) s, r1))"
    unfolding datagrams_read_def Let_def ep r1_def oldest_def by (rule refl)
  show ?thesis
  proof (cases "dr_next r1 < length hist")
    case True
    have "ds_ring (w_value s) ! (dr_next r1 - oldest) = hist ! dr_next r1"
      using ring_nth [OF assms(1) _ True] le by (simp add: oldest_def)
    with True assms(4) have "res = Ready (Inr (Some (hist ! dr_next r1)))" "r' = r1\<lparr>dr_next := dr_next r1 + 1\<rparr>"
      by (simp_all add: rd)
    then show ?thesis using reader_ok_take [OF ok1 True] by simp
  next
    case False
    with assms(4) have "res = nothing_left (ds_closed (w_value s)) s" "r' = r1"
      by (simp_all add: rd)
    then show ?thesis using ok1 by (auto simp: nothing_left_def split: option.split)
  qed
qed

text \<open>Writes and reads in any order, with the history and what was read beside them.\<close>

datatype datagram_op = DWrite serve_datagram | DRead

fun datagram_step ::
    "datagram_op \<Rightarrow> datagrams_state watched \<times> datagrams_reader \<times> serve_datagram list \<times> serve_datagram list \<Rightarrow>
     datagrams_state watched \<times> datagrams_reader \<times> serve_datagram list \<times> serve_datagram list" where
  "datagram_step (DWrite d) (s, r, hist, reads) =
     (case datagrams_write d (s, []) of
        (Inl _, s, _) \<Rightarrow> (s, r, hist, reads)
      | (Inr _, s, _) \<Rightarrow> (s, r, hist @ [d], reads))"
| "datagram_step DRead (s, r, hist, reads) =
     (case datagrams_read s r of
        (res, r) \<Rightarrow> (s, r, hist, case res of Ready (Inr (Some d)) \<Rightarrow> reads @ [d] | _ \<Rightarrow> reads))"

lemma datagram_step_ok:
  assumes "ring_ok hist (w_value s)" and "reader_ok hist reads r" and "length hist + 1 < 2 ^ 64"
    and "datagram_step op (s, r, hist, reads) = (s', r', hist', reads')"
  shows "ring_ok hist' (w_value s') \<and> reader_ok hist' reads' r' \<and> length hist' \<le> length hist + 1"
proof (cases op)
  case (DWrite d)
  with assms show ?thesis
    by (auto simp: datagrams_write_def with_mut_def notify_def ring_push_ok reader_ok_write split: if_splits)
next
  case DRead
  obtain res r1 where rd: "datagrams_read s r = (res, r1)" by (cases "datagrams_read s r")
  from datagrams_read_ok [OF assms(1,2) _ rd] assms DRead rd show ?thesis by auto
qed

lemma datagram_run_ok:
  "ring_ok hist (w_value s) \<Longrightarrow> reader_ok hist reads r \<Longrightarrow> length hist + length ops < 2 ^ 64 \<Longrightarrow>
   fold datagram_step ops (s, r, hist, reads) = (s', r', hist', reads') \<Longrightarrow>
   ring_ok hist' (w_value s') \<and> reader_ok hist' reads' r'"
proof (induction ops arbitrary: s r hist reads)
  case (Cons op ops)
  obtain s1 r1 hist1 reads1 where step: "datagram_step op (s, r, hist, reads) = (s1, r1, hist1, reads1)"
    by (cases "datagram_step op (s, r, hist, reads)")
  from datagram_step_ok [OF Cons.prems(1,2) _ step] Cons.prems(3)
  have ok: "ring_ok hist1 (w_value s1)" "reader_ok hist1 reads1 r1" "length hist1 \<le> length hist + 1" by simp_all
  have "length hist1 + length ops < 2 ^ 64" using ok(3) Cons.prems(3) by simp
  then show ?case using Cons.IH [OF ok(1,2)] Cons.prems(4) step by simp
qed simp

section \<open>Subgroups: creation order, uniqueness and the window\<close>

definition subgroup_key :: "subgroup_handle \<Rightarrow> u64 \<times> u64" where
  "subgroup_key h = (sgi_group_id (sgh_info h), sgi_subgroup_id (sgh_info h))"

text \<open>
  Against the list of all subgroups ever created: the retained ones are some of them, in
  creation order, under their creation indexes, with no two of the same ids.
\<close>

definition subgroups_ok :: "subgroup_handle list \<Rightarrow> subgroups_state \<Rightarrow> bool" where
  "subgroups_ok hist st \<longleftrightarrow> ss_next_index st = length hist \<and>
     sorted_wrt (<) (map fst (ss_subgroups st)) \<and>
     (\<forall>(i, h) \<in> set (ss_subgroups st). i < length hist \<and> hist ! i = h) \<and>
     distinct (map (\<lambda>e. subgroup_key (snd e)) (ss_subgroups st))"

definition in_window :: "subgroups_writer \<Rightarrow> subgroups_state \<Rightarrow> bool" where
  "in_window w st \<longleftrightarrow>
     (case (sw_history_window w, sw_newest_group_id w) of
        (Some win, Some new) \<Rightarrow>
          \<forall>(_, h) \<in> set (ss_subgroups st). u64_saturating_sub new (sgi_group_id (sgh_info h)) < win
      | _ \<Rightarrow> True)"

lemma subgroups_ok_default: "subgroups_ok [] subgroups_state_default"
  by (simp add: subgroups_ok_def subgroups_state_default_def)

lemma subgroups_push_ok:
  assumes "subgroups_ok hist st" and "\<not> is_duplicate (sgh_info h) st" and "length hist < 2 ^ 64 - 1"
  shows "subgroups_ok (hist @ [h]) (subgroups_push h st)"
proof -
  let ?subs = "ss_subgroups st"
  have key: "subgroup_key h \<notin> (\<lambda>e. subgroup_key (snd e)) ` set ?subs"
    using assms(2) by (force simp: is_duplicate_def list_ex_iff subgroup_key_def)
  have st: "ss_next_index st = length hist" "sorted_wrt (<) (map fst ?subs)"
      "distinct (map (\<lambda>e. subgroup_key (snd e)) ?subs)"
    and old: "\<And>i h'. (i, h') \<in> set ?subs \<Longrightarrow> i < length hist \<and> hist ! i = h'"
    using assms(1) by (auto simp: subgroups_ok_def)
  have subs': "ss_subgroups (subgroups_push h st) = ?subs @ [(length hist, h)]"
    and next': "ss_next_index (subgroups_push h st) = length (hist @ [h])"
    using st(1) assms(3) by (simp_all add: subgroups_push_def)
  have "sorted_wrt (<) (map fst ?subs @ [length hist])"
    using st(2) old by (force simp: sorted_wrt_append)
  moreover have "i < length (hist @ [h]) \<and> (hist @ [h]) ! i = h'"
    if "(i, h') \<in> set (?subs @ [(length hist, h)])" for i h'
    using that old [of i h'] by (auto simp: nth_append)
  moreover have "distinct (map (\<lambda>e. subgroup_key (snd e)) (?subs @ [(length hist, h)]))"
    using st(3) key by simp
  ultimately show ?thesis unfolding subgroups_ok_def subs' next' by auto
qed

lemma filter_sorted_map: "sorted_wrt (<) (map f xs) \<Longrightarrow> sorted_wrt (<) (map f (filter P xs))"
  by (induction xs) auto

lemma subgroups_prune_ok: "subgroups_ok hist st \<Longrightarrow> subgroups_ok hist (prune window newest st)"
  by (auto simp: subgroups_ok_def prune_def filter_sorted_map distinct_map_filter split: option.split)

lemma subgroups_create_ok:
  assumes "subgroups_ok hist (w_value s)" and "length hist < 2 ^ 64 - 1"
    and "subgroups_create info cell (w, s, taps) = (res, w', s', taps')"
  shows "subgroups_ok (hist @ (case res of Inr h \<Rightarrow> [h] | Inl _ \<Rightarrow> [])) (w_value s') \<and>
    (\<forall>h. res = Inr h \<longrightarrow> in_window w' (w_value s') \<and> sgh_info h = info)"
proof -
  consider "\<not> w_open s" | "w_open s" "is_duplicate info (w_value s)" | "w_open s" "\<not> is_duplicate info (w_value s)" by blast
  then show ?thesis
  proof cases
    case 3
    define h where "h = \<lparr>sgh_info = info, sgh_cell = cell\<rparr>"
    define newest where "newest = (case sw_newest_group_id w of None \<Rightarrow> sgi_group_id info | Some n \<Rightarrow> max n (sgi_group_id info))"
    from 3 assms(3) have r: "res = Inr h" "w_value s' = prune (sw_history_window w) (Some newest) (subgroups_push h (w_value s))"
      "sw_history_window w' = sw_history_window w" "sw_newest_group_id w' = Some newest"
      by (auto simp: subgroups_create_def Let_def notify_def h_def newest_def)
    have "subgroups_ok (hist @ [h]) (subgroups_push h (w_value s))"
      using subgroups_push_ok [OF assms(1)] 3 assms(2) by (simp add: h_def)
    then have "subgroups_ok (hist @ [h]) (w_value s')" unfolding r(2) by (rule subgroups_prune_ok)
    moreover have "in_window w' (w_value s')" unfolding in_window_def r by (auto simp: prune_def split: option.split)
    ultimately show ?thesis using r(1) by (simp add: h_def)
  qed (use assms in \<open>auto simp: subgroups_create_def notify_def\<close>)
qed

text \<open>A window of \<open>k\<close> groups retains subgroups of at most \<open>k\<close> groups once every group is at most the newest.\<close>

lemma window_bounds_groups:
  assumes "sw_history_window w = Some win" and "sw_newest_group_id w = Some new" and "in_window w st"
    and "\<forall>(_, h) \<in> set (ss_subgroups st). sgi_group_id (sgh_info h) \<le> new"
  shows "card ((\<lambda>e. sgi_group_id (sgh_info (snd e))) ` set (ss_subgroups st)) \<le> unat win"
proof -
  let ?G = "(\<lambda>e. sgi_group_id (sgh_info (snd e))) ` set (ss_subgroups st)"
  have "unat g \<in> {Suc (unat new) - unat win ..< Suc (unat new)}" if "g \<in> ?G" for g
  proof -
    from that assms have le: "g \<le> new" and "u64_saturating_sub new g < win" by (auto simp: in_window_def)
    then have "unat (new - g) < unat win" by (simp add: u64_saturating_sub_def u64_checked_sub_def word_less_nat_alt)
    with le show ?thesis by (simp add: unat_sub word_le_nat_alt)
  qed
  then have "unat ` ?G \<subseteq> {Suc (unat new) - unat win ..< Suc (unat new)}" by blast
  then have "card (unat ` ?G) \<le> card {Suc (unat new) - unat win ..< Suc (unat new)}" by (intro card_mono) simp_all
  then have "card (unat ` ?G) \<le> unat win" by simp
  moreover have "card (unat ` ?G) = card ?G" by (rule card_image) (rule inj_onI, rule word_unat_eq_iff [THEN iffD2])
  ultimately show ?thesis by simp
qed

text \<open>
  A run of creations, with the subgroups created: whatever the writer asks for, the
  invariants hold, every retained group is at most the newest, and an open tap saw every
  subgroup in order.
\<close>

fun subgroups_creates :: "(subgroup_info \<times> nat) list \<Rightarrow> subgroups \<Rightarrow> subgroup_handle list \<times> subgroups" where
  "subgroups_creates [] g = ([], g)"
| "subgroups_creates ((info, cell) # ops) g =
     (case subgroups_create info cell g of
        (res, g) \<Rightarrow>
          (case subgroups_creates ops g of
             (hs, g) \<Rightarrow> ((case res of Inr h \<Rightarrow> [h] | Inl _ \<Rightarrow> []) @ hs, g)))"

definition groups_below :: "subgroups_writer \<Rightarrow> subgroups_state \<Rightarrow> bool" where
  "groups_below w st \<longleftrightarrow>
     (\<forall>(_, h) \<in> set (ss_subgroups st). \<exists>new. sw_newest_group_id w = Some new \<and> sgi_group_id (sgh_info h) \<le> new)"

lemma prune_subset: "set (ss_subgroups (prune win new st)) \<subseteq> set (ss_subgroups st)"
  by (auto simp: prune_def split: option.split)

lemma subgroups_create_newest:
  assumes "groups_below w (w_value s)" and "in_window w (w_value s)" and "subgroups_create info cell (w, s, taps) = (res, w', s', taps')"
  shows "groups_below w' (w_value s') \<and> sw_history_window w' = sw_history_window w \<and>
    (res = Inl SCancel \<or> res = Inl SDuplicate \<longrightarrow> w' = w \<and> w_value s' = w_value s \<and> taps' = taps) \<and>
    (\<forall>h. res = Inr h \<longrightarrow> taps' = tap_emit h taps) \<and> (\<forall>e. res = Inl e \<longrightarrow> e = SCancel \<or> e = SDuplicate)"
proof -
  consider "\<not> w_open s" | "w_open s" "is_duplicate info (w_value s)" | "w_open s" "\<not> is_duplicate info (w_value s)" by blast
  then show ?thesis
  proof cases
    case 3
    define h where "h = \<lparr>sgh_info = info, sgh_cell = cell\<rparr>"
    define newest where "newest = (case sw_newest_group_id w of None \<Rightarrow> sgi_group_id info | Some n \<Rightarrow> max n (sgi_group_id info))"
    from 3 assms(3) have r: "res = Inr h" "w_value s' = prune (sw_history_window w) (Some newest) (subgroups_push h (w_value s))"
      "sw_history_window w' = sw_history_window w" "sw_newest_group_id w' = Some newest" "taps' = tap_emit h taps"
      by (auto simp: subgroups_create_def Let_def notify_def h_def newest_def)
    have "sgi_group_id (sgh_info h') \<le> newest" if "(i, h') \<in> set (ss_subgroups (subgroups_push h (w_value s)))" for i h'
    proof -
      from that have "(i, h') \<in> set (ss_subgroups (w_value s)) \<or> h' = h" by (auto simp: subgroups_push_def)
      then show ?thesis
      proof
        assume "(i, h') \<in> set (ss_subgroups (w_value s))"
        then obtain n where "sw_newest_group_id w = Some n" "sgi_group_id (sgh_info h') \<le> n"
          using assms(1) by (auto simp: groups_below_def)
        then show ?thesis by (simp add: newest_def le_max_iff_disj)
      qed (simp add: newest_def h_def split: option.split)
    qed
    then have "groups_below w' (w_value s')"
      unfolding groups_below_def r using prune_subset [of "sw_history_window w" "Some newest" "subgroups_push h (w_value s)"] by fastforce
    then show ?thesis using r by simp
  qed (use assms in \<open>auto simp: subgroups_create_def notify_def groups_below_def\<close>)
qed

lemma subgroups_creates_ok:
  "subgroups_ok hist (w_value s) \<Longrightarrow> groups_below w (w_value s) \<Longrightarrow> in_window w (w_value s) \<Longrightarrow>
   length hist + length ops < 2 ^ 64 - 1 \<Longrightarrow> subgroups_creates ops (w, s, [\<lparr>tap_open = True, tap_events = evs\<rparr>]) = (hs, w', s', taps') \<Longrightarrow>
   subgroups_ok (hist @ hs) (w_value s') \<and> groups_below w' (w_value s') \<and> in_window w' (w_value s') \<and>
   sw_history_window w' = sw_history_window w \<and> taps' = [\<lparr>tap_open = True, tap_events = evs @ hs\<rparr>] \<and> length hs \<le> length ops"
proof (induction ops arbitrary: hist w s evs hs)
  case (Cons op ops)
  obtain info cell where op: "op = (info, cell)" by (cases op)
  let ?tap = "\<lambda>es. [\<lparr>tap_open = True, tap_events = es\<rparr>]"
  obtain res w1 s1 taps1 where c: "subgroups_create info cell (w, s, ?tap evs) = (res, w1, s1, taps1)" by (metis prod_cases4)
  define h1 where "h1 = (case res of Inr h \<Rightarrow> [h] | Inl _ \<Rightarrow> [])"
  obtain hs1 where rest: "subgroups_creates ops (w1, s1, taps1) = (hs1, w', s', taps')" and hs: "hs = h1 @ hs1"
    using Cons.prems(5) by (auto simp: op c h1_def split: prod.splits)
  have len: "length hist < 2 ^ 64 - 1" using Cons.prems(4) by simp
  note ok = subgroups_create_ok [OF Cons.prems(1) len c] subgroups_create_newest [OF Cons.prems(2,3) c]
  have win: "in_window w1 (w_value s1)" using ok Cons.prems(3) by (cases res) auto
  have taps1: "taps1 = ?tap (evs @ h1)" using ok(2) by (cases res) (auto simp: h1_def tap_emit_def)
  have "length (hist @ h1) + length ops < 2 ^ 64 - 1" using Cons.prems(4) by (cases res) (simp_all add: h1_def)
  from Cons.IH [of "hist @ h1" s1 w1 "evs @ h1" hs1] ok win this rest taps1 show ?case
    by (cases res) (auto simp: hs h1_def)
qed simp

text \<open>A reader takes the first retained subgroup at or past its cursor.\<close>

lemma subgroups_next_ok:
  assumes "subgroups_ok hist (w_value s)" and "length hist < 2 ^ 64 - 1"
    and "subgroups_next s c = (Ready (Inr (Some h)), c')"
  shows "\<exists>i. c \<le> i \<and> i < length hist \<and> h = hist ! i \<and> c' = i + 1 \<and> (i, h) \<in> set (ss_subgroups (w_value s)) \<and>
    (\<forall>j < i. c \<le> j \<longrightarrow> j \<notin> fst ` set (ss_subgroups (w_value s)))"
proof -
  let ?subs = "ss_subgroups (w_value s)" and ?P = "\<lambda>(index, _). index < c"
  define pos where "pos = length (takeWhile ?P ?subs)"
  from assms(3) have pos: "pos < length ?subs" and h: "h = snd (?subs ! pos)" and c': "c' = min (2 ^ 64 - 1) (fst (?subs ! pos) + 1)"
    by (auto simp: subgroups_next_def Let_def pos_def nothing_left_def split: if_splits option.splits)
  define i where "i = fst (?subs ! pos)"
  have mem: "(i, h) \<in> set ?subs" using pos h by (simp add: i_def)
  have "\<not> ?P (?subs ! pos)" using nth_length_takeWhile [of ?P ?subs] pos by (simp add: pos_def)
  then have ge: "c \<le> i" by (simp add: i_def case_prod_beta)
  have bound: "i < length hist" "hist ! i = h" using assms(1) mem by (auto simp: subgroups_ok_def)
  have gap: "j \<notin> fst ` set ?subs" if "j < i" "c \<le> j" for j
  proof
    assume "j \<in> fst ` set ?subs"
    then obtain k where k: "k < length ?subs" "fst (?subs ! k) = j" by (auto simp: in_set_conv_nth)
    have "sorted_wrt (<) (map fst ?subs)" using assms(1) by (simp add: subgroups_ok_def)
    then have "pos < k \<Longrightarrow> i < j" using k pos by (auto simp: sorted_wrt_iff_nth_less i_def)
    then have "k < pos" using that(1) k i_def by (metis linorder_neqE_nat order_less_imp_not_less order_less_irrefl)
    then have "?P (?subs ! k)" using takeWhile_nth [of k ?P ?subs] set_takeWhileD [of "?subs ! k" ?P ?subs]
      by (metis nth_mem pos_def)
    then show False using k that(2) by (simp add: case_prod_beta)
  qed
  have "c' = i + 1" using c' bound(1) assms(2) by (simp add: i_def)
  with ge bound mem gap show ?thesis by blast
qed

section \<open>Objects and chunks\<close>

text \<open>Ids of a subgroup's objects increase, and the writer's next id is past all of them.\<close>

definition objects_ok :: "u64 option \<Rightarrow> subgroup_state \<Rightarrow> bool" where
  "objects_ok next_id st \<longleftrightarrow>
     sorted_wrt (<) (map (\<lambda>h. so_object_id (oh_info h)) (gs_objects st)) \<and>
     (\<forall>h \<in> set (gs_objects st). \<forall>n. next_id = Some n \<longrightarrow> so_object_id (oh_info h) < n)"

lemma checked_inc_less: "u64_checked_add x 1 = Some y \<Longrightarrow> x < y"
  using unat_checked_add [of x 1 y] by (simp add: word_less_nat_alt)

lemma create_with_id_ok:
  assumes "objects_ok next_id (w_value s)" and "create_with_id oid sz exts cell (next_id, s) = (res, next', s')"
  shows "objects_ok next' (w_value s') \<and>
    (case res of
       Inr h \<Rightarrow> so_object_id (oh_info h) = oid \<and> gs_objects (w_value s') = gs_objects (w_value s) @ [h]
     | Inl _ \<Rightarrow> gs_objects (w_value s') = gs_objects (w_value s))"
proof (cases next_id)
  case None
  with assms show ?thesis by (auto simp: create_with_id_def)
next
  case (Some n)
  show ?thesis
  proof (cases "oid < n")
    case True
    with assms Some show ?thesis by (auto simp: create_with_id_def)
  next
    case False
    have below: "so_object_id (oh_info h) < oid" if "h \<in> set (gs_objects (w_value s))" for h
      using assms(1) that Some False by (auto simp: objects_ok_def dest: order_less_le_trans)
    have next': "next' = u64_checked_add oid 1"
      using assms(2) Some False by (auto simp: create_with_id_def Let_def with_mut_def notify_def split: if_splits)
    have "so_object_id (oh_info h) < m" if "h \<in> set (gs_objects (w_value s))" "next' = Some m" for h m
      using below [OF that(1)] checked_inc_less [of oid m] that(2) next' by (auto dest: order_less_trans)
    moreover have "oid < m" if "next' = Some m" for m using that next' checked_inc_less by simp
    ultimately show ?thesis
      using assms Some False below
      by (auto simp: create_with_id_def Let_def with_mut_def notify_def objects_ok_def sorted_wrt_append split: if_splits)
  qed
qed

text \<open>
  Chunks: as long as a reader is there, what was written and what remains add up to the
  promised size; only a complete object is left open when its writer goes.
\<close>

definition chunks_ok :: "nat \<Rightarrow> nat \<Rightarrow> object_state watched \<Rightarrow> bool" where
  "chunks_ok promised remain s \<longleftrightarrow>
     w_open s \<longrightarrow> length (concat (os_chunks (w_value s))) + remain = promised \<and> os_closed (w_value s) = None"

lemma object_write_ok:
  assumes "chunks_ok promised remain s" and "object_write chunk (remain, s) = (res, remain', s')"
  shows "chunks_ok promised remain' s'"
  using assms by (auto simp: object_write_def Let_def with_mut_def notify_def chunks_ok_def split: if_splits)

lemma object_read_all_eq:
  "i \<le> length (os_chunks (w_value s)) \<Longrightarrow>
   object_read_all s i acc =
     (case nothing_left (os_closed (w_value s)) s :: (serve_error + bytes option) round of
        Ready (Inl e) \<Rightarrow> Ready (Inl e)
      | Ready (Inr _) \<Rightarrow> Ready (Inr (concat (acc @ drop i (os_chunks (w_value s)))))
      | Wait epoch \<Rightarrow> Wait epoch)"
proof (induction s i acc rule: object_read_all.induct)
  case (1 s i acc)
  show ?case
  proof (cases "i < length (os_chunks (w_value s))")
    case True
    then have rd: "object_read s i = (Ready (Inr (Some (os_chunks (w_value s) ! i))), i + 1)" by (simp add: object_read_def)
    have "object_read_all s i acc = object_read_all s (i + 1) (acc @ [os_chunks (w_value s) ! i])"
      by (subst object_read_all.simps) (simp add: rd)
    also have "\<dots> = (case nothing_left (os_closed (w_value s)) s :: (serve_error + bytes option) round of
        Ready (Inl e) \<Rightarrow> Ready (Inl e)
      | Ready (Inr _) \<Rightarrow> Ready (Inr (concat ((acc @ [os_chunks (w_value s) ! i]) @ drop (i + 1) (os_chunks (w_value s)))))
      | Wait epoch \<Rightarrow> Wait epoch)"
      using "1.IH" [OF rd [symmetric] refl refl refl] True by simp
    also have "concat ((acc @ [os_chunks (w_value s) ! i]) @ drop (i + 1) (os_chunks (w_value s))) =
        concat (acc @ drop i (os_chunks (w_value s)))" using True by (simp add: Cons_nth_drop_Suc [symmetric])
    finally show ?thesis .
  next
    case False
    then have "object_read s i = (nothing_left (os_closed (w_value s)) s, i)" by (simp add: object_read_def)
    then show ?thesis using False
      by (subst object_read_all.simps) (simp add: nothing_left_def split: option.split)
  qed
qed

text \<open>A run of writes, with the chunks accepted; a reader of the dropped object gets all of it or an error.\<close>

fun object_writes :: "bytes list \<Rightarrow> nat \<times> object_state watched \<Rightarrow> bytes list \<times> nat \<times> object_state watched" where
  "object_writes [] g = ([], g)"
| "object_writes (c # cs) g =
     (case object_write c g of
        (res, g) \<Rightarrow> (case object_writes cs g of (acc, g) \<Rightarrow> ((case res of Inr _ \<Rightarrow> [c] | Inl _ \<Rightarrow> []) @ acc, g)))"

lemma object_writes_chunks:
  "w_open s \<Longrightarrow> object_writes cs (remain, s) = (acc, remain', s') \<Longrightarrow>
   w_open s' \<and> os_chunks (w_value s') = os_chunks (w_value s) @ acc \<and> os_closed (w_value s') = os_closed (w_value s) \<and>
   length (concat acc) + remain' = remain"
proof (induction cs arbitrary: remain s acc)
  case (Cons c cs)
  obtain res r1 s1 where w: "object_write c (remain, s) = (res, r1, s1)" by (metis prod_cases3)
  obtain acc1 where rest: "object_writes cs (r1, s1) = (acc1, remain', s')" and acc: "acc = (case res of Inr _ \<Rightarrow> [c] | Inl _ \<Rightarrow> []) @ acc1"
    using Cons.prems(2) by (auto simp: w split: prod.splits)
  have step: "w_open s1" "os_closed (w_value s1) = os_closed (w_value s)"
      "os_chunks (w_value s1) = os_chunks (w_value s) @ (case res of Inr _ \<Rightarrow> [c] | Inl _ \<Rightarrow> [])"
      "length (concat (case res of Inr _ \<Rightarrow> [c] | Inl _ \<Rightarrow> [])) + r1 = remain"
    using w Cons.prems(1) by (auto simp: object_write_def Let_def with_mut_def notify_def split: if_splits)
  from Cons.IH [OF step(1) rest] step show ?case by (simp add: acc)
qed simp

lemma object_complete_or_short:
  assumes "object_writes cs (sz, watched_new object_state_default) = (acc, remain, s)"
  shows "object_read_all (object_writer_drop (remain, s)) 0 [] =
      (if remain = 0 then Ready (Inr (concat acc)) else Ready (Inl SSize)) \<and> length (concat acc) + remain = sz"
  using object_writes_chunks [OF _ assms]
  by (auto simp: watched_new_def object_state_default_def object_read_all_eq object_writer_drop_def with_mut_def notify_def drop_half_def
      nothing_left_def modified_def)

text \<open>An object written in one piece reads back as it was.\<close>

lemma subgroup_write_reads_back:
  assumes "subgroup_write payload cell (next_id, s) = (Inr chunks, next', s')"
  shows "object_read_all chunks 0 [] = Ready (Inr payload) \<and>
    (\<exists>h. gs_objects (w_value s') = gs_objects (w_value s) @ [h] \<and> next_id = Some (so_object_id (oh_info h)))"
proof -
  obtain oid where oid: "next_id = Some oid" using assms by (cases next_id) (simp_all add: subgroup_write_def subgroup_create_def)
  obtain res next1 s1 where c: "create_with_id oid (length payload) None cell (next_id, s) = (res, next1, s1)" by (metis prod_cases3)
  show ?thesis
    using assms oid c
    by (auto simp: subgroup_write_def subgroup_create_def create_with_id_def object_write_def object_writer_drop_def
        Let_def with_mut_def notify_def drop_half_def watched_new_def object_state_default_def object_read_all_eq
        nothing_left_def modified_def split: if_splits)
qed

lemma short_object_never_complete:
  assumes "chunks_ok promised remain s" and "w_open s" and "object_read_all (object_writer_drop (remain, s)) 0 [] = Ready (Inr bs)"
  shows "remain = 0 \<and> bs = concat (os_chunks (w_value s)) \<and> length bs = promised"
  using assms
  by (auto simp: object_read_all_eq object_writer_drop_def chunks_ok_def with_mut_def notify_def drop_half_def
      nothing_left_def modified_def split: if_splits)

end
