(* ===== verification/Serve_Streams.thy ===== *)
theory Serve_Streams
  imports Serve "HOL-Library.Multiset"
begin

text \<open>
  The two other ways to serve a track (\<^verbatim>\<open>moq-transport/src/serve/stream.rs\<close> and \<^verbatim>\<open>object.rs\<close>): as
  one stream of groups, where a reader always jumps to the newest group, and as unordered
  objects of the newest group, which a reader takes from a priority queue. The chunks of an
  object are those of \<^verbatim>\<open>Serve\<close>; an index past the end of a vector panics and is the
  outcome \<open>None\<close>.
\<close>

section \<open>Stream of groups\<close>

record stream_group =
  sg_group_id :: u64
  sg_cell :: nat

record stream_state =
  st_latest :: "stream_group option"
  st_epoch :: nat
  st_closed :: "serve_error option"

definition stream_state_default :: stream_state where
  "stream_state_default = \<lparr>st_latest = None, st_epoch = 0, st_closed = None\<rparr>"

definition stream_create :: "u64 \<Rightarrow> nat \<Rightarrow> stream_state watched \<Rightarrow> (serve_error + stream_group) \<times> stream_state watched" where
  "stream_create gid cell s =
     (if \<not> w_open s then (Inl SCancel, s)
      else if (case st_latest (w_value s) of None \<Rightarrow> False | Some g \<Rightarrow> sg_group_id g > gid)
      then (Inl SDuplicate, snd (notify s))
      else
        let g = \<lparr>sg_group_id = gid, sg_cell = cell\<rparr> in
        (Inr g, snd (notify (s\<lparr>w_value := (w_value s)\<lparr>st_latest := Some g, st_epoch := st_epoch (w_value s) + 1\<rparr>\<rparr>))))"

text \<open>The increment wraps in a release build; the wrapped id is then below the latest one.\<close>

definition stream_append :: "nat \<Rightarrow> stream_state watched \<Rightarrow> (serve_error + stream_group) \<times> stream_state watched" where
  "stream_append cell s =
     stream_create (case st_latest (w_value s) of None \<Rightarrow> 0 | Some g \<Rightarrow> sg_group_id g + 1) cell s"

text \<open>A stream writer can be cloned: closing one handle leaves the half to the others.\<close>

definition stream_close :: "serve_error \<Rightarrow> stream_state watched \<Rightarrow> (serve_error + unit) \<times> stream_state watched" where
  "stream_close = close_with st_closed (\<lambda>e st. st\<lparr>st_closed := Some e\<rparr>)"

definition stream_next :: "stream_state watched \<Rightarrow> nat \<Rightarrow> (serve_error + stream_group option) round option \<times> nat" where
  "stream_next s epoch =
     (if epoch \<noteq> st_epoch (w_value s)
      then (map_option (\<lambda>g. Ready (Inr (Some g))) (st_latest (w_value s)), st_epoch (w_value s))
      else (Some (nothing_left (st_closed (w_value s)) s), epoch))"

definition stream_latest :: "(nat \<Rightarrow> u64) \<Rightarrow> stream_state \<Rightarrow> (u64 \<times> u64) option" where
  "stream_latest latest_object_id st = map_option (\<lambda>g. (sg_group_id g, latest_object_id (sg_cell g))) (st_latest st)"

definition stream_is_closed :: "stream_state watched \<Rightarrow> bool" where
  "stream_is_closed s \<longleftrightarrow> st_closed (w_value s) \<noteq> None \<or> modified s = None"

section \<open>Objects of a stream group\<close>

record stream_object =
  sto_object_id :: u64
  sto_size :: nat
  sto_status :: object_status

record stream_object_handle =
  sth_info :: stream_object
  sth_cell :: nat

record stream_group_state =
  sgs_objects :: "stream_object_handle list"
  sgs_closed :: "serve_error option"

definition stream_group_state_default :: stream_group_state where
  "stream_group_state_default = \<lparr>sgs_objects = [], sgs_closed = None\<rparr>"

text \<open>The writer is its \<^verbatim>\<open>next_object_id\<close>, which no operation changes.\<close>

definition stream_group_create ::
    "nat \<Rightarrow> nat \<Rightarrow> u64 \<times> stream_group_state watched \<Rightarrow>
     (serve_error + stream_object_handle) \<times> u64 \<times> stream_group_state watched" where
  "stream_group_create sz cell g =
     (case g of (next_id, s) \<Rightarrow>
        let h = \<lparr>sth_info = \<lparr>sto_object_id = next_id, sto_size = sz, sto_status = NormalObject\<rparr>, sth_cell = cell\<rparr> in
        case with_mut (\<lambda>st. st\<lparr>sgs_objects := sgs_objects st @ [h]\<rparr>) s of
          None \<Rightarrow> (Inl SCancel, next_id, s)
        | Some (_, s) \<Rightarrow> (Inr h, next_id, s))"

definition stream_group_close :: "serve_error \<Rightarrow> stream_group_state watched \<Rightarrow> (serve_error + unit) \<times> stream_group_state watched" where
  "stream_group_close = close_and_drop sgs_closed (\<lambda>e st. st\<lparr>sgs_closed := Some e\<rparr>)"

text \<open>\<^verbatim>\<open>next\<close> advances the index before it uses it.\<close>

definition stream_group_next ::
    "stream_group_state watched \<Rightarrow> nat \<Rightarrow> (serve_error + stream_object_handle option) round option \<times> nat" where
  "stream_group_next s index =
     (let objects = sgs_objects (w_value s) in
      if index < length objects
      then let index = index + 1 in
        (if index < length objects then Some (Ready (Inr (Some (objects ! index)))) else None, index)
      else (Some (nothing_left (sgs_closed (w_value s)) s), index))"

definition stream_group_latest_object_id :: "stream_group_state \<Rightarrow> u64" where
  "stream_group_latest_object_id st =
     (if sgs_objects st = [] then 0 else sto_object_id (sth_info (last (sgs_objects st))))"

section \<open>Chunks of a stream object\<close>

definition stream_object_write :: "bytes \<Rightarrow> nat \<times> object_state watched \<Rightarrow> (serve_error + unit) \<times> nat \<times> object_state watched" where
  "stream_object_write chunk g =
     (case g of (remaining, s) \<Rightarrow>
        if length chunk > remaining then (Inl SSize, remaining, s)
        else
          let remaining = remaining - length chunk in
          case with_mut (\<lambda>st. st\<lparr>os_chunks := os_chunks st @ [chunk]\<rparr>) s of
            None \<Rightarrow> (Inl SCancel, remaining, s)
          | Some (_, s) \<Rightarrow> (Inr (), remaining, s))"

text \<open>Unlike a subgroup's object, a stream object closed early keeps its own error when it is dropped.\<close>

definition stream_object_drop :: "nat \<times> object_state watched \<Rightarrow> object_state watched" where
  "stream_object_drop g =
     (case g of (remaining, s) \<Rightarrow>
        snd (drop_half
          (if remaining = 0 \<or> os_closed (w_value s) \<noteq> None then s
           else case with_mut (\<lambda>st. st\<lparr>os_closed := Some SSize\<rparr>) s of None \<Rightarrow> s | Some (_, s) \<Rightarrow> s)))"

definition stream_object_close :: "serve_error \<Rightarrow> nat \<times> object_state watched \<Rightarrow> (serve_error + unit) \<times> object_state watched" where
  "stream_object_close err g =
     (case g of (remaining, s) \<Rightarrow>
        case close_with os_closed (\<lambda>e st. st\<lparr>os_closed := Some e\<rparr>) err s of
          (res, s) \<Rightarrow> (res, stream_object_drop (remaining, s)))"

definition stream_object_read :: "object_state watched \<Rightarrow> nat \<Rightarrow> (serve_error + bytes option) round \<times> nat" where
  "stream_object_read s index =
     (if index < length (os_chunks (w_value s))
      then (Ready (Inr (Some (os_chunks (w_value s) ! index))), index + 1)
      else (nothing_left (os_closed (w_value s)) s, index))"

definition stream_group_write ::
    "bytes \<Rightarrow> nat \<Rightarrow> u64 \<times> stream_group_state watched \<Rightarrow>
     (serve_error + object_state watched) \<times> u64 \<times> stream_group_state watched" where
  "stream_group_write payload cell g =
     (case stream_group_create (length payload) cell g of
        (Inl e, g) \<Rightarrow> (Inl e, g)
      | (Inr h, g) \<Rightarrow>
          (case stream_object_write payload (sto_size (sth_info h), watched_new object_state_default) of
             (Inl e, _) \<Rightarrow> (Inl e, g)
           | (Inr _, ow) \<Rightarrow> (Inr (stream_object_drop ow), g)))"

interpretation stream_chunks_in_order: cursor_reader os_chunks stream_object_read
  by unfold_locales (auto simp: stream_object_read_def)

section \<open>What the stream reader sees\<close>

text \<open>The group ids a stream writer was granted do not decrease, and a reader that looks gets the newest.\<close>

definition stream_ok :: "stream_group list \<Rightarrow> stream_state \<Rightarrow> bool" where
  "stream_ok hist st \<longleftrightarrow> st_epoch st = length hist \<and> sorted_wrt (\<le>) (map sg_group_id hist) \<and>
     st_latest st = (if hist = [] then None else Some (last hist))"

lemma stream_ok_default: "stream_ok [] stream_state_default"
  by (simp add: stream_ok_def stream_state_default_def)

lemma sorted_wrt_snoc_last:
  "sorted_wrt (\<le>) (xs :: 'a :: order list) \<Longrightarrow> (xs \<noteq> [] \<Longrightarrow> last xs \<le> x) \<Longrightarrow> sorted_wrt (\<le>) (xs @ [x])"
proof (cases "xs = []")
  case False
  assume sorted: "sorted_wrt (\<le>) xs" and le: "xs \<noteq> [] \<Longrightarrow> last xs \<le> x"
  have "y \<le> last xs" if "y \<in> set xs" for y
  proof -
    from False have "xs = butlast xs @ [last xs]" by simp
    with sorted that show ?thesis by (metis Un_iff empty_iff order_refl set_ConsD set_append sorted_wrt_append list.set(1) list.set_intros(1))
  qed
  with le [OF False] sorted show ?thesis by (auto simp: sorted_wrt_append intro: order_trans)
qed simp

lemma stream_create_ok:
  assumes "stream_ok hist (w_value s)" and "stream_create gid cell s = (res, s')"
  shows "stream_ok (hist @ (case res of Inr g \<Rightarrow> [g] | Inl _ \<Rightarrow> [])) (w_value s')"
proof -
  have "sorted_wrt (\<le>) (map sg_group_id (hist @ [\<lparr>sg_group_id = gid, sg_cell = cell\<rparr>]))"
    if "\<not> (case st_latest (w_value s) of None \<Rightarrow> False | Some g \<Rightarrow> sg_group_id g > gid)"
    using assms(1) that sorted_wrt_snoc_last [of "map sg_group_id hist" gid]
    by (auto simp: stream_ok_def last_map split: if_splits)
  with assms show ?thesis
    by (auto simp: stream_ok_def stream_create_def notify_def Let_def split: if_splits)
qed

lemma stream_next_newest:
  assumes "stream_ok hist (w_value s)" and "e \<le> length hist"
  shows "stream_next s e =
    (if e < length hist then (Some (Ready (Inr (Some (last hist)))), length hist)
     else (Some (nothing_left (st_closed (w_value s)) s), e))"
  using assms by (auto simp: stream_ok_def stream_next_def)

section \<open>Stream groups lose their first object and panic on their last\<close>

fun stream_group_writes :: "nat list \<Rightarrow> u64 \<times> stream_group_state watched \<Rightarrow> u64 \<times> stream_group_state watched" where
  "stream_group_writes [] g = g"
| "stream_group_writes (sz # szs) g = stream_group_writes szs (snd (stream_group_create sz 0 g))"

lemma stream_group_writes_ids:
  assumes "w_open s" and "stream_group_writes szs (n, s) = (n', s')"
  shows "n' = n \<and> w_open s' \<and>
    (\<exists>hs. sgs_objects (w_value s') = sgs_objects (w_value s) @ hs \<and> length hs = length szs \<and>
       (\<forall>h \<in> set hs. sto_object_id (sth_info h) = n))"
  using assms
proof (induction szs arbitrary: s)
  case (Cons sz szs)
  let ?h = "\<lparr>sth_info = \<lparr>sto_object_id = n, sto_size = sz, sto_status = NormalObject\<rparr>, sth_cell = 0\<rparr>"
  let ?s1 = "snd (notify (s\<lparr>w_value := (w_value s)\<lparr>sgs_objects := sgs_objects (w_value s) @ [?h]\<rparr>\<rparr>))"
  have step: "snd (stream_group_create sz 0 (n, s)) = (n, ?s1)"
    using Cons.prems(1) by (simp add: stream_group_create_def Let_def with_mut_def notify_def)
  have op: "w_open ?s1" and objs: "sgs_objects (w_value ?s1) = sgs_objects (w_value s) @ [?h]"
    using Cons.prems(1) by (simp_all add: notify_def)
  have run: "stream_group_writes szs (n, ?s1) = (n', s')"
    using Cons.prems(2) unfolding stream_group_writes.simps step .
  from Cons.IH [OF op run] obtain hs where "n' = n" "w_open s'"
    "sgs_objects (w_value s') = sgs_objects (w_value ?s1) @ hs" "length hs = length szs" "\<forall>h \<in> set hs. sto_object_id (sth_info h) = n"
    by blast
  then show ?case using objs by (auto intro!: exI [of _ "?h # hs"])
qed simp

lemma stream_group_next_shifted:
  "i + 1 < length (sgs_objects (w_value s)) \<Longrightarrow>
   stream_group_next s i = (Some (Ready (Inr (Some (sgs_objects (w_value s) ! (i + 1))))), i + 1)"
  by (simp add: stream_group_next_def Let_def)

lemma stream_group_next_panics:
  "sgs_objects (w_value s) \<noteq> [] \<Longrightarrow> fst (stream_group_next s (length (sgs_objects (w_value s)) - 1)) = None"
  by (simp add: stream_group_next_def Let_def)

section \<open>Objects in priority order\<close>

record object_info =
  oi_group_id :: u64
  oi_object_id :: u64
  oi_priority :: u8
  oi_status :: object_status

record object_reader =
  or_info :: object_info
  or_cell :: nat

record objects_state =
  ob_objects :: "object_reader list"
  ob_epoch :: nat
  ob_closed :: "serve_error option"

definition objects_state_default :: objects_state where
  "objects_state_default = \<lparr>ob_objects = [], ob_epoch = 0, ob_closed = None\<rparr>"

text \<open>An object of an older group gets a writer that no reader will ever see.\<close>

definition objects_push :: "object_reader \<Rightarrow> objects_state \<Rightarrow> objects_state" where
  "objects_push r st =
     (let gid = oi_group_id (or_info r) in
      case ob_objects st of
        [] \<Rightarrow> st\<lparr>ob_objects := [r], ob_epoch := ob_epoch st + 1\<rparr>
      | f # _ \<Rightarrow>
          if gid < oi_group_id (or_info f) then st
          else if gid > oi_group_id (or_info f) then st\<lparr>ob_objects := [r], ob_epoch := ob_epoch st + 1\<rparr>
          else st\<lparr>ob_objects := ob_objects st @ [r], ob_epoch := ob_epoch st + 1\<rparr>)"

definition objects_create ::
    "u64 \<Rightarrow> u64 \<Rightarrow> u8 \<Rightarrow> nat \<Rightarrow> objects_state watched \<Rightarrow> (serve_error + object_reader) \<times> objects_state watched" where
  "objects_create gid oid priority cell s =
     (let r = \<lparr>or_info = \<lparr>oi_group_id = gid, oi_object_id = oid, oi_priority = priority, oi_status = NormalObject\<rparr>, or_cell = cell\<rparr> in
      case with_mut (objects_push r) s of
        None \<Rightarrow> (Inl SCancel, s)
      | Some (_, s) \<Rightarrow> (Inr r, s))"

definition objects_close :: "serve_error \<Rightarrow> objects_state watched \<Rightarrow> (serve_error + unit) \<times> objects_state watched" where
  "objects_close = close_and_drop ob_closed (\<lambda>e st. st\<lparr>ob_closed := Some e\<rparr>)"

text \<open>\<^verbatim>\<open>Ord for ObjectReader\<close>: what the queue hands out first is the greatest.\<close>

definition reader_less :: "object_reader \<Rightarrow> object_reader \<Rightarrow> bool" where
  "reader_less a b \<longleftrightarrow>
     (let x = or_info a; y = or_info b in
      oi_priority y < oi_priority x \<or>
      oi_priority y = oi_priority x \<and>
        (oi_group_id x < oi_group_id y \<or>
         oi_group_id x = oi_group_id y \<and> oi_object_id y < oi_object_id x))"

text \<open>
  \<^verbatim>\<open>BinaryHeap::pop\<close> removes a greatest element; among equal ones, whose order the library does
  not promise, the model takes the one pushed first.
\<close>

fun heap_max :: "object_reader \<Rightarrow> object_reader list \<Rightarrow> object_reader" where
  "heap_max best [] = best"
| "heap_max best (r # rs) = heap_max (if reader_less best r then r else best) rs"

definition heap_pop :: "object_reader list \<Rightarrow> (object_reader \<times> object_reader list) option" where
  "heap_pop heap =
     (case heap of [] \<Rightarrow> None | r # rs \<Rightarrow> let m = heap_max r rs in Some (m, remove1 m heap))"

definition objects_next ::
    "objects_state watched \<Rightarrow> nat \<times> object_reader list \<Rightarrow>
     (serve_error + object_reader option) round \<times> nat \<times> object_reader list" where
  "objects_next s r =
     (case r of (epoch, pend) \<Rightarrow>
        let st = w_value s;
            pend = (if epoch < ob_epoch st
              then pend @ drop (length (ob_objects st) - (ob_epoch st - epoch)) (ob_objects st) else pend);
            epoch = max epoch (ob_epoch st) in
        case heap_pop pend of
          Some (ob, pend) \<Rightarrow> (Ready (Inr (Some ob)), epoch, pend)
        | None \<Rightarrow> (nothing_left (ob_closed st) s, epoch, pend))"

definition objects_latest :: "objects_state \<Rightarrow> (u64 \<times> u64) option" where
  "objects_latest st = max_pair (map (\<lambda>r. (oi_group_id (or_info r), oi_object_id (or_info r))) (ob_objects st))"

text \<open>An object's chunks are written without a promised size.\<close>

definition object_writer_write :: "bytes \<Rightarrow> object_state watched \<Rightarrow> (serve_error + unit) \<times> object_state watched" where
  "object_writer_write chunk s =
     (case with_mut (\<lambda>st. st\<lparr>os_chunks := os_chunks st @ [chunk]\<rparr>) s of
        None \<Rightarrow> (Inl SCancel, s)
      | Some (_, s) \<Rightarrow> (Inr (), s))"

definition object_writer_close :: "serve_error \<Rightarrow> object_state watched \<Rightarrow> (serve_error + unit) \<times> object_state watched" where
  "object_writer_close = close_and_drop os_closed (\<lambda>e st. st\<lparr>os_closed := Some e\<rparr>)"

definition object_reader_read :: "object_state watched \<Rightarrow> nat \<Rightarrow> (serve_error + bytes option) round \<times> nat" where
  "object_reader_read s index =
     (if index < length (os_chunks (w_value s))
      then (Ready (Inr (Some (os_chunks (w_value s) ! index))), index + 1)
      else (nothing_left (os_closed (w_value s)) s, index))"

interpretation object_chunks_in_order: cursor_reader os_chunks object_reader_read
  by unfold_locales (auto simp: object_reader_read_def)

subsection \<open>The queue is a priority queue\<close>

lemma reader_less_trans: "\<not> reader_less a b \<Longrightarrow> \<not> reader_less b c \<Longrightarrow> \<not> reader_less a c"
  by (auto simp: reader_less_def Let_def not_less)

lemma heap_max_in: "heap_max r rs \<in> set (r # rs)"
  by (induction rs arbitrary: r) (auto split: if_splits)

lemma heap_max_greatest: "x \<in> set (r # rs) \<Longrightarrow> \<not> reader_less (heap_max r rs) x"
proof (induction rs arbitrary: r x)
  case (Cons y ys)
  let ?b = "if reader_less r y then y else r"
  have top: "\<not> reader_less (heap_max ?b ys) ?b" using Cons.IH [of ?b ?b] by simp
  have "\<not> reader_less ?b r" "\<not> reader_less ?b y" by (auto simp: reader_less_def Let_def)
  then show ?case using Cons.prems Cons.IH [of x ?b] reader_less_trans [OF top] by auto
qed (simp add: reader_less_def Let_def)

lemma heap_pop_cases:
  "heap_pop heap = None \<and> heap = [] \<or>
   (\<exists>m rest. heap_pop heap = Some (m, rest) \<and> mset heap = add_mset m (mset rest) \<and> (\<forall>x \<in> set heap. \<not> reader_less m x))"
proof (cases heap)
  case (Cons r rs)
  let ?m = "heap_max r rs"
  have "mset heap = add_mset ?m (mset (remove1 ?m heap))" using heap_max_in [of r rs] Cons by (metis mset_remove1 insert_DiffM set_mset_mset)
  moreover have "\<forall>x \<in> set heap. \<not> reader_less ?m x" using heap_max_greatest Cons by blast
  ultimately show ?thesis using Cons by (simp add: heap_pop_def Let_def del: remove1.simps)
qed (simp add: heap_pop_def)

subsection \<open>Every object of the newest group reaches the reader once\<close>

text \<open>\<open>hist\<close> is every object pushed so far; the state holds its tail from position \<open>ob_epoch - length\<close> on.\<close>

definition objects_log_ok :: "object_reader list \<Rightarrow> objects_state \<Rightarrow> bool" where
  "objects_log_ok hist st \<longleftrightarrow> ob_epoch st = length hist \<and> length (ob_objects st) \<le> length hist \<and>
     ob_objects st = drop (length hist - length (ob_objects st)) hist"

definition objects_start :: "objects_state \<Rightarrow> nat" where
  "objects_start st = ob_epoch st - length (ob_objects st)"

definition objects_reader_ok ::
    "object_reader list \<Rightarrow> objects_state \<Rightarrow> object_reader list \<Rightarrow> nat \<times> object_reader list \<Rightarrow> bool" where
  "objects_reader_ok hist st reads r \<longleftrightarrow>
     (case r of (epoch, pend) \<Rightarrow> epoch \<le> length hist \<and>
        mset reads + mset pend \<subseteq># mset (take epoch hist) \<and>
        mset (drop (objects_start st) (take epoch hist)) \<subseteq># mset reads + mset pend)"

lemma objects_push_ok:
  assumes "objects_log_ok hist st"
  shows "objects_push r st = st \<or> objects_log_ok (hist @ [r]) (objects_push r st) \<and> objects_start st \<le> objects_start (objects_push r st)"
  using assms
  by (auto simp: objects_push_def objects_log_ok_def objects_start_def Let_def Suc_diff_le split: list.split)

lemma objects_reader_push:
  assumes "objects_reader_ok hist st reads r" and "objects_start st \<le> objects_start st'"
  shows "objects_reader_ok (hist @ [x]) st' reads r"
proof -
  obtain epoch pend where r: "r = (epoch, pend)" by (cases r)
  have le: "epoch \<le> length hist" using assms(1) by (simp add: objects_reader_ok_def r)
  have "drop (objects_start st') (take epoch hist) = drop (objects_start st' - objects_start st) (drop (objects_start st) (take epoch hist))"
    using assms(2) by simp
  then have "mset (drop (objects_start st') (take epoch hist)) \<subseteq># mset (drop (objects_start st) (take epoch hist))"
    by (metis append_take_drop_id mset_append mset_subset_eq_add_right)
  then show ?thesis using assms(1) le by (auto simp: objects_reader_ok_def r intro: subset_mset.order_trans)
qed

lemma objects_next_ok:
  assumes "objects_log_ok hist (w_value s)" and "objects_reader_ok hist (w_value s) reads r" and "objects_next s r = (res, r')"
  shows "objects_reader_ok hist (w_value s) (case res of Ready (Inr (Some x)) \<Rightarrow> reads @ [x] | _ \<Rightarrow> reads) r' \<and> fst r' = length hist"
proof -
  obtain epoch pend where r: "r = (epoch, pend)" by (cases r)
  let ?st = "w_value s"
  define new where "new = drop (length (ob_objects ?st) - (ob_epoch ?st - epoch)) (ob_objects ?st)"
  define pend1 where "pend1 = (if epoch < ob_epoch ?st then pend @ new else pend)"
  have ep: "ob_epoch ?st = length hist" and le: "epoch \<le> length hist" and len: "length (ob_objects ?st) \<le> length hist"
    and objs: "ob_objects ?st = drop (length hist - length (ob_objects ?st)) hist"
    using assms(1,2) by (simp_all add: objects_log_ok_def objects_reader_ok_def r)
  have start: "objects_start ?st = length hist - length (ob_objects ?st)" by (simp add: objects_start_def ep)
  have new: "new = drop (max epoch (objects_start ?st)) hist"
  proof -
    have "new = drop (length (ob_objects ?st) - (length hist - epoch)) (drop (objects_start ?st) hist)"
      unfolding new_def ep start by (subst objs) (rule refl)
    then show ?thesis using le len start by (simp add: max_def)
  qed
  have sub: "mset reads + mset pend \<subseteq># mset (take epoch hist)"
      "mset (drop (objects_start ?st) (take epoch hist)) \<subseteq># mset reads + mset pend"
    using assms(2) by (simp_all add: objects_reader_ok_def r)
  have split: "mset hist = mset (take epoch hist) + mset (drop epoch hist)" by (metis append_take_drop_id mset_append)
  have new_sub: "mset new \<subseteq># mset (drop epoch hist)"
  proof -
    have "new = drop (max epoch (objects_start ?st) - epoch) (drop epoch hist)" unfolding new by simp
    then show ?thesis by (metis append_take_drop_id mset_append mset_subset_eq_add_right)
  qed
  have ok1: "objects_reader_ok hist ?st reads (length hist, pend1)"
  proof (cases "epoch < ob_epoch ?st")
    case True
    have "mset reads + mset pend1 \<subseteq># mset hist"
      unfolding split using subset_mset.add_mono [OF sub(1) new_sub] True by (simp add: pend1_def add.assoc)
    moreover have "mset (drop (objects_start ?st) hist) = mset (drop (objects_start ?st) (take epoch hist)) + mset new"
    proof (cases "objects_start ?st \<le> epoch")
      case True
      have "drop (objects_start ?st) (take epoch hist @ drop epoch hist) = drop (objects_start ?st) (take epoch hist) @ drop epoch hist"
        unfolding drop_append using True le by simp
      then have "drop (objects_start ?st) hist = drop (objects_start ?st) (take epoch hist) @ drop epoch hist" by simp
      then show ?thesis using True by (simp add: new max_def)
    qed (simp add: new)
    ultimately show ?thesis using sub(2) True by (simp add: objects_reader_ok_def pend1_def add.assoc [symmetric])
  next
    case False
    with le ep have "epoch = length hist" by simp
    with assms(2) False show ?thesis by (simp add: r pend1_def)
  qed
  have nx: "objects_next s r = (case heap_pop pend1 of
      Some (x, rest) \<Rightarrow> (Ready (Inr (Some x)), length hist, rest)
    | None \<Rightarrow> (nothing_left (ob_closed ?st) s, length hist, pend1))"
  proof -
    have top: "max epoch (ob_epoch ?st) = length hist" using le ep by simp
    show ?thesis unfolding objects_next_def r Let_def case_prod_conv top pend1_def new_def by (rule refl)
  qed
  from heap_pop_cases [of pend1] show ?thesis
  proof (elim disjE exE conjE)
    fix m rest
    assume "heap_pop pend1 = Some (m, rest)" "mset pend1 = add_mset m (mset rest)"
    then show ?thesis using ok1 assms(3) nx by (auto simp: objects_reader_ok_def)
  next
    assume "heap_pop pend1 = None" "pend1 = []"
    then show ?thesis using ok1 assms(3) nx by (auto simp: nothing_left_def split: option.split)
  qed
qed

end
