(* ===== verification/Serve_Tracks.thy ===== *)
theory Serve_Tracks
  imports Serve_Streams
begin

text \<open>
  Tracks (\<^verbatim>\<open>moq-transport/src/serve/track.rs\<close>) and the collection of tracks of a broadcast
  (\<^verbatim>\<open>tracks.rs\<close>). Handles are shared: a store holds the state of every track, stream, subgroups
  and datagrams cell, and a reader or a writer is the number of its cell. Consuming a
  writer drops its half of the state.
\<close>

section \<open>Tracks\<close>

datatype track_reader_mode = StreamMode nat | SubgroupsMode nat | DatagramsMode nat

record track_state =
  tr_mode :: "track_reader_mode option"
  tr_closed :: "serve_error option"
  tr_window :: "u64 option"

definition track_state_default :: track_state where
  "track_state_default = \<lparr>tr_mode = None, tr_closed = None, tr_window = None\<rparr>"

record full_track_name =
  ftn_namespace :: track_namespace
  ftn_name :: track_name

record track_cell =
  tc_name :: full_track_name
  tc_state :: "track_state watched"

record serve_store =
  sv_tracks :: "track_cell list"
  sv_streams :: "stream_state watched list"
  sv_subgroups :: "(subgroups_writer \<times> subgroups_state watched) list"
  sv_datagrams :: "datagrams_state watched list"

text \<open>\<^verbatim>\<open>Track::produce\<close>: a new cell; its number is both the writer and the reader.\<close>

definition track_produce :: "full_track_name \<Rightarrow> serve_store \<Rightarrow> nat \<times> serve_store" where
  "track_produce name sv =
     (length (sv_tracks sv),
      sv\<lparr>sv_tracks := sv_tracks sv @ [\<lparr>tc_name = name, tc_state = watched_new track_state_default\<rparr>]\<rparr>)"

abbreviation track_at :: "serve_store \<Rightarrow> nat \<Rightarrow> track_state watched" where
  "track_at sv t \<equiv> tc_state (sv_tracks sv ! t)"

definition put_track :: "nat \<Rightarrow> track_state watched \<Rightarrow> serve_store \<Rightarrow> serve_store" where
  "put_track t s sv = sv\<lparr>sv_tracks := (sv_tracks sv)[t := (sv_tracks sv ! t)\<lparr>tc_state := s\<rparr>]\<rparr>"

definition drop_track_writer :: "nat \<Rightarrow> serve_store \<Rightarrow> serve_store" where
  "drop_track_writer t sv = put_track t (snd (drop_half (track_at sv t))) sv"

definition track_set_history_window :: "u64 \<Rightarrow> nat \<Rightarrow> serve_store \<Rightarrow> (serve_error + unit) \<times> serve_store" where
  "track_set_history_window groups t sv =
     (case with_mut (\<lambda>st. st\<lparr>tr_window := Some groups\<rparr>) (track_at sv t) of
        None \<Rightarrow> (Inl SCancel, sv)
      | Some (_, s) \<Rightarrow> (Inr (), put_track t s sv))"

definition track_stream :: "u8 \<Rightarrow> nat \<Rightarrow> serve_store \<Rightarrow> (serve_error + nat) \<times> serve_store" where
  "track_stream priority t sv =
     (let cell = length (sv_streams sv) in
      case with_mut (\<lambda>st. st\<lparr>tr_mode := Some (StreamMode cell)\<rparr>) (track_at sv t) of
        None \<Rightarrow> (Inl SCancel, drop_track_writer t sv)
      | Some (_, s) \<Rightarrow>
          (Inr cell, drop_track_writer t (put_track t s
             (sv\<lparr>sv_streams := sv_streams sv @ [watched_new stream_state_default]\<rparr>))))"

definition track_subgroups :: "nat \<Rightarrow> serve_store \<Rightarrow> (serve_error + nat) \<times> serve_store" where
  "track_subgroups t sv =
     (let cell = length (sv_subgroups sv) in
      case with_mut (\<lambda>st. st\<lparr>tr_mode := Some (SubgroupsMode cell)\<rparr>) (track_at sv t) of
        None \<Rightarrow> (Inl SCancel, drop_track_writer t sv)
      | Some (_, s) \<Rightarrow>
          (case (case tr_window (w_value s) of
                   None \<Rightarrow> (Inr (), subgroups_writer_new)
                 | Some groups \<Rightarrow> set_history_window groups subgroups_writer_new) of
             (Inl e, w) \<Rightarrow> (Inl e, drop_track_writer t (put_track t s
               (sv\<lparr>sv_subgroups := sv_subgroups sv @ [(w, snd (drop_half (watched_new subgroups_state_default)))]\<rparr>)))
           | (Inr _, w) \<Rightarrow> (Inr cell, drop_track_writer t (put_track t s
               (sv\<lparr>sv_subgroups := sv_subgroups sv @ [(w, watched_new subgroups_state_default)]\<rparr>)))))"

definition track_subgroups_with_history :: "u64 \<Rightarrow> nat \<Rightarrow> serve_store \<Rightarrow> (serve_error + nat) \<times> serve_store" where
  "track_subgroups_with_history groups t sv =
     (case track_set_history_window groups t sv of
        (Inl e, sv) \<Rightarrow> (Inl e, drop_track_writer t sv)
      | (Inr _, sv) \<Rightarrow> track_subgroups t sv)"

text \<open>The history window is the depth of the datagram ring; \<^verbatim>\<open>usize\<close> holds every \<^verbatim>\<open>u64\<close>.\<close>

definition track_datagrams :: "nat \<Rightarrow> serve_store \<Rightarrow> (serve_error + nat) \<times> serve_store" where
  "track_datagrams t sv =
     (let cell = length (sv_datagrams sv);
          depth = (case tr_window (w_value (track_at sv t)) of None \<Rightarrow> 1 | Some groups \<Rightarrow> unat groups) in
      case with_mut (\<lambda>st. st\<lparr>tr_mode := Some (DatagramsMode cell)\<rparr>) (track_at sv t) of
        None \<Rightarrow> (Inl SCancel, drop_track_writer t sv)
      | Some (_, s) \<Rightarrow>
          (Inr cell, drop_track_writer t (put_track t s
             (sv\<lparr>sv_datagrams := sv_datagrams sv @ [watched_new (datagrams_with_depth depth)]\<rparr>))))"

definition track_close :: "serve_error \<Rightarrow> nat \<Rightarrow> serve_store \<Rightarrow> (serve_error + unit) \<times> serve_store" where
  "track_close err t sv =
     (case close_and_drop tr_closed (\<lambda>e st. st\<lparr>tr_closed := Some e\<rparr>) err (track_at sv t) of
        (res, s) \<Rightarrow> (res, put_track t s sv))"

subsection \<open>Readers of a track\<close>

definition track_mode_round :: "serve_store \<Rightarrow> nat \<Rightarrow> (serve_error + track_reader_mode) round" where
  "track_mode_round sv t =
     (let s = track_at sv t in
      case tr_mode (w_value s) of
        Some mode \<Rightarrow> Ready (Inr mode)
      | None \<Rightarrow>
          (case tr_closed (w_value s) of
             Some e \<Rightarrow> Ready (Inl e)
           | None \<Rightarrow> (case modified s of Some epoch \<Rightarrow> Wait epoch | None \<Rightarrow> Ready (Inl SDone))))"

definition track_closed_round :: "serve_store \<Rightarrow> nat \<Rightarrow> (serve_error + unit) round" where
  "track_closed_round sv t =
     (let s = track_at sv t in
      case tr_closed (w_value s) of
        Some e \<Rightarrow> Ready (Inl e)
      | None \<Rightarrow> (case modified s of Some epoch \<Rightarrow> Wait epoch | None \<Rightarrow> Ready (Inr ())))"

fun mode_is_closed :: "serve_store \<Rightarrow> track_reader_mode \<Rightarrow> bool" where
  "mode_is_closed sv (StreamMode c) = stream_is_closed (sv_streams sv ! c)"
| "mode_is_closed sv (SubgroupsMode c) = subgroups_is_closed (snd (sv_subgroups sv ! c))"
| "mode_is_closed sv (DatagramsMode c) = datagrams_is_closed (sv_datagrams sv ! c)"

text \<open>The ids of the last objects of stream groups and subgroups come from their own cells.\<close>

fun mode_latest :: "(nat \<Rightarrow> u64) \<Rightarrow> (nat \<Rightarrow> u64 option) \<Rightarrow> serve_store \<Rightarrow> track_reader_mode \<Rightarrow> (u64 \<times> u64) option" where
  "mode_latest stream_object subgroup_object sv (StreamMode c) = stream_latest stream_object (w_value (sv_streams sv ! c))"
| "mode_latest stream_object subgroup_object sv (SubgroupsMode c) =
     subgroups_latest subgroup_object (w_value (snd (sv_subgroups sv ! c)))"
| "mode_latest stream_object subgroup_object sv (DatagramsMode c) = datagrams_latest (w_value (sv_datagrams sv ! c))"

definition track_largest_location ::
    "(nat \<Rightarrow> u64) \<Rightarrow> (nat \<Rightarrow> u64 option) \<Rightarrow> serve_store \<Rightarrow> nat \<Rightarrow> location option" where
  "track_largest_location stream_object subgroup_object sv t =
     (case tr_mode (w_value (track_at sv t)) of
        None \<Rightarrow> None
      | Some mode \<Rightarrow> map_option (\<lambda>(g, ob). Location_new g ob) (mode_latest stream_object subgroup_object sv mode))"

definition track_history_window :: "serve_store \<Rightarrow> nat \<Rightarrow> u64 option" where
  "track_history_window sv t = tr_window (w_value (track_at sv t))"

definition track_is_closed :: "serve_store \<Rightarrow> nat \<Rightarrow> bool" where
  "track_is_closed sv t \<longleftrightarrow>
     (let s = track_at sv t in
      if tr_closed (w_value s) \<noteq> None then True
      else case tr_mode (w_value s) of
        Some mode \<Rightarrow> mode_is_closed sv mode
      | None \<Rightarrow> modified s = None)"

section \<open>Tracks of a broadcast\<close>

record tracks =
  tk_namespace :: track_namespace
  tk_state :: "(full_track_name \<rightharpoonup> nat) watched"
  tk_queue :: "nat queue"

definition tracks_produce :: "track_namespace \<Rightarrow> tracks" where
  "tracks_produce ns = \<lparr>tk_namespace = ns, tk_state = watched_new Map.empty, tk_queue = queue_new\<rparr>"

text \<open>The writer of a track that could not be entered is dropped with its half.\<close>

definition tracks_create :: "track_name \<Rightarrow> tracks \<times> serve_store \<Rightarrow> nat option \<times> tracks \<times> serve_store" where
  "tracks_create name ts =
     (case ts of (tk, sv) \<Rightarrow>
        let full = \<lparr>ftn_namespace = tk_namespace tk, ftn_name = name\<rparr> in
        case track_produce full sv of (t, sv) \<Rightarrow>
          case with_mut (\<lambda>m. m(full \<mapsto> t)) (tk_state tk) of
            None \<Rightarrow> (None, tk, drop_track_writer t sv)
          | Some (_, s) \<Rightarrow> (Some t, tk\<lparr>tk_state := s\<rparr>, sv))"

definition tracks_remove :: "full_track_name \<Rightarrow> tracks \<Rightarrow> nat option \<times> tracks" where
  "tracks_remove full tk =
     (case with_mut (\<lambda>m. m(full := None)) (tk_state tk) of
        None \<Rightarrow> (None, tk)
      | Some (_, s) \<Rightarrow> (w_value (tk_state tk) full, tk\<lparr>tk_state := s\<rparr>))"

definition tracks_get_track_reader :: "full_track_name \<Rightarrow> tracks \<times> serve_store \<Rightarrow> nat option" where
  "tracks_get_track_reader full ts =
     (case ts of (tk, sv) \<Rightarrow>
        case w_value (tk_state tk) full of
          Some t \<Rightarrow> if \<not> track_is_closed sv t then Some t else None
        | None \<Rightarrow> None)"

definition tracks_subscribe :: "full_track_name \<Rightarrow> tracks \<times> serve_store \<Rightarrow> nat option \<times> tracks \<times> serve_store" where
  "tracks_subscribe full ts =
     (case ts of (tk, sv) \<Rightarrow>
        case tracks_get_track_reader full (tk, sv) of
          Some t \<Rightarrow> (Some t, tk, sv)
        | None \<Rightarrow>
            if \<not> w_open (tk_state tk) then (None, tk, sv)
            else
              case track_produce full sv of (t, sv) \<Rightarrow>
                case queue_push t (tk_queue tk) of
                  (Inl _, _, q) \<Rightarrow>
                    (None,
                     tk\<lparr>tk_state := snd (notify ((tk_state tk)\<lparr>w_value := (w_value (tk_state tk))(full := None)\<rparr>)), tk_queue := q\<rparr>,
                     drop_track_writer t sv)
                | (Inr _, _, q) \<Rightarrow>
                    (Some t,
                     tk\<lparr>tk_state := snd (notify ((tk_state tk)\<lparr>w_value := (w_value (tk_state tk))(full \<mapsto> t)\<rparr>)), tk_queue := q\<rparr>,
                     sv))"

definition tracks_request_next :: "tracks \<Rightarrow> nat pop_result \<times> tracks" where
  "tracks_request_next tk = (case queue_pop_try (tk_queue tk) of (r, _, q) \<Rightarrow> (r, tk\<lparr>tk_queue := q\<rparr>))"

text \<open>Dropping the request side closes the queue and every track still waiting in it.\<close>

definition tracks_request_drop :: "tracks \<times> serve_store \<Rightarrow> tracks \<times> serve_store" where
  "tracks_request_drop ts =
     (case ts of (tk, sv) \<Rightarrow>
        case queue_close (tk_queue tk) of (waiting, _, q) \<Rightarrow>
          (tk\<lparr>tk_queue := q\<rparr>, fold (\<lambda>t sv. snd (track_close SNotFoundWithId t sv)) waiting sv))"

section \<open>The writer's half after a mode is chosen\<close>

lemma put_track_at [simp]:
  "t < length (sv_tracks sv) \<Longrightarrow> track_at (put_track t s sv) t = s"
  "t \<noteq> u \<Longrightarrow> track_at (put_track t s sv) u = track_at sv u"
  by (simp_all add: put_track_def)

lemma put_track_keeps [simp]:
  "length (sv_tracks (put_track t s sv)) = length (sv_tracks sv)"
  "sv_streams (put_track t s sv) = sv_streams sv"
  "sv_subgroups (put_track t s sv) = sv_subgroups sv"
  "sv_datagrams (put_track t s sv) = sv_datagrams sv"
  by (simp_all add: put_track_def)

lemma put_track_name [simp]: "tc_name (sv_tracks (put_track t s sv) ! u) = tc_name (sv_tracks sv ! u)"
  by (cases "t < length (sv_tracks sv)"; cases "t = u") (simp_all add: put_track_def list_update_beyond)

lemma drop_track_writer_at [simp]:
  "t < length (sv_tracks sv) \<Longrightarrow> w_value (track_at (drop_track_writer t sv) t) = w_value (track_at sv t)"
  "t < length (sv_tracks sv) \<Longrightarrow> \<not> w_open (track_at (drop_track_writer t sv) t)"
  "t \<noteq> u \<Longrightarrow> track_at (drop_track_writer t sv) u = track_at sv u"
  by (simp_all add: drop_track_writer_def drop_half_def notify_def)

lemma drop_track_writer_keeps [simp]:
  "length (sv_tracks (drop_track_writer t sv)) = length (sv_tracks sv)"
  "tc_name (sv_tracks (drop_track_writer t sv) ! u) = tc_name (sv_tracks sv ! u)"
  "sv_streams (drop_track_writer t sv) = sv_streams sv"
  "sv_subgroups (drop_track_writer t sv) = sv_subgroups sv"
  "sv_datagrams (drop_track_writer t sv) = sv_datagrams sv"
  by (simp_all add: drop_track_writer_def)

lemma with_mut_value: "with_mut f s = Some (woken, s') \<Longrightarrow> w_value s' = f (w_value s) \<and> w_open s' \<and> w_open s"
  by (auto simp: with_mut_def notify_def split: if_splits)

text \<open>A track in subgroups mode: its subgroups are open for writing, the track's own state is not.\<close>

lemma track_subgroups_mode:
  assumes "t < length (sv_tracks sv)" and "track_subgroups t sv = (Inr c, sv')"
  shows "tr_mode (w_value (track_at sv' t)) = Some (SubgroupsMode c) \<and> \<not> w_open (track_at sv' t) \<and>
    tr_closed (w_value (track_at sv' t)) = tr_closed (w_value (track_at sv t)) \<and>
    c < length (sv_subgroups sv') \<and> snd (sv_subgroups sv' ! c) = watched_new subgroups_state_default \<and>
    sw_history_window (fst (sv_subgroups sv' ! c)) = tr_window (w_value (track_at sv t))"
  using assms
  by (auto simp: track_subgroups_def Let_def set_history_window_def subgroups_writer_new_def
      split: option.splits if_splits dest!: with_mut_value)

lemma mode_chosen_resolves_closed:
  assumes "t < length (sv_tracks sv)" and "tr_closed (w_value (track_at sv t)) = None" and "track_subgroups t sv = (Inr c, sv')"
  shows "track_closed_round sv' t = Ready (Inr ()) \<and> \<not> track_is_closed sv' t"
  using track_subgroups_mode [OF assms(1,3)] assms(2)
  by (simp add: track_closed_round_def track_is_closed_def Let_def modified_def subgroups_is_closed_def
      watched_new_def subgroups_state_default_def)

section \<open>Steps of a broadcast\<close>

text \<open>
  What can happen to a broadcast: its writer creates and removes tracks, readers subscribe,
  the request side takes a queued track or is dropped, whoever holds a track's writer picks
  its mode or closes it, and readers of a track go away. The writer of a queued track is in
  the queue, so nobody else can use it. The last writer or the last reader of the broadcast may
  go, and the contents of the modes may change in any way, by their writers' objects and
  by their closing.
\<close>

abbreviation queued :: "tracks \<Rightarrow> nat list" where
  "queued tk \<equiv> map fst (w_value (tk_queue tk))"

inductive tracks_step :: "tracks \<times> serve_store \<Rightarrow> tracks \<times> serve_store \<Rightarrow> bool" where
  step_create: "tracks_step ts (snd (tracks_create name ts))"
| step_remove: "tracks_step (tk, sv) (snd (tracks_remove full tk), sv)"
| step_subscribe: "tracks_step ts (snd (tracks_subscribe full ts))"
| step_next: "tracks_step (tk, sv) (snd (tracks_request_next tk), sv)"
| step_request_drop: "tracks_step ts (tracks_request_drop ts)"
| step_stream: "t < length (sv_tracks sv) \<Longrightarrow> t \<notin> set (queued tk) \<Longrightarrow> tracks_step (tk, sv) (tk, snd (track_stream priority t sv))"
| step_subgroups: "t < length (sv_tracks sv) \<Longrightarrow> t \<notin> set (queued tk) \<Longrightarrow> tracks_step (tk, sv) (tk, snd (track_subgroups t sv))"
| step_datagrams: "t < length (sv_tracks sv) \<Longrightarrow> t \<notin> set (queued tk) \<Longrightarrow> tracks_step (tk, sv) (tk, snd (track_datagrams t sv))"
| step_close: "t < length (sv_tracks sv) \<Longrightarrow> t \<notin> set (queued tk) \<Longrightarrow> tracks_step (tk, sv) (tk, snd (track_close err t sv))"
| step_window: "t < length (sv_tracks sv) \<Longrightarrow> t \<notin> set (queued tk) \<Longrightarrow> tracks_step (tk, sv) (tk, snd (track_set_history_window groups t sv))"
| step_windowed: "t < length (sv_tracks sv) \<Longrightarrow> t \<notin> set (queued tk) \<Longrightarrow> tracks_step (tk, sv) (tk, snd (track_subgroups_with_history groups t sv))"
| step_readers_gone: "t < length (sv_tracks sv) \<Longrightarrow> tracks_step (tk, sv) (tk, put_track t (snd (drop_half (track_at sv t))) sv)"
| step_state_half: "tracks_step (tk, sv) (tk\<lparr>tk_state := snd (drop_half (tk_state tk))\<rparr>, sv)"
| step_mode: "tracks_step (tk, sv) (tk, sv\<lparr>sv_streams := strs, sv_subgroups := sgs, sv_datagrams := dgs\<rparr>)"

definition store_new :: serve_store where
  "store_new = \<lparr>sv_tracks = [], sv_streams = [], sv_subgroups = [], sv_datagrams = []\<rparr>"

inductive tracks_reachable :: "tracks \<times> serve_store \<Rightarrow> bool" where
  tracks_start: "tracks_reachable (tracks_produce ns, store_new)"
| tracks_next: "tracks_reachable s \<Longrightarrow> tracks_step s s' \<Longrightarrow> tracks_reachable s'"

text \<open>
  Cached readers are filed under their own names, and a queued track is there once, still
  without a mode and not closed.
\<close>

definition waiting_ok :: "serve_store \<Rightarrow> nat \<Rightarrow> bool" where
  "waiting_ok sv t \<longleftrightarrow> t < length (sv_tracks sv) \<and> tr_mode (w_value (track_at sv t)) = None \<and> tr_closed (w_value (track_at sv t)) = None"

definition tracks_ok :: "tracks \<times> serve_store \<Rightarrow> bool" where
  "tracks_ok ts \<longleftrightarrow>
     (case ts of (tk, sv) \<Rightarrow>
        (\<forall>full t. w_value (tk_state tk) full = Some t \<longrightarrow> t < length (sv_tracks sv) \<and> tc_name (sv_tracks sv ! t) = full) \<and>
        distinct (queued tk) \<and> (\<forall>t \<in> set (queued tk). waiting_ok sv t))"

lemma tracks_ok_start: "tracks_ok (tracks_produce ns, store_new)"
  by (simp add: tracks_ok_def tracks_produce_def queue_new_def watched_new_def)

text \<open>Operations on one track keep the invariant when they leave queued tracks alone.\<close>

lemma tracks_ok_frame:
  assumes "tracks_ok (tk, sv)" and "length (sv_tracks sv) \<le> length (sv_tracks sv')"
    and "\<And>u. u < length (sv_tracks sv) \<Longrightarrow> tc_name (sv_tracks sv' ! u) = tc_name (sv_tracks sv ! u)"
    and "\<And>u. u \<in> set (queued tk) \<Longrightarrow> w_value (track_at sv' u) = w_value (track_at sv u)"
  shows "tracks_ok (tk, sv')"
  using assms by (fastforce simp: tracks_ok_def waiting_ok_def)

lemma track_produce_at:
  assumes "track_produce full sv = (t, sv')"
  shows "t = length (sv_tracks sv)" "length (sv_tracks sv') = Suc (length (sv_tracks sv))"
    "u < length (sv_tracks sv) \<Longrightarrow> sv_tracks sv' ! u = sv_tracks sv ! u"
    "sv_tracks sv' ! t = \<lparr>tc_name = full, tc_state = watched_new track_state_default\<rparr>"
  using assms by (auto simp: track_produce_def nth_append)

lemma tracks_ok_produced:
  assumes "tracks_ok (tk, sv)" and "track_produce full sv = (t, sv')"
  shows "tracks_ok (tk, sv')"
proof (rule tracks_ok_frame [OF assms(1)])
  fix u
  assume "u \<in> set (queued tk)"
  with assms(1) have "u < length (sv_tracks sv)" by (auto simp: tracks_ok_def waiting_ok_def)
  then show "w_value (track_at sv' u) = w_value (track_at sv u)" using track_produce_at(3) [OF assms(2)] by simp
qed (use track_produce_at [OF assms(2)] in auto)

lemma tracks_ok_cached:
  "tracks_ok (tk, sv) \<Longrightarrow> t < length (sv_tracks sv) \<Longrightarrow> tc_name (sv_tracks sv ! t) = full \<Longrightarrow>
   tracks_ok (tk\<lparr>tk_state := snd (notify ((tk_state tk)\<lparr>w_value := (w_value (tk_state tk))(full \<mapsto> t)\<rparr>))\<rparr>, sv)"
  by (auto simp: tracks_ok_def notify_def)

lemma tracks_ok_uncached:
  "tracks_ok (tk, sv) \<Longrightarrow>
   tracks_ok (tk\<lparr>tk_state := snd (notify ((tk_state tk)\<lparr>w_value := (w_value (tk_state tk))(full := None)\<rparr>))\<rparr>, sv)"
  by (auto simp: tracks_ok_def notify_def)

lemma tracks_ok_queued:
  "tracks_ok (tk, sv) \<Longrightarrow> t \<notin> set (queued tk) \<Longrightarrow> waiting_ok sv t \<Longrightarrow>
   tracks_ok (tk\<lparr>tk_queue := snd (notify ((tk_queue tk)\<lparr>w_value := w_value (tk_queue tk) @ [(t, None)]\<rparr>))\<rparr>, sv)"
  by (auto simp: tracks_ok_def notify_def)

lemma tracks_ok_dropped:
  "tracks_ok (tk, sv) \<Longrightarrow> t < length (sv_tracks sv) \<Longrightarrow> tracks_ok (tk, drop_track_writer t sv)"
  by (erule tracks_ok_frame) (simp_all, metis drop_track_writer_at(1,3))

lemma track_mode_step_frame:
  assumes "t < length (sv_tracks sv)"
    and "sv' = snd (track_stream priority t sv) \<or> sv' = snd (track_subgroups t sv) \<or> sv' = snd (track_datagrams t sv) \<or>
      sv' = snd (track_close err t sv) \<or> sv' = snd (track_set_history_window groups t sv) \<or>
      sv' = snd (track_subgroups_with_history groups t sv)"
  shows "length (sv_tracks sv') = length (sv_tracks sv)" "tc_name (sv_tracks sv' ! u) = tc_name (sv_tracks sv ! u)"
    "u \<noteq> t \<Longrightarrow> track_at sv' u = track_at sv u"
  using assms
  by (auto simp: track_stream_def track_subgroups_def track_datagrams_def track_close_def Let_def
      track_set_history_window_def track_subgroups_with_history_def drop_track_writer_def put_track_def nth_list_update split: option.split sum.split prod.split)

lemma writer_step_ok:
  assumes "t < length (sv_tracks sv)" and "t \<notin> set (queued tk)" and "tracks_ok (tk, sv)"
    and "sv' = snd (track_stream priority t sv) \<or> sv' = snd (track_subgroups t sv) \<or> sv' = snd (track_datagrams t sv) \<or>
      sv' = snd (track_close err t sv) \<or> sv' = snd (track_set_history_window groups t sv) \<or>
      sv' = snd (track_subgroups_with_history groups t sv)"
  shows "tracks_ok (tk, sv')"
proof (rule tracks_ok_frame [OF assms(3)])
  fix u
  assume "u \<in> set (queued tk)"
  with assms(2) have "u \<noteq> t" by blast
  then show "w_value (track_at sv' u) = w_value (track_at sv u)" using track_mode_step_frame(3) [OF assms(1,4)] by simp
qed (simp_all add: track_mode_step_frame [OF assms(1,4)])

lemma tracks_step_ok: "tracks_step s s' \<Longrightarrow> tracks_ok s \<Longrightarrow> tracks_ok s'"
proof (induction rule: tracks_step.induct)
  case (step_create ts name)
  obtain tk sv where ts: "ts = (tk, sv)" by (cases ts)
  let ?full = "\<lparr>ftn_namespace = tk_namespace tk, ftn_name = name\<rparr>"
  obtain t sv1 where p: "track_produce ?full sv = (t, sv1)" by (cases "track_produce ?full sv")
  note made = track_produce_at [OF p]
  have ok1: "tracks_ok (tk, sv1)" using tracks_ok_produced [OF _ p] step_create ts by simp
  show ?case
    using tracks_ok_cached [OF ok1, of t ?full] tracks_ok_dropped [OF ok1, of t] made
    by (auto simp: ts tracks_create_def Let_def p with_mut_def case_prod_beta)
next
  case (step_remove tk sv full)
  then show ?case using tracks_ok_uncached [OF step_remove, of full] by (auto simp: tracks_remove_def with_mut_def case_prod_beta)
next
  case (step_subscribe ts full)
  obtain tk sv where ts: "ts = (tk, sv)" by (cases ts)
  obtain t sv1 where p: "track_produce full sv = (t, sv1)" by (cases "track_produce full sv")
  note made = track_produce_at [OF p]
  have ok1: "tracks_ok (tk, sv1)" using tracks_ok_produced [OF _ p] step_subscribe ts by simp
  have fresh: "t \<notin> set (queued tk)" using step_subscribe made(1) by (auto simp: ts tracks_ok_def waiting_ok_def)
  have wait: "waiting_ok sv1 t" using made by (simp add: waiting_ok_def watched_new_def track_state_default_def)
  show ?case
  proof (cases "tracks_get_track_reader full (tk, sv)")
    case None
    show ?thesis
    proof (cases "w_open (tk_queue tk)")
      case True
      have "tracks_ok (tk\<lparr>tk_state := snd (notify ((tk_state tk)\<lparr>w_value := (w_value (tk_state tk))(full \<mapsto> t)\<rparr>))\<rparr>, sv1)"
        using tracks_ok_cached [OF ok1, of t full] made by simp
      from tracks_ok_queued [OF this, of t] fresh wait None True step_subscribe show ?thesis
        by (simp add: ts tracks_subscribe_def p queue_push_def with_mut_def case_prod_beta)
    next
      case False
      have "tracks_ok (tk, drop_track_writer t sv1)" using tracks_ok_dropped [OF ok1] made by simp
      from tracks_ok_uncached [OF this, of full] None False step_subscribe show ?thesis
        by (simp add: ts tracks_subscribe_def p queue_push_def with_mut_def)
    qed
  qed (use step_subscribe in \<open>simp add: ts tracks_subscribe_def\<close>)
next
  case (step_next tk sv)
  then show ?case
    by (cases "w_value (tk_queue tk)")
      (auto simp: tracks_request_next_def queue_pop_try_def with_mut_def notify_def tracks_ok_def split: prod.split)
next
  case (step_request_drop ts)
  obtain tk sv where ts: "ts = (tk, sv)" by (cases ts)
  have keep: "length (sv_tracks (fold (\<lambda>t sv. snd (track_close SNotFoundWithId t sv)) us sv)) = length (sv_tracks sv) \<and>
      (\<forall>u. tc_name (sv_tracks (fold (\<lambda>t sv. snd (track_close SNotFoundWithId t sv)) us sv) ! u) = tc_name (sv_tracks sv ! u))" for us
    by (induction us arbitrary: sv) (auto simp: track_close_def split: prod.split)
  show ?case
  proof (cases "w_open (tk_queue tk)")
    case True
    then show ?thesis using step_request_drop keep
      by (auto simp: ts tracks_ok_def tracks_request_drop_def queue_close_def with_mut_def drop_half_def notify_def)
  next
    case False
    then show ?thesis using step_request_drop
      by (auto simp: ts tracks_ok_def tracks_request_drop_def queue_close_def with_mut_def drop_half_def notify_def)
  qed
next
  case (step_stream t sv tk priority)
  then show ?case using writer_step_ok by blast
next
  case (step_subgroups t sv tk)
  then show ?case using writer_step_ok by blast
next
  case (step_datagrams t sv tk)
  then show ?case using writer_step_ok by blast
next
  case (step_close t sv tk err)
  then show ?case using writer_step_ok by blast
next
  case (step_window t sv tk groups)
  then show ?case using writer_step_ok by blast
next
  case (step_windowed t sv tk groups)
  then show ?case using writer_step_ok by blast
next
  case (step_readers_gone t sv tk)
  then show ?case using tracks_ok_dropped by (simp add: drop_track_writer_def)
next
  case (step_state_half tk sv)
  then show ?case by (simp add: tracks_ok_def drop_half_def notify_def)
next
  case (step_mode tk sv strs sgs dgs)
  then show ?case by (simp add: tracks_ok_def waiting_ok_def)
qed

lemma tracks_reachable_ok: "tracks_reachable s \<Longrightarrow> tracks_ok s"
  by (induction rule: tracks_reachable.induct) (auto simp: tracks_ok_start intro: tracks_step_ok)

section \<open>What a subscriber gets\<close>

text \<open>A reader that is handed out is alive, has the name asked for and is the one cached.\<close>

lemma tracks_subscribe_some:
  assumes "tracks_ok (tk, sv)" and "tracks_subscribe full (tk, sv) = (Some t, tk', sv')"
  shows "t < length (sv_tracks sv') \<and> tc_name (sv_tracks sv' ! t) = full \<and> \<not> track_is_closed sv' t \<and>
    tracks_get_track_reader full (tk', sv') = Some t \<and>
    (tk' = tk \<and> sv' = sv \<or>
     t = length (sv_tracks sv) \<and> w_value (tk_queue tk') = w_value (tk_queue tk) @ [(t, None)] \<and> w_value (tk_state tk') = (w_value (tk_state tk))(full \<mapsto> t))"
proof (cases "tracks_get_track_reader full (tk, sv)")
  case None
  obtain u sv1 where p: "track_produce full sv = (u, sv1)" by (cases "track_produce full sv")
  note made = track_produce_at [OF p]
  have res: "t = u" "sv' = sv1" "w_value (tk_state tk') = (w_value (tk_state tk))(full \<mapsto> u)"
      "w_value (tk_queue tk') = w_value (tk_queue tk) @ [(u, None)]"
    using assms(2) None by (auto simp: tracks_subscribe_def p queue_push_def with_mut_def notify_def split: if_splits)
  have "\<not> track_is_closed sv1 u"
    using made(4) by (simp add: track_is_closed_def watched_new_def track_state_default_def modified_def)
  then show ?thesis using res made by (simp add: tracks_get_track_reader_def)
next
  case (Some u)
  then show ?thesis using assms
    by (auto simp: tracks_subscribe_def tracks_get_track_reader_def tracks_ok_def split: option.splits if_splits)
qed

lemma tracks_subscribe_none:
  "tracks_subscribe full (tk, sv) = (None, tk', sv') \<Longrightarrow> \<not> w_open (tk_state tk) \<or> \<not> w_open (tk_queue tk)"
  by (auto simp: tracks_subscribe_def queue_push_def with_mut_def split: option.splits if_splits prod.splits)

text \<open>Dropping the request side answers every waiting subscriber with a not-found error.\<close>

lemma fold_close_waiting:
  "distinct us \<Longrightarrow> \<forall>u \<in> set us. u < length (sv_tracks sv) \<Longrightarrow>
   \<forall>t. t < length (sv_tracks sv) \<longrightarrow> track_at (fold (\<lambda>t sv. snd (track_close SNotFoundWithId t sv)) us sv) t =
     (if t \<in> set us then snd (close_and_drop tr_closed (\<lambda>e st. st\<lparr>tr_closed := Some e\<rparr>) SNotFoundWithId (track_at sv t)) else track_at sv t)"
proof (induction us arbitrary: sv)
  case (Cons u us)
  let ?sv1 = "snd (track_close SNotFoundWithId u sv)"
  have at1: "track_at ?sv1 t = (if t = u then snd (close_and_drop tr_closed (\<lambda>e st. st\<lparr>tr_closed := Some e\<rparr>) SNotFoundWithId (track_at sv t)) else track_at sv t)"
    and len: "length (sv_tracks ?sv1) = length (sv_tracks sv)" for t
    using Cons.prems(2) by (auto simp: track_close_def split: prod.split)
  show ?case using Cons.IH [of ?sv1] Cons.prems at1 len by (auto simp del: track_close_def)
qed simp

lemma request_drop_answers:
  assumes "tracks_ok (tk, sv)" and "w_open (tk_queue tk)" and "t \<in> set (queued tk)" and "w_open (track_at sv t)"
    and "tracks_request_drop (tk, sv) = (tk', sv')"
  shows "track_mode_round sv' t = Ready (Inl SNotFoundWithId) \<and> track_is_closed sv' t"
proof -
  have sv': "sv' = fold (\<lambda>t sv. snd (track_close SNotFoundWithId t sv)) (queued tk) sv"
    using assms(2,5) by (auto simp: tracks_request_drop_def queue_close_def with_mut_def drop_half_def notify_def)
  have ok: "distinct (queued tk)" "\<forall>u \<in> set (queued tk). u < length (sv_tracks sv)" and t: "waiting_ok sv t"
    using assms(1,3) by (auto simp: tracks_ok_def waiting_ok_def)
  have "track_at sv' t = snd (close_and_drop tr_closed (\<lambda>e st. st\<lparr>tr_closed := Some e\<rparr>) SNotFoundWithId (track_at sv t))"
    using fold_close_waiting [OF ok] t assms(3) unfolding sv' by (simp add: waiting_ok_def)
  then show ?thesis using t assms(4)
    by (simp add: track_mode_round_def track_is_closed_def waiting_ok_def close_and_drop_def close_with_def with_mut_def
        notify_def drop_half_def Let_def)
qed

end
