(* ===== verification/Locals.thy ===== *)
theory Locals
  imports Serve_Tracks Retention "HOL-Library.AList"
begin

text \<open>
  The relay's registry of local namespaces and tracks (\<^verbatim>\<open>moq-relay-ietf/src/local.rs\<close>). Buckets
  are hash maps, here association lists in whatever order the map iterates. Locks are taken
  per operation, so an operation is one atomic step up to its \<^verbatim>\<open>await\<close>; a change that is
  broadcast after the lock is released is returned for the caller to send. Tracks live in
  the store of \<^verbatim>\<open>Serve_Tracks\<close> and their retention in the registry of \<^verbatim>\<open>Retention\<close>.
\<close>

section \<open>State\<close>

type_synonym scope_key = string

definition UNSCOPED :: scope_key where
  "UNSCOPED = []"

definition scope_key_of :: "string option \<Rightarrow> scope_key" where
  "scope_key_of scope = (case scope of None \<Rightarrow> UNSCOPED | Some s \<Rightarrow> s)"

definition scope_key_to_option :: "scope_key \<Rightarrow> string option" where
  "scope_key_to_option k = (if k = [] then None else Some k)"

text \<open>A source is the number of its request channel and, for FETCH, of its session.\<close>

record namespace_source =
  nsrc_requests :: nat
  nsrc_fetch :: "nat option"

text \<open>The weak reference to a remote source is its number; it upgrades while it has holders.\<close>

record namespace_entry =
  ne_local :: "namespace_source option"
  ne_remote :: "nat option"

record remote_source =
  rs_scope_key :: scope_key
  rs_namespace :: track_namespace
  rs_holders :: nat
  rs_dropped :: bool

datatype track_source = Published | Cache

record track_entry =
  te_reader :: nat
  te_source :: track_source
  te_retention :: "nat option"

record namespace_change =
  nc_scope :: "string option"
  nc_namespace :: track_namespace
  nc_added :: bool

datatype track_change =
    TrackAdded "string option" nat
  | TrackRemoved "string option" full_track_name

text \<open>A request channel delivers the writers sent to it until its receiver goes.\<close>

record request_channel =
  rc_open :: bool
  rc_writers :: "nat list"

type_synonym ('k, 'v) buckets = "scope_key \<Rightarrow> ('k \<times> 'v) list option"

record locals =
  lc_tracks :: "(full_track_name, track_entry) buckets"
  lc_namespaces :: "(track_namespace, namespace_entry) buckets"
  lc_sources :: "remote_source list"
  lc_retention :: "registry option"

definition locals_new :: locals where
  "locals_new = \<lparr>lc_tracks = Map.empty, lc_namespaces = Map.empty, lc_sources = [], lc_retention = None\<rparr>"

definition with_fetch_retention :: "registry \<Rightarrow> locals \<Rightarrow> locals" where
  "with_fetch_retention reg lc = lc\<lparr>lc_retention := Some reg\<rparr>"

subsection \<open>Two-level maps\<close>

definition bucket_of :: "('k, 'v) buckets \<Rightarrow> scope_key \<Rightarrow> ('k \<times> 'v) list" where
  "bucket_of m k = (case m k of None \<Rightarrow> [] | Some b \<Rightarrow> b)"

abbreviation entry_at :: "('k, 'v) buckets \<Rightarrow> scope_key \<Rightarrow> 'k \<Rightarrow> 'v option" where
  "entry_at m k x \<equiv> map_of (bucket_of m k) x"

definition put_entry :: "scope_key \<Rightarrow> 'k \<Rightarrow> 'v \<Rightarrow> ('k, 'v) buckets \<Rightarrow> ('k, 'v) buckets" where
  "put_entry k x v m = m(k \<mapsto> AList.update x v (bucket_of m k))"

text \<open>\<^verbatim>\<open>bucket.remove\<close> followed by the removal of an empty bucket.\<close>

definition remove_entry :: "scope_key \<Rightarrow> 'k \<Rightarrow> ('k, 'v) buckets \<Rightarrow> ('k, 'v) buckets" where
  "remove_entry k x m =
     (let b = AList.delete x (bucket_of m k) in m(k := (if b = [] then None else Some b)))"

text \<open>\<^verbatim>\<open>if bucket.is_empty()\<close> on its own.\<close>

definition tidy :: "scope_key \<Rightarrow> ('k, 'v) buckets \<Rightarrow> ('k, 'v) buckets" where
  "tidy k m = (if m k = Some [] then m(k := None) else m)"

section \<open>Namespaces\<close>

definition list_namespaces_matching :: "string option \<Rightarrow> track_namespace_prefix \<Rightarrow> locals \<Rightarrow> track_namespace list" where
  "list_namespaces_matching scope pre lc =
     filter (is_prefix_of pre) (map fst (bucket_of (lc_namespaces lc) (scope_key_of scope)))"

definition change_of :: "scope_key \<Rightarrow> track_namespace \<Rightarrow> bool \<Rightarrow> namespace_change" where
  "change_of k ns added = \<lparr>nc_scope = scope_key_to_option k, nc_namespace = ns, nc_added = added\<rparr>"

definition register_namespace_inner ::
    "string option \<Rightarrow> track_namespace \<Rightarrow> namespace_source \<Rightarrow> locals \<Rightarrow>
     (serve_error + unit) \<times> namespace_change option \<times> locals" where
  "register_namespace_inner scope ns src lc =
     (let k = scope_key_of scope in
      case entry_at (lc_namespaces lc) k ns of
        None \<Rightarrow>
          (Inr (), Some (change_of k ns True),
           lc\<lparr>lc_namespaces := put_entry k ns \<lparr>ne_local = Some src, ne_remote = None\<rparr> (lc_namespaces lc)\<rparr>)
      | Some e \<Rightarrow>
          if ne_local e \<noteq> None then (Inl SDuplicate, None, lc)
          else (Inr (), None, lc\<lparr>lc_namespaces := put_entry k ns (e\<lparr>ne_local := Some src\<rparr>) (lc_namespaces lc)\<rparr>))"

definition remote_alive :: "locals \<Rightarrow> nat option \<Rightarrow> bool" where
  "remote_alive lc r \<longleftrightarrow> (case r of None \<Rightarrow> False | Some i \<Rightarrow> rs_holders (lc_sources lc ! i) > 0)"

text \<open>\<^verbatim>\<open>register_remote_namespace\<close> returns the number of the source the registration holds.\<close>

definition register_remote_namespace ::
    "string option \<Rightarrow> track_namespace \<Rightarrow> locals \<Rightarrow> nat \<times> namespace_change option \<times> locals" where
  "register_remote_namespace scope ns lc =
     (let k = scope_key_of scope;
          i = length (lc_sources lc);
          source = \<lparr>rs_scope_key = k, rs_namespace = ns, rs_holders = 1, rs_dropped = False\<rparr> in
      case entry_at (lc_namespaces lc) k ns of
        None \<Rightarrow>
          (i, Some (change_of k ns True),
           lc\<lparr>lc_namespaces := put_entry k ns \<lparr>ne_local = None, ne_remote = Some i\<rparr> (lc_namespaces lc),
              lc_sources := lc_sources lc @ [source]\<rparr>)
      | Some e \<Rightarrow>
          if remote_alive lc (ne_remote e)
          then
            let j = the (ne_remote e) in
            (j, None, lc\<lparr>lc_sources := (lc_sources lc)[j := (lc_sources lc ! j)\<lparr>rs_holders := rs_holders (lc_sources lc ! j) + 1\<rparr>]\<rparr>)
          else
            (i, None,
             lc\<lparr>lc_namespaces := put_entry k ns (e\<lparr>ne_remote := Some i\<rparr>) (lc_namespaces lc),
                lc_sources := lc_sources lc @ [source]\<rparr>))"

text \<open>\<^verbatim>\<open>Drop for LocalNamespaceRegistration\<close>\<close>

definition namespace_registration_drop :: "scope_key \<Rightarrow> track_namespace \<Rightarrow> locals \<Rightarrow> namespace_change option \<times> locals" where
  "namespace_registration_drop k ns lc =
     (case entry_at (lc_namespaces lc) k ns of
        None \<Rightarrow> (None, lc\<lparr>lc_namespaces := tidy k (lc_namespaces lc)\<rparr>)
      | Some e \<Rightarrow>
          if ne_local e \<noteq> None \<and> \<not> remote_alive lc (ne_remote e)
          then (Some (change_of k ns False), lc\<lparr>lc_namespaces := remove_entry k ns (lc_namespaces lc)\<rparr>)
          else (None, lc\<lparr>lc_namespaces := put_entry k ns (e\<lparr>ne_local := None\<rparr>) (lc_namespaces lc)\<rparr>))"

text \<open>A remote registration is dropped; the source itself goes once nobody holds it.\<close>

definition remote_release :: "nat \<Rightarrow> locals \<Rightarrow> locals" where
  "remote_release i lc =
     lc\<lparr>lc_sources := (lc_sources lc)[i := (lc_sources lc ! i)\<lparr>rs_holders := rs_holders (lc_sources lc ! i) - 1\<rparr>]\<rparr>"

text \<open>\<^verbatim>\<open>Drop for RemoteNamespaceSource\<close>, which runs some time after its last holder went.\<close>

definition remote_source_drop :: "nat \<Rightarrow> locals \<Rightarrow> namespace_change option \<times> locals" where
  "remote_source_drop i lc =
     (let k = rs_scope_key (lc_sources lc ! i);
          ns = rs_namespace (lc_sources lc ! i);
          lc = lc\<lparr>lc_sources := (lc_sources lc)[i := (lc_sources lc ! i)\<lparr>rs_dropped := True\<rparr>]\<rparr> in
      case entry_at (lc_namespaces lc) k ns of
        None \<Rightarrow> (None, lc\<lparr>lc_namespaces := tidy k (lc_namespaces lc)\<rparr>)
      | Some e \<Rightarrow>
          if ne_remote e \<noteq> Some i then (None, lc)
          else if ne_local e = None
          then (Some (change_of k ns False), lc\<lparr>lc_namespaces := remove_entry k ns (lc_namespaces lc)\<rparr>)
          else (None, lc\<lparr>lc_namespaces := put_entry k ns (e\<lparr>ne_remote := None\<rparr>) (lc_namespaces lc)\<rparr>))"

text \<open>\<^verbatim>\<open>route_namespace\<close>: one pass over the bucket that keeps the longest match so far.\<close>

definition route_step ::
    "track_namespace \<Rightarrow> track_namespace \<times> namespace_entry \<Rightarrow> namespace_source option \<times> nat \<Rightarrow> namespace_source option \<times> nat" where
  "route_step ns re best =
     (case re of (registered, e) \<Rightarrow>
        case ne_local e of
          None \<Rightarrow> best
        | Some source \<Rightarrow>
            if length ns \<ge> length registered \<and> list_all (\<lambda>(a, b). a = b) (zip registered ns) \<and> length registered > snd best
            then (Some source, length registered) else best)"

definition route_namespace :: "string option \<Rightarrow> track_namespace \<Rightarrow> locals \<Rightarrow> namespace_source option" where
  "route_namespace scope ns lc =
     fst (fold (route_step ns) (bucket_of (lc_namespaces lc) (scope_key_of scope)) (None, 0))"

definition fetch_source :: "string option \<Rightarrow> track_namespace \<Rightarrow> locals \<Rightarrow> nat option" where
  "fetch_source scope ns lc = (case route_namespace scope ns lc of None \<Rightarrow> None | Some src \<Rightarrow> nsrc_fetch src)"

section \<open>Tracks\<close>

definition retention_key_of :: "scope_key \<Rightarrow> full_track_name \<Rightarrow> retention_key" where
  "retention_key_of k full = (k, ftn_namespace full, ftn_name full)"

text \<open>\<^verbatim>\<open>FetchRetention::retain\<close> when it is enabled; an entry that goes drops its guard.\<close>

definition retain_track :: "scope_key \<Rightarrow> full_track_name \<Rightarrow> registry option \<Rightarrow> nat option \<times> registry option" where
  "retain_track k full reg =
     (case reg of
        None \<Rightarrow> (None, None)
      | Some r \<Rightarrow> (case retain (retention_key_of k full) r of (i, r) \<Rightarrow> (Some i, Some r)))"

definition drop_guard :: "scope_key \<Rightarrow> full_track_name \<Rightarrow> track_entry option \<Rightarrow> registry option \<Rightarrow> registry option" where
  "drop_guard k full e reg =
     (case e of
        None \<Rightarrow> reg
      | Some e \<Rightarrow> (case te_retention e of None \<Rightarrow> reg | Some i \<Rightarrow> map_option (guard_drop (retention_key_of k full) i) reg))"

text \<open>Inserting returns the entry it replaces, which is dropped; so does removing.\<close>

definition insert_track_entry :: "scope_key \<Rightarrow> full_track_name \<Rightarrow> nat \<Rightarrow> track_source \<Rightarrow> locals \<Rightarrow> locals" where
  "insert_track_entry k full t src lc =
     (case retain_track k full (lc_retention lc) of (guard, reg) \<Rightarrow>
        lc\<lparr>lc_tracks := put_entry k full \<lparr>te_reader = t, te_source = src, te_retention = guard\<rparr> (lc_tracks lc),
           lc_retention := drop_guard k full (entry_at (lc_tracks lc) k full) reg\<rparr>)"

definition remove_track_entry :: "scope_key \<Rightarrow> full_track_name \<Rightarrow> locals \<Rightarrow> locals" where
  "remove_track_entry k full lc =
     lc\<lparr>lc_tracks := remove_entry k full (lc_tracks lc),
        lc_retention := drop_guard k full (entry_at (lc_tracks lc) k full) (lc_retention lc)\<rparr>"

definition retained_track :: "string option \<Rightarrow> full_track_name \<Rightarrow> locals \<Rightarrow> nat option \<times> locals" where
  "retained_track scope full lc =
     (case lc_retention lc of
        None \<Rightarrow> (None, lc)
      | Some reg \<Rightarrow>
          (case retention_lookup (retention_key_of (scope_key_of scope) full) reg of
             (r, reg) \<Rightarrow> (r, lc\<lparr>lc_retention := Some reg\<rparr>)))"

definition prune_closed_track :: "serve_store \<Rightarrow> scope_key \<Rightarrow> full_track_name \<Rightarrow> locals \<Rightarrow> locals" where
  "prune_closed_track sv k full lc =
     (case entry_at (lc_tracks lc) k full of
        None \<Rightarrow> lc
      | Some e \<Rightarrow> if track_is_closed sv (te_reader e) then remove_track_entry k full lc else lc)"

definition prune_closed_tracks :: "serve_store \<Rightarrow> scope_key \<Rightarrow> full_track_name list \<Rightarrow> locals \<Rightarrow> locals" where
  "prune_closed_tracks sv k keys lc =
     (let lc = fold (prune_closed_track sv k) keys lc in lc\<lparr>lc_tracks := tidy k (lc_tracks lc)\<rparr>)"

definition list_tracks_matching ::
    "serve_store \<Rightarrow> string option \<Rightarrow> track_namespace_prefix \<Rightarrow> locals \<Rightarrow> nat list \<times> locals" where
  "list_tracks_matching sv scope pre lc =
     (let k = scope_key_of scope;
          b = bucket_of (lc_tracks lc) k;
          stale = map fst (filter (\<lambda>(_, e). track_is_closed sv (te_reader e)) b);
          found = filter (\<lambda>(full, e). \<not> track_is_closed sv (te_reader e) \<and> te_source e = Published \<and>
            is_prefix_of pre (ftn_namespace full)) b in
      (map (\<lambda>(_, e). te_reader e) found, if stale = [] then lc else prune_closed_tracks sv k stale lc))"

definition register_track ::
    "serve_store \<Rightarrow> string option \<Rightarrow> nat \<Rightarrow> locals \<Rightarrow> (serve_error + track_change) \<times> locals" where
  "register_track sv scope t lc =
     (let k = scope_key_of scope; full = tc_name (sv_tracks sv ! t) in
      case entry_at (lc_tracks lc) k full of
        Some _ \<Rightarrow> (Inl SDuplicate, lc)
      | None \<Rightarrow> (Inr (TrackAdded (scope_key_to_option k) t), insert_track_entry k full t Published lc))"

definition retrieve_track :: "serve_store \<Rightarrow> string option \<Rightarrow> full_track_name \<Rightarrow> locals \<Rightarrow> nat option \<times> locals" where
  "retrieve_track sv scope full lc =
     (let k = scope_key_of scope in
      case entry_at (lc_tracks lc) k full of
        None \<Rightarrow> (None, lc)
      | Some e \<Rightarrow>
          if \<not> track_is_closed sv (te_reader e) then (Some (te_reader e), lc)
          else (None, prune_closed_tracks sv k [full] lc))"

text \<open>
  \<^verbatim>\<open>get_or_request_track\<close> up to its \<^verbatim>\<open>await\<close>: an existing track, no route, or a fresh track
  entered as a cache slot whose writer is to be sent to the source. The slot is claimed
  under a lock of its own, so it is looked at again there.
\<close>

datatype request_result = Existing nat | NoRoute | Reserved nat namespace_source

definition claim_track ::
    "string option \<Rightarrow> full_track_name \<Rightarrow> namespace_source \<Rightarrow> serve_store \<times> locals \<Rightarrow> request_result \<times> serve_store \<times> locals" where
  "claim_track scope full src st =
     (case st of (sv, lc) \<Rightarrow>
        let k = scope_key_of scope in
        case (case entry_at (lc_tracks lc) k full of
                None \<Rightarrow> None
              | Some e \<Rightarrow> if track_is_closed sv (te_reader e) then None else Some (te_reader e)) of
          Some t \<Rightarrow> (Existing t, sv, lc)
        | None \<Rightarrow>
            (case track_produce full sv of (t, sv) \<Rightarrow> (Reserved t src, sv, insert_track_entry k full t Cache lc)))"

definition reserve_track ::
    "string option \<Rightarrow> full_track_name \<Rightarrow> serve_store \<times> locals \<Rightarrow> request_result \<times> serve_store \<times> locals" where
  "reserve_track scope full st =
     (case st of (sv, lc) \<Rightarrow>
        case retrieve_track sv scope full lc of
          (Some t, lc) \<Rightarrow> (Existing t, sv, lc)
        | (None, lc) \<Rightarrow>
            (case route_namespace scope (ftn_namespace full) lc of
               None \<Rightarrow> (NoRoute, sv, lc)
             | Some src \<Rightarrow> claim_track scope full src (sv, lc)))"

text \<open>After the \<^verbatim>\<open>await\<close>: when the send failed its writer is gone and the slot is given up.\<close>

definition request_failed ::
    "string option \<Rightarrow> full_track_name \<Rightarrow> nat \<Rightarrow> serve_store \<times> locals \<Rightarrow> serve_store \<times> locals" where
  "request_failed scope full t st =
     (case st of (sv, lc) \<Rightarrow>
        let k = scope_key_of scope in
        (drop_track_writer t sv,
         lc\<lparr>lc_tracks := (lc_tracks lc)(k := map_option (AList.delete full) (lc_tracks lc k)),
            lc_retention := drop_guard k full (entry_at (lc_tracks lc) k full) (lc_retention lc)\<rparr>))"

definition send_request :: "nat \<Rightarrow> namespace_source \<Rightarrow> request_channel list \<Rightarrow> bool \<times> request_channel list" where
  "send_request t src chans =
     (let c = chans ! nsrc_requests src in
      if rc_open c then (True, chans[nsrc_requests src := c\<lparr>rc_writers := rc_writers c @ [t]\<rparr>]) else (False, chans))"

definition get_or_request_track ::
    "string option \<Rightarrow> full_track_name \<Rightarrow> serve_store \<times> locals \<times> request_channel list \<Rightarrow>
     nat option \<times> serve_store \<times> locals \<times> request_channel list" where
  "get_or_request_track scope full st =
     (case st of (sv, lc, chans) \<Rightarrow>
        case reserve_track scope full (sv, lc) of
          (Existing t, sv, lc) \<Rightarrow> (Some t, sv, lc, chans)
        | (NoRoute, sv, lc) \<Rightarrow> (None, sv, lc, chans)
        | (Reserved t src, sv, lc) \<Rightarrow>
            (case send_request t src chans of
               (True, chans) \<Rightarrow> (Some t, sv, lc, chans)
             | (False, chans) \<Rightarrow> (case request_failed scope full t (sv, lc) of (sv, lc) \<Rightarrow> (None, sv, lc, chans))))"

text \<open>\<^verbatim>\<open>Drop for LocalTrackRegistration\<close>: by name, whatever track is there now.\<close>

definition track_registration_drop :: "scope_key \<Rightarrow> full_track_name \<Rightarrow> locals \<Rightarrow> track_change option \<times> locals" where
  "track_registration_drop k full lc =
     (case entry_at (lc_tracks lc) k full of
        None \<Rightarrow> (None, lc\<lparr>lc_tracks := tidy k (lc_tracks lc)\<rparr>)
      | Some _ \<Rightarrow> (Some (TrackRemoved (scope_key_to_option k) full), remove_track_entry k full lc))"

section \<open>Two-level maps as maps\<close>

lemma entry_at_put [simp]: "entry_at (put_entry k x v m) k' x' = (if k' = k \<and> x' = x then Some v else entry_at m k' x')"
  by (simp add: put_entry_def bucket_of_def update_conv' split: option.split)

lemma entry_at_remove [simp]: "entry_at (remove_entry k x m) k' x' = (if k' = k \<and> x' = x then None else entry_at m k' x')"
proof (cases "k' = k")
  case True
  have "map_of (bucket_of (remove_entry k x m) k) = map_of (AList.delete x (bucket_of m k))"
    by (cases "AList.delete x (bucket_of m k) = []") (simp_all add: remove_entry_def bucket_of_def Let_def)
  then show ?thesis using True by (simp add: delete_conv')
qed (simp add: remove_entry_def bucket_of_def Let_def)

lemma entry_at_tidy [simp]: "entry_at (tidy k m) k' x = entry_at m k' x"
  by (simp add: tidy_def bucket_of_def)

definition buckets_ok :: "('k, 'v) buckets \<Rightarrow> bool" where
  "buckets_ok m \<longleftrightarrow> (\<forall>k. distinct (map fst (bucket_of m k)))"

lemma buckets_ok_steps:
  "buckets_ok Map.empty"
  "buckets_ok m \<Longrightarrow> buckets_ok (put_entry k x v m)"
  "buckets_ok m \<Longrightarrow> buckets_ok (remove_entry k x m)"
  "buckets_ok m \<Longrightarrow> buckets_ok (tidy k m)"
  by (auto simp: buckets_ok_def bucket_of_def put_entry_def remove_entry_def tidy_def Let_def distinct_update distinct_delete
      split: option.splits)

section \<open>Owners of a namespace and followers of the changes\<close>

text \<open>
  The steps of the namespace registry, with the set of outstanding local registrations. A
  registration is dropped once; a remote source is dropped once, at any time after its last
  holder went. Each step may make a change to announce.
\<close>

type_synonym ns_state = "locals \<times> (scope_key \<times> track_namespace) set"

inductive namespace_step :: "ns_state \<Rightarrow> namespace_change option \<Rightarrow> ns_state \<Rightarrow> bool" where
  ns_register: "register_namespace_inner scope ns src lc = (Inr (), ch, lc') \<Longrightarrow>
    namespace_step (lc, regs) ch (lc', insert (scope_key_of scope, ns) regs)"
| ns_refused: "register_namespace_inner scope ns src lc = (Inl e, ch, lc') \<Longrightarrow> namespace_step (lc, regs) ch (lc', regs)"
| ns_drop: "(k, ns) \<in> regs \<Longrightarrow> namespace_registration_drop k ns lc = (ch, lc') \<Longrightarrow>
    namespace_step (lc, regs) ch (lc', regs - {(k, ns)})"
| ns_remote: "register_remote_namespace scope ns lc = (i, ch, lc') \<Longrightarrow> namespace_step (lc, regs) ch (lc', regs)"
| ns_release: "i < length (lc_sources lc) \<Longrightarrow> rs_holders (lc_sources lc ! i) > 0 \<Longrightarrow>
    namespace_step (lc, regs) None (remote_release i lc, regs)"
| ns_source_drop: "i < length (lc_sources lc) \<Longrightarrow> rs_holders (lc_sources lc ! i) = 0 \<Longrightarrow> \<not> rs_dropped (lc_sources lc ! i) \<Longrightarrow>
    remote_source_drop i lc = (ch, lc') \<Longrightarrow> namespace_step (lc, regs) ch (lc', regs)"

fun apply_change :: "namespace_change option \<Rightarrow> (string option \<times> track_namespace) set \<Rightarrow> (string option \<times> track_namespace) set" where
  "apply_change None view = view"
| "apply_change (Some c) view =
     (if nc_added c then insert (nc_scope c, nc_namespace c) view else view - {(nc_scope c, nc_namespace c)})"

fun announcement :: "namespace_change option \<Rightarrow> namespace_change list" where
  "announcement None = []"
| "announcement (Some c) = [c]"

text \<open>
  A step holds the registry's lock; its change goes on the broadcast channel only after the
  lock is released, so it is in flight for a while and changes may be sent in another order
  than they were made. A run keeps the changes made, those in flight and those sent.
\<close>

inductive ns_reachable ::
    "ns_state \<Rightarrow> namespace_change list \<Rightarrow> namespace_change list \<Rightarrow> namespace_change list \<Rightarrow> bool" where
  ns_start: "ns_reachable (locals_new, {}) [] [] []"
| ns_next: "ns_reachable s made flying sent \<Longrightarrow> namespace_step s ch s' \<Longrightarrow>
    ns_reachable s' (made @ announcement ch) (flying @ announcement ch) sent"
| ns_send: "ns_reachable s made flying sent \<Longrightarrow> i < length flying \<Longrightarrow>
    ns_reachable s made (take i flying @ drop (Suc i) flying) (sent @ [flying ! i])"

text \<open>What a receiver of the channel that applies every change knows, and the changes about one namespace.\<close>

definition follower_view :: "namespace_change list \<Rightarrow> (string option \<times> track_namespace) set" where
  "follower_view cs = foldl (\<lambda>view c. apply_change (Some c) view) {} cs"

definition concerns :: "string option \<Rightarrow> track_namespace \<Rightarrow> namespace_change \<Rightarrow> bool" where
  "concerns scope ns c \<longleftrightarrow> nc_scope c = scope \<and> nc_namespace c = ns"

definition keys_of :: "('k, 'v) buckets \<Rightarrow> (scope_key \<times> 'k) set" where
  "keys_of m = {(k, x). entry_at m k x \<noteq> None}"

lemma keys_of_simps [simp]:
  "keys_of (put_entry k x v m) = insert (k, x) (keys_of m)"
  "keys_of (remove_entry k x m) = keys_of m - {(k, x)}"
  "keys_of (tidy k m) = keys_of m"
  by (auto simp: keys_of_def split: if_splits)

lemma keys_of_entry: "entry_at m k x = Some v \<Longrightarrow> insert (k, x) (keys_of m) = keys_of m"
  by (auto simp: keys_of_def)

definition registered :: "locals \<Rightarrow> (scope_key \<times> track_namespace) set" where
  "registered lc = keys_of (lc_namespaces lc)"

definition source_ok :: "locals \<Rightarrow> nat \<Rightarrow> bool" where
  "source_ok lc i \<longleftrightarrow>
     (let src = lc_sources lc ! i in
      (rs_dropped src \<longrightarrow> rs_holders src = 0) \<and>
      (rs_holders src > 0 \<longrightarrow> (\<exists>e. entry_at (lc_namespaces lc) (rs_scope_key src) (rs_namespace src) = Some e \<and> ne_remote e = Some i)))"

definition entry_ok :: "locals \<Rightarrow> scope_key \<Rightarrow> track_namespace \<Rightarrow> namespace_entry \<Rightarrow> bool" where
  "entry_ok lc k ns e \<longleftrightarrow>
     (ne_local e \<noteq> None \<or> ne_remote e \<noteq> None) \<and>
     (\<forall>i. ne_remote e = Some i \<longrightarrow> i < length (lc_sources lc) \<and> rs_scope_key (lc_sources lc ! i) = k \<and>
        rs_namespace (lc_sources lc ! i) = ns \<and> \<not> rs_dropped (lc_sources lc ! i))"

definition ns_inv :: "ns_state \<Rightarrow> bool" where
  "ns_inv s \<longleftrightarrow>
     (case s of (lc, regs) \<Rightarrow>
        buckets_ok (lc_namespaces lc) \<and>
        (\<forall>k ns. (k, ns) \<in> regs \<longleftrightarrow> (\<exists>e. entry_at (lc_namespaces lc) k ns = Some e \<and> ne_local e \<noteq> None)) \<and>
        (\<forall>i < length (lc_sources lc). source_ok lc i) \<and>
        (\<forall>k ns e. entry_at (lc_namespaces lc) k ns = Some e \<longrightarrow> entry_ok lc k ns e))"

lemma ns_inv_start: "ns_inv (locals_new, {})"
  by (simp add: ns_inv_def locals_new_def buckets_ok_steps bucket_of_def)

text \<open>The invariant in pieces, so that a step only has to look at the entry and the source it touches.\<close>

lemma ns_invI:
  assumes "buckets_ok (lc_namespaces lc)"
    and "\<And>k ns. (k, ns) \<in> regs \<longleftrightarrow> (\<exists>e. entry_at (lc_namespaces lc) k ns = Some e \<and> ne_local e \<noteq> None)"
    and "\<And>i. i < length (lc_sources lc) \<Longrightarrow> source_ok lc i"
    and "\<And>k ns e. entry_at (lc_namespaces lc) k ns = Some e \<Longrightarrow> entry_ok lc k ns e"
  shows "ns_inv (lc, regs)"
  using assms unfolding ns_inv_def by blast

lemma ns_invD:
  assumes "ns_inv (lc, regs)"
  shows "buckets_ok (lc_namespaces lc)"
    and "(k, ns) \<in> regs \<longleftrightarrow> (\<exists>e. entry_at (lc_namespaces lc) k ns = Some e \<and> ne_local e \<noteq> None)"
    and "i < length (lc_sources lc) \<Longrightarrow> source_ok lc i"
    and "entry_at (lc_namespaces lc) k ns = Some e \<Longrightarrow> entry_ok lc k ns e"
  using assms by (simp_all add: ns_inv_def)

lemma register_inv:
  assumes "ns_inv (lc, regs)" and "register_namespace_inner scope ns src lc = (Inr (), ch, lc')"
  shows "ns_inv (lc', insert (scope_key_of scope, ns) regs)"
proof -
  note inv = ns_invD [OF assms(1)]
  let ?k = "scope_key_of scope"
  obtain e' where lc': "lc' = lc\<lparr>lc_namespaces := put_entry ?k ns e' (lc_namespaces lc)\<rparr>" and loc: "ne_local e' = Some src"
    and rem: "ne_remote e' = (case entry_at (lc_namespaces lc) ?k ns of None \<Rightarrow> None | Some e \<Rightarrow> ne_remote e)"
    using assms(2) by (auto simp: register_namespace_inner_def Let_def split: option.splits if_splits)
  show ?thesis
  proof (rule ns_invI)
    show "buckets_ok (lc_namespaces lc')" using inv(1) by (simp add: lc' buckets_ok_steps)
    fix k n
    show "(k, n) \<in> insert (?k, ns) regs \<longleftrightarrow> (\<exists>e. entry_at (lc_namespaces lc') k n = Some e \<and> ne_local e \<noteq> None)"
      using inv(2) [of k n] loc by (auto simp: lc')
  next
    fix i
    assume "i < length (lc_sources lc')"
    then have "source_ok lc i" using inv(3) by (simp add: lc')
    then show "source_ok lc' i" using rem by (auto simp: source_ok_def lc' Let_def)
  next
    fix k n e
    assume e: "entry_at (lc_namespaces lc') k n = Some e"
    show "entry_ok lc' k n e"
    proof (cases "k = ?k \<and> n = ns")
      case True
      with e have "e = e'" by (simp add: lc')
      then show ?thesis using True loc rem inv(4) [of ?k ns] by (auto simp: entry_ok_def lc' split: option.splits)
    next
      case False
      with e inv(4) [of k n e] show ?thesis by (auto simp: entry_ok_def lc')
    qed
  qed
qed

lemma registration_drop_inv:
  assumes "ns_inv (lc, regs)" and "(k, ns) \<in> regs" and "namespace_registration_drop k ns lc = (ch, lc')"
  shows "ns_inv (lc', regs - {(k, ns)})"
proof -
  note inv = ns_invD [OF assms(1)]
  from assms(2) inv(2) obtain e where e: "entry_at (lc_namespaces lc) k ns = Some e" "ne_local e \<noteq> None" by blast
  show ?thesis
  proof (cases "remote_alive lc (ne_remote e)")
    case False
    then have lc': "lc' = lc\<lparr>lc_namespaces := remove_entry k ns (lc_namespaces lc)\<rparr>"
      using assms(3) e by (auto simp: namespace_registration_drop_def)
    show ?thesis
    proof (rule ns_invI)
      show "buckets_ok (lc_namespaces lc')" using inv(1) by (simp add: lc' buckets_ok_steps)
      fix k' n
      show "(k', n) \<in> regs - {(k, ns)} \<longleftrightarrow> (\<exists>e. entry_at (lc_namespaces lc') k' n = Some e \<and> ne_local e \<noteq> None)"
        using inv(2) [of k' n] by (auto simp: lc')
    next
      fix i
      assume "i < length (lc_sources lc')"
      then have "source_ok lc i" using inv(3) by (simp add: lc')
      then show "source_ok lc' i" using False e(1) by (auto simp: source_ok_def lc' Let_def remote_alive_def)
    next
      fix k' n e'
      assume "entry_at (lc_namespaces lc') k' n = Some e'"
      then show "entry_ok lc' k' n e'" using inv(4) [of k' n e'] by (auto simp: entry_ok_def lc' split: if_splits)
    qed
  next
    case True
    then have lc': "lc' = lc\<lparr>lc_namespaces := put_entry k ns (e\<lparr>ne_local := None\<rparr>) (lc_namespaces lc)\<rparr>"
      using assms(3) e by (auto simp: namespace_registration_drop_def)
    show ?thesis
    proof (rule ns_invI)
      show "buckets_ok (lc_namespaces lc')" using inv(1) by (simp add: lc' buckets_ok_steps)
      fix k' n
      show "(k', n) \<in> regs - {(k, ns)} \<longleftrightarrow> (\<exists>e. entry_at (lc_namespaces lc') k' n = Some e \<and> ne_local e \<noteq> None)"
        using inv(2) [of k' n] by (auto simp: lc')
    next
      fix i
      assume "i < length (lc_sources lc')"
      then have "source_ok lc i" using inv(3) by (simp add: lc')
      then show "source_ok lc' i" using e(1) by (auto simp: source_ok_def lc' Let_def)
    next
      fix k' n e'
      assume "entry_at (lc_namespaces lc') k' n = Some e'"
      then show "entry_ok lc' k' n e'" using inv(4) [of k' n e'] inv(4) [OF e(1)] True
        by (auto simp: entry_ok_def lc' remote_alive_def split: if_splits)
    qed
  qed
qed

lemma ns_inv_same_entries:
  assumes "ns_inv (lc, regs)" and "lc_namespaces lc' = lc_namespaces lc" and "length (lc_sources lc') = length (lc_sources lc)"
    and "\<And>x. x < length (lc_sources lc) \<Longrightarrow> rs_scope_key (lc_sources lc' ! x) = rs_scope_key (lc_sources lc ! x) \<and>
      rs_namespace (lc_sources lc' ! x) = rs_namespace (lc_sources lc ! x) \<and> rs_dropped (lc_sources lc' ! x) = rs_dropped (lc_sources lc ! x)"
    and "\<And>x. x < length (lc_sources lc) \<Longrightarrow> source_ok lc' x"
  shows "ns_inv (lc', regs)"
proof (rule ns_invI)
  fix k ns e
  assume "entry_at (lc_namespaces lc') k ns = Some e"
  then have "entry_ok lc k ns e" using ns_invD(4) [OF assms(1)] assms(2) by simp
  then show "entry_ok lc' k ns e" using assms(3,4) by (auto simp: entry_ok_def)
qed (use ns_invD [OF assms(1)] assms(2,3,5) in auto)

lemma register_remote_inv:
  assumes "ns_inv (lc, regs)" and "register_remote_namespace scope ns lc = (i, ch, lc')"
  shows "ns_inv (lc', regs)"
proof -
  note inv = ns_invD [OF assms(1)]
  let ?k = "scope_key_of scope"
  let ?new = "\<lparr>rs_scope_key = ?k, rs_namespace = ns, rs_holders = 1, rs_dropped = False\<rparr>"
  let ?e = "entry_at (lc_namespaces lc) ?k ns"
  show ?thesis
  proof (cases "\<exists>e. ?e = Some e \<and> remote_alive lc (ne_remote e)")
    case True
    then obtain e j where e: "?e = Some e" "ne_remote e = Some j" by (auto simp: remote_alive_def split: option.splits)
    have j: "j < length (lc_sources lc)" using inv(4) [OF e(1)] e(2) by (simp add: entry_ok_def)
    have lc': "lc' = lc\<lparr>lc_sources := (lc_sources lc)[j := (lc_sources lc ! j)\<lparr>rs_holders := rs_holders (lc_sources lc ! j) + 1\<rparr>]\<rparr>"
      using assms(2) e True by (auto simp: register_remote_namespace_def Let_def)
    have "rs_holders (lc_sources lc ! j) > 0" using True e by (auto simp: remote_alive_def)
    with inv j have src: "source_ok lc' x" if "x < length (lc_sources lc)" for x
      using that inv(3) [of x] by (auto simp: source_ok_def lc' Let_def nth_list_update)
    show ?thesis
    proof (rule ns_inv_same_entries [OF assms(1)])
      show "source_ok lc' x" if "x < length (lc_sources lc)" for x by (rule src [OF that])
    qed (use j in \<open>auto simp: lc' nth_list_update\<close>)
  next
    case False
    obtain e' where lc': "lc' = lc\<lparr>lc_namespaces := put_entry ?k ns e' (lc_namespaces lc), lc_sources := lc_sources lc @ [?new]\<rparr>"
      and e': "ne_remote e' = Some (length (lc_sources lc))" "ne_local e' = (case ?e of None \<Rightarrow> None | Some e \<Rightarrow> ne_local e)"
      using assms(2) False by (auto simp: register_remote_namespace_def Let_def split: option.splits if_splits)
    show ?thesis
    proof (rule ns_invI)
      show "buckets_ok (lc_namespaces lc')" using inv(1) by (simp add: lc' buckets_ok_steps)
      fix k n
      show "(k, n) \<in> regs \<longleftrightarrow> (\<exists>e. entry_at (lc_namespaces lc') k n = Some e \<and> ne_local e \<noteq> None)"
        using inv(2) [of k n] e'(2) by (auto simp: lc' split: option.splits)
    next
      fix x
      assume x: "x < length (lc_sources lc')"
      show "source_ok lc' x"
      proof (cases "x < length (lc_sources lc)")
        case True
        then have "source_ok lc x" by (rule inv(3))
        then show ?thesis using True False by (auto simp: source_ok_def lc' Let_def nth_append remote_alive_def)
      next
        case outside: False
        with x have "x = length (lc_sources lc)" by (simp add: lc')
        then show ?thesis using e' by (simp add: source_ok_def lc')
      qed
    next
      fix k n e
      assume e: "entry_at (lc_namespaces lc') k n = Some e"
      show "entry_ok lc' k n e"
      proof (cases "k = ?k \<and> n = ns")
        case True
        with e e' show ?thesis by (simp add: entry_ok_def lc')
      next
        case other: False
        with e have "entry_ok lc k n e" using inv(4) [of k n e] by (auto simp: lc')
        then show ?thesis by (auto simp: entry_ok_def lc' nth_append)
      qed
    qed
  qed
qed

lemma release_inv:
  assumes "ns_inv (lc, regs)" and "i < length (lc_sources lc)"
  shows "ns_inv (remote_release i lc, regs)"
proof -
  note inv = ns_invD [OF assms(1)]
  have src: "source_ok (remote_release i lc) x" if "x < length (lc_sources lc)" for x
    using inv(3) [OF that] assms(2) by (auto simp: source_ok_def remote_release_def Let_def nth_list_update)
  show ?thesis
  proof (rule ns_inv_same_entries [OF assms(1)])
    show "source_ok (remote_release i lc) x" if "x < length (lc_sources lc)" for x by (rule src [OF that])
  qed (use assms(2) in \<open>auto simp: remote_release_def nth_list_update\<close>)
qed

lemma source_drop_inv:
  assumes "ns_inv (lc, regs)" and "i < length (lc_sources lc)" and "rs_holders (lc_sources lc ! i) = 0"
    and "remote_source_drop i lc = (ch, lc')"
  shows "ns_inv (lc', regs)"
proof -
  note inv = ns_invD [OF assms(1)]
  let ?k = "rs_scope_key (lc_sources lc ! i)" and ?ns = "rs_namespace (lc_sources lc ! i)"
  let ?e = "entry_at (lc_namespaces lc) ?k ?ns"
  have srcs: "lc_sources lc' = (lc_sources lc)[i := (lc_sources lc ! i)\<lparr>rs_dropped := True\<rparr>]"
    using assms(4) by (auto simp: remote_source_drop_def Let_def split: option.splits if_splits)
  have other: "entry_at (lc_namespaces lc') k n = entry_at (lc_namespaces lc) k n" if "k \<noteq> ?k \<or> n \<noteq> ?ns" for k n
    using assms(4) that by (auto simp: remote_source_drop_def Let_def split: option.splits if_splits)
  have here: "entry_at (lc_namespaces lc') ?k ?ns =
      (case ?e of None \<Rightarrow> None
       | Some e \<Rightarrow> if ne_remote e \<noteq> Some i then Some e else if ne_local e = None then None else Some (e\<lparr>ne_remote := None\<rparr>))"
    using assms(4) by (auto simp: remote_source_drop_def Let_def split: option.splits if_splits)
  show ?thesis
  proof (rule ns_invI)
    show "buckets_ok (lc_namespaces lc')"
      using assms(4) inv(1) by (auto simp: remote_source_drop_def Let_def buckets_ok_steps split: option.splits if_splits)
    fix k n
    show "(k, n) \<in> regs \<longleftrightarrow> (\<exists>e. entry_at (lc_namespaces lc') k n = Some e \<and> ne_local e \<noteq> None)"
      using inv(2) [of k n] here other [of k n] by (cases "k = ?k \<and> n = ?ns") (auto split: option.splits if_splits)
  next
    fix x
    assume "x < length (lc_sources lc')"
    then have x: "x < length (lc_sources lc)" by (simp add: srcs)
    show "source_ok lc' x"
    proof (cases "x = i")
      case True
      then show ?thesis using assms(2,3) by (simp add: source_ok_def srcs)
    next
      case False
      let ?kx = "rs_scope_key (lc_sources lc ! x)" and ?nx = "rs_namespace (lc_sources lc ! x)"
      have "entry_at (lc_namespaces lc') ?kx ?nx = Some e"
        if "entry_at (lc_namespaces lc) ?kx ?nx = Some e" "ne_remote e = Some x" for e
        using that here other [of ?kx ?nx] False by (cases "?kx = ?k \<and> ?nx = ?ns") auto
      then show ?thesis using inv(3) [OF x] False by (auto simp: source_ok_def srcs Let_def)
    qed
  next
    fix k n e
    assume e: "entry_at (lc_namespaces lc') k n = Some e"
    show "entry_ok lc' k n e"
    proof (cases "k = ?k \<and> n = ?ns")
      case True
      then have kn: "k = ?k" "n = ?ns" by simp_all
      from e kn here obtain e0 where e0: "?e = Some e0"
        "ne_remote e0 \<noteq> Some i \<and> e = e0 \<or> ne_remote e0 = Some i \<and> ne_local e0 \<noteq> None \<and> e = e0\<lparr>ne_remote := None\<rparr>"
        by (auto split: option.splits if_splits)
      have ok0: "entry_ok lc k n e0" unfolding kn by (rule inv(4) [OF e0(1)])
      from e0(2) show ?thesis
      proof (elim disjE conjE)
        assume ne: "ne_remote e0 \<noteq> Some i" and e_e0: "e = e0"
        have "lc_sources lc' ! j = lc_sources lc ! j" if "ne_remote e0 = Some j" for j
          using that ne by (simp add: srcs)
        then show ?thesis using ok0 unfolding e_e0 entry_ok_def by (auto simp: srcs)
      next
        assume "ne_local e0 \<noteq> None" "e = e0\<lparr>ne_remote := None\<rparr>"
        then show ?thesis by (simp add: entry_ok_def)
      qed
    next
      case False
      with e other have e0: "entry_at (lc_namespaces lc) k n = Some e" by auto
      from inv(4) [OF e0] False assms(2) show ?thesis by (auto simp: entry_ok_def srcs nth_list_update)
    qed
  qed
qed

lemma namespace_step_inv: "namespace_step s ch s' \<Longrightarrow> ns_inv s \<Longrightarrow> ns_inv s'"
proof (induction rule: namespace_step.induct)
  case (ns_refused scope ns src lc e ch lc' regs)
  then have "lc' = lc" by (auto simp: register_namespace_inner_def Let_def split: option.splits if_splits)
  with ns_refused show ?case by simp
qed (auto intro: register_inv registration_drop_inv register_remote_inv release_inv source_drop_inv)

text \<open>A change says exactly how the set of registered namespaces changed.\<close>

definition follows :: "namespace_change option \<Rightarrow> locals \<Rightarrow> locals \<Rightarrow> bool" where
  "follows ch lc lc' \<longleftrightarrow>
     (case ch of
        None \<Rightarrow> registered lc' = registered lc
      | Some c \<Rightarrow> \<exists>k ns b. c = change_of k ns b \<and>
          registered lc' = (if b then insert (k, ns) (registered lc) else registered lc - {(k, ns)}))"

lemma follows_none: "registered lc' = registered lc \<Longrightarrow> follows None lc lc'"
  by (simp add: follows_def)

lemma follows_some:
  "registered lc' = (if b then insert (k, ns) (registered lc) else registered lc - {(k, ns)}) \<Longrightarrow>
   follows (Some (change_of k ns b)) lc lc'"
  unfolding follows_def by auto

lemma register_follows: "register_namespace_inner scope ns src lc = (r, ch, lc') \<Longrightarrow> follows ch lc lc'"
  unfolding register_namespace_inner_def Let_def
  by (auto simp: registered_def keys_of_entry split: option.splits if_splits intro!: follows_none follows_some)

lemma registration_drop_follows: "namespace_registration_drop k ns lc = (ch, lc') \<Longrightarrow> follows ch lc lc'"
  unfolding namespace_registration_drop_def
  by (auto simp: registered_def keys_of_entry split: option.splits if_splits intro!: follows_none follows_some)

lemma register_remote_follows: "register_remote_namespace scope ns lc = (i, ch, lc') \<Longrightarrow> follows ch lc lc'"
  unfolding register_remote_namespace_def Let_def
  by (auto simp: registered_def keys_of_entry split: option.splits if_splits intro!: follows_none follows_some)

lemma source_drop_follows: "remote_source_drop i lc = (ch, lc') \<Longrightarrow> follows ch lc lc'"
  unfolding remote_source_drop_def Let_def
  by (auto simp: registered_def keys_of_entry split: option.splits if_splits intro!: follows_none follows_some)

lemma namespace_step_follows: "namespace_step s ch s' \<Longrightarrow> follows ch (fst s) (fst s')"
  by (induction rule: namespace_step.induct)
    (auto intro: register_follows registration_drop_follows register_remote_follows source_drop_follows,
     simp add: follows_def registered_def remote_release_def)

lemma scope_key_to_option_inj: "scope_key_to_option k = scope_key_to_option k' \<longleftrightarrow> k = k'"
  by (auto simp: scope_key_to_option_def split: if_splits)

lemma follows_view:
  assumes "follows ch lc lc'"
  shows "apply_change ch (apfst scope_key_to_option ` registered lc) = apfst scope_key_to_option ` registered lc'"
proof (cases ch)
  case None
  with assms show ?thesis by (simp add: follows_def)
next
  case (Some c)
  with assms obtain k ns b where c: "c = change_of k ns b"
    and reg: "registered lc' = (if b then insert (k, ns) (registered lc) else registered lc - {(k, ns)})" by (auto simp: follows_def)
  have inj: "inj (apfst scope_key_to_option :: scope_key \<times> track_namespace \<Rightarrow> _)"
    by (auto intro!: injI simp: apfst_def map_prod_def scope_key_to_option_inj split: prod.splits)
  show ?thesis using reg by (simp add: Some c change_of_def image_set_diff [OF inj])
qed

lemma follower_view_snoc: "follower_view (cs @ announcement ch) = apply_change ch (follower_view cs)"
  by (cases ch) (simp_all add: follower_view_def)

lemma follower_view_iff:
  "(scope, ns) \<in> follower_view cs \<longleftrightarrow>
   filter (concerns scope ns) cs \<noteq> [] \<and> nc_added (last (filter (concerns scope ns) cs))"
proof (induction cs rule: rev_induct)
  case Nil
  show ?case by (simp add: follower_view_def)
next
  case (snoc c cs)
  then show ?case using follower_view_snoc [of cs "Some c"] by (auto simp: concerns_def)
qed

lemma mset_take_out: "i < length xs \<Longrightarrow> add_mset (xs ! i) (mset (take i xs @ drop (Suc i) xs)) = mset xs"
  by (metis add_mset_add_single id_take_nth_drop mset.simps(2) mset_append union_mset_add_mset_right)

lemma ns_reachable_inv:
  "ns_reachable s made flying sent \<Longrightarrow>
   ns_inv s \<and> follower_view made = apfst scope_key_to_option ` registered (fst s) \<and> mset made = mset sent + mset flying"
proof (induction rule: ns_reachable.induct)
  case ns_start
  then show ?case using ns_inv_start by (simp add: registered_def keys_of_def locals_new_def bucket_of_def follower_view_def)
next
  case (ns_next s made flying sent ch s')
  then have "follower_view (made @ announcement ch) = apfst scope_key_to_option ` registered (fst s')"
    using follows_view [OF namespace_step_follows [OF ns_next(2)]] by (simp add: follower_view_snoc)
  with ns_next show ?case using namespace_step_inv by auto
next
  case (ns_send s made flying sent i)
  then show ?case using mset_take_out [of i flying] by simp
qed

text \<open>
  On a namespace whose changes were all sent, in the order they were made, a follower agrees
  with the registry.
\<close>

lemma follower_agrees:
  assumes "ns_reachable (lc, regs) made flying sent"
    and "filter (concerns (scope_key_to_option k) ns) sent = filter (concerns (scope_key_to_option k) ns) made"
  shows "(scope_key_to_option k, ns) \<in> follower_view sent \<longleftrightarrow> (k, ns) \<in> registered lc"
proof -
  have "(scope_key_to_option k, ns) \<in> follower_view sent \<longleftrightarrow> (scope_key_to_option k, ns) \<in> follower_view made"
    by (simp add: follower_view_iff assms(2))
  also have "\<dots> \<longleftrightarrow> (k, ns) \<in> registered lc"
    using ns_reachable_inv [OF assms(1)] by (force simp: scope_key_to_option_inj)
  finally show ?thesis .
qed

section \<open>Routing\<close>

text \<open>A candidate source for a namespace: registered locally under a non-empty prefix of it.\<close>

definition candidate :: "track_namespace \<Rightarrow> (track_namespace \<times> namespace_entry) list \<Rightarrow> track_namespace \<Rightarrow> namespace_source \<Rightarrow> bool" where
  "candidate ns b reg src \<longleftrightarrow> (\<exists>e. (reg, e) \<in> set b \<and> ne_local e = Some src) \<and> prefix reg ns \<and> reg \<noteq> []"

definition best_route :: "track_namespace \<Rightarrow> (track_namespace \<times> namespace_entry) list \<Rightarrow> namespace_source option \<times> nat \<Rightarrow> bool" where
  "best_route ns b best \<longleftrightarrow>
     (case fst best of
        None \<Rightarrow> snd best = 0 \<and> (\<forall>reg src. \<not> candidate ns b reg src)
      | Some src \<Rightarrow> \<exists>reg. candidate ns b reg src \<and> snd best = length reg \<and>
          (\<forall>reg' src'. candidate ns b reg' src' \<longrightarrow> length reg' \<le> length reg))"

lemma zip_all_prefix: "length (ns :: track_namespace) \<ge> length reg \<and> list_all (\<lambda>(a, b). a = b) (zip reg ns) \<longleftrightarrow> prefix reg ns"
  using is_prefix_of_iff [of reg ns] by (simp add: is_prefix_of_def)

lemma route_step_eq:
  "route_step ns (reg, e) best =
     (case ne_local e of None \<Rightarrow> best
      | Some src \<Rightarrow> if prefix reg ns \<and> length reg > snd best then (Some src, length reg) else best)"
  using zip_all_prefix [of reg ns] by (auto simp: route_step_def split: option.split)

lemma candidate_snoc:
  "candidate ns (b @ [(reg, e)]) reg' src \<longleftrightarrow>
     candidate ns b reg' src \<or> reg' = reg \<and> ne_local e = Some src \<and> prefix reg ns \<and> reg \<noteq> []"
  by (auto simp: candidate_def)

lemma best_route_snoc:
  assumes "best_route ns b best"
  shows "best_route ns (b @ [(reg, e)]) (route_step ns (reg, e) best)"
proof (cases "ne_local e = None \<or> \<not> prefix reg ns \<or> length reg \<le> snd best")
  case True
  then have same: "route_step ns (reg, e) best = best" by (auto simp: route_step_eq split: option.split)
  have old: "length reg' \<le> snd best" if "ne_local e \<noteq> None" "prefix reg ns" "reg' = reg" for reg'
    using True that by simp
  show ?thesis
  proof (cases "fst best")
    case None
    with assms have "snd best = 0" "\<And>reg src. \<not> candidate ns b reg src" by (simp_all add: best_route_def)
    then show ?thesis using None True unfolding same by (auto simp: best_route_def candidate_snoc)
  next
    case (Some src)
    with assms obtain r where "candidate ns b r src" "snd best = length r"
      "\<And>reg' src'. candidate ns b reg' src' \<Longrightarrow> length reg' \<le> length r" by (auto simp: best_route_def)
    then show ?thesis using Some True unfolding same by (auto simp: best_route_def candidate_snoc intro!: exI [of _ r])
  qed
next
  case False
  then obtain src where src: "ne_local e = Some src" "prefix reg ns" "snd best < length reg" by auto
  then have new: "route_step ns (reg, e) best = (Some src, length reg)" by (simp add: route_step_eq)
  have ne: "reg \<noteq> []" using src(3) by auto
  have "length reg' \<le> length reg" if "candidate ns b reg' src'" for reg' src'
    using assms that src(3) by (force simp: best_route_def split: option.splits)
  then show ?thesis unfolding new best_route_def using src ne by (auto simp: candidate_snoc intro!: exI [of _ reg])
qed

lemma best_route_fold: "best_route ns b (fold (route_step ns) b (None, 0))"
proof (induction b rule: rev_induct)
  case Nil
  then show ?case by (simp add: best_route_def candidate_def)
next
  case (snoc re b)
  obtain reg e where re: "re = (reg, e)" by (cases re)
  from best_route_snoc [OF snoc.IH, of reg e] show ?case by (simp add: re)
qed

text \<open>The longest registered prefix, whatever order the bucket is walked in.\<close>

lemma route_namespace_longest:
  assumes "buckets_ok (lc_namespaces lc)"
  shows "route_namespace scope ns lc = Some src \<longleftrightarrow>
    (\<exists>reg. candidate ns (bucket_of (lc_namespaces lc) (scope_key_of scope)) reg src \<and>
       (\<forall>reg' src'. candidate ns (bucket_of (lc_namespaces lc) (scope_key_of scope)) reg' src' \<longrightarrow> length reg' \<le> length reg))"
proof -
  let ?b = "bucket_of (lc_namespaces lc) (scope_key_of scope)"
  have dist: "distinct (map fst ?b)" using assms by (simp add: buckets_ok_def)
  have unique: "src1 = src2" if "candidate ns ?b reg src1" "candidate ns ?b reg src2" for reg src1 src2
  proof -
    from that obtain e1 e2 where "(reg, e1) \<in> set ?b" "ne_local e1 = Some src1" "(reg, e2) \<in> set ?b" "ne_local e2 = Some src2"
      by (auto simp: candidate_def)
    moreover from this dist have "e1 = e2" by (metis eq_key_imp_eq_value)
    ultimately show ?thesis by simp
  qed
  have same: "reg1 = reg2" if "candidate ns ?b reg1 src1" "candidate ns ?b reg2 src2" "length reg1 = length reg2" for reg1 reg2 src1 src2
  proof -
    from that have "reg1 = take (length reg1) ns" "reg2 = take (length reg2) ns" by (auto simp: candidate_def prefix_def)
    with that(3) show ?thesis by metis
  qed
  show ?thesis
  proof
    assume "route_namespace scope ns lc = Some src"
    then show "\<exists>reg. candidate ns ?b reg src \<and> (\<forall>reg' src'. candidate ns ?b reg' src' \<longrightarrow> length reg' \<le> length reg)"
      using best_route_fold [of ns ?b] by (auto simp: best_route_def route_namespace_def)
  next
    assume "\<exists>reg. candidate ns ?b reg src \<and> (\<forall>reg' src'. candidate ns ?b reg' src' \<longrightarrow> length reg' \<le> length reg)"
    then obtain reg where reg: "candidate ns ?b reg src" "\<And>reg' src'. candidate ns ?b reg' src' \<Longrightarrow> length reg' \<le> length reg" by blast
    show "route_namespace scope ns lc = Some src"
    proof (cases "fst (fold (route_step ns) ?b (None, 0))")
      case None
      then show ?thesis using best_route_fold [of ns ?b] reg(1) by (auto simp: best_route_def)
    next
      case (Some src')
      with best_route_fold [of ns ?b] obtain reg' where reg'0: "candidate ns ?b reg' src'"
        and longest: "\<forall>r s. candidate ns ?b r s \<longrightarrow> length r \<le> length reg'"
        unfolding best_route_def by (simp only: option.case) blast
      note reg' = reg'0 longest [rule_format, OF reg(1)]
      have "length reg' = length reg" by (rule antisym [OF reg(2) [OF reg'(1)] reg'(2)])
      then have "reg' = reg" by (rule same [OF reg'(1) reg(1)])
      then have "src' = src" using unique [OF _ reg(1)] reg'(1) by blast
      then show ?thesis unfolding route_namespace_def using Some by (simp only:)
    qed
  qed
qed

section \<open>Track entries and their retention\<close>

lemmas lookup_defs = retain_track_def retain_def drop_guard_def guard_drop_def

text \<open>
  Entries are filed under the names of their tracks. With retention enabled, what is
  retained under a name is exactly what the entry's guard holds.
\<close>

definition retention_synced :: "locals \<Rightarrow> bool" where
  "retention_synced lc \<longleftrightarrow>
     (case lc_retention lc of
        None \<Rightarrow> True
      | Some reg \<Rightarrow> \<forall>k full.
          reg_names reg (retention_key_of k full) =
            (case entry_at (lc_tracks lc) k full of None \<Rightarrow> None | Some e \<Rightarrow> te_retention e) \<and>
          (\<forall>e. entry_at (lc_tracks lc) k full = Some e \<longrightarrow> (\<exists>i. te_retention e = Some i \<and> track_alive reg i)))"

definition tracks_named :: "serve_store \<Rightarrow> locals \<Rightarrow> bool" where
  "tracks_named sv lc \<longleftrightarrow>
     (\<forall>k full e. entry_at (lc_tracks lc) k full = Some e \<longrightarrow>
        te_reader e < length (sv_tracks sv) \<and> tc_name (sv_tracks sv ! te_reader e) = full)"

lemma retention_key_inj: "retention_key_of k full = retention_key_of k' full' \<longleftrightarrow> k = k' \<and> full = full'"
  by (cases full; cases full') (auto simp: retention_key_of_def)

lemma insert_synced:
  assumes "retention_synced lc"
  shows "retention_synced (insert_track_entry k full t src lc)"
proof (cases "lc_retention lc")
  case None
  then show ?thesis
    by (simp add: retention_synced_def insert_track_entry_def retain_track_def drop_guard_def split: option.splits)
next
  case (Some reg)
  let ?key = "retention_key_of k full" and ?i = "length (reg_tracks reg)"
  let ?reg1 = "reg\<lparr>reg_tracks := reg_tracks reg @ [Some (retained_groups_default, Idle)], reg_names := (reg_names reg)(?key \<mapsto> ?i)\<rparr>"
  have old: "j \<noteq> ?i" if "entry_at (lc_tracks lc) k full = Some e" "te_retention e = Some j" for e j
    using assms that Some by (fastforce simp: retention_synced_def track_alive_def)
  have drop: "drop_guard k full (entry_at (lc_tracks lc) k full) (Some ?reg1) = Some ?reg1"
    using old by (auto simp: drop_guard_def guard_drop_def split: option.split)
  have ins: "insert_track_entry k full t src lc =
      lc\<lparr>lc_tracks := put_entry k full \<lparr>te_reader = t, te_source = src, te_retention = Some ?i\<rparr> (lc_tracks lc), lc_retention := Some ?reg1\<rparr>"
    using drop by (simp add: insert_track_entry_def retain_track_def retain_def Some Let_def)
  have alive: "track_alive ?reg1 j" if "track_alive reg j" for j using that by (auto simp: track_alive_def nth_append)
  have sync: "reg_names reg (retention_key_of k' full') =
      (case entry_at (lc_tracks lc) k' full' of None \<Rightarrow> None | Some e \<Rightarrow> te_retention e)"
      "entry_at (lc_tracks lc) k' full' = Some e \<Longrightarrow> \<exists>j. te_retention e = Some j \<and> track_alive reg j" for k' full' e
    using assms Some by (simp_all add: retention_synced_def)
  have "track_alive ?reg1 ?i" by (simp add: track_alive_def)
  moreover have "\<exists>j. te_retention e = Some j \<and> track_alive ?reg1 j" if "entry_at (lc_tracks lc) k' full' = Some e" for k' full' e
    using sync(2) [OF that] alive by blast
  ultimately show ?thesis unfolding retention_synced_def ins
    using sync(1) by (auto simp: retention_key_inj)
qed

lemma forget_synced:
  assumes "retention_synced lc" and "\<And>k' full'. entry_at m k' full' = (if k' = k \<and> full' = full then None else entry_at (lc_tracks lc) k' full')"
  shows "retention_synced (lc\<lparr>lc_tracks := m, lc_retention := drop_guard k full (entry_at (lc_tracks lc) k full) (lc_retention lc)\<rparr>)"
proof (cases "lc_retention lc")
  case None
  then show ?thesis by (simp add: retention_synced_def drop_guard_def split: option.splits)
next
  case (Some reg)
  have sync: "reg_names reg (retention_key_of k' full') =
      (case entry_at (lc_tracks lc) k' full' of None \<Rightarrow> None | Some e \<Rightarrow> te_retention e)"
      "entry_at (lc_tracks lc) k' full' = Some e \<Longrightarrow> \<exists>j. te_retention e = Some j \<and> track_alive reg j" for k' full' e
    using assms(1) Some by (simp_all add: retention_synced_def)
  obtain reg' where reg': "drop_guard k full (entry_at (lc_tracks lc) k full) (Some reg) = Some reg'"
    "reg_names reg' = (reg_names reg)(retention_key_of k full := None)" "reg_tracks reg' = reg_tracks reg"
  proof (cases "entry_at (lc_tracks lc) k full")
    case None
    then have "(reg_names reg)(retention_key_of k full := None) = reg_names reg" using sync(1) [of k full] by (simp add: fun_eq_iff)
    then show ?thesis using that [of reg] None by (simp add: drop_guard_def)
  next
    case (Some e)
    with sync(2) [OF Some] sync(1) [of k full] obtain j where "te_retention e = Some j" "reg_names reg (retention_key_of k full) = Some j" by auto
    then show ?thesis using that [of "guard_drop (retention_key_of k full) j reg"] Some by (simp add: drop_guard_def guard_drop_def)
  qed
  have alive: "track_alive reg' j = track_alive reg j" for j by (simp add: track_alive_def reg'(3))
  show ?thesis unfolding retention_synced_def using assms(2) sync alive reg'(1,2) Some by (auto simp: retention_key_inj)
qed

lemma remove_synced: "retention_synced lc \<Longrightarrow> retention_synced (remove_track_entry k full lc)"
  unfolding remove_track_entry_def by (rule forget_synced) simp_all

lemma tracks_named_insert:
  "tracks_named sv lc \<Longrightarrow> t < length (sv_tracks sv) \<Longrightarrow> tc_name (sv_tracks sv ! t) = full \<Longrightarrow>
   tracks_named sv (insert_track_entry k full t src lc)"
  by (auto simp: tracks_named_def insert_track_entry_def split: prod.split)

lemma tracks_named_remove: "tracks_named sv lc \<Longrightarrow> tracks_named sv (remove_track_entry k full lc)"
  by (auto simp: tracks_named_def remove_track_entry_def)

definition locals_ok :: "serve_store \<times> locals \<Rightarrow> bool" where
  "locals_ok st \<longleftrightarrow> tracks_named (fst st) (snd st) \<and> retention_synced (snd st)"

lemma tidy_ok: "locals_ok (sv, lc) \<Longrightarrow> locals_ok (sv, lc\<lparr>lc_tracks := tidy k (lc_tracks lc)\<rparr>)"
  by (cases "lc_retention lc") (simp_all add: locals_ok_def tracks_named_def retention_synced_def)

lemma prune_ok: "locals_ok (sv, lc) \<Longrightarrow> locals_ok (sv, prune_closed_tracks sv' k keys lc)"
proof -
  have "locals_ok (sv, lc) \<Longrightarrow> locals_ok (sv, fold (prune_closed_track sv' k) keys lc)"
    by (induction keys arbitrary: lc)
      (auto simp: prune_closed_track_def locals_ok_def remove_synced tracks_named_remove split: option.split)
  then show "locals_ok (sv, lc) \<Longrightarrow> locals_ok (sv, prune_closed_tracks sv' k keys lc)"
    by (simp add: prune_closed_tracks_def Let_def tidy_ok)
qed

inductive locals_step :: "serve_store \<times> locals \<Rightarrow> serve_store \<times> locals \<Rightarrow> bool" where
  l_register: "t < length (sv_tracks sv) \<Longrightarrow> locals_step (sv, lc) (sv, snd (register_track sv scope t lc))"
| l_retrieve: "locals_step (sv, lc) (sv, snd (retrieve_track sv scope full lc))"
| l_list: "locals_step (sv, lc) (sv, snd (list_tracks_matching sv scope pre lc))"
| l_claim: "locals_step st (snd (claim_track scope full src st))"
| l_failed: "t < length (sv_tracks sv) \<Longrightarrow> locals_step (sv, lc) (request_failed scope full t (sv, lc))"
| l_drop: "locals_step (sv, lc) (sv, snd (track_registration_drop k full lc))"
| l_lookup: "locals_step (sv, lc) (sv, snd (retained_track scope full lc))"
| l_store: "length (sv_tracks sv) \<le> length (sv_tracks sv') \<Longrightarrow>
    \<forall>t < length (sv_tracks sv). tc_name (sv_tracks sv' ! t) = tc_name (sv_tracks sv ! t) \<Longrightarrow> locals_step (sv, lc) (sv', lc)"

inductive locals_reachable :: "serve_store \<times> locals \<Rightarrow> bool" where
  l_start: "locals_reachable (sv, locals_new)"
| l_start_retaining: "locals_reachable (sv, with_fetch_retention registry_new locals_new)"
| l_next: "locals_reachable st \<Longrightarrow> locals_step st st' \<Longrightarrow> locals_reachable st'"

lemma request_failed_entries:
  "request_failed scope full t (sv, lc) = (sv', lc') \<Longrightarrow>
   entry_at (lc_tracks lc') k full' = (if k = scope_key_of scope \<and> full' = full then None else entry_at (lc_tracks lc) k full')"
  by (cases "k = scope_key_of scope"; cases "lc_tracks lc k") (auto simp: request_failed_def Let_def bucket_of_def delete_conv')

lemma retained_track_synced:
  assumes "retention_synced lc"
  shows "retained_track scope full lc =
    (case lc_retention lc of None \<Rightarrow> None
     | Some _ \<Rightarrow> (case entry_at (lc_tracks lc) (scope_key_of scope) full of None \<Rightarrow> None | Some e \<Rightarrow> te_retention e), lc)"
proof (cases "lc_retention lc")
  case (Some reg)
  let ?k = "scope_key_of scope"
  have sync: "reg_names reg (retention_key_of ?k full) =
      (case entry_at (lc_tracks lc) ?k full of None \<Rightarrow> None | Some e \<Rightarrow> te_retention e)"
      "\<And>e. entry_at (lc_tracks lc) ?k full = Some e \<Longrightarrow> \<exists>j. te_retention e = Some j \<and> track_alive reg j"
    using assms Some by (simp_all add: retention_synced_def)
  have keep: "lc\<lparr>lc_retention := Some reg\<rparr> = lc" using Some by simp
  have "retention_lookup (retention_key_of ?k full) reg =
      (case entry_at (lc_tracks lc) ?k full of None \<Rightarrow> None | Some e \<Rightarrow> te_retention e, reg)"
    using sync(1) sync(2) by (cases "entry_at (lc_tracks lc) ?k full") (auto simp: retention_lookup_def)
  then show ?thesis by (simp add: retained_track_def Some keep)
qed (simp add: retained_track_def)

lemma locals_step_ok: "locals_step st st' \<Longrightarrow> locals_ok st \<Longrightarrow> locals_ok st'"
proof (induction rule: locals_step.induct)
  case (l_register t sv lc scope)
  then show ?case
    by (auto simp: register_track_def Let_def locals_ok_def insert_synced tracks_named_insert split: option.split)
next
  case (l_retrieve sv lc scope full)
  then show ?case using prune_ok by (auto simp: retrieve_track_def Let_def split: option.split)
next
  case (l_list sv lc scope pre)
  then show ?case using prune_ok by (auto simp: list_tracks_matching_def Let_def)
next
  case (l_claim st scope full src)
  obtain sv lc where st: "st = (sv, lc)" by (cases st)
  obtain t sv1 where p: "track_produce full sv = (t, sv1)" by (cases "track_produce full sv")
  note made = track_produce_at [OF p]
  have named: "tracks_named sv1 lc" using l_claim made(2,3) by (fastforce simp: st locals_ok_def tracks_named_def)
  have "locals_ok (sv1, insert_track_entry (scope_key_of scope) full t Cache lc)"
    using l_claim tracks_named_insert [OF named, of t full] insert_synced made by (simp add: st locals_ok_def)
  then show ?case using l_claim by (auto simp: st claim_track_def Let_def p split: option.split)
next
  case (l_failed t sv lc scope full)
  obtain sv' lc' where r: "request_failed scope full t (sv, lc) = (sv', lc')" by (cases "request_failed scope full t (sv, lc)")
  have "retention_synced lc'"
    using forget_synced [of lc "lc_tracks lc'" "scope_key_of scope" full] l_failed request_failed_entries [OF r] r
    by (auto simp: locals_ok_def request_failed_def Let_def)
  moreover have "tracks_named sv' lc'"
    using l_failed r request_failed_entries [OF r] by (auto simp: locals_ok_def tracks_named_def request_failed_def Let_def split: if_splits)
  ultimately show ?case by (simp add: r locals_ok_def)
next
  case (l_drop sv lc k full)
  then show ?case
    using tidy_ok [of sv lc] remove_synced [of lc] tracks_named_remove [of sv lc]
    by (auto simp: track_registration_drop_def locals_ok_def split: option.split)
next
  case (l_lookup sv lc scope full)
  then show ?case by (simp add: locals_ok_def retained_track_synced)
next
  case (l_store sv sv' lc)
  then show ?case by (fastforce simp: locals_ok_def tracks_named_def)
qed

lemma locals_reachable_ok: "locals_reachable st \<Longrightarrow> locals_ok st"
proof (induction rule: locals_reachable.induct)
  case (l_start_retaining sv)
  then show ?case
    by (simp add: locals_ok_def tracks_named_def retention_synced_def with_fetch_retention_def locals_new_def bucket_of_def registry_new_def)
next
  case (l_start sv)
  then show ?case by (simp add: locals_ok_def tracks_named_def retention_synced_def locals_new_def bucket_of_def)
next
  case (l_next st st')
  then show ?case using locals_step_ok by blast
qed

text \<open>What lookups return: a live track of that name, and for a prefix exactly the live published ones.\<close>

lemma retrieve_track_live:
  assumes "tracks_named sv lc" and "retrieve_track sv scope full lc = (Some t, lc')"
  shows "lc' = lc \<and> \<not> track_is_closed sv t \<and> t < length (sv_tracks sv) \<and> tc_name (sv_tracks sv ! t) = full"
  using assms by (auto simp: retrieve_track_def tracks_named_def Let_def split: option.splits if_splits)

lemma list_tracks_matching_exact:
  assumes "buckets_ok (lc_tracks lc)"
  shows "set (fst (list_tracks_matching sv scope pre lc)) =
    {te_reader e | full e. entry_at (lc_tracks lc) (scope_key_of scope) full = Some e \<and> \<not> track_is_closed sv (te_reader e) \<and>
       te_source e = Published \<and> prefix pre (ftn_namespace full)}"
proof -
  let ?b = "bucket_of (lc_tracks lc) (scope_key_of scope)"
  have "map_of ?b full = Some e \<longleftrightarrow> (full, e) \<in> set ?b" for full e
    using assms by (intro map_of_eq_Some_iff) (simp add: buckets_ok_def)
  then show ?thesis by (force simp: list_tracks_matching_def Let_def is_prefix_of_iff)
qed

text \<open>
  Concurrent requests for one missing track: whichever claims the slot second, on any later
  state in which the slot is still there and open, shares the first one's reader.
\<close>

lemma claim_track_shared:
  assumes "claim_track scope full src (sv, lc) = (Reserved t src', sv', lc')"
    and "entry_at (lc_tracks lc2) (scope_key_of scope) full = entry_at (lc_tracks lc') (scope_key_of scope) full"
    and "\<not> track_is_closed sv2 t"
  shows "claim_track scope full src2 (sv2, lc2) = (Existing t, sv2, lc2)"
proof -
  obtain u sv1 where p: "track_produce full sv = (u, sv1)" by (cases "track_produce full sv")
  have "t = u" "entry_at (lc_tracks lc') (scope_key_of scope) full = Some \<lparr>te_reader = t, te_source = Cache, te_retention = fst (retain_track (scope_key_of scope) full (lc_retention lc))\<rparr>"
    using assms(1) by (auto simp: claim_track_def Let_def p insert_track_entry_def split: option.splits if_splits prod.splits)
  then show ?thesis using assms(2,3) by (simp add: claim_track_def Let_def)
qed

section \<open>A registration outlives its entry\<close>

text \<open>
  A publisher's track closes and is pruned by a lookup; another publisher registers the
  same name; then the first registration is dropped, which removes the second one's track.
\<close>

lemma stale_registration_removes_successor:
  assumes "entry_at (lc_tracks lc) (scope_key_of scope) full = None"
    and "tc_name (sv_tracks sv ! t1) = full" and "tc_name (sv_tracks sv' ! t2) = full"
    and "register_track sv scope t1 lc = (Inr added1, lc1)"
    and "track_is_closed sv' t1" and "retrieve_track sv' scope full lc1 = (found, lc2)"
    and "register_track sv' scope t2 lc2 = (res2, lc3)"
    and "track_registration_drop (scope_key_of scope) full lc3 = (removed, lc4)"
  shows "found = None \<and> res2 = Inr (TrackAdded (scope_key_to_option (scope_key_of scope)) t2) \<and>
    removed = Some (TrackRemoved (scope_key_to_option (scope_key_of scope)) full) \<and>
    fst (retrieve_track sv' scope full lc4) = None"
proof -
  let ?k = "scope_key_of scope"
  have e1: "\<exists>g. entry_at (lc_tracks lc1) ?k full = Some \<lparr>te_reader = t1, te_source = Published, te_retention = g\<rparr>"
    using assms(1,2,4) by (auto simp: register_track_def Let_def insert_track_entry_def split: prod.splits)
  then have e2: "found = None" "entry_at (lc_tracks lc2) ?k full = None"
    using assms(5,6) by (auto simp: retrieve_track_def Let_def prune_closed_tracks_def prune_closed_track_def remove_track_entry_def)
  have e3: "res2 = Inr (TrackAdded (scope_key_to_option ?k) t2)" "entry_at (lc_tracks lc3) ?k full \<noteq> None"
    using e2 assms(3,7) by (auto simp: register_track_def Let_def insert_track_entry_def split: prod.splits)
  then have e4: "removed = Some (TrackRemoved (scope_key_to_option ?k) full)" "entry_at (lc_tracks lc4) ?k full = None"
    using assms(8) by (auto simp: track_registration_drop_def remove_track_entry_def)
  then show ?thesis using e2 e3 by (simp add: retrieve_track_def)
qed

section \<open>Changes sent in another order than they happened\<close>

text \<open>
  A change is broadcast after its lock is released. Dropping a registration and registering
  the namespace again can so be announced the other way round; a follower then misses a
  namespace that is registered.
\<close>

lemma late_change_misleads:
  assumes "entry_at (lc_namespaces lc) k ns = Some e" and "ne_local e \<noteq> None" and "\<not> remote_alive lc (ne_remote e)"
    and "k = scope_key_of scope" and "namespace_registration_drop k ns lc = (gone, lc1)"
    and "register_namespace_inner scope ns src lc1 = (res, back, lc2)"
  shows "(k, ns) \<in> registered lc2 \<and> (scope_key_to_option k, ns) \<notin> apply_change gone (apply_change back view)"
  using assms
  by (auto simp: namespace_registration_drop_def register_namespace_inner_def registered_def keys_of_def change_of_def Let_def)

end
