(* ===== verification/Serve_Properties.thy ===== *)
theory Serve_Properties
  imports Locals
begin

text \<open>
  What the process guarantees between a track's writer and its readers, from the watched
  state at the bottom to the relay's registry of local tracks at the top, and the places
  where it does not.
\<close>

section \<open>Watched state and queues\<close>

text \<open>
  C30. A task whose \<^verbatim>\<open>StateChanged\<close> future was pending has been woken by the time the future
  would be ready, whatever mutations, drops and polls by other tasks happened in between:
  no wake-up on a watched state is lost.
\<close>

theorem watch_wakes_every_waiter:
  assumes "poll_changed epoch waker s = (False, s1)" and "watch_run ops s1 = (woken, s')"
    and "fst (poll_changed epoch waker s')"
  shows "waker \<in> set woken"
proof -
  have "waker \<in> set (w_wakers s1)" "w_epoch s1 \<le> epoch"
    using assms(1) by (auto simp: poll_changed_def register_def split: if_splits)
  moreover have "epoch < w_epoch s'" using assms(3) by (auto simp: poll_changed_def split: if_splits)
  ultimately show ?thesis using watch_run_wakes [OF assms(2), of waker] by auto
qed

theorem watch_wakes_every_waiter_witness:
  "7 \<in> set (fst (watch_run [Mutate (\<lambda>n :: nat. n + 1)] (snd (poll_changed 0 7 (watched_new 3)))))"
proof -
  have "poll_changed 0 7 (watched_new (3 :: nat)) = (False, snd (poll_changed 0 7 (watched_new 3)))"
    by (simp add: poll_changed_def watched_new_def)
  then show ?thesis
    by (rule watch_wakes_every_waiter [of _ _ _ _ "[Mutate (\<lambda>n. n + 1)]" _
          "snd (watch_run [Mutate (\<lambda>n. n + 1)] (snd (poll_changed 0 7 (watched_new 3))))"])
      (simp_all add: poll_changed_def watched_new_def register_def with_mut_def notify_def)
qed

text \<open>
  C29. Over any sequence of pushes, pops, closes and drops on a queue, the items accepted are
  exactly those popped, then those handed back by a close, then those still queued, in this
  order: nothing is lost, duplicated or reordered.
\<close>

theorem queue_is_fifo:
  assumes "fold queue_step ops (queue_new, \<lparr>ql_accepted = [], ql_popped = [], ql_returned = []\<rparr>) = (q, l)"
  shows "ql_accepted l = ql_popped l @ ql_returned l @ map fst (w_value q)"
proof -
  have "queue_inv (queue_new, \<lparr>ql_accepted = [], ql_popped = [], ql_returned = []\<rparr>)"
    by (simp add: queue_inv_def queue_new_def watched_new_def)
  from queue_run_inv [OF this, of ops] assms show ?thesis by (simp add: queue_inv_def)
qed

theorem queue_is_fifo_witness:
  "ql_accepted \<lparr>ql_accepted = [1 :: nat, 2], ql_popped = [1], ql_returned = []\<rparr> = [1] @ [] @ [2]"
proof -
  have "fold queue_step [QPush 1, QPush 2, QPop] (queue_new, \<lparr>ql_accepted = [], ql_popped = [], ql_returned = []\<rparr>) =
      (\<lparr>w_value = [(2 :: nat, None)], w_wakers = [], w_epoch = 3, w_open = True\<rparr>,
       \<lparr>ql_accepted = [1, 2], ql_popped = [1], ql_returned = []\<rparr>)"
    by (simp add: queue_new_def watched_new_def queue_push_def queue_pop_try_def with_mut_def notify_def)
  from queue_is_fifo [OF this] show ?thesis by simp
qed

text \<open>
  C36. \<^verbatim>\<open>Queue::pop\<close> looks for an item under one lock and finds what to wait for under another. An
  item pushed in between is not found, and the epoch waited on is already past the push: the
  future is pending although the queue holds the item, until something else changes it.
\<close>

theorem queue_pop_misses_a_push:
  assumes "w_open q" and "w_value q = []"
  shows "fst (queue_pop_try q) = PopEmpty \<and>
    (\<exists>woken q' epoch. queue_push item q = (Inr (), woken, q') \<and> queue_pop_wait q' = Some epoch \<and>
       \<not> fst (poll_changed epoch waker q') \<and> map fst (w_value q') = [item])"
  using assms by (auto simp: queue_pop_try_def queue_push_def queue_pop_wait_def with_mut_def notify_def modified_def poll_changed_def)

theorem queue_pop_misses_a_push_witness:
  "fst (queue_pop_try (queue_new :: nat queue)) = PopEmpty \<and>
   (\<exists>woken q' epoch. queue_push 5 (queue_new :: nat queue) = (Inr (), woken, q') \<and> queue_pop_wait q' = Some epoch \<and>
      \<not> fst (poll_changed epoch 0 q') \<and> map fst (w_value q') = [5])"
proof -
  have "w_open (queue_new :: nat queue)" "w_value (queue_new :: nat queue) = []" by (simp_all add: queue_new_def watched_new_def)
  then show ?thesis by (rule queue_pop_misses_a_push)
qed

section \<open>Data of a track\<close>

text \<open>
  C23. A ring of \<^verbatim>\<open>depth\<close> datagrams always holds the last \<^verbatim>\<open>depth\<close> (at least one) written. Over any
  interleaving of writes and reads a reader is handed datagrams at strictly increasing
  positions of the history of writes, and the positions it passed over are exactly
  counted as dropped.
\<close>

theorem datagram_reader_skips_and_counts:
  assumes "fold datagram_step ops (watched_new (datagrams_with_depth depth), datagrams_reader_new, [], []) = (s, r, hist, reads)"
    and "length ops < 2 ^ 64"
  shows "ds_ring (w_value s) = drop (length hist - ds_depth (w_value s)) hist \<and>
    (\<exists>ps. reads = map (\<lambda>i. hist ! i) ps \<and> sorted_wrt (<) ps \<and> (\<forall>i \<in> set ps. i < dr_next r) \<and>
       dr_next r \<le> length hist \<and> (length hist < 2 ^ 64 \<longrightarrow> length ps + dr_dropped r = dr_next r))"
proof -
  have "ring_ok [] (w_value (watched_new (datagrams_with_depth depth)))" by (simp add: watched_new_def ring_ok_new)
  moreover have "reader_ok [] [] datagrams_reader_new" by (simp add: reader_ok_def datagrams_reader_new_def)
  ultimately have "ring_ok hist (w_value s) \<and> reader_ok hist reads r"
    using datagram_run_ok [of "[]" "watched_new (datagrams_with_depth depth)" "[]" datagrams_reader_new ops s r hist reads] assms by simp
  then show ?thesis by (auto simp: ring_ok_def reader_ok_def)
qed

definition probe_datagram :: "u64 \<Rightarrow> serve_datagram" where
  "probe_datagram oid = \<lparr>sd_group_id = 0, sd_object_id = oid, sd_priority = 0, sd_payload = [], sd_extension_headers = []\<rparr>"

theorem datagram_reader_skips_and_counts_witness:
  "\<exists>ps. [probe_datagram 1] = map (\<lambda>i. [probe_datagram 0, probe_datagram 1] ! i) ps \<and> sorted_wrt (<) ps"
proof -
  have "fold datagram_step [DWrite (probe_datagram 0), DWrite (probe_datagram 1), DRead]
      (watched_new (datagrams_with_depth 1), datagrams_reader_new, [], []) =
    (\<lparr>w_value = \<lparr>ds_ring = [probe_datagram 1], ds_depth = 1, ds_epoch = 2, ds_closed = None\<rparr>, w_wakers = [], w_epoch = 2, w_open = True\<rparr>,
     \<lparr>dr_next = 2, dr_dropped = 1\<rparr>, [probe_datagram 0, probe_datagram 1], [probe_datagram 1])"
    by (simp add: watched_new_def datagrams_with_depth_def datagrams_reader_new_def datagrams_write_def datagrams_read_def
        ring_push_def with_mut_def notify_def Let_def)
  moreover have "length [DWrite (probe_datagram 0), DWrite (probe_datagram 1), DRead] < 2 ^ 64" by simp
  ultimately show ?thesis
  proof (rule datagram_reader_skips_and_counts [THEN conjunct2, THEN exE], elim conjE)
    fix ps
    assume "[probe_datagram 1] = map (\<lambda>i. [probe_datagram 0, probe_datagram 1] ! i) ps" "sorted_wrt (<) ps"
    then show ?thesis by (intro exI [of _ ps] conjI)
  qed
qed

text \<open>
  C11. Subgroups of a track: over any sequence of \<^verbatim>\<open>create\<close> calls the retained subgroups are in
  creation order, no two with the same group and subgroup id, of at most as many groups as
  the history window; a tap sees every subgroup ever created, in order; and a reader is
  handed the first retained subgroup at or past its cursor and moves right past it.
\<close>

theorem subgroups_ordered_unique_and_bounded:
  assumes "subgroups_creates ops (w0, watched_new subgroups_state_default, [\<lparr>tap_open = True, tap_events = []\<rparr>]) = (hist, w, s, taps)"
    and "sw_newest_group_id w0 = None" and "length ops < 2 ^ 64 - 1"
  shows "sorted_wrt (<) (map fst (ss_subgroups (w_value s))) \<and>
    (\<forall>(i, h) \<in> set (ss_subgroups (w_value s)). i < length hist \<and> hist ! i = h) \<and>
    distinct (map (\<lambda>e. subgroup_key (snd e)) (ss_subgroups (w_value s))) \<and>
    (\<forall>win. sw_history_window w0 = Some win \<longrightarrow>
       card ((\<lambda>e. sgi_group_id (sgh_info (snd e))) ` set (ss_subgroups (w_value s))) \<le> unat win) \<and>
    taps = [\<lparr>tap_open = True, tap_events = hist\<rparr>] \<and>
    (\<forall>c h c'. subgroups_next s c = (Ready (Inr (Some h)), c') \<longrightarrow>
       (\<exists>i. c \<le> i \<and> i < length hist \<and> h = hist ! i \<and> c' = i + 1 \<and>
          (\<forall>j < i. c \<le> j \<longrightarrow> j \<notin> fst ` set (ss_subgroups (w_value s)))))"
proof -
  have start: "subgroups_ok [] (w_value (watched_new subgroups_state_default))" "groups_below w0 (w_value (watched_new subgroups_state_default))"
      "in_window w0 (w_value (watched_new subgroups_state_default))"
    using assms(2) by (simp_all add: watched_new_def subgroups_ok_def groups_below_def in_window_def subgroups_state_default_def split: option.split)
  have ok: "subgroups_ok hist (w_value s)" "groups_below w (w_value s)" "in_window w (w_value s)"
      "sw_history_window w = sw_history_window w0" "taps = [\<lparr>tap_open = True, tap_events = hist\<rparr>]" "length hist \<le> length ops"
    using subgroups_creates_ok [OF start _ assms(1)] assms(3) by simp_all
  have "card ((\<lambda>e. sgi_group_id (sgh_info (snd e))) ` set (ss_subgroups (w_value s))) \<le> unat win"
    if win: "sw_history_window w0 = Some win" for win
  proof (cases "sw_newest_group_id w")
    case None
    then have "ss_subgroups (w_value s) = []" using ok(2) by (cases "ss_subgroups (w_value s)") (auto simp: groups_below_def)
    then show ?thesis by simp
  next
    case (Some new)
    then have "\<forall>(_, h) \<in> set (ss_subgroups (w_value s)). sgi_group_id (sgh_info h) \<le> new" using ok(2) by (auto simp: groups_below_def)
    then show ?thesis using window_bounds_groups [OF _ Some ok(3)] win ok(4) by simp
  qed
  moreover have "\<exists>i. c \<le> i \<and> i < length hist \<and> h = hist ! i \<and> c' = i + 1 \<and>
      (\<forall>j < i. c \<le> j \<longrightarrow> j \<notin> fst ` set (ss_subgroups (w_value s)))"
    if "subgroups_next s c = (Ready (Inr (Some h)), c')" for c h c'
    using subgroups_next_ok [OF ok(1) _ that] ok(6) assms(3) by auto
  ultimately show ?thesis using ok(1,5) unfolding subgroups_ok_def by simp
qed

theorem subgroups_ordered_unique_and_bounded_witness:
  "\<exists>hist w s taps. subgroups_creates [(\<lparr>sgi_group_id = 4, sgi_subgroup_id = 0, sgi_priority = 1\<rparr>, 0)]
     (subgroups_writer_new, watched_new subgroups_state_default, [\<lparr>tap_open = True, tap_events = []\<rparr>]) = (hist, w, s, taps) \<and>
   taps = [\<lparr>tap_open = True, tap_events = hist\<rparr>]"
proof -
  let ?ops = "[(\<lparr>sgi_group_id = 4, sgi_subgroup_id = 0, sgi_priority = 1\<rparr>, 0 :: nat)]"
  obtain hist w s taps where run: "subgroups_creates ?ops
      (subgroups_writer_new, watched_new subgroups_state_default, [\<lparr>tap_open = True, tap_events = []\<rparr>]) = (hist, w, s, taps)"
    by (metis prod_cases4)
  have "taps = [\<lparr>tap_open = True, tap_events = hist\<rparr>]"
    using subgroups_ordered_unique_and_bounded [OF run] by (simp add: subgroups_writer_new_def)
  with run show ?thesis by blast
qed

text \<open>
  An object is read whole or not at all: after any chunk writes, once its writer is gone a
  reader gets the accepted chunks in order if they add up to the promised size, and the
  size error otherwise. Meanwhile a reader polling at any moments is handed chunks in the
  order they were written, without gaps.
\<close>

theorem object_is_read_whole_or_fails:
  assumes "object_writes cs (sz, watched_new object_state_default) = (acc, remain, s)"
  shows "object_read_all (object_writer_drop (remain, s)) 0 [] =
      (if remain = 0 then Ready (Inr (concat acc)) else Ready (Inl SSize)) \<and>
    length (concat acc) + remain = sz \<and>
    (sorted_wrt (\<lambda>a b. prefix (os_chunks (w_value a)) (os_chunks (w_value b))) (ss @ [s]) \<longrightarrow>
       prefix (chunks_in_order.rounds ss 0) acc)"
proof -
  have "os_chunks (w_value s) = acc"
    using object_writes_chunks [OF _ assms] by (simp add: watched_new_def object_state_default_def)
  then show ?thesis using object_complete_or_short [OF assms] chunks_in_order.rounds_in_order [of ss s 0] by simp
qed

theorem object_is_read_whole_or_fails_witness:
  "object_read_all (object_writer_drop (snd (object_writes [[1], [2, 3]] (3, watched_new object_state_default)))) 0 [] = Ready (Inr [1, 2, 3])"
proof -
  have "object_writes [[1], [2, 3]] (3, watched_new object_state_default) =
      ([[1], [2, 3]], 0, \<lparr>w_value = \<lparr>os_chunks = [[1], [2, 3]], os_closed = None\<rparr>, w_wakers = [], w_epoch = 2, w_open = True\<rparr>)"
    by (simp add: object_write_def watched_new_def object_state_default_def with_mut_def notify_def Let_def)
  from object_is_read_whole_or_fails [OF this, of "[]"] this show ?thesis by simp
qed

text \<open>
  C39. Reading a stream group: every object a writer creates has id 0, because the writer's id
  is never advanced; a reader's \<^verbatim>\<open>next\<close> advances its index before using it, so it never
  returns the group's first object, and the call that should return the last one indexes
  past the end and panics.
\<close>

theorem stream_group_reader_is_off_by_one:
  assumes "stream_group_writes szs (0, watched_new stream_group_state_default) = (n, s)"
  shows "n = 0 \<and> length (sgs_objects (w_value s)) = length szs \<and>
    (\<forall>h \<in> set (sgs_objects (w_value s)). sto_object_id (sth_info h) = 0) \<and>
    (\<forall>i. i + 1 < length szs \<longrightarrow>
       stream_group_next s i = (Some (Ready (Inr (Some (sgs_objects (w_value s) ! (i + 1))))), i + 1)) \<and>
    (szs \<noteq> [] \<longrightarrow> fst (stream_group_next s (length szs - 1)) = None)"
proof -
  obtain hs where hs: "n = 0" "sgs_objects (w_value s) = hs" "length hs = length szs" "\<forall>h \<in> set hs. sto_object_id (sth_info h) = 0"
    using stream_group_writes_ids [OF _ assms] by (auto simp: watched_new_def stream_group_state_default_def)
  have "fst (stream_group_next s (length szs - 1)) = None" if "szs \<noteq> []"
  proof -
    from that hs have "sgs_objects (w_value s) \<noteq> []" by auto
    from stream_group_next_panics [OF this] show ?thesis by (simp add: hs)
  qed
  then show ?thesis using hs stream_group_next_shifted [of _ s] by auto
qed

theorem stream_group_reader_is_off_by_one_witness:
  "fst (stream_group_next (snd (stream_group_writes [5] (0, watched_new stream_group_state_default))) 0) = None"
  using stream_group_reader_is_off_by_one [of "[5]"
      "fst (stream_group_writes [5] (0, watched_new stream_group_state_default))"
      "snd (stream_group_writes [5] (0, watched_new stream_group_state_default))"]
  by (simp del: stream_group_writes.simps)

section \<open>Tracks of a broadcast\<close>

text \<open>
  C27. In every reachable state of a broadcast, under any interleaving of its writer, readers and
  request side: a subscription returns a live track of the requested name, asking again
  returns the same one without another request, and it fails only when the other side is
  gone; a subscriber whose request nobody took is answered with a not-found error when the
  request side is dropped.
\<close>

theorem broadcast_subscriptions:
  assumes "tracks_reachable (tk, sv)"
  shows "(\<forall>full t tk' sv'. tracks_subscribe full (tk, sv) = (Some t, tk', sv') \<longrightarrow>
      \<not> track_is_closed sv' t \<and> tc_name (sv_tracks sv' ! t) = full \<and>
      tracks_subscribe full (tk', sv') = (Some t, tk', sv')) \<and>
    (\<forall>full tk' sv'. tracks_subscribe full (tk, sv) = (None, tk', sv') \<longrightarrow> \<not> w_open (tk_state tk) \<or> \<not> w_open (tk_queue tk)) \<and>
    (\<forall>t tk' sv'. w_open (tk_queue tk) \<and> t \<in> set (queued tk) \<and> w_open (track_at sv t) \<and> tracks_request_drop (tk, sv) = (tk', sv') \<longrightarrow>
      track_mode_round sv' t = Ready (Inl SNotFoundWithId) \<and> track_is_closed sv' t)"
proof -
  have ok: "tracks_ok (tk, sv)" by (rule tracks_reachable_ok [OF assms])
  have "\<not> track_is_closed sv' t \<and> tc_name (sv_tracks sv' ! t) = full \<and> tracks_subscribe full (tk', sv') = (Some t, tk', sv')"
    if "tracks_subscribe full (tk, sv) = (Some t, tk', sv')" for full t tk' sv'
    using tracks_subscribe_some [OF ok that] by (simp add: tracks_subscribe_def)
  then show ?thesis using tracks_subscribe_none request_drop_answers [OF ok] by blast
qed

theorem broadcast_subscriptions_witness:
  "fst (tracks_subscribe \<lparr>ftn_namespace = [[1]], ftn_name = [2]\<rparr> (tracks_produce [[1]], store_new)) = Some 0 \<and>
   track_is_closed (snd (snd (tracks_subscribe \<lparr>ftn_namespace = [[1]], ftn_name = [2]\<rparr> (tracks_produce [[1]], store_new)))) 0 = False"
proof -
  let ?r = "tracks_subscribe \<lparr>ftn_namespace = [[1]], ftn_name = [2]\<rparr> (tracks_produce [[1]], store_new)"
  have first: "fst ?r = Some 0"
    by (simp add: tracks_subscribe_def tracks_get_track_reader_def tracks_produce_def track_produce_def store_new_def
        queue_new_def watched_new_def queue_push_def with_mut_def notify_def)
  then have "?r = (Some 0, fst (snd ?r), snd (snd ?r))" by (metis prod.collapse)
  with first show ?thesis using broadcast_subscriptions [OF tracks_start [of "[[1]]"]] by blast
qed

text \<open>
  C40. As soon as a track's writer picks its mode, \<^verbatim>\<open>TrackReader::closed\<close> reports that the track is
  closed without error, although the track is alive and its subgroups are being written:
  picking the mode drops the writer's half of the track's own state.
\<close>

theorem closed_reports_an_open_track:
  assumes "t < length (sv_tracks sv)" and "tr_closed (w_value (track_at sv t)) = None" and "track_subgroups t sv = (Inr c, sv')"
  shows "track_closed_round sv' t = Ready (Inr ()) \<and> \<not> track_is_closed sv' t \<and> w_open (snd (sv_subgroups sv' ! c))"
  using mode_chosen_resolves_closed [OF assms] track_subgroups_mode [OF assms(1,3)] by (simp add: watched_new_def)

definition one_track :: serve_store where
  "one_track = snd (track_produce \<lparr>ftn_namespace = [[1]], ftn_name = [2]\<rparr> store_new)"

theorem closed_reports_an_open_track_witness:
  "track_closed_round (snd (track_subgroups 0 one_track)) 0 = Ready (Inr ())"
proof -
  have "0 < length (sv_tracks one_track)" "tr_closed (w_value (track_at one_track 0)) = None"
    by (simp_all add: one_track_def track_produce_def store_new_def watched_new_def track_state_default_def)
  moreover have "track_subgroups 0 one_track = (Inr 0, snd (track_subgroups 0 one_track))"
    by (simp add: one_track_def track_produce_def store_new_def track_subgroups_def watched_new_def track_state_default_def
        with_mut_def notify_def Let_def)
  ultimately show ?thesis by (rule closed_reports_an_open_track [THEN conjunct1])
qed

section \<open>The relay's registry\<close>

text \<open>
  C18. In every reachable state of the namespace registry, under any interleaving of local
  registrations, remote registrations, their drops and the broadcasts of their changes: a
  namespace stays registered while a local registration or a remote source holds it, and
  every registered namespace has such an owner (a remote source counts until its own drop
  ran); every change made is sent at most once and no other is; the changes in the order they
  were made give the registered namespaces; and a follower of the channel agrees with the
  registry on every namespace whose changes have all been sent in the order they were made.
  The order is not guaranteed, since a change is sent after the lock is released: see
  \<open>late_change_leaves_a_follower_behind\<close>.
\<close>

theorem namespaces_have_owners_and_followers_agree:
  assumes "ns_reachable (lc, regs) made flying sent"
  shows "(\<forall>k ns. (k, ns) \<in> regs \<longrightarrow> (k, ns) \<in> registered lc) \<and>
    (\<forall>i < length (lc_sources lc). rs_holders (lc_sources lc ! i) > 0 \<longrightarrow>
       (rs_scope_key (lc_sources lc ! i), rs_namespace (lc_sources lc ! i)) \<in> registered lc) \<and>
    (\<forall>k ns. (k, ns) \<in> registered lc \<longrightarrow> (k, ns) \<in> regs \<or>
       (\<exists>i < length (lc_sources lc). rs_scope_key (lc_sources lc ! i) = k \<and> rs_namespace (lc_sources lc ! i) = ns \<and>
          \<not> rs_dropped (lc_sources lc ! i))) \<and>
    mset made = mset sent + mset flying \<and>
    follower_view made = apfst scope_key_to_option ` registered lc \<and>
    (\<forall>k ns. filter (concerns (scope_key_to_option k) ns) sent = filter (concerns (scope_key_to_option k) ns) made \<longrightarrow>
       ((scope_key_to_option k, ns) \<in> follower_view sent \<longleftrightarrow> (k, ns) \<in> registered lc))"
proof -
  have inv: "ns_inv (lc, regs)" and made: "follower_view made = apfst scope_key_to_option ` registered lc" "mset made = mset sent + mset flying"
    using ns_reachable_inv [OF assms] by simp_all
  note parts = ns_invD [OF inv]
  have "(k, ns) \<in> registered lc" if "(k, ns) \<in> regs" for k ns
    using parts(2) [of k ns] that by (auto simp: registered_def keys_of_def)
  moreover have "(rs_scope_key (lc_sources lc ! i), rs_namespace (lc_sources lc ! i)) \<in> registered lc"
    if "i < length (lc_sources lc)" "rs_holders (lc_sources lc ! i) > 0" for i
    using parts(3) [OF that(1)] that(2) by (auto simp: source_ok_def registered_def keys_of_def Let_def)
  moreover have "(k, ns) \<in> regs \<or> (\<exists>i < length (lc_sources lc). rs_scope_key (lc_sources lc ! i) = k \<and>
      rs_namespace (lc_sources lc ! i) = ns \<and> \<not> rs_dropped (lc_sources lc ! i))" if "(k, ns) \<in> registered lc" for k ns
  proof -
    from that obtain e where e: "entry_at (lc_namespaces lc) k ns = Some e" by (auto simp: registered_def keys_of_def)
    then show ?thesis using parts(2) [of k ns] parts(4) [OF e] by (auto simp: entry_ok_def)
  qed
  ultimately show ?thesis using made follower_agrees [OF assms] by blast
qed

lemma register_one:
  "register_namespace_inner None [[1]] \<lparr>nsrc_requests = 0, nsrc_fetch = None\<rparr> locals_new =
     (Inr (), Some (change_of [] [[1]] True),
      locals_new\<lparr>lc_namespaces := put_entry [] [[1]] \<lparr>ne_local = Some \<lparr>nsrc_requests = 0, nsrc_fetch = None\<rparr>, ne_remote = None\<rparr> Map.empty\<rparr>)"
  by (simp add: register_namespace_inner_def locals_new_def scope_key_of_def UNSCOPED_def bucket_of_def)

definition one_namespace :: locals where
  "one_namespace = snd (snd (register_namespace_inner None [[1]] \<lparr>nsrc_requests = 0, nsrc_fetch = None\<rparr> locals_new))"

lemma one_namespace_reachable:
  "ns_reachable (one_namespace, {([], [[1]])}) [change_of [] [[1]] True] [] [change_of [] [[1]] True]"
proof -
  have "namespace_step (locals_new, {}) (Some (change_of [] [[1]] True)) (one_namespace, insert (scope_key_of None, [[1]]) {})"
    by (rule ns_register [of _ _ "\<lparr>nsrc_requests = 0, nsrc_fetch = None\<rparr>"]) (simp add: register_one one_namespace_def)
  from ns_next [OF ns_start this] have "ns_reachable (one_namespace, {([], [[1]])}) [change_of [] [[1]] True] [change_of [] [[1]] True] []"
    by (simp add: scope_key_of_def UNSCOPED_def)
  from ns_send [OF this, of 0] show ?thesis by simp
qed

theorem namespaces_have_owners_and_followers_agree_witness:
  "([], [[1]]) \<in> registered one_namespace \<and> (None, [[1]]) \<in> follower_view [change_of [] [[1]] True]"
proof -
  note ok = namespaces_have_owners_and_followers_agree [OF one_namespace_reachable]
  then have "(scope_key_to_option [], [[1]]) \<in> follower_view [change_of [] [[1]] True] \<longleftrightarrow> ([], [[1]]) \<in> registered one_namespace" by blast
  with ok show ?thesis by (simp add: scope_key_to_option_def)
qed

text \<open>
  The order does matter: a registration is dropped and the namespace registered again, and the
  two changes are sent the other way round. Everything has been sent, and the follower misses
  a namespace that is registered.
\<close>

theorem late_change_leaves_a_follower_behind:
  "\<exists>lc regs made sent. ns_reachable (lc, regs) made [] sent \<and> ([], [[1]]) \<in> registered lc \<and> (None, [[1]]) \<notin> follower_view sent"
proof -
  let ?add = "change_of [] [[1]] True" and ?gone = "change_of [] [[1]] False" and ?src = "\<lparr>nsrc_requests = 0, nsrc_fetch = None\<rparr>"
  obtain lc1 where gone: "namespace_registration_drop [] [[1]] one_namespace = (Some ?gone, lc1)" "entry_at (lc_namespaces lc1) [] [[1]] = None"
    by (simp add: one_namespace_def register_one namespace_registration_drop_def remote_alive_def)
  obtain lc2 where again: "register_namespace_inner None [[1]] ?src lc1 = (Inr (), Some ?add, lc2)" "([], [[1]]) \<in> registered lc2"
    using gone(2) by (simp add: register_namespace_inner_def scope_key_of_def UNSCOPED_def registered_def keys_of_def)
  have "namespace_step (one_namespace, {([], [[1]])}) (Some ?gone) (lc1, {([], [[1]])} - {([], [[1]])})"
    by (rule ns_drop [OF _ gone(1)]) simp
  from ns_next [OF one_namespace_reachable this] have "ns_reachable (lc1, {}) [?add, ?gone] [?gone] [?add]" by simp
  from ns_next [OF this ns_register [OF again(1)]]
  have "ns_reachable (lc2, {([], [[1]])}) [?add, ?gone, ?add] [?gone, ?add] [?add]" by (simp add: scope_key_of_def UNSCOPED_def)
  from ns_send [OF ns_send [OF this, of 1], of 0] have "ns_reachable (lc2, {([], [[1]])}) [?add, ?gone, ?add] [] [?add, ?add, ?gone]" by simp
  moreover have "(None, [[1]]) \<notin> follower_view [?add, ?add, ?gone]" by (simp add: follower_view_def change_of_def scope_key_to_option_def)
  ultimately show ?thesis using again(2) by blast
qed

text \<open>
  C28. A request is routed to the local source registered under the longest non-empty prefix of
  the requested namespace, in whatever order the hash map is walked, and to none exactly
  when no registered prefix matches.
\<close>

theorem requests_go_to_the_longest_prefix:
  assumes "ns_reachable (lc, regs) made flying sent"
  shows "(route_namespace scope ns lc = Some src \<longleftrightarrow>
      (\<exists>reg e. entry_at (lc_namespaces lc) (scope_key_of scope) reg = Some e \<and> ne_local e = Some src \<and> prefix reg ns \<and> reg \<noteq> [] \<and>
         (\<forall>reg' e'. entry_at (lc_namespaces lc) (scope_key_of scope) reg' = Some e' \<and> ne_local e' \<noteq> None \<and> prefix reg' ns \<longrightarrow>
            length reg' \<le> length reg)))"
proof -
  let ?b = "bucket_of (lc_namespaces lc) (scope_key_of scope)"
  have ok: "buckets_ok (lc_namespaces lc)" using ns_reachable_inv [OF assms] by (simp add: ns_inv_def)
  have mem: "(reg, e) \<in> set ?b \<longleftrightarrow> map_of ?b reg = Some e" for reg e
    using ok by (simp add: buckets_ok_def)
  have cand: "candidate ns ?b reg s \<longleftrightarrow> (\<exists>e. map_of ?b reg = Some e \<and> ne_local e = Some s) \<and> prefix reg ns \<and> reg \<noteq> []" for reg s
    by (simp add: candidate_def mem)
  have longest: "(\<forall>reg' s'. candidate ns ?b reg' s' \<longrightarrow> length reg' \<le> length reg) \<longleftrightarrow>
      (\<forall>reg' e'. map_of ?b reg' = Some e' \<and> ne_local e' \<noteq> None \<and> prefix reg' ns \<longrightarrow> length reg' \<le> length reg)" for reg
  proof
    assume all: "\<forall>reg' s'. candidate ns ?b reg' s' \<longrightarrow> length reg' \<le> length reg"
    show "\<forall>reg' e'. map_of ?b reg' = Some e' \<and> ne_local e' \<noteq> None \<and> prefix reg' ns \<longrightarrow> length reg' \<le> length reg"
    proof (intro allI impI)
      fix reg' e'
      assume "map_of ?b reg' = Some e' \<and> ne_local e' \<noteq> None \<and> prefix reg' ns"
      then show "length reg' \<le> length reg" using all cand [of reg'] by (cases "reg' = []") auto
    qed
  qed (auto simp: cand)
  show ?thesis
    unfolding route_namespace_longest [OF ok] longest unfolding cand by blast
qed

theorem requests_go_to_the_longest_prefix_witness:
  "route_namespace None [[1], [2]] one_namespace = Some \<lparr>nsrc_requests = 0, nsrc_fetch = None\<rparr>"
proof -
  have entry: "entry_at (lc_namespaces one_namespace) [] reg =
      (if reg = [[1]] then Some \<lparr>ne_local = Some \<lparr>nsrc_requests = 0, nsrc_fetch = None\<rparr>, ne_remote = None\<rparr> else None)" for reg
    by (simp add: one_namespace_def register_one) (simp add: bucket_of_def)
  show ?thesis
    unfolding requests_go_to_the_longest_prefix [OF one_namespace_reachable]
    by (intro exI [of _ "[[1]]"]) (simp add: entry scope_key_of_def UNSCOPED_def)
qed

text \<open>
  C19. In every reachable state of the track registry: a track that is looked up is alive and has
  the name it was looked up by; and what is retained for FETCH under a name is exactly what
  the registered entry's guard holds, so a name without an entry has nothing retained.
\<close>

theorem registry_serves_live_tracks_and_their_retention:
  assumes "locals_reachable (sv, lc)"
  shows "(\<forall>scope full t lc'. retrieve_track sv scope full lc = (Some t, lc') \<longrightarrow>
      \<not> track_is_closed sv t \<and> tc_name (sv_tracks sv ! t) = full) \<and>
    (\<forall>scope full. lc_retention lc \<noteq> None \<longrightarrow>
      fst (retained_track scope full lc) =
        (case entry_at (lc_tracks lc) (scope_key_of scope) full of None \<Rightarrow> None | Some e \<Rightarrow> te_retention e) \<and>
      (\<forall>e. entry_at (lc_tracks lc) (scope_key_of scope) full = Some e \<longrightarrow> fst (retained_track scope full lc) \<noteq> None))"
proof -
  have ok: "tracks_named sv lc" "retention_synced lc" using locals_reachable_ok [OF assms] by (simp_all add: locals_ok_def)
  have "fst (retained_track scope full lc) =
      (case entry_at (lc_tracks lc) (scope_key_of scope) full of None \<Rightarrow> None | Some e \<Rightarrow> te_retention e) \<and>
      (\<forall>e. entry_at (lc_tracks lc) (scope_key_of scope) full = Some e \<longrightarrow> fst (retained_track scope full lc) \<noteq> None)"
    if "lc_retention lc \<noteq> None" for scope full
  proof -
    from that obtain reg where reg: "lc_retention lc = Some reg" by blast
    have "te_retention e \<noteq> None" if "entry_at (lc_tracks lc) (scope_key_of scope) full = Some e" for e
      using ok(2) that reg by (fastforce simp: retention_synced_def)
    then show ?thesis using retained_track_synced [OF ok(2), of scope full] reg by simp
  qed
  then show ?thesis using retrieve_track_live [OF ok(1)] by blast
qed

text \<open>A relay that retains, with one track registered.\<close>

definition one_track_locals :: locals where
  "one_track_locals = snd (register_track one_track None 0 (with_fetch_retention registry_new locals_new))"

theorem registry_serves_live_tracks_and_their_retention_witness:
  "let full = \<lparr>ftn_namespace = [[1]], ftn_name = [2]\<rparr> in
   fst (retrieve_track one_track None full one_track_locals) = Some 0 \<and> \<not> track_is_closed one_track 0 \<and>
   fst (retained_track None full one_track_locals) \<noteq> None"
proof -
  let ?full = "\<lparr>ftn_namespace = [[1]], ftn_name = [2]\<rparr>"
  have t: "0 < length (sv_tracks one_track)" "tc_name (sv_tracks one_track ! 0) = ?full" "\<not> track_is_closed one_track 0"
    by (simp_all add: one_track_def track_produce_def store_new_def track_is_closed_def watched_new_def track_state_default_def modified_def)
  have "locals_step (one_track, with_fetch_retention registry_new locals_new) (one_track, one_track_locals)"
    unfolding one_track_locals_def by (rule l_register [OF t(1)])
  then have r: "locals_reachable (one_track, one_track_locals)" by (rule l_next [OF l_start_retaining])
  have none: "entry_at (lc_tracks locals_new) k full = None" for k full by (simp add: locals_new_def bucket_of_def)
  have e: "\<exists>g. entry_at (lc_tracks one_track_locals) (scope_key_of None) ?full = Some \<lparr>te_reader = 0, te_source = Published, te_retention = g\<rparr>"
    "lc_retention one_track_locals \<noteq> None"
    using t(2) none by (auto simp: one_track_locals_def register_track_def with_fetch_retention_def Let_def insert_track_entry_def
        retain_track_def drop_guard_def split: prod.splits)
  then have found: "retrieve_track one_track None ?full one_track_locals = (Some 0, one_track_locals)"
    using t(3) by (auto simp: retrieve_track_def Let_def)
  note ok = registry_serves_live_tracks_and_their_retention [OF r]
  have "\<not> track_is_closed one_track 0" using ok found by blast
  moreover have "fst (retained_track None ?full one_track_locals) \<noteq> None" using ok e by blast
  ultimately show ?thesis using found by simp
qed

text \<open>
  C38. A registration is dropped by name. When a publisher's track closed and was pruned by a
  lookup, and another publisher registered the same name, dropping the first registration
  removes the second publisher's live track and announces its removal.
\<close>

theorem stale_registration_removes_another_track:
  assumes "entry_at (lc_tracks lc) (scope_key_of scope) full = None"
    and "tc_name (sv_tracks sv ! t1) = full" and "tc_name (sv_tracks sv' ! t2) = full"
    and "register_track sv scope t1 lc = (Inr added1, lc1)"
    and "track_is_closed sv' t1" and "\<not> track_is_closed sv' t2"
    and "retrieve_track sv' scope full lc1 = (found, lc2)"
    and "register_track sv' scope t2 lc2 = (res2, lc3)"
    and "track_registration_drop (scope_key_of scope) full lc3 = (removed, lc4)"
  shows "fst (retrieve_track sv' scope full lc3) = Some t2 \<and> fst (retrieve_track sv' scope full lc4) = None \<and>
    removed = Some (TrackRemoved (scope_key_to_option (scope_key_of scope)) full)"
proof -
  note gone = stale_registration_removes_successor [OF assms(1-5,7-9)]
  have "entry_at (lc_tracks lc2) (scope_key_of scope) full = None"
    using gone assms(8) by (auto simp: register_track_def assms(3) Let_def split: option.splits)
  then have "\<exists>g. entry_at (lc_tracks lc3) (scope_key_of scope) full = Some \<lparr>te_reader = t2, te_source = Published, te_retention = g\<rparr>"
    using assms(3,8) by (auto simp: register_track_def Let_def insert_track_entry_def split: prod.splits)
  then show ?thesis using gone assms(6) by (auto simp: retrieve_track_def Let_def)
qed

definition two_tracks :: serve_store where
  "two_tracks = snd (track_produce \<lparr>ftn_namespace = [[1]], ftn_name = [2]\<rparr> one_track)"

theorem stale_registration_removes_another_track_witness:
  "let full = \<lparr>ftn_namespace = [[1]], ftn_name = [2]\<rparr>;
       sv' = snd (track_close SDone 0 two_tracks);
       lc1 = snd (register_track two_tracks None 0 locals_new);
       lc2 = snd (retrieve_track sv' None full lc1);
       lc3 = snd (register_track sv' None 1 lc2) in
   fst (retrieve_track sv' None full (snd (track_registration_drop [] full lc3))) = None"
proof -
  let ?full = "\<lparr>ftn_namespace = [[1]], ftn_name = [2]\<rparr>"
  let ?sv' = "snd (track_close SDone 0 two_tracks)"
  let ?lc1 = "snd (register_track two_tracks None 0 locals_new)"
  let ?lc2 = "snd (retrieve_track ?sv' None ?full ?lc1)"
  let ?lc3 = "snd (register_track ?sv' None 1 ?lc2)"
  have k: "scope_key_of None = []" by (simp add: scope_key_of_def UNSCOPED_def)
  have names: "tc_name (sv_tracks two_tracks ! 0) = ?full" "tc_name (sv_tracks ?sv' ! 1) = ?full"
    by (simp_all add: two_tracks_def one_track_def track_produce_def store_new_def track_close_def split: prod.split)
  have closed: "track_is_closed ?sv' 0" "\<not> track_is_closed ?sv' 1"
    by (simp_all add: two_tracks_def one_track_def track_produce_def store_new_def track_close_def put_track_def close_and_drop_def
        close_with_def with_mut_def notify_def drop_half_def watched_new_def track_state_default_def track_is_closed_def modified_def)
  have none: "entry_at (lc_tracks locals_new) (scope_key_of None) ?full = None" by (simp add: locals_new_def bucket_of_def)
  have reg: "register_track two_tracks None 0 locals_new = (Inr (TrackAdded (scope_key_to_option []) 0), ?lc1)"
    using none names(1) by (simp add: register_track_def Let_def k)
  show ?thesis
    unfolding Let_def
    using stale_registration_removes_another_track [OF none names reg closed prod.collapse [symmetric] prod.collapse [symmetric] prod.collapse [symmetric]]
    by (simp add: k)
qed

end
