(* ===== verification/Upstream.thy ===== *)
theory Upstream
  imports Covering Locals
begin

text \<open>
  The relay's shared upstream namespace subscriptions
  (\<^verbatim>\<open>moq-relay-ietf/src/upstream_namespaces.rs\<close>). Downstream sessions hold leases on prefixes; the
  lease registry turns them into commands; one runner takes the commands, keeps the
  minimal prefix cover of the active prefixes per group and holds a root for each covering
  prefix, with one pull per relay. When the cover changes, old pulls of a relay have to end
  before new ones start there. Hash maps and sets are association lists in some order; the
  order in which a delta is walked, the relays the coordinator names and the pulls whose
  task still listens for cancellation are arguments. Counters of ids are natural numbers.
\<close>

section \<open>Leases\<close>

datatype session_interface = PublicInterface | InternalInterface

type_synonym group_key = "string option \<times> session_interface"

type_synonym prefix_key = "group_key \<times> track_namespace_prefix"

datatype pull_outcome = Intentional bool | Rejected | OpenFailed | Ended

datatype namespace_event = NamespaceAdded track_namespace | NamespaceRemoved track_namespace

datatype command =
    CSubscribe prefix_key nat
  | CUnsubscribe prefix_key nat
  | CPullEvent nat nat namespace_event
  | CPullEnded nat nat pull_outcome

text \<open>
  A slot is its generation, and the interest of that generation upgrades while it has
  leases. \<open>lr_leases\<close> counts the leases of each generation; an interest whose last lease went
  is dropped some time later.
\<close>

record lease_registry =
  lr_slots :: "prefix_key \<Rightarrow> nat option"
  lr_next_generation :: nat
  lr_leases :: "nat \<Rightarrow> nat"
  lr_commands :: "command list"
  lr_closed :: bool

definition lease_registry_new :: lease_registry where
  "lease_registry_new = \<lparr>lr_slots = Map.empty, lr_next_generation = 0, lr_leases = (\<lambda>_. 0), lr_commands = [], lr_closed = False\<rparr>"

text \<open>\<^verbatim>\<open>UpstreamNamespaces::subscribe\<close>: the generation leased, or an error when the runner is gone.\<close>

definition lease_subscribe :: "prefix_key \<Rightarrow> lease_registry \<Rightarrow> nat option \<times> lease_registry" where
  "lease_subscribe key lr =
     (case (case lr_slots lr key of None \<Rightarrow> None | Some gen \<Rightarrow> if lr_leases lr gen > 0 then Some gen else None) of
        Some gen \<Rightarrow> (Some gen, lr\<lparr>lr_leases := (lr_leases lr)(gen := lr_leases lr gen + 1)\<rparr>)
      | None \<Rightarrow>
          let gen = lr_next_generation lr;
              lr = lr\<lparr>lr_next_generation := gen + 1, lr_slots := (lr_slots lr)(key \<mapsto> gen)\<rparr> in
          if lr_closed lr then (None, lr\<lparr>lr_slots := (lr_slots lr)(key := None)\<rparr>)
          else (Some gen, lr\<lparr>lr_commands := lr_commands lr @ [CSubscribe key gen], lr_leases := (lr_leases lr)(gen := 1)\<rparr>))"

definition lease_release :: "nat \<Rightarrow> lease_registry \<Rightarrow> lease_registry" where
  "lease_release gen lr = lr\<lparr>lr_leases := (lr_leases lr)(gen := lr_leases lr gen - 1)\<rparr>"

text \<open>\<^verbatim>\<open>Drop for PrefixInterest\<close>\<close>

definition interest_drop :: "prefix_key \<Rightarrow> nat \<Rightarrow> lease_registry \<Rightarrow> lease_registry" where
  "interest_drop key gen lr =
     (if lr_slots lr key \<noteq> Some gen then lr
      else lr\<lparr>lr_slots := (lr_slots lr)(key := None),
              lr_commands := (if lr_closed lr then lr_commands lr else lr_commands lr @ [CUnsubscribe key gen])\<rparr>)"

section \<open>The runner's state\<close>

type_synonym relay_key = "string \<times> nat option"

record pull_state =
  pl_relay :: relay_key
  pl_cancel :: bool

text \<open>Registrations are numbers of remote sources of \<^verbatim>\<open>Locals\<close>.\<close>

record root_state =
  rt_id :: nat
  rt_key :: prefix_key
  rt_relays :: "relay_key list"
  rt_pulls :: "(nat \<times> pull_state) list"
  rt_sources :: "(nat \<times> (track_namespace \<times> nat) list) list"
  rt_retained :: "(track_namespace \<times> nat list) list"
  rt_retiring :: bool

record relay_transition =
  rl_waiting :: "nat list"
  rl_targets :: "(nat \<times> relay_key) list"
  rl_started :: bool

record transition =
  tn_removed :: "nat list"
  tn_old_pulls :: "(nat \<times> relay_key) list"
  tn_relays :: "(relay_key \<times> relay_transition) list"

text \<open>\<open>rn_spawned\<close> is the pull tasks spawned so far: pull, root, relay.\<close>

record runner =
  rn_covering :: "group_key \<Rightarrow> covering_prefix_set"
  rn_active :: "prefix_key \<Rightarrow> nat option"
  rn_roots :: "(nat \<times> root_state) list"
  rn_root_ids :: "(prefix_key \<times> nat) list"
  rn_next_root_id :: nat
  rn_next_pull_id :: nat
  rn_transition :: "transition option"
  rn_deferred :: "command list"
  rn_locals :: locals
  rn_spawned :: "(nat \<times> nat \<times> relay_key) list"

definition runner_new :: "locals \<Rightarrow> runner" where
  "runner_new lc = \<lparr>rn_covering = (\<lambda>_. cps_default), rn_active = Map.empty, rn_roots = [], rn_root_ids = [],
     rn_next_root_id = 0, rn_next_pull_id = 0, rn_transition = None, rn_deferred = [], rn_locals = lc, rn_spawned = []\<rparr>"

section \<open>Roots and pulls\<close>

text \<open>\<^verbatim>\<open>prepare_root\<close> with the relays of the coordinator's subscription, none when it failed.\<close>

definition prepare_root :: "prefix_key \<Rightarrow> relay_key list \<Rightarrow> runner \<Rightarrow> root_state \<times> runner" where
  "prepare_root key relays rn =
     (\<lparr>rt_id = rn_next_root_id rn, rt_key = key, rt_relays = relays, rt_pulls = [], rt_sources = [], rt_retained = [],
       rt_retiring = False\<rparr>, rn\<lparr>rn_next_root_id := rn_next_root_id rn + 1\<rparr>)"

definition put_root :: "root_state \<Rightarrow> runner \<Rightarrow> runner" where
  "put_root root rn = rn\<lparr>rn_roots := AList.update (rt_id root) root (rn_roots rn)\<rparr>"

definition enter_root :: "root_state \<Rightarrow> runner \<Rightarrow> runner" where
  "enter_root root rn = put_root root (rn\<lparr>rn_root_ids := AList.update (rt_key root) (rt_id root) (rn_root_ids rn)\<rparr>)"

definition start_pull :: "nat \<times> relay_key \<Rightarrow> runner \<Rightarrow> runner" where
  "start_pull target rn =
     (case target of (root_id, relay) \<Rightarrow>
        case map_of (rn_roots rn) root_id of
          None \<Rightarrow> rn
        | Some root \<Rightarrow>
            let pull_id = rn_next_pull_id rn in
            rn\<lparr>rn_next_pull_id := pull_id + 1,
               rn_spawned := rn_spawned rn @ [(pull_id, root_id, relay)],
               rn_roots := AList.update root_id
                 (root\<lparr>rt_pulls := AList.update pull_id \<lparr>pl_relay = relay, pl_cancel = True\<rparr> (rt_pulls root)\<rparr>) (rn_roots rn)\<rparr>)"

definition start_root :: "root_state \<Rightarrow> runner \<Rightarrow> runner" where
  "start_root root rn = fold start_pull (map (Pair (rt_id root)) (rt_relays root)) (enter_root root rn)"

text \<open>Dropping registrations releases their sources.\<close>

definition drop_registrations :: "nat list \<Rightarrow> runner \<Rightarrow> runner" where
  "drop_registrations regs rn = rn\<lparr>rn_locals := fold remote_release regs (rn_locals rn)\<rparr>"

section \<open>Transitions\<close>

definition complete_old_pull :: "nat \<Rightarrow> transition \<Rightarrow> transition" where
  "complete_old_pull pull_id tn =
     (case map_of (tn_old_pulls tn) pull_id of
        None \<Rightarrow> tn
      | Some relay \<Rightarrow>
          let tn = tn\<lparr>tn_old_pulls := AList.delete pull_id (tn_old_pulls tn)\<rparr> in
          case map_of (tn_relays tn) relay of
            None \<Rightarrow> tn
          | Some rl \<Rightarrow> tn\<lparr>tn_relays := AList.update relay (rl\<lparr>rl_waiting := removeAll pull_id (rl_waiting rl)\<rparr>) (tn_relays tn)\<rparr>)"

definition relay_entry :: "relay_key \<Rightarrow> (relay_key \<times> relay_transition) list \<Rightarrow> relay_transition" where
  "relay_entry relay rls =
     (case map_of rls relay of None \<Rightarrow> \<lparr>rl_waiting = [], rl_targets = [], rl_started = False\<rparr> | Some rl \<Rightarrow> rl)"

definition plan_old :: "nat \<times> relay_key \<Rightarrow> (nat \<times> relay_key) list \<times> (relay_key \<times> relay_transition) list \<Rightarrow>
    (nat \<times> relay_key) list \<times> (relay_key \<times> relay_transition) list" where
  "plan_old p st =
     (case p of (pull_id, relay) \<Rightarrow> case st of (old_pulls, rls) \<Rightarrow>
        let rl = relay_entry relay rls in
        (AList.update pull_id relay old_pulls,
         AList.update relay (rl\<lparr>rl_waiting := List.insert pull_id (rl_waiting rl)\<rparr>) rls))"

definition plan_target :: "nat \<times> relay_key \<Rightarrow> (relay_key \<times> relay_transition) list \<Rightarrow> (relay_key \<times> relay_transition) list" where
  "plan_target t rls =
     (let rl = relay_entry (snd t) rls in AList.update (snd t) (rl\<lparr>rl_targets := rl_targets rl @ [t]\<rparr>) rls)"

definition plan_relay_transitions ::
    "(nat \<times> relay_key) list \<Rightarrow> (nat \<times> relay_key) list \<Rightarrow> (nat \<times> relay_key) list \<times> (relay_key \<times> relay_transition) list" where
  "plan_relay_transitions old targets =
     (case fold plan_old old ([], []) of (old_pulls, rls) \<Rightarrow> (old_pulls, fold plan_target targets rls))"

definition relay_ready :: "relay_transition \<Rightarrow> bool" where
  "relay_ready rl \<longleftrightarrow> \<not> rl_started rl \<and> rl_waiting rl = []"

definition take_ready_targets :: "transition \<Rightarrow> (nat \<times> relay_key) list \<times> transition" where
  "take_ready_targets tn =
     (concat (map (\<lambda>(_, rl). rl_targets rl) (filter (\<lambda>(_, rl). relay_ready rl) (tn_relays tn))),
      tn\<lparr>tn_relays := map (\<lambda>(relay, rl). (relay, if relay_ready rl then rl\<lparr>rl_started := True, rl_targets := []\<rparr> else rl)) (tn_relays tn)\<rparr>)"

definition mark_old_pull_complete :: "nat \<Rightarrow> runner \<Rightarrow> runner" where
  "mark_old_pull_complete pull_id rn = rn\<lparr>rn_transition := map_option (complete_old_pull pull_id) (rn_transition rn)\<rparr>"

definition start_ready_relay_transitions :: "runner \<Rightarrow> runner" where
  "start_ready_relay_transitions rn =
     (case rn_transition rn of
        None \<Rightarrow> rn
      | Some tn \<Rightarrow> (case take_ready_targets tn of (ready, tn) \<Rightarrow> fold start_pull ready (rn\<lparr>rn_transition := Some tn\<rparr>)))"

definition held_registrations :: "root_state \<Rightarrow> nat list" where
  "held_registrations root =
     concat (map (\<lambda>(_, regs). map snd regs) (rt_sources root)) @ concat (map snd (rt_retained root))"

definition remove_root :: "nat \<Rightarrow> runner \<Rightarrow> runner" where
  "remove_root root_id rn =
     (case map_of (rn_roots rn) root_id of
        None \<Rightarrow> rn
      | Some root \<Rightarrow>
          drop_registrations (held_registrations root)
            (rn\<lparr>rn_roots := AList.delete root_id (rn_roots rn), rn_root_ids := AList.delete (rt_key root) (rn_root_ids rn)\<rparr>))"

definition finish_transition_if_ready :: "runner \<Rightarrow> runner" where
  "finish_transition_if_ready rn =
     (case rn_transition rn of
        None \<Rightarrow> rn
      | Some tn \<Rightarrow> if tn_old_pulls tn = [] then fold remove_root (tn_removed tn) (rn\<lparr>rn_transition := None\<rparr>) else rn)"

text \<open>\<^verbatim>\<open>transfer_registration\<close>: to the first added root that covers the namespace, else back.\<close>

definition retain_registration :: "track_namespace \<Rightarrow> nat \<Rightarrow> root_state \<Rightarrow> root_state" where
  "retain_registration ns reg root =
     root\<lparr>rt_retained := AList.update ns ((case map_of (rt_retained root) ns of None \<Rightarrow> [] | Some rs \<Rightarrow> rs) @ [reg]) (rt_retained root)\<rparr>"

fun transfer_registration :: "track_namespace \<Rightarrow> nat \<Rightarrow> root_state \<times> root_state list \<Rightarrow> root_state \<times> root_state list" where
  "transfer_registration ns reg (old, []) = (retain_registration ns reg old, [])"
| "transfer_registration ns reg (old, root # roots) =
     (if is_prefix_of (snd (rt_key root)) ns then (old, retain_registration ns reg root # roots)
      else case transfer_registration ns reg (old, roots) of (old, roots) \<Rightarrow> (old, root # roots))"

definition transfer_all :: "(track_namespace \<times> nat) list \<Rightarrow> root_state \<times> root_state list \<Rightarrow> root_state \<times> root_state list" where
  "transfer_all regs st = fold (\<lambda>(ns, reg). transfer_registration ns reg) regs st"

definition retire_root :: "nat \<Rightarrow> root_state list \<times> runner \<Rightarrow> root_state list \<times> runner" where
  "retire_root root_id st =
     (case st of (added, rn) \<Rightarrow>
        case map_of (rn_roots rn) root_id of
          None \<Rightarrow> (added, rn)
        | Some root \<Rightarrow>
            case transfer_all (concat (map snd (rt_sources root))) (root\<lparr>rt_retiring := True, rt_sources := []\<rparr>, added) of
              (root, added) \<Rightarrow>
                case transfer_all (concat (map (\<lambda>(ns, regs). map (Pair ns) regs) (rt_retained root))) (root\<lparr>rt_retained := []\<rparr>, added) of
                  (root, added) \<Rightarrow> (added, put_root root rn))"

text \<open>Cancelling the pulls of a removed root; those whose task is gone are complete at once.\<close>

definition cancel_pulls :: "nat list \<Rightarrow> nat \<Rightarrow> nat list \<times> runner \<Rightarrow> nat list \<times> runner" where
  "cancel_pulls listening root_id st =
     (case st of (completed, rn) \<Rightarrow>
        case map_of (rn_roots rn) root_id of
          None \<Rightarrow> (completed, rn)
        | Some root \<Rightarrow>
            let sent = (\<lambda>(pull_id, pull). pl_cancel pull \<and> pull_id \<in> set listening) in
            (completed @ map fst (filter (\<lambda>p. \<not> sent p) (rt_pulls root)),
             put_root (root\<lparr>rt_pulls := map (\<lambda>(pull_id, pull). (pull_id, pull\<lparr>pl_cancel := False\<rparr>)) (filter sent (rt_pulls root))\<rparr>) rn))"

fun prepare_roots :: "(prefix_key \<times> relay_key list) list \<Rightarrow> runner \<Rightarrow> root_state list \<times> runner" where
  "prepare_roots [] rn = ([], rn)"
| "prepare_roots ((key, relays) # keys) rn =
     (case prepare_root key relays rn of (root, rn) \<Rightarrow>
        case prepare_roots keys rn of (roots, rn) \<Rightarrow> (root # roots, rn))"

definition root_pulls :: "runner \<Rightarrow> nat \<Rightarrow> (nat \<times> relay_key) list" where
  "root_pulls rn root_id =
     (case map_of (rn_roots rn) root_id of
        None \<Rightarrow> [] | Some root \<Rightarrow> map (\<lambda>(pull_id, pull). (pull_id, pl_relay pull)) (rt_pulls root))"

definition begin_transition :: "nat list \<Rightarrow> root_state list \<Rightarrow> runner \<Rightarrow> runner" where
  "begin_transition removed added rn =
     (case plan_relay_transitions (concat (map (root_pulls rn) removed))
             (concat (map (\<lambda>root. map (Pair (rt_id root)) (rt_relays root)) added)) of
        (old_pulls, rls) \<Rightarrow> rn\<lparr>rn_transition := Some \<lparr>tn_removed = removed, tn_old_pulls = old_pulls, tn_relays = rls\<rparr>\<rparr>)"

definition apply_delta ::
    "group_key \<Rightarrow> track_namespace_prefix list \<Rightarrow> track_namespace_prefix list \<Rightarrow> (track_namespace_prefix \<Rightarrow> relay_key list) \<Rightarrow>
     nat list \<Rightarrow> runner \<Rightarrow> runner" where
  "apply_delta grp added removed relays_of listening rn =
     (if added = [] \<and> removed = [] then rn
      else
        let removed_ids = remdups (List.map_filter (\<lambda>p. map_of (rn_root_ids rn) (grp, p)) removed) in
        case prepare_roots (map (\<lambda>p. ((grp, p), relays_of p)) added) rn of (roots, rn) \<Rightarrow>
          if removed_ids = [] then fold start_root roots rn
          else
            case fold retire_root removed_ids (roots, rn) of (roots, rn) \<Rightarrow>
              let rn = begin_transition removed_ids roots (fold enter_root roots rn) in
              case fold (cancel_pulls listening) removed_ids ([], rn) of (completed, rn) \<Rightarrow>
                finish_transition_if_ready (start_ready_relay_transitions (fold mark_old_pull_complete completed rn)))"

section \<open>Commands\<close>

text \<open>What the environment decides while a command is handled: the orders of the delta, the
  coordinator's answers and the pulls still listening.\<close>

record environment =
  en_order :: "track_namespace_prefix set \<Rightarrow> track_namespace_prefix list"
  en_relays :: "track_namespace_prefix \<Rightarrow> relay_key list"
  en_listening :: "nat list"

definition apply_root_delta :: "environment \<Rightarrow> group_key \<Rightarrow> root_delta \<Rightarrow> runner \<Rightarrow> runner" where
  "apply_root_delta en grp d rn =
     apply_delta grp (en_order en (rd_added d)) (en_order en (rd_removed d)) (en_relays en) (en_listening en) rn"

definition add_interest :: "environment \<Rightarrow> prefix_key \<Rightarrow> nat \<Rightarrow> runner \<Rightarrow> runner" where
  "add_interest en key gen rn =
     (if (case rn_active rn key of None \<Rightarrow> False | Some g \<Rightarrow> g \<ge> gen) then rn
      else
        let first = (rn_active rn key = None);
            rn = rn\<lparr>rn_active := (rn_active rn)(key \<mapsto> gen)\<rparr> in
        if \<not> first then rn
        else
          case cps_add (snd key) (rn_covering rn (fst key)) of (d, c) \<Rightarrow>
            apply_root_delta en (fst key) d (rn\<lparr>rn_covering := (rn_covering rn)(fst key := c)\<rparr>))"

definition remove_interest :: "environment \<Rightarrow> prefix_key \<Rightarrow> nat \<Rightarrow> runner \<Rightarrow> runner" where
  "remove_interest en key gen rn =
     (if rn_active rn key \<noteq> Some gen then rn
      else
        let rn = rn\<lparr>rn_active := (rn_active rn)(key := None)\<rparr> in
        case cps_remove (snd key) (rn_covering rn (fst key)) of (d, c) \<Rightarrow>
          apply_root_delta en (fst key) d (rn\<lparr>rn_covering := (rn_covering rn)(fst key := c)\<rparr>))"

definition handle_pull_event :: "nat \<Rightarrow> nat \<Rightarrow> namespace_event \<Rightarrow> runner \<Rightarrow> runner" where
  "handle_pull_event root_id pull_id ev rn =
     (case map_of (rn_roots rn) root_id of
        None \<Rightarrow> rn
      | Some root \<Rightarrow>
          if rt_retiring root \<or> map_of (rt_pulls root) pull_id = None then rn
          else
            let sources = (case map_of (rt_sources root) pull_id of None \<Rightarrow> [] | Some ss \<Rightarrow> ss) in
            case ev of
              NamespaceAdded ns \<Rightarrow>
                if \<not> is_prefix_of (snd (rt_key root)) ns then rn
                else if map_of sources ns \<noteq> None
                then put_root (root\<lparr>rt_sources := AList.update pull_id sources (rt_sources root)\<rparr>) rn
                else
                  (case register_remote_namespace (fst (fst (rt_key root))) ns (rn_locals rn) of (reg, _, lc) \<Rightarrow>
                     drop_registrations (case map_of (rt_retained root) ns of None \<Rightarrow> [] | Some rs \<Rightarrow> rs)
                       (put_root (root\<lparr>rt_sources := AList.update pull_id (AList.update ns reg sources) (rt_sources root),
                                       rt_retained := AList.delete ns (rt_retained root)\<rparr>) (rn\<lparr>rn_locals := lc\<rparr>)))
            | NamespaceRemoved ns \<Rightarrow>
                if map_of (rt_sources root) pull_id = None then rn
                else drop_registrations (case map_of sources ns of None \<Rightarrow> [] | Some reg \<Rightarrow> [reg])
                  (put_root (root\<lparr>rt_sources := AList.update pull_id (AList.delete ns sources) (rt_sources root)\<rparr>) rn))"

text \<open>The outcome is only logged.\<close>

definition handle_pull_ended :: "nat \<Rightarrow> nat \<Rightarrow> pull_outcome \<Rightarrow> runner \<Rightarrow> runner" where
  "handle_pull_ended root_id pull_id outcome rn =
     (case map_of (rn_roots rn) root_id of
        None \<Rightarrow> rn
      | Some root \<Rightarrow>
          let regs = (case map_of (rt_sources root) pull_id of None \<Rightarrow> [] | Some ss \<Rightarrow> map snd ss);
              root = root\<lparr>rt_pulls := AList.delete pull_id (rt_pulls root), rt_sources := AList.delete pull_id (rt_sources root)\<rparr> in
          finish_transition_if_ready (start_ready_relay_transitions
            (mark_old_pull_complete pull_id (drop_registrations regs (put_root root rn)))))"

fun is_interest :: "command \<Rightarrow> bool" where
  "is_interest (CSubscribe _ _) = True"
| "is_interest (CUnsubscribe _ _) = True"
| "is_interest _ = False"

fun dispatch :: "environment \<Rightarrow> command \<Rightarrow> runner \<Rightarrow> runner" where
  "dispatch en (CSubscribe key gen) rn = add_interest en key gen rn"
| "dispatch en (CUnsubscribe key gen) rn = remove_interest en key gen rn"
| "dispatch en (CPullEvent root_id pull_id ev) rn = handle_pull_event root_id pull_id ev rn"
| "dispatch en (CPullEnded root_id pull_id outcome) rn = handle_pull_ended root_id pull_id outcome rn"

text \<open>
  One round of \<^verbatim>\<open>run\<close>: a deferred command when no transition is under way, else a received one,
  which is deferred when it is about interest and a transition is under way. \<open>None\<close> when
  there is nothing to take.
\<close>

definition run_round :: "environment \<Rightarrow> command list \<Rightarrow> runner \<Rightarrow> (command list \<times> runner) option" where
  "run_round en received rn =
     (if rn_transition rn = None \<and> rn_deferred rn \<noteq> []
      then Some (received, dispatch en (hd (rn_deferred rn)) (rn\<lparr>rn_deferred := tl (rn_deferred rn)\<rparr>))
      else
        case received of
          [] \<Rightarrow> None
        | c # received \<Rightarrow>
            if rn_transition rn \<noteq> None \<and> is_interest c then Some (received, rn\<lparr>rn_deferred := rn_deferred rn @ [c]\<rparr>)
            else Some (received, dispatch en c rn))"

definition is_retryable :: "pull_outcome \<Rightarrow> bool" where
  "is_retryable outcome \<longleftrightarrow> outcome = Rejected \<or> outcome = OpenFailed"

text \<open>Durations in milliseconds; doubling saturates far above the cap.\<close>

definition INITIAL_RETRY_BACKOFF :: nat where
  "INITIAL_RETRY_BACKOFF = 100"

definition MAX_RETRY_BACKOFF :: nat where
  "MAX_RETRY_BACKOFF = 30000"

definition next_backoff :: "nat \<Rightarrow> nat" where
  "next_backoff current = min (current * 2) MAX_RETRY_BACKOFF"

text \<open>
  \<^verbatim>\<open>run_pull\<close> over what happens to it: the outcome of each attempt of \<^verbatim>\<open>run_pull_inner\<close> and whether the
  cancellation arrives while it sleeps after it. The result is the outcome reported in
  \<^verbatim>\<open>PullEnded\<close> and the sleeps; \<open>None\<close> while it is still running.
\<close>

fun run_pull :: "nat \<Rightarrow> (pull_outcome \<times> bool) list \<Rightarrow> (pull_outcome \<times> nat list) option" where
  "run_pull backoff [] = None"
| "run_pull backoff ((outcome, cancelled) # attempts) =
     (if \<not> is_retryable outcome then Some (outcome, [])
      else if cancelled then Some (Intentional False, [backoff])
      else map_option (map_prod id (Cons backoff)) (run_pull (next_backoff backoff) attempts))"

lemma run_pull_outcome: "run_pull backoff attempts = Some (outcome, sleeps) \<Longrightarrow> \<not> is_retryable outcome"
  by (induction backoff attempts arbitrary: sleeps rule: run_pull.induct) (auto simp: is_retryable_def split: if_splits)

lemma next_backoff_bounds: "b \<le> MAX_RETRY_BACKOFF \<Longrightarrow> b \<le> next_backoff b \<and> next_backoff b \<le> MAX_RETRY_BACKOFF"
  by (simp add: next_backoff_def)

lemma run_pull_sleeps:
  assumes "run_pull backoff attempts = Some (outcome, sleeps)" and "backoff \<le> MAX_RETRY_BACKOFF"
  shows "sorted (backoff # sleeps) \<and> (\<forall>d \<in> set sleeps. d \<le> MAX_RETRY_BACKOFF)"
  using assms
proof (induction backoff attempts arbitrary: sleeps rule: run_pull.induct)
  case (2 backoff outcome' cancelled attempts)
  show ?case
  proof (cases "is_retryable outcome' \<and> \<not> cancelled")
    case True
    with 2(2) obtain rest where rest: "run_pull (next_backoff backoff) attempts = Some (outcome, rest)" "sleeps = backoff # rest" by auto
    with 2(1) [OF _ _ rest(1)] True next_backoff_bounds [OF 2(3)] 2(3) show ?thesis by auto
  qed (use 2(2,3) in \<open>auto split: if_splits\<close>)
qed simp

section \<open>Commands keep the order of the leases\<close>

text \<open>What the pending interest commands will make of the active interests.\<close>

fun replay :: "command list \<Rightarrow> (prefix_key \<Rightarrow> nat option) \<Rightarrow> (prefix_key \<Rightarrow> nat option)" where
  "replay [] act = act"
| "replay (CSubscribe key gen # cs) act =
     replay cs (if (case act key of None \<Rightarrow> False | Some g \<Rightarrow> g \<ge> gen) then act else act(key \<mapsto> gen))"
| "replay (CUnsubscribe key gen # cs) act = replay cs (if act key = Some gen then act(key := None) else act)"
| "replay (CPullEvent _ _ _ # cs) act = replay cs act"
| "replay (CPullEnded _ _ _ # cs) act = replay cs act"

lemma replay_append: "replay (cs @ ds) act = replay ds (replay cs act)"
  by (induction cs act rule: replay.induct) simp_all

lemma replay_other: "\<not> is_interest c \<Longrightarrow> replay (c # cs) act = replay cs act"
  by (cases c) simp_all

lemma start_pull_active [simp]: "rn_active (start_pull t rn) = rn_active rn" "rn_deferred (start_pull t rn) = rn_deferred rn"
  by (auto simp: start_pull_def Let_def split: prod.split option.split)

lemma fold_keeps: "(\<And>x s. f (g x s) = f s) \<Longrightarrow> f (fold g xs s) = f s"
  by (induction xs arbitrary: s) simp_all

lemmas fold_active = fold_keeps [of rn_active] fold_keeps [of rn_deferred]

lemma put_root_active [simp]:
  "rn_active (put_root root rn) = rn_active rn" "rn_deferred (put_root root rn) = rn_deferred rn"
  "rn_active (enter_root root rn) = rn_active rn" "rn_deferred (enter_root root rn) = rn_deferred rn"
  "rn_active (drop_registrations regs rn) = rn_active rn" "rn_deferred (drop_registrations regs rn) = rn_deferred rn"
  "rn_active (mark_old_pull_complete pid rn) = rn_active rn" "rn_deferred (mark_old_pull_complete pid rn) = rn_deferred rn"
  by (simp_all add: put_root_def enter_root_def drop_registrations_def mark_old_pull_complete_def)

lemma remove_root_active [simp]: "rn_active (remove_root rid rn) = rn_active rn" "rn_deferred (remove_root rid rn) = rn_deferred rn"
  by (simp_all add: remove_root_def split: option.split)

lemma transition_steps_active [simp]:
  "rn_active (start_ready_relay_transitions rn) = rn_active rn" "rn_deferred (start_ready_relay_transitions rn) = rn_deferred rn"
  "rn_active (finish_transition_if_ready rn) = rn_active rn" "rn_deferred (finish_transition_if_ready rn) = rn_deferred rn"
  "rn_active (begin_transition removed added rn) = rn_active rn" "rn_deferred (begin_transition removed added rn) = rn_deferred rn"
  by (simp_all add: start_ready_relay_transitions_def finish_transition_if_ready_def begin_transition_def fold_active
      split: option.split prod.split)

lemma start_root_active [simp]: "rn_active (start_root root rn) = rn_active rn" "rn_deferred (start_root root rn) = rn_deferred rn"
  by (simp_all add: start_root_def fold_active)

lemma prepare_roots_active: "prepare_roots ks rn = (roots, rn') \<Longrightarrow> rn_active rn' = rn_active rn \<and> rn_deferred rn' = rn_deferred rn"
  by (induction ks arbitrary: rn roots) (auto simp: prepare_root_def split: prod.splits)

lemma retire_root_active: "rn_active (snd (retire_root rid st)) = rn_active (snd st)" "rn_deferred (snd (retire_root rid st)) = rn_deferred (snd st)"
  by (cases st; simp add: retire_root_def split: option.split prod.split)+

lemma cancel_pulls_active: "rn_active (snd (cancel_pulls l rid st)) = rn_active (snd st)" "rn_deferred (snd (cancel_pulls l rid st)) = rn_deferred (snd st)"
  by (cases st; simp add: cancel_pulls_def Let_def split: option.split prod.split)+

lemma apply_delta_active:
  "rn_active (apply_delta grp added removed relays_of listening rn) = rn_active rn"
  "rn_deferred (apply_delta grp added removed relays_of listening rn) = rn_deferred rn"
proof -
  let ?ids = "remdups (List.map_filter (\<lambda>p. map_of (rn_root_ids rn) (grp, p)) removed)"
  obtain roots rn1 where p: "prepare_roots (map (\<lambda>p. ((grp, p), relays_of p)) added) rn = (roots, rn1)" by (rule prod.exhaust)
  obtain roots2 rn2 where r: "fold retire_root ?ids (roots, rn1) = (roots2, rn2)" by (rule prod.exhaust)
  let ?rn3 = "begin_transition ?ids roots2 (fold enter_root roots2 rn2)"
  obtain completed rn4 where c: "fold (cancel_pulls listening) ?ids ([], ?rn3) = (completed, rn4)" by (rule prod.exhaust)
  have 1: "rn_active rn1 = rn_active rn" "rn_deferred rn1 = rn_deferred rn" using prepare_roots_active [OF p] by simp_all
  have 2: "rn_active rn2 = rn_active rn1" "rn_deferred rn2 = rn_deferred rn1"
    using fold_keeps [of "\<lambda>st. rn_active (snd st)" retire_root ?ids "(roots, rn1)"]
      fold_keeps [of "\<lambda>st. rn_deferred (snd st)" retire_root ?ids "(roots, rn1)"] r by (simp_all add: retire_root_active)
  have 4: "rn_active rn4 = rn_active rn2" "rn_deferred rn4 = rn_deferred rn2"
    using fold_keeps [of "\<lambda>st. rn_active (snd st)" "cancel_pulls listening" ?ids "([], ?rn3)"]
      fold_keeps [of "\<lambda>st. rn_deferred (snd st)" "cancel_pulls listening" ?ids "([], ?rn3)"] c by (simp_all add: cancel_pulls_active fold_active)
  show "rn_active (apply_delta grp added removed relays_of listening rn) = rn_active rn"
    "rn_deferred (apply_delta grp added removed relays_of listening rn) = rn_deferred rn"
    using 1 2 4 by (simp_all add: apply_delta_def Let_def p r c fold_active)
qed

lemma add_interest_active:
  "rn_active (add_interest en key gen rn) = replay [CSubscribe key gen] (rn_active rn)"
  "rn_deferred (add_interest en key gen rn) = rn_deferred rn"
  by (simp_all add: add_interest_def apply_root_delta_def apply_delta_active Let_def case_prod_beta)

lemma remove_interest_active:
  "rn_active (remove_interest en key gen rn) = replay [CUnsubscribe key gen] (rn_active rn)"
  "rn_deferred (remove_interest en key gen rn) = rn_deferred rn"
  by (simp_all add: remove_interest_def apply_root_delta_def apply_delta_active Let_def case_prod_beta)

lemma handle_pull_event_active:
  "rn_active (handle_pull_event rid pid ev rn) = rn_active rn"
  "rn_deferred (handle_pull_event rid pid ev rn) = rn_deferred rn"
  by (simp_all add: handle_pull_event_def Let_def case_prod_beta split: option.split namespace_event.split)

lemma handle_pull_ended_active:
  "rn_active (handle_pull_ended rid pid outcome rn) = rn_active rn"
  "rn_deferred (handle_pull_ended rid pid outcome rn) = rn_deferred rn"
  by (simp_all add: handle_pull_ended_def Let_def split: option.split)

lemma dispatch_active: "rn_active (dispatch en c rn) = replay [c] (rn_active rn) \<and> rn_deferred (dispatch en c rn) = rn_deferred rn"
  by (cases c) (simp_all add: add_interest_active remove_interest_active handle_pull_event_active handle_pull_ended_active
      del: replay.simps(2,3))

text \<open>
  A delta is walked in an order that enumerates it, and a pull's task reports about the
  root and the pull it was spawned for.
\<close>

definition valid_environment :: "environment \<Rightarrow> bool" where
  "valid_environment en \<longleftrightarrow> (\<forall>S. finite S \<longrightarrow> distinct (en_order en S) \<and> set (en_order en S) = S)"

fun from_pull :: "runner \<Rightarrow> command \<Rightarrow> bool" where
  "from_pull rn (CPullEvent root_id pull_id _) \<longleftrightarrow> (\<exists>k. (pull_id, root_id, k) \<in> set (rn_spawned rn))"
| "from_pull rn (CPullEnded root_id pull_id _) \<longleftrightarrow> (\<exists>k. (pull_id, root_id, k) \<in> set (rn_spawned rn))"
| "from_pull rn _ \<longleftrightarrow> False"

lemma from_pull_other: "from_pull rn c \<Longrightarrow> \<not> is_interest c"
  by (cases c) simp_all

text \<open>Leases, interests that go, commands of pulls, and rounds of the runner, in any order.\<close>

inductive upstream_step :: "lease_registry \<times> runner \<Rightarrow> lease_registry \<times> runner \<Rightarrow> bool" where
  up_subscribe: "upstream_step (lr, rn) (snd (lease_subscribe key lr), rn)"
| up_release: "lr_leases lr gen > 0 \<Longrightarrow> upstream_step (lr, rn) (lease_release gen lr, rn)"
| up_interest_drop: "lr_leases lr gen = 0 \<Longrightarrow> upstream_step (lr, rn) (interest_drop key gen lr, rn)"
| up_pull: "from_pull rn c \<Longrightarrow> upstream_step (lr, rn) (lr\<lparr>lr_commands := lr_commands lr @ [c]\<rparr>, rn)"
| up_round: "valid_environment en \<Longrightarrow> run_round en (lr_commands lr) rn = Some (received, rn') \<Longrightarrow>
    upstream_step (lr, rn) (lr\<lparr>lr_commands := received\<rparr>, rn')"

definition lease_inv :: "lease_registry \<times> runner \<Rightarrow> bool" where
  "lease_inv s \<longleftrightarrow>
     (case s of (lr, rn) \<Rightarrow> \<not> lr_closed lr \<and>
        replay (rn_deferred rn @ lr_commands lr) (rn_active rn) = lr_slots lr \<and>
        (\<forall>key gen. lr_slots lr key = Some gen \<longrightarrow> gen < lr_next_generation lr) \<and>
        (\<forall>gen. lr_leases lr gen > 0 \<longrightarrow> (\<exists>key. lr_slots lr key = Some gen)))"

lemma lease_invI:
  assumes "\<not> lr_closed lr" and "replay (rn_deferred rn @ lr_commands lr) (rn_active rn) = lr_slots lr"
    and "\<And>key gen. lr_slots lr key = Some gen \<Longrightarrow> gen < lr_next_generation lr"
    and "\<And>gen. lr_leases lr gen > 0 \<Longrightarrow> \<exists>key. lr_slots lr key = Some gen"
  shows "lease_inv (lr, rn)"
  using assms unfolding lease_inv_def case_prod_conv by blast

lemma lease_invD:
  assumes "lease_inv (lr, rn)"
  shows "\<not> lr_closed lr" and "replay (rn_deferred rn @ lr_commands lr) (rn_active rn) = lr_slots lr"
    and "lr_slots lr key = Some gen \<Longrightarrow> gen < lr_next_generation lr"
    and "lr_leases lr gen > 0 \<Longrightarrow> \<exists>key. lr_slots lr key = Some gen"
  using assms unfolding lease_inv_def case_prod_conv by blast+

lemma lease_inv_start: "lease_inv (lease_registry_new, runner_new lc)"
  by (simp add: lease_inv_def lease_registry_new_def runner_new_def)

lemma run_round_replay:
  assumes "run_round en received rn = Some (received', rn')"
  shows "replay (rn_deferred rn' @ received') (rn_active rn') = replay (rn_deferred rn @ received) (rn_active rn)"
proof -
  consider c where "rn_transition rn = None" "rn_deferred rn = c # tl (rn_deferred rn)" "received' = received"
      "rn' = dispatch en c (rn\<lparr>rn_deferred := tl (rn_deferred rn)\<rparr>)"
    | c where "received = c # received'" "rn' = rn\<lparr>rn_deferred := rn_deferred rn @ [c]\<rparr>"
    | c where "received = c # received'" "rn' = dispatch en c rn" "rn_deferred rn = [] \<or> \<not> is_interest c"
    using assms by (auto simp: run_round_def split: if_splits list.splits) (metis list.collapse)+
  then show ?thesis
  proof cases
    case (1 c)
    have "replay (rn_deferred rn @ received) (rn_active rn) = replay (tl (rn_deferred rn) @ received) (replay [c] (rn_active rn))"
      by (subst 1(2)) (metis append.simps replay_append)
    then show ?thesis using dispatch_active [of en c "rn\<lparr>rn_deferred := tl (rn_deferred rn)\<rparr>"] 1 by simp
  next
    case (2 c)
    then show ?thesis by simp
  next
    case (3 c)
    then show ?thesis using dispatch_active [of en c rn] replay_append [of "[c]" received']
      by (auto simp: replay_append replay_other)
  qed
qed

lemma lease_subscribe_inv:
  assumes "lease_inv (lr, rn)"
  shows "lease_inv (snd (lease_subscribe key lr), rn)"
proof -
  let ?slots = "lr_slots lr" and ?gen = "lr_next_generation lr"
  note inv = lease_invD [OF assms]
  show ?thesis
  proof (cases "\<exists>gen. ?slots key = Some gen \<and> lr_leases lr gen > 0")
    case True
    then obtain g where g: "?slots key = Some g" "lr_leases lr g > 0" by blast
    then have new: "snd (lease_subscribe key lr) = lr\<lparr>lr_leases := (lr_leases lr)(g := lr_leases lr g + 1)\<rparr>"
      by (simp add: lease_subscribe_def)
    show ?thesis unfolding new
    proof (rule lease_invI)
      fix gen
      assume "0 < lr_leases (lr\<lparr>lr_leases := (lr_leases lr)(g := lr_leases lr g + 1)\<rparr>) gen"
      then show "\<exists>k. lr_slots (lr\<lparr>lr_leases := (lr_leases lr)(g := lr_leases lr g + 1)\<rparr>) k = Some gen"
        using inv(4) [of gen] g by (cases "gen = g") auto
    qed (use inv in simp_all)
  next
    case False
    then have new: "snd (lease_subscribe key lr) = lr\<lparr>lr_next_generation := ?gen + 1, lr_slots := ?slots(key \<mapsto> ?gen),
        lr_commands := lr_commands lr @ [CSubscribe key ?gen], lr_leases := (lr_leases lr)(?gen := 1)\<rparr>" (is "_ = ?lr")
      using inv(1) by (auto simp: lease_subscribe_def Let_def split: option.split)
    show ?thesis unfolding new
    proof (rule lease_invI)
      show "replay (rn_deferred rn @ lr_commands ?lr) (rn_active rn) = lr_slots ?lr"
        using inv(2) inv(3) [of key] by (auto simp: replay_append split: option.split)
      fix k gen
      assume "lr_slots ?lr k = Some gen"
      then show "gen < lr_next_generation ?lr" using inv(3) [of k gen] by (auto split: if_splits)
    next
      fix gen
      assume lease: "0 < lr_leases ?lr gen"
      show "\<exists>k. lr_slots ?lr k = Some gen"
      proof (cases "gen = ?gen")
        case other: False
        with lease inv(4) [of gen] obtain k where k: "?slots k = Some gen" by auto
        with False lease other have "k \<noteq> key" by auto
        with k show ?thesis by (intro exI [of _ k]) simp
      qed (intro exI [of _ key], simp)
    qed (use inv(1) in simp)
  qed
qed

lemma interest_drop_inv:
  assumes "lease_inv (lr, rn)" and "lr_leases lr gen = 0"
  shows "lease_inv (interest_drop key gen lr, rn)"
proof (cases "lr_slots lr key = Some gen")
  case True
  note inv = lease_invD [OF assms(1)]
  have new: "interest_drop key gen lr = lr\<lparr>lr_slots := (lr_slots lr)(key := None), lr_commands := lr_commands lr @ [CUnsubscribe key gen]\<rparr>" (is "_ = ?lr")
    using True inv(1) by (simp add: interest_drop_def)
  show ?thesis unfolding new
  proof (rule lease_invI)
    show "replay (rn_deferred rn @ lr_commands ?lr) (rn_active rn) = lr_slots ?lr" using inv(2) True by (simp add: replay_append)
    fix k g
    assume "lr_slots ?lr k = Some g"
    then show "g < lr_next_generation ?lr" using inv(3) [of k g] by (simp split: if_splits)
  next
    fix g
    assume "0 < lr_leases ?lr g"
    then have "g \<noteq> gen" "lr_leases lr g > 0" using assms(2) by auto
    with inv(4) obtain k where "lr_slots lr k = Some g" by blast
    with \<open>g \<noteq> gen\<close> True show "\<exists>k. lr_slots ?lr k = Some g" by (intro exI [of _ k]) auto
  qed (use inv(1) in simp)
qed (use assms in \<open>simp add: interest_drop_def\<close>)

lemma lease_step_inv: "upstream_step s s' \<Longrightarrow> lease_inv s \<Longrightarrow> lease_inv s'"
proof (induction rule: upstream_step.induct)
  case (up_subscribe lr rn key)
  then show ?case by (rule lease_subscribe_inv)
next
  case (up_release lr gen rn)
  note inv = lease_invD [OF up_release(2)]
  show ?case
  proof (rule lease_invI)
    fix g
    assume "0 < lr_leases (lease_release gen lr) g"
    then have "0 < lr_leases lr g" by (auto simp: lease_release_def split: if_splits)
    with inv(4) obtain k where "lr_slots lr k = Some g" by blast
    then show "\<exists>key. lr_slots (lease_release gen lr) key = Some g" by (intro exI [of _ k]) (simp add: lease_release_def)
  qed (use inv in \<open>simp_all add: lease_release_def\<close>)
next
  case (up_interest_drop lr gen rn key)
  then show ?case by (intro interest_drop_inv)
next
  case (up_pull rn c lr)
  then have "replay (rn_deferred rn @ lr_commands lr @ [c]) (rn_active rn) = replay (rn_deferred rn @ lr_commands lr) (rn_active rn)"
    using replay_other [OF from_pull_other [OF up_pull(1)], of "[]"] by (simp add: replay_append)
  with up_pull show ?case by (simp add: lease_inv_def)
next
  case (up_round en lr rn received rn')
  then show ?case using run_round_replay [OF up_round(2)] by (simp add: lease_inv_def)
qed

section \<open>The cover follows the active interests\<close>

lemma covering_kept [simp]:
  "rn_covering (start_pull t rn) = rn_covering rn"
  "rn_covering (put_root root rn) = rn_covering rn"
  "rn_covering (enter_root root rn) = rn_covering rn"
  "rn_covering (drop_registrations regs rn) = rn_covering rn"
  "rn_covering (mark_old_pull_complete pid rn) = rn_covering rn"
  "rn_covering (remove_root rid rn) = rn_covering rn"
  "rn_covering (begin_transition removed added rn) = rn_covering rn"
  by (auto simp: start_pull_def put_root_def enter_root_def drop_registrations_def mark_old_pull_complete_def remove_root_def
      begin_transition_def Let_def split: prod.split option.split)

lemma covering_kept_folds [simp]:
  "rn_covering (start_root root rn) = rn_covering rn"
  "rn_covering (start_ready_relay_transitions rn) = rn_covering rn"
  "rn_covering (finish_transition_if_ready rn) = rn_covering rn"
  by (simp_all add: start_root_def start_ready_relay_transitions_def finish_transition_if_ready_def fold_keeps [of rn_covering]
      split: option.split prod.split)

lemma prepare_roots_covering: "prepare_roots ks rn = (roots, rn') \<Longrightarrow> rn_covering rn' = rn_covering rn"
  by (induction ks arbitrary: rn roots) (auto simp: prepare_root_def split: prod.splits)

lemma pair_folds_covering:
  "rn_covering (snd (retire_root rid st)) = rn_covering (snd st)" "rn_covering (snd (cancel_pulls l rid st')) = rn_covering (snd st')"
  by (cases st; cases st'; simp add: retire_root_def cancel_pulls_def Let_def split: option.split prod.split)+

lemma apply_delta_covering: "rn_covering (apply_delta grp added removed relays_of listening rn) = rn_covering rn"
proof -
  let ?ids = "remdups (List.map_filter (\<lambda>p. map_of (rn_root_ids rn) (grp, p)) removed)"
  obtain roots rn1 where p: "prepare_roots (map (\<lambda>p. ((grp, p), relays_of p)) added) rn = (roots, rn1)" by (rule prod.exhaust)
  obtain roots2 rn2 where r: "fold retire_root ?ids (roots, rn1) = (roots2, rn2)" by (rule prod.exhaust)
  let ?rn3 = "begin_transition ?ids roots2 (fold enter_root roots2 rn2)"
  obtain completed rn4 where c: "fold (cancel_pulls listening) ?ids ([], ?rn3) = (completed, rn4)" by (rule prod.exhaust)
  have "rn_covering rn1 = rn_covering rn" by (rule prepare_roots_covering [OF p])
  moreover have "rn_covering rn2 = rn_covering rn1"
    using fold_keeps [of "\<lambda>st. rn_covering (snd st)" retire_root ?ids "(roots, rn1)"] r by (simp add: pair_folds_covering)
  moreover have "rn_covering rn4 = rn_covering rn2"
    using fold_keeps [of "\<lambda>st. rn_covering (snd st)" "cancel_pulls listening" ?ids "([], ?rn3)"] c
    by (simp add: pair_folds_covering fold_keeps [of rn_covering])
  ultimately show ?thesis by (simp add: apply_delta_def Let_def p r c fold_keeps [of rn_covering])
qed

definition cover_inv :: "runner \<Rightarrow> bool" where
  "cover_inv rn \<longleftrightarrow>
     (\<forall>g. cps_inv (rn_covering rn g) \<and> finite (cps_active (rn_covering rn g)) \<and>
       cps_active (rn_covering rn g) = {p. rn_active rn (g, p) \<noteq> None})"

lemma cover_inv_start: "cover_inv (runner_new lc)"
  by (simp add: cover_inv_def runner_new_def cps_default_def cps_inv_def minimal_prefixes_def)

end
