(* ===== verification/Upstream_Roots.thy ===== *)
theory Upstream_Roots
  imports Upstream
begin

text \<open>
  Invariants of the upstream namespace runner: its tables agree, its roots are exactly the
  covering prefixes (and, during a transition, the ones being removed), every relay of a
  root is pulled from or waits in the transition, and a relay never has pulls of two roots
  whose prefixes overlap. Everything is said of the part of a root that the transitions are
  about: its id, key, relays and pulls. This theory has the invariant and the steps within a
  transition; \<open>Upstream_Delta\<close> has the changes of the cover and the reachable states.
\<close>

declare split_paired_All [simp del] split_paired_Ex [simp del]

section \<open>Views of the runner\<close>

type_synonym root_core = "nat \<times> prefix_key \<times> relay_key list \<times> (nat \<times> pull_state) list"

definition core_of :: "root_state \<Rightarrow> root_core" where
  "core_of root = (rt_id root, rt_key root, rt_relays root, rt_pulls root)"

definition core :: "runner \<Rightarrow> nat \<Rightarrow> root_core option" where
  "core rn rid = map_option core_of (map_of (rn_roots rn) rid)"

definition key_of :: "runner \<Rightarrow> nat \<Rightarrow> prefix_key option" where
  "key_of rn rid = map_option (\<lambda>(_, key, _, _). key) (core rn rid)"

definition relays_at :: "runner \<Rightarrow> (nat \<times> relay_key) set" where
  "relays_at rn = {(rid, k). \<exists>i key rs ps. core rn rid = Some (i, key, rs, ps) \<and> k \<in> set rs}"

definition pulls :: "runner \<Rightarrow> (nat \<times> nat \<times> relay_key) set" where
  "pulls rn = {(rid, pid, k). \<exists>i key rs ps pull. core rn rid = Some (i, key, rs, ps) \<and> (pid, pull) \<in> set ps \<and> pl_relay pull = k}"

definition removed_of :: "runner \<Rightarrow> nat set" where
  "removed_of rn = (case rn_transition rn of None \<Rightarrow> {} | Some tn \<Rightarrow> set (tn_removed tn))"

text \<open>Two roots conflict when they belong to one group and their prefixes overlap.\<close>

definition conflict :: "runner \<Rightarrow> nat \<Rightarrow> nat \<Rightarrow> bool" where
  "conflict rn rid rid' \<longleftrightarrow> (\<exists>g p p'. key_of rn rid = Some (g, p) \<and> key_of rn rid' = Some (g, p') \<and> overlaps p p')"

lemma pulls_key: "(rid, pid, k) \<in> pulls rn \<Longrightarrow> key_of rn rid \<noteq> None"
  by (auto simp: pulls_def key_of_def)

lemma view_same:
  assumes "core rn' = core rn"
  shows "key_of rn' = key_of rn" "pulls rn' = pulls rn" "relays_at rn' = relays_at rn"
  using assms by (simp_all add: key_of_def pulls_def relays_at_def fun_eq_iff)

lemma view_update:
  assumes "core rn' = (core rn)(rid \<mapsto> (i, key, rs, ps))"
  shows "key_of rn' = (key_of rn)(rid \<mapsto> key)"
    and "pulls rn' = {t \<in> pulls rn. fst t \<noteq> rid} \<union> {(rid, pid, pl_relay pull) | pid pull. (pid, pull) \<in> set ps}"
    and "relays_at rn' = {t \<in> relays_at rn. fst t \<noteq> rid} \<union> Pair rid ` set rs"
  using assms by (auto simp: key_of_def pulls_def relays_at_def fun_eq_iff split: if_splits)

lemma view_delete:
  assumes "core rn' = (core rn)(rid := None)"
  shows "key_of rn' = (key_of rn)(rid := None)" and "pulls rn' = {t \<in> pulls rn. fst t \<noteq> rid}"
    and "relays_at rn' = {t \<in> relays_at rn. fst t \<noteq> rid}"
  using assms by (auto simp: key_of_def pulls_def relays_at_def fun_eq_iff split: if_splits)

section \<open>The invariant\<close>

definition tables_ok :: "runner \<Rightarrow> bool" where
  "tables_ok rn \<longleftrightarrow>
     (\<forall>rid i key rs ps. core rn rid = Some (i, key, rs, ps) \<longrightarrow>
        i = rid \<and> rid < rn_next_root_id rn \<and> distinct (map fst ps)) \<and>
     (\<forall>key rid. map_of (rn_root_ids rn) key = Some rid \<longleftrightarrow> key_of rn rid = Some key)"

definition pulls_ok :: "runner \<Rightarrow> bool" where
  "pulls_ok rn \<longleftrightarrow>
     (\<forall>rid pid k. (rid, pid, k) \<in> pulls rn \<longrightarrow> (pid, rid, k) \<in> set (rn_spawned rn)) \<and>
     distinct (map fst (rn_spawned rn)) \<and> (\<forall>pid \<in> fst ` set (rn_spawned rn). pid < rn_next_pull_id rn)"

definition cover_ok :: "(group_key \<Rightarrow> track_namespace_prefix set) \<Rightarrow> nat set \<Rightarrow> runner \<Rightarrow> bool" where
  "cover_ok cov R rn \<longleftrightarrow> (\<forall>g p. (\<exists>rid. rid \<notin> R \<and> key_of rn rid = Some (g, p)) \<longleftrightarrow> p \<in> cov g)"

definition exclusive :: "nat set \<Rightarrow> runner \<Rightarrow> bool" where
  "exclusive R rn \<longleftrightarrow>
     (\<forall>rid \<in> R. \<forall>rid' \<in> R. rid \<noteq> rid' \<longrightarrow> \<not> conflict rn rid rid') \<and>
     (\<forall>rid \<in> R. \<forall>rid' pid pid' k. rid' \<notin> R \<and> conflict rn rid rid' \<and> (rid, pid, k) \<in> pulls rn \<longrightarrow> (rid', pid', k) \<notin> pulls rn)"

text \<open>
  Every pull of a removed root is an old pull its relay waits for, every pull waited for is
  an old pull, and the targets are roots that stay.
\<close>

definition transition_ok :: "runner \<Rightarrow> transition \<Rightarrow> bool" where
  "transition_ok rn tn \<longleftrightarrow>
     distinct (map fst (tn_relays tn)) \<and>
     (\<forall>rid \<in> set (tn_removed tn). \<forall>pid k. (rid, pid, k) \<in> pulls rn \<longrightarrow> map_of (tn_old_pulls tn) pid = Some k) \<and>
     (\<forall>k pid. map_of (tn_old_pulls tn) pid = Some k \<longleftrightarrow> (\<exists>rl. (k, rl) \<in> set (tn_relays tn) \<and> pid \<in> set (rl_waiting rl))) \<and>
     (\<forall>k rl t. (k, rl) \<in> set (tn_relays tn) \<and> t \<in> set (rl_targets rl) \<longrightarrow>
        snd t = k \<and> fst t \<notin> set (tn_removed tn) \<and> key_of rn (fst t) \<noteq> None \<and> \<not> rl_started rl)"

definition to_start :: "runner \<Rightarrow> (nat \<times> relay_key) set" where
  "to_start rn = (case rn_transition rn of None \<Rightarrow> {} | Some tn \<Rightarrow> (\<Union>(k, rl) \<in> set (tn_relays tn). set (rl_targets rl)))"

definition spawn_ok :: "runner \<Rightarrow> bool" where
  "spawn_ok rn \<longleftrightarrow> (\<forall>rid k. (rid, k) \<in> relays_at rn \<longrightarrow> (\<exists>pid. (pid, rid, k) \<in> set (rn_spawned rn)) \<or> (rid, k) \<in> to_start rn)"

definition runner_inv :: "(group_key \<Rightarrow> track_namespace_prefix set) \<Rightarrow> runner \<Rightarrow> bool" where
  "runner_inv cov rn \<longleftrightarrow> tables_ok rn \<and> pulls_ok rn \<and> cover_ok cov (removed_of rn) rn \<and> exclusive (removed_of rn) rn \<and>
     (\<forall>tn. rn_transition rn = Some tn \<longrightarrow> transition_ok rn tn) \<and> spawn_ok rn"

lemmas view_defs = removed_of_def to_start_def conflict_def

lemma runner_invI:
  assumes "tables_ok rn" "pulls_ok rn" "cover_ok cov (removed_of rn) rn" "exclusive (removed_of rn) rn"
    and "\<And>tn. rn_transition rn = Some tn \<Longrightarrow> transition_ok rn tn" and "spawn_ok rn"
  shows "runner_inv cov rn"
  using assms unfolding runner_inv_def by blast

lemma runner_invD:
  assumes "runner_inv cov rn"
  shows "tables_ok rn" "pulls_ok rn" "cover_ok cov (removed_of rn) rn" "exclusive (removed_of rn) rn"
    and "rn_transition rn = Some tn \<Longrightarrow> transition_ok rn tn" and "spawn_ok rn"
  using assms unfolding runner_inv_def by blast+

lemma tables_okD:
  assumes "tables_ok rn"
  shows "core rn rid = Some (i, key, rs, ps) \<Longrightarrow> i = rid" and "core rn rid = Some (i, key, rs, ps) \<Longrightarrow> rid < rn_next_root_id rn"
    and "map_of (rn_root_ids rn) key = Some rid \<longleftrightarrow> key_of rn rid = Some key"
    and "core rn rid = Some (i, key, rs, ps) \<Longrightarrow> distinct (map fst ps)"
  using assms unfolding tables_ok_def by blast+

lemma tables_okI:
  assumes "\<And>rid i key rs ps. core rn rid = Some (i, key, rs, ps) \<Longrightarrow>
      i = rid \<and> rid < rn_next_root_id rn \<and> distinct (map fst ps)"
    and "\<And>key rid. map_of (rn_root_ids rn) key = Some rid \<longleftrightarrow> key_of rn rid = Some key"
  shows "tables_ok rn"
  using assms unfolding tables_ok_def by blast

lemma pulls_okD:
  assumes "pulls_ok rn"
  shows "(rid, pid, k) \<in> pulls rn \<Longrightarrow> (pid, rid, k) \<in> set (rn_spawned rn)" and "distinct (map fst (rn_spawned rn))"
    and "(pid, rid, k) \<in> set (rn_spawned rn) \<Longrightarrow> pid < rn_next_pull_id rn"
  using assms unfolding pulls_ok_def by force+

lemma pulls_okI:
  assumes "\<And>rid pid k. (rid, pid, k) \<in> pulls rn \<Longrightarrow> (pid, rid, k) \<in> set (rn_spawned rn)" and "distinct (map fst (rn_spawned rn))"
    and "\<And>pid rid k. (pid, rid, k) \<in> set (rn_spawned rn) \<Longrightarrow> pid < rn_next_pull_id rn"
  shows "pulls_ok rn"
  using assms unfolding pulls_ok_def by fastforce

lemma runner_inv_start: "runner_inv (\<lambda>_. {}) (runner_new lc)"
  by (rule runner_invI) (simp_all add: tables_ok_def pulls_ok_def cover_ok_def exclusive_def spawn_ok_def relays_at_def
      runner_new_def core_def key_of_def pulls_def view_defs)

text \<open>The invariant only depends on the views.\<close>

lemma runner_inv_cong:
  assumes "core rn' = core rn" and "rn_root_ids rn' = rn_root_ids rn" and "rn_next_root_id rn' = rn_next_root_id rn"
    and "rn_next_pull_id rn' = rn_next_pull_id rn" and "rn_spawned rn' = rn_spawned rn" and "rn_transition rn' = rn_transition rn"
  shows "runner_inv cov rn' = runner_inv cov rn"
  using assms view_same [OF assms(1)]
  by (simp add: runner_inv_def tables_ok_def pulls_ok_def cover_ok_def exclusive_def transition_ok_def spawn_ok_def view_defs)

section \<open>Pulls that may run together\<close>

lemma overlaps_sym: "overlaps a b \<longleftrightarrow> overlaps b a"
  by (auto simp: overlaps_iff)

lemma conflict_sym: "conflict rn rid rid' \<Longrightarrow> conflict rn rid' rid"
  using overlaps_sym unfolding conflict_def by blast

definition antichain :: "(group_key \<Rightarrow> track_namespace_prefix set) \<Rightarrow> bool" where
  "antichain cov \<longleftrightarrow> (\<forall>g. \<forall>p \<in> cov g. \<forall>p' \<in> cov g. overlaps p p' \<longrightarrow> p = p')"

lemma minimal_antichain: "antichain (\<lambda>g. minimal_prefixes (A g))"
  by (auto simp: antichain_def overlaps_iff minimal_prefixes_def strict_prefix_def)

lemma staying_roots:
  assumes "tables_ok rn" and "cover_ok cov R rn" and "antichain cov" and "rid \<notin> R" and "rid' \<notin> R" and "conflict rn rid rid'"
  shows "rid = rid'"
proof -
  obtain g p p' where keys: "key_of rn rid = Some (g, p)" "key_of rn rid' = Some (g, p')" "overlaps p p'"
    using assms(6) by (auto simp: conflict_def)
  then have "p \<in> cov g" "p' \<in> cov g" using assms(2,4,5) unfolding cover_ok_def by blast+
  with assms(3) keys(3) have "p = p'" unfolding antichain_def by blast
  with keys have "map_of (rn_root_ids rn) (g, p) = Some rid" "map_of (rn_root_ids rn) (g, p) = Some rid'"
    using tables_okD(3) [OF assms(1)] by blast+
  then show ?thesis by simp
qed

lemma no_overlapping_pulls:
  assumes inv: "runner_inv cov rn" and anti: "antichain cov"
    and "(rid, pid, k) \<in> pulls rn" and "(rid', pid', k) \<in> pulls rn" and "conflict rn rid rid'"
  shows "rid = rid'"
proof (cases "rid \<in> removed_of rn \<or> rid' \<in> removed_of rn")
  case True
  then show ?thesis using runner_invD(4) [OF inv] assms(3-5) conflict_sym [OF assms(5)] unfolding exclusive_def by blast
next
  case False
  then show ?thesis using staying_roots [OF runner_invD(1,3) [OF inv]] anti assms(5) by blast
qed

section \<open>Starting a pull\<close>

lemma update_new: "k \<notin> fst ` set al \<Longrightarrow> AList.update k v al = al @ [(k, v)]"
  by (induction al) auto

lemma start_pull_fields [simp]:
  "rn_root_ids (start_pull t rn) = rn_root_ids rn" "rn_next_root_id (start_pull t rn) = rn_next_root_id rn"
  "rn_transition (start_pull t rn) = rn_transition rn"
  "removed_of (start_pull t rn) = removed_of rn" "to_start (start_pull t rn) = to_start rn"
  by (auto simp: start_pull_def view_defs Let_def split: prod.split option.split)

text \<open>A pull may start for a root that stays, on a relay no removed root pulls from.\<close>

definition startable :: "nat set \<Rightarrow> runner \<Rightarrow> nat \<times> relay_key \<Rightarrow> bool" where
  "startable R rn t \<longleftrightarrow> fst t \<notin> R \<and> key_of rn (fst t) \<noteq> None \<and> (\<forall>rid \<in> R. \<forall>pid. (rid, pid, snd t) \<notin> pulls rn)"

lemma insert_pull:
  "{(rid, pid, pl_relay pull) | pid pull. (pid, pull) \<in> insert (pid', new) S} =
   insert (rid, pid', pl_relay new) {(rid, pid, pl_relay pull) | pid pull. (pid, pull) \<in> S}"
  by blast

lemma start_pull_views:
  assumes "pulls_ok rn" and "key_of rn rid \<noteq> None"
  shows "key_of (start_pull (rid, k) rn) = key_of rn" and "relays_at (start_pull (rid, k) rn) = relays_at rn"
    and "pulls (start_pull (rid, k) rn) = insert (rid, rn_next_pull_id rn, k) (pulls rn)"
    and "rn_spawned (start_pull (rid, k) rn) = rn_spawned rn @ [(rn_next_pull_id rn, rid, k)]"
    and "rn_next_pull_id (start_pull (rid, k) rn) = rn_next_pull_id rn + 1"
    and "core (start_pull (rid, k) rn) rid' = Some (i, key, rs, ps) \<Longrightarrow>
      \<exists>ps'. core rn rid' = Some (i, key, rs, ps') \<and> (distinct (map fst ps') \<longrightarrow> distinct (map fst ps))"
proof -
  obtain root where root: "map_of (rn_roots rn) rid = Some root" using assms(2) by (auto simp: key_of_def core_def)
  let ?new = "\<lparr>pl_relay = k, pl_cancel = True\<rparr>" and ?pid = "rn_next_pull_id rn"
  have c: "core rn rid = Some (rt_id root, rt_key root, rt_relays root, rt_pulls root)"
    using root by (simp add: core_def core_of_def)
  have "?pid \<notin> fst ` set (rt_pulls root)"
  proof
    assume "?pid \<in> fst ` set (rt_pulls root)"
    then obtain pull where "(?pid, pull) \<in> set (rt_pulls root)" by force
    with c have "(rid, ?pid, pl_relay pull) \<in> pulls rn" by (auto simp: pulls_def)
    from pulls_okD(3) [OF assms(1) pulls_okD(1) [OF assms(1) this]] show False by simp
  qed
  then have ps: "set (AList.update ?pid ?new (rt_pulls root)) = insert (?pid, ?new) (set (rt_pulls root))"
    by (simp add: update_new)
  have new: "core (start_pull (rid, k) rn) = (core rn)(rid \<mapsto> (rt_id root, rt_key root, rt_relays root, AList.update ?pid ?new (rt_pulls root)))"
    using root by (auto simp: fun_eq_iff core_def core_of_def start_pull_def Let_def update_conv')
  note views = view_update [OF new]
  have own: "pulls rn = {t \<in> pulls rn. fst t \<noteq> rid} \<union> {(rid, pid, pl_relay pull) | pid pull. (pid, pull) \<in> set (rt_pulls root)}"
    by (rule view_update(2), rule sym, rule fun_upd_idem, rule c)
  show "key_of (start_pull (rid, k) rn) = key_of rn" using c by (auto simp: views(1) key_of_def fun_eq_iff)
  show "relays_at (start_pull (rid, k) rn) = relays_at rn" unfolding views(3) using c by (auto simp: relays_at_def)
  show "pulls (start_pull (rid, k) rn) = insert (rid, ?pid, k) (pulls rn)" unfolding views(2) ps insert_pull by (simp flip: own)
  show "rn_spawned (start_pull (rid, k) rn) = rn_spawned rn @ [(rn_next_pull_id rn, rid, k)]"
    "rn_next_pull_id (start_pull (rid, k) rn) = rn_next_pull_id rn + 1"
    using root by (simp_all add: start_pull_def Let_def)
  show "core (start_pull (rid, k) rn) rid' = Some (i, key, rs, ps) \<Longrightarrow>
      \<exists>ps'. core rn rid' = Some (i, key, rs, ps') \<and> (distinct (map fst ps') \<longrightarrow> distinct (map fst ps))"
    using c by (auto simp: new distinct_update split: if_splits)
qed

lemma start_pull_ok:
  assumes "tables_ok rn" and "pulls_ok rn" and "key_of rn rid \<noteq> None"
  shows "tables_ok (start_pull (rid, k) rn)" and "pulls_ok (start_pull (rid, k) rn)"
    and "cover_ok cov R (start_pull (rid, k) rn) = cover_ok cov R rn"
    and "conflict (start_pull (rid, k) rn) = conflict rn"
proof -
  note v = start_pull_views [OF assms(2,3), of k] and t = tables_okD [OF assms(1)] and p = pulls_okD [OF assms(2)]
  show "tables_ok (start_pull (rid, k) rn)"
  proof (rule tables_okI)
    fix rid' i key rs ps
    assume "core (start_pull (rid, k) rn) rid' = Some (i, key, rs, ps)"
    from v(6) [OF this] t(1,2,4) show "i = rid' \<and> rid' < rn_next_root_id (start_pull (rid, k) rn) \<and> distinct (map fst ps)" unfolding start_pull_fields by blast
  qed (simp add: v(1) t(3))
  have "rn_next_pull_id rn \<notin> fst ` set (rn_spawned rn)" using p(3) by force
  with p(2) have "distinct (map fst (rn_spawned rn @ [(rn_next_pull_id rn, rid, k)]))" by simp
  then show "pulls_ok (start_pull (rid, k) rn)" by (intro pulls_okI) (use p(1,3) in \<open>auto simp: v(3-5) less_Suc_eq\<close>)
  show "cover_ok cov R (start_pull (rid, k) rn) = cover_ok cov R rn" by (simp add: cover_ok_def v(1))
  show "conflict (start_pull (rid, k) rn) = conflict rn" by (simp add: conflict_def v(1) fun_eq_iff)
qed

lemma start_pull_rest:
  assumes "pulls_ok rn" and "startable R rn (rid, k)"
  shows "exclusive R rn \<Longrightarrow> exclusive R (start_pull (rid, k) rn)" and "startable R rn t \<Longrightarrow> startable R (start_pull (rid, k) rn) t"
    and "set (tn_removed tn) = R \<Longrightarrow> transition_ok rn tn \<Longrightarrow> transition_ok (start_pull (rid, k) rn) tn"
proof -
  have ok: "key_of rn rid \<noteq> None" "rid \<notin> R" "\<And>rid' pid. rid' \<in> R \<Longrightarrow> (rid', pid, k) \<notin> pulls rn"
    using assms(2) unfolding startable_def by simp_all
  note v = start_pull_views [OF assms(1) ok(1), of k]
  have c: "conflict (start_pull (rid, k) rn) = conflict rn" by (simp add: conflict_def v(1) fun_eq_iff)
  have pulls: "(rid', pid, k') \<in> pulls (start_pull (rid, k) rn) \<longleftrightarrow> (rid', pid, k') \<in> pulls rn" if "rid' \<in> R" for rid' pid k'
    using that ok(2) by (auto simp: v(3))
  show "exclusive R (start_pull (rid, k) rn)" if "exclusive R rn"
    using that ok(2,3) unfolding exclusive_def c v(3) by blast
  show "startable R (start_pull (rid, k) rn) t" if "startable R rn t"
    using that by (simp add: startable_def v(1) pulls)
  show "transition_ok (start_pull (rid, k) rn) tn" if "set (tn_removed tn) = R" and "transition_ok rn tn"
    using that by (simp add: transition_ok_def v(1) pulls)
qed

text \<open>What a sequence of startable pulls does.\<close>

lemma start_pulls:
  assumes "tables_ok rn" and "pulls_ok rn" and "exclusive R rn" and "\<forall>t \<in> set ts. startable R rn t"
  defines "rn' \<equiv> fold start_pull ts rn"
  shows "tables_ok rn'" and "pulls_ok rn'" and "exclusive R rn'" and "key_of rn' = key_of rn" and "relays_at rn' = relays_at rn"
    and "rn_transition rn' = rn_transition rn" and "rn_next_root_id rn' = rn_next_root_id rn"
    and "set (tn_removed tn) = R \<Longrightarrow> transition_ok rn tn \<Longrightarrow> transition_ok rn' tn"
    and "snd ` set (rn_spawned rn') = snd ` set (rn_spawned rn) \<union> set ts"
proof -
  have "tables_ok rn' \<and> pulls_ok rn' \<and> exclusive R rn' \<and> key_of rn' = key_of rn \<and> relays_at rn' = relays_at rn \<and>
      rn_transition rn' = rn_transition rn \<and> rn_next_root_id rn' = rn_next_root_id rn \<and>
      (set (tn_removed tn) = R \<longrightarrow> transition_ok rn tn \<longrightarrow> transition_ok rn' tn) \<and>
      snd ` set (rn_spawned rn') = snd ` set (rn_spawned rn) \<union> set ts"
    using assms(1-4) unfolding assms(5)
  proof (induction ts arbitrary: rn)
    case (Cons t ts)
    obtain rid k where t: "t = (rid, k)" by (rule prod.exhaust)
    have st: "startable R rn (rid, k)" using Cons.prems(4) t by simp
    then have key: "key_of rn rid \<noteq> None" by (simp add: startable_def)
    note v = start_pull_views [OF Cons.prems(2) key, of k] and r = start_pull_rest [OF Cons.prems(2) st]
    have "\<forall>u \<in> set ts. startable R (start_pull (rid, k) rn) u" using Cons.prems(4) r(2) by simp
    note IH = Cons.IH [OF start_pull_ok(1,2) [OF Cons.prems(1,2) key] r(1) [OF Cons.prems(3)] this]
    show ?case unfolding fold_simps t comp_apply using IH r(3) [of tn] by (simp add: v t)
  qed simp
  then show "tables_ok rn'" "pulls_ok rn'" "exclusive R rn'" "key_of rn' = key_of rn" "relays_at rn' = relays_at rn"
    "rn_transition rn' = rn_transition rn" "rn_next_root_id rn' = rn_next_root_id rn"
    "set (tn_removed tn) = R \<Longrightarrow> transition_ok rn tn \<Longrightarrow> transition_ok rn' tn"
    "snd ` set (rn_spawned rn') = snd ` set (rn_spawned rn) \<union> set ts"
    by (elim conjE; simp)+
qed

section \<open>Starting what is ready\<close>

lemma transition_okI:
  assumes "distinct (map fst (tn_relays tn))"
    and "\<And>rid pid k. rid \<in> set (tn_removed tn) \<Longrightarrow> (rid, pid, k) \<in> pulls rn \<Longrightarrow> map_of (tn_old_pulls tn) pid = Some k"
    and "\<And>k pid. map_of (tn_old_pulls tn) pid = Some k \<longleftrightarrow> (\<exists>rl. (k, rl) \<in> set (tn_relays tn) \<and> pid \<in> set (rl_waiting rl))"
    and "\<And>k rl t. (k, rl) \<in> set (tn_relays tn) \<Longrightarrow> t \<in> set (rl_targets rl) \<Longrightarrow>
      snd t = k \<and> fst t \<notin> set (tn_removed tn) \<and> key_of rn (fst t) \<noteq> None \<and> \<not> rl_started rl"
  shows "transition_ok rn tn"
  using assms unfolding transition_ok_def by blast

lemma transition_okD:
  assumes "transition_ok rn tn"
  shows "distinct (map fst (tn_relays tn))"
    and "rid \<in> set (tn_removed tn) \<Longrightarrow> (rid, pid, k) \<in> pulls rn \<Longrightarrow> map_of (tn_old_pulls tn) pid = Some k"
    and "rid \<in> set (tn_removed tn) \<Longrightarrow> (rid, pid, k) \<in> pulls rn \<Longrightarrow> \<exists>rl. (k, rl) \<in> set (tn_relays tn) \<and> pid \<in> set (rl_waiting rl)"
    and "(k, rl) \<in> set (tn_relays tn) \<Longrightarrow> pid \<in> set (rl_waiting rl) \<Longrightarrow> map_of (tn_old_pulls tn) pid = Some k"
    and "(k, rl) \<in> set (tn_relays tn) \<Longrightarrow> t \<in> set (rl_targets rl) \<Longrightarrow>
      snd t = k \<and> fst t \<notin> set (tn_removed tn) \<and> key_of rn (fst t) \<noteq> None \<and> \<not> rl_started rl"
    and "map_of (tn_old_pulls tn) pid = Some k \<longleftrightarrow> (\<exists>rl. (k, rl) \<in> set (tn_relays tn) \<and> pid \<in> set (rl_waiting rl))"
  using assms unfolding transition_ok_def by blast+

definition taken :: "relay_transition \<Rightarrow> relay_transition" where
  "taken rl = (if relay_ready rl then rl\<lparr>rl_started := True, rl_targets := []\<rparr> else rl)"

lemma taken_simps [simp]: "rl_waiting (taken rl) = rl_waiting rl"
  by (simp add: taken_def)

lemma take_ready:
  assumes "take_ready_targets tn = (ready, tn')"
  shows "tn_relays tn' = map (\<lambda>(k, rl). (k, taken rl)) (tn_relays tn)" and "tn_removed tn' = tn_removed tn"
    and "tn_old_pulls tn' = tn_old_pulls tn"
    and "t \<in> set ready \<longleftrightarrow> (\<exists>k rl. (k, rl) \<in> set (tn_relays tn) \<and> relay_ready rl \<and> t \<in> set (rl_targets rl))"
proof -
  have ready: "ready = concat (map (\<lambda>(_, rl). rl_targets rl) (filter (\<lambda>(_, rl). relay_ready rl) (tn_relays tn)))"
    using assms by (simp add: take_ready_targets_def)
  show "t \<in> set ready \<longleftrightarrow> (\<exists>k rl. (k, rl) \<in> set (tn_relays tn) \<and> relay_ready rl \<and> t \<in> set (rl_targets rl))"
    unfolding ready by (simp add: split_paired_Ex)
qed (use assms in \<open>auto simp: take_ready_targets_def taken_def [abs_def]\<close>)

lemma take_ready_ok:
  assumes "transition_ok rn tn" and "take_ready_targets tn = (ready, tn')"
  shows "transition_ok rn tn'" and "t \<in> set ready \<Longrightarrow> startable (set (tn_removed tn)) rn t"
    and "(k, rl) \<in> set (tn_relays tn) \<Longrightarrow> t \<in> set (rl_targets rl) \<Longrightarrow>
      t \<in> set ready \<or> (\<exists>rl. (k, rl) \<in> set (tn_relays tn') \<and> t \<in> set (rl_targets rl))"
    and "tn_old_pulls tn = [] \<Longrightarrow> (k, rl) \<in> set (tn_relays tn') \<Longrightarrow> rl_targets rl = []"
proof -
  note old = transition_okD [OF assms(1)] and taken = take_ready [OF assms(2)]
  have relays: "(k, rl) \<in> set (tn_relays tn') \<longleftrightarrow> (\<exists>rl'. (k, rl') \<in> set (tn_relays tn) \<and> rl = taken rl')" for k rl
    unfolding taken(1) by force
  show "transition_ok rn tn'"
  proof (rule transition_okI)
    show "distinct (map fst (tn_relays tn'))" using old(1) by (simp add: taken(1) case_prod_beta comp_def)
    show "map_of (tn_old_pulls tn') pid = Some k" if "rid \<in> set (tn_removed tn')" and "(rid, pid, k) \<in> pulls rn" for rid pid k
      using old(2) that unfolding taken(2,3) .
    show "map_of (tn_old_pulls tn') pid = Some k \<longleftrightarrow> (\<exists>rl. (k, rl) \<in> set (tn_relays tn') \<and> pid \<in> set (rl_waiting rl))" for k pid
      using old(6) [of pid k] unfolding relays taken(3) by (metis taken_simps)
    show "snd t = k \<and> fst t \<notin> set (tn_removed tn') \<and> key_of rn (fst t) \<noteq> None \<and> \<not> rl_started rl"
      if kt: "(k, rl) \<in> set (tn_relays tn')" "t \<in> set (rl_targets rl)" for k rl t
    proof -
      obtain rl' where rl': "(k, rl') \<in> set (tn_relays tn)" "rl = taken rl'" using kt(1) unfolding relays by blast
      then have "\<not> relay_ready rl'" using kt(2) by (auto simp: taken_def)
      then show ?thesis using old(5) [OF rl'(1)] kt(2) rl'(2) by (simp add: taken_def taken(2))
    qed
  qed
  show "startable (set (tn_removed tn)) rn t" if ready: "t \<in> set ready" for t
  proof -
    obtain k rl where rl: "(k, rl) \<in> set (tn_relays tn)" "relay_ready rl" "t \<in> set (rl_targets rl)"
      using ready unfolding taken(4) by blast
    note t = old(5) [OF rl(1,3)]
    have "(rid, pid, k) \<notin> pulls rn" if "rid \<in> set (tn_removed tn)" for rid pid
    proof
      assume "(rid, pid, k) \<in> pulls rn"
      from old(3) [OF that this] obtain rl' where w: "(k, rl') \<in> set (tn_relays tn)" "pid \<in> set (rl_waiting rl')" by blast
      with eq_key_imp_eq_value [OF old(1) rl(1) w(1)] rl(2) show False by (simp add: relay_ready_def)
    qed
    with t show ?thesis by (simp add: startable_def)
  qed
  show "t \<in> set ready \<or> (\<exists>rl. (k, rl) \<in> set (tn_relays tn') \<and> t \<in> set (rl_targets rl))"
    if "(k, rl) \<in> set (tn_relays tn)" and "t \<in> set (rl_targets rl)" for k rl t
    using that taken(4) [of t] relays [of k rl] by (cases "relay_ready rl") (auto simp: taken_def)
  show "rl_targets rl = []" if none: "tn_old_pulls tn = []" and rl: "(k, rl) \<in> set (tn_relays tn')" for k rl
  proof -
    obtain rl' where rl': "(k, rl') \<in> set (tn_relays tn)" "rl = taken rl'" using rl unfolding relays by blast
    then have "rl_waiting rl' = []" using old(4) [OF rl'(1)] none by (cases "rl_waiting rl'") auto
    then show ?thesis using old(5) [OF rl'(1)] rl'(2) by (cases "rl_targets rl'") (auto simp: taken_def relay_ready_def)
  qed
qed

lemma targets_iff: "t \<in> (\<Union>(k, rl) \<in> set rls. set (rl_targets rl)) \<longleftrightarrow> (\<exists>k rl. (k, rl) \<in> set rls \<and> t \<in> set (rl_targets rl))"
  by blast

lemma to_start_iff: "rn_transition rn = Some tn \<Longrightarrow> t \<in> to_start rn \<longleftrightarrow> (\<exists>k rl. (k, rl) \<in> set (tn_relays tn) \<and> t \<in> set (rl_targets rl))"
  by (simp add: to_start_def) blast

lemma spawn_okI:
  assumes "\<And>rid k. (rid, k) \<in> relays_at rn \<Longrightarrow> (\<exists>pid. (pid, rid, k) \<in> set (rn_spawned rn)) \<or> (rid, k) \<in> to_start rn"
  shows "spawn_ok rn"
  using assms unfolding spawn_ok_def by blast

lemma spawn_okD: "spawn_ok rn \<Longrightarrow> (rid, k) \<in> relays_at rn \<Longrightarrow> (rid, k) \<in> snd ` set (rn_spawned rn) \<union> to_start rn"
  unfolding spawn_ok_def by force

lemma spawn_ok_iff: "spawn_ok rn \<longleftrightarrow> relays_at rn \<subseteq> snd ` set (rn_spawned rn) \<union> to_start rn"
  unfolding spawn_ok_def by force

lemma subset_chain: "A \<subseteq> S \<union> T \<Longrightarrow> T \<subseteq> B \<union> U \<Longrightarrow> A \<subseteq> S \<union> B \<union> U"
  by blast

text \<open>Replacing the transition by one with the same removed roots.\<close>

lemma replace_transition:
  fixes rn :: runner
  defines "rn1 tn \<equiv> rn\<lparr>rn_transition := tn\<rparr>"
  shows "core (rn1 tn) = core rn" "key_of (rn1 tn) = key_of rn" "pulls (rn1 tn) = pulls rn" "relays_at (rn1 tn) = relays_at rn"
    "tables_ok (rn1 tn) = tables_ok rn" "pulls_ok (rn1 tn) = pulls_ok rn" "exclusive R (rn1 tn) = exclusive R rn"
    "cover_ok cov R (rn1 tn) = cover_ok cov R rn" "transition_ok (rn1 tn) = transition_ok rn"
    "startable R (rn1 tn) = startable R rn" "conflict (rn1 tn) = conflict rn"
proof -
  show c: "core (rn1 tn) = core rn" by (simp add: rn1_def core_def fun_eq_iff)
  show v: "key_of (rn1 tn) = key_of rn" "pulls (rn1 tn) = pulls rn" "relays_at (rn1 tn) = relays_at rn"
    by (rule view_same [OF c])+
  show "tables_ok (rn1 tn) = tables_ok rn" "pulls_ok (rn1 tn) = pulls_ok rn" "exclusive R (rn1 tn) = exclusive R rn"
    "cover_ok cov R (rn1 tn) = cover_ok cov R rn" "transition_ok (rn1 tn) = transition_ok rn"
    "startable R (rn1 tn) = startable R rn" "conflict (rn1 tn) = conflict rn"
    unfolding tables_ok_def pulls_ok_def exclusive_def cover_ok_def transition_ok_def startable_def conflict_def c v fun_eq_iff
    by (simp_all add: rn1_def)
qed

lemma start_ready_inv:
  assumes "runner_inv cov rn"
  shows "runner_inv cov (start_ready_relay_transitions rn)"
    and "rn_transition (start_ready_relay_transitions rn) = Some tn' \<Longrightarrow> tn_old_pulls tn' = [] \<Longrightarrow> to_start (start_ready_relay_transitions rn) = {}"
proof -
  note inv = runner_invD [OF assms]
  have "runner_inv cov (start_ready_relay_transitions rn) \<and>
      (\<forall>tn'. rn_transition (start_ready_relay_transitions rn) = Some tn' \<longrightarrow> tn_old_pulls tn' = [] \<longrightarrow> to_start (start_ready_relay_transitions rn) = {})"
  proof (cases "rn_transition rn")
    case None
    then show ?thesis using assms by (simp add: start_ready_relay_transitions_def)
  next
    case (Some tn)
    obtain ready tn' where r: "take_ready_targets tn = (ready, tn')" by (rule prod.exhaust)
    let ?rn1 = "rn\<lparr>rn_transition := Some tn'\<rparr>"
    let ?rn2 = "fold start_pull ready ?rn1"
    note same = replace_transition [where rn = rn and tn = "Some tn'"] and t = take_ready [OF r] and ok = take_ready_ok [OF inv(5) [OF Some] r]
    have R: "removed_of rn = set (tn_removed tn')" using Some t(2) by (simp add: removed_of_def)
    have "\<forall>t \<in> set ready. startable (set (tn_removed tn')) rn t" using ok(2) by (simp add: t(2))
    note st = start_pulls [of ?rn1 "set (tn_removed tn')" ready, unfolded same, OF inv(1,2) inv(4) [unfolded R] this]
    have tr: "rn_transition ?rn2 = Some tn'" using st(6) by simp
    have R2: "removed_of ?rn2 = set (tn_removed tn')" using tr by (simp add: removed_of_def)
    have "to_start rn \<subseteq> set ready \<union> to_start ?rn2" using ok(3) unfolding to_start_iff [OF Some] to_start_iff [OF tr] subset_iff Un_iff by blast
    from subset_chain [OF inv(6) [unfolded spawn_ok_iff] this] have "spawn_ok ?rn2" using st(5,9) by (simp add: spawn_ok_iff same)
    moreover have "cover_ok cov (set (tn_removed tn')) ?rn2" using inv(3) st(4) unfolding R cover_ok_def by (simp add: same)
    moreover have "transition_ok ?rn2 tn'" using st(8) [OF refl] ok(1) by (simp add: same)
    ultimately have "runner_inv cov ?rn2" by (intro runner_invI) (use st(1-3) tr R2 in simp_all)
    moreover have "to_start ?rn2 = {}" if "tn_old_pulls tn' = []" using ok(4) that t(3) to_start_iff [OF tr] by fastforce
    ultimately show ?thesis using tr Some r by (simp add: start_ready_relay_transitions_def)
  qed
  then show "runner_inv cov (start_ready_relay_transitions rn)"
    "rn_transition (start_ready_relay_transitions rn) = Some tn' \<Longrightarrow> tn_old_pulls tn' = [] \<Longrightarrow> to_start (start_ready_relay_transitions rn) = {}"
    by blast+
qed

section \<open>Finishing a transition\<close>

lemma remove_root_views:
  assumes "tables_ok rn"
  shows "core (remove_root rid rn) = (core rn)(rid := None)" and "tables_ok (remove_root rid rn)"
    and "rn_spawned (remove_root rid rn) = rn_spawned rn" and "rn_next_pull_id (remove_root rid rn) = rn_next_pull_id rn"
    and "rn_transition (remove_root rid rn) = rn_transition rn"
proof -
  show c: "core (remove_root rid rn) = (core rn)(rid := None)"
    by (auto simp: core_def remove_root_def drop_registrations_def delete_conv' fun_eq_iff split: option.split)
  have "key_of rn rid = map_option rt_key (map_of (rn_roots rn) rid)"
    by (cases "map_of (rn_roots rn) rid") (simp_all add: key_of_def core_def core_of_def)
  then have ids: "map_of (rn_root_ids (remove_root rid rn)) key = (if key_of rn rid = Some key then None else map_of (rn_root_ids rn) key)" for key
    by (auto simp: remove_root_def drop_registrations_def delete_conv' split: option.split)
  show "tables_ok (remove_root rid rn)"
  proof (rule tables_okI)
    fix rid' i key rs ps
    assume "core (remove_root rid rn) rid' = Some (i, key, rs, ps)"
    then have "core rn rid' = Some (i, key, rs, ps)" unfolding c by (simp split: if_splits)
    then show "i = rid' \<and> rid' < rn_next_root_id (remove_root rid rn) \<and> distinct (map fst ps)"
      using tables_okD(1,2,4) [OF assms, of rid' i key rs ps] by (simp add: remove_root_def drop_registrations_def split: option.split)
  next
    fix key rid'
    show "map_of (rn_root_ids (remove_root rid rn)) key = Some rid' \<longleftrightarrow> key_of (remove_root rid rn) rid' = Some key"
      using tables_okD(3) [OF assms, of key rid'] tables_okD(3) [OF assms, of key rid] unfolding ids view_delete(1) [OF c] by auto
  qed
qed (simp_all add: remove_root_def drop_registrations_def split: option.split)

lemma remove_roots:
  fixes rids :: "nat list"
  assumes "tables_ok rn"
  defines "rn' \<equiv> fold remove_root rids rn"
  shows "core rn' = (core rn) |` (- set rids)" and "tables_ok rn'" and "rn_spawned rn' = rn_spawned rn"
    and "rn_next_pull_id rn' = rn_next_pull_id rn" and "rn_transition rn' = rn_transition rn"
proof -
  have "core rn' = (core rn) |` (- set rids) \<and> tables_ok rn' \<and> rn_spawned rn' = rn_spawned rn \<and>
      rn_next_pull_id rn' = rn_next_pull_id rn \<and> rn_transition rn' = rn_transition rn"
    using assms(1) unfolding assms(2)
  proof (induction rids arbitrary: rn)
    case (Cons rid rids)
    note v = remove_root_views [OF Cons.prems, of rid]
    show ?case unfolding fold_simps comp_apply using Cons.IH [OF v(2)] by (auto simp: v(1,3-5) restrict_map_def fun_eq_iff)
  qed (simp add: restrict_map_def)
  then show "core rn' = (core rn) |` (- set rids)" "tables_ok rn'" "rn_spawned rn' = rn_spawned rn"
    "rn_next_pull_id rn' = rn_next_pull_id rn" "rn_transition rn' = rn_transition rn" by blast+
qed

lemma view_restrict:
  assumes "core rn' = (core rn) |` A"
  shows "key_of rn' rid = (if rid \<in> A then key_of rn rid else None)" and "pulls rn' \<subseteq> pulls rn" and "relays_at rn' \<subseteq> relays_at rn"
  using assms by (auto simp: key_of_def pulls_def relays_at_def restrict_map_def split: if_splits)

lemma pulls_ok_mono: "pulls_ok rn \<Longrightarrow> pulls rn' \<subseteq> pulls rn \<Longrightarrow> rn_spawned rn' = rn_spawned rn \<Longrightarrow> rn_next_pull_id rn' = rn_next_pull_id rn \<Longrightarrow> pulls_ok rn'"
  unfolding pulls_ok_def by auto

lemma finish_inv:
  assumes "runner_inv cov rn" and "\<And>tn. rn_transition rn = Some tn \<Longrightarrow> tn_old_pulls tn = [] \<Longrightarrow> to_start rn = {}"
  shows "runner_inv cov (finish_transition_if_ready rn)"
proof (cases "\<exists>tn. rn_transition rn = Some tn \<and> tn_old_pulls tn = []")
  case True
  then obtain tn where tn: "rn_transition rn = Some tn" "tn_old_pulls tn = []" by blast
  note inv = runner_invD [OF assms(1)]
  let ?start = "rn\<lparr>rn_transition := None\<rparr>"
  let ?out = "fold remove_root (tn_removed tn) ?start"
  note same = replace_transition [where rn = rn and tn = None]
  note v = remove_roots [of ?start "tn_removed tn", unfolded same, OF inv(1)]
  note w = view_restrict [OF v(1)]
  have R: "removed_of rn = set (tn_removed tn)" "removed_of ?out = {}" using tn(1) v(5) by (simp_all add: removed_of_def)
  have "runner_inv cov ?out"
  proof (rule runner_invI)
    show "tables_ok ?out" by (rule v(2))
    show "pulls_ok ?out" using inv(2) w(2) by (rule pulls_ok_mono) (use v(3,4) in simp_all)
    have "rid \<notin> {} \<and> key_of ?out rid = Some key \<longleftrightarrow> rid \<notin> set (tn_removed tn) \<and> key_of rn rid = Some key" for rid key
      by (simp add: w(1))
    then show "cover_ok cov (removed_of ?out) ?out" using inv(3) unfolding cover_ok_def R by simp
    show "exclusive (removed_of ?out) ?out" by (simp add: exclusive_def R(2))
    show "spawn_ok ?out" using inv(6) assms(2) [OF tn] w(3) unfolding spawn_ok_iff v(3) by auto
  qed (use v(5) in simp)
  then show ?thesis using tn by (simp add: finish_transition_if_ready_def)
qed (use assms(1) in \<open>auto simp: finish_transition_if_ready_def split: option.split\<close>)

section \<open>Pulls that end\<close>

lemma set_update_distinct:
  assumes "distinct (map fst al)"
  shows "(k', v') \<in> set (AList.update k v al) \<longleftrightarrow> (if k' = k then v' = v else (k', v') \<in> set al)"
  using map_of_eq_Some_iff [OF assms, of k' v'] map_of_eq_Some_iff [OF distinct_update [OF assms], of k v k' v']
  by (auto simp: update_conv')

lemma runner_inv_shrink:
  assumes inv: "runner_inv cov rn" and "key_of rn' = key_of rn" and "relays_at rn' = relays_at rn" and "pulls rn' \<subseteq> pulls rn"
    and "\<And>rid i key rs ps. core rn' rid = Some (i, key, rs, ps) \<Longrightarrow> i = rid \<and> distinct (map fst ps)"
    and "rn_root_ids rn' = rn_root_ids rn" and "rn_next_root_id rn' = rn_next_root_id rn"
    and "rn_next_pull_id rn' = rn_next_pull_id rn" and "rn_spawned rn' = rn_spawned rn" and "rn_transition rn' = rn_transition rn"
  shows "runner_inv cov rn'"
proof (rule runner_invI)
  note D = runner_invD [OF inv]
  have R: "removed_of rn' = removed_of rn" "to_start rn' = to_start rn" "conflict rn' = conflict rn"
    by (simp_all add: view_defs assms(2,10) fun_eq_iff)
  show "tables_ok rn'"
  proof (rule tables_okI)
    fix rid i key rs ps
    assume c: "core rn' rid = Some (i, key, rs, ps)"
    then have "key_of rn' rid = Some key" by (simp add: key_of_def)
    then have "key_of rn rid = Some key" by (simp add: assms(2))
    then obtain i' rs' ps' where "core rn rid = Some (i', key, rs', ps')" by (auto simp: key_of_def)
    then show "i = rid \<and> rid < rn_next_root_id rn' \<and> distinct (map fst ps)" using assms(5) [OF c] tables_okD(2) [OF D(1)] assms(7) by simp
  qed (simp add: assms(2,6) tables_okD(3) [OF D(1)])
  show "pulls_ok rn'" by (rule pulls_ok_mono [OF D(2) assms(4,9,8)])
  show "cover_ok cov (removed_of rn') rn'" using D(3) unfolding cover_ok_def R assms(2) .
  show "exclusive (removed_of rn') rn'" using D(4) assms(4) unfolding exclusive_def R by blast
  show "spawn_ok rn'" using D(6) unfolding spawn_ok_iff R assms(3,9) .
  fix tn
  assume "rn_transition rn' = Some tn"
  then have t: "transition_ok rn tn" using D(5) assms(10) by simp
  note t = transition_okD [OF t]
  show "transition_ok rn' tn"
    by (rule transition_okI [OF t(1) _ t(6) t(5) [folded assms(2)]]) (use t(2) assms(4) in blast)+
qed

lemma complete_old_pull_ok:
  assumes "transition_ok rn tn" and "\<And>rid k. rid \<in> set (tn_removed tn) \<Longrightarrow> (rid, pid, k) \<notin> pulls rn"
  shows "transition_ok rn (complete_old_pull pid tn)" and "tn_removed (complete_old_pull pid tn) = tn_removed tn"
    and "(\<Union>(k, rl) \<in> set (tn_relays (complete_old_pull pid tn)). set (rl_targets rl)) = (\<Union>(k, rl) \<in> set (tn_relays tn). set (rl_targets rl))"
proof -
  note t = transition_okD [OF assms(1)]
  have "transition_ok rn (complete_old_pull pid tn) \<and> tn_removed (complete_old_pull pid tn) = tn_removed tn \<and>
      (\<Union>(k, rl) \<in> set (tn_relays (complete_old_pull pid tn)). set (rl_targets rl)) = (\<Union>(k, rl) \<in> set (tn_relays tn). set (rl_targets rl))"
  proof (cases "map_of (tn_old_pulls tn) pid")
    case k: (Some k)
    then obtain rl where kin: "(k, rl) \<in> set (tn_relays tn)" using t(6) by blast
    let ?rl = "rl\<lparr>rl_waiting := removeAll pid (rl_waiting rl)\<rparr>"
    let ?tn = "tn\<lparr>tn_old_pulls := AList.delete pid (tn_old_pulls tn), tn_relays := AList.update k ?rl (tn_relays tn)\<rparr>"
    have tn: "complete_old_pull pid tn = ?tn" using k map_of_is_SomeI [OF t(1) kin] by (simp add: complete_old_pull_def Let_def)
    have mem: "(k', rl') \<in> set (tn_relays ?tn) \<longleftrightarrow> (if k' = k then rl' = ?rl else (k', rl') \<in> set (tn_relays tn))" for k' rl'
      by (simp add: set_update_distinct [OF t(1)])
    have old: "map_of (tn_old_pulls ?tn) pid' = (if pid' = pid then None else map_of (tn_old_pulls tn) pid')" for pid'
      by (simp add: delete_conv')
    have only: "rl' = rl" if "(k, rl') \<in> set (tn_relays tn)" for rl' using eq_key_imp_eq_value [OF t(1) kin that] by simp
    then have one: "(\<exists>rl'. (k, rl') \<in> set (tn_relays tn) \<and> P rl') \<longleftrightarrow> P rl" for P using kin by blast
    have "transition_ok rn ?tn"
    proof (rule transition_okI)
      show "distinct (map fst (tn_relays ?tn))" using t(1) by (simp add: distinct_update)
    next
      fix rid pid' k'
      assume r: "rid \<in> set (tn_removed ?tn)" "(rid, pid', k') \<in> pulls rn"
      then have "pid' \<noteq> pid" using assms(2) [of rid k'] by auto
      then show "map_of (tn_old_pulls ?tn) pid' = Some k'" using t(2) r unfolding old by simp
    next
      fix k' pid'
      have "(\<exists>rl'. (k', rl') \<in> set (tn_relays ?tn) \<and> pid' \<in> set (rl_waiting rl')) \<longleftrightarrow>
          (\<exists>rl'. (k', rl') \<in> set (tn_relays tn) \<and> pid' \<in> set (rl_waiting rl')) \<and> \<not> (k' = k \<and> pid' = pid)"
        unfolding mem by (cases "k' = k") (simp_all add: one)
      then show "map_of (tn_old_pulls ?tn) pid' = Some k' \<longleftrightarrow> (\<exists>rl. (k', rl) \<in> set (tn_relays ?tn) \<and> pid' \<in> set (rl_waiting rl))"
        unfolding t(6) [symmetric] old using k by auto
    next
      fix k' rl' t'
      assume "(k', rl') \<in> set (tn_relays ?tn)" "t' \<in> set (rl_targets rl')"
      then show "snd t' = k' \<and> fst t' \<notin> set (tn_removed ?tn) \<and> key_of rn (fst t') \<noteq> None \<and> \<not> rl_started rl'"
        using t(5) [of k' rl' t'] t(5) [OF kin, of t'] unfolding mem by (auto split: if_splits)
    qed
    moreover have "(\<exists>rl'. (k', rl') \<in> set (tn_relays ?tn) \<and> t' \<in> set (rl_targets rl')) \<longleftrightarrow> (\<exists>rl'. (k', rl') \<in> set (tn_relays tn) \<and> t' \<in> set (rl_targets rl'))" for k' t'
      unfolding mem by (cases "k' = k") (simp_all add: one)
    then have "(\<Union>(k, rl) \<in> set (tn_relays ?tn). set (rl_targets rl)) = (\<Union>(k, rl) \<in> set (tn_relays tn). set (rl_targets rl))"
      by (intro set_eqI) (simp only: targets_iff)
    ultimately show ?thesis unfolding tn by simp
  next
    case None
    then show ?thesis using assms(1) by (simp add: complete_old_pull_def)
  qed
  then show "transition_ok rn (complete_old_pull pid tn)" "tn_removed (complete_old_pull pid tn) = tn_removed tn"
    "(\<Union>(k, rl) \<in> set (tn_relays (complete_old_pull pid tn)). set (rl_targets rl)) = (\<Union>(k, rl) \<in> set (tn_relays tn). set (rl_targets rl))"
    by blast+
qed

definition not_old :: "runner \<Rightarrow> nat \<Rightarrow> bool" where
  "not_old rn pid \<longleftrightarrow> (\<forall>rid \<in> removed_of rn. \<forall>k. (rid, pid, k) \<notin> pulls rn)"

lemma mark_inv:
  assumes inv: "runner_inv cov rn" and "not_old rn pid"
  shows "runner_inv cov (mark_old_pull_complete pid rn)"
    and "not_old (mark_old_pull_complete pid rn) = not_old rn"
proof -
  have "runner_inv cov (mark_old_pull_complete pid rn) \<and> not_old (mark_old_pull_complete pid rn) = not_old rn"
  proof (cases "rn_transition rn")
    case None
    then have "mark_old_pull_complete pid rn = rn" by (cases rn) (simp add: mark_old_pull_complete_def)
    then show ?thesis using inv by simp
  next
    case (Some tn)
    note D = runner_invD [OF inv]
    let ?rn = "rn\<lparr>rn_transition := Some (complete_old_pull pid tn)\<rparr>"
    have "rid \<in> set (tn_removed tn) \<Longrightarrow> (rid, pid, k) \<notin> pulls rn" for rid k
      using assms(2) Some unfolding not_old_def removed_of_def by simp
    note c = complete_old_pull_ok [OF D(5) [OF Some] this]
    note same = replace_transition [where rn = rn and tn = "Some (complete_old_pull pid tn)"]
    have v: "removed_of ?rn = removed_of rn" "to_start ?rn = to_start rn" using Some c(2,3) by (simp_all add: removed_of_def to_start_def)
    have "runner_inv cov ?rn"
    proof (rule runner_invI)
      show "spawn_ok ?rn" using D(6) unfolding spawn_ok_iff v(2) same by simp
    qed (use D(1-4) c(1) in \<open>simp_all add: v same\<close>)
    moreover have "not_old ?rn = not_old rn" by (simp add: not_old_def fun_eq_iff v same)
    ultimately show ?thesis using Some by (simp add: mark_old_pull_complete_def)
  qed
  then show "runner_inv cov (mark_old_pull_complete pid rn)" "not_old (mark_old_pull_complete pid rn) = not_old rn" by blast+
qed

lemma mark_all_inv:
  assumes "runner_inv cov rn" and "\<forall>pid \<in> set pids. not_old rn pid"
  shows "runner_inv cov (fold mark_old_pull_complete pids rn)"
  using assms
proof (induction pids arbitrary: rn)
  case (Cons pid pids)
  then have "not_old rn pid" by simp
  note m = mark_inv [OF Cons.prems(1) this]
  show ?case unfolding fold_simps comp_apply using Cons.prems(2) by (intro Cons.IH m(1)) (simp add: m(2))
qed simp

lemma settle_inv:
  assumes "runner_inv cov rn" and "\<forall>pid \<in> set pids. not_old rn pid"
  shows "runner_inv cov (finish_transition_if_ready (start_ready_relay_transitions (fold mark_old_pull_complete pids rn)))"
  using start_ready_inv [OF mark_all_inv [OF assms]] by (intro finish_inv)

text \<open>Replacing a root by one with the same id, key and relays and no new pulls.\<close>

lemma put_root_core: "core (put_root root rn) = (core rn)(rt_id root \<mapsto> core_of root)"
  by (auto simp: core_def put_root_def update_conv' fun_eq_iff)

lemma put_root_shrinks:
  assumes inv: "runner_inv cov rn" and "map_of (rn_roots rn) rid = Some root"
    and "rt_id root' = rt_id root" "rt_key root' = rt_key root" "rt_relays root' = rt_relays root"
    and "\<And>pid pull'. (pid, pull') \<in> set (rt_pulls root') \<Longrightarrow> \<exists>pull. (pid, pull) \<in> set (rt_pulls root) \<and> pl_relay pull = pl_relay pull'"
    and "distinct (map fst (rt_pulls root)) \<Longrightarrow> distinct (map fst (rt_pulls root'))"
  shows "runner_inv cov (put_root root' rn)"
    and "pulls (put_root root' rn) = {t \<in> pulls rn. fst t \<noteq> rid} \<union> {(rid, pid, pl_relay pull) | pid pull. (pid, pull) \<in> set (rt_pulls root')}"
    and "removed_of (put_root root' rn) = removed_of rn"
proof -
  have c: "core rn rid = Some (rt_id root, rt_key root, rt_relays root, rt_pulls root)" using assms(2) by (simp add: core_def core_of_def)
  note id = tables_okD(1) [OF runner_invD(1) [OF inv] c]
  have n: "core (put_root root' rn) = (core rn)(rid \<mapsto> (rid, rt_key root, rt_relays root, rt_pulls root'))"
    using assms(3-5) id by (simp add: put_root_core core_of_def)
  note v = view_update [OF n]
  show "pulls (put_root root' rn) = {t \<in> pulls rn. fst t \<noteq> rid} \<union> {(rid, pid, pl_relay pull) | pid pull. (pid, pull) \<in> set (rt_pulls root')}"
    by (rule v(2))
  show "removed_of (put_root root' rn) = removed_of rn" by (simp add: removed_of_def put_root_def)
  show "runner_inv cov (put_root root' rn)"
  proof (rule runner_inv_shrink [OF inv])
    have "key_of rn rid = Some (rt_key root)" using c by (simp add: key_of_def)
    then show "key_of (put_root root' rn) = key_of rn" by (simp add: v(1) fun_upd_idem)
    have "Pair rid ` set (rt_relays root) = {t \<in> relays_at rn. fst t = rid}" using c by (auto simp: relays_at_def)
    then show "relays_at (put_root root' rn) = relays_at rn" unfolding v(3) by blast
    have "{(rid, pid, pl_relay pull) | pid pull. (pid, pull) \<in> set (rt_pulls root)} \<subseteq> pulls rn" using c by (auto simp: pulls_def)
    then show "pulls (put_root root' rn) \<subseteq> pulls rn" unfolding v(2) using assms(6) by fastforce
    have "distinct (map fst (rt_pulls root'))" using assms(7) tables_okD(4) [OF runner_invD(1) [OF inv] c] by simp
    then show "i = rid' \<and> distinct (map fst ps)" if "core (put_root root' rn) rid' = Some (i, key, rs, ps)" for rid' i key rs ps
      using that tables_okD(1,4) [OF runner_invD(1) [OF inv], of rid' i key rs ps] unfolding n by (auto split: if_splits)
  qed (simp_all add: put_root_def)
qed

lemma drop_registrations_inv [simp]:
  "runner_inv cov (drop_registrations regs rn) = runner_inv cov rn" "not_old (drop_registrations regs rn) = not_old rn"
proof -
  have c: "core (drop_registrations regs rn) = core rn" by (simp add: core_def drop_registrations_def fun_eq_iff)
  then show "runner_inv cov (drop_registrations regs rn) = runner_inv cov rn"
    by (rule runner_inv_cong) (simp_all add: drop_registrations_def)
  show "not_old (drop_registrations regs rn) = not_old rn"
    by (simp add: not_old_def fun_eq_iff view_same(2) [OF c] removed_of_def) (simp add: drop_registrations_def)
qed

text \<open>The end of a pull, reported by the task that was spawned for it.\<close>

lemma handle_pull_ended_inv:
  assumes inv: "runner_inv cov rn" and sp: "(pid, rid, k) \<in> set (rn_spawned rn)"
  shows "runner_inv cov (handle_pull_ended rid pid outcome rn)"
proof (cases "map_of (rn_roots rn) rid")
  case (Some root)
  let ?root = "root\<lparr>rt_pulls := AList.delete pid (rt_pulls root), rt_sources := AList.delete pid (rt_sources root)\<rparr>"
  let ?regs = "case map_of (rt_sources root) pid of None \<Rightarrow> [] | Some ss \<Rightarrow> map snd ss"
  have del: "(p, pull) \<in> set (rt_pulls ?root) \<Longrightarrow> (p, pull) \<in> set (rt_pulls root) \<and> p \<noteq> pid" for p pull
    by (auto simp: AList.delete_eq)
  have sub: "(p, pull') \<in> set (rt_pulls ?root) \<Longrightarrow> \<exists>pull. (p, pull) \<in> set (rt_pulls root) \<and> pl_relay pull = pl_relay pull'" for p pull'
    using del by blast
  have i: "runner_inv cov (put_root ?root rn)" by (rule put_root_shrinks(1) [OF inv Some _ _ _ sub]) (simp_all add: distinct_delete)
  have p: "pulls (put_root ?root rn) = {t \<in> pulls rn. fst t \<noteq> rid} \<union> {(rid, p, pl_relay pull) | p pull. (p, pull) \<in> set (rt_pulls ?root)}"
    by (rule put_root_shrinks(2) [OF inv Some _ _ _ sub]) (simp_all add: distinct_delete)
  have "(rid', pid, k') \<notin> pulls (put_root ?root rn)" for rid' k'
  proof
    assume "(rid', pid, k') \<in> pulls (put_root ?root rn)"
    then have "(rid', pid, k') \<in> pulls rn" "rid' \<noteq> rid" unfolding p using del by auto
    from pulls_okD(1) [OF runner_invD(2) [OF inv] this(1)] sp pulls_okD(2) [OF runner_invD(2) [OF inv]] this(2)
    show False by (auto dest: eq_key_imp_eq_value)
  qed
  then have "not_old (put_root ?root rn) pid" unfolding not_old_def by blast
  then show ?thesis using settle_inv [of cov "drop_registrations ?regs (put_root ?root rn)" "[pid]"] i Some
    by (simp add: handle_pull_ended_def Let_def)
qed (use inv in \<open>simp add: handle_pull_ended_def\<close>)

lemma handle_pull_event_inv:
  assumes inv: "runner_inv cov rn"
  shows "runner_inv cov (handle_pull_event rid pid ev rn)"
proof (cases "map_of (rn_roots rn) rid")
  case (Some root)
  have put: "runner_inv cov (put_root root' rn')" if "rn_roots rn' = rn_roots rn" "runner_inv cov rn'" "core_of root' = core_of root" for root' rn'
  proof (rule put_root_shrinks(1) [OF that(2), of rid root])
    show "\<exists>pull. (p, pull) \<in> set (rt_pulls root) \<and> pl_relay pull = pl_relay pull'" if "(p, pull') \<in> set (rt_pulls root')" for p pull'
      using that \<open>core_of root' = core_of root\<close> by (auto simp: core_of_def)
  qed (use that Some in \<open>simp_all add: core_of_def\<close>)
  have loc: "runner_inv cov (rn\<lparr>rn_locals := lc\<rparr>)" for lc
    using runner_inv_cong [of "rn\<lparr>rn_locals := lc\<rparr>" rn cov] inv by (simp add: core_def fun_eq_iff)
  show ?thesis using Some inv put loc
    by (simp add: handle_pull_event_def Let_def case_prod_beta core_of_def split: namespace_event.split)
qed (use inv in \<open>simp add: handle_pull_event_def\<close>)

section \<open>Cancelling pulls and handing registrations over\<close>

lemma cancel_pulls_inv:
  fixes listening :: "nat list" and rid :: nat
  assumes inv: "runner_inv cov (snd st)" and fin: "\<forall>pid \<in> set (fst st). not_old (snd st) pid"
  defines "st' \<equiv> cancel_pulls listening rid st"
  shows "runner_inv cov (snd st') \<and> (\<forall>pid \<in> set (fst st'). not_old (snd st') pid)"
proof (cases "map_of (rn_roots (snd st)) rid")
  case None
  then show ?thesis using inv fin by (cases st) (simp add: st'_def cancel_pulls_def)
next
  case (Some root)
  obtain completed rn where st: "st = (completed, rn)" by (rule prod.exhaust)
  let ?sent = "\<lambda>(pull_id, pull). pl_cancel pull \<and> pull_id \<in> set listening"
  let ?ps = "map (\<lambda>(pull_id, pull). (pull_id, pull\<lparr>pl_cancel := False\<rparr>)) (filter ?sent (rt_pulls root))"
  let ?root = "root\<lparr>rt_pulls := ?ps\<rparr>"
  have new: "st' = (completed @ map fst (filter (\<lambda>p. \<not> ?sent p) (rt_pulls root)), put_root ?root rn)"
    using Some by (simp add: st'_def st cancel_pulls_def Let_def)
  have rn: "runner_inv cov rn" "map_of (rn_roots rn) rid = Some root" using inv Some st by simp_all
  have sub: "\<exists>pull. (pid, pull) \<in> set (rt_pulls root) \<and> pl_relay pull = pl_relay pull'" if "(pid, pull') \<in> set (rt_pulls ?root)" for pid pull'
    using that by auto
  have dist: "distinct (map fst (rt_pulls ?root))" if "distinct (map fst (rt_pulls root))"
    using that by (simp add: comp_def case_prod_beta distinct_map_filter)
  note P = put_root_shrinks [OF rn, of ?root, OF _ _ _ sub dist, simplified]
  have c: "core rn rid = Some (rt_id root, rt_key root, rt_relays root, rt_pulls root)" using rn(2) by (simp add: core_def core_of_def)
  note T = tables_okD(4) [OF runner_invD(1) [OF rn(1)] c] and S = pulls_okD [OF runner_invD(2) [OF rn(1)]]
  have "(rid', pid, k) \<notin> pulls (put_root ?root rn)" if out: "(pid, pull) \<in> set (rt_pulls root)" "\<not> ?sent (pid, pull)" for rid' pid k pull
  proof
    assume "(rid', pid, k) \<in> pulls (put_root ?root rn)"
    then consider "rid' \<noteq> rid" "(rid', pid, k) \<in> pulls rn" | pull' where "(pid, pull') \<in> set (rt_pulls root)" "?sent (pid, pull')"
      unfolding P(2) by auto
    then show False
    proof cases
      case 1
      have "(rid, pid, pl_relay pull) \<in> pulls rn" using c out(1) by (auto simp: pulls_def)
      with S(1) [OF this] S(1) [OF 1(2)] S(2) 1(1) show False by (auto dest: eq_key_imp_eq_value)
    next
      case (2 pull')
      with eq_key_imp_eq_value [OF T 2(1) out(1)] out(2) show False by simp
    qed
  qed
  then have "not_old (put_root ?root rn) pid" if "pid \<in> set (map fst (filter (\<lambda>p. \<not> ?sent p) (rt_pulls root)))" for pid
    using that unfolding not_old_def by fastforce
  moreover have "not_old (put_root ?root rn) pid" if "not_old rn pid" for pid
    using that sub c unfolding not_old_def P(2,3) by (fastforce simp: pulls_def)
  ultimately show ?thesis using P(1) fin st unfolding new by auto
qed

lemma transfer_registration_cores:
  "core_of (fst (transfer_registration ns reg st)) = core_of (fst st)"
  "map core_of (snd (transfer_registration ns reg st)) = map core_of (snd st)"
  by (induction ns reg st rule: transfer_registration.induct) (auto simp: retain_registration_def core_of_def case_prod_beta)

lemma transfer_all_cores:
  "core_of (fst (transfer_all regs st)) = core_of (fst st)" "map core_of (snd (transfer_all regs st)) = map core_of (snd st)"
  unfolding transfer_all_def
  by (rule fold_keeps [of "\<lambda>st. core_of (fst st)"] fold_keeps [of "\<lambda>st. map core_of (snd st)"],
      simp add: case_prod_beta transfer_registration_cores)+

definition same_runner :: "runner \<Rightarrow> runner \<Rightarrow> bool" where
  "same_runner rn rn' \<longleftrightarrow> core rn' = core rn \<and> rn_root_ids rn' = rn_root_ids rn \<and> rn_next_root_id rn' = rn_next_root_id rn \<and>
     rn_next_pull_id rn' = rn_next_pull_id rn \<and> rn_spawned rn' = rn_spawned rn \<and> rn_transition rn' = rn_transition rn"

lemma retire_root_same:
  assumes "tables_ok (snd st)"
  shows "map core_of (fst (retire_root rid st)) = map core_of (fst st) \<and> same_runner (snd st) (snd (retire_root rid st))"
proof -
  obtain added rn where st: "st = (added, rn)" by (rule prod.exhaust)
  show ?thesis
  proof (cases "map_of (rn_roots rn) rid")
    case (Some root)
    let ?r1 = "root\<lparr>rt_retiring := True, rt_sources := []\<rparr>"
    obtain r2 added2 where 2: "transfer_all (concat (map snd (rt_sources root))) (?r1, added) = (r2, added2)" by (rule prod.exhaust)
    let ?regs = "concat (map (\<lambda>(ns, regs). map (Pair ns) regs) (rt_retained r2))"
    obtain r3 added3 where 3: "transfer_all ?regs (r2\<lparr>rt_retained := []\<rparr>, added2) = (r3, added3)" by (rule prod.exhaust)
    have c: "core_of r3 = core_of root" "map core_of added3 = map core_of added"
      using transfer_all_cores [of ?regs "(r2\<lparr>rt_retained := []\<rparr>, added2)"] transfer_all_cores [of "concat (map snd (rt_sources root))" "(?r1, added)"]
      by (simp_all add: 2 3 core_of_def)
    have "core rn rid = Some (rt_id root, rt_key root, rt_relays root, rt_pulls root)" using Some by (simp add: core_def core_of_def)
    then have "rt_id r3 = rid" "core rn rid = Some (core_of root)"
      using c(1) tables_okD(1) assms st by (simp_all add: core_of_def)
    then have "core (put_root r3 rn) = core rn" by (simp add: put_root_core c(1) fun_upd_idem)
    then show ?thesis using Some 2 3 c(2) st by (simp add: retire_root_def same_runner_def put_root_def)
  qed (simp add: st retire_root_def same_runner_def)
qed

lemma retire_roots_same:
  assumes "tables_ok (snd st)"
  shows "map core_of (fst (fold retire_root rids st)) = map core_of (fst st) \<and> same_runner (snd st) (snd (fold retire_root rids st))"
  using assms
proof (induction rids arbitrary: st)
  case (Cons rid rids)
  note r = retire_root_same [OF Cons.prems, of rid]
  then have "tables_ok (snd (retire_root rid st))" using Cons.prems view_same(1) [of "snd (retire_root rid st)" "snd st"]
    by (simp add: tables_ok_def same_runner_def)
  with Cons.IH [OF this] r show ?case by (simp add: same_runner_def)
qed (simp add: same_runner_def)

end
