(* ===== verification/Upstream_Delta.thy ===== *)
theory Upstream_Delta
  imports Upstream_Roots
begin

text \<open>
  The changes of the cover: new roots, the plan of a transition, \<^verbatim>\<open>apply_delta\<close>, and the invariant
  of every state the leases, the pulls and the runner can reach together.
\<close>

section \<open>New roots\<close>

definition fresh_root :: "runner \<Rightarrow> root_state \<Rightarrow> bool" where
  "fresh_root rn root \<longleftrightarrow> core rn (rt_id root) = None \<and> rt_id root < rn_next_root_id rn \<and>
     (\<forall>rid. key_of rn rid \<noteq> Some (rt_key root)) \<and> rt_pulls root = []"

lemma enter_root_fields [simp]:
  "rn_next_root_id (enter_root root rn) = rn_next_root_id rn" "rn_next_pull_id (enter_root root rn) = rn_next_pull_id rn"
  "rn_spawned (enter_root root rn) = rn_spawned rn" "rn_transition (enter_root root rn) = rn_transition rn"
  by (simp_all add: enter_root_def put_root_def)

lemma enter_root_views:
  assumes "tables_ok rn" and "fresh_root rn root"
  shows "core (enter_root root rn) = (core rn)(rt_id root \<mapsto> core_of root)" and "tables_ok (enter_root root rn)"
    and "key_of (enter_root root rn) = (key_of rn)(rt_id root \<mapsto> rt_key root)" and "pulls (enter_root root rn) = pulls rn"
    and "relays_at (enter_root root rn) = relays_at rn \<union> Pair (rt_id root) ` set (rt_relays root)"
    and "pulls_ok rn \<Longrightarrow> pulls_ok (enter_root root rn)"
proof -
  note fresh = assms(2) [unfolded fresh_root_def]
  show c: "core (enter_root root rn) = (core rn)(rt_id root \<mapsto> core_of root)"
    unfolding enter_root_def put_root_core by (simp add: core_def fun_eq_iff)
  note v = view_update [OF c [unfolded core_of_def]]
  show k: "key_of (enter_root root rn) = (key_of rn)(rt_id root \<mapsto> rt_key root)" by (rule v(1))
  show p: "pulls (enter_root root rn) = pulls rn" unfolding v(2) using fresh by (auto simp: pulls_def)
  show "relays_at (enter_root root rn) = relays_at rn \<union> Pair (rt_id root) ` set (rt_relays root)"
    unfolding v(3) using fresh by (auto simp: relays_at_def)
  have ids: "map_of (rn_root_ids (enter_root root rn)) = (map_of (rn_root_ids rn))(rt_key root \<mapsto> rt_id root)"
    by (simp add: enter_root_def put_root_def update_conv')
  have "key_of rn (rt_id root) = None" using fresh by (simp add: key_of_def)
  then have none: "map_of (rn_root_ids rn) key \<noteq> Some (rt_id root)" for key using tables_okD(3) [OF assms(1)] by auto
  show "tables_ok (enter_root root rn)"
  proof (rule tables_okI)
    show "i = rid \<and> rid < rn_next_root_id (enter_root root rn) \<and> distinct (map fst ps)"
      if "core (enter_root root rn) rid = Some (i, key, rs, ps)" for rid i key rs ps
      using that fresh tables_okD(1,2,4) [OF assms(1), of rid i key rs ps] by (auto simp: c core_of_def split: if_splits)
    show "map_of (rn_root_ids (enter_root root rn)) key = Some rid \<longleftrightarrow> key_of (enter_root root rn) rid = Some key" for key rid
      using tables_okD(3) [OF assms(1), of key rid] none [of key] fresh
      unfolding k ids by auto
  qed
  show "pulls_ok (enter_root root rn)" if "pulls_ok rn" using that by (rule pulls_ok_mono) (simp_all add: p)
qed

lemma enter_root_fresh:
  assumes "tables_ok rn" and "fresh_root rn root" and "fresh_root rn r" and "rt_id r \<noteq> rt_id root" and "rt_key r \<noteq> rt_key root"
  shows "fresh_root (enter_root root rn) r"
  using assms(3-5) unfolding fresh_root_def enter_root_fields enter_root_views(1,3) [OF assms(1,2)] by auto

definition root_relays :: "root_state list \<Rightarrow> (nat \<times> relay_key) set" where
  "root_relays roots = (\<Union>root \<in> set roots. Pair (rt_id root) ` set (rt_relays root))"

definition root_keys :: "root_state list \<Rightarrow> (nat \<times> prefix_key) set" where
  "root_keys roots = (\<lambda>root. (rt_id root, rt_key root)) ` set roots"

lemma root_sets [simp]:
  "root_relays [] = {}" "root_relays (root # roots) = Pair (rt_id root) ` set (rt_relays root) \<union> root_relays roots"
  "root_keys [] = {}" "root_keys (root # roots) = insert (rt_id root, rt_key root) (root_keys roots)"
  by (simp_all add: root_relays_def root_keys_def)

lemma map_distinct_neq: "distinct (map f (x # xs)) \<Longrightarrow> y \<in> set xs \<Longrightarrow> f y \<noteq> f x"
  by (metis distinct.simps(2) image_eqI list.set_map list.simps(9))

lemma enter_roots:
  assumes "tables_ok rn" and "pulls_ok rn" and "\<forall>root \<in> set roots. fresh_root rn root"
    and "distinct (map rt_id roots)" and "distinct (map rt_key roots)"
  defines "rn' \<equiv> fold enter_root roots rn"
  shows "tables_ok rn' \<and> pulls_ok rn' \<and> pulls rn' = pulls rn \<and> relays_at rn' = relays_at rn \<union> root_relays roots \<and>
    (\<forall>rid key. key_of rn' rid = Some key \<longleftrightarrow> key_of rn rid = Some key \<or> (rid, key) \<in> root_keys roots) \<and>
    rn_spawned rn' = rn_spawned rn \<and> rn_transition rn' = rn_transition rn"
  using assms(1-5) unfolding assms(6)
proof (induction roots arbitrary: rn)
  case (Cons root roots)
  have f: "fresh_root rn root" using Cons.prems(3) by simp
  note v = enter_root_views [OF Cons.prems(1) f]
  have "\<forall>r \<in> set roots. fresh_root (enter_root root rn) r"
    using Cons.prems(3) map_distinct_neq [OF Cons.prems(4)] map_distinct_neq [OF Cons.prems(5)] enter_root_fresh [OF Cons.prems(1) f] by simp
  note IH = Cons.IH [OF v(2) v(6) [OF Cons.prems(2)] this]
  have "key_of rn (rt_id root) = None" using f by (simp add: fresh_root_def key_of_def)
  then have "key_of (enter_root root rn) rid = Some key \<longleftrightarrow> key_of rn rid = Some key \<or> (rid, key) = (rt_id root, rt_key root)" for rid key
    by (auto simp: v(3))
  with IH Cons.prems(4,5) show ?case by (simp add: v(4,5) Un_assoc)
qed simp

text \<open>Without a transition a root pulls from all its relays at once.\<close>

lemma start_root_views:
  assumes "tables_ok rn" and "pulls_ok rn" and "fresh_root rn root"
  shows "tables_ok (start_root root rn)" and "pulls_ok (start_root root rn)"
    and "key_of (start_root root rn) = (key_of rn)(rt_id root \<mapsto> rt_key root)"
    and "relays_at (start_root root rn) = relays_at rn \<union> Pair (rt_id root) ` set (rt_relays root)"
    and "snd ` set (rn_spawned (start_root root rn)) = snd ` set (rn_spawned rn) \<union> Pair (rt_id root) ` set (rt_relays root)"
    and "rn_transition (start_root root rn) = rn_transition rn" and "rn_next_root_id (start_root root rn) = rn_next_root_id rn"
proof -
  note e = enter_root_views [OF assms(1,3)]
  have "\<forall>t \<in> set (map (Pair (rt_id root)) (rt_relays root)). startable {} (enter_root root rn) t"
    by (auto simp: startable_def e(3))
  note st = start_pulls [OF e(2) e(6) [OF assms(2)] _ this, unfolded exclusive_def, simplified]
  show "tables_ok (start_root root rn)" "pulls_ok (start_root root rn)"
    "key_of (start_root root rn) = (key_of rn)(rt_id root \<mapsto> rt_key root)"
    "relays_at (start_root root rn) = relays_at rn \<union> Pair (rt_id root) ` set (rt_relays root)"
    "snd ` set (rn_spawned (start_root root rn)) = snd ` set (rn_spawned rn) \<union> Pair (rt_id root) ` set (rt_relays root)"
    "rn_transition (start_root root rn) = rn_transition rn" "rn_next_root_id (start_root root rn) = rn_next_root_id rn"
    using st e(3,5) by (simp_all add: start_root_def)
qed

lemma start_root_fresh:
  assumes "tables_ok rn" and "pulls_ok rn" and "fresh_root rn root" and "fresh_root rn r" and "rt_id r \<noteq> rt_id root" and "rt_key r \<noteq> rt_key root"
  shows "fresh_root (start_root root rn) r"
proof -
  note v = start_root_views [OF assms(1-3)]
  have "key_of (start_root root rn) (rt_id r) = None" using assms(4,5) by (simp add: v(3) fresh_root_def key_of_def)
  then have "core (start_root root rn) (rt_id r) = None" by (simp add: key_of_def)
  then show ?thesis using assms(4,6) unfolding fresh_root_def v(7) by (auto simp: v(3))
qed

lemma start_roots:
  assumes "tables_ok rn" and "pulls_ok rn" and "\<forall>root \<in> set roots. fresh_root rn root"
    and "distinct (map rt_id roots)" and "distinct (map rt_key roots)"
  defines "rn' \<equiv> fold start_root roots rn"
  shows "tables_ok rn' \<and> pulls_ok rn' \<and> relays_at rn' = relays_at rn \<union> root_relays roots \<and>
    (\<forall>rid key. key_of rn' rid = Some key \<longleftrightarrow> key_of rn rid = Some key \<or> (rid, key) \<in> root_keys roots) \<and>
    snd ` set (rn_spawned rn') = snd ` set (rn_spawned rn) \<union> root_relays roots \<and> rn_transition rn' = rn_transition rn"
  using assms(1-5) unfolding assms(6)
proof (induction roots arbitrary: rn)
  case (Cons root roots)
  have f: "fresh_root rn root" using Cons.prems(3) by simp
  note v = start_root_views [OF Cons.prems(1,2) f]
  have "\<forall>r \<in> set roots. fresh_root (start_root root rn) r"
    using Cons.prems(3) map_distinct_neq [OF Cons.prems(4)] map_distinct_neq [OF Cons.prems(5)] start_root_fresh [OF Cons.prems(1,2) f] by simp
  note IH = Cons.IH [OF v(1,2) this]
  have "key_of rn (rt_id root) = None" using f by (simp add: fresh_root_def key_of_def)
  then have "key_of (start_root root rn) rid = Some key \<longleftrightarrow> key_of rn rid = Some key \<or> (rid, key) = (rt_id root, rt_key root)" for rid key
    by (auto simp: v(3))
  with IH Cons.prems(4,5) show ?case by (simp add: v(4,5,6) Un_assoc)
qed simp

section \<open>Planning a transition\<close>

definition plan_ok :: "(nat \<times> relay_key) list \<Rightarrow> (relay_key \<times> relay_transition) list \<Rightarrow> bool" where
  "plan_ok old rls \<longleftrightarrow> distinct (map fst rls) \<and> (\<forall>k rl. (k, rl) \<in> set rls \<longrightarrow> \<not> rl_started rl) \<and>
     (\<forall>pid k. map_of old pid = Some k \<longleftrightarrow> (\<exists>rl. (k, rl) \<in> set rls \<and> pid \<in> set (rl_waiting rl)))"

lemma relay_entry_cases:
  assumes "distinct (map fst rls)"
  shows "(\<exists>rl. (k, rl) \<in> set rls \<and> P rl) \<longleftrightarrow> (k \<in> fst ` set rls \<and> P (relay_entry k rls))"
    and "(k, rl) \<in> set rls \<Longrightarrow> relay_entry k rls = rl"
    and "k \<notin> fst ` set rls \<Longrightarrow> relay_entry k rls = \<lparr>rl_waiting = [], rl_targets = [], rl_started = False\<rparr>"
proof -
  show entry: "relay_entry k rls = rl" if "(k, rl) \<in> set rls" for rl
    using map_of_is_SomeI [OF assms that] by (simp add: relay_entry_def)
  show "(\<exists>rl. (k, rl) \<in> set rls \<and> P rl) \<longleftrightarrow> (k \<in> fst ` set rls \<and> P (relay_entry k rls))"
  proof
    assume "k \<in> fst ` set rls \<and> P (relay_entry k rls)"
    moreover from this obtain rl where "(k, rl) \<in> set rls" by force
    ultimately show "\<exists>rl. (k, rl) \<in> set rls \<and> P rl" using entry by auto
  qed (use entry in force)
  show "relay_entry k rls = \<lparr>rl_waiting = [], rl_targets = [], rl_started = False\<rparr>" if "k \<notin> fst ` set rls"
    using that by (simp add: relay_entry_def map_of_eq_None_iff [symmetric])
qed

text \<open>Updating the entry of one relay.\<close>

lemma update_entry:
  assumes "distinct (map fst rls)"
  shows "(\<exists>rl. (k', rl) \<in> set (AList.update k rl' rls) \<and> P rl) \<longleftrightarrow> (if k' = k then P rl' else \<exists>rl. (k', rl) \<in> set rls \<and> P rl)"
  by (simp add: set_update_distinct [OF assms])

lemma waiting_entry:
  assumes "distinct (map fst rls)"
  shows "pid \<in> set (rl_waiting (relay_entry k rls)) \<longleftrightarrow> (\<exists>rl. (k, rl) \<in> set rls \<and> pid \<in> set (rl_waiting rl))"
    and "t \<in> set (rl_targets (relay_entry k rls)) \<longleftrightarrow> (\<exists>rl. (k, rl) \<in> set rls \<and> t \<in> set (rl_targets rl))"
    and "\<forall>k rl. (k, rl) \<in> set rls \<longrightarrow> \<not> rl_started rl \<Longrightarrow> \<not> rl_started (relay_entry k rls)"
  unfolding relay_entry_cases(1) [OF assms]
  using relay_entry_cases(3) [OF assms, of k] relay_entry_cases(2) [OF assms, of k]
  by (cases "k \<in> fst ` set rls"; force)+

lemma plan_old_ok:
  assumes "\<And>pid k k'. (pid, k) \<in> set xs \<Longrightarrow> (pid, k') \<in> set xs \<Longrightarrow> k = k'"
  shows "case fold plan_old xs ([], []) of (old, rls) \<Rightarrow> plan_ok old rls \<and>
    (\<forall>pid k. map_of old pid = Some k \<longleftrightarrow> (pid, k) \<in> set xs) \<and> (\<forall>k rl. (k, rl) \<in> set rls \<longrightarrow> rl_targets rl = [])"
  using assms
proof (induction xs rule: rev_induct)
  case Nil
  then show ?case by (simp add: plan_ok_def)
next
  case (snoc x xs)
  obtain pid k where x: "x = (pid, k)" by (rule prod.exhaust)
  obtain old rls where st: "fold plan_old xs ([], []) = (old, rls)" by (rule prod.exhaust)
  have IH: "plan_ok old rls" "\<And>pid k. map_of old pid = Some k \<longleftrightarrow> (pid, k) \<in> set xs" "\<And>k rl. (k, rl) \<in> set rls \<Longrightarrow> rl_targets rl = []"
    using snoc.IH snoc.prems unfolding st by (simp, blast)+
  note dist = IH(1) [unfolded plan_ok_def, THEN conjunct1]
  let ?rl = "(relay_entry k rls)\<lparr>rl_waiting := List.insert pid (rl_waiting (relay_entry k rls))\<rparr>"
  have step: "fold plan_old (xs @ [x]) ([], []) = (AList.update pid k old, AList.update k ?rl rls)"
    by (simp add: st x plan_old_def Let_def)
  have old: "map_of (AList.update pid k old) pid' = Some k' \<longleftrightarrow> (pid', k') \<in> set (xs @ [x])" for pid' k'
    using snoc.prems [of pid' k k'] IH(2) [of pid' k'] by (auto simp: update_conv' x)
  have "map_of (AList.update pid k old) pid' = Some k' \<longleftrightarrow> (\<exists>rl. (k', rl) \<in> set (AList.update k ?rl rls) \<and> pid' \<in> set (rl_waiting rl))" for pid' k'
  proof -
    have "(\<exists>rl. (k', rl) \<in> set rls \<and> pid' \<in> set (rl_waiting rl)) \<longleftrightarrow> (pid', k') \<in> set xs"
      using IH(1,2) unfolding plan_ok_def by blast
    then show ?thesis unfolding update_entry [OF dist] old using waiting_entry(1) [OF dist, of pid' k] by (auto simp: x)
  qed
  moreover have "\<not> rl_started rl" if "(k', rl) \<in> set (AList.update k ?rl rls)" for k' rl
    using that IH(1) waiting_entry(3) [OF dist, of k] unfolding set_update_distinct [OF dist] plan_ok_def by (auto split: if_splits)
  moreover have "rl_targets rl = []" if "(k', rl) \<in> set (AList.update k ?rl rls)" for k' rl
  proof -
    have "rl_targets (relay_entry k rls) = []"
      using IH(3) relay_entry_cases(2,3) [OF dist, of k] by (cases "k \<in> fst ` set rls") force+
    then show ?thesis using that IH(3) unfolding set_update_distinct [OF dist] by (auto split: if_splits)
  qed
  ultimately show ?case unfolding step using old dist by (simp add: plan_ok_def distinct_update)
qed

lemma plan_target_ok:
  assumes "plan_ok old rls" and "\<forall>k rl t. (k, rl) \<in> set rls \<and> t \<in> set (rl_targets rl) \<longrightarrow> snd t = k"
  shows "plan_ok old (plan_target u rls)" and "(k, rl) \<in> set (plan_target u rls) \<Longrightarrow> t \<in> set (rl_targets rl) \<Longrightarrow> snd t = k"
    and "(\<exists>k rl. (k, rl) \<in> set (plan_target u rls) \<and> t \<in> set (rl_targets rl)) \<longleftrightarrow> t = u \<or> (\<exists>k rl. (k, rl) \<in> set rls \<and> t \<in> set (rl_targets rl))"
proof -
  note dist = assms(1) [unfolded plan_ok_def, THEN conjunct1]
  let ?rl = "(relay_entry (snd u) rls)\<lparr>rl_targets := rl_targets (relay_entry (snd u) rls) @ [u]\<rparr>"
  have step: "plan_target u rls = AList.update (snd u) ?rl rls" by (simp add: plan_target_def Let_def)
  have "\<not> rl_started rl" if "(k', rl) \<in> set (AList.update (snd u) ?rl rls)" for k' rl
    using that assms(1) waiting_entry(3) [OF dist, of "snd u"] unfolding set_update_distinct [OF dist] plan_ok_def by (auto split: if_splits)
  moreover have "map_of old pid = Some k \<longleftrightarrow> (\<exists>rl. (k, rl) \<in> set (AList.update (snd u) ?rl rls) \<and> pid \<in> set (rl_waiting rl))" for pid k
    using assms(1) waiting_entry(1) [OF dist, of pid "snd u"] unfolding update_entry [OF dist] plan_ok_def by simp
  ultimately show "plan_ok old (plan_target u rls)" unfolding step plan_ok_def using dist by (simp add: distinct_update)
  show "snd t = k" if "(k, rl) \<in> set (plan_target u rls)" and "t \<in> set (rl_targets rl)"
  proof (cases "k = snd u \<and> t = u")
    case False
    then have "\<exists>rl. (k, rl) \<in> set rls \<and> t \<in> set (rl_targets rl)"
      using that waiting_entry(2) [OF dist, of t "snd u"] unfolding step set_update_distinct [OF dist] by (cases "k = snd u") auto
    then show ?thesis using assms(2) by blast
  qed simp
  have "(\<exists>rl. (k, rl) \<in> set (plan_target u rls) \<and> t \<in> set (rl_targets rl)) \<longleftrightarrow>
      (t = u \<and> k = snd u) \<or> (\<exists>rl. (k, rl) \<in> set rls \<and> t \<in> set (rl_targets rl))" for k
    unfolding step update_entry [OF dist] using waiting_entry(2) [OF dist, of t "snd u"] by auto
  then show "(\<exists>k rl. (k, rl) \<in> set (plan_target u rls) \<and> t \<in> set (rl_targets rl)) \<longleftrightarrow> t = u \<or> (\<exists>k rl. (k, rl) \<in> set rls \<and> t \<in> set (rl_targets rl))"
    by blast
qed

lemma plan_targets_ok:
  fixes ts :: "(nat \<times> relay_key) list"
  assumes "plan_ok old rls" and "\<forall>k rl t. (k, rl) \<in> set rls \<and> t \<in> set (rl_targets rl) \<longrightarrow> snd t = k"
  defines "rls' \<equiv> fold plan_target ts rls"
  shows "plan_ok old rls' \<and> (\<forall>k rl t. (k, rl) \<in> set rls' \<and> t \<in> set (rl_targets rl) \<longrightarrow> snd t = k) \<and>
    (\<forall>t. (\<exists>k rl. (k, rl) \<in> set rls' \<and> t \<in> set (rl_targets rl)) \<longleftrightarrow> t \<in> set ts \<or> (\<exists>k rl. (k, rl) \<in> set rls \<and> t \<in> set (rl_targets rl)))"
  using assms(1,2) unfolding assms(3)
proof (induction ts arbitrary: rls)
  case (Cons u ts)
  note p = plan_target_ok [OF Cons.prems]
  have "\<forall>k rl t. (k, rl) \<in> set (plan_target u rls) \<and> t \<in> set (rl_targets rl) \<longrightarrow> snd t = k" using p(2) by blast
  from Cons.IH [OF p(1) this] show ?case unfolding fold_simps comp_apply p(3) by auto
qed simp

section \<open>Applying a change of the cover\<close>

lemma prepare_roots_new:
  assumes "prepare_roots ks rn = (roots, rn')"
  shows "rn' = rn\<lparr>rn_next_root_id := rn_next_root_id rn + length ks\<rparr> \<and> map rt_id roots = [rn_next_root_id rn..<rn_next_root_id rn + length ks] \<and>
    map rt_key roots = map fst ks \<and> (\<forall>root \<in> set roots. rt_pulls root = [])"
  using assms
proof (induction ks arbitrary: rn roots rn')
  case (Cons x ks)
  obtain key relays where x: "x = (key, relays)" by (rule prod.exhaust)
  obtain root rn1 where 1: "prepare_root key relays rn = (root, rn1)" by (rule prod.exhaust)
  obtain rest rn2 where 2: "prepare_roots ks rn1 = (rest, rn2)" by (rule prod.exhaust)
  have root: "rt_id root = rn_next_root_id rn" "rt_key root = key" "rt_pulls root = []" "rn1 = rn\<lparr>rn_next_root_id := rn_next_root_id rn + 1\<rparr>"
    using 1 by (auto simp: prepare_root_def)
  have "rn' = rn2" "roots = root # rest" using Cons.prems by (simp_all add: x 1 2)
  then show ?case using Cons.IH [OF 2] by (simp add: x root upt_conv_Cons del: upt_Suc)
qed simp

lemma core_of_eq: "map core_of roots' = map core_of roots \<Longrightarrow>
    map rt_id roots' = map rt_id roots \<and> map rt_key roots' = map rt_key roots \<and> map rt_relays roots' = map rt_relays roots \<and>
    map rt_pulls roots' = map rt_pulls roots"
proof -
  assume eq: "map core_of roots' = map core_of roots"
  have parts: "map rt_id rs = map fst (map core_of rs)" "map rt_key rs = map (fst \<circ> snd) (map core_of rs)"
    "map rt_relays rs = map (fst \<circ> snd \<circ> snd) (map core_of rs)" "map rt_pulls rs = map (snd \<circ> snd \<circ> snd) (map core_of rs)" for rs
    by (simp_all add: core_of_def)
  show ?thesis unfolding parts eq by simp
qed

lemma map_nil: "map f xs = map f ys \<Longrightarrow> \<forall>y \<in> set ys. f y = [] \<Longrightarrow> \<forall>x \<in> set xs. f x = []"
  by (induction ys arbitrary: xs) auto

text \<open>The state a delta starts from: no transition, and the change fits the cover.\<close>

definition delta_ok :: "(group_key \<Rightarrow> track_namespace_prefix set) \<Rightarrow> group_key \<Rightarrow> track_namespace_prefix list \<Rightarrow> track_namespace_prefix list \<Rightarrow> bool" where
  "delta_ok cov grp added removed \<longleftrightarrow> antichain cov \<and> distinct added \<and> set removed \<subseteq> cov grp \<and> set added \<inter> cov grp = {}"

lemma fresh_roots:
  assumes inv: "runner_inv cov rn" and "rn_transition rn = None" and d: "delta_ok cov grp added removed"
    and p: "prepare_roots (map (\<lambda>p. ((grp, p), relays_of p)) added) rn = (roots, rn')"
  shows "core rn' = core rn" and "tables_ok rn'" and "pulls_ok rn'" and "\<forall>root \<in> set roots. fresh_root rn' root"
    and "distinct (map rt_id roots)" and "map rt_key roots = map (Pair grp) added" and "\<forall>root \<in> set roots. rn_next_root_id rn \<le> rt_id root"
    and "rn_spawned rn' = rn_spawned rn" and "rn_transition rn' = None" and "rn_root_ids rn' = rn_root_ids rn"
proof -
  note n = prepare_roots_new [OF p] and D = runner_invD [OF inv]
  show c: "core rn' = core rn" using n by (simp add: core_def fun_eq_iff)
  note v = view_same [OF c]
  show "rn_spawned rn' = rn_spawned rn" "rn_transition rn' = None" "rn_root_ids rn' = rn_root_ids rn" using n assms(2) by simp_all
  show "tables_ok rn'"
  proof (rule tables_okI)
    show "i = rid \<and> rid < rn_next_root_id rn' \<and> distinct (map fst ps)" if "core rn' rid = Some (i, key, rs, ps)" for rid i key rs ps
      using tables_okD(1,2,4) [OF D(1)] that n unfolding c by (simp add: trans_less_add1)
    show "map_of (rn_root_ids rn') key = Some rid \<longleftrightarrow> key_of rn' rid = Some key" for key rid
      using tables_okD(3) [OF D(1), of key rid] conjunct1 [OF n] unfolding v(1) by simp
  qed
  show "pulls_ok rn'" using D(2) by (rule pulls_ok_mono) (use conjunct1 [OF n] v(2) in simp_all)
  show "distinct (map rt_id roots)" using n by simp
  show k: "map rt_key roots = map (Pair grp) added" using n by simp
  have ids: "rn_next_root_id rn \<le> rt_id root \<and> rt_id root < rn_next_root_id rn'" if "root \<in> set roots" for root
  proof -
    have "rt_id root \<in> set (map rt_id roots)" using that by simp
    then show ?thesis using n by simp
  qed
  then show "\<forall>root \<in> set roots. rn_next_root_id rn \<le> rt_id root" by blast
  show "\<forall>root \<in> set roots. fresh_root rn' root"
  proof
    fix root
    assume r: "root \<in> set roots"
    have "core rn (rt_id root) = None"
    proof (rule ccontr)
      assume "core rn (rt_id root) \<noteq> None"
      then obtain i key rs ps where "core rn (rt_id root) = Some (i, key, rs, ps)" by auto
      from tables_okD(2) [OF D(1) this] ids [OF r] show False by simp
    qed
    moreover have "key_of rn rid \<noteq> Some (rt_key root)" for rid
    proof
      have "rt_key root \<in> set (map rt_key roots)" using r by simp
      then obtain p where pk: "rt_key root = (grp, p)" "p \<in> set added" unfolding k by auto
      assume "key_of rn rid = Some (rt_key root)"
      moreover have "removed_of rn = {}" using assms(2) by (simp add: removed_of_def)
      ultimately have "p \<in> cov grp" using D(3) pk(1) unfolding cover_ok_def by auto
      with pk(2) d show False unfolding delta_ok_def by blast
    qed
    ultimately show "fresh_root rn' root" using ids [OF r] n r unfolding fresh_root_def c v(1) by blast
  qed
qed

lemma root_keys_of: "map rt_key roots = map (Pair grp) added \<Longrightarrow> (\<exists>rid. (rid, (g, p)) \<in> root_keys roots) \<longleftrightarrow> g = grp \<and> p \<in> set added"
proof -
  assume "map rt_key roots = map (Pair grp) added"
  then have "rt_key ` set roots = Pair grp ` set added" by (metis list.set_map)
  moreover have "(\<exists>rid. (rid, (g, p)) \<in> root_keys roots) \<longleftrightarrow> (g, p) \<in> rt_key ` set roots" by (auto simp: root_keys_def)
  ultimately show ?thesis by auto
qed

lemma root_pulls_iff: "(pid, k) \<in> set (root_pulls rn rid) \<longleftrightarrow> (rid, pid, k) \<in> pulls rn"
proof (cases "map_of (rn_roots rn) rid")
  case (Some root)
  then have "core rn rid = Some (rt_id root, rt_key root, rt_relays root, rt_pulls root)" by (simp add: core_def core_of_def)
  then show ?thesis using Some by (auto simp: root_pulls_def pulls_def)
qed (simp add: root_pulls_def pulls_def core_def)

lemma map_filter_set: "set (List.map_filter f xs) = {y. \<exists>x \<in> set xs. f x = Some y}"
  by (induction xs) (auto split: option.split)

lemma removed_ids:
  assumes "tables_ok rn"
  shows "rid \<in> set (remdups (List.map_filter (\<lambda>p. map_of (rn_root_ids rn) (grp, p)) removed)) \<longleftrightarrow> (\<exists>p \<in> set removed. key_of rn rid = Some (grp, p))"
  by (simp add: map_filter_set tables_okD(3) [OF assms])

definition cover_after :: "(group_key \<Rightarrow> track_namespace_prefix set) \<Rightarrow> group_key \<Rightarrow> track_namespace_prefix list \<Rightarrow> track_namespace_prefix list \<Rightarrow>
    group_key \<Rightarrow> track_namespace_prefix set" where
  "cover_after cov grp added removed = cov(grp := cov grp - set removed \<union> set added)"

text \<open>The roots that stay and the new ones are the new cover.\<close>

lemma cover_after_ok:
  assumes cov: "cover_ok cov {} rn" and d: "delta_ok cov grp added removed"
    and keys: "\<And>rid key. key_of rn' rid = Some key \<longleftrightarrow> key_of rn rid = Some key \<or> (rid, key) \<in> root_keys roots"
    and new: "map rt_key roots = map (Pair grp) added" and R: "\<And>rid. rid \<in> R \<longleftrightarrow> (\<exists>p \<in> set removed. key_of rn rid = Some (grp, p))"
    and out: "\<And>rid key. (rid, key) \<in> root_keys roots \<Longrightarrow> key_of rn rid = None"
  shows "cover_ok (cover_after cov grp added removed) R rn'"
  unfolding cover_ok_def
proof (intro allI)
  fix g p
  have notR: "rid \<notin> R" if "(rid, key) \<in> root_keys roots" for rid key using R [of rid] out [OF that] by auto
  have old: "(\<exists>rid. key_of rn rid = Some (g, p)) \<longleftrightarrow> p \<in> cov g" using cov unfolding cover_ok_def by blast
  have "(\<exists>rid. rid \<notin> R \<and> key_of rn' rid = Some (g, p)) \<longleftrightarrow>
      (\<exists>rid. rid \<notin> R \<and> key_of rn rid = Some (g, p)) \<or> (\<exists>rid. (rid, (g, p)) \<in> root_keys roots)"
    unfolding keys using notR by blast
  also have "(\<exists>rid. rid \<notin> R \<and> key_of rn rid = Some (g, p)) \<longleftrightarrow> p \<in> cov g \<and> \<not> (g = grp \<and> p \<in> set removed)"
  proof -
    have "rid \<notin> R \<longleftrightarrow> \<not> (g = grp \<and> p \<in> set removed)" if "key_of rn rid = Some (g, p)" for rid using R [of rid] that by auto
    then show ?thesis using old by blast
  qed
  finally show "(\<exists>rid. rid \<notin> R \<and> key_of rn' rid = Some (g, p)) \<longleftrightarrow> p \<in> cover_after cov grp added removed g"
    unfolding root_keys_of [OF new] by (auto simp: cover_after_def)
qed

lemma begin_transition_inv:
  assumes inv: "runner_inv cov rn" and none: "rn_transition rn = None" and d: "delta_ok cov grp added removed"
    and en: "tables_ok rn1" "pulls_ok rn1" "\<forall>root \<in> set roots. fresh_root rn1 root" "distinct (map rt_id roots)"
    and same: "core rn1 = core rn" "rn_spawned rn1 = rn_spawned rn"
    and new: "map rt_key roots = map (Pair grp) added"
    and ids: "\<And>rid. rid \<in> set ids \<longleftrightarrow> (\<exists>p \<in> set removed. key_of rn rid = Some (grp, p))"
  shows "runner_inv (cover_after cov grp added removed) (begin_transition ids roots (fold enter_root roots rn1))"
proof -
  let ?rn2 = "fold enter_root roots rn1"
  note D = runner_invD [OF inv] and v = view_same [OF same(1)]
  have dk: "distinct (map rt_key roots)" using d by (simp add: new delta_ok_def distinct_map inj_on_def)
  note E = enter_roots [OF en dk]
  then have e: "tables_ok ?rn2" "pulls_ok ?rn2" "pulls ?rn2 = pulls rn" "relays_at ?rn2 = relays_at rn \<union> root_relays roots"
      "\<And>rid key. key_of ?rn2 rid = Some key \<longleftrightarrow> key_of rn rid = Some key \<or> (rid, key) \<in> root_keys roots" "rn_spawned ?rn2 = rn_spawned rn"
    by (simp_all add: v same(2))
  have out: "key_of rn rid = None" if "(rid, key) \<in> root_keys roots" for rid key
    using that en(3) by (auto simp: root_keys_def fresh_root_def key_of_def same(1))
  have R0: "removed_of rn = {}" "to_start rn = {}" using none by (simp_all add: removed_of_def to_start_def)
  let ?olds = "concat (map (root_pulls ?rn2) ids)" and ?ts = "concat (map (\<lambda>root. map (Pair (rt_id root)) (rt_relays root)) roots)"
  have olds: "(pid, k) \<in> set ?olds \<longleftrightarrow> (\<exists>rid \<in> set ids. (rid, pid, k) \<in> pulls rn)" for pid k
    by (simp add: root_pulls_iff e(3))
  have ts: "set ?ts = root_relays roots" by (auto simp: root_relays_def)
  have fn: "k = k'" if two: "(pid, k) \<in> set ?olds" "(pid, k') \<in> set ?olds" for pid k k'
  proof -
    obtain rid rid' where "(rid, pid, k) \<in> pulls rn" "(rid', pid, k') \<in> pulls rn" using two unfolding olds by blast
    then have "(pid, rid, k) \<in> set (rn_spawned rn)" "(pid, rid', k') \<in> set (rn_spawned rn)" using pulls_okD(1) [OF D(2)] by blast+
    from eq_key_imp_eq_value [OF pulls_okD(2) [OF D(2)] this] show ?thesis by simp
  qed
  obtain old rls where plan: "fold plan_old ?olds ([], []) = (old, rls)" by (rule prod.exhaust)
  have po: "plan_ok old rls" "\<And>pid k. map_of old pid = Some k \<longleftrightarrow> (pid, k) \<in> set ?olds" "\<And>k rl. (k, rl) \<in> set rls \<Longrightarrow> rl_targets rl = []"
    using plan_old_ok [of ?olds] fn unfolding plan case_prod_conv by blast+
  let ?rls = "fold plan_target ?ts rls"
  have empty: "\<forall>k rl t. (k, rl) \<in> set rls \<and> t \<in> set (rl_targets rl) \<longrightarrow> snd t = k" "(k, rl) \<in> set rls \<Longrightarrow> t \<notin> set (rl_targets rl)" for k rl t
    using po(3) by fastforce+
  have pt: "plan_ok old ?rls" "\<forall>k rl t. (k, rl) \<in> set ?rls \<and> t \<in> set (rl_targets rl) \<longrightarrow> snd t = k"
      "\<And>t. (\<exists>k rl. (k, rl) \<in> set ?rls \<and> t \<in> set (rl_targets rl)) \<longleftrightarrow> t \<in> root_relays roots"
    using plan_targets_ok [OF po(1) empty(1), of ?ts] empty(2) unfolding ts by blast+
  let ?tn = "\<lparr>tn_removed = ids, tn_old_pulls = old, tn_relays = ?rls\<rparr>"
  let ?out = "?rn2\<lparr>rn_transition := Some ?tn\<rparr>"
  have bt: "begin_transition ids roots ?rn2 = ?out" by (simp add: begin_transition_def plan_relay_transitions_def plan)
  note rt = replace_transition [where rn = ?rn2 and tn = "Some ?tn"]
  have tr: "rn_transition ?out = Some ?tn" and rel: "tn_relays ?tn = ?rls" by simp_all
  have "to_start ?out = root_relays roots" by (intro set_eqI) (simp only: to_start_iff [OF tr] rel pt(3))
  then have views: "removed_of ?out = set ids" "to_start ?out = root_relays roots" by (simp_all add: removed_of_def)
  have conf: "rid = rid'" if "conflict ?rn2 rid rid'" "key_of rn rid \<noteq> None" "key_of rn rid' \<noteq> None" for rid rid'
  proof (rule staying_roots [OF D(1) D(3) [unfolded R0]])
    have "key_of ?rn2 r = key_of rn r" if "key_of rn r \<noteq> None" for r
      using that e(5) [of r "the (key_of rn r)"] by auto
    then show "conflict rn rid rid'" using that unfolding conflict_def by simp
  qed (use d in \<open>simp_all add: delta_ok_def\<close>)
  have idk: "key_of rn rid \<noteq> None" if "rid \<in> set ids" for rid using that unfolding ids by auto
  show ?thesis unfolding bt
  proof (rule runner_invI)
    show "tables_ok ?out" "pulls_ok ?out" using e(1,2) by (simp_all add: rt)
    show "cover_ok (cover_after cov grp added removed) (removed_of ?out) ?out"
      unfolding views rt by (rule cover_after_ok [OF D(3) [unfolded R0] d e(5) new ids out])
    show "exclusive (removed_of ?out) ?out" unfolding views rt exclusive_def e(3) using conf idk pulls_key by metis
    show "spawn_ok ?out" using D(6) unfolding spawn_ok_iff views R0 by (auto simp: rt e(4,6))
    show "transition_ok ?out tn" if "rn_transition ?out = Some tn" for tn
    proof -
      have tn: "tn = ?tn" using that by simp
      show ?thesis unfolding tn rt
      proof (rule transition_okI)
        show "map_of (tn_old_pulls ?tn) pid = Some k" if "rid \<in> set (tn_removed ?tn)" "(rid, pid, k) \<in> pulls ?rn2" for rid pid k
          using that po(2) [of pid k] unfolding olds e(3) by auto
        fix k rl t
        assume a: "(k, rl) \<in> set (tn_relays ?tn)" "t \<in> set (rl_targets rl)"
        then have "t \<in> root_relays roots" using pt(3) unfolding rel by blast
        then obtain root where r: "root \<in> set roots" "fst t = rt_id root" by (auto simp: root_relays_def)
        then have "(fst t, rt_key root) \<in> root_keys roots" by (auto simp: root_keys_def)
        with out e(5) idk have "key_of ?rn2 (fst t) \<noteq> None" "fst t \<notin> set ids" by blast+
        moreover have "snd t = k" "\<not> rl_started rl" using a pt(1,2) unfolding plan_ok_def rel by blast+
        ultimately show "snd t = k \<and> fst t \<notin> set (tn_removed ?tn) \<and> key_of ?rn2 (fst t) \<noteq> None \<and> \<not> rl_started rl" by simp
      qed (use pt(1) in \<open>simp_all add: plan_ok_def\<close>)
    qed
  qed
qed

lemma cancel_all_inv:
  assumes "runner_inv cov (snd st)" and "\<forall>pid \<in> set (fst st). not_old (snd st) pid"
  shows "runner_inv cov (snd (fold (cancel_pulls listening) ids st)) \<and>
    (\<forall>pid \<in> set (fst (fold (cancel_pulls listening) ids st)). not_old (snd (fold (cancel_pulls listening) ids st)) pid)"
  using assms
proof (induction ids arbitrary: st)
  case (Cons rid ids)
  show ?case unfolding fold_simps comp_apply by (rule Cons.IH) (use cancel_pulls_inv [OF Cons.prems, of listening rid] in blast)+
qed simp

lemma start_roots_inv:
  assumes inv: "runner_inv cov rn" and none: "rn_transition rn = None" and d: "delta_ok cov grp added removed"
    and p: "prepare_roots (map (\<lambda>p. ((grp, p), relays_of p)) added) rn = (roots, rn1)"
    and ids: "\<And>rid. \<not> (\<exists>p \<in> set removed. key_of rn rid = Some (grp, p))"
  shows "runner_inv (cover_after cov grp added removed) (fold start_root roots rn1)"
proof -
  note D = runner_invD [OF inv] and F = fresh_roots [OF inv none d p]
  let ?rn2 = "fold start_root roots rn1"
  have dk: "distinct (map rt_key roots)" using d by (simp add: F(6) delta_ok_def distinct_map inj_on_def)
  note v = view_same [OF F(1)]
  have e: "tables_ok ?rn2" "pulls_ok ?rn2" "relays_at ?rn2 = relays_at rn \<union> root_relays roots"
      "\<And>rid key. key_of ?rn2 rid = Some key \<longleftrightarrow> key_of rn rid = Some key \<or> (rid, key) \<in> root_keys roots"
      "snd ` set (rn_spawned ?rn2) = snd ` set (rn_spawned rn) \<union> root_relays roots" "rn_transition ?rn2 = None"
    using start_roots [OF F(2-5) dk] by (simp_all add: v F(8,9))
  have out: "key_of rn rid = None" if "(rid, key) \<in> root_keys roots" for rid key
    using that F(4) by (auto simp: root_keys_def fresh_root_def key_of_def F(1))
  have R: "removed_of rn = {}" "to_start rn = {}" "removed_of ?rn2 = {}" using none e(6) by (simp_all add: removed_of_def to_start_def)
  have "cover_ok (cover_after cov grp added removed) {} ?rn2"
    by (rule cover_after_ok [OF D(3) [unfolded R] d e(4) F(6) _ out]) (use ids in simp)+
  moreover have "relays_at ?rn2 \<subseteq> snd ` set (rn_spawned ?rn2)" using D(6) unfolding spawn_ok_iff R e(3,5) by blast
  then have "spawn_ok ?rn2" unfolding spawn_ok_iff by blast
  ultimately show ?thesis by (intro runner_invI) (use e(1,2,6) in \<open>simp_all add: R exclusive_def\<close>)
qed

theorem apply_delta_inv:
  assumes inv: "runner_inv cov rn" and none: "rn_transition rn = None" and d: "delta_ok cov grp added removed"
  shows "runner_inv (cover_after cov grp added removed) (apply_delta grp added removed relays_of listening rn)"
proof (cases "added = [] \<and> removed = []")
  case True
  then have "cover_after cov grp added removed = cov" by (simp add: cover_after_def)
  then show ?thesis using inv True by (simp add: apply_delta_def)
next
  case False
  let ?ids = "remdups (List.map_filter (\<lambda>p. map_of (rn_root_ids rn) (grp, p)) removed)"
  note D = runner_invD [OF inv] and ids = removed_ids [OF runner_invD(1) [OF inv], of _ grp removed]
  obtain roots rn1 where p: "prepare_roots (map (\<lambda>p. ((grp, p), relays_of p)) added) rn = (roots, rn1)" by (rule prod.exhaust)
  show ?thesis
  proof (cases "?ids = []")
    case True
    then have "\<not> (\<exists>p \<in> set removed. key_of rn rid = Some (grp, p))" for rid unfolding ids [symmetric] by simp
    then show ?thesis using start_roots_inv [OF inv none d p] True False p by (auto simp: apply_delta_def Let_def)
  next
    case some: False
    note F = fresh_roots [OF inv none d p]
    obtain roots2 rn2 where r: "fold retire_root ?ids (roots, rn1) = (roots2, rn2)" by (rule prod.exhaust)
    have same: "map core_of roots2 = map core_of roots" "same_runner rn1 rn2"
      using retire_roots_same [of "(roots, rn1)" ?ids] F(2) unfolding r by simp_all
    have c2: "core rn2 = core rn" "rn_spawned rn2 = rn_spawned rn" "rn_next_root_id rn2 = rn_next_root_id rn1"
        "rn_root_ids rn2 = rn_root_ids rn1" "rn_next_pull_id rn2 = rn_next_pull_id rn1"
      using same(2) F(1,8) by (simp_all add: same_runner_def)
    have v: "core rn2 = core rn1" using c2 F(1) by simp
    have t2: "tables_ok rn2" using F(2) unfolding tables_ok_def v view_same(1) [OF v] c2(3,4) .
    have p2: "pulls_ok rn2" using F(3) by (rule pulls_ok_mono) (use view_same(2) [OF v] c2(2,5) F(8) in simp_all)
    note eq = core_of_eq [OF same(1)]
    have "\<forall>root \<in> set roots2. fresh_root rn2 root"
    proof
      fix root
      assume "root \<in> set roots2"
      then have "core_of root \<in> core_of ` set roots" using same(1) by (metis image_eqI list.set_map)
      then obtain root' where r': "root' \<in> set roots" "core_of root = core_of root'" by blast
      with F(4) have "fresh_root rn1 root'" by blast
      then show "fresh_root rn2 root" using r'(2) view_same(1) [OF v] unfolding fresh_root_def v c2(3) by (simp add: core_of_def)
    qed
    then have inv3: "runner_inv (cover_after cov grp added removed) (begin_transition ?ids roots2 (fold enter_root roots2 rn2))"
      using eq F(5,6) by (intro begin_transition_inv [OF inv none d t2 p2 _ _ c2(1,2) _ ids]) simp_all
    obtain completed rn4 where cp: "fold (cancel_pulls listening) ?ids ([], begin_transition ?ids roots2 (fold enter_root roots2 rn2)) = (completed, rn4)"
      by (rule prod.exhaust)
    have "runner_inv (cover_after cov grp added removed) rn4" "\<forall>pid \<in> set completed. not_old rn4 pid"
      using cancel_all_inv [of "cover_after cov grp added removed" "([], begin_transition ?ids roots2 (fold enter_root roots2 rn2))" listening ?ids] inv3
      unfolding cp by simp_all
    from settle_inv [OF this] show ?thesis using False some by (auto simp: apply_delta_def Let_def p r cp)
  qed
qed

section \<open>The runner and the leases together\<close>

definition cov_of :: "runner \<Rightarrow> group_key \<Rightarrow> track_namespace_prefix set" where
  "cov_of rn g = cps_roots (rn_covering rn g)"

lemma cover_invD:
  assumes "cover_inv rn"
  shows "cps_inv (rn_covering rn g)" "finite (cps_active (rn_covering rn g))" "p \<in> cps_active (rn_covering rn g) \<longleftrightarrow> rn_active rn (g, p) \<noteq> None"
  using assms by (simp_all add: cover_inv_def) metis

lemma cover_invI:
  assumes "\<And>g. cps_inv (rn_covering rn g)" "\<And>g. finite (cps_active (rn_covering rn g))"
    "\<And>g p. p \<in> cps_active (rn_covering rn g) \<longleftrightarrow> rn_active rn (g, p) \<noteq> None"
  shows "cover_inv rn"
  using assms unfolding cover_inv_def set_eq_iff mem_Collect_eq by blast

lemma cover_inv_cong: "rn_covering rn' = rn_covering rn \<Longrightarrow> rn_active rn' = rn_active rn \<Longrightarrow> cover_inv rn' = cover_inv rn"
  by (simp only: cover_inv_def)

lemma cover_inv_antichain: "cover_inv rn \<Longrightarrow> antichain (cov_of rn)"
  using minimal_antichain [of "\<lambda>g. cps_active (rn_covering rn g)"] by (simp add: cover_inv_def cps_inv_def cov_of_def antichain_def)

lemma apply_root_delta_inv:
  assumes inv: "runner_inv (cov_of rn) rn" and none: "rn_transition rn = None" and cover: "cover_inv rn" and "valid_environment en"
    and d: "cps_inv c" "finite (cps_active c)" "cps_roots c = (cps_roots (rn_covering rn grp) - rd_removed d) \<union> rd_added d"
      "rd_removed d \<subseteq> cps_roots (rn_covering rn grp)" "rd_added d \<inter> cps_roots (rn_covering rn grp) = {}"
    and "\<And>g p. (if g = grp then p \<in> cps_active c else p \<in> cps_active (rn_covering rn g)) \<longleftrightarrow> act (g, p) \<noteq> None"
  defines "rn' \<equiv> apply_root_delta en grp d (rn\<lparr>rn_active := act, rn_covering := (rn_covering rn)(grp := c)\<rparr>)"
  shows "runner_inv (cov_of rn') rn' \<and> cover_inv rn'"
proof -
  let ?rn = "rn\<lparr>rn_active := act, rn_covering := (rn_covering rn)(grp := c)\<rparr>"
  have fin: "finite (rd_added d)" "finite (rd_removed d)"
  proof -
    have "cps_roots c \<subseteq> cps_active c" "cps_roots (rn_covering rn grp) \<subseteq> cps_active (rn_covering rn grp)"
      using d(1) cover_invD(1) [OF cover, of grp] by (auto simp: cps_inv_def minimal_prefixes_def)
    moreover have "rd_added d \<subseteq> cps_roots c" using d(3) by blast
    ultimately show "finite (rd_added d)" "finite (rd_removed d)"
      using d(2,4) cover_invD(2) [OF cover, of grp] by (meson finite_subset subset_trans)+
  qed
  then have order: "distinct (en_order en (rd_added d))" "set (en_order en (rd_added d)) = rd_added d" "set (en_order en (rd_removed d)) = rd_removed d"
    using assms(4) by (simp_all add: valid_environment_def)
  have "runner_inv (cov_of rn) ?rn" using inv by (subst runner_inv_cong) (simp_all add: core_def fun_eq_iff)
  moreover have "delta_ok (cov_of rn) grp (en_order en (rd_added d)) (en_order en (rd_removed d))"
    using cover_inv_antichain [OF cover] d(4,5) order by (simp add: delta_ok_def cov_of_def)
  ultimately have "runner_inv (cover_after (cov_of rn) grp (en_order en (rd_added d)) (en_order en (rd_removed d))) rn'"
    unfolding rn'_def apply_root_delta_def by (intro apply_delta_inv) (simp_all add: none)
  moreover have cov': "rn_covering rn' = (rn_covering rn)(grp := c)" "rn_active rn' = act"
    by (simp_all add: rn'_def apply_root_delta_def apply_delta_covering apply_delta_active)
  then have "cov_of rn' = cover_after (cov_of rn) grp (en_order en (rd_added d)) (en_order en (rd_removed d))"
    using d(3) order by (auto simp: cov_of_def cover_after_def fun_eq_iff)
  moreover have "cover_inv rn'"
  proof (rule cover_invI)
    show "cps_inv (rn_covering rn' g)" "finite (cps_active (rn_covering rn' g))" for g
      using d(1,2) cover_invD(1,2) [OF cover, of g] by (simp_all add: cov')
    show "p \<in> cps_active (rn_covering rn' g) \<longleftrightarrow> rn_active rn' (g, p) \<noteq> None" for g p
      using assms(10) [of g p] by (cases "g = grp") (simp_all add: cov')
  qed
  ultimately show ?thesis by simp
qed

lemma add_interest_inv:
  assumes "runner_inv (cov_of rn) rn" and "rn_transition rn = None" and cover: "cover_inv rn" and "valid_environment en"
  shows "runner_inv (cov_of (add_interest en key gen rn)) (add_interest en key gen rn) \<and> cover_inv (add_interest en key gen rn)"
proof (cases "rn_active rn key")
  case None
  obtain grp p where key: "key = (grp, p)" by (rule prod.exhaust)
  obtain d c where a: "cps_add p (rn_covering rn grp) = (d, c)" by (rule prod.exhaust)
  have "cps_inv (rn_covering rn grp)" by (rule cover_invD(1) [OF cover])
  note ok = cps_add_ok [OF this a]
  have "runner_inv (cov_of (apply_root_delta en grp d rn')) (apply_root_delta en grp d rn') \<and> cover_inv (apply_root_delta en grp d rn')"
    if "rn' = rn\<lparr>rn_active := (rn_active rn)(key \<mapsto> gen), rn_covering := (rn_covering rn)(grp := c)\<rparr>" for rn'
    unfolding that
  proof (rule apply_root_delta_inv [OF assms])
    show "finite (cps_active c)" using ok cover_invD(2) [OF cover, of grp] by simp
  qed (use ok cover_invD(3) [OF cover] in \<open>auto simp: key split: if_splits\<close>)
  then show ?thesis using None by (simp add: add_interest_def Let_def a key)
next
  case (Some g)
  have "runner_inv (cov_of rn) (rn\<lparr>rn_active := act\<rparr>)" for act using assms(1) by (subst runner_inv_cong) (simp_all add: core_def fun_eq_iff)
  moreover have "cov_of (rn\<lparr>rn_active := act\<rparr>) = cov_of rn" for act by (simp add: cov_of_def fun_eq_iff)
  moreover have "cover_inv (rn\<lparr>rn_active := (rn_active rn)(key \<mapsto> gen)\<rparr>)"
    by (rule cover_invI) (use cover_invD [OF cover] Some in auto)
  ultimately show ?thesis using Some assms(1) cover by (auto simp: add_interest_def)
qed

lemma remove_interest_inv:
  assumes "runner_inv (cov_of rn) rn" and "rn_transition rn = None" and cover: "cover_inv rn" and "valid_environment en"
  shows "runner_inv (cov_of (remove_interest en key gen rn)) (remove_interest en key gen rn) \<and> cover_inv (remove_interest en key gen rn)"
proof (cases "rn_active rn key = Some gen")
  case True
  obtain grp p where key: "key = (grp, p)" by (rule prod.exhaust)
  obtain d c where a: "cps_remove p (rn_covering rn grp) = (d, c)" by (rule prod.exhaust)
  have "cps_inv (rn_covering rn grp)" by (rule cover_invD(1) [OF cover])
  note ok = cps_remove_ok [OF this a]
  have "runner_inv (cov_of (apply_root_delta en grp d rn')) (apply_root_delta en grp d rn') \<and> cover_inv (apply_root_delta en grp d rn')"
    if "rn' = rn\<lparr>rn_active := (rn_active rn)(key := None), rn_covering := (rn_covering rn)(grp := c)\<rparr>" for rn'
    unfolding that
  proof (rule apply_root_delta_inv [OF assms])
    show "finite (cps_active c)" using ok cover_invD(2) [OF cover, of grp] by simp
  qed (use ok cover_invD(3) [OF cover] in \<open>auto simp: key split: if_splits\<close>)
  then show ?thesis using True by (simp add: remove_interest_def Let_def a key)
qed (use assms in \<open>simp add: remove_interest_def\<close>)

section \<open>Reachable states\<close>

definition spawned_le :: "runner \<Rightarrow> runner \<Rightarrow> bool" where
  "spawned_le rn rn' \<longleftrightarrow> set (rn_spawned rn) \<subseteq> set (rn_spawned rn')"

lemma spawned_le_refl [simp]: "spawned_le rn rn"
  by (simp add: spawned_le_def)

lemma spawned_le_trans: "spawned_le a b \<Longrightarrow> spawned_le b c \<Longrightarrow> spawned_le a c"
  by (auto simp: spawned_le_def)

lemma spawned_le_fold: "(\<And>x s. spawned_le (f s) (f (g x s))) \<Longrightarrow> spawned_le (f s) (f (fold g xs s))"
proof (induction xs arbitrary: s)
  case (Cons x xs)
  then show ?case using spawned_le_trans by (simp, blast)
qed simp

lemma spawned_keep:
  "rn_spawned (put_root root rn) = rn_spawned rn" "rn_spawned (drop_registrations regs rn) = rn_spawned rn"
  "rn_spawned (mark_old_pull_complete pid rn) = rn_spawned rn" "rn_spawned (remove_root rid rn) = rn_spawned rn"
  "rn_spawned (begin_transition ids roots rn) = rn_spawned rn" "rn_spawned (finish_transition_if_ready rn) = rn_spawned rn"
  "rn_spawned (snd (retire_root rid st)) = rn_spawned (snd st)" "rn_spawned (snd (cancel_pulls l rid st')) = rn_spawned (snd st')"
proof -
  show r: "rn_spawned (remove_root rid rn) = rn_spawned rn" for rid rn
    by (simp add: remove_root_def drop_registrations_def split: option.split)
  show "rn_spawned (finish_transition_if_ready rn) = rn_spawned rn"
    by (simp add: finish_transition_if_ready_def fold_keeps [of rn_spawned, OF r] split: option.split)
qed (cases st; cases st'; simp add: put_root_def drop_registrations_def mark_old_pull_complete_def begin_transition_def
    retire_root_def cancel_pulls_def Let_def split: option.split prod.split)+

lemma spawned_le_steps:
  "spawned_le rn (start_pull t rn)" "spawned_le rn (start_root root rn)" "spawned_le rn (start_ready_relay_transitions rn)"
proof -
  show p: "spawned_le rn (start_pull t rn)" for t rn
    by (auto simp: spawned_le_def start_pull_def Let_def split: prod.split option.split)
  have f: "spawned_le rn (fold start_pull ts rn)" for ts rn using spawned_le_fold [of "\<lambda>x. x" start_pull] p by blast
  show "spawned_le rn (start_root root rn)"
    using f [of "enter_root root rn"] by (simp add: start_root_def spawned_le_def)
  show "spawned_le rn (start_ready_relay_transitions rn)"
  proof (cases "rn_transition rn")
    case (Some tn)
    then show ?thesis using f [of "rn\<lparr>rn_transition := Some (snd (take_ready_targets tn))\<rparr>"]
      by (simp add: start_ready_relay_transitions_def case_prod_beta spawned_le_def)
  qed (simp add: start_ready_relay_transitions_def)
qed

lemma apply_delta_spawned: "spawned_le rn (apply_delta grp added removed relays_of listening rn)"
proof -
  let ?ids = "remdups (List.map_filter (\<lambda>p. map_of (rn_root_ids rn) (grp, p)) removed)"
  obtain roots rn1 where p: "prepare_roots (map (\<lambda>p. ((grp, p), relays_of p)) added) rn = (roots, rn1)" by (rule prod.exhaust)
  obtain roots2 rn2 where r: "fold retire_root ?ids (roots, rn1) = (roots2, rn2)" by (rule prod.exhaust)
  let ?rn3 = "begin_transition ?ids roots2 (fold enter_root roots2 rn2)"
  obtain completed rn4 where c: "fold (cancel_pulls listening) ?ids ([], ?rn3) = (completed, rn4)" by (rule prod.exhaust)
  have 1: "rn_spawned rn1 = rn_spawned rn" using prepare_roots_new [OF p] by simp
  have 2: "rn_spawned rn2 = rn_spawned rn1"
    using fold_keeps [of "\<lambda>st. rn_spawned (snd st)" retire_root ?ids "(roots, rn1)"] r by (simp add: spawned_keep)
  have 4: "rn_spawned rn4 = rn_spawned rn2"
    using fold_keeps [of "\<lambda>st. rn_spawned (snd st)" "cancel_pulls listening" ?ids "([], ?rn3)"] c
    by (simp add: spawned_keep fold_keeps [of rn_spawned])
  have "spawned_le rn (fold start_root roots rn1)"
    using spawned_le_fold [of "\<lambda>x. x" start_root rn1 roots] spawned_le_steps(2) 1 by (simp add: spawned_le_def)
  moreover have "spawned_le rn (finish_transition_if_ready (start_ready_relay_transitions (fold mark_old_pull_complete completed rn4)))"
    using spawned_le_steps(3) [of "fold mark_old_pull_complete completed rn4"] 1 2 4
    by (simp add: spawned_le_def spawned_keep fold_keeps [of rn_spawned])
  ultimately show ?thesis by (simp add: apply_delta_def Let_def p r c)
qed

lemma apply_delta_spawned_from: "rn_spawned rn0 = rn_spawned rn \<Longrightarrow> spawned_le rn (apply_delta grp added removed relays_of listening rn0)"
  using apply_delta_spawned [of rn0] by (simp add: spawned_le_def)

lemma settle_spawned:
  "rn_spawned rn0 = rn_spawned rn \<Longrightarrow> spawned_le rn (finish_transition_if_ready (start_ready_relay_transitions (mark_old_pull_complete pid rn0)))"
  using spawned_le_steps(3) [of "mark_old_pull_complete pid rn0"] by (simp add: spawned_le_def spawned_keep)

lemma dispatch_spawned: "spawned_le rn (dispatch en c rn)"
proof (cases c)
  case (CSubscribe key gen)
  then show ?thesis by (auto simp: add_interest_def apply_root_delta_def Let_def case_prod_beta intro!: apply_delta_spawned_from) (simp add: spawned_le_def)
next
  case (CUnsubscribe key gen)
  then show ?thesis by (auto simp: remove_interest_def apply_root_delta_def Let_def case_prod_beta intro!: apply_delta_spawned_from)
next
  case (CPullEvent rid pid ev)
  then show ?thesis
    by (simp add: handle_pull_event_def spawned_le_def spawned_keep Let_def case_prod_beta split: option.split namespace_event.split)
next
  case (CPullEnded rid pid outcome)
  show ?thesis unfolding CPullEnded dispatch.simps handle_pull_ended_def Let_def
    by (auto simp: spawned_keep intro!: settle_spawned split: option.split)
qed

lemma from_pull_mono: "spawned_le rn rn' \<Longrightarrow> from_pull rn c \<Longrightarrow> from_pull rn' c"
  by (cases c) (auto simp: spawned_le_def)

definition upstream_inv :: "lease_registry \<times> runner \<Rightarrow> bool" where
  "upstream_inv s \<longleftrightarrow>
     (case s of (lr, rn) \<Rightarrow> runner_inv (cov_of rn) rn \<and> cover_inv rn \<and>
        (\<forall>c \<in> set (lr_commands lr). is_interest c \<or> from_pull rn c) \<and> (\<forall>c \<in> set (rn_deferred rn). is_interest c))"

lemma dispatch_inv:
  assumes inv: "runner_inv (cov_of rn) rn" "cover_inv rn" and "valid_environment en"
    and "is_interest c \<Longrightarrow> rn_transition rn = None" and "is_interest c \<or> from_pull rn c"
  shows "runner_inv (cov_of (dispatch en c rn)) (dispatch en c rn) \<and> cover_inv (dispatch en c rn)"
proof (cases c)
  case (CSubscribe key gen)
  then show ?thesis using add_interest_inv [OF inv(1) _ inv(2) assms(3)] assms(4) by simp
next
  case (CUnsubscribe key gen)
  then show ?thesis using remove_interest_inv [OF inv(1) _ inv(2) assms(3)] assms(4) by simp
next
  case (CPullEvent rid pid ev)
  have c: "rn_covering (handle_pull_event rid pid ev rn) = rn_covering rn"
    by (simp add: handle_pull_event_def Let_def case_prod_beta split: option.split namespace_event.split)
  have "cov_of (handle_pull_event rid pid ev rn) = cov_of rn" "cover_inv (handle_pull_event rid pid ev rn)"
    using inv(2) cover_inv_cong [OF c handle_pull_event_active(1)] by (simp_all add: cov_of_def fun_eq_iff c)
  then show ?thesis using CPullEvent handle_pull_event_inv [OF inv(1)] by simp
next
  case (CPullEnded rid pid outcome)
  obtain k where k: "(pid, rid, k) \<in> set (rn_spawned rn)" using assms(5) CPullEnded by auto
  have c: "rn_covering (handle_pull_ended rid pid outcome rn) = rn_covering rn"
    by (simp add: handle_pull_ended_def Let_def split: option.split)
  have "cov_of (handle_pull_ended rid pid outcome rn) = cov_of rn" "cover_inv (handle_pull_ended rid pid outcome rn)"
    using inv(2) cover_inv_cong [OF c handle_pull_ended_active(1)] by (simp_all add: cov_of_def fun_eq_iff c)
  then show ?thesis using CPullEnded handle_pull_ended_inv [OF inv(1) k] by simp
qed

lemma run_round_inv:
  assumes "upstream_inv (lr, rn)" and "valid_environment en" and "run_round en (lr_commands lr) rn = Some (received, rn')"
  shows "upstream_inv (lr\<lparr>lr_commands := received\<rparr>, rn')"
proof -
  have inv: "runner_inv (cov_of rn) rn" "cover_inv rn" "\<forall>c \<in> set (lr_commands lr). is_interest c \<or> from_pull rn c" "\<forall>c \<in> set (rn_deferred rn). is_interest c"
    using assms(1) unfolding upstream_inv_def by simp_all
  consider (deferred) c where "rn_transition rn = None" "rn_deferred rn = c # tl (rn_deferred rn)" "received = lr_commands lr"
      "rn' = dispatch en c (rn\<lparr>rn_deferred := tl (rn_deferred rn)\<rparr>)"
    | (later) c where "lr_commands lr = c # received" "rn' = rn\<lparr>rn_deferred := rn_deferred rn @ [c]\<rparr>" "is_interest c"
    | (dispatch) c where "lr_commands lr = c # received" "rn' = dispatch en c rn" "is_interest c \<Longrightarrow> rn_transition rn = None"
    using assms(3) by (auto simp: run_round_def split: if_splits list.splits) (metis list.collapse)+
  then show ?thesis
  proof cases
    case (deferred c)
    let ?rn = "rn\<lparr>rn_deferred := tl (rn_deferred rn)\<rparr>"
    have "core ?rn = core rn" by (simp add: core_def fun_eq_iff)
    then have i: "runner_inv (cov_of ?rn) ?rn" "cover_inv ?rn"
      using inv(1,2) runner_inv_cong [of ?rn rn "cov_of rn"] cover_inv_cong [of ?rn rn] by (simp_all add: cov_of_def [abs_def])
    have c: "is_interest c" "\<forall>c \<in> set (tl (rn_deferred rn)). is_interest c" using deferred(2) inv(4) by (metis list.set_intros)+
    have sp: "spawned_le rn rn'" using dispatch_spawned [of ?rn en c] deferred(4) by (simp add: spawned_le_def)
    have "runner_inv (cov_of rn') rn' \<and> cover_inv rn'" unfolding deferred(4) by (rule dispatch_inv [OF i assms(2)]) (use deferred(1) c in simp_all)
    moreover have "rn_deferred rn' = tl (rn_deferred rn)" using dispatch_active [of en c ?rn] deferred(4) by simp
    moreover have "\<forall>c \<in> set (lr_commands lr). is_interest c \<or> from_pull rn' c" using inv(3) from_pull_mono [OF sp] by blast
    ultimately show ?thesis using c deferred(3) by (simp add: upstream_inv_def)
  next
    case (later c)
    have "core rn' = core rn" by (simp add: later(2) core_def fun_eq_iff)
    then have i: "runner_inv (cov_of rn') rn'" "cover_inv rn'"
      using inv(1,2) runner_inv_cong [of rn' rn "cov_of rn"] cover_inv_cong [of rn' rn] by (simp_all add: later(2) cov_of_def [abs_def])
    have "spawned_le rn rn'" by (simp add: spawned_le_def later(2))
    then have "\<forall>c \<in> set received. is_interest c \<or> from_pull rn' c" using inv(3) from_pull_mono later(1) by (metis list.set_intros(2))
    then show ?thesis using i inv(4) later(3) by (simp add: upstream_inv_def later(2))
  next
    case (dispatch c)
    have c: "is_interest c \<or> from_pull rn c" "\<forall>c \<in> set received. is_interest c \<or> from_pull rn c" using inv(3) dispatch(1) by simp_all
    have "runner_inv (cov_of rn') rn' \<and> cover_inv rn'" unfolding dispatch(2) by (rule dispatch_inv [OF inv(1,2) assms(2) dispatch(3) c(1)])
    moreover have "rn_deferred rn' = rn_deferred rn" using dispatch_active [of en c rn] dispatch(2) by simp
    moreover have "\<forall>c \<in> set received. is_interest c \<or> from_pull rn' c" using c(2) from_pull_mono dispatch_spawned dispatch(2) by blast
    ultimately show ?thesis using inv(4) by (simp add: upstream_inv_def)
  qed
qed

lemma upstream_inv_commands:
  assumes "upstream_inv (lr, rn)" and "\<forall>c \<in> set (lr_commands lr'). c \<in> set (lr_commands lr) \<or> is_interest c \<or> from_pull rn c"
  shows "upstream_inv (lr', rn)"
  using assms unfolding upstream_inv_def case_prod_conv by blast

lemma upstream_step_inv: "upstream_step s s' \<Longrightarrow> upstream_inv s \<Longrightarrow> upstream_inv s'"
proof (induction rule: upstream_step.induct)
  case (up_subscribe lr rn key)
  have "\<forall>c \<in> set (lr_commands (snd (lease_subscribe key lr))). c \<in> set (lr_commands lr) \<or> is_interest c"
    by (auto simp: lease_subscribe_def Let_def split: option.split)
  then show ?case by (intro upstream_inv_commands [OF up_subscribe]) blast
next
  case (up_release lr gen rn)
  show ?case by (rule upstream_inv_commands [OF up_release(2)]) (simp add: lease_release_def)
next
  case (up_interest_drop lr gen rn key)
  show ?case by (rule upstream_inv_commands [OF up_interest_drop(2)]) (auto simp: interest_drop_def)
next
  case (up_pull rn c lr)
  show ?case by (rule upstream_inv_commands [OF up_pull(2)]) (use up_pull(1) in auto)
next
  case (up_round en lr rn received rn')
  then show ?case by (intro run_round_inv)
qed

definition upstream_reachable :: "lease_registry \<times> runner \<Rightarrow> bool" where
  "upstream_reachable s \<longleftrightarrow> (\<exists>lc. upstream_step\<^sup>*\<^sup>* (lease_registry_new, runner_new lc) s)"

lemma upstream_reachable_inv:
  assumes "upstream_reachable s"
  shows "upstream_inv s \<and> lease_inv s"
proof -
  obtain lc where "upstream_step\<^sup>*\<^sup>* (lease_registry_new, runner_new lc) s" using assms by (auto simp: upstream_reachable_def)
  then show ?thesis
  proof (induction rule: rtranclp_induct)
    case base
    have "cov_of (runner_new lc) = (\<lambda>_. {})" by (simp add: cov_of_def runner_new_def cps_default_def fun_eq_iff)
    then show ?case using runner_inv_start [of lc] cover_inv_start [of lc] lease_inv_start [of lc]
      by (simp add: upstream_inv_def lease_registry_new_def) (simp add: runner_new_def)
  next
    case (step s s')
    then show ?case using upstream_step_inv lease_step_inv by blast
  qed
qed

end
