(* ===== verification/Upstream_Properties.thy ===== *)
theory Upstream_Properties
  imports Upstream_Delta
begin

text \<open>Properties of the upstream namespace manager.\<close>

text \<open>A concrete run: one lease on a prefix, taken by the runner, with one relay.\<close>

definition order_any :: "track_namespace_prefix set \<Rightarrow> track_namespace_prefix list" where
  "order_any S = (SOME xs. distinct xs \<and> set xs = S)"

definition one_relay :: environment where
  "one_relay = \<lparr>en_order = order_any, en_relays = (\<lambda>_. [(''relay'', None)]), en_listening = []\<rparr>"

definition sample_key :: prefix_key where
  "sample_key = ((None, PublicInterface), [])"

definition sample_runner :: runner where
  "sample_runner = add_interest one_relay sample_key 0 (runner_new locals_new)"

lemma order_any_ok: "finite S \<Longrightarrow> distinct (order_any S) \<and> set (order_any S) = S"
  unfolding order_any_def by (rule someI_ex) (metis finite_distinct_list)

lemma order_any_small: "order_any {} = []" "order_any {p} = [p]"
proof -
  show "order_any {} = []" using order_any_ok [of "{}"] by simp
  have "distinct (order_any {p})" "set (order_any {p}) = {p}" using order_any_ok [of "{p}"] by simp_all
  then show "order_any {p} = [p]" by (cases "order_any {p}"; cases "tl (order_any {p})") auto
qed

lemma one_relay_valid: "valid_environment one_relay"
  by (simp add: valid_environment_def one_relay_def order_any_ok)

lemma sample_runner_eval:
  "rn_roots sample_runner = [(0, \<lparr>rt_id = 0, rt_key = sample_key, rt_relays = [(''relay'', None)],
     rt_pulls = [(0, \<lparr>pl_relay = (''relay'', None), pl_cancel = True\<rparr>)], rt_sources = [], rt_retained = [], rt_retiring = False\<rparr>)]"
  "rn_transition sample_runner = None" "rn_deferred sample_runner = []" "rn_spawned sample_runner = [(0, 0, (''relay'', None))]"
  by (simp_all add: sample_runner_def add_interest_def sample_key_def runner_new_def cps_add_def cps_default_def Let_def apply_root_delta_def
      one_relay_def order_any_small apply_delta_def prepare_root_def start_root_def enter_root_def put_root_def start_pull_def)

lemma sample_reachable:
  "upstream_reachable ((snd (lease_subscribe sample_key lease_registry_new))\<lparr>lr_commands := []\<rparr>, sample_runner)"
proof -
  let ?lr = "snd (lease_subscribe sample_key lease_registry_new)"
  have "upstream_step (lease_registry_new, runner_new locals_new) (?lr, runner_new locals_new)" by (rule up_subscribe)
  moreover have "lr_commands ?lr = [CSubscribe sample_key 0]" by (simp add: lease_subscribe_def lease_registry_new_def Let_def)
  then have "run_round one_relay (lr_commands ?lr) (runner_new locals_new) = Some ([], sample_runner)"
    by (simp add: run_round_def sample_runner_def) (simp add: runner_new_def)
  then have "upstream_step (?lr, runner_new locals_new) (?lr\<lparr>lr_commands := []\<rparr>, sample_runner)" by (rule up_round [OF one_relay_valid])
  ultimately show ?thesis unfolding upstream_reachable_def by (meson converse_rtranclp_into_rtranclp rtranclp.rtrancl_refl)
qed

text \<open>
  C6. In every state that leases, pulls and the runner reach together, a relay never runs
  pulls of two roots of one group whose prefixes overlap: an old root's pull on a relay has
  ended before the new root's pull starts there.
\<close>

theorem overlapping_roots_never_pull_from_one_relay:
  assumes "upstream_reachable (lr, rn)" and "(rid, pid, k) \<in> pulls rn" and "(rid', pid', k) \<in> pulls rn"
    and "key_of rn rid = Some (g, p)" and "key_of rn rid' = Some (g, p')" and "overlaps p p'"
  shows "rid = rid'"
proof -
  have "runner_inv (cov_of rn) rn" "cover_inv rn" using upstream_reachable_inv [OF assms(1)] by (simp_all add: upstream_inv_def)
  then show ?thesis using no_overlapping_pulls cover_inv_antichain assms(2-6) unfolding conflict_def by blast
qed

theorem overlapping_roots_never_pull_from_one_relay_witness:
  "(0, 0, (''relay'', None)) \<in> pulls sample_runner \<and> key_of sample_runner 0 = Some sample_key \<and> overlaps [] [] \<and> (0::nat) = 0"
proof -
  have p: "(0, 0, (''relay'', None)) \<in> pulls sample_runner"
    by (simp add: pulls_def core_def core_of_def sample_runner_eval)
  have k: "key_of sample_runner 0 = Some ((None, PublicInterface), [])"
    by (simp add: key_of_def core_def core_of_def sample_runner_eval sample_key_def)
  have o: "overlaps [] []" by (simp add: overlaps_def)
  from overlapping_roots_never_pull_from_one_relay [OF sample_reachable p p k k o] p k o
  show ?thesis by (simp add: sample_key_def)
qed

text \<open>
  C9. Once every command is handled and no transition is under way, the runner's roots are
  exactly the minimal prefixes of what is leased, in every group, each root has started a
  pull on each of its relays, and every lease has its prefix registered.
\<close>

theorem quiescent_roots_cover_the_leases:
  assumes "upstream_reachable (lr, rn)" and "lr_commands lr = []" and "rn_deferred rn = []" and "rn_transition rn = None"
  shows "(\<forall>g p. (\<exists>rid. key_of rn rid = Some (g, p)) = (p \<in> minimal_prefixes {q. lr_slots lr (g, q) \<noteq> None})) \<and>
    relays_at rn \<subseteq> snd ` set (rn_spawned rn) \<and> (\<forall>gen. 0 < lr_leases lr gen \<longrightarrow> (\<exists>key. lr_slots lr key = Some gen))"
proof -
  have up: "runner_inv (cov_of rn) rn" "cover_inv rn" and lease: "lease_inv (lr, rn)"
    using upstream_reachable_inv [OF assms(1)] by (simp_all add: upstream_inv_def)
  have none: "removed_of rn = {}" "to_start rn = {}" using assms(4) by (simp_all add: removed_of_def to_start_def)
  have act: "rn_active rn = lr_slots lr" using lease_invD(2) [OF lease] assms(2,3) by simp
  have "{q. lr_slots lr (g, q) \<noteq> None} = cps_active (rn_covering rn g)" for g
    using cover_invD(3) [OF up(2), of _ g] act by auto
  then have "cov_of rn g = minimal_prefixes {q. lr_slots lr (g, q) \<noteq> None}" for g
    using cover_invD(1) [OF up(2)] by (simp add: cps_inv_def cov_of_def)
  then have "\<forall>g p. (\<exists>rid. key_of rn rid = Some (g, p)) = (p \<in> minimal_prefixes {q. lr_slots lr (g, q) \<noteq> None})"
    using runner_invD(3) [OF up(1)] by (simp add: cover_ok_def none)
  moreover have "relays_at rn \<subseteq> snd ` set (rn_spawned rn)" using runner_invD(6) [OF up(1)] by (simp add: spawn_ok_iff none)
  ultimately show ?thesis using lease_invD(4) [OF lease] by blast
qed

theorem quiescent_roots_cover_the_leases_witness:
  "(\<exists>rid. key_of sample_runner rid = Some sample_key) \<and> relays_at sample_runner \<subseteq> {(0, (''relay'', None))}"
proof -
  let ?lr = "(snd (lease_subscribe sample_key lease_registry_new))\<lparr>lr_commands := []\<rparr>"
  have slots: "lr_slots ?lr = [sample_key \<mapsto> 0]" by (simp add: lease_subscribe_def lease_registry_new_def Let_def)
  have "lr_commands ?lr = []" by simp
  note q = quiescent_roots_cover_the_leases [OF sample_reachable this sample_runner_eval(3,2), unfolded slots]
  have "{q. [sample_key \<mapsto> (0::nat)] ((None, PublicInterface), q) \<noteq> None} = {[]}" by (auto simp: sample_key_def)
  then have "[] \<in> minimal_prefixes {q. [sample_key \<mapsto> (0::nat)] ((None, PublicInterface), q) \<noteq> None}" by (simp add: minimal_prefixes_def)
  then show ?thesis using q by (auto simp: sample_key_def sample_runner_eval(4))
qed

end
