(* ===== verification/Delivery.thy ===== *)
theory Delivery
  imports Serve_Tracks Draft19 Session_State
begin

text \<open>
  The publisher's side of a subscription: which objects a subscription is due
  (\<^verbatim>\<open>DeliveryFilter\<close> and \<^verbatim>\<open>SubscribeInfo\<close> of \<^verbatim>\<open>moq-transport/src/session/subscribe.rs\<close>) and how they
  go out (\<^verbatim>\<open>subscribed.rs\<close>): the subgroup streams, the datagrams with their loss counters, and
  the terminal message when the subscription is dropped. Logging and metrics handles are
  left out; the counters themselves are kept.
\<close>

section \<open>What a subscription asks for\<close>

record delivery_filter =
  df_forward :: bool
  df_start_location :: "location option"
  df_end_group_id :: "u64 option"

definition df_allows :: "delivery_filter \<Rightarrow> u64 \<Rightarrow> u64 \<Rightarrow> bool" where
  "df_allows f g ob =
     (if \<not> df_forward f then False
      else if (case df_start_location f of Some start \<Rightarrow> location_less (Location_new g ob) start | None \<Rightarrow> False) then False
      else if (case df_end_group_id f of Some e \<Rightarrow> e < g | None \<Rightarrow> False) then False
      else True)"

record subscribe_info =
  si_id :: u64
  si_track_namespace :: track_namespace
  si_track_name :: track_name
  si_subscriber_priority :: u8
  si_group_order :: group_order
  si_forward :: bool
  si_filter_type :: filter_type
  si_start_location :: "location option"
  si_end_group_id :: "u64 option"
  si_filter :: "subscription_filter option"
  si_params :: kvps
  si_track_status :: bool

text \<open>Every parameter accessor may fail; \<^verbatim>\<open>?\<close> turns its error into a session error.\<close>

definition decode_err :: "decode_error + 'a \<Rightarrow> 'e session_error + 'a" where
  "decode_err r = (case r of Inl e \<Rightarrow> Inl (SeDecode e) | Inr x \<Rightarrow> Inr x)"

definition unwrap_or :: "'a option \<Rightarrow> 'a \<Rightarrow> 'a" where
  "unwrap_or x d = (case x of None \<Rightarrow> d | Some y \<Rightarrow> y)"

definition new_from_subscribe :: "subscribe \<Rightarrow> 'e session_error + subscribe_info" where
  "new_from_subscribe msg =
     bindE (decode_err (get_subscription_filter (sub_params msg))) (\<lambda>flt.
     let filter_type = unwrap_or (map_option sf_filter_type flt) AbsoluteStart;
         start_location = Option.bind flt sf_start_location;
         end_group_id = Option.bind flt sf_end_group_id in
     bindE (decode_err (subscriber_priority (sub_params msg))) (\<lambda>priority.
     bindE (decode_err (get_group_order (sub_params msg))) (\<lambda>order.
     bindE (decode_err (forward (sub_params msg))) (\<lambda>fwd.
       Inr \<lparr>si_id = sub_id msg, si_track_namespace = sub_track_namespace msg, si_track_name = sub_track_name msg,
         si_subscriber_priority = unwrap_or priority DEFAULT_SUBSCRIBER_PRIORITY,
         si_group_order = unwrap_or order Publisher, si_forward = unwrap_or fwd True,
         si_filter_type = filter_type, si_start_location = start_location, si_end_group_id = end_group_id,
         si_filter = flt, si_params = sub_params msg, si_track_status = False\<rparr>))))"

definition next_group_location :: "location option \<Rightarrow> location" where
  "next_group_location largest =
     (case largest of
        None \<Rightarrow> Location_new 0 0
      | Some l \<Rightarrow> Location_new (u64_saturating_inc (group_id l)) 0)"

definition next_object_location :: "location option \<Rightarrow> location" where
  "next_object_location largest =
     (case largest of
        None \<Rightarrow> Location_new 0 0
      | Some l \<Rightarrow>
          (case u64_checked_add (object_id l) 1 of
             Some ob \<Rightarrow> Location_new (group_id l) ob
           | None \<Rightarrow> next_group_location (Some l)))"

definition si_delivery_filter :: "subscribe_info \<Rightarrow> location option \<Rightarrow> delivery_filter" where
  "si_delivery_filter info largest =
     (case si_filter info of
        None \<Rightarrow> \<lparr>df_forward = si_forward info, df_start_location = None, df_end_group_id = None\<rparr>
      | Some flt \<Rightarrow>
          let start_location = (case sf_filter_type flt of
                LargestObject \<Rightarrow> Some (next_object_location largest)
              | NextGroupStart \<Rightarrow> Some (next_group_location largest)
              | AbsoluteStart \<Rightarrow> sf_start_location flt
              | AbsoluteRange \<Rightarrow> sf_start_location flt) in
          \<lparr>df_forward = si_forward info, df_start_location = start_location, df_end_group_id = sf_end_group_id flt\<rparr>)"

section \<open>Answering a subscription\<close>

definition encode_or_internal :: "encode_error + 'a \<Rightarrow> 'e session_error + 'a" where
  "encode_or_internal r = (case r of Inl _ \<Rightarrow> Inl SeInternal | Inr x \<Rightarrow> Inr x)"

definition subscribe_ok_params :: "wire_profile \<Rightarrow> location option \<Rightarrow> u64 option \<Rightarrow> 'e session_error + kvps" where
  "subscribe_ok_params profile largest window =
     bindE (case largest of None \<Rightarrow> Inr [] | Some l \<Rightarrow> encode_or_internal (set_largest_object l [])) (\<lambda>params.
     case window of
       Some win \<Rightarrow> Inr (set_intvalue SUBGROUP_HISTORY_GROUPS_PARAM win params)
     | None \<Rightarrow> if profile = Blockcast01 then Inl SeProtocolViolation else Inr params)"

record object_forwarder_state =
  of_largest_location :: "location option"
  of_stream_count :: u64
  of_unsubscribed :: bool
  of_closed :: "serve_error option"

definition object_forwarder_state_default :: object_forwarder_state where
  "object_forwarder_state_default =
     \<lparr>of_largest_location = None, of_stream_count = 0, of_unsubscribed = False, of_closed = None\<rparr>"

definition record_stream_opened :: "object_forwarder_state \<Rightarrow> object_forwarder_state" where
  "record_stream_opened st = st\<lparr>of_stream_count := u64_saturating_inc (of_stream_count st)\<rparr>"

definition update_largest_location :: "u64 \<Rightarrow> u64 \<Rightarrow> object_forwarder_state \<Rightarrow> object_forwarder_state" where
  "update_largest_location g ob st =
     (case of_largest_location st of
        None \<Rightarrow> st
      | Some current \<Rightarrow>
          if location_less current (Location_new g ob)
          then st\<lparr>of_largest_location := Some (Location_new g ob)\<rparr> else st)"

definition set_largest_location ::
    "location option \<Rightarrow> object_forwarder_state watched \<Rightarrow> (serve_error + unit) \<times> object_forwarder_state watched" where
  "set_largest_location largest s =
     (case with_mut (\<lambda>st. st\<lparr>of_largest_location := largest\<rparr>) s of
        None \<Rightarrow> (Inl SCancel, s)
      | Some (_, s) \<Rightarrow> (Inr (), s))"

definition terminal_state :: "object_forwarder_state watched \<Rightarrow> serve_error \<times> u64 \<times> bool" where
  "terminal_state s =
     (unwrap_or (of_closed (w_value s)) SDone, of_stream_count (w_value s), of_unsubscribed (w_value s))"

definition forwarder_close ::
    "serve_error \<Rightarrow> object_forwarder_state watched \<Rightarrow> (serve_error + unit) \<times> object_forwarder_state watched" where
  "forwarder_close err s =
     (case of_closed (w_value s) of
        Some e \<Rightarrow> (Inl e, s)
      | None \<Rightarrow>
          (case with_mut (\<lambda>st. st\<lparr>of_closed := Some err\<rparr>) s of
             None \<Rightarrow> (Inl SDone, s)
           | Some (_, s) \<Rightarrow> (Inr (), s)))"

definition forwarder_closed_round :: "object_forwarder_state watched \<Rightarrow> (serve_error + unit) round" where
  "forwarder_closed_round s =
     (case of_closed (w_value s) of
        Some e \<Rightarrow> Ready (Inl e)
      | None \<Rightarrow> (case modified s of Some epoch \<Rightarrow> Wait epoch | None \<Rightarrow> Ready (Inr ())))"

definition recv_unsubscribe_forwarder ::
    "object_forwarder_state watched \<Rightarrow> (serve_error + unit) \<times> object_forwarder_state watched" where
  "recv_unsubscribe_forwarder s =
     (case of_closed (w_value s) of
        Some e \<Rightarrow> (Inl e, s)
      | None \<Rightarrow>
          (case with_mut (\<lambda>st. st\<lparr>of_unsubscribed := True, of_closed := Some SCancel\<rparr>) s of
             None \<Rightarrow> (Inr (), s)
           | Some (_, s) \<Rightarrow> (Inr (), s)))"

fun done_code_of :: "serve_error \<Rightarrow> u64" where
  "done_code_of SDone = publish_done_code_value DoneTrackEnded"
| "done_code_of (SClosed code) = code"
| "done_code_of _ = publish_done_code_value DoneInternalError"

fun reject_code_of :: "serve_error \<Rightarrow> u64" where
  "reject_code_of (SClosed code) = code"
| "reject_code_of SNotFound = request_error_code_value ReqDoesNotExist"
| "reject_code_of SNotFoundWithId = request_error_code_value ReqDoesNotExist"
| "reject_code_of SDuplicate = request_error_code_value ReqDuplicateSubscription"
| "reject_code_of SCancel = request_error_code_value ReqUninterested"
| "reject_code_of SDone = request_error_code_value ReqUninterested"
| "reject_code_of SMode = request_error_code_value ReqNotSupported"
| "reject_code_of SSize = request_error_code_value ReqNotSupported"
| "reject_code_of SNotImplemented = request_error_code_value ReqNotSupported"
| "reject_code_of SNotImplementedWithId = request_error_code_value ReqNotSupported"
| "reject_code_of SInternal = request_error_code_value ReqInternalError"
| "reject_code_of SInternalWithId = request_error_code_value ReqInternalError"

definition is_expected_serve_shutdown :: "'e session_error \<Rightarrow> bool" where
  "is_expected_serve_shutdown err = (case err of SeServe SCancel \<Rightarrow> True | SeServe SDone \<Rightarrow> True | _ \<Rightarrow> False)"

section \<open>A subscription's handle\<close>

record subscribed =
  sd_info :: subscribe_info
  sd_track_alias :: u64
  sd_state :: "object_forwarder_state watched"
  sd_ok :: bool

definition subscribed_new :: "subscribe \<Rightarrow> 'e session_error + subscribed" where
  "subscribed_new msg =
     bindE (new_from_subscribe msg) (\<lambda>info.
       Inr \<lparr>sd_info = info, sd_track_alias = si_id info, sd_state = watched_new object_forwarder_state_default,
         sd_ok = False\<rparr>)"

text \<open>
  Everything \<^verbatim>\<open>serve_inner\<close> does until it waits for its SUBSCRIBE_OK to leave the outgoing queue:
  the message it sends, and the filter it serves under afterwards. The handle is marked as
  accepted only after the wait (\<open>serve_accepted\<close>); a serve that is dropped in between still
  counts as rejected.
\<close>

definition serve_begin ::
    "wire_profile \<Rightarrow> location option \<Rightarrow> u64 option \<Rightarrow> subscribed \<Rightarrow>
     ('e session_error + delivery_filter) \<times> message list \<times> subscribed" where
  "serve_begin profile largest window sd =
     (case set_largest_location largest (sd_state sd) of
        (Inl e, s) \<Rightarrow> (Inl (SeServe e), [], sd\<lparr>sd_state := s\<rparr>)
      | (Inr _, s) \<Rightarrow>
          let sd = sd\<lparr>sd_state := s\<rparr> in
          case subscribe_ok_params profile largest window of
            Inl e \<Rightarrow> (Inl e, [], sd)
          | Inr params \<Rightarrow>
              (Inr (si_delivery_filter (sd_info sd) largest),
               [SubscribeOk \<lparr>sok_id = si_id (sd_info sd), sok_track_alias = si_id (sd_info sd),
                  sok_params = params, sok_track_extensions = []\<rparr>],
               sd))"

definition serve_accepted :: "subscribed \<Rightarrow> subscribed" where
  "serve_accepted sd = sd\<lparr>sd_ok := True\<rparr>"

text \<open>
  \<^verbatim>\<open>Drop\<close>: the one terminal message, if any, and whether the request is forgotten at once
  (\<^verbatim>\<open>drop_subscribe\<close>). The reason phrase is the error's display text.
\<close>

definition subscribed_drop :: "(serve_error \<Rightarrow> rust_string) \<Rightarrow> subscribed \<Rightarrow> message option \<times> bool" where
  "subscribed_drop show_err sd =
     (case terminal_state (sd_state sd) of (err, stream_count, unsubscribed) \<Rightarrow>
        if unsubscribed then (None, False)
        else if sd_ok sd then
          (Some (PublishDone \<lparr>pdone_id = si_id (sd_info sd), pdone_status_code = done_code_of err,
             pdone_stream_count = stream_count, pdone_reason = show_err err\<rparr>), False)
        else
          (Some (RequestError \<lparr>rerr_id = si_id (sd_info sd), rerr_error_code = reject_code_of err,
             rerr_retry_interval = 0, rerr_reason = show_err err\<rparr>), True))"

section \<open>Subgroup streams\<close>

text \<open>
  What the readers of a subgroup hand out, call by call: its objects in order, the chunks of
  each, and how each sequence ends (\<open>None\<close> is the regular end). A forwarder waits between
  items, so this is what it has seen once the sequences are complete.
\<close>

record object_log =
  ol_info :: serve_object
  ol_chunks :: "bytes list"
  ol_end :: "serve_error option"

record subgroup_log =
  sl_info :: subgroup_info
  sl_objects :: "object_log list"
  sl_end :: "serve_error option"

text \<open>A \<^verbatim>\<open>SubgroupOutput\<close> stream: the bytes on the wire, and what the transport does in each call to come.\<close>

record 'e sg_output =
  ou_wire :: bytes
  ou_calls :: "('e + nat) list list"

definition output_encode :: "enc \<Rightarrow> 'e sg_output \<Rightarrow> ('e session_error + unit) progress \<times> 'e sg_output" where
  "output_encode e out =
     (case ou_calls out of
        [] \<Rightarrow> (Waiting, out)
      | c # cs \<Rightarrow> (case writer_encode e c (ou_wire out) of (res, wire) \<Rightarrow> (res, \<lparr>ou_wire = wire, ou_calls = cs\<rparr>)))"

definition output_write :: "bytes \<Rightarrow> 'e sg_output \<Rightarrow> ('e session_error + unit) progress \<times> 'e sg_output" where
  "output_write bs out =
     (case ou_calls out of
        [] \<Rightarrow> (Waiting, out)
      | c # cs \<Rightarrow> (case writer_write bs c (ou_wire out) of (res, wire) \<Rightarrow> (res, \<lparr>ou_wire = wire, ou_calls = cs\<rparr>)))"

definition object_id_delta :: "u64 option \<Rightarrow> u64 \<Rightarrow> serve_error + u64" where
  "object_id_delta previous ob =
     (case previous of
        None \<Rightarrow> Inr ob
      | Some prev \<Rightarrow> ok_or (Option.bind (u64_checked_sub ob prev) (\<lambda>step. u64_checked_sub step 1)) SInternalWithId)"

fun next_allowed_object ::
    "delivery_filter \<Rightarrow> u64 \<Rightarrow> object_log list \<Rightarrow> serve_error option \<Rightarrow> serve_error + (object_log \<times> object_log list) option" where
  "next_allowed_object flt g [] fin = (case fin of Some e \<Rightarrow> Inl e | None \<Rightarrow> Inr None)"
| "next_allowed_object flt g (ob # obs) fin =
     (if df_allows flt g (so_object_id (ol_info ob)) then Inr (Some (ob, obs))
      else next_allowed_object flt g obs fin)"

definition forwarded_object :: "u64 \<Rightarrow> serve_object \<Rightarrow> subgroup_object_ext" where
  "forwarded_object delta ob =
     \<lparr>soe_object_id_delta = delta, soe_extension_headers = so_extension_headers ob, soe_payload_length = so_size ob,
      soe_status = (if so_size ob = 0 then Some (so_status ob) else None)\<rparr>"

fun send_chunks :: "bytes list \<Rightarrow> serve_error option \<Rightarrow> 'e sg_output \<Rightarrow> ('e session_error + unit) progress \<times> 'e sg_output" where
  "send_chunks [] fin out = (Done (case fin of Some e \<Rightarrow> Inl (SeServe e) | None \<Rightarrow> Inr ()), out)"
| "send_chunks (c # cs) fin out =
     (case output_write c out of
        (Done (Inr _), out) \<Rightarrow> send_chunks cs fin out
      | (res, out) \<Rightarrow> (res, out))"

text \<open>One turn of the loop of \<^verbatim>\<open>serve_subgroup_objects\<close>.\<close>

definition forward_object ::
    "u64 \<Rightarrow> object_log \<Rightarrow> u64 option \<Rightarrow> object_forwarder_state watched \<Rightarrow> 'e sg_output \<Rightarrow>
     ('e session_error + unit) progress \<times> object_forwarder_state watched \<times> 'e sg_output" where
  "forward_object g ob previous s out =
     (case object_id_delta previous (so_object_id (ol_info ob)) of
        Inl e \<Rightarrow> (Done (Inl (SeServe e)), s, out)
      | Inr delta \<Rightarrow>
          (case output_encode (subgroup_object_ext_encode (forwarded_object delta (ol_info ob))) out of
             (Done (Inr _), out) \<Rightarrow>
               (case with_mut (update_largest_location g (so_object_id (ol_info ob))) s of
                  None \<Rightarrow> (Done (Inl (SeServe SDone)), s, out)
                | Some (_, s) \<Rightarrow> (case send_chunks (ol_chunks ob) (ol_end ob) out of (res, out) \<Rightarrow> (res, s, out)))
           | (res, out) \<Rightarrow> (res, s, out)))"

lemma next_allowed_object_shorter:
  "next_allowed_object flt g obs fin = Inr (Some (ob, rest)) \<Longrightarrow> length rest < length obs"
  by (induction flt g obs fin rule: next_allowed_object.induct) (auto split: option.splits if_splits)

text \<open>
  The loop, from its \<^verbatim>\<open>n\<close>-th object on. \<^verbatim>\<open>env\<close> is what the rest of the session does to the shared
  state before each turn: an UNSUBSCRIBE, or the last handle of the other half going away.
\<close>

function serve_object_loop ::
    "(nat \<Rightarrow> object_forwarder_state watched \<Rightarrow> object_forwarder_state watched) \<Rightarrow> delivery_filter \<Rightarrow> u64 \<Rightarrow> serve_error option \<Rightarrow>
     nat \<Rightarrow> object_log \<Rightarrow> object_log list \<Rightarrow> u64 option \<Rightarrow> object_forwarder_state watched \<Rightarrow> 'e sg_output \<Rightarrow>
     ('e session_error + unit) progress \<times> object_forwarder_state watched \<times> 'e sg_output" where
  "serve_object_loop env flt g fin n ob rest previous s out =
     (case forward_object g ob previous (env n s) out of
        (Done (Inr _), s, out) \<Rightarrow>
          (case next_allowed_object flt g rest fin of
             Inl e \<Rightarrow> (Done (Inl (SeServe e)), s, out)
           | Inr None \<Rightarrow> (Done (Inr ()), s, out)
           | Inr (Some (ob', rest')) \<Rightarrow>
               serve_object_loop env flt g fin (n + 1) ob' rest' (Some (so_object_id (ol_info ob))) s out)
      | (res, s, out) \<Rightarrow> (res, s, out))"
  by pat_completeness auto
termination
  by (relation "measure (\<lambda>(_, _, _, _, _, _, rest, _). length rest)") (auto dest: next_allowed_object_shorter)

declare serve_object_loop.simps [simp del]

definition serve_subgroup_objects ::
    "(nat \<Rightarrow> object_forwarder_state watched \<Rightarrow> object_forwarder_state watched) \<Rightarrow> subgroup_header \<Rightarrow> delivery_filter \<Rightarrow>
     subgroup_log \<Rightarrow> object_log \<Rightarrow> object_log list \<Rightarrow> object_forwarder_state watched \<Rightarrow> 'e sg_output \<Rightarrow>
     ('e session_error + unit) progress \<times> object_forwarder_state watched \<times> 'e sg_output" where
  "serve_subgroup_objects env header flt sl first rest s out =
     (case output_encode (subgroup_header_encode header) out of
        (Done (Inr _), out) \<Rightarrow>
          serve_object_loop env flt (sgi_group_id (sl_info sl)) (sl_end sl) 0 first rest None s out
      | (res, out) \<Rightarrow> (res, s, out))"

definition subgroup_stream_header :: "u64 \<Rightarrow> subgroup_info \<Rightarrow> subgroup_header" where
  "subgroup_stream_header track_alias info =
     \<lparr>sg_header_type = SubgroupIdExt, sg_track_alias = track_alias, sg_group_id = sgi_group_id info,
      sg_subgroup_id = Some (sgi_subgroup_id info), sg_publisher_priority = sgi_priority info\<rparr>"

text \<open>
  \<^verbatim>\<open>serve_subgroup\<close>: no stream is opened for a subgroup with nothing to deliver. \<^verbatim>\<open>opened\<close> is what
  \<^verbatim>\<open>open_uni\<close> gives: an error, or a stream with its transport. The result names the priority the
  stream was given, \<open>None\<close> when none was opened.
\<close>

definition serve_subgroup ::
    "(nat \<Rightarrow> object_forwarder_state watched \<Rightarrow> object_forwarder_state watched) \<Rightarrow> subgroup_header \<Rightarrow> subgroup_log \<Rightarrow>
     'e session_error + ('e + nat) list list \<Rightarrow> delivery_filter \<Rightarrow> int \<Rightarrow> object_forwarder_state watched \<Rightarrow>
     ('e session_error + unit) progress \<times> object_forwarder_state watched \<times> (int \<times> bytes) option" where
  "serve_subgroup env header sl opened flt order s =
     (case next_allowed_object flt (sgi_group_id (sl_info sl)) (sl_objects sl) (sl_end sl) of
        Inl e \<Rightarrow> (Done (Inl (SeServe e)), s, None)
      | Inr None \<Rightarrow> (Done (Inr ()), s, None)
      | Inr (Some (first, rest)) \<Rightarrow>
          (case opened of
             Inl e \<Rightarrow> (Done (Inl e), s, None)
           | Inr calls \<Rightarrow>
               (case with_mut record_stream_opened s of
                  None \<Rightarrow> (Done (Inl (SeServe SDone)), s, None)
                | Some (_, s) \<Rightarrow>
                    (case serve_subgroup_objects env header flt sl first rest s \<lparr>ou_wire = [], ou_calls = calls\<rparr> of
                       (res, s, out) \<Rightarrow> (res, s, Some (order, ou_wire out))))))"

subsection \<open>All subgroups of a track\<close>

text \<open>
  The \<^verbatim>\<open>select!\<close> loop of \<^verbatim>\<open>serve_subgroups\<close>: each event is one branch taken, and a branch whose guard
  does not hold is not polled. A task is the header, the subgroup and the send order it runs
  \<^verbatim>\<open>serve_subgroup\<close> with.
\<close>

datatype serve_event =
    NextSubgroup "serve_error + subgroup_log option"
  | ForwarderClosed "serve_error + unit"
  | TaskFinished nat

record serve_tasks =
  st_tasks :: "(nat \<times> subgroup_header \<times> subgroup_log \<times> int) list"
  st_spawned :: nat
  st_done :: "(serve_error + unit) option"

definition serve_tasks_new :: serve_tasks where
  "serve_tasks_new = \<lparr>st_tasks = [], st_spawned = 0, st_done = None\<rparr>"

definition serve_event_enabled :: "serve_event \<Rightarrow> serve_tasks \<Rightarrow> bool" where
  "serve_event_enabled ev st =
     (case ev of
        NextSubgroup _ \<Rightarrow> st_done st = None
      | ForwarderClosed _ \<Rightarrow> st_done st = None
      | TaskFinished i \<Rightarrow> i \<in> fst ` set (st_tasks st))"

definition serve_event_step :: "u64 \<Rightarrow> u8 \<Rightarrow> serve_event \<Rightarrow> serve_tasks \<Rightarrow> serve_tasks" where
  "serve_event_step track_alias priority ev st =
     (case ev of
        NextSubgroup (Inr (Some sl)) \<Rightarrow>
          st\<lparr>st_tasks := st_tasks st @ [(st_spawned st, subgroup_stream_header track_alias (sl_info sl), sl,
                send_order priority (sgi_priority (sl_info sl)))], st_spawned := st_spawned st + 1\<rparr>
      | NextSubgroup (Inr None) \<Rightarrow> st\<lparr>st_done := Some (Inr ())\<rparr>
      | NextSubgroup (Inl e) \<Rightarrow> st\<lparr>st_done := Some (Inl e)\<rparr>
      | ForwarderClosed res \<Rightarrow> st\<lparr>st_done := Some res\<rparr>
      | TaskFinished i \<Rightarrow> st\<lparr>st_tasks := filter (\<lambda>t. fst t \<noteq> i) (st_tasks st)\<rparr>)"

text \<open>The \<^verbatim>\<open>else\<close> branch: nothing left to poll.\<close>

definition serve_subgroups_result :: "serve_tasks \<Rightarrow> (serve_error + unit) option" where
  "serve_subgroups_result st = (if st_tasks st = [] then st_done st else None)"

section \<open>Datagrams\<close>

record loss_counters =
  lc_dropped :: nat
  lc_too_large :: nat
  lc_reported_dropped :: nat
  lc_reported_too_large :: nat
  lc_metric_ring :: nat
  lc_metric_mtu :: nat
  lc_sent :: nat

definition loss_counters_new :: loss_counters where
  "loss_counters_new = \<lparr>lc_dropped = 0, lc_too_large = 0, lc_reported_dropped = 0, lc_reported_too_large = 0,
     lc_metric_ring = 0, lc_metric_mtu = 0, lc_sent = 0\<rparr>"

text \<open>
  \<^verbatim>\<open>record_datagram_loss_metric\<close>: both series grow by what was lost since the last report. The
  caller makes sure neither difference is negative.
\<close>

definition record_datagram_loss_metric :: "loss_counters \<Rightarrow> loss_counters" where
  "record_datagram_loss_metric c =
     c\<lparr>lc_metric_ring := lc_metric_ring c + (lc_dropped c - lc_reported_dropped c),
       lc_metric_mtu := lc_metric_mtu c + (lc_too_large c - lc_reported_too_large c)\<rparr>"

definition loss_grew :: "loss_counters \<Rightarrow> bool" where
  "loss_grew c \<longleftrightarrow> lc_dropped c > lc_reported_dropped c \<or> lc_too_large c > lc_reported_too_large c"

definition report_loss :: "loss_counters \<Rightarrow> loss_counters" where
  "report_loss c =
     (if loss_grew c then
        (record_datagram_loss_metric c)\<lparr>lc_reported_dropped := lc_dropped c, lc_reported_too_large := lc_too_large c\<rparr>
      else c)"

definition forwarded_datagram :: "u64 \<Rightarrow> serve_datagram \<Rightarrow> datagram" where
  "forwarded_datagram track_alias d =
     (let has_ext = sd_extension_headers d \<noteq> [] in
      \<lparr>dg_datagram_type = (if has_ext then ObjectIdPayloadExt else ObjectIdPayload), dg_track_alias = track_alias,
       dg_group_id = sd_group_id d, dg_object_id = Some (sd_object_id d), dg_publisher_priority = sd_priority d,
       dg_extension_headers = (if has_ext then Some (sd_extension_headers d) else None), dg_status = None,
       dg_payload = Some (sd_payload d)\<rparr>)"

text \<open>
  One read of the loop: a datagram with the reader's count of superseded ones, the transport's
  current size limit, what sending it gives, and the shared state as the session has left it.
\<close>

record 'e datagram_turn =
  dt_datagram :: serve_datagram
  dt_dropped :: nat
  dt_max_size :: nat
  dt_send :: "'e option"
  dt_env :: "object_forwarder_state watched \<Rightarrow> object_forwarder_state watched"

definition serve_datagram_turn ::
    "u64 \<Rightarrow> delivery_filter \<Rightarrow> 'e datagram_turn \<Rightarrow> loss_counters \<times> object_forwarder_state watched \<times> bytes list \<Rightarrow>
     ('e session_error + unit) \<times> loss_counters \<times> object_forwarder_state watched \<times> bytes list" where
  "serve_datagram_turn track_alias flt t st =
     (case st of (c, s, wire) \<Rightarrow>
        let c = report_loss (c\<lparr>lc_dropped := dt_dropped t\<rparr>); d = dt_datagram t in
        if \<not> df_allows flt (sd_group_id d) (sd_object_id d) then (Inr (), c, s, wire)
        else
          case datagram_encode (forwarded_datagram track_alias d) fresh_vec of
            Inl e \<Rightarrow> (Inl (SeEncode e), c, s, wire)
          | Inr buf \<Rightarrow>
              if length (wr_bytes buf) > dt_max_size t then (Inr (), c\<lparr>lc_too_large := lc_too_large c + 1\<rparr>, s, wire)
              else
                case dt_send t of
                  Some e \<Rightarrow> (Inl (SeWebTransport e), c, s, wire)
                | None \<Rightarrow>
                    let wire = wire @ [wr_bytes buf] in
                    case with_mut (update_largest_location (sd_group_id d) (sd_object_id d)) (dt_env t s) of
                      None \<Rightarrow> (Inl (SeServe SDone), c, dt_env t s, wire)
                    | Some (_, s) \<Rightarrow> (Inr (), c\<lparr>lc_sent := lc_sent c + 1\<rparr>, s, wire))"

text \<open>The whole loop: the reads in order, then the count at the end and the regular end or an error.\<close>

fun serve_datagrams ::
    "u64 \<Rightarrow> delivery_filter \<Rightarrow> 'e datagram_turn list \<Rightarrow> nat \<Rightarrow> serve_error option \<Rightarrow>
     loss_counters \<times> object_forwarder_state watched \<times> bytes list \<Rightarrow>
     ('e session_error + unit) \<times> loss_counters \<times> object_forwarder_state watched \<times> bytes list" where
  "serve_datagrams track_alias flt [] dropped fin (c, s, wire) =
     (case fin of
        Some e \<Rightarrow> (Inl (SeServe e), c, s, wire)
      | None \<Rightarrow>
          let c = c\<lparr>lc_dropped := dropped\<rparr> in
          (Inr (), (if loss_grew c then record_datagram_loss_metric c else c), s, wire))"
| "serve_datagrams track_alias flt (t # ts) dropped fin st =
     (case serve_datagram_turn track_alias flt t st of
        (Inl e, st) \<Rightarrow> (Inl e, st)
      | (Inr _, st) \<Rightarrow> serve_datagrams track_alias flt ts dropped fin st)"

end
