(* ===== verification/Ingress.thy ===== *)
theory Ingress
  imports Delivery
begin

text \<open>
  The subscriber's side of a subscription: the writer an inbound track is mirrored into
  (\<^verbatim>\<open>SubscribeRecv\<close> of \<^verbatim>\<open>session/subscribe.rs\<close>, \<^verbatim>\<open>PublishReceivedRecv\<close> of \<^verbatim>\<open>publish_received.rs\<close>) and
  the receive loop of a subgroup stream (\<^verbatim>\<open>subscriber/ingress.rs\<close>). Taps are left to the serve
  model. The last part joins the two ends: what a forwarder writes to a stream, this loop
  reads back.
\<close>

section \<open>The mirror writer\<close>

text \<open>
  \<^verbatim>\<open>TrackWriterMode\<close>: the writer of a track, and what it becomes once the first stream or datagram
  arrives. No code gives a track the \<^verbatim>\<open>Objects\<close> mode.
\<close>

datatype track_writer_mode = WTrack nat | WStream nat | WSubgroups nat | WDatagrams nat

text \<open>The tracks, and the state of every subgroup: its writer's next id and its objects.\<close>

record mirror_store =
  mi_serve :: serve_store
  mi_subgroups :: "(u64 option \<times> subgroup_state watched) list"

definition mode_close :: "serve_error \<Rightarrow> track_writer_mode \<Rightarrow> serve_store \<Rightarrow> (serve_error + unit) \<times> serve_store" where
  "mode_close err m sv =
     (case m of
        WTrack t \<Rightarrow> track_close err t sv
      | WStream c \<Rightarrow> (case stream_close err (sv_streams sv ! c) of (r, s) \<Rightarrow> (r, sv\<lparr>sv_streams := (sv_streams sv)[c := s]\<rparr>))
      | WSubgroups c \<Rightarrow> (case subgroups_close err (snd (sv_subgroups sv ! c)) of (r, s) \<Rightarrow>
          (r, sv\<lparr>sv_subgroups := (sv_subgroups sv)[c := (fst (sv_subgroups sv ! c), s)]\<rparr>))
      | WDatagrams c \<Rightarrow> (case datagrams_close err (sv_datagrams sv ! c) of (r, s) \<Rightarrow>
          (r, sv\<lparr>sv_datagrams := (sv_datagrams sv)[c := s]\<rparr>)))"

text \<open>A writer that goes out of scope drops its half of its state.\<close>

definition mode_drop :: "track_writer_mode \<Rightarrow> serve_store \<Rightarrow> serve_store" where
  "mode_drop m sv =
     (case m of
        WTrack t \<Rightarrow> drop_track_writer t sv
      | WStream c \<Rightarrow> sv\<lparr>sv_streams := (sv_streams sv)[c := snd (drop_half (sv_streams sv ! c))]\<rparr>
      | WSubgroups c \<Rightarrow> sv\<lparr>sv_subgroups :=
          (sv_subgroups sv)[c := (fst (sv_subgroups sv ! c), snd (drop_half (snd (sv_subgroups sv ! c))))]\<rparr>
      | WDatagrams c \<Rightarrow> sv\<lparr>sv_datagrams := (sv_datagrams sv)[c := snd (drop_half (sv_datagrams sv ! c))]\<rparr>)"

definition put_serve :: "serve_store \<Rightarrow> mirror_store \<Rightarrow> mirror_store" where
  "put_serve sv mi = mi\<lparr>mi_serve := sv\<rparr>"

text \<open>\<^verbatim>\<open>subgroups.create\<close> on cell \<^verbatim>\<open>c\<close>; on an error the local writer is dropped.\<close>

definition mirror_create ::
    "subgroup_header \<Rightarrow> nat \<Rightarrow> mirror_store \<Rightarrow> (serve_error + nat) \<times> track_writer_mode option \<times> mirror_store" where
  "mirror_create header c mi =
     (let sv = mi_serve mi; cell = length (mi_subgroups mi);
          info = \<lparr>sgi_group_id = subgroup_header.sg_group_id header, sgi_subgroup_id = unwrap_or (sg_subgroup_id header) 0,
                  sgi_priority = sg_publisher_priority header\<rparr> in
      case subgroups_create info cell (fst (sv_subgroups sv ! c), snd (sv_subgroups sv ! c), []) of
        (res, w, s, _) \<Rightarrow>
          let sv = sv\<lparr>sv_subgroups := (sv_subgroups sv)[c := (w, s)]\<rparr> in
          case res of
            Inl e \<Rightarrow> (Inl e, None, put_serve (mode_drop (WSubgroups c) sv) mi)
          | Inr _ \<Rightarrow> (Inr cell, Some (WSubgroups c),
              \<lparr>mi_serve = sv, mi_subgroups = mi_subgroups mi @ [(Some 0, watched_new subgroup_state_default)]\<rparr>))"

text \<open>\<^verbatim>\<open>subgroup\<close>, the same in \<^verbatim>\<open>SubscribeRecv\<close> and \<^verbatim>\<open>PublishReceivedRecv\<close>.\<close>

definition mirror_subgroup ::
    "subgroup_header \<Rightarrow> track_writer_mode option \<times> mirror_store \<Rightarrow>
     (serve_error + nat) \<times> track_writer_mode option \<times> mirror_store" where
  "mirror_subgroup header st =
     (case st of
        (None, mi) \<Rightarrow> (Inl SDone, None, mi)
      | (Some (WTrack t), mi) \<Rightarrow>
          (case track_subgroups t (mi_serve mi) of
             (Inl e, sv) \<Rightarrow> (Inl e, None, put_serve sv mi)
           | (Inr c, sv) \<Rightarrow> mirror_create header c (put_serve sv mi))
      | (Some (WSubgroups c), mi) \<Rightarrow> mirror_create header c mi
      | (Some m, mi) \<Rightarrow> (Inl SMode, None, put_serve (mode_drop m (mi_serve mi)) mi))"

definition mirrored_datagram :: "datagram \<Rightarrow> serve_datagram" where
  "mirrored_datagram d =
     \<lparr>sd_group_id = dg_group_id d, sd_object_id = unwrap_or (dg_object_id d) 0, sd_priority = dg_publisher_priority d,
      sd_payload = unwrap_or (dg_payload d) [], sd_extension_headers = unwrap_or (dg_extension_headers d) []\<rparr>"

definition mirror_write_datagram ::
    "datagram \<Rightarrow> nat \<Rightarrow> mirror_store \<Rightarrow> (serve_error + unit) \<times> track_writer_mode option \<times> mirror_store" where
  "mirror_write_datagram d c mi =
     (let sv = mi_serve mi in
      case datagrams_write (mirrored_datagram d) (sv_datagrams sv ! c, []) of
        (res, s, _) \<Rightarrow>
          let sv = sv\<lparr>sv_datagrams := (sv_datagrams sv)[c := s]\<rparr> in
          case res of
            Inl e \<Rightarrow> (Inl e, None, put_serve (mode_drop (WDatagrams c) sv) mi)
          | Inr _ \<Rightarrow> (Inr (), Some (WDatagrams c), put_serve sv mi))"

definition mirror_datagram ::
    "datagram \<Rightarrow> track_writer_mode option \<times> mirror_store \<Rightarrow> (serve_error + unit) \<times> track_writer_mode option \<times> mirror_store" where
  "mirror_datagram d st =
     (case st of
        (None, mi) \<Rightarrow> (Inl SDone, None, mi)
      | (Some (WTrack t), mi) \<Rightarrow>
          (case track_datagrams t (mi_serve mi) of
             (Inl e, sv) \<Rightarrow> (Inl e, None, put_serve sv mi)
           | (Inr c, sv) \<Rightarrow> mirror_write_datagram d c (put_serve sv mi))
      | (Some (WDatagrams c), mi) \<Rightarrow> mirror_write_datagram d c mi
      | (Some other, mi) \<Rightarrow> (Inl SMode, Some other, mi))"

section \<open>Handles of an inbound track\<close>

record subscribe_state =
  su_ok :: bool
  su_track_alias :: "u64 option"
  su_closed :: "serve_error option"

definition subscribe_state_default :: subscribe_state where
  "subscribe_state_default = \<lparr>su_ok = False, su_track_alias = None, su_closed = None\<rparr>"

record subscribe_recv =
  sr_state :: "subscribe_state watched"
  sr_writer :: "track_writer_mode option"

text \<open>The window is advisory: a writer that refuses it leaves the acknowledgement in place.\<close>

definition apply_history_window :: "u64 \<Rightarrow> track_writer_mode option \<Rightarrow> serve_store \<Rightarrow> serve_store" where
  "apply_history_window window m sv =
     (case m of
        Some (WTrack t) \<Rightarrow> snd (track_set_history_window window t sv)
      | Some (WSubgroups c) \<Rightarrow>
          sv\<lparr>sv_subgroups := (sv_subgroups sv)[c :=
            (snd (set_history_window window (fst (sv_subgroups sv ! c))), snd (sv_subgroups sv ! c))]\<rparr>
      | _ \<Rightarrow> sv)"

definition subscribe_recv_ok ::
    "u64 \<Rightarrow> u64 option \<Rightarrow> subscribe_recv \<times> serve_store \<Rightarrow> (serve_error + unit) \<times> subscribe_recv \<times> serve_store" where
  "subscribe_recv_ok alias window st =
     (case st of (sr, sv) \<Rightarrow>
        if su_ok (w_value (sr_state sr)) then (Inl SDuplicate, sr, sv)
        else
          let s = (case with_mut (\<lambda>v. v\<lparr>su_ok := True, su_track_alias := Some alias\<rparr>) (sr_state sr) of
                None \<Rightarrow> sr_state sr | Some (_, s) \<Rightarrow> s) in
          (Inr (), sr\<lparr>sr_state := s\<rparr>,
           (case window of None \<Rightarrow> sv | Some win \<Rightarrow> apply_history_window win (sr_writer sr) sv)))"

text \<open>\<^verbatim>\<open>error\<close> consumes the handle: on every path its half of the state goes.\<close>

definition subscribe_recv_error ::
    "serve_error \<Rightarrow> subscribe_recv \<times> serve_store \<Rightarrow> (serve_error + unit) \<times> subscribe_state watched \<times> serve_store" where
  "subscribe_recv_error err st =
     (case st of (sr, sv) \<Rightarrow>
        case (case sr_writer sr of None \<Rightarrow> (Inr (), sv) | Some m \<Rightarrow> mode_close err m sv) of
          (Inl e, sv) \<Rightarrow> (Inl e, snd (drop_half (sr_state sr)), sv)
        | (Inr _, sv) \<Rightarrow>
            (case close_and_drop su_closed (\<lambda>e v. v\<lparr>su_closed := Some e\<rparr>) err (sr_state sr) of
               (res, s) \<Rightarrow> (res, s, sv)))"

definition subscribe_closed_round :: "subscribe_state watched \<Rightarrow> (serve_error + unit) round" where
  "subscribe_closed_round s =
     (case su_closed (w_value s) of
        Some e \<Rightarrow> Ready (if e = SDone then Inr () else Inl e)
      | None \<Rightarrow> (case modified s of Some epoch \<Rightarrow> Wait epoch | None \<Rightarrow> Ready (Inr ())))"

definition subscribe_ok_round :: "subscribe_state watched \<Rightarrow> (serve_error + unit) round" where
  "subscribe_ok_round s =
     (case su_closed (w_value s) of
        Some e \<Rightarrow> Ready (Inl e)
      | None \<Rightarrow>
          if su_ok (w_value s) then Ready (Inr ())
          else (case modified s of Some epoch \<Rightarrow> Wait epoch | None \<Rightarrow> Ready (Inl SDone)))"

record publish_received_state =
  prs_done :: bool
  prs_closed :: "serve_error option"

definition publish_received_state_default :: publish_received_state where
  "publish_received_state_default = \<lparr>prs_done = False, prs_closed = None\<rparr>"

record publish_received_recv =
  prr_state :: "publish_received_state watched"
  prr_writer :: "track_writer_mode option"

definition recv_done ::
    "u64 \<Rightarrow> publish_received_recv \<times> serve_store \<Rightarrow> publish_received_recv \<times> serve_store" where
  "recv_done status_code st =
     (case st of (prr, sv) \<Rightarrow>
        let s = (case with_mut (\<lambda>v. v\<lparr>prs_done := True, prs_closed := Some
                   (if status_code = publish_done_code_value DoneTrackEnded then SDone else SClosed status_code)\<rparr>)
                   (prr_state prr) of
                None \<Rightarrow> prr_state prr | Some (_, s) \<Rightarrow> s) in
        (\<lparr>prr_state = s, prr_writer = None\<rparr>,
         (case prr_writer prr of None \<Rightarrow> sv | Some m \<Rightarrow> mode_drop m sv)))"

definition publish_received_closed_round :: "publish_received_state watched \<Rightarrow> (serve_error + unit) round" where
  "publish_received_closed_round s =
     (case prs_closed (w_value s) of
        Some e \<Rightarrow> Ready (if e = SDone then Inr () else Inl e)
      | None \<Rightarrow> (case modified s of Some epoch \<Rightarrow> Wait epoch | None \<Rightarrow> Ready (Inr ())))"

subsection \<open>The application's handle of an inbound PUBLISH\<close>

record publish_received =
  pr_reader :: "nat option"
  pr_request_id :: u64
  pr_track_alias :: u64
  pr_full_name :: full_track_name
  pr_initial_forward :: bool
  pr_largest_location :: "location option"
  pr_ok :: bool
  pr_error :: "serve_error option"

definition take_reader :: "publish_received \<Rightarrow> (serve_error + nat) \<times> publish_received" where
  "take_reader pr = (case pr_reader pr of Some t \<Rightarrow> (Inr t, pr\<lparr>pr_reader := None\<rparr>) | None \<Rightarrow> (Inl SDone, pr))"

definition publish_received_accept :: "bool \<Rightarrow> publish_received \<Rightarrow> (serve_error + message) \<times> publish_received" where
  "publish_received_accept fwd pr =
     (if pr_ok pr then (Inl SDuplicate, pr)
      else (Inr (PublishOk \<lparr>pok_id = pr_request_id pr, pok_params = set_forward fwd []\<rparr>), pr\<lparr>pr_ok := True\<rparr>))"

definition publish_received_ok :: "bool \<Rightarrow> publish_received \<Rightarrow> (serve_error + nat \<times> message) \<times> publish_received" where
  "publish_received_ok fwd pr =
     (case take_reader pr of
        (Inl e, pr) \<Rightarrow> (Inl e, pr)
      | (Inr t, pr) \<Rightarrow>
          (case publish_received_accept fwd pr of
             (Inl e, pr) \<Rightarrow> (Inl e, pr)
           | (Inr m, pr) \<Rightarrow> (Inr (t, m), pr)))"

definition publish_received_close :: "serve_error \<Rightarrow> publish_received \<Rightarrow> publish_received" where
  "publish_received_close err pr = pr\<lparr>pr_error := Some err\<rparr>"

fun publish_reject_code :: "serve_error \<Rightarrow> u64" where
  "publish_reject_code SCancel = request_error_code_value ReqUninterested"
| "publish_reject_code SDone = request_error_code_value ReqUninterested"
| "publish_reject_code SDuplicate = request_error_code_value ReqDuplicateSubscription"
| "publish_reject_code SNotFound = request_error_code_value ReqDoesNotExist"
| "publish_reject_code SNotFoundWithId = request_error_code_value ReqDoesNotExist"
| "publish_reject_code SNotImplemented = request_error_code_value ReqNotSupported"
| "publish_reject_code SNotImplementedWithId = request_error_code_value ReqNotSupported"
| "publish_reject_code SInternal = request_error_code_value ReqInternalError"
| "publish_reject_code SInternalWithId = request_error_code_value ReqInternalError"
| "publish_reject_code (SClosed code) = code"
| "publish_reject_code _ = request_error_code_value ReqInternalError"

text \<open>\<^verbatim>\<open>Drop\<close>: the rejection to send; with it the subscriber forgets the PUBLISH.\<close>

definition publish_received_drop :: "publish_received \<Rightarrow> message option" where
  "publish_received_drop pr =
     (if pr_ok pr then None
      else Some (RequestError \<lparr>rerr_id = pr_request_id pr,
        rerr_error_code = publish_reject_code (unwrap_or (pr_error pr) SCancel), rerr_retry_interval = 0,
        rerr_reason = map of_char ''uninterested''\<rparr>))"

section \<open>Receiving a subgroup stream\<close>

text \<open>How much input a reader still has, counting each transport read; every loop below uses some of it.\<close>

fun piece_size :: "'e + bytes \<Rightarrow> nat" where
  "piece_size (Inl _) = 1"
| "piece_size (Inr bs) = Suc (length bs)"

definition input_left :: "'e reader \<Rightarrow> nat" where
  "input_left rd = length (rd_buffer rd) + sum_list (map piece_size (rd_stream rd))"

lemma reader_fill_input:
  "reader_fill n buf s = (res, buf', s') \<Longrightarrow>
   input_left \<lparr>rd_buffer = buf', rd_stream = s'\<rparr> \<le> input_left \<lparr>rd_buffer = buf, rd_stream = s\<rparr>"
  by (induction n buf s rule: reader_fill.induct) (auto simp: Let_def input_left_def split: if_splits)

lemma reader_loop_input:
  assumes dec: "decoder d" and "d [] = Inl (More k)"
  shows "reader_loop d buf s = (Inr x, buf', s') \<Longrightarrow>
    input_left \<lparr>rd_buffer = buf', rd_stream = s'\<rparr> < input_left \<lparr>rd_buffer = buf, rd_stream = s\<rparr>"
  using assms
proof (induction d buf s rule: reader_loop.induct)
  case (1 d buf s)
  show ?case
  proof (cases "d buf")
    case (Inr a)
    with "1.prems"(1) have d: "d buf = Inr (x, buf')" and s': "s' = s"
      by (auto simp: reader_loop.simps [of d buf] split: prod.splits)
    obtain p where p: "buf = p @ buf'" "streams d p x" using decoder_reads [OF "1.prems"(2) d] by blast
    then have "p \<noteq> []" using streams_all [OF p(2)] "1.prems"(3) by auto
    then show ?thesis using p(1) s' by (auto simp: input_left_def)
  next
    case (Inl err)
    then obtain n where err: "err = More n"
      using "1.prems"(1) by (auto simp: reader_loop.simps [of d buf] split: decode_error.splits)
    obtain r b t where f: "reader_fill (length buf + n) buf s = (r, b, t)"
      by (cases "reader_fill (length buf + n) buf s")
    then have "r = None" using "1.prems"(1) Inl err
      by (auto simp: reader_loop.simps [of d buf] split: option.splits)
    moreover have "reader_loop d b t = (Inr x, buf', s')"
      using "1.prems"(1) Inl err f calculation by (auto simp: reader_loop.simps [of d buf])
    ultimately show ?thesis
      using "1.IH" [OF Inl err f [symmetric]] "1.prems"(2,3) reader_fill_input [OF f] by fastforce
  qed
qed

lemma reader_decode_input:
  assumes "reader_decode d rd = (Inr x, rd')" and "decoder d" and "d [] = Inl (More k)"
  shows "input_left rd' < input_left rd"
  using assms reader_loop_input [OF assms(2,3), of "rd_buffer rd" "rd_stream rd"]
  by (auto simp: reader_decode_def Let_def input_left_def split: prod.splits)

lemma read_chunk_input: "read_chunk n rd = (res, rd') \<Longrightarrow> input_left rd' \<le> input_left rd"
  by (auto simp: read_chunk_def input_left_def Let_def split: if_splits list.splits sum.splits)

lemma reader_done_input: "reader_done rd = (res, rd') \<Longrightarrow> input_left rd' \<le> input_left rd"
  by (auto simp: reader_done_def input_left_def split: if_splits list.splits sum.splits)

text \<open>The payload loop: at most the announced bytes, piece by piece, into the object's writer.\<close>

function recv_payload ::
    "nat \<Rightarrow> 'e reader \<Rightarrow> nat \<times> object_state watched \<Rightarrow> ('e session_error + unit) \<times> 'e reader \<times> nat \<times> object_state watched" where
  "recv_payload remaining rd ow =
     (if remaining = 0 then (Inr (), rd, ow)
      else
        case read_chunk remaining rd of
          (Inl e, rd) \<Rightarrow> (Inl e, rd, ow)
        | (Inr None, rd) \<Rightarrow> (Inl SeWrongSize, rd, ow)
        | (Inr (Some chunk), rd) \<Rightarrow>
            (case object_write chunk ow of
               (Inl e, ow) \<Rightarrow> (Inl (SeServe e), rd, ow)
             | (Inr _, ow) \<Rightarrow> recv_payload (remaining - length chunk) rd ow))"
  by pat_completeness auto
termination
  by (relation "measure (\<lambda>(remaining, rd, _). remaining + length (rd_stream rd))")
    (auto simp: read_chunk_def Let_def split: if_splits list.splits sum.splits)

declare recv_payload.simps [simp del]

lemma recv_payload_input: "recv_payload n rd ow = (res, rd', ow') \<Longrightarrow> input_left rd' \<le> input_left rd"
proof (induction n rd ow rule: recv_payload.induct)
  case (1 remaining rd ow)
  obtain r rd1 where c: "read_chunk remaining rd = (r, rd1)" by (rule prod.exhaust)
  note le = read_chunk_input [OF c]
  show ?case
  proof (cases "remaining = 0 \<or> (\<forall>chunk. r \<noteq> Inr (Some chunk))")
    case True
    with "1.prems" c le show ?thesis
      by (simp add: recv_payload.simps [of remaining] split: if_splits sum.splits option.splits)
  next
    case False
    then obtain chunk where r: "r = Inr (Some chunk)" and n: "remaining \<noteq> 0" by blast
    obtain w ow1 where w: "object_write chunk ow = (w, ow1)" by (rule prod.exhaust)
    show ?thesis
    proof (cases w)
      case (Inl e)
      with "1.prems" c r n w le show ?thesis by (simp add: recv_payload.simps [of remaining])
    next
      case (Inr u)
      have "recv_payload (remaining - length chunk) rd1 ow1 = (res, rd', ow')"
        using "1.prems" c r n w Inr by (simp add: recv_payload.simps [of remaining])
      then have "input_left rd' \<le> input_left rd1"
        by (rule "1.IH" [OF n c [symmetric] r refl w [symmetric] Inr])
      with le show ?thesis by simp
    qed
  qed
qed

text \<open>One object header: payload length, id delta, status and, where the stream has them, extensions.\<close>

definition recv_object_header ::
    "stream_header_type \<Rightarrow> 'e reader \<Rightarrow>
     ('e session_error + nat \<times> u64 \<times> object_status option \<times> extension_headers option) \<times> 'e reader" where
  "recv_object_header t rd =
     (if has_extension_headers t then
        case reader_decode subgroup_object_ext_decode rd of
          (Inl e, rd) \<Rightarrow> (Inl e, rd)
        | (Inr ob, rd) \<Rightarrow> (Inr (soe_payload_length ob, soe_object_id_delta ob, soe_status ob, Some (soe_extension_headers ob)), rd)
      else
        case reader_decode subgroup_object_decode rd of
          (Inl e, rd) \<Rightarrow> (Inl e, rd)
        | (Inr ob, rd) \<Rightarrow> (Inr (so_payload_length ob, so_object_id_delta ob, subgroup_object.so_status ob, None), rd))"

definition current_object_id :: "u64 option \<Rightarrow> u64 \<Rightarrow> 'e session_error + u64" where
  "current_object_id previous delta =
     (case previous of
        Some prev \<Rightarrow> ok_or (Option.bind (u64_checked_add prev delta) (\<lambda>v. u64_checked_add v 1)) SeProtocolViolation
      | None \<Rightarrow> Inr delta)"

text \<open>
  The loop's variables: the header, the previous id, the writer once it is open, the chunk
  states of the objects received, numbered within the subgroup, and whatever \<^verbatim>\<open>get_writer\<close> works on.
\<close>

record 'w ingress =
  in_header :: subgroup_header
  in_previous :: "u64 option"
  in_writer :: "(u64 option \<times> subgroup_state watched) option"
  in_objects :: "object_state watched list"
  in_world :: 'w

type_synonym ('e, 'w) get_writer = "subgroup_header \<Rightarrow> 'w \<Rightarrow> ('e session_error + u64 option \<times> subgroup_state watched) \<times> 'w"

definition open_writer ::
    "('e, 'w) get_writer \<Rightarrow> stream_header_type \<Rightarrow> u64 \<Rightarrow> 'w ingress \<Rightarrow> ('e session_error + unit) \<times> 'w ingress" where
  "open_writer get_writer t oid st =
     (case in_writer st of
        Some _ \<Rightarrow> (Inr (), st)
      | None \<Rightarrow>
          let header = (if uses_first_object_id_as_subgroup_id t
                        then (in_header st)\<lparr>sg_subgroup_id := Some oid\<rparr> else in_header st) in
          case get_writer header (in_world st) of
            (Inl e, w) \<Rightarrow> (Inl e, st\<lparr>in_header := header, in_world := w\<rparr>)
          | (Inr g, w) \<Rightarrow> (Inr (), st\<lparr>in_header := header, in_writer := Some g, in_world := w\<rparr>))"

text \<open>
  One turn. \<^verbatim>\<open>env\<close> is what the track's readers do to the shared state before the object is created;
  the object's writer goes out of scope at the end of the turn.
\<close>

definition recv_object ::
    "('e, 'w) get_writer \<Rightarrow> (nat \<Rightarrow> subgroup_state watched \<Rightarrow> subgroup_state watched) \<Rightarrow> stream_header_type \<Rightarrow> 'e reader \<Rightarrow>
     'w ingress \<Rightarrow> ('e session_error + unit) \<times> 'e reader \<times> 'w ingress" where
  "recv_object get_writer env t rd st =
     (case recv_object_header t rd of
        (Inl e, rd) \<Rightarrow> (Inl e, rd, st)
      | (Inr (len, delta, status, exts), rd) \<Rightarrow>
          (case current_object_id (in_previous st) delta of
             Inl e \<Rightarrow> (Inl e, rd, st)
           | Inr oid \<Rightarrow>
               let st = st\<lparr>in_previous := Some oid\<rparr> in
               if status_conflict status (unwrap_or exts [] \<noteq> []) then (Inl SeProtocolViolation, rd, st)
               else
                 case open_writer get_writer t oid st of
                   (Inl e, st) \<Rightarrow> (Inl e, rd, st)
                 | (Inr _, st) \<Rightarrow>
                     (case in_writer st of
                        None \<Rightarrow> (Inl SeInternal, rd, st)
                      | Some (next_id, s) \<Rightarrow>
                          let cell = length (in_objects st) in
                          case create_with_id oid len exts cell (next_id, env cell s) of
                            (Inl e, g) \<Rightarrow> (Inl (SeServe e), rd, st\<lparr>in_writer := Some g\<rparr>)
                          | (Inr _, g) \<Rightarrow>
                              (case recv_payload len rd (len, watched_new object_state_default) of
                                 (res, rd, ow) \<Rightarrow>
                                   (res, rd, st\<lparr>in_writer := Some g, in_objects := in_objects st @ [object_writer_drop ow]\<rparr>)))))"

lemma subgroup_object_decode_Nil: "subgroup_object_ext_decode [] = Inl (More 1)" "subgroup_object_decode [] = Inl (More 1)"
  by (code_simp, code_simp)

lemma recv_object_input:
  assumes "recv_object get_writer env t rd st = (Inr u, rd', st')"
  shows "input_left rd' < input_left rd"
proof -
  obtain res rd1 where h: "recv_object_header t rd = (res, rd1)" by (rule prod.exhaust)
  obtain x where res: "res = Inr x" using assms h by (cases res) (auto simp: recv_object_def)
  have lt: "input_left rd1 < input_left rd"
    using h res reader_decode_input [OF _ decoder_subgroup_object_ext subgroup_object_decode_Nil(1), of rd]
      reader_decode_input [OF _ decoder_subgroup_object subgroup_object_decode_Nil(2), of rd]
    by (auto simp: recv_object_header_def split: if_splits prod.splits sum.splits)
  obtain len delta status exts where x: "x = (len, delta, status, exts)" by (cases x)
  have "input_left rd' \<le> input_left rd1"
    using assms h res x
    by (auto simp: recv_object_def Let_def split: if_splits prod.splits sum.splits option.splits dest: recv_payload_input)
  with lt show ?thesis by simp
qed

function recv_subgroup_objects ::
    "('e, 'w) get_writer \<Rightarrow> (nat \<Rightarrow> subgroup_state watched \<Rightarrow> subgroup_state watched) \<Rightarrow> stream_header_type \<Rightarrow> 'e reader \<Rightarrow>
     'w ingress \<Rightarrow> ('e session_error + unit) \<times> 'e reader \<times> 'w ingress" where
  "recv_subgroup_objects get_writer env t rd st =
     (case reader_done rd of
        (Inl e, rd) \<Rightarrow> (Inl e, rd, st)
      | (Inr True, rd) \<Rightarrow> (Inr (), rd, st)
      | (Inr False, rd) \<Rightarrow>
          (case recv_object get_writer env t rd st of
             (Inl e, rd, st) \<Rightarrow> (Inl e, rd, st)
           | (Inr _, rd, st) \<Rightarrow> recv_subgroup_objects get_writer env t rd st))"
  by pat_completeness auto
termination
  by (relation "measure (\<lambda>(_, _, _, rd, _). input_left rd)")
    (force dest: recv_object_input [OF sym] reader_done_input [OF sym])+

declare recv_subgroup_objects.simps [simp del]

end
