(* ===== verification/Subscriber_Role.thy ===== *)
theory Subscriber_Role
  imports Ingress Retention
begin

text \<open>
  The subscriber role of a session (\<^verbatim>\<open>moq-transport/src/session/subscriber.rs\<close>,
  \<^verbatim>\<open>subscriber/registry.rs\<close>, \<^verbatim>\<open>subscriber/ingress.rs\<close>) with the handles it gives out
  (\<^verbatim>\<open>fetch.rs\<close>, \<^verbatim>\<open>published_namespace.rs\<close>). The role's maps and registries are one record; what it
  shares with the publisher role (the outgoing queue, the request ids, the pending
  requests) is another. Each handler is one step; a poisoned lock is not modelled. Event
  logging is left out.
\<close>

section \<open>Registries\<close>

text \<open>
  What the roles rely on in each of their registries: a key has at most one owner, an owner at
  most one key, and removing an owner frees exactly its key.
\<close>

locale request_registry =
  fixes owner :: "'r \<Rightarrow> 'k \<Rightarrow> u64 option"
    and key_of :: "'r \<Rightarrow> u64 \<Rightarrow> 'k option"
    and remove :: "u64 \<Rightarrow> 'r \<Rightarrow> 'r"
    and wf :: "'r \<Rightarrow> bool"
  assumes agree: "wf r \<Longrightarrow> owner r k = Some i \<longleftrightarrow> key_of r i = Some k"
    and remove_wf: "wf r \<Longrightarrow> wf (remove i r)"
    and remove_key: "key_of (remove i r) = (key_of r)(i := None)"
begin

lemma one_owner: "wf r \<Longrightarrow> key_of r i = Some k \<Longrightarrow> key_of r j = Some k \<Longrightarrow> i = j"
  using agree by (metis option.inject)

lemma remove_frees:
  assumes "wf r"
  shows "owner (remove i r) k = (if owner r k = Some i then None else owner r k)"
proof -
  have eq: "owner (remove i r) k = Some j \<longleftrightarrow> owner r k = Some j \<and> j \<noteq> i" for j
    using agree [OF remove_wf [OF assms]] agree [OF assms] by (simp add: remove_key)
  show ?thesis
  proof (cases "owner r k")
    case None
    with eq have "\<And>j. owner (remove i r) k \<noteq> Some j" by simp
    with None show ?thesis by (cases "owner (remove i r) k") auto
  next
    case (Some j)
    then show ?thesis using eq by (metis not_Some_eq option.inject)
  qed
qed

end

text \<open>Two maps that are inverse to each other, under the updates the registries make.\<close>

definition inverse_maps :: "('k \<rightharpoonup> 'i) \<Rightarrow> ('i \<rightharpoonup> 'k) \<Rightarrow> bool" where
  "inverse_maps f g \<longleftrightarrow> (\<forall>k i. f k = Some i \<longleftrightarrow> g i = Some k)"

lemma inverse_mapsD: "inverse_maps f g \<Longrightarrow> f k = Some i \<longleftrightarrow> g i = Some k"
  by (simp add: inverse_maps_def)

lemma inverse_maps_remove: "inverse_maps f g \<Longrightarrow> g i = Some k \<Longrightarrow> inverse_maps (f(k := None)) (g(i := None))"
  unfolding inverse_maps_def fun_upd_apply by (metis option.distinct(1) option.inject)

lemma inverse_maps_insert: "inverse_maps f g \<Longrightarrow> f k = None \<Longrightarrow> g i = None \<Longrightarrow> inverse_maps (f(k \<mapsto> i)) (g(i \<mapsto> k))"
  unfolding inverse_maps_def fun_upd_apply by (metis option.distinct(1) option.inject)

lemma inverse_maps_replace:
  assumes "inverse_maps f g" and "f k = None"
  shows "inverse_maps ((case g i of None \<Rightarrow> f | Some old \<Rightarrow> f(old := None))(k \<mapsto> i)) (g(i \<mapsto> k))"
proof (cases "g i")
  case None
  then show ?thesis using inverse_maps_insert [OF assms None] by simp
next
  case (Some old)
  have "inverse_maps ((f(old := None))(k \<mapsto> i)) ((g(i := None))(i \<mapsto> k))"
    using inverse_maps_insert [OF inverse_maps_remove [OF assms(1) Some], of k i] assms(2) by simp
  then show ?thesis using Some by simp
qed

subsection \<open>Track aliases\<close>

datatype track_origin = OriginSubscribe u64 | OriginPublish u64

fun origin_request_id :: "track_origin \<Rightarrow> u64" where
  "origin_request_id (OriginSubscribe i) = i"
| "origin_request_id (OriginPublish i) = i"

record track_alias_registry =
  ta_by_alias :: "u64 \<rightharpoonup> track_origin"
  ta_by_request_id :: "u64 \<rightharpoonup> u64"

definition alias_registry_new :: track_alias_registry where
  "alias_registry_new = \<lparr>ta_by_alias = Map.empty, ta_by_request_id = Map.empty\<rparr>"

definition contains_alias :: "track_alias_registry \<Rightarrow> u64 \<Rightarrow> bool" where
  "contains_alias r alias = (ta_by_alias r alias \<noteq> None)"

definition alias_get :: "track_alias_registry \<Rightarrow> u64 \<Rightarrow> track_origin option" where
  "alias_get r alias = ta_by_alias r alias"

definition alias_insert :: "u64 \<Rightarrow> track_origin \<Rightarrow> track_alias_registry \<Rightarrow> (unit + unit) \<times> track_alias_registry" where
  "alias_insert alias origin r =
     (if ta_by_alias r alias \<noteq> None then (Inl (), r)
      else
        let old = ta_by_request_id r (origin_request_id origin);
            by_alias = (case old of None \<Rightarrow> ta_by_alias r | Some a \<Rightarrow> (ta_by_alias r)(a := None)) in
        (Inr (), \<lparr>ta_by_alias = by_alias(alias \<mapsto> origin), ta_by_request_id = (ta_by_request_id r)(origin_request_id origin \<mapsto> alias)\<rparr>))"

definition alias_remove_by_request_id :: "u64 \<Rightarrow> track_alias_registry \<Rightarrow> track_origin option \<times> track_alias_registry" where
  "alias_remove_by_request_id i r =
     (case ta_by_request_id r i of
        None \<Rightarrow> (None, r)
      | Some alias \<Rightarrow>
          (ta_by_alias r alias, \<lparr>ta_by_alias = (ta_by_alias r)(alias := None), ta_by_request_id = (ta_by_request_id r)(i := None)\<rparr>))"

definition alias_owner :: "track_alias_registry \<Rightarrow> u64 \<Rightarrow> u64 option" where
  "alias_owner r alias = map_option origin_request_id (ta_by_alias r alias)"

definition alias_registry_wf :: "track_alias_registry \<Rightarrow> bool" where
  "alias_registry_wf r \<longleftrightarrow> inverse_maps (alias_owner r) (ta_by_request_id r)"

lemma alias_owner_insert:
  assumes "ta_by_alias r a = None"
  shows "alias_owner (snd (alias_insert a og r)) =
    (case ta_by_request_id r (origin_request_id og) of None \<Rightarrow> alias_owner r | Some old \<Rightarrow> (alias_owner r)(old := None))
      (a \<mapsto> origin_request_id og)"
  using assms by (auto simp: alias_owner_def alias_insert_def Let_def fun_eq_iff split: option.split)

lemma alias_insert_wf: "alias_registry_wf r \<Longrightarrow> alias_registry_wf (snd (alias_insert a og r))"
proof (cases "ta_by_alias r a")
  case None
  assume "alias_registry_wf r"
  then have "inverse_maps (alias_owner r) (ta_by_request_id r)" by (simp add: alias_registry_wf_def)
  then have "inverse_maps (alias_owner (snd (alias_insert a og r))) ((ta_by_request_id r)(origin_request_id og \<mapsto> a))"
    unfolding alias_owner_insert [OF None] by (rule inverse_maps_replace) (simp add: None alias_owner_def)
  moreover have "ta_by_request_id (snd (alias_insert a og r)) = (ta_by_request_id r)(origin_request_id og \<mapsto> a)"
    using None by (simp add: alias_insert_def Let_def)
  ultimately show ?thesis by (simp add: alias_registry_wf_def)
qed (simp add: alias_insert_def)

lemma alias_remove_wf: "alias_registry_wf r \<Longrightarrow> alias_registry_wf (snd (alias_remove_by_request_id i r))"
proof (cases "ta_by_request_id r i")
  case (Some a)
  assume "alias_registry_wf r"
  then have "inverse_maps ((alias_owner r)(a := None)) ((ta_by_request_id r)(i := None))"
    unfolding alias_registry_wf_def by (rule inverse_maps_remove) (rule Some)
  moreover have "alias_owner (snd (alias_remove_by_request_id i r)) = (alias_owner r)(a := None)"
    by (auto simp: alias_owner_def alias_remove_by_request_id_def Some)
  ultimately show ?thesis by (simp add: alias_registry_wf_def alias_remove_by_request_id_def Some)
qed (simp add: alias_remove_by_request_id_def)

lemma alias_remove_key: "ta_by_request_id (snd (alias_remove_by_request_id i r)) = (ta_by_request_id r)(i := None)"
  by (auto simp: alias_remove_by_request_id_def split: option.split)

interpretation aliases: request_registry alias_owner ta_by_request_id
  "\<lambda>i r. snd (alias_remove_by_request_id i r)" alias_registry_wf
  by unfold_locales (simp add: alias_registry_wf_def inverse_mapsD, rule alias_remove_wf, assumption, rule alias_remove_key)

subsection \<open>Track names\<close>

record name_registry =
  nr_by_name :: "full_track_name \<rightharpoonup> u64"
  nr_by_request_id :: "u64 \<rightharpoonup> full_track_name"

definition name_registry_new :: name_registry where
  "name_registry_new = \<lparr>nr_by_name = Map.empty, nr_by_request_id = Map.empty\<rparr>"

definition contains_name :: "name_registry \<Rightarrow> full_track_name \<Rightarrow> bool" where
  "contains_name r name = (nr_by_name r name \<noteq> None)"

definition name_insert :: "full_track_name \<Rightarrow> u64 \<Rightarrow> name_registry \<Rightarrow> name_registry" where
  "name_insert name i r =
     (let by_name = (case nr_by_request_id r i of None \<Rightarrow> nr_by_name r | Some old \<Rightarrow> (nr_by_name r)(old := None));
          by_id = (nr_by_request_id r)(i \<mapsto> name);
          by_id = (case by_name name of None \<Rightarrow> by_id | Some old \<Rightarrow> by_id(old := None)) in
      \<lparr>nr_by_name = by_name(name \<mapsto> i), nr_by_request_id = by_id\<rparr>)"

definition name_remove_by_request_id :: "u64 \<Rightarrow> name_registry \<Rightarrow> full_track_name option \<times> name_registry" where
  "name_remove_by_request_id i r =
     (case nr_by_request_id r i of
        None \<Rightarrow> (None, r)
      | Some name \<Rightarrow>
          (Some name, \<lparr>nr_by_name = (nr_by_name r)(name := None), nr_by_request_id = (nr_by_request_id r)(i := None)\<rparr>))"

definition name_registry_wf :: "name_registry \<Rightarrow> bool" where
  "name_registry_wf r \<longleftrightarrow> inverse_maps (nr_by_name r) (nr_by_request_id r)"

lemma name_insert_wf: "name_registry_wf r \<Longrightarrow> \<not> contains_name r n \<Longrightarrow> name_registry_wf (name_insert n i r)"
  using inverse_maps_replace [of "nr_by_name r" "nr_by_request_id r" n i]
  by (auto simp: name_registry_wf_def name_insert_def contains_name_def Let_def split: option.splits)

lemma name_remove_wf: "name_registry_wf r \<Longrightarrow> name_registry_wf (snd (name_remove_by_request_id i r))"
  using inverse_maps_remove [of "nr_by_name r" "nr_by_request_id r" i]
  by (auto simp: name_registry_wf_def name_remove_by_request_id_def split: option.splits)

lemma name_remove_key: "nr_by_request_id (snd (name_remove_by_request_id i r)) = (nr_by_request_id r)(i := None)"
  by (auto simp: name_remove_by_request_id_def split: option.split)

lemma name_insert_key:
  "\<not> contains_name r n \<Longrightarrow> nr_by_request_id (name_insert n i r) = (nr_by_request_id r)(i \<mapsto> n)"
  by (auto simp: name_insert_def contains_name_def Let_def split: option.splits)

interpretation names: request_registry nr_by_name nr_by_request_id
  "\<lambda>i r. snd (name_remove_by_request_id i r)" name_registry_wf
  by unfold_locales (simp add: name_registry_wf_def inverse_mapsD, rule name_remove_wf, assumption, rule name_remove_key)

section \<open>Handles of requests\<close>

subsection \<open>FETCH\<close>

record 'e fetch_state =
  fs_reader :: "'e reader option"
  fs_ok :: "fetch_ok option"
  fs_request_error :: "request_error option"
  fs_closed :: "serve_error option"
  fs_stream_received :: bool
  fs_cancel_sent :: bool

definition fetch_state_default :: "'e fetch_state" where
  "fetch_state_default = \<lparr>fs_reader = None, fs_ok = None, fs_request_error = None, fs_closed = None,
     fs_stream_received = False, fs_cancel_sent = False\<rparr>"

record 'e fetch_recv =
  fr_state :: "'e fetch_state watched"
  fr_start :: location

definition fetch_new :: "fetch \<Rightarrow> 'e fetch_recv" where
  "fetch_new request =
     \<lparr>fr_state = watched_new fetch_state_default,
      fr_start = (case ft_standalone_fetch request of Some f \<Rightarrow> sfe_start_location f | None \<Rightarrow> Location_new 0 0)\<rparr>"

definition fetch_ok_round :: "'e fetch_state watched \<Rightarrow> (serve_error + fetch_ok) round" where
  "fetch_ok_round s =
     (case fs_closed (w_value s) of
        Some e \<Rightarrow> Ready (Inl e)
      | None \<Rightarrow>
          (case fs_ok (w_value s) of
             Some ok \<Rightarrow> Ready (Inr ok)
           | None \<Rightarrow> (case modified s of Some epoch \<Rightarrow> Wait epoch | None \<Rightarrow> Ready (Inl SDone))))"

text \<open>\<^verbatim>\<open>ensure_reader\<close>: one round; the stream's reader moves to the application once it is there.\<close>

definition ensure_reader_round :: "'e fetch_state watched \<Rightarrow> (serve_error + 'e reader option) round \<times> 'e fetch_state watched" where
  "ensure_reader_round s =
     (case fs_closed (w_value s) of
        Some e \<Rightarrow> (Ready (Inl e), s)
      | None \<Rightarrow>
          if fs_reader (w_value s) \<noteq> None then
            (case with_mut (\<lambda>v. v\<lparr>fs_reader := None\<rparr>) s of
               None \<Rightarrow> (Ready (Inr None), s)
             | Some (_, s') \<Rightarrow> (Ready (Inr (fs_reader (w_value s))), s'))
          else (case modified s of Some epoch \<Rightarrow> (Wait epoch, s) | None \<Rightarrow> (Ready (Inl SDone), s)))"

definition fetch_wait_closed_round :: "'e fetch_state watched \<Rightarrow> serve_error round" where
  "fetch_wait_closed_round s =
     (case fs_closed (w_value s) of
        Some e \<Rightarrow> Ready e
      | None \<Rightarrow> (case modified s of Some epoch \<Rightarrow> Wait epoch | None \<Rightarrow> Ready SDone))"

definition fetch_recv_ok :: "fetch_ok \<Rightarrow> 'e fetch_recv \<Rightarrow> (serve_error + unit) \<times> 'e fetch_recv" where
  "fetch_recv_ok ok fr =
     (if \<not> w_open (fr_state fr) then (Inl SDone, fr)
      else if fs_ok (w_value (fr_state fr)) \<noteq> None then (Inl SDuplicate, fr\<lparr>fr_state := snd (notify (fr_state fr))\<rparr>)
      else
        case with_mut (\<lambda>v. v\<lparr>fs_ok := Some ok\<rparr>) (fr_state fr) of
          None \<Rightarrow> (Inl SDone, fr)
        | Some (_, s) \<Rightarrow> (Inr (), fr\<lparr>fr_state := s\<rparr>))"

definition fetch_recv_error :: "request_error \<Rightarrow> 'e fetch_recv \<Rightarrow> 'e fetch_recv" where
  "fetch_recv_error err fr =
     (case with_mut (\<lambda>v. v\<lparr>fs_request_error := Some err, fs_closed := Some (SClosed (rerr_error_code err))\<rparr>) (fr_state fr) of
        None \<Rightarrow> fr
      | Some (_, s) \<Rightarrow> fr\<lparr>fr_state := s\<rparr>)"

text \<open>Whether a FETCH_CANCEL is to be sent.\<close>

definition fetch_recv_timeout :: "serve_error \<Rightarrow> 'e fetch_recv \<Rightarrow> bool \<times> 'e fetch_recv" where
  "fetch_recv_timeout err fr =
     (case with_mut (\<lambda>v. v\<lparr>fs_closed := Some err, fs_cancel_sent := True\<rparr>) (fr_state fr) of
        None \<Rightarrow> (False, fr)
      | Some (_, s) \<Rightarrow> (\<not> fs_cancel_sent (w_value (fr_state fr)), fr\<lparr>fr_state := s\<rparr>))"

definition fetch_recv_stream :: "'e reader \<Rightarrow> 'e fetch_recv \<Rightarrow> (serve_error + unit) \<times> 'e fetch_recv" where
  "fetch_recv_stream rd fr =
     (if \<not> w_open (fr_state fr) then (Inl SDone, fr)
      else if fs_stream_received (w_value (fr_state fr)) then (Inl SDuplicate, fr\<lparr>fr_state := snd (notify (fr_state fr))\<rparr>)
      else
        case with_mut (\<lambda>v. v\<lparr>fs_stream_received := True, fs_reader := Some rd\<rparr>) (fr_state fr) of
          None \<Rightarrow> (Inl SDone, fr)
        | Some (_, s) \<Rightarrow> (Inr (), fr\<lparr>fr_state := s\<rparr>))"

text \<open>\<^verbatim>\<open>Drop for Fetch\<close>: whether it sends FETCH_CANCEL, given whether the stream was read to its end.\<close>

definition fetch_drop_cancels :: "bool \<Rightarrow> 'e fetch_state watched \<Rightarrow> bool" where
  "fetch_drop_cancels stream_done s \<longleftrightarrow>
     w_open s \<and> \<not> (stream_done \<and> fs_ok (w_value s) \<noteq> None) \<and> fs_closed (w_value s) = None \<and> \<not> fs_cancel_sent (w_value s)"

subsection \<open>Inbound PUBLISH_NAMESPACE\<close>

record published_namespace =
  pnh_request_id :: u64
  pnh_namespace :: track_namespace
  pnh_ok :: bool
  pnh_error :: "serve_error option"

definition published_namespace_new :: "u64 \<Rightarrow> track_namespace \<Rightarrow> published_namespace" where
  "published_namespace_new i ns = \<lparr>pnh_request_id = i, pnh_namespace = ns, pnh_ok = False, pnh_error = None\<rparr>"

definition published_namespace_ok :: "published_namespace \<Rightarrow> (serve_error + message) \<times> published_namespace" where
  "published_namespace_ok h =
     (if pnh_ok h then (Inl SDuplicate, h)
      else (Inr (RequestOk \<lparr>rok_id = pnh_request_id h, rok_params = []\<rparr>), h\<lparr>pnh_ok := True\<rparr>))"

definition published_namespace_close :: "serve_error \<Rightarrow> published_namespace \<Rightarrow> published_namespace" where
  "published_namespace_close err h = h\<lparr>pnh_error := Some err\<rparr>"

text \<open>\<^verbatim>\<open>Drop\<close>: the message it sends, unless the publisher was done first.\<close>

definition published_namespace_drop ::
    "(serve_error \<Rightarrow> rust_string) \<Rightarrow> bool \<Rightarrow> published_namespace \<Rightarrow> message option" where
  "published_namespace_drop show_err finished h =
     (let err = unwrap_or (pnh_error h) SDone in
      if finished then None
      else if pnh_ok h then
        Some (PublishNamespaceCancel \<lparr>pnc_id = pnh_request_id h, pnc_error_code = serve_error_code err, pnc_reason_phrase = show_err err\<rparr>)
      else
        Some (RequestError \<lparr>rerr_id = pnh_request_id h, rerr_error_code = request_error_code_value ReqUninterested,
          rerr_retry_interval = 0, rerr_reason = show_err err\<rparr>))"

section \<open>State\<close>

text \<open>What both roles of a session share; \<open>sc_now\<close> is the clock the response deadlines use.\<close>

record session_core =
  sc_outgoing :: "message queue"
  sc_send_ids :: send_ids
  sc_recv_ids :: recv_ids
  sc_pending :: pending_requests
  sc_now :: nat

text \<open>
  The role itself. \<open>sb_sub_closed\<close> and \<open>sb_fetch_closed\<close> keep, for the application's handles, the
  states whose receiving half is gone; \<open>sb_pn_done\<close> are the announcements the peer has withdrawn.
\<close>

record 'e subscriber =
  sb_published_namespaces :: "(track_namespace \<times> u64) list"
  sb_pn_done :: "u64 set"
  sb_published_namespace_queue :: "published_namespace queue"
  sb_subscribes :: "u64 \<rightharpoonup> subscribe_recv"
  sb_sub_closed :: "u64 \<rightharpoonup> subscribe_state watched"
  sb_track_statuses :: "u64 set"
  sb_fetches :: "u64 \<rightharpoonup> 'e fetch_recv"
  sb_fetch_closed :: "u64 \<rightharpoonup> 'e fetch_state watched"
  sb_aliases :: track_alias_registry
  sb_publishes_received :: "u64 \<rightharpoonup> publish_received_recv"
  sb_publish_received_queue :: "publish_received queue"
  sb_subscribe_namespaces :: "(u64 \<times> track_namespace_prefix) list"
  sb_names :: name_registry
  sb_store :: mirror_store

definition mirror_store_new :: mirror_store where
  "mirror_store_new = \<lparr>mi_serve = \<lparr>sv_tracks = [], sv_streams = [], sv_subgroups = [], sv_datagrams = []\<rparr>, mi_subgroups = []\<rparr>"

definition subscriber_new :: "'e subscriber" where
  "subscriber_new =
     \<lparr>sb_published_namespaces = [], sb_pn_done = {}, sb_published_namespace_queue = queue_new, sb_subscribes = Map.empty,
      sb_sub_closed = Map.empty, sb_track_statuses = {}, sb_fetches = Map.empty, sb_fetch_closed = Map.empty,
      sb_aliases = alias_registry_new, sb_publishes_received = Map.empty, sb_publish_received_queue = queue_new,
      sb_subscribe_namespaces = [], sb_names = name_registry_new, sb_store = mirror_store_new\<rparr>"

definition push_outgoing :: "message \<Rightarrow> session_core \<Rightarrow> session_core" where
  "push_outgoing msg c = c\<lparr>sc_outgoing := snd (snd (queue_push msg (sc_outgoing c)))\<rparr>"

text \<open>Shared by both roles: \<^verbatim>\<open>get_next_request_id\<close>.\<close>

definition get_next_request_id :: "session_core \<Rightarrow> ('e session_error + u64) \<times> session_core" where
  "get_next_request_id c =
     (case allocate (sc_send_ids c) of
        (Inl e, s) \<Rightarrow> (Inl e, c\<lparr>sc_send_ids := s\<rparr>)
      | (Inr (Allocated i), s) \<Rightarrow> (Inr i, c\<lparr>sc_send_ids := s\<rparr>)
      | (Inr blocked, s) \<Rightarrow>
          let c = c\<lparr>sc_send_ids := s\<rparr> in
          (Inl SeTooManyRequests,
           (case requests_blocked_msg blocked of None \<Rightarrow> c | Some m \<Rightarrow> push_outgoing (RequestsBlocked m) c)))"

definition drop_publish_namespace :: "u64 \<Rightarrow> 'e subscriber \<Rightarrow> u64 option \<times> 'e subscriber" where
  "drop_publish_namespace i sb =
     (case find (\<lambda>(_, v). v = i) (sb_published_namespaces sb) of
        None \<Rightarrow> (None, sb)
      | Some (key, v) \<Rightarrow>
          (Some v, sb\<lparr>sb_published_namespaces := filter (\<lambda>(k, _). k \<noteq> key) (sb_published_namespaces sb)\<rparr>))"

type_synonym 'e sub_st = "session_core \<times> 'e subscriber"

definition sub_send_message :: "message \<Rightarrow> 'e sub_st \<Rightarrow> 'e sub_st" where
  "sub_send_message msg st =
     (case st of (c, sb) \<Rightarrow>
        (push_outgoing msg c,
         (case msg of PublishNamespaceCancel m \<Rightarrow> snd (drop_publish_namespace (pnc_id m) sb) | _ \<Rightarrow> sb)))"

definition send_opt :: "message option \<Rightarrow> 'e sub_st \<Rightarrow> 'e sub_st" where
  "send_opt m st = (case m of None \<Rightarrow> st | Some msg \<Rightarrow> sub_send_message msg st)"

definition drop_track_status :: "u64 \<Rightarrow> 'e subscriber \<Rightarrow> bool \<times> 'e subscriber" where
  "drop_track_status i sb = (i \<in> sb_track_statuses sb, sb\<lparr>sb_track_statuses := sb_track_statuses sb - {i}\<rparr>)"

definition with_store :: "(serve_store \<Rightarrow> serve_store) \<Rightarrow> 'e subscriber \<Rightarrow> 'e subscriber" where
  "with_store f sb = sb\<lparr>sb_store := (sb_store sb)\<lparr>mi_serve := f (mi_serve (sb_store sb))\<rparr>\<rparr>"

section \<open>Operations of the application\<close>

definition track_status_request :: "track_namespace \<Rightarrow> track_name \<Rightarrow> 'e sub_st \<Rightarrow> 'e sub_st" where
  "track_status_request ns name st =
     (case st of (c, sb) \<Rightarrow>
        case (get_next_request_id c :: (unit session_error + u64) \<times> session_core) of
          (Inl _, c) \<Rightarrow> (c, sb)
        | (Inr i, c) \<Rightarrow>
            sub_send_message (TrackStatus \<lparr>ts_id = i, ts_track_namespace = ns, ts_track_name = name, ts_params = []\<rparr>)
              (c, sb\<lparr>sb_track_statuses := insert i (sb_track_statuses sb)\<rparr>))"

text \<open>
  \<^verbatim>\<open>subscribe_open\<close> until it waits for the answer, on the writer of track \<^verbatim>\<open>t\<close>: the request id the
  handle stands for. A refused call drops the writer it was given.
\<close>

definition subscribe_open :: "nat \<Rightarrow> 'e sub_st \<Rightarrow> (serve_error + u64) \<times> 'e sub_st" where
  "subscribe_open t st =
     (case st of (c, sb) \<Rightarrow>
        let full = tc_name (sv_tracks (mi_serve (sb_store sb)) ! t) in
        case (get_next_request_id c :: (unit session_error + u64) \<times> session_core) of
          (Inl _, c) \<Rightarrow> (Inl SInternalWithId, c, with_store (drop_track_writer t) sb)
        | (Inr i, c) \<Rightarrow>
            if contains_name (sb_names sb) full then (Inl SDuplicate, c, with_store (drop_track_writer t) sb)
            else
              let names = name_insert full i (sb_names sb) in
              case (pr_insert (sc_now c) i PendSubscribe (sc_pending c) :: (unit session_error + unit) \<times> pending_requests) of
                (Inl _, p) \<Rightarrow>
                  (Inl SInternalWithId, c\<lparr>sc_pending := p\<rparr>,
                   with_store (drop_track_writer t) (sb\<lparr>sb_names := snd (name_remove_by_request_id i names)\<rparr>))
              | (Inr _, p) \<Rightarrow>
                  (Inr i, sub_send_message
                     (Subscribe \<lparr>sub_id = i, sub_track_namespace = ftn_namespace full, sub_track_name = ftn_name full, sub_params = []\<rparr>)
                     (c\<lparr>sc_pending := p\<rparr>,
                      sb\<lparr>sb_names := names, sb_subscribes := (sb_subscribes sb)(i \<mapsto>
                        \<lparr>sr_state = watched_new subscribe_state_default, sr_writer = Some (WTrack t)\<rparr>)\<rparr>)))"

definition remove_subscribe :: "u64 \<Rightarrow> 'e sub_st \<Rightarrow> subscribe_recv option \<times> 'e sub_st" where
  "remove_subscribe i st =
     (case st of (c, sb) \<Rightarrow>
        (sb_subscribes sb i,
         c\<lparr>sc_pending := snd (pr_remove i (sc_pending c))\<rparr>,
         sb\<lparr>sb_subscribes := (sb_subscribes sb)(i := None), sb_aliases := snd (alias_remove_by_request_id i (sb_aliases sb)),
            sb_names := snd (name_remove_by_request_id i (sb_names sb))\<rparr>))"

text \<open>A receiver that goes out of scope with its writer; the state stays with the application's handle.\<close>

definition drop_subscribe_recv :: "u64 \<Rightarrow> subscribe_recv \<Rightarrow> 'e subscriber \<Rightarrow> 'e subscriber" where
  "drop_subscribe_recv i sr sb =
     with_store (case sr_writer sr of None \<Rightarrow> id | Some m \<Rightarrow> mode_drop m)
       (sb\<lparr>sb_sub_closed := (sb_sub_closed sb)(i \<mapsto> snd (drop_half (sr_state sr)))\<rparr>)"

text \<open>\<^verbatim>\<open>Drop for Subscribe\<close>.\<close>

definition subscribe_drop :: "u64 \<Rightarrow> 'e sub_st \<Rightarrow> 'e sub_st" where
  "subscribe_drop i st =
     (case remove_subscribe i (sub_send_message (Unsubscribe \<lparr>unsub_id = i\<rparr>) st) of
        (None, c, sb) \<Rightarrow> (c, sb)
      | (Some sr, c, sb) \<Rightarrow> (c, drop_subscribe_recv i sr sb))"

definition subscribe_error :: "u64 \<Rightarrow> subscribe_recv \<Rightarrow> serve_error \<Rightarrow> 'e subscriber \<Rightarrow> (serve_error + unit) \<times> 'e subscriber" where
  "subscribe_error i sr err sb =
     (case subscribe_recv_error err (sr, mi_serve (sb_store sb)) of (res, s, sv) \<Rightarrow>
        (res, with_store (\<lambda>_. sv) (sb\<lparr>sb_sub_closed := (sb_sub_closed sb)(i \<mapsto> s)\<rparr>)))"

text \<open>\<^verbatim>\<open>location_less\<close> compares as the source's derived order does.\<close>

definition fetch_open :: "standalone_fetch \<Rightarrow> kvps \<Rightarrow> 'e sub_st \<Rightarrow> (serve_error + u64) \<times> 'e sub_st" where
  "fetch_open standalone params st =
     (case st of (c, sb) \<Rightarrow>
        if sfe_start_location standalone \<noteq> sfe_end_location standalone \<and>
           location_less (inclusive_end (sfe_end_location standalone)) (sfe_start_location standalone) then (Inl SSize, c, sb)
        else
          case (get_next_request_id c :: ('e session_error + u64) \<times> session_core) of
            (Inl e, c) \<Rightarrow> (Inl (serve_error_from_session e), c, sb)
          | (Inr i, c) \<Rightarrow>
              (case (pr_insert (sc_now c) i PendFetch (sc_pending c) :: ('e session_error + unit) \<times> pending_requests) of
                 (Inl e, p) \<Rightarrow> (Inl (serve_error_from_session e), c\<lparr>sc_pending := p\<rparr>, sb)
               | (Inr _, p) \<Rightarrow>
                   let request = \<lparr>ft_id = i, ft_fetch_type = Standalone, ft_standalone_fetch = Some standalone,
                         ft_joining_fetch = None, ft_params = params\<rparr> in
                   (Inr i, sub_send_message (Fetch request)
                      (c\<lparr>sc_pending := p\<rparr>, sb\<lparr>sb_fetches := (sb_fetches sb)(i \<mapsto> fetch_new request)\<rparr>))))"

definition remove_fetch :: "u64 \<Rightarrow> 'e sub_st \<Rightarrow> 'e sub_st" where
  "remove_fetch i st =
     (case st of (c, sb) \<Rightarrow> (c\<lparr>sc_pending := snd (pr_remove i (sc_pending c))\<rparr>, sb\<lparr>sb_fetches := (sb_fetches sb)(i := None)\<rparr>))"

text \<open>The shared state of a FETCH, with its receiver or without.\<close>

definition fetch_state_of :: "u64 \<Rightarrow> 'e subscriber \<Rightarrow> 'e fetch_state watched option" where
  "fetch_state_of i sb = (case sb_fetches sb i of Some fr \<Rightarrow> Some (fr_state fr) | None \<Rightarrow> sb_fetch_closed sb i)"

definition fetch_drop :: "bool \<Rightarrow> u64 \<Rightarrow> 'e sub_st \<Rightarrow> 'e sub_st" where
  "fetch_drop stream_done i st =
     remove_fetch i
       (if (case fetch_state_of i (snd st) of None \<Rightarrow> False | Some s \<Rightarrow> fetch_drop_cancels stream_done s)
        then sub_send_message (FetchCancel \<lparr>fc_id = i\<rparr>) st else st)"

definition remove_publish_received :: "u64 \<Rightarrow> 'e subscriber \<Rightarrow> 'e subscriber" where
  "remove_publish_received i sb =
     with_store (case sb_publishes_received sb i of
         Some prr \<Rightarrow> (case prr_writer prr of None \<Rightarrow> id | Some m \<Rightarrow> mode_drop m) | None \<Rightarrow> id)
       (sb\<lparr>sb_publishes_received := (sb_publishes_received sb)(i := None),
           sb_aliases := snd (alias_remove_by_request_id i (sb_aliases sb)),
           sb_names := snd (name_remove_by_request_id i (sb_names sb))\<rparr>)"

definition publish_received_dropped :: "publish_received \<Rightarrow> 'e sub_st \<Rightarrow> 'e sub_st" where
  "publish_received_dropped pr st =
     (case publish_received_drop pr of
        None \<Rightarrow> st
      | Some msg \<Rightarrow> (case sub_send_message msg st of (c, sb) \<Rightarrow> (c, remove_publish_received (pr_request_id pr) sb)))"

definition published_namespace_dropped :: "(serve_error \<Rightarrow> rust_string) \<Rightarrow> published_namespace \<Rightarrow> 'e sub_st \<Rightarrow> 'e sub_st" where
  "published_namespace_dropped show_err h st =
     send_opt (published_namespace_drop show_err (pnh_request_id h \<in> sb_pn_done (snd st)) h) st"

text \<open>\<^verbatim>\<open>subscribe_namespace\<close>: the registration before the request stream is opened, and its undoing.\<close>

definition subscribe_namespace_begin :: "track_namespace_prefix \<Rightarrow> 'e sub_st \<Rightarrow> ('e session_error + u64) \<times> 'e sub_st" where
  "subscribe_namespace_begin pre st =
     (case st of (c, sb) \<Rightarrow>
        case get_next_request_id c of
          (Inl e, c) \<Rightarrow> (Inl e, c, sb)
        | (Inr i, c) \<Rightarrow>
            if list_ex (\<lambda>(_, existing). overlaps existing pre) (sb_subscribe_namespaces sb)
            then (Inl (SeServe SDuplicate), c, sb)
            else (Inr i, c, sb\<lparr>sb_subscribe_namespaces := sb_subscribe_namespaces sb @ [(i, pre)]\<rparr>))"

definition remove_subscribe_namespace :: "u64 \<Rightarrow> 'e subscriber \<Rightarrow> 'e subscriber" where
  "remove_subscribe_namespace i sb =
     sb\<lparr>sb_subscribe_namespaces := filter (\<lambda>(k, _). k \<noteq> i) (sb_subscribe_namespaces sb)\<rparr>"

section \<open>Messages from the publisher\<close>

definition serve_err :: "serve_error + unit \<Rightarrow> 'e session_error + unit" where
  "serve_err r = (case r of Inl e \<Rightarrow> Inl (SeServe e) | Inr _ \<Rightarrow> Inr ())"

definition recv_fetch_ok :: "fetch_ok \<Rightarrow> 'e sub_st \<Rightarrow> ('e session_error + unit) \<times> 'e sub_st" where
  "recv_fetch_ok msg st =
     (case st of (c, sb) \<Rightarrow>
        case validate_message_parameter_types (fok_params msg) of
          Inl e \<Rightarrow> (Inl (SeDecode e), c, sb)
        | Inr _ \<Rightarrow>
            if (case sb_fetches sb (fok_id msg) of
                  Some fr \<Rightarrow> fok_end_location msg \<noteq> fr_start fr \<and> location_less (inclusive_end (fok_end_location msg)) (fr_start fr)
                | None \<Rightarrow> False)
            then (Inl SeProtocolViolation, c, sb)
            else
              case pr_complete (fok_id msg) RespFetchOk (sc_pending c) of
                (Inl e, p) \<Rightarrow> (Inl e, c\<lparr>sc_pending := p\<rparr>, sb)
              | (Inr request, p) \<Rightarrow>
                  let c = c\<lparr>sc_pending := p\<rparr> in
                  if request \<noteq> Some PendFetch then
                    ((if sb_fetches sb (fok_id msg) \<noteq> None then Inl SeProtocolViolation else Inr ()), c, sb)
                  else
                    case sb_fetches sb (fok_id msg) of
                      None \<Rightarrow> (Inr (), c, sb)
                    | Some fr \<Rightarrow>
                        (case fetch_recv_ok msg fr of
                           (res, fr) \<Rightarrow> (serve_err res, c, sb\<lparr>sb_fetches := (sb_fetches sb)(fok_id msg \<mapsto> fr)\<rparr>)))"

definition recv_publish_namespace ::
    "(serve_error \<Rightarrow> rust_string) \<Rightarrow> publish_namespace \<Rightarrow> 'e sub_st \<Rightarrow> ('e session_error + unit) \<times> 'e sub_st" where
  "recv_publish_namespace show_err msg st =
     (case st of (c, sb) \<Rightarrow>
        if map_of (sb_published_namespaces sb) (pns_track_namespace msg) \<noteq> None then (Inl SeDuplicate, c, sb)
        else
          let h = published_namespace_new (pns_id msg) (pns_track_namespace msg) in
          case queue_push h (sb_published_namespace_queue sb) of
            (Inl h, _, q) \<Rightarrow>
              (Inr (), published_namespace_dropped show_err (published_namespace_close SCancel h)
                 (c, sb\<lparr>sb_published_namespace_queue := q\<rparr>))
          | (Inr _, _, q) \<Rightarrow>
              (Inr (), c, sb\<lparr>sb_published_namespace_queue := q,
                 sb_published_namespaces := sb_published_namespaces sb @ [(pns_track_namespace msg, pns_id msg)]\<rparr>))"

definition recv_publish_namespace_done :: "publish_namespace_done \<Rightarrow> 'e sub_st \<Rightarrow> ('e session_error + unit) \<times> 'e sub_st" where
  "recv_publish_namespace_done msg st =
     (case st of (c, sb) \<Rightarrow>
        case drop_publish_namespace (pnd_id msg) sb of
          (None, sb) \<Rightarrow> (Inr (), c, sb)
        | (Some i, sb) \<Rightarrow> (Inr (), c, sb\<lparr>sb_pn_done := insert i (sb_pn_done sb)\<rparr>))"

text \<open>A window of zero groups is refused; a value of the wrong shape is ignored.\<close>

definition advertised_window :: "kvps \<Rightarrow> 'e session_error + u64 option" where
  "advertised_window params =
     (case kvps_get params SUBGROUP_HISTORY_GROUPS_PARAM of
        None \<Rightarrow> Inr None
      | Some k \<Rightarrow>
          (case kvp_val k of
             IntValue v \<Rightarrow> if v = 0 then Inl SeProtocolViolation else Inr (Some v)
           | BytesValue _ \<Rightarrow> Inr None))"

definition sub_recv_subscribe_ok :: "subscribe_ok \<Rightarrow> 'e sub_st \<Rightarrow> ('e session_error + unit) \<times> 'e sub_st" where
  "sub_recv_subscribe_ok msg st =
     (case st of (c, sb) \<Rightarrow>
        case sb_subscribes sb (sok_id msg) of
          None \<Rightarrow> (Inr (), c, sb)
        | Some sr \<Rightarrow>
            (case advertised_window (sok_params msg) of
               Inl e \<Rightarrow> (Inl e, c, sb)
             | Inr window \<Rightarrow>
                 if contains_alias (sb_aliases sb) (sok_track_alias msg) then (Inl SeDuplicate, c, sb)
                 else
                   case alias_insert (sok_track_alias msg) (OriginSubscribe (sok_id msg)) (sb_aliases sb) of
                     (Inl _, _) \<Rightarrow> (Inl SeDuplicate, c, sb)
                   | (Inr _, al) \<Rightarrow>
                       (case subscribe_recv_ok (sok_track_alias msg) window (sr, mi_serve (sb_store sb)) of
                          (res, sr, sv) \<Rightarrow>
                            (serve_err res, c, with_store (\<lambda>_. sv)
                               (sb\<lparr>sb_aliases := al, sb_subscribes := (sb_subscribes sb)(sok_id msg \<mapsto> sr)\<rparr>)))))"

definition reject_publish :: "u64 \<Rightarrow> request_error_code \<Rightarrow> string \<Rightarrow> message" where
  "reject_publish i code reason =
     RequestError \<lparr>rerr_id = i, rerr_error_code = request_error_code_value code, rerr_retry_interval = 0,
       rerr_reason = map of_char reason\<rparr>"

definition recv_publish :: "publish \<Rightarrow> 'e sub_st \<Rightarrow> ('e session_error + unit) \<times> 'e sub_st" where
  "recv_publish msg st =
     (if pub_track_extensions msg \<noteq> [] then
        (Inr (), sub_send_message (reject_publish (pub_id msg) ReqNotSupported ''track extensions not supported'') st)
      else
        let full = \<lparr>ftn_namespace = pub_track_namespace msg, ftn_name = pub_track_name msg\<rparr> in
        case decode_err (forward (pub_params msg)) of
          Inl e \<Rightarrow> (Inl e, st)
        | Inr fwd \<Rightarrow>
            (case decode_err (largest_object (pub_params msg)) of
               Inl e \<Rightarrow> (Inl e, st)
             | Inr largest \<Rightarrow>
                 (case st of (c, sb) \<Rightarrow>
                    if contains_name (sb_names sb) full then
                      (Inr (), sub_send_message (reject_publish (pub_id msg) ReqDuplicateSubscription ''duplicate subscription'') st)
                    else
                      let names = name_insert full (pub_id msg) (sb_names sb) in
                      case alias_insert (pub_track_alias msg) (OriginPublish (pub_id msg)) (sb_aliases sb) of
                        (Inl _, _) \<Rightarrow> (Inl SeDuplicate, c, sb\<lparr>sb_names := snd (name_remove_by_request_id (pub_id msg) names)\<rparr>)
                      | (Inr _, al) \<Rightarrow>
                          (case track_produce full (mi_serve (sb_store sb)) of (t, sv) \<Rightarrow>
                             let pr = \<lparr>pr_reader = Some t, pr_request_id = pub_id msg, pr_track_alias = pub_track_alias msg,
                                   pr_full_name = full, pr_initial_forward = unwrap_or fwd True, pr_largest_location = largest,
                                   pr_ok = False, pr_error = None\<rparr>;
                                 sb = with_store (\<lambda>_. sv) (sb\<lparr>sb_names := names, sb_aliases := al,
                                   sb_publishes_received := (sb_publishes_received sb)(pub_id msg \<mapsto>
                                     \<lparr>prr_state = watched_new publish_received_state_default, prr_writer = Some (WTrack t)\<rparr>)\<rparr>) in
                             case queue_push pr (sb_publish_received_queue sb) of
                               (Inl pr, _, q) \<Rightarrow> (Inr (), publish_received_dropped pr (c, sb\<lparr>sb_publish_received_queue := q\<rparr>))
                             | (Inr _, _, q) \<Rightarrow> (Inr (), c, sb\<lparr>sb_publish_received_queue := q\<rparr>)))))"

definition done_error :: "u64 \<Rightarrow> serve_error" where
  "done_error status_code = (if status_code = publish_done_code_value DoneTrackEnded then SDone else SClosed status_code)"

definition recv_publish_done :: "publish_done \<Rightarrow> 'e sub_st \<Rightarrow> ('e session_error + unit) \<times> 'e sub_st" where
  "recv_publish_done msg st =
     (case remove_subscribe (pdone_id msg) st of
        (Some sr, c, sb) \<Rightarrow>
          (case subscribe_error (pdone_id msg) sr (done_error (pdone_status_code msg)) sb of
             (res, sb) \<Rightarrow> (serve_err res, c, sb))
      | (None, c, sb) \<Rightarrow>
          (case sb_publishes_received sb (pdone_id msg) of
             None \<Rightarrow> (Inr (), c, sb)
           | Some prr \<Rightarrow>
               (case recv_done (pdone_status_code msg) (prr, mi_serve (sb_store sb)) of
                  (_, sv) \<Rightarrow>
                    (Inr (), c, with_store (\<lambda>_. sv)
                       (sb\<lparr>sb_publishes_received := (sb_publishes_received sb)(pdone_id msg := None),
                           sb_aliases := snd (alias_remove_by_request_id (pdone_id msg) (sb_aliases sb)),
                           sb_names := snd (name_remove_by_request_id (pdone_id msg) (sb_names sb))\<rparr>)))))"

definition sub_recv_request_ok :: "request_ok \<Rightarrow> 'e sub_st \<Rightarrow> ('e session_error + unit) \<times> 'e sub_st" where
  "sub_recv_request_ok msg st = (case st of (c, sb) \<Rightarrow> (Inr (), c, snd (drop_track_status (rok_id msg) sb)))"

definition take_fetch :: "u64 \<Rightarrow> 'e fetch_recv \<Rightarrow> 'e subscriber \<Rightarrow> 'e subscriber" where
  "take_fetch i fr sb =
     sb\<lparr>sb_fetches := (sb_fetches sb)(i := None),
        sb_fetch_closed := (sb_fetch_closed sb)(i \<mapsto> snd (drop_half (fr_state fr)))\<rparr>"

definition sub_recv_request_error :: "request_error \<Rightarrow> 'e sub_st \<Rightarrow> ('e session_error + unit) \<times> 'e sub_st" where
  "sub_recv_request_error msg st =
     (case st of (c, sb) \<Rightarrow>
        case sb_fetches sb (rerr_id msg) of
          Some fr \<Rightarrow> (Inr (), c, take_fetch (rerr_id msg) (fetch_recv_error msg fr) sb)
        | None \<Rightarrow>
            (case remove_subscribe (rerr_id msg) (c, sb) of
               (Some sr, c, sb) \<Rightarrow>
                 (case subscribe_error (rerr_id msg) sr (SClosed (rerr_error_code msg)) sb of (res, sb) \<Rightarrow> (serve_err res, c, sb))
             | (None, c, sb) \<Rightarrow> (Inr (), c, snd (drop_track_status (rerr_id msg) sb))))"

definition sub_recv_request_timeout :: "u64 \<Rightarrow> pending_request \<Rightarrow> 'e sub_st \<Rightarrow> ('e session_error + unit) \<times> 'e sub_st" where
  "sub_recv_request_timeout i request st =
     (case request of
        PendSubscribe \<Rightarrow>
          (case remove_subscribe i st of
             (Some sr, c, sb) \<Rightarrow> (case subscribe_error i sr SInternalWithId sb of (res, sb) \<Rightarrow> (serve_err res, c, sb))
           | (None, c, sb) \<Rightarrow> (Inr (), c, sb))
      | PendFetch \<Rightarrow>
          (case st of (c, sb) \<Rightarrow>
             case sb_fetches sb i of
               None \<Rightarrow> (Inr (), c, sb)
             | Some fr \<Rightarrow>
                 (case fetch_recv_timeout SInternalWithId fr of (cancel, fr) \<Rightarrow>
                    let st = (c, take_fetch i fr sb) in
                    (Inr (), (if cancel then sub_send_message (FetchCancel \<lparr>fc_id = i\<rparr>) st else st))))
      | _ \<Rightarrow> (Inl SeInternal, st))"

definition sub_recv_message :: "(serve_error \<Rightarrow> rust_string) \<Rightarrow> publisher_msg \<Rightarrow> 'e sub_st \<Rightarrow> ('e session_error + unit) \<times> 'e sub_st" where
  "sub_recv_message show_err msg =
     (case msg of
        PPublishNamespace m \<Rightarrow> recv_publish_namespace show_err m
      | PPublishNamespaceDone m \<Rightarrow> recv_publish_namespace_done m
      | PPublish m \<Rightarrow> recv_publish m
      | PPublishDone m \<Rightarrow> recv_publish_done m
      | PSubscribeOk m \<Rightarrow> sub_recv_subscribe_ok m
      | PRequestOk m \<Rightarrow> sub_recv_request_ok m
      | PRequestError m \<Rightarrow> sub_recv_request_error m
      | PFetchOk m \<Rightarrow> recv_fetch_ok m)"

section \<open>Data from the publisher\<close>

text \<open>
  \<^verbatim>\<open>get_track_origin_by_alias\<close>: the alias is looked up at once and, with a timeout, each time the
  registry changes until then. \<^verbatim>\<open>later\<close> are the registries as they are at those moments.
\<close>

definition get_track_origin_by_alias :: "u64 \<Rightarrow> track_alias_registry \<Rightarrow> track_alias_registry list \<Rightarrow> track_origin option" where
  "get_track_origin_by_alias alias now later =
     (case alias_get now alias of
        Some og \<Rightarrow> Some og
      | None \<Rightarrow> (case List.map_filter (\<lambda>r. alias_get r alias) later of [] \<Rightarrow> None | og # _ \<Rightarrow> Some og))"

text \<open>The closure of \<^verbatim>\<open>recv_subgroup\<close>; the number is the subgroup the writer belongs to.\<close>

definition recv_subgroup_writer ::
    "track_origin \<Rightarrow> ('e, 'e subscriber \<times> nat option) get_writer" where
  "recv_subgroup_writer origin header world =
     (case world of (sb, _) \<Rightarrow>
        case (case origin of
                OriginSubscribe i \<Rightarrow>
                  map_option (\<lambda>sr. (sr_writer sr, \<lambda>w sb. sb\<lparr>sb_subscribes := (sb_subscribes sb)(i \<mapsto> sr\<lparr>sr_writer := w\<rparr>)\<rparr>)) (sb_subscribes sb i)
              | OriginPublish i \<Rightarrow>
                  map_option (\<lambda>prr. (prr_writer prr, \<lambda>w sb. sb\<lparr>sb_publishes_received := (sb_publishes_received sb)(i \<mapsto> prr\<lparr>prr_writer := w\<rparr>)\<rparr>))
                    (sb_publishes_received sb i)) of
          None \<Rightarrow> (Inl (SeServe SNotFoundWithId), sb, None)
        | Some (w, put) \<Rightarrow>
            (case mirror_subgroup header (w, sb_store sb) of
               (Inl e, w, mi) \<Rightarrow> (Inl (SeServe e), put w (sb\<lparr>sb_store := mi\<rparr>), None)
             | (Inr cell, w, mi) \<Rightarrow> (Inr (mi_subgroups mi ! cell), put w (sb\<lparr>sb_store := mi\<rparr>), Some cell)))"

text \<open>The subgroup's writer goes out of scope when the stream is finished with.\<close>

definition settle_subgroup :: "('e subscriber \<times> nat option) ingress \<Rightarrow> 'e subscriber" where
  "settle_subgroup st =
     (case in_world st of (sb, cell) \<Rightarrow>
        case (cell, in_writer st) of
          (Some n, Some (next_id, s)) \<Rightarrow>
            sb\<lparr>sb_store := (sb_store sb)\<lparr>mi_subgroups := (mi_subgroups (sb_store sb))[n := (next_id, snd (drop_half s))]\<rparr>\<rparr>
        | _ \<Rightarrow> sb)"

definition recv_stream_inner ::
    "(nat \<Rightarrow> subgroup_state watched \<Rightarrow> subgroup_state watched) \<Rightarrow> track_alias_registry list \<Rightarrow> 'e reader \<Rightarrow> stream_header_type \<Rightarrow>
     subgroup_header \<Rightarrow> 'e subscriber \<Rightarrow> ('e session_error + unit) \<times> object_state watched list \<times> 'e subscriber" where
  "recv_stream_inner env later rd t header sb =
     (case get_track_origin_by_alias (sg_track_alias header) (sb_aliases sb) later of
        None \<Rightarrow> (Inl (SeServe SNotFoundWithId), [], sb)
      | Some origin \<Rightarrow>
          (case recv_subgroup_objects (recv_subgroup_writer origin) env t rd
                  \<lparr>in_header = header, in_previous = None, in_writer = None, in_objects = [], in_world = (sb, None)\<rparr> of
             (res, _, st) \<Rightarrow> (res, in_objects st, settle_subgroup st)))"

text \<open>A serve error ends an outbound subscription but not an inbound PUBLISH; the error reported in the end.\<close>

definition stream_failed :: "serve_error \<Rightarrow> u64 \<Rightarrow> 'e sub_st \<Rightarrow> serve_error \<times> 'e sub_st" where
  "stream_failed err alias st =
     (case alias_get (sb_aliases (snd st)) alias of
        Some (OriginSubscribe i) \<Rightarrow>
          (case remove_subscribe i st of
             (None, st) \<Rightarrow> (err, st)
           | (Some sr, c, sb) \<Rightarrow>
               (case subscribe_error i sr err sb of
                  (Inl e, sb) \<Rightarrow> (e, c, sb)
                | (Inr _, sb) \<Rightarrow> (err, c, sb)))
      | _ \<Rightarrow> (err, st))"

text \<open>\<^verbatim>\<open>recv_stream\<close> on a whole stream.\<close>

definition recv_stream ::
    "(nat \<Rightarrow> subgroup_state watched \<Rightarrow> subgroup_state watched) \<Rightarrow> track_alias_registry list \<Rightarrow> 'e reader \<Rightarrow> 'e sub_st \<Rightarrow>
     ('e session_error + unit) \<times> object_state watched list \<times> 'e sub_st" where
  "recv_stream env later rd st =
     (case st of (c, sb) \<Rightarrow>
        case reader_decode stream_header_decode rd of
          (Inl e, _) \<Rightarrow> (Inl e, [], c, sb)
        | (Inr shd, rd) \<Rightarrow>
            if is_fetch (sh_header_type shd) then
              (case sh_fetch_header shd of
                 None \<Rightarrow> (Inl SeInternal, [], c, sb)
               | Some fh \<Rightarrow>
                   (case sb_fetches sb (fh_request_id fh) of
                      None \<Rightarrow> (Inl (SeServe SNotFoundWithId), [], c, sb)
                    | Some fr \<Rightarrow>
                        (case fetch_recv_stream rd fr of
                           (res, fr) \<Rightarrow> (serve_err res, [], c, sb\<lparr>sb_fetches := (sb_fetches sb)(fh_request_id fh \<mapsto> fr)\<rparr>))))
            else if \<not> is_subgroup (sh_header_type shd) then (Inl (SeServe SNotImplementedWithId), [], c, sb)
            else
              case sh_subgroup_header shd of
                None \<Rightarrow> (Inl SeInternal, [], c, sb)
              | Some header \<Rightarrow>
                  (case recv_stream_inner env later rd (sh_header_type shd) header sb of
                     (res, objs, sb) \<Rightarrow>
                       (case res of
                          Inl (SeServe err) \<Rightarrow>
                            (case stream_failed err (sg_track_alias header) (c, sb) of (e, st) \<Rightarrow> (Inl (SeServe e), objs, st))
                        | _ \<Rightarrow> (res, objs, c, sb))))"

definition recv_datagram :: "track_alias_registry list \<Rightarrow> bytes \<Rightarrow> 'e subscriber \<Rightarrow> ('e session_error + unit) \<times> 'e subscriber" where
  "recv_datagram later bs sb =
     (case datagram_decode bs of
        Inl e \<Rightarrow> (Inl (SeDecode e), sb)
      | Inr (d, _) \<Rightarrow>
          (case get_track_origin_by_alias (dg_track_alias d) (sb_aliases sb) later of
             None \<Rightarrow> (Inr (), sb)
           | Some (OriginSubscribe i) \<Rightarrow>
               (case sb_subscribes sb i of
                  None \<Rightarrow> (Inr (), sb)
                | Some sr \<Rightarrow>
                    (case mirror_datagram d (sr_writer sr, sb_store sb) of
                       (res, w, mi) \<Rightarrow>
                         (serve_err res, sb\<lparr>sb_store := mi, sb_subscribes := (sb_subscribes sb)(i \<mapsto> sr\<lparr>sr_writer := w\<rparr>)\<rparr>)))
           | Some (OriginPublish i) \<Rightarrow>
               (case sb_publishes_received sb i of
                  None \<Rightarrow> (Inr (), sb)
                | Some prr \<Rightarrow>
                    (case mirror_datagram d (prr_writer prr, sb_store sb) of
                       (res, w, mi) \<Rightarrow>
                         (serve_err res, sb\<lparr>sb_store := mi, sb_publishes_received := (sb_publishes_received sb)(i \<mapsto> prr\<lparr>prr_writer := w\<rparr>)\<rparr>)))))"

end
