(* ===== verification/Publisher_Role.thy ===== *)
theory Publisher_Role
  imports Subscriber_Role
begin

text \<open>
  The publisher role of a session (\<^verbatim>\<open>moq-transport/src/session/publisher.rs\<close>) with its handles:
  outbound PUBLISH (\<^verbatim>\<open>published.rs\<close>), outbound PUBLISH_NAMESPACE (\<^verbatim>\<open>publish_namespace.rs\<close>), inbound
  SUBSCRIBE (\<^verbatim>\<open>subscribed.rs\<close>), inbound FETCH (the answering part of \<^verbatim>\<open>fetch_requested.rs\<close>) and inbound
  TRACK_STATUS (\<^verbatim>\<open>track_status_requested.rs\<close>). States shared between a handle and the role are kept
  in the role's record under the request id; a handle value carries what only it knows.
\<close>

section \<open>Handles\<close>

subsection \<open>Outbound PUBLISH\<close>

record published_state =
  ps_ok :: bool
  ps_forward :: bool
  ps_subscriber_priority :: u8
  ps_unsubscribed :: bool
  ps_closed :: "serve_error option"

definition published_state_new :: "bool \<Rightarrow> published_state" where
  "published_state_new fwd = \<lparr>ps_ok = False, ps_forward = fwd, ps_subscriber_priority = DEFAULT_SUBSCRIBER_PRIORITY,
     ps_unsubscribed = False, ps_closed = None\<rparr>"

record published_info =
  pi_id :: u64
  pi_full_name :: full_track_name
  pi_track_alias :: u64
  pi_forward :: bool
  pi_largest_location :: "location option"

definition published_ok_round :: "published_state watched \<Rightarrow> (serve_error + unit) round" where
  "published_ok_round s =
     (case ps_closed (w_value s) of
        Some e \<Rightarrow> Ready (Inl e)
      | None \<Rightarrow>
          if ps_ok (w_value s) then Ready (Inr ())
          else (case modified s of Some epoch \<Rightarrow> Wait epoch | None \<Rightarrow> Ready (Inl SDone)))"

definition published_closed_round :: "published_state watched \<Rightarrow> (serve_error + unit) round" where
  "published_closed_round s =
     (case ps_closed (w_value s) of
        Some e \<Rightarrow> Ready (Inl e)
      | None \<Rightarrow> (case modified s of Some epoch \<Rightarrow> Wait epoch | None \<Rightarrow> Ready (Inr ())))"

definition published_close_state :: "serve_error \<Rightarrow> published_state watched \<Rightarrow> (serve_error + unit) \<times> published_state watched" where
  "published_close_state err s =
     (case ps_closed (w_value s) of
        Some e \<Rightarrow> (Inl e, s)
      | None \<Rightarrow>
          (case with_mut (\<lambda>v. v\<lparr>ps_closed := Some err\<rparr>) s of
             None \<Rightarrow> (Inl SDone, s)
           | Some (_, s) \<Rightarrow> (Inr (), s)))"

definition publish_done_error_on_drop :: "published_state \<Rightarrow> serve_error option" where
  "publish_done_error_on_drop st =
     (if ps_unsubscribed st \<or> \<not> ps_ok st \<and> ps_closed st \<noteq> None then None
      else Some (unwrap_or (ps_closed st) SDone))"

definition published_recv_ok :: "publish_ok \<Rightarrow> published_state watched \<Rightarrow> (serve_error + unit) \<times> published_state watched" where
  "published_recv_ok msg s =
     (case forward (pok_params msg) of
        Inl _ \<Rightarrow> (Inl SInternalWithId, s)
      | Inr fwd \<Rightarrow>
          (case subscriber_priority (pok_params msg) of
             Inl _ \<Rightarrow> (Inl SInternalWithId, s)
           | Inr prio \<Rightarrow>
               (case with_mut (\<lambda>v. v\<lparr>ps_ok := True, ps_forward := unwrap_or fwd (ps_forward v),
                     ps_subscriber_priority := unwrap_or prio (ps_subscriber_priority v)\<rparr>) s of
                  None \<Rightarrow> (Inr (), s)
                | Some (_, s) \<Rightarrow> (Inr (), s))))"

definition published_recv_error :: "serve_error \<Rightarrow> published_state watched \<Rightarrow> published_state watched" where
  "published_recv_error err s =
     (case with_mut (\<lambda>v. v\<lparr>ps_closed := Some err\<rparr>) s of None \<Rightarrow> s | Some (_, s) \<Rightarrow> s)"

definition published_recv_unsubscribe :: "published_state watched \<Rightarrow> (serve_error + unit) \<times> published_state watched" where
  "published_recv_unsubscribe s =
     (case ps_closed (w_value s) of
        Some e \<Rightarrow> (Inl e, s)
      | None \<Rightarrow>
          (case with_mut (\<lambda>v. v\<lparr>ps_unsubscribed := True, ps_closed := Some SCancel\<rparr>) s of
             None \<Rightarrow> (Inr (), s)
           | Some (_, s) \<Rightarrow> (Inr (), s)))"

subsection \<open>Outbound PUBLISH_NAMESPACE\<close>

record publish_namespace_state =
  pst_subscribers :: "subscribed list"
  pst_track_statuses :: "track_status list"
  pst_ok :: bool
  pst_closed :: "serve_error option"

definition publish_namespace_state_default :: publish_namespace_state where
  "publish_namespace_state_default = \<lparr>pst_subscribers = [], pst_track_statuses = [], pst_ok = False, pst_closed = None\<rparr>"

record publish_namespace_recv =
  pnr_request_id :: u64
  pnr_state :: "publish_namespace_state watched"

definition publish_namespace_subscribed_round ::
    "publish_namespace_state watched \<Rightarrow> (serve_error + subscribed option) round \<times> publish_namespace_state watched" where
  "publish_namespace_subscribed_round s =
     (case pst_subscribers (w_value s) of
        sd # rest \<Rightarrow>
          (case with_mut (\<lambda>v. v\<lparr>pst_subscribers := rest\<rparr>) s of
             None \<Rightarrow> (Ready (Inr None), s)
           | Some (_, s) \<Rightarrow> (Ready (Inr (Some sd)), s))
      | [] \<Rightarrow> (nothing_left (pst_closed (w_value s)) s, s))"

definition publish_namespace_track_status_round ::
    "publish_namespace_state watched \<Rightarrow> (serve_error + track_status option) round \<times> publish_namespace_state watched" where
  "publish_namespace_track_status_round s =
     (case pst_track_statuses (w_value s) of
        ts # rest \<Rightarrow>
          (case with_mut (\<lambda>v. v\<lparr>pst_track_statuses := rest\<rparr>) s of
             None \<Rightarrow> (Ready (Inr None), s)
           | Some (_, s) \<Rightarrow> (Ready (Inr (Some ts)), s))
      | [] \<Rightarrow> (nothing_left (pst_closed (w_value s)) s, s))"

definition publish_namespace_ok_round :: "publish_namespace_state watched \<Rightarrow> (serve_error + unit) round" where
  "publish_namespace_ok_round s =
     (if pst_ok (w_value s) then Ready (Inr ())
      else
        case pst_closed (w_value s) of
          Some e \<Rightarrow> Ready (Inl e)
        | None \<Rightarrow> (case modified s of Some epoch \<Rightarrow> Wait epoch | None \<Rightarrow> Ready (Inr ())))"

definition publish_namespace_recv_ok :: "publish_namespace_recv \<Rightarrow> (serve_error + unit) \<times> publish_namespace_recv" where
  "publish_namespace_recv_ok r =
     (if \<not> w_open (pnr_state r) then (Inr (), r)
      else if pst_ok (w_value (pnr_state r)) then (Inl SDuplicate, r\<lparr>pnr_state := snd (notify (pnr_state r))\<rparr>)
      else
        case with_mut (\<lambda>v. v\<lparr>pst_ok := True\<rparr>) (pnr_state r) of
          None \<Rightarrow> (Inr (), r)
        | Some (_, s) \<Rightarrow> (Inr (), r\<lparr>pnr_state := s\<rparr>))"

definition publish_namespace_recv_error ::
    "serve_error \<Rightarrow> publish_namespace_state watched \<Rightarrow> (serve_error + unit) \<times> publish_namespace_state watched" where
  "publish_namespace_recv_error err s =
     (case pst_closed (w_value s) of
        Some e \<Rightarrow> (Inl e, snd (drop_half s))
      | None \<Rightarrow>
          (case with_mut (\<lambda>v. v\<lparr>pst_closed := Some err\<rparr>) s of
             None \<Rightarrow> (Inl SDone, snd (drop_half s))
           | Some (_, s) \<Rightarrow> (Inr (), snd (drop_half s))))"

subsection \<open>Inbound TRACK_STATUS\<close>

definition track_status_respond_error :: "track_status \<Rightarrow> u64 \<Rightarrow> string \<Rightarrow> message" where
  "track_status_respond_error req code reason =
     RequestError \<lparr>rerr_id = ts_id req, rerr_error_code = code, rerr_retry_interval = 0, rerr_reason = map of_char reason\<rparr>"

definition track_status_respond_ok :: "track_status \<Rightarrow> location option \<Rightarrow> 'e session_error + message" where
  "track_status_respond_ok req largest =
     bindE (case largest of None \<Rightarrow> Inr [] | Some l \<Rightarrow> encode_or_internal (set_largest_object l [])) (\<lambda>params.
       Inr (RequestOk \<lparr>rok_id = ts_id req, rok_params = params\<rparr>))"

text \<open>
  \<^verbatim>\<open>serve_track_status\<close>, given what \<^verbatim>\<open>TracksReader::subscribe\<close> found: \<open>None\<close>, or the track's largest
  location. The messages it sends and its result.
\<close>

definition serve_track_status :: "track_status \<Rightarrow> location option option \<Rightarrow> ('e session_error + unit) \<times> message list" where
  "serve_track_status req found =
     (case found of
        None \<Rightarrow> (Inl (SeServe SNotFoundWithId), [])
      | Some largest \<Rightarrow>
          (case track_status_respond_ok req largest of
             Inl e \<Rightarrow> (Inl e, [])
           | Inr m \<Rightarrow> (Inr (), [m])))"

subsection \<open>Inbound FETCH\<close>

record fetch_requested =
  fq_id :: u64
  fq_subscriber_priority :: u8
  fq_group_order :: group_order
  fq_request :: fetch

definition fetch_requested_new :: "fetch \<Rightarrow> 'e session_error + fetch_requested" where
  "fetch_requested_new request =
     bindE (decode_err (subscriber_priority (ft_params request))) (\<lambda>prio.
     bindE (decode_err (get_group_order (ft_params request))) (\<lambda>order.
       Inr \<lparr>fq_id = ft_id request, fq_subscriber_priority = unwrap_or prio DEFAULT_SUBSCRIBER_PRIORITY,
         fq_group_order = unwrap_or order Ascending, fq_request = request\<rparr>))"

text \<open>The shared state is only whether the request is closed: answered (\<open>SDone\<close>) or cancelled.\<close>

type_synonym fetch_requested_state = "serve_error option watched"

definition claim_response :: "fetch_requested_state \<Rightarrow> (serve_error + unit) \<times> fetch_requested_state" where
  "claim_response s =
     (case w_value s of
        Some e \<Rightarrow> (Inl e, s)
      | None \<Rightarrow>
          (case with_mut (\<lambda>_. Some SDone) s of
             None \<Rightarrow> (Inl SDone, s)
           | Some (_, s) \<Rightarrow> (Inr (), s)))"

definition fetch_requested_cancel :: "fetch_requested_state \<Rightarrow> fetch_requested_state" where
  "fetch_requested_cancel s =
     (case w_value s of
        Some _ \<Rightarrow> s
      | None \<Rightarrow> (case with_mut (\<lambda>_. Some SCancel) s of None \<Rightarrow> s | Some (_, s) \<Rightarrow> s))"

definition fetch_requested_closed_round :: "fetch_requested_state \<Rightarrow> (serve_error + unit) round" where
  "fetch_requested_closed_round s =
     (case w_value s of
        Some e \<Rightarrow> Ready (Inl e)
      | None \<Rightarrow> (case modified s of Some epoch \<Rightarrow> Wait epoch | None \<Rightarrow> Ready (Inr ())))"

definition proxied_response :: "fetch_ok \<Rightarrow> u64 \<Rightarrow> fetch_ok" where
  "proxied_response response i = response\<lparr>fok_id := i, fok_params := []\<rparr>"

definition proxied_error :: "request_error \<Rightarrow> u64 \<Rightarrow> request_error" where
  "proxied_error response i = response\<lparr>rerr_id := i\<rparr>"

text \<open>\<^verbatim>\<open>respond\<close> and \<^verbatim>\<open>reject\<close> before the handle is dropped: the answer goes out only if it can be claimed.\<close>

definition fetch_respond :: "message \<Rightarrow> fetch_requested_state \<Rightarrow> (serve_error + message) \<times> fetch_requested_state" where
  "fetch_respond msg s =
     (case claim_response s of
        (Inl e, s) \<Rightarrow> (Inl e, s)
      | (Inr _, s) \<Rightarrow> (Inr msg, s))"

definition fetch_reject_message :: "u64 \<Rightarrow> request_error_code \<Rightarrow> string \<Rightarrow> message" where
  "fetch_reject_message i code reason = RequestError (request_error_new i code 0 (map of_char reason))"

text \<open>\<^verbatim>\<open>Drop\<close>: an unanswered request is answered now.\<close>

definition fetch_requested_drop :: "u64 \<Rightarrow> fetch_requested_state \<Rightarrow> message option \<times> fetch_requested_state" where
  "fetch_requested_drop i s =
     (case claim_response s of
        (Inr _, s) \<Rightarrow> (Some (fetch_reject_message i ReqInternalError ''fetch request dropped''), s)
      | (Inl _, s) \<Rightarrow> (None, s))"

section \<open>State\<close>

text \<open>
  An entry of \<open>pb_publisheds\<close> says whether a forwarder is registered; \<open>pb_forwarders\<close> holds the
  forwarder states of inbound SUBSCRIBEs and outbound PUBLISHes alike.
\<close>

record publisher =
  pb_publish_namespaces :: "(track_namespace \<times> publish_namespace_recv) list"
  pb_ns_closed :: "u64 \<rightharpoonup> publish_namespace_state watched"
  pb_publisheds :: "u64 \<rightharpoonup> bool"
  pb_published_states :: "u64 \<rightharpoonup> published_state watched"
  pb_published_names :: name_registry
  pb_subscribeds :: "u64 set"
  pb_forwarders :: "u64 \<rightharpoonup> object_forwarder_state watched"
  pb_subscribed_names :: name_registry
  pb_unknown_subscribed :: "subscribed queue"
  pb_unknown_track_status :: "track_status queue"
  pb_unknown_fetch :: "fetch_requested queue"
  pb_fetches :: "u64 set"
  pb_fetch_states :: "u64 \<rightharpoonup> fetch_requested_state"
  pb_subscribed_namespace_prefixes :: "(u64 \<times> track_namespace_prefix) list"
  pb_profile :: wire_profile

definition publisher_new :: "wire_profile \<Rightarrow> publisher" where
  "publisher_new profile =
     \<lparr>pb_publish_namespaces = [], pb_ns_closed = Map.empty, pb_publisheds = Map.empty, pb_published_states = Map.empty,
      pb_published_names = name_registry_new, pb_subscribeds = {}, pb_forwarders = Map.empty,
      pb_subscribed_names = name_registry_new, pb_unknown_subscribed = queue_new, pb_unknown_track_status = queue_new,
      pb_unknown_fetch = queue_new, pb_fetches = {}, pb_fetch_states = Map.empty, pb_subscribed_namespace_prefixes = [],
      pb_profile = profile\<rparr>"

definition name_reserve :: "full_track_name \<Rightarrow> u64 \<Rightarrow> name_registry \<Rightarrow> bool \<times> name_registry" where
  "name_reserve name i r =
     (if nr_by_name r name \<noteq> None \<or> nr_by_request_id r i \<noteq> None then (False, r)
      else (True, \<lparr>nr_by_name = (nr_by_name r)(name \<mapsto> i), nr_by_request_id = (nr_by_request_id r)(i \<mapsto> name)\<rparr>))"

type_synonym pub_st = "session_core \<times> publisher"

text \<open>The states the removed half of an entry leaves behind; the removed entry itself is dropped by the caller.\<close>

definition pub_remove_subscribe :: "u64 \<Rightarrow> publisher \<Rightarrow> bool \<times> publisher" where
  "pub_remove_subscribe i pb =
     (i \<in> pb_subscribeds pb,
      pb\<lparr>pb_subscribeds := pb_subscribeds pb - {i}, pb_subscribed_names := snd (name_remove_by_request_id i (pb_subscribed_names pb))\<rparr>)"

definition drop_forwarder :: "u64 \<Rightarrow> publisher \<Rightarrow> publisher" where
  "drop_forwarder i pb =
     pb\<lparr>pb_forwarders := (pb_forwarders pb)(i := map_option (\<lambda>s. snd (drop_half s)) (pb_forwarders pb i))\<rparr>"

definition drop_subscribe :: "u64 \<Rightarrow> publisher \<Rightarrow> publisher" where
  "drop_subscribe i pb = (case pub_remove_subscribe i pb of (present, pb) \<Rightarrow> if present then drop_forwarder i pb else pb)"

definition remove_published :: "u64 \<Rightarrow> pub_st \<Rightarrow> bool option \<times> pub_st" where
  "remove_published i st =
     (case st of (c, pb) \<Rightarrow>
        let c = c\<lparr>sc_pending := snd (pr_remove i (sc_pending c))\<rparr> in
        case pb_publisheds pb i of
          None \<Rightarrow> (None, c, pb)
        | Some entry \<Rightarrow>
            (Some entry, c, pb\<lparr>pb_publisheds := (pb_publisheds pb)(i := None),
               pb_published_names := snd (name_remove_by_request_id i (pb_published_names pb))\<rparr>))"

text \<open>A removed entry goes out of scope with its state and, if registered, its forwarder's.\<close>

definition drop_published_entry :: "bool \<Rightarrow> u64 \<Rightarrow> publisher \<Rightarrow> publisher" where
  "drop_published_entry registered i pb =
     (if registered then drop_forwarder i else id)
       (pb\<lparr>pb_published_states := (pb_published_states pb)(i := map_option (\<lambda>s. snd (drop_half s)) (pb_published_states pb i))\<rparr>)"

definition drop_published :: "u64 \<Rightarrow> pub_st \<Rightarrow> pub_st" where
  "drop_published i st =
     (case remove_published i st of
        (None, st) \<Rightarrow> st
      | (Some registered, c, pb) \<Rightarrow> (c, drop_published_entry registered i pb))"

definition pub_drop_publish_namespace :: "u64 \<Rightarrow> pub_st \<Rightarrow> publish_namespace_recv option \<times> pub_st" where
  "pub_drop_publish_namespace i st =
     (case st of (c, pb) \<Rightarrow>
        let c = c\<lparr>sc_pending := snd (pr_remove i (sc_pending c))\<rparr> in
        case find (\<lambda>(_, v). pnr_request_id v = i) (pb_publish_namespaces pb) of
          None \<Rightarrow> (None, c, pb)
        | Some (key, v) \<Rightarrow>
            (Some v, c, pb\<lparr>pb_publish_namespaces := filter (\<lambda>(k, _). k \<noteq> key) (pb_publish_namespaces pb)\<rparr>))"

definition settle_namespace :: "u64 \<Rightarrow> publish_namespace_state watched \<Rightarrow> publisher \<Rightarrow> publisher" where
  "settle_namespace i s pb = pb\<lparr>pb_ns_closed := (pb_ns_closed pb)(i \<mapsto> s)\<rparr>"

definition act_on_message_to_send :: "message \<Rightarrow> pub_st \<Rightarrow> pub_st" where
  "act_on_message_to_send msg st =
     (case msg of
        PublishDone m \<Rightarrow> (case st of (c, pb) \<Rightarrow> drop_published (pdone_id m) (c, drop_subscribe (pdone_id m) pb))
      | PublishNamespaceDone m \<Rightarrow>
          (case pub_drop_publish_namespace (pnd_id m) st of
             (None, st) \<Rightarrow> st
           | (Some r, c, pb) \<Rightarrow> (c, settle_namespace (pnd_id m) (snd (drop_half (pnr_state r))) pb))
      | _ \<Rightarrow> st)"

definition pub_send_message :: "message \<Rightarrow> pub_st \<Rightarrow> pub_st" where
  "pub_send_message msg st = (case act_on_message_to_send msg st of (c, pb) \<Rightarrow> (push_outgoing msg c, pb))"

text \<open>
  \<^verbatim>\<open>send_message_and_wait\<close> pushes the message with a notifier of its own and waits for it: the
  wait is over once the item was popped, or dropped because the queue was closed.
\<close>

definition pub_send_message_and_wait :: "nat \<Rightarrow> message \<Rightarrow> pub_st \<Rightarrow> pub_st" where
  "pub_send_message_and_wait tx msg st =
     (case act_on_message_to_send msg st of
        (c, pb) \<Rightarrow> (c\<lparr>sc_outgoing := snd (snd (queue_push_notified msg tx (sc_outgoing c)))\<rparr>, pb))"

definition still_queued :: "nat \<Rightarrow> session_core \<Rightarrow> bool" where
  "still_queued tx c \<longleftrightarrow> Some tx \<in> snd ` set (w_value (sc_outgoing c))"

section \<open>Operations of the application\<close>

text \<open>\<^verbatim>\<open>publish_namespace\<close> until it starts serving: the request id of the announcement.\<close>

definition publish_namespace_begin :: "track_namespace \<Rightarrow> pub_st \<Rightarrow> ('e session_error + u64) \<times> pub_st" where
  "publish_namespace_begin ns st =
     (case st of (c, pb) \<Rightarrow>
        if map_of (pb_publish_namespaces pb) ns \<noteq> None then (Inl (SeServe SDuplicate), c, pb)
        else
          case get_next_request_id c of
            (Inl e, c) \<Rightarrow> (Inl e, c, pb)
          | (Inr i, c) \<Rightarrow>
              (case pr_insert (sc_now c) i PendPublishNamespace (sc_pending c) of
                 (Inl e, p) \<Rightarrow> (Inl e, c\<lparr>sc_pending := p\<rparr>, pb)
               | (Inr _, p) \<Rightarrow>
                   (Inr i, pub_send_message (PublishNamespace \<lparr>pns_id = i, pns_track_namespace = ns, pns_params = []\<rparr>)
                      (c\<lparr>sc_pending := p\<rparr>, pb\<lparr>pb_publish_namespaces := pb_publish_namespaces pb @
                         [(ns, \<lparr>pnr_request_id = i, pnr_state = watched_new publish_namespace_state_default\<rparr>)]\<rparr>))))"

definition namespace_state_of :: "u64 \<Rightarrow> publisher \<Rightarrow> publish_namespace_state watched option" where
  "namespace_state_of i pb =
     (case find (\<lambda>(_, v). pnr_request_id v = i) (pb_publish_namespaces pb) of
        Some (_, v) \<Rightarrow> Some (pnr_state v)
      | None \<Rightarrow> pb_ns_closed pb i)"

text \<open>\<^verbatim>\<open>Drop for PublishNamespace\<close>.\<close>

definition publish_namespace_dropped :: "u64 \<Rightarrow> pub_st \<Rightarrow> pub_st" where
  "publish_namespace_dropped i st =
     (case namespace_state_of i (snd st) of
        None \<Rightarrow> st
      | Some s \<Rightarrow> if pst_closed (w_value s) \<noteq> None then st else pub_send_message (PublishNamespaceDone \<lparr>pnd_id = i\<rparr>) st)"

text \<open>\<^verbatim>\<open>publish\<close> of a track with the given largest location.\<close>

definition publish_open :: "full_track_name \<Rightarrow> location option \<Rightarrow> kvps \<Rightarrow> pub_st \<Rightarrow> ('e session_error + published_info) \<times> pub_st" where
  "publish_open full largest params st =
     (case (case largest of None \<Rightarrow> Inr params | Some l \<Rightarrow> encode_or_internal (set_largest_object l params)) of
        Inl e \<Rightarrow> (Inl e, st)
      | Inr params \<Rightarrow>
          (case decode_err (forward params) of
             Inl e \<Rightarrow> (Inl e, st)
           | Inr fwd \<Rightarrow>
               (case decode_err (largest_object params) of
                  Inl e \<Rightarrow> (Inl e, st)
                | Inr largest' \<Rightarrow>
                    (case st of (c, pb) \<Rightarrow>
                       if contains_name (pb_subscribed_names pb) full \<or> contains_name (pb_published_names pb) full
                       then (Inl (SeServe SDuplicate), c, pb)
                       else
                         case get_next_request_id c of
                           (Inl e, c) \<Rightarrow> (Inl e, c, pb)
                         | (Inr i, c) \<Rightarrow>
                             (case name_reserve full i (pb_published_names pb) of
                                (False, _) \<Rightarrow> (Inl SeDuplicate, c, pb)
                              | (True, names) \<Rightarrow>
                                  let forward_state = unwrap_or fwd True;
                                      info = \<lparr>pi_id = i, pi_full_name = full, pi_track_alias = i, pi_forward = forward_state,
                                        pi_largest_location = largest'\<rparr>;
                                      pb = pb\<lparr>pb_published_names := names, pb_publisheds := (pb_publisheds pb)(i \<mapsto> False),
                                        pb_published_states := (pb_published_states pb)(i \<mapsto> watched_new (published_state_new forward_state))\<rparr> in
                                  case pr_insert (sc_now c) i PendPublish (sc_pending c) of
                                    (Inl e, p) \<Rightarrow> (Inl e, snd (remove_published i (c\<lparr>sc_pending := p\<rparr>, pb)))
                                  | (Inr _, p) \<Rightarrow>
                                      (Inr info, pub_send_message
                                         (Publish \<lparr>pub_id = i, pub_track_namespace = ftn_namespace full, pub_track_name = ftn_name full,
                                            pub_track_alias = i, pub_params = params, pub_track_extensions = []\<rparr>)
                                         (c\<lparr>sc_pending := p\<rparr>, pb)))))))"

text \<open>\<^verbatim>\<open>register_published_subscription\<close>, when an accepted PUBLISH starts to serve.\<close>

definition register_published_subscription ::
    "u64 \<Rightarrow> object_forwarder_state watched \<Rightarrow> publisher \<Rightarrow> ('e session_error + unit) \<times> publisher" where
  "register_published_subscription i recv pb =
     (case pb_publisheds pb i of
        None \<Rightarrow> (Inl SeInternal, pb)
      | Some True \<Rightarrow> (Inl SeDuplicate, pb)
      | Some False \<Rightarrow> (Inr (), pb\<lparr>pb_publisheds := (pb_publisheds pb)(i \<mapsto> True), pb_forwarders := (pb_forwarders pb)(i \<mapsto> recv)\<rparr>))"

text \<open>\<^verbatim>\<open>Drop for Published\<close>.\<close>

definition published_dropped :: "u64 \<Rightarrow> pub_st \<Rightarrow> pub_st" where
  "published_dropped i st =
     (case pb_published_states (snd st) i of
        None \<Rightarrow> st
      | Some s \<Rightarrow>
          (case publish_done_error_on_drop (w_value s) of
             None \<Rightarrow> st
           | Some err \<Rightarrow>
               pub_send_message (PublishDone \<lparr>pdone_id = i, pdone_status_code = done_code_of err, pdone_stream_count = 0,
                 pdone_reason = map of_char ''publish ended''\<rparr>) st))"

text \<open>A handle of an inbound SUBSCRIBE with the shared state as the role has it, and back.\<close>

definition load_subscribed :: "subscribed \<Rightarrow> publisher \<Rightarrow> subscribed" where
  "load_subscribed sd pb =
     (case pb_forwarders pb (si_id (sd_info sd)) of None \<Rightarrow> sd | Some s \<Rightarrow> sd\<lparr>sd_state := s\<rparr>)"

definition store_subscribed :: "subscribed \<Rightarrow> publisher \<Rightarrow> publisher" where
  "store_subscribed sd pb = pb\<lparr>pb_forwarders := (pb_forwarders pb)(si_id (sd_info sd) \<mapsto> sd_state sd)\<rparr>"

text \<open>\<^verbatim>\<open>Subscribed::serve\<close> up to its first wait, on the notifier \<open>tx\<close>.\<close>

definition subscribed_serve ::
    "nat \<Rightarrow> location option \<Rightarrow> u64 option \<Rightarrow> subscribed \<Rightarrow> pub_st \<Rightarrow> ('e session_error + delivery_filter) \<times> subscribed \<times> pub_st" where
  "subscribed_serve tx largest window sd st =
     (case st of (c, pb) \<Rightarrow>
        case serve_begin (pb_profile pb) largest window (load_subscribed sd pb) of
          (res, msgs, sd) \<Rightarrow> (res, sd, fold (pub_send_message_and_wait tx) msgs (c, store_subscribed sd pb)))"

definition subscribed_closed :: "serve_error \<Rightarrow> subscribed \<Rightarrow> publisher \<Rightarrow> (serve_error + unit) \<times> publisher" where
  "subscribed_closed err sd pb =
     (let sd = load_subscribed sd pb in
      case forwarder_close err (sd_state sd) of (res, s) \<Rightarrow> (res, store_subscribed (sd\<lparr>sd_state := s\<rparr>) pb))"

definition subscribed_dropped :: "(serve_error \<Rightarrow> rust_string) \<Rightarrow> subscribed \<Rightarrow> pub_st \<Rightarrow> pub_st" where
  "subscribed_dropped show_err sd st =
     (case subscribed_drop show_err (load_subscribed sd (snd st)) of (msg, forget) \<Rightarrow>
        case (case msg of None \<Rightarrow> st | Some m \<Rightarrow> pub_send_message m st) of
          (c, pb) \<Rightarrow> (c, if forget then drop_subscribe (si_id (sd_info sd)) pb else pb))"

text \<open>\<^verbatim>\<open>Subscribed::close\<close> consumes the handle.\<close>

definition subscribed_close :: "(serve_error \<Rightarrow> rust_string) \<Rightarrow> serve_error \<Rightarrow> subscribed \<Rightarrow> pub_st \<Rightarrow> (serve_error + unit) \<times> pub_st" where
  "subscribed_close show_err err sd st =
     (case st of (c, pb) \<Rightarrow> case subscribed_closed err sd pb of (res, pb) \<Rightarrow> (res, subscribed_dropped show_err sd (c, pb)))"

text \<open>
  \<^verbatim>\<open>Drop for PublishNamespaceState\<close>, once the application's handle is gone too: subscriptions nobody
  took are closed, status requests vanish.
\<close>

definition namespace_state_dropped :: "(serve_error \<Rightarrow> rust_string) \<Rightarrow> u64 \<Rightarrow> pub_st \<Rightarrow> pub_st" where
  "namespace_state_dropped show_err i st =
     (case st of (c, pb) \<Rightarrow>
        case pb_ns_closed pb i of
          None \<Rightarrow> (c, pb)
        | Some s \<Rightarrow>
            fold (\<lambda>sd st. snd (subscribed_close show_err SNotFoundWithId sd st)) (pst_subscribers (w_value s))
              (c, pb\<lparr>pb_ns_closed := (pb_ns_closed pb)(i := None)\<rparr>))"

text \<open>A FETCH answered by \<^verbatim>\<open>respond\<close> or \<^verbatim>\<open>reject\<close>, and one whose handle is dropped.\<close>

definition fetch_requested_answer :: "message \<Rightarrow> u64 \<Rightarrow> pub_st \<Rightarrow> (serve_error + unit) \<times> pub_st" where
  "fetch_requested_answer msg i st =
     (case st of (c, pb) \<Rightarrow>
        case pb_fetch_states pb i of
          None \<Rightarrow> (Inl SDone, c, pb)
        | Some s \<Rightarrow>
            (case fetch_respond msg s of
               (Inl e, s) \<Rightarrow> (Inl e, c, pb)
             | (Inr m, s) \<Rightarrow> (Inr (), push_outgoing m c, pb\<lparr>pb_fetch_states := (pb_fetch_states pb)(i \<mapsto> s)\<rparr>)))"

definition fetch_requested_dropped :: "u64 \<Rightarrow> pub_st \<Rightarrow> pub_st" where
  "fetch_requested_dropped i st =
     (case st of (c, pb) \<Rightarrow>
        case pb_fetch_states pb i of
          None \<Rightarrow> (c, pb)
        | Some s \<Rightarrow>
            (case fetch_requested_drop i s of
               (m, s) \<Rightarrow> ((case m of None \<Rightarrow> c | Some msg \<Rightarrow> push_outgoing msg c),
                 pb\<lparr>pb_fetch_states := (pb_fetch_states pb)(i \<mapsto> s), pb_fetches := pb_fetches pb - {i}\<rparr>)))"

section \<open>Messages from the subscriber\<close>

definition send_not_supported :: "u64 \<Rightarrow> pub_st \<Rightarrow> pub_st" where
  "send_not_supported i = pub_send_message (RequestError \<lparr>rerr_id = i,
     rerr_error_code = request_error_code_value ReqNotSupported, rerr_retry_interval = 0, rerr_reason = map of_char ''not supported''\<rparr>)"

definition validate_fetch_params :: "kvps \<Rightarrow> decode_error + unit" where
  "validate_fetch_params params =
     bindE (validate_message_parameter_types params) (\<lambda>_.
     bindE (subscriber_priority params) (\<lambda>_.
     bindE (get_group_order params) (\<lambda>_. Inr ())))"

definition recv_fetch :: "fetch \<Rightarrow> pub_st \<Rightarrow> ('e session_error + unit) \<times> pub_st" where
  "recv_fetch msg st =
     (case decode_err (validate_fetch_params (ft_params msg)) of
        Inl e \<Rightarrow> (Inl e, st)
      | Inr _ \<Rightarrow>
          if ft_fetch_type msg \<noteq> Standalone then (Inr (), send_not_supported (ft_id msg) st)
          else
            case ft_standalone_fetch msg of
              None \<Rightarrow> (Inl SeInternal, st)
            | Some f \<Rightarrow>
                if sfe_start_location f \<noteq> sfe_end_location f \<and>
                   location_less (inclusive_end (sfe_end_location f)) (sfe_start_location f)
                then (Inr (), pub_send_message (fetch_reject_message (ft_id msg) ReqInvalidRange ''fetch start is after end'') st)
                else
                  case fetch_requested_new msg of
                    Inl e \<Rightarrow> (Inl e, st)
                  | Inr fq \<Rightarrow>
                      (case st of (c, pb) \<Rightarrow>
                         let pb = pb\<lparr>pb_fetches := insert (ft_id msg) (pb_fetches pb),
                               pb_fetch_states := (pb_fetch_states pb)(ft_id msg \<mapsto> watched_new None)\<rparr> in
                         case queue_push fq (pb_unknown_fetch pb) of
                           (Inr _, _, q) \<Rightarrow> (Inr (), c, pb\<lparr>pb_unknown_fetch := q\<rparr>)
                         | (Inl _, _, q) \<Rightarrow>
                             (case fetch_requested_answer (fetch_reject_message (ft_id msg) ReqInternalError ''fetch queue closed'')
                                     (ft_id msg) (c, pb\<lparr>pb_unknown_fetch := q\<rparr>) of
                                (res, st) \<Rightarrow> (serve_err res, fetch_requested_dropped (ft_id msg) st))))"

definition recv_fetch_cancel :: "fetch_cancel \<Rightarrow> pub_st \<Rightarrow> ('e session_error + unit) \<times> pub_st" where
  "recv_fetch_cancel msg st =
     (case st of (c, pb) \<Rightarrow>
        if fc_id msg \<notin> pb_fetches pb then (Inr (), c, pb)
        else
          (Inr (), c, pb\<lparr>pb_fetches := pb_fetches pb - {fc_id msg},
             pb_fetch_states := (pb_fetch_states pb)(fc_id msg :=
               map_option (\<lambda>s. snd (drop_half (fetch_requested_cancel s))) (pb_fetch_states pb (fc_id msg)))\<rparr>))"

definition pub_recv_request_ok :: "request_ok \<Rightarrow> pub_st \<Rightarrow> ('e session_error + unit) \<times> pub_st" where
  "pub_recv_request_ok msg st =
     (case st of (c, pb) \<Rightarrow>
        case find (\<lambda>(_, v). pnr_request_id v = rok_id msg) (pb_publish_namespaces pb) of
          None \<Rightarrow> (Inr (), c, pb)
        | Some (key, v) \<Rightarrow>
            (case publish_namespace_recv_ok v of
               (res, v) \<Rightarrow> (serve_err res, c, pb\<lparr>pb_publish_namespaces :=
                  map (\<lambda>(k, w). if k = key then (k, v) else (k, w)) (pb_publish_namespaces pb)\<rparr>)))"

definition pub_recv_publish_ok :: "publish_ok \<Rightarrow> pub_st \<Rightarrow> ('e session_error + unit) \<times> pub_st" where
  "pub_recv_publish_ok msg st =
     (case st of (c, pb) \<Rightarrow>
        case (pb_publisheds pb (pok_id msg), pb_published_states pb (pok_id msg)) of
          (Some _, Some s) \<Rightarrow>
            (case published_recv_ok msg s of
               (res, s) \<Rightarrow> (serve_err res, c, pb\<lparr>pb_published_states := (pb_published_states pb)(pok_id msg \<mapsto> s)\<rparr>))
        | _ \<Rightarrow> (Inr (), c, pb))"

definition fail_namespace :: "u64 \<Rightarrow> serve_error \<Rightarrow> publish_namespace_recv \<Rightarrow> pub_st \<Rightarrow> ('e session_error + unit) \<times> pub_st" where
  "fail_namespace i err r st =
     (case st of (c, pb) \<Rightarrow>
        case publish_namespace_recv_error err (pnr_state r) of (res, s) \<Rightarrow> (serve_err res, c, settle_namespace i s pb))"

text \<open>The removed entry is dropped with its forwarder once its state is closed.\<close>

definition fail_published :: "bool \<Rightarrow> u64 \<Rightarrow> serve_error \<Rightarrow> publisher \<Rightarrow> publisher" where
  "fail_published registered i err pb =
     drop_published_entry registered i (pb\<lparr>pb_published_states := (pb_published_states pb)(i :=
       map_option (published_recv_error err) (pb_published_states pb i))\<rparr>)"

definition pub_recv_request_error :: "request_error \<Rightarrow> pub_st \<Rightarrow> ('e session_error + unit) \<times> pub_st" where
  "pub_recv_request_error msg st =
     (case pub_drop_publish_namespace (rerr_id msg) st of
        (Some r, st) \<Rightarrow> fail_namespace (rerr_id msg) (SClosed (rerr_error_code msg)) r st
      | (None, st) \<Rightarrow>
          (case remove_published (rerr_id msg) st of
             (None, st) \<Rightarrow> (Inr (), st)
           | (Some registered, c, pb) \<Rightarrow> (Inr (), c, fail_published registered (rerr_id msg) (SClosed (rerr_error_code msg)) pb)))"

definition pub_recv_request_timeout :: "u64 \<Rightarrow> pending_request \<Rightarrow> pub_st \<Rightarrow> ('e session_error + unit) \<times> pub_st" where
  "pub_recv_request_timeout i request st =
     (case request of
        PendPublishNamespace \<Rightarrow>
          (case pub_drop_publish_namespace i st of
             (None, st) \<Rightarrow> (Inr (), st)
           | (Some r, st) \<Rightarrow> fail_namespace i SInternalWithId r st)
      | PendPublish \<Rightarrow>
          (case remove_published i st of
             (None, st) \<Rightarrow> (Inr (), st)
           | (Some registered, c, pb) \<Rightarrow> (Inr (), c, fail_published registered i SInternalWithId pb))
      | _ \<Rightarrow> (Inl SeInternal, st))"

definition recv_request_update :: "request_update \<Rightarrow> pub_st \<Rightarrow> ('e session_error + unit) \<times> pub_st" where
  "recv_request_update msg st = (Inr (), send_not_supported (ru_id msg) st)"

definition recv_publish_namespace_cancel :: "publish_namespace_cancel \<Rightarrow> pub_st \<Rightarrow> ('e session_error + unit) \<times> pub_st" where
  "recv_publish_namespace_cancel msg st =
     (case pub_drop_publish_namespace (pnc_id msg) st of
        (None, st) \<Rightarrow> (Inr (), st)
      | (Some r, st) \<Rightarrow> fail_namespace (pnc_id msg) SCancel r st)"

definition duplicate_subscription :: "u64 \<Rightarrow> message" where
  "duplicate_subscription i = reject_publish i ReqDuplicateSubscription ''duplicate subscription''"

definition recv_subscribe :: "(serve_error \<Rightarrow> rust_string) \<Rightarrow> subscribe \<Rightarrow> pub_st \<Rightarrow> ('e session_error + unit) \<times> pub_st" where
  "recv_subscribe show_err msg st =
     (case st of (c, pb) \<Rightarrow>
        let full = \<lparr>ftn_namespace = sub_track_namespace msg, ftn_name = sub_track_name msg\<rparr> in
        if sub_id msg \<in> pb_subscribeds pb then (Inr (), pub_send_message (duplicate_subscription (sub_id msg)) st)
        else if contains_name (pb_subscribed_names pb) full \<or> contains_name (pb_published_names pb) full
        then (Inr (), pub_send_message (duplicate_subscription (sub_id msg)) st)
        else
          case subscribed_new msg of
            Inl e \<Rightarrow> (Inl e, st)
          | Inr sd \<Rightarrow>
              let i = si_id (sd_info sd);
                  pb = pb\<lparr>pb_subscribed_names := name_insert full i (pb_subscribed_names pb),
                    pb_subscribeds := insert i (pb_subscribeds pb), pb_forwarders := (pb_forwarders pb)(i \<mapsto> sd_state sd)\<rparr> in
              case map_of (pb_publish_namespaces pb) (sub_track_namespace msg) of
                Some r \<Rightarrow>
                  (case with_mut (\<lambda>v. v\<lparr>pst_subscribers := pst_subscribers v @ [sd]\<rparr>) (pnr_state r) of
                     None \<Rightarrow> (Inl (SeServe SDone), subscribed_dropped show_err sd (c, pb))
                   | Some (_, s) \<Rightarrow> (Inr (), c, pb\<lparr>pb_publish_namespaces :=
                       map (\<lambda>(k, w). if k = sub_track_namespace msg then (k, r\<lparr>pnr_state := s\<rparr>) else (k, w)) (pb_publish_namespaces pb)\<rparr>))
              | None \<Rightarrow>
                  (case queue_push sd (pb_unknown_subscribed pb) of
                     (Inr _, _, q) \<Rightarrow> (Inr (), c, pb\<lparr>pb_unknown_subscribed := q\<rparr>)
                   | (Inl sd, _, q) \<Rightarrow>
                       (case subscribed_close show_err SNotFoundWithId sd (c, pb\<lparr>pb_unknown_subscribed := q\<rparr>) of
                          (res, st) \<Rightarrow> (serve_err res, st))))"

definition recv_track_status :: "track_status \<Rightarrow> pub_st \<Rightarrow> ('e session_error + unit) \<times> pub_st" where
  "recv_track_status msg st =
     (case st of (c, pb) \<Rightarrow>
        case map_of (pb_publish_namespaces pb) (ts_track_namespace msg) of
          Some r \<Rightarrow>
            (case with_mut (\<lambda>v. v\<lparr>pst_track_statuses := pst_track_statuses v @ [msg]\<rparr>) (pnr_state r) of
               None \<Rightarrow> (Inl (SeServe SDone), c, pb)
             | Some (_, s) \<Rightarrow> (Inr (), c, pb\<lparr>pb_publish_namespaces :=
                 map (\<lambda>(k, w). if k = ts_track_namespace msg then (k, r\<lparr>pnr_state := s\<rparr>) else (k, w)) (pb_publish_namespaces pb)\<rparr>))
        | None \<Rightarrow>
            (case queue_push msg (pb_unknown_track_status pb) of
               (Inr _, _, q) \<Rightarrow> (Inr (), c, pb\<lparr>pb_unknown_track_status := q\<rparr>)
             | (Inl req, _, q) \<Rightarrow>
                 (Inr (), pub_send_message (track_status_respond_error req (request_error_code_value ReqInternalError) ''internal error'')
                    (c, pb\<lparr>pb_unknown_track_status := q\<rparr>))))"

text \<open>\<^verbatim>\<open>recv_subscribe_namespace\<close> on its own stream: \<open>Inl\<close> is a rejection for overlapping prefixes.\<close>

definition recv_subscribe_namespace ::
    "subscribe_namespace \<Rightarrow> publisher \<Rightarrow> ('e session_error + (unit + bool)) \<times> publisher" where
  "recv_subscribe_namespace msg pb =
     (case decode_err (forward (sns_params msg)) of
        Inl e \<Rightarrow> (Inl e, pb)
      | Inr fwd \<Rightarrow>
          if list_ex (\<lambda>(_, existing). overlaps existing (sns_track_namespace_prefix msg)) (pb_subscribed_namespace_prefixes pb)
          then (Inr (Inl ()), pb)
          else (Inr (Inr (unwrap_or fwd True)), pb\<lparr>pb_subscribed_namespace_prefixes :=
            pb_subscribed_namespace_prefixes pb @ [(sns_id msg, sns_track_namespace_prefix msg)]\<rparr>))"

text \<open>\<^verbatim>\<open>PublishedEntry::recv_unsubscribe\<close>.\<close>

definition unsubscribe_published :: "bool \<Rightarrow> u64 \<Rightarrow> publisher \<Rightarrow> (serve_error + unit) \<times> publisher" where
  "unsubscribe_published registered i pb =
     (case pb_published_states pb i of
        None \<Rightarrow> (Inr (), pb)
      | Some s \<Rightarrow>
          (case published_recv_unsubscribe s of
             (Inl e, s) \<Rightarrow> (Inl e, pb)
           | (Inr _, s) \<Rightarrow>
               let pb = pb\<lparr>pb_published_states := (pb_published_states pb)(i \<mapsto> s)\<rparr> in
               if \<not> registered then (Inr (), pb)
               else
                 case pb_forwarders pb i of
                   None \<Rightarrow> (Inr (), pb)
                 | Some f \<Rightarrow>
                     (case recv_unsubscribe_forwarder f of
                        (res, f) \<Rightarrow> (res, pb\<lparr>pb_forwarders := (pb_forwarders pb)(i \<mapsto> f)\<rparr>))))"

definition recv_unsubscribe :: "unsubscribe \<Rightarrow> pub_st \<Rightarrow> ('e session_error + unit) \<times> pub_st" where
  "recv_unsubscribe msg st =
     (case st of (c, pb) \<Rightarrow>
        let i = unsub_id msg in
        case pub_remove_subscribe i pb of
          (True, pb) \<Rightarrow>
            (case pb_forwarders pb i of
               None \<Rightarrow> (Inr (), c, pb)
             | Some s \<Rightarrow>
                 (case recv_unsubscribe_forwarder s of
                    (res, s) \<Rightarrow> (serve_err res, c, drop_forwarder i (pb\<lparr>pb_forwarders := (pb_forwarders pb)(i \<mapsto> s)\<rparr>))))
        | (False, pb) \<Rightarrow>
            (case remove_published i (c, pb) of
               (None, st) \<Rightarrow> (Inr (), st)
             | (Some registered, c, pb) \<Rightarrow>
                 (case unsubscribe_published registered i pb of (res, pb) \<Rightarrow>
                    (serve_err res, c, drop_published_entry registered i pb))))"

definition pub_recv_message :: "(serve_error \<Rightarrow> rust_string) \<Rightarrow> subscriber_msg \<Rightarrow> pub_st \<Rightarrow> ('e session_error + unit) \<times> pub_st" where
  "pub_recv_message show_err msg =
     (case msg of
        SSubscribe m \<Rightarrow> recv_subscribe show_err m
      | SRequestUpdate m \<Rightarrow> recv_request_update m
      | SRequestOk m \<Rightarrow> pub_recv_request_ok m
      | SRequestError m \<Rightarrow> pub_recv_request_error m
      | SUnsubscribe m \<Rightarrow> recv_unsubscribe m
      | SFetch m \<Rightarrow> recv_fetch m
      | SFetchCancel m \<Rightarrow> recv_fetch_cancel m
      | STrackStatus m \<Rightarrow> recv_track_status m
      | SSubscribeNamespace m \<Rightarrow> (\<lambda>st. (Inl SeProtocolViolation, st))
      | SPublishNamespaceCancel m \<Rightarrow> recv_publish_namespace_cancel m
      | SPublishOk m \<Rightarrow> pub_recv_publish_ok m)"

end
