(* ===== verification/Session_Loop.thy ===== *)
theory Session_Loop
  imports Publisher_Role
begin

text \<open>
  The session itself (\<^verbatim>\<open>moq-transport/src/session/mod.rs\<close>): the connection path and the setup
  parameters, the routing of control messages to the two roles, and the timeouts of pending
  requests. A session is the state the roles share and the state of each; a step of it is one
  turn of one of its loops or one call of the application. The transport and the select over
  the loops are not modelled: a failing turn ends the session.
\<close>

section \<open>Setup\<close>

definition MAX_CONNECTION_PATH_LEN :: nat where
  "MAX_CONNECTION_PATH_LEN = 1024"

definition DEFAULT_MAX_REQUEST_ID :: u64 where
  "DEFAULT_MAX_REQUEST_ID = 100"

abbreviation (input) slash :: u8 where "slash \<equiv> 0x2f"

definition bad_segment :: "rust_string \<Rightarrow> bool" where
  "bad_segment seg \<longleftrightarrow> seg = [] \<or> 0x25 \<in> set seg \<or> seg = [0x2e] \<or> seg = [0x2e, 0x2e]"

definition trim_slashes :: "rust_string \<Rightarrow> rust_string" where
  "trim_slashes raw = rev (dropWhile (\<lambda>b. b = slash) (rev raw))"

definition normalize_connection_path :: "rust_string \<Rightarrow> 'e session_error + rust_string option" where
  "normalize_connection_path raw =
     (if raw = [] \<or> raw = [slash] then Inr None
      else if length raw > MAX_CONNECTION_PATH_LEN then Inl SeInvalidPath
      else if hd raw \<noteq> slash then Inl SeInvalidPath
      else
        let trimmed = trim_slashes raw in
        if trimmed = [] then Inr None
        else if list_ex bad_segment (tl (split_slash trimmed)) then Inl SeInvalidPath
        else Inr (Some trimmed))"

definition decode_client_setup_path :: "kvps \<Rightarrow> 'e session_error + rust_string option" where
  "decode_client_setup_path params =
     (case kvps_get params (parameter_type_value PathParam) of
        None \<Rightarrow> Inr None
      | Some k \<Rightarrow>
          (case kvp_val k of
             IntValue _ \<Rightarrow> Inl SeInvalidPath
           | BytesValue bs \<Rightarrow>
               if length bs > MAX_CONNECTION_PATH_LEN then Inl SeInvalidPath
               else
                 case from_utf8 bs of
                   Inl _ \<Rightarrow> Inl SeInvalidPath
                 | Inr path \<Rightarrow> normalize_connection_path path))"

definition reject_unframed_profile :: "wire_profile \<Rightarrow> 'e session_error + unit" where
  "reject_unframed_profile p =
     (case p of Draft16 \<Rightarrow> Inr () | Blockcast01 \<Rightarrow> Inr () | Draft19 \<Rightarrow> Inl SeProfileFramingMismatch)"

datatype transport = WebTransport | RawQuic

definition CATALOG_SUBSCRIPTION_CAPABILITIES :: u64 where
  "CATALOG_SUBSCRIPTION_CAPABILITIES = 0x4243"

text \<open>
  The parameters of CLIENT_SETUP, from the URL's path, query and authority (host and port joined),
  and the client's own connection path.
\<close>

definition client_setup_params ::
    "transport \<Rightarrow> rust_string option \<Rightarrow> rust_string \<Rightarrow> rust_string option \<Rightarrow> u64 \<Rightarrow> bytes option \<Rightarrow> kvps" where
  "client_setup_params t authority url_path query our_max caps =
     (let params = (if t = RawQuic then
            let params = (case authority of None \<Rightarrow> [] | Some a \<Rightarrow> set_bytesvalue (parameter_type_value AuthorityParam) a []);
                path_and_query = (case query of Some q \<Rightarrow> url_path @ 0x3f # q | None \<Rightarrow> url_path) in
            if path_and_query \<noteq> [] \<and> path_and_query \<noteq> [slash]
            then set_bytesvalue (parameter_type_value PathParam) path_and_query params else params
          else []);
          params = set_intvalue (parameter_type_value MaxRequestIdParam) our_max params in
      case caps of None \<Rightarrow> params | Some d \<Rightarrow> set_bytesvalue CATALOG_SUBSCRIPTION_CAPABILITIES d params)"

text \<open>The server's connection path: the WebTransport URL first, then the PATH parameter.\<close>

definition accepted_connection_path :: "rust_string \<Rightarrow> kvps \<Rightarrow> 'e session_error + rust_string option" where
  "accepted_connection_path wt_url_path params =
     bindE (normalize_connection_path wt_url_path) (\<lambda>wt_path.
     case wt_path of
       Some p \<Rightarrow> Inr (Some p)
     | None \<Rightarrow> decode_client_setup_path params)"

definition server_setup_params :: "u64 \<Rightarrow> kvps" where
  "server_setup_params our_max = set_intvalue (parameter_type_value MaxRequestIdParam) our_max []"

section \<open>State\<close>

record 'e session =
  se_core :: session_core
  se_sub :: "'e subscriber"
  se_pub :: publisher
  se_goaway :: bool

text \<open>\<^verbatim>\<open>RequestId::new(first, peer_max, our_max, peer_first)\<close>: the client counts from 0, the server from 1.\<close>

definition session_core_new :: "u64 \<Rightarrow> u64 \<Rightarrow> u64 \<Rightarrow> u64 \<Rightarrow> session_core" where
  "session_core_new local_first peer_max our_max peer_first =
     \<lparr>sc_outgoing = queue_new, sc_send_ids = send_ids_new local_first peer_max, sc_recv_ids = recv_ids_new our_max peer_first,
      sc_pending = [], sc_now = 0\<rparr>"

definition client_session :: "u64 \<Rightarrow> u64 \<Rightarrow> wire_profile \<Rightarrow> 'e session" where
  "client_session peer_max our_max profile =
     \<lparr>se_core = session_core_new 0 peer_max our_max 1, se_sub = subscriber_new, se_pub = publisher_new profile, se_goaway = False\<rparr>"

definition server_session :: "u64 \<Rightarrow> u64 \<Rightarrow> wire_profile \<Rightarrow> 'e session" where
  "server_session peer_max our_max profile =
     \<lparr>se_core = session_core_new 1 peer_max our_max 0, se_sub = subscriber_new, se_pub = publisher_new profile, se_goaway = False\<rparr>"

text \<open>A call into one role, on the shared state and its own.\<close>

definition via_sub :: "('e sub_st \<Rightarrow> 'a \<times> 'e sub_st) \<Rightarrow> 'e session \<Rightarrow> 'a \<times> 'e session" where
  "via_sub f se = (case f (se_core se, se_sub se) of (r, c, sb) \<Rightarrow> (r, se\<lparr>se_core := c, se_sub := sb\<rparr>))"

definition via_pub :: "(pub_st \<Rightarrow> 'a \<times> pub_st) \<Rightarrow> 'e session \<Rightarrow> 'a \<times> 'e session" where
  "via_pub f se = (case f (se_core se, se_pub se) of (r, c, pb) \<Rightarrow> (r, se\<lparr>se_core := c, se_pub := pb\<rparr>))"

definition with_core :: "(session_core \<Rightarrow> 'a \<times> session_core) \<Rightarrow> 'e session \<Rightarrow> 'a \<times> 'e session" where
  "with_core f se = (case f (se_core se) of (r, c) \<Rightarrow> (r, se\<lparr>se_core := c\<rparr>))"

definition core_complete :: "u64 \<Rightarrow> pending_response \<Rightarrow> session_core \<Rightarrow> ('e session_error + pending_request option) \<times> session_core" where
  "core_complete i resp c = (case pr_complete i resp (sc_pending c) of (r, p) \<Rightarrow> (r, c\<lparr>sc_pending := p\<rparr>))"

definition core_validate :: "u64 \<Rightarrow> session_core \<Rightarrow> ('e session_error + unit) \<times> session_core" where
  "core_validate i c = (case validate_incoming i (sc_recv_ids c) of (r, s) \<Rightarrow> (r, c\<lparr>sc_recv_ids := s\<rparr>))"

section \<open>Responses to our requests\<close>

definition session_recv_request_ok :: "request_ok \<Rightarrow> 'e session \<Rightarrow> ('e session_error + unit) \<times> 'e session" where
  "session_recv_request_ok msg se =
     (case with_core (core_complete (rok_id msg) RespRequestOk) se of
        (Inl e, se) \<Rightarrow> (Inl e, se)
      | (Inr (Some PendPublishNamespace), se) \<Rightarrow> via_pub (pub_recv_request_ok msg) se
      | (Inr (Some _), se) \<Rightarrow> (Inl SeProtocolViolation, se)
      | (Inr None, se) \<Rightarrow> (Inr (), se))"

definition session_recv_request_error :: "request_error \<Rightarrow> 'e session \<Rightarrow> ('e session_error + unit) \<times> 'e session" where
  "session_recv_request_error msg se =
     (case with_core (core_complete (rerr_id msg) RespRequestError) se of
        (Inl e, se) \<Rightarrow> (Inl e, se)
      | (Inr (Some request), se) \<Rightarrow>
          (if request = PendPublishNamespace \<or> request = PendPublish then via_pub (pub_recv_request_error msg) se
           else via_sub (sub_recv_request_error msg) se)
      | (Inr None, se) \<Rightarrow> (Inr (), se))"

definition session_recv_publish_ok :: "publish_ok \<Rightarrow> 'e session \<Rightarrow> ('e session_error + unit) \<times> 'e session" where
  "session_recv_publish_ok msg se =
     (case with_core (core_complete (pok_id msg) RespPublishOk) se of
        (Inl e, se) \<Rightarrow> (Inl e, se)
      | (Inr (Some PendPublish), se) \<Rightarrow> via_pub (pub_recv_publish_ok msg) se
      | (Inr (Some _), se) \<Rightarrow> (Inl SeProtocolViolation, se)
      | (Inr None, se) \<Rightarrow> (Inr (), se))"

definition session_recv_subscribe_ok :: "subscribe_ok \<Rightarrow> 'e session \<Rightarrow> ('e session_error + unit) \<times> 'e session" where
  "session_recv_subscribe_ok msg se =
     (case with_core (core_complete (sok_id msg) RespSubscribeOk) se of
        (Inl e, se) \<Rightarrow> (Inl e, se)
      | (Inr (Some PendSubscribe), se) \<Rightarrow> via_sub (sub_recv_subscribe_ok msg) se
      | (Inr (Some _), se) \<Rightarrow> (Inl SeProtocolViolation, se)
      | (Inr None, se) \<Rightarrow> (Inr (), se))"

section \<open>One turn of the control loop\<close>

text \<open>Everything \<^verbatim>\<open>run_recv\<close> does with a message once its id is accepted.\<close>

definition dispatch_message :: "(serve_error \<Rightarrow> rust_string) \<Rightarrow> message \<Rightarrow> 'e session \<Rightarrow> ('e session_error + unit) \<times> 'e session" where
  "dispatch_message show_err msg se =
     (case msg of
        RequestOk m \<Rightarrow> session_recv_request_ok m se
      | RequestError m \<Rightarrow> session_recv_request_error m se
      | PublishOk m \<Rightarrow> session_recv_publish_ok m se
      | SubscribeOk m \<Rightarrow> session_recv_subscribe_ok m se
      | _ \<Rightarrow>
          (case publisher_msg_try_from msg of
             Inr m \<Rightarrow> via_sub (sub_recv_message show_err m) se
           | Inl msg \<Rightarrow>
               (case subscriber_msg_try_from msg of
                  Inr m \<Rightarrow> via_pub (pub_recv_message show_err m) se
                | Inl msg \<Rightarrow>
                    (case msg of
                       GoAway _ \<Rightarrow> if se_goaway se then (Inl SeProtocolViolation, se) else (Inr (), se\<lparr>se_goaway := True\<rparr>)
                     | MaxRequestId m \<Rightarrow>
                         with_core (\<lambda>c. case apply_max_request_id m (sc_send_ids c) of (r, s) \<Rightarrow> (r, c\<lparr>sc_send_ids := s\<rparr>)) se
                     | RequestsBlocked m \<Rightarrow>
                         with_core (\<lambda>c. case handle_requests_blocked m (sc_recv_ids c) of (r, s) \<Rightarrow> (r, c\<lparr>sc_recv_ids := s\<rparr>)) se
                     | _ \<Rightarrow> (Inl (SeServe SNotImplementedWithId), se)))))"

definition recv_control :: "(serve_error \<Rightarrow> rust_string) \<Rightarrow> message \<Rightarrow> 'e session \<Rightarrow> ('e session_error + unit) \<times> 'e session" where
  "recv_control show_err msg se =
     (case msg of
        Unknown _ _ \<Rightarrow> (Inr (), se)
      | _ \<Rightarrow>
          (case sequenced_request_id msg of
             None \<Rightarrow> dispatch_message show_err msg se
           | Some i \<Rightarrow>
               (case with_core (core_validate i) se of
                  (Inl e, se) \<Rightarrow> (Inl e, se)
                | (Inr _, se) \<Rightarrow> dispatch_message show_err msg se)))"

text \<open>\<^verbatim>\<open>run_recv\<close> on a control stream: it ends with the error of a turn or of the stream.\<close>

lemma message_decode_Nil: "message_decode [] = Inl (More 1)"
  by code_simp

function run_recv :: "(serve_error \<Rightarrow> rust_string) \<Rightarrow> 'e reader \<Rightarrow> 'e session \<Rightarrow> 'e session_error \<times> 'e session" where
  "run_recv show_err rd se =
     (case reader_decode message_decode rd of
        (Inl e, _) \<Rightarrow> (e, se)
      | (Inr msg, rd) \<Rightarrow>
          (case recv_control show_err msg se of
             (Inl e, se) \<Rightarrow> (e, se)
           | (Inr _, se) \<Rightarrow> run_recv show_err rd se))"
  by pat_completeness auto
termination
  by (relation "measure (\<lambda>(_, rd, _). input_left rd)")
    (auto dest: reader_decode_input [OF sym decoder_message message_decode_Nil])

declare run_recv.simps [simp del]

section \<open>Timeouts\<close>

definition request_timed_out :: "u64 \<times> pending_request \<Rightarrow> 'e session \<Rightarrow> ('e session_error + unit) \<times> 'e session" where
  "request_timed_out r se =
     (case r of (i, request) \<Rightarrow>
        if request = PendPublishNamespace \<or> request = PendPublish then via_pub (pub_recv_request_timeout i request) se
        else via_sub (sub_recv_request_timeout i request) se)"

fun requests_timed_out :: "(u64 \<times> pending_request) list \<Rightarrow> 'e session \<Rightarrow> ('e session_error + unit) \<times> 'e session" where
  "requests_timed_out [] se = (Inr (), se)"
| "requests_timed_out (r # rs) se =
     (case request_timed_out r se of
        (Inl e, se) \<Rightarrow> (Inl e, se)
      | (Inr _, se) \<Rightarrow> requests_timed_out rs se)"

text \<open>One turn of \<^verbatim>\<open>run_pending_timeouts\<close> at the time on the clock.\<close>

definition expire_requests :: "'e session \<Rightarrow> ('e session_error + unit) \<times> 'e session" where
  "expire_requests se =
     (case with_core (\<lambda>c. case pr_expire (sc_now c) (sc_pending c) of (expired, p) \<Rightarrow> (expired, c\<lparr>sc_pending := p\<rparr>)) se of
        (expired, se) \<Rightarrow> requests_timed_out expired se)"

text \<open>One turn of \<^verbatim>\<open>run_datagrams\<close>.\<close>

definition session_recv_datagram :: "track_alias_registry list \<Rightarrow> bytes \<Rightarrow> 'e session \<Rightarrow> ('e session_error + unit) \<times> 'e session" where
  "session_recv_datagram later bs se = via_sub (\<lambda>(c, sb). case recv_datagram later bs sb of (r, sb) \<Rightarrow> (r, c, sb)) se"

end
