(* ===== verification/Session_Laws.thy ===== *)
theory Session_Laws
  imports Session_Loop
begin

text \<open>
  What holds of a session in every state it can reach: request ids handed out and accepted have
  different parities, so requests of the two directions never collide; every track alias
  resolves to a receiver that is still there; and no track name has two subscriptions. The
  steps are the turns of the session's loops and the calls of the application, in any
  order.
\<close>

section \<open>The shared state\<close>

definition own_id :: "session_core \<Rightarrow> u64 \<Rightarrow> bool" where
  "own_id c i \<longleftrightarrow> unat i < unat (si_next (sc_send_ids c)) \<and> unat i mod 2 = unat (si_next (sc_send_ids c)) mod 2"

definition peer_id :: "session_core \<Rightarrow> u64 \<Rightarrow> bool" where
  "peer_id c i \<longleftrightarrow> i \<in> accepted_ids (sc_recv_ids c)"

definition core_inv :: "session_core \<Rightarrow> bool" where
  "core_inv c \<longleftrightarrow>
     recv_inv (sc_recv_ids c) \<and> unat (ri_our_max (sc_recv_ids c)) < 2 ^ 64 - 1 \<and>
     unat (ri_first (sc_recv_ids c)) mod 2 \<noteq> unat (si_next (sc_send_ids c)) mod 2 \<and>
     pr_wf (sc_pending c) \<and> (\<forall>i \<in> fst ` set (sc_pending c). own_id c i)"

text \<open>Ids once handed out or accepted stay so.\<close>

definition core_le :: "session_core \<Rightarrow> session_core \<Rightarrow> bool" where
  "core_le c c' \<longleftrightarrow> (\<forall>i. own_id c i \<longrightarrow> own_id c' i) \<and> (\<forall>i. peer_id c i \<longrightarrow> peer_id c' i)"

abbreviation (input) core_step :: "session_core \<Rightarrow> session_core \<Rightarrow> bool" where
  "core_step c c' \<equiv> core_inv c' \<and> core_le c c'"

lemma core_le_refl [simp]: "core_le c c"
  by (simp add: core_le_def)

lemma core_le_trans: "core_le a b \<Longrightarrow> core_le b c \<Longrightarrow> core_le a c"
  by (simp add: core_le_def)

lemma own_not_peer: "core_inv c \<Longrightarrow> own_id c i \<Longrightarrow> \<not> peer_id c i"
  by (auto simp: core_inv_def own_id_def peer_id_def accepted_ids_def id_range_def recv_inv_def word_mod_2_iff)

lemma push_outgoing_core [simp]:
  "core_inv (push_outgoing m c) = core_inv c" "own_id (push_outgoing m c) = own_id c" "peer_id (push_outgoing m c) = peer_id c"
  "core_le c' (push_outgoing m c) = core_le c' c" "core_le (push_outgoing m c) c' = core_le c c'"
  by (simp_all add: fun_eq_iff core_inv_def own_id_def peer_id_def core_le_def push_outgoing_def)

lemma outgoing_irrelevant [simp]:
  "core_inv (c\<lparr>sc_outgoing := q\<rparr>) = core_inv c" "own_id (c\<lparr>sc_outgoing := q\<rparr>) = own_id c" "peer_id (c\<lparr>sc_outgoing := q\<rparr>) = peer_id c"
  "core_le c' (c\<lparr>sc_outgoing := q\<rparr>) = core_le c' c" "core_le (c\<lparr>sc_outgoing := q\<rparr>) c' = core_le c c'"
  by (simp_all add: fun_eq_iff core_inv_def own_id_def peer_id_def core_le_def)

lemma pending_irrelevant [simp]:
  "own_id (c\<lparr>sc_pending := p\<rparr>) = own_id c" "peer_id (c\<lparr>sc_pending := p\<rparr>) = peer_id c"
  "core_le c' (c\<lparr>sc_pending := p\<rparr>) = core_le c' c" "core_le (c\<lparr>sc_pending := p\<rparr>) c' = core_le c c'"
  by (simp_all add: fun_eq_iff own_id_def peer_id_def core_le_def)

lemma core_inv_pending:
  assumes "core_inv c" and "pr_wf p" and "\<And>i. i \<in> fst ` set p \<Longrightarrow> i \<in> fst ` set (sc_pending c) \<or> own_id c i"
  shows "core_inv (c\<lparr>sc_pending := p\<rparr>)"
proof -
  have "\<forall>i \<in> fst ` set p. own_id c i" using assms(1,3) unfolding core_inv_def by blast
  then show ?thesis using assms(1,2) by (simp add: core_inv_def)
qed

lemma pr_remove_core [simp]: "core_inv c \<Longrightarrow> core_inv (c\<lparr>sc_pending := snd (pr_remove i (sc_pending c))\<rparr>)"
  by (rule core_inv_pending) (auto simp: core_inv_def pr_remove_def pr_wf_def distinct_filter_fst)

lemma pr_complete_core:
  assumes "core_inv c" and "pr_complete i resp (sc_pending c) = (r, p)"
  shows "core_inv (c\<lparr>sc_pending := p\<rparr>)" and "r = Inr (Some q) \<Longrightarrow> own_id c i"
proof -
  have "pr_wf (sc_pending c)" using assms(1) by (simp add: core_inv_def)
  then have "pr_wf p" using pr_wf_ops(3) assms(2) by blast
  moreover have "fst ` set p \<subseteq> fst ` set (sc_pending c)"
    using assms(2) by (auto simp: pr_complete_def split: option.splits if_splits)
  ultimately show "core_inv (c\<lparr>sc_pending := p\<rparr>)" using assms(1) by (intro core_inv_pending) auto
  assume "r = Inr (Some q)"
  then obtain st where "map_of (sc_pending c) i = Some st" using assms(2) by (auto simp: pr_complete_def split: option.splits)
  then have "i \<in> fst ` set (sc_pending c)" by (force dest: map_of_SomeD)
  then show "own_id c i" using assms(1) unfolding core_inv_def by blast
qed

lemma pr_insert_core:
  assumes "core_inv c" and "own_id c i" and "pr_insert now i q (sc_pending c) = (r, p)"
  shows "core_inv (c\<lparr>sc_pending := p\<rparr>)"
proof -
  have "pr_wf (sc_pending c)" using assms(1) by (simp add: core_inv_def)
  then have "pr_wf p" using pr_wf_ops(1) assms(3) by blast
  then show ?thesis using assms by (intro core_inv_pending) (auto simp: pr_insert_def split: if_splits)
qed

lemma get_next_request_id_core:
  assumes "core_inv c" and "get_next_request_id c = (r, c')"
  shows "core_step c c'" and "r = Inr i \<Longrightarrow> own_id c' i \<and> \<not> own_id c i \<and> \<not> peer_id c i"
proof -
  obtain a s where a: "(allocate (sc_send_ids c) :: ('a session_error + request_id_allocation) \<times> send_ids) = (a, s)" by (rule prod.exhaust)
  have *: "core_step c c' \<and> (r = Inr i \<longrightarrow> own_id c' i \<and> \<not> own_id c i \<and> \<not> peer_id c i)"
  proof (cases "\<exists>j. a = Inr (Allocated j)")
    case True
    then obtain j where j: "a = Inr (Allocated j)" by blast
    have n: "j = si_next (sc_send_ids c)" "unat (si_next s) = unat j + 2" using allocate_handed [OF a [unfolded j]] by auto
    have c': "c' = c\<lparr>sc_send_ids := s\<rparr>" and r: "r = Inr j"
      using assms(2) a j by (auto simp: get_next_request_id_def)
    have own: "own_id c' k \<longleftrightarrow> own_id c k \<or> k = j" for k
      using parity_step [of "unat j" "unat j" "unat k"] n by (auto simp: own_id_def c' word_unat_eq_iff)
    have "core_inv c'" using assms(1) own n by (auto simp: core_inv_def c')
    moreover have "peer_id c' = peer_id c" by (simp add: peer_id_def fun_eq_iff c')
    moreover have "\<not> own_id c j" by (simp add: own_id_def n(1))
    ultimately show ?thesis using own own_not_peer [of c' j] r by (auto simp: core_le_def)
  next
    case False
    have n: "si_next s = si_next (sc_send_ids c)" using allocate_refused [OF a False] by simp
    have "sc_recv_ids c' = sc_recv_ids c" "sc_pending c' = sc_pending c" "sc_send_ids c' = s" "\<nexists>j. r = Inr j"
      using assms(2) a False
      by (auto simp: get_next_request_id_def push_outgoing_def Let_def split: sum.splits request_id_allocation.splits option.splits)
    then have "core_inv c'" "own_id c' = own_id c" "peer_id c' = peer_id c" "\<nexists>j. r = Inr j"
      using assms(1) n by (simp_all add: core_inv_def own_id_def peer_id_def fun_eq_iff)
    then show ?thesis by (auto simp: core_le_def)
  qed
  then show "core_step c c'" and "r = Inr i \<Longrightarrow> own_id c' i \<and> \<not> own_id c i \<and> \<not> peer_id c i" by auto
qed

lemma core_validate_core:
  assumes "core_inv c" and "core_validate i c = (r, c')"
  shows "core_step c c'" and "r = Inr u \<Longrightarrow> peer_id c' i \<and> \<not> peer_id c i \<and> \<not> own_id c' i"
proof -
  obtain s where s: "validate_incoming i (sc_recv_ids c) = (r, s)" and c': "c' = c\<lparr>sc_recv_ids := s\<rparr>"
    using assms(2) by (auto simp: core_validate_def split: prod.splits)
  have i: "recv_inv (sc_recv_ids c)" "unat (ri_our_max (sc_recv_ids c)) < 2 ^ 64 - 1" using assms(1) by (simp_all add: core_inv_def)
  note v = validate_incoming_refines [OF i s]
  have inv: "core_inv c'" using assms(1) v by (auto simp: core_inv_def c' own_id_def)
  moreover have "core_le c c'" using v by (auto simp: core_le_def own_id_def peer_id_def c' split: if_splits)
  ultimately show "core_step c c'" by simp
  assume "r = Inr u"
  then have "peer_id c' i \<and> \<not> peer_id c i" using v by (auto simp: peer_id_def c' id_admissible_def split: if_splits)
  then show "peer_id c' i \<and> \<not> peer_id c i \<and> \<not> own_id c' i" using own_not_peer [OF inv] by blast
qed

section \<open>The subscriber role\<close>

definition origin_live :: "'e subscriber \<Rightarrow> track_origin \<Rightarrow> bool" where
  "origin_live sb og =
     (case og of OriginSubscribe i \<Rightarrow> sb_subscribes sb i \<noteq> None | OriginPublish i \<Rightarrow> sb_publishes_received sb i \<noteq> None)"

definition sub_inv :: "session_core \<Rightarrow> 'e subscriber \<Rightarrow> bool" where
  "sub_inv c sb \<longleftrightarrow>
     alias_registry_wf (sb_aliases sb) \<and> name_registry_wf (sb_names sb) \<and>
     dom (nr_by_request_id (sb_names sb)) = dom (sb_subscribes sb) \<union> dom (sb_publishes_received sb) \<and>
     (\<forall>a og. ta_by_alias (sb_aliases sb) a = Some og \<longrightarrow> origin_live sb og) \<and>
     (\<forall>i \<in> dom (sb_subscribes sb). own_id c i) \<and> (\<forall>i \<in> dom (sb_publishes_received sb). peer_id c i)"

lemma sub_inv_mono: "sub_inv c sb \<Longrightarrow> core_le c c' \<Longrightarrow> sub_inv c' sb"
  by (auto simp: sub_inv_def core_le_def)

lemma sub_inv_cong:
  assumes "sub_inv c sb" and "sb_aliases sb' = sb_aliases sb" and "sb_names sb' = sb_names sb"
    and "dom (sb_subscribes sb') = dom (sb_subscribes sb)" and "dom (sb_publishes_received sb') = dom (sb_publishes_received sb)"
  shows "sub_inv c sb'"
proof -
  have "origin_live sb' = origin_live sb"
    using assms(4,5) by (auto simp: origin_live_def fun_eq_iff dom_def set_eq_iff split: track_origin.split)
  then show ?thesis using assms by (simp add: sub_inv_def)
qed

text \<open>Everything the role knows of a request, forgotten.\<close>

definition forget :: "u64 \<Rightarrow> 'e subscriber \<Rightarrow> 'e subscriber" where
  "forget i sb =
     sb\<lparr>sb_subscribes := (sb_subscribes sb)(i := None), sb_publishes_received := (sb_publishes_received sb)(i := None),
        sb_aliases := snd (alias_remove_by_request_id i (sb_aliases sb)), sb_names := snd (name_remove_by_request_id i (sb_names sb))\<rparr>"

lemma alias_remaining:
  assumes "alias_registry_wf r" and "ta_by_alias (snd (alias_remove_by_request_id i r)) a = Some og"
  shows "ta_by_alias r a = Some og \<and> origin_request_id og \<noteq> i"
proof -
  let ?r = "snd (alias_remove_by_request_id i r)"
  have "alias_owner ?r a = Some (origin_request_id og)" using assms(2) by (simp add: alias_owner_def)
  then have "origin_request_id og \<noteq> i" using aliases.remove_frees [OF assms(1), of i a] by (auto split: if_splits)
  moreover have "ta_by_alias r a = Some og"
    using assms(2) by (auto simp: alias_remove_by_request_id_def split: option.splits if_splits)
  ultimately show ?thesis by simp
qed

lemma forget_inv:
  assumes "sub_inv c sb"
  shows "sub_inv c (forget i sb)"
proof -
  have wf: "alias_registry_wf (sb_aliases sb)" "name_registry_wf (sb_names sb)"
    and live: "\<And>a og. ta_by_alias (sb_aliases sb) a = Some og \<Longrightarrow> origin_live sb og"
    using assms by (simp_all add: sub_inv_def)
  have "origin_live (forget i sb) og" if "ta_by_alias (snd (alias_remove_by_request_id i (sb_aliases sb))) a = Some og" for a og
    using alias_remaining [OF wf(1) that] live [of a og]
    by (auto simp: origin_live_def forget_def split: track_origin.splits)
  moreover have "dom (nr_by_request_id (sb_names sb)) = dom (sb_subscribes sb) \<union> dom (sb_publishes_received sb)"
    using assms by (simp add: sub_inv_def)
  ultimately show ?thesis using assms alias_remove_wf [OF wf(1)] name_remove_wf [OF wf(2)]
    by (auto simp: sub_inv_def forget_def name_remove_key)
qed

lemma remove_subscribe_forgets:
  assumes "remove_subscribe i (c, sb) = (r, c', sb')" and "sb_publishes_received sb i = None"
  shows "sb' = forget i sb" and "c' = c\<lparr>sc_pending := snd (pr_remove i (sc_pending c))\<rparr>" and "r = sb_subscribes sb i"
  using assms by (auto simp: remove_subscribe_def forget_def fun_upd_idem)

text \<open>A new entry under a fresh id and a free name.\<close>

lemma fresh_entry_inv:
  assumes "sub_inv c sb" and "\<not> contains_name (sb_names sb) full" and "own_id c i" and "sb_publishes_received sb i = None"
  shows "sub_inv c (sb\<lparr>sb_names := name_insert full i (sb_names sb), sb_subscribes := (sb_subscribes sb)(i \<mapsto> sr)\<rparr>)"
  using assms name_insert_wf [of "sb_names sb" full i]
  by (auto simp: sub_inv_def name_insert_key origin_live_def split: track_origin.splits)

lemma fresh_publish_inv:
  assumes "sub_inv c sb" and "\<not> contains_name (sb_names sb) full" and "peer_id c i"
    and "sb_subscribes sb i = None" and "sb_publishes_received sb i = None" and "alias_insert a (OriginPublish i) (sb_aliases sb) = (Inr u, al)"
  shows "sub_inv c (sb\<lparr>sb_names := name_insert full i (sb_names sb), sb_aliases := al,
    sb_publishes_received := (sb_publishes_received sb)(i \<mapsto> prr)\<rparr>)"
proof -
  have wf: "alias_registry_wf al" using alias_insert_wf [of "sb_aliases sb" a "OriginPublish i"] assms(1,6) by (simp add: sub_inv_def)
  have "ta_by_alias al b = Some og \<Longrightarrow> og = OriginPublish i \<or> ta_by_alias (sb_aliases sb) b = Some og" for b og
    using assms(6) by (auto simp: alias_insert_def Let_def split: if_splits option.splits)
  then show ?thesis
    using assms(1-5) name_insert_wf [of "sb_names sb" full i] wf
    by (fastforce simp: sub_inv_def name_insert_key origin_live_def split: track_origin.splits)
qed

lemma alias_entry_inv:
  assumes "sub_inv c sb" and "sb_subscribes sb i = Some sr" and "alias_insert a (OriginSubscribe i) (sb_aliases sb) = (Inr u, al)"
  shows "sub_inv c (sb\<lparr>sb_aliases := al, sb_subscribes := (sb_subscribes sb)(i \<mapsto> sr')\<rparr>)"
proof -
  have wf: "alias_registry_wf al" using alias_insert_wf [of "sb_aliases sb" a "OriginSubscribe i"] assms(1,3) by (simp add: sub_inv_def)
  have "ta_by_alias al b = Some og \<Longrightarrow> og = OriginSubscribe i \<or> ta_by_alias (sb_aliases sb) b = Some og" for b og
    using assms(3) by (auto simp: alias_insert_def Let_def split: if_splits option.splits)
  then show ?thesis
    using assms(1,2) wf by (fastforce simp: sub_inv_def origin_live_def split: track_origin.splits)
qed

lemma sub_inv_fresh_own:
  "sub_inv c sb \<Longrightarrow> own_id c' i \<Longrightarrow> \<not> own_id c i \<Longrightarrow> \<not> peer_id c i \<Longrightarrow> sb_publishes_received sb i = None \<and> sb_subscribes sb i = None"
  by (auto simp: sub_inv_def dom_def)

subsection \<open>Every operation keeps it\<close>

abbreviation (input) sub_ok :: "session_core \<times> 'e subscriber \<Rightarrow> bool" where
  "sub_ok st \<equiv> core_inv (fst st) \<and> sub_inv (fst st) (snd st)"

definition sub_keeps :: "session_core \<Rightarrow> 'e sub_st \<Rightarrow> bool" where
  "sub_keeps c st \<longleftrightarrow> core_inv (fst st) \<and> core_le c (fst st) \<and> sub_inv (fst st) (snd st)"

lemma sub_keeps_pair: "sub_keeps c0 (c, sb) \<longleftrightarrow> core_inv c \<and> core_le c0 c \<and> sub_inv c sb"
  by (simp add: sub_keeps_def)

lemma sub_keeps_trans: "core_le a c \<Longrightarrow> sub_keeps c st \<Longrightarrow> sub_keeps a st"
  by (auto simp: sub_keeps_def intro: core_le_trans)

lemma with_store_frame [simp]:
  "sb_aliases (with_store f sb) = sb_aliases sb" "sb_names (with_store f sb) = sb_names sb"
  "sb_subscribes (with_store f sb) = sb_subscribes sb" "sb_publishes_received (with_store f sb) = sb_publishes_received sb"
  by (simp_all add: with_store_def)

lemma sub_inv_with_store [simp]: "sub_inv c (with_store f sb) = sub_inv c sb"
  by (simp add: sub_inv_def origin_live_def split: track_origin.split)

lemma drop_publish_namespace_frame [simp]:
  "sb_aliases (snd (drop_publish_namespace i sb)) = sb_aliases sb" "sb_names (snd (drop_publish_namespace i sb)) = sb_names sb"
  "sb_subscribes (snd (drop_publish_namespace i sb)) = sb_subscribes sb"
  "sb_publishes_received (snd (drop_publish_namespace i sb)) = sb_publishes_received sb"
  by (simp_all add: drop_publish_namespace_def split: option.split prod.split)

lemma sub_inv_other_fields [simp]:
  "sub_inv c (sb\<lparr>sb_published_namespaces := x1\<rparr>) = sub_inv c sb" "sub_inv c (sb\<lparr>sb_pn_done := x2\<rparr>) = sub_inv c sb"
  "sub_inv c (sb\<lparr>sb_published_namespace_queue := x3\<rparr>) = sub_inv c sb" "sub_inv c (sb\<lparr>sb_sub_closed := x4\<rparr>) = sub_inv c sb"
  "sub_inv c (sb\<lparr>sb_track_statuses := x5\<rparr>) = sub_inv c sb" "sub_inv c (sb\<lparr>sb_fetches := x6\<rparr>) = sub_inv c sb"
  "sub_inv c (sb\<lparr>sb_fetch_closed := x7\<rparr>) = sub_inv c sb" "sub_inv c (sb\<lparr>sb_publish_received_queue := x8\<rparr>) = sub_inv c sb"
  "sub_inv c (sb\<lparr>sb_subscribe_namespaces := x9\<rparr>) = sub_inv c sb" "sub_inv c (sb\<lparr>sb_store := x10\<rparr>) = sub_inv c sb"
  by (simp_all add: sub_inv_def origin_live_def split: track_origin.split)

lemma sub_inv_push_outgoing [simp]: "sub_inv (push_outgoing m c) sb = sub_inv c sb" "sub_inv (c\<lparr>sc_pending := p\<rparr>) sb = sub_inv c sb"
  by (simp_all add: sub_inv_def)

lemma sub_inv_drop_namespace [simp]: "sub_inv c (snd (drop_publish_namespace i sb)) = sub_inv c sb"
  by (simp add: sub_inv_def origin_live_def split: track_origin.split)

lemma sub_keeps_send [simp]: "sub_keeps c0 (sub_send_message m (c, sb)) = sub_keeps c0 (c, sb)"
  by (simp add: sub_send_message_def sub_keeps_def split: message.split)

lemma sub_keeps_send_opt [simp]: "sub_keeps c0 (send_opt m (c, sb)) = sub_keeps c0 (c, sb)"
  by (simp add: send_opt_def split: option.split)

text \<open>Storing a receiver back under an id that has one.\<close>

lemma sub_inv_put_subscribe: "sub_inv c sb \<Longrightarrow> sb_subscribes sb i = Some sr \<Longrightarrow> sub_inv c (sb\<lparr>sb_subscribes := (sb_subscribes sb)(i \<mapsto> sr')\<rparr>)"
  by (erule sub_inv_cong) auto

lemma sub_inv_put_publish:
  "sub_inv c sb \<Longrightarrow> sb_publishes_received sb i = Some pr \<Longrightarrow> sub_inv c (sb\<lparr>sb_publishes_received := (sb_publishes_received sb)(i \<mapsto> pr')\<rparr>)"
  by (erule sub_inv_cong) auto

lemma remove_subscribe_keeps:
  assumes "core_inv c" and "sub_inv c sb" and "own_id c i" and "remove_subscribe i (c, sb) = (r, c', sb')"
  shows "sub_keeps c (c', sb')"
proof -
  have "sb_publishes_received sb i = None" using assms(1-3) own_not_peer [of c i] by (auto simp: sub_inv_def)
  note f = remove_subscribe_forgets [OF assms(4) this]
  show ?thesis unfolding sub_keeps_def fst_conv snd_conv f using assms(1,2) forget_inv [of c sb i] by simp
qed

lemma subscribe_error_frame [simp]: "sub_inv c (snd (subscribe_error i sr e sb)) = sub_inv c sb"
  by (simp add: subscribe_error_def split_beta)

lemma sub_inv_no_name:
  "sub_inv c sb \<Longrightarrow> sb_subscribes sb i = None \<Longrightarrow> sb_publishes_received sb i = None \<Longrightarrow> nr_by_request_id (sb_names sb) i = None"
  by (metis Un_iff domIff sub_inv_def)

lemma name_insert_undo:
  "\<not> contains_name r n \<Longrightarrow> nr_by_request_id r i = None \<Longrightarrow> snd (name_remove_by_request_id i (name_insert n i r)) = r"
  by (cases r) (auto simp: name_insert_def contains_name_def name_remove_by_request_id_def fun_upd_idem)

lemma subscribe_open_keeps:
  assumes "core_inv c" and "sub_inv c sb" and "subscribe_open t (c, sb) = (r, st')"
  shows "sub_keeps c st'"
proof -
  obtain a c1 where a: "(get_next_request_id c :: (unit session_error + u64) \<times> session_core) = (a, c1)" by (rule prod.exhaust)
  note g = get_next_request_id_core [OF assms(1) a]
  have s1: "sub_inv c1 sb" using sub_inv_mono [OF assms(2)] g(1) by blast
  let ?full = "tc_name (sv_tracks (mi_serve (sb_store sb)) ! t)"
  show ?thesis
  proof (cases "(\<exists>e. a = Inl e) \<or> contains_name (sb_names sb) ?full")
    case True
    then show ?thesis using assms(3) a g(1) s1
      by (cases a) (auto simp: subscribe_open_def sub_keeps_pair Let_def)
  next
    case False
    then obtain i where i: "a = Inr i" by (cases a) auto
    note own = g(2) [OF i]
    have fresh: "sb_publishes_received sb i = None" "sb_subscribes sb i = None"
      using sub_inv_fresh_own [OF assms(2)] own by blast+
    obtain b p where p: "(pr_insert (sc_now c1) i PendSubscribe (sc_pending c1) :: (unit session_error + unit) \<times> pending_requests) = (b, p)"
      by (rule prod.exhaust)
    have c2: "core_inv (c1\<lparr>sc_pending := p\<rparr>)" using pr_insert_core [OF _ _ p] g(1) own by blast
    have names: "\<not> contains_name (sb_names sb) ?full" using False by blast
    note ent = fresh_entry_inv [OF s1 names conjunct1 [OF own] fresh(1)]
    have "nr_by_request_id (sb_names sb) i = None" using sub_inv_no_name [OF assms(2)] fresh by blast
    then have undone: "snd (name_remove_by_request_id i (name_insert ?full i (sb_names sb))) = sb_names sb"
      by (rule name_insert_undo [OF names])
    show ?thesis
    proof (cases b)
      case (Inl e)
      then show ?thesis using assms(3) a i p names c2 g(1) s1 undone
        by (auto simp: subscribe_open_def sub_keeps_pair Let_def)
    next
      case (Inr u)
      then show ?thesis using assms(3) a i p names c2 g(1) ent
        by (auto simp: subscribe_open_def Let_def) (simp add: sub_keeps_pair)
    qed
  qed
qed

lemma subscribe_drop_keeps:
  assumes "core_inv c" and "sub_inv c sb" and "own_id c i"
  shows "sub_keeps c (subscribe_drop i (c, sb))"
proof -
  let ?m = "Unsubscribe \<lparr>unsub_id = i\<rparr>"
  obtain r c' sb' where r: "remove_subscribe i (push_outgoing ?m c, sb) = (r, c', sb')" by (rule prod_cases3)
  have "sub_keeps (push_outgoing ?m c) (c', sb')" using assms by (intro remove_subscribe_keeps [OF _ _ _ r]) simp_all
  then have "sub_keeps c (c', sb')" by (simp add: sub_keeps_pair)
  then show ?thesis using r
    by (cases r) (simp_all add: subscribe_drop_def sub_send_message_def drop_subscribe_recv_def sub_keeps_pair)
qed

lemma fetch_open_keeps:
  assumes "core_inv c" and "sub_inv c sb" and "fetch_open f params (c, sb) = (r, st')"
  shows "sub_keeps c st'"
proof -
  obtain a c1 where a: "(get_next_request_id c :: ('a session_error + u64) \<times> session_core) = (a, c1)" by (rule prod.exhaust)
  note g = get_next_request_id_core [OF assms(1) a]
  have s1: "sub_inv c1 sb" using sub_inv_mono [OF assms(2)] g(1) by blast
  show ?thesis
  proof (cases a)
    case (Inl e)
    then show ?thesis using assms a g(1) s1 by (auto simp: fetch_open_def sub_keeps_pair split: if_splits)
  next
    case (Inr i)
    obtain b p where p: "(pr_insert (sc_now c1) i PendFetch (sc_pending c1) :: ('a session_error + unit) \<times> pending_requests) = (b, p)"
      by (rule prod.exhaust)
    have "core_inv (c1\<lparr>sc_pending := p\<rparr>)" using pr_insert_core [OF _ _ p] g(1) g(2) [OF Inr] by blast
    then have k: "sub_keeps c (c1\<lparr>sc_pending := p\<rparr>, sb\<lparr>sb_fetches := x\<rparr>)" "sub_keeps c (c1\<lparr>sc_pending := p\<rparr>, sb)" for x
      using g(1) s1 by (simp_all add: sub_keeps_pair)
    then show ?thesis using assms a Inr p
      by (cases b) (auto simp: fetch_open_def sub_keeps_pair Let_def split: if_splits)
  qed
qed

lemma track_status_request_keeps:
  assumes "core_inv c" and "sub_inv c sb"
  shows "sub_keeps c (track_status_request ns name (c, sb))"
proof -
  obtain a c1 where a: "(get_next_request_id c :: (unit session_error + u64) \<times> session_core) = (a, c1)" by (rule prod.exhaust)
  note g = get_next_request_id_core [OF assms(1) a]
  have "sub_inv c1 sb" using sub_inv_mono [OF assms(2)] g(1) by blast
  then show ?thesis using a g(1) by (cases a) (simp_all add: track_status_request_def sub_keeps_pair)
qed

lemma subscribe_namespace_begin_keeps:
  assumes "core_inv c" and "sub_inv c sb" and "subscribe_namespace_begin pre (c, sb) = (r, st')"
  shows "sub_keeps c st'"
proof -
  obtain a c1 where a: "(get_next_request_id c :: ('a session_error + u64) \<times> session_core) = (a, c1)" by (rule prod.exhaust)
  note g = get_next_request_id_core [OF assms(1) a]
  have "sub_inv c1 sb" using sub_inv_mono [OF assms(2)] g(1) by blast
  then show ?thesis using assms(3) a g(1)
    by (cases a) (auto simp: subscribe_namespace_begin_def sub_keeps_pair split: if_splits)
qed

lemma fetch_drop_keeps:
  assumes "core_inv c" and "sub_inv c sb"
  shows "sub_keeps c (fetch_drop d i (c, sb))"
proof -
  have "sub_keeps c (remove_fetch i (c', sb'))" if "sub_keeps c (c', sb')" for c' and sb' :: "'a subscriber"
    using that by (simp add: remove_fetch_def sub_keeps_pair)
  then show ?thesis using assms by (simp add: fetch_drop_def sub_send_message_def sub_keeps_pair)
qed

lemma peer_not_subscribed:
  assumes "core_inv c" and "sub_inv c sb" and "peer_id c i"
  shows "sb_subscribes sb i = None"
proof (rule ccontr)
  assume "sb_subscribes sb i \<noteq> None"
  then have "own_id c i" using assms(2) by (auto simp: sub_inv_def)
  then show False using own_not_peer [OF assms(1)] assms(3) by blast
qed

lemma remove_publish_received_forgets:
  assumes "sb_subscribes sb i = None"
  shows "sub_inv c (remove_publish_received i sb) = sub_inv c (forget i sb)"
proof -
  have "sb\<lparr>sb_publishes_received := (sb_publishes_received sb)(i := None),
      sb_aliases := snd (alias_remove_by_request_id i (sb_aliases sb)),
      sb_names := snd (name_remove_by_request_id i (sb_names sb))\<rparr> = forget i sb"
    using assms by (simp add: forget_def fun_upd_idem)
  then show ?thesis by (simp add: remove_publish_received_def)
qed

lemma publish_received_dropped_keeps:
  assumes "core_inv c" and "sub_inv c sb" and "peer_id c (pr_request_id pr)"
  shows "sub_keeps c (publish_received_dropped pr (c, sb))"
proof -
  have none: "sb_subscribes sb (pr_request_id pr) = None" by (rule peer_not_subscribed [OF assms])
  show ?thesis
  proof (cases "publish_received_drop pr")
    case None
    then show ?thesis using assms by (simp add: publish_received_dropped_def sub_keeps_pair)
  next
    case (Some m)
    obtain c' sb' where s: "sub_send_message m (c, sb) = (c', sb')" by (rule prod.exhaust)
    then have k: "sub_keeps c (c', sb')" using assms sub_keeps_send [of c m c sb] by (simp add: sub_keeps_pair)
    moreover have "sb_subscribes sb' = sb_subscribes sb"
      using s by (auto simp: sub_send_message_def split: message.splits)
    ultimately show ?thesis using Some s none forget_inv [of c' sb' "pr_request_id pr"]
      by (simp add: publish_received_dropped_def sub_keeps_pair remove_publish_received_forgets)
  qed
qed

lemma published_namespace_dropped_keeps:
  assumes "core_inv c" and "sub_inv c sb"
  shows "sub_keeps c (published_namespace_dropped show_err h (c, sb))"
  using assms by (simp add: published_namespace_dropped_def sub_keeps_pair)

lemma recv_publish_namespace_keeps:
  assumes "core_inv c" and "sub_inv c sb" and "recv_publish_namespace show_err msg (c, sb) = (r, st')"
  shows "sub_keeps c st'"
proof -
  let ?h = "published_namespace_new (pns_id msg) (pns_track_namespace msg)"
  obtain a w q where q: "queue_push ?h (sb_published_namespace_queue sb) = (a, w, q)" by (rule prod_cases3)
  show ?thesis
    using assms q by (cases a)
      (auto simp: recv_publish_namespace_def Let_def sub_keeps_pair published_namespace_dropped_keeps split: if_splits)
qed

lemma recv_publish_namespace_done_keeps:
  assumes "core_inv c" and "sub_inv c sb" and "recv_publish_namespace_done msg (c, sb) = (r, st')"
  shows "sub_keeps c st'"
proof -
  obtain a sb1 where d: "drop_publish_namespace (pnd_id msg) sb = (a, sb1)" by (rule prod.exhaust)
  have "sub_inv c sb1" using assms(2) sub_inv_drop_namespace [of c "pnd_id msg" sb] d by simp
  then show ?thesis using assms d by (cases a) (auto simp: recv_publish_namespace_done_def sub_keeps_pair)
qed

lemma recv_fetch_ok_keeps:
  assumes "core_inv c" and "sub_inv c sb" and "recv_fetch_ok msg (c, sb) = (r, st')"
  shows "sub_keeps c st'"
proof -
  obtain a p where p: "(pr_complete (fok_id msg) RespFetchOk (sc_pending c) :: ('a session_error + pending_request option) \<times> pending_requests) = (a, p)"
    by (rule prod.exhaust)
  note k = pr_complete_core(1) [OF assms(1) p]
  show ?thesis using assms p k
    by (auto simp: recv_fetch_ok_def sub_keeps_pair Let_def split: sum.splits if_splits option.splits prod.splits)
qed

lemma sub_recv_subscribe_ok_keeps:
  assumes "core_inv c" and "sub_inv c sb" and "sub_recv_subscribe_ok msg (c, sb) = (r, st')"
  shows "sub_keeps c st'"
proof -
  obtain a al where al: "alias_insert (sok_track_alias msg) (OriginSubscribe (sok_id msg)) (sb_aliases sb) = (a, al)" by (rule prod.exhaust)
  show ?thesis using assms al alias_entry_inv [OF assms(2)]
    by (auto simp: sub_recv_subscribe_ok_def sub_keeps_pair Let_def split: sum.splits if_splits option.splits prod.splits)
qed

lemma queue_push_refused: "queue_push x q = (Inl y, w, q') \<Longrightarrow> y = x"
  by (auto simp: queue_push_def split: option.splits)

lemma recv_publish_keeps:
  assumes "core_inv c" and "sub_inv c sb" and "peer_id c (pub_id msg)" and "sb_publishes_received sb (pub_id msg) = None"
    and "recv_publish msg (c, sb) = (r, st')"
  shows "sub_keeps c st'"
proof -
  let ?i = "pub_id msg" and ?full = "\<lparr>ftn_namespace = pub_track_namespace msg, ftn_name = pub_track_name msg\<rparr>"
  have none: "sb_subscribes sb ?i = None" by (rule peer_not_subscribed [OF assms(1-3)])
  have undo: "\<not> contains_name (sb_names sb) ?full \<Longrightarrow> snd (name_remove_by_request_id ?i (name_insert ?full ?i (sb_names sb))) = sb_names sb"
    by (rule name_insert_undo) (auto intro: sub_inv_no_name [OF assms(2) none assms(4)])
  obtain a al where al: "alias_insert (pub_track_alias msg) (OriginPublish ?i) (sb_aliases sb) = (a, al)" by (rule prod.exhaust)
  obtain t sv where t: "track_produce ?full (mi_serve (sb_store sb)) = (t, sv)" by (rule prod.exhaust)
  show ?thesis
  proof (cases "\<exists>u. \<not> contains_name (sb_names sb) ?full \<and> a = Inr u")
    case False
    then show ?thesis using assms al undo
      by (auto simp: recv_publish_def sub_keeps_pair Let_def split: sum.splits if_splits)
  next
    case True
    then have ent: "sub_inv c (sb\<lparr>sb_names := name_insert ?full ?i (sb_names sb), sb_aliases := al,
        sb_publishes_received := (sb_publishes_received sb)(?i \<mapsto> prr)\<rparr>)" for prr
      using fresh_publish_inv [OF assms(2) _ assms(3) none assms(4)] al by blast
    show ?thesis
      using True assms(1-3,5) al t ent
      by (auto simp: recv_publish_def sub_keeps_pair Let_def split: sum.splits if_splits prod.splits
          intro!: publish_received_dropped_keeps dest!: queue_push_refused)
  qed
qed

lemma remove_twice:
  "snd (alias_remove_by_request_id i (snd (alias_remove_by_request_id i r))) = snd (alias_remove_by_request_id i r)"
  "snd (name_remove_by_request_id i (snd (name_remove_by_request_id i nr))) = snd (name_remove_by_request_id i nr)"
  by (simp_all add: alias_remove_by_request_id_def name_remove_by_request_id_def split: option.split)

lemma recv_publish_done_keeps:
  assumes "core_inv c" and "sub_inv c sb" and "recv_publish_done msg (c, sb) = (r, st')"
  shows "sub_keeps c st'"
proof -
  let ?i = "pdone_id msg" and ?c = "c\<lparr>sc_pending := snd (pr_remove (pdone_id msg) (sc_pending c))\<rparr>"
  note inv = forget_inv [OF assms(2), of ?i]
  obtain a c1 sb1 where rm: "remove_subscribe ?i (c, sb) = (a, c1, sb1)" by (rule prod_cases3)
  have c1: "c1 = ?c" "a = sb_subscribes sb ?i" using rm by (auto simp: remove_subscribe_def)
  have gone: "sb1\<lparr>sb_publishes_received := (sb_publishes_received sb1)(?i := None),
      sb_aliases := snd (alias_remove_by_request_id ?i (sb_aliases sb1)),
      sb_names := snd (name_remove_by_request_id ?i (sb_names sb1))\<rparr> = forget ?i sb"
    using rm by (clarsimp simp: remove_subscribe_def forget_def remove_twice)
  show ?thesis
  proof (cases a)
    case (Some sr)
    have "own_id c ?i" using Some c1(2) assms(2) by (auto simp: sub_inv_def)
    then have "sub_keeps c (c1, sb1)" by (rule remove_subscribe_keeps [OF assms(1,2) _ rm])
    then show ?thesis using assms(3) rm Some
      by (auto simp: recv_publish_done_def sub_keeps_pair split_beta)
  next
    case None
    have nr: "sb_publishes_received sb1 = sb_publishes_received sb" using rm by (auto simp: remove_subscribe_def)
    show ?thesis
    proof (cases "sb_publishes_received sb ?i")
      case n: None
      have "sb1 = forget ?i sb" using remove_subscribe_forgets(1) [OF rm n] .
      then show ?thesis using assms(1,3) rm None n nr c1 inv by (auto simp: recv_publish_done_def sub_keeps_pair)
    next
      case (Some prr)
      then show ?thesis using assms(1,3) rm None nr c1(1) inv gone
        by (auto simp: recv_publish_done_def sub_keeps_pair split: prod.splits)
    qed
  qed
qed

lemma sub_recv_request_error_keeps:
  assumes "core_inv c" and "sub_inv c sb" and "own_id c (rerr_id msg)" and "sub_recv_request_error msg (c, sb) = (r, st')"
  shows "sub_keeps c st'"
proof -
  obtain a c1 sb1 where rm: "remove_subscribe (rerr_id msg) (c, sb) = (a, c1, sb1)" by (rule prod_cases3)
  note k = remove_subscribe_keeps [OF assms(1-3) rm]
  show ?thesis using assms(1,2,4) rm k
    by (auto simp: sub_recv_request_error_def take_fetch_def drop_track_status_def sub_keeps_pair split_beta
        split: option.splits)
qed

lemma sub_recv_request_timeout_keeps:
  assumes "core_inv c" and "sub_inv c sb" and "own_id c i" and "sub_recv_request_timeout i request (c, sb) = (r, st')"
  shows "sub_keeps c st'"
proof -
  obtain a c1 sb1 where rm: "remove_subscribe i (c, sb) = (a, c1, sb1)" by (rule prod_cases3)
  note k = remove_subscribe_keeps [OF assms(1-3) rm]
  show ?thesis using assms(1,2,4) rm k
    by (auto simp: sub_recv_request_timeout_def take_fetch_def sub_keeps_pair Let_def split_beta
        split: option.splits pending_request.splits if_splits)
qed

lemma stream_failed_keeps:
  assumes "core_inv c" and "sub_inv c sb" and "stream_failed err a (c, sb) = (r, st')"
  shows "sub_keeps c st'"
proof (cases "\<exists>i. alias_get (sb_aliases sb) a = Some (OriginSubscribe i)")
  case False
  then show ?thesis using assms by (auto simp: stream_failed_def sub_keeps_pair split: option.splits track_origin.splits)
next
  case True
  then obtain i where i: "alias_get (sb_aliases sb) a = Some (OriginSubscribe i)" by blast
  then have "origin_live sb (OriginSubscribe i)" using assms(2) by (auto simp: sub_inv_def alias_get_def)
  then have own: "own_id c i" using assms(2) by (auto simp: origin_live_def sub_inv_def)
  obtain x c1 sb1 where rm: "remove_subscribe i (c, sb) = (x, c1, sb1)" by (rule prod_cases3)
  note k = remove_subscribe_keeps [OF assms(1,2) own rm]
  show ?thesis using assms(3) i rm k
    by (auto simp: stream_failed_def sub_keeps_pair split_beta split: option.splits sum.splits)
qed

lemma recv_subgroup_writer_keeps:
  assumes "sub_inv c sb" and "recv_subgroup_writer og header (sb, n) = (r, sb', n')"
  shows "sub_inv c sb'"
  using assms
  by (auto simp: recv_subgroup_writer_def split: option.splits prod.splits sum.splits track_origin.splits
      intro!: sub_inv_put_subscribe sub_inv_put_publish)

lemma sub_inv_put_with_store:
  "sub_inv c sb \<Longrightarrow> sb_subscribes sb i = Some sr \<Longrightarrow>
   sub_inv c (sb\<lparr>sb_store := mi, sb_subscribes := (sb_subscribes sb)(i \<mapsto> sr')\<rparr>)"
  "sub_inv c sb \<Longrightarrow> sb_publishes_received sb j = Some pr \<Longrightarrow>
   sub_inv c (sb\<lparr>sb_store := mi, sb_publishes_received := (sb_publishes_received sb)(j \<mapsto> pr')\<rparr>)"
  using sub_inv_put_subscribe [of c "sb\<lparr>sb_store := mi\<rparr>" i sr sr'] sub_inv_put_publish [of c "sb\<lparr>sb_store := mi\<rparr>" j pr pr'] by simp_all

lemma recv_datagram_keeps:
  assumes "sub_inv c sb" and "recv_datagram later bs sb = (r, sb')"
  shows "sub_inv c sb'"
  using assms
  by (auto simp: recv_datagram_def split: option.splits prod.splits sum.splits track_origin.splits
      intro!: sub_inv_put_with_store)

section \<open>The publisher role\<close>

definition pub_inv :: "session_core \<Rightarrow> publisher \<Rightarrow> bool" where
  "pub_inv c pb \<longleftrightarrow>
     name_registry_wf (pb_published_names pb) \<and> name_registry_wf (pb_subscribed_names pb) \<and>
     dom (nr_by_request_id (pb_published_names pb)) = dom (pb_publisheds pb) \<and>
     dom (nr_by_request_id (pb_subscribed_names pb)) = pb_subscribeds pb \<and>
     (\<forall>n. nr_by_name (pb_published_names pb) n = None \<or> nr_by_name (pb_subscribed_names pb) n = None) \<and>
     distinct (map fst (pb_publish_namespaces pb)) \<and>
     (\<forall>i \<in> dom (pb_publisheds pb). own_id c i) \<and> (\<forall>i \<in> pb_subscribeds pb. peer_id c i)"

lemma pub_inv_mono: "pub_inv c pb \<Longrightarrow> core_le c c' \<Longrightarrow> pub_inv c' pb"
  by (auto simp: pub_inv_def core_le_def)

lemma pub_inv_core [simp]: "pub_inv (push_outgoing m c) pb = pub_inv c pb" "pub_inv (c\<lparr>sc_pending := p\<rparr>) pb = pub_inv c pb"
  by (simp_all add: pub_inv_def)

definition pub_keeps :: "session_core \<Rightarrow> pub_st \<Rightarrow> bool" where
  "pub_keeps c st \<longleftrightarrow> core_inv (fst st) \<and> core_le c (fst st) \<and> pub_inv (fst st) (snd st)"

lemma pub_keeps_pair: "pub_keeps c0 (c, pb) \<longleftrightarrow> core_inv c \<and> core_le c0 c \<and> pub_inv c pb"
  by (simp add: pub_keeps_def)

lemma pub_inv_other_fields [simp]:
  "pub_inv c (pb\<lparr>pb_ns_closed := x2\<rparr>) = pub_inv c pb"
  "pub_inv c (pb\<lparr>pb_published_states := x3\<rparr>) = pub_inv c pb" "pub_inv c (pb\<lparr>pb_forwarders := x4\<rparr>) = pub_inv c pb"
  "pub_inv c (pb\<lparr>pb_unknown_subscribed := x5\<rparr>) = pub_inv c pb" "pub_inv c (pb\<lparr>pb_unknown_track_status := x6\<rparr>) = pub_inv c pb"
  "pub_inv c (pb\<lparr>pb_unknown_fetch := x7\<rparr>) = pub_inv c pb" "pub_inv c (pb\<lparr>pb_fetches := x8\<rparr>) = pub_inv c pb"
  "pub_inv c (pb\<lparr>pb_fetch_states := x9\<rparr>) = pub_inv c pb" "pub_inv c (pb\<lparr>pb_subscribed_namespace_prefixes := x10\<rparr>) = pub_inv c pb"
  by (simp_all add: pub_inv_def)

lemma put_entry_keys: "map fst (map (\<lambda>(k, w). if k = key then (k, v) else (k, w)) xs) = map fst xs"
  by (induction xs) auto

lemma pub_inv_namespaces:
  "pub_inv c pb \<Longrightarrow> pub_inv c (pb\<lparr>pb_publish_namespaces := map (\<lambda>(k, w). if k = key then (k, v) else (k, w)) (pb_publish_namespaces pb)\<rparr>)"
  "pub_inv c pb \<Longrightarrow> pub_inv c (pb\<lparr>pb_publish_namespaces := filter P (pb_publish_namespaces pb)\<rparr>)"
  "pub_inv c pb \<Longrightarrow> map_of (pb_publish_namespaces pb) ns = None \<Longrightarrow>
   pub_inv c (pb\<lparr>pb_publish_namespaces := pb_publish_namespaces pb @ [(ns, r)]\<rparr>)"
  by (simp_all add: pub_inv_def put_entry_keys distinct_filter_fst map_of_eq_None_iff del: map_map)

lemma pub_inv_helpers [simp]:
  "pub_inv c (drop_forwarder i pb) = pub_inv c pb" "pub_inv c (settle_namespace i s pb) = pub_inv c pb"
  "pub_inv c (drop_published_entry b i pb) = pub_inv c pb" "pub_inv c (store_subscribed sd pb) = pub_inv c pb"
  "pub_inv c (fail_published b i e pb) = pub_inv c pb"
  by (simp_all add: drop_forwarder_def settle_namespace_def drop_published_entry_def store_subscribed_def fail_published_def)

text \<open>Taking a request out of its registry leaves the other names where they are.\<close>

lemma name_remaining:
  assumes "name_registry_wf r"
  shows "nr_by_name r n = None \<Longrightarrow> nr_by_name (snd (name_remove_by_request_id i r)) n = None"
  using names.remove_frees [OF assms, of i n] by simp

lemma pub_remove_subscribe_inv: "pub_inv c pb \<Longrightarrow> pub_inv c (snd (pub_remove_subscribe i pb))"
  using name_remove_wf [of "pb_subscribed_names pb" i] name_remaining [of "pb_subscribed_names pb" _ i]
  by (auto simp: pub_inv_def pub_remove_subscribe_def name_remove_key)

lemma drop_subscribe_inv: "pub_inv c pb \<Longrightarrow> pub_inv c (drop_subscribe i pb)"
  using pub_remove_subscribe_inv [of c pb i] by (simp add: drop_subscribe_def split_beta)

lemma published_gone_inv:
  assumes "pub_inv c pb"
  shows "pub_inv c (pb\<lparr>pb_publisheds := (pb_publisheds pb)(i := None),
    pb_published_names := snd (name_remove_by_request_id i (pb_published_names pb))\<rparr>)"
proof -
  let ?names = "snd (name_remove_by_request_id i (pb_published_names pb))"
  have "\<forall>n. nr_by_name ?names n = None \<or> nr_by_name (pb_subscribed_names pb) n = None"
    using assms name_remaining [of "pb_published_names pb" _ i] unfolding pub_inv_def by metis
  then show ?thesis using assms name_remove_wf [of "pb_published_names pb" i] by (auto simp: pub_inv_def name_remove_key)
qed

lemma remove_published_keeps:
  assumes "pub_keeps c0 (c, pb)" and "remove_published i (c, pb) = (r, st')"
  shows "pub_keeps c0 st'"
  using assms published_gone_inv [of c pb i]
  by (auto simp: remove_published_def Let_def pub_keeps_pair split: option.splits)

lemma drop_published_keeps:
  assumes "pub_keeps c0 (c, pb)"
  shows "pub_keeps c0 (drop_published i (c, pb))"
proof -
  obtain r c' pb' where r: "remove_published i (c, pb) = (r, c', pb')" by (rule prod_cases3)
  show ?thesis using remove_published_keeps [OF assms r] r
    by (cases r) (simp_all add: drop_published_def pub_keeps_pair)
qed

lemma pub_drop_publish_namespace_keeps:
  assumes "pub_keeps c0 (c, pb)" and "pub_drop_publish_namespace i (c, pb) = (r, st')"
  shows "pub_keeps c0 st'"
  using assms by (auto simp: pub_drop_publish_namespace_def Let_def pub_keeps_pair split: option.splits intro: pub_inv_namespaces(2))

lemma act_on_message_keeps:
  assumes "pub_keeps c0 (c, pb)"
  shows "pub_keeps c0 (act_on_message_to_send m (c, pb))"
proof (cases m)
  case (PublishDone d)
  have "pub_keeps c0 (c, drop_subscribe (pdone_id d) pb)" using assms drop_subscribe_inv [of c pb] by (simp add: pub_keeps_pair)
  then show ?thesis using PublishDone drop_published_keeps by (simp add: act_on_message_to_send_def)
next
  case (PublishNamespaceDone d)
  obtain r c' pb' where r: "pub_drop_publish_namespace (pnd_id d) (c, pb) = (r, c', pb')" by (rule prod_cases3)
  show ?thesis using pub_drop_publish_namespace_keeps [OF assms r] r PublishNamespaceDone
    by (cases r) (simp_all add: act_on_message_to_send_def pub_keeps_pair)
qed (use assms in \<open>simp_all add: act_on_message_to_send_def\<close>)

lemma pub_send_keeps:
  assumes "pub_keeps c0 st"
  shows "pub_keeps c0 (pub_send_message m st)"
proof -
  obtain c pb where st: "st = (c, pb)" by (rule prod.exhaust)
  obtain c' pb' where a: "act_on_message_to_send m (c, pb) = (c', pb')" by (rule prod.exhaust)
  show ?thesis using act_on_message_keeps [OF assms [unfolded st], of m] a by (simp add: st pub_send_message_def pub_keeps_pair)
qed

lemma pub_inv_outgoing [simp]: "pub_inv (c\<lparr>sc_outgoing := q\<rparr>) pb = pub_inv c pb"
  by (simp add: pub_inv_def)

lemma pub_send_wait_keeps:
  assumes "pub_keeps c0 st"
  shows "pub_keeps c0 (pub_send_message_and_wait tx m st)"
proof -
  obtain c pb where st: "st = (c, pb)" by (rule prod.exhaust)
  obtain c' pb' where a: "act_on_message_to_send m (c, pb) = (c', pb')" by (rule prod.exhaust)
  show ?thesis using act_on_message_keeps [OF assms [unfolded st], of m] a by (simp add: st pub_send_message_and_wait_def pub_keeps_pair)
qed

lemma fold_send_wait_keeps: "pub_keeps c0 st \<Longrightarrow> pub_keeps c0 (fold (pub_send_message_and_wait tx) ms st)"
  by (induction ms arbitrary: st) (simp_all add: pub_send_wait_keeps)

lemma fold_send_keeps: "pub_keeps c0 st \<Longrightarrow> pub_keeps c0 (fold pub_send_message ms st)"
  by (induction ms arbitrary: st) (simp_all add: pub_send_keeps)

lemmas pub_inv_intros = pub_send_keeps fold_send_keeps drop_subscribe_inv

subsection \<open>Calls of the application\<close>

lemma publish_namespace_begin_keeps:
  assumes "core_inv c" and "pub_inv c pb" and "publish_namespace_begin ns (c, pb) = (r, st')"
  shows "pub_keeps c st'"
proof -
  obtain a c1 where a: "(get_next_request_id c :: ('a session_error + u64) \<times> session_core) = (a, c1)" by (rule prod.exhaust)
  note g = get_next_request_id_core [OF assms(1) a]
  have s1: "pub_inv c1 pb" using pub_inv_mono [OF assms(2)] g(1) by blast
  show ?thesis
  proof (cases a)
    case (Inl e)
    then show ?thesis using assms a g(1) s1 by (auto simp: publish_namespace_begin_def pub_keeps_pair split: if_splits)
  next
    case (Inr i)
    obtain b p where p: "(pr_insert (sc_now c1) i PendPublishNamespace (sc_pending c1) :: ('a session_error + unit) \<times> pending_requests) = (b, p)"
      by (rule prod.exhaust)
    have "core_inv (c1\<lparr>sc_pending := p\<rparr>)" using pr_insert_core [OF _ _ p] g(1) g(2) [OF Inr] by blast
    then show ?thesis using assms a Inr p g(1) s1
      by (cases b) (auto simp: publish_namespace_begin_def pub_keeps_pair split: if_splits intro!: pub_send_keeps pub_inv_namespaces(3))
  qed
qed

lemma publish_namespace_dropped_keeps:
  assumes "core_inv c" and "pub_inv c pb"
  shows "pub_keeps c (publish_namespace_dropped i (c, pb))"
  using assms by (auto simp: publish_namespace_dropped_def pub_keeps_pair split: option.split intro!: pub_send_keeps)

lemma published_entry_inv:
  assumes "pub_inv c pb" and "own_id c i" and "\<not> contains_name (pb_subscribed_names pb) full" and "name_reserve full i (pb_published_names pb) = (True, names)"
  shows "pub_inv c (pb\<lparr>pb_published_names := names, pb_publisheds := (pb_publisheds pb)(i \<mapsto> b)\<rparr>)"
proof -
  have n: "nr_by_name (pb_published_names pb) full = None" "nr_by_request_id (pb_published_names pb) i = None"
      "names = \<lparr>nr_by_name = (nr_by_name (pb_published_names pb))(full \<mapsto> i), nr_by_request_id = (nr_by_request_id (pb_published_names pb))(i \<mapsto> full)\<rparr>"
    using assms(4) by (auto simp: name_reserve_def split: if_splits)
  have "name_registry_wf names"
    using inverse_maps_insert [where f = "nr_by_name (pb_published_names pb)" and g = "nr_by_request_id (pb_published_names pb)", OF _ n(1,2)] assms(1) by (simp add: n(3) name_registry_wf_def pub_inv_def)
  then show ?thesis using assms(1-3) n(3) by (auto simp: pub_inv_def contains_name_def)
qed

lemma publish_open_keeps:
  assumes "core_inv c" and "pub_inv c pb" and "publish_open full largest params (c, pb) = (r, st')"
  shows "pub_keeps c st'"
proof -
  obtain a c1 where a: "(get_next_request_id c :: ('a session_error + u64) \<times> session_core) = (a, c1)" by (rule prod.exhaust)
  note g = get_next_request_id_core [OF assms(1) a]
  have s1: "pub_inv c1 pb" using pub_inv_mono [OF assms(2)] g(1) by blast
  show ?thesis
  proof (cases "\<exists>i names. a = Inr i \<and> name_reserve full i (pb_published_names pb) = (True, names) \<and> \<not> contains_name (pb_subscribed_names pb) full")
    case False
    then show ?thesis using assms a g(1) s1
      by (auto simp: publish_open_def pub_keeps_pair split: sum.splits option.splits if_splits prod.splits bool.splits)
  next
    case True
    then obtain i names where i: "a = Inr i" and names: "name_reserve full i (pb_published_names pb) = (True, names)"
      and free: "\<not> contains_name (pb_subscribed_names pb) full" by blast
    obtain b p where p: "(pr_insert (sc_now c1) i PendPublish (sc_pending c1) :: ('a session_error + unit) \<times> pending_requests) = (b, p)"
      by (rule prod.exhaust)
    have own: "own_id c1 i" using g(2) [OF i] by blast
    have c2: "core_inv (c1\<lparr>sc_pending := p\<rparr>)" using pr_insert_core [OF _ own p] g(1) by blast
    have "pub_inv c1 (pb\<lparr>pb_published_names := names, pb_publisheds := (pb_publisheds pb)(i \<mapsto> False)\<rparr>\<lparr>pb_published_states := s\<rparr>)" for s
      using published_entry_inv [OF s1 own free names] by simp
    then have k: "pub_keeps c (c1\<lparr>sc_pending := p\<rparr>, pb\<lparr>pb_published_names := names, pb_publisheds := (pb_publisheds pb)(i \<mapsto> False), pb_published_states := s\<rparr>)" for s
      using c2 g(1) by (simp add: pub_keeps_pair)
    have u: "pub_keeps c (snd (remove_published i (c1\<lparr>sc_pending := p\<rparr>, pb\<lparr>pb_published_names := names, pb_publisheds := (pb_publisheds pb)(i \<mapsto> False), pb_published_states := s\<rparr>)))" for s
      using remove_published_keeps [OF k] by (metis prod.collapse)
    have un: "pub_keeps c (c, pb)" "pub_keeps c (c1, pb)" using assms(1,2) g(1) s1 by (simp_all add: pub_keeps_pair)
    show ?thesis using assms(3) a i names p k u un
      by (auto simp: publish_open_def Let_def split: sum.splits option.splits if_splits intro!: pub_send_keeps)
  qed
qed

lemma register_published_keeps:
  assumes "pub_inv c pb" and "register_published_subscription i f pb = (r, pb')"
  shows "pub_inv c pb'"
proof -
  have "pub_inv c (pb\<lparr>pb_publisheds := (pb_publisheds pb)(i \<mapsto> True)\<rparr>)" if "pb_publisheds pb i = Some b" for b
  proof -
    have "dom ((pb_publisheds pb)(i \<mapsto> True)) = dom (pb_publisheds pb)" using that by auto
    then show ?thesis using assms(1) by (simp add: pub_inv_def del: dom_fun_upd)
  qed
  then show ?thesis using assms by (auto simp: register_published_subscription_def split: option.splits bool.splits)
qed

lemma published_dropped_keeps:
  assumes "core_inv c" and "pub_inv c pb"
  shows "pub_keeps c (published_dropped i (c, pb))"
  using assms by (auto simp: published_dropped_def pub_keeps_pair split: option.split intro!: pub_send_keeps)

lemma subscribed_serve_keeps:
  assumes "core_inv c" and "pub_inv c pb" and "subscribed_serve tx largest window sd (c, pb) = (r, sd', st')"
  shows "pub_keeps c st'"
  using assms by (auto simp: subscribed_serve_def pub_keeps_pair split: prod.splits intro!: fold_send_wait_keeps)

lemma subscribed_closed_inv [simp]: "pub_inv c (snd (subscribed_closed e sd pb)) = pub_inv c pb"
  by (simp add: subscribed_closed_def Let_def split_beta)

lemma subscribed_dropped_keeps:
  assumes "core_inv c" and "pub_inv c pb"
  shows "pub_keeps c (subscribed_dropped show_err sd (c, pb))"
proof -
  obtain m b where d: "subscribed_drop show_err (load_subscribed sd pb) = (m, b)" by (rule prod.exhaust)
  obtain c' pb' where s: "(case m of None \<Rightarrow> (c, pb) | Some x \<Rightarrow> pub_send_message x (c, pb)) = (c', pb')" by (rule prod.exhaust)
  have k: "pub_keeps c (c, pb)" using assms by (simp add: pub_keeps_pair)
  have "pub_keeps c (c', pb')"
  proof (cases m)
    case None
    then show ?thesis using s k by simp
  next
    case (Some x)
    then show ?thesis using pub_send_keeps [OF k, of x] s by simp
  qed
  then show ?thesis using d s drop_subscribe_inv [of c' pb'] by (simp add: subscribed_dropped_def pub_keeps_pair)
qed

lemma subscribed_close_keeps:
  assumes "core_inv c" and "pub_inv c pb"
  shows "pub_keeps c (snd (subscribed_close show_err e sd (c, pb)))"
  using subscribed_dropped_keeps [OF assms(1), of "snd (subscribed_closed e sd pb)"] assms(2)
  by (simp add: subscribed_close_def split_beta)

lemma fetch_requested_answer_keeps:
  assumes "core_inv c" and "pub_inv c pb"
  shows "pub_keeps c (snd (fetch_requested_answer m i (c, pb)))"
  using assms by (auto simp: fetch_requested_answer_def pub_keeps_pair split: option.split prod.split sum.split)

lemma fetch_requested_dropped_keeps:
  assumes "core_inv c" and "pub_inv c pb"
  shows "pub_keeps c (fetch_requested_dropped i (c, pb))"
  using assms by (auto simp: fetch_requested_dropped_def pub_keeps_pair split: option.split prod.split)

lemma namespace_state_dropped_keeps:
  assumes "core_inv c" and "pub_inv c pb"
  shows "pub_keeps c (namespace_state_dropped show_err i (c, pb))"
proof -
  have "pub_keeps c (fold (\<lambda>sd st. snd (subscribed_close show_err e sd st)) sds st)" if "pub_keeps c st" for sds st e
    using that
  proof (induction sds arbitrary: st)
    case (Cons sd sds)
    obtain c' pb' where st: "st = (c', pb')" by (rule prod.exhaust)
    have "pub_keeps c' (snd (subscribed_close show_err e sd (c', pb')))"
      using subscribed_close_keeps Cons.prems by (simp add: st pub_keeps_pair)
    then have "pub_keeps c (snd (subscribed_close show_err e sd st))"
      using Cons.prems by (auto simp: st pub_keeps_def intro: core_le_trans)
    then show ?case using Cons.IH by simp
  qed simp
  then show ?thesis using assms by (simp add: namespace_state_dropped_def pub_keeps_pair split: option.split)
qed

subsection \<open>Messages\<close>

lemma recv_fetch_keeps:
  assumes "core_inv c" and "pub_inv c pb" and "recv_fetch msg (c, pb) = (r, st')"
  shows "pub_keeps c st'"
proof -
  have k: "pub_keeps c (c, pb)" using assms by (simp add: pub_keeps_pair)
  let ?pb = "pb\<lparr>pb_fetches := insert (ft_id msg) (pb_fetches pb), pb_fetch_states := (pb_fetch_states pb)(ft_id msg \<mapsto> watched_new None)\<rparr>"
  have inv: "pub_inv c (?pb\<lparr>pb_unknown_fetch := q\<rparr>)" for q using assms(2) by simp
  have refused: "pub_keeps c (fetch_requested_dropped i (snd (fetch_requested_answer m j (c, ?pb\<lparr>pb_unknown_fetch := q\<rparr>))))" for i m j q
  proof -
    obtain c' pb' where a: "snd (fetch_requested_answer m j (c, ?pb\<lparr>pb_unknown_fetch := q\<rparr>)) = (c', pb')" by (rule prod.exhaust)
    have "pub_keeps c (c', pb')" using fetch_requested_answer_keeps [OF assms(1) inv, of m j q] unfolding a .
    then show ?thesis using a fetch_requested_dropped_keeps [of c' pb' i] by (auto simp: pub_keeps_def intro: core_le_trans)
  qed
  show ?thesis using assms(1,3) k inv refused
    by (auto simp: recv_fetch_def Let_def send_not_supported_def pub_keeps_pair split_beta split: sum.splits if_splits option.splits
        intro!: pub_send_keeps)
qed

lemma recv_fetch_cancel_keeps:
  assumes "core_inv c" and "pub_inv c pb" and "recv_fetch_cancel msg (c, pb) = (r, st')"
  shows "pub_keeps c st'"
  using assms by (auto simp: recv_fetch_cancel_def pub_keeps_pair split: if_splits)

lemma pub_recv_oks_keep:
  assumes "core_inv c" and "pub_inv c pb"
  shows "pub_recv_request_ok m1 (c, pb) = (r, st') \<Longrightarrow> pub_keeps c st'"
    and "pub_recv_publish_ok m2 (c, pb) = (r, st') \<Longrightarrow> pub_keeps c st'"
    and "recv_request_update m3 (c, pb) = (r, st') \<Longrightarrow> pub_keeps c st'"
    and "recv_track_status m4 (c, pb) = (r, st') \<Longrightarrow> pub_keeps c st'"
  using assms
  by (auto simp: pub_recv_request_ok_def pub_recv_publish_ok_def recv_request_update_def recv_track_status_def send_not_supported_def
      pub_keeps_pair split: option.splits prod.splits sum.splits intro!: pub_send_keeps pub_inv_namespaces(1))

lemma fail_namespace_keeps:
  assumes "pub_keeps c0 st" and "fail_namespace i e v st = (r, st')"
  shows "pub_keeps c0 st'"
  using assms by (cases st) (auto simp: fail_namespace_def pub_keeps_pair split: prod.splits)

lemma namespace_failure_keeps:
  assumes "core_inv c" and "pub_inv c pb"
  shows "(case pub_drop_publish_namespace i (c, pb) of (None, st) \<Rightarrow> (Inr (), st) | (Some v, st) \<Rightarrow> fail_namespace i e v st) = (r, st') \<Longrightarrow>
    pub_keeps c st'"
proof -
  obtain a st1 where a: "pub_drop_publish_namespace i (c, pb) = (a, st1)" by (rule prod.exhaust)
  have "pub_keeps c (c, pb)" using assms by (simp add: pub_keeps_pair)
  then have "pub_keeps c st1" by (rule pub_drop_publish_namespace_keeps [OF _ a])
  then show "(case pub_drop_publish_namespace i (c, pb) of (None, st) \<Rightarrow> (Inr (), st) | (Some v, st) \<Rightarrow> fail_namespace i e v st) = (r, st') \<Longrightarrow>
    pub_keeps c st'"
    using a by (cases a) (auto elim: fail_namespace_keeps [rotated])
qed

lemma publication_failure_keeps:
  assumes "pub_keeps c0 (c, pb)"
  shows "(case remove_published i (c, pb) of (None, st) \<Rightarrow> (Inr (), st) | (Some b, c, pb) \<Rightarrow> (Inr (), c, fail_published b i e pb)) = (r, st') \<Longrightarrow>
    pub_keeps c0 st'"
proof -
  obtain a c1 pb1 where a: "remove_published i (c, pb) = (a, c1, pb1)" by (rule prod_cases3)
  note k = remove_published_keeps [OF assms a]
  then show "(case remove_published i (c, pb) of (None, st) \<Rightarrow> (Inr (), st) | (Some b, c, pb) \<Rightarrow> (Inr (), c, fail_published b i e pb)) = (r, st') \<Longrightarrow>
    pub_keeps c0 st'"
    using a by (cases a) (auto simp: pub_keeps_pair)
qed

lemma pub_recv_request_error_keeps:
  assumes "core_inv c" and "pub_inv c pb" and "pub_recv_request_error msg (c, pb) = (r, st')"
  shows "pub_keeps c st'"
proof -
  obtain a c1 pb1 where a: "pub_drop_publish_namespace (rerr_id msg) (c, pb) = (a, c1, pb1)" by (rule prod_cases3)
  have "pub_keeps c (c, pb)" using assms by (simp add: pub_keeps_pair)
  then have k: "pub_keeps c (c1, pb1)" by (rule pub_drop_publish_namespace_keeps [OF _ a])
  show ?thesis
  proof (cases a)
    case None
    then show ?thesis using assms(3) a by (intro publication_failure_keeps [OF k]) (simp add: pub_recv_request_error_def)
  next
    case (Some v)
    then show ?thesis using assms(3) a by (intro fail_namespace_keeps [OF k]) (simp add: pub_recv_request_error_def)
  qed
qed

lemma pub_recv_request_timeout_keeps:
  assumes "core_inv c" and "pub_inv c pb" and "pub_recv_request_timeout i q (c, pb) = (r, st')"
  shows "pub_keeps c st'"
proof (cases q)
  case PendPublishNamespace
  then show ?thesis using assms(3) by (intro namespace_failure_keeps [OF assms(1,2)]) (simp add: pub_recv_request_timeout_def)
next
  case PendPublish
  have "pub_keeps c (c, pb)" using assms by (simp add: pub_keeps_pair)
  then show ?thesis by (rule publication_failure_keeps) (use assms(3) PendPublish in \<open>simp add: pub_recv_request_timeout_def\<close>)
qed (use assms in \<open>auto simp: pub_recv_request_timeout_def pub_keeps_pair\<close>)

lemma recv_publish_namespace_cancel_keeps:
  assumes "core_inv c" and "pub_inv c pb" and "recv_publish_namespace_cancel msg (c, pb) = (r, st')"
  shows "pub_keeps c st'"
  using namespace_failure_keeps [OF assms(1,2) assms(3) [unfolded recv_publish_namespace_cancel_def]] .

lemma subscribed_entry_inv:
  assumes "pub_inv c pb" and "peer_id c i" and "\<not> contains_name (pb_subscribed_names pb) full" and "\<not> contains_name (pb_published_names pb) full"
    and "i \<notin> pb_subscribeds pb"
  shows "pub_inv c (pb\<lparr>pb_subscribed_names := name_insert full i (pb_subscribed_names pb), pb_subscribeds := insert i (pb_subscribeds pb)\<rparr>)"
proof -
  have "nr_by_request_id (pb_subscribed_names pb) i = None" using assms(1,5) by (auto simp: pub_inv_def)
  then have n: "nr_by_name (name_insert full i (pb_subscribed_names pb)) = (nr_by_name (pb_subscribed_names pb))(full \<mapsto> i)"
    by (simp add: name_insert_def Let_def)
  show ?thesis using assms name_insert_wf [of "pb_subscribed_names pb" full i] n
    by (auto simp: pub_inv_def name_insert_key contains_name_def)
qed

lemma subscribed_new_id: "subscribed_new msg = Inr sd \<Longrightarrow> si_id (sd_info sd) = sub_id msg"
  by (auto simp: subscribed_new_def new_from_subscribe_def Let_def split: sum.splits)

lemma recv_subscribe_keeps:
  assumes "core_inv c" and "pub_inv c pb" and "peer_id c (sub_id msg)" and "recv_subscribe show_err msg (c, pb) = (r, st')"
  shows "pub_keeps c st'"
proof -
  let ?full = "\<lparr>ftn_namespace = sub_track_namespace msg, ftn_name = sub_track_name msg\<rparr>"
  have k: "pub_keeps c (c, pb)" using assms by (simp add: pub_keeps_pair)
  show ?thesis
  proof (cases "sub_id msg \<in> pb_subscribeds pb \<or> contains_name (pb_subscribed_names pb) ?full \<or> contains_name (pb_published_names pb) ?full")
    case True
    then show ?thesis using assms(4) k by (auto simp: recv_subscribe_def Let_def split: if_splits intro!: pub_send_keeps)
  next
    case free: False
    show ?thesis
    proof (cases "subscribed_new msg :: 'a session_error + subscribed")
      case (Inl e)
      then show ?thesis using assms(4) k free by (auto simp: recv_subscribe_def Let_def)
    next
      case (Inr sd)
      let ?pb = "pb\<lparr>pb_subscribed_names := name_insert ?full (sub_id msg) (pb_subscribed_names pb),
        pb_subscribeds := insert (sub_id msg) (pb_subscribeds pb), pb_forwarders := (pb_forwarders pb)(sub_id msg \<mapsto> sd_state sd)\<rparr>"
      have "pub_inv c (pb\<lparr>pb_subscribed_names := name_insert ?full (sub_id msg) (pb_subscribed_names pb),
          pb_subscribeds := insert (sub_id msg) (pb_subscribeds pb)\<rparr>\<lparr>pb_forwarders := x\<rparr>)" for x
        using subscribed_entry_inv [OF assms(2,3)] free by simp
      then have inv: "pub_inv c ?pb" by simp
      then have inv': "pub_inv c (?pb\<lparr>pb_unknown_subscribed := y\<rparr>)" for y by simp
      have "pub_inv c (?pb\<lparr>pb_publish_namespaces := map (\<lambda>(k, w). if k = key then (k, v) else (k, w)) (pb_publish_namespaces ?pb)\<rparr>)" for key v
        by (rule pub_inv_namespaces(1) [OF inv])
      then have put: "pub_keeps c (c, ?pb\<lparr>pb_publish_namespaces := map (\<lambda>(k, w). if k = key then (k, v) else (k, w)) (pb_publish_namespaces pb)\<rparr>)" for key v
        using assms(1) by (simp add: pub_keeps_pair)
      note new = assms(4) free Inr subscribed_new_id [OF Inr]
      show ?thesis
      proof (cases "map_of (pb_publish_namespaces pb) (sub_track_namespace msg)")
        case (Some v)
        then show ?thesis using new put subscribed_dropped_keeps [OF assms(1) inv, of show_err sd]
          by (auto simp: recv_subscribe_def Let_def split: option.splits)
      next
        case None
        obtain a w q where q: "queue_push sd (pb_unknown_subscribed pb) = (a, w, q)" by (rule prod_cases3)
        show ?thesis using new None q assms(1) inv' [of q] subscribed_close_keeps [OF assms(1) inv', of show_err]
          by (cases a) (auto simp: recv_subscribe_def Let_def pub_keeps_pair split_beta)
      qed
    qed
  qed
qed

lemma recv_unsubscribe_keeps:
  assumes "core_inv c" and "pub_inv c pb" and "recv_unsubscribe msg (c, pb) = (r, st')"
  shows "pub_keeps c st'"
proof -
  let ?i = "unsub_id msg" and ?pb = "snd (pub_remove_subscribe (unsub_id msg) pb)"
  have k: "pub_keeps c (c, ?pb)" using assms(1) pub_remove_subscribe_inv [OF assms(2)] by (simp add: pub_keeps_pair)
  obtain a c1 pb1 where a: "remove_published ?i (c, ?pb) = (a, c1, pb1)" by (rule prod_cases3)
  note k1 = remove_published_keeps [OF k a]
  have "pub_inv c1 (snd (unsubscribe_published b j pb1))" for b j
    using k1 by (auto simp: unsubscribe_published_def Let_def pub_keeps_pair split: option.split prod.split sum.split)
  then show ?thesis using assms(3) k k1 a
    by (auto simp: recv_unsubscribe_def Let_def pub_keeps_pair split_beta split: option.splits if_splits bool.splits)
qed

lemma recv_subscribe_namespace_inv: "recv_subscribe_namespace msg pb = (r, pb') \<Longrightarrow> pub_inv c pb' = pub_inv c pb"
  by (auto simp: recv_subscribe_namespace_def split: sum.splits if_splits)

section \<open>The session\<close>

definition session_inv :: "'e session \<Rightarrow> bool" where
  "session_inv se \<longleftrightarrow> core_inv (se_core se) \<and> sub_inv (se_core se) (se_sub se) \<and> pub_inv (se_core se) (se_pub se)"

text \<open>The invariant is kept and no id is forgotten.\<close>

definition session_keeps :: "session_core \<Rightarrow> 'e session \<Rightarrow> bool" where
  "session_keeps c se \<longleftrightarrow> session_inv se \<and> core_le c (se_core se)"

lemma session_keeps_refl: "session_inv se \<Longrightarrow> session_keeps (se_core se) se"
  by (simp add: session_keeps_def)

lemma session_keeps_trans: "core_le a c \<Longrightarrow> session_keeps c se \<Longrightarrow> session_keeps a se"
  by (auto simp: session_keeps_def intro: core_le_trans)

lemma via_sub_keeps:
  assumes "session_inv se" and "via_sub f se = (r, se')" and "\<And>r st'. f (se_core se, se_sub se) = (r, st') \<Longrightarrow> sub_keeps (se_core se) st'"
  shows "session_keeps (se_core se) se'"
proof -
  obtain a c sb where f: "f (se_core se, se_sub se) = (a, c, sb)" by (rule prod_cases3)
  note k = assms(3) [OF f]
  have "pub_inv c (se_pub se)" using assms(1) k pub_inv_mono by (auto simp: session_inv_def sub_keeps_pair)
  then show ?thesis using assms(2) f k by (auto simp: via_sub_def session_keeps_def session_inv_def sub_keeps_pair)
qed

lemma via_pub_keeps:
  assumes "session_inv se" and "via_pub f se = (r, se')" and "\<And>r st'. f (se_core se, se_pub se) = (r, st') \<Longrightarrow> pub_keeps (se_core se) st'"
  shows "session_keeps (se_core se) se'"
proof -
  obtain a c pb where f: "f (se_core se, se_pub se) = (a, c, pb)" by (rule prod_cases3)
  note k = assms(3) [OF f]
  have "sub_inv c (se_sub se)" using assms(1) k sub_inv_mono by (auto simp: session_inv_def pub_keeps_pair)
  then show ?thesis using assms(2) f k by (auto simp: via_pub_def session_keeps_def session_inv_def pub_keeps_pair)
qed

lemma with_core_keeps:
  assumes "session_inv se" and "with_core f se = (r, se')" and "\<And>r c'. f (se_core se) = (r, c') \<Longrightarrow> core_step (se_core se) c'"
  shows "session_keeps (se_core se) se'"
proof -
  obtain a c where f: "f (se_core se) = (a, c)" by (rule prod.exhaust)
  note k = assms(3) [OF f]
  then show ?thesis using assms(1,2) f sub_inv_mono [of "se_core se" "se_sub se" c] pub_inv_mono [of "se_core se" "se_pub se" c]
    by (auto simp: with_core_def session_keeps_def session_inv_def)
qed

lemma complete_keeps:
  fixes r :: "'x session_error + pending_request option"
  assumes "session_inv se" and "with_core (core_complete i resp) se = (r, se')"
  shows "session_keeps (se_core se) se'" and "r = Inr (Some q) \<Longrightarrow> own_id (se_core se') i"
proof -
  obtain a p where p: "(pr_complete i resp (sc_pending (se_core se)) :: ('x session_error + pending_request option) \<times> _) = (a, p)" by (rule prod.exhaust)
  have r: "r = a" and se': "se_core se' = (se_core se)\<lparr>sc_pending := p\<rparr>"
    using assms(2) p by (auto simp: with_core_def core_complete_def)
  have inv: "core_inv (se_core se)" using assms(1) by (simp add: session_inv_def)
  show "session_keeps (se_core se) se'"
    by (rule with_core_keeps [OF assms])
      (use pr_complete_core(1) [OF inv] in \<open>auto simp: core_complete_def split: prod.splits\<close>)
  assume "r = Inr (Some q)"
  then show "own_id (se_core se') i" using pr_complete_core(2) [OF inv p] r se' by auto
qed

text \<open>A response is handed on only after its request was found, so its id is one of ours.\<close>

lemma responses_keep:
  assumes "session_inv se"
  shows "session_recv_request_ok m1 se = (r, se') \<Longrightarrow> session_keeps (se_core se) se'"
    and "session_recv_request_error m2 se = (r, se') \<Longrightarrow> session_keeps (se_core se) se'"
    and "session_recv_publish_ok m3 se = (r, se') \<Longrightarrow> session_keeps (se_core se) se'"
    and "session_recv_subscribe_ok m4 se = (r, se') \<Longrightarrow> session_keeps (se_core se) se'"
proof -
  have go: "session_keeps (se_core se) se''"
    if "session_keeps (se_core se) se1" and "session_inv se1 \<Longrightarrow> session_keeps (se_core se1) se''" for se1 se'' :: "'a session"
    using that session_keeps_trans by (auto simp: session_keeps_def)
  obtain a se1 where c: "(with_core (core_complete (rok_id m1) RespRequestOk) se :: ('a session_error + _) \<times> _) = (a, se1)" by (rule prod.exhaust)
  note k = complete_keeps [OF assms c]
  show "session_recv_request_ok m1 se = (r, se') \<Longrightarrow> session_keeps (se_core se) se'"
    using c k(1) by (auto simp: session_recv_request_ok_def split: sum.splits option.splits pending_request.splits
        intro!: go [OF k(1)] elim!: via_pub_keeps [rotated] pub_recv_oks_keep(1) [rotated 2] simp: session_inv_def)
  obtain b se2 where c2: "(with_core (core_complete (rerr_id m2) RespRequestError) se :: ('a session_error + _) \<times> _) = (b, se2)" by (rule prod.exhaust)
  note k2 = complete_keeps [OF assms c2]
  show "session_recv_request_error m2 se = (r, se') \<Longrightarrow> session_keeps (se_core se) se'"
    using c2 k2 by (auto simp: session_recv_request_error_def split: sum.splits option.splits if_splits
        intro!: go [OF k2(1)] elim!: via_pub_keeps [rotated] via_sub_keeps [rotated] pub_recv_request_error_keeps [rotated 2]
          sub_recv_request_error_keeps [rotated 3] simp: session_inv_def)
  obtain d se3 where c3: "(with_core (core_complete (pok_id m3) RespPublishOk) se :: ('a session_error + _) \<times> _) = (d, se3)" by (rule prod.exhaust)
  note k3 = complete_keeps [OF assms c3]
  show "session_recv_publish_ok m3 se = (r, se') \<Longrightarrow> session_keeps (se_core se) se'"
    using c3 k3(1) by (auto simp: session_recv_publish_ok_def split: sum.splits option.splits pending_request.splits
        intro!: go [OF k3(1)] elim!: via_pub_keeps [rotated] pub_recv_oks_keep(2) [rotated 2] simp: session_inv_def)
  obtain e se4 where c4: "(with_core (core_complete (sok_id m4) RespSubscribeOk) se :: ('a session_error + _) \<times> _) = (e, se4)" by (rule prod.exhaust)
  note k4 = complete_keeps [OF assms c4]
  show "session_recv_subscribe_ok m4 se = (r, se') \<Longrightarrow> session_keeps (se_core se) se'"
    using c4 k4(1) by (auto simp: session_recv_subscribe_ok_def split: sum.splits option.splits pending_request.splits
        intro!: go [OF k4(1)] elim!: via_sub_keeps [rotated] sub_recv_subscribe_ok_keeps [rotated 2] simp: session_inv_def)
qed

lemma sub_message_keeps:
  assumes "core_inv c" and "sub_inv c sb" and "sub_recv_message show_err msg (c, sb) = (r, st')"
    and "\<And>m. msg = PPublish m \<Longrightarrow> peer_id c (pub_id m) \<and> sb_publishes_received sb (pub_id m) = None"
    and "\<And>m. msg \<noteq> PRequestError m" and "\<And>m. msg \<noteq> PRequestOk m"
  shows "sub_keeps c st'"
proof (cases msg)
  case (PPublish m)
  then show ?thesis using assms(3,4) by (auto simp: sub_recv_message_def intro: recv_publish_keeps [OF assms(1,2)])
qed (use assms(3,5,6) in \<open>auto simp: sub_recv_message_def intro: recv_publish_namespace_keeps [OF assms(1,2)]
      recv_publish_namespace_done_keeps [OF assms(1,2)] recv_publish_done_keeps [OF assms(1,2)]
      sub_recv_subscribe_ok_keeps [OF assms(1,2)] recv_fetch_ok_keeps [OF assms(1,2)]\<close>)

lemma pub_message_keeps:
  assumes "core_inv c" and "pub_inv c pb" and "pub_recv_message show_err msg (c, pb) = (r, st')"
    and "\<And>m. msg = SSubscribe m \<Longrightarrow> peer_id c (sub_id m)"
  shows "pub_keeps c st'"
proof (cases msg)
  case (SSubscribe m)
  then show ?thesis using assms(3,4) by (auto simp: pub_recv_message_def intro: recv_subscribe_keeps [OF assms(1,2)])
next
  case (SSubscribeNamespace m)
  then show ?thesis using assms(1-3) by (auto simp: pub_recv_message_def pub_keeps_pair)
qed (use assms(3) in \<open>auto simp: pub_recv_message_def intro: pub_recv_oks_keep [OF assms(1,2)] pub_recv_request_error_keeps [OF assms(1,2)]
      recv_unsubscribe_keeps [OF assms(1,2)] recv_fetch_keeps [OF assms(1,2)] recv_fetch_cancel_keeps [OF assms(1,2)]
      recv_publish_namespace_cancel_keeps [OF assms(1,2)]\<close>)

lemma max_request_id_core:
  assumes "core_inv c" and "apply_max_request_id m (sc_send_ids c) = (r, s)"
  shows "core_step c (c\<lparr>sc_send_ids := s\<rparr>)"
proof -
  have "si_next s = si_next (sc_send_ids c)" using assms(2) by (auto simp: apply_max_request_id_def split: if_splits)
  then have "own_id (c\<lparr>sc_send_ids := s\<rparr>) = own_id c" "peer_id (c\<lparr>sc_send_ids := s\<rparr>) = peer_id c"
    by (simp_all add: own_id_def peer_id_def fun_eq_iff)
  then show ?thesis using assms(1) \<open>si_next s = _\<close> by (simp add: core_inv_def core_le_def)
qed

lemma dispatch_message_keeps:
  assumes inv: "session_inv se" and d: "dispatch_message show_err msg se = (r, se')"
    and fresh: "\<And>i. sequenced_request_id msg = Some i \<Longrightarrow> peer_id (se_core se) i \<and> sb_publishes_received (se_sub se) i = None"
  shows "session_keeps (se_core se) se'"
proof -
  have c: "core_inv (se_core se)" and sb: "sub_inv (se_core se) (se_sub se)" and pb: "pub_inv (se_core se) (se_pub se)"
    using inv by (simp_all add: session_inv_def)
  consider (resp) "(\<exists>m. msg = RequestOk m) \<or> (\<exists>m. msg = RequestError m) \<or> (\<exists>m. msg = PublishOk m) \<or> (\<exists>m. msg = SubscribeOk m)"
    | (sub) p where "publisher_msg_try_from msg = Inr p" "dispatch_message show_err msg se = via_sub (sub_recv_message show_err p) se"
        "\<And>m. p \<noteq> PRequestError m" "\<And>m. p \<noteq> PRequestOk m"
    | (pub) p where "subscriber_msg_try_from msg = Inr p" "dispatch_message show_err msg se = via_pub (pub_recv_message show_err p) se"
    | (other) "publisher_msg_try_from msg = Inl msg" "subscriber_msg_try_from msg = Inl msg"
    by (cases msg) (auto simp: publisher_msg_try_from_def subscriber_msg_try_from_def dispatch_message_def)
  then show ?thesis
  proof cases
    case resp
    then show ?thesis using d responses_keep [OF inv] by (auto simp: dispatch_message_def)
  next
    case sub
    show ?thesis
      by (rule via_sub_keeps [OF inv d [unfolded sub(2)]])
        (use sub(1,3,4) fresh in \<open>auto elim!: sub_message_keeps [OF c sb] simp: publisher_msg_try_from_iff sequenced_request_id_def\<close>)
  next
    case pub
    show ?thesis
      by (rule via_pub_keeps [OF inv d [unfolded pub(2)]])
        (use pub(1) fresh in \<open>auto elim!: pub_message_keeps [OF c pb] simp: subscriber_msg_try_from_iff sequenced_request_id_def\<close>)
  next
    case other
    have "session_keeps (se_core se) (se\<lparr>se_goaway := True\<rparr>)" using inv by (simp add: session_keeps_def session_inv_def)
    moreover have "with_core (\<lambda>c. case apply_max_request_id m (sc_send_ids c) of (r, s) \<Rightarrow> (r, c\<lparr>sc_send_ids := s\<rparr>)) se = (r, se') \<Longrightarrow>
        session_keeps (se_core se) se'" for m and r :: "'a session_error + unit"
      by (erule with_core_keeps [OF inv]) (auto split: prod.splits dest: max_request_id_core [OF c])
    moreover have "with_core (\<lambda>c. case handle_requests_blocked m (sc_recv_ids c) of (r, s) \<Rightarrow> (r, c\<lparr>sc_recv_ids := s\<rparr>)) se = (r, se') \<Longrightarrow>
        session_keeps (se_core se) se'" for m and r :: "'a session_error + unit"
      by (erule with_core_keeps [OF inv]) (use c in \<open>auto simp: handle_requests_blocked_def\<close>)
    ultimately show ?thesis using d other session_keeps_refl [OF inv]
      by (cases msg) (auto simp: dispatch_message_def publisher_msg_try_from_def subscriber_msg_try_from_def split: if_splits)
  qed
qed

lemma recv_control_keeps:
  assumes "session_inv se" and "recv_control show_err msg se = (r, se')"
  shows "session_keeps (se_core se) se'"
proof (cases "(\<exists>a b. msg = Unknown a b) \<or> sequenced_request_id msg = None")
  case True
  show ?thesis
  proof (cases "\<exists>a b. msg = Unknown a b")
    case True
    then show ?thesis using assms session_keeps_refl by (auto simp: recv_control_def)
  next
    case False
    with True have n: "sequenced_request_id msg = None" by blast
    with False have "recv_control show_err msg se = dispatch_message show_err msg se" by (cases msg) (simp_all add: recv_control_def)
    with assms(2) have "dispatch_message show_err msg se = (r, se')" by simp
    then show ?thesis by (rule dispatch_message_keeps [OF assms(1)]) (simp add: n)
  qed
next
  case False
  then obtain i where i: "sequenced_request_id msg = Some i" by auto
  have inv: "core_inv (se_core se)" "sub_inv (se_core se) (se_sub se)" using assms(1) by (simp_all add: session_inv_def)
  obtain a c1 where v: "(core_validate i (se_core se) :: ('a session_error + unit) \<times> session_core) = (a, c1)" by (rule prod.exhaust)
  note cv = core_validate_core [OF inv(1) v]
  let ?se = "se\<lparr>se_core := c1\<rparr>"
  have k: "session_keeps (se_core se) ?se"
    using assms(1) cv(1) sub_inv_mono [of "se_core se" "se_sub se" c1] pub_inv_mono [of "se_core se" "se_pub se" c1]
    by (simp add: session_keeps_def session_inv_def)
  show ?thesis
  proof (cases a)
    case (Inl e)
    then have "se' = ?se" using assms(2) False i v by (cases msg) (auto simp: recv_control_def with_core_def)
    then show ?thesis using k by simp
  next
    case (Inr u)
    then have d: "dispatch_message show_err msg ?se = (r, se')" using assms(2) False i v by (cases msg) (auto simp: recv_control_def with_core_def)
    have "\<not> peer_id (se_core se) i" using cv(2) [OF Inr] by blast
    then have "sb_publishes_received (se_sub se) i = None" using inv(2) by (auto simp: sub_inv_def)
    then have "session_keeps (se_core ?se) se'"
      using k cv(2) [OF Inr] i by (intro dispatch_message_keeps [OF _ d]) (auto simp: session_keeps_def)
    then show ?thesis using session_keeps_trans k by (auto simp: session_keeps_def)
  qed
qed

lemma request_timed_out_keeps:
  assumes "session_inv se" and "own_id (se_core se) (fst q)" and "request_timed_out q se = (r, se')"
  shows "session_keeps (se_core se) se'"
  using assms
  by (auto simp: request_timed_out_def session_inv_def split: prod.splits if_splits
      elim!: via_pub_keeps [rotated] via_sub_keeps [rotated] pub_recv_request_timeout_keeps [rotated 2] sub_recv_request_timeout_keeps [rotated 3])

lemma requests_timed_out_keeps:
  assumes "session_inv se" and "\<forall>q \<in> set qs. own_id (se_core se) (fst q)" and "requests_timed_out qs se = (r, se')"
  shows "session_keeps (se_core se) se'"
  using assms
proof (induction qs arbitrary: se)
  case Nil
  then show ?case by (simp add: session_keeps_refl)
next
  case (Cons q qs)
  obtain a se1 where a: "(request_timed_out q se :: ('a session_error + unit) \<times> 'a session) = (a, se1)" by (rule prod.exhaust)
  have k: "session_keeps (se_core se) se1" using request_timed_out_keeps [OF Cons.prems(1) _ a] Cons.prems(2) by simp
  show ?case
  proof (cases a)
    case (Inl e)
    then show ?thesis using Cons.prems(3) a k by simp
  next
    case (Inr u)
    have "session_keeps (se_core se1) se'" using Cons.IH [of se1] Cons.prems(2,3) a Inr k by (auto simp: session_keeps_def core_le_def)
    then show ?thesis using k session_keeps_trans by (auto simp: session_keeps_def)
  qed
qed

lemma expired_ids:
  assumes "session_inv se" and "pr_expire (sc_now (se_core se)) (sc_pending (se_core se)) = (qs, p)"
  shows "session_inv (se\<lparr>se_core := (se_core se)\<lparr>sc_pending := p\<rparr>\<rparr>)" and "\<forall>q \<in> set qs. own_id (se_core se) (fst q)"
proof -
  let ?c = "se_core se"
  have inv: "core_inv ?c" "pr_wf (sc_pending ?c)" using assms(1) by (simp_all add: session_inv_def core_inv_def)
  note x = pr_expire_result [OF inv(2) assms(2)]
  have "core_inv (?c\<lparr>sc_pending := p\<rparr>)"
    using inv by (intro core_inv_pending) (auto simp: x(1) pr_wf_def distinct_filter_fst)
  then show "session_inv (se\<lparr>se_core := ?c\<lparr>sc_pending := p\<rparr>\<rparr>)" using assms(1) by (simp add: session_inv_def)
  show "\<forall>q \<in> set qs. own_id ?c (fst q)"
  proof
    fix q
    assume "q \<in> set qs"
    then obtain st where "map_of (sc_pending ?c) (fst q) = Some st" using x(2) [of "fst q" "snd q"] by auto
    then have "fst q \<in> fst ` set (sc_pending ?c)" by (force dest: map_of_SomeD)
    then show "own_id ?c (fst q)" using inv(1) by (auto simp: core_inv_def image_iff)
  qed
qed

lemma expire_requests_keeps:
  assumes "session_inv se" and "expire_requests se = (r, se')"
  shows "session_keeps (se_core se) se'"
proof -
  let ?c = "se_core se"
  obtain qs p where e: "pr_expire (sc_now ?c) (sc_pending ?c) = (qs, p)" by (rule prod.exhaust)
  let ?se = "se\<lparr>se_core := ?c\<lparr>sc_pending := p\<rparr>\<rparr>"
  note x = expired_ids [OF assms(1) e]
  have "requests_timed_out qs ?se = (r, se')" using assms(2) e by (simp add: expire_requests_def with_core_def)
  then have "session_keeps (se_core ?se) se'" using x by (intro requests_timed_out_keeps) auto
  then show ?thesis by (simp add: session_keeps_def)
qed

lemma session_recv_datagram_keeps:
  assumes "session_inv se" and "session_recv_datagram later bs se = (r, se')"
  shows "session_keeps (se_core se) se'"
  using assms recv_datagram_keeps
  by (auto simp: session_recv_datagram_def sub_keeps_pair session_inv_def split: prod.splits elim!: via_sub_keeps [rotated])

lemma run_recv_keeps: "session_inv se \<Longrightarrow> run_recv show_err rd se = (e, se') \<Longrightarrow> session_keeps (se_core se) se'"
proof (induction show_err rd se rule: run_recv.induct)
  case (1 show_err rd se)
  obtain a rd1 where d: "reader_decode message_decode rd = (a, rd1)" by (rule prod.exhaust)
  show ?case
  proof (cases a)
    case (Inl x)
    then show ?thesis using "1.prems" d by (simp add: run_recv.simps [of _ rd] session_keeps_refl)
  next
    case (Inr msg)
    obtain b se1 where b: "recv_control show_err msg se = (b, se1)" by (rule prod.exhaust)
    note k = recv_control_keeps [OF "1.prems"(1) b]
    show ?thesis
    proof (cases b)
      case (Inl x)
      then show ?thesis using "1.prems" d Inr b k by (simp add: run_recv.simps [of _ rd])
    next
      case u: (Inr u)
      have "session_keeps (se_core se1) se'"
        by (rule "1.IH" [OF d [symmetric] Inr b [symmetric] u])
          (use "1.prems"(2) d Inr b u k in \<open>simp_all add: run_recv.simps [of _ rd] session_keeps_def\<close>)
      then show ?thesis using k session_keeps_trans by (auto simp: session_keeps_def)
    qed
  qed
qed

end
