(* ===== verification/Answers.thy ===== *)
theory Answers
  imports Session_Laws
begin

text \<open>
  How often a request of the peer is answered. The responses on their way to the peer and the
  handles that may still answer are counted together, request by request; no operation of
  either role raises the count, and accepting a request raises it to one at most.
\<close>

section \<open>Counting\<close>

definition answer_of :: "message \<Rightarrow> u64 option" where
  "answer_of m =
     (case m of
        SubscribeOk m \<Rightarrow> Some (sok_id m)
      | PublishOk m \<Rightarrow> Some (pok_id m)
      | RequestOk m \<Rightarrow> Some (rok_id m)
      | RequestError m \<Rightarrow> Some (rerr_id m)
      | FetchOk m \<Rightarrow> Some (fok_id m)
      | _ \<Rightarrow> None)"

abbreviation (input) one_if :: "bool \<Rightarrow> nat" where
  "one_if P \<equiv> (if P then 1 else 0)"

definition answers :: "u64 \<Rightarrow> message list \<Rightarrow> nat" where
  "answers i ms = length (filter (\<lambda>m. answer_of m = Some i) ms)"

definition queued :: "'a queue \<Rightarrow> 'a list" where
  "queued q = map fst (w_value q)"

definition core_answers :: "u64 \<Rightarrow> session_core \<Rightarrow> nat" where
  "core_answers i c = answers i (queued (sc_outgoing c))"

text \<open>Handles that have not answered yet.\<close>

definition open_subscribeds :: "u64 \<Rightarrow> subscribed list \<Rightarrow> nat" where
  "open_subscribeds i hs = length (filter (\<lambda>h. si_id (sd_info h) = i \<and> \<not> sd_ok h) hs)"

definition open_namespaces :: "u64 \<Rightarrow> published_namespace list \<Rightarrow> nat" where
  "open_namespaces i hs = length (filter (\<lambda>h. pnh_request_id h = i \<and> \<not> pnh_ok h) hs)"

definition open_publishes :: "u64 \<Rightarrow> publish_received list \<Rightarrow> nat" where
  "open_publishes i hs = length (filter (\<lambda>h. pr_request_id h = i \<and> \<not> pr_ok h) hs)"

definition open_statuses :: "u64 \<Rightarrow> track_status list \<Rightarrow> nat" where
  "open_statuses i hs = length (filter (\<lambda>h. ts_id h = i) hs)"

lemmas open_defs = open_subscribeds_def open_namespaces_def open_publishes_def open_statuses_def

definition open_fetch :: "fetch_requested_state \<Rightarrow> bool" where
  "open_fetch s \<longleftrightarrow> w_value s = None \<and> w_open s"

definition ns_tokens :: "u64 \<Rightarrow> publish_namespace_state watched \<Rightarrow> nat" where
  "ns_tokens i s = open_subscribeds i (pst_subscribers (w_value s)) + open_statuses i (pst_track_statuses (w_value s))"

definition sub_tokens :: "u64 \<Rightarrow> 'e subscriber \<Rightarrow> nat" where
  "sub_tokens i sb =
     open_namespaces i (queued (sb_published_namespace_queue sb)) + open_publishes i (queued (sb_publish_received_queue sb))"

definition pub_tokens :: "u64 \<Rightarrow> publisher \<Rightarrow> nat" where
  "pub_tokens i pb =
     open_subscribeds i (queued (pb_unknown_subscribed pb)) + open_statuses i (queued (pb_unknown_track_status pb)) +
     sum_list (map (\<lambda>(_, r). ns_tokens i (pnr_state r)) (pb_publish_namespaces pb)) +
     (\<Sum>j \<in> UNIV. case pb_ns_closed pb j of None \<Rightarrow> 0 | Some s \<Rightarrow> ns_tokens i s) +
     one_if (\<exists>s. pb_fetch_states pb i = Some s \<and> open_fetch s)"

definition sub_count :: "u64 \<Rightarrow> 'e sub_st \<Rightarrow> nat" where
  "sub_count i st = core_answers i (fst st) + sub_tokens i (snd st)"

definition pub_count :: "u64 \<Rightarrow> pub_st \<Rightarrow> nat" where
  "pub_count i st = core_answers i (fst st) + pub_tokens i (snd st)"

section \<open>The shared state\<close>

lemma core_answers_fields [simp]:
  "core_answers i (c\<lparr>sc_pending := p\<rparr>) = core_answers i c" "core_answers i (c\<lparr>sc_send_ids := s\<rparr>) = core_answers i c"
  "core_answers i (c\<lparr>sc_recv_ids := r\<rparr>) = core_answers i c" "core_answers i (c\<lparr>sc_now := n\<rparr>) = core_answers i c"
  by (simp_all add: core_answers_def)

lemma queue_pushed:
  "queue_push x q = (r, w, q') \<Longrightarrow> queued q' = (case r of Inl _ \<Rightarrow> queued q | Inr _ \<Rightarrow> queued q @ [x])"
  by (auto simp: queue_push_def queued_def with_mut_def notify_def split: if_splits option.splits)

lemma push_outgoing_answers: "core_answers i (push_outgoing m c) \<le> core_answers i c + one_if (answer_of m = Some i)"
proof -
  obtain r w q where q: "queue_push m (sc_outgoing c) = (r, w, q)" by (rule prod_cases3)
  then show ?thesis using queue_pushed [OF q] by (cases r) (simp_all add: push_outgoing_def core_answers_def answers_def)
qed

lemma push_other_answers [simp]: "answer_of m = None \<Longrightarrow> core_answers i (push_outgoing m c) = core_answers i c"
proof -
  assume m: "answer_of m = None"
  obtain r w q where q: "queue_push m (sc_outgoing c) = (r, w, q)" by (rule prod_cases3)
  then show ?thesis using queue_pushed [OF q] m by (cases r) (simp_all add: push_outgoing_def core_answers_def answers_def)
qed

lemma get_next_request_id_answers [simp]:
  "get_next_request_id c = (r, c') \<Longrightarrow> core_answers i c' = core_answers i c"
  by (auto simp: get_next_request_id_def Let_def answer_of_def split: sum.splits prod.splits request_id_allocation.splits option.splits)

section \<open>The subscriber role\<close>

lemma sub_tokens_fields [simp]:
  "sub_tokens i (sb\<lparr>sb_published_namespaces := x1\<rparr>) = sub_tokens i sb" "sub_tokens i (sb\<lparr>sb_pn_done := x2\<rparr>) = sub_tokens i sb"
  "sub_tokens i (sb\<lparr>sb_subscribes := x3\<rparr>) = sub_tokens i sb" "sub_tokens i (sb\<lparr>sb_sub_closed := x4\<rparr>) = sub_tokens i sb"
  "sub_tokens i (sb\<lparr>sb_track_statuses := x5\<rparr>) = sub_tokens i sb" "sub_tokens i (sb\<lparr>sb_fetches := x6\<rparr>) = sub_tokens i sb"
  "sub_tokens i (sb\<lparr>sb_fetch_closed := x7\<rparr>) = sub_tokens i sb" "sub_tokens i (sb\<lparr>sb_aliases := x8\<rparr>) = sub_tokens i sb"
  "sub_tokens i (sb\<lparr>sb_publishes_received := x9\<rparr>) = sub_tokens i sb" "sub_tokens i (sb\<lparr>sb_names := x10\<rparr>) = sub_tokens i sb"
  "sub_tokens i (sb\<lparr>sb_subscribe_namespaces := x11\<rparr>) = sub_tokens i sb" "sub_tokens i (sb\<lparr>sb_store := x12\<rparr>) = sub_tokens i sb"
  "sub_tokens i (with_store f sb) = sub_tokens i sb" "sub_tokens i (snd (drop_publish_namespace j sb)) = sub_tokens i sb"
  by (simp_all add: sub_tokens_def with_store_def drop_publish_namespace_def split: option.split prod.split)

lemma sub_count_pair: "sub_count i (c, sb) = core_answers i c + sub_tokens i sb"
  by (simp add: sub_count_def)

lemma sub_send_parts [simp]:
  "fst (sub_send_message m st) = push_outgoing m (fst st)" "sub_tokens i (snd (sub_send_message m st)) = sub_tokens i (snd st)"
  by (cases st; cases m; simp add: sub_send_message_def)+

lemma sub_send_count: "sub_count i (sub_send_message m st) \<le> sub_count i st + one_if (answer_of m = Some i)"
  using push_outgoing_answers [of i m "fst st"] by (simp add: sub_count_def)

lemma sub_send_other [simp]: "answer_of m = None \<Longrightarrow> sub_count i (sub_send_message m (c, sb)) = sub_count i (c, sb)"
  by (simp add: sub_count_def)

lemma remove_subscribe_count [simp]: "remove_subscribe j (c, sb) = (r, c', sb') \<Longrightarrow> sub_count i (c', sb') = sub_count i (c, sb)"
  by (auto simp: remove_subscribe_def sub_count_pair)

lemma subscribe_error_tokens [simp]: "sub_tokens i (snd (subscribe_error j sr e sb)) = sub_tokens i sb"
  by (simp add: subscribe_error_def split_beta)

lemma request_calls_count:
  "sub_count i (track_status_request ns name (c, sb)) = sub_count i (c, sb)"
  "subscribe_open t (c, sb) = (r1, st1) \<Longrightarrow> sub_count i st1 = sub_count i (c, sb)"
  "fetch_open f params (c, sb) = (r2, st2) \<Longrightarrow> sub_count i st2 = sub_count i (c, sb)"
  "subscribe_namespace_begin pre (c, sb) = (r3, st3) \<Longrightarrow> sub_count i st3 = sub_count i (c, sb)"
  by (auto simp: track_status_request_def subscribe_open_def fetch_open_def subscribe_namespace_begin_def Let_def answer_of_def sub_count_pair
      split: sum.splits prod.splits if_splits)

lemma subscribe_drop_count: "sub_count i (subscribe_drop j (c, sb)) = sub_count i (c, sb)"
proof -
  obtain r c' sb' where r: "remove_subscribe j (push_outgoing (Unsubscribe \<lparr>unsub_id = j\<rparr>) c, sb) = (r, c', sb')" by (rule prod_cases3)
  show ?thesis using r remove_subscribe_count [OF r, of i]
    by (cases r) (simp_all add: subscribe_drop_def sub_send_message_def drop_subscribe_recv_def sub_count_pair answer_of_def)
qed

lemma fetch_drop_count: "sub_count i (fetch_drop d j (c, sb)) = sub_count i (c, sb)"
  by (simp add: fetch_drop_def remove_fetch_def sub_send_message_def sub_count_pair answer_of_def)

lemma publish_received_dropped_count:
  "sub_count i (publish_received_dropped pr (c, sb)) \<le> sub_count i (c, sb) + open_publishes i [pr]"
proof (cases "publish_received_drop pr")
  case None
  then show ?thesis by (simp add: publish_received_dropped_def)
next
  case (Some m)
  then have m: "answer_of m = Some (pr_request_id pr)" "\<not> pr_ok pr" by (auto simp: publish_received_drop_def answer_of_def split: if_splits)
  obtain c' sb' where s: "sub_send_message m (c, sb) = (c', sb')" by (rule prod.exhaust)
  then show ?thesis using Some m sub_send_count [of i m "(c, sb)"]
    by (auto simp: publish_received_dropped_def remove_publish_received_def sub_count_pair open_publishes_def split: if_splits)
qed

lemma published_namespace_dropped_count:
  "sub_count i (published_namespace_dropped show_err h (c, sb)) \<le> sub_count i (c, sb) + open_namespaces i [h]"
proof (cases "published_namespace_drop show_err (pnh_request_id h \<in> sb_pn_done sb) h")
  case None
  then show ?thesis by (simp add: published_namespace_dropped_def send_opt_def)
next
  case (Some m)
  then show ?thesis using sub_send_count [of i m "(c, sb)"]
    by (auto simp: published_namespace_dropped_def send_opt_def published_namespace_drop_def Let_def answer_of_def open_namespaces_def
        split: if_splits)
qed

lemma recv_publish_namespace_count:
  assumes "recv_publish_namespace show_err msg (c, sb) = (r, st')"
  shows "sub_count i st' \<le> sub_count i (c, sb) + one_if (pns_id msg = i)"
proof -
  let ?h = "published_namespace_new (pns_id msg) (pns_track_namespace msg)"
  obtain a w q where q: "queue_push ?h (sb_published_namespace_queue sb) = (a, w, q)" by (rule prod_cases3)
  note qd = queue_pushed [OF q]
  have tok: "open_namespaces i [published_namespace_close SCancel ?h] = one_if (pns_id msg = i)" "open_namespaces i [?h] = one_if (pns_id msg = i)"
    by (simp_all add: open_namespaces_def published_namespace_new_def published_namespace_close_def)
  show ?thesis
  proof (cases "map_of (sb_published_namespaces sb) (pns_track_namespace msg)")
    case (Some j)
    then show ?thesis using assms by (simp add: recv_publish_namespace_def)
  next
    case None
    show ?thesis
    proof (cases a)
      case (Inl h)
      have h: "h = ?h" by (rule queue_push_refused [OF q [unfolded Inl]])
      let ?sb = "sb\<lparr>sb_published_namespace_queue := q\<rparr>"
      have q': "queue_push ?h (sb_published_namespace_queue sb) = (Inl ?h, w, q)" using q unfolding Inl h .
      have "st' = published_namespace_dropped show_err (published_namespace_close SCancel ?h) (c, ?sb)"
        using assms None q' by (simp add: recv_publish_namespace_def Let_def)
      then have "sub_count i st' \<le> sub_count i (c, ?sb) + open_namespaces i [published_namespace_close SCancel ?h]"
        by (simp only: published_namespace_dropped_count)
      moreover have "sub_count i (c, ?sb) = sub_count i (c, sb)" using qd Inl by (simp add: sub_count_pair sub_tokens_def)
      ultimately show ?thesis unfolding tok(1) by (simp only:)
    next
      case (Inr u)
      then show ?thesis using assms None q tok(2) qd
        by (auto simp: recv_publish_namespace_def Let_def sub_count_pair sub_tokens_def open_namespaces_def)
    qed
  qed
qed

lemma drop_publish_namespace_count [simp]: "drop_publish_namespace j sb = (r, sb') \<Longrightarrow> sub_tokens i sb' = sub_tokens i sb"
  using sub_tokens_fields(14) [of i j sb] by simp

lemma recv_publish_namespace_done_count:
  "recv_publish_namespace_done msg (c, sb) = (r, st') \<Longrightarrow> sub_count i st' = sub_count i (c, sb)"
  by (auto simp: recv_publish_namespace_done_def sub_count_pair split: prod.splits option.splits)

lemma recv_fetch_ok_count: "recv_fetch_ok msg (c, sb) = (r, st') \<Longrightarrow> sub_count i st' = sub_count i (c, sb)"
  by (auto simp: recv_fetch_ok_def Let_def sub_count_pair split: prod.splits option.splits sum.splits if_splits)

lemma sub_recv_subscribe_ok_count: "sub_recv_subscribe_ok msg (c, sb) = (r, st') \<Longrightarrow> sub_count i st' = sub_count i (c, sb)"
  by (auto simp: sub_recv_subscribe_ok_def sub_count_pair split: prod.splits option.splits sum.splits if_splits)

lemma sub_removals_count:
  "recv_publish_done m1 (c, sb) = (r, st') \<Longrightarrow> sub_count i st' = sub_count i (c, sb)"
  "sub_recv_request_error m2 (c, sb) = (r, st') \<Longrightarrow> sub_count i st' = sub_count i (c, sb)"
  "sub_recv_request_timeout j q (c, sb) = (r, st') \<Longrightarrow> sub_count i st' = sub_count i (c, sb)"
  "stream_failed e a (c, sb) = (r', st') \<Longrightarrow> sub_count i st' = sub_count i (c, sb)"
  by (auto simp: recv_publish_done_def sub_recv_request_error_def sub_recv_request_timeout_def stream_failed_def take_fetch_def
      drop_track_status_def remove_subscribe_def sub_count_pair Let_def answer_of_def split_beta
      split: option.splits if_splits pending_request.splits sum.splits track_origin.splits)

lemma recv_publish_count:
  assumes "recv_publish msg (c, sb) = (r, st')"
  shows "sub_count i st' \<le> sub_count i (c, sb) + one_if (pub_id msg = i)"
proof -
  let ?full = "\<lparr>ftn_namespace = pub_track_namespace msg, ftn_name = pub_track_name msg\<rparr>"
  have reject: "sub_count i (sub_send_message (reject_publish (pub_id msg) code why) (c, sb)) \<le> sub_count i (c, sb) + one_if (pub_id msg = i)" for code why
    using sub_send_count [of i "reject_publish (pub_id msg) code why" "(c, sb)"] by (simp add: reject_publish_def answer_of_def)
  have queue: "sub_count i st'' \<le> sub_count i (c, sb) + one_if (pub_id msg = i)"
    if q: "queue_push pr (sb_publish_received_queue sb1) = (a, w, q)" and pr: "pr_request_id pr = pub_id msg"
      and sb1: "sub_tokens i sb1 = sub_tokens i sb" "sb_publish_received_queue sb1 = sb_publish_received_queue sb"
        "sb_published_namespace_queue sb1 = sb_published_namespace_queue sb"
      and st: "st'' = (case a of Inl p \<Rightarrow> publish_received_dropped p (c, sb1\<lparr>sb_publish_received_queue := q\<rparr>)
        | Inr _ \<Rightarrow> (c, sb1\<lparr>sb_publish_received_queue := q\<rparr>))" for pr a w q st'' sb1
  proof (cases a)
    case (Inl p)
    have "p = pr" by (rule queue_push_refused [OF q [unfolded Inl]])
    moreover have "sub_count i (c, sb1\<lparr>sb_publish_received_queue := q\<rparr>) = sub_count i (c, sb)"
      using queue_pushed [OF q] Inl sb1 by (simp add: sub_count_pair sub_tokens_def)
    ultimately show ?thesis using st Inl pr publish_received_dropped_count [of i p c "sb1\<lparr>sb_publish_received_queue := q\<rparr>"]
      by (auto simp: open_publishes_def split: if_splits)
  next
    case (Inr u)
    then show ?thesis using queue_pushed [OF q] st pr sb1 by (auto simp: sub_count_pair sub_tokens_def open_publishes_def)
  qed
  show ?thesis
  proof (cases "\<exists>al. alias_insert (pub_track_alias msg) (OriginPublish (pub_id msg)) (sb_aliases sb) = (Inr (), al) \<and> \<not> contains_name (sb_names sb) ?full")
    case False
    then show ?thesis using assms reject
      by (auto simp: recv_publish_def Let_def sub_count_pair split: if_splits sum.splits prod.splits)
  next
    case True
    then obtain al where al: "alias_insert (pub_track_alias msg) (OriginPublish (pub_id msg)) (sb_aliases sb) = (Inr (), al)"
        "\<not> contains_name (sb_names sb) ?full" by blast
    show ?thesis
    proof (cases "pub_track_extensions msg \<noteq> [] \<or> (\<exists>e. forward (pub_params msg) = Inl e) \<or> (\<exists>e. largest_object (pub_params msg) = Inl e)")
      case True
      then show ?thesis using assms reject
        by (auto simp: recv_publish_def Let_def decode_err_def split: if_splits sum.splits)
    next
      case False
      then obtain fwd largest where f: "pub_track_extensions msg = []" "forward (pub_params msg) = Inr fwd" "largest_object (pub_params msg) = Inr largest"
        by (cases "forward (pub_params msg)"; cases "largest_object (pub_params msg)") auto
      obtain t sv where t: "track_produce ?full (mi_serve (sb_store sb)) = (t, sv)" by (rule prod.exhaust)
      let ?pr = "\<lparr>pr_reader = Some t, pr_request_id = pub_id msg, pr_track_alias = pub_track_alias msg, pr_full_name = ?full,
        pr_initial_forward = unwrap_or fwd True, pr_largest_location = largest, pr_ok = False, pr_error = None\<rparr>"
      let ?sb1 = "with_store (\<lambda>_. sv) (sb\<lparr>sb_names := name_insert ?full (pub_id msg) (sb_names sb), sb_aliases := al,
        sb_publishes_received := (sb_publishes_received sb)(pub_id msg \<mapsto>
          \<lparr>prr_state = watched_new publish_received_state_default, prr_writer = Some (WTrack t)\<rparr>)\<rparr>)"
      obtain a w q where q: "queue_push ?pr (sb_publish_received_queue ?sb1) = (a, w, q)" by (rule prod_cases3)
      have q': "queue_push ?pr (sb_publish_received_queue sb) = (a, w, q)" using q by (simp add: with_store_def)
      show ?thesis
        by (rule queue [OF q]) (use assms al f t q' in \<open>auto simp: recv_publish_def Let_def decode_err_def with_store_def split: sum.splits\<close>)
    qed
  qed
qed

lemma sub_message_count:
  assumes "sub_recv_message show_err msg (c, sb) = (r, st')" and "\<And>m. msg \<noteq> PRequestError m" and "\<And>m. msg \<noteq> PRequestOk m"
  shows "sub_count i st' \<le> sub_count i (c, sb) + one_if (sequenced_request_id (message_from_publisher_msg msg) = Some i)"
  using assms
  by (cases msg)
    (auto simp: sub_recv_message_def sequenced_request_id_def recv_publish_namespace_done_count recv_fetch_ok_count sub_recv_subscribe_ok_count
      sub_removals_count dest!: recv_publish_count [of _ _ _ _ _ i] recv_publish_namespace_count [of _ _ _ _ _ _ i])

lemma recv_subgroup_writer_count: "recv_subgroup_writer og header (sb, n) = (r, sb', n') \<Longrightarrow> sub_tokens i sb' = sub_tokens i sb"
  by (auto simp: recv_subgroup_writer_def split: option.splits prod.splits sum.splits track_origin.splits)

lemma recv_datagram_count: "recv_datagram later bs sb = (r, sb') \<Longrightarrow> sub_tokens i sb' = sub_tokens i sb"
  by (auto simp: recv_datagram_def split: option.splits prod.splits sum.splits track_origin.splits)

section \<open>The publisher role\<close>

lemma pub_count_pair: "pub_count i (c, pb) = core_answers i c + pub_tokens i pb"
  by (simp add: pub_count_def)

abbreviation (input) closed_tokens :: "u64 \<Rightarrow> (u64 \<rightharpoonup> publish_namespace_state watched) \<Rightarrow> nat" where
  "closed_tokens i m \<equiv> \<Sum>j \<in> UNIV. case m j of None \<Rightarrow> 0 | Some s \<Rightarrow> ns_tokens i s"

lemma closed_tokens_upd:
  fixes m :: "u64 \<rightharpoonup> publish_namespace_state watched"
  shows "closed_tokens i (m(k \<mapsto> s)) \<le> closed_tokens i m + ns_tokens i s"
    and "m k = Some s' \<Longrightarrow> closed_tokens i m = closed_tokens i (m(k := None)) + ns_tokens i s'"
proof -
  let ?g = "\<lambda>m j. case m j of None \<Rightarrow> 0 | Some s \<Rightarrow> ns_tokens i s"
  have split: "sum (?g m') UNIV = ?g m' k + sum (?g m') (UNIV - {k})" for m' :: "u64 \<rightharpoonup> publish_namespace_state watched"
    by (rule sum.remove) simp_all
  have rest: "sum (?g (m(k := v))) (UNIV - {k}) = sum (?g m) (UNIV - {k})" for v
    by (rule sum.cong) simp_all
  show "closed_tokens i (m(k \<mapsto> s)) \<le> closed_tokens i m + ns_tokens i s"
    using split [of "m(k \<mapsto> s)"] split [of m] rest [of "Some s"] by simp
  show "m k = Some s' \<Longrightarrow> closed_tokens i m = closed_tokens i (m(k := None)) + ns_tokens i s'"
    using split [of "m(k := None)"] split [of m] rest [of None] by simp
qed

lemma pub_tokens_fields [simp]:
  "pub_tokens i (pb\<lparr>pb_publisheds := x1\<rparr>) = pub_tokens i pb" "pub_tokens i (pb\<lparr>pb_published_states := x2\<rparr>) = pub_tokens i pb"
  "pub_tokens i (pb\<lparr>pb_published_names := x3\<rparr>) = pub_tokens i pb" "pub_tokens i (pb\<lparr>pb_subscribeds := x4\<rparr>) = pub_tokens i pb"
  "pub_tokens i (pb\<lparr>pb_forwarders := x5\<rparr>) = pub_tokens i pb" "pub_tokens i (pb\<lparr>pb_subscribed_names := x6\<rparr>) = pub_tokens i pb"
  "pub_tokens i (pb\<lparr>pb_fetches := x7\<rparr>) = pub_tokens i pb" "pub_tokens i (pb\<lparr>pb_subscribed_namespace_prefixes := x8\<rparr>) = pub_tokens i pb"
  by (simp_all add: pub_tokens_def)

lemma pub_tokens_helpers [simp]:
  "pub_tokens i (drop_forwarder j pb) = pub_tokens i pb" "pub_tokens i (drop_subscribe j pb) = pub_tokens i pb"
  "pub_tokens i (drop_published_entry b j pb) = pub_tokens i pb" "pub_tokens i (store_subscribed sd pb) = pub_tokens i pb"
  "pub_tokens i (fail_published b j e pb) = pub_tokens i pb" "pub_tokens i (snd (pub_remove_subscribe j pb)) = pub_tokens i pb"
  by (simp_all add: drop_forwarder_def drop_subscribe_def pub_remove_subscribe_def drop_published_entry_def store_subscribed_def fail_published_def
      split: prod.split)

lemma settle_namespace_tokens: "pub_tokens i (settle_namespace j s pb) \<le> pub_tokens i pb + ns_tokens i s"
  using closed_tokens_upd(1) [of i "pb_ns_closed pb" j s] by (simp add: settle_namespace_def pub_tokens_def)

lemma remove_published_count [simp]: "remove_published j (c, pb) = (r, c', pb') \<Longrightarrow> pub_count i (c', pb') = pub_count i (c, pb)"
  by (auto simp: remove_published_def Let_def pub_count_pair split: option.splits)

lemma drop_published_count [simp]: "pub_count i (drop_published j (c, pb)) = pub_count i (c, pb)"
proof -
  obtain r c' pb' where r: "remove_published j (c, pb) = (r, c', pb')" by (rule prod_cases3)
  show ?thesis using r remove_published_count [OF r, of i] by (cases r) (simp_all add: drop_published_def pub_count_pair)
qed

text \<open>An announcement's record leaves the list with the handles queued in it.\<close>

lemma take_entry_tokens:
  fixes f :: "'v \<Rightarrow> nat"
  assumes "find (\<lambda>(_, v). P v) xs = Some (key, v)"
  shows "sum_list (map (\<lambda>(_, v). f v) (filter (\<lambda>(k, _). k \<noteq> key) xs)) + f v \<le> sum_list (map (\<lambda>(_, v). f v) xs)"
proof -
  have "(key, v) \<in> set xs" using assms unfolding find_Some_iff by (metis nth_mem)
  then show ?thesis
  proof (induction xs)
    case (Cons x xs)
    have drop: "sum_list (map (\<lambda>(_, v). f v) (filter (\<lambda>(k, _). k \<noteq> key) xs)) \<le> sum_list (map (\<lambda>(_, v). f v) xs)"
      by (induction xs) auto
    show ?case using Cons drop by (cases x) (auto simp: add.assoc)
  qed simp
qed

lemma pub_drop_publish_namespace_count:
  "pub_drop_publish_namespace j (c, pb) = (r, c', pb') \<Longrightarrow>
   pub_count i (c', pb') + (case r of None \<Rightarrow> 0 | Some v \<Rightarrow> ns_tokens i (pnr_state v)) \<le> pub_count i (c, pb)"
  using take_entry_tokens [of "\<lambda>v. pnr_request_id v = j" "pb_publish_namespaces pb" _ _ "\<lambda>v. ns_tokens i (pnr_state v)"]
  by (auto simp: pub_drop_publish_namespace_def Let_def pub_count_pair pub_tokens_def split: option.splits)

lemma ns_tokens_drop [simp]: "ns_tokens i (snd (drop_half s)) = ns_tokens i s"
  by (simp add: ns_tokens_def drop_half_def notify_def)

lemma act_on_message_count: "pub_count i (act_on_message_to_send m (c, pb)) \<le> pub_count i (c, pb)"
proof (cases m)
  case (PublishDone d)
  then show ?thesis by (simp add: act_on_message_to_send_def) (simp add: pub_count_pair)
next
  case (PublishNamespaceDone d)
  obtain r c' pb' where r: "pub_drop_publish_namespace (pnd_id d) (c, pb) = (r, c', pb')" by (rule prod_cases3)
  note k = pub_drop_publish_namespace_count [OF r, of i]
  show ?thesis
  proof (cases r)
    case None
    then show ?thesis using PublishNamespaceDone r k by (simp add: act_on_message_to_send_def)
  next
    case (Some v)
    then show ?thesis using PublishNamespaceDone r k settle_namespace_tokens [of i "pnd_id d" "snd (drop_half (pnr_state v))" pb']
      by (simp add: act_on_message_to_send_def pub_count_pair)
  qed
qed (simp_all add: act_on_message_to_send_def)

lemma pub_send_count: "pub_count i (pub_send_message m st) \<le> pub_count i st + one_if (answer_of m = Some i)"
proof -
  obtain c pb where st: "st = (c, pb)" by (rule prod.exhaust)
  obtain c' pb' where a: "act_on_message_to_send m (c, pb) = (c', pb')" by (rule prod.exhaust)
  show ?thesis using act_on_message_count [of i m c pb] push_outgoing_answers [of i m c'] a
    by (simp add: st pub_send_message_def pub_count_pair)
qed

lemma pub_send_other: "answer_of m = None \<Longrightarrow> pub_count i (pub_send_message m st) \<le> pub_count i st"
  using pub_send_count [of i m st] by simp

subsection \<open>Calls of the application\<close>

lemma load_subscribed_parts [simp]: "sd_info (load_subscribed sd pb) = sd_info sd" "sd_ok (load_subscribed sd pb) = sd_ok sd"
  by (simp_all add: load_subscribed_def split: option.split)

lemma subscribed_dropped_count: "pub_count i (subscribed_dropped show_err sd st) \<le> pub_count i st + open_subscribeds i [sd]"
proof -
  obtain m b where d: "subscribed_drop show_err (load_subscribed sd (snd st)) = (m, b)" by (rule prod.exhaust)
  obtain c' pb' where s: "(case m of None \<Rightarrow> st | Some x \<Rightarrow> pub_send_message x st) = (c', pb')" by (rule prod.exhaust)
  have "pub_count i (c', pb') \<le> pub_count i st + open_subscribeds i [sd]"
  proof (cases m)
    case None
    then show ?thesis using s by simp
  next
    case (Some x)
    have "one_if (answer_of x = Some i) \<le> open_subscribeds i [sd]"
      using d Some by (auto simp: subscribed_drop_def answer_of_def open_subscribeds_def split: prod.splits if_splits)
    then show ?thesis using pub_send_count [of i x st] s Some by simp
  qed
  then show ?thesis using d s by (simp add: subscribed_dropped_def pub_count_pair)
qed

lemma subscribed_closed_tokens [simp]: "pub_tokens i (snd (subscribed_closed e sd pb)) = pub_tokens i pb"
  by (simp add: subscribed_closed_def Let_def split_beta)

lemma subscribed_close_count: "pub_count i (snd (subscribed_close show_err e sd st)) \<le> pub_count i st + open_subscribeds i [sd]"
  using subscribed_dropped_count [of i show_err sd "(fst st, snd (subscribed_closed e sd (snd st)))"]
  by (cases st) (simp add: subscribed_close_def split_beta pub_count_pair)

lemma pub_send_wait_count: "pub_count i (pub_send_message_and_wait tx m st) \<le> pub_count i st + one_if (answer_of m = Some i)"
proof -
  obtain c pb where st: "st = (c, pb)" by (rule prod.exhaust)
  obtain c' pb' where a: "act_on_message_to_send m (c, pb) = (c', pb')" by (rule prod.exhaust)
  obtain b w q where q: "queue_push_notified m tx (sc_outgoing c') = (b, w, q)" by (rule prod_cases3)
  then have "queued q = queued (sc_outgoing c') \<or> queued q = queued (sc_outgoing c') @ [m]"
    by (auto simp: queue_push_notified_def queued_def with_mut_def notify_def split: if_splits option.splits)
  then have "core_answers i (c'\<lparr>sc_outgoing := q\<rparr>) \<le> core_answers i c' + one_if (answer_of m = Some i)"
    by (auto simp: core_answers_def answers_def)
  then show ?thesis using act_on_message_count [of i m c pb] a q by (simp add: st pub_send_message_and_wait_def pub_count_pair)
qed

text \<open>A serve sends its answer and waits; its handle is not marked yet.\<close>

lemma subscribed_serve_count:
  assumes "\<not> sd_ok sd" and "subscribed_serve tx largest window sd (c, pb) = (r, sd', st')"
  shows "pub_count i st' + (if isl r then open_subscribeds i [sd'] else 0) \<le> pub_count i (c, pb) + open_subscribeds i [sd]"
    and "sd_info sd' = sd_info sd \<and> \<not> sd_ok sd'"
proof -
  obtain ms where b: "serve_begin (pb_profile pb) largest window (load_subscribed sd pb) = (r, ms, sd')"
      and st': "st' = fold (pub_send_message_and_wait tx) ms (c, store_subscribed sd' pb)"
    using assms(2) by (auto simp: subscribed_serve_def split: prod.splits)
  have same: "sd_info (load_subscribed sd pb) = sd_info sd" "sd_ok (load_subscribed sd pb) = sd_ok sd"
    by (simp_all add: load_subscribed_def split: option.splits)
  have ms: "ms = [] \<and> isl r \<or> (\<exists>m. ms = [m] \<and> answer_of m = Some (si_id (sd_info sd)) \<and> \<not> isl r)"
    and kept: "sd_info sd' = sd_info sd \<and> \<not> sd_ok sd'"
    using b assms(1) same by (auto simp: serve_begin_def Let_def answer_of_def split: prod.splits sum.splits)
  have keep: "pub_count i (c, store_subscribed sd' pb) = pub_count i (c, pb)" by (simp add: pub_count_pair)
  show "sd_info sd' = sd_info sd \<and> \<not> sd_ok sd'" by (rule kept)
  show "pub_count i st' + (if isl r then open_subscribeds i [sd'] else 0) \<le> pub_count i (c, pb) + open_subscribeds i [sd]"
  proof (cases ms)
    case Nil
    then show ?thesis using ms kept st' keep assms(1) by (simp add: open_subscribeds_def)
  next
    case (Cons m rest)
    with ms have m: "ms = [m]" "answer_of m = Some (si_id (sd_info sd))" "\<not> isl r" by auto
    then show ?thesis using st' keep assms(1) pub_send_wait_count [of i tx m "(c, store_subscribed sd' pb)"]
      by (simp add: open_subscribeds_def split: if_splits)
  qed
qed

lemma closing_subscribeds_count:
  "pub_count i (fold (\<lambda>sd st. snd (subscribed_close show_err e sd st)) sds st) \<le> pub_count i st + open_subscribeds i sds"
proof (induction sds arbitrary: st)
  case (Cons sd sds)
  have "open_subscribeds i (sd # sds) = open_subscribeds i [sd] + open_subscribeds i sds" by (simp add: open_subscribeds_def)
  then show ?case using Cons.IH [of "snd (subscribed_close show_err e sd st)"] subscribed_close_count [of i show_err e sd st] by simp
qed simp

lemma namespace_state_dropped_count: "pub_count i (namespace_state_dropped show_err j (c, pb)) \<le> pub_count i (c, pb)"
proof (cases "pb_ns_closed pb j")
  case None
  then show ?thesis by (simp add: namespace_state_dropped_def)
next
  case (Some s)
  then have "pub_tokens i pb = pub_tokens i (pb\<lparr>pb_ns_closed := (pb_ns_closed pb)(j := None)\<rparr>) + ns_tokens i s"
    using closed_tokens_upd(2) [of "pb_ns_closed pb" j s i] by (simp add: pub_tokens_def)
  then show ?thesis
    using Some closing_subscribeds_count [of i show_err SNotFoundWithId "pst_subscribers (w_value s)" "(c, pb\<lparr>pb_ns_closed := (pb_ns_closed pb)(j := None)\<rparr>)"]
    by (simp add: namespace_state_dropped_def pub_count_pair ns_tokens_def)
qed

lemma claim_response_open: "claim_response s = (r, s') \<Longrightarrow> (r = Inr u \<longrightarrow> open_fetch s) \<and> (open_fetch s' \<longrightarrow> open_fetch s \<and> (\<forall>u. r \<noteq> Inr u))"
  by (auto simp: claim_response_def open_fetch_def with_mut_def notify_def split: option.splits if_splits)

lemma fetch_states_tokens:
  assumes "pb_fetch_states pb j = Some s" and "open_fetch s' \<Longrightarrow> open_fetch s"
  shows "pub_tokens i (pb\<lparr>pb_fetch_states := (pb_fetch_states pb)(j \<mapsto> s')\<rparr>) + one_if (i = j \<and> open_fetch s \<and> \<not> open_fetch s') \<le> pub_tokens i pb"
proof -
  have "pub_tokens i (pb\<lparr>pb_fetch_states := (pb_fetch_states pb)(j \<mapsto> s')\<rparr>) + one_if (\<exists>s. pb_fetch_states pb i = Some s \<and> open_fetch s) =
      pub_tokens i pb + one_if (\<exists>s. ((pb_fetch_states pb)(j \<mapsto> s')) i = Some s \<and> open_fetch s)"
    unfolding pub_tokens_def by simp
  then show ?thesis using assms by (cases "i = j"; cases "open_fetch s"; cases "open_fetch s'") (simp_all add: fun_upd_apply)
qed

lemma fetch_requested_answer_count:
  assumes "answer_of m = Some j"
  shows "pub_count i (snd (fetch_requested_answer m j (c, pb))) \<le> pub_count i (c, pb)"
proof (cases "pb_fetch_states pb j")
  case None
  then show ?thesis by (simp add: fetch_requested_answer_def)
next
  case (Some s)
  obtain r s' where r: "claim_response s = (r, s')" by (rule prod.exhaust)
  show ?thesis
  proof (cases r)
    case (Inl e)
    then show ?thesis using Some r by (simp add: fetch_requested_answer_def fetch_respond_def)
  next
    case (Inr u)
    then have o: "open_fetch s" "\<not> open_fetch s'" using claim_response_open [OF r] by auto
    have "pub_tokens i (pb\<lparr>pb_fetch_states := (pb_fetch_states pb)(j \<mapsto> s')\<rparr>) + one_if (i = j) \<le> pub_tokens i pb"
      using fetch_states_tokens [OF Some, of s' i] o by simp
    then show ?thesis using Some r Inr push_outgoing_answers [of i m c] assms
      by (auto simp: fetch_requested_answer_def fetch_respond_def pub_count_pair split: if_splits)
  qed
qed

lemma fetch_requested_dropped_count: "pub_count i (fetch_requested_dropped j (c, pb)) \<le> pub_count i (c, pb)"
proof (cases "pb_fetch_states pb j")
  case None
  then show ?thesis by (simp add: fetch_requested_dropped_def)
next
  case (Some s)
  obtain r s' where r: "claim_response s = (r, s')" by (rule prod.exhaust)
  let ?pb = "pb\<lparr>pb_fetch_states := (pb_fetch_states pb)(j \<mapsto> s'), pb_fetches := pb_fetches pb - {j}\<rparr>"
  note o = claim_response_open [OF r]
  have t: "pub_tokens i ?pb + one_if (i = j \<and> (\<exists>u. r = Inr u)) \<le> pub_tokens i pb"
    using fetch_states_tokens [OF Some, of s' i] o by (cases r) (simp_all split: if_splits)
  let ?m = "fetch_reject_message j ReqInternalError ''fetch request dropped''"
  have m: "answer_of ?m = Some j" by (simp add: fetch_reject_message_def request_error_new_def answer_of_def)
  show ?thesis using Some r t m push_outgoing_answers [of i ?m c]
    by (cases r) (auto simp: fetch_requested_dropped_def fetch_requested_drop_def pub_count_pair split: if_splits)
qed

lemma publish_calls_count:
  "publish_open full largest params (c, pb) = (r1, st1) \<Longrightarrow> pub_count i st1 \<le> pub_count i (c, pb)"
  "pub_count i (publish_namespace_dropped j (c, pb)) \<le> pub_count i (c, pb)"
  "pub_count i (published_dropped j (c, pb)) \<le> pub_count i (c, pb)"
proof -
  have send: "answer_of m = None \<Longrightarrow> pub_count i st \<le> n \<Longrightarrow> pub_count i (pub_send_message m st) \<le> n" for m st n
    using pub_send_other [of m i st] by simp
  have rm: "pub_count i (snd (remove_published j (c, pb))) = pub_count i (c, pb)" for j c pb
    by (cases "remove_published j (c, pb)") (auto simp: remove_published_count)
  show "publish_open full largest params (c, pb) = (r1, st1) \<Longrightarrow> pub_count i st1 \<le> pub_count i (c, pb)"
    by (auto simp: publish_open_def Let_def rm pub_count_pair answer_of_def split: sum.splits option.splits if_splits prod.splits bool.splits
        intro!: send)
  show "pub_count i (publish_namespace_dropped j (c, pb)) \<le> pub_count i (c, pb)"
    by (auto simp: publish_namespace_dropped_def answer_of_def split: option.splits intro!: send)
  show "pub_count i (published_dropped j (c, pb)) \<le> pub_count i (c, pb)"
    by (auto simp: published_dropped_def answer_of_def split: option.splits intro!: send)
qed

lemma publish_namespace_begin_count:
  assumes "publish_namespace_begin ns (c, pb) = (r, st')"
  shows "pub_count i st' \<le> pub_count i (c, pb)"
proof -
  let ?new = "\<lambda>j. (ns, \<lparr>pnr_request_id = j, pnr_state = watched_new publish_namespace_state_default\<rparr>)"
  have "pub_tokens i (pb\<lparr>pb_publish_namespaces := pb_publish_namespaces pb @ [?new j]\<rparr>) = pub_tokens i pb" for j
    by (simp add: pub_tokens_def ns_tokens_def watched_new_def publish_namespace_state_default_def open_subscribeds_def open_statuses_def)
  then have send: "pub_count i (pub_send_message (PublishNamespace m) (c', pb\<lparr>pb_publish_namespaces := pb_publish_namespaces pb @ [?new j]\<rparr>)) \<le>
      core_answers i c' + pub_tokens i pb" for m c' j
    using pub_send_other [of "PublishNamespace m" i "(c', pb\<lparr>pb_publish_namespaces := pb_publish_namespaces pb @ [?new j]\<rparr>)"]
    by (simp add: answer_of_def pub_count_pair)
  show ?thesis using assms
    by (auto simp: publish_namespace_begin_def pub_count_pair split: if_splits prod.splits sum.splits intro!: order_trans [OF send])
qed

lemma register_published_tokens: "register_published_subscription j f pb = (r, pb') \<Longrightarrow> pub_tokens i pb' = pub_tokens i pb"
  by (auto simp: register_published_subscription_def split: option.splits bool.splits)

subsection \<open>Messages\<close>

lemma put_entry_sum:
  fixes f :: "'v \<Rightarrow> nat"
  assumes "distinct (map fst xs)" and "map_of xs key = Some v"
  shows "sum_list (map (\<lambda>(_, w). f w) (map (\<lambda>(k, w). if k = key then (k, v') else (k, w)) xs)) + f v = sum_list (map (\<lambda>(_, w). f w) xs) + f v'"
  using assms
proof (induction xs)
  case (Cons x xs)
  have same: "map (\<lambda>(k, w). if k = fst x then (k, v') else (k, w)) xs = xs"
    using Cons.prems(1) by (intro map_idI) (auto simp: image_iff split_beta)
  show ?case
  proof (cases "fst x = key")
    case True
    then show ?thesis using Cons.prems(2) same by (cases x) auto
  next
    case False
    then show ?thesis using Cons by (cases x) (auto simp del: map_map)
  qed
qed simp

lemma put_namespace_tokens:
  assumes "distinct (map fst (pb_publish_namespaces pb))" and "map_of (pb_publish_namespaces pb) key = Some v"
  shows "pub_tokens i (pb\<lparr>pb_publish_namespaces := map (\<lambda>(k, w). if k = key then (k, v') else (k, w)) (pb_publish_namespaces pb)\<rparr>) +
    ns_tokens i (pnr_state v) = pub_tokens i pb + ns_tokens i (pnr_state v')"
  using put_entry_sum [OF assms, of "\<lambda>r. ns_tokens i (pnr_state r)" v'] by (simp add: pub_tokens_def del: map_map)

lemma recv_fetch_count:
  assumes "recv_fetch msg (c, pb) = (r, st')"
  shows "pub_count i st' \<le> pub_count i (c, pb) + one_if (ft_id msg = i)"
proof -
  let ?pb = "pb\<lparr>pb_fetches := insert (ft_id msg) (pb_fetches pb), pb_fetch_states := (pb_fetch_states pb)(ft_id msg \<mapsto> watched_new None)\<rparr>"
  have t: "pub_tokens i (?pb\<lparr>pb_unknown_fetch := q\<rparr>) \<le> pub_tokens i pb + one_if (ft_id msg = i)" for q
    by (simp add: pub_tokens_def)
  have refused: "pub_count i (fetch_requested_dropped j (snd (fetch_requested_answer (fetch_reject_message (ft_id msg) code why) (ft_id msg) (c, ?pb\<lparr>pb_unknown_fetch := q\<rparr>)))) \<le>
      pub_count i (c, pb) + one_if (ft_id msg = i)" for j q code why
  proof -
    obtain c' pb' where a: "snd (fetch_requested_answer (fetch_reject_message (ft_id msg) code why) (ft_id msg) (c, ?pb\<lparr>pb_unknown_fetch := q\<rparr>)) = (c', pb')"
      by (rule prod.exhaust)
    have "answer_of (fetch_reject_message (ft_id msg) code why) = Some (ft_id msg)"
      by (simp add: fetch_reject_message_def request_error_new_def answer_of_def)
    from fetch_requested_answer_count [OF this, of i c "?pb\<lparr>pb_unknown_fetch := q\<rparr>"]
    have "pub_count i (c', pb') \<le> pub_count i (c, ?pb\<lparr>pb_unknown_fetch := q\<rparr>)" unfolding a .
    then show ?thesis using fetch_requested_dropped_count [of i j c' pb'] t [of q] unfolding a by (simp add: pub_count_pair)
  qed
  have send: "answer_of m = Some (ft_id msg) \<Longrightarrow> pub_count i (pub_send_message m (c, pb)) \<le> pub_count i (c, pb) + one_if (ft_id msg = i)" for m
    using pub_send_count [of i m "(c, pb)"] by simp
  have msgs: "answer_of (fetch_reject_message (ft_id msg) ReqInvalidRange why) = Some (ft_id msg)" for why
    by (simp add: fetch_reject_message_def request_error_new_def answer_of_def)
  show ?thesis using assms refused send [OF msgs] t
      send [of "RequestError \<lparr>rerr_id = ft_id msg, rerr_error_code = request_error_code_value ReqNotSupported, rerr_retry_interval = 0,
        rerr_reason = map of_char ''not supported''\<rparr>"]
    by (auto simp: recv_fetch_def Let_def send_not_supported_def answer_of_def split_beta split: sum.splits option.splits if_splits)
      (auto simp: pub_count_pair)
qed

lemma cancel_not_open: "open_fetch (snd (drop_half (fetch_requested_cancel s))) \<Longrightarrow> open_fetch s"
  by (auto simp: open_fetch_def fetch_requested_cancel_def drop_half_def notify_def with_mut_def split: option.splits if_splits)

lemma recv_fetch_cancel_count: "recv_fetch_cancel msg (c, pb) = (r, st') \<Longrightarrow> pub_count i st' \<le> pub_count i (c, pb)"
proof -
  assume a: "recv_fetch_cancel msg (c, pb) = (r, st')"
  let ?f = "\<lambda>s. snd (drop_half (fetch_requested_cancel s))"
  show ?thesis
  proof (cases "pb_fetch_states pb (fc_id msg)")
    case None
    then show ?thesis using a by (auto simp: recv_fetch_cancel_def pub_count_pair fun_upd_idem split: if_splits)
  next
    case (Some s)
    have "pub_tokens i (pb\<lparr>pb_fetches := x, pb_fetch_states := (pb_fetch_states pb)(fc_id msg \<mapsto> ?f s)\<rparr>) \<le> pub_tokens i pb" for x
      using add_leD1 [OF fetch_states_tokens [of "pb\<lparr>pb_fetches := x\<rparr>" "fc_id msg" s "?f s" i]] Some cancel_not_open [of s] by simp
    then show ?thesis using a Some by (auto simp: recv_fetch_cancel_def pub_count_pair split: if_splits)
  qed
qed

lemma publish_namespace_recv_ok_tokens [simp]: "publish_namespace_recv_ok r = (res, r') \<Longrightarrow> ns_tokens i (pnr_state r') = ns_tokens i (pnr_state r)"
  by (auto simp: publish_namespace_recv_ok_def ns_tokens_def with_mut_def notify_def split: if_splits option.splits)

lemma pub_recv_request_ok_count:
  assumes "distinct (map fst (pb_publish_namespaces pb))" and "pub_recv_request_ok msg (c, pb) = (r, st')"
  shows "pub_count i st' = pub_count i (c, pb)"
proof (cases "find (\<lambda>(_, v). pnr_request_id v = rok_id msg) (pb_publish_namespaces pb)")
  case None
  then show ?thesis using assms by (simp add: pub_recv_request_ok_def)
next
  case (Some e)
  obtain key v where e: "e = (key, v)" by (rule prod.exhaust)
  obtain res v' where v': "publish_namespace_recv_ok v = (res, v')" by (rule prod.exhaust)
  have "(key, v) \<in> set (pb_publish_namespaces pb)" using Some e unfolding find_Some_iff by (metis nth_mem)
  then have "map_of (pb_publish_namespaces pb) key = Some v" using assms(1) by simp
  from put_namespace_tokens [OF assms(1) this, of i v'] show ?thesis
    using assms(2) Some e v' publish_namespace_recv_ok_tokens [OF v', of i]
    by (auto simp: pub_recv_request_ok_def pub_count_pair)
qed

lemma pub_recv_publish_ok_count: "pub_recv_publish_ok msg (c, pb) = (r, st') \<Longrightarrow> pub_count i st' = pub_count i (c, pb)"
  by (auto simp: pub_recv_publish_ok_def pub_count_pair split: option.splits prod.splits)

lemma recv_request_update_count:
  "recv_request_update msg (c, pb) = (r, st') \<Longrightarrow> pub_count i st' \<le> pub_count i (c, pb) + one_if (ru_id msg = i)"
  using pub_send_count [of i _ "(c, pb)"]
  by (auto simp: recv_request_update_def send_not_supported_def answer_of_def intro!: order_trans [OF pub_send_count])

lemma recv_error_tokens: "publish_namespace_recv_error e s = (r, s') \<Longrightarrow> ns_tokens i s' = ns_tokens i s"
  by (auto simp: publish_namespace_recv_error_def ns_tokens_def with_mut_def drop_half_def notify_def split: if_splits option.splits)

lemma fail_namespace_count: "fail_namespace j e v (c, pb) = (r, st') \<Longrightarrow> pub_count i st' \<le> pub_count i (c, pb) + ns_tokens i (pnr_state v)"
  using settle_namespace_tokens [of i j] recv_error_tokens [of e "pnr_state v" _ _ i]
  by (auto simp: fail_namespace_def pub_count_pair split: prod.splits) metis

lemma namespace_failure_count:
  "(case pub_drop_publish_namespace j (c, pb) of (None, st) \<Rightarrow> (Inr (), st) | (Some v, st) \<Rightarrow> fail_namespace j e v st) = (r, st') \<Longrightarrow>
   pub_count i st' \<le> pub_count i (c, pb)"
proof -
  assume a: "(case pub_drop_publish_namespace j (c, pb) of (None, st) \<Rightarrow> (Inr (), st) | (Some v, st) \<Rightarrow> fail_namespace j e v st) = (r, st')"
  obtain b c1 pb1 where b: "pub_drop_publish_namespace j (c, pb) = (b, c1, pb1)" by (rule prod_cases3)
  note k = pub_drop_publish_namespace_count [OF b, of i]
  show ?thesis
  proof (cases b)
    case None
    then show ?thesis using a b k by simp
  next
    case (Some v)
    have "fail_namespace j e v (c1, pb1) = (r, st')" using a b Some by simp
    then show ?thesis using fail_namespace_count [of j e v c1 pb1 r st' i] k Some by simp
  qed
qed

lemma publication_failure_count:
  "(case remove_published j (c, pb) of (None, st) \<Rightarrow> (Inr (), st) | (Some b, c, pb) \<Rightarrow> (Inr (), c, fail_published b j e pb)) = (r, st') \<Longrightarrow>
   pub_count i st' = pub_count i (c, pb)"
proof -
  assume a: "(case remove_published j (c, pb) of (None, st) \<Rightarrow> (Inr (), st) | (Some b, c, pb) \<Rightarrow> (Inr (), c, fail_published b j e pb)) = (r, st')"
  obtain b c1 pb1 where b: "remove_published j (c, pb) = (b, c1, pb1)" by (rule prod_cases3)
  show ?thesis using a b remove_published_count [OF b, of i] by (cases b) (auto simp: pub_count_pair)
qed

lemma pub_recv_request_error_count:
  assumes "pub_recv_request_error msg (c, pb) = (r, st')"
  shows "pub_count i st' \<le> pub_count i (c, pb)"
proof -
  obtain b c1 pb1 where b: "pub_drop_publish_namespace (rerr_id msg) (c, pb) = (b, c1, pb1)" by (rule prod_cases3)
  note k = pub_drop_publish_namespace_count [OF b, of i]
  show ?thesis
  proof (cases b)
    case None
    then have "pub_count i st' = pub_count i (c1, pb1)"
      using assms b by (intro publication_failure_count) (simp add: pub_recv_request_error_def)
    then show ?thesis using k None by simp
  next
    case (Some v)
    then have "fail_namespace (rerr_id msg) (SClosed (rerr_error_code msg)) v (c1, pb1) = (r, st')"
      using assms b by (simp add: pub_recv_request_error_def)
    then have "pub_count i st' \<le> pub_count i (c1, pb1) + ns_tokens i (pnr_state v)" by (rule fail_namespace_count)
    then show ?thesis using k Some by simp
  qed
qed

lemma pub_recv_request_timeout_count:
  assumes "pub_recv_request_timeout j q (c, pb) = (r, st')"
  shows "pub_count i st' \<le> pub_count i (c, pb)"
proof (cases q)
  case PendPublishNamespace
  then show ?thesis using assms by (intro namespace_failure_count) (simp add: pub_recv_request_timeout_def)
next
  case PendPublish
  then have "pub_count i st' = pub_count i (c, pb)"
    using assms by (intro publication_failure_count) (simp add: pub_recv_request_timeout_def)
  then show ?thesis by simp
qed (use assms in \<open>auto simp: pub_recv_request_timeout_def\<close>)

lemma recv_publish_namespace_cancel_count:
  "recv_publish_namespace_cancel msg (c, pb) = (r, st') \<Longrightarrow> pub_count i st' \<le> pub_count i (c, pb)"
  unfolding recv_publish_namespace_cancel_def by (rule namespace_failure_count)

lemma recv_unsubscribe_count: "recv_unsubscribe msg (c, pb) = (r, st') \<Longrightarrow> pub_count i st' = pub_count i (c, pb)"
proof -
  assume a: "recv_unsubscribe msg (c, pb) = (r, st')"
  let ?i = "unsub_id msg" and ?pb = "snd (pub_remove_subscribe (unsub_id msg) pb)"
  obtain b c1 pb1 where b: "remove_published ?i (c, ?pb) = (b, c1, pb1)" by (rule prod_cases3)
  have t: "pub_tokens i (snd (unsubscribe_published x j pb1)) = pub_tokens i pb1" for x j
    by (simp add: unsubscribe_published_def Let_def split: option.split prod.split sum.split)
  show ?thesis using a b remove_published_count [OF b, of i] t
    by (auto simp: recv_unsubscribe_def Let_def pub_count_pair split_beta split: option.splits if_splits bool.splits)
qed

lemma recv_subscribe_namespace_tokens: "recv_subscribe_namespace msg pb = (r, pb') \<Longrightarrow> pub_tokens i pb' = pub_tokens i pb"
  by (auto simp: recv_subscribe_namespace_def split: sum.splits if_splits)

lemma recv_track_status_count:
  assumes "distinct (map fst (pb_publish_namespaces pb))" and "recv_track_status msg (c, pb) = (r, st')"
  shows "pub_count i st' \<le> pub_count i (c, pb) + one_if (ts_id msg = i)"
proof (cases "map_of (pb_publish_namespaces pb) (ts_track_namespace msg)")
  case (Some v)
  show ?thesis
  proof (cases "with_mut (\<lambda>x. x\<lparr>pst_track_statuses := pst_track_statuses x @ [msg]\<rparr>) (pnr_state v)")
    case None
    then show ?thesis using assms(2) Some by (simp add: recv_track_status_def)
  next
    case s0: (Some ws)
    obtain wk s' where ws: "ws = (wk, s')" by (rule prod.exhaust)
    note s = s0 [unfolded ws]
    then have "ns_tokens i (s') = ns_tokens i (pnr_state v) + one_if (ts_id msg = i)"
      by (auto simp: with_mut_def notify_def ns_tokens_def open_statuses_def split: if_splits)
    moreover have "st' = (c, pb\<lparr>pb_publish_namespaces :=
        map (\<lambda>(k, w). if k = ts_track_namespace msg then (k, v\<lparr>pnr_state := s'\<rparr>) else (k, w)) (pb_publish_namespaces pb)\<rparr>)"
      using assms(2) Some s by (simp add: recv_track_status_def)
    ultimately show ?thesis using put_namespace_tokens [OF assms(1) Some, of i "v\<lparr>pnr_state := s'\<rparr>"] by (simp add: pub_count_pair)
  qed
next
  case None
  obtain a w q where q: "queue_push msg (pb_unknown_track_status pb) = (a, w, q)" by (rule prod_cases3)
  note qd = queue_pushed [OF q]
  show ?thesis
  proof (cases a)
    case (Inl x)
    have x: "x = msg" by (rule queue_push_refused [OF q [unfolded Inl]])
    let ?m = "track_status_respond_error msg (request_error_code_value ReqInternalError) ''internal error''"
    have "answer_of ?m = Some (ts_id msg)" by (simp add: track_status_respond_error_def answer_of_def)
    moreover have "pub_count i (c, pb\<lparr>pb_unknown_track_status := q\<rparr>) = pub_count i (c, pb)"
      using qd Inl by (simp add: pub_count_pair pub_tokens_def)
    ultimately show ?thesis using assms(2) None q Inl x pub_send_count [of i ?m "(c, pb\<lparr>pb_unknown_track_status := q\<rparr>)"]
      by (auto simp: recv_track_status_def)
  next
    case (Inr u)
    then have "pub_tokens i (pb\<lparr>pb_unknown_track_status := q\<rparr>) = pub_tokens i pb + one_if (ts_id msg = i)"
      using qd by (simp add: pub_tokens_def open_statuses_def)
    then show ?thesis using assms(2) None q Inr by (auto simp: recv_track_status_def pub_count_pair)
  qed
qed

lemma subscribed_new_handle: "subscribed_new msg = Inr sd \<Longrightarrow> open_subscribeds i [sd] = one_if (sub_id msg = i)"
  using subscribed_new_id [of msg sd] by (auto simp: subscribed_new_def open_subscribeds_def split: sum.splits)

lemma recv_subscribe_count:
  fixes r :: "'e session_error + unit"
  assumes "distinct (map fst (pb_publish_namespaces pb))" and "recv_subscribe show_err msg (c, pb) = (r, st')"
  shows "pub_count i st' \<le> pub_count i (c, pb) + one_if (sub_id msg = i)"
proof -
  let ?full = "\<lparr>ftn_namespace = sub_track_namespace msg, ftn_name = sub_track_name msg\<rparr>"
  have dup: "pub_count i (pub_send_message (duplicate_subscription (sub_id msg)) (c, pb)) \<le> pub_count i (c, pb) + one_if (sub_id msg = i)"
    using pub_send_count [of i "duplicate_subscription (sub_id msg)" "(c, pb)"]
    by (simp add: duplicate_subscription_def reject_publish_def answer_of_def)
  show ?thesis
  proof (cases "sub_id msg \<in> pb_subscribeds pb \<or> contains_name (pb_subscribed_names pb) ?full \<or> contains_name (pb_published_names pb) ?full")
    case True
    then show ?thesis using assms(2) dup by (auto simp: recv_subscribe_def Let_def split: if_splits)
  next
    case free: False
    show ?thesis
    proof (cases "subscribed_new msg :: 'e session_error + subscribed")
      case (Inl e)
      then show ?thesis using assms(2) free by (auto simp: recv_subscribe_def Let_def)
    next
      case (Inr sd)
      note tok = subscribed_new_handle [OF Inr, of i] and new = assms(2) free Inr subscribed_new_id [OF Inr]
      let ?pb = "pb\<lparr>pb_subscribed_names := name_insert ?full (sub_id msg) (pb_subscribed_names pb),
        pb_subscribeds := insert (sub_id msg) (pb_subscribeds pb), pb_forwarders := (pb_forwarders pb)(sub_id msg \<mapsto> sd_state sd)\<rparr>"
      have keep: "pub_tokens i ?pb = pub_tokens i pb" by simp
      show ?thesis
      proof (cases "map_of (pb_publish_namespaces pb) (sub_track_namespace msg)")
        case (Some v)
        then have v: "map_of (pb_publish_namespaces ?pb) (sub_track_namespace msg) = Some v" by simp
        show ?thesis
        proof (cases "with_mut (\<lambda>x. x\<lparr>pst_subscribers := pst_subscribers x @ [sd]\<rparr>) (pnr_state v)")
          case None
          then have "st' = subscribed_dropped show_err sd (c, ?pb)" using new Some by (simp add: recv_subscribe_def Let_def)
          then show ?thesis using subscribed_dropped_count [of i show_err sd "(c, ?pb)"] tok keep by (simp add: pub_count_pair)
        next
          case s0: (Some ws)
          obtain wk s' where ws: "ws = (wk, s')" by (rule prod.exhaust)
          note s = s0 [unfolded ws]
          then have "ns_tokens i (s') = ns_tokens i (pnr_state v) + one_if (sub_id msg = i)"
            using tok by (auto simp: with_mut_def notify_def ns_tokens_def open_subscribeds_def split: if_splits)
          moreover have "st' = (c, ?pb\<lparr>pb_publish_namespaces := map (\<lambda>(k, w). if k = sub_track_namespace msg then (k, v\<lparr>pnr_state := s'\<rparr>) else (k, w)) (pb_publish_namespaces ?pb)\<rparr>)"
            using new Some s by (simp add: recv_subscribe_def Let_def)
          ultimately show ?thesis using put_namespace_tokens [OF _ v, of i "v\<lparr>pnr_state := s'\<rparr>"] assms(1) keep by (simp add: pub_count_pair)
        qed
      next
        case None
        obtain a w q where q: "queue_push sd (pb_unknown_subscribed pb) = (a, w, q)" by (rule prod_cases3)
        note qd = queue_pushed [OF q]
        let ?pb' = "?pb\<lparr>pb_unknown_subscribed := q\<rparr>"
        show ?thesis
        proof (cases a)
          case (Inl x)
          have x: "x = sd" by (rule queue_push_refused [OF q [unfolded Inl]])
          have "pub_tokens i ?pb' = pub_tokens i pb" using qd Inl by (simp add: pub_tokens_def)
          moreover have "st' = snd (subscribed_close show_err SNotFoundWithId sd (c, ?pb'))"
            using new None q Inl x by (simp add: recv_subscribe_def Let_def split_beta)
          ultimately show ?thesis using subscribed_close_count [of i show_err SNotFoundWithId sd "(c, ?pb')"] tok by (simp add: pub_count_pair)
        next
          case (Inr u)
          then have "pub_tokens i ?pb' = pub_tokens i pb + one_if (sub_id msg = i)" using qd tok by (auto simp: pub_tokens_def open_subscribeds_def split: if_splits)
          moreover have "st' = (c, ?pb')" using new None q Inr by (simp add: recv_subscribe_def Let_def)
          ultimately show ?thesis by (simp add: pub_count_pair)
        qed
      qed
    qed
  qed
qed

lemma pub_message_count:
  assumes "distinct (map fst (pb_publish_namespaces pb))" and "pub_recv_message show_err msg (c, pb) = (r, st')"
  shows "pub_count i st' \<le> pub_count i (c, pb) + one_if (sequenced_request_id (message_from_subscriber_msg msg) = Some i)"
  using assms(2)
  by (cases msg)
    (auto simp: pub_recv_message_def sequenced_request_id_def recv_unsubscribe_count pub_recv_publish_ok_count pub_recv_request_ok_count [OF assms(1)]
      intro: pub_recv_request_error_count recv_fetch_cancel_count recv_publish_namespace_cancel_count
      dest!: recv_subscribe_count [OF assms(1), of _ _ _ _ _ i] recv_request_update_count [of _ _ _ _ _ i] recv_fetch_count [of _ _ _ _ _ i]
        recv_track_status_count [OF assms(1), of _ _ _ _ i] split: if_splits)

end
