(* ===== verification/Session_Runs.thy ===== *)
theory Session_Runs
  imports Answers
begin

text \<open>
  Whole runs of a session: the control loop, data streams and datagrams, the response timers, the
  sender that drains the outgoing queue, and the application with the handles it holds, in
  any interleaving. Every reachable state keeps the invariant of \<^verbatim>\<open>Session_Laws\<close>, and no request of
  the peer has more answers, sent or still possible, than one.
\<close>

section \<open>Counting in a session\<close>

definition session_count :: "u64 \<Rightarrow> 'e session \<Rightarrow> nat" where
  "session_count i se = core_answers i (se_core se) + sub_tokens i (se_sub se) + pub_tokens i (se_pub se)"

lemma via_sub_count:
  assumes "via_sub f se = (r, se')" and "\<And>r st'. f (se_core se, se_sub se) = (r, st') \<Longrightarrow> sub_count i st' \<le> sub_count i (se_core se, se_sub se) + n"
  shows "session_count i se' \<le> session_count i se + n"
proof -
  obtain a c sb where f: "f (se_core se, se_sub se) = (a, c, sb)" by (rule prod_cases3)
  show ?thesis using assms(1) f assms(2) [OF f] by (auto simp: via_sub_def session_count_def sub_count_pair)
qed

lemma via_pub_count:
  assumes "via_pub f se = (r, se')" and "\<And>r st'. f (se_core se, se_pub se) = (r, st') \<Longrightarrow> pub_count i st' \<le> pub_count i (se_core se, se_pub se) + n"
  shows "session_count i se' \<le> session_count i se + n"
proof -
  obtain a c pb where f: "f (se_core se, se_pub se) = (a, c, pb)" by (rule prod_cases3)
  show ?thesis using assms(1) f assms(2) [OF f] by (auto simp: via_pub_def session_count_def pub_count_pair)
qed

lemma complete_count: "with_core (core_complete j resp) se = (r, se') \<Longrightarrow> session_count i se' = session_count i se \<and> se_pub se' = se_pub se"
  by (auto simp: with_core_def core_complete_def session_count_def split: prod.splits)

lemma session_inv_distinct: "session_inv se \<Longrightarrow> distinct (map fst (pb_publish_namespaces (se_pub se)))"
  by (simp add: session_inv_def pub_inv_def)

lemma responses_count:
  assumes "session_inv se"
  shows "session_recv_request_ok m1 se = (r, se') \<Longrightarrow> session_count i se' \<le> session_count i se"
    and "session_recv_request_error m2 se = (r, se') \<Longrightarrow> session_count i se' \<le> session_count i se"
    and "session_recv_publish_ok m3 se = (r, se') \<Longrightarrow> session_count i se' \<le> session_count i se"
    and "session_recv_subscribe_ok m4 se = (r, se') \<Longrightarrow> session_count i se' \<le> session_count i se"
proof -
  note d = session_inv_distinct [OF assms]
  have sub: "session_count i se'' \<le> session_count i se"
    if "via_sub f se1 = (r, se'')" "session_count i se1 = session_count i se"
      "\<And>r st'. f (se_core se1, se_sub se1) = (r, st') \<Longrightarrow> sub_count i st' \<le> sub_count i (se_core se1, se_sub se1)"
    for f se1 se'' and r :: "'a session_error + unit"
    using via_sub_count [OF that(1), of i 0] that(2,3) by simp
  have pub: "session_count i se'' \<le> session_count i se"
    if "via_pub f se1 = (r, se'')" "session_count i se1 = session_count i se"
      "\<And>r st'. f (se_core se1, se_pub se1) = (r, st') \<Longrightarrow> pub_count i st' \<le> pub_count i (se_core se1, se_pub se1)"
    for f se1 se'' and r :: "'a session_error + unit"
    using via_pub_count [OF that(1), of i 0] that(2,3) by simp
  obtain a se1 where c: "(with_core (core_complete (rok_id m1) RespRequestOk) se :: ('a session_error + _) \<times> _) = (a, se1)" by (rule prod.exhaust)
  show "session_recv_request_ok m1 se = (r, se') \<Longrightarrow> session_count i se' \<le> session_count i se"
    using c complete_count [OF c, of i] d
    by (auto simp: session_recv_request_ok_def pub_recv_request_ok_count split: sum.splits option.splits pending_request.splits elim!: pub)
  obtain b se2 where c2: "(with_core (core_complete (rerr_id m2) RespRequestError) se :: ('a session_error + _) \<times> _) = (b, se2)" by (rule prod.exhaust)
  show "session_recv_request_error m2 se = (r, se') \<Longrightarrow> session_count i se' \<le> session_count i se"
    using c2 complete_count [OF c2, of i]
    by (auto simp: session_recv_request_error_def sub_removals_count split: sum.splits option.splits if_splits
        elim!: pub sub intro: pub_recv_request_error_count)
  obtain e se3 where c3: "(with_core (core_complete (pok_id m3) RespPublishOk) se :: ('a session_error + _) \<times> _) = (e, se3)" by (rule prod.exhaust)
  show "session_recv_publish_ok m3 se = (r, se') \<Longrightarrow> session_count i se' \<le> session_count i se"
    using c3 complete_count [OF c3, of i]
    by (auto simp: session_recv_publish_ok_def pub_recv_publish_ok_count split: sum.splits option.splits pending_request.splits elim!: pub)
  obtain f se4 where c4: "(with_core (core_complete (sok_id m4) RespSubscribeOk) se :: ('a session_error + _) \<times> _) = (f, se4)" by (rule prod.exhaust)
  show "session_recv_subscribe_ok m4 se = (r, se') \<Longrightarrow> session_count i se' \<le> session_count i se"
    using c4 complete_count [OF c4, of i]
    by (auto simp: session_recv_subscribe_ok_def sub_recv_subscribe_ok_count split: sum.splits option.splits pending_request.splits elim!: sub)
qed

lemma dispatch_message_count:
  assumes inv: "session_inv se" and d: "dispatch_message show_err msg se = (r, se')"
  shows "session_count i se' \<le> session_count i se + one_if (sequenced_request_id msg = Some i)"
proof -
  consider (resp) "(\<exists>m. msg = RequestOk m) \<or> (\<exists>m. msg = RequestError m) \<or> (\<exists>m. msg = PublishOk m) \<or> (\<exists>m. msg = SubscribeOk m)"
    | (sub) p where "publisher_msg_try_from msg = Inr p" "dispatch_message show_err msg se = via_sub (sub_recv_message show_err p) se"
        "\<And>m. p \<noteq> PRequestError m" "\<And>m. p \<noteq> PRequestOk m"
    | (pub) p where "subscriber_msg_try_from msg = Inr p" "dispatch_message show_err msg se = via_pub (pub_recv_message show_err p) se"
    | (other) "publisher_msg_try_from msg = Inl msg" "subscriber_msg_try_from msg = Inl msg"
    by (cases msg) (auto simp: publisher_msg_try_from_def subscriber_msg_try_from_def dispatch_message_def)
  then show ?thesis
  proof cases
    case resp
    then show ?thesis using d responses_count [OF inv, of _ r se' i] by (auto simp: dispatch_message_def sequenced_request_id_def)
  next
    case sub
    have m: "msg = message_from_publisher_msg p" using sub(1) by (simp add: publisher_msg_try_from_iff)
    show ?thesis
      unfolding m by (rule via_sub_count [OF d [unfolded sub(2)]]) (rule sub_message_count [OF _ sub(3,4)])
  next
    case pub
    have m: "msg = message_from_subscriber_msg p" using pub(1) by (simp add: subscriber_msg_try_from_iff)
    show ?thesis
      unfolding m by (rule via_pub_count [OF d [unfolded pub(2)]]) (rule pub_message_count [OF session_inv_distinct [OF inv]])
  next
    case other
    show ?thesis using d other
      by (cases msg) (auto simp: dispatch_message_def publisher_msg_try_from_def subscriber_msg_try_from_def session_count_def with_core_def
          handle_requests_blocked_def split: if_splits prod.splits)
  qed
qed

text \<open>
  What the count may be: nothing for a request never accepted; for an accepted one, one and
  the extra \<open>k\<close> of it.
\<close>

definition within_budget :: "session_core \<Rightarrow> (u64 \<Rightarrow> nat) \<Rightarrow> (u64 \<Rightarrow> nat) \<Rightarrow> bool" where
  "within_budget c k f \<longleftrightarrow> (\<forall>i. f i \<le> (if peer_id c i then Suc (k i) else 0))"

lemma within_budget_mono: "within_budget c k f \<Longrightarrow> core_le c c' \<Longrightarrow> (\<And>i. g i \<le> f i) \<Longrightarrow> within_budget c' k g"
  unfolding within_budget_def
proof (rule allI)
  fix i
  assume "\<forall>i. f i \<le> (if peer_id c i then Suc (k i) else 0)" and "core_le c c'" and "\<And>i. g i \<le> f i"
  then have "f i \<le> (if peer_id c i then Suc (k i) else 0)" "g i \<le> f i" "peer_id c i \<longrightarrow> peer_id c' i" by (simp_all add: core_le_def)
  then show "g i \<le> (if peer_id c' i then Suc (k i) else 0)" by (cases "peer_id c i") auto
qed

lemma recv_control_budget:
  assumes inv: "session_inv se" and rc: "recv_control show_err msg se = (r, se')"
    and b: "within_budget (se_core se) k (\<lambda>i. session_count i se + n i)"
  shows "within_budget (se_core se') k (\<lambda>i. session_count i se' + n i)"
proof (cases "(\<exists>a b. msg = Unknown a b) \<or> sequenced_request_id msg = None")
  case True
  then have "se' = se \<or> dispatch_message show_err msg se = (r, se') \<and> sequenced_request_id msg = None"
    using rc by (cases msg) (auto simp: recv_control_def)
  then have "session_count i se' \<le> session_count i se" for i
    using dispatch_message_count [OF inv, of show_err msg r se' i] by auto
  then show ?thesis using recv_control_keeps [OF inv rc]
    by (intro within_budget_mono [OF b]) (auto simp: session_keeps_def)
next
  case False
  then obtain j where j: "sequenced_request_id msg = Some j" by auto
  have core: "core_inv (se_core se)" using inv by (simp add: session_inv_def)
  obtain a c1 where v: "(core_validate j (se_core se) :: ('a session_error + unit) \<times> session_core) = (a, c1)" by (rule prod.exhaust)
  note cv = core_validate_core [OF core v]
  let ?se = "se\<lparr>se_core := c1\<rparr>"
  have same: "session_count i ?se = session_count i se" for i
    using v by (auto simp: session_count_def core_validate_def split: prod.splits)
  show ?thesis
  proof (cases a)
    case (Inl e)
    then have "se' = ?se" using rc False j v by (cases msg) (auto simp: recv_control_def with_core_def)
    then show ?thesis using cv(1) same by (intro within_budget_mono [OF b]) auto
  next
    case (Inr u)
    then have d: "dispatch_message show_err msg ?se = (r, se')" using rc False j v by (cases msg) (auto simp: recv_control_def with_core_def)
    have inv1: "session_inv ?se"
      using inv cv(1) sub_inv_mono [of "se_core se" "se_sub se" c1] pub_inv_mono [of "se_core se" "se_pub se" c1] by (simp add: session_inv_def)
    have le: "core_le (se_core se) (se_core se')" using recv_control_keeps [OF inv rc] by (simp add: session_keeps_def)
    have fresh: "\<not> peer_id (se_core se) j" using cv(2) [OF Inr] by blast
    have "core_le c1 (se_core se')"
    proof -
      have "sb_publishes_received (se_sub se) j = None" using fresh inv by (auto simp: session_inv_def sub_inv_def)
      then have "session_keeps (se_core ?se) se'"
        using cv(2) [OF Inr] j by (intro dispatch_message_keeps [OF inv1 d]) auto
      then show ?thesis by (simp add: session_keeps_def)
    qed
    then have acc: "peer_id (se_core se') j" using cv(2) [OF Inr] by (simp add: core_le_def)
    show ?thesis
      unfolding within_budget_def
    proof
      fix i
      have n: "session_count i se' \<le> session_count i se + one_if (j = i)" using dispatch_message_count [OF inv1 d, of i] same [of i] j by simp
      have "session_count i se + n i \<le> (if peer_id (se_core se) i then Suc (k i) else 0)" using b by (simp add: within_budget_def)
      with n show "session_count i se' + n i \<le> (if peer_id (se_core se') i then Suc (k i) else 0)"
        using fresh acc le by (cases "i = j"; cases "peer_id (se_core se) i") (auto simp: core_le_def)
    qed
  qed
qed

lemma timeouts_count:
  assumes "session_inv se" and "\<forall>q \<in> set qs. own_id (se_core se) (fst q)" and "requests_timed_out qs se = (r, se')"
  shows "session_count i se' \<le> session_count i se"
  using assms
proof (induction qs arbitrary: se)
  case (Cons q qs)
  obtain a se1 where a: "(request_timed_out q se :: ('a session_error + unit) \<times> 'a session) = (a, se1)" by (rule prod.exhaust)
  have le: "session_count i se1 \<le> session_count i se"
    using a via_pub_count [of _ se a se1 i 0] via_sub_count [of _ se a se1 i 0]
    by (cases q) (auto simp: request_timed_out_def sub_removals_count split: if_splits intro: pub_recv_request_timeout_count)
  have k: "session_keeps (se_core se) se1" using request_timed_out_keeps [OF Cons.prems(1) _ a] Cons.prems(2) by simp
  show ?case
  proof (cases a)
    case (Inl e)
    then show ?thesis using Cons.prems(3) a le by simp
  next
    case (Inr u)
    have "session_count i se' \<le> session_count i se1" using Cons.IH [of se1] Cons.prems(2,3) a Inr k by (auto simp: session_keeps_def core_le_def)
    then show ?thesis using le by simp
  qed
qed simp

lemma expire_requests_count:
  assumes "session_inv se" and "expire_requests se = (r, se')"
  shows "session_count i se' \<le> session_count i se"
proof -
  let ?c = "se_core se"
  obtain qs p where e: "pr_expire (sc_now ?c) (sc_pending ?c) = (qs, p)" by (rule prod.exhaust)
  let ?se = "se\<lparr>se_core := ?c\<lparr>sc_pending := p\<rparr>\<rparr>"
  note x = expired_ids [OF assms(1) e]
  have "requests_timed_out qs ?se = (r, se')" using assms(2) e by (simp add: expire_requests_def with_core_def)
  then have "session_count i se' \<le> session_count i ?se" using x by (intro timeouts_count) auto
  then show ?thesis by (simp add: session_count_def)
qed

section \<open>What can happen\<close>

text \<open>
  Calls and data-stream events of the subscriber role that concern no request of the peer; the
  contents of mirrored tracks may change in any way, since readers and writers share them.
\<close>

inductive sub_move :: "'e sub_st \<Rightarrow> 'e sub_st \<Rightarrow> bool" where
  subscribe_open: "subscribe_open t st = (r, st') \<Longrightarrow> sub_move st st'"
| subscribe_drop: "own_id (fst st) j \<Longrightarrow> sub_move st (subscribe_drop j st)"
| fetch_open: "fetch_open f params st = (r, st') \<Longrightarrow> sub_move st st'"
| fetch_drop: "sub_move st (fetch_drop finished j st)"
| track_status: "sub_move st (track_status_request ns name st)"
| subscribe_namespace: "subscribe_namespace_begin pre st = (r, st') \<Longrightarrow> sub_move st st'"
| unsubscribe_namespace: "sub_move (c, sb) (c, remove_subscribe_namespace j sb)"
| subgroup: "recv_subgroup_writer og header (sb, n) = (r, sb', n') \<Longrightarrow> sub_move (c, sb) (c, sb')"
| stream_failed: "stream_failed err a st = (r, st') \<Longrightarrow> sub_move st st'"
| fetch_stream: "sb_fetches sb j = Some fr \<Longrightarrow> fetch_recv_stream rd fr = (r, fr') \<Longrightarrow>
    sub_move (c, sb) (c, sb\<lparr>sb_fetches := (sb_fetches sb)(j \<mapsto> fr')\<rparr>)"
| stored: "sub_move (c, sb) (c, sb\<lparr>sb_store := mi\<rparr>)"

text \<open>
  The same for the publisher role, with the answers to a FETCH, which the request's own state
  guards: \<^verbatim>\<open>respond\<close>, \<^verbatim>\<open>reject\<close> and dropping the handle.
\<close>

inductive pub_move :: "(serve_error \<Rightarrow> rust_string) \<Rightarrow> pub_st \<Rightarrow> pub_st \<Rightarrow> bool" for show_err where
  publish_namespace: "(publish_namespace_begin ns st :: (unit session_error + u64) \<times> pub_st) = (r1, st') \<Longrightarrow> pub_move show_err st st'"
| publish_namespace_done: "pub_move show_err st (publish_namespace_dropped j st)"
| publish: "(publish_open full largest params st :: (unit session_error + published_info) \<times> pub_st) = (r2, st') \<Longrightarrow> pub_move show_err st st'"
| forwarder: "(register_published_subscription j f pb :: (unit session_error + unit) \<times> publisher) = (r3, pb') \<Longrightarrow> pub_move show_err (c, pb) (c, pb')"
| publish_done: "pub_move show_err st (published_dropped j st)"
| namespace_gone: "pub_move show_err st (namespace_state_dropped show_err j st)"
| fetch_answered: "answer_of m = Some j \<Longrightarrow> pub_move show_err st (snd (fetch_requested_answer m j st))"
| fetch_dropped: "pub_move show_err st (fetch_requested_dropped j st)"
| forwarding_failed: "pub_move show_err (c, pb) (c, snd (subscribed_closed e sd pb))"

lemma sub_move_keeps: "sub_move st st' \<Longrightarrow> core_inv (fst st) \<Longrightarrow> sub_inv (fst st) (snd st) \<Longrightarrow> sub_keeps (fst st) st'"
proof (induction rule: sub_move.induct)
  case (subscribe_open t st r st')
  then show ?case by (cases st) (auto intro: subscribe_open_keeps)
next
  case (subscribe_drop st j)
  then show ?case by (cases st) (auto intro: subscribe_drop_keeps)
next
  case (fetch_open f params st r st')
  then show ?case by (cases st) (auto intro: fetch_open_keeps)
next
  case (fetch_drop st finished j)
  then show ?case by (cases st) (auto intro: fetch_drop_keeps)
next
  case (track_status st ns name)
  then show ?case by (cases st) (auto intro: track_status_request_keeps)
next
  case (subscribe_namespace pre st r st')
  then show ?case by (cases st) (auto intro: subscribe_namespace_begin_keeps)
next
  case (subgroup og header sb n r sb' n' c)
  then show ?case by (auto simp: sub_keeps_pair intro: recv_subgroup_writer_keeps)
next
  case (stream_failed err a st r st')
  then show ?case by (cases st) (auto intro: stream_failed_keeps)
qed (auto simp: sub_keeps_pair remove_subscribe_namespace_def elim!: sub_inv_cong)

lemma stream_failed_count:
  assumes "stream_failed err a (c, sb) = (r, st')"
  shows "sub_count i st' = sub_count i (c, sb)"
proof (cases "alias_get (sb_aliases sb) a")
  case (Some og)
  show ?thesis
  proof (cases og)
    case (OriginSubscribe j)
    obtain x c1 sb1 where rm: "remove_subscribe j (c, sb) = (x, c1, sb1)" by (rule prod_cases3)
    show ?thesis using assms Some OriginSubscribe rm remove_subscribe_count [OF rm, of i] subscribe_error_tokens [of i j _ err sb1]
      by (auto simp: stream_failed_def sub_count_pair split_beta split: option.splits sum.splits)
  qed (use assms Some in \<open>simp add: stream_failed_def\<close>)
qed (use assms in \<open>simp add: stream_failed_def\<close>)

lemma sub_move_count: "sub_move st st' \<Longrightarrow> sub_count i st' = sub_count i st"
proof (induction rule: sub_move.induct)
  case (stream_failed err a st r st')
  then show ?case by (cases st) (auto dest: stream_failed_count [where i = i])
next
  case (subgroup og header sb n r sb' n' c)
  then show ?case by (simp add: sub_count_pair recv_subgroup_writer_count)
next
  case (subscribe_open t st r st')
  then show ?case by (cases st) (auto dest: request_calls_count(2) [where i = i])
next
  case (fetch_open f params st r st')
  then show ?case by (cases st) (auto dest: request_calls_count(3) [where i = i])
next
  case (subscribe_namespace pre st r st')
  then show ?case by (cases st) (auto dest: request_calls_count(4) [where i = i])
qed (auto simp: sub_count_pair remove_subscribe_namespace_def split_paired_all request_calls_count(1) [simplified sub_count_pair]
    subscribe_drop_count [simplified sub_count_pair] fetch_drop_count [simplified sub_count_pair])

lemma pub_move_keeps: "pub_move show_err st st' \<Longrightarrow> core_inv (fst st) \<Longrightarrow> pub_inv (fst st) (snd st) \<Longrightarrow> pub_keeps (fst st) st'"
proof (induction rule: pub_move.induct)
  case (publish_namespace ns st r st')
  then show ?case by (cases st) (auto intro: publish_namespace_begin_keeps)
next
  case (publish full largest params st r st')
  then show ?case by (cases st) (auto intro: publish_open_keeps)
next
  case (forwarder j f pb r pb' c)
  then show ?case by (auto simp: pub_keeps_pair intro: register_published_keeps)
qed (auto simp: pub_keeps_pair split_paired_all simp del: split_paired_All
    intro!: publish_namespace_dropped_keeps published_dropped_keeps namespace_state_dropped_keeps fetch_requested_answer_keeps
      fetch_requested_dropped_keeps)

lemma pub_move_count: "pub_move show_err st st' \<Longrightarrow> pub_count i st' \<le> pub_count i st"
proof (induction rule: pub_move.induct)
  case (publish_namespace ns st r st')
  then show ?case by (cases st) (auto dest: publish_namespace_begin_count [where i = i])
next
  case (publish full largest params st r st')
  then show ?case by (cases st) (auto dest: publish_calls_count(1) [where i = i])
next
  case (forwarder j f pb r pb' c)
  then show ?case by (simp add: pub_count_pair register_published_tokens)
next
  case (forwarding_failed c e sd pb)
  then show ?case by (simp add: pub_count_pair)
qed (auto simp: split_paired_all intro: publish_calls_count(2,3) namespace_state_dropped_count fetch_requested_answer_count fetch_requested_dropped_count)

text \<open>
  A session, what it has written to the control stream, the handles the application has taken,
  the serves that wait for their SUBSCRIBE_OK to leave the queue, each with its notifier, and
  the requests whose serve was dropped in that wait.
\<close>

record 'e world =
  wo_session :: "'e session"
  wo_written :: "message list"
  wo_subscribeds :: "subscribed list"
  wo_serving :: "(nat \<times> subscribed) list"
  wo_cancelled :: "u64 list"
  wo_namespaces :: "published_namespace list"
  wo_publishes :: "publish_received list"
  wo_statuses :: "track_status list"

definition fresh_world :: "'e session \<Rightarrow> 'e world" where
  "fresh_world se = \<lparr>wo_session = se, wo_written = [], wo_subscribeds = [], wo_serving = [], wo_cancelled = [], wo_namespaces = [], wo_publishes = [], wo_statuses = []\<rparr>"

definition held :: "u64 \<Rightarrow> 'e world \<Rightarrow> nat" where
  "held i w = open_subscribeds i (wo_subscribeds w) + open_namespaces i (wo_namespaces w) + open_publishes i (wo_publishes w) +
     open_statuses i (wo_statuses w)"

definition world_count :: "u64 \<Rightarrow> 'e world \<Rightarrow> nat" where
  "world_count i w = answers i (wo_written w) + session_count i (wo_session w) + held i w"

abbreviation (input) cancelled :: "'e world \<Rightarrow> u64 \<Rightarrow> nat" where
  "cancelled w \<equiv> count_list (wo_cancelled w)"

definition world_inv :: "'e world \<Rightarrow> bool" where
  "world_inv w \<longleftrightarrow> session_inv (wo_session w) \<and> within_budget (se_core (wo_session w)) (cancelled w) (\<lambda>i. world_count i w) \<and>
     (\<forall>(tx, sd) \<in> set (wo_serving w). peer_id (se_core (wo_session w)) (si_id (sd_info sd)))"

definition set_sub :: "'e sub_st \<Rightarrow> 'e session \<Rightarrow> 'e session" where
  "set_sub st se = se\<lparr>se_core := fst st, se_sub := snd st\<rparr>"

definition set_pub :: "pub_st \<Rightarrow> 'e session \<Rightarrow> 'e session" where
  "set_pub st se = se\<lparr>se_core := fst st, se_pub := snd st\<rparr>"

lemma world_move:
  assumes "world_inv w" and "session_keeps (se_core (wo_session w)) (wo_session w')" and "\<And>i. world_count i w' \<le> world_count i w"
    and "wo_cancelled w' = wo_cancelled w" and "\<forall>(tx, sd) \<in> set (wo_serving w') - set (wo_serving w). peer_id (se_core (wo_session w)) (si_id (sd_info sd))"
  shows "world_inv w'"
proof -
  have le: "core_le (se_core (wo_session w)) (se_core (wo_session w'))" using assms(2) by (simp add: session_keeps_def)
  have b: "within_budget (se_core (wo_session w)) (cancelled w) (\<lambda>i. world_count i w)" using assms(1) by (simp add: world_inv_def)
  have "\<forall>(tx, sd) \<in> set (wo_serving w'). peer_id (se_core (wo_session w')) (si_id (sd_info sd))"
    using assms(1,5) le by (fastforce simp: world_inv_def core_le_def)
  then show ?thesis using within_budget_mono [OF b le assms(3)] assms(2,4) by (simp add: world_inv_def session_keeps_def)
qed

abbreviation (input) sub_part :: "'e session \<Rightarrow> 'e sub_st" where
  "sub_part se \<equiv> (se_core se, se_sub se)"

abbreviation (input) pub_part :: "'e session \<Rightarrow> pub_st" where
  "pub_part se \<equiv> (se_core se, se_pub se)"

abbreviation (input) put_recv :: "track_namespace \<Rightarrow> publish_namespace_recv \<Rightarrow> publisher \<Rightarrow> publisher" where
  "put_recv ns v pb \<equiv> pb\<lparr>pb_publish_namespaces := map (\<lambda>(k, w). if k = ns then (k, v) else (k, w)) (pb_publish_namespaces pb)\<rparr>"

text \<open>The session's own turns.\<close>

inductive session_turn :: "(serve_error \<Rightarrow> rust_string) \<Rightarrow> 'e world \<Rightarrow> 'e world \<Rightarrow> bool" for show_err where
  control: "recv_control show_err msg (wo_session w) = (r, se) \<Longrightarrow> session_turn show_err w (w\<lparr>wo_session := se\<rparr>)"
| tick: "session_turn show_err w (w\<lparr>wo_session := (wo_session w)\<lparr>se_core := (se_core (wo_session w))\<lparr>sc_now := t\<rparr>\<rparr>\<rparr>)"
| expire: "expire_requests (wo_session w) = (r, se) \<Longrightarrow> session_turn show_err w (w\<lparr>wo_session := se\<rparr>)"
| datagram: "session_recv_datagram later bs (wo_session w) = (r, se) \<Longrightarrow> session_turn show_err w (w\<lparr>wo_session := se\<rparr>)"
| request_stream:
    "(core_validate (sns_id msg) (se_core (wo_session w)) :: ('e session_error + unit) \<times> session_core) = (Inr (), c) \<Longrightarrow>
     (recv_subscribe_namespace msg (se_pub (wo_session w)) :: ('e session_error + (unit + bool)) \<times> publisher) = (r', pb) \<Longrightarrow>
     session_turn show_err w (w\<lparr>wo_session := set_pub (c, pb) (wo_session w)\<rparr>)"
| written:
    "queue_pop_try (sc_outgoing (se_core (wo_session w))) = (Popped m n, woken, q) \<Longrightarrow>
     session_turn show_err w (w\<lparr>wo_session := (wo_session w)\<lparr>se_core := (se_core (wo_session w))\<lparr>sc_outgoing := q\<rparr>\<rparr>,
       wo_written := wo_written w @ [m]\<rparr>)"

text \<open>The application takes a handle from where the session queued it.\<close>

inductive taking :: "'e world \<Rightarrow> 'e world \<Rightarrow> bool" where
  namespace:
    "queue_pop_try (sb_published_namespace_queue (se_sub (wo_session w))) = (Popped h n, woken, q1) \<Longrightarrow>
     taking w (w\<lparr>wo_session := (wo_session w)\<lparr>se_sub := (se_sub (wo_session w))\<lparr>sb_published_namespace_queue := q1\<rparr>\<rparr>,
       wo_namespaces := h # wo_namespaces w\<rparr>)"
| publish:
    "queue_pop_try (sb_publish_received_queue (se_sub (wo_session w))) = (Popped p n, woken, q2) \<Longrightarrow>
     taking w (w\<lparr>wo_session := (wo_session w)\<lparr>se_sub := (se_sub (wo_session w))\<lparr>sb_publish_received_queue := q2\<rparr>\<rparr>,
       wo_publishes := p # wo_publishes w\<rparr>)"
| unknown_subscribed:
    "queue_pop_try (pb_unknown_subscribed (se_pub (wo_session w))) = (Popped sd n, woken, q3) \<Longrightarrow>
     taking w (w\<lparr>wo_session := (wo_session w)\<lparr>se_pub := (se_pub (wo_session w))\<lparr>pb_unknown_subscribed := q3\<rparr>\<rparr>,
       wo_subscribeds := sd # wo_subscribeds w\<rparr>)"
| unknown_status:
    "queue_pop_try (pb_unknown_track_status (se_pub (wo_session w))) = (Popped ts n, woken, q4) \<Longrightarrow>
     taking w (w\<lparr>wo_session := (wo_session w)\<lparr>se_pub := (se_pub (wo_session w))\<lparr>pb_unknown_track_status := q4\<rparr>\<rparr>,
       wo_statuses := ts # wo_statuses w\<rparr>)"
| subscribed:
    "map_of (pb_publish_namespaces (se_pub (wo_session w))) ns = Some v \<Longrightarrow>
     publish_namespace_subscribed_round (pnr_state v) = (Ready (Inr (Some sd)), s) \<Longrightarrow>
     taking w (w\<lparr>wo_session := (wo_session w)\<lparr>se_pub := put_recv ns (v\<lparr>pnr_state := s\<rparr>) (se_pub (wo_session w))\<rparr>,
       wo_subscribeds := sd # wo_subscribeds w\<rparr>)"
| status:
    "map_of (pb_publish_namespaces (se_pub (wo_session w))) ns = Some v \<Longrightarrow>
     publish_namespace_track_status_round (pnr_state v) = (Ready (Inr (Some ts)), s) \<Longrightarrow>
     taking w (w\<lparr>wo_session := (wo_session w)\<lparr>se_pub := put_recv ns (v\<lparr>pnr_state := s\<rparr>) (se_pub (wo_session w))\<rparr>,
       wo_statuses := ts # wo_statuses w\<rparr>)"

text \<open>
  The application uses a handle it holds. \<^verbatim>\<open>serve\<close> consumes a fresh \<^verbatim>\<open>Subscribed\<close>: it sends
  SUBSCRIBE_OK with a notifier of its own and waits until that left the queue, then it marks the
  handle and forwards; its future may be dropped in the wait (also after the message was popped,
  before the task runs again). A status request is answered once, as all callers in the
  repository do.
\<close>

inductive using_handle :: "(serve_error \<Rightarrow> rust_string) \<Rightarrow> 'e world \<Rightarrow> 'e world \<Rightarrow> bool" for show_err where
  namespace_ok:
    "wo_namespaces w = xs @ h # ys \<Longrightarrow> published_namespace_ok h = (Inr m, h') \<Longrightarrow>
     using_handle show_err w (w\<lparr>wo_session := set_sub (sub_send_message m (sub_part (wo_session w))) (wo_session w), wo_namespaces := xs @ h' # ys\<rparr>)"
| namespace_dropped:
    "wo_namespaces w = xs @ h # ys \<Longrightarrow>
     using_handle show_err w (w\<lparr>wo_session := set_sub (published_namespace_dropped show_err h (sub_part (wo_session w))) (wo_session w), wo_namespaces := xs @ ys\<rparr>)"
| namespace_closed:
    "wo_namespaces w = xs @ h # ys \<Longrightarrow>
     using_handle show_err w (w\<lparr>wo_session := set_sub (published_namespace_dropped show_err (published_namespace_close e h) (sub_part (wo_session w))) (wo_session w), wo_namespaces := xs @ ys\<rparr>)"
| publish_taken:
    "wo_publishes w = xs @ p # ys \<Longrightarrow> take_reader p = (r, p') \<Longrightarrow> using_handle show_err w (w\<lparr>wo_publishes := xs @ p' # ys\<rparr>)"
| publish_accepted:
    "wo_publishes w = xs @ p # ys \<Longrightarrow> publish_received_accept fwd p = (Inr m, p') \<Longrightarrow>
     using_handle show_err w (w\<lparr>wo_session := set_sub (sub_send_message m (sub_part (wo_session w))) (wo_session w), wo_publishes := xs @ p' # ys\<rparr>)"
| publish_dropped:
    "wo_publishes w = xs @ p # ys \<Longrightarrow>
     using_handle show_err w (w\<lparr>wo_session := set_sub (publish_received_dropped p (sub_part (wo_session w))) (wo_session w), wo_publishes := xs @ ys\<rparr>)"
| publish_closed:
    "wo_publishes w = xs @ p # ys \<Longrightarrow>
     using_handle show_err w (w\<lparr>wo_session := set_sub (publish_received_dropped (publish_received_close e p) (sub_part (wo_session w))) (wo_session w), wo_publishes := xs @ ys\<rparr>)"
| served:
    "wo_subscribeds w = xs @ sd # ys \<Longrightarrow> \<not> sd_ok sd \<Longrightarrow> tx \<notin> fst ` set (wo_serving w) \<Longrightarrow> \<not> still_queued tx (se_core (wo_session w)) \<Longrightarrow>
     (subscribed_serve tx largest window sd (pub_part (wo_session w)) :: (unit session_error + delivery_filter) \<times> subscribed \<times> pub_st) = (Inr flt, sd', st) \<Longrightarrow>
     using_handle show_err w (w\<lparr>wo_session := set_pub st (wo_session w), wo_subscribeds := xs @ ys, wo_serving := (tx, sd') # wo_serving w\<rparr>)"
| serve_failed:
    "wo_subscribeds w = xs @ sd # ys \<Longrightarrow> \<not> sd_ok sd \<Longrightarrow>
     (subscribed_serve tx largest window sd (pub_part (wo_session w)) :: (unit session_error + delivery_filter) \<times> subscribed \<times> pub_st) = (Inl err, sd', st) \<Longrightarrow>
     using_handle show_err w (w\<lparr>wo_session := set_pub st (wo_session w), wo_subscribeds := xs @ sd' # ys\<rparr>)"
| serve_accepted:
    "wo_serving w = xs @ (tx, sd) # ys \<Longrightarrow> \<not> still_queued tx (se_core (wo_session w)) \<Longrightarrow>
     using_handle show_err w (w\<lparr>wo_subscribeds := serve_accepted sd # wo_subscribeds w, wo_serving := xs @ ys\<rparr>)"
| serve_cancelled:
    "wo_serving w = xs @ (tx, sd) # ys \<Longrightarrow>
     using_handle show_err w (w\<lparr>wo_session := set_pub (subscribed_dropped show_err sd (pub_part (wo_session w))) (wo_session w), wo_serving := xs @ ys,
       wo_cancelled := si_id (sd_info sd) # wo_cancelled w\<rparr>)"
| subscribed_closed:
    "wo_subscribeds w = xs @ sd # ys \<Longrightarrow>
     using_handle show_err w (w\<lparr>wo_session := set_pub (snd (subscribed_close show_err e sd (pub_part (wo_session w)))) (wo_session w), wo_subscribeds := xs @ ys\<rparr>)"
| subscribed_dropped:
    "wo_subscribeds w = xs @ sd # ys \<Longrightarrow>
     using_handle show_err w (w\<lparr>wo_session := set_pub (subscribed_dropped show_err sd (pub_part (wo_session w))) (wo_session w), wo_subscribeds := xs @ ys\<rparr>)"
| status_refused:
    "wo_statuses w = xs @ ts # ys \<Longrightarrow>
     using_handle show_err w (w\<lparr>wo_session := set_pub (pub_send_message (track_status_respond_error ts code reason) (pub_part (wo_session w))) (wo_session w), wo_statuses := xs @ ys\<rparr>)"
| status_served:
    "wo_statuses w = xs @ ts # ys \<Longrightarrow> (serve_track_status ts found :: (unit session_error + unit) \<times> message list) = (r'', ms) \<Longrightarrow>
     using_handle show_err w (w\<lparr>wo_session := set_pub (fold pub_send_message ms (pub_part (wo_session w))) (wo_session w), wo_statuses := xs @ ys\<rparr>)"

inductive world_step :: "(serve_error \<Rightarrow> rust_string) \<Rightarrow> 'e world \<Rightarrow> 'e world \<Rightarrow> bool" for show_err where
  turn: "session_turn show_err w w' \<Longrightarrow> world_step show_err w w'"
| subscriber: "sub_move (sub_part (wo_session w)) st \<Longrightarrow> world_step show_err w (w\<lparr>wo_session := set_sub st (wo_session w)\<rparr>)"
| publisher: "pub_move show_err (pub_part (wo_session w)) st \<Longrightarrow> world_step show_err w (w\<lparr>wo_session := set_pub st (wo_session w)\<rparr>)"
| taken: "taking w w' \<Longrightarrow> world_step show_err w w'"
| used: "using_handle show_err w w' \<Longrightarrow> world_step show_err w w'"

section \<open>Every step keeps the invariant\<close>

lemma set_sub_keeps: "session_inv se \<Longrightarrow> sub_keeps (se_core se) st \<Longrightarrow> session_keeps (se_core se) (set_sub st se)"
  using pub_inv_mono by (auto simp: session_keeps_def session_inv_def sub_keeps_def set_sub_def)

lemma set_pub_keeps: "session_inv se \<Longrightarrow> pub_keeps (se_core se) st \<Longrightarrow> session_keeps (se_core se) (set_pub st se)"
  using sub_inv_mono by (auto simp: session_keeps_def session_inv_def pub_keeps_def set_pub_def)

lemma set_part_count:
  "session_count i (set_sub st se) + sub_count i (sub_part se) = session_count i se + sub_count i st"
  "session_count i (set_pub st2 se) + pub_count i (pub_part se) = session_count i se + pub_count i st2"
  by (simp_all add: session_count_def set_sub_def set_pub_def sub_count_def pub_count_def)

text \<open>A change of one role and of what the application holds, by what it moves between them.\<close>

lemma sub_handle_move:
  assumes "world_inv w" and "sub_keeps (se_core (wo_session w)) st" and "wo_session w' = set_sub st (wo_session w)" and "wo_written w' = wo_written w"
    and "wo_cancelled w' = wo_cancelled w" and "\<forall>(tx, sd) \<in> set (wo_serving w') - set (wo_serving w). peer_id (se_core (wo_session w)) (si_id (sd_info sd))"
    and "\<And>i. sub_count i st + held i w' \<le> sub_count i (sub_part (wo_session w)) + held i w"
  shows "world_inv w'"
proof (rule world_move [OF assms(1)])
  show "session_keeps (se_core (wo_session w)) (wo_session w')" using assms(1,2,3) by (simp add: world_inv_def set_sub_keeps)
  show "world_count i w' \<le> world_count i w" for i
    using set_part_count(1) [of i st "wo_session w"] assms(3,4) assms(7) [of i] by (simp add: world_count_def)
qed (use assms(5,6) in auto)

lemma pub_handle_move:
  assumes "world_inv w" and "pub_keeps (se_core (wo_session w)) st" and "wo_session w' = set_pub st (wo_session w)" and "wo_written w' = wo_written w"
    and "wo_cancelled w' = wo_cancelled w" and "\<forall>(tx, sd) \<in> set (wo_serving w') - set (wo_serving w). peer_id (se_core (wo_session w)) (si_id (sd_info sd))"
    and "\<And>i. pub_count i st + held i w' \<le> pub_count i (pub_part (wo_session w)) + held i w"
  shows "world_inv w'"
proof (rule world_move [OF assms(1)])
  show "session_keeps (se_core (wo_session w)) (wo_session w')" using assms(1,2,3) by (simp add: world_inv_def set_pub_keeps)
  show "world_count i w' \<le> world_count i w" for i
    using set_part_count(2) [of i st "wo_session w"] assms(3,4) assms(7) [of i] by (simp add: world_count_def)
qed (use assms(5,6) in auto)

lemma popped: "queue_pop_try q = (Popped x n, woken, q') \<Longrightarrow> queued q = x # queued q'"
  by (auto simp: queue_pop_try_def queued_def with_mut_def notify_def split: list.splits option.splits if_splits)

lemma world_parts:
  assumes "world_inv w"
  shows "core_inv (se_core (wo_session w))" "sub_inv (se_core (wo_session w)) (se_sub (wo_session w))"
    "pub_inv (se_core (wo_session w)) (se_pub (wo_session w))"
  using assms by (simp_all add: world_inv_def session_inv_def)

lemma session_turn_inv:
  assumes "session_turn show_err w w'" and inv: "world_inv w"
  shows "world_inv w'"
proof -
  have s: "session_inv (wo_session w)" and b: "within_budget (se_core (wo_session w)) (cancelled w) (\<lambda>i. world_count i w)"
    using inv by (simp_all add: world_inv_def)
  show ?thesis
    using assms(1)
  proof cases
    case (control msg r se)
    have "within_budget (se_core (wo_session w)) (cancelled w) (\<lambda>i. session_count i (wo_session w) + (answers i (wo_written w) + held i w))"
      using b by (simp add: world_count_def add.assoc add.left_commute)
    from recv_control_budget [OF s control(2) this] recv_control_keeps [OF s control(2)] show ?thesis
      using control(1) inv by (auto simp: world_inv_def world_count_def held_def session_keeps_def core_le_def add.assoc add.left_commute)
  next
    case (tick t)
    then show ?thesis using s by (intro world_move [OF inv]) (auto simp: session_keeps_def session_inv_def core_inv_def sub_inv_def pub_inv_def
          core_le_def own_id_def peer_id_def world_count_def session_count_def held_def)
  next
    case (expire r se)
    then show ?thesis using expire_requests_keeps [OF s expire(2)] expire_requests_count [OF s expire(2)]
      by (intro world_move [OF inv]) (auto simp: world_count_def held_def)
  next
    case (datagram later bs r se)
    have "session_count i se \<le> session_count i (wo_session w) + 0" for i
      using datagram(2) unfolding session_recv_datagram_def
      by (rule via_sub_count) (auto simp: sub_count_pair recv_datagram_count split: prod.splits)
    then show ?thesis using session_recv_datagram_keeps [OF s datagram(2)] datagram(1)
      by (intro world_move [OF inv]) (auto simp: world_count_def held_def)
  next
    case (request_stream msg c r' pb)
    note v = core_validate_core [OF world_parts(1) [OF inv] request_stream(2)]
    have p: "pub_inv c pb" using recv_subscribe_namespace_inv [OF request_stream(3)] pub_inv_mono [OF world_parts(3) [OF inv]] v(1) by blast
    have a: "core_answers i c = core_answers i (se_core (wo_session w))" for i
      using request_stream(2) by (auto simp: core_validate_def split: prod.splits)
    show ?thesis using v(1) p a recv_subscribe_namespace_tokens [OF request_stream(3)] request_stream(1)
      by (intro pub_handle_move [OF inv, of "(c, pb)"]) (simp_all add: pub_keeps_pair pub_count_pair held_def)
  next
    case (written m n woken q)
    show ?thesis using s popped [OF written(2)] written(1)
      by (intro world_move [OF inv]) (auto simp: session_keeps_def session_inv_def core_inv_def sub_inv_def pub_inv_def
          core_le_def own_id_def peer_id_def world_count_def session_count_def held_def core_answers_def answers_def)
  qed
qed

lemma set_part_same: "set_sub (se_core se, sb) se = se\<lparr>se_sub := sb\<rparr>" "set_pub (se_core se, pb) se = se\<lparr>se_pub := pb\<rparr>"
  by (cases se; simp add: set_sub_def set_pub_def)+

lemma put_recv_keys: "map fst (map (\<lambda>(k, w). if k = ns then (k, v) else (k, w)) xs) = map fst xs"
  by (induction xs) auto

lemma put_recv_inv: "pub_inv c pb \<Longrightarrow> pub_inv c (put_recv ns v pb)"
  by (simp add: pub_inv_def put_recv_keys del: map_map)

lemma taken_round:
  "publish_namespace_subscribed_round s = (Ready (Inr (Some sd)), s') \<Longrightarrow> ns_tokens i s = ns_tokens i s' + open_subscribeds i [sd]"
  "publish_namespace_track_status_round s = (Ready (Inr (Some ts)), s') \<Longrightarrow> ns_tokens i s = ns_tokens i s' + open_statuses i [ts]"
  by (auto simp: publish_namespace_subscribed_round_def publish_namespace_track_status_round_def with_mut_def notify_def nothing_left_def ns_tokens_def open_defs
      split: list.splits option.splits if_splits)

lemma put_taken_tokens:
  assumes "distinct (map fst (pb_publish_namespaces pb))" and "map_of (pb_publish_namespaces pb) ns = Some v" and "ns_tokens i (pnr_state v) = ns_tokens i s + n"
  shows "pub_tokens i (put_recv ns (v\<lparr>pnr_state := s\<rparr>) pb) + n = pub_tokens i pb"
  using put_namespace_tokens [OF assms(1,2), of i "v\<lparr>pnr_state := s\<rparr>"] assms(3) by (simp del: map_map)

lemma open_split:
  "open_subscribeds i (xs1 @ h1 # ys1) = open_subscribeds i [h1] + open_subscribeds i (xs1 @ ys1)"
  "open_namespaces i (xs2 @ h2 # ys2) = open_namespaces i [h2] + open_namespaces i (xs2 @ ys2)"
  "open_publishes i (xs3 @ h3 # ys3) = open_publishes i [h3] + open_publishes i (xs3 @ ys3)"
  "open_statuses i (xs4 @ h4 # ys4) = open_statuses i [h4] + open_statuses i (xs4 @ ys4)"
  by (simp_all add: open_defs)

lemma taking_inv:
  assumes "taking w w'" and inv: "world_inv w"
  shows "world_inv w'"
proof -
  note p = world_parts [OF inv]
  have d: "distinct (map fst (pb_publish_namespaces (se_pub (wo_session w))))" using p(3) by (simp add: pub_inv_def)
  show ?thesis
    using assms(1)
  proof cases
    case (namespace h n woken q1)
    show ?thesis using p popped [OF namespace(2)] unfolding namespace(1)
      by (intro sub_handle_move [OF inv, where st = "(se_core (wo_session w), (se_sub (wo_session w))\<lparr>sb_published_namespace_queue := q1\<rparr>)"]) (auto simp: set_part_same sub_keeps_pair sub_count_pair sub_tokens_def held_def open_defs elim!: sub_inv_cong)
  next
    case (publish p n woken q2)
    show ?thesis using p popped [OF publish(2)] unfolding publish(1)
      by (intro sub_handle_move [OF inv, where st = "(se_core (wo_session w), (se_sub (wo_session w))\<lparr>sb_publish_received_queue := q2\<rparr>)"]) (auto simp: set_part_same sub_keeps_pair sub_count_pair sub_tokens_def held_def open_defs elim!: sub_inv_cong)
  next
    case (unknown_subscribed sd n woken q3)
    show ?thesis using p popped [OF unknown_subscribed(2)] unfolding unknown_subscribed(1)
      by (intro pub_handle_move [OF inv, where st = "(se_core (wo_session w), (se_pub (wo_session w))\<lparr>pb_unknown_subscribed := q3\<rparr>)"]) (auto simp: set_part_same pub_keeps_pair pub_count_pair pub_tokens_def held_def open_defs pub_inv_def)
  next
    case (unknown_status ts n woken q4)
    show ?thesis using p popped [OF unknown_status(2)] unfolding unknown_status(1)
      by (intro pub_handle_move [OF inv, where st = "(se_core (wo_session w), (se_pub (wo_session w))\<lparr>pb_unknown_track_status := q4\<rparr>)"]) (auto simp: set_part_same pub_keeps_pair pub_count_pair pub_tokens_def held_def open_defs pub_inv_def)
  next
    case (subscribed ns v sd s)
    show ?thesis using p put_recv_inv [OF p(3)] put_taken_tokens [OF d subscribed(2) taken_round(1) [OF subscribed(3)]]
        open_split(1) [of _ "[]" sd "wo_subscribeds w"] unfolding subscribed(1)
      by (intro pub_handle_move [OF inv, where st = "(se_core (wo_session w), put_recv ns (v\<lparr>pnr_state := s\<rparr>) (se_pub (wo_session w)))"]) (simp_all add: set_part_same pub_keeps_pair pub_count_pair held_def del: map_map)
  next
    case (status ns v ts s)
    show ?thesis using p put_recv_inv [OF p(3)] put_taken_tokens [OF d status(2) taken_round(2) [OF status(3)]]
        open_split(4) [of _ "[]" ts "wo_statuses w"] unfolding status(1)
      by (intro pub_handle_move [OF inv, where st = "(se_core (wo_session w), put_recv ns (v\<lparr>pnr_state := s\<rparr>) (se_pub (wo_session w)))"]) (simp_all add: set_part_same pub_keeps_pair pub_count_pair held_def del: map_map)
  qed
qed

lemma answering_handle:
  "published_namespace_ok h = (Inr m, h') \<Longrightarrow> one_if (answer_of m = Some i) + open_namespaces i [h'] \<le> open_namespaces i [h]"
  "publish_received_accept fwd p = (Inr m, p') \<Longrightarrow> one_if (answer_of m = Some i) + open_publishes i [p'] \<le> open_publishes i [p]"
  "take_reader p = (r, p') \<Longrightarrow> open_publishes i [p'] = open_publishes i [p]"
  by (auto simp: published_namespace_ok_def publish_received_accept_def take_reader_def answer_of_def open_defs split: if_splits option.splits)

lemma closed_handle [simp]:
  "open_namespaces i [published_namespace_close e h] = open_namespaces i [h]" "open_publishes i [publish_received_close e p] = open_publishes i [p]"
  by (simp_all add: published_namespace_close_def publish_received_close_def open_defs)

text \<open>An unanswered handle is one of a request the session has accepted.\<close>

lemma held_publish_peer:
  assumes "world_inv w" and "wo_publishes w = xs @ p # ys" and "\<not> pr_ok p"
  shows "peer_id (se_core (wo_session w)) (pr_request_id p)"
proof (rule ccontr)
  assume "\<not> ?thesis"
  moreover have "world_count (pr_request_id p) w \<le> (if peer_id (se_core (wo_session w)) (pr_request_id p) then Suc (cancelled w (pr_request_id p)) else 0)"
    using assms(1) by (simp add: world_inv_def within_budget_def)
  ultimately have "world_count (pr_request_id p) w = 0" by simp
  then show False using assms(2,3) by (simp add: world_count_def held_def open_publishes_def)
qed

lemma held_subscribed_peer:
  assumes "world_inv w" and "wo_subscribeds w = xs @ sd # ys" and "\<not> sd_ok sd"
  shows "peer_id (se_core (wo_session w)) (si_id (sd_info sd))"
proof (rule ccontr)
  assume "\<not> ?thesis"
  moreover have "world_count (si_id (sd_info sd)) w \<le> (if peer_id (se_core (wo_session w)) (si_id (sd_info sd)) then Suc (cancelled w (si_id (sd_info sd))) else 0)"
    using assms(1) by (simp add: world_inv_def within_budget_def)
  ultimately have "world_count (si_id (sd_info sd)) w = 0" by simp
  then show False using assms(2,3) by (simp add: world_count_def held_def open_subscribeds_def)
qed

text \<open>A serve dropped in its wait answers a second time, which its entry in \<open>wo_cancelled\<close> allows for.\<close>

lemma cancelled_inv:
  assumes "world_inv w" and "wo_serving w = xs @ (tx, sd) # ys"
    and "w' = w\<lparr>wo_session := set_pub (subscribed_dropped show_err sd (pub_part (wo_session w))) (wo_session w), wo_serving := xs @ ys,
      wo_cancelled := si_id (sd_info sd) # wo_cancelled w\<rparr>"
  shows "world_inv w'"
proof -
  note p = world_parts [OF assms(1)]
  let ?st = "subscribed_dropped show_err sd (pub_part (wo_session w))" and ?j = "si_id (sd_info sd)"
  have k: "session_keeps (se_core (wo_session w)) (set_pub ?st (wo_session w))"
    using assms(1) subscribed_dropped_keeps [OF p(1,3)] by (simp add: world_inv_def set_pub_keeps)
  then have le: "core_le (se_core (wo_session w)) (se_core (wo_session w'))" by (simp add: assms(3) session_keeps_def)
  have peer: "peer_id (se_core (wo_session w)) ?j" using assms(1,2) by (simp add: world_inv_def)
  have "within_budget (se_core (wo_session w')) (cancelled w') (\<lambda>i. world_count i w')"
    unfolding within_budget_def
  proof
    fix i
    have "world_count i w' \<le> world_count i w + one_if (?j = i)"
      using set_part_count(2) [of i ?st "wo_session w"] subscribed_dropped_count [of i show_err sd "pub_part (wo_session w)"]
      by (auto simp: assms(3) world_count_def held_def open_subscribeds_def split: if_splits)
    moreover have "world_count i w \<le> (if peer_id (se_core (wo_session w)) i then Suc (cancelled w i) else 0)"
      using assms(1) by (simp add: world_inv_def within_budget_def)
    moreover have "cancelled w' i = cancelled w i + one_if (?j = i)" by (simp add: assms(3))
    ultimately show "world_count i w' \<le> (if peer_id (se_core (wo_session w')) i then Suc (cancelled w' i) else 0)"
      using peer le by (cases "?j = i"; cases "peer_id (se_core (wo_session w)) i") (auto simp: core_le_def)
  qed
  moreover have "\<forall>(tx, sd) \<in> set (wo_serving w'). peer_id (se_core (wo_session w')) (si_id (sd_info sd))"
    using assms(1,2) le by (fastforce simp: assms(3) world_inv_def core_le_def)
  moreover have "session_inv (wo_session w')" using k by (simp add: session_keeps_def assms(3))
  ultimately show ?thesis unfolding world_inv_def by blast
qed

lemma dropped_publish_keeps:
  assumes "world_inv w" and "wo_publishes w = xs @ p # ys" and "pr_request_id p' = pr_request_id p" and "pr_ok p' = pr_ok p"
  shows "sub_keeps (se_core (wo_session w)) (publish_received_dropped p' (sub_part (wo_session w)))"
proof (cases "pr_ok p")
  case True
  then show ?thesis using world_parts [OF assms(1)] assms(4) by (simp add: publish_received_dropped_def publish_received_drop_def sub_keeps_pair)
next
  case False
  then show ?thesis
    using world_parts [OF assms(1)] held_publish_peer [OF assms(1,2)] assms(3) by (intro publish_received_dropped_keeps) auto
qed

lemma sends_count:
  "\<forall>m \<in> set ms. answer_of m = Some j \<Longrightarrow> length ms \<le> 1 \<Longrightarrow> pub_count i (fold pub_send_message ms st) \<le> pub_count i st + one_if (j = i)"
  using pub_send_count [of i "hd ms" st] by (cases ms; cases "tl ms") (auto split: if_splits)

lemma status_messages:
  "serve_track_status ts found = (r, ms) \<Longrightarrow> (\<forall>m \<in> set ms. answer_of m = Some (ts_id ts)) \<and> length ms \<le> 1"
  by (auto simp: serve_track_status_def track_status_respond_ok_def answer_of_def split: option.splits sum.splits)

lemma using_handle_inv:
  assumes "using_handle show_err w w'" and inv: "world_inv w"
  shows "world_inv w'"
proof -
  note p = world_parts [OF inv]
  let ?sub = "sub_part (wo_session w)" and ?pub = "pub_part (wo_session w)"
  have self: "pub_keeps (se_core (wo_session w)) ?pub" "sub_keeps (se_core (wo_session w)) ?sub" using p by (simp_all add: pub_keeps_pair sub_keeps_pair)
  show ?thesis
    using assms(1)
  proof cases
    case (namespace_ok xs h ys m h')
    have "sub_count i (sub_send_message m ?sub) + open_namespaces i [h'] \<le> sub_count i ?sub + open_namespaces i [h]" for i
      using answering_handle(1) [OF namespace_ok(3), of i] sub_send_count [of i m ?sub] by linarith
    then show ?thesis using self unfolding namespace_ok(1)
      by (intro sub_handle_move [OF inv, where st = "sub_send_message m ?sub"])
        (simp_all add: held_def namespace_ok(2) open_split(2) [of _ xs h] open_split(2) [of _ xs h'])
  next
    case (namespace_dropped xs h ys)
    show ?thesis using p published_namespace_dropped_count [of _ show_err h] unfolding namespace_dropped(1)
      by (intro sub_handle_move [OF inv, where st = "published_namespace_dropped show_err h ?sub"])
        (simp_all add: held_def namespace_dropped(2) open_split(2) [of _ xs h] published_namespace_dropped_keeps)
  next
    case (namespace_closed xs h ys e)
    show ?thesis using p published_namespace_dropped_count [of _ show_err "published_namespace_close e h"] unfolding namespace_closed(1)
      by (intro sub_handle_move [OF inv, where st = "published_namespace_dropped show_err (published_namespace_close e h) ?sub"])
        (simp_all add: held_def namespace_closed(2) open_split(2) [of _ xs h] published_namespace_dropped_keeps)
  next
    case (publish_taken xs p ys r p')
    show ?thesis using inv answering_handle(3) [OF publish_taken(3)] session_keeps_refl unfolding publish_taken(1)
      by (intro world_move [OF inv]) (auto simp: world_inv_def world_count_def held_def publish_taken(2) open_split(3) [of _ xs p] open_split(3) [of _ xs p'])
  next
    case (publish_accepted xs p ys fwd m p')
    have "sub_count i (sub_send_message m ?sub) + open_publishes i [p'] \<le> sub_count i ?sub + open_publishes i [p]" for i
      using answering_handle(2) [OF publish_accepted(3), of i] sub_send_count [of i m ?sub] by linarith
    then show ?thesis using self unfolding publish_accepted(1)
      by (intro sub_handle_move [OF inv, where st = "sub_send_message m ?sub"])
        (simp_all add: held_def publish_accepted(2) open_split(3) [of _ xs p] open_split(3) [of _ xs p'])
  next
    case (publish_dropped xs p ys)
    show ?thesis using dropped_publish_keeps [OF inv publish_dropped(2) refl refl] publish_received_dropped_count [of _ p] unfolding publish_dropped(1)
      by (intro sub_handle_move [OF inv, where st = "publish_received_dropped p ?sub"])
        (simp_all add: held_def publish_dropped(2) open_split(3) [of _ xs p])
  next
    case (publish_closed xs p ys e)
    let ?p = "publish_received_close e p"
    have "sub_keeps (se_core (wo_session w)) (publish_received_dropped ?p ?sub)"
      by (rule dropped_publish_keeps [OF inv publish_closed(2)]) (simp_all add: publish_received_close_def)
    then show ?thesis using publish_received_dropped_count [of _ ?p] unfolding publish_closed(1)
      by (intro sub_handle_move [OF inv, where st = "publish_received_dropped ?p ?sub"])
        (simp_all add: held_def publish_closed(2) open_split(3) [of _ xs p])
  next
    case (served xs sd ys tx largest window flt sd' st)
    note sv = subscribed_serve_count [OF served(3,6)]
    have peer: "peer_id (se_core (wo_session w)) (si_id (sd_info sd'))" using held_subscribed_peer [OF inv served(2,3)] sv(2) by simp
    show ?thesis using subscribed_serve_keeps [OF p(1,3) served(6)] sv(1) peer unfolding served(1)
      by (intro pub_handle_move [OF inv, where st = st]) (auto simp: held_def served(2) open_split(1) [of _ xs sd])
  next
    case (serve_failed xs sd ys tx largest window err sd' st)
    show ?thesis using subscribed_serve_keeps [OF p(1,3) serve_failed(4)] subscribed_serve_count(1) [OF serve_failed(3,4)] unfolding serve_failed(1)
      by (intro pub_handle_move [OF inv, where st = st]) (simp_all add: held_def serve_failed(2) open_split(1) [of _ xs sd] open_split(1) [of _ xs sd'])
  next
    case (serve_accepted xs tx sd ys)
    show ?thesis using session_keeps_refl inv unfolding serve_accepted(1)
      by (intro world_move [OF inv]) (auto simp: world_inv_def world_count_def held_def serve_accepted(2) serve_accepted_def open_subscribeds_def)
  next
    case (serve_cancelled xs tx sd ys)
    then show ?thesis using cancelled_inv [OF inv] by blast
  next
    case (subscribed_closed xs sd ys e)
    show ?thesis using subscribed_close_keeps [OF p(1,3)] subscribed_close_count [of _ show_err e sd ?pub] unfolding subscribed_closed(1)
      by (intro pub_handle_move [OF inv, where st = "snd (subscribed_close show_err e sd ?pub)"])
        (simp_all add: held_def subscribed_closed(2) open_split(1) [of _ xs sd])
  next
    case (subscribed_dropped xs sd ys)
    show ?thesis using subscribed_dropped_keeps [OF p(1,3)] subscribed_dropped_count [of _ show_err sd ?pub] unfolding subscribed_dropped(1)
      by (intro pub_handle_move [OF inv, where st = "subscribed_dropped show_err sd ?pub"])
        (simp_all add: held_def subscribed_dropped(2) open_split(1) [of _ xs sd])
  next
    case (status_refused xs ts ys code reason)
    let ?m = "track_status_respond_error ts code reason"
    have "one_if (answer_of ?m = Some i) = open_statuses i [ts]" for i by (simp add: track_status_respond_error_def answer_of_def open_statuses_def)
    then have "pub_count i (pub_send_message ?m ?pub) \<le> pub_count i ?pub + open_statuses i [ts]" for i
      using pub_send_count [of i ?m ?pub] by (simp only:)
    then show ?thesis using pub_send_keeps [OF self(1)] unfolding status_refused(1)
      by (intro pub_handle_move [OF inv, where st = "pub_send_message ?m ?pub"]) (simp_all add: held_def status_refused(2) open_split(4) [of _ xs ts])
  next
    case (status_served xs ts ys found r'' ms)
    have "one_if (ts_id ts = i) = open_statuses i [ts]" for i by (simp add: open_statuses_def)
    then have "pub_count i (fold pub_send_message ms ?pub) \<le> pub_count i ?pub + open_statuses i [ts]" for i
      using sends_count [OF conjunct1 conjunct2, OF status_messages status_messages, OF status_served(3) status_served(3), of i ?pub] by (simp only:)
    then show ?thesis using fold_send_keeps [OF self(1)] unfolding status_served(1)
      by (intro pub_handle_move [OF inv, where st = "fold pub_send_message ms ?pub"]) (simp_all add: held_def status_served(2) open_split(4) [of _ xs ts])
  qed
qed

lemma world_step_inv: "world_step show_err w w' \<Longrightarrow> world_inv w \<Longrightarrow> world_inv w'"
proof (induction rule: world_step.induct)
  case (turn w w')
  then show ?case by (rule session_turn_inv)
next
  case (subscriber w st)
  then show ?case using sub_move_keeps [OF subscriber(1)] world_parts [OF subscriber(2)] sub_move_count [OF subscriber(1)]
    by (intro sub_handle_move [OF subscriber(2), where st = st]) (simp_all add: held_def)
next
  case (publisher w st)
  then show ?case using pub_move_keeps [OF publisher(1)] world_parts [OF publisher(2)] pub_move_count [OF publisher(1)]
    by (intro pub_handle_move [OF publisher(2), where st = st]) (simp_all add: held_def)
next
  case (taken w w')
  then show ?case by (rule taking_inv)
next
  case (used w w')
  then show ?case by (rule using_handle_inv)
qed

definition first_world :: "'e world \<Rightarrow> bool" where
  "first_world w \<longleftrightarrow>
     (\<exists>peer_max our_max profile. unat our_max < 2 ^ 64 - 1 \<and>
        (w = fresh_world (client_session peer_max our_max profile) \<or> w = fresh_world (server_session peer_max our_max profile)))"

lemma first_world_inv:
  assumes "first_world (w :: 'e world)"
  shows "world_inv w"
proof -
  have core: "core_inv (session_core_new a peer_max our_max b)" if "unat our_max < 2 ^ 64 - 1" "(a, b) \<in> {(0, 1), (1, 0)}" for a b peer_max our_max
    using that recv_inv_new [of our_max b] by (auto simp: core_inv_def session_core_new_def recv_ids_new_def send_ids_new_def pr_wf_def)
  have sub: "sub_inv c subscriber_new" for c
    by (simp add: sub_inv_def subscriber_new_def alias_registry_wf_def alias_registry_new_def name_registry_wf_def name_registry_new_def inverse_maps_def alias_owner_def)
  have pub: "pub_inv c (publisher_new profile)" for c profile
    by (simp add: pub_inv_def publisher_new_def name_registry_wf_def name_registry_new_def inverse_maps_def)
  have none: "session_count i (client_session peer_max our_max profile :: 'e session) = 0" "session_count i (server_session peer_max our_max profile :: 'e session) = 0"
    for i peer_max our_max profile
    by (simp_all add: session_count_def client_session_def server_session_def session_core_new_def core_answers_def answers_def queued_def queue_new_def
        watched_new_def sub_tokens_def subscriber_new_def pub_tokens_def publisher_new_def open_defs)
  show ?thesis using assms core sub pub none
    by (auto simp: first_world_def world_inv_def within_budget_def session_inv_def fresh_world_def world_count_def held_def open_defs answers_def
        client_session_def server_session_def)
qed

text \<open>Every state a session can get into.\<close>

definition reachable_world :: "(serve_error \<Rightarrow> rust_string) \<Rightarrow> 'e world \<Rightarrow> bool" where
  "reachable_world show_err w \<longleftrightarrow> (\<exists>w0. first_world w0 \<and> (world_step show_err)\<^sup>*\<^sup>* w0 w)"

lemma reachable_world_inv:
  assumes "reachable_world show_err w"
  shows "world_inv w"
proof -
  obtain w0 where "first_world w0" and steps: "(world_step show_err)\<^sup>*\<^sup>* w0 w" using assms by (auto simp: reachable_world_def)
  from steps show ?thesis
    by (induction rule: rtranclp_induct) (use \<open>first_world w0\<close> in \<open>auto intro: first_world_inv world_step_inv\<close>)
qed

end
