(* ===== verification/Delivery_Laws.thy ===== *)
theory Delivery_Laws
  imports Ingress
begin

text \<open>
  The two ends of a subgroup stream joined: the bytes a forwarder that ran to its end put
  on the wire, and what the receive loop makes of them however they are cut; then the loss
  accounting of the datagram forwarder and the order of locations behind the filters.
\<close>

section \<open>What the forwarder writes\<close>

lemma writer_write_wire:
  "writer_write bs calls wire = (Done (Inr u), wire') \<Longrightarrow> wire' = wire @ bs"
proof (induction bs calls wire rule: writer_write.induct)
  case (4 b bs n s wire)
  then have "wire' = (wire @ take n (b # bs)) @ drop n (b # bs)" by (auto split: if_splits)
  then show ?case by (simp del: take_Cons drop_Cons)
qed auto

lemma output_encode_wire:
  assumes "output_encode e out = (Done (Inr u), out')"
  obtains w where "e fresh_vec = Inr w" "ou_wire out' = ou_wire out @ wr_bytes w"
proof -
  obtain c cs where c: "ou_calls out = c # cs" using assms by (cases "ou_calls out") (auto simp: output_encode_def)
  obtain w where w: "e fresh_vec = Inr w"
    using assms c by (cases "e fresh_vec") (auto simp: output_encode_def writer_encode_def)
  obtain res wire where ww: "write_all (wr_bytes w) c (ou_wire out) = (res, wire)" by (rule prod.exhaust)
  then have "res = Done (Inr u)" "ou_wire out' = wire"
    using assms c w by (auto simp: output_encode_def writer_encode_def)
  then show thesis using write_all_wire [OF ww] w that by auto
qed

lemma output_write_wire:
  "output_write bs out = (Done (Inr u), out') \<Longrightarrow> ou_wire out' = ou_wire out @ bs"
  by (auto simp: output_write_def dest: writer_write_wire split: list.splits prod.splits)

lemma send_chunks_wire:
  "send_chunks cs fin out = (Done (Inr u), out') \<Longrightarrow> fin = None \<and> ou_wire out' = ou_wire out @ concat cs"
proof (induction cs fin out rule: send_chunks.induct)
  case (1 fin out)
  then show ?case by (auto split: option.splits)
next
  case (2 c cs fin out)
  obtain res out1 where w: "output_write c out = (res, out1)" by (rule prod.exhaust)
  then obtain u1 where res: "res = Done (Inr u1)"
    using "2.prems" by (cases res) (auto split: sum.splits)
  with "2.IH" [OF w [symmetric] res refl] "2.prems" w output_write_wire [of c out u1 out1]
  show ?case by simp
qed

text \<open>The wire image of a list of objects after the object \<^verbatim>\<open>previous\<close>.\<close>

fun sent_as :: "u64 option \<Rightarrow> object_log list \<Rightarrow> bytes \<Rightarrow> bool" where
  "sent_as previous [] bs \<longleftrightarrow> bs = []"
| "sent_as previous (ob # obs) bs \<longleftrightarrow>
     (\<exists>delta w bs'. object_id_delta previous (so_object_id (ol_info ob)) = Inr delta \<and>
        subgroup_object_ext_encode (forwarded_object delta (ol_info ob)) fresh_vec = Inr w \<and>
        bs = wr_bytes w @ concat (ol_chunks ob) @ bs' \<and> sent_as (Some (so_object_id (ol_info ob))) obs bs')"

lemma forward_object_wire:
  assumes "forward_object g ob previous s out = (Done (Inr u), s', out')"
  obtains delta w where "object_id_delta previous (so_object_id (ol_info ob)) = Inr delta"
    "subgroup_object_ext_encode (forwarded_object delta (ol_info ob)) fresh_vec = Inr w"
    "ou_wire out' = ou_wire out @ wr_bytes w @ concat (ol_chunks ob)" "ol_end ob = None"
proof -
  obtain delta where delta: "object_id_delta previous (so_object_id (ol_info ob)) = Inr delta"
    using assms by (cases "object_id_delta previous (so_object_id (ol_info ob))") (auto simp: forward_object_def)
  obtain res out1 where e: "output_encode (subgroup_object_ext_encode (forwarded_object delta (ol_info ob))) out = (res, out1)"
    by (rule prod.exhaust)
  then obtain u1 where res: "res = Done (Inr u1)"
    using assms delta by (cases res) (auto simp: forward_object_def split: sum.splits)
  obtain w where w: "subgroup_object_ext_encode (forwarded_object delta (ol_info ob)) fresh_vec = Inr w"
      "ou_wire out1 = ou_wire out @ wr_bytes w"
    using output_encode_wire [OF e [unfolded res]] .
  have "send_chunks (ol_chunks ob) (ol_end ob) out1 = (Done (Inr u), out')"
    using assms delta e res by (auto simp: forward_object_def split: option.splits prod.splits)
  from send_chunks_wire [OF this] w delta show thesis by (intro that) auto
qed

lemma next_allowed_object_filter:
  "next_allowed_object flt g obs fin =
     (case filter (\<lambda>ob. df_allows flt g (so_object_id (ol_info ob))) obs of
        [] \<Rightarrow> (case fin of Some e \<Rightarrow> Inl e | None \<Rightarrow> Inr None)
      | ob # _ \<Rightarrow> Inr (Some (ob, tl (dropWhile (\<lambda>ob. \<not> df_allows flt g (so_object_id (ol_info ob))) obs))))"
  by (induction flt g obs fin rule: next_allowed_object.induct) (auto split: list.splits)

lemma next_allowed_object_split:
  assumes "next_allowed_object flt g obs fin = Inr (Some (ob, rest))"
  shows "filter (\<lambda>ob. df_allows flt g (so_object_id (ol_info ob))) obs =
    ob # filter (\<lambda>ob. df_allows flt g (so_object_id (ol_info ob))) rest \<and> set (ob # rest) \<subseteq> set obs"
  using assms by (induction flt g obs fin rule: next_allowed_object.induct) (auto split: option.splits if_splits)

lemma serve_object_loop_wire:
  "serve_object_loop env flt g fin n ob rest previous s out = (Done (Inr u), s', out') \<Longrightarrow>
   \<exists>bs. ou_wire out' = ou_wire out @ bs \<and>
     sent_as previous (ob # filter (\<lambda>ob. df_allows flt g (so_object_id (ol_info ob))) rest) bs"
proof (induction env flt g fin n ob rest previous s out rule: serve_object_loop.induct)
  case (1 env flt g fin n ob rest previous s out)
  obtain res s1 out1 where f: "forward_object g ob previous (env n s) out = (res, s1, out1)" by (rule prod_cases3)
  then obtain u1 where res: "res = Done (Inr u1)"
    using "1.prems" by (cases res) (auto simp: serve_object_loop.simps [of env flt g fin n ob rest] split: sum.splits)
  obtain delta w where d: "object_id_delta previous (so_object_id (ol_info ob)) = Inr delta"
      "subgroup_object_ext_encode (forwarded_object delta (ol_info ob)) fresh_vec = Inr w"
      "ou_wire out1 = ou_wire out @ wr_bytes w @ concat (ol_chunks ob)"
    using forward_object_wire [OF f [unfolded res]] .
  show ?case
  proof (cases "next_allowed_object flt g rest fin")
    case (Inl e)
    then show ?thesis using "1.prems" f res by (simp add: serve_object_loop.simps [of env flt g fin n ob rest])
  next
    case (Inr nx)
    show ?thesis
    proof (cases nx)
      case None
      with Inr have "filter (\<lambda>ob. df_allows flt g (so_object_id (ol_info ob))) rest = []"
        by (auto simp: next_allowed_object_filter split: list.splits)
      then show ?thesis
        using "1.prems" f res Inr None d by (auto simp: serve_object_loop.simps [of env flt g fin n ob rest])
    next
      case (Some p)
      then obtain ob' rest' where p: "nx = Some (ob', rest')" by (cases p) auto
      have loop: "serve_object_loop env flt g fin (n + 1) ob' rest' (Some (so_object_id (ol_info ob))) s1 out1 = (Done (Inr u), s', out')"
        using "1.prems" f res Inr p by (simp add: serve_object_loop.simps [of env flt g fin n ob rest])
      obtain bs where bs: "ou_wire out' = ou_wire out1 @ bs"
          "sent_as (Some (so_object_id (ol_info ob))) (ob' # filter (\<lambda>ob. df_allows flt g (so_object_id (ol_info ob))) rest') bs"
        using "1.IH" [OF f [symmetric] res refl refl Inr p refl loop] by blast
      show ?thesis
        using bs d next_allowed_object_split [OF Inr [unfolded p]]
        by (intro exI [of _ "wr_bytes w @ concat (ol_chunks ob) @ bs"]) auto
    qed
  qed
qed

lemma serve_subgroup_wire:
  assumes "serve_subgroup env header sl opened flt order s = (Done (Inr u), s', Some (order', wire))"
  obtains w bs where "subgroup_header_encode header fresh_vec = Inr w" "wire = wr_bytes w @ bs" "order' = order"
    "sent_as None (filter (\<lambda>ob. df_allows flt (sgi_group_id (sl_info sl)) (so_object_id (ol_info ob))) (sl_objects sl)) bs"
proof -
  obtain first rest where nx: "next_allowed_object flt (sgi_group_id (sl_info sl)) (sl_objects sl) (sl_end sl) = Inr (Some (first, rest))"
    using assms by (auto simp: serve_subgroup_def split: sum.splits option.splits)
  obtain calls where calls: "opened = Inr calls"
    using assms nx by (cases opened) (auto simp: serve_subgroup_def)
  obtain s1 out' where so: "serve_subgroup_objects env header flt sl first rest s1 \<lparr>ou_wire = [], ou_calls = calls\<rparr> = (Done (Inr u), s', out')"
      and wire: "wire = ou_wire out'" and order: "order' = order"
    using assms nx calls by (auto simp: serve_subgroup_def split: option.splits prod.splits)
  obtain res out1 where e: "output_encode (subgroup_header_encode header) \<lparr>ou_wire = [], ou_calls = calls\<rparr> = (res, out1)" by (rule prod.exhaust)
  then obtain u1 where res: "res = Done (Inr u1)"
    using so by (cases res) (auto simp: serve_subgroup_objects_def split: sum.splits)
  obtain w where w: "subgroup_header_encode header fresh_vec = Inr w" "ou_wire out1 = wr_bytes w"
    using output_encode_wire [OF e [unfolded res]] by auto
  have "serve_object_loop env flt (sgi_group_id (sl_info sl)) (sl_end sl) 0 first rest None s1 out1 = (Done (Inr u), s', out')"
    using so e res by (simp add: serve_subgroup_objects_def)
  from serve_object_loop_wire [OF this] w order wire next_allowed_object_split [OF nx] show thesis
    by (auto intro: that)
qed

section \<open>What the receive loop makes of it\<close>

lemma read_chunk_reads:
  assumes "clean rd" and "pending rd = p @ rest" and "length p = n" and "0 < n"
  obtains chunk p' rd' where "read_chunk n rd = (Inr (Some chunk), rd')" "clean rd'" "p = chunk @ p'" "pending rd' = p' @ rest"
proof (cases "rd_buffer rd = []")
  case False
  let ?k = "min n (length (rd_buffer rd))"
  have "take ?k (rd_buffer rd) = take ?k (pending rd)" by (simp add: pending_def)
  also have "\<dots> = take ?k p" using assms(2,3) by simp
  finally have chunk: "take ?k (rd_buffer rd) = take ?k p" .
  have "drop ?k (rd_buffer rd) @ concat (map projr (rd_stream rd)) = drop ?k (pending rd)" by (simp add: pending_def)
  also have "\<dots> = drop ?k p @ rest" using assms(2,3) by simp
  finally have "drop ?k (rd_buffer rd) @ concat (map projr (rd_stream rd)) = drop ?k p @ rest" .
  then show thesis using False assms(1) chunk
    by (intro that [of "take ?k p" "rd\<lparr>rd_buffer := drop ?k (rd_buffer rd)\<rparr>" "drop ?k p"])
      (simp_all add: read_chunk_def Let_def clean_def pending_def)
next
  case True
  then have "rd_stream rd \<noteq> []" using assms by (auto simp: pending_def)
  then obtain bs s where s: "rd_stream rd = Inr bs # s"
    using assms(1) by (cases "rd_stream rd"; cases "hd (rd_stream rd)") (auto simp: clean_def)
  have eq: "bs @ concat (map projr s) = p @ rest" using True s assms(2) by (simp add: pending_def)
  show thesis
  proof (cases "length bs \<le> n")
    case le: True
    then have p: "p = bs @ drop (length bs) p" "concat (map projr s) = drop (length bs) p @ rest"
      using eq assms(3) by (simp_all add: append_eq_append_conv_if) (metis append_take_drop_id)
    show thesis using True s le p assms(1)
      by (intro that [of bs "rd\<lparr>rd_stream := s\<rparr>" "drop (length bs) p"]) (simp_all add: read_chunk_def clean_def pending_def)
  next
    case gt: False
    then have p: "take n bs = p" "drop n bs @ concat (map projr s) = rest"
      using eq assms(3) by (auto simp: append_eq_append_conv_if)
    show thesis using True s gt p assms(1)
      by (intro that [of p "rd\<lparr>rd_stream := Inr (drop n bs) # s\<rparr>" "[]"]) (simp_all add: read_chunk_def clean_def pending_def)
  qed
qed

lemma recv_payload_reads:
  "clean rd \<Longrightarrow> pending rd = p @ rest \<Longrightarrow> length p = n \<Longrightarrow> w_open s \<Longrightarrow> ow = (n, s) \<Longrightarrow>
   \<exists>rd' s'. recv_payload n rd ow = (Inr (), rd', 0, s') \<and> clean rd' \<and> pending rd' = rest \<and> w_open s' \<and>
     concat (os_chunks (w_value s')) = concat (os_chunks (w_value s)) @ p \<and> os_closed (w_value s') = os_closed (w_value s)"
proof (induction n rd ow arbitrary: s p rule: recv_payload.induct)
  case (1 n rd ow)
  show ?case
  proof (cases "n = 0")
    case True
    with "1.prems" show ?thesis by (auto simp: recv_payload.simps [of 0])
  next
    case False
    then obtain chunk p' rd1 where c: "read_chunk n rd = (Inr (Some chunk), rd1)" "clean rd1" "p = chunk @ p'" "pending rd1 = p' @ rest"
      using read_chunk_reads [OF "1.prems"(1-3)] by blast
    define s1 where "s1 = snd (notify (s\<lparr>w_value := (w_value s)\<lparr>os_chunks := os_chunks (w_value s) @ [chunk]\<rparr>\<rparr>))"
    have w: "object_write chunk ow = (Inr (), n - length chunk, s1)"
      using "1.prems"(3,4,5) c(3) by (auto simp: object_write_def with_mut_def s1_def notify_def)
    have s1: "w_open s1" "os_chunks (w_value s1) = os_chunks (w_value s) @ [chunk]" "os_closed (w_value s1) = os_closed (w_value s)"
      using "1.prems"(4) by (simp_all add: s1_def notify_def)
    have len: "length p' = n - length chunk" using "1.prems"(3) c(3) by simp
    have "recv_payload n rd ow = recv_payload (n - length chunk) rd1 (n - length chunk, s1)"
      using False c(1) w by (simp add: recv_payload.simps [of n])
    then show ?thesis
      using "1.IH" [OF False c(1) [symmetric] refl refl w [symmetric] refl c(2) c(4) len s1(1) refl] s1 c(3) by auto
  qed
qed

lemma u64_unat_add: "unat a + unat b < 2 ^ 64 \<Longrightarrow> unat (a + b) = unat a + unat (b :: u64)"
  using unat_add_lem [of a b] by simp

lemma object_id_delta_inverse:
  assumes "object_id_delta previous oid = Inr delta"
  shows "current_object_id previous delta = Inr oid" and "previous = Some p \<Longrightarrow> p < oid"
proof -
  have "current_object_id previous delta = Inr oid \<and> (\<forall>p. previous = Some p \<longrightarrow> p < oid)"
  proof (cases previous)
    case None
    with assms show ?thesis by (simp add: object_id_delta_def current_object_id_def)
  next
    case (Some p)
    with assms have "p \<le> oid" "1 \<le> oid - p" and delta: "delta = oid - p - 1"
      by (auto simp: object_id_delta_def ok_or_def u64_checked_sub_def split: if_splits option.splits)
    then have "p \<noteq> oid" by auto
    with \<open>p \<le> oid\<close> have "p < oid" by simp
    then have "unat p < unat oid" by (simp add: word_less_nat_alt)
    moreover have "unat delta = unat oid - unat p - 1"
    proof -
      have "unat delta = unat (oid - p) - 1" unfolding delta using unat_sub [OF \<open>1 \<le> oid - p\<close>] by simp
      also have "unat (oid - p) = unat oid - unat p" by (rule unat_sub [OF \<open>p \<le> oid\<close>])
      finally show ?thesis .
    qed
    moreover have "unat oid < 2 ^ 64" using unsigned_less [of oid] by simp
    ultimately have lt: "unat p + unat delta < 2 ^ 64" and eq: "unat p + unat delta = unat oid - 1" and "0 < unat oid"
      by linarith+
    then have "unat (p + delta) + unat (1 :: u64) < 2 ^ 64" using u64_unat_add [OF lt] unsigned_less [of oid] by simp
    moreover have "p + delta + 1 = oid" by (simp add: delta)
    ultimately show ?thesis using Some \<open>p < oid\<close> lt by (simp add: current_object_id_def u64_checked_add_def)
  qed
  then show "current_object_id previous delta = Inr oid" and "previous = Some p \<Longrightarrow> p < oid" by auto
qed

text \<open>What the readers of the mirrored subgroup get: ids, extension headers and payloads.\<close>

definition received :: "'w ingress \<Rightarrow> (u64 \<times> extension_headers \<times> (serve_error + bytes) round) list" where
  "received st =
     (case in_writer st of
        None \<Rightarrow> []
      | Some (_, s) \<Rightarrow>
          map (\<lambda>h. (so_object_id (oh_info h), so_extension_headers (oh_info h), object_read_all (in_objects st ! oh_cell h) 0 []))
            (gs_objects (w_value s)))"

text \<open>The writer is open and ready for any id above the previous one, and every object has its chunks.\<close>

definition ingress_ok :: "'w ingress \<Rightarrow> bool" where
  "ingress_ok st \<longleftrightarrow>
     (\<exists>next_id s. in_writer st = Some (next_id, s) \<and> w_open s \<and>
        next_id = (case in_previous st of None \<Rightarrow> Some 0 | Some p \<Rightarrow> u64_checked_add p 1) \<and>
        (\<forall>h\<in>set (gs_objects (w_value s)). oh_cell h < length (in_objects st)))"

definition readers_only :: "(nat \<Rightarrow> 'v watched \<Rightarrow> 'v watched) \<Rightarrow> bool" where
  "readers_only env \<longleftrightarrow> (\<forall>n s. w_value (env n s) = w_value s \<and> w_open (env n s) = w_open s)"

lemma next_id_admits:
  assumes "object_id_delta previous oid = Inr delta"
  shows "\<exists>m. (case previous of None \<Rightarrow> Some 0 | Some p \<Rightarrow> u64_checked_add p 1) = Some m \<and> m \<le> oid"
proof (cases previous)
  case (Some p)
  then have "p < oid" using object_id_delta_inverse(2) [OF assms] by simp
  then have lt: "unat p < unat oid" by (simp add: word_less_nat_alt)
  moreover have "unat oid < 2 ^ 64" using unsigned_less [of oid] by simp
  ultimately have "unat p + 1 < 2 ^ 64" by linarith
  then have c: "u64_checked_add p 1 = Some (p + 1)" by (simp add: u64_checked_add_def)
  have "unat (p + 1) = unat p + 1" using \<open>unat p + 1 < 2 ^ 64\<close> u64_unat_add [of p 1] by simp
  then have "p + 1 \<le> oid" using lt by (simp add: word_le_nat_alt)
  with Some c show ?thesis by simp
qed simp

lemma payload_cell_reads:
  assumes "w_open s" and "concat (os_chunks (w_value s)) = p" and "os_closed (w_value s) = None"
  shows "object_read_all (object_writer_drop (0, s)) 0 [] = Ready (Inr p)"
  using assms by (simp add: object_read_all_eq object_writer_drop_def drop_half_def notify_def nothing_left_def modified_def)

lemma subgroup_object_ext_decode_status:
  "subgroup_object_ext_decode r = Inr (ob, r') \<Longrightarrow> \<not> status_conflict (soe_status ob) (soe_extension_headers ob \<noteq> [])"
  by (auto simp: subgroup_object_ext_decode_def split: sum.splits if_splits)

lemma recv_object_header_reads:
  assumes "has_extension_headers t" and "clean rd" and "pending rd = wr_bytes w @ rest"
    and "subgroup_object_ext_encode (forwarded_object delta info) fresh_vec = Inr w"
  obtains rd' status where "recv_object_header t rd =
      (Inr (so_size info, delta, status, Some (sort_key kvp_key (so_extension_headers info))), rd')"
    "clean rd'" "pending rd' = rest" "\<not> status_conflict status (so_extension_headers info \<noteq> [])"
proof -
  let ?ob = "forwarded_object delta info"
  have wf: "subgroup_object_ext_wf ?ob" by (simp add: subgroup_object_ext_wf_def forwarded_object_def)
  obtain p where "w = wput p fresh_vec" and p: "streams subgroup_object_ext_decode p (subgroup_object_ext_normal ?ob)"
    using codecE [OF codec_subgroup_object_ext [OF wf] assms(4)] .
  then have "pending rd = p @ rest" using assms(3) by (simp add: fresh_vec_def wput_def)
  then obtain rd' where rd': "reader_decode subgroup_object_ext_decode rd = (Inr (subgroup_object_ext_normal ?ob), rd')"
      "clean rd'" "pending rd' = rest"
    using reader_decode_reads [OF p assms(2)] by blast
  have "\<not> status_conflict (soe_status (subgroup_object_ext_normal ?ob)) (soe_extension_headers (subgroup_object_ext_normal ?ob) \<noteq> [])"
    by (rule subgroup_object_ext_decode_status [OF streams_all [OF p]])
  then show thesis using rd' assms(1)
    by (intro that [of _ rd']) (simp_all add: recv_object_header_def subgroup_object_ext_normal_def forwarded_object_def)
qed

lemma recv_object_reads:
  assumes t: "has_extension_headers t" and rd: "clean rd" "pending rd = wr_bytes w @ payload @ rest"
    and enc: "subgroup_object_ext_encode (forwarded_object delta info) fresh_vec = Inr w"
    and delta: "object_id_delta (in_previous st) (so_object_id info) = Inr delta"
    and len: "length payload = so_size info" and env: "readers_only env"
    and op: "open_writer get_writer t (so_object_id info) (st\<lparr>in_previous := Some (so_object_id info)\<rparr>) =
      (Inr (), st1\<lparr>in_previous := Some (so_object_id info)\<rparr>)"
    and st1: "in_previous st1 = in_previous st" and ok: "ingress_ok st1"
  shows "\<exists>rd' st'. recv_object get_writer env t rd st = (Inr (), rd', st') \<and> clean rd' \<and> pending rd' = rest \<and>
    in_previous st' = Some (so_object_id info) \<and> ingress_ok st' \<and>
    received st' = received st1 @ [(so_object_id info, sort_key kvp_key (so_extension_headers info), Ready (Inr payload))]"
proof -
  let ?oid = "so_object_id info" and ?cell = "length (in_objects st1)"
  let ?exts = "Some (sort_key kvp_key (so_extension_headers info))"
  obtain rd1 status where h: "recv_object_header t rd = (Inr (so_size info, delta, status, ?exts), rd1)"
      "clean rd1" "pending rd1 = payload @ rest" "\<not> status_conflict status (so_extension_headers info \<noteq> [])"
    using recv_object_header_reads [OF t rd(1,2) enc] .
  obtain next_id s where w: "in_writer st1 = Some (next_id, s)" "w_open s"
      "next_id = (case in_previous st1 of None \<Rightarrow> Some 0 | Some p \<Rightarrow> u64_checked_add p 1)"
      "\<forall>h\<in>set (gs_objects (w_value s)). oh_cell h < ?cell"
    using ok by (auto simp: ingress_ok_def)
  obtain m where m: "next_id = Some m" "m \<le> ?oid" using next_id_admits [OF delta] w(3) st1 by auto
  define s1 where "s1 = env ?cell s"
  have s1: "w_open s1" "w_value s1 = w_value s" using env w(2) by (simp_all add: s1_def readers_only_def)
  define hd where "hd = \<lparr>oh_info = \<lparr>so_object_id = ?oid, so_size = so_size info, so_status = NormalObject,
      so_extension_headers = sort_key kvp_key (so_extension_headers info)\<rparr>, oh_cell = ?cell\<rparr>"
  define s2 where "s2 = snd (notify (s1\<lparr>w_value := (w_value s1)\<lparr>gs_objects := gs_objects (w_value s1) @ [hd]\<rparr>\<rparr>))"
  have c: "create_with_id ?oid (so_size info) ?exts ?cell (next_id, s1) = (Inr hd, u64_checked_add ?oid 1, s2)"
    using m s1 by (auto simp: create_with_id_def with_mut_def hd_def s2_def notify_def Let_def not_less)
  obtain rd2 s3 where p: "recv_payload (so_size info) rd1 (so_size info, watched_new object_state_default) = (Inr (), rd2, 0, s3)"
      "clean rd2" "pending rd2 = rest" "w_open s3" "concat (os_chunks (w_value s3)) = payload" "os_closed (w_value s3) = None"
    using recv_payload_reads [OF h(2,3) len _ refl, of "watched_new object_state_default"]
    by (auto simp: watched_new_def object_state_default_def)
  define st' where "st' = st1\<lparr>in_previous := Some ?oid, in_writer := Some (u64_checked_add ?oid 1, s2),
      in_objects := in_objects st1 @ [object_writer_drop (0, s3)]\<rparr>"
  have "recv_object get_writer env t rd st = (Inr (), rd2, st')"
    using h op w(1) c p(1)
    by (simp add: recv_object_def object_id_delta_inverse(1) [OF delta] unwrap_or_def Let_def st'_def s1_def)
  moreover have "ingress_ok st'"
    using w(4) s1 by (auto simp: ingress_ok_def st'_def s2_def notify_def hd_def)
  moreover have "received st' = received st1 @ [(?oid, sort_key kvp_key (so_extension_headers info), Ready (Inr payload))]"
    using w(1,4) s1 payload_cell_reads [OF p(4,5,6)]
    by (auto simp: received_def st'_def s2_def notify_def hd_def nth_append)
  ultimately show ?thesis using p(2,3) by (auto simp: st'_def)
qed

subsection \<open>The whole stream\<close>

text \<open>
  A transport read that returns bytes returns at least one; otherwise \<^verbatim>\<open>Reader::done\<close> could take an
  empty piece at the end of the stream for the start of an object.
\<close>

definition solid :: "'e reader \<Rightarrow> bool" where
  "solid rd \<longleftrightarrow> Inr [] \<notin> set (rd_stream rd)"

lemma reader_fill_suffix: "reader_fill n buf s = (res, buf', s') \<Longrightarrow> set s' \<subseteq> set s"
  by (induction n buf s rule: reader_fill.induct) (auto simp: Let_def split: if_splits)

lemma reader_loop_suffix: "reader_loop d buf s = (res, buf', s') \<Longrightarrow> set s' \<subseteq> set s"
proof (induction d buf s rule: reader_loop.induct)
  case (1 d buf s)
  show ?case
  proof (cases "\<exists>n. d buf = Inl (More n)")
    case False
    then show ?thesis using "1.prems" by (simp add: reader_loop.simps [of d buf] split: sum.splits decode_error.splits prod.splits)
  next
    case True
    then obtain n where n: "d buf = Inl (More n)" by blast
    obtain r b u where f: "reader_fill (length buf + n) buf s = (r, b, u)" by (rule prod_cases3)
    note sub = reader_fill_suffix [OF f]
    show ?thesis
    proof (cases r)
      case None
      then have "reader_loop d b u = (res, buf', s')" using "1.prems" n f by (simp add: reader_loop.simps [of d buf])
      from "1.IH" [OF n refl f [symmetric] None refl this] sub show ?thesis by simp
    next
      case (Some e)
      then show ?thesis using "1.prems" n f sub by (simp add: reader_loop.simps [of d buf])
    qed
  qed
qed

lemma reader_decode_solid: "reader_decode d rd = (res, rd') \<Longrightarrow> solid rd \<Longrightarrow> solid rd'"
  using reader_loop_suffix [of d "rd_buffer rd" "rd_stream rd"]
  by (fastforce simp: reader_decode_def solid_def split: prod.splits)

lemma read_chunk_solid: "read_chunk n rd = (res, rd') \<Longrightarrow> solid rd \<Longrightarrow> solid rd'"
  by (auto simp: read_chunk_def solid_def Let_def split: if_splits list.splits sum.splits)

lemma recv_payload_solid: "recv_payload n rd ow = (res, rd', ow') \<Longrightarrow> solid rd \<Longrightarrow> solid rd'"
proof (induction n rd ow rule: recv_payload.induct)
  case (1 remaining rd ow)
  obtain r rd1 where c: "read_chunk remaining rd = (r, rd1)" by (rule prod.exhaust)
  note so = read_chunk_solid [OF c "1.prems"(2)]
  show ?case
  proof (cases "remaining = 0 \<or> (\<forall>chunk. r \<noteq> Inr (Some chunk))")
    case True
    with "1.prems" c so show ?thesis
      by (auto simp: recv_payload.simps [of remaining] split: if_splits sum.splits option.splits)
  next
    case False
    then obtain chunk where r: "r = Inr (Some chunk)" and n: "remaining \<noteq> 0" by blast
    obtain w ow1 where w: "object_write chunk ow = (w, ow1)" by (rule prod.exhaust)
    show ?thesis
    proof (cases w)
      case (Inl e)
      with "1.prems"(1) c r n w so show ?thesis by (simp add: recv_payload.simps [of remaining])
    next
      case (Inr u)
      have "recv_payload (remaining - length chunk) rd1 ow1 = (res, rd', ow')"
        using "1.prems"(1) c r n w Inr by (simp add: recv_payload.simps [of remaining])
      then show ?thesis by (rule "1.IH" [OF n c [symmetric] r refl w [symmetric] Inr _ so])
    qed
  qed
qed

lemma recv_object_solid:
  assumes "recv_object get_writer env t rd st = (res, rd', st')" and "solid rd"
  shows "solid rd'"
proof -
  obtain r rd1 where h: "recv_object_header t rd = (r, rd1)" by (rule prod.exhaust)
  have "solid rd1"
    using h assms(2) by (auto simp: recv_object_header_def dest: reader_decode_solid split: if_splits prod.splits sum.splits)
  then show ?thesis using assms(1) h
    by (auto simp: recv_object_def Let_def split: if_splits prod.splits sum.splits option.splits dest: recv_payload_solid)
qed

lemma reader_done_reads:
  assumes "clean rd" and "solid rd"
  shows "\<exists>rd'. reader_done rd = (Inr (pending rd = []), rd') \<and> clean rd' \<and> solid rd' \<and> pending rd' = pending rd"
  using assms
  by (cases "rd_stream rd"; cases "hd (rd_stream rd)")
    (auto simp: reader_done_def clean_def solid_def pending_def)

abbreviation (input) object_sent :: "object_log \<Rightarrow> u64 \<times> extension_headers \<times> (serve_error + bytes) round" where
  "object_sent ob \<equiv> (so_object_id (ol_info ob), sort_key kvp_key (so_extension_headers (ol_info ob)), Ready (Inr (concat (ol_chunks ob))))"

lemma recv_subgroup_objects_done:
  assumes "clean rd" and "solid rd" and "pending rd = []"
  shows "\<exists>rd'. recv_subgroup_objects get_writer env t rd st = (Inr (), rd', st)"
  using reader_done_reads [OF assms(1,2)] assms(3) by (auto simp: recv_subgroup_objects.simps [of _ _ _ rd])

lemma sent_as_nonempty: "sent_as previous (ob # obs) bs \<Longrightarrow> bs \<noteq> []"
proof -
  assume "sent_as previous (ob # obs) bs"
  then obtain delta w bs' where w: "subgroup_object_ext_encode (forwarded_object delta (ol_info ob)) fresh_vec = Inr w"
      and bs: "bs = wr_bytes w @ concat (ol_chunks ob) @ bs'" by auto
  have wf: "subgroup_object_ext_wf (forwarded_object delta (ol_info ob))"
    by (simp add: subgroup_object_ext_wf_def forwarded_object_def)
  obtain p where "w = wput p fresh_vec" and p: "streams subgroup_object_ext_decode p (subgroup_object_ext_normal (forwarded_object delta (ol_info ob)))"
    using codecE [OF codec_subgroup_object_ext [OF wf] w] .
  moreover have "p \<noteq> []" using streams_all [OF p] subgroup_object_decode_Nil(1) by auto
  ultimately show "bs \<noteq> []" using bs by (simp add: fresh_vec_def wput_def)
qed

lemma recv_subgroup_objects_step:
  assumes "clean rd" and "solid rd" and "pending rd \<noteq> []"
    and "\<And>rd1. clean rd1 \<Longrightarrow> pending rd1 = pending rd \<Longrightarrow>
      \<exists>rd2 st2. recv_object get_writer env t rd1 st = (Inr (), rd2, st2) \<and> clean rd2 \<and> P rd2 st2"
  shows "\<exists>rd2 st2. recv_subgroup_objects get_writer env t rd st = recv_subgroup_objects get_writer env t rd2 st2 \<and>
    clean rd2 \<and> solid rd2 \<and> P rd2 st2"
proof -
  obtain rd1 where d: "reader_done rd = (Inr False, rd1)" "clean rd1" "solid rd1" "pending rd1 = pending rd"
    using reader_done_reads [OF assms(1,2)] assms(3) by auto
  obtain rd2 st2 where r: "recv_object get_writer env t rd1 st = (Inr (), rd2, st2)" "clean rd2" "P rd2 st2"
    using assms(4) [OF d(2,4)] by blast
  have "recv_subgroup_objects get_writer env t rd st = recv_subgroup_objects get_writer env t rd2 st2"
    using d(1) r(1) by (simp add: recv_subgroup_objects.simps [of _ _ _ rd])
  then show ?thesis using r recv_object_solid [OF r(1) d(3)] by blast
qed

lemma recv_subgroup_objects_reads:
  assumes t: "has_extension_headers t" and env: "readers_only env"
  shows "sent_as (in_previous st) obs bs \<Longrightarrow> list_all (\<lambda>ob. length (concat (ol_chunks ob)) = so_size (ol_info ob)) obs \<Longrightarrow>
    clean rd \<Longrightarrow> solid rd \<Longrightarrow> pending rd = bs \<Longrightarrow> ingress_ok st \<Longrightarrow>
    \<exists>rd' st'. recv_subgroup_objects get_writer env t rd st = (Inr (), rd', st') \<and>
      received st' = received st @ map object_sent obs"
proof (induction obs arbitrary: st bs rd)
  case Nil
  then show ?case using recv_subgroup_objects_done [of rd get_writer env t st] by auto
next
  case (Cons ob obs)
  let ?oid = "so_object_id (ol_info ob)"
  obtain delta w bs' where d: "object_id_delta (in_previous st) ?oid = Inr delta"
      "subgroup_object_ext_encode (forwarded_object delta (ol_info ob)) fresh_vec = Inr w"
      "bs = wr_bytes w @ concat (ol_chunks ob) @ bs'" "sent_as (Some ?oid) obs bs'"
    using Cons.prems(1) by auto
  have op: "open_writer get_writer t ?oid (st\<lparr>in_previous := Some ?oid\<rparr>) = (Inr (), st\<lparr>in_previous := Some ?oid\<rparr>)"
    using Cons.prems(6) by (auto simp: open_writer_def ingress_ok_def)
  let ?P = "\<lambda>rd' st'. pending rd' = bs' \<and> in_previous st' = Some ?oid \<and> ingress_ok st' \<and>
      received st' = received st @ [object_sent ob]"
  have "\<exists>rd2 st2. recv_subgroup_objects get_writer env t rd st = recv_subgroup_objects get_writer env t rd2 st2 \<and>
      clean rd2 \<and> solid rd2 \<and> ?P rd2 st2"
    using recv_object_reads [OF t _ _ d(2) d(1) _ env op refl Cons.prems(6), where rest = bs' and payload = "concat (ol_chunks ob)"]
      Cons.prems(2,5) d(3) sent_as_nonempty [OF Cons.prems(1)]
    by (intro recv_subgroup_objects_step [OF Cons.prems(3,4)]) auto
  then obtain rd2 st2 where r: "recv_subgroup_objects get_writer env t rd st = recv_subgroup_objects get_writer env t rd2 st2"
      "clean rd2" "solid rd2" "pending rd2 = bs'" "in_previous st2 = Some ?oid" "ingress_ok st2"
      "received st2 = received st @ [object_sent ob]"
    by blast
  show ?case using Cons.IH [of st2 bs' rd2] d(4) Cons.prems(2) r by simp
qed

section \<open>A forwarder on a transport that keeps accepting runs to its end\<close>

text \<open>The bytes of the objects, or \<open>None\<close> when an id does not follow or an object does not encode.\<close>

fun subgroup_image :: "u64 option \<Rightarrow> object_log list \<Rightarrow> bytes option" where
  "subgroup_image previous [] = Some []"
| "subgroup_image previous (ob # obs) =
     (case object_id_delta previous (so_object_id (ol_info ob)) of
        Inl _ \<Rightarrow> None
      | Inr delta \<Rightarrow>
          (case subgroup_object_ext_encode (forwarded_object delta (ol_info ob)) fresh_vec of
             Inl _ \<Rightarrow> None
           | Inr w \<Rightarrow> map_option (\<lambda>bs. wr_bytes w @ concat (ol_chunks ob) @ bs)
               (subgroup_image (Some (so_object_id (ol_info ob))) obs)))"

lemma subgroup_image_iff: "sent_as previous obs bs \<longleftrightarrow> subgroup_image previous obs = Some bs"
  by (induction obs arbitrary: previous bs) (auto split: sum.splits)

text \<open>A call on which the transport takes every byte of a message of up to \<^verbatim>\<open>m\<close> bytes.\<close>

definition accepting :: "nat \<Rightarrow> ('e + nat) list \<Rightarrow> bool" where
  "accepting m c \<longleftrightarrow> m \<le> length c \<and> list_all (\<lambda>a. case a of Inr n \<Rightarrow> 0 < n | Inl _ \<Rightarrow> False) c"

definition calls_needed :: "object_log list \<Rightarrow> nat" where
  "calls_needed obs = sum_list (map (\<lambda>ob. Suc (length (ol_chunks ob))) obs)"

lemma writer_write_completes:
  "list_all (\<lambda>a. case a of Inr n \<Rightarrow> 0 < n | Inl _ \<Rightarrow> False) c \<Longrightarrow> length bs \<le> length c \<Longrightarrow>
   writer_write bs c wire = (Done (Inr ()), wire @ bs)"
proof (induction bs c wire rule: writer_write.induct)
  case (4 b bs n s wire)
  then have n: "n \<noteq> 0" and "length (drop n (b # bs)) \<le> length s"
    and "list_all (\<lambda>a. case a of Inr n \<Rightarrow> 0 < n | Inl _ \<Rightarrow> False) s" by auto
  from "4.IH" [OF this(1,3,2)] n show ?case by (simp del: take_Cons drop_Cons)
qed auto

lemma output_encode_completes:
  assumes "ou_calls out = c # cs" and "accepting m c" and "e fresh_vec = Inr w" and "length (wr_bytes w) \<le> m"
  shows "output_encode e out = (Done (Inr ()), \<lparr>ou_wire = ou_wire out @ wr_bytes w, ou_calls = cs\<rparr>)"
  using assms write_all_completes [of c "wr_bytes w" "ou_wire out"]
  by (simp add: output_encode_def writer_encode_def accepting_def)

lemma send_chunks_completes:
  "list_all (accepting m) (ou_calls out) \<Longrightarrow> length cs \<le> length (ou_calls out) \<Longrightarrow> length (concat cs) \<le> m \<Longrightarrow>
   send_chunks cs None out = (Done (Inr ()), \<lparr>ou_wire = ou_wire out @ concat cs, ou_calls = drop (length cs) (ou_calls out)\<rparr>)"
proof (induction cs arbitrary: out)
  case (Cons c cs)
  then obtain k ks where k: "ou_calls out = k # ks" by (cases "ou_calls out") auto
  with Cons.prems have "output_write c out = (Done (Inr ()), \<lparr>ou_wire = ou_wire out @ c, ou_calls = ks\<rparr>)"
    using writer_write_completes [of k c "ou_wire out"] by (simp add: output_write_def accepting_def)
  with Cons.IH [of "\<lparr>ou_wire = ou_wire out @ c, ou_calls = ks\<rparr>"] Cons.prems k show ?case by simp
qed simp

lemma forward_object_completes:
  assumes "object_id_delta previous (so_object_id (ol_info ob)) = Inr delta"
    and "subgroup_object_ext_encode (forwarded_object delta (ol_info ob)) fresh_vec = Inr w"
    and "length (wr_bytes w) \<le> m" and "length (concat (ol_chunks ob)) \<le> m" and "ol_end ob = None"
    and "w_open s" and "list_all (accepting m) (ou_calls out)" and "Suc (length (ol_chunks ob)) \<le> length (ou_calls out)"
  shows "\<exists>s'. w_open s' \<and> forward_object g ob previous s out = (Done (Inr ()), s',
    \<lparr>ou_wire = ou_wire out @ wr_bytes w @ concat (ol_chunks ob), ou_calls = drop (Suc (length (ol_chunks ob))) (ou_calls out)\<rparr>)"
proof -
  obtain c cs where c: "ou_calls out = c # cs" using assms(8) by (cases "ou_calls out") auto
  have acc: "accepting m c" "list_all (accepting m) cs" using assms(7) c by auto
  show ?thesis
    using assms c output_encode_completes [where e = "subgroup_object_ext_encode (forwarded_object delta (ol_info ob))", OF c acc(1) assms(2,3)]
      send_chunks_completes [of m "\<lparr>ou_wire = ou_wire out @ wr_bytes w, ou_calls = cs\<rparr>" "ol_chunks ob"] acc(2)
    by (auto simp: forward_object_def with_mut_def notify_def)
qed

text \<open>The other half of the shared state lives on.\<close>

definition stays_open :: "(nat \<Rightarrow> 'v watched \<Rightarrow> 'v watched) \<Rightarrow> bool" where
  "stays_open env \<longleftrightarrow> (\<forall>n s. w_open s \<longrightarrow> w_open (env n s))"

lemma subgroup_image_bounds:
  assumes "subgroup_image previous (ob # obs) = Some bs" and "length bs \<le> m"
  obtains delta w bs' where "object_id_delta previous (so_object_id (ol_info ob)) = Inr delta"
    "subgroup_object_ext_encode (forwarded_object delta (ol_info ob)) fresh_vec = Inr w"
    "subgroup_image (Some (so_object_id (ol_info ob))) obs = Some bs'" "bs = wr_bytes w @ concat (ol_chunks ob) @ bs'"
    "length (wr_bytes w) \<le> m" "length (concat (ol_chunks ob)) \<le> m" "length bs' \<le> m"
  using assms by (auto split: sum.splits)

lemma next_allowed_object_fin:
  "next_allowed_object flt g obs None =
     (case filter (\<lambda>ob. df_allows flt g (so_object_id (ol_info ob))) obs of [] \<Rightarrow> Inr None | ob # _ \<Rightarrow>
        Inr (Some (ob, tl (dropWhile (\<lambda>ob. \<not> df_allows flt g (so_object_id (ol_info ob))) obs))))"
  by (simp add: next_allowed_object_filter split: list.split)

lemma next_allowed_object_calls:
  "next_allowed_object flt g obs fin = Inr (Some (ob, rest)) \<Longrightarrow> calls_needed (ob # rest) \<le> calls_needed obs"
  by (induction obs) (auto simp: calls_needed_def split: if_splits option.splits)

lemma serve_object_loop_completes:
  assumes env: "stays_open env"
  shows "subgroup_image previous (ob # filter (\<lambda>ob. df_allows flt g (so_object_id (ol_info ob))) rest) = Some bs \<Longrightarrow>
    length bs \<le> m \<Longrightarrow> list_all (\<lambda>ob. ol_end ob = None) (ob # rest) \<Longrightarrow> w_open s \<Longrightarrow>
    list_all (accepting m) (ou_calls out) \<Longrightarrow> calls_needed (ob # rest) \<le> length (ou_calls out) \<Longrightarrow>
    \<exists>s' out'. serve_object_loop env flt g None n ob rest previous s out = (Done (Inr ()), s', out') \<and>
      ou_wire out' = ou_wire out @ bs"
proof (induction "length rest" arbitrary: n ob rest previous s out bs rule: less_induct)
  case less
  let ?allowed = "\<lambda>ob. df_allows flt g (so_object_id (ol_info ob))"
  obtain delta w bs' where i: "object_id_delta previous (so_object_id (ol_info ob)) = Inr delta"
      "subgroup_object_ext_encode (forwarded_object delta (ol_info ob)) fresh_vec = Inr w"
      "subgroup_image (Some (so_object_id (ol_info ob))) (filter ?allowed rest) = Some bs'"
      "bs = wr_bytes w @ concat (ol_chunks ob) @ bs'"
      "length (wr_bytes w) \<le> m" "length (concat (ol_chunks ob)) \<le> m" "length bs' \<le> m"
    using subgroup_image_bounds [OF less.prems(1,2)] .
  define out1 where "out1 = \<lparr>ou_wire = ou_wire out @ wr_bytes w @ concat (ol_chunks ob), ou_calls = drop (Suc (length (ol_chunks ob))) (ou_calls out)\<rparr>"
  obtain s1 where f: "w_open s1" "forward_object g ob previous (env n s) out = (Done (Inr ()), s1, out1)"
    using forward_object_completes [OF i(1,2,5,6), of "env n s" out g] less.prems(3-6) env
    by (auto simp: out1_def stays_open_def calls_needed_def)
  show ?case
  proof (cases "next_allowed_object flt g rest None")
    case (Inl e)
    then show ?thesis by (simp add: next_allowed_object_fin split: list.splits)
  next
    case (Inr nx)
    show ?thesis
    proof (cases nx)
      case None
      with Inr have "filter ?allowed rest = []" by (simp add: next_allowed_object_fin split: list.splits)
      then show ?thesis using Inr None f i by (simp add: serve_object_loop.simps [of env flt g None n ob rest] out1_def)
    next
      case (Some p)
      then obtain ob' rest' where p: "nx = Some (ob', rest')" by (cases p) auto
      note sp = next_allowed_object_split [OF Inr [unfolded p]] and sh = next_allowed_object_shorter [OF Inr [unfolded p]]
      have need: "calls_needed (ob' # rest') \<le> calls_needed rest"
        by (rule next_allowed_object_calls [OF Inr [unfolded p]])
      have "\<exists>s' out'. serve_object_loop env flt g None (n + 1) ob' rest' (Some (so_object_id (ol_info ob))) s1 out1 = (Done (Inr ()), s', out') \<and>
          ou_wire out' = ou_wire out1 @ bs'"
        using i(3,7) sp less.prems(3,5,6) need f(1)
        by (intro less.hyps [OF sh]) (auto simp: out1_def list_all_iff calls_needed_def dest: in_set_dropD)
      then show ?thesis using Inr p f i by (auto simp: serve_object_loop.simps [of env flt g None n ob rest] out1_def)
    qed
  qed
qed

lemma serve_subgroup_completes:
  assumes hd: "subgroup_header_encode header fresh_vec = Inr w"
    and img: "subgroup_image None (filter (\<lambda>ob. df_allows flt (sgi_group_id (sl_info sl)) (so_object_id (ol_info ob))) (sl_objects sl)) = Some bs"
    and due: "filter (\<lambda>ob. df_allows flt (sgi_group_id (sl_info sl)) (so_object_id (ol_info ob))) (sl_objects sl) \<noteq> []"
    and ends: "list_all (\<lambda>ob. ol_end ob = None) (sl_objects sl)" "sl_end sl = None"
    and st: "w_open s" "stays_open env"
    and acc: "list_all (accepting m) calls" "Suc (calls_needed (sl_objects sl)) \<le> length calls" "length (wr_bytes w @ bs) \<le> m"
  shows "\<exists>s'. serve_subgroup env header sl (Inr calls) flt order s = (Done (Inr ()), s', Some (order, wr_bytes w @ bs))"
proof -
  let ?allowed = "\<lambda>ob. df_allows flt (sgi_group_id (sl_info sl)) (so_object_id (ol_info ob))"
  obtain first rest where nx: "next_allowed_object flt (sgi_group_id (sl_info sl)) (sl_objects sl) None = Inr (Some (first, rest))"
    using due by (cases "filter ?allowed (sl_objects sl)") (simp_all add: next_allowed_object_fin)
  note sp = next_allowed_object_split [OF nx] and need = next_allowed_object_calls [OF nx]
  obtain c cs where c: "calls = c # cs" using acc(2) by (cases calls) auto
  define s1 where "s1 = snd (notify (s\<lparr>w_value := record_stream_opened (w_value s)\<rparr>))"
  have s1: "with_mut record_stream_opened s = Some (w_wakers s, s1)" "w_open s1"
    using st(1) by (simp_all add: with_mut_def notify_def s1_def)
  have e: "output_encode (subgroup_header_encode header) \<lparr>ou_wire = [], ou_calls = calls\<rparr> =
      (Done (Inr ()), \<lparr>ou_wire = wr_bytes w, ou_calls = cs\<rparr>)"
    using output_encode_completes [where e = "subgroup_header_encode header" and m = m and c = c and cs = cs and
        out = "\<lparr>ou_wire = [], ou_calls = calls\<rparr>", OF _ _ hd] acc c by simp
  have "\<exists>s' out'. serve_object_loop env flt (sgi_group_id (sl_info sl)) None 0 first rest None s1 \<lparr>ou_wire = wr_bytes w, ou_calls = cs\<rparr> =
      (Done (Inr ()), s', out') \<and> ou_wire out' = ou_wire \<lparr>ou_wire = wr_bytes w, ou_calls = cs\<rparr> @ bs"
    using img sp need ends(1) acc c s1(2)
    by (intro serve_object_loop_completes [OF st(2), where m = m]) (auto simp: list_all_iff)
  then show ?thesis using nx ends(2) s1(1) e by (auto simp: serve_subgroup_def serve_subgroup_objects_def)
qed

section \<open>Receiving what was forwarded\<close>

definition ingress_new :: "subgroup_header \<Rightarrow> 'w \<Rightarrow> 'w ingress" where
  "ingress_new header world = \<lparr>in_header = header, in_previous = None, in_writer = None, in_objects = [], in_world = world\<rparr>"

lemma stream_header_reads:
  assumes "is_subgroup (sg_header_type header)" and "has_subgroup_id (sg_header_type header) \<or> sg_subgroup_id header = None"
    and "subgroup_header_encode header fresh_vec = Inr w" and "clean rd" and "solid rd" and "pending rd = wr_bytes w @ bs"
  obtains rd' where "reader_decode stream_header_decode rd = (Inr \<lparr>sh_header_type = sg_header_type header,
      sh_subgroup_header = Some header, sh_fetch_header = None\<rparr>, rd')" "clean rd'" "solid rd'" "pending rd' = bs"
proof -
  obtain p where "w = wput p fresh_vec" and p: "streams stream_header_decode p
      \<lparr>sh_header_type = sg_header_type header, sh_subgroup_header = Some header, sh_fetch_header = None\<rparr>"
    using codecE [OF codec_subgroup_stream [OF assms(1,2)] assms(3)] .
  then have "pending rd = p @ bs" using assms(6) by (simp add: fresh_vec_def wput_def)
  then show thesis using reader_decode_reads [OF p assms(4)] reader_decode_solid [OF _ assms(5)] that by metis
qed

lemma first_object_opens:
  assumes "has_extension_headers t" and "\<not> uses_first_object_id_as_subgroup_id t" and "readers_only env"
    and "get_writer header world = (Inr (Some 0, watched_new subgroup_state_default), world')"
    and "sent_as None obs bs" and "obs \<noteq> []" and "list_all (\<lambda>ob. length (concat (ol_chunks ob)) = so_size (ol_info ob)) obs"
    and "clean rd" and "solid rd" and "pending rd = bs"
  shows "\<exists>rd' st'. recv_subgroup_objects get_writer env t rd (ingress_new header world) = (Inr (), rd', st') \<and>
    received st' = map object_sent obs"
proof -
  obtain ob rest where obs: "obs = ob # rest" using assms(6) by (cases obs) auto
  let ?oid = "so_object_id (ol_info ob)" and ?st = "ingress_new header world"
  let ?st1 = "?st\<lparr>in_writer := Some (Some 0, watched_new subgroup_state_default), in_world := world'\<rparr>"
  obtain delta w bs' where d: "object_id_delta (in_previous ?st) ?oid = Inr delta"
      "subgroup_object_ext_encode (forwarded_object delta (ol_info ob)) fresh_vec = Inr w"
      "bs = wr_bytes w @ concat (ol_chunks ob) @ bs'" "sent_as (Some ?oid) rest bs'"
    using assms(5) obs by (auto simp: ingress_new_def)
  have op: "open_writer get_writer t ?oid (?st\<lparr>in_previous := Some ?oid\<rparr>) = (Inr (), ?st1\<lparr>in_previous := Some ?oid\<rparr>)"
    using assms(2,4) by (simp add: open_writer_def ingress_new_def)
  have ok: "ingress_ok ?st1" by (simp add: ingress_ok_def ingress_new_def watched_new_def subgroup_state_default_def)
  have none: "received ?st1 = []" by (simp add: received_def watched_new_def subgroup_state_default_def)
  let ?P = "\<lambda>rd' st'. pending rd' = bs' \<and> in_previous st' = Some ?oid \<and> ingress_ok st' \<and> received st' = [object_sent ob]"
  have "\<exists>rd2 st2. recv_subgroup_objects get_writer env t rd ?st = recv_subgroup_objects get_writer env t rd2 st2 \<and>
      clean rd2 \<and> solid rd2 \<and> ?P rd2 st2"
    using recv_object_reads [OF assms(1) _ _ d(2) d(1) _ assms(3) op _ ok, where rest = bs' and payload = "concat (ol_chunks ob)"]
      assms(7,10) obs d(3) sent_as_nonempty [OF assms(5) [unfolded obs]] none
    by (intro recv_subgroup_objects_step [OF assms(8,9)]) auto
  then obtain rd2 st2 where r: "recv_subgroup_objects get_writer env t rd ?st = recv_subgroup_objects get_writer env t rd2 st2"
      "clean rd2" "solid rd2" "pending rd2 = bs'" "in_previous st2 = Some ?oid" "ingress_ok st2" "received st2 = [object_sent ob]"
    by blast
  show ?thesis
    using recv_subgroup_objects_reads [OF assms(1,3), of st2 rest bs' rd2 get_writer] d(4) assms(7) obs r by simp
qed

section \<open>Datagrams\<close>

lemma forwarded_datagram_reads:
  assumes "datagram_encode (forwarded_datagram track_alias d) fresh_vec = Inr w"
  shows "\<exists>dg. datagram_decode (wr_bytes w) = Inr (dg, []) \<and> dg_track_alias dg = track_alias \<and>
    mirrored_datagram dg = d\<lparr>sd_extension_headers := sort_key kvp_key (sd_extension_headers d)\<rparr>"
proof -
  obtain bs where bs: "writes (datagram_encode (forwarded_datagram track_alias d)) bs"
      "datagram_decode bs = Inr (datagram_normal (forwarded_datagram track_alias d), [])"
    using payload_codec_datagram [of "forwarded_datagram track_alias d"] assms unfolding payload_codec_def by blast
  have "w = wput bs fresh_vec"
    using bs(1) [unfolded writes_def, rule_format, of fresh_vec] assms
    by (cases "length bs \<le> wr_room fresh_vec") auto
  then have "wr_bytes w = bs" by (simp add: fresh_vec_def wput_def)
  with bs(2) show ?thesis
    by (auto simp: datagram_normal_def forwarded_datagram_def mirrored_datagram_def unwrap_or_def Let_def
        dg_has_object_id_def dg_has_extension_headers_def dg_has_status_def dg_has_payload_def)
qed

text \<open>Whether a datagram the subscription is due fits the transport's limit of the moment.\<close>

definition turn_due :: "delivery_filter \<Rightarrow> 'e datagram_turn \<Rightarrow> bool" where
  "turn_due flt t = df_allows flt (sd_group_id (dt_datagram t)) (sd_object_id (dt_datagram t))"

definition turn_fits :: "u64 \<Rightarrow> 'e datagram_turn \<Rightarrow> bool" where
  "turn_fits track_alias t =
     (case datagram_encode (forwarded_datagram track_alias (dt_datagram t)) fresh_vec of
        Inl _ \<Rightarrow> False | Inr w \<Rightarrow> length (wr_bytes w) \<le> dt_max_size t)"

definition counters_ok :: "loss_counters \<Rightarrow> bool" where
  "counters_ok c \<longleftrightarrow> lc_reported_dropped c \<le> lc_dropped c \<and> lc_reported_too_large c \<le> lc_too_large c \<and>
     lc_metric_ring c = lc_reported_dropped c \<and> lc_metric_mtu c = lc_reported_too_large c"

lemma report_loss_ok:
  assumes "counters_ok c" and "lc_dropped c \<le> n"
  shows "counters_ok (report_loss (c\<lparr>lc_dropped := n\<rparr>))" and "lc_dropped (report_loss (c\<lparr>lc_dropped := n\<rparr>)) = n"
    and "lc_sent (report_loss (c\<lparr>lc_dropped := n\<rparr>)) = lc_sent c" and "lc_too_large (report_loss (c\<lparr>lc_dropped := n\<rparr>)) = lc_too_large c"
  using assms by (auto simp: counters_ok_def report_loss_def loss_grew_def record_datagram_loss_metric_def)

abbreviation (input) carries :: "u64 \<Rightarrow> bytes \<Rightarrow> 'e datagram_turn \<Rightarrow> bool" where
  "carries track_alias bs t \<equiv> \<exists>dg. datagram_decode bs = Inr (dg, []) \<and> dg_track_alias dg = track_alias \<and>
     mirrored_datagram dg = (dt_datagram t)\<lparr>sd_extension_headers := sort_key kvp_key (sd_extension_headers (dt_datagram t))\<rparr>"

lemma serve_datagram_turn_step:
  assumes "serve_datagram_turn track_alias flt t (c, s, wire) = (Inr u, c', s', wire')"
    and "counters_ok c" and "lc_dropped c \<le> dt_dropped t"
  shows "counters_ok c' \<and> lc_dropped c' = dt_dropped t \<and>
    (if turn_due flt t \<and> turn_fits track_alias t
     then lc_sent c' = lc_sent c + 1 \<and> lc_too_large c' = lc_too_large c \<and> (\<exists>bs. wire' = wire @ [bs] \<and> carries track_alias bs t)
     else lc_sent c' = lc_sent c \<and> lc_too_large c' = lc_too_large c + (if turn_due flt t then 1 else 0) \<and> wire' = wire)"
proof (cases "turn_due flt t")
  case False
  then show ?thesis using assms report_loss_ok [OF assms(2,3)]
    by (simp add: serve_datagram_turn_def turn_due_def Let_def)
next
  case True
  obtain w where w: "datagram_encode (forwarded_datagram track_alias (dt_datagram t)) fresh_vec = Inr w"
    using assms(1) True by (auto simp: serve_datagram_turn_def turn_due_def Let_def split: sum.splits)
  note dg = forwarded_datagram_reads [OF w] and r = report_loss_ok [OF assms(2,3)]
  show ?thesis
  proof (cases "turn_fits track_alias t")
    case fits: True
    then show ?thesis using assms(1) True w r dg
      by (auto simp: serve_datagram_turn_def turn_due_def turn_fits_def Let_def counters_ok_def split: option.splits)
  next
    case False
    then show ?thesis using assms(1) True w r
      by (auto simp: serve_datagram_turn_def turn_due_def turn_fits_def Let_def counters_ok_def split: option.splits)
  qed
qed

lemma serve_datagrams_accounts:
  "serve_datagrams track_alias flt ts dropped fin (c, s, wire) = (Inr u, c', s', wire') \<Longrightarrow> counters_ok c \<Longrightarrow>
   sorted (lc_dropped c # map dt_dropped ts @ [dropped]) \<Longrightarrow>
   lc_metric_ring c' = dropped \<and> lc_metric_mtu c' = lc_too_large c' \<and>
   lc_sent c' = lc_sent c + length (filter (\<lambda>t. turn_due flt t \<and> turn_fits track_alias t) ts) \<and>
   lc_too_large c' = lc_too_large c + length (filter (\<lambda>t. turn_due flt t \<and> \<not> turn_fits track_alias t) ts) \<and>
   (\<exists>sent. wire' = wire @ sent \<and> list_all2 (carries track_alias) sent (filter (\<lambda>t. turn_due flt t \<and> turn_fits track_alias t) ts))"
proof (induction ts arbitrary: c s wire)
  case Nil
  then show ?case
    by (auto simp: counters_ok_def loss_grew_def record_datagram_loss_metric_def Let_def split: option.splits)
next
  case (Cons t ts)
  obtain r c1 s1 wire1 where t: "serve_datagram_turn track_alias flt t (c, s, wire) = (r, c1, s1, wire1)" by (rule prod_cases4)
  then obtain u1 where r: "r = Inr u1" using Cons.prems(1) by (cases r) auto
  have le: "lc_dropped c \<le> dt_dropped t" using Cons.prems(3) by simp
  note st = serve_datagram_turn_step [OF t [unfolded r] Cons.prems(2) le]
  have "serve_datagrams track_alias flt ts dropped fin (c1, s1, wire1) = (Inr u, c', s', wire')"
    using Cons.prems(1) t r by simp
  then have IH: "lc_metric_ring c' = dropped \<and> lc_metric_mtu c' = lc_too_large c' \<and>
     lc_sent c' = lc_sent c1 + length (filter (\<lambda>t. turn_due flt t \<and> turn_fits track_alias t) ts) \<and>
     lc_too_large c' = lc_too_large c1 + length (filter (\<lambda>t. turn_due flt t \<and> \<not> turn_fits track_alias t) ts) \<and>
     (\<exists>sent. wire' = wire1 @ sent \<and> list_all2 (carries track_alias) sent (filter (\<lambda>t. turn_due flt t \<and> turn_fits track_alias t) ts))"
    using Cons.prems(3) st by (intro Cons.IH) auto
  then obtain sent where sent: "wire' = wire1 @ sent" "list_all2 (carries track_alias) sent (filter (\<lambda>t. turn_due flt t \<and> turn_fits track_alias t) ts)"
    by blast
  show ?case
  proof (cases "turn_due flt t \<and> turn_fits track_alias t")
    case True
    then obtain bs where bs: "wire1 = wire @ [bs]" "carries track_alias bs t" using st by auto
    then have "wire' = wire @ (bs # sent)" using sent(1) by simp
    moreover have "list_all2 (carries track_alias) (bs # sent) (filter (\<lambda>t. turn_due flt t \<and> turn_fits track_alias t) (t # ts))"
      using True bs(2) sent(2) by simp
    ultimately show ?thesis using IH st True by auto
  next
    case False
    then show ?thesis using IH st sent by auto
  qed
qed

section \<open>Filters\<close>

lemma location_not_le: "\<not> location_le a b \<longleftrightarrow> location_less b a"
  by (auto simp: location_le_def location_less_def)

lemma u64_inc:
  "x \<noteq> -1 \<Longrightarrow> u64_checked_add x 1 = Some (x + 1)" "u64_checked_add (-1) 1 = None"
  "x \<noteq> -1 \<Longrightarrow> x + 1 \<le> y \<longleftrightarrow> x < (y :: u64)"
proof -
  have max: "unat (-1 :: u64) = 2 ^ 64 - 1" by (simp add: unsigned_minus_1_eq_mask mask_eq_exp_minus_1)
  then show "u64_checked_add (-1) 1 = None" by (simp add: u64_checked_add_def)
  assume "x \<noteq> -1"
  then have "unat x \<noteq> unat (-1 :: u64)" by (metis unsigned_word_eqI)
  moreover have "unat x < 2 ^ LENGTH(64)" by (rule unsigned_less)
  ultimately have lt: "unat x + unat (1 :: u64) < 2 ^ 64" using max by simp
  then show "u64_checked_add x 1 = Some (x + 1)" by (simp add: u64_checked_add_def)
  show "x + 1 \<le> y \<longleftrightarrow> x < y" using u64_unat_add [OF lt] by (simp add: word_le_nat_alt word_less_nat_alt Suc_le_eq)
qed

lemma location_le_group_start: "location_le (Location_new x 0) (Location_new g ob) \<longleftrightarrow> x \<le> g"
  by (auto simp: location_le_def Location_new_def)

text \<open>The start of a NEXT_GROUP subscription is the least location of a later group.\<close>

lemma next_group_location_least:
  assumes "group_id l \<noteq> -1"
  shows "location_le (next_group_location (Some l)) (Location_new g ob) \<longleftrightarrow> group_id l < g"
  using assms by (simp add: next_group_location_def u64_saturating_inc_def location_le_group_start u64_inc)

text \<open>The start of a LARGEST_OBJECT subscription is the least location after the largest one.\<close>

lemma next_object_location_least:
  assumes "l \<noteq> Location_new (-1) (-1)"
  shows "location_le (next_object_location (Some l)) (Location_new g ob) \<longleftrightarrow> location_less l (Location_new g ob)"
proof (cases "object_id l = -1")
  case False
  then show ?thesis
    by (auto simp: next_object_location_def Location_new_def location_le_def location_less_def u64_inc)
next
  case True
  then have "group_id l \<noteq> -1" using assms by (auto simp: Location_new_def)
  moreover have "\<not> (-1 :: u64) < ob" by (simp add: not_less)
  ultimately show ?thesis using True next_group_location_least [of l g ob]
    by (simp add: next_object_location_def u64_inc) (simp add: Location_new_def location_less_def)
qed

end
