(* ===== verification/Run_Properties.thy ===== *)
theory Run_Properties
  imports Session_Runs Delivery_Laws Stream_Properties
begin

text \<open>
  The properties of whole sessions and of the delivery of a track: answers, aliases and names in every
  reachable state, and what one side forwards against what the other side's readers get.
\<close>

section \<open>Sessions\<close>

lemma step_next: "reachable_world show_err w \<Longrightarrow> world_step show_err w w' \<Longrightarrow> reachable_world show_err w'"
  unfolding reachable_world_def by (blast intro: rtranclp.rtrancl_into_rtrancl)

lemma reachable_first: "first_world w0 \<Longrightarrow> reachable_world show_err w0"
  by (auto simp: reachable_world_def)

text \<open>
  C3. No request is answered twice, unless the serve of a subscription was dropped while it waited for
  its own SUBSCRIBE_OK. In every reachable state of a session, whatever the peer sends, the
  application does and the timers and data streams interleave, the control messages written so far and
  those still queued hold at most one answer (SUBSCRIBE_OK, PUBLISH_OK, FETCH_OK, REQUEST_OK or
  REQUEST_ERROR) per request id and one more per serve of that request cancelled in the wait of
  \<^verbatim>\<open>send_message_and_wait\<close>; a request id the session has not accepted has none; and a handle the
  application holds is unanswered only if no answer was sent.
\<close>

theorem every_request_answered_at_most_once:
  assumes "reachable_world show_err w"
  shows "answers i (wo_written w) + answers i (queued (sc_outgoing (se_core (wo_session w)))) + held i w \<le>
    (if i \<in> accepted_ids (sc_recv_ids (se_core (wo_session w))) then 1 + count_list (wo_cancelled w) i else 0)"
proof -
  have "world_count i w \<le> (if peer_id (se_core (wo_session w)) i then Suc (count_list (wo_cancelled w) i) else 0)"
    using reachable_world_inv [OF assms] by (simp add: world_inv_def within_budget_def)
  then show ?thesis by (simp add: world_count_def session_count_def core_answers_def peer_id_def split: if_splits)
qed

text \<open>A server that is announced a namespace, hands it to the application and accepts it.\<close>

definition announced :: "unit session" where
  "announced = snd (recv_control (\<lambda>_. []) (PublishNamespace \<lparr>pns_id = 2, pns_track_namespace = [[1]], pns_params = []\<rparr>)
     (server_session 10 10 Draft16))"

lemmas control_simps = recv_control_def sequenced_request_id_def with_core_def core_validate_def validate_incoming_def server_session_def
  session_core_new_def recv_ids_new_def dispatch_message_def publisher_msg_try_from_def subscriber_msg_try_from_def via_sub_def sub_recv_message_def
  subscriber_new_def queue_push_def queue_new_def watched_new_def with_mut_def notify_def Let_def

lemma announced_queued: "queued (sb_published_namespace_queue (se_sub announced)) = [published_namespace_new 2 [[1]]]"
  "w_open (sb_published_namespace_queue (se_sub announced))" "w_open (sc_outgoing (se_core announced))" "queued (sc_outgoing (se_core announced)) = []"
  by (simp_all add: announced_def control_simps slide.simps recv_publish_namespace_def queued_def)

lemma pops: "queued q = x # xs \<Longrightarrow> w_open q \<Longrightarrow> \<exists>n woken q'. queue_pop_try q = (Popped x n, woken, q')"
  by (auto simp: queue_pop_try_def queued_def with_mut_def notify_def split: list.splits)

lemma accepted_namespace_written:
  obtains w where "reachable_world (\<lambda>_. []) (w :: unit world)" "answers 2 (wo_written w) = 1" "wo_cancelled w = []"
proof -
  let ?start = "fresh_world (server_session 10 10 Draft16 :: unit session)" and ?h = "published_namespace_new 2 [[1]]"
  let ?m = "RequestOk \<lparr>rok_id = 2, rok_params = []\<rparr>"
  obtain n woken q where pop: "queue_pop_try (sb_published_namespace_queue (se_sub announced)) = (Popped ?h n, woken, q)"
    using pops [OF announced_queued(1,2)] by blast
  let ?w1 = "?start\<lparr>wo_session := announced\<rparr>"
  let ?w2 = "?w1\<lparr>wo_session := announced\<lparr>se_sub := (se_sub announced)\<lparr>sb_published_namespace_queue := q\<rparr>\<rparr>, wo_namespaces := [?h]\<rparr>"
  let ?w3 = "?w2\<lparr>wo_session := set_sub (sub_send_message ?m (sub_part (wo_session ?w2))) (wo_session ?w2), wo_namespaces := [?h\<lparr>pnh_ok := True\<rparr>]\<rparr>"
  have out: "queued (sc_outgoing (se_core (wo_session ?w3))) = [?m]" "w_open (sc_outgoing (se_core (wo_session ?w3)))"
    using announced_queued(3,4) by (simp_all add: set_sub_def sub_send_message_def push_outgoing_def queue_push_def queued_def with_mut_def notify_def)
  obtain n' woken' q' where pop': "queue_pop_try (sc_outgoing (se_core (wo_session ?w3))) = (Popped ?m n', woken', q')"
    using pops [OF out] by blast
  let ?w4 = "?w3\<lparr>wo_session := (wo_session ?w3)\<lparr>se_core := (se_core (wo_session ?w3))\<lparr>sc_outgoing := q'\<rparr>\<rparr>, wo_written := wo_written ?w3 @ [?m]\<rparr>"
  have r: "reachable_world (\<lambda>_. []) ?start" by (rule reachable_first) (auto simp: first_world_def intro!: exI [of _ 10])
  have s1: "session_turn (\<lambda>_. []) ?start ?w1"
    using control [of "\<lambda>_. []" "PublishNamespace \<lparr>pns_id = 2, pns_track_namespace = [[1]], pns_params = []\<rparr>" ?start, OF surjective_pairing]
    by (simp add: announced_def fresh_world_def)
  have s2: "taking ?w1 ?w2" using taking.namespace [of ?w1 ?h n woken q] pop by (simp add: fresh_world_def)
  have s3: "using_handle (\<lambda>_. []) ?w2 ?w3"
    using namespace_ok [of ?w2 "[]" ?h "[]" ?m "?h\<lparr>pnh_ok := True\<rparr>"] by (simp add: published_namespace_ok_def published_namespace_new_def)
  have s4: "session_turn (\<lambda>_. []) ?w3 ?w4" by (rule written [OF pop'])
  note step_next [OF step_next [OF step_next [OF step_next [OF r turn [OF s1]] taken [OF s2]] used [OF s3]] turn [OF s4]]
  moreover have "answers 2 (wo_written ?w4) = 1" "wo_cancelled ?w4 = []" by (simp_all add: fresh_world_def answers_def answer_of_def)
  ultimately show ?thesis using that by blast
qed

theorem every_request_answered_at_most_once_witness:
  "\<exists>w. reachable_world (\<lambda>_. []) (w :: unit world) \<and> answers 2 (wo_written w) = 1 \<and>
     answers 2 (queued (sc_outgoing (se_core (wo_session w)))) + held 2 w = 0"
proof -
  obtain w where w: "reachable_world (\<lambda>_. []) (w :: unit world)" "answers 2 (wo_written w) = 1" "wo_cancelled w = []"
    by (rule accepted_namespace_written)
  show ?thesis using every_request_answered_at_most_once [OF w(1), of 2] w by (intro exI [of _ w]) (auto split: if_splits)
qed

text \<open>
  The exception is real: a server takes a subscription, its serve has queued SUBSCRIBE_OK and is dropped
  before that has left the queue. The handle was not marked yet, so its destructor rejects the
  request, and the peer gets SUBSCRIBE_OK and then REQUEST_ERROR for one id.
\<close>

definition subscribed_session :: "unit session" where
  "subscribed_session = snd (recv_control (\<lambda>_. []) (Subscribe \<lparr>sub_id = 2, sub_track_namespace = [[1]], sub_track_name = [2], sub_params = []\<rparr>)
     (server_session 10 10 Draft16))"

definition fresh_subscribed :: subscribed where
  "fresh_subscribed = projr (subscribed_new \<lparr>sub_id = 2, sub_track_namespace = [[1]], sub_track_name = [2], sub_params = []\<rparr> :: unit session_error + subscribed)"

lemma fresh_subscribed_eq:
  "subscribed_new \<lparr>sub_id = 2, sub_track_namespace = [[1]], sub_track_name = [2], sub_params = []\<rparr> = (Inr fresh_subscribed :: 'e session_error + subscribed)"
  "si_id (sd_info fresh_subscribed) = 2" "sd_state fresh_subscribed = watched_new object_forwarder_state_default" "\<not> sd_ok fresh_subscribed"
proof -
  have p: "get_subscription_filter [] = Inr None" "subscriber_priority [] = Inr None" "get_group_order [] = Inr None" "forward [] = Inr None" by code_simp+
  show "subscribed_new \<lparr>sub_id = 2, sub_track_namespace = [[1]], sub_track_name = [2], sub_params = []\<rparr> = (Inr fresh_subscribed :: 'e session_error + subscribed)"
    "si_id (sd_info fresh_subscribed) = 2" "sd_state fresh_subscribed = watched_new object_forwarder_state_default" "\<not> sd_ok fresh_subscribed"
    by (simp_all add: fresh_subscribed_def subscribed_new_def new_from_subscribe_def p decode_err_def Let_def)
qed

lemma subscribed_session_state:
  "queued (pb_unknown_subscribed (se_pub subscribed_session)) = [fresh_subscribed]" "w_open (pb_unknown_subscribed (se_pub subscribed_session))"
  "queued (sc_outgoing (se_core subscribed_session)) = []" "w_open (sc_outgoing (se_core subscribed_session))"
  "pb_forwarders (se_pub subscribed_session) 2 = Some (watched_new object_forwarder_state_default)" "pb_profile (se_pub subscribed_session) = Draft16"
  by (simp_all add: subscribed_session_def control_simps slide.simps via_pub_def pub_recv_message_def recv_subscribe_def publisher_new_def
      contains_name_def name_registry_new_def fresh_subscribed_eq(1,2) queued_def)
    (simp_all add: fresh_subscribed_eq watched_new_def)

theorem cancelled_serve_answers_twice:
  "\<exists>w. reachable_world (\<lambda>_. []) (w :: unit world) \<and> wo_cancelled w = [2] \<and>
     map answer_of (queued (sc_outgoing (se_core (wo_session w)))) = [Some 2, Some 2]"
proof -
  let ?start = "fresh_world (server_session 10 10 Draft16 :: unit session)" and ?se = subscribed_session and ?h = fresh_subscribed
  obtain n woken q where pop: "queue_pop_try (pb_unknown_subscribed (se_pub ?se)) = (Popped ?h n, woken, q)"
    using pops [OF subscribed_session_state(1,2)] by blast
  let ?w1 = "?start\<lparr>wo_session := ?se\<rparr>"
  let ?w2 = "?w1\<lparr>wo_session := ?se\<lparr>se_pub := (se_pub ?se)\<lparr>pb_unknown_subscribed := q\<rparr>\<rparr>, wo_subscribeds := [?h]\<rparr>"
  obtain r sd' c2 pb2 where serve: "(subscribed_serve 0 None None ?h (pub_part (wo_session ?w2)) :: (unit session_error + delivery_filter) \<times> subscribed \<times> pub_st) = (Inr r, sd', (c2, pb2))"
    and sd': "sd_info sd' = sd_info ?h" "\<not> sd_ok sd'" and fw: "\<exists>s. pb_forwarders pb2 2 = Some s \<and> \<not> of_unsubscribed (w_value s)"
    and out: "\<exists>m. queued (sc_outgoing c2) = [m] \<and> answer_of m = Some 2" "w_open (sc_outgoing c2)"
    using subscribed_session_state fresh_subscribed_eq
    by (simp add: subscribed_serve_def serve_begin_def load_subscribed_def store_subscribed_def set_largest_location_def subscribe_ok_params_def
        pub_send_message_and_wait_def act_on_message_to_send_def queue_push_notified_def with_mut_def notify_def watched_new_def queued_def
        object_forwarder_state_default_def answer_of_def Let_def)
  let ?w3 = "?w2\<lparr>wo_session := set_pub (c2, pb2) (wo_session ?w2), wo_subscribeds := [], wo_serving := [(0, sd')]\<rparr>"
  let ?w4 = "?w3\<lparr>wo_session := set_pub (subscribed_dropped (\<lambda>_. []) sd' (pub_part (wo_session ?w3))) (wo_session ?w3), wo_serving := [],
      wo_cancelled := [2]\<rparr>"
  have r: "reachable_world (\<lambda>_. []) ?start" by (rule reachable_first) (auto simp: first_world_def intro!: exI [of _ 10])
  have s1: "session_turn (\<lambda>_. []) ?start ?w1"
    using control [of "\<lambda>_. []" "Subscribe \<lparr>sub_id = 2, sub_track_namespace = [[1]], sub_track_name = [2], sub_params = []\<rparr>" ?start, OF surjective_pairing]
    by (simp add: subscribed_session_def fresh_world_def)
  have s2: "taking ?w1 ?w2" using taking.unknown_subscribed [of ?w1 ?h n woken q] pop by (simp add: fresh_world_def)
  have s3: "using_handle (\<lambda>_. []) ?w2 ?w3"
    using served [of ?w2 "[]" ?h "[]" 0 None None r sd' "(c2, pb2)"] serve fresh_subscribed_eq(4) subscribed_session_state(3)
    by (simp add: fresh_world_def still_queued_def queued_def)
  have s4: "using_handle (\<lambda>_. []) ?w3 ?w4"
    using serve_cancelled [of ?w3 "[]" 0 sd' "[]"] sd'(1) fresh_subscribed_eq(2) by (simp add: fresh_world_def)
  have "map answer_of (queued (sc_outgoing (se_core (wo_session ?w4)))) = [Some 2, Some 2]"
    using out fw sd' fresh_subscribed_eq(2)
    by (auto simp: set_pub_def subscribed_dropped_def subscribed_drop_def load_subscribed_def terminal_state_def pub_send_message_def
        act_on_message_to_send_def push_outgoing_def queue_push_def with_mut_def notify_def queued_def answer_of_def)
  with step_next [OF step_next [OF step_next [OF step_next [OF r turn [OF s1]] taken [OF s2]] used [OF s3]] used [OF s4]]
  show ?thesis by (intro exI [of _ ?w4]) simp
qed

text \<open>
  C7. The state of a session is always well formed, whatever sequence of messages, calls, timeouts and
  data-stream events led to it: the registries of aliases and track names are inverse to each other,
  list exactly the requests the roles hold, every request held for the peer is one it was allowed to make
  and every own request has an id the session handed out; no id is both.
\<close>

theorem sessions_stay_well_formed:
  assumes "reachable_world show_err w"
  shows "session_inv (wo_session w) \<and> (\<forall>i. \<not> (own_id (se_core (wo_session w)) i \<and> peer_id (se_core (wo_session w)) i))"
  using reachable_world_inv [OF assms] own_not_peer [OF world_parts(1) [OF reachable_world_inv [OF assms]]] by (auto simp: world_inv_def)

text \<open>A server that is offered a track under alias 7.\<close>

definition offered :: "unit session" where
  "offered = snd (recv_control (\<lambda>_. []) (Publish \<lparr>pub_id = 2, pub_track_namespace = [[1]], pub_track_name = [2], pub_track_alias = 7,
     pub_params = [], pub_track_extensions = []\<rparr>) (server_session 10 10 Draft16))"

lemma no_params: "forward [] = Inr None" "largest_object [] = Inr None"
  by code_simp+

lemma offered_alias: "alias_get (sb_aliases (se_sub offered)) 7 = Some (OriginPublish 2)"
  by (simp add: offered_def control_simps slide.simps recv_publish_def no_params decode_err_def
     contains_name_def name_registry_new_def alias_registry_new_def alias_insert_def alias_get_def track_produce_def with_store_def)

lemma offered_reachable: "reachable_world (\<lambda>_. []) ((fresh_world (server_session 10 10 Draft16))\<lparr>wo_session := offered\<rparr>)"
proof -
  let ?start = "fresh_world (server_session 10 10 Draft16 :: unit session)"
  have "session_turn (\<lambda>_. []) ?start (?start\<lparr>wo_session := offered\<rparr>)"
    using control [of "\<lambda>_. []" _ ?start, OF surjective_pairing] by (simp add: offered_def fresh_world_def)
  moreover have "reachable_world (\<lambda>_. []) ?start" by (rule reachable_first) (auto simp: first_world_def intro!: exI [of _ 10])
  ultimately show ?thesis using step_next turn by blast
qed

theorem sessions_stay_well_formed_witness: "session_inv offered \<and> alias_get (sb_aliases (se_sub offered)) 7 = Some (OriginPublish 2)"
  using sessions_stay_well_formed [OF offered_reachable] offered_alias by simp

text \<open>
  C8. Aliases and track names lead to live requests. In every reachable state, an alias that data streams
  and datagrams name resolves to a subscription or publication the session still holds, and no two
  aliases to the same one; a registered name belongs to exactly one live request, and every live request
  is registered; a track is never both published to the peer and subscribed by it.
\<close>

theorem aliases_and_names_resolve:
  assumes "reachable_world show_err w"
  shows "(\<forall>a og. alias_get (sb_aliases (se_sub (wo_session w))) a = Some og \<longrightarrow>
        (case og of OriginSubscribe i \<Rightarrow> sb_subscribes (se_sub (wo_session w)) i \<noteq> None
         | OriginPublish i \<Rightarrow> sb_publishes_received (se_sub (wo_session w)) i \<noteq> None) \<and>
        (\<forall>b og'. alias_get (sb_aliases (se_sub (wo_session w))) b = Some og' \<and> origin_request_id og' = origin_request_id og \<longrightarrow> b = a)) \<and>
    (\<forall>i. sb_subscribes (se_sub (wo_session w)) i \<noteq> None \<or> sb_publishes_received (se_sub (wo_session w)) i \<noteq> None \<longleftrightarrow>
        (\<exists>!n. nr_by_name (sb_names (se_sub (wo_session w))) n = Some i)) \<and>
    (\<forall>n. \<not> (contains_name (pb_published_names (se_pub (wo_session w))) n \<and> contains_name (pb_subscribed_names (se_pub (wo_session w))) n))"
proof -
  let ?sb = "se_sub (wo_session w)" and ?pb = "se_pub (wo_session w)"
  have s: "sub_inv (se_core (wo_session w)) ?sb" and p: "pub_inv (se_core (wo_session w)) ?pb"
    using world_parts [OF reachable_world_inv [OF assms]] by auto
  have al: "alias_owner (sb_aliases ?sb) a = Some i \<longleftrightarrow> ta_by_request_id (sb_aliases ?sb) i = Some a" for a i
    using s by (simp add: sub_inv_def alias_registry_wf_def inverse_maps_def)
  have nm: "nr_by_name (sb_names ?sb) n = Some i \<longleftrightarrow> nr_by_request_id (sb_names ?sb) i = Some n" for n i
    using s by (simp add: sub_inv_def name_registry_wf_def inverse_maps_def)
  have live: "ta_by_alias (sb_aliases ?sb) a = Some og \<Longrightarrow> origin_live ?sb og" for a og using s by (simp add: sub_inv_def)
  have uniq: "ta_by_alias (sb_aliases ?sb) a = Some og \<Longrightarrow> ta_by_alias (sb_aliases ?sb) b = Some og' \<Longrightarrow>
      origin_request_id og' = origin_request_id og \<Longrightarrow> b = a" for a b og og'
    using al [of a "origin_request_id og"] al [of b "origin_request_id og"] by (simp add: alias_owner_def)
  have "sb_subscribes ?sb i \<noteq> None \<or> sb_publishes_received ?sb i \<noteq> None \<longleftrightarrow> (\<exists>!n. nr_by_name (sb_names ?sb) n = Some i)" for i
  proof -
    have "i \<in> dom (nr_by_request_id (sb_names ?sb)) \<longleftrightarrow> i \<in> dom (sb_subscribes ?sb) \<union> dom (sb_publishes_received ?sb)"
      using s by (simp add: sub_inv_def)
    then show ?thesis unfolding nm by (cases "nr_by_request_id (sb_names ?sb) i") (auto simp: domIff Ex1_def)
  qed
  moreover have "\<not> (contains_name (pb_published_names ?pb) n \<and> contains_name (pb_subscribed_names ?pb) n)" for n
    using p by (auto simp: pub_inv_def contains_name_def)
  ultimately show ?thesis using live uniq by (simp add: alias_get_def origin_live_def)
qed

theorem aliases_and_names_resolve_witness: "sb_publishes_received (se_sub offered) 2 \<noteq> None \<and> (\<exists>!n. nr_by_name (sb_names (se_sub offered)) n = Some 2)"
proof -
  note r = aliases_and_names_resolve [OF offered_reachable, simplified]
  have "sb_publishes_received (se_sub offered) 2 \<noteq> None" using r offered_alias by fastforce
  then show ?thesis using r by blast
qed

section \<open>Delivery\<close>

text \<open>Once its writer is open a subgroup stream touches nothing else of the session.\<close>

lemma recv_object_world:
  assumes "recv_object get_writer env t rd st = (r, rd', st')"
  shows "in_writer st = Some g \<Longrightarrow> in_world st' = in_world st \<and> in_writer st' \<noteq> None"
    and "in_writer st = None \<Longrightarrow> \<not> uses_first_object_id_as_subgroup_id t \<Longrightarrow> r = Inr u \<Longrightarrow>
      in_world st' = snd (get_writer (in_header st) (in_world st)) \<and> in_writer st' \<noteq> None"
  using assms
  by (auto simp: recv_object_def open_writer_def Let_def split: sum.splits prod.splits option.splits if_splits)

lemma recv_subgroup_objects_world:
  "recv_subgroup_objects get_writer env t rd st = (r, rd', st') \<Longrightarrow> in_writer st \<noteq> None \<Longrightarrow> in_world st' = in_world st"
proof (induction get_writer env t rd st rule: recv_subgroup_objects.induct)
  case (1 get_writer env t rd st)
  obtain d rd1 where d: "reader_done rd = (d, rd1)" by (rule prod.exhaust)
  show ?case
  proof (cases "d = Inr False")
    case False
    then show ?thesis using "1.prems" d by (auto simp: recv_subgroup_objects.simps [of _ _ _ rd] split: sum.splits bool.splits)
  next
    case True
    obtain x rd2 st2 where o: "recv_object get_writer env t rd1 st = (x, rd2, st2)" by (rule prod_cases3)
    then have w: "in_world st2 = in_world st" "in_writer st2 \<noteq> None" using recv_object_world(1) [OF o] "1.prems"(2) by auto
    show ?thesis
    proof (cases x)
      case (Inl e)
      then show ?thesis using "1.prems"(1) d True o w by (simp add: recv_subgroup_objects.simps [of _ _ _ rd])
    next
      case (Inr u)
      then have "recv_subgroup_objects get_writer env t rd2 st2 = (r, rd', st')"
        using "1.prems"(1) d True o by (simp add: recv_subgroup_objects.simps [of _ _ _ rd])
      then show ?thesis using "1.IH" [OF d [symmetric] True refl o [symmetric] Inr refl] w by simp
    qed
  qed
qed

lemma first_object_world:
  assumes "recv_subgroup_objects get_writer env t rd (ingress_new header world) = (r, rd', st')" and "\<not> uses_first_object_id_as_subgroup_id t"
    and "in_writer st' \<noteq> None" and "r = Inr u"
  shows "in_world st' = snd (get_writer header world)"
proof -
  obtain d rd1 where d: "reader_done rd = (d, rd1)" by (rule prod.exhaust)
  have more: "d = Inr False"
    using assms d by (auto simp: recv_subgroup_objects.simps [of _ _ _ rd] ingress_new_def split: sum.splits bool.splits)
  obtain x rd2 st2 where o: "recv_object get_writer env t rd1 (ingress_new header world) = (x, rd2, st2)" by (rule prod_cases3)
  obtain v where x: "x = Inr v" using assms(1,4) d more o by (cases x) (auto simp: recv_subgroup_objects.simps [of _ _ _ rd])
  have w: "in_world st2 = snd (get_writer header world)" "in_writer st2 \<noteq> None"
    using recv_object_world(2) [OF o _ assms(2) x] by (auto simp: ingress_new_def)
  have "recv_subgroup_objects get_writer env t rd2 st2 = (r, rd', st')"
    using assms(1) d more o x by (simp add: recv_subgroup_objects.simps [of _ _ _ rd])
  then show ?thesis using recv_subgroup_objects_world w by metis
qed

text \<open>A writer the session opens for a stream is that of a fresh subgroup.\<close>

lemma opened_writer_fresh:
  assumes "recv_subgroup_writer og header (sb, n) = (Inr g, sb', cell)"
  obtains k where "cell = Some k" "g = (Some 0, watched_new subgroup_state_default)" "k < length (mi_subgroups (sb_store sb'))"
proof -
  have fresh: "mirror_subgroup header st = (Inr k, w, mi) \<Longrightarrow> k < length (mi_subgroups mi) \<and> mi_subgroups mi ! k = (Some 0, watched_new subgroup_state_default)"
    for st k w mi
    by (auto simp: mirror_subgroup_def mirror_create_def Let_def put_serve_def split: prod.splits option.splits track_writer_mode.splits sum.splits)
  show thesis using assms that
    by (auto simp: recv_subgroup_writer_def dest!: fresh split: track_origin.splits option.splits prod.splits sum.splits)
qed

text \<open>The objects of a subgroup a subscription's filter allows.\<close>

definition objects_due :: "delivery_filter \<Rightarrow> subgroup_log \<Rightarrow> object_log list" where
  "objects_due flt sl = filter (\<lambda>ob. df_allows flt (sgi_group_id (sl_info sl)) (so_object_id (ol_info ob))) (sl_objects sl)"

text \<open>
  C4. A subgroup is delivered. One side forwards a subgroup with \<^verbatim>\<open>serve_subgroup\<close> on a stream that takes the
  bytes; it returns, having written the header and the objects the subscription's filter allows. The
  other side gets those bytes in pieces of any sizes; \<^verbatim>\<open>recv_stream\<close> returns without error, and the
  readers of its mirrored subgroup find exactly those objects: ids, extension headers (sorted by key)
  and whole payloads, in order.
\<close>

theorem subgroup_delivered_end_to_end:
  assumes hd: "subgroup_header_encode header fresh_vec = Inr w" "is_subgroup (sg_header_type header)"
      "has_subgroup_id (sg_header_type header)" "has_extension_headers (sg_header_type header)"
    and img: "subgroup_image None (objects_due flt sl) = Some bs" and due: "objects_due flt sl \<noteq> []"
    and whole: "list_all (\<lambda>ob. length (concat (ol_chunks ob)) = so_size (ol_info ob) \<and> ol_end ob = None) (sl_objects sl)" "sl_end sl = None"
    and st: "w_open s" "stays_open env"
    and acc: "list_all (accepting m) calls" "Suc (calls_needed (sl_objects sl)) \<le> length calls" "length (wr_bytes w @ bs) \<le> m"
    and rd: "clean rd" "solid rd" "pending rd = wr_bytes w @ bs" and env': "readers_only env'"
    and known: "alias_get (sb_aliases sb) (sg_track_alias header) = Some og"
    and opened: "recv_subgroup_writer og header (sb, None) = (Inr g, sb1, cell)"
  shows "\<exists>s' objs sb2 k. serve_subgroup env header sl (Inr calls) flt order s = (Done (Inr ()), s', Some (order, wr_bytes w @ bs)) \<and>
    recv_stream env' later rd (c, sb) = (Inr (), objs, c, sb2) \<and> cell = Some k \<and>
    map (\<lambda>h. (so_object_id (oh_info h), so_extension_headers (oh_info h), object_read_all (objs ! oh_cell h) 0 []))
      (gs_objects (w_value (snd (mi_subgroups (sb_store sb2) ! k)))) =
    map (\<lambda>ob. (so_object_id (ol_info ob), sort_key kvp_key (so_extension_headers (ol_info ob)), Ready (Inr (concat (ol_chunks ob))))) (objects_due flt sl)"
proof -
  let ?due = "objects_due flt sl"
  have nf: "\<not> uses_first_object_id_as_subgroup_id (sg_header_type header)" "\<not> is_fetch (sg_header_type header)"
    using hd(3) by (auto simp: has_subgroup_id_def uses_first_object_id_as_subgroup_id_def is_fetch_def)
  have sent: "sent_as None ?due bs" using img by (simp add: subgroup_image_iff)
  have sizes: "list_all (\<lambda>ob. length (concat (ol_chunks ob)) = so_size (ol_info ob)) ?due"
    using whole(1) by (auto simp: list_all_iff objects_due_def)
  obtain s' where serve: "serve_subgroup env header sl (Inr calls) flt order s = (Done (Inr ()), s', Some (order, wr_bytes w @ bs))"
    using serve_subgroup_completes [OF hd(1) img [unfolded objects_due_def] due [unfolded objects_due_def] _ whole(2) st acc] whole(1) by (auto simp: list_all_iff)
  obtain rd1 where dec: "reader_decode stream_header_decode rd = (Inr \<lparr>sh_header_type = sg_header_type header,
      sh_subgroup_header = Some header, sh_fetch_header = None\<rparr>, rd1)" "clean rd1" "solid rd1" "pending rd1 = bs"
    using stream_header_reads [OF hd(2) disjI1 [OF hd(3)] hd(1) rd] .
  obtain k where k: "cell = Some k" "g = (Some 0, watched_new subgroup_state_default)" "k < length (mi_subgroups (sb_store sb1))"
    using opened_writer_fresh [OF opened] .
  obtain rd2 st2 where objs: "recv_subgroup_objects (recv_subgroup_writer og) env' (sg_header_type header) rd1 (ingress_new header (sb, None)) = (Inr (), rd2, st2)"
      "received st2 = map (\<lambda>ob. (so_object_id (ol_info ob), sort_key kvp_key (so_extension_headers (ol_info ob)), Ready (Inr (concat (ol_chunks ob))))) ?due"
    using first_object_opens [where get_writer = "recv_subgroup_writer og" and header = header and world = "(sb, None)", OF hd(4) nf(1) env' opened [unfolded k(2)] sent due sizes dec(2,3,4)] by blast
  obtain n s2 where wr: "in_writer st2 = Some (n, s2)" using objs(2) due by (auto simp: received_def split: option.splits)
  have world: "in_world st2 = (sb1, Some k)" using first_object_world [OF objs(1) nf(1)] wr opened k(1) by simp
  let ?sb2 = "sb1\<lparr>sb_store := (sb_store sb1)\<lparr>mi_subgroups := (mi_subgroups (sb_store sb1))[k := (n, snd (drop_half s2))]\<rparr>\<rparr>"
  have "recv_stream env' later rd (c, sb) = (Inr (), in_objects st2, c, ?sb2)"
    using dec(1) hd(2) nf(2) known objs(1) world wr
    by (simp add: recv_stream_def recv_stream_inner_def get_track_origin_by_alias_def ingress_new_def settle_subgroup_def)
  then show ?thesis using serve objs(2) wr k by (auto simp: received_def drop_half_def notify_def)
qed

definition sample_header :: subgroup_header where
  "sample_header = \<lparr>sg_header_type = SubgroupIdExt, sg_track_alias = 7, sg_group_id = 1, sg_subgroup_id = Some 0, sg_publisher_priority = 5\<rparr>"

definition sample_object :: "u64 \<Rightarrow> bytes list \<Rightarrow> object_log" where
  "sample_object oid chunks =
     \<lparr>ol_info = \<lparr>so_object_id = oid, so_size = length (concat chunks), so_status = NormalObject, so_extension_headers = []\<rparr>,
      ol_chunks = chunks, ol_end = None\<rparr>"

definition sample_subgroup :: subgroup_log where
  "sample_subgroup = \<lparr>sl_info = \<lparr>sgi_group_id = 1, sgi_subgroup_id = 0, sgi_priority = 5\<rparr>,
     sl_objects = [sample_object 0 [[9]], sample_object 2 [[1, 2], [3]], sample_object 5 [[4]]], sl_end = None\<rparr>"

definition sample_filter :: delivery_filter where
  "sample_filter = \<lparr>df_forward = True, df_start_location = Some (Location_new 1 1), df_end_group_id = None\<rparr>"

lemma sample_due: "objects_due sample_filter sample_subgroup = [sample_object 2 [[1, 2], [3]], sample_object 5 [[4]]]"
  by (simp add: objects_due_def sample_filter_def sample_subgroup_def sample_object_def df_allows_def location_less_def Location_new_def)

lemma sample_delta: "object_id_delta (Some 2) 5 = Inr 2"
  by code_simp

lemma sample_encodes: "\<not> isl (subgroup_header_encode sample_header fresh_vec)" "subgroup_image None [sample_object 2 [[1, 2], [3]], sample_object 5 [[4]]] \<noteq> None"
  by (simp_all add: sample_header_def sample_object_def subgroup_header_encode_def stream_header_type_encode_def opt_encode_def has_subgroup_id_def
      sample_delta object_id_delta_def [of None] forwarded_object_def subgroup_object_ext_encode_def extension_headers_encode_def extension_headers_tmp_def data_eval)

lemma offered_receives: "\<not> isl (fst (recv_subgroup_writer (OriginPublish 2) sample_header (se_sub offered, None)))"
  by (simp add: offered_def control_simps slide.simps recv_publish_def no_params decode_err_def contains_name_def name_registry_new_def
     alias_registry_new_def alias_insert_def alias_get_def track_produce_def with_store_def mirror_store_new_def recv_subgroup_writer_def
     mirror_subgroup_def mirror_create_def track_subgroups_def drop_track_writer_def put_track_def drop_half_def track_state_default_def
     subgroups_writer_new_def subgroups_create_def subgroups_state_default_def is_duplicate_def sample_header_def put_serve_def)

text \<open>Bytes that arrive one by one.\<close>

definition trickle :: "bytes \<Rightarrow> unit reader" where
  "trickle bs = \<lparr>rd_buffer = [], rd_stream = map (\<lambda>b. Inr [b]) bs\<rparr>"

lemma trickle_reads: "clean (trickle bs)" "solid (trickle bs)" "pending (trickle bs) = bs"
  by (induction bs) (auto simp: trickle_def clean_def solid_def pending_def)

theorem subgroup_delivered_end_to_end_witness:
  "\<exists>calls wire objs sb2 k s'. serve_subgroup (\<lambda>_ s. s) sample_header sample_subgroup (Inr (calls :: (unit + nat) list list)) sample_filter 0
       (watched_new object_forwarder_state_default) = (Done (Inr ()), s', Some (0, wire)) \<and>
     recv_stream (\<lambda>_ s. s) [] (trickle wire) (se_core offered, se_sub offered) = (Inr (), objs, se_core offered, sb2) \<and>
     map (\<lambda>h. (so_object_id (oh_info h), object_read_all (objs ! oh_cell h) 0 []))
      (gs_objects (w_value (snd (mi_subgroups (sb_store sb2) ! k)))) = [(2, Ready (Inr [1, 2, 3])), (5, Ready (Inr [4]))]"
proof -
  obtain w where w: "subgroup_header_encode sample_header fresh_vec = Inr w" using sample_encodes(1) by (cases "subgroup_header_encode sample_header fresh_vec") auto
  obtain bs where bs: "subgroup_image None (objects_due sample_filter sample_subgroup) = Some bs" using sample_encodes(2) sample_due by auto
  obtain g sb1 cell where opened: "recv_subgroup_writer (OriginPublish 2) sample_header (se_sub offered, None) = (Inr g, sb1, cell)"
    using offered_receives by (metis eq_fst_iff old.sum.exhaust sum.disc(1))
  let ?m = "length (wr_bytes w @ bs)"
  let ?calls = "replicate 20 (replicate ?m (Inr 1)) :: (unit + nat) list list"
  have "accepting ?m (replicate ?m (Inr 1) :: (unit + nat) list)" by (simp add: accepting_def list_all_iff)
  then have acc: "list_all (accepting ?m) ?calls" by (simp add: list_all_iff)
  have due: "objects_due sample_filter sample_subgroup \<noteq> []" by (simp add: sample_due)
  have al: "alias_get (sb_aliases (se_sub offered)) (sg_track_alias sample_header) = Some (OriginPublish 2)"
    using offered_alias by (simp add: sample_header_def)
  have "\<exists>s' objs sb2 k. serve_subgroup (\<lambda>_ s. s) sample_header sample_subgroup (Inr ?calls) sample_filter 0
       (watched_new object_forwarder_state_default) = (Done (Inr ()), s', Some (0, wr_bytes w @ bs)) \<and>
    recv_stream (\<lambda>_ s. s) [] (trickle (wr_bytes w @ bs)) (se_core offered, se_sub offered) = (Inr (), objs, se_core offered, sb2) \<and> cell = Some k \<and>
    map (\<lambda>h. (so_object_id (oh_info h), so_extension_headers (oh_info h), object_read_all (objs ! oh_cell h) 0 []))
      (gs_objects (w_value (snd (mi_subgroups (sb_store sb2) ! k)))) =
    map (\<lambda>ob. (so_object_id (ol_info ob), sort_key kvp_key (so_extension_headers (ol_info ob)), Ready (Inr (concat (ol_chunks ob)))))
      (objects_due sample_filter sample_subgroup)"
    by (rule subgroup_delivered_end_to_end [OF w _ _ _ bs due _ _ _ _ acc _ _ trickle_reads _ al opened])
      (simp_all add: sample_header_def is_subgroup_def has_subgroup_id_def has_extension_headers_def sample_subgroup_def sample_object_def
        watched_new_def stays_open_def calls_needed_def readers_only_def)
  then obtain s' objs sb2 k where r: "serve_subgroup (\<lambda>_ s. s) sample_header sample_subgroup (Inr ?calls) sample_filter 0
       (watched_new object_forwarder_state_default) = (Done (Inr ()), s', Some (0, wr_bytes w @ bs))"
      "recv_stream (\<lambda>_ s. s) [] (trickle (wr_bytes w @ bs)) (se_core offered, se_sub offered) = (Inr (), objs, se_core offered, sb2)"
      "map (\<lambda>h. (so_object_id (oh_info h), so_extension_headers (oh_info h), object_read_all (objs ! oh_cell h) 0 []))
        (gs_objects (w_value (snd (mi_subgroups (sb_store sb2) ! k)))) =
       map (\<lambda>ob. (so_object_id (ol_info ob), sort_key kvp_key (so_extension_headers (ol_info ob)), Ready (Inr (concat (ol_chunks ob)))))
         (objects_due sample_filter sample_subgroup)" by blast
  from arg_cong [OF r(3), of "map (\<lambda>(i, _, p). (i, p))"]
  have got: "map (\<lambda>h. (so_object_id (oh_info h), object_read_all (objs ! oh_cell h) 0 [])) (gs_objects (w_value (snd (mi_subgroups (sb_store sb2) ! k)))) =
      [(2, Ready (Inr [1, 2, 3])), (5, Ready (Inr [4]))]"
    by (simp add: sample_due sample_object_def o_def)
  show ?thesis by (intro exI conjI) (rule r(1), rule r(2), rule got)
qed

text \<open>What the filters of draft 16 ask for, on the location of an object.\<close>

definition after_start :: "subscription_filter \<Rightarrow> location option \<Rightarrow> location \<Rightarrow> bool" where
  "after_start flt largest loc =
     (case sf_filter_type flt of
        LargestObject \<Rightarrow> (case largest of None \<Rightarrow> True | Some l \<Rightarrow> location_less l loc)
      | NextGroupStart \<Rightarrow> (case largest of None \<Rightarrow> True | Some l \<Rightarrow> group_id l < group_id loc)
      | _ \<Rightarrow> (case sf_start_location flt of None \<Rightarrow> True | Some start \<Rightarrow> \<not> location_less loc start))"

text \<open>
  C15. A subscription is sent exactly the objects its filter asks for: none while forwarding is off;
  those after the largest object, of a group after the largest one, or from an absolute start on; and up to the
  end group if there is one. The starting point the code computes once, with carries from the object
  to the group id, is equivalent to that comparison for every object, short of the last group id of all.
\<close>

theorem filter_allows_what_was_asked:
  assumes "case largest of None \<Rightarrow> True | Some l \<Rightarrow> group_id l \<noteq> -1"
  shows "df_allows (si_delivery_filter info largest) g ob \<longleftrightarrow>
    si_forward info \<and>
    (case si_filter info of
       None \<Rightarrow> True
     | Some flt \<Rightarrow> after_start flt largest (Location_new g ob) \<and> (case sf_end_group_id flt of None \<Rightarrow> True | Some e \<Rightarrow> g \<le> e))"
proof -
  have zero: "\<not> location_less loc (Location_new 0 0)" for loc by (simp add: location_less_def Location_new_def)
  have obj: "location_less (Location_new g ob) (next_object_location (Some l)) \<longleftrightarrow> \<not> location_less l (Location_new g ob)" if "group_id l \<noteq> -1" for l
  proof -
    have "l \<noteq> Location_new (-1) (-1)" using that by (auto simp: Location_new_def)
    then show ?thesis using next_object_location_least [of l g ob] location_not_le by blast
  qed
  have grp: "location_less (Location_new g ob) (next_group_location (Some l)) \<longleftrightarrow> \<not> group_id l < g" if "group_id l \<noteq> -1" for l
    using next_group_location_least [of l g ob] that location_not_le [of "next_group_location (Some l)" "Location_new g ob"] by auto
  have none: "next_object_location None = Location_new 0 0" "next_group_location None = Location_new 0 0"
    by (simp_all add: next_object_location_def next_group_location_def)
  have gid: "group_id (Location_new g ob) = g" by (simp add: Location_new_def)
  show ?thesis
    using assms zero obj grp
    by (cases largest) (auto simp: df_allows_def si_delivery_filter_def after_start_def none gid not_less Let_def split: option.splits filter_type.splits)
qed

theorem filter_allows_what_was_asked_witness:
  "df_allows (si_delivery_filter \<lparr>si_id = 0, si_track_namespace = [[1]], si_track_name = [2], si_subscriber_priority = 128, si_group_order = Ascending,
       si_forward = True, si_filter_type = LargestObject, si_start_location = None, si_end_group_id = None,
       si_filter = Some \<lparr>sf_filter_type = LargestObject, sf_start_location = None, sf_end_group_id = Some 9\<rparr>, si_params = [], si_track_status = False\<rparr>
     (Some (Location_new 4 7))) 4 8"
  by (subst filter_allows_what_was_asked) (simp_all add: after_start_def location_less_def Location_new_def)

text \<open>A transport that takes the datagrams it is given and readers that stay: the loop runs to its end.\<close>

definition turn_sends :: "u64 \<Rightarrow> delivery_filter \<Rightarrow> 'e datagram_turn \<Rightarrow> bool" where
  "turn_sends track_alias flt t \<longleftrightarrow>
     dt_send t = None \<and> (\<forall>s. w_open s \<longrightarrow> w_open (dt_env t s)) \<and>
     (turn_due flt t \<longrightarrow> \<not> isl (datagram_encode (forwarded_datagram track_alias (dt_datagram t)) fresh_vec))"

lemma serve_datagram_turn_completes:
  assumes "turn_sends track_alias flt t" and "w_open s"
  shows "\<exists>c' s' wire'. serve_datagram_turn track_alias flt t (c, s, wire) = (Inr (), c', s', wire') \<and> w_open s'"
proof (cases "turn_due flt t")
  case False
  then show ?thesis using assms by (simp add: serve_datagram_turn_def turn_due_def Let_def)
next
  case True
  then obtain w where "datagram_encode (forwarded_datagram track_alias (dt_datagram t)) fresh_vec = Inr w"
    using assms(1) by (cases "datagram_encode (forwarded_datagram track_alias (dt_datagram t)) fresh_vec") (auto simp: turn_sends_def)
  then show ?thesis using assms True by (auto simp: serve_datagram_turn_def turn_due_def turn_sends_def with_mut_def notify_def Let_def)
qed

lemma serve_datagrams_completes:
  "list_all (turn_sends track_alias flt) ts \<Longrightarrow> w_open s \<Longrightarrow>
   \<exists>c' s' wire'. serve_datagrams track_alias flt ts dropped None (c, s, wire) = (Inr (), c', s', wire')"
proof (induction ts arbitrary: c s wire)
  case (Cons t ts)
  then obtain c1 s1 wire1 where "serve_datagram_turn track_alias flt t (c, s, wire) = (Inr (), c1, s1, wire1)" "w_open s1"
    using serve_datagram_turn_completes [of track_alias flt t s c wire] by auto
  then show ?case using Cons.IH [of s1 c1 wire1] Cons.prems by auto
qed (simp add: Let_def)

text \<open>
  C16. Datagrams are forwarded and lost ones accounted for. On a transport that takes them, \<^verbatim>\<open>serve_datagrams\<close>
  returns having sent, in order, exactly the datagrams the filter allows that fit the transport's
  limit of their moment; each decodes, on the other side, to the alias of the subscription and to the
  datagram the track had, extension headers in key order. The count of datagrams that were too large is
  exact, and the two loss metrics end up as that count and as what the reader had skipped in all.
\<close>

theorem datagrams_forwarded_and_accounted:
  assumes "list_all (turn_sends track_alias flt) ts" and "w_open s" and "sorted (map dt_dropped ts @ [dropped])"
  shows "\<exists>c s' sent. serve_datagrams track_alias flt ts dropped None (loss_counters_new, s, []) = (Inr (), c, s', sent) \<and>
    lc_sent c = length sent \<and> lc_too_large c = length (filter (\<lambda>t. turn_due flt t \<and> \<not> turn_fits track_alias t) ts) \<and>
    lc_metric_ring c = dropped \<and> lc_metric_mtu c = lc_too_large c \<and>
    list_all2 (\<lambda>bs t. \<exists>dg. datagram_decode bs = Inr (dg, []) \<and> dg_track_alias dg = track_alias \<and>
        mirrored_datagram dg = (dt_datagram t)\<lparr>sd_extension_headers := sort_key kvp_key (sd_extension_headers (dt_datagram t))\<rparr>)
      sent (filter (\<lambda>t. turn_due flt t \<and> turn_fits track_alias t) ts)"
proof -
  obtain c s' wire where run: "serve_datagrams track_alias flt ts dropped None (loss_counters_new, s, []) = (Inr (), c, s', wire)"
    using serve_datagrams_completes [OF assms(1,2)] by blast
  have "counters_ok loss_counters_new" "sorted (lc_dropped loss_counters_new # map dt_dropped ts @ [dropped])"
    using assms(3) by (simp_all add: counters_ok_def loss_counters_new_def)
  from serve_datagrams_accounts [OF run this] show ?thesis
    using run by (auto simp: loss_counters_new_def dest: list_all2_lengthD)
qed

definition sample_turn :: "nat \<Rightarrow> u64 \<Rightarrow> nat \<Rightarrow> unit datagram_turn" where
  "sample_turn skipped oid limit = \<lparr>dt_datagram = \<lparr>sd_group_id = 1, sd_object_id = oid, sd_priority = 3, sd_payload = [1, 2], sd_extension_headers = []\<rparr>,
     dt_dropped = skipped, dt_max_size = limit, dt_send = None, dt_env = \<lambda>s. s\<rparr>"

theorem datagrams_forwarded_and_accounted_witness:
  "\<exists>c s' sent. serve_datagrams 7 sample_filter [sample_turn 0 0 100, sample_turn 0 1 100, sample_turn 2 4 3] 2 None
       (loss_counters_new, watched_new object_forwarder_state_default, []) = (Inr (), c, s', sent) \<and>
     lc_metric_ring c = 2 \<and> length sent = lc_sent c"
proof -
  have enc: "\<not> isl (datagram_encode (forwarded_datagram 7 (dt_datagram (sample_turn n oid l))) fresh_vec)" if "oid \<in> {1, 4}" for n oid l
    using that by (auto simp: sample_turn_def forwarded_datagram_def datagram_encode_def datagram_type_encode_def opt_encode_def
        dg_has_object_id_def dg_has_extension_headers_def dg_has_status_def dg_has_payload_def data_eval)
  have "list_all (turn_sends 7 sample_filter) [sample_turn 0 0 100, sample_turn 0 1 100, sample_turn 2 4 3]"
    using enc by (simp add: turn_sends_def turn_due_def sample_turn_def sample_filter_def df_allows_def location_less_def Location_new_def)
  from datagrams_forwarded_and_accounted [OF this, of "watched_new object_forwarder_state_default" 2]
  show ?thesis by (auto simp: sample_turn_def watched_new_def)
qed

section \<open>The connection path\<close>

lemma trim_slashes_prefix: "\<exists>cut. raw = trim_slashes raw @ cut \<and> set cut \<subseteq> {slash}"
proof (intro exI conjI)
  have "raw = rev (rev raw)" by simp
  also have "\<dots> = rev (dropWhile (\<lambda>b. b = slash) (rev raw)) @ rev (takeWhile (\<lambda>b. b = slash) (rev raw))"
    by (metis rev_append takeWhile_dropWhile_id)
  finally show "raw = trim_slashes raw @ rev (takeWhile (\<lambda>b. b = slash) (rev raw))" by (simp add: trim_slashes_def)
  show "set (rev (takeWhile (\<lambda>b. b = slash) (rev raw))) \<subseteq> {slash}" by (auto dest: set_takeWhileD)
qed

lemma trim_slashes_last: "trim_slashes raw \<noteq> [] \<Longrightarrow> last (trim_slashes raw) \<noteq> slash"
  unfolding trim_slashes_def using hd_dropWhile [of "\<lambda>b. b = slash" "rev raw"] by (simp add: last_rev)

lemma trim_slashes_fixed: "xs \<noteq> [] \<Longrightarrow> last xs \<noteq> slash \<Longrightarrow> trim_slashes xs = xs"
  by (cases "rev xs") (auto simp: trim_slashes_def last_rev)

text \<open>
  C25. The connection path of a session is canonical: what \<^verbatim>\<open>normalize_connection_path\<close> accepts is a prefix of its
  input with only slashes cut off, starts with a slash and does not end with one, is at most 1024 bytes long,
  has no empty segment, dot segment or percent sign, and is accepted again unchanged.
\<close>

theorem connection_path_is_canonical:
  assumes "normalize_connection_path raw = Inr (Some p)"
  shows "(\<exists>cut. raw = p @ cut \<and> set cut \<subseteq> {0x2f}) \<and> p \<noteq> [] \<and> hd p = 0x2f \<and> last p \<noteq> 0x2f \<and> length p \<le> 1024 \<and>
    list_all (\<lambda>seg. \<not> bad_segment seg) (tl (split_slash p)) \<and> (normalize_connection_path p :: 'e session_error + _) = Inr (Some p)"
proof -
  have p: "p = trim_slashes raw" "p \<noteq> []" "length raw \<le> 1024" "hd raw = slash" "\<not> list_ex bad_segment (tl (split_slash p))"
    using assms by (auto simp: normalize_connection_path_def Let_def MAX_CONNECTION_PATH_LEN_def split: if_splits)
  obtain cut where cut: "raw = p @ cut" "set cut \<subseteq> {slash}" using trim_slashes_prefix [of raw] p(1) by auto
  have hd: "hd p = slash" using p(2,4) cut(1) by simp
  have last: "last p \<noteq> slash" using trim_slashes_last [of raw] p(1,2) by simp
  have len: "length p \<le> 1024" using p(3) cut(1) by simp
  have "(normalize_connection_path p :: 'e session_error + _) = Inr (Some p)"
    using p(2,5) hd last len trim_slashes_fixed [of p] by (auto simp: normalize_connection_path_def Let_def MAX_CONNECTION_PATH_LEN_def)
  then show ?thesis using cut p(2,5) hd last len by (auto simp: list_all_iff list_ex_iff)
qed

theorem connection_path_is_canonical_witness:
  "(normalize_connection_path [0x2f, 0x61, 0x2f, 0x62, 0x2f] :: unit session_error + _) = Inr (Some [0x2f, 0x61, 0x2f, 0x62]) \<and>
   (normalize_connection_path [0x2f, 0x61, 0x2f, 0x62] :: unit session_error + _) = Inr (Some [0x2f, 0x61, 0x2f, 0x62])"
proof -
  have "(normalize_connection_path [0x2f, 0x61, 0x2f, 0x62, 0x2f] :: unit session_error + _) = Inr (Some [0x2f, 0x61, 0x2f, 0x62])"
    by code_simp
  from connection_path_is_canonical [OF this, where 'e = unit] this show ?thesis by blast
qed

section \<open>A rejected announcement\<close>

text \<open>
  C37. A namespace that was rejected cannot be announced again. Dropping an announcement that was
  never accepted sends REQUEST_ERROR but leaves the namespace registered, so the next PUBLISH_NAMESPACE of
  the same namespace, under any new request id, is refused with a duplicate error, which ends the session;
  had the announcement been accepted, dropping it would have cleared the way.
\<close>

theorem rejected_namespace_cannot_be_announced_again:
  assumes "map_of (sb_published_namespaces sb) ns = Some (pnh_request_id h)" and "distinct (map snd (sb_published_namespaces sb))"
    and "pnh_request_id h \<notin> sb_pn_done sb"
  shows "fst (recv_publish_namespace show_err \<lparr>pns_id = j, pns_track_namespace = ns, pns_params = ps\<rparr>
      (published_namespace_dropped show_err h (c, sb))) = Inl SeDuplicate \<longleftrightarrow> \<not> pnh_ok h"
proof (cases "pnh_ok h")
  case False
  then show ?thesis using assms by (simp add: published_namespace_dropped_def published_namespace_drop_def send_opt_def sub_send_message_def
      recv_publish_namespace_def Let_def)
next
  case True
  let ?i = "pnh_request_id h" and ?pn = "sb_published_namespaces sb"
  have mem: "(ns, ?i) \<in> set ?pn" using assms(1) by (rule map_of_SomeD)
  obtain key where f: "find (\<lambda>(_, v). v = ?i) ?pn = Some (key, ?i)"
    using mem by (cases "find (\<lambda>(_, v). v = ?i) ?pn") (auto simp: find_None_iff find_Some_iff)
  then have "(key, ?i) \<in> set ?pn" by (metis find_Some_iff nth_mem)
  then have "key = ns" using mem assms(2) inj_onD [of snd "set ?pn" "(key, ?i)" "(ns, ?i)"] by (simp add: distinct_map)
  moreover have "map_of (filter (\<lambda>(k, _). k \<noteq> ns) ?pn) ns = None" by (auto simp: map_of_eq_None_iff)
  ultimately show ?thesis using True f assms(3)
    by (simp add: published_namespace_dropped_def published_namespace_drop_def send_opt_def sub_send_message_def drop_publish_namespace_def
        recv_publish_namespace_def Let_def split: prod.splits sum.splits)
qed

theorem rejected_namespace_cannot_be_announced_again_witness:
  "fst (recv_publish_namespace (\<lambda>_. []) \<lparr>pns_id = 4, pns_track_namespace = [[1]], pns_params = []\<rparr>
     (published_namespace_dropped (\<lambda>_. []) (published_namespace_new 2 [[1]]) (se_core announced, se_sub announced))) =
   (Inl SeDuplicate :: unit session_error + unit)"
proof -
  have pn: "sb_published_namespaces (se_sub announced) = [([[1]], 2)]" "sb_pn_done (se_sub announced) = {}"
    by (simp_all add: announced_def control_simps slide.simps recv_publish_namespace_def)
  show ?thesis by (subst rejected_namespace_cannot_be_announced_again) (simp_all add: pn published_namespace_new_def)
qed

end
