(* ===== verification/Fetch_Response.thy ===== *)
theory Fetch_Response
  imports Publisher_Role Retention
begin

text \<open>
  The body of a FETCH response (\<^verbatim>\<open>FetchStreamWriter\<close> and the serving part of \<^verbatim>\<open>FetchRequested\<close> in
  \<^verbatim>\<open>moq-transport/src/session/fetch_requested.rs\<close>): objects from the publisher's own storage, the entries of
  an upstream response appended byte by byte, and how the stream and the request end.
\<close>

section \<open>The stream writer\<close>

definition COPY_CHUNK_SIZE :: nat where
  "COPY_CHUNK_SIZE = 64 * 1024"

text \<open>
  \<open>fw_reset\<close> is the shared \<^verbatim>\<open>FetchReset\<close>; \<open>fw_orders\<close> lists the priorities the stream was given, each with the
  number of bytes on the wire from which it took effect; \<open>fw_end\<close> is how the stream ended: finished,
  or reset with a code.
\<close>

record 'e fetch_writer =
  fw_out :: "'e sg_output"
  fw_request_id :: u64
  fw_header_written :: bool
  fw_subscriber_priority :: u8
  fw_send_order :: "int option"
  fw_orders :: "(nat \<times> int) list"
  fw_encoder :: "prior_object option"
  fw_reset :: u32
  fw_end :: "u32 option option"

definition fetch_writer_new :: "'e sg_output \<Rightarrow> u64 \<Rightarrow> u8 \<Rightarrow> 'e fetch_writer" where
  "fetch_writer_new out i prio =
     \<lparr>fw_out = out, fw_request_id = i, fw_header_written = False, fw_subscriber_priority = prio, fw_send_order = None,
      fw_orders = [], fw_encoder = None, fw_reset = data_stream_reset_code_value RstInternalError, fw_end = None\<rparr>"

type_synonym 'e fw_result = "('e session_error + unit) progress \<times> 'e fetch_writer"

text \<open>\<^verbatim>\<open>?\<close> after an \<^verbatim>\<open>await\<close>: go on only when the step has returned without error.\<close>

definition and_then :: "'e fw_result \<Rightarrow> ('e fetch_writer \<Rightarrow> 'e fw_result) \<Rightarrow> 'e fw_result" where
  "and_then r k = (case r of (Done (Inr _), fw) \<Rightarrow> k fw | _ \<Rightarrow> r)"

definition fw_write :: "bytes \<Rightarrow> 'e fetch_writer \<Rightarrow> 'e fw_result" where
  "fw_write bs fw = (case output_write bs (fw_out fw) of (res, out) \<Rightarrow> (res, fw\<lparr>fw_out := out\<rparr>))"

definition prioritize :: "u8 \<Rightarrow> 'e fetch_writer \<Rightarrow> 'e fetch_writer" where
  "prioritize publisher_priority fw =
     (let order = send_order (fw_subscriber_priority fw) publisher_priority in
      if fw_send_order fw \<noteq> Some order
      then fw\<lparr>fw_orders := fw_orders fw @ [(length (ou_wire (fw_out fw)), order)], fw_send_order := Some order\<rparr>
      else fw)"

definition write_header :: "'e fetch_writer \<Rightarrow> 'e fw_result" where
  "write_header fw =
     (if fw_header_written fw then (Done (Inr ()), fw)
      else
        case fetch_header_encode \<lparr>fh_header_type = FetchHeaderType, fh_request_id = fw_request_id fw\<rparr> fresh_vec of
          Inl e \<Rightarrow> (Done (Inl (SeEncode e)), fw)
        | Inr w \<Rightarrow> and_then (fw_write (wr_bytes w) fw) (\<lambda>fw. (Done (Inr ()), fw\<lparr>fw_header_written := True\<rparr>)))"

fun write_chunks :: "bytes list \<Rightarrow> 'e fetch_writer \<Rightarrow> 'e fw_result" where
  "write_chunks [] fw = (Done (Inr ()), fw)"
| "write_chunks (c # cs) fw = and_then (fw_write c fw) (write_chunks cs)"

definition write_object :: "fetch_response_object \<Rightarrow> 'e fetch_writer \<Rightarrow> 'e fw_result" where
  "write_object ob fw =
     (if sum_list (map length (fro_payload ob)) \<noteq> fo_payload_length (fro_object ob) then (Done (Inl (SeServe SSize)), fw)
      else
        and_then (write_header (prioritize (fo_publisher_priority (fro_object ob)) fw)) (\<lambda>fw.
        case encode_object (fw_encoder fw) (fro_object ob) fresh_vec of
          Inl e \<Rightarrow> (Done (Inl (SeEncode e)), fw)
        | Inr (prior, w) \<Rightarrow>
            and_then (fw_write (wr_bytes w) (fw\<lparr>fw_encoder := prior\<rparr>)) (write_chunks (fro_payload ob))))"

definition write_end_of_range :: "fetch_end_of_range \<Rightarrow> location \<Rightarrow> 'e fetch_writer \<Rightarrow> 'e fw_result" where
  "write_end_of_range kind loc fw =
     and_then (write_header fw) (\<lambda>fw.
     case encode_end_of_range kind loc fresh_vec of
       Inl e \<Rightarrow> (Done (Inl (SeEncode e)), fw)
     | Inr (prior, w) \<Rightarrow> fw_write (wr_bytes w) (fw\<lparr>fw_encoder := prior\<rparr>))"

text \<open>\<^verbatim>\<open>finish\<close>, with what the transport's own \<^verbatim>\<open>finish\<close> gives.\<close>

definition fw_finish :: "'e option \<Rightarrow> 'e fetch_writer \<Rightarrow> 'e fw_result" where
  "fw_finish fin fw =
     and_then (write_header fw) (\<lambda>fw.
     case fin of
       Some e \<Rightarrow> (Done (Inl (SeWebTransport e)), fw)
     | None \<Rightarrow> (Done (Inr ()), fw\<lparr>fw_end := Some None\<rparr>))"

definition fw_drop :: "'e fetch_writer \<Rightarrow> 'e fetch_writer" where
  "fw_drop fw = (if fw_end fw = Some None then fw else fw\<lparr>fw_end := Some (Some (fw_reset fw))\<rparr>)"

definition set_reset :: "data_stream_reset_code \<Rightarrow> 'e fetch_writer \<Rightarrow> 'e fetch_writer" where
  "set_reset code fw = fw\<lparr>fw_reset := data_stream_reset_code_value code\<rparr>"

section \<open>Appending an upstream response\<close>

text \<open>The variables of \<^verbatim>\<open>copy_from\<close>: the decoder, the start of a header that straddles chunks, the payload to come.\<close>

record copy_state =
  cp_decoder :: "prior_object option"
  cp_partial :: bytes
  cp_remaining :: nat

definition copy_state_new :: copy_state where
  "copy_state_new = \<lparr>cp_decoder = None, cp_partial = [], cp_remaining = 0\<rparr>"

lemma decode_contiguous_Nil: "decode_contiguous prior [] = Inl (More 1)"
  by code_simp

lemma fetch_decoder_consumes:
  assumes "fetch_decoder_decode prior buf = (Inr (entry, consumed), prior')"
  shows "0 < consumed \<and> consumed \<le> length buf"
proof -
  obtain rest where d: "decode_contiguous prior buf = Inr ((entry, prior'), rest)" "consumed = length buf - length rest"
    using assms by (auto simp: fetch_decoder_decode_def split: sum.splits prod.splits)
  obtain p where p: "buf = p @ rest" "streams (decode_contiguous prior) p (entry, prior')"
    using decoder_reads [OF decoder_contiguous d(1)] by blast
  then have "p \<noteq> []" using streams_all [OF p(2)] by (auto simp: decode_contiguous_Nil)
  then show ?thesis using p(1) d(2) by simp
qed

text \<open>The entry's priority and payload, once its header is decoded.\<close>

definition entry_begin :: "fetch_entry \<Rightarrow> 'e fetch_writer \<Rightarrow> 'e fetch_writer" where
  "entry_begin entry fw =
     (case entry of FetchEntryObject ob \<Rightarrow> prioritize (fo_publisher_priority ob) fw | EndOfRange _ _ \<Rightarrow> fw)"

definition entry_remaining :: "fetch_entry \<Rightarrow> copy_state \<Rightarrow> nat" where
  "entry_remaining entry cp = (case entry of FetchEntryObject ob \<Rightarrow> fo_payload_length ob | EndOfRange _ _ \<Rightarrow> cp_remaining cp)"

text \<open>The inner loop, on one chunk.\<close>

function copy_chunk :: "bytes \<Rightarrow> copy_state \<Rightarrow> 'e fetch_writer \<Rightarrow> ('e session_error + copy_state) progress \<times> 'e fetch_writer" where
  "copy_chunk chunk cp fw =
     (if chunk = [] then (Done (Inr cp), fw)
      else if cp_remaining cp > 0 then
        let k = min (cp_remaining cp) (length chunk) in
        case fw_write (take k chunk) fw of
          (Done (Inr _), fw) \<Rightarrow> copy_chunk (drop k chunk) (cp\<lparr>cp_remaining := cp_remaining cp - k\<rparr>) fw
        | (Done (Inl e), fw) \<Rightarrow> (Done (Inl e), fw)
        | (Waiting, fw) \<Rightarrow> (Waiting, fw)
      else
        case fetch_decoder_decode (cp_decoder cp) (if cp_partial cp = [] then chunk else cp_partial cp) of
          (Inr (entry, consumed), prior) \<Rightarrow>
            let remaining = entry_remaining entry cp in
            if cp_partial cp = [] then
              (case and_then (write_header (entry_begin entry fw)) (fw_write (take consumed chunk)) of
                 (Done (Inr _), fw) \<Rightarrow>
                   copy_chunk (drop consumed chunk) (cp\<lparr>cp_decoder := prior, cp_remaining := remaining\<rparr>) fw
               | (Done (Inl e), fw) \<Rightarrow> (Done (Inl e), fw)
               | (Waiting, fw) \<Rightarrow> (Waiting, fw))
            else
              let leftover = drop consumed (cp_partial cp) in
              (case and_then (write_header (entry_begin entry fw)) (fw_write (take consumed (cp_partial cp))) of
                 (Done (Inr _), fw) \<Rightarrow>
                   (if remaining < length leftover then (Done (Inl (SeServe SSize)), fw)
                    else
                      case fw_write leftover fw of
                        (Done (Inr _), fw) \<Rightarrow>
                          copy_chunk chunk \<lparr>cp_decoder = prior, cp_partial = [], cp_remaining = remaining - length leftover\<rparr> fw
                      | (Done (Inl e), fw) \<Rightarrow> (Done (Inl e), fw)
                      | (Waiting, fw) \<Rightarrow> (Waiting, fw))
               | (Done (Inl e), fw) \<Rightarrow> (Done (Inl e), fw)
               | (Waiting, fw) \<Rightarrow> (Waiting, fw))
        | (Inl (More needed), _) \<Rightarrow>
            if cp_partial cp = [] then copy_chunk [] (cp\<lparr>cp_partial := chunk\<rparr>) fw
            else
              let k = min (max needed 1) (length chunk) in
              copy_chunk (drop k chunk) (cp\<lparr>cp_partial := cp_partial cp @ take k chunk\<rparr>) fw
        | (Inl e, _) \<Rightarrow> (Done (Inl (SeDecode e)), set_reset RstMalformedTrack fw))"
  by pat_completeness auto
termination
  by (relation "measure (\<lambda>(chunk, cp, _). 2 * length chunk + (if cp_partial cp = [] then 0 else 1))")
    (auto simp: Suc_double_not_eq_double neq_Nil_conv dest!: fetch_decoder_consumes [OF sym])

declare copy_chunk.simps [simp del]

text \<open>
  \<^verbatim>\<open>read_stream_chunk\<close> on the upstream handle whose stream has been handed over: the upstream request may
  be closed meanwhile (\<^verbatim>\<open>closed\<close>). \<^verbatim>\<open>reset_of\<close> tells whether a transport error is the peer's reset and with which code.
\<close>

definition read_stream_chunk :: "serve_error option \<Rightarrow> nat \<Rightarrow> 'e reader \<Rightarrow> ('e session_error + bytes option) \<times> 'e reader" where
  "read_stream_chunk closed n rd = (case closed of Some e \<Rightarrow> (Inl (SeServe e), rd) | None \<Rightarrow> read_chunk n rd)"

definition upstream_reset_code :: "('e \<Rightarrow> u32 option) \<Rightarrow> 'e session_error \<Rightarrow> u32 option" where
  "upstream_reset_code reset_of err = (case err of SeWebTransport e \<Rightarrow> reset_of e | _ \<Rightarrow> None)"

lemma read_chunk_less: "read_chunk n rd = (Inr (Some chunk), rd') \<Longrightarrow> 0 < n \<Longrightarrow> input_left rd' < input_left rd"
  by (auto simp: read_chunk_def input_left_def Let_def split: if_splits list.splits sum.splits)

function copy_loop ::
    "('e \<Rightarrow> u32 option) \<Rightarrow> (nat \<Rightarrow> serve_error option) \<Rightarrow> nat \<Rightarrow> 'e reader \<Rightarrow> copy_state \<Rightarrow> 'e fetch_writer \<Rightarrow>
     ('e session_error + copy_state) progress \<times> 'e fetch_writer" where
  "copy_loop reset_of closed n rd cp fw =
     (case read_stream_chunk (closed n) COPY_CHUNK_SIZE rd of
        (Inl e, _) \<Rightarrow>
          (Done (Inl e), (case upstream_reset_code reset_of e of Some code \<Rightarrow> fw\<lparr>fw_reset := code\<rparr> | None \<Rightarrow> fw))
      | (Inr None, _) \<Rightarrow> (Done (Inr cp), fw)
      | (Inr (Some chunk), rd) \<Rightarrow>
          (case copy_chunk chunk cp fw of
             (Done (Inr cp), fw) \<Rightarrow> copy_loop reset_of closed (Suc n) rd cp fw
           | (Done (Inl e), fw) \<Rightarrow> (Done (Inl e), fw)
           | (Waiting, fw) \<Rightarrow> (Waiting, fw)))"
  by pat_completeness auto
termination
  by (relation "measure (\<lambda>(_, _, _, rd, _). input_left rd)")
    (auto simp: read_stream_chunk_def COPY_CHUNK_SIZE_def dest!: read_chunk_less [OF sym] split: option.splits)

declare copy_loop.simps [simp del]

definition copy_from ::
    "('e \<Rightarrow> u32 option) \<Rightarrow> (nat \<Rightarrow> serve_error option) \<Rightarrow> 'e reader \<Rightarrow> 'e fetch_writer \<Rightarrow> 'e fw_result" where
  "copy_from reset_of closed rd fw =
     (case copy_loop reset_of closed 0 rd copy_state_new fw of
        (Done (Inr cp), fw) \<Rightarrow>
          if cp_remaining cp > 0 \<or> cp_partial cp \<noteq> [] then (Done (Inl (SeServe SSize)), set_reset RstMalformedTrack fw)
          else (Done (Inr ()), fw)
      | (Done (Inl e), fw) \<Rightarrow> (Done (Inl e), fw)
      | (Waiting, fw) \<Rightarrow> (Waiting, fw))"

section \<open>Serving a request\<close>

text \<open>
  How the response goes on. An upstream handle is what it will give: its stream, when its request is
  closed, its FETCH_OK and its REQUEST_ERROR.
\<close>

datatype 'e fetch_rest =
    RestComplete bool location
  | RestUpstream "'e reader" "nat \<Rightarrow> serve_error option" "(serve_error + fetch_ok) progress" "serve_error + request_error option"
  | RestUnknown location location

fun write_objects :: "fetch_response_object list \<Rightarrow> 'e fetch_writer \<Rightarrow> 'e fw_result" where
  "write_objects [] fw = (Done (Inr ()), fw)"
| "write_objects (ob # obs) fw = and_then (write_object ob fw) (write_objects obs)"

text \<open>
  \<^verbatim>\<open>write_local\<close> and \<^verbatim>\<open>serve_with_upstream_inner\<close> once the stream is open. \<^verbatim>\<open>ok\<close> is what waiting for the
  upstream's FETCH_OK gives.
\<close>

definition write_local :: "fetch_response_object list \<Rightarrow> location option \<Rightarrow> 'e option \<Rightarrow> 'e fetch_writer \<Rightarrow> 'e fw_result" where
  "write_local obs unknown_through fin fw =
     and_then (write_objects obs fw) (\<lambda>fw.
     and_then (case unknown_through of None \<Rightarrow> (Done (Inr ()), fw) | Some loc \<Rightarrow> write_end_of_range UnknownRange loc fw)
       (fw_finish fin))"

definition write_with_upstream ::
    "('e \<Rightarrow> u32 option) \<Rightarrow> (nat \<Rightarrow> serve_error option) \<Rightarrow> fetch_response_object list \<Rightarrow> 'e reader \<Rightarrow>
     (serve_error + fetch_ok) progress \<Rightarrow> 'e option \<Rightarrow> 'e fetch_writer \<Rightarrow> ('e session_error + fetch_ok) progress \<times> 'e fetch_writer" where
  "write_with_upstream reset_of closed obs rd ok fin fw =
     (case and_then (write_objects obs fw) (copy_from reset_of closed rd) of
        (Done (Inr _), fw) \<Rightarrow>
          (case ok of
             Waiting \<Rightarrow> (Waiting, fw)
           | Done (Inl e) \<Rightarrow> (Done (Inl (SeServe e)), fw)
           | Done (Inr response) \<Rightarrow>
               (case fw_finish fin fw of
                  (Done (Inr _), fw) \<Rightarrow> (Done (Inr (proxied_response response (fw_request_id fw))), fw)
                | (Done (Inl e), fw) \<Rightarrow> (Done (Inl e), fw)
                | (Waiting, fw) \<Rightarrow> (Waiting, fw)))
      | (Done (Inl e), fw) \<Rightarrow> (Done (Inl e), fw)
      | (Waiting, fw) \<Rightarrow> (Waiting, fw))"

text \<open>The answer goes out if it can be claimed, and the handle is dropped in any case.\<close>

definition answer_and_drop :: "message \<Rightarrow> u64 \<Rightarrow> pub_st \<Rightarrow> (serve_error + unit) \<times> pub_st" where
  "answer_and_drop m i st = (case fetch_requested_answer m i st of (res, st) \<Rightarrow> (res, fetch_requested_dropped i st))"

definition serve_error_result :: "serve_error + unit \<Rightarrow> 'e session_error \<Rightarrow> 'e session_error" where
  "serve_error_result r err = (case r of Inl e \<Rightarrow> SeServe e | Inr _ \<Rightarrow> err)"

text \<open>
  \<^verbatim>\<open>serve_local\<close>. \<^verbatim>\<open>opened\<close> is what opening the stream gives; \<^verbatim>\<open>closed\<close> is the error of the request if it is
  closed while the operation still waits. The result is none as long as nothing of this has happened;
  with it come the stream as it was left and the publisher.
\<close>

definition serve_local ::
    "fetch_requested \<Rightarrow> fetch_response_object list \<Rightarrow> location option \<Rightarrow> bool \<Rightarrow> location \<Rightarrow>
     ('e session_error + 'e sg_output) progress \<Rightarrow> 'e option \<Rightarrow> serve_error option \<Rightarrow> pub_st \<Rightarrow>
     ('e session_error + unit) progress \<times> 'e fetch_writer option \<times> pub_st" where
  "serve_local fq obs unknown_through end_of_track end_location opened fin closed st =
     (let i = fq_id fq;
          failed = (\<lambda>err. case answer_and_drop (fetch_reject_message i ReqInternalError ''fetch response failed'') i st of
            (res, st) \<Rightarrow> (Done (Inl (serve_error_result res err)), st));
          cancelled = (\<lambda>fw. case closed of
              None \<Rightarrow> (Waiting, fw, st)
            | Some e \<Rightarrow> (Done (Inl (SeServe e)), map_option (\<lambda>fw. fw_drop (set_reset RstCancelled fw)) fw, fetch_requested_dropped i st))
      in
      case opened of
        Waiting \<Rightarrow> cancelled None
      | Done (Inl e) \<Rightarrow> (case failed e of (res, st) \<Rightarrow> (res, None, st))
      | Done (Inr out) \<Rightarrow>
          (case write_local obs unknown_through fin (fetch_writer_new out i (fq_subscriber_priority fq)) of
             (Waiting, fw) \<Rightarrow> cancelled (Some fw)
           | (Done (Inl e), fw) \<Rightarrow> (case failed e of (res, st) \<Rightarrow> (res, Some (fw_drop fw), st))
           | (Done (Inr _), fw) \<Rightarrow>
               (case answer_and_drop (FetchOk \<lparr>fok_id = i, fok_end_of_track = end_of_track, fok_end_location = end_location,
                       fok_params = [], fok_track_extensions = []\<rparr>) i st of
                  (res, st) \<Rightarrow> (Done (case res of Inl e \<Rightarrow> Inl (SeServe e) | Inr _ \<Rightarrow> Inr ()), Some (fw_drop fw), st))))"

text \<open>
  \<^verbatim>\<open>serve_with_upstream\<close>. While the operation waits the request may be closed or time out; after a failure the
  upstream's REQUEST_ERROR, if there is one in time (\<^verbatim>\<open>request_error\<close>; an error means the request was closed
  first), is passed on.
\<close>

datatype interruption = Closed serve_error | TimedOut

definition serve_with_upstream ::
    "('e \<Rightarrow> u32 option) \<Rightarrow> (nat \<Rightarrow> serve_error option) \<Rightarrow> fetch_requested \<Rightarrow> fetch_response_object list \<Rightarrow> 'e reader \<Rightarrow>
     (serve_error + fetch_ok) progress \<Rightarrow> (serve_error + request_error option) \<Rightarrow>
     ('e session_error + 'e sg_output) progress \<Rightarrow> 'e option \<Rightarrow> interruption option \<Rightarrow> pub_st \<Rightarrow>
     ('e session_error + unit) progress \<times> 'e fetch_writer option \<times> pub_st" where
  "serve_with_upstream reset_of up_closed fq obs rd ok request_error opened fin interrupted st =
     (let i = fq_id fq;
          refuse = (\<lambda>code reason err. case answer_and_drop (fetch_reject_message i code reason) i st of
            (res, st) \<Rightarrow> (Done (Inl (serve_error_result res err)), st));
          failed = (\<lambda>err. case request_error of
              Inl e \<Rightarrow> (Done (Inl (SeServe e)), fetch_requested_dropped i st)
            | Inr (Some error) \<Rightarrow>
                (case answer_and_drop (RequestError (proxied_error error i)) i st of
                   (res, st) \<Rightarrow> (Done (Inl (serve_error_result res err)), st))
            | Inr None \<Rightarrow> refuse ReqInternalError ''fetch proxy failed'' err);
          waiting = (\<lambda>fw. case interrupted of
              None \<Rightarrow> (Waiting, fw, st)
            | Some (Closed e) \<Rightarrow>
                (Done (Inl (SeServe e)), map_option (\<lambda>fw. fw_drop (set_reset RstCancelled fw)) fw, fetch_requested_dropped i st)
            | Some TimedOut \<Rightarrow>
                (case refuse ReqTimeout ''fetch proxy timed out'' (SeServe SCancel) of
                   (res, st) \<Rightarrow> (res, map_option (\<lambda>fw. fw_drop (set_reset RstDeliveryTimeout fw)) fw, st)))
      in
      case opened of
        Waiting \<Rightarrow> waiting None
      | Done (Inl e) \<Rightarrow> (case failed e of (res, st) \<Rightarrow> (res, None, st))
      | Done (Inr out) \<Rightarrow>
          (case write_with_upstream reset_of up_closed obs rd ok fin (fetch_writer_new out i (fq_subscriber_priority fq)) of
             (Waiting, fw) \<Rightarrow> waiting (Some fw)
           | (Done (Inl e), fw) \<Rightarrow> (case failed e of (res, st) \<Rightarrow> (res, Some (fw_drop fw), st))
           | (Done (Inr response), fw) \<Rightarrow>
               (case answer_and_drop (FetchOk response) i st of
                  (res, st) \<Rightarrow> (Done (case res of Inl e \<Rightarrow> Inl (SeServe e) | Inr _ \<Rightarrow> Inr ()), Some (fw_drop fw), st))))"

definition fetch_serve ::
    "('e \<Rightarrow> u32 option) \<Rightarrow> fetch_requested \<Rightarrow> fetch_response_object list \<Rightarrow> 'e fetch_rest \<Rightarrow>
     ('e session_error + 'e sg_output) progress \<Rightarrow> 'e option \<Rightarrow> interruption option \<Rightarrow> pub_st \<Rightarrow>
     ('e session_error + unit) progress \<times> 'e fetch_writer option \<times> pub_st" where
  "fetch_serve reset_of fq obs rest opened fin interrupted st =
     (let closed = (case interrupted of Some (Closed e) \<Rightarrow> Some e | _ \<Rightarrow> None) in
      case rest of
        RestUpstream rd up_closed ok request_error \<Rightarrow>
          serve_with_upstream reset_of up_closed fq obs rd ok request_error opened fin interrupted st
      | RestComplete end_of_track end_location \<Rightarrow> serve_local fq obs None end_of_track end_location opened fin closed st
      | RestUnknown last_location end_location \<Rightarrow> serve_local fq obs (Some last_location) False end_location opened fin closed st)"

end
