(* ===== verification/Fetch_Laws.thy ===== *)
theory Fetch_Laws
  imports Fetch_Response Delivery_Laws
begin

text \<open>
  What a FETCH response carries: a finished stream holds every entry, over any behaviour of the transport,
  and an upstream response is appended unchanged over any chunking, its last entry excepted.
\<close>

section \<open>The bytes of a response\<close>

fun fetch_image :: "prior_object option \<Rightarrow> fetch_item list \<Rightarrow> bytes option" where
  "fetch_image prior [] = Some []"
| "fetch_image prior (i # is) =
     (case encode_entry prior (fst i) fresh_vec of
        Inl _ \<Rightarrow> None
      | Inr (q, w) \<Rightarrow> map_option (\<lambda>bs. wr_bytes w @ snd i @ bs) (fetch_image q is))"

lemma encoded_entry_streams:
  assumes "encode_entry prior entry fresh_vec = Inr (q, w)" and "priors_agree prior prior'"
  obtains q' where "streams (decode_contiguous prior') (wr_bytes w) (fst (item_normal (entry, [])), q')" "priors_agree q q'"
proof -
  obtain e n n' where e: "\<And>w. encode_entry prior entry w = bindE (e w) (\<lambda>w. Inr (n, w))"
      and cod: "codec e (decode_contiguous prior') (fst (item_normal (entry, [])), n')" and agree: "priors_agree n n'"
    using entry_simulation [OF assms(2), of entry] by metis
  have w: "e fresh_vec = Inr w" "q = n" using assms(1) by (auto simp: e bindE_eq_Inr)
  obtain p where "w = wput p fresh_vec" "streams (decode_contiguous prior') p (fst (item_normal (entry, [])), n')"
    using codecE [OF cod w(1)] .
  moreover have "wr_bytes (wput p fresh_vec) = p" by (simp add: fresh_vec_def wput_def)
  ultimately show thesis using that agree w(2) by simp
qed

lemma fetch_image_streams:
  "fetch_image prior is = Some bs \<Longrightarrow> list_all item_ok is \<Longrightarrow> priors_agree prior prior' \<Longrightarrow>
   streams (receive_items (length is) prior') bs (map item_normal is)"
proof (induction "is" arbitrary: prior prior' bs)
  case Nil
  then show ?case by (simp add: streams_return)
next
  case (Cons i "is")
  obtain q w bs' where w: "encode_entry prior (fst i) fresh_vec = Inr (q, w)" and bs': "fetch_image q is = Some bs'"
      and bs: "bs = wr_bytes w @ snd i @ bs'"
    using Cons.prems(1) by (auto split: sum.splits)
  obtain q' where s: "streams (decode_contiguous prior') (wr_bytes w) (fst (item_normal (fst i, [])), q')" and agree: "priors_agree q q'"
    using encoded_entry_streams [OF w Cons.prems(3)] .
  have len: "length (snd i) = entry_payload_length (fst (item_normal i))"
    using Cons.prems(2) by (simp add: item_ok_length)
  have "streams (receive_items (length is) q') bs' (map item_normal is)" using Cons.IH [OF bs' _ agree] Cons.prems(2) by simp
  moreover have "map item_normal (i # is) = (fst (item_normal i), snd i) # map item_normal is" by (simp add: prod_eq_iff)
  ultimately have tail: "streams (\<lambda>r. bindE (receive_items (length is) q' r) (\<lambda>(is, r). Inr ((fst (item_normal i), snd i) # is, r))) bs'
      (map item_normal (i # is))"
    using streams_map [of "receive_items (length is) q'" bs' _ "\<lambda>is. (fst (item_normal i), snd i) # is"] by simp
  show ?case
    unfolding bs list.size(4) add_Suc_right add_0_right receive_items.simps
    by (rule streams_bind [OF s], simp only: fst_conv snd_conv item_normal_simps(2),
        rule streams_bind [OF streams_read_exact [OF len]], rule tail)
qed

section \<open>A finished stream is complete\<close>

definition header_bytes :: "u64 \<Rightarrow> bytes" where
  "header_bytes i = (case fetch_header_encode \<lparr>fh_header_type = FetchHeaderType, fh_request_id = i\<rparr> fresh_vec of Inl _ \<Rightarrow> [] | Inr w \<Rightarrow> wr_bytes w)"

text \<open>What is on the wire behind the header.\<close>

definition wrote :: "'e fetch_writer \<Rightarrow> bytes \<Rightarrow> bool" where
  "wrote fw sent \<longleftrightarrow>
     (if fw_header_written fw then ou_wire (fw_out fw) = header_bytes (fw_request_id fw) @ sent else ou_wire (fw_out fw) = [] \<and> sent = [])"

lemma wrote_new: "wrote (fetch_writer_new \<lparr>ou_wire = [], ou_calls = cs\<rparr> i prio) []"
  by (simp add: wrote_def fetch_writer_new_def)

lemma and_then_done:
  "and_then r k = (Done (Inr u), fw') \<longleftrightarrow> (\<exists>fw v. r = (Done (Inr v), fw) \<and> k fw = (Done (Inr u), fw'))"
  by (auto simp: and_then_def split: prod.splits progress.splits sum.splits)

lemma fw_write_out:
  assumes "fw_write bs fw = (Done (Inr u), fw')"
  obtains out where "fw' = fw\<lparr>fw_out := out\<rparr>" "ou_wire out = ou_wire (fw_out fw) @ bs"
proof -
  obtain r out where o: "output_write bs (fw_out fw) = (r, out)" by (rule prod.exhaust)
  then have "r = Done (Inr u)" "fw' = fw\<lparr>fw_out := out\<rparr>" using assms by (simp_all add: fw_write_def)
  then show thesis using that output_write_wire [of bs "fw_out fw" u out] o by simp
qed

lemma prioritize_fields [simp]:
  "fw_out (prioritize p fw) = fw_out fw" "fw_request_id (prioritize p fw) = fw_request_id fw"
  "fw_header_written (prioritize p fw) = fw_header_written fw" "fw_encoder (prioritize p fw) = fw_encoder fw"
  "fw_end (prioritize p fw) = fw_end fw" "wrote (prioritize p fw) sent = wrote fw sent"
  by (simp_all add: prioritize_def wrote_def Let_def)

lemma write_header_done:
  assumes "write_header fw = (Done (Inr u), fw')" and "wrote fw sent"
  shows "wrote fw' sent \<and> fw_header_written fw' \<and> fw_encoder fw' = fw_encoder fw \<and> fw_end fw' = fw_end fw \<and> fw_request_id fw' = fw_request_id fw"
proof (cases "fw_header_written fw")
  case True
  then show ?thesis using assms by (simp add: write_header_def)
next
  case False
  then obtain w fw1 where w: "fetch_header_encode \<lparr>fh_header_type = FetchHeaderType, fh_request_id = fw_request_id fw\<rparr> fresh_vec = Inr w"
      and fw1: "fw_write (wr_bytes w) fw = (Done (Inr ()), fw1)" and fw': "fw' = fw1\<lparr>fw_header_written := True\<rparr>"
    using assms(1) by (auto simp: write_header_def and_then_done split: sum.splits)
  obtain out where "fw1 = fw\<lparr>fw_out := out\<rparr>" "ou_wire out = ou_wire (fw_out fw) @ wr_bytes w" by (rule fw_write_out [OF fw1])
  then show ?thesis using False assms(2) w fw' by (simp add: wrote_def header_bytes_def)
qed

lemma fw_write_done:
  assumes "fw_write bs fw = (Done (Inr u), fw')" and "wrote fw sent" and "fw_header_written fw"
  shows "wrote fw' (sent @ bs) \<and> fw_header_written fw' \<and> fw_encoder fw' = fw_encoder fw \<and> fw_end fw' = fw_end fw \<and> fw_request_id fw' = fw_request_id fw"
proof -
  obtain out where "fw' = fw\<lparr>fw_out := out\<rparr>" "ou_wire out = ou_wire (fw_out fw) @ bs" by (rule fw_write_out [OF assms(1)])
  then show ?thesis using assms(2,3) by (simp add: wrote_def)
qed

lemma write_chunks_done:
  "write_chunks cs fw = (Done (Inr u), fw') \<Longrightarrow> wrote fw sent \<Longrightarrow> fw_header_written fw \<Longrightarrow>
   wrote fw' (sent @ concat cs) \<and> fw_header_written fw' \<and> fw_encoder fw' = fw_encoder fw \<and> fw_end fw' = fw_end fw \<and> fw_request_id fw' = fw_request_id fw"
proof (induction cs fw arbitrary: sent rule: write_chunks.induct)
  case (2 c cs fw)
  then obtain fw1 where w: "fw_write c fw = (Done (Inr ()), fw1)" and r: "write_chunks cs fw1 = (Done (Inr u), fw')" by (auto simp: and_then_done)
  from "2.IH" [OF r, of "sent @ c"] fw_write_done [OF w "2.prems"(2,3)] show ?case by auto
qed simp

text \<open>The items a list of stored objects stands for.\<close>

definition stored_item :: "fetch_response_object \<Rightarrow> fetch_item" where
  "stored_item ob = (FetchEntryObject (fro_object ob), concat (fro_payload ob))"

lemma write_object_done:
  assumes "write_object ob fw = (Done (Inr u), fw')" and "wrote fw sent"
  obtains q w where "encode_entry (fw_encoder fw) (fst (stored_item ob)) fresh_vec = Inr (q, w)" "item_ok (stored_item ob)"
    "wrote fw' (sent @ wr_bytes w @ snd (stored_item ob))" "fw_header_written fw'" "fw_encoder fw' = q" "fw_end fw' = fw_end fw"
    "fw_request_id fw' = fw_request_id fw"
proof -
  have len: "sum_list (map length (fro_payload ob)) = fo_payload_length (fro_object ob)" using assms(1) by (auto simp: write_object_def split: if_splits)
  obtain fw1 where h: "write_header (prioritize (fo_publisher_priority (fro_object ob)) fw) = (Done (Inr ()), fw1)"
      and r: "(case encode_object (fw_encoder fw1) (fro_object ob) fresh_vec of Inl e \<Rightarrow> (Done (Inl (SeEncode e)), fw1)
        | Inr (prior, w) \<Rightarrow> and_then (fw_write (wr_bytes w) (fw1\<lparr>fw_encoder := prior\<rparr>)) (write_chunks (fro_payload ob))) = (Done (Inr u), fw')"
    using assms(1) len by (auto simp: write_object_def and_then_done)
  obtain q w where e: "encode_object (fw_encoder fw1) (fro_object ob) fresh_vec = Inr (q, w)"
    using r by (cases "encode_object (fw_encoder fw1) (fro_object ob) fresh_vec") auto
  obtain fw2 where wr: "fw_write (wr_bytes w) (fw1\<lparr>fw_encoder := q\<rparr>) = (Done (Inr ()), fw2)"
      and c: "write_chunks (fro_payload ob) fw2 = (Done (Inr u), fw')"
    using r e by (auto simp: and_then_done)
  note h' = write_header_done [OF h, of sent]
  have "wrote (fw1\<lparr>fw_encoder := q\<rparr>) sent" "fw_header_written (fw1\<lparr>fw_encoder := q\<rparr>)" using h' assms(2) by (simp_all add: wrote_def)
  note wr' = fw_write_done [OF wr this]
  note c' = write_chunks_done [OF c conjunct1 [OF wr'] conjunct1 [OF conjunct2 [OF wr']]]
  show thesis using that [of q w] e h' wr' c' assms(2) len
    by (simp add: encode_entry_def stored_item_def item_ok_def length_concat)
qed

fun fetch_prior :: "prior_object option \<Rightarrow> fetch_item list \<Rightarrow> prior_object option" where
  "fetch_prior prior [] = prior"
| "fetch_prior prior (i # is) = (case encode_entry prior (fst i) fresh_vec of Inl _ \<Rightarrow> prior | Inr (q, _) \<Rightarrow> fetch_prior q is)"

lemma fetch_image_append:
  "fetch_image prior (xs @ ys) = (case fetch_image prior xs of None \<Rightarrow> None | Some as \<Rightarrow> map_option (\<lambda>bs. as @ bs) (fetch_image (fetch_prior prior xs) ys))"
proof (induction xs arbitrary: prior)
  case (Cons i xs)
  show ?case
  proof (cases "encode_entry prior (fst i) fresh_vec")
    case (Inr qw)
    then show ?thesis using Cons.IH [of "fst qw"]
      by (cases qw; cases "fetch_image (fst qw) xs"; cases "fetch_image (fetch_prior (fst qw) xs) ys") simp_all
  qed simp
next
  case Nil
  show ?case by (cases "fetch_image prior ys") simp_all
qed

lemma write_objects_done:
  "write_objects obs fw = (Done (Inr u), fw') \<Longrightarrow> wrote fw sent \<Longrightarrow>
   \<exists>bs. fetch_image (fw_encoder fw) (map stored_item obs) = Some bs \<and> list_all item_ok (map stored_item obs) \<and> wrote fw' (sent @ bs) \<and>
     fw_encoder fw' = fetch_prior (fw_encoder fw) (map stored_item obs) \<and> fw_end fw' = fw_end fw \<and> fw_request_id fw' = fw_request_id fw"
proof (induction obs fw arbitrary: sent rule: write_objects.induct)
  case (2 ob obs fw)
  then obtain fw1 where w: "write_object ob fw = (Done (Inr ()), fw1)" and r: "write_objects obs fw1 = (Done (Inr u), fw')"
    by (auto simp: and_then_done)
  obtain q x where o: "encode_entry (fw_encoder fw) (fst (stored_item ob)) fresh_vec = Inr (q, x)" "item_ok (stored_item ob)"
      "wrote fw1 (sent @ wr_bytes x @ snd (stored_item ob))" "fw_encoder fw1 = q" "fw_end fw1 = fw_end fw" "fw_request_id fw1 = fw_request_id fw"
    by (rule write_object_done [OF w "2.prems"(2)])
  from "2.IH" [OF r o(3)] o show ?case by auto
qed auto

lemma write_end_of_range_done:
  assumes "write_end_of_range kind loc fw = (Done (Inr u), fw')" and "wrote fw sent"
  obtains q w where "encode_entry (fw_encoder fw) (EndOfRange kind loc) fresh_vec = Inr (q, w)" "wrote fw' (sent @ wr_bytes w)"
    "fw_end fw' = fw_end fw" "fw_request_id fw' = fw_request_id fw"
proof -
  obtain fw1 where h: "write_header fw = (Done (Inr ()), fw1)"
      and r: "(case encode_end_of_range kind loc fresh_vec of Inl e \<Rightarrow> (Done (Inl (SeEncode e)), fw1)
        | Inr (prior, w) \<Rightarrow> fw_write (wr_bytes w) (fw1\<lparr>fw_encoder := prior\<rparr>)) = (Done (Inr u), fw')"
    using assms(1) by (auto simp: write_end_of_range_def and_then_done)
  obtain q w where e: "encode_end_of_range kind loc fresh_vec = Inr (q, w)" using r by (cases "encode_end_of_range kind loc fresh_vec") auto
  then have wr: "fw_write (wr_bytes w) (fw1\<lparr>fw_encoder := q\<rparr>) = (Done (Inr u), fw')" using r by simp
  note h' = write_header_done [OF h assms(2)]
  have "wrote (fw1\<lparr>fw_encoder := q\<rparr>) sent" "fw_header_written (fw1\<lparr>fw_encoder := q\<rparr>)" using h' by (simp_all add: wrote_def)
  from fw_write_done [OF wr this] show thesis using that [of q w] e h' by (simp add: encode_entry_def)
qed

text \<open>Nothing but \<^verbatim>\<open>finish\<close> ends a stream before it is dropped.\<close>

lemma and_then_end:
  assumes "fw_end (snd r) = x" and "\<And>fw. fw_end fw = x \<Longrightarrow> fw_end (snd (k fw)) = x"
  shows "fw_end (snd (and_then r k)) = x"
  using assms by (auto simp: and_then_def split: prod.splits progress.splits sum.splits)

lemma write_end [simp]:
  "fw_end (snd (fw_write bs fw)) = fw_end fw" "fw_end (snd (write_header fw)) = fw_end fw" "fw_end (snd (write_chunks cs fw)) = fw_end fw"
  "fw_end (snd (write_object ob fw)) = fw_end fw" "fw_end (snd (write_objects obs fw)) = fw_end fw"
  "fw_end (snd (write_end_of_range kind loc fw)) = fw_end fw"
proof -
  show w: "fw_end (snd (fw_write bs fw)) = fw_end fw" for bs and fw :: "'a fetch_writer" by (simp add: fw_write_def split_beta)
  show h: "fw_end (snd (write_header fw)) = fw_end fw" for fw :: "'a fetch_writer"
    by (auto simp: write_header_def w intro!: and_then_end split: sum.splits)
  show c: "fw_end (snd (write_chunks cs fw)) = fw_end fw" for cs and fw :: "'a fetch_writer"
    by (induction cs fw rule: write_chunks.induct) (auto simp: w intro!: and_then_end)
  show o: "fw_end (snd (write_object ob fw)) = fw_end fw" for ob and fw :: "'a fetch_writer"
    by (auto simp: write_object_def w h c intro!: and_then_end split: sum.splits)
  show "fw_end (snd (write_objects obs fw)) = fw_end fw"
    by (induction obs fw rule: write_objects.induct) (auto simp: o intro!: and_then_end)
  show "fw_end (snd (write_end_of_range kind loc fw)) = fw_end fw"
    by (auto simp: write_end_of_range_def w h intro!: and_then_end split: sum.splits)
qed

lemma fw_finish_end: "fw_end fw = None \<Longrightarrow> fw_finish fin fw = (r, fw') \<Longrightarrow> fw_end fw' = (if r = Done (Inr ()) then Some None else None)"
  using write_end(2) [of fw]
  by (cases "write_header fw") (auto simp: fw_finish_def and_then_def split: progress.splits sum.splits option.splits)

definition local_items :: "fetch_response_object list \<Rightarrow> location option \<Rightarrow> fetch_item list" where
  "local_items obs unknown_through =
     map stored_item obs @ (case unknown_through of None \<Rightarrow> [] | Some loc \<Rightarrow> [(EndOfRange UnknownRange loc, [])])"

lemma write_local_done:
  assumes "write_local obs unknown_through fin fw = (Done (Inr u), fw')" and "wrote fw []" and "fw_encoder fw = None"
  shows "\<exists>bs. fetch_image None (local_items obs unknown_through) = Some bs \<and> list_all item_ok (local_items obs unknown_through) \<and>
    fw_end fw' = Some None \<and> fin = None \<and> ou_wire (fw_out fw') = header_bytes (fw_request_id fw) @ bs"
proof -
  obtain fw1 fw2 where o: "write_objects obs fw = (Done (Inr ()), fw1)"
      and m: "(case unknown_through of None \<Rightarrow> (Done (Inr ()), fw1) | Some loc \<Rightarrow> write_end_of_range UnknownRange loc fw1) = (Done (Inr ()), fw2)"
      and f: "fw_finish fin fw2 = (Done (Inr u), fw')"
    using assms(1) by (auto simp: write_local_def and_then_done)
  obtain bs where bs: "fetch_image None (map stored_item obs) = Some bs" "list_all item_ok (map stored_item obs)" "wrote fw1 bs"
      "fw_encoder fw1 = fetch_prior None (map stored_item obs)" "fw_request_id fw1 = fw_request_id fw"
    using write_objects_done [OF o assms(2)] assms(3) by auto
  obtain more where more: "fetch_image None (local_items obs unknown_through) = Some (bs @ more)" "list_all item_ok (local_items obs unknown_through)"
      "wrote fw2 (bs @ more)" "fw_request_id fw2 = fw_request_id fw"
  proof (cases unknown_through)
    case None
    then show thesis using that [of "[]"] m bs by (simp add: local_items_def)
  next
    case (Some loc)
    then have m: "write_end_of_range UnknownRange loc fw1 = (Done (Inr ()), fw2)" using m by simp
    obtain q w where "encode_entry (fw_encoder fw1) (EndOfRange UnknownRange loc) fresh_vec = Inr (q, w)" "wrote fw2 (bs @ wr_bytes w)"
        "fw_request_id fw2 = fw_request_id fw1"
      by (rule write_end_of_range_done [OF m bs(3)])
    then show thesis using that [of "wr_bytes w"] Some bs by (simp add: local_items_def fetch_image_append item_ok_def)
  qed
  obtain fw3 where h: "write_header fw2 = (Done (Inr ()), fw3)" and e: "fin = None" "fw' = fw3\<lparr>fw_end := Some None\<rparr>"
    using f by (auto simp: fw_finish_def and_then_done split: option.splits)
  show ?thesis using write_header_done [OF h more(3)] more e by (simp add: wrote_def)
qed

section \<open>On a transport that takes the bytes\<close>

text \<open>The next \<^verbatim>\<open>n\<close> writes take everything, up to \<^verbatim>\<open>m\<close> bytes each.\<close>

definition able :: "nat \<Rightarrow> nat \<Rightarrow> 'e fetch_writer \<Rightarrow> bool" where
  "able m n fw \<longleftrightarrow> list_all (accepting m) (ou_calls (fw_out fw)) \<and> n \<le> length (ou_calls (fw_out fw)) \<and>
     \<not> isl (fetch_header_encode \<lparr>fh_header_type = FetchHeaderType, fh_request_id = fw_request_id fw\<rparr> fresh_vec) \<and>
     length (header_bytes (fw_request_id fw)) \<le> m"

lemma able_mono: "able m n fw \<Longrightarrow> k \<le> n \<Longrightarrow> able m k fw"
  by (simp add: able_def)

lemma able_fields [simp]: "able m n (prioritize p fw) = able m n fw" "able m n (fw\<lparr>fw_encoder := q\<rparr>) = able m n fw"
  "able m n (fw\<lparr>fw_header_written := b\<rparr>) = able m n fw"
  by (simp_all add: able_def)

lemma fw_write_able:
  assumes "able m (Suc n) fw" and "length bs \<le> m"
  obtains fw' where "fw_write bs fw = (Done (Inr ()), fw')" "able m n fw'"
proof -
  obtain c cs where c: "ou_calls (fw_out fw) = c # cs" using assms(1) by (cases "ou_calls (fw_out fw)") (auto simp: able_def)
  then have "accepting m c" using assms(1) by (simp add: able_def)
  then have "output_write bs (fw_out fw) = (Done (Inr ()), \<lparr>ou_wire = ou_wire (fw_out fw) @ bs, ou_calls = cs\<rparr>)"
    using assms(2) c writer_write_completes [of c bs "ou_wire (fw_out fw)"] by (simp add: output_write_def accepting_def)
  then show thesis using that assms(1) c by (simp add: fw_write_def able_def)
qed

lemma write_header_able:
  assumes "able m (n + (if fw_header_written fw then 0 else 1)) fw"
  obtains fw' where "write_header fw = (Done (Inr ()), fw')" "able m n fw'"
proof (cases "fw_header_written fw")
  case True
  then show thesis using that assms by (simp add: write_header_def)
next
  case False
  obtain w where w: "fetch_header_encode \<lparr>fh_header_type = FetchHeaderType, fh_request_id = fw_request_id fw\<rparr> fresh_vec = Inr w"
    using assms by (cases "fetch_header_encode \<lparr>fh_header_type = FetchHeaderType, fh_request_id = fw_request_id fw\<rparr> fresh_vec") (auto simp: able_def)
  then have "length (wr_bytes w) \<le> m" using assms by (simp add: able_def header_bytes_def)
  then obtain fw1 where "fw_write (wr_bytes w) fw = (Done (Inr ()), fw1)" "able m n fw1"
    using fw_write_able [of m n fw "wr_bytes w"] assms False by auto
  then show thesis using that [of "fw1\<lparr>fw_header_written := True\<rparr>"] False w by (simp add: write_header_def and_then_def)
qed

lemma write_chunks_able:
  "able m (n + length cs) fw \<Longrightarrow> length (concat cs) \<le> m \<Longrightarrow> \<exists>fw'. write_chunks cs fw = (Done (Inr ()), fw') \<and> able m n fw'"
proof (induction cs arbitrary: fw)
  case (Cons c cs)
  obtain fw1 where "fw_write c fw = (Done (Inr ()), fw1)" "able m (n + length cs) fw1"
    using fw_write_able [of m "n + length cs" fw c] Cons.prems by auto
  then show ?case using Cons.IH [of fw1] Cons.prems by (simp add: and_then_def)
qed simp

abbreviation (input) header_calls :: "'e fetch_writer \<Rightarrow> nat" where
  "header_calls fw \<equiv> (if fw_header_written fw then 0 else 1)"

lemma write_object_able:
  assumes "able m (n + Suc (length (fro_payload ob)) + header_calls fw) fw" and "item_ok (stored_item ob)"
    and "encode_entry (fw_encoder fw) (fst (stored_item ob)) fresh_vec = Inr (q, w)" and "length (wr_bytes w @ snd (stored_item ob)) \<le> m" and "wrote fw sent"
  shows "\<exists>fw'. write_object ob fw = (Done (Inr ()), fw') \<and> able m n fw'"
proof -
  have len: "sum_list (map length (fro_payload ob)) = fo_payload_length (fro_object ob)"
    using assms(2) by (simp add: stored_item_def item_ok_def length_concat)
  obtain fw1 where h: "write_header (prioritize (fo_publisher_priority (fro_object ob)) fw) = (Done (Inr ()), fw1)"
      "able m (n + Suc (length (fro_payload ob))) fw1"
    using write_header_able [of m "n + Suc (length (fro_payload ob))" "prioritize (fo_publisher_priority (fro_object ob)) fw"] assms(1) by auto
  have enc: "encode_object (fw_encoder fw1) (fro_object ob) fresh_vec = Inr (q, w)"
    using write_header_done [OF h(1), of sent] assms(3,5) by (simp add: encode_entry_def stored_item_def)
  have l: "length (wr_bytes w) \<le> m" "length (concat (fro_payload ob)) \<le> m" using assms(4) by (simp_all add: stored_item_def)
  obtain fw2 where w: "fw_write (wr_bytes w) (fw1\<lparr>fw_encoder := q\<rparr>) = (Done (Inr ()), fw2)" "able m (n + length (fro_payload ob)) fw2"
    using fw_write_able [of m "n + length (fro_payload ob)" "fw1\<lparr>fw_encoder := q\<rparr>" "wr_bytes w"] h(2) l(1) by auto
  obtain fw' where c: "write_chunks (fro_payload ob) fw2 = (Done (Inr ()), fw')" "able m n fw'" using write_chunks_able [OF w(2) l(2)] by blast
  then show ?thesis using len h(1) enc w(1) by (simp add: write_object_def and_then_def)
qed

definition object_calls :: "fetch_response_object list \<Rightarrow> nat" where
  "object_calls obs = sum_list (map (\<lambda>ob. Suc (length (fro_payload ob))) obs)"

lemma write_objects_able:
  "able m (n + object_calls obs + header_calls fw) fw \<Longrightarrow> fetch_image (fw_encoder fw) (map stored_item obs) = Some bs \<Longrightarrow> length bs \<le> m \<Longrightarrow>
   list_all item_ok (map stored_item obs) \<Longrightarrow> wrote fw sent \<Longrightarrow>
   \<exists>fw'. write_objects obs fw = (Done (Inr ()), fw') \<and> able m (n + header_calls fw') fw'"
proof (induction obs arbitrary: fw bs sent)
  case Nil
  then show ?case by (simp add: object_calls_def)
next
  case (Cons ob obs)
  obtain q w bs' where w: "encode_entry (fw_encoder fw) (fst (stored_item ob)) fresh_vec = Inr (q, w)"
      and bs': "fetch_image q (map stored_item obs) = Some bs'" "bs = wr_bytes w @ snd (stored_item ob) @ bs'"
    using Cons.prems(2) by (auto split: sum.splits)
  have "able m (n + object_calls obs + Suc (length (fro_payload ob)) + header_calls fw) fw" using Cons.prems(1) by (simp add: object_calls_def add.commute add.left_commute)
  then obtain fw1 where o: "write_object ob fw = (Done (Inr ()), fw1)" "able m (n + object_calls obs) fw1"
    using write_object_able [OF _ _ w, of m "n + object_calls obs" sent] Cons.prems(3,4,5) bs'(2) by auto
  have f: "wrote fw1 (sent @ wr_bytes w @ snd (stored_item ob))" "fw_header_written fw1" "fw_encoder fw1 = q"
    by (rule write_object_done [OF o(1) Cons.prems(5)], use w in simp)+
  show ?case using Cons.IH [OF _ _ _ _ f(1)] o f bs' Cons.prems(3,4) by (simp add: and_then_def)
qed

lemma write_local_able:
  assumes able: "able m (object_calls obs + 2) fw" and img: "fetch_image None (local_items obs unknown_through) = Some bs" and len: "length bs \<le> m"
    and ok: "list_all item_ok (map stored_item obs)" and fresh: "wrote fw []" "fw_encoder fw = None"
  shows "\<exists>fw'. write_local obs unknown_through None fw = (Done (Inr ()), fw')"
proof -
  obtain bs1 where bs1: "fetch_image None (map stored_item obs) = Some bs1" "length bs1 \<le> m"
    and more: "\<And>loc. unknown_through = Some loc \<Longrightarrow> \<exists>w. encode_end_of_range UnknownRange loc fresh_vec = Inr w \<and> length (wr_bytes (snd w)) \<le> m"
    using img len by (auto simp: local_items_def fetch_image_append encode_entry_def split: option.splits sum.splits)
  have a: "able m (1 + object_calls obs + header_calls fw) fw" using able by (auto intro: able_mono)
  obtain fw1 where o: "write_objects obs fw = (Done (Inr ()), fw1)" "able m (1 + header_calls fw1) fw1"
    using write_objects_able [OF a _ bs1(2) ok fresh(1)] bs1(1) fresh(2) by auto
  show ?thesis
  proof (cases unknown_through)
    case None
    obtain fw2 where "write_header fw1 = (Done (Inr ()), fw2)" using write_header_able [OF o(2)] by blast
    then show ?thesis using None o by (simp add: write_local_def fw_finish_def and_then_def)
  next
    case (Some loc)
    obtain w where w: "encode_end_of_range UnknownRange loc fresh_vec = Inr w" "length (wr_bytes (snd w)) \<le> m" using more [OF Some] by blast
    obtain fw2 where h: "write_header fw1 = (Done (Inr ()), fw2)" "able m 1 fw2" using write_header_able [OF o(2)] by blast
    obtain sent where "wrote fw1 sent" using write_objects_done [OF o(1) fresh(1)] by blast
    note h' = write_header_done [OF h(1) this]
    obtain fw3 where f: "fw_write (wr_bytes (snd w)) (fw2\<lparr>fw_encoder := fst w\<rparr>) = (Done (Inr ()), fw3)"
      using fw_write_able [of m 0 "fw2\<lparr>fw_encoder := fst w\<rparr>" "wr_bytes (snd w)"] h(2) w(2) by auto
    have "wrote (fw2\<lparr>fw_encoder := fst w\<rparr>) sent" "fw_header_written (fw2\<lparr>fw_encoder := fst w\<rparr>)" using h' by (simp_all add: wrote_def)
    from fw_write_done [OF f this] have "fw_header_written fw3" by simp
    then have "write_header fw3 = (Done (Inr ()), fw3)" by (simp add: write_header_def)
    then show ?thesis using Some o(1) h(1) f w(1)
      by (cases w) (simp add: write_local_def write_end_of_range_def fw_finish_def and_then_def)
  qed
qed

section \<open>Copying an upstream response\<close>

text \<open>A stream as its parts: the bytes of an entry's header, the entry, its payload.\<close>

type_synonym fetch_part = "bytes \<times> fetch_entry \<times> bytes"

fun fetch_body :: "prior_object option \<Rightarrow> fetch_part list \<Rightarrow> bool" where
  "fetch_body prior [] \<longleftrightarrow> True"
| "fetch_body prior ((h, e, p) # parts) \<longleftrightarrow>
     (\<exists>q. streams (decode_contiguous prior) h (e, q) \<and> length p = entry_payload_length e \<and> fetch_body q parts)"

definition body_bytes :: "fetch_part list \<Rightarrow> bytes" where
  "body_bytes parts = concat (map (\<lambda>(h, _, p). h @ p) parts)"

lemma body_bytes_simps [simp]: "body_bytes [] = []" "body_bytes ((h, e, p) # parts) = h @ p @ body_bytes parts"
  by (simp_all add: body_bytes_def)

lemma header_decodes:
  assumes "streams (decode_contiguous prior) h (e, q)"
  shows "fetch_decoder_decode prior (h @ x) = (Inr (e, length h), q)"
    and "h \<noteq> []"
    and "strict_prefix y h \<Longrightarrow> \<exists>n. fetch_decoder_decode prior y = (Inl (More n), prior) \<and> 0 < n \<and> length y + n \<le> length h"
proof -
  show "fetch_decoder_decode prior (h @ x) = (Inr (e, length h), q)"
    using streamsD [OF assms, of x] by (simp add: fetch_decoder_decode_def)
  show "h \<noteq> []" using streams_all [OF assms] by (auto simp: decode_contiguous_Nil)
  assume "strict_prefix y h"
  then obtain n where "decode_contiguous prior y = Inl (More n)" "0 < n" "length y + n \<le> length h"
    by (rule streams_short [OF assms])
  then show "\<exists>n. fetch_decoder_decode prior y = (Inl (More n), prior) \<and> 0 < n \<and> length y + n \<le> length h"
    by (simp add: fetch_decoder_decode_def)
qed

text \<open>
  The copy between two turns: the parts already begun and those to come, what was written of the former
  and the payload still missing, what is to be read.
\<close>

definition copy_at ::
    "u64 \<Rightarrow> nat \<Rightarrow> bytes \<Rightarrow> fetch_part list \<Rightarrow> fetch_part list \<Rightarrow> bytes \<Rightarrow> bytes \<Rightarrow> bytes \<Rightarrow> copy_state \<Rightarrow> 'e fetch_writer \<Rightarrow> bool" where
  "copy_at i m base before parts sent pay rest cp fw \<longleftrightarrow>
     fetch_body (cp_decoder cp) parts \<and> wrote fw (base @ sent) \<and> length pay = cp_remaining cp \<and>
     sent @ pay = body_bytes before \<and> cp_partial cp @ rest = pay @ body_bytes parts \<and>
     (pay \<noteq> [] \<longrightarrow> cp_partial cp = [] \<and> suffix pay (snd (snd (last before)))) \<and>
     (cp_partial cp \<noteq> [] \<longrightarrow> parts \<noteq> [] \<and> prefix (cp_partial cp) (fst (hd parts))) \<and>
     (before \<noteq> [] \<longrightarrow> fw_header_written fw) \<and> length (body_bytes before) + length (body_bytes parts) \<le> m \<and>
     able m (2 * (length (cp_partial cp) + length rest) + header_calls fw) fw \<and> fw_end fw = None \<and> fw_request_id fw = i"

definition copy_inv :: "u64 \<Rightarrow> nat \<Rightarrow> bytes \<Rightarrow> fetch_part list \<Rightarrow> bytes \<Rightarrow> copy_state \<Rightarrow> 'e fetch_writer \<Rightarrow> bool" where
  "copy_inv i m base all rest cp fw \<longleftrightarrow>
     (\<exists>before parts sent pay. all = before @ parts \<and> copy_at i m base before parts sent pay rest cp fw)"

lemma body_bytes_append [simp]: "body_bytes (as @ bs) = body_bytes as @ body_bytes bs"
  by (simp add: body_bytes_def)

lemma copy_payload_step:
  assumes at: "copy_at i m base before parts sent pay (chunk @ later) cp fw" and "chunk \<noteq> []" and "0 < cp_remaining cp"
  defines "k \<equiv> min (cp_remaining cp) (length chunk)"
  shows "\<exists>fw1. fw_write (take k chunk) fw = (Done (Inr ()), fw1) \<and>
    copy_at i m base before parts (sent @ take k chunk) (drop k pay) (drop k chunk @ later) (cp\<lparr>cp_remaining := cp_remaining cp - k\<rparr>) fw1"
proof -
  have len: "length pay = cp_remaining cp" "pay \<noteq> []" using at assms(3) by (auto simp: copy_at_def)
  then have p: "cp_partial cp = []" "chunk @ later = pay @ body_bytes parts" "suffix pay (snd (snd (last before)))"
    using at by (auto simp: copy_at_def)
  have k: "0 < k" "k \<le> length chunk" "k \<le> length pay" using assms(2,3) len by (auto simp: k_def)
  have tk: "take k chunk = take k pay" using arg_cong [OF p(2), of "take k"] k by simp
  have dk: "drop k chunk @ later = drop k pay @ body_bytes parts" using arg_cong [OF p(2), of "drop k"] k by simp
  have before: "body_bytes before = sent @ pay" using at by (simp add: copy_at_def)
  have h: "fw_header_written fw" "wrote fw (base @ sent)" "able m (2 * (length chunk + length later)) fw" "length (take k chunk) \<le> m"
    using at before len(2) k p(1) tk by (auto simp: copy_at_def)
  have "able m (Suc (2 * (length (drop k chunk) + length later))) fw" using h(3) k by (auto intro: able_mono)
  then obtain fw1 where w: "fw_write (take k chunk) fw = (Done (Inr ()), fw1)" "able m (2 * (length (drop k chunk) + length later)) fw1"
    using h(4) by (rule fw_write_able)
  have "suffix (drop k pay) (snd (snd (last before)))" using p(3) suffix_drop suffix_order.trans by blast
  moreover have "length chunk + length later = cp_remaining cp + length (body_bytes parts)" using arg_cong [OF p(2), of length] len by simp
  ultimately show ?thesis using fw_write_done [OF w(1) h(2,1)] w at p(1) dk tk len k before by (auto simp: copy_at_def)
qed

text \<open>An entry whose header is complete: the header goes out, its payload is next.\<close>

lemma copy_entry_step:
  assumes at: "copy_at i m base before ((h, e, p) # ps) sent [] rest cp fw" and "streams (decode_contiguous (cp_decoder cp)) h (e, q)"
    and "fetch_body q ps" and "length p = entry_payload_length e"
  shows "\<exists>fw1. and_then (write_header (entry_begin e fw)) (fw_write h) = (Done (Inr ()), fw1) \<and> wrote fw1 (base @ sent @ h) \<and>
    fw_header_written fw1 \<and> fw_end fw1 = None \<and> fw_request_id fw1 = i \<and> able m (2 * (length p + length (body_bytes ps)) + 1) fw1"
proof -
  have "cp_partial cp @ rest = h @ p @ body_bytes ps" using at by (simp add: copy_at_def)
  from arg_cong [OF this, of length] have len: "length (cp_partial cp) + length rest = length h + length p + length (body_bytes ps)" by simp
  have le: "2 * (length p + length (body_bytes ps)) + 2 + header_calls fw \<le> 2 * (length (cp_partial cp) + length rest) + header_calls fw"
    unfolding len using header_decodes(2) [OF assms(2)] by (cases h) simp_all
  have a: "able m (2 * (length (cp_partial cp) + length rest) + header_calls fw) fw" and l: "length h \<le> m" and w: "wrote fw (base @ sent)" "fw_end fw = None" "fw_request_id fw = i"
    using at by (auto simp: copy_at_def)
  from able_mono [OF a le] w have "able m (2 * (length p + length (body_bytes ps)) + 2 + header_calls (entry_begin e fw)) (entry_begin e fw)" "wrote (entry_begin e fw) (base @ sent)"
      "fw_end (entry_begin e fw) = None" "fw_request_id (entry_begin e fw) = i"
    by (auto simp: entry_begin_def split: fetch_entry.splits)
  then obtain fw0 where h0: "write_header (entry_begin e fw) = (Done (Inr ()), fw0)" "able m (Suc (2 * (length p + length (body_bytes ps)) + 1)) fw0"
      "wrote fw0 (base @ sent)" "fw_header_written fw0" "fw_end fw0 = None" "fw_request_id fw0 = i"
    using write_header_able [of m "2 * (length p + length (body_bytes ps)) + 2" "entry_begin e fw"] write_header_done [of "entry_begin e fw"] by auto
  obtain fw1 where w1: "fw_write h fw0 = (Done (Inr ()), fw1)" "able m (2 * (length p + length (body_bytes ps)) + 1) fw1" using h0(2) l by (rule fw_write_able)
  show ?thesis using h0(1) w1 fw_write_done [OF w1(1) h0(3,4)] h0(5,6) by (simp add: and_then_def)
qed

text \<open>What a turn of the inner loop does, and that the loop ends with the chunk used up.\<close>

lemma copy_chunk_Nil [simp]: "copy_chunk [] cp fw = (Done (Inr cp), fw)"
  by (simp add: copy_chunk.simps)

lemma copy_state_empty: "cp_partial cp = [] \<Longrightarrow> cp\<lparr>cp_decoder := q, cp_remaining := n\<rparr> = \<lparr>cp_decoder = q, cp_partial = [], cp_remaining = n\<rparr>"
  by (cases cp) simp

lemma copy_turn:
  assumes at: "copy_at i m base before parts sent pay (chunk @ later) cp fw" and "chunk \<noteq> []"
  obtains chunk' before' parts' sent' pay' cp' fw' where
    "copy_chunk chunk cp fw = copy_chunk chunk' cp' fw'" "copy_at i m base before' parts' sent' pay' (chunk' @ later) cp' fw'"
    "before' @ parts' = before @ parts"
    "2 * length chunk' + (if cp_partial cp' = [] then 0 else 1) < 2 * length chunk + (if cp_partial cp = [] then 0 else 1 :: nat)"
proof (cases "0 < cp_remaining cp")
  case True
  define k where "k = min (cp_remaining cp) (length chunk)"
  obtain fw1 where w: "fw_write (take k chunk) fw = (Done (Inr ()), fw1)"
      "copy_at i m base before parts (sent @ take k chunk) (drop k pay) (drop k chunk @ later) (cp\<lparr>cp_remaining := cp_remaining cp - k\<rparr>) fw1"
    using copy_payload_step [OF at assms(2) True] unfolding k_def by blast
  show thesis
  proof (rule that)
    show "copy_chunk chunk cp fw = copy_chunk (drop k chunk) (cp\<lparr>cp_remaining := cp_remaining cp - k\<rparr>) fw1"
      using True assms(2) w(1) by (simp add: copy_chunk.simps [of chunk] k_def [symmetric] Let_def)
    show "2 * length (drop k chunk) + (if cp_partial (cp\<lparr>cp_remaining := cp_remaining cp - k\<rparr>) = [] then 0 else 1) <
        2 * length chunk + (if cp_partial cp = [] then 0 else 1 :: nat)"
      using True assms(2) by (simp add: k_def)
  qed (use w(2) in simp_all)
next
  case False
  then have pay: "pay = []" and rem: "cp_remaining cp = 0" using at by (auto simp: copy_at_def)
  have body: "cp_partial cp @ chunk @ later = body_bytes parts" using at pay by (simp add: copy_at_def)
  then obtain h e p ps where parts: "parts = (h, e, p) # ps" using assms(2) by (cases parts) auto
  then obtain q where h: "streams (decode_contiguous (cp_decoder cp)) h (e, q)" and p: "length p = entry_payload_length e" and q: "fetch_body q ps"
    using at by (auto simp: copy_at_def)
  note dec = header_decodes [OF h]
  obtain fw1 where w: "and_then (write_header (entry_begin e fw)) (fw_write h) = (Done (Inr ()), fw1)" "wrote fw1 (base @ sent @ h)"
      "fw_header_written fw1" "fw_end fw1 = None" "fw_request_id fw1 = i" "able m (2 * (length p + length (body_bytes ps)) + 1) fw1"
    using copy_entry_step [OF at [unfolded parts pay] h q p] by blast
  have rem': "entry_remaining e cp = length p" using p rem by (simp add: entry_remaining_def entry_payload_length_def split: fetch_entry.splits)
  have next_at: "copy_at i m base (before @ [(h, e, p)]) ps (sent @ h) p (p @ body_bytes ps) \<lparr>cp_decoder = q, cp_partial = [], cp_remaining = length p\<rparr> fw'"
    if "wrote fw' (base @ sent @ h)" "fw_header_written fw'" "fw_end fw' = None" "fw_request_id fw' = i" "able m (2 * (length p + length (body_bytes ps))) fw'" for fw'
    using at that q by (simp add: copy_at_def parts pay)
  have eq: "cp_partial cp @ chunk @ later = h @ p @ body_bytes ps" using body parts by simp
  consider "cp_partial cp = []" "prefix h chunk" | "cp_partial cp = []" "strict_prefix chunk h"
    | "cp_partial cp \<noteq> []" "strict_prefix (cp_partial cp) h" | "cp_partial cp = h" "h \<noteq> []"
  proof (cases "cp_partial cp = []")
    case True
    then have "chunk @ later = h @ p @ body_bytes ps" using eq by simp
    then have "prefix h chunk \<or> strict_prefix chunk h" by (metis prefix_same_cases prefixI strict_prefixI prefix_order.refl)
    then show ?thesis using True that by blast
  next
    case False
    then have "prefix (cp_partial cp) h" using at parts by (simp add: copy_at_def)
    then show ?thesis using False that by (metis prefix_order.le_less)
  qed
  then show thesis
  proof cases
    case 1
    then obtain c where c: "chunk = h @ c" by (auto simp: prefix_def)
    then have "c @ later = p @ body_bytes ps" using eq 1 by simp
    then show thesis
      using 1 c next_at [of fw1] w dec(1) [of c] rem rem' dec(2) at pay parts
      by (intro that [of c "\<lparr>cp_decoder = q, cp_partial = [], cp_remaining = length p\<rparr>" fw1 "before @ [(h, e, p)]" ps "sent @ h" p])
        (simp_all add: copy_chunk.simps [of "h @ c"] copy_state_empty able_mono Let_def)
  next
    case 2
    obtain n where "fetch_decoder_decode (cp_decoder cp) chunk = (Inl (More n), cp_decoder cp)" using dec(3) [OF 2(2)] by blast
    then have "copy_chunk chunk cp fw = copy_chunk [] (cp\<lparr>cp_partial := chunk\<rparr>) fw" using 2 rem assms(2) by (simp add: copy_chunk.simps [of chunk])
    moreover have "copy_at i m base before parts sent [] ([] @ later) (cp\<lparr>cp_partial := chunk\<rparr>) fw"
      using 2 at pay parts rem by (auto simp: copy_at_def)
    moreover have "1 < 2 * length chunk" using assms(2) by (cases chunk) simp_all
    ultimately show thesis using 2 assms(2) by (intro that [of "[]" "cp\<lparr>cp_partial := chunk\<rparr>" fw before parts sent "[]"]) simp_all
  next
    case 3
    obtain n where n: "fetch_decoder_decode (cp_decoder cp) (cp_partial cp) = (Inl (More n), cp_decoder cp)" "0 < n" "length (cp_partial cp) + n \<le> length h"
      using dec(3) [OF 3(2)] by blast
    define k where "k = min (max n 1) (length chunk)"
    have k: "0 < k" "k \<le> length chunk" "length (cp_partial cp) + k \<le> length h" using n(2,3) assms(2) by (auto simp: k_def)
    have step: "copy_chunk chunk cp fw = copy_chunk (drop k chunk) (cp\<lparr>cp_partial := cp_partial cp @ take k chunk\<rparr>) fw"
      using 3 rem assms(2) n(1) by (simp add: copy_chunk.simps [of chunk] k_def Let_def)
    have "cp_partial cp @ take k chunk = take (length (cp_partial cp) + k) (h @ p @ body_bytes ps)"
      unfolding eq [symmetric] using k(2) by simp
    also have "\<dots> = take (length (cp_partial cp) + k) h" using k(3) by simp
    finally have "prefix (cp_partial cp @ take k chunk) h" by (simp add: take_is_prefix)
    moreover have "(cp_partial cp @ take k chunk) @ drop k chunk @ later = body_bytes parts"
      using eq parts append_take_drop_id [of k chunk] by (metis append.assoc body_bytes_simps(2))
    ultimately have "copy_at i m base before parts sent [] (drop k chunk @ later) (cp\<lparr>cp_partial := cp_partial cp @ take k chunk\<rparr>) fw"
      using at pay parts(1) rem k(2) by (auto simp: copy_at_def)
    then show thesis
      using step k 3
      by (intro that [of "drop k chunk" "cp\<lparr>cp_partial := cp_partial cp @ take k chunk\<rparr>" fw before parts sent "[]"]) simp_all
  next
    case 4
    then have later: "chunk @ later = p @ body_bytes ps" using eq by simp
    obtain fw2 where w2: "fw_write [] fw1 = (Done (Inr ()), fw2)" "able m (2 * (length p + length (body_bytes ps))) fw2"
      using fw_write_able [of m "2 * (length p + length (body_bytes ps))" fw1 "[]"] w(6) by auto
    have f2: "wrote fw2 (base @ sent @ h)" "fw_header_written fw2" "fw_end fw2 = None" "fw_request_id fw2 = i" using fw_write_done [OF w2(1) w(2,3)] w(4,5) by simp_all
    have step: "copy_chunk chunk cp fw = copy_chunk chunk \<lparr>cp_decoder = q, cp_partial = [], cp_remaining = length p\<rparr> fw2"
      using 4 rem rem' assms(2) dec(1) [of "[]"] w(1) w2(1) by (simp add: copy_chunk.simps [of chunk cp] Let_def)
    show thesis
      using step next_at [OF f2 w2(2)] later 4 parts
      by (intro that [of chunk "\<lparr>cp_decoder = q, cp_partial = [], cp_remaining = length p\<rparr>" fw2 "before @ [(h, e, p)]" ps "sent @ h" p]) simp_all
  qed
qed

lemma copy_chunk_inv:
  "copy_inv i m base all (chunk @ later) cp fw \<Longrightarrow>
   \<exists>cp' fw'. copy_chunk chunk cp fw = (Done (Inr cp'), fw') \<and> copy_inv i m base all later cp' fw'"
proof (induction "2 * length chunk + (if cp_partial cp = [] then 0 else 1 :: nat)" arbitrary: chunk cp fw rule: less_induct)
  case less
  show ?case
  proof (cases "chunk = []")
    case True
    then show ?thesis using less.prems by simp
  next
    case False
    obtain before parts sent pay where at: "all = before @ parts" "copy_at i m base before parts sent pay (chunk @ later) cp fw"
      using less.prems by (auto simp: copy_inv_def)
    obtain chunk' before' parts' sent' pay' cp' fw' where t: "copy_chunk chunk cp fw = copy_chunk chunk' cp' fw'"
        "copy_at i m base before' parts' sent' pay' (chunk' @ later) cp' fw'" "before' @ parts' = before @ parts"
        "2 * length chunk' + (if cp_partial cp' = [] then 0 else 1) < 2 * length chunk + (if cp_partial cp = [] then 0 else 1 :: nat)"
      by (rule copy_turn [OF at(2) False])
    have "copy_inv i m base all (chunk' @ later) cp' fw'" unfolding copy_inv_def at(1) t(3) [symmetric] using t(2) by blast
    then show ?thesis unfolding t(1) by (rule less.hyps [OF t(4)])
  qed
qed

lemma read_chunk_clean:
  assumes "clean rd" and "0 < n"
  shows "(pending rd = [] \<and> read_chunk n rd = (Inr None, rd)) \<or>
    (\<exists>chunk rd'. read_chunk n rd = (Inr (Some chunk), rd') \<and> clean rd' \<and> pending rd = chunk @ pending rd')"
  using assms by (cases "rd_stream rd"; cases "hd (rd_stream rd)") (auto simp: read_chunk_def pending_def clean_def Let_def)

text \<open>The outer loop over any reader that gives the parts' bytes and the end of the stream.\<close>

lemma copy_loop_inv:
  "copy_inv i m base all (pending rd) cp fw \<Longrightarrow> clean rd \<Longrightarrow> (\<And>k. closed k = None) \<Longrightarrow>
   \<exists>cp' fw'. copy_loop reset_of closed n rd cp fw = (Done (Inr cp'), fw') \<and> copy_inv i m base all [] cp' fw'"
proof (induction "input_left rd" arbitrary: n rd cp fw rule: less_induct)
  case less
  from read_chunk_clean [OF less.prems(2), of COPY_CHUNK_SIZE]
  consider "pending rd = []" "read_chunk COPY_CHUNK_SIZE rd = (Inr None, rd)"
    | chunk rd' where "read_chunk COPY_CHUNK_SIZE rd = (Inr (Some chunk), rd')" "clean rd'" "pending rd = chunk @ pending rd'"
    by (auto simp: COPY_CHUNK_SIZE_def)
  then show ?case
  proof cases
    case 1
    then show ?thesis using less.prems(1,3) by (simp add: copy_loop.simps read_stream_chunk_def)
  next
    case 2
    obtain cp1 fw1 where c: "copy_chunk chunk cp fw = (Done (Inr cp1), fw1)" "copy_inv i m base all (pending rd') cp1 fw1"
      using copy_chunk_inv less.prems(1) unfolding 2(3) by blast
    have "input_left rd' < input_left rd" by (rule read_chunk_less [OF 2(1)]) (simp add: COPY_CHUNK_SIZE_def)
    from less.hyps [OF this c(2) 2(2) less.prems(3), of "Suc n"] show ?thesis
      using 2(1) c(1) less.prems(3) by (simp add: copy_loop.simps [of _ _ n] read_stream_chunk_def)
  qed
qed

lemma copy_inv_start:
  assumes "fetch_body None all" and "wrote fw base" and "length (body_bytes all) \<le> m" and "fw_end fw = None"
    and "able m (2 * length (body_bytes all) + header_calls fw) fw" and "rest = body_bytes all"
  shows "copy_inv (fw_request_id fw) m base all rest copy_state_new fw"
  unfolding copy_inv_def using assms
  by (intro exI [of _ "[]"] exI [of _ all]) (simp add: copy_at_def copy_state_new_def)

text \<open>At the end of the stream only a last entry without payload can be missing.\<close>

lemma copy_inv_end:
  assumes "copy_inv i m base all [] cp fw"
  shows "cp_remaining cp = 0" and "cp_partial cp = [] \<Longrightarrow> wrote fw (base @ body_bytes all)"
    and "cp_partial cp \<noteq> [] \<Longrightarrow> \<exists>ps e. all = ps @ [(cp_partial cp, e, [])]" and "fw_end fw = None" and "fw_request_id fw = i"
proof -
  obtain before parts sent pay where at: "all = before @ parts" "copy_at i m base before parts sent pay [] cp fw"
    using assms by (auto simp: copy_inv_def)
  have pay: "pay = []" using at(2) by (auto simp: copy_at_def)
  then show "cp_remaining cp = 0" using at(2) by (simp add: copy_at_def)
  show "fw_end fw = None" "fw_request_id fw = i" using at(2) by (simp_all add: copy_at_def)
  have body: "cp_partial cp = body_bytes parts" using at(2) pay by (simp add: copy_at_def)
  show "wrote fw (base @ body_bytes all)" if "cp_partial cp = []" using at pay body that by (auto simp: copy_at_def)
  show "\<exists>ps e. all = ps @ [(cp_partial cp, e, [])]" if "cp_partial cp \<noteq> []"
  proof -
    have "parts \<noteq> []" "prefix (body_bytes parts) (fst (hd parts))" using at(2) body that by (auto simp: copy_at_def)
    then obtain h e p ps where parts: "parts = (h, e, p) # ps" "prefix (h @ p @ body_bytes ps) h" by (cases parts) auto
    have "length (h @ p @ body_bytes ps) \<le> length h" using parts(2) by (rule prefix_length_le)
    then have e: "p = []" "body_bytes ps = []" by simp_all
    have "ps = []"
    proof (cases ps)
      case (Cons x ys)
      obtain h' e' p' where x: "x = (h', e', p')" by (rule prod_cases3)
      then obtain q q' where "streams (decode_contiguous q) h' (e', q')" using at(2) parts(1) Cons by (auto simp: copy_at_def)
      then show ?thesis using header_decodes(2) e(2) x Cons by auto
    qed simp
    then show ?thesis using at(1) parts(1) e(1) body by simp
  qed
qed

text \<open>A response whose last entry has a payload is appended unchanged, whatever the chunks are.\<close>

lemma copy_from_unchanged:
  assumes "fetch_body None all" and "wrote fw base" and "length (body_bytes all) \<le> m" and "fw_end fw = None"
    and "able m (2 * length (body_bytes all) + header_calls fw) fw" and "pending rd = body_bytes all" and "clean rd" and "\<And>k. closed k = None"
    and "all \<noteq> []" "snd (snd (last all)) \<noteq> []"
  shows "\<exists>fw'. copy_from reset_of closed rd fw = (Done (Inr ()), fw') \<and> wrote fw' (base @ body_bytes all) \<and> fw_end fw' = None \<and> fw_request_id fw' = fw_request_id fw"
proof -
  obtain cp' fw' where l: "copy_loop reset_of closed 0 rd copy_state_new fw = (Done (Inr cp'), fw')" "copy_inv (fw_request_id fw) m base all [] cp' fw'"
    using copy_loop_inv [where closed = closed, OF copy_inv_start [OF assms(1-6)] assms(7,8)] by blast
  note e = copy_inv_end [OF l(2)]
  have "cp_partial cp' = []"
  proof (rule ccontr)
    assume "cp_partial cp' \<noteq> []"
    then show False using e(3) assms(10) by auto
  qed
  then show ?thesis using e l(1) by (simp add: copy_from_def)
qed

text \<open>
  A last entry without payload whose header comes in two chunks: the header is collected, but the loop
  ends with the chunk and the header is never looked at again.
\<close>

lemma copy_chunk_header_split:
  "streams (decode_contiguous (cp_decoder cp)) h (e, q) \<Longrightarrow> cp_remaining cp = 0 \<Longrightarrow> cp_partial cp \<noteq> [] \<Longrightarrow> cp_partial cp @ chunk = h \<Longrightarrow>
   copy_chunk chunk cp fw = (Done (Inr (cp\<lparr>cp_partial := h\<rparr>)), fw)"
proof (induction "length chunk" arbitrary: chunk cp rule: less_induct)
  case less
  show ?case
  proof (cases "chunk = []")
    case True
    then show ?thesis using less.prems(4) by simp
  next
    case False
    then have "strict_prefix (cp_partial cp) h" using less.prems(4) by (auto simp: strict_prefix_def)
    then obtain n where n: "fetch_decoder_decode (cp_decoder cp) (cp_partial cp) = (Inl (More n), cp_decoder cp)"
      using header_decodes(3) [OF less.prems(1)] by blast
    define k where "k = min (max n 1) (length chunk)"
    have "length (drop k chunk) < length chunk" using False by (simp add: k_def)
    note IH = less.hyps [OF this, of "cp\<lparr>cp_partial := cp_partial cp @ take k chunk\<rparr>"]
    show ?thesis using IH less.prems False n by (simp add: copy_chunk.simps [of chunk] k_def Let_def)
  qed
qed

lemma copy_before_last:
  assumes "copy_inv i m base all b cp fw" and "all = ps @ [(a @ b, e, [])]" and "a \<noteq> []" "b \<noteq> []"
  shows "cp_remaining cp = 0 \<and> cp_partial cp = a \<and> (\<exists>q. streams (decode_contiguous (cp_decoder cp)) (a @ b) (e, q)) \<and> fw_end fw = None"
proof -
  obtain before parts sent pay where at: "all = before @ parts" "copy_at i m base before parts sent pay b cp fw"
    using assms(1) by (auto simp: copy_inv_def)
  have body: "cp_partial cp @ b = pay @ body_bytes parts" and fb: "fetch_body (cp_decoder cp) parts" and e: "fw_end fw = None" and lp: "length pay = cp_remaining cp"
    using at(2) by (simp_all add: copy_at_def)
  show ?thesis
  proof (cases "parts = []")
    case True
    then have "snd (snd (last before)) = []" using at(1) assms(2) by auto
    then have "pay = []" using at(2) by (auto simp: copy_at_def)
    then show ?thesis using body True assms(4) by simp
  next
    case False
    then obtain mid where mid: "parts = mid @ [(a @ b, e, [])]" using at(1) assms(2) by (metis append_butlast_last_id last_appendR last_snoc)
    have part: "cp_partial cp = pay @ body_bytes mid @ a" using body mid by simp
    then have ne: "cp_partial cp \<noteq> []" using assms(3) by simp
    then have pay: "pay = []" and pre: "prefix (cp_partial cp) (fst (hd parts))" using at(2) by (auto simp: copy_at_def)
    have "mid = []"
    proof (cases mid)
      case (Cons x ys)
      obtain h' e' p' where x: "x = (h', e', p')" by (rule prod_cases3)
      have "length (cp_partial cp) \<le> length h'" using pre mid Cons x prefix_length_le by fastforce
      then show ?thesis using part Cons x assms(3) by simp
    qed simp
    then show ?thesis using part pay lp mid fb e by auto
  qed
qed

lemma read_chunk_before_last:
  assumes "clean rd" and "rd_stream rd = s @ [Inr b]" and "rd_buffer rd \<noteq> [] \<or> s \<noteq> []" and "0 < n"
  shows "\<exists>chunk rd' s'. read_chunk n rd = (Inr (Some chunk), rd') \<and> clean rd' \<and> pending rd = chunk @ pending rd' \<and> rd_stream rd' = s' @ [Inr b]"
proof (cases "rd_buffer rd = []")
  case True
  then obtain x s' where "s = x # s'" using assms(3) by (cases s) auto
  then show ?thesis using True assms by (cases x) (auto simp: read_chunk_def pending_def clean_def Let_def intro: exI [of _ "Inr (drop n _) # s'"])
next
  case False
  then show ?thesis using assms by (auto simp: read_chunk_def pending_def clean_def Let_def)
qed

lemma copy_loop_misses_last:
  "copy_inv i m base all (pending rd) cp fw \<Longrightarrow> clean rd \<Longrightarrow> (\<And>k. closed k = None) \<Longrightarrow> all = ps @ [(a @ b, e, [])] \<Longrightarrow> a \<noteq> [] \<Longrightarrow> b \<noteq> [] \<Longrightarrow>
   rd_stream rd = s @ [Inr b] \<Longrightarrow> length b \<le> COPY_CHUNK_SIZE \<Longrightarrow>
   \<exists>cp' fw'. copy_loop reset_of closed n rd cp fw = (Done (Inr cp'), fw') \<and> cp_partial cp' = a @ b \<and> fw_end fw' = None"
proof (induction "input_left rd" arbitrary: n rd cp fw s rule: less_induct)
  case less
  show ?case
  proof (cases "rd_buffer rd = [] \<and> s = []")
    case True
    then have "pending rd = b" using less.prems(7) by (simp add: pending_def)
    note st = copy_before_last [OF less.prems(1)[unfolded this] less.prems(4-6)]
    then have "copy_chunk b cp fw = (Done (Inr (cp\<lparr>cp_partial := a @ b\<rparr>)), fw)"
      using copy_chunk_header_split [of cp "a @ b" e _ b] less.prems(5) by auto
    then show ?thesis using True less.prems(3,7,8) st
      by (simp add: copy_loop.simps read_stream_chunk_def read_chunk_def)
  next
    case False
    then obtain chunk rd' s' where r: "read_chunk COPY_CHUNK_SIZE rd = (Inr (Some chunk), rd')" "clean rd'" "pending rd = chunk @ pending rd'" "rd_stream rd' = s' @ [Inr b]"
      using read_chunk_before_last [OF less.prems(2,7), of COPY_CHUNK_SIZE] by (auto simp: COPY_CHUNK_SIZE_def)
    obtain cp1 fw1 where c: "copy_chunk chunk cp fw = (Done (Inr cp1), fw1)" "copy_inv i m base all (pending rd') cp1 fw1"
      using copy_chunk_inv less.prems(1) unfolding r(3) by blast
    have "input_left rd' < input_left rd" by (rule read_chunk_less [OF r(1)]) (simp add: COPY_CHUNK_SIZE_def)
    from less.hyps [OF this c(2) r(2) less.prems(3-6) r(4) less.prems(8), of "Suc n"] show ?thesis
      using r(1) c(1) less.prems(3) by (simp add: copy_loop.simps [of _ _ n] read_stream_chunk_def)
  qed
qed

lemma copy_from_misses_last:
  assumes "fetch_body None all" and "wrote fw base" and "length (body_bytes all) \<le> m" and "fw_end fw = None"
    and "able m (2 * length (body_bytes all) + header_calls fw) fw" and "pending rd = body_bytes all" and "clean rd" and "\<And>k. closed k = None"
    and "all = ps @ [(a @ b, e, [])]" "a \<noteq> []" "b \<noteq> []" "rd_stream rd = s @ [Inr b]" "length b \<le> COPY_CHUNK_SIZE"
  shows "\<exists>fw'. copy_from reset_of closed rd fw = (Done (Inl (SeServe SSize)), fw') \<and>
    fw_reset fw' = data_stream_reset_code_value RstMalformedTrack \<and> fw_end fw' = None"
proof -
  obtain cp' fw' where "copy_loop reset_of closed 0 rd copy_state_new fw = (Done (Inr cp'), fw')" "cp_partial cp' = a @ b" "fw_end fw' = None"
    using copy_loop_misses_last [where closed = closed, OF copy_inv_start [OF assms(1-6)] assms(7-13)] by blast
  then show ?thesis using assms(10) by (simp add: copy_from_def set_reset_def)
qed

section \<open>What the subscriber reads\<close>

text \<open>
  The upstream's entries refer only to each other, so they decode the same behind the stored objects:
  a decoder that remembers more than the sender assumed gives the same entry.
\<close>

lemma present_or_mono:
  assumes "present_or b d i r = Inr x" and "\<And>y. i = Inr y \<Longrightarrow> i' = Inr y"
  shows "present_or b d i' r = Inr x"
  using assms by (auto simp: present_or_def bindE_eq_Inr split: if_splits)

lemma subgroup_decode_mono: "subgroup_decode flags None r = Inr x \<Longrightarrow> subgroup_decode flags prior r = Inr x"
  by (auto simp: subgroup_decode_def prior_subgroup_def ok_or_def split: if_splits)

lemma decode_contiguous_mono:
  assumes "priors_agree prior prior'" and "decode_contiguous prior r = Inr ((e, q), r')"
  shows "\<exists>q'. decode_contiguous prior' r = Inr ((e, q'), r') \<and> priors_agree q q'"
proof (cases "prior = prior'")
  case True
  then show ?thesis using assms(2) by (auto simp: priors_agree_def)
next
  case False
  then have d: "decode_contiguous None r = Inr ((e, q), r')" using assms by (simp add: priors_agree_def)
  obtain flags r0 where f: "u64_decode r = Inr (flags, r0)" using d by (auto simp: decode_contiguous_def bindE_eq_Inr)
  show ?thesis
  proof (cases "flags \<ge> FIRST_NON_FLAG_VALUE")
    case True
    then show ?thesis using d f by (auto simp: decode_contiguous_def bindE_eq_Inr priors_agree_def)
  next
    case False
    obtain g r1 sg r2 ob r3 prio r4 ext r5 len where
        g: "present_or (flags AND GROUP_ID \<noteq> 0) u64_decode (bindE (ok_or None InvalidValue) (\<lambda>p. Inr (po_group_id p))) r0 = Inr (g, r1)"
      and sg: "subgroup_decode flags None r1 = Inr (sg, r2)"
      and ob: "present_or (flags AND OBJECT_ID \<noteq> 0) u64_decode
          (bindE (ok_or None InvalidValue) (\<lambda>p. ok_or (u64_checked_add (po_object_id p) 1) InvalidValue)) r2 = Inr (ob, r3)"
      and prio: "present_or (flags AND PRIORITY \<noteq> 0) u8_decode (bindE (ok_or None InvalidValue) (\<lambda>p. Inr (po_publisher_priority p))) r3 = Inr (prio, r4)"
      and rest: "present_or (flags AND EXTENSIONS \<noteq> 0) extension_headers_decode (Inr []) r4 = Inr (ext, r5)" "usize_decode r5 = Inr (len, r')"
        "e = FetchEntryObject \<lparr>fo_group_id = g, fo_subgroup_id = sg, fo_object_id = ob, fo_publisher_priority = prio, fo_extension_headers = ext, fo_payload_length = len\<rparr>"
        "q = Some (prior_of \<lparr>fo_group_id = g, fo_subgroup_id = sg, fo_object_id = ob, fo_publisher_priority = prio, fo_extension_headers = ext, fo_payload_length = len\<rparr>)"
      using d f False by (auto simp: decode_contiguous_def bindE_eq_Inr Let_def)
    show ?thesis using f False rest subgroup_decode_mono [OF sg, of prior'] present_or_mono [OF g] present_or_mono [OF ob] present_or_mono [OF prio]
      by (simp add: decode_contiguous_def ok_or_def priors_agree_def Let_def)
  qed
qed

definition part_items :: "fetch_part list \<Rightarrow> fetch_item list" where
  "part_items parts = map (\<lambda>(h, e, p). (e, p)) parts"

lemma body_received:
  "fetch_body prior parts \<Longrightarrow> priors_agree prior prior' \<Longrightarrow>
   receive_items (length parts) prior' (body_bytes parts @ r) = Inr (part_items parts, r)"
proof (induction parts arbitrary: prior prior')
  case Nil
  then show ?case by (simp add: part_items_def)
next
  case (Cons x parts)
  obtain h e p where x: "x = (h, e, p)" by (rule prod_cases3)
  then obtain q where q: "streams (decode_contiguous prior) h (e, q)" "length p = entry_payload_length e" "fetch_body q parts"
    using Cons.prems(1) by auto
  obtain q' where q': "decode_contiguous prior' (h @ p @ body_bytes parts @ r) = Inr ((e, q'), p @ body_bytes parts @ r)" "priors_agree q q'"
    using decode_contiguous_mono [OF Cons.prems(2) streamsD [OF q(1), of "p @ body_bytes parts @ r"]] by blast
  show ?case using q'(1) streamsD [OF streams_read_exact [OF q(2)], of "body_bytes parts @ r"] Cons.IH [OF q(3) q'(2)]
    by (simp add: x part_items_def)
qed

lemma receive_items_then:
  "receive_items n prior r = Inr (is, r') \<Longrightarrow>
   \<exists>q. \<forall>k js r''. receive_items k q r' = Inr (js, r'') \<longrightarrow> receive_items (n + k) prior r = Inr (is @ js, r'')"
proof (induction n arbitrary: prior r "is")
  case 0
  then show ?case by (auto intro: exI [of _ prior])
next
  case (Suc n)
  obtain e q p is' r1 r2 where d: "decode_contiguous prior r = Inr ((e, q), r1)" "read_exact (entry_payload_length e) r1 = Inr (p, r2)"
      "receive_items n q r2 = Inr (is', r')" "is = (e, p) # is'"
    using Suc.prems by (auto simp: bindE_eq_Inr)
  from Suc.IH [OF d(3)] show ?case using d by auto
qed

lemma response_received:
  assumes "fetch_image None is = Some bs" and "list_all item_ok is" and "fetch_body None parts"
  shows "receive_items (length is + length parts) None (bs @ body_bytes parts) = Inr (map item_normal is @ part_items parts, [])"
proof -
  have "receive_items (length is) None (bs @ body_bytes parts) = Inr (map item_normal is, body_bytes parts)"
    using streamsD [OF fetch_image_streams [OF assms(1,2)]] by (simp add: priors_agree_def)
  from receive_items_then [OF this] obtain q where
    "receive_items (length parts) q (body_bytes parts) = Inr (part_items parts, []) \<Longrightarrow> ?thesis"
    by blast
  then show ?thesis using body_received [OF assms(3), of q "[]"] by (simp add: priors_agree_def)
qed

section \<open>The request is answered\<close>

text \<open>A request that is open and has no answer yet.\<close>

definition unanswered :: "u64 \<Rightarrow> pub_st \<Rightarrow> bool" where
  "unanswered i st = (case pb_fetch_states (snd st) i of None \<Rightarrow> False | Some s \<Rightarrow> w_open s \<and> w_value s = None)"

lemma answer_and_drop_unanswered:
  assumes "unanswered i st"
  shows "\<exists>pb. answer_and_drop msg i st = (Inr (), push_outgoing msg (fst st), pb)"
proof -
  obtain s where s: "pb_fetch_states (snd st) i = Some s" "w_open s" "w_value s = None"
    using assms by (auto simp: unanswered_def split: option.splits)
  define s' where "s' = snd (notify (s\<lparr>w_value := Some SDone\<rparr>))"
  have "claim_response s = (Inr (), s')" "claim_response s' = (Inl SDone, s')" using s by (simp_all add: claim_response_def with_mut_def s'_def notify_def)
  then show ?thesis using s(1)
    by (cases st) (simp add: answer_and_drop_def fetch_requested_answer_def fetch_respond_def fetch_requested_dropped_def fetch_requested_drop_def)
qed

section \<open>A response with an upstream's part\<close>

text \<open>
  Stored objects that can be encoded, an upstream stream of whole entries that ends cleanly, and a
  stream to the subscriber that takes all of it.
\<close>

definition upstream_ready ::
    "fetch_requested \<Rightarrow> fetch_response_object list \<Rightarrow> bytes \<Rightarrow> fetch_part list \<Rightarrow> 'e reader \<Rightarrow> 'e sg_output \<Rightarrow> bool" where
  "upstream_ready fq obs bs parts rd out \<longleftrightarrow>
     fetch_image None (map stored_item obs) = Some bs \<and> list_all item_ok (map stored_item obs) \<and>
     fetch_body None parts \<and> clean rd \<and> pending rd = body_bytes parts \<and> ou_wire out = [] \<and>
     able (length (bs @ body_bytes parts) + length (header_bytes (fq_id fq))) (object_calls obs + 2 * length (body_bytes parts) + 1)
       (fetch_writer_new out (fq_id fq) (fq_subscriber_priority fq))"

lemma upstream_begins:
  assumes "upstream_ready fq obs bs parts rd out"
  defines "m \<equiv> length (bs @ body_bytes parts) + length (header_bytes (fq_id fq))"
  obtains fw where "write_objects obs (fetch_writer_new out (fq_id fq) (fq_subscriber_priority fq)) = (Done (Inr ()), fw)"
    "wrote fw bs" "able m (2 * length (body_bytes parts) + header_calls fw) fw" "fw_end fw = None" "fw_request_id fw = fq_id fq"
proof -
  define fw0 where "fw0 = fetch_writer_new out (fq_id fq) (fq_subscriber_priority fq)"
  have f0: "wrote fw0 []" "fw_encoder fw0 = None" "fw_end fw0 = None" "\<not> fw_header_written fw0" "fw_request_id fw0 = fq_id fq"
    using assms(1) by (simp_all add: fw0_def upstream_ready_def fetch_writer_new_def wrote_def)
  have a: "able m (2 * length (body_bytes parts) + object_calls obs + header_calls fw0) fw0"
    using assms(1) f0(4) by (simp add: upstream_ready_def fw0_def m_def algebra_simps)
  have img: "fetch_image (fw_encoder fw0) (map stored_item obs) = Some bs" "list_all item_ok (map stored_item obs)"
    using assms(1) f0(2) by (simp_all add: upstream_ready_def)
  obtain fw where w: "write_objects obs fw0 = (Done (Inr ()), fw)" "able m (2 * length (body_bytes parts) + header_calls fw) fw"
    using write_objects_able [OF a img(1) _ img(2) f0(1)] by (auto simp: m_def)
  then show thesis using that write_objects_done [OF w(1) f0(1)] img(1) f0 write_end(5) [of obs fw0] by (auto simp: fw0_def)
qed

text \<open>At most one message goes out, and it is the answer or, if there was none, the error of a dropped request.\<close>

lemma claim_response_once: "claim_response s = (Inr u, s') \<Longrightarrow> \<exists>e. claim_response s' = (Inl e, s')"
  by (auto simp: claim_response_def with_mut_def notify_def split: option.splits if_splits)

lemma claim_response_refused: "claim_response s = (Inl e, s') \<Longrightarrow> s' = s"
  by (auto simp: claim_response_def split: option.splits prod.splits)

definition answered_by :: "message set \<Rightarrow> pub_st \<Rightarrow> pub_st \<Rightarrow> bool" where
  "answered_by ms st st' \<longleftrightarrow> (\<exists>msgs. fst st' = fold push_outgoing msgs (fst st) \<and> length msgs \<le> 1 \<and> set msgs \<subseteq> ms)"

lemma answered_byI: "fst st' = fst st \<Longrightarrow> answered_by ms st st'" "fst st' = push_outgoing m (fst st) \<Longrightarrow> m \<in> ms \<Longrightarrow> answered_by ms st st'"
  unfolding answered_by_def by (rule exI [of _ "[]"], simp) (rule exI [of _ "[m]"], simp)

lemma fetch_requested_dropped_answers:
  "answered_by {fetch_reject_message i ReqInternalError ''fetch request dropped''} st (fetch_requested_dropped i st)"
proof (cases "pb_fetch_states (snd st) i")
  case (Some s)
  then show ?thesis
    by (cases st; cases "claim_response s"; cases "fst (claim_response s)")
      (auto simp: fetch_requested_dropped_def fetch_requested_drop_def intro: answered_byI)
qed (auto simp: fetch_requested_dropped_def split: prod.splits intro: answered_byI)

lemma answer_and_drop_answers:
  assumes "answer_and_drop m i st = (res, st')"
  shows "answered_by {m} st st'"
proof (cases "pb_fetch_states (snd st) i")
  case None
  then show ?thesis using assms
    by (cases st) (auto simp: answer_and_drop_def fetch_requested_answer_def fetch_requested_dropped_def intro: answered_byI)
next
  case (Some s)
  obtain r s1 where c: "claim_response s = (r, s1)" by (rule prod.exhaust)
  show ?thesis
  proof (cases r)
    case (Inl e)
    then have "claim_response s = (Inl e, s)" using c claim_response_refused by blast
    then show ?thesis using Some assms
      by (cases st) (auto simp: answer_and_drop_def fetch_requested_answer_def fetch_respond_def fetch_requested_dropped_def fetch_requested_drop_def intro: answered_byI)
  next
    case (Inr u)
    then obtain e where "claim_response s1 = (Inl e, s1)" using c claim_response_once by blast
    then show ?thesis using Some assms c Inr
      by (cases st) (auto simp: answer_and_drop_def fetch_requested_answer_def fetch_respond_def fetch_requested_dropped_def fetch_requested_drop_def intro: answered_byI)
  qed
qed

text \<open>Serving from storage ends in one of four ways.\<close>

lemma and_then_cases:
  assumes "and_then r k = (x, fw')"
  obtains fw v where "r = (Done (Inr v), fw)" "k fw = (x, fw')" | "r = (x, fw')"
  using assms by (cases r) (auto simp: and_then_def split: progress.splits sum.splits)

lemma write_local_open:
  assumes "write_local obs unknown_through fin fw = (r, fw')" and "fw_end fw = None" and "r \<noteq> Done (Inr ())"
  shows "fw_end fw' = None"
proof -
  from assms(1) [unfolded write_local_def] show ?thesis
  proof (cases rule: and_then_cases)
    case (1 fw1 v)
    then have e: "fw_end fw1 = None" using write_end(5) [of obs fw] assms(2) by simp
    then have e2: "fw_end (snd (case unknown_through of None \<Rightarrow> (Done (Inr ()), fw1) | Some loc \<Rightarrow> write_end_of_range UnknownRange loc fw1)) = None"
      by (cases unknown_through) simp_all
    from 1(2) show ?thesis
    proof (cases rule: and_then_cases)
      case (1 fw2 v)
      then have "fw_end fw2 = None" using e2 by simp
      then show ?thesis using fw_finish_end [OF _ 1(2)] assms(3) by simp
    next
      case 2
      then show ?thesis using e2 by simp
    qed
  next
    case 2
    then show ?thesis using write_end(5) [of obs fw] assms(2) by simp
  qed
qed

lemma serve_local_cases:
  assumes "serve_local fq obs unknown_through end_of_track end_location (Done (Inr out)) fin closed st = (Done res, stream, st')"
  obtains fw where "write_local obs unknown_through fin (fetch_writer_new out (fq_id fq) (fq_subscriber_priority fq)) = (Done (Inr ()), fw)"
      "stream = Some (fw_drop fw)" "\<exists>ok. answered_by {FetchOk ok} st st'"
    | r fw where "write_local obs unknown_through fin (fetch_writer_new out (fq_id fq) (fq_subscriber_priority fq)) = (r, fw)" "r \<noteq> Done (Inr ())"
      "stream = Some (fw_drop fw) \<or> stream = Some (fw_drop (set_reset RstCancelled fw))" "isl res" "\<exists>e. answered_by {RequestError e} st st'"
proof -
  obtain r fw where w: "write_local obs unknown_through fin (fetch_writer_new out (fq_id fq) (fq_subscriber_priority fq)) = (r, fw)" by (rule prod.exhaust)
  define ok where "ok = \<lparr>fok_id = fq_id fq, fok_end_of_track = end_of_track, fok_end_location = end_location, fok_params = [], fok_track_extensions = []\<rparr>"
  obtain r1 st1 where a1: "answer_and_drop (FetchOk ok) (fq_id fq) st = (r1, st1)" by (rule prod.exhaust)
  obtain r2 st2 where a2: "answer_and_drop (fetch_reject_message (fq_id fq) ReqInternalError ''fetch response failed'') (fq_id fq) st = (r2, st2)" by (rule prod.exhaust)
  consider "r = Waiting" | e where "r = Done (Inl e)" | "r = Done (Inr ())" by (cases r; cases "case r of Done x \<Rightarrow> x") auto
  then show thesis
  proof cases
    case 1
    then obtain e where e: "closed = Some e" using assms w by (cases closed) (auto simp: serve_local_def Let_def)
    then have "st' = fetch_requested_dropped (fq_id fq) st" using assms w 1 by (simp add: serve_local_def Let_def)
    then have "\<exists>e. answered_by {RequestError e} st st'" using fetch_requested_dropped_answers [of "fq_id fq" st] by (auto simp: fetch_reject_message_def)
    then show thesis using that(2) [OF w] assms w 1 e by (auto simp: serve_local_def Let_def)
  next
    case (2 e)
    have "\<exists>e. answered_by {RequestError e} st st2" using answer_and_drop_answers [OF a2] by (auto simp: fetch_reject_message_def)
    then show thesis using that(2) [OF w] assms w 2 a2 by (auto simp: serve_local_def Let_def)
  next
    case 3
    show thesis using that(1) assms w 3 a1 answer_and_drop_answers [OF a1] by (auto simp: serve_local_def Let_def ok_def)
  qed
qed

end
