(* ===== verification/Relay_Fetch.thy ===== *)
theory Relay_Fetch
  imports Fetch_Laws Locals
begin

text \<open>
  How the relay answers a FETCH (\<^verbatim>\<open>serve_fetch\<close> in \<^verbatim>\<open>moq-relay-ietf/src/producer.rs\<close>): from retained groups
  when they have the whole range, otherwise with the help of an upstream, which is asked for exactly the
  part that is missing.
\<close>

section \<open>The request\<close>

definition upstream_fetch_params :: "kvps \<Rightarrow> decode_error + kvps" where
  "upstream_fetch_params params =
     bindE (get_group_order params) (\<lambda>order.
       Inr (case order of None \<Rightarrow> [] | Some order \<Rightarrow> set_group_order order []))"

text \<open>What retained groups did not answer.\<close>

datatype unserved =
    UnservedPartial "fetch_response_object list" location location location
  | UnservedBeyondLargest
  | UnservedNothingPublished
  | UnservedNotRetained

fun unserved_of :: "fetch_plan option \<Rightarrow> unserved" where
  "unserved_of (Some (Partial objects first_unknown last_location end_location)) = UnservedPartial objects first_unknown last_location end_location"
| "unserved_of (Some BeyondLargest) = UnservedBeyondLargest"
| "unserved_of (Some NothingPublished) = UnservedNothingPublished"
| "unserved_of _ = UnservedNotRetained"

text \<open>
  In ascending order the rest of the range is one range, and its start is what upstream is asked for.
\<close>

definition splice_from :: "group_order \<Rightarrow> unserved \<Rightarrow> location option" where
  "splice_from order u =
     (case u of
        UnservedPartial objects first_unknown _ _ \<Rightarrow> if order = Ascending \<and> objects \<noteq> [] then Some first_unknown else None
      | _ \<Rightarrow> None)"

definition upstream_request :: "group_order \<Rightarrow> unserved \<Rightarrow> standalone_fetch \<Rightarrow> standalone_fetch" where
  "upstream_request order u standalone =
     (case splice_from order u of Some start \<Rightarrow> standalone\<lparr>sfe_start_location := start\<rparr> | None \<Rightarrow> standalone)"

definition retained_prefix :: "group_order \<Rightarrow> unserved \<Rightarrow> fetch_response_object list" where
  "retained_prefix order u =
     (case (splice_from order u, u) of (Some _, UnservedPartial objects _ _ _) \<Rightarrow> objects | _ \<Rightarrow> [])"

section \<open>Serving it\<close>

text \<open>
  What comes of routing the request upstream: the request is closed or times out first, the route fails, or there is
  an upstream stream or no upstream at all. A stream is given by what it will deliver.
\<close>

record 'e upstream_fetch =
  uf_stream :: "'e reader"
  uf_closed :: "nat \<Rightarrow> serve_error option"
  uf_ok :: "(serve_error + fetch_ok) progress"
  uf_error :: "serve_error + request_error option"

datatype 'e routed = RouteClosed | RouteTimedOut | RouteFailed | Routed "'e upstream_fetch option"

datatype 'e fetch_failure = MissingRange | InvalidParams decode_error | UpstreamFailed | ServeFailed "'e session_error"

type_synonym 'e fetch_outcome = "('e fetch_failure + unit) progress \<times> 'e fetch_writer option \<times> pub_st"

definition rejecting :: "u64 \<Rightarrow> request_error_code \<Rightarrow> string \<Rightarrow> 'e fetch_failure + unit \<Rightarrow> pub_st \<Rightarrow> 'e fetch_outcome" where
  "rejecting i code reason res st =
     (case answer_and_drop (fetch_reject_message i code reason) i st of
        (Inl e, st) \<Rightarrow> (Done (Inl (ServeFailed (SeServe e))), None, st)
      | (Inr _, st) \<Rightarrow> (Done res, None, st))"

definition serving :: "('e session_error + unit) progress \<times> 'e fetch_writer option \<times> pub_st \<Rightarrow> 'e fetch_outcome" where
  "serving r =
     (case r of (res, fw, st) \<Rightarrow>
        ((case res of Waiting \<Rightarrow> Waiting | Done (Inl e) \<Rightarrow> Done (Inl (ServeFailed e)) | Done (Inr _) \<Rightarrow> Done (Inr ())), fw, st))"

text \<open>
  \<^verbatim>\<open>serve_unserved\<close> is the second half, behind the retained plan; \<^verbatim>\<open>route\<close> is what asking for the request gives.
\<close>

definition serve_unserved ::
    "('e \<Rightarrow> u32 option) \<Rightarrow> fetch_requested \<Rightarrow> unserved \<Rightarrow> 'e routed \<Rightarrow>
     ('e session_error + 'e sg_output) progress \<Rightarrow> 'e option \<Rightarrow> interruption option \<Rightarrow> pub_st \<Rightarrow> 'e fetch_outcome" where
  "serve_unserved reset_of fq u route opened fin interrupted st =
     (case route of
        RouteClosed \<Rightarrow> (Done (Inr ()), None, fetch_requested_dropped (fq_id fq) st)
      | RouteTimedOut \<Rightarrow> rejecting (fq_id fq) ReqTimeout ''FETCH routing timed out'' (Inr ()) st
      | RouteFailed \<Rightarrow> rejecting (fq_id fq) ReqInternalError ''failed to open upstream FETCH'' (Inl UpstreamFailed) st
      | Routed (Some up) \<Rightarrow>
          serving (fetch_serve reset_of fq (retained_prefix (fq_group_order fq) u)
            (RestUpstream (uf_stream up) (uf_closed up) (uf_ok up) (uf_error up)) opened fin interrupted st)
      | Routed None \<Rightarrow>
          (case u of
             UnservedPartial objects _ last_location end_location \<Rightarrow>
               serving (fetch_serve reset_of fq objects (RestUnknown last_location end_location) opened fin interrupted st)
           | UnservedBeyondLargest \<Rightarrow> rejecting (fq_id fq) ReqInvalidRange ''fetch starts after the largest object'' (Inr ()) st
           | UnservedNothingPublished \<Rightarrow> rejecting (fq_id fq) ReqInvalidRange ''no objects have been published on the track'' (Inr ()) st
           | UnservedNotRetained \<Rightarrow> rejecting (fq_id fq) ReqDoesNotExist ''track not found'' (Inr ()) st))"

text \<open>
  \<^verbatim>\<open>retained\<close> gives the largest live location and the groups of a retained track; \<^verbatim>\<open>closed\<close> tells whether the request
  is closed when it is looked at first; \<^verbatim>\<open>route\<close> is what comes of the upstream request and its parameters.
\<close>

definition serve_fetch ::
    "('e \<Rightarrow> u32 option) \<Rightarrow> string option \<Rightarrow> (nat \<Rightarrow> location option \<times> retained_groups) \<Rightarrow> fetch_requested \<Rightarrow> bool \<Rightarrow>
     (standalone_fetch \<Rightarrow> kvps \<Rightarrow> 'e routed) \<Rightarrow> ('e session_error + 'e sg_output) progress \<Rightarrow> 'e option \<Rightarrow> interruption option \<Rightarrow>
     locals \<times> pub_st \<Rightarrow> ('e fetch_failure + unit) progress \<times> 'e fetch_writer option \<times> locals \<times> pub_st" where
  "serve_fetch reset_of scope retained fq closed route opened fin interrupted s =
     (case s of (lc, st) \<Rightarrow>
        case ft_standalone_fetch (fq_request fq) of
          None \<Rightarrow> (Done (Inl MissingRange), None, lc, fetch_requested_dropped (fq_id fq) st)
        | Some standalone \<Rightarrow>
            (case upstream_fetch_params (ft_params (fq_request fq)) of
               Inl e \<Rightarrow>
                 (case rejecting (fq_id fq) ReqInternalError ''invalid FETCH parameters'' (Inl (InvalidParams e)) st of
                    (res, fw, st) \<Rightarrow> (res, fw, lc, st))
             | Inr params \<Rightarrow>
                 if closed then (Done (Inr ()), None, lc, fetch_requested_dropped (fq_id fq) st)
                 else
                   (case retained_track scope \<lparr>ftn_namespace = sfe_track_namespace standalone, ftn_name = sfe_track_name standalone\<rparr> lc of
                      (track, lc) \<Rightarrow>
                        let plan = map_option (\<lambda>i. plan (fst (retained i)) (snd (retained i)) (sfe_start_location standalone)
                              (sfe_end_location standalone) (fq_group_order fq)) track in
                        (case (case plan of
                            Some (Complete objects end_location) \<Rightarrow>
                              serving (fetch_serve reset_of fq objects (RestComplete False end_location) opened fin interrupted st)
                          | _ \<Rightarrow>
                              let u = unserved_of plan in
                              serve_unserved reset_of fq u (route (upstream_request (fq_group_order fq) u standalone) params) opened fin interrupted st) of
                           (res, fw, st) \<Rightarrow> (res, fw, lc, st)))))"

end
