(* ===== verification/Fetch_Properties.thy ===== *)
theory Fetch_Properties
  imports Relay_Fetch Relay_Properties Stream_Properties Session_Loop
begin

text \<open>The properties of serving a FETCH request, by a publisher and by the relay.\<close>

lemma header_written_nonempty: "wrote fw sent \<Longrightarrow> sent \<noteq> [] \<Longrightarrow> fw_header_written fw"
  by (auto simp: wrote_def split: if_splits)

lemma body_bytes_empty: "fetch_body prior parts \<Longrightarrow> parts \<noteq> [] \<Longrightarrow> body_bytes parts \<noteq> []"
  by (cases parts) (auto dest: header_decodes(2))

text \<open>A stored object, an upstream object and an upstream marker, on a transport that takes a byte at a time.\<close>

definition stored_sample :: fetch_response_object where
  "stored_sample = \<lparr>fro_object = fetch_object_a, fro_payload = [[], [7]]\<rparr>"

definition object_sample :: fetch_part where
  "object_sample = ([0x1c, 3, 1, 9, 1], FetchEntryObject fetch_object_a, [8])"

definition marker_sample :: fetch_part where
  "marker_sample = ([0x41, 0x0c, 3, 1], EndOfRange UnknownRange (Location_new 3 1), [])"

definition fetch_sample :: fetch_requested where
  "fetch_sample = \<lparr>fq_id = 2, fq_subscriber_priority = 128, fq_group_order = Ascending,
     fq_request = \<lparr>ft_id = 2, ft_fetch_type = Standalone, ft_standalone_fetch = None, ft_joining_fetch = None, ft_params = []\<rparr>\<rparr>"

definition publisher_sample :: pub_st where
  "publisher_sample = (session_core_new 1 10 10 0, (publisher_new Draft16)\<lparr>pb_fetch_states := [2 \<mapsto> watched_new None]\<rparr>)"

definition output_sample :: "unit sg_output" where
  "output_sample = \<lparr>ou_wire = [], ou_calls = replicate 24 (replicate 24 (Inr 1))\<rparr>"

definition ok_sample :: fetch_ok where
  "ok_sample = \<lparr>fok_id = 9, fok_end_of_track = False, fok_end_location = Location_new 3 2, fok_params = [], fok_track_extensions = []\<rparr>"

lemma encode_samples:
  "\<exists>q n. encode_entry None (FetchEntryObject fetch_object_a) fresh_vec = Inr (q, \<lparr>wr_bytes = [0x1c, 3, 1, 9, 1], wr_room = n\<rparr>)"
  "\<exists>q n. encode_entry None (EndOfRange UnknownRange (Location_new 3 1)) fresh_vec = Inr (q, \<lparr>wr_bytes = [0x41, 0x0c, 3, 1], wr_room = n\<rparr>)"
  "\<exists>n. fetch_header_encode \<lparr>fh_header_type = FetchHeaderType, fh_request_id = 2\<rparr> fresh_vec = Inr \<lparr>wr_bytes = [5, 2], wr_room = n\<rparr>"
proof -
  show "\<exists>q n. encode_entry None (FetchEntryObject fetch_object_a) fresh_vec = Inr (q, \<lparr>wr_bytes = [0x1c, 3, 1, 9, 1], wr_room = n\<rparr>)"
    unfolding encode_entry_def encode_object_def
    by (simp add: fetch_object_a_def is_none_or_def fetch_object_a_flags enc_when_def SUBGROUP_MASK_def SUBGROUP_PRESENT_def DATAGRAM_def data_eval)
  show "\<exists>q n. encode_entry None (EndOfRange UnknownRange (Location_new 3 1)) fresh_vec = Inr (q, \<lparr>wr_bytes = [0x41, 0x0c, 3, 1], wr_room = n\<rparr>)"
    by (simp add: encode_entry_def encode_end_of_range_def END_OF_UNKNOWN_RANGE_def Location_new_def data_eval)
  show "\<exists>n. fetch_header_encode \<lparr>fh_header_type = FetchHeaderType, fh_request_id = 2\<rparr> fresh_vec = Inr \<lparr>wr_bytes = [5, 2], wr_room = n\<rparr>"
    by (simp add: fetch_header_encode_def stream_header_type_encode_def data_eval)
qed

lemma header_sample: "header_bytes 2 = [5, 2]"
  using encode_samples(3) by (auto simp: header_bytes_def)

lemma body_of_entry:
  assumes "\<exists>q n. encode_entry None entry fresh_vec = Inr (q, \<lparr>wr_bytes = h, wr_room = n\<rparr>)" and "fst (item_normal (entry, [])) = entry"
    and "length p = entry_payload_length entry"
  shows "fetch_body None [(h, entry, p)]"
proof -
  obtain q n where "encode_entry None entry fresh_vec = Inr (q, \<lparr>wr_bytes = h, wr_room = n\<rparr>)" using assms(1) by blast
  then obtain q' where "streams (decode_contiguous None) (wr_bytes \<lparr>wr_bytes = h, wr_room = n\<rparr>) (fst (item_normal (entry, [])), q')"
    by (rule encoded_entry_streams) (simp add: priors_agree_def)
  then show ?thesis using assms(2,3) by auto
qed

lemma body_samples: "fetch_body None [object_sample]" "fetch_body None [marker_sample]"
proof -
  have "fst (item_normal (FetchEntryObject fetch_object_a, [])) = FetchEntryObject fetch_object_a" "length [8 :: u8] = entry_payload_length (FetchEntryObject fetch_object_a)"
    by code_simp+
  then show "fetch_body None [object_sample]" unfolding object_sample_def by (rule body_of_entry [OF encode_samples(1)])
  have "fst (item_normal (EndOfRange k l, [])) = EndOfRange k l" "length [] = entry_payload_length (EndOfRange k l)" for k l
    by (simp_all add: item_normal_def entry_payload_length_def)
  then show "fetch_body None [marker_sample]" unfolding marker_sample_def by (rule body_of_entry [OF encode_samples(2)])
qed

lemma ready_sample: "fetch_body None [part] \<Longrightarrow> length (body_bytes [part]) \<le> 6 \<Longrightarrow> clean rd \<Longrightarrow> pending rd = body_bytes [part] \<Longrightarrow>
  upstream_ready fetch_sample [stored_sample] [0x1c, 3, 1, 9, 1, 7] [part] rd output_sample"
proof -
  assume part: "fetch_body None [part]" "length (body_bytes [part]) \<le> 6" and rd: "clean rd" "pending rd = body_bytes [part]"
  obtain q n where "encode_entry None (FetchEntryObject fetch_object_a) fresh_vec = Inr (q, \<lparr>wr_bytes = [0x1c, 3, 1, 9, 1], wr_room = n\<rparr>)"
    using encode_samples(1) by blast
  then have img: "fetch_image None (map stored_item [stored_sample]) = Some [0x1c, 3, 1, 9, 1, 7]" by (simp add: stored_item_def stored_sample_def)
  have ok: "list_all item_ok (map stored_item [stored_sample])" by code_simp
  have acc: "accepting (length ([0x1c, 3, 1, 9, 1, 7 :: u8] @ body_bytes [part]) + length (header_bytes 2)) (replicate 24 (Inr 1) :: (unit + nat) list)"
    using part(2) by (simp add: accepting_def header_sample list_all_length)
  have calls: "object_calls [stored_sample] = 3" by code_simp
  have "able (length ([0x1c, 3, 1, 9, 1, 7 :: u8] @ body_bytes [part]) + length (header_bytes 2)) (object_calls [stored_sample] + 2 * length (body_bytes [part]) + 1)
      (fetch_writer_new output_sample 2 128)"
    using acc part(2) encode_samples(3) by (auto simp: able_def fetch_writer_new_def output_sample_def calls list_all_length)
  then show ?thesis using img ok part rd by (simp add: upstream_ready_def fetch_sample_def output_sample_def)
qed

lemma publisher_sample_unanswered: "unanswered (fq_id fetch_sample) publisher_sample"
  by (simp add: unanswered_def publisher_sample_def fetch_sample_def watched_new_def)

lemma serve_upstream_outcome:
  assumes ready: "upstream_ready fq obs bs parts rd out" and last: "parts \<noteq> []" "snd (snd (last parts)) \<noteq> []"
    and open_request: "unanswered (fq_id fq) st"
  shows "\<exists>fw pb.
    fetch_serve reset_of fq obs (RestUpstream rd (\<lambda>_. None) (Done (Inr response)) request_error) (Done (Inr out)) None interrupted st =
      (Done (Inr ()), Some fw, push_outgoing (FetchOk (proxied_response response (fq_id fq))) (fst st), pb) \<and>
    fw_end fw = Some None \<and> ou_wire (fw_out fw) = header_bytes (fq_id fq) @ bs @ body_bytes parts \<and>
    receive_items (length obs + length parts) None (bs @ body_bytes parts) = Inr (map (item_normal \<circ> stored_item) obs @ part_items parts, [])"
proof -
  obtain fw where w: "write_objects obs (fetch_writer_new out (fq_id fq) (fq_subscriber_priority fq)) = (Done (Inr ()), fw)"
      "wrote fw bs" "able (length (bs @ body_bytes parts) + length (header_bytes (fq_id fq))) (2 * length (body_bytes parts) + header_calls fw) fw"
      "fw_end fw = None" "fw_request_id fw = fq_id fq"
    by (rule upstream_begins [OF ready])
  have r: "fetch_body None parts" "clean rd" "pending rd = body_bytes parts" using ready by (simp_all add: upstream_ready_def)
  obtain fw1 where c: "copy_from reset_of (\<lambda>_. None) rd fw = (Done (Inr ()), fw1)" "wrote fw1 (bs @ body_bytes parts)" "fw_end fw1 = None" "fw_request_id fw1 = fq_id fq"
    using copy_from_unchanged [OF r(1) w(2) _ w(4,3) r(3,2) refl last, of reset_of] w(5) by auto
  have h: "fw_header_written fw1" using header_written_nonempty [OF c(2)] body_bytes_empty [OF r(1) last(1)] by simp
  have f: "fw_finish None fw1 = (Done (Inr ()), fw1\<lparr>fw_end := Some None\<rparr>)" using h by (simp add: fw_finish_def write_header_def and_then_def)
  obtain pb where a: "answer_and_drop (FetchOk (proxied_response response (fq_id fq))) (fq_id fq) st =
      (Inr (), push_outgoing (FetchOk (proxied_response response (fq_id fq))) (fst st), pb)"
    using answer_and_drop_unanswered [OF open_request] by blast
  have "receive_items (length obs + length parts) None (bs @ body_bytes parts) = Inr (map (item_normal \<circ> stored_item) obs @ part_items parts, [])"
    using response_received [of "map stored_item obs" bs parts] ready by (simp add: upstream_ready_def)
  then show ?thesis using w(1) c f a h
    by (simp add: fetch_serve_def serve_with_upstream_def write_with_upstream_def and_then_def fw_drop_def wrote_def Let_def)
qed

text \<open>
  C24. Objects from the publisher's storage followed by an upstream response: if the upstream's stream is
  complete, its last entry has a payload and the transport takes the bytes, then over any chunking of the upstream the response
  stream is the header, the encoded objects and the upstream's bytes unchanged, it is finished, the
  upstream's FETCH_OK goes out under the subscriber's request id as the only answer, and the subscriber decodes from the
  stream exactly the stored objects and then the upstream's entries with their payloads.
\<close>

theorem upstream_fetch_is_forwarded:
  assumes ready: "upstream_ready fq obs bs parts rd out" and last: "parts \<noteq> []" "snd (snd (last parts)) \<noteq> []"
    and open_request: "unanswered (fq_id fq) st"
  shows "\<exists>fw pb.
    fetch_serve reset_of fq obs (RestUpstream rd (\<lambda>_. None) (Done (Inr response)) request_error) (Done (Inr out)) None interrupted st =
      (Done (Inr ()), Some fw, push_outgoing (FetchOk (proxied_response response (fq_id fq))) (fst st), pb) \<and>
    fw_end fw = Some None \<and> ou_wire (fw_out fw) = header_bytes (fq_id fq) @ bs @ body_bytes parts \<and>
    receive_items (length obs + length parts) None (bs @ body_bytes parts) = Inr (map (item_normal \<circ> stored_item) obs @ part_items parts, [])"
  using assms by (rule serve_upstream_outcome)

definition split_object :: "unit reader" where
  "split_object = \<lparr>rd_buffer = [], rd_stream = [Inr [0x1c, 3], Inr [1, 9], Inr [1, 8]]\<rparr>"

theorem upstream_fetch_is_forwarded_witness:
  "\<exists>fw pb. fetch_serve (\<lambda>_. None) fetch_sample [stored_sample]
      (RestUpstream split_object (\<lambda>_. None) (Done (Inr ok_sample)) (Inr None)) (Done (Inr output_sample)) None None publisher_sample =
        (Done (Inr ()), Some fw, push_outgoing (FetchOk (proxied_response ok_sample 2)) (fst publisher_sample), pb) \<and>
     fw_end fw = Some None \<and> ou_wire (fw_out fw) = [5, 2, 0x1c, 3, 1, 9, 1, 7, 0x1c, 3, 1, 9, 1, 8]"
proof -
  have "upstream_ready fetch_sample [stored_sample] [0x1c, 3, 1, 9, 1, 7] [object_sample] split_object output_sample"
    by (rule ready_sample [OF body_samples(1)]) (code_simp+)
  from upstream_fetch_is_forwarded [OF this _ _ publisher_sample_unanswered, of "\<lambda>_. None" ok_sample "Inr None" None]
  show ?thesis by (simp add: object_sample_def fetch_sample_def header_sample) blast
qed

text \<open>
  C33. Under the same conditions, but with a last entry that has no payload (an end-of-range marker or an
  empty object) whose header arrives split over the last two chunks: although the upstream's stream is
  complete, the response stream is reset with MALFORMED_TRACK and the request is answered with an error.
\<close>

theorem complete_upstream_fetch_is_reset:
  assumes ready: "upstream_ready fq obs bs parts rd out" and last: "parts = ps @ [(a @ b, entry, [])]" "a \<noteq> []" "b \<noteq> []"
    and chunks: "rd_stream rd = s @ [Inr b]" "length b \<le> COPY_CHUNK_SIZE" and open_request: "unanswered (fq_id fq) st"
  shows "\<exists>fw pb.
    fetch_serve reset_of fq obs (RestUpstream rd (\<lambda>_. None) (Done (Inr response)) (Inr None)) (Done (Inr out)) None interrupted st =
      (Done (Inl (SeServe SSize)), Some fw,
       push_outgoing (fetch_reject_message (fq_id fq) ReqInternalError ''fetch proxy failed'') (fst st), pb) \<and>
    fw_end fw = Some (Some (data_stream_reset_code_value RstMalformedTrack))"
proof -
  obtain fw where w: "write_objects obs (fetch_writer_new out (fq_id fq) (fq_subscriber_priority fq)) = (Done (Inr ()), fw)"
      "wrote fw bs" "able (length (bs @ body_bytes parts) + length (header_bytes (fq_id fq))) (2 * length (body_bytes parts) + header_calls fw) fw"
      "fw_end fw = None" "fw_request_id fw = fq_id fq"
    by (rule upstream_begins [OF ready])
  have r: "fetch_body None parts" "clean rd" "pending rd = body_bytes parts" using ready by (simp_all add: upstream_ready_def)
  obtain fw1 where c: "copy_from reset_of (\<lambda>_. None) rd fw = (Done (Inl (SeServe SSize)), fw1)"
      "fw_reset fw1 = data_stream_reset_code_value RstMalformedTrack" "fw_end fw1 = None"
    using copy_from_misses_last [OF r(1) w(2) _ w(4,3) r(3,2) refl last chunks, of reset_of] by auto
  obtain pb where "answer_and_drop (fetch_reject_message (fq_id fq) ReqInternalError ''fetch proxy failed'') (fq_id fq) st =
      (Inr (), push_outgoing (fetch_reject_message (fq_id fq) ReqInternalError ''fetch proxy failed'') (fst st), pb)"
    using answer_and_drop_unanswered [OF open_request] by blast
  then show ?thesis using w(1) c
    by (simp add: fetch_serve_def serve_with_upstream_def write_with_upstream_def and_then_def fw_drop_def serve_error_result_def Let_def)
qed

definition split_marker :: "unit reader" where
  "split_marker = \<lparr>rd_buffer = [], rd_stream = [Inr [0x41], Inr [0x0c, 3, 1]]\<rparr>"

theorem complete_upstream_fetch_is_reset_witness:
  "pending split_marker = body_bytes [marker_sample] \<and>
   (\<exists>fw st. fetch_serve (\<lambda>_. None) fetch_sample [stored_sample]
      (RestUpstream split_marker (\<lambda>_. None) (Done (Inr ok_sample)) (Inr None)) (Done (Inr output_sample)) None None publisher_sample =
        (Done (Inl (SeServe SSize)), Some fw, st) \<and>
     fw_end fw = Some (Some (data_stream_reset_code_value RstMalformedTrack)))"
proof
  show p: "pending split_marker = body_bytes [marker_sample]" by code_simp
  have ready: "upstream_ready fetch_sample [stored_sample] [0x1c, 3, 1, 9, 1, 7] [marker_sample] split_marker output_sample"
    by (rule ready_sample [OF body_samples(2) _ _ p]) (code_simp+)
  have parts: "[marker_sample] = [] @ [([0x41] @ [0x0c, 3, 1], EndOfRange UnknownRange (Location_new 3 1), [])]" by (simp add: marker_sample_def)
  have chunks: "rd_stream split_marker = [Inr [0x41]] @ [Inr [0x0c, 3, 1]]" by (simp add: split_marker_def)
  have short: "length [0x0c, 3, 1 :: u8] \<le> COPY_CHUNK_SIZE" by (simp add: COPY_CHUNK_SIZE_def)
  from complete_upstream_fetch_is_reset [OF ready parts list.distinct(2) list.distinct(2) chunks short publisher_sample_unanswered, of "\<lambda>_. None" ok_sample None]
  show "\<exists>fw st. fetch_serve (\<lambda>_. None) fetch_sample [stored_sample]
      (RestUpstream split_marker (\<lambda>_. None) (Done (Inr ok_sample)) (Inr None)) (Done (Inr output_sample)) None None publisher_sample =
        (Done (Inl (SeServe SSize)), Some fw, st) \<and>
     fw_end fw = Some (Some (data_stream_reset_code_value RstMalformedTrack))"
    by blast
qed

lemma serve_local_outcome:
  assumes served: "serve_local fq obs unknown_through end_of_track end_location (Done (Inr out)) fin closed st = (Done res, stream, st')"
    and fresh: "ou_wire out = []"
  shows "\<exists>fw. stream = Some fw \<and>
    (fw_end fw = Some (Some (fw_reset fw)) \<and> isl res \<or>
     fw_end fw = Some None \<and>
     (\<exists>bs. ou_wire (fw_out fw) = header_bytes (fq_id fq) @ bs \<and>
        receive_items (length (local_items obs unknown_through)) None bs = Inr (map item_normal (local_items obs unknown_through), []))) \<and>
    (\<exists>msgs. fst st' = fold push_outgoing msgs (fst st) \<and> length msgs \<le> 1 \<and> (\<forall>ok. FetchOk ok \<in> set msgs \<longrightarrow> fw_end fw = Some None))"
proof -
  define fw0 where "fw0 = fetch_writer_new out (fq_id fq) (fq_subscriber_priority fq)"
  have f0: "wrote fw0 []" "fw_encoder fw0 = None" "fw_end fw0 = None" "fw_request_id fw0 = fq_id fq"
    using fresh by (simp_all add: fw0_def fetch_writer_new_def wrote_def)
  from served show ?thesis
  proof (cases rule: serve_local_cases)
    case (1 fw)
    obtain bs where bs: "fetch_image None (local_items obs unknown_through) = Some bs" "list_all item_ok (local_items obs unknown_through)"
        "fw_end fw = Some None" "ou_wire (fw_out fw) = header_bytes (fq_id fq) @ bs"
      using write_local_done [OF 1(1) [folded fw0_def] f0(1,2)] f0(4) by auto
    have "receive_items (length (local_items obs unknown_through)) None bs = Inr (map item_normal (local_items obs unknown_through), [])"
      using streams_all [OF fetch_image_streams [OF bs(1,2)]] by (simp add: priors_agree_def)
    then show ?thesis using 1(2,3) bs by (auto simp: fw_drop_def answered_by_def)
  next
    case (2 r fw)
    have e: "fw_end fw = None" by (rule write_local_open [OF 2(1) [folded fw0_def] f0(3) 2(2)])
    obtain msgs e where m: "fst st' = fold push_outgoing msgs (fst st)" "length msgs \<le> 1" "set msgs \<subseteq> {RequestError e}"
      using 2(5) by (auto simp: answered_by_def)
    then have "\<forall>ok. FetchOk ok \<notin> set msgs" by auto
    then show ?thesis using 2(3,4) e m by (auto simp: fw_drop_def set_reset_def)
  qed
qed

text \<open>
  C12. A response from the publisher's storage, over any behaviour of the transport and however the
  request is interrupted: when serving has come to an end its stream is either reset or finished; a finished stream
  is the header and a body from which the subscriber decodes exactly the stored objects and the marker of
  the unknown range; and at most one answer goes out, FETCH_OK only if the stream is finished.
\<close>

theorem finished_fetch_response_is_complete:
  assumes served: "serve_local fq obs unknown_through end_of_track end_location (Done (Inr out)) fin closed st = (Done res, stream, st')"
    and fresh: "ou_wire out = []"
  shows "\<exists>fw. stream = Some fw \<and>
    (fw_end fw = Some (Some (fw_reset fw)) \<and> isl res \<or>
     fw_end fw = Some None \<and>
     (\<exists>bs. ou_wire (fw_out fw) = header_bytes (fq_id fq) @ bs \<and>
        receive_items (length (local_items obs unknown_through)) None bs = Inr (map item_normal (local_items obs unknown_through), []))) \<and>
    (\<exists>msgs. fst st' = fold push_outgoing msgs (fst st) \<and> length msgs \<le> 1 \<and> (\<forall>ok. FetchOk ok \<in> set msgs \<longrightarrow> fw_end fw = Some None))"
  using assms by (rule serve_local_outcome)

lemma write_local_sample:
  assumes "through = None \<or> through = Some (Location_new 3 1)"
  shows "\<exists>fw. write_local [stored_sample] through None (fetch_writer_new output_sample 2 128) = (Done (Inr ()), fw) \<and> fw_end fw = Some None"
proof -
  let ?fw = "fetch_writer_new output_sample 2 128"
  obtain q n where e: "encode_entry None (FetchEntryObject fetch_object_a) fresh_vec = Inr (q, \<lparr>wr_bytes = [0x1c, 3, 1, 9, 1], wr_room = n\<rparr>)"
    using encode_samples(1) by blast
  obtain q' n' where e': "encode_end_of_range UnknownRange (Location_new 3 1) fresh_vec = Inr (q', \<lparr>wr_bytes = [0x41, 0x0c, 3, 1], wr_room = n'\<rparr>)"
    using encode_samples(2) by (auto simp: encode_entry_def)
  have img: "\<exists>bs. fetch_image None (local_items [stored_sample] through) = Some bs \<and> length bs \<le> 10"
    using assms e e' by (auto simp: local_items_def stored_item_def stored_sample_def) (simp add: encode_entry_def)
  have calls: "object_calls [stored_sample] = 3" by code_simp
  have able: "able 10 (object_calls [stored_sample] + 2) ?fw"
    using encode_samples(3) by (auto simp: able_def fetch_writer_new_def output_sample_def calls list_all_length accepting_def header_sample)
  have ok: "list_all item_ok (map stored_item [stored_sample])" by code_simp
  have fresh: "wrote ?fw []" "fw_encoder ?fw = None" by (simp_all add: fetch_writer_new_def output_sample_def wrote_def)
  obtain fw where w: "write_local [stored_sample] through None ?fw = (Done (Inr ()), fw)"
    using img write_local_able [OF able _ _ ok fresh] by blast
  then show ?thesis using write_local_done [OF w fresh] by auto
qed

theorem finished_fetch_response_is_complete_witness:
  "\<exists>res fw st'. serve_local fetch_sample [stored_sample] (Some (Location_new 3 1)) False (Location_new 3 2) (Done (Inr output_sample)) None None publisher_sample =
     (Done res, Some fw, st') \<and> fw_end fw = Some None \<and>
     (\<exists>bs. ou_wire (fw_out fw) = [5, 2] @ bs \<and>
        receive_items 2 None bs = Inr (map item_normal (local_items [stored_sample] (Some (Location_new 3 1))), []))"
proof -
  obtain fw where w: "write_local [stored_sample] (Some (Location_new 3 1)) None (fetch_writer_new output_sample 2 128) = (Done (Inr ()), fw)"
      "fw_end fw = Some None" using write_local_sample by blast
  note fin = w(2)
  obtain res st' where s: "serve_local fetch_sample [stored_sample] (Some (Location_new 3 1)) False (Location_new 3 2) (Done (Inr output_sample)) None None publisher_sample =
      (Done res, Some (fw_drop fw), st')"
    using w(1) by (simp add: serve_local_def fetch_sample_def split_beta)
  have "length (local_items [stored_sample] (Some (Location_new 3 1))) = 2" "ou_wire output_sample = []" "header_bytes (fq_id fetch_sample) = [5, 2]"
    by (simp_all add: local_items_def output_sample_def header_sample fetch_sample_def)
  then have "\<exists>bs. ou_wire (fw_out (fw_drop fw)) = [5, 2] @ bs \<and>
      receive_items 2 None bs = Inr (map item_normal (local_items [stored_sample] (Some (Location_new 3 1))), [])"
    using finished_fetch_response_is_complete [OF s] fin by (auto simp: fw_drop_def simp del: receive_items.simps)
  then show ?thesis using s fin by (intro exI [of _ res] exI [of _ "fw_drop fw"] exI [of _ st']) (simp add: fw_drop_def del: receive_items.simps)
qed

section \<open>The relay\<close>

definition item_location :: "fetch_item \<Rightarrow> location" where
  "item_location i = (case fst i of FetchEntryObject ob \<Rightarrow> fetch_object_location ob | EndOfRange _ loc \<Rightarrow> loc)"

lemma item_location_stored: "item_location (item_normal (stored_item ob)) = fro_location ob"
  by (simp add: item_location_def item_normal_def stored_item_def fro_location_def fetch_object_location_def object_normal_def)

text \<open>What the relay answers when the retained plan is complete.\<close>

lemma serve_fetch_complete:
  assumes "ft_standalone_fetch (fq_request fq) = Some standalone" and "upstream_fetch_params (ft_params (fq_request fq)) = Inr params"
    and "retained_track scope \<lparr>ftn_namespace = sfe_track_namespace standalone, ftn_name = sfe_track_name standalone\<rparr> lc = (Some t, lc1)"
    and "plan (fst (retained t)) (snd (retained t)) (sfe_start_location standalone) (sfe_end_location standalone) (fq_group_order fq) = Complete obs end_location"
  shows "serve_fetch reset_of scope retained fq False route opened fin interrupted (lc, st) =
    (case serving (fetch_serve reset_of fq obs (RestComplete False end_location) opened fin interrupted st) of (res, fw, st) \<Rightarrow> (res, fw, lc1, st))"
  using assms by (simp add: serve_fetch_def Let_def)

lemma serve_fetch_partial:
  assumes "ft_standalone_fetch (fq_request fq) = Some standalone" and "upstream_fetch_params (ft_params (fq_request fq)) = Inr params"
    and "retained_track scope \<lparr>ftn_namespace = sfe_track_namespace standalone, ftn_name = sfe_track_name standalone\<rparr> lc = (Some t, lc1)"
    and "plan (fst (retained t)) (snd (retained t)) (sfe_start_location standalone) (sfe_end_location standalone) (fq_group_order fq) =
      Partial obs unknown last_location end_location" and "fq_group_order fq = Ascending" and "obs \<noteq> []"
    and "route (standalone\<lparr>sfe_start_location := unknown\<rparr>) params = Routed (Some up)"
  shows "serve_fetch reset_of scope retained fq False route opened fin interrupted (lc, st) =
    (case serving (fetch_serve reset_of fq obs (RestUpstream (uf_stream up) (uf_closed up) (uf_ok up) (uf_error up)) opened fin interrupted st) of
       (res, fw, st) \<Rightarrow> (res, fw, lc1, st))"
  using assms by (simp add: serve_fetch_def serve_unserved_def upstream_request_def retained_prefix_def splice_from_def Let_def)

text \<open>
  The relay answers a FETCH from retained groups: when the plan for the range is complete, then over any behaviour
  of the transport the stream it opens ends reset or finished, and from a finished stream the subscriber
  decodes one object for every location of the range up to the largest known one, in response order, each
  the retained object with its payload.
\<close>

theorem relay_fetch_from_retention_is_complete:
  assumes request: "ft_standalone_fetch (fq_request fq) = Some standalone" "upstream_fetch_params (ft_params (fq_request fq)) = Inr params"
    and track: "retained_track scope \<lparr>ftn_namespace = sfe_track_namespace standalone, ftn_name = sfe_track_name standalone\<rparr> lc = (Some t, lc1)"
      "retained t = (live, g)" "groups_ok lay g"
    and range: "largest_location live g = Some largest" "\<not> location_less largest (sfe_start_location standalone)"
      "lst = location_min (inclusive_end (sfe_end_location standalone)) largest" "\<not> location_less lst (sfe_start_location standalone)"
      "object_id (sfe_start_location standalone) \<le> END_OF_GROUP" "object_id lst \<le> END_OF_GROUP"
    and complete: "plan live g (sfe_start_location standalone) (sfe_end_location standalone) (fq_group_order fq) = Complete obs end_location"
    and served: "serve_fetch reset_of scope retained fq False route (Done (Inr out)) fin interrupted (lc, st) = (Done res, stream, s')" "ou_wire out = []"
  shows "\<exists>fw. stream = Some fw \<and>
    (fw_end fw = Some (Some (fw_reset fw)) \<and> isl res \<or>
     fw_end fw = Some None \<and>
     (\<exists>bs items. ou_wire (fw_out fw) = header_bytes (fq_id fq) @ bs \<and> receive_items (length obs) None bs = Inr (items, []) \<and>
        map item_location items = requested (fq_group_order fq) (sfe_start_location standalone) lst \<and>
        map snd items = map (concat \<circ> fro_payload) obs \<and> list_all (stored g) obs))"
proof -
  let ?closed = "case interrupted of Some (Closed e) \<Rightarrow> Some e | _ \<Rightarrow> None"
  have plan: "plan (fst (retained t)) (snd (retained t)) (sfe_start_location standalone) (sfe_end_location standalone) (fq_group_order fq) = Complete obs end_location"
    using complete track(2) by simp
  obtain r fw0 st0 where f: "fetch_serve reset_of fq obs (RestComplete False end_location) (Done (Inr out)) fin interrupted st = (r, fw0, st0)"
    by (rule prod_cases3)
  have s: "serving (r, fw0, st0) = (Done res, stream, snd s')" 
    using serve_fetch_complete [where retained = retained and route = route and st = st and reset_of = reset_of and interrupted = interrupted, OF request track(1) plan]
      served(1) f by (cases "serving (r, fw0, st0)") auto
  then obtain r' where r': "r = Done r'" "fw0 = stream" "isl res = isl r'" by (auto simp: serving_def split: progress.splits sum.splits)
  have local: "serve_local fq obs None False end_location (Done (Inr out)) fin ?closed st = (Done r', stream, st0)"
    using f r' by (simp add: fetch_serve_def Let_def)
  have locs: "map fro_location obs = requested (fq_group_order fq) (sfe_start_location standalone) lst" "list_all (stored g) obs"
    using complete_plan_objects [OF track(3) range complete] by (simp_all add: list_all_iff)
  have items: "local_items obs None = map stored_item obs" by (simp add: local_items_def)
  have "map item_location (map item_normal (map stored_item obs)) = requested (fq_group_order fq) (sfe_start_location standalone) lst"
      "map snd (map item_normal (map stored_item obs)) = map (concat \<circ> fro_payload) obs"
    using locs(1) by (simp_all add: comp_def item_location_stored) (simp add: stored_item_def)
  then show ?thesis using serve_local_outcome [OF local served(2)] r'(3) locs(2) unfolding items length_map by blast
qed

text \<open>
  A range the relay has retained only up to \<open>unknown\<close>, in ascending order: upstream is asked for exactly the rest of
  the range, from \<open>unknown\<close> on, and if its response is complete and its last entry has a payload, the subscriber gets a
  finished stream from which it decodes the retained objects of every location before \<open>unknown\<close>, in order, and then
  the upstream's entries; the upstream's FETCH_OK is the answer.
\<close>

theorem relay_fetch_is_completed_upstream:
  assumes request: "ft_standalone_fetch (fq_request fq) = Some standalone" "upstream_fetch_params (ft_params (fq_request fq)) = Inr params"
    and track: "retained_track scope \<lparr>ftn_namespace = sfe_track_namespace standalone, ftn_name = sfe_track_name standalone\<rparr> lc = (Some t, lc1)"
      "retained t = (live, g)" "groups_ok lay g"
    and range: "largest_location live g = Some largest" "\<not> location_less largest (sfe_start_location standalone)"
      "lst = location_min (inclusive_end (sfe_end_location standalone)) largest" "\<not> location_less lst (sfe_start_location standalone)"
      "object_id (sfe_start_location standalone) \<le> END_OF_GROUP" "object_id lst \<le> END_OF_GROUP"
    and partial: "plan live g (sfe_start_location standalone) (sfe_end_location standalone) Ascending = Partial obs unknown last_location end_location"
      "fq_group_order fq = Ascending" "obs \<noteq> []"
    and upstream: "route (standalone\<lparr>sfe_start_location := unknown\<rparr>) params =
        Routed (Some \<lparr>uf_stream = rd, uf_closed = (\<lambda>_. None), uf_ok = Done (Inr response), uf_error = request_error\<rparr>)"
      "upstream_ready fq obs bs parts rd out" "parts \<noteq> []" "snd (snd (last parts)) \<noteq> []" "unanswered (fq_id fq) st"
  shows "\<exists>fw pb items rest.
    serve_fetch reset_of scope retained fq False route (Done (Inr out)) None interrupted (lc, st) =
      (Done (Inr ()), Some fw, lc1, push_outgoing (FetchOk (proxied_response response (fq_id fq))) (fst st), pb) \<and>
    fw_end fw = Some None \<and> ou_wire (fw_out fw) = header_bytes (fq_id fq) @ bs @ body_bytes parts \<and>
    receive_items (length obs + length parts) None (bs @ body_bytes parts) = Inr (items @ part_items parts, []) \<and>
    requested Ascending (sfe_start_location standalone) lst = map item_location items @ unknown # rest \<and> list_all (stored g) obs"
proof -
  have plan: "plan (fst (retained t)) (snd (retained t)) (sfe_start_location standalone) (sfe_end_location standalone) (fq_group_order fq) =
      Partial obs unknown last_location end_location"
    using partial track(2) by simp
  obtain fw pb where f: "fetch_serve reset_of fq obs (RestUpstream rd (\<lambda>_. None) (Done (Inr response)) request_error) (Done (Inr out)) None interrupted st =
      (Done (Inr ()), Some fw, push_outgoing (FetchOk (proxied_response response (fq_id fq))) (fst st), pb)"
      "fw_end fw = Some None" "ou_wire (fw_out fw) = header_bytes (fq_id fq) @ bs @ body_bytes parts"
      "receive_items (length obs + length parts) None (bs @ body_bytes parts) = Inr (map (item_normal \<circ> stored_item) obs @ part_items parts, [])"
    using serve_upstream_outcome [OF upstream(2-5), of reset_of response request_error interrupted] by blast
  obtain rest where rest: "requested Ascending (sfe_start_location standalone) lst = map fro_location obs @ unknown # rest" "list_all (stored g) obs"
    using partial_plan_gap [OF track(3) range partial(1)] by (auto simp: list_all_iff)
  have "map item_location (map (item_normal \<circ> stored_item) obs) = map fro_location obs" by (simp add: comp_def item_location_stored)
  then show ?thesis
    using serve_fetch_partial [where retained = retained and route = route, OF request track(1) plan partial(2,3) upstream(1)] f rest
    by (intro exI [of _ fw] exI [of _ pb] exI [of _ "map (item_normal \<circ> stored_item) obs"] exI [of _ rest]) (simp add: serving_def)
qed

text \<open>A relay that has retained one object of a track.\<close>

definition relay_request :: "location \<Rightarrow> fetch_requested" where
  "relay_request e = \<lparr>fq_id = 2, fq_subscriber_priority = 128, fq_group_order = Ascending,
     fq_request = \<lparr>ft_id = 2, ft_fetch_type = Standalone,
       ft_standalone_fetch = Some \<lparr>sfe_track_namespace = [[1]], sfe_track_name = [2], sfe_start_location = Location_new 3 1, sfe_end_location = e\<rparr>,
       ft_joining_fetch = None, ft_params = []\<rparr>\<rparr>"

definition retained_one :: retained_groups where
  "retained_one = insert_store stored_sample (retained_bytes unit_layout stored_sample) retained_groups_default"

definition relay_locals :: locals where
  "relay_locals = locals_new\<lparr>lc_retention := Some \<lparr>reg_used = 0, reg_tracks = [Some (retained_one, Idle)], reg_names = (\<lambda>_. Some 0)\<rparr>\<rparr>"

lemma retained_one_ok: "groups_ok unit_layout retained_one"
  unfolding retained_one_def using insert_store_ok(1) [of unit_layout retained_groups_default stored_sample]
  by (simp add: groups_ok_def retained_groups_default_def holds_def)

lemma relay_locals_track: "retained_track None full relay_locals = (Some 0, relay_locals)"
  by (simp add: retained_track_def relay_locals_def retention_lookup_def track_alive_def)

lemma relay_request_params: "upstream_fetch_params (ft_params (fq_request (relay_request e))) = Inr []"
  unfolding relay_request_def by code_simp

theorem relay_fetch_from_retention_is_complete_witness:
  "\<exists>res fw s' bs items. serve_fetch (\<lambda>_. None) None (\<lambda>_. (None, retained_one)) (relay_request (Location_new 3 2)) False
       (\<lambda>_ _. RouteFailed) (Done (Inr output_sample)) None None (relay_locals, publisher_sample) = (Done res, Some fw, s') \<and>
     fw_end fw = Some None \<and> ou_wire (fw_out fw) = [5, 2] @ bs \<and> receive_items 1 None bs = Inr (items, []) \<and>
     map item_location items = [Location_new 3 1]"
proof -
  let ?fq = "relay_request (Location_new 3 2)" and ?r = "\<lambda>_. (None, retained_one)" and ?l = "Location_new 3 1"
  let ?sf = "\<lparr>sfe_track_namespace = [[1]], sfe_track_name = [2], sfe_start_location = ?l, sfe_end_location = Location_new 3 2\<rparr>"
  have rq: "ft_standalone_fetch (fq_request ?fq) = Some ?sf" "fq_id ?fq = 2" "fq_subscriber_priority ?fq = 128" "fq_group_order ?fq = Ascending"
    by (simp_all add: relay_request_def)
  have range: "largest_location None retained_one = Some ?l" "\<not> location_less ?l (sfe_start_location ?sf)"
      "?l = location_min (inclusive_end (sfe_end_location ?sf)) ?l" "object_id (sfe_start_location ?sf) \<le> END_OF_GROUP" "object_id ?l \<le> END_OF_GROUP"
    by code_simp+
  have plan: "plan None retained_one (sfe_start_location ?sf) (sfe_end_location ?sf) (fq_group_order ?fq) = Complete [stored_sample] (Location_new 3 2)"
    by code_simp
  obtain fw where w: "write_local [stored_sample] None None (fetch_writer_new output_sample 2 128) = (Done (Inr ()), fw)" "fw_end fw = Some None"
    using write_local_sample by blast
  obtain res s' where s: "serve_fetch (\<lambda>_. None) None ?r ?fq False (\<lambda>_ _. RouteFailed) (Done (Inr output_sample)) None None (relay_locals, publisher_sample) =
      (Done res, Some (fw_drop fw), s')"
  proof -
    obtain r st' where "serve_local ?fq [stored_sample] None False (Location_new 3 2) (Done (Inr output_sample)) None None publisher_sample =
        (Done r, Some (fw_drop fw), st')"
      using w(1) by (simp add: serve_local_def rq split_beta)
    then have f: "serving (fetch_serve (\<lambda>_. None) ?fq [stored_sample] (RestComplete False (Location_new 3 2)) (Done (Inr output_sample)) None None publisher_sample) =
        (Done (case r of Inl e \<Rightarrow> Inl (ServeFailed e) | Inr _ \<Rightarrow> Inr ()), Some (fw_drop fw), st')"
      by (simp add: fetch_serve_def serving_def split: sum.splits)
    have "plan (fst (?r 0)) (snd (?r 0)) (sfe_start_location ?sf) (sfe_end_location ?sf) (fq_group_order ?fq) = Complete [stored_sample] (Location_new 3 2)"
      using plan by simp
    note eq = serve_fetch_complete [where retained = ?r, OF rq(1) relay_request_params relay_locals_track this]
    show thesis by (rule that, subst eq, simp only: f prod.case)
  qed
  have "requested Ascending ?l ?l = [?l]" by code_simp
  with relay_fetch_from_retention_is_complete [OF rq(1) relay_request_params relay_locals_track refl retained_one_ok range(1,2,3,2,4,5) plan s] w(2)
  obtain bs items where "ou_wire (fw_out fw) = [5, 2] @ bs" "receive_items 1 None bs = Inr (items, [])" "map item_location items = [?l]"
    by (auto simp: output_sample_def rq header_sample fw_drop_def simp del: receive_items.simps)
  moreover have "fw_drop fw = fw" using w(2) by (simp add: fw_drop_def)
  ultimately show ?thesis using s w(2) by (intro exI [of _ res] exI [of _ fw] exI [of _ s'] exI [of _ bs] exI [of _ items]) (simp del: receive_items.simps)
qed

definition upstream_sample :: "standalone_fetch \<Rightarrow> kvps \<Rightarrow> unit routed" where
  "upstream_sample request params =
     (if sfe_start_location request = Location_new 3 2
      then Routed (Some \<lparr>uf_stream = split_object, uf_closed = (\<lambda>_. None), uf_ok = Done (Inr ok_sample), uf_error = Inr None\<rparr>) else RouteFailed)"

theorem relay_fetch_is_completed_upstream_witness:
  "\<exists>fw s' items rest. serve_fetch (\<lambda>_. None) None (\<lambda>_. (Some (Location_new 3 3), retained_one)) (relay_request (Location_new 3 3)) False
       upstream_sample (Done (Inr output_sample)) None None (relay_locals, publisher_sample) = (Done (Inr ()), Some fw, s') \<and>
     fw_end fw = Some None \<and> receive_items 2 None ([0x1c, 3, 1, 9, 1, 7] @ [0x1c, 3, 1, 9, 1, 8]) = Inr (items @ part_items [object_sample], []) \<and>
     requested Ascending (Location_new 3 1) (Location_new 3 2) = map item_location items @ Location_new 3 2 # rest"
proof -
  let ?fq = "relay_request (Location_new 3 3)" and ?r = "\<lambda>_. (Some (Location_new 3 3), retained_one)" and ?l = "Location_new 3 1" and ?u = "Location_new 3 2"
  let ?sf = "\<lparr>sfe_track_namespace = [[1]], sfe_track_name = [2], sfe_start_location = ?l, sfe_end_location = Location_new 3 3\<rparr>"
  have rq: "ft_standalone_fetch (fq_request ?fq) = Some ?sf" "fq_id ?fq = 2" "fq_subscriber_priority ?fq = 128" "fq_group_order ?fq = Ascending"
    by (simp_all add: relay_request_def)
  have range: "largest_location (Some (Location_new 3 3)) retained_one = Some (Location_new 3 3)" "\<not> location_less (Location_new 3 3) (sfe_start_location ?sf)"
      "?u = location_min (inclusive_end (sfe_end_location ?sf)) (Location_new 3 3)" "\<not> location_less ?u (sfe_start_location ?sf)"
      "object_id (sfe_start_location ?sf) \<le> END_OF_GROUP" "object_id ?u \<le> END_OF_GROUP"
    by code_simp+
  have plan: "plan (Some (Location_new 3 3)) retained_one (sfe_start_location ?sf) (sfe_end_location ?sf) Ascending = Partial [stored_sample] ?u ?u (Location_new 3 3)"
    by code_simp
  have up: "upstream_sample (?sf\<lparr>sfe_start_location := ?u\<rparr>) [] =
      Routed (Some \<lparr>uf_stream = split_object, uf_closed = (\<lambda>_. None), uf_ok = Done (Inr ok_sample), uf_error = Inr None\<rparr>)"
    by (simp add: upstream_sample_def)
  have "upstream_ready fetch_sample [stored_sample] [0x1c, 3, 1, 9, 1, 7] [object_sample] split_object output_sample"
    by (rule ready_sample [OF body_samples(1)]) (code_simp+)
  then have ready: "upstream_ready ?fq [stored_sample] [0x1c, 3, 1, 9, 1, 7] [object_sample] split_object output_sample"
    by (simp add: upstream_ready_def relay_request_def fetch_sample_def)
  have un: "unanswered (fq_id ?fq) publisher_sample" using publisher_sample_unanswered by (simp add: rq fetch_sample_def)
  have "snd (snd (last [object_sample])) \<noteq> []" by (simp add: object_sample_def)
  from relay_fetch_is_completed_upstream [where retained = ?r and route = upstream_sample, OF rq(1) relay_request_params relay_locals_track refl retained_one_ok
      range plan rq(4) list.distinct(2) up ready list.distinct(2) this un, of "\<lambda>_. None" None]
  show ?thesis by (simp add: rq object_sample_def numeral_2_eq_2 del: receive_items.simps) blast
qed

end
