(* ===== verification/Spec2Isabelle.thy ===== *)
theory Spec2Isabelle
  imports Wire_Properties Stream_Properties Session_Properties Relay_Properties Serve_Properties Upstream_Properties
    Run_Properties Fetch_Properties
begin

text \<open>
  A verification development for moq-rs, an implementation of MoQ Transport (draft 16, with
  the draft 19 control plane as a second profile) and of a relay over it.

  \<^bold>\<open>The program.\<close> Two peers open a session over QUIC or WebTransport and exchange control
  messages on one bidirectional stream and objects on unidirectional streams and in
  datagrams (\<^verbatim>\<open>moq-transport\<close>: \<^verbatim>\<open>coding\<close>, \<^verbatim>\<open>message\<close>, \<^verbatim>\<open>setup\<close>, \<^verbatim>\<open>data\<close>, \<^verbatim>\<open>session\<close>, \<^verbatim>\<open>profile\<close>). Inside a
  process the objects of a track pass from a writer to any number of readers through
  shared watched state (\<^verbatim>\<open>watch\<close>, \<^verbatim>\<open>serve\<close>). The relay (\<^verbatim>\<open>moq-relay-ietf\<close>) keeps a registry of
  the namespaces and tracks its clients publish, subscribes upstream for the minimal set of
  prefixes its clients want, and retains recent groups to answer FETCH.

  \<^bold>\<open>Bytes and messages.\<close> \<^verbatim>\<open>Wire_Prelude\<close> has bytes as lists of 8-bit words, decoders as functions
  from the unread bytes to an error or a value with the rest, encoders into a buffer that
  may be bounded, and the locale of a codec: a decoder that is delimited, reads back what
  its encoder writes and asks for more on every proper prefix. \<^verbatim>\<open>Coding\<close> (\<^verbatim>\<open>coding/*.rs\<close>), \<^verbatim>\<open>Names\<close>
  (\<^verbatim>\<open>coding/track_namespace*.rs\<close>, \<^verbatim>\<open>track_name.rs\<close>), \<^verbatim>\<open>Kvp\<close> (\<^verbatim>\<open>coding/kvp.rs\<close>), \<^verbatim>\<open>Params\<close>
  (\<^verbatim>\<open>message/params.rs\<close> and the track extensions), \<^verbatim>\<open>Messages\<close> and \<^verbatim>\<open>Control\<close> (\<^verbatim>\<open>message/*.rs\<close>, \<^verbatim>\<open>setup/*.rs\<close>)
  interpret it level by level. \<^verbatim>\<open>Transport\<close> (\<^verbatim>\<open>session/reader.rs\<close>, \<^verbatim>\<open>writer.rs\<close>, the error types) puts
  them on a transport that delivers chunks of any size. \<^verbatim>\<open>Data_Plane\<close> and \<^verbatim>\<open>Fetch_Stream\<close>
  (\<^verbatim>\<open>data/*.rs\<close>) are the object streams, datagrams and the stateful FETCH response codec.
  \<^verbatim>\<open>Draft19\<close> and \<^verbatim>\<open>Request_Stream\<close> (\<^verbatim>\<open>profile.rs\<close>, \<^verbatim>\<open>profile/draft19.rs\<close>) are the second profile: its set-up,
  frames, GOAWAY state and the state machine of a request stream. \<^verbatim>\<open>Session_State\<close>
  (\<^verbatim>\<open>session/request_id.rs\<close>, \<^verbatim>\<open>pending_requests.rs\<close>, \<^verbatim>\<open>priority.rs\<close>) is the flow control of request ids
  and the table of unanswered requests.

  \<^bold>\<open>Serving.\<close> \<^verbatim>\<open>Watch\<close> (\<^verbatim>\<open>watch/state.rs\<close>, \<^verbatim>\<open>queue.rs\<close>) is the shared state: critical sections are atomic
  steps, wakers are numbers, an epoch counts notifications. \<^verbatim>\<open>Serve\<close> (\<^verbatim>\<open>serve/datagram.rs\<close>,
  \<^verbatim>\<open>subgroup.rs\<close>, \<^verbatim>\<open>tap.rs\<close>), \<^verbatim>\<open>Serve_Streams\<close> (\<^verbatim>\<open>stream.rs\<close>, \<^verbatim>\<open>object.rs\<close>) and \<^verbatim>\<open>Serve_Tracks\<close> (\<^verbatim>\<open>track.rs\<close>,
  \<^verbatim>\<open>tracks.rs\<close>) are the writers and readers. A reader's method is one round of its loop: it
  returns a value or names the epoch it waits for. The locale of a cursor reader is the
  contract shared by the readers of objects and of chunks. Tracks live in an explicit
  store, because their handles are shared and a cached reader can be stale.

  \<^bold>\<open>Sessions.\<close> \<^verbatim>\<open>Delivery\<close> (\<^verbatim>\<open>session/subscribed.rs\<close>) sends a track's
  subgroups and datagrams to a subscriber; \<^verbatim>\<open>Ingress\<close> (\<^verbatim>\<open>subscribe.rs\<close>, \<^verbatim>\<open>publish_received.rs\<close>,
  \<^verbatim>\<open>subscriber/ingress.rs\<close>) mirrors what arrives into a local track; \<^verbatim>\<open>Delivery_Laws\<close> proves them against
  each other. \<^verbatim>\<open>Subscriber_Role\<close> and \<^verbatim>\<open>Publisher_Role\<close> (\<^verbatim>\<open>subscriber.rs\<close>, \<^verbatim>\<open>subscriber/registry.rs\<close>, \<^verbatim>\<open>publisher.rs\<close>
  and the handles of single requests) are the two sides of a session: their registries, every control-message handler, every call of
  the application and the destructors of its handles. \<^verbatim>\<open>Session_Loop\<close> (\<^verbatim>\<open>session/mod.rs\<close>) joins them: set-up
  parameters and the connection path, the control loop, timeouts and datagrams. State shared by a handle and
  its role stays in the role's record under the request id; what a handle alone knows is a value.
  \<^verbatim>\<open>Session_Laws\<close> has the invariant of a session and that every operation keeps it; \<^verbatim>\<open>Answers\<close> counts
  the answers to each request and the handles that may still answer; \<^verbatim>\<open>Session_Runs\<close> puts the loops, the
  sender and the application's calls into one step relation, in any interleaving, and proves both
  invariants for every reachable state; a serve waits there for its SUBSCRIBE_OK to leave the queue and
  may be dropped in that wait. \<^verbatim>\<open>Fetch_Response\<close> (\<^verbatim>\<open>fetch_requested.rs\<close>) serves a FETCH from stored objects
  and an upstream response; \<^verbatim>\<open>Fetch_Laws\<close> follows its stream byte by byte.

  \<^bold>\<open>The relay.\<close> \<^verbatim>\<open>Covering\<close> (\<^verbatim>\<open>covering_prefix_set.rs\<close>) is the minimal prefix cover; \<^verbatim>\<open>Retention\<close>
  (\<^verbatim>\<open>retention.rs\<close>) the byte accounting of retained groups as a machine whose steps are the
  accesses to the shared counter, alone (\<open>rt_insert\<close>) and with other tracks changing the counter
  between them (\<open>insert_among\<close>), and the planning of FETCH; \<^verbatim>\<open>Locals\<close> (\<^verbatim>\<open>local.rs\<close>) the registry
  of namespaces and tracks, on top of \<^verbatim>\<open>Serve_Tracks\<close> and \<^verbatim>\<open>Retention\<close>, with the changes it has
  made, those in flight and those sent. \<^verbatim>\<open>Relay_Fetch\<close> (\<^verbatim>\<open>producer.rs\<close>, \<^verbatim>\<open>serve_fetch\<close>) answers a FETCH
  from retained groups and an upstream. \<^verbatim>\<open>Upstream\<close>
  (\<^verbatim>\<open>upstream_namespaces.rs\<close>) is the shared upstream subscription manager on top of \<^verbatim>\<open>Covering\<close> and
  \<^verbatim>\<open>Locals\<close>: leases, the command queue, roots with one pull per relay, and the transition
  between two covers; \<^verbatim>\<open>Upstream_Roots\<close> and \<^verbatim>\<open>Upstream_Delta\<close> prove its invariant.

  \<^bold>\<open>What is shown.\<close> \<^verbatim>\<open>Wire_Properties\<close>: messages round-trip over any chunking of the transport,
  decoders of both profiles never panic, messages are decoded incrementally, integers and namespaces keep their bounds, and
  two ways in which a peer can make the reader wait or reject what the writer produced.
  \<^verbatim>\<open>Stream_Properties\<close>: the same for objects, datagrams and the FETCH codec, whose decoder
  simulates its encoder. \<^verbatim>\<open>Session_Properties\<close>: request ids refine a set of accepted ids, pending
  requests are answered once, REQUESTS_BLOCKED is reported once per limit, a draft 19 request stream finishes only when complete.
  \<^verbatim>\<open>Relay_Properties\<close>: followers of the prefix cover hold the minimal cover, retention stays
  within its budgets under any interleaving, insertion terminates and drops only older groups
  whatever other tracks do, a FETCH plan tells the truth. \<^verbatim>\<open>Serve_Properties\<close>: waiters are woken, queues are first-in first-out, readers of
  subgroups, objects and datagrams see what was written in order, broadcasts hand out live
  tracks, the relay's registry has exactly the namespaces that have an owner, its followers
  agree on namespaces whose changes were sent in order, it routes to the longest prefix and keeps retention in step with its entries; and four places where
  the code does not do what it means to. \<^verbatim>\<open>Upstream_Properties\<close>: at rest the upstream roots are the
  minimal cover of the leased prefixes, and overlapping prefixes are never pulled from one
  relay at a time. \<^verbatim>\<open>Run_Properties\<close>: in every reachable state of a session no request is answered twice
  unless a serve was dropped while it waited for its own SUBSCRIBE_OK (then it can be), the state is well formed, aliases and track names lead to live requests; a forwarded subgroup arrives as
  exactly the objects the filter allows, over any chunking; datagrams arrive or are counted as lost; the
  filters mean what the draft says; connection paths are canonical; and a rejected announcement cannot be
  repeated. \<^verbatim>\<open>Fetch_Properties\<close>: a finished FETCH response is complete and FETCH_OK goes out only with one; an
  upstream response is appended unchanged and decodes behind the stored objects; and one whose last entry
  has no payload can be reset although it is complete; the relay answers a FETCH completely from retained
  groups, or asks upstream for exactly the rest. Each proof is a few steps over the lemmas of the component's theory.

  \<^bold>\<open>Bounds.\<close> Wire integers, ids and counters that the code wraps, checks or saturates are words
  of their width; sizes of vectors and counts of notifications are natural numbers, bounded
  by hypotheses such as \<open>length ops < 2 ^ 64\<close> where the code counts in a \<^verbatim>\<open>u64\<close>; the ids of the
  upstream manager, which are only compared, are natural numbers that never repeat. Loops are
  structural or have a measure; there is no fuel. \<^verbatim>\<open>usize\<close> is taken to have 64 bits.

  \<^bold>\<open>Parameters.\<close> The transport is a list of chunks and errors, or a function from the bytes
  offered to the bytes taken; sizes of Rust values in memory, which only the retention
  budget uses, are the record \<open>layout\<close>. Time is a number passed in.

  In the step relation of a session the application may call anything at any time, subject to what Rust's
  ownership gives: a handle is used while it is held and dropped once, \<^verbatim>\<open>serve\<close> consumes a fresh
  subscription, and a status request is answered once, as its callers do (the type alone would allow
  \<^verbatim>\<open>respond_error\<close> twice). A step may also follow one that failed, which the code does not do; the invariants
  hold there too.

  \<^bold>\<open>Not modelled.\<close> The relay's other tasks (\<^verbatim>\<open>producer.rs\<close>, \<^verbatim>\<open>consumer.rs\<close>, \<^verbatim>\<open>remote.rs\<close>) join sessions, coordinators
  and the registries above by asynchronous I/O; the request streams of SUBSCRIBE_NAMESPACE, the draft 19 session, the catalog types and the MMTP publisher are not modelled either. QUIC,
  TLS, HTTP, metrics, logs and command lines are input and output. A poisoned lock, tracing and allocation
  failure are left out everywhere.
\<close>

end
